(* ===== verification/CPrelude.thy ===== *)
theory CPrelude
  imports Main "HOL-Library.Multiset" "HOL-Library.Monad_Syntax" "HOL-Library.Word"
begin

text \<open>
  The prelude of the development: what the C sources take from the language itself, and the
  generic lemmas every component uses.

  A C computation that may stop abnormally has type \<open>'a option\<close>: \<^term>\<open>None\<close> is a run that
  does not return, because an access leaves its array, because an \<^verbatim>\<open>assert\<close> fails or because
  \<^verbatim>\<open>abort\<close>, \<^verbatim>\<open>fatal\<close> or \<^verbatim>\<open>panic\<close> is called. A theorem that a function equals
  \<open>Some r\<close> therefore shows at once that the call is memory safe, passes its assertions,
  terminates and returns \<open>r\<close>.

  \<open>rd\<close> and \<open>wr\<close> are the array accesses \<^verbatim>\<open>a[i]\<close> and \<^verbatim>\<open>a[i] = v\<close>; \<open>for_loop\<close> is
  \<^verbatim>\<open>for (i = lo; i < hi; i++)\<close> over an explicit loop state; \<open>fresh\<close> is the block of words
  that \<^verbatim>\<open>malloc\<close> returns, whose contents are a parameter because C leaves them
  indeterminate. An array of fixed-size blocks is a flat list of words, related to the list of
  its blocks by \<^const>\<open>concat\<close>.
\<close>

named_theorems c_mem \<open>unfolding rules of the memory accesses\<close>
named_theorems c_blk \<open>facts on flat arrays seen as lists of blocks\<close>

section \<open>Arrays\<close>

definition rd :: "'a list \<Rightarrow> nat \<Rightarrow> 'a option" where
  "rd a i = (if i < length a then Some (a ! i) else None)"

definition wr :: "'a list \<Rightarrow> nat \<Rightarrow> 'a \<Rightarrow> 'a list option" where
  "wr a i v = (if i < length a then Some (a[i := v]) else None)"

definition c_assert :: "bool \<Rightarrow> unit option" where
  "c_assert b = (if b then Some () else None)"

definition fresh :: "(nat \<Rightarrow> 'a) \<Rightarrow> nat \<Rightarrow> 'a list" where
  "fresh junk n = map junk [0..<n]"

lemma rd_ok [simp, c_mem]: "i < length a \<Longrightarrow> rd a i = Some (a ! i)"
  by (simp add: rd_def)

lemma rd_bad: "\<not> i < length a \<Longrightarrow> rd a i = None"
  by (simp add: rd_def)

lemma wr_ok [simp, c_mem]: "i < length a \<Longrightarrow> wr a i v = Some (a[i := v])"
  by (simp add: wr_def)

lemma wr_bad: "\<not> i < length a \<Longrightarrow> wr a i v = None"
  by (simp add: wr_def)

lemma c_assert_simps [simp]: "c_assert True = Some ()" "c_assert False = None"
  by (simp_all add: c_assert_def)

lemma length_fresh [simp]: "length (fresh junk n) = n"
  by (simp add: fresh_def)

section \<open>Loops\<close>

function for_loop :: "nat \<Rightarrow> nat \<Rightarrow> (nat \<Rightarrow> 's \<Rightarrow> 's option) \<Rightarrow> 's \<Rightarrow> 's option" where
  "for_loop i n f s = (if i < n then f i s \<bind> for_loop (Suc i) n f else Some s)"
  by pat_completeness auto
termination
  by (relation "measure (\<lambda>(i, n, f, s). n - i)") auto

declare for_loop.simps [simp del]

lemma for_loop_done [simp]: "n \<le> i \<Longrightarrow> for_loop i n f s = Some s"
  by (subst for_loop.simps) simp

lemma for_loop_step: "i < n \<Longrightarrow> for_loop i n f s = f i s \<bind> for_loop (Suc i) n f"
  by (subst for_loop.simps) simp

text \<open>
  The two rules that carry every loop of the development: total correctness by an invariant,
  and the equational form for a loop whose state before round \<open>i\<close> is known as \<open>g i\<close>.
\<close>

lemma for_loop_rule:
  assumes "lo \<le> hi" and "I lo s"
    and "\<And>i s. lo \<le> i \<Longrightarrow> i < hi \<Longrightarrow> I i s \<Longrightarrow> \<exists>s'. f i s = Some s' \<and> I (Suc i) s'"
  shows "\<exists>s'. for_loop lo hi f s = Some s' \<and> I hi s'"
  using assms
proof (induction "hi - lo" arbitrary: lo s)
  case 0
  then show ?case by auto
next
  case (Suc n)
  then have lt: "lo < hi" by simp
  with Suc.prems obtain s' where s': "f lo s = Some s'" "I (Suc lo) s'"
    by (meson le_refl)
  have "\<exists>t. for_loop (Suc lo) hi f s' = Some t \<and> I hi t"
    using Suc.hyps(2) Suc.prems(3) s'(2) lt by (intro Suc.hyps(1)) auto
  then show ?case using lt s'(1) by (simp add: for_loop_step)
qed

lemma for_loop_eq:
  assumes "lo \<le> hi" and "s = g lo"
    and "\<And>i. lo \<le> i \<Longrightarrow> i < hi \<Longrightarrow> f i (g i) = Some (g (Suc i))"
  shows "for_loop lo hi f s = Some (g hi)"
proof -
  have "\<exists>s'. for_loop lo hi f s = Some s' \<and> s' = g hi"
    by (rule for_loop_rule [where I = "\<lambda>i s. s = g i"]) (use assms in auto)
  then show ?thesis by simp
qed

lemma for_loop_cong:
  assumes "\<And>i s. lo \<le> i \<Longrightarrow> i < hi \<Longrightarrow> f i s = g i s"
  shows "for_loop lo hi f s = for_loop lo hi g s"
  using assms
proof (induction "hi - lo" arbitrary: lo s)
  case 0
  then show ?case by simp
next
  case (Suc n)
  then have lt: "lo < hi" by simp
  have "for_loop (Suc lo) hi f t = for_loop (Suc lo) hi g t" for t
    using Suc.hyps(2) Suc.prems by (intro Suc.hyps(1)) auto
  then have "for_loop (Suc lo) hi f = for_loop (Suc lo) hi g" by auto
  with lt Suc.prems show ?case by (simp add: for_loop_step)
qed

section \<open>Flat arrays of blocks\<close>

definition uniform :: "nat \<Rightarrow> 'a list list \<Rightarrow> bool" where
  "uniform n bs \<longleftrightarrow> (\<forall>b \<in> set bs. length b = n)"

definition blk :: "nat \<Rightarrow> 'a list \<Rightarrow> nat \<Rightarrow> 'a list" where
  "blk n xs i = take n (drop (i * n) xs)"

definition blocks :: "nat \<Rightarrow> nat \<Rightarrow> 'a list \<Rightarrow> 'a list list" where
  "blocks n N xs = map (blk n xs) [0..<N]"

lemma uniform_simps [simp]:
  "uniform n []" "uniform n (b # bs) \<longleftrightarrow> length b = n \<and> uniform n bs"
  "uniform n (bs @ cs) \<longleftrightarrow> uniform n bs \<and> uniform n cs"
  by (auto simp: uniform_def)

lemma uniform_nth [simp]: "uniform n bs \<Longrightarrow> i < length bs \<Longrightarrow> length (bs ! i) = n"
  by (auto simp: uniform_def)

lemma uniform_update [simp]: "uniform n bs \<Longrightarrow> length b = n \<Longrightarrow> uniform n (bs[i := b])"
  unfolding uniform_def using set_update_subset_insert [of bs i b] by auto

lemma uniform_mset: "uniform n bs \<Longrightarrow> mset cs = mset bs \<Longrightarrow> uniform n cs"
  unfolding uniform_def by (metis set_mset_mset)

lemma length_concat_uniform [simp]: "uniform n bs \<Longrightarrow> length (concat bs) = length bs * n"
  by (induction bs) auto

lemma block_index_bound [simp]:
  "(i::nat) < N \<Longrightarrow> h < n \<Longrightarrow> i * n + h < N * n"
proof -
  assume "i < N" "h < n"
  then have "i * n + h < Suc i * n" by simp
  also have "\<dots> \<le> N * n" using \<open>i < N\<close> by (intro mult_right_mono) auto
  finally show ?thesis .
qed

lemma concat_nth_block [c_blk]:
  "uniform n bs \<Longrightarrow> i < length bs \<Longrightarrow> h < n \<Longrightarrow> concat bs ! (i * n + h) = bs ! i ! h"
proof (induction bs arbitrary: i)
  case (Cons b bs)
  then show ?case by (cases i) (auto simp: nth_append)
qed simp

lemma concat_update_block [c_blk]:
  "uniform n bs \<Longrightarrow> i < length bs \<Longrightarrow> h < n \<Longrightarrow>
     (concat bs)[i * n + h := v] = concat (bs[i := (bs ! i)[h := v]])"
proof (induction bs arbitrary: i)
  case (Cons b bs)
  then show ?case by (cases i) (auto simp: list_update_append)
qed simp

lemma length_blocks [simp]: "length (blocks n N xs) = N"
  by (simp add: blocks_def)

lemma length_blk: "length xs = N * n \<Longrightarrow> i < N \<Longrightarrow> length (blk n xs i) = n"
proof -
  assume *: "length xs = N * n" "i < N"
  then have "Suc i * n \<le> N * n" by (intro mult_right_mono) auto
  with * show ?thesis by (simp add: blk_def)
qed

lemma uniform_blocks [simp]: "length xs = N * n \<Longrightarrow> uniform n (blocks n N xs)"
  by (auto simp: uniform_def blocks_def intro: length_blk)

lemma concat_blocks [simp]: "length xs = N * n \<Longrightarrow> concat (blocks n N xs) = xs"
proof (induction N arbitrary: xs)
  case 0
  then show ?case by (simp add: blocks_def)
next
  case (Suc N)
  have shift: "blk n xs (Suc i) = blk n (drop n xs) i" for i
    by (simp add: blk_def add.commute)
  have "[0..<Suc N] = 0 # map Suc [0..<N]"
    by (simp add: map_Suc_upt upt_conv_Cons del: upt_Suc)
  then have "blocks n (Suc N) xs = take n xs # blocks n N (drop n xs)"
    by (simp add: blocks_def shift comp_def del: upt_Suc) (simp add: blk_def)
  moreover have "concat (blocks n N (drop n xs)) = drop n xs"
    using Suc.prems by (intro Suc.IH) simp
  ultimately show ?case by simp
qed

lemma blocks_concat [simp]: "uniform n bs \<Longrightarrow> blocks n (length bs) (concat bs) = bs"
proof (rule nth_equalityI)
  fix i assume u: "uniform n bs" and "i < length (blocks n (length bs) (concat bs))"
  then have i: "i < length bs" by simp
  have len: "length (blk n (concat bs) i) = n"
    by (rule length_blk) (use u i in auto)
  have "blk n (concat bs) i = bs ! i"
  proof (rule nth_equalityI)
    show "length (blk n (concat bs) i) = length (bs ! i)" using u i len by simp
    fix h assume "h < length (blk n (concat bs) i)"
    then have h: "h < n" using len by simp
    then have "i * n + h < length bs * n" using i by simp
    then show "blk n (concat bs) i ! h = bs ! i ! h"
      using u i h by (simp add: blk_def concat_nth_block)
  qed
  then show "blocks n (length bs) (concat bs) ! i = bs ! i" using i by (simp add: blocks_def)
qed simp

text \<open>
  Copying block \<open>si\<close> of one flat array over block \<open>di\<close> of another, word by word: the inner loop
  \<^verbatim>\<open>for (h = 0; h < n; h++) dst[di*n + h] = src[si*n + h]\<close> of all the sorting code.
\<close>

definition copy_block :: "nat \<Rightarrow> 'a list \<Rightarrow> nat \<Rightarrow> nat \<Rightarrow> 'a list \<Rightarrow> 'a list option" where
  "copy_block n src si di dst =
     for_loop 0 n (\<lambda>h d. do { v \<leftarrow> rd src (si * n + h); wr d (di * n + h) v }) dst"

lemma copy_block_concat:
  assumes "uniform n bs" "uniform n cs" "si < length bs" "di < length cs"
  shows "copy_block n (concat bs) si di (concat cs) = Some (concat (cs[di := bs ! si]))"
proof -
  let ?g = "\<lambda>h. concat (cs[di := take h (bs ! si) @ drop h (cs ! di)])"
  have len: "length (take h (bs ! si) @ drop h (cs ! di)) = n" if "h \<le> n" for h
    using that assms by simp
  have "for_loop 0 n (\<lambda>h d. do { v \<leftarrow> rd (concat bs) (si * n + h); wr d (di * n + h) v })
          (concat cs) = Some (?g n)"
  proof (rule for_loop_eq)
    show "concat cs = ?g 0" using assms by simp
    fix h assume "h < n"
    have u: "uniform n (cs[di := take h (bs ! si) @ drop h (cs ! di)])"
      using assms len [of h] \<open>h < n\<close> by simp
    have upd: "(take h (bs ! si) @ drop h (cs ! di))[h := bs ! si ! h]
        = take (Suc h) (bs ! si) @ drop (Suc h) (cs ! di)"
      using \<open>h < n\<close> assms
      by (simp add: list_update_append take_Suc_conv_app_nth Cons_nth_drop_Suc [symmetric])
    have b: "di * n + h < length (?g h)" "si * n + h < length (concat bs)"
      using assms \<open>h < n\<close> by (simp_all only: length_concat_uniform [OF u]) simp_all
    have "wr (?g h) (di * n + h) (bs ! si ! h) = Some (?g (Suc h))"
      using concat_update_block [OF u, of di h "bs ! si ! h"] assms(4) \<open>h < n\<close> b(1)
      by (simp add: upd wr_def)
    then show "(do { v \<leftarrow> rd (concat bs) (si * n + h); wr (?g h) (di * n + h) v })
        = Some (?g (Suc h))"
      using assms \<open>h < n\<close> b(2) by (simp add: concat_nth_block)
  qed simp
  then show ?thesis using assms by (simp add: copy_block_def)
qed

end
