(* ===== verification/Oblivious.thy ===== *)
theory Oblivious
  imports CPrelude
begin

text \<open>
  The oblivious building blocks under \<^verbatim>\<open>multi2sim/bin/benchmarks/primitives\<close>: the conditional
  moves of \<^verbatim>\<open>lib/asm.h\<close>, the integer helpers of \<^verbatim>\<open>lib/misc.c\<close> and the linear-scan
  ORAM of \<^verbatim>\<open>scan_oram/scan_oram.c\<close>.

  A pointer argument is an array together with an offset. The C \<^verbatim>\<open>int\<close> values that are only
  moved and compared are HOL integers; \<^verbatim>\<open>unsigned int\<close> values that are shifted or reversed
  are 32-bit words. The loops of \<^verbatim>\<open>log_2\<close> and \<^verbatim>\<open>bitwiseReverse\<close> always end;
  \<^verbatim>\<open>roundToPowerOf2\<close> loops forever on a negative argument, so its model is a partial function
  with result \<^term>\<open>None\<close> there.
\<close>

unbundle bit_operations_syntax

section \<open>lib/asm.h\<close>

text \<open>
  \<open>cmov cond src dst\<close> is the new contents of \<^verbatim>\<open>*dst_ptr\<close>: \<^verbatim>\<open>%eax\<close> is loaded from the
  destination, replaced by the source unless \<^verbatim>\<open>testl\<close> finds the condition zero, and stored
  back. The store happens in both cases.
\<close>

definition cmov :: "int \<Rightarrow> 'a \<Rightarrow> 'a \<Rightarrow> 'a" where
  "cmov cond src dst =
     (let eax = dst;
          zf = (cond = 0);
          eax = (if \<not> zf then src else eax)
      in eax)"

definition cmovn :: "int \<Rightarrow> 'a list \<Rightarrow> nat \<Rightarrow> 'a list \<Rightarrow> nat \<Rightarrow> nat \<Rightarrow> 'a list option" where
  "cmovn cond src src_off dst dst_off sz =
     for_loop 0 sz (\<lambda>i d. do {
         s \<leftarrow> rd src (src_off + i);
         t \<leftarrow> rd d (dst_off + i);
         wr d (dst_off + i) (cmov cond s t) }) dst"

section \<open>lib/misc.c\<close>

lemma unat_drop_bit_1: "unat (drop_bit 1 (w :: 32 word)) = unat w div 2"
  by (simp add: drop_bit_eq_div unat_div)

function log_2_loop :: "32 word \<Rightarrow> 32 word \<Rightarrow> 32 word" where
  "log_2_loop val result =
     (let val' = drop_bit 1 val
      in if val' \<noteq> 0 then log_2_loop val' (result + 1) else result)"
  by pat_completeness auto
termination
proof (relation "measure (\<lambda>(val, result). unat val)")
  fix val val' result :: "32 word"
  assume "val' = drop_bit 1 val" "val' \<noteq> 0"
  then have "unat val' = unat val div 2" "unat val' \<noteq> 0"
    by (simp_all only: unat_drop_bit_1 [symmetric] unsigned_eq_0_iff) simp
  then show "((val', result + 1), (val, result)) \<in> measure (\<lambda>(val, result). unat val)"
    by simp
qed simp

declare log_2_loop.simps [simp del]

definition log_2 :: "32 word \<Rightarrow> 32 word" where
  "log_2 val = log_2_loop (push_bit 1 val - 1) 0"

fun bitwiseReverse_loop :: "nat \<Rightarrow> 32 word \<Rightarrow> 32 word \<Rightarrow> 32 word" where
  "bitwiseReverse_loop 0 val result = result"
| "bitwiseReverse_loop (Suc n) val result =
     bitwiseReverse_loop n (val div 2) (push_bit 1 result + val mod 2)"

definition bitwiseReverse :: "32 word \<Rightarrow> nat \<Rightarrow> 32 word" where
  "bitwiseReverse val L = bitwiseReverse_loop L val 0"

partial_function (option) roundToPowerOf2_loop :: "int \<Rightarrow> nat \<Rightarrow> nat option" where
  "roundToPowerOf2_loop val expt =
     (if val div 2 \<noteq> 0 then roundToPowerOf2_loop (val div 2) (Suc expt) else Some expt)"

declare roundToPowerOf2_loop.simps [code]

text \<open>\<^verbatim>\<open>1 << expt\<close> overflows an \<^verbatim>\<open>int\<close> from exponent 31 on, which C leaves undefined.\<close>

definition roundToPowerOf2 :: "int \<Rightarrow> int option" where
  "roundToPowerOf2 val = do {
     expt \<leftarrow> roundToPowerOf2_loop val 1;
     c_assert (expt < 31);
     Some (2 ^ expt) }"

section \<open>scan\_oram/scan\_oram.c\<close>

definition ScanORAM_Read ::
    "'a list \<Rightarrow> nat \<Rightarrow> nat \<Rightarrow> 'a list \<Rightarrow> int \<Rightarrow> 'a list option" where
  "ScanORAM_Read base_addr N block_sz_w data idx =
     for_loop 0 N (\<lambda>i d.
         let if_move = of_bool (int i = idx)
         in cmovn if_move base_addr (i * block_sz_w) d 0 block_sz_w) data"

definition ScanORAM_Write ::
    "'a list \<Rightarrow> nat \<Rightarrow> nat \<Rightarrow> 'a list \<Rightarrow> int \<Rightarrow> 'a list option" where
  "ScanORAM_Write base_addr N block_sz_w data idx =
     for_loop 0 N (\<lambda>i b.
         let if_move = of_bool (int i = idx)
         in cmovn if_move data 0 b (i * block_sz_w) block_sz_w) base_addr"

section \<open>Conditional moves\<close>

lemma cmov_simp [simp]: "cmov cond src dst = (if cond = 0 then dst else src)"
  by (simp add: cmov_def)

lemma cmovn_eq:
  assumes "src_off + sz \<le> length src" "dst_off + sz \<le> length dst"
  shows "cmovn cond src src_off dst dst_off sz =
    Some (if cond = 0 then dst
          else take dst_off dst @ take sz (drop src_off src) @ drop (dst_off + sz) dst)"
proof -
  let ?g = "\<lambda>i. if cond = 0 then dst
      else take dst_off dst @ take i (drop src_off src) @ drop (dst_off + i) dst"
  have "for_loop 0 sz (\<lambda>i d. do {
         s \<leftarrow> rd src (src_off + i);
         t \<leftarrow> rd d (dst_off + i);
         wr d (dst_off + i) (cmov cond s t) }) dst = Some (?g sz)"
  proof (rule for_loop_eq)
    fix i assume "i < sz"
    then have i: "src_off + i < length src" "dst_off + i < length dst" using assms by auto
    have "drop (dst_off + i) dst = dst ! (dst_off + i) # drop (Suc (dst_off + i)) dst"
      using i by (simp add: Cons_nth_drop_Suc)
    moreover have "take (Suc i) (drop src_off src) = take i (drop src_off src) @ [src ! (src_off + i)]"
      using i by (simp add: take_Suc_conv_app_nth)
    ultimately show "(do {
         s \<leftarrow> rd src (src_off + i);
         t \<leftarrow> rd (?g i) (dst_off + i);
         wr (?g i) (dst_off + i) (cmov cond s t) }) = Some (?g (Suc i))"
      using i by (simp add: nth_append list_update_append)
  qed auto
  then show ?thesis by (simp add: cmovn_def)
qed

lemma cmovn_whole:
  assumes "src_off + length dst \<le> length src"
  shows "cmovn cond src src_off dst 0 (length dst) =
    Some (if cond = 0 then dst else take (length dst) (drop src_off src))"
  using cmovn_eq [of src_off "length dst" src 0 dst cond] assms by simp

lemma cmovn_into_block:
  assumes "uniform n bs" "i < length bs" "length data = n"
  shows "cmovn cond data 0 (concat bs) (i * n) n =
    Some (if cond = 0 then concat bs else concat (bs[i := data]))"
proof -
  have bound: "i * n + n \<le> length (concat bs)"
    using assms mult_right_mono [of "Suc i" "length bs" n] by simp
  have "take (i * n) (concat bs) = concat (take i bs)"
    using assms(1)
  proof (induction bs arbitrary: i)
    case (Cons b bs)
    then show ?case by (cases i) auto
  qed simp
  moreover have "drop (i * n + n) (concat bs) = concat (drop (Suc i) bs)"
    using assms(1,2)
  proof (induction bs arbitrary: i)
    case (Cons b bs)
    then show ?case by (cases i) (auto simp: add.commute)
  qed simp
  ultimately show ?thesis
    using cmovn_eq [of 0 n data "i * n" "concat bs" cond] bound assms
    by (simp add: upd_conv_take_nth_drop)
qed

lemma cmovn_from_block:
  assumes "uniform n bs" "i < length bs" "length data = n"
  shows "cmovn cond (concat bs) (i * n) data 0 n = Some (if cond = 0 then data else bs ! i)"
proof -
  have bound: "i * n + n \<le> length (concat bs)"
    using assms mult_right_mono [of "Suc i" "length bs" n] by simp
  have "take n (drop (i * n) (concat bs)) = blocks n (length bs) (concat bs) ! i"
    using assms by (simp add: blocks_def blk_def del: blocks_concat)
  then have "take n (drop (i * n) (concat bs)) = bs ! i"
    using assms by simp
  then show ?thesis
    using cmovn_eq [of "i * n" n "concat bs" 0 data cond] bound assms by simp
qed

section \<open>The scan ORAM\<close>

lemma ScanORAM_Read_blocks:
  assumes "uniform n bs" "length data = n"
  shows "ScanORAM_Read (concat bs) (length bs) n data idx =
    Some (if 0 \<le> idx \<and> idx < int (length bs) then bs ! nat idx else data)"
proof -
  let ?g = "\<lambda>i. if 0 \<le> idx \<and> idx < int i then bs ! nat idx else data"
  have "for_loop 0 (length bs) (\<lambda>i d.
         let if_move = of_bool (int i = idx)
         in cmovn if_move (concat bs) (i * n) d 0 n) data = Some (?g (length bs))"
  proof (rule for_loop_eq)
    fix i assume i: "i < length bs"
    have "length (?g i) = n" using assms i by (auto simp: nat_less_iff)
    from cmovn_from_block [OF assms(1) i this, of "of_bool (int i = idx)"]
    show "(let if_move = of_bool (int i = idx)
         in cmovn if_move (concat bs) (i * n) (?g i) 0 n) = Some (?g (Suc i))"
      by auto
  qed auto
  then show ?thesis by (simp add: ScanORAM_Read_def)
qed

lemma ScanORAM_Write_blocks:
  assumes "uniform n bs" "length data = n"
  shows "ScanORAM_Write (concat bs) (length bs) n data idx =
    Some (concat (if 0 \<le> idx \<and> idx < int (length bs) then bs[nat idx := data] else bs))"
proof -
  let ?g = "\<lambda>i. if 0 \<le> idx \<and> idx < int i then bs[nat idx := data] else bs"
  have "for_loop 0 (length bs) (\<lambda>i b.
         let if_move = of_bool (int i = idx)
         in cmovn if_move data 0 b (i * n) n) (concat bs) = Some (concat (?g (length bs)))"
  proof (rule for_loop_eq [where g = "\<lambda>i. concat (?g i)"])
    fix i assume i: "i < length bs"
    have "uniform n (?g i)" "i < length (?g i)" using assms i by auto
    from cmovn_into_block [OF this assms(2), of "of_bool (int i = idx)"]
    show "(let if_move = of_bool (int i = idx)
         in cmovn if_move data 0 (concat (?g i)) (i * n) n) = Some (concat (?g (Suc i)))"
      by auto
  qed auto
  then show ?thesis by (simp add: ScanORAM_Write_def)
qed

text \<open>With one-word blocks, as \<^verbatim>\<open>Store_Blocks\<close> uses the scans.\<close>

lemma concat_singletons: "concat (map (\<lambda>x. [x]) xs) = xs"
  by (induction xs) auto

lemma ScanORAM_Read_words:
  "ScanORAM_Read xs (length xs) 1 [d] idx =
     Some [if 0 \<le> idx \<and> idx < int (length xs) then xs ! nat idx else d]"
  using ScanORAM_Read_blocks [of 1 "map (\<lambda>x. [x]) xs" "[d]" idx]
  by (auto simp: concat_singletons uniform_def nat_less_iff)

lemma ScanORAM_Write_words:
  "ScanORAM_Write xs (length xs) 1 [v] idx =
     Some (if 0 \<le> idx \<and> idx < int (length xs) then xs[nat idx := v] else xs)"
proof -
  have "(map (\<lambda>x. [x]) xs)[i := [v]] = map (\<lambda>x. [x]) (xs[i := v])" for i
    by (simp add: map_update)
  then show ?thesis
    using ScanORAM_Write_blocks [of 1 "map (\<lambda>x. [x]) xs" "[v]" idx]
    by (simp add: concat_singletons uniform_def)
qed

section \<open>Integer helpers\<close>

lemma bit_shift_in:
  fixes r v :: "32 word"
  shows "bit (push_bit 1 r + v mod 2) i \<longleftrightarrow> i < 32 \<and> (if i = 0 then odd v else bit r (i - 1))"
proof -
  have "push_bit 1 r AND (v mod 2) = 0"
    by (rule bit_eqI) (auto simp: bit_and_iff bit_push_bit_iff mod_2_eq_odd bit_1_iff
        simp del: push_bit_Suc)
  then have "push_bit 1 r + v mod 2 = push_bit 1 r OR (v mod 2)"
    by (rule disjunctive_add_eq_or)
  then show ?thesis
    by (auto simp: bit_or_iff bit_push_bit_iff mod_2_eq_odd bit_1_iff simp del: push_bit_Suc)
qed

lemma bit_bitwiseReverse_loop:
  "n \<le> 32 \<Longrightarrow> bit (bitwiseReverse_loop n v r) i \<longleftrightarrow>
     i < 32 \<and> (if i < n then bit v (n - 1 - i) else bit r (i - n))"
proof (induction n arbitrary: v r)
  case 0
  then show ?case by (auto simp: bit_imp_le_length dest: bit_imp_le_length)
next
  case (Suc n)
  have IH: "bit (bitwiseReverse_loop (Suc n) v r) i \<longleftrightarrow>
     i < 32 \<and> (if i < n then bit (v div 2) (n - 1 - i) else bit (push_bit 1 r + v mod 2) (i - n))"
    using Suc by simp
  show ?case
  proof (cases "i < n")
    case True
    then have "Suc (n - 1 - i) = Suc n - 1 - i" by simp
    then show ?thesis using IH True by (metis bit_Suc less_SucI)
  next
    case False
    have "bit (push_bit 1 r + v mod 2) (i - n) \<longleftrightarrow>
        i - n < 32 \<and> (if i = n then odd v else bit r (i - n - 1))"
      using False by (auto simp only: bit_shift_in) auto
    then show ?thesis using IH False
      by (cases "i = n") (auto simp: bit_0 simp del: bitwiseReverse_loop.simps push_bit_Suc)
  qed
qed

lemma bit_bitwiseReverse:
  "L \<le> 32 \<Longrightarrow> bit (bitwiseReverse v L) i \<longleftrightarrow> i < L \<and> bit v (L - 1 - i)"
  by (auto simp: bitwiseReverse_def bit_bitwiseReverse_loop)

text \<open>Reversing twice gives back the low \<open>L\<close> bits.\<close>

lemma bitwiseReverse_twice:
  "L \<le> 32 \<Longrightarrow> bitwiseReverse (bitwiseReverse v L) L = take_bit L v"
  by (rule bit_eqI) (auto simp: bit_bitwiseReverse bit_take_bit_iff)

lemma log_2_loop_spec:
  assumes "unat val < 2 ^ Suc n" and "2 ^ n \<le> unat val"
  shows "log_2_loop val result = result + of_nat n"
  using assms
proof (induction n arbitrary: val result)
  case 0
  then have "unat (drop_bit 1 val) = 0" unfolding unat_drop_bit_1 by simp
  then have "drop_bit 1 val = 0" by (simp only: unsigned_eq_0_iff)
  then show ?case by (subst log_2_loop.simps) simp
next
  case (Suc n)
  have bounds: "unat (drop_bit 1 val) < 2 ^ Suc n" "2 ^ n \<le> unat (drop_bit 1 val)"
    using Suc.prems unfolding unat_drop_bit_1 by auto
  then have nz: "drop_bit 1 val \<noteq> 0" by (metis not_one_le_zero one_le_power order.trans
        unsigned_0 one_le_numeral)
  show ?case
    by (subst log_2_loop.simps) (use nz Suc.IH [OF bounds] in \<open>simp add: Let_def del: drop_bit_Suc\<close>)
qed

lemma ex_power_bracket: "1 \<le> (v::nat) \<Longrightarrow> \<exists>n. 2 ^ n \<le> v \<and> v < 2 ^ Suc n"
proof (induction v rule: less_induct)
  case (less v)
  show ?case
  proof (cases "v = 1")
    case True
    then show ?thesis by (intro exI [of _ 0]) simp
  next
    case False
    with less.prems have "v div 2 < v" "1 \<le> v div 2" by auto
    from less.IH [OF this] obtain n where "2 ^ n \<le> v div 2" "v div 2 < 2 ^ Suc n" by auto
    then show ?thesis by (intro exI [of _ "Suc n"]) auto
  qed
qed

text \<open>
  \<^verbatim>\<open>log_2\<close> rounds up: its value is the least \<open>k\<close> with \<open>v \<le> 2 ^ k\<close>, as long as
  \<^verbatim>\<open>val << 1\<close> does not lose a bit.
\<close>

lemma log_2_spec:
  assumes "1 \<le> unat v" "unat v \<le> 2 ^ 31"
  shows "unat v \<le> 2 ^ unat (log_2 v)" "\<forall>k. unat v \<le> 2 ^ k \<longrightarrow> unat (log_2 v) \<le> k"
    "unat (log_2 v) \<le> 31"
proof -
  let ?w = "push_bit 1 v - 1"
  have w: "unat ?w = 2 * unat v - 1"
  proof -
    have "?w = of_nat (2 * unat v - 1)"
      using assms(1) by (simp add: of_nat_diff)
    moreover have "2 * unat v - 1 < 2 ^ 32" using assms by simp
    ultimately show ?thesis by (simp only: unat_of_nat) (simp add: take_bit_nat_eq_self)
  qed
  have "1 \<le> unat ?w" using assms(1) w by linarith
  then obtain n where n: "2 ^ n \<le> unat ?w" "unat ?w < 2 ^ Suc n"
    using ex_power_bracket by blast
  have "n \<le> 31"
  proof (rule ccontr)
    assume "\<not> n \<le> 31"
    then have "(2::nat) ^ 32 \<le> 2 ^ n" by (intro power_increasing) auto
    then show False using n(1) w assms(2) by simp
  qed
  moreover have "log_2 v = of_nat n"
    using log_2_loop_spec [OF n(2,1), of 0] by (simp add: log_2_def)
  ultimately have l: "unat (log_2 v) = n" by (simp add: unat_of_nat take_bit_nat_eq_self)
  show "unat v \<le> 2 ^ unat (log_2 v)" using n(2) w l by simp
  show "\<forall>k. unat v \<le> 2 ^ k \<longrightarrow> unat (log_2 v) \<le> k"
  proof (intro allI impI)
    fix k assume "unat v \<le> 2 ^ k"
    then have "(2::nat) ^ n < 2 ^ Suc k" using n(1) w assms(1) by simp
    then have "n < Suc k" using power_less_imp_less_exp by (metis one_less_numeral_iff semiring_norm(76))
    then show "unat (log_2 v) \<le> k" using l by simp
  qed
  show "unat (log_2 v) \<le> 31" using \<open>n \<le> 31\<close> l by simp
qed

lemma log_2_power:
  assumes "k \<le> 31"
  shows "unat (log_2 (2 ^ k)) = k"
proof -
  have "(2::nat) ^ k < 2 ^ 32" using assms by (intro power_strict_increasing) auto
  then have "unat (of_nat (2 ^ k) :: 32 word) = 2 ^ k"
    by (simp only: unat_of_nat) (simp add: take_bit_nat_eq_self)
  then have "unat (2 ^ k :: 32 word) = 2 ^ k" by simp
  moreover from this have "1 \<le> unat (2 ^ k :: 32 word)" "unat (2 ^ k :: 32 word) \<le> 2 ^ 31"
    using assms power_increasing [of k 31 "2::nat"] by auto
  ultimately show ?thesis
    using log_2_spec [of "2 ^ k"] by (metis order.antisym order.refl power_le_imp_le_exp
        one_less_numeral_iff semiring_norm(76))
qed

lemma roundToPowerOf2_loop_spec:
  "1 \<le> v \<Longrightarrow> \<exists>n. roundToPowerOf2_loop (int v) e = Some (e + n) \<and> 2 ^ n \<le> v \<and> v < 2 ^ Suc n"
proof (induction v arbitrary: e rule: less_induct)
  case (less v)
  show ?case
  proof (cases "v = 1")
    case True
    then show ?thesis by (intro exI [of _ 0]) (simp add: roundToPowerOf2_loop.simps)
  next
    case False
    with less.prems have "v div 2 < v" "1 \<le> v div 2" by auto
    from less.IH [OF this, of "Suc e"] obtain n where
      n: "roundToPowerOf2_loop (int (v div 2)) (Suc e) = Some (Suc e + n)"
        "2 ^ n \<le> v div 2" "v div 2 < 2 ^ Suc n" by auto
    have "roundToPowerOf2_loop (int v) e = roundToPowerOf2_loop (int (v div 2)) (Suc e)"
      using \<open>1 \<le> v div 2\<close> by (subst roundToPowerOf2_loop.simps) (auto simp: zdiv_int)
    with n show ?thesis by (intro exI [of _ "Suc n"]) auto
  qed
qed

text \<open>\<^verbatim>\<open>roundToPowerOf2\<close> yields a power of two strictly above its argument.\<close>

lemma roundToPowerOf2_spec:
  assumes "1 \<le> v" "v < 2 ^ 30"
  shows "\<exists>n. roundToPowerOf2 (int v) = Some (2 ^ n) \<and> v < 2 ^ n \<and> 2 ^ n \<le> 2 * v"
proof -
  obtain n where n: "roundToPowerOf2_loop (int v) 1 = Some (1 + n)" "2 ^ n \<le> v" "v < 2 ^ Suc n"
    using roundToPowerOf2_loop_spec [OF assms(1), of 1] by auto
  have "(2::nat) ^ n < 2 ^ 30" using n(2) assms(2) by simp
  then have "n < 30" by (rule power_less_imp_less_exp [rotated]) simp
  then have "roundToPowerOf2 (int v) = Some (2 ^ Suc n)"
    using n(1) by (simp add: roundToPowerOf2_def)
  then show ?thesis using n by (intro exI [of _ "Suc n"]) auto
qed

section \<open>Properties\<close>

text \<open>
  C7: the linear-scan ORAM is a memory of blocks: after \<^verbatim>\<open>ScanORAM_Write\<close> at index \<open>i\<close>,
  \<^verbatim>\<open>ScanORAM_Read\<close> at index \<open>j\<close> returns the written block if \<open>i = j\<close> and the old block \<open>j\<close>
  otherwise, for every block size; both scans stay inside their arrays.
\<close>

theorem ScanORAM_read_after_write:
  assumes "uniform n bs" "length data = n" "length buf = n" "i < length bs" "j < length bs"
  shows "(do { mem \<leftarrow> ScanORAM_Write (concat bs) (length bs) n data (int i);
               ScanORAM_Read mem (length bs) n buf (int j) })
    = Some (if i = j then data else bs ! j)"
  using ScanORAM_Write_blocks [of n bs data "int i"] assms
    ScanORAM_Read_blocks [of n "bs[i := data]" buf "int j"] by simp

theorem ScanORAM_read_after_write_witness:
  "(do { mem \<leftarrow> ScanORAM_Write (concat [[1, 2], [3, 4], [5, 6 :: int]]) (length [[1, 2], [3, 4], [5, 6 :: int]])
            2 [8, 9] (int 1);
         ScanORAM_Read mem (length [[1, 2], [3, 4], [5, 6 :: int]]) 2 [0, 0] (int 1) })
    = Some [8, 9]"
  using ScanORAM_read_after_write [of 2 "[[1, 2], [3, 4], [5, 6 :: int]]" "[8, 9]" "[0, 0]" 1 1]
  by simp

text \<open>
  an index outside the array makes \<^verbatim>\<open>ScanORAM_Write\<close> leave the array and
  \<^verbatim>\<open>ScanORAM_Read\<close> leave the destination unchanged; neither accesses memory out of bounds. This is
  what \<^verbatim>\<open>Store_Blocks\<close> relies on when it passes level -1.
\<close>

theorem ScanORAM_out_of_range:
  assumes "uniform n bs" "length data = n" "idx < 0 \<or> int (length bs) \<le> idx"
  shows "ScanORAM_Write (concat bs) (length bs) n data idx = Some (concat bs) \<and>
    ScanORAM_Read (concat bs) (length bs) n data idx = Some data"
  using ScanORAM_Write_blocks [OF assms(1,2), of idx] ScanORAM_Read_blocks [OF assms(1,2), of idx]
    assms(3) by auto

theorem ScanORAM_out_of_range_witness:
  "ScanORAM_Write (concat [[1], [2 :: int]]) (length [[1], [2 :: int]]) 1 [7] (- 1) = Some (concat [[1], [2]]) \<and>
   ScanORAM_Read (concat [[1], [2 :: int]]) (length [[1], [2 :: int]]) 1 [7] (- 1) = Some [7]"
  using ScanORAM_out_of_range [of 1 "[[1], [2 :: int]]" "[7]" "- 1"] by simp

text \<open>
  \<^verbatim>\<open>bitwiseReverse\<close> reverses the low \<open>L\<close> bits: bit \<open>i\<close> of the result is bit
  \<open>L - 1 - i\<close> of the argument, the bits from \<open>L\<close> on are clear, and applying it twice gives back
  the low \<open>L\<close> bits.
\<close>

theorem bitwiseReverse_reverses:
  assumes "L \<le> 32"
  shows "(\<forall>i. bit (bitwiseReverse v L) i \<longleftrightarrow> i < L \<and> bit v (L - 1 - i)) \<and>
    bitwiseReverse (bitwiseReverse v L) L = take_bit L v"
  using bit_bitwiseReverse [OF assms] bitwiseReverse_twice [OF assms] by blast

theorem bitwiseReverse_reverses_witness:
  "(\<forall>i. bit (bitwiseReverse 6 4) i \<longleftrightarrow> i < 4 \<and> bit (6 :: 32 word) (4 - 1 - i)) \<and>
    bitwiseReverse (bitwiseReverse 6 4) 4 = take_bit 4 6"
  using bitwiseReverse_reverses [of 4 6] by simp

text \<open>
  \<^verbatim>\<open>log_2\<close> rounds up, as its header documents: for an argument between 1 and
  \<open>2 ^ 31\<close> the result is the \<open>k\<close> with \<open>2 ^ (k - 1) < v \<le> 2 ^ k\<close>.
\<close>

theorem log_2_rounds_up:
  assumes "1 \<le> unat v" "unat v \<le> 2 ^ 31"
  shows "unat v \<le> 2 ^ unat (log_2 v) \<and> (log_2 v = 0 \<or> 2 ^ (unat (log_2 v) - 1) < unat v)"
proof (cases "log_2 v = 0")
  case False
  then have "unat (log_2 v) \<noteq> 0" by (simp only: unsigned_eq_0_iff) simp
  then show ?thesis using log_2_spec [OF assms] by (metis diff_less less_one not_less neq0_conv)
qed (use log_2_spec [OF assms] in simp)

theorem log_2_rounds_up_witness:
  "unat (1025 :: 32 word) \<le> 2 ^ unat (log_2 1025) \<and>
   (log_2 1025 = 0 \<or> 2 ^ (unat (log_2 1025) - 1) < unat (1025 :: 32 word))"
  by (rule log_2_rounds_up) simp_all

text \<open>
  \<^verbatim>\<open>roundToPowerOf2\<close> returns, for a positive argument below \<open>2 ^ 30\<close>, the power of two
  that lies strictly above the argument and at most at its double.
\<close>

theorem roundToPowerOf2_above:
  assumes "1 \<le> v" "v < 2 ^ 30"
  shows "\<exists>n. roundToPowerOf2 (int v) = Some (2 ^ n) \<and> v < 2 ^ n \<and> 2 ^ n \<le> 2 * v"
  using assms by (rule roundToPowerOf2_spec)

theorem roundToPowerOf2_above_witness:
  "\<exists>n. roundToPowerOf2 (int 220) = Some (2 ^ n) \<and> (220 :: nat) < 2 ^ n \<and> 2 ^ n \<le> 2 * (220 :: nat)"
  using roundToPowerOf2_above [of 220] by simp

end
