(* ===== verification/MergeSort.thy ===== *)
theory MergeSort
  imports CPrelude
begin

text \<open>
  The merge sorts of \<^verbatim>\<open>primitives/sort/merge_sort.c\<close>. Its five variants (plain integers,
  blocks with one key, blocks with two keys, and the two forms that sort an auxiliary array
  along with the main one) are the same three loops around different copies and comparisons:
  \<open>merge_loop\<close> is the \<^verbatim>\<open>while (i < len_L && j < len_R)\<close> loop, \<open>drain\<close> each of the
  two loops that empty a buffer, \<open>merge_body\<close> their sequence.

  The file-static variables of the C file (\<^verbatim>\<open>_dir\<close>, \<^verbatim>\<open>_key_idx\<close>, \<^verbatim>\<open>_block_sz\<close> and so on,
  set once by the entry points) are arguments; the static buffers \<^verbatim>\<open>buf_L\<close>,
  \<^verbatim>\<open>buf_R\<close> and their auxiliary versions are part of the state, because
  \<^verbatim>\<open>malloc\<close> gives them arbitrary contents. Lengths and indices are natural numbers: for
  \<open>N = 0\<close> both \<^verbatim>\<open>N-1\<close> and the truncated \<open>N - 1\<close> make the guard \<^verbatim>\<open>l < r\<close> false.

  The locale \<open>merge_sort_impl\<close> is the contract between a \<^verbatim>\<open>Merge_X\<close> routine and the recursion
  \<^verbatim>\<open>MergeSubSort_X\<close> above it; it is interpreted on all five variants.
\<close>

definition ASCENDING :: int where "ASCENDING = 1"

definition DESCENDING :: int where "DESCENDING = 0"

section \<open>The shared loops\<close>

function merge_loop ::
    "nat \<Rightarrow> nat \<Rightarrow> (nat \<Rightarrow> nat \<Rightarrow> bool option) \<Rightarrow> (nat \<Rightarrow> nat \<Rightarrow> 's \<Rightarrow> 's option) \<Rightarrow>
     (nat \<Rightarrow> nat \<Rightarrow> 's \<Rightarrow> 's option) \<Rightarrow> nat \<Rightarrow> nat \<Rightarrow> nat \<Rightarrow> 's \<Rightarrow> (nat \<times> nat \<times> nat \<times> 's) option" where
  "merge_loop len_L len_R from_L put_L put_R i j k s =
     (if i < len_L \<and> j < len_R then do {
        b \<leftarrow> from_L i j;
        if b then do {
          s \<leftarrow> put_L k i s;
          merge_loop len_L len_R from_L put_L put_R (Suc i) j (Suc k) s }
        else do {
          s \<leftarrow> put_R k j s;
          merge_loop len_L len_R from_L put_L put_R i (Suc j) (Suc k) s } }
      else Some (i, j, k, s))"
  by pat_completeness auto
termination
  by (relation "measure (\<lambda>(len_L, len_R, _, _, _, i, j, _, _). (len_L - i) + (len_R - j))") auto

declare merge_loop.simps [simp del]

function drain ::
    "nat \<Rightarrow> (nat \<Rightarrow> nat \<Rightarrow> 's \<Rightarrow> 's option) \<Rightarrow> nat \<Rightarrow> nat \<Rightarrow> 's \<Rightarrow> (nat \<times> 's) option" where
  "drain len put i k s =
     (if i < len then do { s \<leftarrow> put k i s; drain len put (Suc i) (Suc k) s }
      else Some (k, s))"
  by pat_completeness auto
termination
  by (relation "measure (\<lambda>(len, _, i, _, _). len - i)") auto

declare drain.simps [simp del]

definition merge_body ::
    "nat \<Rightarrow> nat \<Rightarrow> (nat \<Rightarrow> nat \<Rightarrow> bool option) \<Rightarrow> (nat \<Rightarrow> nat \<Rightarrow> 's \<Rightarrow> 's option) \<Rightarrow>
     (nat \<Rightarrow> nat \<Rightarrow> 's \<Rightarrow> 's option) \<Rightarrow> nat \<Rightarrow> 's \<Rightarrow> 's option" where
  "merge_body len_L len_R from_L put_L put_R l s = do {
     (i, j, k, s) \<leftarrow> merge_loop len_L len_R from_L put_L put_R 0 0 l s;
     (k, s) \<leftarrow> drain len_L put_L i k s;
     (k, s) \<leftarrow> drain len_R put_R j k s;
     Some s }"

section \<open>The five merge routines\<close>

definition Merge_Int ::
    "int \<Rightarrow> nat \<Rightarrow> nat \<Rightarrow> nat \<Rightarrow> int list \<times> int list \<times> int list \<Rightarrow>
     (int list \<times> int list \<times> int list) option" where
  "Merge_Int dir l m r = (\<lambda>(arr, buf_L, buf_R). do {
     let len_L = m - l + 1;
     let len_R = r - m;
     buf_L \<leftarrow> for_loop 0 len_L (\<lambda>i b. do { v \<leftarrow> rd arr (l + i); wr b i v }) buf_L;
     buf_R \<leftarrow> for_loop 0 len_R (\<lambda>j b. do { v \<leftarrow> rd arr (m + 1 + j); wr b j v }) buf_R;
     arr \<leftarrow> merge_body len_L len_R
       (\<lambda>i j. do { x \<leftarrow> rd buf_L i; y \<leftarrow> rd buf_R j;
          Some ((x \<le> y \<and> dir = ASCENDING) \<or> (x \<ge> y \<and> dir = DESCENDING)) })
       (\<lambda>k i a. do { v \<leftarrow> rd buf_L i; wr a k v })
       (\<lambda>k j a. do { v \<leftarrow> rd buf_R j; wr a k v }) l arr;
     Some (arr, buf_L, buf_R) })"

definition Merge_Block ::
    "nat \<Rightarrow> nat \<Rightarrow> int \<Rightarrow> nat \<Rightarrow> nat \<Rightarrow> nat \<Rightarrow> int list \<times> int list \<times> int list \<Rightarrow>
     (int list \<times> int list \<times> int list) option" where
  "Merge_Block key_idx block_sz dir l m r = (\<lambda>(arr, buf_L, buf_R). do {
     let len_L = m - l + 1;
     let len_R = r - m;
     buf_L \<leftarrow> for_loop 0 len_L (\<lambda>i b. copy_block block_sz arr (l + i) i b) buf_L;
     buf_R \<leftarrow> for_loop 0 len_R (\<lambda>j b. copy_block block_sz arr (m + 1 + j) j b) buf_R;
     arr \<leftarrow> merge_body len_L len_R
       (\<lambda>i j. do { x \<leftarrow> rd buf_L (i * block_sz + key_idx); y \<leftarrow> rd buf_R (j * block_sz + key_idx);
          Some ((x \<le> y \<and> dir = ASCENDING) \<or> (x \<ge> y \<and> dir = DESCENDING)) })
       (\<lambda>k i a. copy_block block_sz buf_L i k a)
       (\<lambda>k j a. copy_block block_sz buf_R j k a) l arr;
     Some (arr, buf_L, buf_R) })"

text \<open>The two-key comparison of \<^verbatim>\<open>Merge_General\<close> and \<^verbatim>\<open>Merge_TwoArray_TwoKey\<close>.\<close>

definition two_key_from_L :: "int \<times> int \<Rightarrow> int \<Rightarrow> int \<Rightarrow> int \<Rightarrow> int \<Rightarrow> bool" where
  "two_key_from_L = (\<lambda>(dir1, dir2) x1 x2 y1 y2.
     (x1 < y1 \<and> dir1 = ASCENDING) \<or> (x1 > y1 \<and> dir1 = DESCENDING) \<or>
     (x1 = y1 \<and> ((x2 \<le> y2 \<and> dir2 = ASCENDING) \<or> (x2 \<ge> y2 \<and> dir2 = DESCENDING))))"

definition Merge_General ::
    "nat \<Rightarrow> nat \<Rightarrow> nat \<Rightarrow> int \<times> int \<Rightarrow> nat \<Rightarrow> nat \<Rightarrow> nat \<Rightarrow> int list \<times> int list \<times> int list \<Rightarrow>
     (int list \<times> int list \<times> int list) option" where
  "Merge_General key1_idx key2_idx block_sz dir l m r = (\<lambda>(arr, buf_L, buf_R). do {
     let len_L = m - l + 1;
     let len_R = r - m;
     buf_L \<leftarrow> for_loop 0 len_L (\<lambda>i b. copy_block block_sz arr (l + i) i b) buf_L;
     buf_R \<leftarrow> for_loop 0 len_R (\<lambda>j b. copy_block block_sz arr (m + 1 + j) j b) buf_R;
     arr \<leftarrow> merge_body len_L len_R
       (\<lambda>i j. do {
          x1 \<leftarrow> rd buf_L (i * block_sz + key1_idx); y1 \<leftarrow> rd buf_R (j * block_sz + key1_idx);
          x2 \<leftarrow> rd buf_L (i * block_sz + key2_idx); y2 \<leftarrow> rd buf_R (j * block_sz + key2_idx);
          Some (two_key_from_L dir x1 x2 y1 y2) })
       (\<lambda>k i a. copy_block block_sz buf_L i k a)
       (\<lambda>k j a. copy_block block_sz buf_R j k a) l arr;
     Some (arr, buf_L, buf_R) })"

text \<open>Copying one entry of the main and of the auxiliary array.\<close>

definition copy_two ::
    "nat \<Rightarrow> nat \<Rightarrow> int list \<times> int list \<Rightarrow> nat \<Rightarrow> nat \<Rightarrow> int list \<times> int list \<Rightarrow>
     (int list \<times> int list) option" where
  "copy_two bm ba src si di dst = do {
     main \<leftarrow> copy_block bm (fst src) si di (fst dst);
     aux \<leftarrow> copy_block ba (snd src) si di (snd dst);
     Some (main, aux) }"

type_synonym two_state =
  "(int list \<times> int list) \<times> (int list \<times> int list) \<times> (int list \<times> int list)"

definition Merge_TwoArray ::
    "nat \<Rightarrow> nat \<Rightarrow> nat \<Rightarrow> int \<Rightarrow> nat \<Rightarrow> nat \<Rightarrow> nat \<Rightarrow> two_state \<Rightarrow> two_state option" where
  "Merge_TwoArray key_idx bm ba dir l m r = (\<lambda>(arr, buf_L, buf_R). do {
     let len_L = m - l + 1;
     let len_R = r - m;
     buf_L \<leftarrow> for_loop 0 len_L (\<lambda>i b. copy_two bm ba arr (l + i) i b) buf_L;
     buf_R \<leftarrow> for_loop 0 len_R (\<lambda>j b. copy_two bm ba arr (m + 1 + j) j b) buf_R;
     arr \<leftarrow> merge_body len_L len_R
       (\<lambda>i j. do { x \<leftarrow> rd (fst buf_L) (i * bm + key_idx); y \<leftarrow> rd (fst buf_R) (j * bm + key_idx);
          Some ((x \<le> y \<and> dir = ASCENDING) \<or> (x \<ge> y \<and> dir = DESCENDING)) })
       (\<lambda>k i a. copy_two bm ba buf_L i k a)
       (\<lambda>k j a. copy_two bm ba buf_R j k a) l arr;
     Some (arr, buf_L, buf_R) })"

definition Merge_TwoArray_TwoKey ::
    "nat \<Rightarrow> nat \<Rightarrow> nat \<Rightarrow> nat \<Rightarrow> int \<times> int \<Rightarrow> nat \<Rightarrow> nat \<Rightarrow> nat \<Rightarrow> two_state \<Rightarrow> two_state option" where
  "Merge_TwoArray_TwoKey key1_idx key2_idx bm ba dir l m r = (\<lambda>(arr, buf_L, buf_R). do {
     let len_L = m - l + 1;
     let len_R = r - m;
     buf_L \<leftarrow> for_loop 0 len_L (\<lambda>i b. copy_two bm ba arr (l + i) i b) buf_L;
     buf_R \<leftarrow> for_loop 0 len_R (\<lambda>j b. copy_two bm ba arr (m + 1 + j) j b) buf_R;
     arr \<leftarrow> merge_body len_L len_R
       (\<lambda>i j. do {
          x1 \<leftarrow> rd (fst buf_L) (i * bm + key1_idx); y1 \<leftarrow> rd (fst buf_R) (j * bm + key1_idx);
          x2 \<leftarrow> rd (fst buf_L) (i * bm + key2_idx); y2 \<leftarrow> rd (fst buf_R) (j * bm + key2_idx);
          Some (two_key_from_L dir x1 x2 y1 y2) })
       (\<lambda>k i a. copy_two bm ba buf_L i k a)
       (\<lambda>k j a. copy_two bm ba buf_R j k a) l arr;
     Some (arr, buf_L, buf_R) })"

section \<open>The recursions and the entry points\<close>

function MergeSubSort_Int ::
    "int \<Rightarrow> nat \<Rightarrow> nat \<Rightarrow> int list \<times> int list \<times> int list \<Rightarrow> (int list \<times> int list \<times> int list) option" where
  "MergeSubSort_Int dir l r s =
     (if l < r then let m = l + (r - l) div 2 in do {
        s \<leftarrow> MergeSubSort_Int dir l m s;
        s \<leftarrow> MergeSubSort_Int dir (m + 1) r s;
        Merge_Int dir l m r s }
      else Some s)"
  by pat_completeness auto
termination by (relation "measure (\<lambda>(dir, l, r, s). r - l)") auto

function MergeSubSort_Block ::
    "nat \<Rightarrow> nat \<Rightarrow> int \<Rightarrow> nat \<Rightarrow> nat \<Rightarrow> int list \<times> int list \<times> int list \<Rightarrow>
     (int list \<times> int list \<times> int list) option" where
  "MergeSubSort_Block key_idx block_sz dir l r s =
     (if l < r then let m = l + (r - l) div 2 in do {
        s \<leftarrow> MergeSubSort_Block key_idx block_sz dir l m s;
        s \<leftarrow> MergeSubSort_Block key_idx block_sz dir (m + 1) r s;
        Merge_Block key_idx block_sz dir l m r s }
      else Some s)"
  by pat_completeness auto
termination by (relation "measure (\<lambda>(_, _, _, l, r, _). r - l)") auto

function MergeSubSort_General ::
    "nat \<Rightarrow> nat \<Rightarrow> nat \<Rightarrow> int \<times> int \<Rightarrow> nat \<Rightarrow> nat \<Rightarrow> int list \<times> int list \<times> int list \<Rightarrow>
     (int list \<times> int list \<times> int list) option" where
  "MergeSubSort_General key1_idx key2_idx block_sz dir l r s =
     (if l < r then let m = l + (r - l) div 2 in do {
        s \<leftarrow> MergeSubSort_General key1_idx key2_idx block_sz dir l m s;
        s \<leftarrow> MergeSubSort_General key1_idx key2_idx block_sz dir (m + 1) r s;
        Merge_General key1_idx key2_idx block_sz dir l m r s }
      else Some s)"
  by pat_completeness auto
termination by (relation "measure (\<lambda>(_, _, _, _, l, r, _). r - l)") auto

function MergeSubSort_TwoArray ::
    "nat \<Rightarrow> nat \<Rightarrow> nat \<Rightarrow> int \<Rightarrow> nat \<Rightarrow> nat \<Rightarrow> two_state \<Rightarrow> two_state option" where
  "MergeSubSort_TwoArray key_idx bm ba dir l r s =
     (if l < r then let m = l + (r - l) div 2 in do {
        s \<leftarrow> MergeSubSort_TwoArray key_idx bm ba dir l m s;
        s \<leftarrow> MergeSubSort_TwoArray key_idx bm ba dir (m + 1) r s;
        Merge_TwoArray key_idx bm ba dir l m r s }
      else Some s)"
  by pat_completeness auto
termination by (relation "measure (\<lambda>(_, _, _, _, l, r, _). r - l)") auto

function MergeSubSort_TwoArray_TwoKey ::
    "nat \<Rightarrow> nat \<Rightarrow> nat \<Rightarrow> nat \<Rightarrow> int \<times> int \<Rightarrow> nat \<Rightarrow> nat \<Rightarrow> two_state \<Rightarrow> two_state option" where
  "MergeSubSort_TwoArray_TwoKey key1_idx key2_idx bm ba dir l r s =
     (if l < r then let m = l + (r - l) div 2 in do {
        s \<leftarrow> MergeSubSort_TwoArray_TwoKey key1_idx key2_idx bm ba dir l m s;
        s \<leftarrow> MergeSubSort_TwoArray_TwoKey key1_idx key2_idx bm ba dir (m + 1) r s;
        Merge_TwoArray_TwoKey key1_idx key2_idx bm ba dir l m r s }
      else Some s)"
  by pat_completeness auto
termination by (relation "measure (\<lambda>(_, _, _, _, _, l, r, _). r - l)") auto

declare MergeSubSort_Int.simps [simp del] MergeSubSort_Block.simps [simp del]
  MergeSubSort_General.simps [simp del] MergeSubSort_TwoArray.simps [simp del]
  MergeSubSort_TwoArray_TwoKey.simps [simp del]

text \<open>
  The entry points allocate the buffers (contents \<open>junk\<close>), sort, and free the buffers again.
\<close>

definition MergeSort_Int :: "(nat \<Rightarrow> int) \<Rightarrow> int list \<Rightarrow> nat \<Rightarrow> int \<Rightarrow> int list option" where
  "MergeSort_Int junk arr N dir = do {
     (arr, _, _) \<leftarrow> MergeSubSort_Int dir 0 (N - 1) (arr, fresh junk N, fresh junk N);
     Some arr }"

definition MergeSort_Block ::
    "(nat \<Rightarrow> int) \<Rightarrow> int list \<Rightarrow> nat \<Rightarrow> nat \<Rightarrow> int \<Rightarrow> nat \<Rightarrow> int list option" where
  "MergeSort_Block junk arr N key_idx dir block_sz = do {
     (arr, _, _) \<leftarrow> MergeSubSort_Block key_idx block_sz dir 0 (N - 1)
        (arr, fresh junk (N * block_sz), fresh junk (N * block_sz));
     Some arr }"

definition MergeSort_General ::
    "(nat \<Rightarrow> int) \<Rightarrow> int list \<Rightarrow> nat \<Rightarrow> nat \<Rightarrow> nat \<Rightarrow> int \<Rightarrow> nat \<Rightarrow> int \<Rightarrow> int list option" where
  "MergeSort_General junk arr N block_sz key1_idx dir1 key2_idx dir2 = do {
     (arr, _, _) \<leftarrow> MergeSubSort_General key1_idx key2_idx block_sz (dir1, dir2) 0 (N - 1)
        (arr, fresh junk (N * block_sz), fresh junk (N * block_sz));
     Some arr }"

definition MergeSort_TwoArray ::
    "(nat \<Rightarrow> int) \<Rightarrow> int list \<Rightarrow> int list \<Rightarrow> nat \<Rightarrow> nat \<Rightarrow> int \<Rightarrow> nat \<Rightarrow> nat \<Rightarrow>
     (int list \<times> int list) option" where
  "MergeSort_TwoArray junk arr_main arr_aux N key_idx dir bm ba = do {
     (arr, _, _) \<leftarrow> MergeSubSort_TwoArray key_idx bm ba dir 0 (N - 1)
        ((arr_main, arr_aux), (fresh junk (N * bm), fresh junk (N * ba)),
         (fresh junk (N * bm), fresh junk (N * ba)));
     Some arr }"

definition MergeSort_TwoArray_TwoKey ::
    "(nat \<Rightarrow> int) \<Rightarrow> int list \<Rightarrow> int list \<Rightarrow> nat \<Rightarrow> nat \<Rightarrow> int \<Rightarrow> nat \<Rightarrow> int \<Rightarrow> nat \<Rightarrow> nat \<Rightarrow>
     (int list \<times> int list) option" where
  "MergeSort_TwoArray_TwoKey junk arr_main arr_aux N key1_idx dir1 key2_idx dir2 bm ba = do {
     (arr, _, _) \<leftarrow> MergeSubSort_TwoArray_TwoKey key1_idx key2_idx bm ba (dir1, dir2) 0 (N - 1)
        ((arr_main, arr_aux), (fresh junk (N * bm), fresh junk (N * ba)),
         (fresh junk (N * bm), fresh junk (N * ba)));
     Some arr }"

section \<open>The reference merge\<close>

fun merge_by :: "('a \<Rightarrow> 'a \<Rightarrow> bool) \<Rightarrow> 'a list \<Rightarrow> 'a list \<Rightarrow> 'a list" where
  "merge_by R [] ys = ys"
| "merge_by R xs [] = xs"
| "merge_by R (x # xs) (y # ys) =
     (if R x y then x # merge_by R xs (y # ys) else y # merge_by R (x # xs) ys)"

definition splice_at :: "nat \<Rightarrow> 'a list \<Rightarrow> 'a list \<Rightarrow> 'a list" where
  "splice_at k zs xs = take k xs @ zs @ drop (k + length zs) xs"

definition window :: "nat \<Rightarrow> nat \<Rightarrow> 'a list \<Rightarrow> 'a list" where
  "window l n xs = take n (drop l xs)"

definition merge_win :: "('a \<Rightarrow> 'a \<Rightarrow> bool) \<Rightarrow> nat \<Rightarrow> nat \<Rightarrow> nat \<Rightarrow> 'a list \<Rightarrow> 'a list" where
  "merge_win R l m r xs =
     splice_at l (merge_by R (window l (m - l + 1) xs) (window (m + 1) (r - m) xs)) xs"

lemma mset_merge_by [simp]: "mset (merge_by R xs ys) = mset xs + mset ys"
  by (induction R xs ys rule: merge_by.induct) auto

lemma length_merge_by [simp]: "length (merge_by R xs ys) = length xs + length ys"
  by (induction R xs ys rule: merge_by.induct) auto

lemma set_merge_by [simp]: "set (merge_by R xs ys) = set xs \<union> set ys"
  by (induction R xs ys rule: merge_by.induct) auto

lemma merge_by_Nil2 [simp]: "merge_by R xs [] = xs"
  by (cases xs) auto

lemma sorted_wrt_merge_by:
  "\<lbrakk>\<And>x y. P x \<Longrightarrow> P y \<Longrightarrow> R x y \<or> R y x; \<And>x y z. R x y \<Longrightarrow> R y z \<Longrightarrow> R x z;
    list_all P xs; list_all P ys; sorted_wrt R xs; sorted_wrt R ys\<rbrakk> \<Longrightarrow>
   sorted_wrt R (merge_by R xs ys)"
proof (induction R xs ys rule: merge_by.induct)
  case (3 R x xs y ys)
  have xs: "list_all P xs" "sorted_wrt R xs" "\<forall>z \<in> set xs. R x z" "P x" using 3(5,7) by auto
  have ys: "list_all P ys" "sorted_wrt R ys" "\<forall>z \<in> set ys. R y z" "P y" using 3(6,8) by auto
  show ?case
  proof (cases "R x y")
    case True
    then have "\<forall>z \<in> set (merge_by R xs (y # ys)). R x z"
      using xs ys 3(4) by (auto intro: 3(4))
    with True 3(1) [OF True 3(3,4)] xs 3(6,8) show ?thesis by simp
  next
    case False
    then have "R y x" using xs(4) ys(4) 3(3) by blast
    then have "\<forall>z \<in> set (merge_by R (x # xs) ys). R y z"
      using xs ys by (auto intro: 3(4))
    with False 3(2) [OF False 3(3,4)] ys 3(5,7) show ?thesis by simp
  qed
qed auto

lemma length_splice_at [simp]: "k + length zs \<le> length xs \<Longrightarrow> length (splice_at k zs xs) = length xs"
  by (simp add: splice_at_def)

lemma splice_at_Nil [simp]: "splice_at k [] xs = xs"
  by (simp add: splice_at_def)

lemma splice_at_Cons:
  "k + Suc (length zs) \<le> length xs \<Longrightarrow> splice_at (Suc k) zs (xs[k := z]) = splice_at k (z # zs) xs"
  by (simp add: splice_at_def take_Suc_conv_app_nth)

lemma list_all_update: "list_all P xs \<Longrightarrow> P z \<Longrightarrow> list_all P (xs[k := z])"
  using set_update_subset_insert [of xs k z] by (auto simp: list_all_iff)

lemma list_all_splice_at: "list_all P xs \<Longrightarrow> list_all P zs \<Longrightarrow> list_all P (splice_at k zs xs)"
  by (auto simp: splice_at_def list_all_iff dest: in_set_takeD in_set_dropD)

lemma list_all_drop: "list_all P xs \<Longrightarrow> list_all P (drop n xs)"
  by (auto simp: list_all_iff dest: in_set_dropD)

lemma list_all_window: "list_all P xs \<Longrightarrow> list_all P (window l n xs)"
  by (auto simp: window_def list_all_iff dest: in_set_takeD in_set_dropD)

lemma length_window [simp]: "l + n \<le> length xs \<Longrightarrow> length (window l n xs) = n"
  by (simp add: window_def)

lemma window_nth: "i < n \<Longrightarrow> l + n \<le> length xs \<Longrightarrow> window l n xs ! i = xs ! (l + i)"
  by (simp add: window_def)

section \<open>The loops compute the reference merge\<close>

lemma drain_eq:
  assumes put: "\<And>xs k i. list_all ok xs \<Longrightarrow> k < length xs \<Longrightarrow> i < length X \<Longrightarrow>
      put k i (flat xs) = Some (flat (xs[k := X ! i]))"
    and X: "list_all ok X"
  shows "list_all ok xs \<Longrightarrow> i \<le> length X \<Longrightarrow> k + (length X - i) \<le> length xs \<Longrightarrow>
    drain (length X) put i k (flat xs) =
      Some (k + (length X - i), flat (splice_at k (drop i X) xs))"
proof (induction "length X - i" arbitrary: i k xs)
  case 0
  then show ?case by (subst drain.simps) simp
next
  case (Suc n)
  then have i: "i < length X" by simp
  have "put k i (flat xs) = Some (flat (xs[k := X ! i]))"
    using Suc.prems i by (intro put) auto
  moreover have "drain (length X) put (Suc i) (Suc k) (flat (xs[k := X ! i])) =
      Some (Suc k + (length X - Suc i), flat (splice_at (Suc k) (drop (Suc i) X) (xs[k := X ! i])))"
    using Suc.prems Suc.hyps(2) i X
    by (intro Suc.hyps(1) list_all_update) (auto simp: list_all_length)
  moreover have "splice_at (Suc k) (drop (Suc i) X) (xs[k := X ! i]) = splice_at k (drop i X) xs"
    using Suc.prems i by (simp add: splice_at_Cons Cons_nth_drop_Suc)
  ultimately show ?case using i by (subst drain.simps) (simp add: Suc_diff_Suc)
qed

lemma merge_loop_eq:
  assumes put_L: "\<And>xs k i. list_all ok xs \<Longrightarrow> k < length xs \<Longrightarrow> i < length X \<Longrightarrow>
      put_L k i (flat xs) = Some (flat (xs[k := X ! i]))"
    and put_R: "\<And>xs k j. list_all ok xs \<Longrightarrow> k < length xs \<Longrightarrow> j < length Y \<Longrightarrow>
      put_R k j (flat xs) = Some (flat (xs[k := Y ! j]))"
    and from_L: "\<And>i j. i < length X \<Longrightarrow> j < length Y \<Longrightarrow> from_L i j = Some (R (X ! i) (Y ! j))"
    and X: "list_all ok X" and Y: "list_all ok Y"
  shows "list_all ok xs \<Longrightarrow> i \<le> length X \<Longrightarrow> j \<le> length Y \<Longrightarrow>
    k + (length X - i) + (length Y - j) \<le> length xs \<Longrightarrow>
    (do { (i, j, k, s) \<leftarrow> merge_loop (length X) (length Y) from_L put_L put_R i j k (flat xs);
          (k, s) \<leftarrow> drain (length X) put_L i k s;
          (k, s) \<leftarrow> drain (length Y) put_R j k s;
          Some s })
    = Some (flat (splice_at k (merge_by R (drop i X) (drop j Y)) xs))"
proof (induction "(length X - i) + (length Y - j)" arbitrary: i j k xs rule: less_induct)
  case less
  have okX: "ok (X ! i)" if "i < length X" for i using X that by (simp add: list_all_length)
  have okY: "ok (Y ! j)" if "j < length Y" for j using Y that by (simp add: list_all_length)
  show ?case
  proof (cases "i < length X \<and> j < length Y")
    case False
    have dX: "drain (length X) put_L i k (flat xs) =
        Some (k + (length X - i), flat (splice_at k (drop i X) xs))"
      using less.prems by (intro drain_eq [where ok = ok and flat = flat and X = X and put = put_L, OF put_L X]) auto
    have dY: "drain (length Y) put_R j (k + (length X - i)) (flat (splice_at k (drop i X) xs)) =
        Some (k + (length X - i) + (length Y - j),
          flat (splice_at (k + (length X - i)) (drop j Y) (splice_at k (drop i X) xs)))"
      using less.prems X by (intro drain_eq [where ok = ok and flat = flat and X = Y and put = put_R, OF put_R Y]
          list_all_splice_at list_all_drop) auto
    have "splice_at (k + (length X - i)) (drop j Y) (splice_at k (drop i X) xs)
        = splice_at k (merge_by R (drop i X) (drop j Y)) xs"
      using False less.prems by (auto simp: not_less)
    moreover have "merge_loop (length X) (length Y) from_L put_L put_R i j k (flat xs) =
        Some (i, j, k, flat xs)"
      by (subst merge_loop.simps) (use False in auto)
    ultimately show ?thesis using dX dY by simp
  next
    case True
    then have dr: "drop i X = X ! i # drop (Suc i) X" "drop j Y = Y ! j # drop (Suc j) Y"
      by (simp_all add: Cons_nth_drop_Suc)
    have k: "k < length xs" using less.prems True by linarith
    show ?thesis
    proof (cases "R (X ! i) (Y ! j)")
      case c: True
      have "k + Suc (length (merge_by R (drop (Suc i) X) (drop j Y))) \<le> length xs"
        using True less.prems by (simp, linarith)
      then show ?thesis
        using less.hyps [of "Suc i" j "xs[k := X ! i]" "Suc k"] True k less.prems c
        by (subst merge_loop.simps)
          (simp add: from_L put_L okX list_all_update splice_at_Cons [symmetric] dr diff_less_mono2)
    next
      case c: False
      have "k + Suc (length (merge_by R (drop i X) (drop (Suc j) Y))) \<le> length xs"
        using True less.prems by (simp, linarith)
      then show ?thesis
        using less.hyps [of i "Suc j" "xs[k := Y ! j]" "Suc k"] True k less.prems c
        by (subst merge_loop.simps)
          (simp add: from_L put_R okY list_all_update splice_at_Cons [symmetric] dr diff_less_mono2)
    qed
  qed
qed

lemma merge_body_eq:
  assumes put_L: "\<And>xs k i. list_all ok xs \<Longrightarrow> k < length xs \<Longrightarrow> i < length X \<Longrightarrow>
      put_L k i (flat xs) = Some (flat (xs[k := X ! i]))"
    and put_R: "\<And>xs k j. list_all ok xs \<Longrightarrow> k < length xs \<Longrightarrow> j < length Y \<Longrightarrow>
      put_R k j (flat xs) = Some (flat (xs[k := Y ! j]))"
    and from_L: "\<And>i j. i < length X \<Longrightarrow> j < length Y \<Longrightarrow> from_L i j = Some (R (X ! i) (Y ! j))"
    and "list_all ok X" "list_all ok Y" "list_all ok xs" "l + length X + length Y \<le> length xs"
  shows "merge_body (length X) (length Y) from_L put_L put_R l (flat xs) =
    Some (flat (splice_at l (merge_by R X Y) xs))"
  using merge_loop_eq [where ok = ok and flat = flat and X = X and Y = Y and R = R and i = 0
      and j = 0 and k = l and xs = xs and put_L = put_L and put_R = put_R and from_L = from_L,
      OF put_L put_R from_L] assms(4-7)
  by (simp add: merge_body_def)

text \<open>Filling a buffer, entry by entry, with the first entries of \<open>X\<close>.\<close>

lemma fill_eq:
  assumes cp: "\<And>i bs. i < length X \<Longrightarrow> list_all ok bs \<Longrightarrow> i < length bs \<Longrightarrow>
      cp i (flat bs) = Some (flat (bs[i := X ! i]))"
    and "list_all ok X" "list_all ok bs" "length X \<le> length bs"
  shows "for_loop 0 (length X) cp (flat bs) = Some (flat (X @ drop (length X) bs))"
proof -
  have "for_loop 0 (length X) cp (flat bs) = Some (flat (take (length X) X @ drop (length X) bs))"
  proof (rule for_loop_eq [where g = "\<lambda>i. flat (take i X @ drop i bs)"])
    fix i assume i: "i < length X"
    have "list_all ok (take i X @ drop i bs)"
      using assms(2,3) by (auto simp: list_all_iff dest: in_set_takeD in_set_dropD)
    then have "cp i (flat (take i X @ drop i bs)) = Some (flat ((take i X @ drop i bs)[i := X ! i]))"
      using i assms(4) by (intro cp) auto
    moreover have "(take i X @ drop i bs)[i := X ! i] = take (Suc i) X @ drop (Suc i) bs"
      using i assms(4) by (simp add: list_update_append take_Suc_conv_app_nth
          Cons_nth_drop_Suc [symmetric])
    ultimately show "cp i (flat (take i X @ drop i bs)) = Some (flat (take (Suc i) X @ drop (Suc i) bs))"
      by simp
  qed auto
  then show ?thesis by simp
qed

section \<open>The contract of a merge sort\<close>

text \<open>
  \<open>flat\<close> lays a list of entries out in memory, \<open>ok\<close> says an entry has the right size, \<open>okbuf\<close>
  that the buffers can hold a given number of entries, \<open>R d x y\<close> that the comparison for
  direction \<open>d\<close> takes \<open>x\<close> from the left buffer before \<open>y\<close> from the right one. The provider
  promises that one merge is the reference merge of two adjacent windows.
\<close>

locale merge_sort_impl =
  fixes flat :: "'a list \<Rightarrow> 's" and ok :: "'a \<Rightarrow> bool" and okbuf :: "nat \<Rightarrow> 'b \<Rightarrow> bool"
    and R :: "'d \<Rightarrow> 'a \<Rightarrow> 'a \<Rightarrow> bool" and dirs :: "'d set"
    and merge :: "'d \<Rightarrow> nat \<Rightarrow> nat \<Rightarrow> nat \<Rightarrow> 's \<times> 'b \<Rightarrow> ('s \<times> 'b) option"
    and subsort :: "'d \<Rightarrow> nat \<Rightarrow> nat \<Rightarrow> 's \<times> 'b \<Rightarrow> ('s \<times> 'b) option"
  assumes R_total: "d \<in> dirs \<Longrightarrow> ok x \<Longrightarrow> ok y \<Longrightarrow> R d x y \<or> R d y x"
    and R_trans: "d \<in> dirs \<Longrightarrow> R d x y \<Longrightarrow> R d y z \<Longrightarrow> R d x z"
    and merge_law: "list_all ok xs \<Longrightarrow> l \<le> m \<Longrightarrow> m < r \<Longrightarrow> r < length xs \<Longrightarrow> okbuf (length xs) b \<Longrightarrow>
      \<exists>b'. merge d l m r (flat xs, b) = Some (flat (merge_win (R d) l m r xs), b') \<and>
           okbuf (length xs) b'"
    and subsort_eq: "subsort d l r s =
      (if l < r then let m = l + (r - l) div 2 in do {
         s \<leftarrow> subsort d l m s;
         s \<leftarrow> subsort d (m + 1) r s;
         merge d l m r s }
       else Some s)"
begin

lemma subsort_correct:
  assumes "d \<in> dirs"
  shows "list_all ok xs \<Longrightarrow> l \<le> r \<Longrightarrow> r < length xs \<Longrightarrow> okbuf (length xs) b \<Longrightarrow>
    \<exists>ys b'. subsort d l r (flat xs, b) = Some (flat (splice_at l ys xs), b') \<and>
      mset ys = mset (window l (r + 1 - l) xs) \<and> sorted_wrt (R d) ys \<and> okbuf (length xs) b'"
proof (induction "r - l" arbitrary: l r xs b rule: less_induct)
  case less
  show ?case
  proof (cases "l < r")
    case False
    then have "subsort d l r (flat xs, b) = Some (flat xs, b)" by (subst subsort_eq) simp
    moreover have "window l (r + 1 - l) xs = [xs ! l]"
      using False less.prems by (simp add: window_def take_Suc hd_drop_conv_nth Suc_diff_le)
    moreover have "splice_at l [xs ! l] xs = xs"
      using less.prems by (simp add: splice_at_def Cons_nth_drop_Suc)
    ultimately show ?thesis using less.prems by (metis sorted_wrt1)
  next
    case True
    define m where "m = l + (r - l) div 2"
    have m: "l \<le> m" "m < r" using True by (auto simp: m_def)
    then have m_less: "m - l < r - l" "r - (m + 1) < r - l" by linarith+
    obtain ys1 b1 where 1: "subsort d l m (flat xs, b) = Some (flat (splice_at l ys1 xs), b1)"
        "mset ys1 = mset (window l (m + 1 - l) xs)" "sorted_wrt (R d) ys1" "okbuf (length xs) b1"
      using less.hyps [OF m_less(1) less.prems(1), of b] less.prems m by auto
    define xs1 where "xs1 = splice_at l ys1 xs"
    have lys1: "length ys1 = m + 1 - l"
      using mset_eq_length [OF 1(2)] less.prems m by simp
    have oky1: "list_all ok ys1"
      using mset_eq_setD [OF 1(2)] list_all_window [OF less.prems(1)] by (simp add: list_all_iff)
    have len1: "length xs1 = length xs" unfolding xs1_def using lys1 less.prems m by simp
    have ok1: "list_all ok xs1"
      unfolding xs1_def by (rule list_all_splice_at [OF less.prems(1) oky1])
    obtain ys2 b2 where 2: "subsort d (m + 1) r (flat xs1, b1) = Some (flat (splice_at (m + 1) ys2 xs1), b2)"
        "mset ys2 = mset (window (m + 1) (r + 1 - (m + 1)) xs1)" "sorted_wrt (R d) ys2"
        "okbuf (length xs) b2"
      using less.hyps [OF m_less(2) ok1, of b1] less.prems m 1(4) len1 by auto
    define xs2 where "xs2 = splice_at (m + 1) ys2 xs1"
    have lys2: "length ys2 = r - m"
      using mset_eq_length [OF 2(2)] less.prems m len1 by simp
    have oky2: "list_all ok ys2"
      using mset_eq_setD [OF 2(2)] list_all_window [OF ok1] by (simp add: list_all_iff)
    have len2: "length xs2 = length xs" unfolding xs2_def using lys2 less.prems m len1 by simp
    have ok2: "list_all ok xs2"
      unfolding xs2_def by (rule list_all_splice_at [OF ok1 oky2])
    have w2: "window (m + 1) (r + 1 - (m + 1)) xs1 = window (m + 1) (r - m) xs"
      unfolding xs1_def using lys1 m less.prems by (simp add: window_def splice_at_def)
    have xs2: "xs2 = take l xs @ ys1 @ ys2 @ drop (r + 1) xs"
      unfolding xs2_def xs1_def using lys1 lys2 m less.prems by (simp add: splice_at_def)
    have w: "window l (m - l + 1) xs2 = ys1" "window (m + 1) (r - m) xs2 = ys2"
      unfolding xs2 window_def using lys1 lys2 m less.prems by auto
    obtain b3 where 3: "merge d l m r (flat xs2, b2) = Some (flat (merge_win (R d) l m r xs2), b3)"
        "okbuf (length xs) b3"
      using merge_law [OF ok2 m, of b2 d] less.prems len2 2(4) by auto
    have "merge_win (R d) l m r xs2 = splice_at l (merge_by (R d) ys1 ys2) xs"
      unfolding merge_win_def w using lys1 lys2 m less.prems by (simp add: xs2 splice_at_def)
    then have "subsort d l r (flat xs, b) = Some (flat (splice_at l (merge_by (R d) ys1 ys2) xs), b3)"
      using True 1(1) [folded xs1_def] 2(1) [folded xs2_def] 3(1)
      by (subst subsort_eq) (simp add: m_def [symmetric])
    moreover have "mset (merge_by (R d) ys1 ys2) = mset (window l (r + 1 - l) xs)"
    proof -
      have "window l (r + 1 - l) xs = window l (m + 1 - l) xs @ window (m + 1) (r - m) xs"
        using m take_add [of "m + 1 - l" "r - m" "drop l xs"] by (simp add: window_def)
      then show ?thesis using 1(2) 2(2) w2 by simp
    qed
    moreover have "sorted_wrt (R d) (merge_by (R d) ys1 ys2)"
      by (rule sorted_wrt_merge_by [where P = ok, OF R_total [OF assms] R_trans [OF assms]
            oky1 oky2 1(3) 2(3)])
    ultimately show ?thesis using 3(2) by blast
  qed
qed

text \<open>The whole array.\<close>

lemma sort_correct:
  assumes "d \<in> dirs" "list_all ok xs" "okbuf (length xs) b"
  shows "\<exists>ys b'. subsort d 0 (length xs - 1) (flat xs, b) = Some (flat ys, b') \<and>
    mset ys = mset xs \<and> sorted_wrt (R d) ys"
proof (cases "xs = []")
  case True
  then show ?thesis by (subst subsort_eq) simp
next
  case False
  then have "0 < length xs" by simp
  then obtain ys b' where *: "subsort d 0 (length xs - 1) (flat xs, b) = Some (flat (splice_at 0 ys xs), b')"
      "mset ys = mset (window 0 (length xs - 1 + 1 - 0) xs)" "sorted_wrt (R d) ys"
    using subsort_correct [OF assms(1,2), of 0 "length xs - 1" b] assms(3) by auto
  have "window 0 (length xs - 1 + 1 - 0) xs = xs" using \<open>0 < length xs\<close> by (simp add: window_def)
  moreover from this * have "splice_at 0 ys xs = ys"
    using mset_eq_length [OF *(2)] by (simp add: splice_at_def)
  ultimately show ?thesis using * by auto
qed

end

section \<open>Interpretation on the five variants\<close>

definition key_le :: "int \<Rightarrow> int \<Rightarrow> int \<Rightarrow> bool" where
  "key_le dir x y \<longleftrightarrow> (x \<le> y \<and> dir = ASCENDING) \<or> (x \<ge> y \<and> dir = DESCENDING)"

definition directions :: "int set" where
  "directions = {ASCENDING, DESCENDING}"

lemma directions_simp [simp]: "d \<in> directions \<longleftrightarrow> d = 1 \<or> d = 0"
  by (simp add: directions_def ASCENDING_def DESCENDING_def)

lemma key_le_total: "d \<in> directions \<Longrightarrow> key_le d x y \<or> key_le d y x"
  by (auto simp: key_le_def ASCENDING_def DESCENDING_def)

lemma key_le_trans: "d \<in> directions \<Longrightarrow> key_le d x y \<Longrightarrow> key_le d y z \<Longrightarrow> key_le d x z"
  by (auto simp: key_le_def ASCENDING_def DESCENDING_def)

lemma two_key_total:
  "d \<in> directions \<times> directions \<Longrightarrow> two_key_from_L d x1 x2 y1 y2 \<or> two_key_from_L d y1 y2 x1 x2"
  by (cases d; elim SigmaE; simp add: two_key_from_L_def ASCENDING_def DESCENDING_def; linarith)

lemma two_key_trans:
  "d \<in> directions \<times> directions \<Longrightarrow> two_key_from_L d x1 x2 y1 y2 \<Longrightarrow> two_key_from_L d y1 y2 z1 z2 \<Longrightarrow>
   two_key_from_L d x1 x2 z1 z2"
  by (cases d; elim SigmaE; simp add: two_key_from_L_def ASCENDING_def DESCENDING_def; linarith)

text \<open>The merge laws have one shape; \<open>put\<close> copies an entry into the array or a buffer.\<close>

lemma merge_skeleton:
  fixes flat :: "'a list \<Rightarrow> 's"
  assumes put: "\<And>src dst k i. list_all ok src \<Longrightarrow> list_all ok dst \<Longrightarrow> i < length src \<Longrightarrow>
      k < length dst \<Longrightarrow> put (flat src) i k (flat dst) = Some (flat (dst[k := src ! i]))"
    and cmp: "\<And>bs cs i j. list_all ok bs \<Longrightarrow> list_all ok cs \<Longrightarrow> i < length bs \<Longrightarrow> j < length cs \<Longrightarrow>
      cmp (flat bs) (flat cs) i j = Some (R (bs ! i) (cs ! j))"
    and "list_all ok xs" "list_all ok bs" "list_all ok cs" "l \<le> m" "m < r" "r < length xs"
      "length bs = length xs" "length cs = length xs"
  shows "\<exists>bs' cs'. (do {
      buf_L \<leftarrow> for_loop 0 (m - l + 1) (\<lambda>i b. put (flat xs) (l + i) i b) (flat bs);
      buf_R \<leftarrow> for_loop 0 (r - m) (\<lambda>j b. put (flat xs) (m + 1 + j) j b) (flat cs);
      arr \<leftarrow> merge_body (m - l + 1) (r - m) (cmp buf_L buf_R)
        (\<lambda>k i a. put buf_L i k a) (\<lambda>k j a. put buf_R j k a) l (flat xs);
      Some (arr, buf_L, buf_R) }) = Some (flat (merge_win R l m r xs), flat bs', flat cs')
    \<and> list_all ok bs' \<and> list_all ok cs' \<and> length bs' = length xs \<and> length cs' = length xs"
proof -
  define X where "X = window l (m - l + 1) xs"
  define Y where "Y = window (m + 1) (r - m) xs"
  have len: "length X = m - l + 1" "length Y = r - m"
    using assms by (simp_all add: X_def Y_def)
  have okX: "list_all ok X" and okY: "list_all ok Y"
    using assms(3) by (simp_all add: X_def Y_def list_all_window)
  let ?bs = "X @ drop (length X) bs" and ?cs = "Y @ drop (length Y) cs"
  have okb: "list_all ok ?bs" "list_all ok ?cs"
    using okX okY assms(4,5) by (auto simp: list_all_drop)
  have "for_loop 0 (length X) (\<lambda>i b. put (flat xs) (l + i) i b) (flat bs) = Some (flat ?bs)"
    using assms len okX by (intro fill_eq [where ok = ok]) (auto simp: put X_def window_nth)
  moreover have "for_loop 0 (length Y) (\<lambda>j b. put (flat xs) (m + 1 + j) j b) (flat cs) = Some (flat ?cs)"
    using assms len okY by (intro fill_eq [where ok = ok]) (auto simp: put Y_def window_nth)
  moreover have "merge_body (length X) (length Y) (cmp (flat ?bs) (flat ?cs))
      (\<lambda>k i a. put (flat ?bs) i k a) (\<lambda>k j a. put (flat ?cs) j k a) l (flat xs)
    = Some (flat (splice_at l (merge_by R X Y) xs))"
    using assms(3,6-8) okX okY okb len
    by (intro merge_body_eq [where ok = ok]) (auto simp: put cmp nth_append)
  moreover have "merge_win R l m r xs = splice_at l (merge_by R X Y) xs"
    by (simp add: merge_win_def X_def Y_def)
  ultimately have "(do {
      buf_L \<leftarrow> for_loop 0 (m - l + 1) (\<lambda>i b. put (flat xs) (l + i) i b) (flat bs);
      buf_R \<leftarrow> for_loop 0 (r - m) (\<lambda>j b. put (flat xs) (m + 1 + j) j b) (flat cs);
      arr \<leftarrow> merge_body (m - l + 1) (r - m) (cmp buf_L buf_R)
        (\<lambda>k i a. put buf_L i k a) (\<lambda>k j a. put buf_R j k a) l (flat xs);
      Some (arr, buf_L, buf_R) }) = Some (flat (merge_win R l m r xs), flat ?bs, flat ?cs)"
    by (simp add: len)
  moreover have "length ?bs = length xs" "length ?cs = length xs"
    using len assms(6-10) by simp_all
  ultimately show ?thesis using okb by blast
qed

interpretation int_sort: merge_sort_impl
  "\<lambda>xs. xs" "\<lambda>_. True" "\<lambda>n (buf_L, buf_R). length buf_L = n \<and> length buf_R = n"
  key_le directions Merge_Int MergeSubSort_Int
proof (unfold_locales, goal_cases)
  case (1 d x y)
  then show ?case by (simp only: key_le_total)
next
  case (2 d x y z)
  then show ?case by (rule key_le_trans)
next
  case (3 xs l m r b d)
  obtain bL bR where b: "b = (bL, bR)" by (cases b)
  have "\<exists>bs' cs'. Merge_Int d l m r (xs, bL, bR) = Some (merge_win (key_le d) l m r xs, bs', cs')
      \<and> list_all (\<lambda>_. True) bs' \<and> list_all (\<lambda>_. True) cs' \<and> length bs' = length xs \<and> length cs' = length xs"
    unfolding Merge_Int_def Let_def prod.case key_le_def [symmetric]
    by (rule merge_skeleton [where flat = "\<lambda>xs. xs" and ok = "\<lambda>_. True" and R = "key_le d"
          and put = "\<lambda>src i k dst. do { v \<leftarrow> rd src i; wr dst k v }"
          and cmp = "\<lambda>bL bR i j. do { x \<leftarrow> rd bL i; y \<leftarrow> rd bR j; Some (key_le d x y) }"])
      (use 3 b in \<open>auto simp: list_all_iff\<close>)
  then show ?case using b by auto
next
  case (4 d l r s)
  show ?case by (rule MergeSubSort_Int.simps)
qed

text \<open>Blocks: an entry is a block of the right size whose key positions lie inside it.\<close>

definition blk_ok :: "nat \<Rightarrow> nat list \<Rightarrow> 'a list \<Rightarrow> bool" where
  "blk_ok n keys x \<longleftrightarrow> length x = n \<and> (\<forall>k \<in> set keys. k < n)"

lemma blk_ok_uniform: "list_all (blk_ok n keys) xs \<Longrightarrow> uniform n xs"
  by (auto simp: list_all_iff uniform_def blk_ok_def)

lemma uniform_blk_ok: "uniform n xs \<Longrightarrow> \<forall>k \<in> set keys. k < n \<Longrightarrow> list_all (blk_ok n keys) xs"
  by (auto simp: list_all_iff uniform_def blk_ok_def)

lemma block_buffer:
  assumes "length buf = N * n" "list_all (blk_ok n keys) xs" "xs \<noteq> []"
  obtains bs where "buf = concat bs" "length bs = N" "list_all (blk_ok n keys) bs"
proof
  show "buf = concat (blocks n N buf)" using assms by simp
  have "\<forall>k \<in> set keys. k < n" using assms(2,3) by (cases xs) (auto simp: blk_ok_def)
  then show "list_all (blk_ok n keys) (blocks n N buf)"
    using assms(1) by (intro uniform_blk_ok) auto
qed simp

lemma block_key:
  assumes "list_all (blk_ok n keys) bs" "i < length bs" "key \<in> set keys"
  shows "rd (concat bs) (i * n + key) = Some (bs ! i ! key)"
proof -
  have u: "uniform n bs" using assms(1) by (rule blk_ok_uniform)
  have "key < n" using assms by (auto simp: list_all_length blk_ok_def)
  with u assms(2) show ?thesis by (simp add: concat_nth_block)
qed

lemma block_put:
  assumes "list_all (blk_ok n keys) src" "list_all (blk_ok n keys) dst" "i < length src" "k < length dst"
  shows "copy_block n (concat src) i k (concat dst) = Some (concat (dst[k := src ! i]))"
  using assms blk_ok_uniform copy_block_concat by blast

interpretation block_sort: merge_sort_impl
  concat "blk_ok block_sz [key_idx]"
  "\<lambda>n (buf_L, buf_R). length buf_L = n * block_sz \<and> length buf_R = n * block_sz"
  "\<lambda>d x y. key_le d (x ! key_idx) (y ! key_idx)" directions
  "Merge_Block key_idx block_sz" "MergeSubSort_Block key_idx block_sz"
  for key_idx block_sz :: nat
proof (unfold_locales, goal_cases)
  case (1 d x y)
  then show ?case by (simp only: key_le_total)
next
  case (2 d x y z)
  then show ?case by (blast intro: key_le_trans)
next
  case (3 xs l m r b d)
  obtain bL bR where b: "b = (bL, bR)" by (cases b)
  have ne: "xs \<noteq> []" using 3 by auto
  obtain bs where bs: "bL = concat bs" "length bs = length xs" "list_all (blk_ok block_sz [key_idx]) bs"
    using block_buffer [of bL "length xs" block_sz, OF _ 3(1) ne] 3(5) b by auto
  obtain cs where cs: "bR = concat cs" "length cs = length xs" "list_all (blk_ok block_sz [key_idx]) cs"
    using block_buffer [of bR "length xs" block_sz, OF _ 3(1) ne] 3(5) b by auto
  have "\<exists>bs' cs'. Merge_Block key_idx block_sz d l m r (concat xs, concat bs, concat cs) =
      Some (concat (merge_win (\<lambda>x y. key_le d (x ! key_idx) (y ! key_idx)) l m r xs), concat bs', concat cs')
      \<and> list_all (blk_ok block_sz [key_idx]) bs' \<and> list_all (blk_ok block_sz [key_idx]) cs'
      \<and> length bs' = length xs \<and> length cs' = length xs"
    unfolding Merge_Block_def Let_def prod.case key_le_def [symmetric]
    by (rule merge_skeleton [where flat = concat and ok = "blk_ok block_sz [key_idx]"
          and R = "\<lambda>x y. key_le d (x ! key_idx) (y ! key_idx)" and put = "copy_block block_sz"
          and cmp = "\<lambda>bL bR i j. do { x \<leftarrow> rd bL (i * block_sz + key_idx);
             y \<leftarrow> rd bR (j * block_sz + key_idx); Some (key_le d x y) }"])
      (use 3(1-4) bs cs in \<open>simp_all add: block_put [where keys = "[key_idx]"] block_key [where keys = "[key_idx]"]\<close>)
  then show ?case using b bs cs by (auto dest!: blk_ok_uniform)
next
  case (4 d l r s)
  show ?case by (rule MergeSubSort_Block.simps)
qed

interpretation general_sort: merge_sort_impl
  concat "blk_ok block_sz [key1_idx, key2_idx]"
  "\<lambda>n (buf_L, buf_R). length buf_L = n * block_sz \<and> length buf_R = n * block_sz"
  "\<lambda>d x y. two_key_from_L d (x ! key1_idx) (x ! key2_idx) (y ! key1_idx) (y ! key2_idx)"
  "directions \<times> directions"
  "Merge_General key1_idx key2_idx block_sz" "MergeSubSort_General key1_idx key2_idx block_sz"
  for key1_idx key2_idx block_sz :: nat
proof (unfold_locales, goal_cases)
  case (1 d x y)
  then show ?case by (simp only: two_key_total)
next
  case (2 d x y z)
  then show ?case by (blast intro: two_key_trans)
next
  case (3 xs l m r b d)
  let ?ok = "blk_ok block_sz [key1_idx, key2_idx]"
  obtain bL bR where b: "b = (bL, bR)" by (cases b)
  have ne: "xs \<noteq> []" using 3 by auto
  obtain bs where bs: "bL = concat bs" "length bs = length xs" "list_all ?ok bs"
    using block_buffer [of bL "length xs" block_sz, OF _ 3(1) ne] 3(5) b by auto
  obtain cs where cs: "bR = concat cs" "length cs = length xs" "list_all ?ok cs"
    using block_buffer [of bR "length xs" block_sz, OF _ 3(1) ne] 3(5) b by auto
  have "\<exists>bs' cs'. Merge_General key1_idx key2_idx block_sz d l m r (concat xs, concat bs, concat cs) =
      Some (concat (merge_win (\<lambda>x y. two_key_from_L d (x ! key1_idx) (x ! key2_idx)
        (y ! key1_idx) (y ! key2_idx)) l m r xs), concat bs', concat cs')
      \<and> list_all ?ok bs' \<and> list_all ?ok cs' \<and> length bs' = length xs \<and> length cs' = length xs"
    unfolding Merge_General_def Let_def prod.case
    by (rule merge_skeleton [where flat = concat and ok = ?ok
          and R = "\<lambda>x y. two_key_from_L d (x ! key1_idx) (x ! key2_idx) (y ! key1_idx) (y ! key2_idx)"
          and put = "copy_block block_sz"
          and cmp = "\<lambda>bL bR i j. do {
             x1 \<leftarrow> rd bL (i * block_sz + key1_idx); y1 \<leftarrow> rd bR (j * block_sz + key1_idx);
             x2 \<leftarrow> rd bL (i * block_sz + key2_idx); y2 \<leftarrow> rd bR (j * block_sz + key2_idx);
             Some (two_key_from_L d x1 x2 y1 y2) }"])
      (use 3(1-4) bs cs in \<open>simp_all add: block_put [where keys = "[key1_idx, key2_idx]"]
          block_key [where keys = "[key1_idx, key2_idx]"]\<close>)
  then show ?case using b bs cs by (auto dest!: blk_ok_uniform)
next
  case (4 d l r s)
  show ?case by (rule MergeSubSort_General.simps)
qed

text \<open>Two arrays: an entry is a pair of a main block and an auxiliary block.\<close>

definition flat_two :: "(int list \<times> int list) list \<Rightarrow> int list \<times> int list" where
  "flat_two xs = (concat (map fst xs), concat (map snd xs))"

definition two_ok :: "nat \<Rightarrow> nat \<Rightarrow> nat list \<Rightarrow> int list \<times> int list \<Rightarrow> bool" where
  "two_ok bm ba keys x \<longleftrightarrow> blk_ok bm keys (fst x) \<and> length (snd x) = ba"

definition two_buf :: "nat \<Rightarrow> nat \<Rightarrow> nat \<Rightarrow> int list \<times> int list \<Rightarrow> bool" where
  "two_buf bm ba n buf \<longleftrightarrow> length (fst buf) = n * bm \<and> length (snd buf) = n * ba"

lemma two_ok_main: "list_all (two_ok bm ba keys) xs \<Longrightarrow> list_all (blk_ok bm keys) (map fst xs)"
  by (auto simp: list_all_iff two_ok_def)

lemma two_ok_aux: "list_all (two_ok bm ba keys) xs \<Longrightarrow> uniform ba (map snd xs)"
  by (auto simp: list_all_iff two_ok_def uniform_def)

lemma two_buf_flat: "list_all (two_ok bm ba keys) xs \<Longrightarrow> two_buf bm ba (length xs) (flat_two xs)"
  using blk_ok_uniform [OF two_ok_main] two_ok_aux
  by (fastforce simp: two_buf_def flat_two_def simp del: length_concat)

lemma two_buffer:
  assumes "two_buf bm ba N buf" "list_all (two_ok bm ba keys) xs" "xs \<noteq> []"
  obtains bs where "buf = flat_two bs" "length bs = N" "list_all (two_ok bm ba keys) bs"
proof
  let ?bs = "zip (blocks bm N (fst buf)) (blocks ba N (snd buf))"
  have l: "length (fst buf) = N * bm" "length (snd buf) = N * ba" using assms(1) by (auto simp: two_buf_def)
  then show "buf = flat_two ?bs" by (cases buf) (simp add: flat_two_def)
  have "\<forall>k \<in> set keys. k < bm" using assms(2,3) by (cases xs) (auto simp: two_ok_def blk_ok_def)
  then show "list_all (two_ok bm ba keys) ?bs"
    using l by (auto simp: list_all_length two_ok_def blk_ok_def)
qed simp

lemma two_put:
  assumes "list_all (two_ok bm ba keys) src" "list_all (two_ok bm ba keys) dst"
    "i < length src" "k < length dst"
  shows "copy_two bm ba (flat_two src) i k (flat_two dst) = Some (flat_two (dst[k := src ! i]))"
  using block_put [OF two_ok_main [OF assms(1)] two_ok_main [OF assms(2)], of i k]
    copy_block_concat [OF two_ok_aux [OF assms(1)] two_ok_aux [OF assms(2)], of i k] assms(3,4)
  by (simp add: copy_two_def flat_two_def map_update)

lemma two_key:
  assumes "list_all (two_ok bm ba keys) bs" "i < length bs" "key \<in> set keys"
  shows "rd (fst (flat_two bs)) (i * bm + key) = Some (fst (bs ! i) ! key)"
  using block_key [OF two_ok_main [OF assms(1)], of i key] assms(2,3) by (simp add: flat_two_def)

interpretation two_sort: merge_sort_impl
  flat_two "two_ok bm ba [key_idx]" "\<lambda>n (buf_L, buf_R). two_buf bm ba n buf_L \<and> two_buf bm ba n buf_R"
  "\<lambda>d x y. key_le d (fst x ! key_idx) (fst y ! key_idx)" directions
  "Merge_TwoArray key_idx bm ba" "MergeSubSort_TwoArray key_idx bm ba"
  for key_idx bm ba :: nat
proof (unfold_locales, goal_cases)
  case (1 d x y)
  then show ?case by (simp only: key_le_total)
next
  case (2 d x y z)
  then show ?case by (blast intro: key_le_trans)
next
  case (3 xs l m r b d)
  let ?ok = "two_ok bm ba [key_idx]"
  obtain bL bR where b: "b = (bL, bR)" by (cases b)
  have ne: "xs \<noteq> []" using 3 by auto
  obtain bs where bs: "bL = flat_two bs" "length bs = length xs" "list_all ?ok bs"
    using two_buffer [of bm ba "length xs" bL, OF _ 3(1) ne] 3(5) b by auto
  obtain cs where cs: "bR = flat_two cs" "length cs = length xs" "list_all ?ok cs"
    using two_buffer [of bm ba "length xs" bR, OF _ 3(1) ne] 3(5) b by auto
  have "\<exists>bs' cs'. Merge_TwoArray key_idx bm ba d l m r (flat_two xs, flat_two bs, flat_two cs) =
      Some (flat_two (merge_win (\<lambda>x y. key_le d (fst x ! key_idx) (fst y ! key_idx)) l m r xs),
        flat_two bs', flat_two cs')
      \<and> list_all ?ok bs' \<and> list_all ?ok cs' \<and> length bs' = length xs \<and> length cs' = length xs"
    unfolding Merge_TwoArray_def Let_def prod.case key_le_def [symmetric]
    by (rule merge_skeleton [where flat = flat_two and ok = ?ok
          and R = "\<lambda>x y. key_le d (fst x ! key_idx) (fst y ! key_idx)" and put = "copy_two bm ba"
          and cmp = "\<lambda>bL bR i j. do { x \<leftarrow> rd (fst bL) (i * bm + key_idx);
             y \<leftarrow> rd (fst bR) (j * bm + key_idx); Some (key_le d x y) }"])
      (use 3(1-4) bs cs in \<open>simp_all add: two_put [where keys = "[key_idx]"] two_key [where keys = "[key_idx]"]\<close>)
  then show ?case using b bs cs two_buf_flat by fastforce
next
  case (4 d l r s)
  show ?case by (rule MergeSubSort_TwoArray.simps)
qed

interpretation two_key_sort: merge_sort_impl
  flat_two "two_ok bm ba [key1_idx, key2_idx]"
  "\<lambda>n (buf_L, buf_R). two_buf bm ba n buf_L \<and> two_buf bm ba n buf_R"
  "\<lambda>d x y. two_key_from_L d (fst x ! key1_idx) (fst x ! key2_idx) (fst y ! key1_idx) (fst y ! key2_idx)"
  "directions \<times> directions"
  "Merge_TwoArray_TwoKey key1_idx key2_idx bm ba" "MergeSubSort_TwoArray_TwoKey key1_idx key2_idx bm ba"
  for key1_idx key2_idx bm ba :: nat
proof (unfold_locales, goal_cases)
  case (1 d x y)
  then show ?case by (simp only: two_key_total)
next
  case (2 d x y z)
  then show ?case by (blast intro: two_key_trans)
next
  case (3 xs l m r b d)
  let ?ok = "two_ok bm ba [key1_idx, key2_idx]"
  obtain bL bR where b: "b = (bL, bR)" by (cases b)
  have ne: "xs \<noteq> []" using 3 by auto
  obtain bs where bs: "bL = flat_two bs" "length bs = length xs" "list_all ?ok bs"
    using two_buffer [of bm ba "length xs" bL, OF _ 3(1) ne] 3(5) b by auto
  obtain cs where cs: "bR = flat_two cs" "length cs = length xs" "list_all ?ok cs"
    using two_buffer [of bm ba "length xs" bR, OF _ 3(1) ne] 3(5) b by auto
  have "\<exists>bs' cs'. Merge_TwoArray_TwoKey key1_idx key2_idx bm ba d l m r
        (flat_two xs, flat_two bs, flat_two cs) =
      Some (flat_two (merge_win (\<lambda>x y. two_key_from_L d (fst x ! key1_idx) (fst x ! key2_idx)
        (fst y ! key1_idx) (fst y ! key2_idx)) l m r xs), flat_two bs', flat_two cs')
      \<and> list_all ?ok bs' \<and> list_all ?ok cs' \<and> length bs' = length xs \<and> length cs' = length xs"
    unfolding Merge_TwoArray_TwoKey_def Let_def prod.case
    by (rule merge_skeleton [where flat = flat_two and ok = ?ok
          and R = "\<lambda>x y. two_key_from_L d (fst x ! key1_idx) (fst x ! key2_idx)
             (fst y ! key1_idx) (fst y ! key2_idx)"
          and put = "copy_two bm ba"
          and cmp = "\<lambda>bL bR i j. do {
             x1 \<leftarrow> rd (fst bL) (i * bm + key1_idx); y1 \<leftarrow> rd (fst bR) (j * bm + key1_idx);
             x2 \<leftarrow> rd (fst bL) (i * bm + key2_idx); y2 \<leftarrow> rd (fst bR) (j * bm + key2_idx);
             Some (two_key_from_L d x1 x2 y1 y2) }"])
      (use 3(1-4) bs cs in \<open>simp_all add: two_put [where keys = "[key1_idx, key2_idx]"]
          two_key [where keys = "[key1_idx, key2_idx]"]\<close>)
  then show ?case using b bs cs two_buf_flat by fastforce
next
  case (4 d l r s)
  show ?case by (rule MergeSubSort_TwoArray_TwoKey.simps)
qed

section \<open>The entry points sort\<close>

lemma MergeSort_Int_run:
  assumes "dir \<in> directions"
  shows "\<exists>ys. MergeSort_Int junk xs (length xs) dir = Some ys \<and> mset ys = mset xs \<and> sorted_wrt (key_le dir) ys"
  using int_sort.sort_correct [OF assms, of xs "(fresh junk (length xs), fresh junk (length xs))"]
  by (auto simp: MergeSort_Int_def list_all_iff)

text \<open>
  \<^verbatim>\<open>MergeSort_Int\<close> sorts: from any array of \<open>N\<close> integers, in either direction and whatever
  the buffers contain, it returns (so it stays inside its arrays and terminates) a permutation
  of the array in the requested order.
\<close>

theorem MergeSort_Int_sorts:
  assumes "dir \<in> directions"
  shows "\<exists>ys. MergeSort_Int junk xs (length xs) dir = Some ys \<and> mset ys = mset xs \<and>
    sorted_wrt (key_le dir) ys"
  by (rule MergeSort_Int_run [OF assms])

theorem MergeSort_Int_sorts_witness:
  "ASCENDING \<in> directions \<and>
   (\<exists>ys. MergeSort_Int (\<lambda>_. 7) [3, 1, 2, -5] (length [3, 1, 2, -5 :: int]) ASCENDING = Some ys \<and>
     mset ys = mset [3, 1, 2, -5] \<and> sorted_wrt (key_le ASCENDING) ys)"
  using MergeSort_Int_sorts [of ASCENDING "\<lambda>_. 7" "[3, 1, 2, -5]"]
  by (simp add: directions_def)

lemma MergeSort_TwoArray_TwoKey_run:
  assumes "list_all (two_ok bm ba [key1_idx, key2_idx]) xs" "dir1 \<in> directions" "dir2 \<in> directions"
  shows "\<exists>ys. MergeSort_TwoArray_TwoKey junk (concat (map fst xs)) (concat (map snd xs)) (length xs)
      key1_idx dir1 key2_idx dir2 bm ba = Some (concat (map fst ys), concat (map snd ys)) \<and>
    mset ys = mset xs \<and>
    sorted_wrt (\<lambda>x y. two_key_from_L (dir1, dir2) (fst x ! key1_idx) (fst x ! key2_idx)
      (fst y ! key1_idx) (fst y ! key2_idx)) ys"
  using two_key_sort.sort_correct [of "(dir1, dir2)" bm ba key1_idx key2_idx xs
      "((fresh junk (length xs * bm), fresh junk (length xs * ba)),
        (fresh junk (length xs * bm), fresh junk (length xs * ba)))"] assms
  by (auto simp: MergeSort_TwoArray_TwoKey_def flat_two_def two_buf_def)



text \<open>The remaining variants.\<close>

lemma MergeSort_Block_sorts:
  assumes "list_all (blk_ok block_sz [key_idx]) xs" "dir \<in> directions"
  shows "\<exists>ys. MergeSort_Block junk (concat xs) (length xs) key_idx dir block_sz = Some (concat ys) \<and>
    mset ys = mset xs \<and> sorted_wrt (\<lambda>x y. key_le dir (x ! key_idx) (y ! key_idx)) ys"
  using block_sort.sort_correct [of dir block_sz key_idx xs
      "(fresh junk (length xs * block_sz), fresh junk (length xs * block_sz))"] assms
  by (auto simp: MergeSort_Block_def)

lemma MergeSort_General_sorts:
  assumes "list_all (blk_ok block_sz [key1_idx, key2_idx]) xs" "dir1 \<in> directions" "dir2 \<in> directions"
  shows "\<exists>ys. MergeSort_General junk (concat xs) (length xs) block_sz key1_idx dir1 key2_idx dir2
      = Some (concat ys) \<and> mset ys = mset xs \<and>
    sorted_wrt (\<lambda>x y. two_key_from_L (dir1, dir2) (x ! key1_idx) (x ! key2_idx)
      (y ! key1_idx) (y ! key2_idx)) ys"
  using general_sort.sort_correct [of "(dir1, dir2)" block_sz key1_idx key2_idx xs
      "(fresh junk (length xs * block_sz), fresh junk (length xs * block_sz))"] assms
  by (auto simp: MergeSort_General_def)

lemma MergeSort_TwoArray_sorts:
  assumes "list_all (two_ok bm ba [key_idx]) xs" "dir \<in> directions"
  shows "\<exists>ys. MergeSort_TwoArray junk (concat (map fst xs)) (concat (map snd xs)) (length xs)
      key_idx dir bm ba = Some (concat (map fst ys), concat (map snd ys)) \<and> mset ys = mset xs \<and>
    sorted_wrt (\<lambda>x y. key_le dir (fst x ! key_idx) (fst y ! key_idx)) ys"
  using two_sort.sort_correct [of dir bm ba key_idx xs
      "((fresh junk (length xs * bm), fresh junk (length xs * ba)),
        (fresh junk (length xs * bm), fresh junk (length xs * ba)))"] assms
  by (auto simp: MergeSort_TwoArray_def flat_two_def two_buf_def)

end
