(* ===== verification/BitonicSort.thy ===== *)
theory BitonicSort
  imports MergeSort "HOL-Library.Product_Lexorder"
begin

text \<open>
  The bitonic sorts of \<^verbatim>\<open>primitives/sort/bitonic_sort.c\<close>, in the same five variants as the merge
  sorts. \<^verbatim>\<open>oswap\<close> is inline assembly that exchanges two words under a condition without a
  branch; the compare-and-swap routines apply it to every word of two blocks;
  \<^verbatim>\<open>BitonicMerge_X\<close> and \<^verbatim>\<open>BitonicSubSort_X\<close> are the recursions of the network;
  \<^verbatim>\<open>checkPowerOfTwo\<close> aborts on a length that is not a power of two and does not return on
  zero. File-static variables are arguments, as in the merge sorts.

  The locale \<open>bitonic_impl\<close> is the contract between a compare-and-swap routine and the recursions
  above it. Inside it the network is shown to sort by the 0-1 principle; it is interpreted on all
  five variants.
\<close>

section \<open>Compare and swap\<close>

definition oswap :: "'a list \<Rightarrow> nat \<Rightarrow> nat \<Rightarrow> int \<Rightarrow> 'a list option" where
  "oswap mem a b if_swap = do {
     eax \<leftarrow> rd mem a;
     ebx \<leftarrow> rd mem b;
     let ecx = eax;
     let eax = (if if_swap \<noteq> 0 then ebx else eax);
     let ebx = (if if_swap \<noteq> 0 then ecx else ebx);
     mem \<leftarrow> wr mem a eax;
     wr mem b ebx }"

partial_function (option) checkPowerOfTwo :: "int \<Rightarrow> unit option" where
  "checkPowerOfTwo val =
     (if val mod 2 = 0 then checkPowerOfTwo (val div 2) else c_assert (val = 1))"

definition CompAndSwap_Int :: "int \<Rightarrow> nat \<Rightarrow> nat \<Rightarrow> int list \<Rightarrow> int list option" where
  "CompAndSwap_Int dir i j arr = do {
     x \<leftarrow> rd arr i;
     y \<leftarrow> rd arr j;
     let act_dir = of_bool (x > y);
     let if_swap = of_bool (dir = act_dir);
     oswap arr i j if_swap }"

definition CompAndSwap_Block ::
    "nat \<Rightarrow> nat \<Rightarrow> int \<Rightarrow> nat \<Rightarrow> nat \<Rightarrow> int list \<Rightarrow> int list option" where
  "CompAndSwap_Block key_idx block_sz dir i j arr = do {
     x \<leftarrow> rd arr (i * block_sz + key_idx);
     y \<leftarrow> rd arr (j * block_sz + key_idx);
     let act_dir = of_bool (x > y);
     let if_swap = of_bool (dir = act_dir);
     for_loop 0 block_sz (\<lambda>k arr. oswap arr (i * block_sz + k) (j * block_sz + k) if_swap) arr }"

text \<open>The condition of the two-key routines, on the keys of the two entries.\<close>

definition two_key_swap :: "int \<times> int \<Rightarrow> int \<Rightarrow> int \<Rightarrow> int \<Rightarrow> int \<Rightarrow> int" where
  "two_key_swap = (\<lambda>(dir1, dir2) x1 x2 y1 y2.
     let dir1_eq = (x1 = y1);
         act_dir1 = of_bool (x1 > y1);
         act_dir2 = of_bool (x2 > y2)
     in of_bool ((\<not> dir1_eq \<and> act_dir1 = dir1) \<or> (dir1_eq \<and> act_dir2 = dir2)))"

definition CompAndSwap_General ::
    "nat \<Rightarrow> nat \<Rightarrow> nat \<Rightarrow> int \<times> int \<Rightarrow> nat \<Rightarrow> nat \<Rightarrow> int list \<Rightarrow> int list option" where
  "CompAndSwap_General key1_idx key2_idx block_sz dir i j arr = do {
     x1 \<leftarrow> rd arr (i * block_sz + key1_idx);
     y1 \<leftarrow> rd arr (j * block_sz + key1_idx);
     x2 \<leftarrow> rd arr (i * block_sz + key2_idx);
     y2 \<leftarrow> rd arr (j * block_sz + key2_idx);
     let if_swap = two_key_swap dir x1 x2 y1 y2;
     for_loop 0 block_sz (\<lambda>k arr. oswap arr (i * block_sz + k) (j * block_sz + k) if_swap) arr }"

definition CompAndSwap_TwoArray ::
    "nat \<Rightarrow> nat \<Rightarrow> nat \<Rightarrow> int \<Rightarrow> nat \<Rightarrow> nat \<Rightarrow> int list \<times> int list \<Rightarrow> (int list \<times> int list) option" where
  "CompAndSwap_TwoArray key_idx bm ba dir i j = (\<lambda>(arr_main, arr_aux). do {
     x \<leftarrow> rd arr_main (i * bm + key_idx);
     y \<leftarrow> rd arr_main (j * bm + key_idx);
     let act_dir = of_bool (x > y);
     let if_swap = of_bool (dir = act_dir);
     arr_main \<leftarrow> for_loop 0 bm (\<lambda>k arr. oswap arr (i * bm + k) (j * bm + k) if_swap) arr_main;
     arr_aux \<leftarrow> for_loop 0 ba (\<lambda>k arr. oswap arr (i * ba + k) (j * ba + k) if_swap) arr_aux;
     Some (arr_main, arr_aux) })"

definition CompAndSwap_TwoArray_TwoKey ::
    "nat \<Rightarrow> nat \<Rightarrow> nat \<Rightarrow> nat \<Rightarrow> int \<times> int \<Rightarrow> nat \<Rightarrow> nat \<Rightarrow> int list \<times> int list \<Rightarrow>
     (int list \<times> int list) option" where
  "CompAndSwap_TwoArray_TwoKey key1_idx key2_idx bm ba dir i j = (\<lambda>(arr_main, arr_aux). do {
     x1 \<leftarrow> rd arr_main (i * bm + key1_idx);
     y1 \<leftarrow> rd arr_main (j * bm + key1_idx);
     x2 \<leftarrow> rd arr_main (i * bm + key2_idx);
     y2 \<leftarrow> rd arr_main (j * bm + key2_idx);
     let if_swap = two_key_swap dir x1 x2 y1 y2;
     arr_main \<leftarrow> for_loop 0 bm (\<lambda>k arr. oswap arr (i * bm + k) (j * bm + k) if_swap) arr_main;
     arr_aux \<leftarrow> for_loop 0 ba (\<lambda>k arr. oswap arr (i * ba + k) (j * ba + k) if_swap) arr_aux;
     Some (arr_main, arr_aux) })"

declare checkPowerOfTwo.simps [code]

section \<open>The recursions\<close>

fun BitonicMerge_Int :: "int \<Rightarrow> nat \<Rightarrow> nat \<Rightarrow> int list \<Rightarrow> int list option" where
  "BitonicMerge_Int dir low cnt arr =
     (if cnt > 1 then let k = cnt div 2 in do {
        arr \<leftarrow> for_loop low (low + k) (\<lambda>i arr. CompAndSwap_Int dir i (i + k) arr) arr;
        arr \<leftarrow> BitonicMerge_Int dir low k arr;
        BitonicMerge_Int dir (low + k) k arr }
      else Some arr)"

fun BitonicMerge_Block ::
    "nat \<Rightarrow> nat \<Rightarrow> int \<Rightarrow> nat \<Rightarrow> nat \<Rightarrow> int list \<Rightarrow> int list option" where
  "BitonicMerge_Block key_idx block_sz dir low cnt arr =
     (if cnt > 1 then let k = cnt div 2 in do {
        arr \<leftarrow> for_loop low (low + k) (\<lambda>i arr. CompAndSwap_Block key_idx block_sz dir i (i + k) arr) arr;
        arr \<leftarrow> BitonicMerge_Block key_idx block_sz dir low k arr;
        BitonicMerge_Block key_idx block_sz dir (low + k) k arr }
      else Some arr)"

fun BitonicMerge_General ::
    "nat \<Rightarrow> nat \<Rightarrow> nat \<Rightarrow> int \<times> int \<Rightarrow> nat \<Rightarrow> nat \<Rightarrow> int list \<Rightarrow> int list option" where
  "BitonicMerge_General key1_idx key2_idx block_sz dir low cnt arr =
     (if cnt > 1 then let k = cnt div 2 in do {
        arr \<leftarrow> for_loop low (low + k)
          (\<lambda>i arr. CompAndSwap_General key1_idx key2_idx block_sz dir i (i + k) arr) arr;
        arr \<leftarrow> BitonicMerge_General key1_idx key2_idx block_sz dir low k arr;
        BitonicMerge_General key1_idx key2_idx block_sz dir (low + k) k arr }
      else Some arr)"

fun BitonicMerge_TwoArray ::
    "nat \<Rightarrow> nat \<Rightarrow> nat \<Rightarrow> int \<Rightarrow> nat \<Rightarrow> nat \<Rightarrow> int list \<times> int list \<Rightarrow> (int list \<times> int list) option" where
  "BitonicMerge_TwoArray key_idx bm ba dir low cnt arr =
     (if cnt > 1 then let k = cnt div 2 in do {
        arr \<leftarrow> for_loop low (low + k) (\<lambda>i arr. CompAndSwap_TwoArray key_idx bm ba dir i (i + k) arr) arr;
        arr \<leftarrow> BitonicMerge_TwoArray key_idx bm ba dir low k arr;
        BitonicMerge_TwoArray key_idx bm ba dir (low + k) k arr }
      else Some arr)"

fun BitonicMerge_TwoArray_TwoKey ::
    "nat \<Rightarrow> nat \<Rightarrow> nat \<Rightarrow> nat \<Rightarrow> int \<times> int \<Rightarrow> nat \<Rightarrow> nat \<Rightarrow> int list \<times> int list \<Rightarrow>
     (int list \<times> int list) option" where
  "BitonicMerge_TwoArray_TwoKey key1_idx key2_idx bm ba dir low cnt arr =
     (if cnt > 1 then let k = cnt div 2 in do {
        arr \<leftarrow> for_loop low (low + k)
          (\<lambda>i arr. CompAndSwap_TwoArray_TwoKey key1_idx key2_idx bm ba dir i (i + k) arr) arr;
        arr \<leftarrow> BitonicMerge_TwoArray_TwoKey key1_idx key2_idx bm ba dir low k arr;
        BitonicMerge_TwoArray_TwoKey key1_idx key2_idx bm ba dir (low + k) k arr }
      else Some arr)"

fun BitonicSubSort_Int :: "int \<Rightarrow> nat \<Rightarrow> nat \<Rightarrow> int list \<Rightarrow> int list option" where
  "BitonicSubSort_Int dir low cnt arr =
     (if cnt > 1 then let k = cnt div 2 in do {
        arr \<leftarrow> BitonicSubSort_Int 1 low k arr;
        arr \<leftarrow> BitonicSubSort_Int 0 (low + k) k arr;
        BitonicMerge_Int dir low cnt arr }
      else Some arr)"

fun BitonicSubSort_Block ::
    "nat \<Rightarrow> nat \<Rightarrow> int \<Rightarrow> nat \<Rightarrow> nat \<Rightarrow> int list \<Rightarrow> int list option" where
  "BitonicSubSort_Block key_idx block_sz dir low cnt arr =
     (if cnt > 1 then let k = cnt div 2 in do {
        arr \<leftarrow> BitonicSubSort_Block key_idx block_sz 1 low k arr;
        arr \<leftarrow> BitonicSubSort_Block key_idx block_sz 0 (low + k) k arr;
        BitonicMerge_Block key_idx block_sz dir low cnt arr }
      else Some arr)"

fun BitonicSubSort_General ::
    "nat \<Rightarrow> nat \<Rightarrow> nat \<Rightarrow> int \<times> int \<Rightarrow> nat \<Rightarrow> nat \<Rightarrow> int list \<Rightarrow> int list option" where
  "BitonicSubSort_General key1_idx key2_idx block_sz dir low cnt arr =
     (if cnt > 1 then let k = cnt div 2 in do {
        arr \<leftarrow> BitonicSubSort_General key1_idx key2_idx block_sz (1, 1) low k arr;
        arr \<leftarrow> BitonicSubSort_General key1_idx key2_idx block_sz (0, 0) (low + k) k arr;
        BitonicMerge_General key1_idx key2_idx block_sz dir low cnt arr }
      else Some arr)"

fun BitonicSubSort_TwoArray ::
    "nat \<Rightarrow> nat \<Rightarrow> nat \<Rightarrow> int \<Rightarrow> nat \<Rightarrow> nat \<Rightarrow> int list \<times> int list \<Rightarrow> (int list \<times> int list) option" where
  "BitonicSubSort_TwoArray key_idx bm ba dir low cnt arr =
     (if cnt > 1 then let k = cnt div 2 in do {
        arr \<leftarrow> BitonicSubSort_TwoArray key_idx bm ba 1 low k arr;
        arr \<leftarrow> BitonicSubSort_TwoArray key_idx bm ba 0 (low + k) k arr;
        BitonicMerge_TwoArray key_idx bm ba dir low cnt arr }
      else Some arr)"

fun BitonicSubSort_TwoArray_TwoKey ::
    "nat \<Rightarrow> nat \<Rightarrow> nat \<Rightarrow> nat \<Rightarrow> int \<times> int \<Rightarrow> nat \<Rightarrow> nat \<Rightarrow> int list \<times> int list \<Rightarrow>
     (int list \<times> int list) option" where
  "BitonicSubSort_TwoArray_TwoKey key1_idx key2_idx bm ba dir low cnt arr =
     (if cnt > 1 then let k = cnt div 2 in do {
        arr \<leftarrow> BitonicSubSort_TwoArray_TwoKey key1_idx key2_idx bm ba (1, 1) low k arr;
        arr \<leftarrow> BitonicSubSort_TwoArray_TwoKey key1_idx key2_idx bm ba (0, 0) (low + k) k arr;
        BitonicMerge_TwoArray_TwoKey key1_idx key2_idx bm ba dir low cnt arr }
      else Some arr)"

declare BitonicMerge_Int.simps [simp del] BitonicMerge_Block.simps [simp del]
  BitonicMerge_General.simps [simp del] BitonicMerge_TwoArray.simps [simp del]
  BitonicMerge_TwoArray_TwoKey.simps [simp del]
  BitonicSubSort_Int.simps [simp del] BitonicSubSort_Block.simps [simp del]
  BitonicSubSort_General.simps [simp del] BitonicSubSort_TwoArray.simps [simp del]
  BitonicSubSort_TwoArray_TwoKey.simps [simp del]

section \<open>The entry points\<close>

definition BitonicSort_Int :: "int list \<Rightarrow> nat \<Rightarrow> int \<Rightarrow> int list option" where
  "BitonicSort_Int arr N dir = do {
     checkPowerOfTwo (int N);
     BitonicSubSort_Int dir 0 N arr }"

definition BitonicSort_Block :: "int list \<Rightarrow> nat \<Rightarrow> nat \<Rightarrow> int \<Rightarrow> nat \<Rightarrow> int list option" where
  "BitonicSort_Block arr N key_idx dir block_sz = do {
     checkPowerOfTwo (int N);
     BitonicSubSort_Block key_idx block_sz dir 0 N arr }"

definition BitonicSort_General ::
    "int list \<Rightarrow> nat \<Rightarrow> nat \<Rightarrow> nat \<Rightarrow> int \<Rightarrow> nat \<Rightarrow> int \<Rightarrow> int list option" where
  "BitonicSort_General arr N block_sz key1_idx dir1 key2_idx dir2 = do {
     checkPowerOfTwo (int N);
     BitonicSubSort_General key1_idx key2_idx block_sz (dir1, dir2) 0 N arr }"

definition BitonicSort_TwoArray ::
    "int list \<Rightarrow> int list \<Rightarrow> nat \<Rightarrow> nat \<Rightarrow> int \<Rightarrow> nat \<Rightarrow> nat \<Rightarrow> (int list \<times> int list) option" where
  "BitonicSort_TwoArray arr_main arr_aux N key_idx dir bm ba = do {
     checkPowerOfTwo (int N);
     BitonicSubSort_TwoArray key_idx bm ba dir 0 N (arr_main, arr_aux) }"

definition BitonicSort_TwoArray_TwoKey ::
    "int list \<Rightarrow> int list \<Rightarrow> nat \<Rightarrow> nat \<Rightarrow> int \<Rightarrow> nat \<Rightarrow> int \<Rightarrow> nat \<Rightarrow> nat \<Rightarrow>
     (int list \<times> int list) option" where
  "BitonicSort_TwoArray_TwoKey arr_main arr_aux N key1_idx dir1 key2_idx dir2 bm ba = do {
     checkPowerOfTwo (int N);
     BitonicSubSort_TwoArray_TwoKey key1_idx key2_idx bm ba (dir1, dir2) 0 N (arr_main, arr_aux) }"

section \<open>The network on lists\<close>

definition exch :: "('a \<Rightarrow> 'k::linorder) \<Rightarrow> bool \<Rightarrow> nat \<Rightarrow> nat \<Rightarrow> 'a list \<Rightarrow> 'a list" where
  "exch key up i j xs =
     (if (key (xs ! i) > key (xs ! j)) = up then xs[i := xs ! j, j := xs ! i] else xs)"

definition half_clean :: "('a \<Rightarrow> 'k::linorder) \<Rightarrow> bool \<Rightarrow> nat \<Rightarrow> nat \<Rightarrow> 'a list \<Rightarrow> 'a list" where
  "half_clean key up low k xs = fold (\<lambda>i. exch key up i (i + k)) [low..<low + k] xs"

fun net_merge :: "('a \<Rightarrow> 'k::linorder) \<Rightarrow> bool \<Rightarrow> nat \<Rightarrow> nat \<Rightarrow> 'a list \<Rightarrow> 'a list" where
  "net_merge key up low 0 xs = xs"
| "net_merge key up low (Suc n) xs =
     net_merge key up (low + 2 ^ n) n (net_merge key up low n (half_clean key up low (2 ^ n) xs))"

fun net_sort :: "('a \<Rightarrow> 'k::linorder) \<Rightarrow> bool \<Rightarrow> nat \<Rightarrow> nat \<Rightarrow> 'a list \<Rightarrow> 'a list" where
  "net_sort key up low 0 xs = xs"
| "net_sort key up low (Suc n) xs =
     net_merge key up low (Suc n) (net_sort key False (low + 2 ^ n) n (net_sort key True low n xs))"

lemma length_exch [simp]: "length (exch key up i j xs) = length xs"
  by (simp add: exch_def)

lemma length_half_clean [simp]: "length (half_clean key up low k xs) = length xs"
proof -
  have "length (fold (\<lambda>i. exch key up i (i + k)) is xs) = length xs" for "is"
    by (induction "is" arbitrary: xs) auto
  then show ?thesis by (simp add: half_clean_def)
qed

lemma length_net_merge [simp]: "length (net_merge key up low n xs) = length xs"
  by (induction key up low n xs rule: net_merge.induct) auto

lemma length_net_sort [simp]: "length (net_sort key up low n xs) = length xs"
  by (induction key up low n xs rule: net_sort.induct) auto

lemma mset_exch: "i < length xs \<Longrightarrow> j < length xs \<Longrightarrow> mset (exch key up i j xs) = mset xs"
  by (simp add: exch_def mset_swap)

lemma mset_half_clean: "low + 2 * k \<le> length xs \<Longrightarrow> mset (half_clean key up low k xs) = mset xs"
proof -
  assume *: "low + 2 * k \<le> length xs"
  have "\<forall>i \<in> set is. i + k < length xs \<Longrightarrow> mset (fold (\<lambda>i. exch key up i (i + k)) is xs) = mset xs" for "is" xs
    by (induction "is" arbitrary: xs) (auto simp: mset_exch)
  then show ?thesis unfolding half_clean_def using * by auto
qed

lemma mset_net_merge: "low + 2 ^ n \<le> length xs \<Longrightarrow> mset (net_merge key up low n xs) = mset xs"
  by (induction key up low n xs rule: net_merge.induct) (auto simp: mset_half_clean)

lemma mset_net_sort: "low + 2 ^ n \<le> length xs \<Longrightarrow> mset (net_sort key up low n xs) = mset xs"
  by (induction key up low n xs rule: net_sort.induct) (auto simp: mset_net_merge simp del: net_merge.simps)

text \<open>Applying the key, or a monotone map, commutes with the network.\<close>

lemma map_exch:
  assumes "i < length xs" "j < length xs"
    and "\<And>x y. x \<in> set xs \<Longrightarrow> y \<in> set xs \<Longrightarrow> key x > key y \<Longrightarrow> key' (f x) \<ge> key' (f y)"
    and "\<And>x y. x \<in> set xs \<Longrightarrow> y \<in> set xs \<Longrightarrow> \<not> key x > key y \<Longrightarrow> key' (f x) \<le> key' (f y)"
    and "\<And>x y. key' x = key' y \<Longrightarrow> x = (y :: 'b)"
  shows "map f (exch key up i j xs) = exch key' up i j (map f xs)"
proof (cases "(key (xs ! i) > key (xs ! j)) = (key' (f (xs ! i)) > key' (f (xs ! j)))")
  case True
  then show ?thesis using assms(1,2) by (simp add: exch_def map_update)
next
  case False
  have "key' (f (xs ! i)) = key' (f (xs ! j))"
    using assms(3,4) [of "xs ! i" "xs ! j"] assms(1,2) False
    by (metis nth_mem order.antisym not_less order.strict_iff_not)
  then have "f (xs ! i) = f (xs ! j)" by (rule assms(5))
  then have "(map f xs)[i := f (xs ! j), j := f (xs ! i)] = map f xs"
    using assms(1,2) by (metis list_update_id nth_map)
  then show ?thesis using assms(1,2) by (simp add: exch_def map_update)
qed

lemma map_exch_key:
  "i < length xs \<Longrightarrow> j < length xs \<Longrightarrow> map key (exch key up i j xs) = exch (\<lambda>k. k) up i j (map key xs)"
  by (simp add: exch_def map_update)

lemma map_exch_mono:
  assumes "mono f" "i < length xs" "j < length xs"
  shows "map f (exch (\<lambda>k. k) up i j xs) = exch (\<lambda>k. k) up i j (map f xs)"
  using assms by (intro map_exch) (auto simp: not_less dest: monoD less_imp_le)

lemma map_half_clean:
  assumes "\<And>i j ys. i < length ys \<Longrightarrow> j < length ys \<Longrightarrow> map f (exch key up i j ys) = exch key' up i j (map f ys)"
  shows "low + 2 * k \<le> length xs \<Longrightarrow> map f (half_clean key up low k xs) = half_clean key' up low k (map f xs)"
proof -
  assume *: "low + 2 * k \<le> length xs"
  have "\<forall>i \<in> set is. i + k < length xs \<Longrightarrow>
    map f (fold (\<lambda>i. exch key up i (i + k)) is xs) = fold (\<lambda>i. exch key' up i (i + k)) is (map f xs)" for "is" xs
    by (induction "is" arbitrary: xs) (auto simp: assms)
  then show ?thesis unfolding half_clean_def using * by auto
qed

lemma map_net_merge:
  assumes "\<And>i j ys. i < length ys \<Longrightarrow> j < length ys \<Longrightarrow> map f (exch key up i j ys) = exch key' up i j (map f ys)"
  shows "low + 2 ^ n \<le> length xs \<Longrightarrow> map f (net_merge key up low n xs) = net_merge key' up low n (map f xs)"
  by (induction n arbitrary: low xs) (auto simp: map_half_clean [OF assms])

lemma map_net_sort:
  assumes "\<And>up i j ys. i < length ys \<Longrightarrow> j < length ys \<Longrightarrow> map f (exch key up i j ys) = exch key' up i j (map f ys)"
  shows "low + 2 ^ n \<le> length xs \<Longrightarrow> map f (net_sort key up low n xs) = net_sort key' up low n (map f xs)"
  by (induction n arbitrary: low xs up) (auto simp: map_net_merge [OF assms] simp del: net_merge.simps)

text \<open>One half-cleaner, position by position.\<close>

lemma length_fold_exch: "length (fold (\<lambda>i. exch key up i (i + k)) is xs) = length xs"
  by (induction "is" arbitrary: xs) auto

lemma half_clean_prefix_nth:
  fixes xs :: "'k::linorder list"
  assumes "low + 2 * k \<le> length xs"
  shows "m \<le> k \<Longrightarrow> p < length xs \<Longrightarrow> fold (\<lambda>i. exch (\<lambda>k. k) up i (i + k)) [low..<low + m] xs ! p =
    (if low \<le> p \<and> p < low + m then (if up then min else max) (xs ! p) (xs ! (p + k))
     else if low + k \<le> p \<and> p < low + k + m then (if up then max else min) (xs ! (p - k)) (xs ! p)
     else xs ! p)"
proof (induction m arbitrary: p)
  case (Suc m)
  let ?ys = "fold (\<lambda>i. exch (\<lambda>k. k) up i (i + k)) [low..<low + m] xs"
  have a: "?ys ! (low + m) = xs ! (low + m)" "?ys ! (low + m + k) = xs ! (low + m + k)"
    using Suc.IH [of "low + m"] Suc.IH [of "low + m + k"] Suc.prems assms by auto
  have "fold (\<lambda>i. exch (\<lambda>k. k) up i (i + k)) [low..<low + Suc m] xs ! p
      = exch (\<lambda>k. k) up (low + m) (low + m + k) ?ys ! p" by simp
  also have "\<dots> = (if p = low + m then (if up then min else max) (xs ! p) (xs ! (p + k))
      else if p = low + m + k then (if up then max else min) (xs ! (p - k)) (xs ! p) else ?ys ! p)"
    using a length_fold_exch [of "\<lambda>k. k" up k "[low..<low + m]" xs] assms Suc.prems
    by (auto simp: exch_def nth_list_update min_def max_def not_less)
  finally show ?case using Suc.IH [of p] Suc.prems assms by auto
qed auto

lemma half_clean_nth:
  fixes xs :: "'k::linorder list"
  assumes "low + 2 * k \<le> length xs" "p < length xs"
  shows "half_clean (\<lambda>k. k) up low k xs ! p =
    (if low \<le> p \<and> p < low + k then (if up then min else max) (xs ! p) (xs ! (p + k))
     else if low + k \<le> p \<and> p < low + 2 * k then (if up then max else min) (xs ! (p - k)) (xs ! p)
     else xs ! p)"
  using half_clean_prefix_nth [OF assms(1) le_refl assms(2), of up]
  by (simp add: half_clean_def mult_2 add.assoc)

section \<open>The network sorts zeros and ones\<close>

definition bitonic01 :: "nat \<Rightarrow> (nat \<Rightarrow> bool) \<Rightarrow> bool" where
  "bitonic01 n b \<longleftrightarrow>
     (\<exists>p q. (\<forall>i<n. b i \<longleftrightarrow> p \<le> i \<and> i < q) \<or> (\<forall>i<n. b i \<longleftrightarrow> \<not> (p \<le> i \<and> i < q)))"

lemma bitonic01_neg: "bitonic01 n (\<lambda>i. \<not> b i) = bitonic01 n b"
  unfolding bitonic01_def by blast

lemma bitonic01_interval: "(\<And>i. i < n \<Longrightarrow> b i \<longleftrightarrow> p \<le> i \<and> i < q) \<Longrightarrow> bitonic01 n b"
  unfolding bitonic01_def by blast

lemma interval_halves:
  assumes b: "\<And>i. i < 2 * k \<Longrightarrow> b i \<longleftrightarrow> p \<le> i \<and> i < q"
  shows "bitonic01 k (\<lambda>i. b i \<and> b (i + k))" "bitonic01 k (\<lambda>i. b i \<or> b (i + k))"
    "(\<forall>i<k. \<not> (b i \<and> b (i + k))) \<or> (\<forall>i<k. b i \<or> b (i + k))"
proof -
  show "bitonic01 k (\<lambda>i. b i \<and> b (i + k))"
    by (rule bitonic01_interval [where p = p and q = "q - k"]) (auto simp: b)
  show "(\<forall>i<k. \<not> (b i \<and> b (i + k))) \<or> (\<forall>i<k. b i \<or> b (i + k))"
    by (auto simp: b)
  consider "q \<le> k" | "k \<le> p" | "p < k" "k < q" by linarith
  then show "bitonic01 k (\<lambda>i. b i \<or> b (i + k))"
  proof cases
    case 1
    then show ?thesis by (intro bitonic01_interval [where p = p and q = q]) (auto simp: b)
  next
    case 2
    then show ?thesis by (intro bitonic01_interval [where p = "p - k" and q = "q - k"]) (auto simp: b)
  next
    case 3
    then have "\<forall>i<k. (b i \<or> b (i + k)) \<longleftrightarrow> \<not> (q - k \<le> i \<and> i < p)" by (auto simp: b)
    then show ?thesis unfolding bitonic01_def by blast
  qed
qed

lemma bitonic01_halves:
  assumes "bitonic01 (2 * k) b"
  shows "bitonic01 k (\<lambda>i. b i \<and> b (i + k))" "bitonic01 k (\<lambda>i. b i \<or> b (i + k))"
    "(\<forall>i<k. \<not> (b i \<and> b (i + k))) \<or> (\<forall>i<k. b i \<or> b (i + k))"
proof -
  obtain p q where "(\<forall>i<2 * k. b i \<longleftrightarrow> p \<le> i \<and> i < q) \<or> (\<forall>i<2 * k. \<not> b i \<longleftrightarrow> p \<le> i \<and> i < q)"
    using assms unfolding bitonic01_def by blast
  then have "bitonic01 k (\<lambda>i. b i \<and> b (i + k)) \<and> bitonic01 k (\<lambda>i. b i \<or> b (i + k)) \<and>
    ((\<forall>i<k. \<not> (b i \<and> b (i + k))) \<or> (\<forall>i<k. b i \<or> b (i + k)))"
  proof
    assume "\<forall>i<2 * k. b i \<longleftrightarrow> p \<le> i \<and> i < q"
    then show ?thesis using interval_halves [of k b p q] by blast
  next
    assume *: "\<forall>i<2 * k. \<not> b i \<longleftrightarrow> p \<le> i \<and> i < q"
    have *: "\<And>i. i < 2 * k \<Longrightarrow> \<not> b i \<longleftrightarrow> p \<le> i \<and> i < q" using * by blast
    note h = interval_halves [OF *]
    have "bitonic01 k (\<lambda>i. b i \<and> b (i + k))"
      using h(2) bitonic01_neg [of k "\<lambda>i. b i \<and> b (i + k)"] by (simp only: de_Morgan_conj)
    moreover have "bitonic01 k (\<lambda>i. b i \<or> b (i + k))"
      using h(1) bitonic01_neg [of k "\<lambda>i. b i \<or> b (i + k)"] by (simp only: de_Morgan_disj)
    ultimately show ?thesis using h(3) by blast
  qed
  then show "bitonic01 k (\<lambda>i. b i \<and> b (i + k))" "bitonic01 k (\<lambda>i. b i \<or> b (i + k))"
    "(\<forall>i<k. \<not> (b i \<and> b (i + k))) \<or> (\<forall>i<k. b i \<or> b (i + k))" by blast+
qed

text \<open>What a merge does outside and inside its window.\<close>

definition in_win :: "nat \<Rightarrow> nat \<Rightarrow> nat \<Rightarrow> bool" where
  "in_win low m p \<longleftrightarrow> low \<le> p \<and> p < low + m"

lemma net_merge_frame:
  fixes xs :: "'k::linorder list"
  shows "low + 2 ^ n \<le> length xs \<Longrightarrow> p < length xs \<Longrightarrow> \<not> in_win low (2 ^ n) p \<Longrightarrow>
    net_merge (\<lambda>k. k) up low n xs ! p = xs ! p"
  by (induction n arbitrary: low xs) (auto simp: half_clean_nth in_win_def)

lemma net_merge_all:
  fixes xs :: "'k::linorder list"
  shows "low + 2 ^ n \<le> length xs \<Longrightarrow> \<forall>p. in_win low (2 ^ n) p \<longrightarrow> P (xs ! p) \<Longrightarrow>
    in_win low (2 ^ n) p \<Longrightarrow> P (net_merge (\<lambda>k. k) up low n xs ! p)"
proof (induction n arbitrary: low xs p)
  case (Suc n)
  let ?k = "2 ^ n" let ?ys = "half_clean (\<lambda>k. k) up low ?k xs"
  let ?zs = "net_merge (\<lambda>k. k) up low n ?ys"
  have k: "low + ?k \<le> length ?ys" "low + ?k + ?k \<le> length ?zs" using Suc.prems by auto
  have ys: "P (?ys ! q)" if "in_win low (2 * ?k) q" for q
  proof -
    have P: "P (xs ! i)" if "low \<le> i" "i < low + 2 * ?k" for i
      using Suc.prems(2) that by (simp add: in_win_def)
    show ?thesis
      using that Suc.prems(1) by (auto simp: half_clean_nth in_win_def min_def max_def intro!: P)
  qed
  have zs: "P (?zs ! q)" if "in_win low (2 * ?k) q" for q
  proof (cases "in_win low ?k q")
    case True
    then show ?thesis using ys by (intro Suc.IH [OF k(1)]) (auto simp: in_win_def)
  next
    case False
    then show ?thesis using net_merge_frame [OF k(1), of q] that ys [OF that] Suc.prems(1)
      by (auto simp: in_win_def)
  qed
  show ?case
  proof (cases "in_win (low + ?k) ?k p")
    case True
    then show ?thesis using zs by (simp, intro Suc.IH [OF k(2)]) (auto simp: in_win_def)
  next
    case False
    then show ?thesis using net_merge_frame [OF k(2), of p] Suc.prems zs [of p]
      by (auto simp: in_win_def)
  qed
qed auto

definition win_sorted :: "bool \<Rightarrow> nat \<Rightarrow> nat \<Rightarrow> 'k::linorder list \<Rightarrow> bool" where
  "win_sorted up low m xs \<longleftrightarrow>
     (\<forall>i j. low \<le> i \<longrightarrow> i \<le> j \<longrightarrow> j < low + m \<longrightarrow> (if up then xs ! i \<le> xs ! j else xs ! j \<le> xs ! i))"

lemma win_sorted_append:
  assumes "win_sorted up low k xs" "win_sorted up (low + k) k xs"
    and "\<And>i j. in_win low k i \<Longrightarrow> in_win (low + k) k j \<Longrightarrow> if up then xs ! i \<le> xs ! j else xs ! j \<le> xs ! i"
  shows "win_sorted up low (2 * k) xs"
  unfolding win_sorted_def
proof (intro allI impI)
  fix i j assume ij: "low \<le> i" "i \<le> j" "j < low + 2 * k"
  consider "j < low + k" | "low + k \<le> i" | "i < low + k" "low + k \<le> j" by linarith
  then show "if up then xs ! i \<le> xs ! j else xs ! j \<le> xs ! i"
  proof cases
    case 1
    then show ?thesis using assms(1) ij unfolding win_sorted_def by blast
  next
    case 2
    then show ?thesis using assms(2) ij unfolding win_sorted_def by (simp add: mult_2)
  next
    case 3
    then show ?thesis using assms(3) [of i j] ij by (auto simp: in_win_def)
  qed
qed

lemma win_sorted_cong:
  assumes "win_sorted up low k ys" and "\<And>p. in_win low k p \<Longrightarrow> xs ! p = ys ! p"
  shows "win_sorted up low k xs"
  unfolding win_sorted_def
proof (intro allI impI)
  fix i j assume ij: "low \<le> i" "i \<le> j" "j < low + k"
  then have "xs ! i = ys ! i" "xs ! j = ys ! j" using assms(2) by (auto simp: in_win_def)
  then show "if up then xs ! i \<le> xs ! j else xs ! j \<le> xs ! i"
    using assms(1) ij unfolding win_sorted_def by simp
qed

lemma net_merge_sorts01:
  "low + 2 ^ n \<le> length xs \<Longrightarrow> bitonic01 (2 ^ n) (\<lambda>i. xs ! (low + i)) \<Longrightarrow>
     win_sorted up low (2 ^ n) (net_merge (\<lambda>k. k) up low n xs)"
proof (induction n arbitrary: low xs)
  case 0
  have *: "i = low \<and> j = low" if "low \<le> i" "i \<le> j" "j < low + 2 ^ 0" for i j using that by simp
  show ?case unfolding win_sorted_def by (intro allI impI) (drule (2) *, simp)
next
  case (Suc n)
  let ?k = "2 ^ n :: nat" let ?b = "\<lambda>i. xs ! (low + i)"
  let ?ys = "half_clean (\<lambda>k. k) up low ?k xs"
  let ?zs = "net_merge (\<lambda>k. k) up low n ?ys" let ?us = "net_merge (\<lambda>k. k) up (low + ?k) n ?zs"
  have k: "low + ?k \<le> length ?ys" "low + ?k + ?k \<le> length ?zs" using Suc.prems by auto
  have lo: "?ys ! (low + i) = (if up then ?b i \<and> ?b (i + ?k) else ?b i \<or> ?b (i + ?k))"
    and hi: "?ys ! (low + ?k + i) = (if up then ?b i \<or> ?b (i + ?k) else ?b i \<and> ?b (i + ?k))" if "i < ?k" for i
    using that Suc.prems(1) by (auto simp: half_clean_nth min_def max_def ac_simps)
  note halves = bitonic01_halves [of ?k ?b]
  have bl: "bitonic01 ?k (\<lambda>i. ?ys ! (low + i))"
    using halves(1,2) Suc.prems(2) lo unfolding bitonic01_def by (cases up) auto
  have zs_hi: "?zs ! (low + ?k + i) = ?ys ! (low + ?k + i)" if "i < ?k" for i
    using net_merge_frame [OF k(1)] that Suc.prems(1) by (auto simp: in_win_def)
  have bh: "bitonic01 ?k (\<lambda>i. ?zs ! (low + ?k + i))"
    using halves(1,2) Suc.prems(2) hi zs_hi unfolding bitonic01_def by (cases up) auto
  have us_lo: "?us ! p = ?zs ! p" if "in_win low ?k p" for p
    using net_merge_frame [OF k(2)] that Suc.prems(1) by (auto simp: in_win_def)
  have "win_sorted up low (2 * ?k) ?us"
  proof (rule win_sorted_append)
    show "win_sorted up low ?k ?us"
      by (rule win_sorted_cong [OF Suc.IH [OF k(1) bl] us_lo])
    show "win_sorted up (low + ?k) ?k ?us" using Suc.IH [OF k(2) bh] .
    fix i j assume i: "in_win low ?k i" and j: "in_win (low + ?k) ?k j"
    have sep: "(\<forall>i<?k. \<not> (?b i \<and> ?b (i + ?k))) \<or> (\<forall>i<?k. ?b i \<or> ?b (i + ?k))"
      using halves(3) Suc.prems(2) by simp
    have all_lo: "(\<forall>i<?k. ?ys ! (low + i) = v) \<Longrightarrow> ?us ! i = v" for v
    proof -
      assume v: "\<forall>i<?k. ?ys ! (low + i) = v"
      have "\<forall>p. in_win low ?k p \<longrightarrow> ?ys ! p = v"
        unfolding in_win_def using v by (metis le_add_diff_inverse less_diff_conv2 add.commute)
      then show ?thesis unfolding us_lo [OF i] by (rule net_merge_all [OF k(1) _ i])
    qed
    have all_hi: "(\<forall>i<?k. ?ys ! (low + ?k + i) = v) \<Longrightarrow> ?us ! j = v" for v
    proof -
      assume v: "\<forall>i<?k. ?ys ! (low + ?k + i) = v"
      have "\<forall>p. in_win (low + ?k) ?k p \<longrightarrow> ?zs ! p = v"
        unfolding in_win_def using v zs_hi by (metis le_add_diff_inverse less_diff_conv2 add.commute)
      then show ?thesis by (rule net_merge_all [OF k(2) _ j])
    qed
    show "if up then ?us ! i \<le> ?us ! j else ?us ! j \<le> ?us ! i"
      using sep all_lo [of "\<not> up"] all_lo [of up] all_hi [of up] all_hi [of "\<not> up"] lo hi by (cases up) auto
  qed
  then show ?case by simp
qed

lemma net_sort_frame:
  fixes xs :: "'k::linorder list"
  shows "low + 2 ^ n \<le> length xs \<Longrightarrow> p < length xs \<Longrightarrow> \<not> in_win low (2 ^ n) p \<Longrightarrow>
    net_sort (\<lambda>k. k) up low n xs ! p = xs ! p"
proof (induction n arbitrary: low xs up)
  case (Suc n)
  let ?a = "net_sort (\<lambda>k. k) True low n xs" let ?b = "net_sort (\<lambda>k. k) False (low + 2 ^ n) n ?a"
  have "?a ! p = xs ! p" using Suc.prems by (intro Suc.IH) (auto simp: in_win_def)
  moreover have "?b ! p = ?a ! p" using Suc.prems by (intro Suc.IH) (auto simp: in_win_def)
  moreover have "net_merge (\<lambda>k. k) up low (Suc n) ?b ! p = ?b ! p"
    using Suc.prems by (intro net_merge_frame) auto
  ultimately show ?case by (simp only: net_sort.simps)
qed simp

text \<open>An ascending run of truth values followed by a descending one is bitonic.\<close>

lemma sorted_threshold:
  assumes "\<And>i j. i \<le> j \<Longrightarrow> j < n \<Longrightarrow> b i \<Longrightarrow> b (j::nat)"
  shows "\<exists>a. \<forall>i<n. b i \<longleftrightarrow> a \<le> i"
proof (cases "\<exists>i<n. b i")
  case True
  then obtain i where "i < n" "b i" by blast
  have "b j \<longleftrightarrow> (LEAST i. b i) \<le> j" if "j < n" for j
    using assms [of "LEAST i. b i" j] that LeastI [of b i] Least_le [of b j] \<open>b i\<close> by blast
  then show ?thesis by blast
next
  case False
  then show ?thesis by (intro exI [of _ n]) auto
qed

lemma up_down_bitonic01:
  assumes "win_sorted True low k xs" "win_sorted False (low + k) k xs"
  shows "bitonic01 (2 * k) (\<lambda>i. xs ! (low + i))"
proof -
  have "\<exists>a. \<forall>i<k. xs ! (low + i) \<longleftrightarrow> a \<le> i"
  proof (rule sorted_threshold)
    fix i j assume "i \<le> j" "j < k" "xs ! (low + i)"
    then show "xs ! (low + j)"
      using assms(1) [unfolded win_sorted_def, rule_format, of "low + i" "low + j"] by simp
  qed
  then obtain a where a: "\<And>i. i < k \<Longrightarrow> xs ! (low + i) \<longleftrightarrow> a \<le> i" by blast
  have "\<exists>a. \<forall>i<k. \<not> xs ! (low + k + i) \<longleftrightarrow> a \<le> i"
  proof (rule sorted_threshold)
    fix i j assume "i \<le> j" "j < k" "\<not> xs ! (low + k + i)"
    then show "\<not> xs ! (low + k + j)"
      using assms(2) [unfolded win_sorted_def, rule_format, of "low + k + i" "low + k + j"] by auto
  qed
  then obtain c where "\<forall>i<k. \<not> xs ! (low + k + i) \<longleftrightarrow> c \<le> i" by blast
  then have c: "\<And>i. i < k \<Longrightarrow> xs ! (low + k + i) \<longleftrightarrow> i < c" by auto
  show ?thesis
  proof (cases "a < k")
    case True
    show ?thesis
    proof (rule bitonic01_interval [where p = a and q = "k + c"])
      fix i assume "i < 2 * k"
      then show "xs ! (low + i) \<longleftrightarrow> a \<le> i \<and> i < k + c"
        using a [of i] c [of "i - k"] True by (cases "i < k") auto
    qed
  next
    case False
    show ?thesis
    proof (rule bitonic01_interval [where p = k and q = "k + c"])
      fix i assume "i < 2 * k"
      then show "xs ! (low + i) \<longleftrightarrow> k \<le> i \<and> i < k + c"
        using a [of i] c [of "i - k"] False by (cases "i < k") auto
    qed
  qed
qed

lemma net_sort_sorts01:
  "low + 2 ^ n \<le> length xs \<Longrightarrow> win_sorted up low (2 ^ n) (net_sort (\<lambda>k::bool. k) up low n xs)"
proof (induction n arbitrary: low xs up)
  case 0
  have *: "i = low \<and> j = low" if "low \<le> i" "i \<le> j" "j < low + 2 ^ 0" for i j using that by simp
  show ?case unfolding win_sorted_def by (intro allI impI) (drule (2) *, simp)
next
  case (Suc n)
  let ?a = "net_sort (\<lambda>k. k) True low n xs" let ?b = "net_sort (\<lambda>k. k) False (low + 2 ^ n) n ?a"
  have "?b ! p = ?a ! p" if "in_win low (2 ^ n) p" for p
    using that Suc.prems by (intro net_sort_frame) (auto simp: in_win_def)
  then have "win_sorted True low (2 ^ n) ?b"
    using Suc.prems by (intro win_sorted_cong [OF Suc.IH]) auto
  moreover have "win_sorted False (low + 2 ^ n) (2 ^ n) ?b" using Suc.prems by (intro Suc.IH) auto
  ultimately have "bitonic01 (2 ^ Suc n) (\<lambda>i. ?b ! (low + i))" using up_down_bitonic01 by simp
  then have "win_sorted up low (2 ^ Suc n) (net_merge (\<lambda>k. k) up low (Suc n) ?b)"
    using Suc.prems by (intro net_merge_sorts01) auto
  then show ?case by (simp only: net_sort.simps)
qed

text \<open>The 0-1 principle: the thresholds \<open>\<lambda>k. t < k\<close> are monotone and separate unequal keys.\<close>

lemma net_sort_sorts:
  assumes "low + 2 ^ n \<le> length xs"
  shows "win_sorted up low (2 ^ n) (map key (net_sort key up low n xs))"
proof -
  let ?ks = "map key (net_sort key up low n xs)"
  have ks: "?ks = net_sort (\<lambda>k. k) up low n (map key xs)"
    using assms by (intro map_net_sort map_exch_key)
  have thr: "map (\<lambda>k. t < k) ?ks = net_sort (\<lambda>k. k) up low n (map (\<lambda>k. t < k) (map key xs))" for t
  proof -
    have "mono (\<lambda>k. t < k)" by (auto intro!: monoI)
    then show ?thesis unfolding ks using assms
      by (intro map_net_sort map_exch_mono) auto
  qed
  have 01: "win_sorted up low (2 ^ n) (map (\<lambda>k. t < k) ?ks)" for t
    unfolding thr using assms by (intro net_sort_sorts01) simp
  show ?thesis unfolding win_sorted_def
  proof (intro allI impI)
    fix i j assume ij: "low \<le> i" "i \<le> j" "j < low + 2 ^ n"
    then have l: "i < length ?ks" "j < length ?ks" using assms by auto
    have "if up then t < ?ks ! i \<longrightarrow> t < ?ks ! j else t < ?ks ! j \<longrightarrow> t < ?ks ! i" for t
      using 01 [of t, unfolded win_sorted_def, rule_format, OF ij] l by (auto split: if_splits)
    from this [of "?ks ! i"] this [of "?ks ! j"]
    show "if up then ?ks ! i \<le> ?ks ! j else ?ks ! j \<le> ?ks ! i" by (auto split: if_splits simp: not_less [symmetric])
  qed
qed

definition dir_le :: "bool \<Rightarrow> 'k::linorder \<Rightarrow> 'k \<Rightarrow> bool" where
  "dir_le up x y \<longleftrightarrow> (if up then x \<le> y else y \<le> x)"

section \<open>The contract of a bitonic sort\<close>

text \<open>
  \<open>flat\<close> lays a list of entries out in memory, \<open>key\<close> is the sort key of an entry, \<open>dir\<close> the
  encoding of the two directions. The provider promises that one compare-and-swap call performs
  one exchange of the network.
\<close>

lemma two_power_gt1: "Suc 0 < 2 * 2 ^ n"
  using one_less_power [of "2::nat" "Suc n"] by simp

locale bitonic_impl =
  fixes flat :: "'a list \<Rightarrow> 's" and ok :: "'a \<Rightarrow> bool" and key :: "'a \<Rightarrow> 'k::linorder"
    and dir :: "bool \<Rightarrow> 'd"
    and cas :: "'d \<Rightarrow> nat \<Rightarrow> nat \<Rightarrow> 's \<Rightarrow> 's option"
    and bmerge :: "'d \<Rightarrow> nat \<Rightarrow> nat \<Rightarrow> 's \<Rightarrow> 's option"
    and bsort :: "'d \<Rightarrow> nat \<Rightarrow> nat \<Rightarrow> 's \<Rightarrow> 's option"
  assumes cas_law: "list_all ok xs \<Longrightarrow> i < j \<Longrightarrow> j < length xs \<Longrightarrow>
      cas (dir up) i j (flat xs) = Some (flat (exch key up i j xs))"
    and bmerge_eq: "bmerge d low cnt s =
      (if cnt > 1 then let k = cnt div 2 in do {
         s \<leftarrow> for_loop low (low + k) (\<lambda>i s. cas d i (i + k) s) s;
         s \<leftarrow> bmerge d low k s;
         bmerge d (low + k) k s }
       else Some s)"
    and bsort_eq: "bsort d low cnt s =
      (if cnt > 1 then let k = cnt div 2 in do {
         s \<leftarrow> bsort (dir True) low k s;
         s \<leftarrow> bsort (dir False) (low + k) k s;
         bmerge d low cnt s }
       else Some s)"
begin

lemma ok_mset: "list_all ok xs \<Longrightarrow> mset ys = mset xs \<Longrightarrow> list_all ok ys"
  by (metis list.pred_set set_mset_mset)

lemma half_clean_run:
  assumes "list_all ok xs" "0 < k" "low + 2 * k \<le> length xs"
  shows "for_loop low (low + k) (\<lambda>i s. cas (dir up) i (i + k) s) (flat xs) =
    Some (flat (half_clean key up low k xs))"
proof -
  let ?f = "\<lambda>m. fold (\<lambda>i. exch key up i (i + k)) [low..<m] xs"
  have inv: "m \<le> low + k \<Longrightarrow> mset (?f m) = mset xs" for m
  proof (induction m)
    case (Suc m)
    then show ?case using assms(3) by (cases "low \<le> m") (auto simp: mset_exch length_fold_exch)
  qed simp
  have "for_loop low (low + k) (\<lambda>i s. cas (dir up) i (i + k) s) (flat xs) = Some (flat (?f (low + k)))"
  proof (rule for_loop_eq [where g = "\<lambda>m. flat (?f m)"])
    fix i assume i: "low \<le> i" "i < low + k"
    then have "list_all ok (?f i)" using inv [of i] assms(1) by (auto intro: ok_mset)
    then show "cas (dir up) i (i + k) (flat (?f i)) = Some (flat (?f (Suc i)))"
      using cas_law [of "?f i" i "i + k" up] i assms(2,3) by (simp add: length_fold_exch)
  qed auto
  then show ?thesis by (simp add: half_clean_def)
qed

lemma bmerge_run:
  "list_all ok xs \<Longrightarrow> low + 2 ^ n \<le> length xs \<Longrightarrow>
     bmerge (dir up) low (2 ^ n) (flat xs) = Some (flat (net_merge key up low n xs))"
proof (induction n arbitrary: low xs)
  case 0
  then show ?case by (subst bmerge_eq) simp
next
  case (Suc n)
  let ?ys = "half_clean key up low (2 ^ n) xs" let ?zs = "net_merge key up low n ?ys"
  have ys: "list_all ok ?ys" using Suc.prems by (auto intro: ok_mset simp: mset_half_clean)
  have zs: "list_all ok ?zs"
    using Suc.prems by (intro ok_mset [OF ys] mset_net_merge) simp
  have "bmerge (dir up) low (2 ^ n) (flat ?ys) = Some (flat ?zs)" using ys Suc.prems by (intro Suc.IH) auto
  moreover have "bmerge (dir up) (low + 2 ^ n) (2 ^ n) (flat ?zs)
      = Some (flat (net_merge key up (low + 2 ^ n) n ?zs))"
    using zs Suc.prems by (intro Suc.IH) auto
  ultimately show ?case
    using half_clean_run [of xs "2 ^ n" low up] Suc.prems two_power_gt1 [of n]
    by (subst bmerge_eq) (simp add: Let_def)
qed

lemma bsort_run:
  "list_all ok xs \<Longrightarrow> low + 2 ^ n \<le> length xs \<Longrightarrow>
     bsort (dir up) low (2 ^ n) (flat xs) = Some (flat (net_sort key up low n xs))"
proof (induction n arbitrary: low xs up)
  case 0
  then show ?case by (subst bsort_eq) simp
next
  case (Suc n)
  let ?ys = "net_sort key True low n xs" let ?zs = "net_sort key False (low + 2 ^ n) n ?ys"
  have ys: "list_all ok ?ys"
    using Suc.prems by (intro ok_mset [OF Suc.prems(1)] mset_net_sort) simp
  have zs: "list_all ok ?zs"
    using Suc.prems by (intro ok_mset [OF ys] mset_net_sort) simp
  have "bsort (dir True) low (2 ^ n) (flat xs) = Some (flat ?ys)" using Suc.prems by (intro Suc.IH) auto
  moreover have "bsort (dir False) (low + 2 ^ n) (2 ^ n) (flat ?ys) = Some (flat ?zs)"
    using ys Suc.prems by (intro Suc.IH) auto
  moreover have "bmerge (dir up) low (2 ^ Suc n) (flat ?zs) = Some (flat (net_merge key up low (Suc n) ?zs))"
    using zs Suc.prems by (intro bmerge_run) auto
  ultimately show ?case using two_power_gt1 [of n] by (subst bsort_eq) (simp add: Let_def)
qed

lemma bsort_correct:
  assumes "list_all ok xs" "length xs = 2 ^ n"
  shows "\<exists>ys. bsort (dir up) 0 (2 ^ n) (flat xs) = Some (flat ys) \<and> mset ys = mset xs \<and>
    sorted_wrt (\<lambda>x y. dir_le up (key x) (key y)) ys"
proof -
  let ?ys = "net_sort key up 0 n xs"
  have "win_sorted up 0 (2 ^ n) (map key ?ys)" using assms by (intro net_sort_sorts) simp
  then have "sorted_wrt (\<lambda>x y. dir_le up (key x) (key y)) ?ys"
    using assms(2) by (auto simp: win_sorted_def sorted_wrt_iff_nth_less dir_le_def split: if_splits)
  moreover have "mset ?ys = mset xs" using assms by (intro mset_net_sort) simp
  moreover have "bsort (dir up) 0 (2 ^ n) (flat xs) = Some (flat ?ys)"
    using assms by (intro bsort_run) auto
  ultimately show ?thesis by blast
qed

end

section \<open>Interpretation on the five variants\<close>

definition dir_of :: "bool \<Rightarrow> int" where
  "dir_of up = (if up then ASCENDING else DESCENDING)"

lemma dir_of_simps [simp]: "dir_of True = 1" "dir_of False = 0"
  by (simp_all add: dir_of_def ASCENDING_def DESCENDING_def)

lemma dir_of_eq: "(dir_of up = of_bool b) = (b = up)"
  by (cases up; cases b) auto

lemma oswap_eq:
  assumes "i < length xs" "j < length xs"
  shows "oswap xs i j c = Some (if c \<noteq> 0 then xs[i := xs ! j, j := xs ! i] else xs)"
  using assms by (simp add: oswap_def Let_def)

interpretation int_bitonic: bitonic_impl
  "\<lambda>xs. xs" "\<lambda>_. True" "\<lambda>x. x" dir_of CompAndSwap_Int BitonicMerge_Int BitonicSubSort_Int
proof (unfold_locales, goal_cases)
  case (1 xs i j up)
  then show ?case by (simp add: CompAndSwap_Int_def oswap_eq dir_of_eq exch_def)
next
  case (2 d low cnt s)
  show ?case by (rule BitonicMerge_Int.simps)
next
  case (3 d low cnt s)
  show ?case by (subst BitonicSubSort_Int.simps) simp
qed

text \<open>Swapping two blocks word by word.\<close>

lemma list_update_pair_first: "i \<noteq> j \<Longrightarrow> xs[i := a, j := b, i := c] = xs[i := c, j := b]"
  by (subst list_update_swap [where i = i and i' = j]) (simp_all add: list_update_swap)

lemma oswap_blocks:
  assumes u: "uniform n xs" and ij: "i < length xs" "j < length xs" "i \<noteq> j"
  shows "for_loop 0 n (\<lambda>k arr. oswap arr (i * n + k) (j * n + k) c) (concat xs) =
    Some (concat (if c \<noteq> 0 then xs[i := xs ! j, j := xs ! i] else xs))"
proof -
  let ?x = "xs ! i" and ?y = "xs ! j"
  let ?a = "\<lambda>h. if c \<noteq> 0 then take h ?y @ drop h ?x else ?x"
  let ?b = "\<lambda>h. if c \<noteq> 0 then take h ?x @ drop h ?y else ?y"
  let ?g = "\<lambda>h. xs[i := ?a h, j := ?b h]"
  have "for_loop 0 n (\<lambda>k arr. oswap arr (i * n + k) (j * n + k) c) (concat xs) = Some (concat (?g n))"
  proof (rule for_loop_eq [where g = "\<lambda>h. concat (?g h)"])
    fix h assume h: "h < n"
    have lab: "length (?a h) = n" "length (?b h) = n" using u ij h by auto
    have ug: "uniform n (?g h)" using u lab by simp
    have gi: "?g h ! i = ?a h" "?g h ! j = ?b h" using ij by auto
    have bnd: "i * n + h < length (concat (?g h))" "j * n + h < length (concat (?g h))"
      unfolding length_concat_uniform [OF ug] using ij h by simp_all
    have rda: "concat (?g h) ! (i * n + h) = ?x ! h" "concat (?g h) ! (j * n + h) = ?y ! h"
      using concat_nth_block [OF ug] gi ij h u by (auto simp: nth_append)
    define v where "v = (if c \<noteq> 0 then ?y ! h else ?x ! h)"
    define w where "w = (if c \<noteq> 0 then ?x ! h else ?y ! h)"
    have av: "(?a h)[h := v] = ?a (Suc h)" and bw: "(?b h)[h := w] = ?b (Suc h)"
      using u ij h by (auto simp: v_def w_def list_update_append take_Suc_conv_app_nth Cons_nth_drop_Suc [symmetric])
    have la: "length (?a (Suc h)) = n" using u ij h by auto
    have g1: "(?g h)[i := (?g h ! i)[h := v]] = xs[i := ?a (Suc h), j := ?b h]"
      unfolding gi av by (rule list_update_pair_first [OF ij(3)])
    have u1: "uniform n (xs[i := ?a (Suc h), j := ?b h])" using u la lab by simp
    have "(concat (?g h))[i * n + h := v, j * n + h := w] =
        (concat (xs[i := ?a (Suc h), j := ?b h]))[j * n + h := w]"
      using concat_update_block [OF ug, of i h v] ij h unfolding g1 by simp
    also have "\<dots> = concat (?g (Suc h))"
      using concat_update_block [OF u1, of j h w] ij h bw by simp
    finally have "(concat (?g h))[i * n + h := v, j * n + h := w] = concat (?g (Suc h))" .
    moreover have "oswap (concat (?g h)) (i * n + h) (j * n + h) c
        = Some ((concat (?g h))[i * n + h := v, j * n + h := w])"
      unfolding oswap_eq [OF bnd] rda v_def w_def using rda by auto (metis list_update_id)
    ultimately show "oswap (concat (?g h)) (i * n + h) (j * n + h) c = Some (concat (?g (Suc h)))" by simp
  qed (use u ij in auto)
  moreover have "?g n = (if c \<noteq> 0 then xs[i := ?y, j := ?x] else xs)" using u ij by auto
  ultimately show ?thesis by simp
qed

lemma oswap_exch:
  assumes "list_all (blk_ok n keys) xs" "i < j" "j < length xs"
    and "c \<noteq> 0 \<longleftrightarrow> ((key (xs ! i) > key (xs ! j)) = up)"
  shows "for_loop 0 n (\<lambda>k arr. oswap arr (i * n + k) (j * n + k) c) (concat xs) =
    Some (concat (exch key up i j xs))"
  using oswap_blocks [OF blk_ok_uniform [OF assms(1)], of i j c] assms(2-4) by (simp add: exch_def)

interpretation block_bitonic: bitonic_impl
  concat "blk_ok block_sz [key_idx]" "\<lambda>x. x ! key_idx" dir_of
  "CompAndSwap_Block key_idx block_sz" "BitonicMerge_Block key_idx block_sz"
  "BitonicSubSort_Block key_idx block_sz"
  for key_idx block_sz :: nat
proof (unfold_locales, goal_cases)
  case (1 xs i j up)
  then show ?case
    by (simp add: CompAndSwap_Block_def block_key [OF 1(1)] oswap_exch [OF 1] dir_of_eq)
next
  case (2 d low cnt s)
  show ?case by (rule BitonicMerge_Block.simps)
next
  case (3 d low cnt s)
  show ?case by (subst BitonicSubSort_Block.simps) simp
qed

text \<open>Two keys: the pair of keys in the lexicographic order, both directions equal.\<close>

definition dirs_of :: "bool \<Rightarrow> int \<times> int" where
  "dirs_of up = (dir_of up, dir_of up)"

lemma dirs_of_simps [simp]: "dirs_of True = (1, 1)" "dirs_of False = (0, 0)"
  by (simp_all add: dirs_of_def)

lemma two_key_swap_eq:
  "two_key_swap (dirs_of up) x1 x2 y1 y2 \<noteq> 0 \<longleftrightarrow> (((x1, x2) > (y1, y2)) = up)"
  by (cases up; cases "x1 = y1") (auto simp: two_key_swap_def Let_def)

interpretation general_bitonic: bitonic_impl
  concat "blk_ok block_sz [key1_idx, key2_idx]" "\<lambda>x. (x ! key1_idx, x ! key2_idx)" dirs_of
  "CompAndSwap_General key1_idx key2_idx block_sz" "BitonicMerge_General key1_idx key2_idx block_sz"
  "BitonicSubSort_General key1_idx key2_idx block_sz"
  for key1_idx key2_idx block_sz :: nat
proof (unfold_locales, goal_cases)
  case (1 xs i j up)
  then show ?case
    using oswap_exch [OF 1 two_key_swap_eq]
    by (simp add: CompAndSwap_General_def block_key [OF 1(1)] Let_def del: less_prod_simp)
next
  case (2 d low cnt s)
  show ?case by (rule BitonicMerge_General.simps)
next
  case (3 d low cnt s)
  show ?case by (subst BitonicSubSort_General.simps) simp
qed

lemma oswap_exch_two:
  assumes "list_all (two_ok bm ba keys) xs" "i < j" "j < length xs"
    and "c \<noteq> 0 \<longleftrightarrow> ((key (xs ! i) > key (xs ! j)) = up)"
  shows "(do {
      arr_main \<leftarrow> for_loop 0 bm (\<lambda>k arr. oswap arr (i * bm + k) (j * bm + k) c) (concat (map fst xs));
      arr_aux \<leftarrow> for_loop 0 ba (\<lambda>k arr. oswap arr (i * ba + k) (j * ba + k) c) (concat (map snd xs));
      Some (arr_main, arr_aux) }) = Some (flat_two (exch key up i j xs))"
  using oswap_blocks [OF blk_ok_uniform [OF two_ok_main [OF assms(1)]], of i j c]
    oswap_blocks [OF two_ok_aux [OF assms(1)], of i j c] assms(2-4)
  by (simp add: exch_def flat_two_def map_update)

lemma two_key_flat:
  assumes "list_all (two_ok bm ba keys) bs" "i < length bs" "key \<in> set keys"
  shows "rd (concat (map fst bs)) (i * bm + key) = Some (fst (bs ! i) ! key)"
  using two_key [OF assms] by (simp add: flat_two_def)

interpretation two_bitonic: bitonic_impl
  flat_two "two_ok bm ba [key_idx]" "\<lambda>x. fst x ! key_idx" dir_of
  "CompAndSwap_TwoArray key_idx bm ba" "BitonicMerge_TwoArray key_idx bm ba"
  "BitonicSubSort_TwoArray key_idx bm ba"
  for key_idx bm ba :: nat
proof (unfold_locales, goal_cases)
  case (1 xs i j up)
  have "flat_two xs = (concat (map fst xs), concat (map snd xs))" by (simp add: flat_two_def)
  with 1 show ?case
    by (simp add: CompAndSwap_TwoArray_def two_key_flat [OF 1(1)] oswap_exch_two [OF 1] dir_of_eq)
next
  case (2 d low cnt s)
  show ?case by (rule BitonicMerge_TwoArray.simps)
next
  case (3 d low cnt s)
  show ?case by (subst BitonicSubSort_TwoArray.simps) simp
qed

interpretation two_key_bitonic: bitonic_impl
  flat_two "two_ok bm ba [key1_idx, key2_idx]" "\<lambda>x. (fst x ! key1_idx, fst x ! key2_idx)" dirs_of
  "CompAndSwap_TwoArray_TwoKey key1_idx key2_idx bm ba" "BitonicMerge_TwoArray_TwoKey key1_idx key2_idx bm ba"
  "BitonicSubSort_TwoArray_TwoKey key1_idx key2_idx bm ba"
  for key1_idx key2_idx bm ba :: nat
proof (unfold_locales, goal_cases)
  case (1 xs i j up)
  have "flat_two xs = (concat (map fst xs), concat (map snd xs))" by (simp add: flat_two_def)
  with 1 show ?case
    using oswap_exch_two [OF 1 two_key_swap_eq]
    by (simp add: CompAndSwap_TwoArray_TwoKey_def two_key_flat [OF 1(1)] Let_def del: less_prod_simp)
next
  case (2 d low cnt s)
  show ?case by (rule BitonicMerge_TwoArray_TwoKey.simps)
next
  case (3 d low cnt s)
  show ?case by (subst BitonicSubSort_TwoArray_TwoKey.simps) simp
qed

section \<open>The entry points sort arrays whose length is a power of two\<close>

lemma checkPowerOfTwo_power: "checkPowerOfTwo (2 ^ n) = Some ()"
  by (induction n) (subst checkPowerOfTwo.simps; simp)+

lemma checkPowerOfTwo_iff: "checkPowerOfTwo v = Some () \<longleftrightarrow> (\<exists>n. v = 2 ^ n)"
proof
  show "checkPowerOfTwo v = Some () \<Longrightarrow> \<exists>n. v = 2 ^ n"
  proof (rule checkPowerOfTwo.raw_induct [where P = "\<lambda>v _. \<exists>n. v = 2 ^ n"])
    fix f :: "int \<Rightarrow> unit option" and v u
    assume IH: "\<And>v u. f v = Some u \<Longrightarrow> \<exists>n. v = 2 ^ n"
      and run: "(if v mod 2 = 0 then f (v div 2) else c_assert (v = 1)) = Some u"
    show "\<exists>n. v = (2 :: int) ^ n"
    proof (cases "v mod 2 = 0")
      case True
      then obtain n where "v div 2 = 2 ^ n" using run IH by auto
      with True have "v = 2 ^ Suc n" by auto
      then show ?thesis ..
    next
      case False
      then have "v = 2 ^ 0" using run by (auto simp: c_assert_def split: if_splits)
      then show ?thesis ..
    qed
  qed
qed (auto simp: checkPowerOfTwo_power)

lemma key_le_dir_of: "key_le (dir_of up) = dir_le up"
  by (auto simp: fun_eq_iff dir_le_def key_le_def dir_of_def ASCENDING_def DESCENDING_def)

lemma two_key_dirs_of:
  "two_key_from_L (dirs_of up) x1 x2 y1 y2 = dir_le up (x1, x2) (y1, y2)"
  by (cases up) (auto simp: dir_le_def two_key_from_L_def ASCENDING_def DESCENDING_def)

lemma directions_dir_of: "d \<in> directions \<Longrightarrow> \<exists>up. d = dir_of up"
  by (metis directions_simp dir_of_simps)

lemma BitonicSort_Int_run:
  assumes "length xs = 2 ^ n" "d \<in> directions"
  shows "\<exists>ys. BitonicSort_Int xs (length xs) d = Some ys \<and> mset ys = mset xs \<and>
    sorted_wrt (key_le d) ys"
proof -
  obtain up where "d = dir_of up" using directions_dir_of assms(2) by blast
  moreover have "checkPowerOfTwo (int (length xs)) = Some ()"
    using assms(1) by (simp add: checkPowerOfTwo_power)
  ultimately show ?thesis
    using int_bitonic.bsort_correct [of xs n up] assms(1)
    by (simp add: BitonicSort_Int_def key_le_dir_of list_all_iff)
qed

text \<open>
  C5: \<^verbatim>\<open>BitonicSort_Int\<close> sorts every array whose length is a power of two, in either
  direction: it returns a permutation of the array in the requested order.
\<close>

theorem BitonicSort_Int_sorts:
  assumes "length xs = 2 ^ n" "d \<in> directions"
  shows "\<exists>ys. BitonicSort_Int xs (length xs) d = Some ys \<and> mset ys = mset xs \<and>
    sorted_wrt (key_le d) ys"
  by (rule BitonicSort_Int_run [OF assms])

theorem BitonicSort_Int_sorts_witness:
  "length [4, 1, 3, 1 :: int] = 2 ^ 2 \<and> DESCENDING \<in> directions \<and>
   (\<exists>ys. BitonicSort_Int [4, 1, 3, 1] (length [4, 1, 3, 1 :: int]) DESCENDING = Some ys \<and>
     mset ys = mset [4, 1, 3, 1] \<and> sorted_wrt (key_le DESCENDING) ys)"
  using BitonicSort_Int_sorts [of "[4, 1, 3, 1]" 2 DESCENDING] by (simp add: directions_def)

lemma BitonicSort_TwoArray_TwoKey_run:
  assumes "list_all (two_ok bm ba [key1_idx, key2_idx]) xs" "length xs = 2 ^ n" "d \<in> directions"
  shows "\<exists>ys. BitonicSort_TwoArray_TwoKey (concat (map fst xs)) (concat (map snd xs)) (length xs)
      key1_idx d key2_idx d bm ba = Some (concat (map fst ys), concat (map snd ys)) \<and>
    mset ys = mset xs \<and>
    sorted_wrt (\<lambda>x y. two_key_from_L (d, d) (fst x ! key1_idx) (fst x ! key2_idx)
      (fst y ! key1_idx) (fst y ! key2_idx)) ys"
proof -
  obtain up where d: "d = dir_of up" "(d, d) = dirs_of up"
    using directions_dir_of assms(3) unfolding dirs_of_def by blast
  moreover have "checkPowerOfTwo (int (length xs)) = Some ()"
    using assms(2) by (simp add: checkPowerOfTwo_power)
  ultimately show ?thesis
    using two_key_bitonic.bsort_correct [OF assms(1,2), of up] assms(2) unfolding d(2) two_key_dirs_of
    by (simp add: BitonicSort_TwoArray_TwoKey_def flat_two_def d(1) dirs_of_def)
qed

text \<open>
  \<^verbatim>\<open>BitonicSort_TwoArray_TwoKey\<close>, the other sort the ORAM can be built with, agrees with the
  contract of \<^verbatim>\<open>MergeSort_TwoArray_TwoKey\<close> when both keys are sorted in the same direction and
  the number of entries is a power of two.
\<close>

theorem BitonicSort_TwoArray_TwoKey_sorts:
  assumes "list_all (two_ok bm ba [key1_idx, key2_idx]) xs" "length xs = 2 ^ n" "d \<in> directions"
  shows "\<exists>ys. BitonicSort_TwoArray_TwoKey (concat (map fst xs)) (concat (map snd xs)) (length xs)
      key1_idx d key2_idx d bm ba = Some (concat (map fst ys), concat (map snd ys)) \<and>
    mset ys = mset xs \<and>
    sorted_wrt (\<lambda>x y. two_key_from_L (d, d) (fst x ! key1_idx) (fst x ! key2_idx)
      (fst y ! key1_idx) (fst y ! key2_idx)) ys"
  using assms by (rule BitonicSort_TwoArray_TwoKey_run)

theorem BitonicSort_TwoArray_TwoKey_sorts_witness:
  "list_all (two_ok 2 1 [0, 1]) [([5, 1], [50]), ([5, 0], [51])] \<and>
   (\<exists>ys. BitonicSort_TwoArray_TwoKey [5, 1, 5, 0] [50, 51] 2 0 1 1 1 2 1 =
        Some (concat (map fst ys), concat (map snd ys)) \<and>
      mset ys = mset [([5, 1], [50]), ([5, 0], [51])] \<and>
      sorted_wrt (\<lambda>x y. two_key_from_L (1, 1) (fst x ! 0) (fst x ! 1) (fst y ! 0) (fst y ! 1)) ys)"
  using BitonicSort_TwoArray_TwoKey_sorts [of 2 1 0 1 "[([5, 1], [50]), ([5, 0], [51])]" 1 1]
  by (simp add: two_ok_def blk_ok_def numeral_2_eq_2)

lemma BitonicSort_General_block_sorts:
  assumes "list_all (blk_ok block_sz [key1_idx, key2_idx]) xs" "length xs = 2 ^ n" "d \<in> directions"
  shows "\<exists>ys. BitonicSort_General (concat xs) (length xs) block_sz key1_idx d key2_idx d
      = Some (concat ys) \<and> mset ys = mset xs \<and>
    sorted_wrt (\<lambda>x y. two_key_from_L (d, d) (x ! key1_idx) (x ! key2_idx)
      (y ! key1_idx) (y ! key2_idx)) ys"
proof -
  obtain up where d: "d = dir_of up" "(d, d) = dirs_of up"
    using directions_dir_of assms(3) unfolding dirs_of_def by blast
  moreover have "checkPowerOfTwo (int (length xs)) = Some ()"
    using assms(2) by (simp add: checkPowerOfTwo_power)
  ultimately show ?thesis
    using general_bitonic.bsort_correct [OF assms(1,2), of up] assms(2) unfolding d(2) two_key_dirs_of
    by (simp add: BitonicSort_General_def d(1) dirs_of_def)
qed
text \<open>The remaining variants.\<close>

lemma BitonicSort_Block_block_sorts:
  assumes "list_all (blk_ok block_sz [key_idx]) xs" "length xs = 2 ^ n" "d \<in> directions"
  shows "\<exists>ys. BitonicSort_Block (concat xs) (length xs) key_idx d block_sz = Some (concat ys) \<and>
    mset ys = mset xs \<and> sorted_wrt (\<lambda>x y. key_le d (x ! key_idx) (y ! key_idx)) ys"
proof -
  obtain up where d: "d = dir_of up" using directions_dir_of assms(3) by blast
  show ?thesis
    using block_bitonic.bsort_correct [OF assms(1,2), of up] assms(2)
    by (simp add: BitonicSort_Block_def d key_le_dir_of checkPowerOfTwo_power)
qed

lemma BitonicSort_TwoArray_sorts:
  assumes "list_all (two_ok bm ba [key_idx]) xs" "length xs = 2 ^ n" "d \<in> directions"
  shows "\<exists>ys. BitonicSort_TwoArray (concat (map fst xs)) (concat (map snd xs)) (length xs)
      key_idx d bm ba = Some (concat (map fst ys), concat (map snd ys)) \<and> mset ys = mset xs \<and>
    sorted_wrt (\<lambda>x y. key_le d (fst x ! key_idx) (fst y ! key_idx)) ys"
proof -
  obtain up where d: "d = dir_of up" using directions_dir_of assms(3) by blast
  show ?thesis
    using two_bitonic.bsort_correct [OF assms(1,2), of up] assms(2)
    by (simp add: BitonicSort_TwoArray_def d key_le_dir_of checkPowerOfTwo_power flat_two_def)
qed


text \<open>
  with different directions for the two keys the bitonic two-key sort does not sort, because
  its recursion sorts the halves with the directions (1,1) and (0,0) whatever the caller asked:
  on the four entries (0,0), (0,1), (0,1), (1,0) with the directions (1,0) it returns the
  entries (0,1), (0,0), (0,1), (1,0), which are not in that order.
\<close>

theorem BitonicSort_General_mixed_directions:
  "BitonicSort_General [0, 0, 0, 1, 0, 1, 1, 0] 4 2 0 ASCENDING 1 DESCENDING =
     Some [0, 1, 0, 0, 0, 1, 1, 0] \<and>
   \<not> two_key_from_L (ASCENDING, DESCENDING) 0 0 0 1"
  by code_simp

end
