(* ===== verification/PathOram.thy ===== *)
theory PathOram
  imports Oblivious MergeSort BitonicSort
begin

text \<open>
  The Path ORAM of \<^verbatim>\<open>primitives/path_oram/path_oram.c\<close>: its state, every operation that changes
  it, and the client program \<^verbatim>\<open>main.c\<close>.

  The globals \<^verbatim>\<open>oram_controller\<close>, \<^verbatim>\<open>oram_tree\<close>, \<^verbatim>\<open>wb_path\<close>, \<^verbatim>\<open>occupied\<close> and
  \<^verbatim>\<open>store_sort_func\<close> are the fields of one record. The stash and the tree stay the flat word arrays
  they are in C: \<^verbatim>\<open>Stash_Info\<close> is four words (key, valid, bid, leaf), \<^verbatim>\<open>ORAM_Block\<close> is
  three words (valid, bid, leaf) followed by the words of the block. The function pointer is a
  field of function type. \<^verbatim>\<open>rand()\<close> is a parameter: the two values it returns during an
  access are the arguments \<open>r1\<close> and \<open>r2\<close>. Memory from \<^verbatim>\<open>malloc\<close> has arbitrary contents
  (\<open>junk\<close>), memory from \<^verbatim>\<open>calloc\<close> is zero. \<^verbatim>\<open>dassert\<close> is empty in the sources
  (\<^verbatim>\<open>DEBUG\<close> is not defined in \<^verbatim>\<open>lib/defs.h\<close>), and so are the time measurements.
\<close>

unbundle bit_operations_syntax

section \<open>State\<close>

type_synonym sort_func =
  "int list \<Rightarrow> int list \<Rightarrow> nat \<Rightarrow> nat \<Rightarrow> int \<Rightarrow> nat \<Rightarrow> int \<Rightarrow> nat \<Rightarrow> nat \<Rightarrow> (int list \<times> int list) option"

datatype Sort_Scheme = MERGE_SORT | BITONIC_SORT

record oram =
  block_size :: nat
  bucket_size :: nat
  num_buckets :: nat
  num_leaves :: nat
  pos_map_size :: nat
  pos_map_entries :: "16 word list"
  stash_size :: nat
  stash_info :: "int list"
  stash_data :: "int list"
  tree_depth :: nat
  tree_oram :: "int list"
  wb_path :: "int list"
  occupied :: "int list"
  store_sort_func :: sort_func

definition READ :: int where "READ = 1"

definition WRITE :: int where "WRITE = 2"

definition max_int :: int where "max_int = 0xfffffff"

definition POSMAP_LEAF_MASK :: int where "POSMAP_LEAF_MASK = 0x7FFF"

definition POSMAP_VALID_MASK :: int where "POSMAP_VALID_MASK = 0x8000"

text \<open>\<^verbatim>\<open>sizeof(Stash_Info) / sizeof(int)\<close> and \<^verbatim>\<open>sizeof(ORAM_Block) / sizeof(int)\<close>.\<close>

abbreviation info_words :: nat where "info_words \<equiv> 4"

abbreviation head_words :: nat where "head_words \<equiv> 3"

text \<open>The word of field \<open>f\<close> (0 key, 1 valid, 2 bid, 3 leaf) of stash entry \<open>i\<close>.\<close>

abbreviation info_at :: "nat \<Rightarrow> nat \<Rightarrow> nat" where "info_at i f \<equiv> i * info_words + f"

section \<open>Choosing a level\<close>

definition GenRandLeaf :: "nat \<Rightarrow> oram \<Rightarrow> int" where
  "GenRandLeaf r s = int (r mod num_leaves s)"

definition PushBack_full :: "nat \<Rightarrow> int list \<Rightarrow> nat \<Rightarrow> 32 word option" where
  "PushBack_full Z occ L =
     for_loop 0 L (\<lambda>i full. do {
       v \<leftarrow> rd occ i;
       Some (if v = int Z then full + push_bit i 1 else full) }) 0"

definition PushBack :: "nat \<Rightarrow> 32 word \<Rightarrow> 32 word \<Rightarrow> int list \<Rightarrow> nat \<Rightarrow> int option" where
  "PushBack Z accessed_leaf stash_leaf occ L = do {
     let t1 = bitwiseReverse accessed_leaf L XOR bitwiseReverse stash_leaf L;
     let t2 = t1 AND (- t1);
     let t3 = t2 - 1;
     full \<leftarrow> PushBack_full Z occ L;
     let t4 = t3 AND NOT full;
     let t5 = bitwiseReverse t4 L;
     let t6 = t5 AND (- t5);
     let t7 = bitwiseReverse t6 L;
     occ0 \<leftarrow> rd occ 0;
     if t3 = 0 \<and> occ0 < int Z then Some 0
     else if t7 = 0 then Some (-1)
     else Some (uint (log_2 t7)) }"

section \<open>Initialisation\<close>

definition Init_Stash :: "(nat \<Rightarrow> int) \<Rightarrow> nat \<Rightarrow> oram \<Rightarrow> oram" where
  "Init_Stash junk sz s = s\<lparr>stash_size := sz,
     stash_info := replicate (sz * info_words) 0,
     stash_data := fresh junk (block_size s * sz)\<rparr>"

definition Init_PosMap :: "nat \<Rightarrow> oram \<Rightarrow> oram" where
  "Init_PosMap posmap_size s = s\<lparr>pos_map_size := posmap_size,
     pos_map_entries := replicate posmap_size 0\<rparr>"

definition Init_ORAM_Controller ::
    "(nat \<Rightarrow> int) \<Rightarrow> nat \<Rightarrow> nat \<Rightarrow> nat \<Rightarrow> nat \<Rightarrow> nat \<Rightarrow> oram \<Rightarrow> oram option" where
  "Init_ORAM_Controller junk Z oram_depth B C num_real_blocks s = do {
     c_assert (1 \<le> oram_depth);
     let s = s\<lparr>block_size := B, bucket_size := Z, num_buckets := 2 ^ oram_depth - 1,
               num_leaves := 2 ^ (oram_depth - 1)\<rparr>;
     sz \<leftarrow> roundToPowerOf2 (int (Z * oram_depth + C));
     let s = Init_PosMap num_real_blocks s;
     Some (Init_Stash junk (nat sz) s) }"

text \<open>The loop clears the same word in every round: its index does not mention \<open>i\<close>.\<close>

definition Init_ORAM_Tree :: "(nat \<Rightarrow> int) \<Rightarrow> nat \<Rightarrow> nat \<Rightarrow> nat \<Rightarrow> oram \<Rightarrow> oram option" where
  "Init_ORAM_Tree junk Z oram_depth B s = do {
     let t = fresh junk ((head_words + B) * Z * 2 ^ oram_depth);
     t \<leftarrow> for_loop 0 (2 ^ oram_depth * Z) (\<lambda>i t. wr t (head_words + B) 0) t;
     Some (s\<lparr>tree_depth := oram_depth, tree_oram := t\<rparr>) }"

definition Init_ORAM ::
    "(nat \<Rightarrow> int) \<Rightarrow> nat \<Rightarrow> 32 word \<Rightarrow> nat \<Rightarrow> nat \<Rightarrow> Sort_Scheme \<Rightarrow> oram \<Rightarrow> oram option" where
  "Init_ORAM junk Z num_real_blocks B C sort_scheme s = do {
     let oram_depth = unat (log_2 num_real_blocks);
     c_assert (oram_depth \<le> 15);
     s \<leftarrow> Init_ORAM_Controller junk Z oram_depth B C (unat num_real_blocks) s;
     s \<leftarrow> Init_ORAM_Tree junk Z oram_depth B s;
     let s = s\<lparr>wb_path := fresh junk (tree_depth s * bucket_size s),
               occupied := fresh junk (tree_depth s)\<rparr>;
     Some (s\<lparr>store_sort_func :=
       (case sort_scheme of
          MERGE_SORT \<Rightarrow> MergeSort_TwoArray_TwoKey junk
        | BITONIC_SORT \<Rightarrow> BitonicSort_TwoArray_TwoKey)\<rparr>) }"

section \<open>The position map\<close>

definition Retrieve_entry ::
    "int \<Rightarrow> int \<Rightarrow> nat \<Rightarrow> 16 word list \<times> int \<times> int \<Rightarrow> (16 word list \<times> int \<times> int) option" where
  "Retrieve_entry bid new_leaf i = (\<lambda>(entries, access_leaf, if_new_data). do {
     e \<leftarrow> rd entries i;
     let posmap_entry_leaf = uint e AND POSMAP_LEAF_MASK;
     let posmap_entry_valid = uint e AND POSMAP_VALID_MASK;
     let id_match = of_bool (bid = int i);
     let id_match_valid = of_bool (id_match \<noteq> (0::int) \<and> posmap_entry_valid \<noteq> 0);
     let id_match_invalid = of_bool (id_match \<noteq> 0 \<and> \<not> posmap_entry_valid \<noteq> 0);
     let if_new_data = of_bool (if_new_data \<noteq> 0 \<or> id_match_invalid \<noteq> (0::int));
     let posmap_entry_valid = cmov id_match_invalid POSMAP_VALID_MASK posmap_entry_valid;
     let access_leaf = cmov id_match_valid posmap_entry_leaf access_leaf;
     let posmap_entry_leaf = cmov id_match new_leaf posmap_entry_leaf;
     entries \<leftarrow> wr entries i (word_of_int (posmap_entry_leaf OR posmap_entry_valid));
     Some (entries, access_leaf, if_new_data) })"

definition Retrieve_LeafLabel :: "int \<Rightarrow> int \<Rightarrow> int \<Rightarrow> int \<Rightarrow> oram \<Rightarrow> (oram \<times> int \<times> int) option" where
  "Retrieve_LeafLabel op bid access_leaf new_leaf s = do {
     (entries, access_leaf, if_new_data) \<leftarrow>
        for_loop 0 (pos_map_size s) (Retrieve_entry bid new_leaf) (pos_map_entries s, access_leaf, 0);
     c_assert (\<not> (op = READ \<and> if_new_data \<noteq> 0));
     Some (s\<lparr>pos_map_entries := entries\<rparr>, access_leaf, if_new_data) }"

section \<open>Fetching a path\<close>

text \<open>One block of the tree, at word \<open>base\<close>, moves to stash entry \<open>k\<close>.\<close>

definition Fetch_one ::
    "nat \<Rightarrow> nat \<Rightarrow> nat \<Rightarrow> int list \<times> int list \<times> int list \<Rightarrow> (int list \<times> int list \<times> int list) option" where
  "Fetch_one B base k = (\<lambda>(oram, info, data). do {
     v \<leftarrow> rd oram base;
     info \<leftarrow> wr info (info_at k 1) v;
     i \<leftarrow> rd oram (base + 1);
     info \<leftarrow> wr info (info_at k 2) i;
     l \<leftarrow> rd oram (base + 2);
     info \<leftarrow> wr info (info_at k 3) l;
     oram \<leftarrow> wr oram base 0;
     data \<leftarrow> for_loop 0 B (\<lambda>h data. do {
       x \<leftarrow> rd oram (base + head_words + h); wr data (k * B + h) x }) data;
     Some (oram, info, data) })"

definition Fetch_path :: "int \<Rightarrow> oram \<Rightarrow> oram option" where
  "Fetch_path access_leaf s = do {
     let Z = bucket_size s;
     let B = block_size s;
     let path_dir = unat (bitwiseReverse (word_of_int access_leaf) (tree_depth s - 1));
     (oram, info, data, stash_idx, bucket_idx, path_dir) \<leftarrow>
       for_loop 0 (tree_depth s) (\<lambda>i (oram, info, data, stash_idx, bucket_idx, path_dir). do {
         (oram, info, data, stash_idx) \<leftarrow>
           for_loop 0 Z (\<lambda>j (oram, info, data, stash_idx). do {
             (oram, info, data) \<leftarrow>
               Fetch_one B ((bucket_idx * Z + j) * (head_words + B)) stash_idx (oram, info, data);
             Some (oram, info, data, Suc stash_idx) }) (oram, info, data, stash_idx);
         Some (oram, info, data, stash_idx, bucket_idx * 2 + path_dir mod 2, path_dir div 2) })
       (tree_oram s, stash_info s, stash_data s, 0, 1, path_dir);
     Some (s\<lparr>tree_oram := oram, stash_info := info, stash_data := data\<rparr>) }"

text \<open>
  One round of the second loop of \<^verbatim>\<open>Fetch_Blocks\<close>; the state is the stash, the caller's buffer
  and \<^verbatim>\<open>did_write\<close>.
\<close>

definition Access_entry ::
    "nat \<Rightarrow> int \<Rightarrow> int \<Rightarrow> int \<Rightarrow> int \<Rightarrow> nat \<Rightarrow> int list \<times> int list \<times> int list \<times> int \<Rightarrow>
     (int list \<times> int list \<times> int list \<times> int) option" where
  "Access_entry B op bid new_leaf if_new_data i = (\<lambda>(info, data, data_ptr, did_write). do {
     e_id \<leftarrow> rd info (info_at i 2);
     e_valid \<leftarrow> rd info (info_at i 1);
     let id_match = of_bool (e_id = bid \<and> e_valid \<noteq> 0);
     let read_cond = of_bool (id_match \<noteq> (0::int) \<and> op = READ);
     let write_cond = of_bool (id_match \<noteq> 0 \<and> op = WRITE);
     e_leaf \<leftarrow> rd info (info_at i 3);
     info \<leftarrow> wr info (info_at i 3) (cmov id_match new_leaf e_leaf);
     data_ptr \<leftarrow> cmovn read_cond data (i * B) data_ptr 0 B;
     data \<leftarrow> cmovn write_cond data_ptr 0 data (i * B) B;
     e_valid \<leftarrow> rd info (info_at i 1);
     let write_new_block = of_bool (if_new_data \<noteq> 0 \<and> \<not> e_valid \<noteq> 0 \<and> \<not> did_write \<noteq> 0);
     let did_write = of_bool (did_write \<noteq> 0 \<or> write_new_block \<noteq> (0::int));
     info \<leftarrow> wr info (info_at i 1) (cmov write_new_block 1 e_valid);
     e_id \<leftarrow> rd info (info_at i 2);
     info \<leftarrow> wr info (info_at i 2) (cmov write_new_block bid e_id);
     e_leaf \<leftarrow> rd info (info_at i 3);
     info \<leftarrow> wr info (info_at i 3) (cmov write_new_block new_leaf e_leaf);
     data \<leftarrow> cmovn write_new_block data_ptr 0 data (i * B) B;
     Some (info, data, data_ptr, did_write) })"

definition Fetch_Blocks ::
    "int \<Rightarrow> int \<Rightarrow> int list \<Rightarrow> int \<Rightarrow> int \<Rightarrow> int \<Rightarrow> oram \<Rightarrow> (oram \<times> int list) option" where
  "Fetch_Blocks op bid data_ptr access_leaf new_leaf if_new_data s = do {
     s \<leftarrow> Fetch_path access_leaf s;
     (info, data, data_ptr, did_write) \<leftarrow>
       for_loop 0 (stash_size s) (Access_entry (block_size s) op bid new_leaf if_new_data)
         (stash_info s, stash_data s, data_ptr, 0);
     Some (s\<lparr>stash_info := info, stash_data := data\<rparr>, data_ptr) }"

section \<open>Storing a path\<close>

text \<open>One round of the first loop of \<^verbatim>\<open>Store_Blocks\<close>: choose a slot and a sort key.\<close>

definition Assign_key ::
    "nat \<Rightarrow> nat \<Rightarrow> int \<Rightarrow> nat \<Rightarrow> int list \<times> int list \<times> int list \<Rightarrow>
     (int list \<times> int list \<times> int list) option" where
  "Assign_key Z L access_leaf i = (\<lambda>(wb, occ, info). do {
     valid \<leftarrow> rd info (info_at i 1);
     leaf \<leftarrow> rd info (info_at i 3);
     level \<leftarrow> PushBack Z (word_of_int access_leaf) (word_of_int leaf) occ L;
     let cond = of_bool (valid \<noteq> 0 \<and> level > -1);
     occ_buf \<leftarrow> ScanORAM_Read occ L 1 [0] level;
     occupied_level \<leftarrow> rd occ_buf 0;
     let offset = level * int Z + occupied_level;
     let wb_path_offset = cmov cond (int i) 0;
     wb \<leftarrow> ScanORAM_Write wb (L * Z) 1 [wb_path_offset] offset;
     let inc_occupied = occupied_level + 1;
     let occupied_level = cmov cond inc_occupied occupied_level;
     occ \<leftarrow> ScanORAM_Write occ L 1 [occupied_level] level;
     key \<leftarrow> rd info (info_at i 0);
     info \<leftarrow> wr info (info_at i 0) (cmov cond offset key);
     key \<leftarrow> rd info (info_at i 0);
     info \<leftarrow> wr info (info_at i 0) (cmov (of_bool (\<not> cond \<noteq> 0)) max_int key);
     Some (wb, occ, info) })"

text \<open>One round of the second loop: a slot nobody took goes to an invalid stash entry.\<close>

definition Extra_key :: "nat \<Rightarrow> int list \<Rightarrow> nat \<Rightarrow> int list \<Rightarrow> int list option" where
  "Extra_key sz wb i info = do {
     w \<leftarrow> rd wb i;
     let if_add_extra_key = (w = -1);
     (info, _) \<leftarrow> for_loop 0 sz (\<lambda>j (info, add_extra_key_done). do {
        v \<leftarrow> rd info (info_at j 1);
        let cond = (if_add_extra_key \<and> \<not> add_extra_key_done \<and> \<not> v \<noteq> 0);
        key \<leftarrow> rd info (info_at j 0);
        info \<leftarrow> wr info (info_at j 0) (cmov (of_bool cond) (int i) key);
        Some (info, add_extra_key_done \<or> cond) }) (info, False);
     Some info }"

text \<open>Stash entry \<open>k\<close> moves to the block of the tree at word \<open>base\<close>.\<close>

definition Store_one ::
    "nat \<Rightarrow> nat \<Rightarrow> nat \<Rightarrow> int list \<times> int list \<times> int list \<Rightarrow> (int list \<times> int list \<times> int list) option" where
  "Store_one B base k = (\<lambda>(oram, info, data). do {
     v \<leftarrow> rd info (info_at k 1);
     oram \<leftarrow> wr oram base v;
     i \<leftarrow> rd info (info_at k 2);
     oram \<leftarrow> wr oram (base + 1) i;
     l \<leftarrow> rd info (info_at k 3);
     oram \<leftarrow> wr oram (base + 2) l;
     info \<leftarrow> wr info (info_at k 1) 0;
     oram \<leftarrow> for_loop 0 B (\<lambda>h oram. do {
       x \<leftarrow> rd data (k * B + h); wr oram (base + head_words + h) x }) oram;
     Some (oram, info, data) })"

definition Store_path :: "int \<Rightarrow> oram \<Rightarrow> oram option" where
  "Store_path access_leaf s = do {
     let Z = bucket_size s;
     let B = block_size s;
     let path_dir = unat (bitwiseReverse (word_of_int access_leaf) (tree_depth s - 1));
     (oram, info, data, wb_stash_idx, bucket_idx, path_dir) \<leftarrow>
       for_loop 0 (tree_depth s) (\<lambda>i (oram, info, data, wb_stash_idx, bucket_idx, path_dir). do {
         (oram, info, data, wb_stash_idx) \<leftarrow>
           for_loop 0 Z (\<lambda>j (oram, info, data, wb_stash_idx). do {
             (oram, info, data) \<leftarrow>
               Store_one B ((bucket_idx * Z + j) * (head_words + B)) wb_stash_idx (oram, info, data);
             Some (oram, info, data, Suc wb_stash_idx) }) (oram, info, data, wb_stash_idx);
         Some (oram, info, data, wb_stash_idx, bucket_idx * 2 + path_dir mod 2, path_dir div 2) })
       (tree_oram s, stash_info s, stash_data s, 0, 1, path_dir);
     Some (s\<lparr>tree_oram := oram, stash_info := info, stash_data := data\<rparr>) }"

definition Store_Blocks :: "int \<Rightarrow> oram \<Rightarrow> oram option" where
  "Store_Blocks access_leaf s = do {
     let Z = bucket_size s;
     let L = tree_depth s;
     wb \<leftarrow> for_loop 0 (L * Z) (\<lambda>i wb. wr wb i (-1)) (wb_path s);
     occ \<leftarrow> for_loop 0 L (\<lambda>i occ. wr occ i 0) (occupied s);
     (wb, occ, info) \<leftarrow>
       for_loop 0 (stash_size s) (Assign_key Z L access_leaf) (wb, occ, stash_info s);
     info \<leftarrow> for_loop 0 (L * Z) (Extra_key (stash_size s) wb) info;
     (info, data) \<leftarrow>
       store_sort_func s info (stash_data s) (stash_size s) 0 1 1 1 info_words (block_size s);
     Store_path access_leaf
       (s\<lparr>wb_path := wb, occupied := occ, stash_info := info, stash_data := data\<rparr>) }"

section \<open>The access\<close>

definition Access_ORAM ::
    "nat \<Rightarrow> nat \<Rightarrow> int \<Rightarrow> int \<Rightarrow> int list \<Rightarrow> oram \<Rightarrow> (oram \<times> int list) option" where
  "Access_ORAM r1 r2 op bid data_ptr s = do {
     c_assert (op = READ \<or> op = WRITE);
     c_assert (\<not> (bid < 0 \<or> bid \<ge> int (pos_map_size s)));
     let access_leaf = GenRandLeaf r1 s;
     let new_leaf = GenRandLeaf r2 s;
     (s, access_leaf, if_new_data) \<leftarrow> Retrieve_LeafLabel op bid access_leaf new_leaf s;
     (s, data_ptr) \<leftarrow> Fetch_Blocks op bid data_ptr access_leaf new_leaf if_new_data s;
     s \<leftarrow> Store_Blocks access_leaf s;
     Some (s, data_ptr) }"

text \<open>The loop of \<^verbatim>\<open>Stash_Full\<close> returns at the first invalid entry.\<close>

function Stash_Full_loop :: "oram \<Rightarrow> nat \<Rightarrow> int option" where
  "Stash_Full_loop s i =
     (if i < stash_size s then do {
        v \<leftarrow> rd (stash_info s) (info_at i 1);
        if \<not> v \<noteq> 0 then Some 0 else Stash_Full_loop s (Suc i) }
      else Some 1)"
  by pat_completeness auto
termination by (relation "measure (\<lambda>(s, i). stash_size s - i)") auto

declare Stash_Full_loop.simps [simp del]

definition Stash_Full :: "oram \<Rightarrow> int option" where
  "Stash_Full s = Stash_Full_loop s 0"

section \<open>The client main.c\<close>

text \<open>
  \<^verbatim>\<open>main\<close> takes the number of blocks \<open>N\<close>, the block size \<open>B\<close> and the sort scheme from the
  command line, writes blocks 0 to 9, reads them back, overwrites them and reads them again. The
  \<open>k\<close>-th access of the program gets the results \<open>2k\<close> and \<open>2k + 1\<close> of \<^verbatim>\<open>rand()\<close>. The
  model returns the contents of \<^verbatim>\<open>rd_data\<close> after each read, which \<^verbatim>\<open>main\<close> prints with
  \<^verbatim>\<open>dprintf\<close>.
\<close>

definition write_phase ::
    "(nat \<Rightarrow> nat) \<Rightarrow> nat \<Rightarrow> nat \<Rightarrow> nat \<Rightarrow> nat \<Rightarrow> int list \<times> oram \<Rightarrow> (int list \<times> oram) option" where
  "write_phase rand k0 num_access B off = for_loop 0 num_access (\<lambda>i (wr_data, s). do {
     (s, d) \<leftarrow> Access_ORAM (rand (2 * (k0 + i))) (rand (2 * (k0 + i) + 1)) WRITE (int i)
        (take B (drop (i * B + off) wr_data)) s;
     Some (splice_at (i * B + off) d wr_data, s) })"

definition read_phase ::
    "(nat \<Rightarrow> nat) \<Rightarrow> nat \<Rightarrow> nat \<Rightarrow> int list \<times> oram \<times> int list list \<Rightarrow>
     (int list \<times> oram \<times> int list list) option" where
  "read_phase rand k0 num_access = for_loop 0 num_access (\<lambda>i (rd_data, s, out). do {
     (s, rd_data) \<leftarrow> Access_ORAM (rand (2 * (k0 + i))) (rand (2 * (k0 + i) + 1)) READ (int i) rd_data s;
     Some (rd_data, s, out @ [rd_data]) })"

text \<open>The scheme on the command line; \<^verbatim>\<open>main\<close> aborts on an unrecognised one.\<close>

definition scheme_arg :: "int \<Rightarrow> Sort_Scheme option" where
  "scheme_arg n = (if n = 0 then Some MERGE_SORT else if n = 1 then Some BITONIC_SORT else None)"

definition main_oram ::
    "(nat \<Rightarrow> int) \<Rightarrow> (nat \<Rightarrow> nat) \<Rightarrow> 32 word \<Rightarrow> nat \<Rightarrow> int \<Rightarrow> oram \<Rightarrow>
     (oram \<times> int list list) option" where
  "main_oram junk rand N B sort_scheme s = do {
     let Z = 4;
     let C = 200;
     let num_access = 10;
     c_assert (num_access \<le> unat N);
     scheme \<leftarrow> scheme_arg sort_scheme;
     s \<leftarrow> Init_ORAM junk Z N B C scheme s;
     wr_data \<leftarrow> for_loop 0 (2 * num_access * B) (\<lambda>i d. wr d i (int i)) (fresh junk (2 * num_access * B));
     (wr_data, s) \<leftarrow> write_phase rand 0 num_access B 0 (wr_data, s);
     (rd_data, s, out) \<leftarrow> read_phase rand num_access num_access (fresh junk B, s, []);
     (wr_data, s) \<leftarrow> write_phase rand (2 * num_access) num_access B (num_access * B) (wr_data, s);
     (rd_data, s, out) \<leftarrow> read_phase rand (3 * num_access) num_access (rd_data, s, out);
     Some (s, out) }"

end
