(* ===== verification/PathOramLevel.thy ===== *)
theory PathOramLevel
  imports PathOram
begin

text \<open>
  The geometry of the tree and the choice of a level. A leaf label names a path from the root
  (bucket 1) to a leaf bucket; \<open>bucket d leaf i\<close> is the bucket of that path on level \<open>i\<close>. The bit
  tricks of \<^verbatim>\<open>PushBack\<close> are shown to select the deepest level that the two paths share and
  that still has room.
\<close>

section \<open>Lowest set bit\<close>

lemma bit_minus_one:
  fixes x :: "'a::len word"
  assumes "bit x m" "\<And>j. j < m \<Longrightarrow> \<not> bit x j"
  shows "bit (x - 1) i \<longleftrightarrow> i < LENGTH('a) \<and> (if i < m then True else if i = m then False else bit x i)"
proof -
  let ?y = "unset_bit m x"
  have m: "m < LENGTH('a)" using assms(1) by (rule bit_imp_le_length)
  have "?y AND 2 ^ m = 0" by (rule bit_eqI) (auto simp: bit_and_iff bit_unset_bit_iff bit_exp_iff)
  then have "?y + 2 ^ m = ?y OR 2 ^ m" by (rule disjunctive_add_eq_or)
  also have "\<dots> = x"
    by (rule bit_eqI) (use assms(1) in \<open>auto simp: bit_or_iff bit_unset_bit_iff bit_exp_iff\<close>)
  finally have "x - 1 = ?y + mask m" by (simp add: mask_eq_exp_minus_1 algebra_simps)
  also have "\<dots> = ?y OR mask m"
    by (rule disjunctive_add_eq_or, rule bit_eqI)
      (use assms(2) in \<open>auto simp: bit_and_iff bit_unset_bit_iff bit_mask_iff\<close>)
  finally show ?thesis
    using m assms(2) by (auto simp: bit_or_iff bit_unset_bit_iff bit_mask_iff dest: bit_imp_le_length)
qed

lemma lowest_bit:
  fixes x :: "'a::len word"
  assumes "bit x m" "\<And>j. j < m \<Longrightarrow> \<not> bit x j"
  shows "x AND - x = 2 ^ m"
proof (rule bit_eqI)
  fix i
  have "- x = NOT (x - 1)" by (rule minus_eq_not_minus_1)
  then show "bit (x AND - x) i = bit (2 ^ m :: 'a word) i"
    using assms bit_minus_one [OF assms, of i]
    by (auto simp: bit_and_iff bit_not_iff bit_exp_iff dest: bit_imp_le_length split: if_splits)
qed

lemma lowest_bit_below:
  fixes x :: "'a::len word"
  shows "bit ((x AND - x) - 1) i \<longleftrightarrow> i < LENGTH('a) \<and> (\<forall>j \<le> i. \<not> bit x j)"
proof (cases "x = 0")
  case True
  then show ?thesis by (auto dest: bit_imp_le_length)
next
  case False
  then obtain k where k: "bit x k" using bit_eq_iff [of x 0] by auto
  define m where "m = (LEAST k. bit x k)"
  have m: "bit x m" unfolding m_def using k by (rule LeastI)
  have below: "\<not> bit x j" if "j < m" for j using not_less_Least that unfolding m_def .
  have "(x AND - x) - 1 = mask m" by (simp add: lowest_bit [OF m below] mask_eq_exp_minus_1)
  then show ?thesis
    using m below by (auto simp: bit_mask_iff dest: bit_imp_le_length) (meson leI order_le_less_trans)
qed

text \<open>Reversing, isolating the lowest bit and reversing again isolates the highest bit below \<open>L\<close>.\<close>

lemma reverse_lowest_reverse:
  fixes w :: "32 word"
  assumes "L \<le> 32"
  defines "t \<equiv> bitwiseReverse w L"
  shows "(\<forall>i<L. \<not> bit w i) \<Longrightarrow> bitwiseReverse (t AND - t) L = 0"
    and "M < L \<Longrightarrow> bit w M \<Longrightarrow> (\<And>i. M < i \<Longrightarrow> i < L \<Longrightarrow> \<not> bit w i) \<Longrightarrow>
      bitwiseReverse (t AND - t) L = 2 ^ M"
proof -
  show "(\<forall>i<L. \<not> bit w i) \<Longrightarrow> bitwiseReverse (t AND - t) L = 0"
  proof -
    assume "\<forall>i<L. \<not> bit w i"
    then have "t = 0" unfolding t_def by (intro bit_eqI) (auto simp: bit_bitwiseReverse assms(1))
    then show ?thesis by (intro bit_eqI) (simp add: bit_bitwiseReverse assms(1))
  qed
  assume M: "M < L" "bit w M" and above: "\<And>i. M < i \<Longrightarrow> i < L \<Longrightarrow> \<not> bit w i"
  have "t AND - t = 2 ^ (L - 1 - M)"
  proof (rule lowest_bit)
    show "bit t (L - 1 - M)" unfolding t_def using M by (auto simp: bit_bitwiseReverse assms(1))
    fix j assume "j < L - 1 - M"
    then show "\<not> bit t j" unfolding t_def using above [of "L - 1 - j"] by (auto simp: bit_bitwiseReverse assms(1))
  qed
  then show "bitwiseReverse (t AND - t) L = 2 ^ M"
    using M assms(1) by (intro bit_eqI) (auto simp: bit_bitwiseReverse bit_exp_iff)
qed

section \<open>PushBack\<close>

text \<open>The levels on which two leaf labels have the same bucket, as \<^verbatim>\<open>PushBack\<close> sees them.\<close>

definition shared_bits :: "nat \<Rightarrow> 32 word \<Rightarrow> 32 word \<Rightarrow> nat \<Rightarrow> bool" where
  "shared_bits L a b i \<longleftrightarrow> (\<forall>j \<le> i. bit a (L - 1 - j) = bit b (L - 1 - j))"

definition open_levels :: "nat \<Rightarrow> nat \<Rightarrow> 32 word \<Rightarrow> 32 word \<Rightarrow> int list \<Rightarrow> nat set" where
  "open_levels Z L a b occ = {i. i < L \<and> shared_bits L a b i \<and> occ ! i \<noteq> int Z}"

lemma PushBack_full_bits:
  assumes "L \<le> 32" "length occ = L"
  shows "\<exists>full. PushBack_full Z occ L = Some full \<and> (\<forall>k. bit full k \<longleftrightarrow> k < L \<and> occ ! k = int Z)"
  unfolding PushBack_full_def
proof (rule for_loop_rule [where I = "\<lambda>i full. \<forall>k. bit full k \<longleftrightarrow> k < i \<and> occ ! k = int Z"])
  fix i and full :: "32 word"
  assume i: "i < L" and I: "\<forall>k. bit full k \<longleftrightarrow> k < i \<and> occ ! k = int Z"
  have b: "bit (push_bit i 1 :: 32 word) k \<longleftrightarrow> k = i" for k
    using i assms(1) by (auto simp: bit_exp_iff)
  have "full AND push_bit i 1 = 0"
    by (rule bit_eqI) (simp only: bit_and_iff b I bit_0_eq, simp)
  then have "full + push_bit i 1 = full OR push_bit i 1" by (rule disjunctive_add_eq_or)
  then have "bit (full + push_bit i 1) k \<longleftrightarrow> (k < i \<and> occ ! k = int Z) \<or> k = i" for k
    by (simp only: bit_or_iff b I)
  then have "\<forall>k. bit (if occ ! i = int Z then full + push_bit i 1 else full) k \<longleftrightarrow> k < Suc i \<and> occ ! k = int Z"
    using I by (cases "occ ! i = int Z") (auto simp: less_Suc_eq simp del: push_bit_of_1)
  then show "\<exists>full'. (do { v \<leftarrow> rd occ i; Some (if v = int Z then full + push_bit i 1 else full) }) = Some full' \<and>
      (\<forall>k. bit full' k \<longleftrightarrow> k < Suc i \<and> occ ! k = int Z)"
    using i assms(2) by simp
qed simp_all

lemma PushBack_value:
  assumes L: "1 \<le> L" "L \<le> 32" and occ: "length occ = L"
  shows "PushBack Z a b occ L =
    Some (if bit a (L - 1) \<noteq> bit b (L - 1) \<and> occ ! 0 < int Z then 0
          else if open_levels Z L a b occ = {} then -1 else int (Max (open_levels Z L a b occ)))"
proof -
  let ?O = "open_levels Z L a b occ"
  define t1 where "t1 = bitwiseReverse a L XOR bitwiseReverse b L"
  define t3 where "t3 = (t1 AND - t1) - 1"
  obtain full where full: "PushBack_full Z occ L = Some full" "\<And>k. bit full k \<longleftrightarrow> k < L \<and> occ ! k = int Z"
    using PushBack_full_bits [OF L(2) occ] by blast
  define t4 where "t4 = t3 AND NOT full"
  have t1: "bit t1 j \<longleftrightarrow> j < L \<and> bit a (L - 1 - j) \<noteq> bit b (L - 1 - j)" for j
    unfolding t1_def using L(2) by (auto simp: bit_xor_iff bit_bitwiseReverse)
  have t3: "bit t3 i \<longleftrightarrow> i < 32 \<and> (\<forall>j \<le> i. j < L \<longrightarrow> bit a (L - 1 - j) = bit b (L - 1 - j))" for i
    unfolding t3_def lowest_bit_below using t1 by auto
  have t4: "bit t4 i \<longleftrightarrow> i \<in> ?O" if "i < L" for i
    using that L(2) by (auto simp: t4_def bit_and_iff bit_not_iff t3 full open_levels_def shared_bits_def)
  have t3_0: "t3 = 0 \<longleftrightarrow> bit a (L - 1) \<noteq> bit b (L - 1)"
  proof
    assume "t3 = 0"
    then have "\<not> bit t3 0" by simp
    then show "bit a (L - 1) \<noteq> bit b (L - 1)" unfolding t3 using L by auto
  next
    assume "bit a (L - 1) \<noteq> bit b (L - 1)"
    then show "t3 = 0" using L by (intro bit_eqI) (auto simp: t3 intro!: exI [of _ 0])
  qed
  define t5 where "t5 = bitwiseReverse t4 L"
  define t7 where "t7 = bitwiseReverse (t5 AND - t5) L"
  have fin: "finite ?O" by (simp add: open_levels_def)
  have t7: "if ?O = {} then t7 = 0 else t7 = 2 ^ Max ?O \<and> Max ?O \<le> 31"
  proof (cases "?O = {}")
    case True
    then show ?thesis using t4 reverse_lowest_reverse(1) [OF L(2), of t4] by (simp add: t7_def t5_def)
  next
    case False
    then have M: "Max ?O \<in> ?O" using fin by (rule Max_in [rotated])
    then have "Max ?O < L" by (simp add: open_levels_def)
    moreover have "\<not> bit t4 i" if "Max ?O < i" "i < L" for i
      using t4 [OF that(2)] that(1) Max_ge [OF fin, of i] by auto
    ultimately show ?thesis
      using False M t4 L(2) reverse_lowest_reverse(2) [OF L(2), of "Max ?O" t4] by (simp add: t7_def t5_def)
  qed
  have lg: "uint (log_2 t7) = int (Max ?O)" "t7 \<noteq> 0" if "?O \<noteq> {}"
  proof -
    have *: "t7 = 2 ^ Max ?O" "Max ?O \<le> 31" using t7 that by auto
    show "uint (log_2 t7) = int (Max ?O)" using log_2_power [OF *(2)] *(1) by (metis uint_nat)
    have "bit t7 (Max ?O)" using * by (simp add: bit_exp_iff)
    then show "t7 \<noteq> 0" by auto
  qed
  have "PushBack Z a b occ L =
    Some (if t3 = 0 \<and> occ ! 0 < int Z then 0 else if t7 = 0 then -1 else uint (log_2 t7))"
    unfolding PushBack_def Let_def full(1) t7_def t5_def t4_def t3_def t1_def using L occ by simp
  then show ?thesis using t3_0 lg t7 by (cases "?O = {}") auto
qed

section \<open>Paths\<close>

definition bucket :: "nat \<Rightarrow> nat \<Rightarrow> nat \<Rightarrow> nat" where
  "bucket d leaf i = (2 ^ (d - 1) + leaf) div 2 ^ (d - 1 - i)"

text \<open>The block slot that is the \<open>k\<close>-th of the path, and the bucket the C loops compute.\<close>

definition slot :: "nat \<Rightarrow> nat \<Rightarrow> nat \<Rightarrow> nat \<Rightarrow> nat" where
  "slot d Z leaf k = bucket d leaf (k div Z) * Z + k mod Z"

fun path_bucket :: "nat \<Rightarrow> nat \<Rightarrow> nat" where
  "path_bucket pd 0 = 1"
| "path_bucket pd (Suc i) = path_bucket pd i * 2 + (pd div 2 ^ i) mod 2"

lemma bucket_split:
  assumes "i < d"
  shows "bucket d leaf i = 2 ^ i + leaf div 2 ^ (d - 1 - i)"
proof -
  have "(2::nat) ^ (d - 1) = 2 ^ i * 2 ^ (d - 1 - i)"
    using assms by (simp add: power_add [symmetric])
  then show ?thesis by (simp add: bucket_def)
qed

lemma leaf_div_bound:
  assumes "i < d" "(leaf::nat) < 2 ^ (d - 1)"
  shows "leaf div 2 ^ (d - 1 - i) < 2 ^ i"
proof -
  have "(2::nat) ^ (d - 1) = 2 ^ i * 2 ^ (d - 1 - i)"
    using assms by (simp add: power_add [symmetric])
  then show ?thesis using assms(2) by (simp add: less_mult_imp_div_less)
qed

lemma bucket_bounds:
  assumes "i < d" "leaf < 2 ^ (d - 1)"
  shows "2 ^ i \<le> bucket d leaf i" "bucket d leaf i < 2 ^ Suc i" "bucket d leaf i < 2 ^ d"
proof -
  show "2 ^ i \<le> bucket d leaf i" using assms by (simp add: bucket_split)
  show *: "bucket d leaf i < 2 ^ Suc i" using assms leaf_div_bound [OF assms] by (simp add: bucket_split)
  have "(2::nat) ^ Suc i \<le> 2 ^ d" using assms(1) by (intro power_increasing) auto
  with * show "bucket d leaf i < 2 ^ d" by linarith
qed

lemma bucket_level:
  assumes "i < d" "j < d" "a < 2 ^ (d - 1)" "b < 2 ^ (d - 1)" "bucket d a i = bucket d b j"
  shows "i = j"
proof -
  have *: "i < Suc j" if "2 ^ i \<le> x" "x < (2::nat) ^ Suc j" for i j x
    by (rule power_less_imp_less_exp [OF _ le_less_trans [OF that]]) simp
  have "i < Suc j"
    using * [OF bucket_bounds(1) [OF assms(1,3)]] bucket_bounds(2) [OF assms(2,4)] assms(5) by simp
  moreover have "j < Suc i"
    using * [OF bucket_bounds(1) [OF assms(2,4)]] bucket_bounds(2) [OF assms(1,3)] assms(5) by simp
  ultimately show ?thesis by simp
qed

lemma bucket_ancestor:
  assumes "i \<le> j" "j < d" "bucket d a j = bucket d b j"
  shows "bucket d a i = bucket d b i"
proof -
  have e: "d - 1 - i = (d - 1 - j) + (j - i)" using assms(1,2) by simp
  have "bucket d x i = bucket d x j div 2 ^ (j - i)" for x
    unfolding bucket_def e power_add by (rule div_mult2_eq)
  then show ?thesis using assms(3) by simp
qed

lemma bucket_eq_div:
  assumes "i < d"
  shows "bucket d a i = bucket d b i \<longleftrightarrow> a div 2 ^ (d - 1 - i) = b div 2 ^ (d - 1 - i)"
  using assms by (simp add: bucket_split)

lemma div_eq_bits: "(a::nat) div 2 ^ e = b div 2 ^ e \<longleftrightarrow> (\<forall>k \<ge> e. bit a k = bit b k)"
proof
  assume eq: "a div 2 ^ e = b div 2 ^ e"
  show "\<forall>k \<ge> e. bit a k = bit b k"
  proof (intro allI impI)
    fix k assume "e \<le> k"
    then have "bit x k = bit (x div 2 ^ e) (k - e)" for x :: nat
      by (simp add: bit_iff_odd div_mult2_eq [symmetric] power_add [symmetric])
    then show "bit a k = bit b k" using eq by simp
  qed
next
  assume *: "\<forall>k \<ge> e. bit a k = bit b k"
  show "a div 2 ^ e = b div 2 ^ e"
  proof (rule bit_eqI)
    fix n
    have "bit (x div 2 ^ e) n = bit x (n + e)" for x :: nat
      by (simp add: bit_iff_odd div_mult2_eq [symmetric] power_add [symmetric] add.commute)
    then show "bit (a div 2 ^ e) n = bit (b div 2 ^ e) n" using * by simp
  qed
qed

lemma bit_of_nat_32: "bit (of_nat a :: 32 word) k \<longleftrightarrow> k < 32 \<and> bit a k"
  by (simp add: bit_of_nat_iff)

lemma nat_bit_high: "(a::nat) < 2 ^ n \<Longrightarrow> n \<le> k \<Longrightarrow> \<not> bit a k"
proof -
  assume "a < 2 ^ n" "n \<le> k"
  then have "a < 2 ^ k" using power_increasing [of n k "2::nat"] by (simp only: less_le_trans one_le_numeral)
  then show ?thesis by (simp add: bit_iff_odd)
qed

lemma shared_bits_bucket:
  assumes "d \<le> 32" "a < 2 ^ (d - 1)" "b < 2 ^ (d - 1)" "i < d"
  shows "shared_bits d (of_nat a) (of_nat b) i \<longleftrightarrow> bucket d a i = bucket d b i"
proof -
  have "shared_bits d (of_nat a) (of_nat b) i \<longleftrightarrow> (\<forall>j \<le> i. bit a (d - 1 - j) = bit b (d - 1 - j))"
    using assms(1,4) by (auto simp: shared_bits_def bit_of_nat_32)
  also have "\<dots> \<longleftrightarrow> (\<forall>k \<ge> d - 1 - i. bit a k = bit b k)"
  proof
    assume *: "\<forall>j \<le> i. bit a (d - 1 - j) = bit b (d - 1 - j)"
    show "\<forall>k \<ge> d - 1 - i. bit a k = bit b k"
    proof (intro allI impI)
      fix k assume "d - 1 - i \<le> k"
      then show "bit a k = bit b k"
        using * [rule_format, of "d - 1 - k"] nat_bit_high [OF assms(2), of k] nat_bit_high [OF assms(3), of k] assms(4)
        by (cases "k < d - 1") auto
    qed
  qed auto
  finally show ?thesis using assms(4) by (simp add: bucket_eq_div div_eq_bits)
qed

lemma path_bucket_eq:
  assumes "d \<le> 32" "leaf < 2 ^ (d - 1)"
  shows "i < d \<Longrightarrow> path_bucket (unat (bitwiseReverse (of_nat leaf) (d - 1))) i = bucket d leaf i"
proof (induction i)
  case 0
  then show ?case using assms(2) by (simp add: bucket_split)
next
  case (Suc i)
  let ?w = "bitwiseReverse (of_nat leaf) (d - 1)" let ?e = "d - 1 - Suc i"
  have e: "d - 1 - i = Suc ?e" "d - 1 - 1 - i = ?e" using Suc.prems by auto
  have "(unat ?w div 2 ^ i) mod 2 = of_bool (bit (unat ?w) i)"
    by (simp add: bit_iff_odd mod_2_eq_odd)
  also have "bit (unat ?w) i = bit ?w i" by (simp add: bit_unsigned_iff)
  also have "\<dots> = bit leaf ?e"
    using Suc.prems assms(1) e(2) by (auto simp: bit_bitwiseReverse bit_of_nat_32)
  finally have pd: "(unat ?w div 2 ^ i) mod 2 = of_bool (bit leaf ?e)" .
  have "leaf div 2 ^ ?e = 2 * (leaf div 2 ^ Suc ?e) + of_bool (bit leaf ?e)"
    unfolding bit_iff_odd power_Suc2 div_mult2_eq mod_2_eq_odd [symmetric] by simp
  then show ?case using Suc pd e by (simp add: bucket_split)
qed

lemma slot_bounds:
  assumes "leaf < 2 ^ (d - 1)" "k < d * Z"
  shows "slot d Z leaf k < 2 ^ d * Z"
proof -
  have Z: "0 < Z" using assms(2) by (cases Z) auto
  then have "k div Z < d" using assms(2) by (simp add: less_mult_imp_div_less)
  then have "bucket d leaf (k div Z) < 2 ^ d" using assms(1) by (rule bucket_bounds)
  then show ?thesis unfolding slot_def using Z by simp
qed

lemma slot_div: "0 < Z \<Longrightarrow> slot d Z leaf k div Z = bucket d leaf (k div Z)"
  by (simp add: slot_def)

lemma slot_inj:
  assumes "leaf < 2 ^ (d - 1)" "j < d * Z" "k < d * Z" "slot d Z leaf j = slot d Z leaf k"
  shows "j = k"
proof -
  have Z: "0 < Z" using assms(2) by (cases Z) auto
  have "bucket d leaf (j div Z) = bucket d leaf (k div Z)"
    using assms(4) slot_div [OF Z] by metis
  moreover have "j div Z < d" "k div Z < d" using assms(2,3) Z by (auto simp: less_mult_imp_div_less)
  ultimately have "j div Z = k div Z" using bucket_level assms(1) by blast
  moreover from this have "j mod Z = k mod Z" using assms(4) by (simp add: slot_def)
  ultimately show ?thesis by (metis div_mult_mod_eq)
qed

lemma slot_ex:
  assumes "0 < Z" "i < d" "p div Z = bucket d leaf i"
  shows "\<exists>k < d * Z. p = slot d Z leaf k"
proof -
  have "p = slot d Z leaf (i * Z + p mod Z)" using assms by (simp add: slot_def assms(3) [symmetric])
  moreover have "i * Z + p mod Z < d * Z" using assms by simp
  ultimately show ?thesis by blast
qed

section \<open>The level that PushBack returns\<close>

lemma open_levels_buckets:
  assumes "d \<le> 32" "a < 2 ^ (d - 1)" "b < 2 ^ (d - 1)"
  shows "open_levels Z d (of_nat a) (of_nat b) occ =
    {i. i < d \<and> bucket d a i = bucket d b i \<and> occ ! i \<noteq> int Z}"
  using shared_bits_bucket [OF assms] by (auto simp: open_levels_def)

lemma PushBack_in_range:
  assumes d: "1 \<le> d" "d \<le> 32" and "length occ = d" "a < 2 ^ (d - 1)"
  shows "\<exists>lev. PushBack Z (of_nat a) w occ d = Some lev \<and> -1 \<le> lev \<and> lev < int d \<and>
    (0 \<le> lev \<longrightarrow> occ ! nat lev \<noteq> int Z) \<and>
    (\<forall>b < 2 ^ (d - 1). w = of_nat b \<longrightarrow> 0 \<le> lev \<longrightarrow> bucket d a (nat lev) = bucket d b (nat lev))"
proof -
  let ?O = "open_levels Z d (of_nat a) w occ"
  have fin: "finite ?O" by (simp add: open_levels_def)
  define lev where "lev = (if bit (of_nat a :: 32 word) (d - 1) \<noteq> bit w (d - 1) \<and> occ ! 0 < int Z then 0
          else if ?O = {} then -1 else int (Max ?O))"
  have P: "PushBack Z (of_nat a) w occ d = Some lev"
    unfolding lev_def by (rule PushBack_value [OF d assms(3)])
  have M: "Max ?O < d" "occ ! Max ?O \<noteq> int Z" if "?O \<noteq> {}"
    using Max_in [OF fin that] by (auto simp: open_levels_def)
  have "bucket d a (nat lev) = bucket d b (nat lev)" if b: "b < 2 ^ (d - 1)" "w = of_nat b" "0 \<le> lev" for b
  proof -
    have "\<not> bit (of_nat a :: 32 word) (d - 1)" "\<not> bit w (d - 1)"
      using nat_bit_high [OF assms(4) order.refl] nat_bit_high [OF b(1) order.refl] b(2)
      by (simp_all add: bit_of_nat_32)
    then have "?O \<noteq> {}" "nat lev = Max ?O" using b(3) by (auto simp: lev_def split: if_splits)
    then have "nat lev \<in> ?O" using Max_in [OF fin] by simp
    then show ?thesis using open_levels_buckets [OF d(2) assms(4) b(1)] b(2) by auto
  qed
  moreover have "-1 \<le> lev" "lev < int d" "0 \<le> lev \<longrightarrow> occ ! nat lev \<noteq> int Z"
    using M d by (auto simp: lev_def)
  ultimately show ?thesis using P by blast
qed

text \<open>
  C2: \<^verbatim>\<open>PushBack\<close> returns the deepest level on which the path of a block's leaf and the
  accessed path go through the same bucket and the bucket still has room, and -1 when there is
  no such level; for all leaf labels of a tree with at most 32 levels.
\<close>

theorem PushBack_deepest:
  assumes "1 \<le> d" "d \<le> 32" "length occ = d" "a < 2 ^ (d - 1)" "b < 2 ^ (d - 1)"
  shows "PushBack Z (of_nat a) (of_nat b) occ d =
    (let levels = {i. i < d \<and> bucket d a i = bucket d b i \<and> occ ! i \<noteq> int Z}
     in Some (if levels = {} then -1 else int (Max levels)))"
proof -
  have "\<not> bit (of_nat a :: 32 word) (d - 1)" "\<not> bit (of_nat b :: 32 word) (d - 1)"
    using nat_bit_high [OF assms(4) order.refl] nat_bit_high [OF assms(5) order.refl]
    by (simp_all add: bit_of_nat_32)
  then show ?thesis
    using PushBack_value [OF assms(1-3), of Z "of_nat a" "of_nat b"]
    unfolding open_levels_buckets [OF assms(2,4,5)] Let_def by simp
qed

theorem PushBack_deepest_witness:
  "PushBack 4 (of_nat 1) (of_nat 3) [0, 2, 4] 3 =
    (let levels = {i. i < 3 \<and> bucket 3 1 i = bucket 3 3 i \<and> [0, 2, 4] ! i \<noteq> int 4}
     in Some (if levels = {} then -1 else int (Max levels)))"
  by (rule PushBack_deepest) simp_all

end
