(* ===== verification/PathOramBlocks.thy ===== *)
theory PathOramBlocks
  imports PathOramLevel
begin

text \<open>
  The Path ORAM seen as lists of blocks. The flat word arrays of the C state are encodings of a
  list \<open>T\<close> of tree blocks and a list \<open>S\<close> of stash entries; this theory computes what each loop of
  \<^verbatim>\<open>path_oram.c\<close> does to these lists.
\<close>

section \<open>Encoding\<close>

record sblock =
  b_valid :: int
  b_id :: int
  b_leaf :: int
  b_dat :: "int list"

type_synonym entry = "int \<times> sblock"

definition blk_words :: "sblock \<Rightarrow> int list" where
  "blk_words b = [b_valid b, b_id b, b_leaf b] @ b_dat b"

definition info_of :: "entry \<Rightarrow> int list" where
  "info_of e = [fst e, b_valid (snd e), b_id (snd e), b_leaf (snd e)]"

definition dat_of :: "entry \<Rightarrow> int list" where
  "dat_of e = b_dat (snd e)"

definition ok_tree :: "nat \<Rightarrow> sblock list \<Rightarrow> bool" where
  "ok_tree B T \<longleftrightarrow> (\<forall>b \<in> set T. length (b_dat b) = B)"

definition ok_stash :: "nat \<Rightarrow> entry list \<Rightarrow> bool" where
  "ok_stash B S \<longleftrightarrow> (\<forall>e \<in> set S. length (b_dat (snd e)) = B)"

definition mem_of :: "sblock list \<times> entry list \<Rightarrow> int list \<times> int list \<times> int list" where
  "mem_of = (\<lambda>(T, S). (concat (map blk_words T), concat (map info_of S), concat (map dat_of S)))"

lemma uniform_tree [simp]: "ok_tree B T \<Longrightarrow> uniform (3 + B) (map blk_words T)"
  by (auto simp: uniform_def ok_tree_def blk_words_def)

lemma uniform_info [simp]: "uniform 4 (map info_of S)"
  by (auto simp: uniform_def info_of_def)

lemma uniform_dat [simp]: "ok_stash B S \<Longrightarrow> uniform B (map dat_of S)"
  by (auto simp: uniform_def ok_stash_def dat_of_def)

lemma ok_tree_nth: "ok_tree B T \<Longrightarrow> p < length T \<Longrightarrow> length (b_dat (T ! p)) = B"
  by (auto simp: ok_tree_def)

lemma ok_stash_nth: "ok_stash B S \<Longrightarrow> k < length S \<Longrightarrow> length (b_dat (snd (S ! k))) = B"
  by (auto simp: ok_stash_def)

lemma ok_tree_update: "ok_tree B T \<Longrightarrow> length (b_dat b) = B \<Longrightarrow> ok_tree B (T[p := b])"
  unfolding ok_tree_def using set_update_subset_insert [of T p b] by blast

lemma ok_stash_update: "ok_stash B S \<Longrightarrow> length (b_dat (snd e)) = B \<Longrightarrow> ok_stash B (S[k := e])"
  unfolding ok_stash_def using set_update_subset_insert [of S k e] by blast

section \<open>Words of blocks\<close>

lemma rd_block: "uniform n W \<Longrightarrow> i < length W \<Longrightarrow> f < n \<Longrightarrow> rd (concat W) (i * n + f) = Some (W ! i ! f)"
  by (simp add: rd_def concat_nth_block)

lemma wr_block:
  "uniform n W \<Longrightarrow> i < length W \<Longrightarrow> f < n \<Longrightarrow>
     wr (concat W) (i * n + f) v = Some (concat (W[i := (W ! i)[f := v]]))"
  by (simp add: wr_def concat_update_block)

text \<open>The four fields of a stash entry, at the indices the simplifier leaves.\<close>

lemma rd_info:
  assumes "uniform 4 W" "i < length W"
  shows "rd (concat W) (i * 4) = Some (W ! i ! 0)" "rd (concat W) (Suc (i * 4)) = Some (W ! i ! 1)"
    "rd (concat W) (Suc (Suc (i * 4))) = Some (W ! i ! 2)" "rd (concat W) (i * 4 + 3) = Some (W ! i ! 3)"
  using rd_block [OF assms, of 0] rd_block [OF assms, of 1] rd_block [OF assms, of 2]
    rd_block [OF assms, of 3] by simp_all

lemma wr_info:
  assumes "uniform 4 W" "i < length W"
  shows "wr (concat W) (i * 4) v = Some (concat (W[i := (W ! i)[0 := v]]))"
    "wr (concat W) (Suc (i * 4)) v = Some (concat (W[i := (W ! i)[1 := v]]))"
    "wr (concat W) (Suc (Suc (i * 4))) v = Some (concat (W[i := (W ! i)[2 := v]]))"
    "wr (concat W) (i * 4 + 3) v = Some (concat (W[i := (W ! i)[3 := v]]))"
  using wr_block [OF assms, of 0] wr_block [OF assms, of 1] wr_block [OF assms, of 2]
    wr_block [OF assms, of 3] by simp_all

text \<open>Copying words into the middle of a block.\<close>

lemma copy_into_block:
  assumes u: "uniform n D" and k: "k < length D" and x: "off + length x \<le> n"
    and src: "\<And>h. h < length x \<Longrightarrow> rd src (so + h) = Some (x ! h)"
  shows "for_loop 0 (length x) (\<lambda>h d. do { v \<leftarrow> rd src (so + h); wr d (k * n + off + h) v }) (concat D) =
    Some (concat (D[k := take off (D ! k) @ x @ drop (off + length x) (D ! k)]))"
proof -
  let ?b = "\<lambda>h. take off (D ! k) @ take h x @ drop (off + h) (D ! k)"
  have len: "length (?b h) = n" if "h \<le> length x" for h using that u k x by simp
  have "for_loop 0 (length x) (\<lambda>h d. do { v \<leftarrow> rd src (so + h); wr d (k * n + off + h) v }) (concat D) =
      Some (concat (D[k := ?b (length x)]))"
  proof (rule for_loop_eq [where g = "\<lambda>h. concat (D[k := ?b h])"])
    show "concat D = concat (D[k := ?b 0])" using k by simp
    fix h assume h: "h < length x"
    have ub: "uniform n (D[k := ?b h])" using u len [of h] h by simp
    have "(?b h)[off + h := x ! h] = ?b (Suc h)"
      using h u k x by (simp add: list_update_append take_Suc_conv_app_nth Cons_nth_drop_Suc [symmetric])
    then have "wr (concat (D[k := ?b h])) (k * n + (off + h)) (x ! h) = Some (concat (D[k := ?b (Suc h)]))"
      using wr_block [OF ub, of k "off + h" "x ! h"] k h x by simp
    then show "(do { v \<leftarrow> rd src (so + h); wr (concat (D[k := ?b h])) (k * n + off + h) v }) =
        Some (concat (D[k := ?b (Suc h)]))"
      using src [OF h] by (simp add: add.assoc)
  qed simp
  then show ?thesis by simp
qed

section \<open>One block moves\<close>

definition fetch1 :: "nat \<Rightarrow> nat \<Rightarrow> sblock list \<times> entry list \<Rightarrow> sblock list \<times> entry list" where
  "fetch1 p k = (\<lambda>(T, S). (T[p := (T ! p)\<lparr>b_valid := 0\<rparr>], S[k := (fst (S ! k), T ! p)]))"

definition store1 :: "nat \<Rightarrow> nat \<Rightarrow> sblock list \<times> entry list \<Rightarrow> sblock list \<times> entry list" where
  "store1 p k = (\<lambda>(T, S). (T[p := snd (S ! k)], S[k := (fst (S ! k), (snd (S ! k))\<lparr>b_valid := 0\<rparr>)]))"

lemma rd_tree:
  assumes "uniform (3 + B) W" "p < length W"
  shows "rd (concat W) (p * (3 + B)) = Some (W ! p ! 0)"
    "rd (concat W) (p * (3 + B) + 1) = Some (W ! p ! 1)"
    "rd (concat W) (p * (3 + B) + 2) = Some (W ! p ! 2)"
  using rd_block [OF assms, of 0] rd_block [OF assms, of 1] rd_block [OF assms, of 2] by simp_all

lemma wr_tree:
  assumes "uniform (3 + B) W" "p < length W"
  shows "wr (concat W) (p * (3 + B)) v = Some (concat (W[p := (W ! p)[0 := v]]))"
    "wr (concat W) (p * (3 + B) + 1) v = Some (concat (W[p := (W ! p)[1 := v]]))"
    "wr (concat W) (p * (3 + B) + 2) v = Some (concat (W[p := (W ! p)[2 := v]]))"
  using wr_block [OF assms, of 0] wr_block [OF assms, of 1] wr_block [OF assms, of 2] by simp_all

lemma Fetch_one_eq:
  assumes T: "ok_tree B T" "p < length T" and S: "ok_stash B S" "k < length S"
  shows "Fetch_one B (p * (head_words + B)) k (mem_of (T, S)) = Some (mem_of (fetch1 p k (T, S)))"
proof -
  let ?W = "map blk_words T" and ?I = "map info_of S" and ?D = "map dat_of S"
  let ?b = "T ! p" let ?W' = "?W[p := (?W ! p)[0 := 0]]"
  have W: "uniform (3 + B) ?W" "p < length ?W" using T by simp_all
  have W': "uniform (3 + B) ?W'"
    by (rule uniform_update [OF W(1)]) (simp only: length_list_update uniform_nth [OF W])
  have I: "uniform 4 ?I" "k < length ?I" using S by simp_all
  have cp: "for_loop 0 B (\<lambda>h data. do { x \<leftarrow> rd (concat ?W') (p * (3 + B) + 3 + h); wr data (k * B + h) x })
      (concat ?D) = Some (concat (?D[k := b_dat ?b]))"
  proof -
    have "rd (concat ?W') (p * (3 + B) + 3 + h) = Some (b_dat ?b ! h)" if "h < length (b_dat ?b)" for h
      using rd_block [OF W', of p "3 + h"] T that ok_tree_nth [OF T]
      by (simp add: add.assoc blk_words_def)
    then show ?thesis
      using copy_into_block [of B ?D k 0 "b_dat ?b" "concat ?W'" "p * (3 + B) + 3"] S ok_tree_nth [OF T]
        ok_stash_nth [OF S] by (simp add: dat_of_def)
  qed
  have i1: "rd (concat ?W) (p * (3 + B)) = Some (b_valid ?b)" "rd (concat ?W) (p * (3 + B) + 1) = Some (b_id ?b)"
    "rd (concat ?W) (p * (3 + B) + 2) = Some (b_leaf ?b)"
    using rd_tree [OF W] T by (simp_all add: blk_words_def)
  have "Fetch_one B (p * (3 + B)) k (concat ?W, concat ?I, concat ?D) =
      Some (concat ?W', concat (?I[k := [fst (S ! k), b_valid ?b, b_id ?b, b_leaf ?b]]), concat (?D[k := b_dat ?b]))"
    unfolding Fetch_one_def prod.case i1 
    by (simp add: wr_info I wr_tree(1) [OF W] cp [unfolded] S info_of_def del: wr_ok rd_ok)
  then show ?thesis
    using T S by (simp add: mem_of_def fetch1_def map_update info_of_def dat_of_def blk_words_def)
qed

lemma Store_one_eq:
  assumes T: "ok_tree B T" "p < length T" and S: "ok_stash B S" "k < length S"
  shows "Store_one B (p * (head_words + B)) k (mem_of (T, S)) = Some (mem_of (store1 p k (T, S)))"
proof -
  let ?W = "map blk_words T" and ?I = "map info_of S" and ?D = "map dat_of S"
  let ?b = "snd (S ! k)"
  let ?W' = "?W[p := [b_valid ?b, b_id ?b, b_leaf ?b] @ b_dat (T ! p)]"
  have W: "uniform (3 + B) ?W" "p < length ?W" using T by simp_all
  have W': "uniform (3 + B) ?W'"
    using ok_tree_nth [OF T] by (intro uniform_update [OF W(1)]) simp
  have I: "uniform 4 ?I" "k < length ?I" using S by simp_all
  have heads: "(do {
      oram \<leftarrow> wr (concat ?W) (p * (3 + B)) (b_valid ?b);
      oram \<leftarrow> wr oram (p * (3 + B) + 1) (b_id ?b);
      wr oram (p * (3 + B) + 2) (b_leaf ?b) }) = Some (concat ?W')"
  proof -
    let ?w = "blk_words (T ! p)"
    have l: "length ?w = 3 + B" using ok_tree_nth [OF T] by (simp add: blk_words_def)
    have u: "uniform (3 + B) (?W[p := w])" if "length w = 3 + B" for w
      using that by (intro uniform_update [OF W(1)])
    show ?thesis
      using wr_tree(1) [OF W, of "b_valid ?b"] wr_tree(2) [OF u [of "?w[0 := b_valid ?b]"], of p "b_id ?b"]
        wr_tree(3) [OF u [of "?w[0 := b_valid ?b, 1 := b_id ?b]"], of p "b_leaf ?b"] T l
      by (simp add: blk_words_def numeral_2_eq_2)
  qed
  have cp: "for_loop 0 B (\<lambda>h oram. do { x \<leftarrow> rd (concat ?D) (k * B + h); wr oram (p * (3 + B) + 3 + h) x })
      (concat ?W') = Some (concat (?W[p := [b_valid ?b, b_id ?b, b_leaf ?b] @ b_dat ?b]))"
  proof -
    have "rd (concat ?D) (k * B + h) = Some (b_dat ?b ! h)" if "h < length (b_dat ?b)" for h
      using rd_block [of B ?D k h] S that ok_stash_nth [OF S] by (simp add: dat_of_def)
    then show ?thesis
      using copy_into_block [OF W', of p 3 "b_dat ?b" "concat ?D" "k * B"] T ok_stash_nth [OF S]
        ok_tree_nth [OF T] by simp
  qed
  have "Store_one B (p * (3 + B)) k (concat ?W, concat ?I, concat ?D) =
      Some (concat (?W[p := [b_valid ?b, b_id ?b, b_leaf ?b] @ b_dat ?b]),
        concat (?I[k := [fst (S ! k), 0, b_id ?b, b_leaf ?b]]), concat ?D)"
    using heads cp unfolding Store_one_def prod.case
    by (simp add: rd_info [OF I] wr_info [OF I] S info_of_def bind_eq_Some_conv del: wr_ok rd_ok) blast
  moreover have "(map dat_of S)[k := b_dat ?b] = map dat_of S"
    using S by (metis dat_of_def list_update_id nth_map)
  ultimately show ?thesis
    using T S by (simp add: mem_of_def store1_def map_update info_of_def dat_of_def blk_words_def)
qed

section \<open>Walking a path\<close>

text \<open>
  The nested loops of \<^verbatim>\<open>Fetch_Blocks\<close> and \<^verbatim>\<open>Store_Blocks\<close> visit the slots of the path in
  order; \<open>G q\<close> is the memory after \<open>q\<close> slots.
\<close>

lemma path_loop:
  fixes G :: "nat \<Rightarrow> 'x \<times> 'y \<times> 'z"
  assumes d: "d \<le> 32" and a: "a < 2 ^ (d - 1)" and pd: "pd = unat (bitwiseReverse (of_nat a) (d - 1))"
    and step: "\<And>q. q < d * Z \<Longrightarrow> one (slot d Z a q * w) q (G q) = Some (G (Suc q))"
  shows "for_loop 0 d (\<lambda>i (oram, info, data, stash_idx, bucket_idx, path_dir). do {
         (oram, info, data, stash_idx) \<leftarrow>
           for_loop 0 Z (\<lambda>j (oram, info, data, stash_idx). do {
             (oram, info, data) \<leftarrow> one ((bucket_idx * Z + j) * w) stash_idx (oram, info, data);
             Some (oram, info, data, Suc stash_idx) }) (oram, info, data, stash_idx);
         Some (oram, info, data, stash_idx, bucket_idx * 2 + path_dir mod 2, path_dir div 2) })
       (case G 0 of (oram, info, data) \<Rightarrow> (oram, info, data, 0, 1, pd))
     = Some (case G (d * Z) of (oram, info, data) \<Rightarrow>
         (oram, info, data, d * Z, path_bucket pd d, pd div 2 ^ d))"
proof (rule for_loop_eq [where g = "\<lambda>i. case G (i * Z) of (oram, info, data) \<Rightarrow>
      (oram, info, data, i * Z, path_bucket pd i, pd div 2 ^ i)"], goal_cases)
  case (3 i)
  have inner: "for_loop 0 Z (\<lambda>j (oram, info, data, stash_idx). do {
             (oram, info, data) \<leftarrow> one ((path_bucket pd i * Z + j) * w) stash_idx (oram, info, data);
             Some (oram, info, data, Suc stash_idx) })
           (case G (i * Z) of (oram, info, data) \<Rightarrow> (oram, info, data, i * Z))
     = Some (case G (i * Z + Z) of (oram, info, data) \<Rightarrow> (oram, info, data, i * Z + Z))"
  proof (rule for_loop_eq [where g = "\<lambda>j. case G (i * Z + j) of (oram, info, data) \<Rightarrow>
        (oram, info, data, i * Z + j)"], goal_cases)
    case (3 j)
    have sl: "slot d Z a (i * Z + j) = path_bucket pd i * Z + j"
      unfolding pd path_bucket_eq [OF d a \<open>i < d\<close>] using \<open>j < Z\<close> by (simp add: slot_def)
    have "i * Z + j < d * Z" using \<open>i < d\<close> \<open>j < Z\<close> by simp
    from step [OF this] show ?case unfolding sl
      by (cases "G (i * Z + j)"; cases "G (Suc (i * Z + j))") simp
  qed simp_all
  have "pd div 2 ^ i div 2 = pd div 2 ^ Suc i" by (simp add: div_mult2_eq [symmetric] mult.commute)
  with inner show ?case
    by (cases "G (i * Z)"; cases "G (i * Z + Z)") (simp add: add.commute)
qed (simp_all split: prod.split)

definition fetch_path :: "nat \<Rightarrow> nat \<Rightarrow> nat \<Rightarrow> nat \<Rightarrow> sblock list \<times> entry list \<Rightarrow> sblock list \<times> entry list" where
  "fetch_path d Z a q TS = fold (\<lambda>k. fetch1 (slot d Z a k) k) [0..<q] TS"

definition store_path :: "nat \<Rightarrow> nat \<Rightarrow> nat \<Rightarrow> nat \<Rightarrow> sblock list \<times> entry list \<Rightarrow> sblock list \<times> entry list" where
  "store_path d Z a q TS = fold (\<lambda>k. store1 (slot d Z a k) k) [0..<q] TS"

definition ok_mem :: "nat \<Rightarrow> nat \<Rightarrow> nat \<Rightarrow> sblock list \<times> entry list \<Rightarrow> bool" where
  "ok_mem B n m = (\<lambda>(T, S). ok_tree B T \<and> ok_stash B S \<and> length T = n \<and> length S = m)"

lemma ok_mem_fetch1: "ok_mem B n m TS \<Longrightarrow> p < n \<Longrightarrow> k < m \<Longrightarrow> ok_mem B n m (fetch1 p k TS)"
  by (cases TS) (auto simp: ok_mem_def fetch1_def ok_tree_nth intro!: ok_tree_update ok_stash_update)

lemma ok_mem_store1: "ok_mem B n m TS \<Longrightarrow> p < n \<Longrightarrow> k < m \<Longrightarrow> ok_mem B n m (store1 p k TS)"
  by (cases TS) (auto simp: ok_mem_def store1_def ok_stash_nth intro!: ok_tree_update ok_stash_update)

lemma ok_mem_fetch_path:
  assumes "ok_mem B (2 ^ d * Z) m TS" "a < 2 ^ (d - 1)" "d * Z \<le> m"
  shows "q \<le> d * Z \<Longrightarrow> ok_mem B (2 ^ d * Z) m (fetch_path d Z a q TS)"
  by (induction q) (use assms in \<open>auto simp: fetch_path_def intro!: ok_mem_fetch1 slot_bounds\<close>)

lemma ok_mem_store_path:
  assumes "ok_mem B (2 ^ d * Z) m TS" "a < 2 ^ (d - 1)" "d * Z \<le> m"
  shows "q \<le> d * Z \<Longrightarrow> ok_mem B (2 ^ d * Z) m (store_path d Z a q TS)"
  by (induction q) (use assms in \<open>auto simp: store_path_def intro!: ok_mem_store1 slot_bounds\<close>)

text \<open>A state whose memory is given by blocks.\<close>

definition with_mem :: "oram \<Rightarrow> sblock list \<times> entry list \<Rightarrow> oram" where
  "with_mem s TS = (case mem_of TS of (t, i, x) \<Rightarrow> s\<lparr>tree_oram := t, stash_info := i, stash_data := x\<rparr>)"

lemma with_mem_simps [simp]:
  "block_size (with_mem s TS) = block_size s" "bucket_size (with_mem s TS) = bucket_size s"
  "num_leaves (with_mem s TS) = num_leaves s" "num_buckets (with_mem s TS) = num_buckets s"
  "pos_map_size (with_mem s TS) = pos_map_size s"
  "pos_map_entries (with_mem s TS) = pos_map_entries s" "stash_size (with_mem s TS) = stash_size s"
  "tree_depth (with_mem s TS) = tree_depth s" "wb_path (with_mem s TS) = wb_path s"
  "occupied (with_mem s TS) = occupied s" "store_sort_func (with_mem s TS) = store_sort_func s"
  by (simp_all add: with_mem_def split: prod.split)

lemma with_mem_mem:
  "(tree_oram (with_mem s TS), stash_info (with_mem s TS), stash_data (with_mem s TS)) = mem_of TS"
  by (simp add: with_mem_def split: prod.split)

lemma Fetch_path_eq:
  assumes "tree_depth s \<le> 32" "a < 2 ^ (tree_depth s - 1)"
    and "ok_mem (block_size s) (2 ^ tree_depth s * bucket_size s) m TS"
    and "tree_depth s * bucket_size s \<le> m"
  shows "Fetch_path (int a) (with_mem s TS) =
    Some (with_mem s (fetch_path (tree_depth s) (bucket_size s) a (tree_depth s * bucket_size s) TS))"
proof -
  let ?d = "tree_depth s" and ?Z = "bucket_size s" and ?B = "block_size s"
  let ?G = "\<lambda>q. mem_of (fetch_path ?d ?Z a q TS)"
  have step: "Fetch_one ?B (slot ?d ?Z a q * (3 + ?B)) q (?G q) = Some (?G (Suc q))" if q: "q < ?d * ?Z" for q
  proof -
    obtain T S where TS: "fetch_path ?d ?Z a q TS = (T, S)" by fastforce
    have "ok_mem ?B (2 ^ ?d * ?Z) m (T, S)" using ok_mem_fetch_path [OF assms(3,2,4), of q] q TS by simp
    then have "Fetch_one ?B (slot ?d ?Z a q * (3 + ?B)) q (mem_of (T, S)) = Some (mem_of (fetch1 (slot ?d ?Z a q) q (T, S)))"
      using slot_bounds [OF assms(2) q] q assms(4) by (intro Fetch_one_eq) (auto simp: ok_mem_def)
    then show ?thesis using TS by (simp add: fetch_path_def)
  qed
  note loop = path_loop [where one = "Fetch_one ?B" and w = "3 + ?B" and Z = ?Z and G = ?G, OF assms(1,2) refl step]
  show ?thesis using loop
    unfolding Fetch_path_def Let_def
    by (cases "mem_of TS"; cases "?G (?d * ?Z)")
      (simp add: with_mem_def fetch_path_def)
qed

lemma Store_path_eq:
  assumes "tree_depth s \<le> 32" "a < 2 ^ (tree_depth s - 1)"
    and "ok_mem (block_size s) (2 ^ tree_depth s * bucket_size s) m TS"
    and "tree_depth s * bucket_size s \<le> m"
  shows "Store_path (int a) (with_mem s TS) =
    Some (with_mem s (store_path (tree_depth s) (bucket_size s) a (tree_depth s * bucket_size s) TS))"
proof -
  let ?d = "tree_depth s" and ?Z = "bucket_size s" and ?B = "block_size s"
  let ?G = "\<lambda>q. mem_of (store_path ?d ?Z a q TS)"
  have step: "Store_one ?B (slot ?d ?Z a q * (3 + ?B)) q (?G q) = Some (?G (Suc q))" if q: "q < ?d * ?Z" for q
  proof -
    obtain T S where TS: "store_path ?d ?Z a q TS = (T, S)" by fastforce
    have "ok_mem ?B (2 ^ ?d * ?Z) m (T, S)" using ok_mem_store_path [OF assms(3,2,4), of q] q TS by simp
    then have "Store_one ?B (slot ?d ?Z a q * (3 + ?B)) q (mem_of (T, S)) = Some (mem_of (store1 (slot ?d ?Z a q) q (T, S)))"
      using slot_bounds [OF assms(2) q] q assms(4) by (intro Store_one_eq) (auto simp: ok_mem_def)
    then show ?thesis using TS by (simp add: store_path_def)
  qed
  note loop = path_loop [where one = "Store_one ?B" and w = "3 + ?B" and Z = ?Z and G = ?G, OF assms(1,2) refl step]
  show ?thesis using loop
    unfolding Store_path_def Let_def
    by (cases "mem_of TS"; cases "?G (?d * ?Z)")
      (simp add: with_mem_def store_path_def)
qed

end
