(* ===== verification/PathOramLoops.thy ===== *)
theory PathOramLoops
  imports PathOramBlocks
begin

text \<open>
  The loops over the whole stash: the read or write of the accessed block in
  \<^verbatim>\<open>Fetch_Blocks\<close> and the two loops of \<^verbatim>\<open>Store_Blocks\<close> that choose the sort keys.
\<close>

section \<open>Reading and writing the accessed block\<close>

definition id_matches :: "int \<Rightarrow> sblock \<Rightarrow> bool" where
  "id_matches bid b \<longleftrightarrow> b_id b = bid \<and> b_valid b \<noteq> 0"

definition upd_block :: "int \<Rightarrow> int \<Rightarrow> int \<Rightarrow> int list \<Rightarrow> bool \<Rightarrow> sblock \<Rightarrow> sblock" where
  "upd_block op bid nl dp new b =
     (if new then \<lparr>b_valid = 1, b_id = bid, b_leaf = nl, b_dat = dp\<rparr>
      else if id_matches bid b then b\<lparr>b_leaf := nl, b_dat := (if op = WRITE then dp else b_dat b)\<rparr>
      else b)"

lemma Access_entry_eq:
  fixes bid nl ifnew dw :: int
  assumes i: "i < length S" and S: "ok_stash B S" and dp: "length dp = B" and op: "op = READ \<or> op = WRITE"
  defines "b \<equiv> snd (S ! i)"
  defines "dp' \<equiv> (if id_matches bid b \<and> op = READ then b_dat b else dp)"
  defines "new \<equiv> (ifnew \<noteq> 0 \<and> b_valid b = 0 \<and> dw = 0)"
  shows "Access_entry B op bid nl ifnew i (concat (map info_of S), concat (map dat_of S), dp, dw) =
    (let S' = S[i := (fst (S ! i), upd_block op bid nl dp' new b)]
     in Some (concat (map info_of S'), concat (map dat_of S'), dp', of_bool (dw \<noteq> 0 \<or> new)))"
proof -
  let ?I = "map info_of S" and ?D = "map dat_of S"
  let ?m = "id_matches bid b"
  have I: "uniform 4 ?I" "i < length ?I" using i by simp_all
  have D: "uniform B ?D" "i < length ?D" using i S by simp_all
  have Ii: "?I ! i = [fst (S ! i), b_valid b, b_id b, b_leaf b]" using i by (simp add: info_of_def b_def)
  have Di: "?D ! i = b_dat b" using i by (simp add: dat_of_def b_def)
  have lb: "length (b_dat b) = B" using ok_stash_nth [OF S i] by (simp add: b_def)
  have ldp': "length dp' = B" using dp lb by (simp add: dp'_def)
  have mm: "(b_id b = bid \<and> b_valid b \<noteq> 0) = ?m" by (simp add: id_matches_def)
  have r: "cmovn (of_bool (?m \<and> op = READ)) (concat ?D) (i * B) dp 0 B = Some dp'"
    using cmovn_from_block [OF D dp] Di by (simp add: dp'_def)
  define D1 where "D1 = (if ?m \<and> op = WRITE then ?D[i := dp'] else ?D)"
  have w: "cmovn (of_bool (?m \<and> op = WRITE)) dp' 0 (concat ?D) (i * B) B = Some (concat D1)"
    using cmovn_into_block [OF D ldp'] by (simp add: D1_def)
  have D1: "uniform B D1" "i < length D1" using D ldp' by (auto simp: D1_def)
  define D2 where "D2 = (if new then D1[i := dp'] else D1)"
  have w2: "cmovn (of_bool new) dp' 0 (concat D1) (i * B) B = Some (concat D2)"
    using cmovn_into_block [OF D1 ldp'] by (simp add: D2_def)
  define b' where "b' = upd_block op bid nl dp' new b"
  have D2_eq: "D2 = ?D[i := b_dat b']"
  proof -
    have "?D[i := b_dat b] = ?D" using Di by (metis list_update_id)
    then show ?thesis
      using op by (auto simp: D2_def D1_def b'_def upd_block_def dp'_def READ_def WRITE_def new_def id_matches_def)
  qed
  have I_eq: "?I[i := [fst (S ! i), if new then 1 else b_valid b, if new then bid else b_id b,
      if new then nl else if ?m then nl else b_leaf b]] = ?I[i := info_of (fst (S ! i), b')]"
    by (auto simp: info_of_def b'_def upd_block_def new_def id_matches_def)
  have r': "cmovn (of_bool (b_id b = bid \<and> b_valid b \<noteq> 0 \<and> op = READ)) (concat ?D) (i * B) dp 0 B = Some dp'"
    using r by (simp add: id_matches_def)
  have w': "cmovn (of_bool (b_id b = bid \<and> b_valid b \<noteq> 0 \<and> op = WRITE)) dp' 0 (concat ?D) (i * B) B = Some (concat D1)"
    using w by (simp add: id_matches_def)
  have w2': "cmovn (of_bool (ifnew \<noteq> 0 \<and> b_valid b = 0 \<and> dw = 0)) dp' 0 (concat D1) (i * B) B = Some (concat D2)"
    using w2 by (simp add: new_def)
  have "Access_entry B op bid nl ifnew i (concat ?I, concat ?D, dp, dw) =
      Some (concat (?I[i := [fst (S ! i), cmov (of_bool (ifnew \<noteq> 0 \<and> b_valid b = 0 \<and> dw = 0)) 1 (b_valid b),
          cmov (of_bool (ifnew \<noteq> 0 \<and> b_valid b = 0 \<and> dw = 0)) bid (b_id b),
          cmov (of_bool (ifnew \<noteq> 0 \<and> b_valid b = 0 \<and> dw = 0)) nl
            (cmov (of_bool (b_id b = bid \<and> b_valid b \<noteq> 0)) nl (b_leaf b))]]),
        concat D2, dp', of_bool (dw \<noteq> 0 \<or> ifnew \<noteq> 0 \<and> b_valid b = 0 \<and> dw = 0))"
    unfolding Access_entry_def prod.case Let_def
    by (simp add: rd_info wr_info I i Ii r' w' w2' del: wr_ok rd_ok cmov_simp disj_not1 split del: if_split)
  then have "Access_entry B op bid nl ifnew i (concat ?I, concat ?D, dp, dw) =
      Some (concat (?I[i := [fst (S ! i), if new then 1 else b_valid b, if new then bid else b_id b,
        if new then nl else if ?m then nl else b_leaf b]]), concat D2, dp', of_bool (dw \<noteq> 0 \<or> new))"
    unfolding new_def [symmetric] mm by (cases new; cases ?m) simp_all
  then show ?thesis unfolding Let_def b'_def [symmetric] D2_eq I_eq
    by (simp add: map_update dat_of_def)
qed


text \<open>The loop when exactly one entry matches, and when none does and \<open>f\<close> is the first free one.\<close>

abbreviation stash_mem :: "entry list \<Rightarrow> int list \<Rightarrow> int \<Rightarrow> int list \<times> int list \<times> int list \<times> int" where
  "stash_mem S dp dw \<equiv> (concat (map info_of S), concat (map dat_of S), dp, dw)"

lemma Access_loop_existing:
  assumes S: "ok_stash B S" and dp: "length dp = B" and op: "op = READ \<or> op = WRITE"
    and m: "m < length S" and uniq: "\<And>j. j < length S \<Longrightarrow> id_matches bid (snd (S ! j)) \<longleftrightarrow> j = m"
  defines "dp' \<equiv> (if op = READ then b_dat (snd (S ! m)) else dp)"
  shows "for_loop 0 (length S) (Access_entry B op bid nl 0) (stash_mem S dp 0) =
    Some (stash_mem (S[m := (fst (S ! m), (snd (S ! m))\<lparr>b_leaf := nl, b_dat := dp'\<rparr>)]) dp' 0)"
proof -
  let ?b = "(snd (S ! m))\<lparr>b_leaf := nl, b_dat := dp'\<rparr>"
  let ?S = "\<lambda>i. if m < i then S[m := (fst (S ! m), ?b)] else S"
  let ?dp = "\<lambda>i. if m < i then dp' else dp"
  have "for_loop 0 (length S) (Access_entry B op bid nl 0) (stash_mem S dp 0) =
      Some (stash_mem (?S (length S)) (?dp (length S)) 0)"
  proof (rule for_loop_eq [where g = "\<lambda>i. stash_mem (?S i) (?dp i) 0"])
    fix i assume i: "i < length S"
    have lb: "length (b_dat (snd (S ! m))) = B" by (rule ok_stash_nth [OF S m])
    have Si: "?S i ! i = S ! i" using i by auto
    have ok: "ok_stash B (?S i)" "length (?dp i) = B" "i < length (?S i)"
      using S lb dp i by (auto simp: dp'_def intro!: ok_stash_update)
    note step = Access_entry_eq [OF ok(3,1,2) op, of bid nl 0 0, unfolded Si Let_def]
    show "Access_entry B op bid nl 0 i (stash_mem (?S i) (?dp i) 0) = Some (stash_mem (?S (Suc i)) (?dp (Suc i)) 0)"
    proof (cases "i = m")
      case True
      then show ?thesis using step uniq [OF i] op
        by (auto simp: upd_block_def dp'_def READ_def WRITE_def)
    next
      case False
      have "(?S i)[i := S ! i] = ?S i" using list_update_id [of "?S i" i] unfolding Si .
      then show ?thesis using step uniq [OF i] False by (simp add: upd_block_def less_Suc_eq)
    qed
  qed simp_all
  then show ?thesis using m by simp
qed

lemma Access_loop_new:
  assumes S: "ok_stash B S" and dp: "length dp = B" and op: "op = READ \<or> op = WRITE"
    and none: "\<And>j. j < length S \<Longrightarrow> \<not> id_matches bid (snd (S ! j))"
    and f: "f < length S" "b_valid (snd (S ! f)) = 0" "\<And>j. j < f \<Longrightarrow> b_valid (snd (S ! j)) \<noteq> 0"
  shows "for_loop 0 (length S) (Access_entry B op bid nl 1) (stash_mem S dp 0) =
    Some (stash_mem (S[f := (fst (S ! f), \<lparr>b_valid = 1, b_id = bid, b_leaf = nl, b_dat = dp\<rparr>)]) dp 1)"
proof -
  let ?b = "\<lparr>b_valid = 1, b_id = bid, b_leaf = nl, b_dat = dp\<rparr>"
  let ?S = "\<lambda>i. if f < i then S[f := (fst (S ! f), ?b)] else S"
  have "for_loop 0 (length S) (Access_entry B op bid nl 1) (stash_mem S dp 0) =
      Some (stash_mem (?S (length S)) dp (of_bool (f < length S)))"
  proof (rule for_loop_eq [where g = "\<lambda>i. stash_mem (?S i) dp (of_bool (f < i))"])
    fix i assume i: "i < length S"
    have Si: "?S i ! i = S ! i" using i by auto
    have ok: "ok_stash B (?S i)" "i < length (?S i)"
      using S dp i by (auto intro!: ok_stash_update)
    note step = Access_entry_eq [OF ok(2,1) dp op, of bid nl 1 "of_bool (f < i)", unfolded Si Let_def]
    show "Access_entry B op bid nl 1 i (stash_mem (?S i) dp (of_bool (f < i))) =
        Some (stash_mem (?S (Suc i)) dp (of_bool (f < Suc i)))"
    proof (cases "i = f")
      case True
      then show ?thesis using step none [OF i] f by (simp add: upd_block_def)
    next
      case False
      have "(?S i)[i := S ! i] = ?S i" using list_update_id [of "?S i" i] unfolding Si .
      moreover have "\<not> (b_valid (snd (S ! i)) = 0 \<and> \<not> f < i)" using f(3) [of i] False by (cases "i < f") auto
      moreover have "(f < Suc i) = (f < i)" using False by auto
      ultimately show ?thesis using step none [OF i] by (auto simp: upd_block_def split: if_splits)
    qed
  qed simp_all
  then show ?thesis using f by simp
qed


section \<open>Choosing the sort keys\<close>

text \<open>
  \<open>fits d Z a b l\<close>: level \<open>l\<close> of the accessed path lies on the path of block \<open>b\<close>, if its leaf
  label is one at all (the label of an invalid entry can be anything).
\<close>

definition leaf_ok :: "nat \<Rightarrow> sblock \<Rightarrow> bool" where
  "leaf_ok d b \<longleftrightarrow> 0 \<le> b_leaf b \<and> nat (b_leaf b) < 2 ^ (d - 1)"

definition fits :: "nat \<Rightarrow> nat \<Rightarrow> sblock \<Rightarrow> nat \<Rightarrow> bool" where
  "fits d a b l \<longleftrightarrow> (leaf_ok d b \<longrightarrow> bucket d a l = bucket d (nat (b_leaf b)) l)"

definition set_key :: "nat \<Rightarrow> int \<Rightarrow> entry list \<Rightarrow> entry list" where
  "set_key i k S = S[i := (k, snd (S ! i))]"

lemma map_snd_set_key [simp]: "i < length S \<Longrightarrow> map snd (set_key i k S) = map snd S"
  by (auto simp: set_key_def map_update intro: nth_equalityI simp: nth_list_update)

lemma length_set_key [simp]: "length (set_key i k S) = length S"
  by (simp add: set_key_def)

lemma set_key_nth: "i < length S \<Longrightarrow> set_key i k S ! j = (if j = i then (k, snd (S ! i)) else S ! j)"
  by (simp add: set_key_def)

lemma info_set_key:
  "i < length S \<Longrightarrow> (map info_of S)[i := [k, b_valid (snd (S ! i)), b_id (snd (S ! i)), b_leaf (snd (S ! i))]]
     = map info_of (set_key i k S)"
  by (simp add: set_key_def map_update info_of_def)

lemma rd_single: "rd [x] 0 = Some x"
  by simp

lemma Assign_key_eq:
  assumes i: "i < length S" and Z: "0 < Z" and d: "1 \<le> d" "d \<le> 32" and a: "a < 2 ^ (d - 1)"
    and wb: "length wb = d * Z" and occ: "length occ = d" "\<And>l. l < d \<Longrightarrow> 0 \<le> occ ! l \<and> occ ! l \<le> int Z"
  defines "b \<equiv> snd (S ! i)"
  shows "\<exists>lev. -1 \<le> lev \<and> lev < int d \<and> (0 \<le> lev \<longrightarrow> occ ! nat lev < int Z \<and> fits d a b (nat lev)) \<and>
    Assign_key Z d (int a) i (wb, occ, concat (map info_of S)) =
    (let l = nat lev; o' = nat (occ ! l); off = l * Z + o'
     in if lev < 0 then Some (wb, occ, concat (map info_of (set_key i max_int S)))
        else if b_valid b = 0 then Some (wb[off := 0], occ, concat (map info_of (set_key i max_int S)))
        else Some (wb[off := int i], occ[l := occ ! l + 1], concat (map info_of (set_key i (int off) S))))"
proof -
  let ?I = "map info_of S"
  have I: "uniform 4 ?I" "i < length ?I" using i by simp_all
  have Ii: "?I ! i = [fst (S ! i), b_valid b, b_id b, b_leaf b]" using i by (simp add: info_of_def b_def)
  obtain lev where lev: "PushBack Z (of_nat a) (word_of_int (b_leaf b)) occ d = Some lev" "-1 \<le> lev" "lev < int d"
      "0 \<le> lev \<longrightarrow> occ ! nat lev \<noteq> int Z"
      and sh: "\<forall>c < 2 ^ (d - 1). word_of_int (b_leaf b) = (of_nat c :: 32 word) \<longrightarrow> 0 \<le> lev \<longrightarrow>
        bucket d a (nat lev) = bucket d c (nat lev)"
    using PushBack_in_range [OF d occ(1) a, of Z "word_of_int (b_leaf b)"] by blast
  define l where "l = nat lev" define o' where "o' = nat (occ ! l)" define off where "off = l * Z + o'"
  have l: "l < d" "occ ! l < int Z" "0 \<le> occ ! l" "o' < Z" if "0 \<le> lev"
  proof -
    show "l < d" using that lev(3) by (simp add: l_def)
    from occ(2) [OF this] lev(4) that show "occ ! l < int Z" "0 \<le> occ ! l" "o' < Z"
      by (auto simp: l_def o'_def)
  qed
  have off: "off < d * Z" "lev * int Z + occ ! l = int off" if "0 \<le> lev"
    using l [OF that] that by (auto simp: off_def o'_def l_def)
  have fit: "fits d a b (nat lev)" if "0 \<le> lev"
  proof -
    have "word_of_int (b_leaf b) = (of_nat (nat (b_leaf b)) :: 32 word)" if "leaf_ok d b"
      using that by (simp add: leaf_ok_def)
    then show ?thesis using sh that unfolding fits_def leaf_ok_def by blast
  qed
  define ol where "ol = (if 0 \<le> lev then occ ! l else 0)"
  have rdocc: "ScanORAM_Read occ d 1 [0] lev = Some [ol]"
    using ScanORAM_Read_words [of occ 0 lev] lev(3) by (simp add: occ(1) l_def ol_def)
  have wrwb: "ScanORAM_Write wb (d * Z) 1 [v] (lev * int Z + ol) =
      Some (if 0 \<le> lev then wb[off := v] else wb)" for v
  proof (cases "0 \<le> lev")
    case True
    have "int off < int (length wb)" using off(1) [OF True] wb by (simp only: of_nat_less_iff)
    then show ?thesis using ScanORAM_Write_words [of wb v "int off"] off(2) [OF True] wb True by (simp add: ol_def)
  next
    case False
    then have "lev = -1" using lev(2) by simp
    then show ?thesis using ScanORAM_Write_words [of wb v "lev * int Z"] wb Z by (simp add: ol_def)
  qed
  have wrocc: "ScanORAM_Write occ d 1 [v] lev = Some (if 0 \<le> lev then occ[l := v] else occ)" for v
    using ScanORAM_Write_words [of occ v lev] lev(3) by (simp add: occ(1) l_def)
  define c :: int where "c = of_bool (b_valid b \<noteq> 0 \<and> lev > -1)"
  have "Assign_key Z d (int a) i (wb, occ, concat ?I) =
      Some (if 0 \<le> lev then wb[off := cmov c (int i) 0] else wb,
        if 0 \<le> lev then occ[l := cmov c (ol + 1) ol] else occ,
        concat (?I[i := [cmov (of_bool (\<not> c \<noteq> 0)) max_int
            (cmov c (lev * int Z + ol) (fst (S ! i))), b_valid b, b_id b, b_leaf b]]))"
    unfolding Assign_key_def prod.case Let_def
    by (simp add: rd_info wr_info I i Ii lev(1) rdocc [unfolded One_nat_def] wrwb [unfolded One_nat_def]
        wrocc [unfolded One_nat_def] c_def rd_single del: wr_ok rd_ok cmov_simp split del: if_split)
      (auto simp: c_def)
  then have run: "Assign_key Z d (int a) i (wb, occ, concat ?I) =
    (if lev < 0 then Some (wb, occ, concat (map info_of (set_key i max_int S)))
        else if b_valid b = 0 then Some (wb[off := 0], occ, concat (map info_of (set_key i max_int S)))
        else Some (wb[off := int i], occ[l := occ ! l + 1], concat (map info_of (set_key i (int off) S))))"
    using off info_set_key [OF i] unfolding b_def [symmetric] by (auto simp: c_def ol_def)
  then show ?thesis
    using lev fit l by (intro exI [of _ lev]) (simp add: Let_def l_def o'_def off_def)
qed


text \<open>
  What the keys look like: a key other than \<^const>\<open>max_int\<close> is a slot number of the path, no two
  entries have the same one, and a valid entry's slot is on a level that fits its leaf.
\<close>

definition distinct_keys :: "int list \<Rightarrow> bool" where
  "distinct_keys ks \<longleftrightarrow> (\<forall>i < length ks. \<forall>j < length ks. ks ! i = ks ! j \<longrightarrow> ks ! i \<noteq> max_int \<longrightarrow> i = j)"

definition keyed :: "nat \<Rightarrow> nat \<Rightarrow> nat \<Rightarrow> entry list \<Rightarrow> bool" where
  "keyed d Z a S \<longleftrightarrow> distinct_keys (map fst S) \<and>
     (\<forall>e \<in> set S. fst e = max_int \<or>
        (0 \<le> fst e \<and> fst e < int (d * Z) \<and> (b_valid (snd e) \<noteq> 0 \<longrightarrow> fits d a (snd e) (nat (fst e) div Z))))"

text \<open>The invariant of the first loop after \<open>n\<close> entries.\<close>

definition assigned :: "nat \<Rightarrow> nat \<Rightarrow> nat \<Rightarrow> nat \<Rightarrow> entry list \<Rightarrow> int list \<Rightarrow> int list \<Rightarrow> bool" where
  "assigned d Z a n S wb occ \<longleftrightarrow>
     length wb = d * Z \<and> length occ = d \<and> (\<forall>l < d. 0 \<le> occ ! l \<and> occ ! l \<le> int Z) \<and>
     (\<forall>j < n. fst (S ! j) = max_int \<or> b_valid (snd (S ! j)) \<noteq> 0 \<and>
        (\<exists>l < d. \<exists>x < nat (occ ! l). x < Z \<and> fst (S ! j) = int (l * Z + x) \<and>
          fits d a (snd (S ! j)) l \<and> wb ! (l * Z + x) \<noteq> -1)) \<and>
     (\<forall>j < n. \<forall>j' < n. fst (S ! j) = fst (S ! j') \<longrightarrow> fst (S ! j) \<noteq> max_int \<longrightarrow> j = j')"

lemma slot_number_inj: "x < (Z::nat) \<Longrightarrow> y < Z \<Longrightarrow> l * Z + x = m * Z + y \<Longrightarrow> l = m \<and> x = y"
proof -
  assume *: "x < Z" "y < Z" "l * Z + x = m * Z + y"
  have "l = (l * Z + x) div Z" "x = (l * Z + x) mod Z" using *(1) by simp_all
  moreover have "(m * Z + y) div Z = m" "(m * Z + y) mod Z = y" using *(2) by simp_all
  ultimately show ?thesis using *(3) by metis
qed

lemma assigned_skip:
  assumes "assigned d Z a n S wb occ" "n < length S" "\<And>j. wb' ! j = wb ! j \<or> wb' ! j \<noteq> -1" "length wb' = length wb"
  shows "assigned d Z a (Suc n) (set_key n max_int S) wb' occ"
  unfolding assigned_def
proof (intro conjI)
  show "\<forall>j < Suc n. fst (set_key n max_int S ! j) = max_int \<or> b_valid (snd (set_key n max_int S ! j)) \<noteq> 0 \<and>
        (\<exists>l < d. \<exists>x < nat (occ ! l). x < Z \<and> fst (set_key n max_int S ! j) = int (l * Z + x) \<and>
          fits d a (snd (set_key n max_int S ! j)) l \<and> wb' ! (l * Z + x) \<noteq> -1)"
  proof (intro allI impI)
    fix j assume "j < Suc n"
    show "fst (set_key n max_int S ! j) = max_int \<or> b_valid (snd (set_key n max_int S ! j)) \<noteq> 0 \<and>
        (\<exists>l < d. \<exists>x < nat (occ ! l). x < Z \<and> fst (set_key n max_int S ! j) = int (l * Z + x) \<and>
          fits d a (snd (set_key n max_int S ! j)) l \<and> wb' ! (l * Z + x) \<noteq> -1)"
    proof (cases "j = n")
      case False
      with \<open>j < Suc n\<close> have "j < n" by simp
      with assms(1) have "fst (S ! j) = max_int \<or> b_valid (snd (S ! j)) \<noteq> 0 \<and>
        (\<exists>l < d. \<exists>x < nat (occ ! l). x < Z \<and> fst (S ! j) = int (l * Z + x) \<and>
          fits d a (snd (S ! j)) l \<and> wb ! (l * Z + x) \<noteq> -1)" unfolding assigned_def by blast
      then show ?thesis using assms(2,3) False by (metis set_key_nth)
    qed (simp add: set_key_nth assms(2))
  qed
  show "\<forall>j < Suc n. \<forall>j' < Suc n. fst (set_key n max_int S ! j) = fst (set_key n max_int S ! j') \<longrightarrow>
      fst (set_key n max_int S ! j) \<noteq> max_int \<longrightarrow> j = j'"
    using assms(1,2) unfolding assigned_def by (auto simp: set_key_nth less_Suc_eq split: if_splits)
qed (use assms in \<open>simp_all add: assigned_def\<close>)

lemma assigned_place:
  assumes A: "assigned d Z a n S wb occ" and n: "n < length S" and l: "l < d" "occ ! l < int Z"
    and b: "b_valid (snd (S ! n)) \<noteq> 0" "fits d a (snd (S ! n)) l" and m: "d * Z \<le> nat max_int"
  defines "off \<equiv> l * Z + nat (occ ! l)"
  shows "assigned d Z a (Suc n) (set_key n (int off) S) (wb[off := int n]) (occ[l := occ ! l + 1])"
proof -
  have len: "length wb = d * Z" "length occ = d" and occ: "\<And>l. l < d \<Longrightarrow> 0 \<le> occ ! l \<and> occ ! l \<le> int Z"
    using A by (auto simp: assigned_def)
  have o: "nat (occ ! l) < Z" using l occ [OF l(1)] by auto
  have off: "off < d * Z" using l o by (simp add: off_def)
  have old: "fst (S ! j) = max_int \<or> b_valid (snd (S ! j)) \<noteq> 0 \<and>
        (\<exists>l' < d. \<exists>x < nat (occ ! l'). x < Z \<and> fst (S ! j) = int (l' * Z + x) \<and>
          fits d a (snd (S ! j)) l' \<and> wb ! (l' * Z + x) \<noteq> -1)" if "j < n" for j
    using A that unfolding assigned_def by blast
  have fresh_off: "fst (S ! j) \<noteq> int off" if j: "j < n" for j
  proof
    assume eq: "fst (S ! j) = int off"
    have "int off \<noteq> max_int" using off m by linarith
    then obtain l' x where x: "l' < d" "x < nat (occ ! l')" "x < Z" "fst (S ! j) = int (l' * Z + x)"
      using old [OF j] eq by auto
    then have "int (l' * Z + x) = int (l * Z + nat (occ ! l))" by (intro trans [OF x(4) [symmetric] eq [unfolded off_def]])
    then have "l' * Z + x = l * Z + nat (occ ! l)" by (rule of_nat_eq_iff [THEN iffD1])
    then have "l' = l \<and> x = nat (occ ! l)" by (rule slot_number_inj [OF x(3) o])
    then show False using x(2) by simp
  qed
  show ?thesis unfolding assigned_def
  proof (intro conjI)
    show "\<forall>k < d. 0 \<le> occ[l := occ ! l + 1] ! k \<and> occ[l := occ ! l + 1] ! k \<le> int Z"
    proof (intro allI impI)
      fix k assume "k < d"
      then show "0 \<le> occ[l := occ ! l + 1] ! k \<and> occ[l := occ ! l + 1] ! k \<le> int Z"
        using occ [of k] l len by (cases "k = l") auto
    qed
    show "\<forall>j < Suc n. fst (set_key n (int off) S ! j) = max_int \<or> b_valid (snd (set_key n (int off) S ! j)) \<noteq> 0 \<and>
        (\<exists>k < d. \<exists>x < nat (occ[l := occ ! l + 1] ! k). x < Z \<and> fst (set_key n (int off) S ! j) = int (k * Z + x) \<and>
          fits d a (snd (set_key n (int off) S ! j)) k \<and> wb[off := int n] ! (k * Z + x) \<noteq> -1)"
    proof (intro allI impI)
      fix j assume "j < Suc n"
      show "fst (set_key n (int off) S ! j) = max_int \<or> b_valid (snd (set_key n (int off) S ! j)) \<noteq> 0 \<and>
        (\<exists>k < d. \<exists>x < nat (occ[l := occ ! l + 1] ! k). x < Z \<and> fst (set_key n (int off) S ! j) = int (k * Z + x) \<and>
          fits d a (snd (set_key n (int off) S ! j)) k \<and> wb[off := int n] ! (k * Z + x) \<noteq> -1)"
      proof (cases "j = n")
        case True
        have "nat (occ ! l) < nat (occ[l := occ ! l + 1] ! l)" using l len occ [OF l(1)] by simp
        moreover have "wb[off := int n] ! off \<noteq> -1" using off len by simp
        ultimately show ?thesis using True b n l o unfolding off_def by (auto simp: set_key_nth)
      next
        case False
        with \<open>j < Suc n\<close> have j: "j < n" by simp
        have S': "set_key n (int off) S ! j = S ! j" using False n by (simp add: set_key_nth)
        have "fst (S ! j) = max_int \<or> b_valid (snd (S ! j)) \<noteq> 0 \<and>
          (\<exists>k < d. \<exists>x < nat (occ[l := occ ! l + 1] ! k). x < Z \<and> fst (S ! j) = int (k * Z + x) \<and>
            fits d a (snd (S ! j)) k \<and> wb[off := int n] ! (k * Z + x) \<noteq> -1)"
          using old [OF j]
        proof
          assume *: "b_valid (snd (S ! j)) \<noteq> 0 \<and> (\<exists>l' < d. \<exists>x < nat (occ ! l'). x < Z \<and>
            fst (S ! j) = int (l' * Z + x) \<and> fits d a (snd (S ! j)) l' \<and> wb ! (l' * Z + x) \<noteq> -1)"
          then obtain l' x where x: "l' < d" "x < nat (occ ! l')" "x < Z" "fst (S ! j) = int (l' * Z + x)"
            "fits d a (snd (S ! j)) l'" "wb ! (l' * Z + x) \<noteq> -1" by blast
          have "x < nat (occ[l := occ ! l + 1] ! l')" using x len l by (auto simp: nth_list_update)
          moreover have "wb[off := int n] ! (l' * Z + x) \<noteq> -1" using x(6) off len by (auto simp: nth_list_update)
          ultimately show ?thesis using x * by blast
        qed simp
        then show ?thesis unfolding S' .
      qed
    qed
    show "\<forall>j < Suc n. \<forall>j' < Suc n. fst (set_key n (int off) S ! j) = fst (set_key n (int off) S ! j') \<longrightarrow>
      fst (set_key n (int off) S ! j) \<noteq> max_int \<longrightarrow> j = j'"
    proof -
      have "\<forall>j < n. \<forall>j' < n. fst (S ! j) = fst (S ! j') \<longrightarrow> fst (S ! j) \<noteq> max_int \<longrightarrow> j = j'"
        using A unfolding assigned_def by blast
      then show ?thesis using fresh_off fresh_off [symmetric] n
        by (auto simp: set_key_nth less_Suc_eq split: if_splits)
    qed
  qed (use len in simp_all)
qed


lemma update_keeps: "v \<noteq> x \<Longrightarrow> xs[k := v] ! j = x \<Longrightarrow> xs ! j = x"
  by (cases "k = j"; cases "k < length xs") (auto simp: list_update_beyond)

lemma Assign_loop:
  assumes Z: "0 < Z" and d: "1 \<le> d" "d \<le> 32" and a: "a < 2 ^ (d - 1)" and m: "d * Z \<le> nat max_int"
  shows "\<exists>wb occ S'. for_loop 0 (length S) (Assign_key Z d (int a))
      (replicate (d * Z) (-1), replicate d 0, concat (map info_of S)) =
        Some (wb, occ, concat (map info_of S')) \<and>
    map snd S' = map snd S \<and> assigned d Z a (length S) S' wb occ"
proof -
  let ?I = "\<lambda>i (wb, occ, info). \<exists>S'. info = concat (map info_of S') \<and> map snd S' = map snd S \<and>
      assigned d Z a i S' wb occ"
  have "\<exists>s'. for_loop 0 (length S) (Assign_key Z d (int a))
      (replicate (d * Z) (-1), replicate d 0, concat (map info_of S)) = Some s' \<and> ?I (length S) s'"
  proof (rule for_loop_rule [where I = ?I])
    show "?I 0 (replicate (d * Z) (-1), replicate d 0, concat (map info_of S))"
      by (auto simp: assigned_def)
    fix i s assume i: "i < length S" and I: "?I i s"
    obtain wb occ info where s: "s = (wb, occ, info)" by (cases s) auto
    with I obtain S' where S': "info = concat (map info_of S')" "map snd S' = map snd S"
      "assigned d Z a i S' wb occ" by auto
    have len: "length S' = length S" using S'(2) by (metis length_map)
    with i have i': "i < length S'" by simp
    have wo: "length wb = d * Z" "length occ = d" "\<And>l. l < d \<Longrightarrow> 0 \<le> occ ! l \<and> occ ! l \<le> int Z"
      using S'(3) by (auto simp: assigned_def)
    obtain lev where lev: "-1 \<le> lev" "lev < int d"
        "0 \<le> lev \<longrightarrow> occ ! nat lev < int Z \<and> fits d a (snd (S' ! i)) (nat lev)"
      and run: "Assign_key Z d (int a) i (wb, occ, concat (map info_of S')) =
      (let l = nat lev; o' = nat (occ ! l); off = l * Z + o'
       in if lev < 0 then Some (wb, occ, concat (map info_of (set_key i max_int S')))
          else if b_valid (snd (S' ! i)) = 0 then Some (wb[off := 0], occ, concat (map info_of (set_key i max_int S')))
          else Some (wb[off := int i], occ[l := occ ! l + 1], concat (map info_of (set_key i (int off) S'))))"
      using Assign_key_eq [OF i' Z d a wo] by blast
    have sn: "map snd (set_key i k S') = map snd S" for k using i' S'(2) by simp
    consider "lev < 0" | "0 \<le> lev" "b_valid (snd (S' ! i)) = 0" | "0 \<le> lev" "b_valid (snd (S' ! i)) \<noteq> 0" by linarith
    then show "\<exists>s'. Assign_key Z d (int a) i s = Some s' \<and> ?I (Suc i) s'"
    proof cases
      case 1
      have "assigned d Z a (Suc i) (set_key i max_int S') wb occ"
        by (rule assigned_skip [OF S'(3) i']) simp_all
      with 1 run sn show ?thesis by (auto simp: s S'(1))
    next
      case 2
      let ?off = "nat lev * Z + nat (occ ! nat lev)"
      have "assigned d Z a (Suc i) (set_key i max_int S') (wb[?off := 0]) occ"
        proof (rule assigned_skip [OF S'(3) i'])
        show "wb[?off := 0] ! j = wb ! j \<or> wb[?off := 0] ! j \<noteq> -1" for j
          using update_keeps [of 0 "-1" wb ?off j] by (cases "wb ! j = -1") auto
      qed simp
      with 2 run sn show ?thesis by (auto simp: s S'(1) Let_def)
    next
      case 3
      let ?off = "nat lev * Z + nat (occ ! nat lev)"
      have "assigned d Z a (Suc i) (set_key i (int ?off) S') (wb[?off := int i])
          (occ[nat lev := occ ! nat lev + 1])"
        by (rule assigned_place [OF S'(3) i' _ _ 3(2) _ m]) (use 3 lev in auto)
      with 3 run sn show ?thesis by (auto simp: s S'(1) Let_def)
    qed
  qed simp
  then show ?thesis by auto
qed

section \<open>The key of a dummy\<close>

lemma Extra_key_eq:
  assumes wb: "i < length wb"
  shows "Extra_key (length S) wb i (concat (map info_of S)) =
    Some (concat (map info_of
      (if wb ! i = -1 \<and> (\<exists>f < length S. b_valid (snd (S ! f)) = 0)
       then set_key (LEAST f. b_valid (snd (S ! f)) = 0) (int i) S else S)))"
proof -
  let ?inv = "\<lambda>f. b_valid (snd (S ! f)) = 0" let ?f = "LEAST f. ?inv f"
  let ?add = "wb ! i = -1"
  define D where "D j \<longleftrightarrow> ?add \<and> (\<exists>f < j. ?inv f)" for j
  define F where "F j = (if D j then set_key ?f (int i) S else S)" for j
  have least: "?inv ?f \<and> ?f \<le> f" if "?inv f" for f using that by (auto intro: LeastI Least_le)
  have "for_loop 0 (length S) (\<lambda>j (info, add_extra_key_done). do {
        v \<leftarrow> rd info (info_at j 1);
        let cond = (?add \<and> \<not> add_extra_key_done \<and> \<not> v \<noteq> 0);
        key \<leftarrow> rd info (info_at j 0);
        info \<leftarrow> wr info (info_at j 0) (cmov (of_bool cond) (int i) key);
        Some (info, add_extra_key_done \<or> cond) }) (concat (map info_of S), False)
    = Some (concat (map info_of (F (length S))), D (length S))"
  proof (rule for_loop_eq [where g = "\<lambda>j. (concat (map info_of (F j)), D j)"], goal_cases)
    case (3 j)
    then have j: "j < length S" by simp
    have len: "length (F j) = length S" by (simp add: F_def)
    have snd_eq: "snd (F j ! j) = snd (S ! j)"
    proof (cases "D j")
      case True
      then have "?f < j" using least unfolding D_def by (meson order_le_less_trans)
      then show ?thesis using j True by (simp add: F_def set_key_nth)
    qed (simp add: F_def)
    have ent: "map info_of (F j) ! j = [fst (F j ! j), b_valid (snd (S ! j)), b_id (snd (S ! j)), b_leaf (snd (S ! j))]"
      using j len by (simp only: nth_map info_of_def snd_eq)
    define c where "c \<longleftrightarrow> ?add \<and> \<not> D j \<and> ?inv j"
    have upd: "(map info_of (F j))[j := [cmov (of_bool c) (int i) (fst (F j ! j)), b_valid (snd (S ! j)),
        b_id (snd (S ! j)), b_leaf (snd (S ! j))]] = map info_of (F (Suc j))"
    proof (cases c)
      case True
      then have "?f = j" using least [of j] unfolding c_def D_def by (metis le_neq_implies_less)
      moreover have "D (Suc j)" "F j = S" using True by (auto simp: c_def D_def F_def)
      ultimately show ?thesis using True info_set_key [OF j] by (simp add: F_def)
    next
      case False
      then have "D (Suc j) = D j" by (auto simp: c_def D_def less_Suc_eq)
      then have "F (Suc j) = F j" by (simp add: F_def)
      moreover have "(map info_of (F j))[j := map info_of (F j) ! j] = map info_of (F j)" by (rule list_update_id)
      ultimately show ?thesis using False unfolding ent by simp
    qed
    have dn: "D (Suc j) \<longleftrightarrow> D j \<or> c" by (auto simp: c_def D_def less_Suc_eq)
    have W: "uniform 4 (map info_of (F j))" "j < length (map info_of (F j))" using j len by simp_all
    have cc: "(?add \<and> \<not> D j \<and> \<not> b_valid (snd (S ! j)) \<noteq> 0) = c" by (simp add: c_def)
    have r0: "rd (concat (map info_of (F j))) (info_at j 0) = Some (fst (F j ! j))"
      and r1: "rd (concat (map info_of (F j))) (info_at j 1) = Some (b_valid (snd (S ! j)))"
      using rd_info(1,2) [OF W] unfolding ent by simp_all
    have w0: "wr (concat (map info_of (F j))) (info_at j 0) (cmov (of_bool c) (int i) (fst (F j ! j))) =
        Some (concat (map info_of (F (Suc j))))"
      using wr_info(1) [OF W, of "cmov (of_bool c) (int i) (fst (F j ! j))"] unfolding ent upd [symmetric] by simp
    show ?case unfolding prod.case r0 r1 bind.simps Let_def cc w0 dn ..
  qed (simp_all add: F_def D_def)
  then have "Extra_key (length S) wb i (concat (map info_of S)) = Some (concat (map info_of (F (length S))))"
    unfolding Extra_key_def using wb by simp
  then show ?thesis by (simp add: F_def D_def)
qed


lemma assigned_keyed:
  assumes "assigned d Z a (length S) S wb occ" "0 < Z" "d * Z \<le> nat max_int"
  shows "keyed d Z a S"
  unfolding keyed_def distinct_keys_def
proof (intro conjI ballI)
  show "\<forall>i<length (map fst S). \<forall>j<length (map fst S). map fst S ! i = map fst S ! j \<longrightarrow>
      map fst S ! i \<noteq> max_int \<longrightarrow> i = j"
    using assms(1) by (simp add: assigned_def)
  fix e assume "e \<in> set S"
  then obtain j where j: "j < length S" "e = S ! j" by (auto simp: in_set_conv_nth)
  then have "fst e = max_int \<or> b_valid (snd e) \<noteq> 0 \<and>
        (\<exists>l < d. \<exists>x < nat (occ ! l). x < Z \<and> fst e = int (l * Z + x) \<and>
          fits d a (snd e) l \<and> wb ! (l * Z + x) \<noteq> -1)"
    using assms(1) unfolding assigned_def by blast
  then show "fst e = max_int \<or> (0 \<le> fst e \<and> fst e < int (d * Z) \<and>
      (b_valid (snd e) \<noteq> 0 \<longrightarrow> fits d a (snd e) (nat (fst e) div Z)))"
  proof
    assume "b_valid (snd e) \<noteq> 0 \<and> (\<exists>l < d. \<exists>x < nat (occ ! l). x < Z \<and> fst e = int (l * Z + x) \<and>
          fits d a (snd e) l \<and> wb ! (l * Z + x) \<noteq> -1)"
    then obtain l x where x: "l < d" "x < Z" "fst e = int (l * Z + x)" "fits d a (snd e) l" by blast
    have "l * Z + x < d * Z" using x by simp
    moreover have "nat (int (l * Z + x)) div Z = l" using x(2) by (simp only: nat_int) simp
    ultimately show ?thesis unfolding x(3) using x(4) by (simp only: of_nat_less_iff of_nat_0_le_iff) blast
  qed simp
qed

lemma keyed_extra:
  assumes A: "assigned d Z a (length S) S wb occ" and Z: "0 < Z" and m: "d * Z \<le> nat max_int"
    and f: "f < length S" "b_valid (snd (S ! f)) = 0" and i: "i < d * Z" "wb ! i = -1"
  shows "keyed d Z a (set_key f (int i) S)"
  unfolding keyed_def
proof
  have K: "keyed d Z a S" by (rule assigned_keyed [OF A Z m])
  have im: "int i \<noteq> max_int" using i(1) m by linarith
  have other: "fst (S ! j) \<noteq> int i" if j: "j < length S" for j
  proof
    assume eq: "fst (S ! j) = int i"
    have "fst (S ! j) = max_int \<or> b_valid (snd (S ! j)) \<noteq> 0 \<and>
        (\<exists>l < d. \<exists>x < nat (occ ! l). x < Z \<and> fst (S ! j) = int (l * Z + x) \<and>
          fits d a (snd (S ! j)) l \<and> wb ! (l * Z + x) \<noteq> -1)"
      using A j unfolding assigned_def by blast
    then obtain l x where x: "fst (S ! j) = int (l * Z + x)" "wb ! (l * Z + x) \<noteq> -1" using eq im by auto
    then have "int i = int (l * Z + x)" using eq by simp
    then have "i = l * Z + x" by (simp only: of_nat_eq_iff)
    then show False using x(2) i(2) by simp
  qed
  show "distinct_keys (map fst (set_key f (int i) S))"
    using K f(1) other unfolding keyed_def distinct_keys_def
    by (auto simp: set_key_nth split: if_splits) (metis other)
  show "\<forall>e \<in> set (set_key f (int i) S). fst e = max_int \<or> (0 \<le> fst e \<and> fst e < int (d * Z) \<and>
      (b_valid (snd e) \<noteq> 0 \<longrightarrow> fits d a (snd e) (nat (fst e) div Z)))"
  proof
    fix e assume "e \<in> set (set_key f (int i) S)"
    then have "e = (int i, snd (S ! f)) \<or> e \<in> set S"
      unfolding set_key_def using set_update_subset_insert [of S f] by blast
    then show "fst e = max_int \<or> (0 \<le> fst e \<and> fst e < int (d * Z) \<and>
        (b_valid (snd e) \<noteq> 0 \<longrightarrow> fits d a (snd e) (nat (fst e) div Z)))"
    proof
      assume "e = (int i, snd (S ! f))"
      then show ?thesis using i(1) f(2) by (simp only: fst_conv snd_conv of_nat_less_iff of_nat_0_le_iff) simp
    qed (use K in \<open>unfold keyed_def, blast\<close>)
  qed
qed

lemma Extra_loop:
  assumes A: "assigned d Z a (length S) S wb occ" and Z: "0 < Z" and m: "d * Z \<le> nat max_int"
  shows "\<exists>S'. for_loop 0 (d * Z) (Extra_key (length S) wb) (concat (map info_of S)) =
      Some (concat (map info_of S')) \<and> map snd S' = map snd S \<and> keyed d Z a S'"
proof -
  let ?f = "LEAST f. b_valid (snd (S ! f)) = 0"
  let ?ex = "\<exists>f < length S. b_valid (snd (S ! f)) = 0"
  let ?P = "\<lambda>n X. X = S \<or> ?ex \<and> (\<exists>i < n. wb ! i = -1 \<and> X = set_key ?f (int i) S)"
  have f: "?f < length S" "b_valid (snd (S ! ?f)) = 0" if ?ex
    using that by (auto intro: LeastI le_less_trans [OF Least_le])
  have "\<exists>s'. for_loop 0 (d * Z) (Extra_key (length S) wb) (concat (map info_of S)) = Some s' \<and>
      (\<exists>X. s' = concat (map info_of X) \<and> ?P (d * Z) X)"
  proof (rule for_loop_rule [where I = "\<lambda>n s. \<exists>X. s = concat (map info_of X) \<and> ?P n X"])
    fix i s assume i: "i < d * Z" and "\<exists>X. s = concat (map info_of X) \<and> ?P i X"
    then obtain X where X: "s = concat (map info_of X)" "?P i X" by blast
    have lX: "length X = length S" using X(2) by auto
    have sX: "snd (X ! j) = snd (S ! j)" if "j < length S" for j
      using X(2)
    proof
      assume "?ex \<and> (\<exists>i' < i. wb ! i' = -1 \<and> X = set_key ?f (int i') S)"
      then obtain i' where "?f < length S" "X = set_key ?f (int i') S" using f by blast
      then show ?thesis by (simp add: set_key_nth)
    qed simp
    have exX: "(\<exists>f < length X. b_valid (snd (X ! f)) = 0) = ?ex" using sX lX by auto
    have fX: "(LEAST f. b_valid (snd (X ! f)) = 0) = ?f" if ?ex
    proof (rule Least_equality)
      show "b_valid (snd (X ! ?f)) = 0" using f [OF that] sX by simp
      fix y assume y: "b_valid (snd (X ! y)) = 0"
      show "?f \<le> y"
      proof (cases "y < length S")
        case True
        then show ?thesis using y sX by (intro Least_le) simp
      qed (use f [OF that] in simp)
    qed
    have over: "set_key ?f (int i) X = set_key ?f (int i) S" if ?ex
      using X(2) f [OF that] by (auto simp: set_key_def)
    have "i < length wb" using A i by (simp add: assigned_def)
    from Extra_key_eq [OF this, of X]
    have run: "Extra_key (length S) wb i s = Some (concat (map info_of
        (if wb ! i = -1 \<and> ?ex then set_key ?f (int i) S else X)))"
      using exX fX over lX X(1) by (auto split: if_splits)
    have "?P (Suc i) (if wb ! i = -1 \<and> ?ex then set_key ?f (int i) S else X)"
      using X(2) by (auto simp: less_Suc_eq)
    with run show "\<exists>s'. Extra_key (length S) wb i s = Some s' \<and> (\<exists>X. s' = concat (map info_of X) \<and> ?P (Suc i) X)"
      by blast
  qed auto
  then obtain X where X: "for_loop 0 (d * Z) (Extra_key (length S) wb) (concat (map info_of S)) =
      Some (concat (map info_of X))" "?P (d * Z) X" by blast
  have "map snd X = map snd S" using X(2) f(1) map_snd_set_key [of ?f S] by blast
  moreover have "keyed d Z a X"
    using X(2) assigned_keyed [OF A Z m] keyed_extra [OF A Z m f] by auto
  ultimately show ?thesis using X(1) by blast
qed

end
