(* ===== verification/PathOramProof.thy ===== *)
theory PathOramProof
  imports PathOramLoops
begin

text \<open>
  Correctness of the Path ORAM: the invariant, and the refinement of a map from block ids to block
  contents by \<^verbatim>\<open>Access_ORAM\<close>.

  The locale \<open>store_sorter\<close> is the contract of the function pointer \<^verbatim>\<open>store_sort_func\<close>; it is
  interpreted on both sorts the program can install, and the invariant of the ORAM says that the
  installed function meets it. The locale \<open>block_memory\<close> is the contract the ORAM offers its
  clients; the phases of \<^verbatim>\<open>main.c\<close> are verified against it.
\<close>

section \<open>The contract of the sort\<close>

lemma mset_map_lift: "mset ys = mset (map f xs) \<Longrightarrow> \<exists>zs. ys = map f zs \<and> mset zs = mset xs"
proof (induction ys arbitrary: xs)
  case (Cons y ys)
  then have "y \<in> set (map f xs)" by (metis list.set_intros(1) mset_eq_setD)
  then obtain x where x: "x \<in> set xs" "f x = y" by auto
  then have "mset (map f (remove1 x xs)) = mset (map f xs) - {#y#}"
    by (simp add: image_mset_Diff)
  then have "mset ys = mset (map f (remove1 x xs))" using Cons.prems by (metis add_mset_remove_trivial mset.simps(2))
  from Cons.IH [OF this] obtain zs where "ys = map f zs" "mset zs = mset (remove1 x xs)" by blast
  then have "y # ys = map f (x # zs)" "mset (x # zs) = mset xs" using x by simp_all
  then show ?case by (intro exI [of _ "x # zs"]) simp
qed simp

definition entry_le :: "entry \<Rightarrow> entry \<Rightarrow> bool" where
  "entry_le e f \<longleftrightarrow> fst e < fst f \<or> (fst e = fst f \<and> b_valid (snd e) \<le> b_valid (snd f))"

locale store_sorter =
  fixes srt :: sort_func and N B :: nat
  assumes sorts: "list_all (two_ok 4 B [0, 1]) xs \<Longrightarrow> length xs = N \<Longrightarrow>
    \<exists>ys. srt (concat (map fst xs)) (concat (map snd xs)) N 0 1 1 1 4 B =
        Some (concat (map fst ys), concat (map snd ys)) \<and> mset ys = mset xs \<and>
      sorted_wrt (\<lambda>x y. two_key_from_L (1, 1) (fst x ! 0) (fst x ! 1) (fst y ! 0) (fst y ! 1)) ys"
begin

lemma sort_entries:
  assumes "ok_stash B S" "length S = N"
  shows "\<exists>S'. srt (concat (map info_of S)) (concat (map dat_of S)) N 0 1 1 1 4 B =
      Some (concat (map info_of S'), concat (map dat_of S')) \<and> mset S' = mset S \<and> sorted_wrt entry_le S'"
proof -
  let ?w = "\<lambda>e. (info_of e, dat_of e)"
  have "list_all (two_ok 4 B [0, 1]) (map ?w S)"
    using assms(1) by (auto simp: list_all_iff two_ok_def blk_ok_def info_of_def dat_of_def ok_stash_def)
  from sorts [OF this] assms(2) obtain ys where
    ys: "srt (concat (map info_of S)) (concat (map dat_of S)) N 0 1 1 1 4 B = Some (concat (map fst ys), concat (map snd ys))"
      "mset ys = mset (map ?w S)"
      "sorted_wrt (\<lambda>x y. two_key_from_L (1, 1) (fst x ! 0) (fst x ! 1) (fst y ! 0) (fst y ! 1)) ys"
    by (auto simp: comp_def)
  obtain S' where S': "ys = map ?w S'" "mset S' = mset S" using mset_map_lift [OF ys(2)] by blast
  have "sorted_wrt entry_le S'"
    using ys(3) unfolding S'(1) sorted_wrt_map
    by (rule sorted_wrt_mono_rel [rotated])
      (auto simp: two_key_from_L_def info_of_def entry_le_def ASCENDING_def DESCENDING_def)
  with ys(1) S' show ?thesis by (auto simp: comp_def)
qed

end

interpretation merge_store: store_sorter "MergeSort_TwoArray_TwoKey junk" N B for junk N B
proof
  fix xs :: "(int list \<times> int list) list"
  assume "list_all (two_ok 4 B [0, 1]) xs" "length xs = N"
  then show "\<exists>ys. MergeSort_TwoArray_TwoKey junk (concat (map fst xs)) (concat (map snd xs)) N 0 1 1 1 4 B =
        Some (concat (map fst ys), concat (map snd ys)) \<and> mset ys = mset xs \<and>
      sorted_wrt (\<lambda>x y. two_key_from_L (1, 1) (fst x ! 0) (fst x ! 1) (fst y ! 0) (fst y ! 1)) ys"
    using MergeSort_TwoArray_TwoKey_run [of 4 B 0 1 xs 1 1 junk] by simp
qed

interpretation bitonic_store: store_sorter BitonicSort_TwoArray_TwoKey "2 ^ n" B for n B
proof
  fix xs :: "(int list \<times> int list) list"
  assume "list_all (two_ok 4 B [0, 1]) xs" "length xs = 2 ^ n"
  then show "\<exists>ys. BitonicSort_TwoArray_TwoKey (concat (map fst xs)) (concat (map snd xs)) (2 ^ n) 0 1 1 1 4 B =
        Some (concat (map fst ys), concat (map snd ys)) \<and> mset ys = mset xs \<and>
      sorted_wrt (\<lambda>x y. two_key_from_L (1, 1) (fst x ! 0) (fst x ! 1) (fst y ! 0) (fst y ! 1)) ys"
    using BitonicSort_TwoArray_TwoKey_run [of 4 B 0 1 xs n 1] by simp
qed

section \<open>Where the sort puts the entries\<close>

lemma distinct_keys_mset:
  assumes "distinct_keys xs" "mset ys = mset xs"
  shows "distinct_keys ys"
proof -
  have card: "count (mset zs) x = card {i. i < length zs \<and> zs ! i = x}" for zs and x :: int
    by (simp add: count_mset count_list_eq_length_filter length_filter_conv_card eq_commute [of x])
  have "count (mset xs) x \<le> 1" if "x \<noteq> max_int" for x
  proof -
    have fin: "finite {i. i < length xs \<and> xs ! i = x}" by simp
    show ?thesis unfolding card One_nat_def card_le_Suc0_iff_eq [OF fin]
      using assms(1) that unfolding distinct_keys_def by simp
  qed
  then have le: "card {i. i < length ys \<and> ys ! i = x} \<le> 1" if "x \<noteq> max_int" for x
    using that assms(2) by (simp add: card [symmetric])
  show ?thesis unfolding distinct_keys_def
  proof (intro allI impI)
    fix i j assume ij: "i < length ys" "j < length ys" "ys ! i = ys ! j" "ys ! i \<noteq> max_int"
    let ?A = "{k. k < length ys \<and> ys ! k = ys ! i}"
    have "{i, j} \<subseteq> ?A" using ij by auto
    then have "card {i, j} \<le> card ?A" by (intro card_mono) auto
    with le [OF ij(4)] have "card {i, j} \<le> 1" by linarith
    then show "i = j" by (cases "i = j") auto
  qed
qed

lemma keyed_mset: "keyed d Z a S \<Longrightarrow> mset S' = mset S \<Longrightarrow> keyed d Z a S'"
  unfolding keyed_def by (metis distinct_keys_mset mset_eq_setD mset_map)

definition valid01 :: "sblock \<Rightarrow> bool" where
  "valid01 b \<longleftrightarrow> b_valid b = 0 \<or> b_valid b = 1"

lemma max_int_bound: "n \<le> nat max_int \<Longrightarrow> int n \<le> max_int"
  by (simp add: max_int_def)

lemma sorted_key_rank:
  assumes "keyed d Z a S" "sorted_wrt entry_le S" "d * Z \<le> nat max_int"
  shows "k < length S \<Longrightarrow> fst (S ! k) \<noteq> max_int \<Longrightarrow> int k \<le> fst (S ! k)"
proof (induction k)
  case 0
  then show ?case using assms(1) unfolding keyed_def by auto
next
  case (Suc k)
  have mono: "fst (S ! k) \<le> fst (S ! Suc k)"
    using assms(2) Suc.prems(1) unfolding sorted_wrt_iff_nth_less by (fastforce simp: entry_le_def)
  have "fst (S ! Suc k) < int (d * Z)" using assms(1) Suc.prems unfolding keyed_def by auto
  then have "fst (S ! k) \<noteq> max_int" using mono max_int_bound [OF assms(3)] by linarith
  then have "int k \<le> fst (S ! k)" using Suc by simp
  moreover have "fst (S ! k) \<noteq> fst (S ! Suc k)"
  proof
    assume "fst (S ! k) = fst (S ! Suc k)"
    then have "k = Suc k"
      using assms(1) Suc.prems unfolding keyed_def distinct_keys_def
      by (metis Suc_lessD length_map nth_map)
    then show False by simp
  qed
  ultimately show ?case using mono by simp
qed

lemma sorted_positions:
  assumes K: "keyed d Z a S" and srt: "sorted_wrt entry_le S" and m: "d * Z \<le> nat max_int" and Z: "0 < Z"
    and v: "\<forall>e \<in> set S. valid01 (snd e)"
    and cap: "length (filter (\<lambda>e. b_valid (snd e) \<noteq> 0) S) + d * Z \<le> length S"
    and k: "k < d * Z" "b_valid (snd (S ! k)) \<noteq> 0"
  shows "fits d a (snd (S ! k)) (k div Z)"
proof -
  have kS: "k < length S" using k(1) cap by simp
  have key: "fst (S ! k) \<noteq> max_int"
  proof
    assume mx: "fst (S ! k) = max_int"
    have "b_valid (snd e) \<noteq> 0" if e: "e \<in> set (drop k S)" for e
    proof -
      obtain j where j: "k + j < length S" "e = S ! (k + j)"
        using e by (auto simp: in_set_conv_nth less_diff_conv2 kS less_imp_le) (metis add.commute less_diff_conv)
      have "entry_le (S ! k) (S ! (k + j)) \<or> j = 0"
        using srt j(1) by (cases "j = 0") (auto simp: sorted_wrt_iff_nth_less)
      moreover have "\<not> max_int < fst (S ! (k + j))"
      proof -
        have "fst (S ! (k + j)) = max_int \<or> fst (S ! (k + j)) < int (d * Z)"
          using K j(1) unfolding keyed_def by auto
        then show ?thesis using max_int_bound [OF m] by linarith
      qed
      moreover have "b_valid (snd (S ! k)) = 1" using v k(2) kS by (auto simp: valid01_def)
      ultimately show ?thesis using mx j(2) k(2) by (auto simp: entry_le_def)
    qed
    then have "filter (\<lambda>e. b_valid (snd e) \<noteq> 0) (drop k S) = drop k S" by (simp add: filter_id_conv)
    then have "length S - k \<le> length (filter (\<lambda>e. b_valid (snd e) \<noteq> 0) S)"
      by (metis append_take_drop_id filter_append le_add2 length_append length_drop)
    then show False using cap k(1) kS by linarith
  qed
  have f: "fits d a (snd (S ! k)) (nat (fst (S ! k)) div Z)" "fst (S ! k) < int (d * Z)" "0 \<le> fst (S ! k)"
    using K kS key k(2) unfolding keyed_def by auto
  have "int k \<le> fst (S ! k)" by (rule sorted_key_rank [OF K srt m kS key])
  then have le: "k div Z \<le> nat (fst (S ! k)) div Z" by (intro div_le_mono) linarith
  have lt: "nat (fst (S ! k)) div Z < d" using f(2,3) by (intro less_mult_imp_div_less) (simp only: nat_less_iff)
  show ?thesis using f(1) bucket_ancestor [OF le lt] unfolding fits_def by blast
qed

section \<open>Contents\<close>

text \<open>The valid blocks of a memory.\<close>

definition content :: "sblock list \<times> entry list \<Rightarrow> sblock list" where
  "content = (\<lambda>(T, S). filter (\<lambda>b. b_valid b \<noteq> 0) (T @ map snd S))"

lemma mset_filter_update:
  assumes "p < length xs"
  shows "mset (filter P (xs[p := x])) + mset (filter P [xs ! p]) = mset (filter P xs) + mset (filter P [x])"
proof -
  have "xs = take p xs @ xs ! p # drop (Suc p) xs" by (rule id_take_nth_drop [OF assms])
  then have "mset (filter P xs) = mset (filter P (take p xs)) + mset (filter P [xs ! p]) + mset (filter P (drop (Suc p) xs))"
    by (metis append_Cons append_Nil filter_append mset_append add.assoc)
  moreover have "mset (filter P (xs[p := x])) = mset (filter P (take p xs)) + mset (filter P [x]) + mset (filter P (drop (Suc p) xs))"
    using assms by (simp add: upd_conv_take_nth_drop)
  ultimately show ?thesis by (simp only: ac_simps)
qed

lemma content_fetch1:
  assumes "p < length T" "k < length S" "b_valid (snd (S ! k)) = 0"
  shows "mset (content (fetch1 p k (T, S))) = mset (content (T, S))"
  using mset_filter_update [OF assms(1), of "\<lambda>b. b_valid b \<noteq> 0" "(T ! p)\<lparr>b_valid := 0\<rparr>"]
    mset_filter_update [of k "map snd S" "\<lambda>b. b_valid b \<noteq> 0" "T ! p"] assms
  by (simp add: content_def fetch1_def map_update union_assoc [symmetric] split: if_splits)

lemma content_store1:
  assumes "p < length T" "k < length S" "b_valid (T ! p) = 0"
  shows "mset (content (store1 p k (T, S))) = mset (content (T, S))"
  using mset_filter_update [OF assms(1), of "\<lambda>b. b_valid b \<noteq> 0" "snd (S ! k)"]
    mset_filter_update [of k "map snd S" "\<lambda>b. b_valid b \<noteq> 0" "(snd (S ! k))\<lparr>b_valid := 0\<rparr>"] assms
  by (simp add: content_def store1_def map_update union_assoc [symmetric] split: if_splits)

lemma fetch_path_Suc: "fetch_path d Z a (Suc q) TS = fetch1 (slot d Z a q) q (fetch_path d Z a q TS)"
  by (simp add: fetch_path_def)

lemma store_path_Suc: "store_path d Z a (Suc q) TS = store1 (slot d Z a q) q (store_path d Z a q TS)"
  by (simp add: store_path_def)

lemma fetch_path_spec:
  assumes T: "length T = 2 ^ d * Z" and S: "d * Z \<le> length S" and a: "a < 2 ^ (d - 1)"
    and front: "\<And>k. k < d * Z \<Longrightarrow> b_valid (snd (S ! k)) = 0"
  shows "q \<le> d * Z \<Longrightarrow> \<exists>T' S'. fetch_path d Z a q (T, S) = (T', S') \<and>
    length T' = length T \<and> length S' = length S \<and>
    (\<forall>k < q. T' ! slot d Z a k = (T ! slot d Z a k)\<lparr>b_valid := 0\<rparr>) \<and>
    (\<forall>p < length T. (\<forall>k < q. p \<noteq> slot d Z a k) \<longrightarrow> T' ! p = T ! p) \<and>
    (\<forall>k < q. S' ! k = (fst (S ! k), T ! slot d Z a k)) \<and>
    (\<forall>k < length S. q \<le> k \<longrightarrow> S' ! k = S ! k) \<and>
    mset (content (T', S')) = mset (content (T, S))"
proof (induction q)
  case 0
  then show ?case by (simp add: fetch_path_def)
next
  case (Suc q)
  then obtain T' S' where IH: "fetch_path d Z a q (T, S) = (T', S')" "length T' = length T" "length S' = length S"
    "\<forall>k < q. T' ! slot d Z a k = (T ! slot d Z a k)\<lparr>b_valid := 0\<rparr>"
    "\<forall>p < length T. (\<forall>k < q. p \<noteq> slot d Z a k) \<longrightarrow> T' ! p = T ! p"
    "\<forall>k < q. S' ! k = (fst (S ! k), T ! slot d Z a k)" "\<forall>k < length S. q \<le> k \<longrightarrow> S' ! k = S ! k"
    "mset (content (T', S')) = mset (content (T, S))" by auto
  let ?p = "slot d Z a q"
  have q: "q < d * Z" "q < length S" using Suc.prems S by auto
  have p: "?p < length T" using slot_bounds [OF a q(1)] T by simp
  have ne: "slot d Z a k \<noteq> ?p" if "k < q" for k using slot_inj [OF a _ q(1), of k] that q(1) by auto
  have Tp: "T' ! ?p = T ! ?p" using IH(5) p ne by metis
  have Sq: "S' ! q = S ! q" using IH(7) q by simp
  have run: "fetch_path d Z a (Suc q) (T, S) = (T'[?p := (T ! ?p)\<lparr>b_valid := 0\<rparr>], S'[q := (fst (S ! q), T ! ?p)])"
    unfolding fetch_path_Suc IH(1) by (simp add: fetch1_def Tp Sq)
  have "mset (content (fetch1 ?p q (T', S'))) = mset (content (T, S))"
    using content_fetch1 [of ?p T' q S'] p q IH(2,3,8) Sq front by simp
  then have c: "mset (content (T'[?p := (T ! ?p)\<lparr>b_valid := 0\<rparr>], S'[q := (fst (S ! q), T ! ?p)])) = mset (content (T, S))"
    by (simp add: fetch1_def Tp Sq)
  show ?case unfolding run
    by (rule exI [of _ "T'[?p := (T ! ?p)\<lparr>b_valid := 0\<rparr>]"], rule exI [of _ "S'[q := (fst (S ! q), T ! ?p)]"])
      (use IH(2-7) p q ne ne [symmetric] c in \<open>auto simp: nth_list_update less_Suc_eq\<close>)
qed

lemma store_path_spec:
  assumes T: "length T = 2 ^ d * Z" and S: "d * Z \<le> length S" and a: "a < 2 ^ (d - 1)"
    and free: "\<And>k. k < d * Z \<Longrightarrow> b_valid (T ! slot d Z a k) = 0"
  shows "q \<le> d * Z \<Longrightarrow> \<exists>T' S'. store_path d Z a q (T, S) = (T', S') \<and>
    length T' = length T \<and> length S' = length S \<and>
    (\<forall>k < q. T' ! slot d Z a k = snd (S ! k)) \<and>
    (\<forall>p < length T. (\<forall>k < q. p \<noteq> slot d Z a k) \<longrightarrow> T' ! p = T ! p) \<and>
    (\<forall>k < q. S' ! k = (fst (S ! k), (snd (S ! k))\<lparr>b_valid := 0\<rparr>)) \<and>
    (\<forall>k < length S. q \<le> k \<longrightarrow> S' ! k = S ! k) \<and>
    mset (content (T', S')) = mset (content (T, S))"
proof (induction q)
  case 0
  then show ?case by (simp add: store_path_def)
next
  case (Suc q)
  then obtain T' S' where IH: "store_path d Z a q (T, S) = (T', S')" "length T' = length T" "length S' = length S"
    "\<forall>k < q. T' ! slot d Z a k = snd (S ! k)"
    "\<forall>p < length T. (\<forall>k < q. p \<noteq> slot d Z a k) \<longrightarrow> T' ! p = T ! p"
    "\<forall>k < q. S' ! k = (fst (S ! k), (snd (S ! k))\<lparr>b_valid := 0\<rparr>)" "\<forall>k < length S. q \<le> k \<longrightarrow> S' ! k = S ! k"
    "mset (content (T', S')) = mset (content (T, S))" by auto
  let ?p = "slot d Z a q"
  have q: "q < d * Z" "q < length S" using Suc.prems S by auto
  have p: "?p < length T" using slot_bounds [OF a q(1)] T by simp
  have ne: "slot d Z a k \<noteq> ?p" if "k < q" for k using slot_inj [OF a _ q(1), of k] that q(1) by auto
  have Tp: "T' ! ?p = T ! ?p" using IH(5) p ne by metis
  have Sq: "S' ! q = S ! q" using IH(7) q by simp
  have run: "store_path d Z a (Suc q) (T, S) = (T'[?p := snd (S ! q)], S'[q := (fst (S ! q), (snd (S ! q))\<lparr>b_valid := 0\<rparr>)])"
    unfolding store_path_Suc IH(1) by (simp add: store1_def Tp Sq)
  have "mset (content (store1 ?p q (T', S'))) = mset (content (T, S))"
    using content_store1 [of ?p T' q S'] p q IH(2,3,8) Tp free by simp
  then have c: "mset (content (T'[?p := snd (S ! q)], S'[q := (fst (S ! q), (snd (S ! q))\<lparr>b_valid := 0\<rparr>)])) = mset (content (T, S))"
    by (simp add: store1_def Tp Sq)
  show ?case unfolding run
    by (rule exI [of _ "T'[?p := snd (S ! q)]"], rule exI [of _ "S'[q := (fst (S ! q), (snd (S ! q))\<lparr>b_valid := 0\<rparr>)]"])
      (use IH(2-7) p q ne ne [symmetric] c in \<open>auto simp: nth_list_update less_Suc_eq\<close>)
qed

end
