(* ===== verification/PathOramAccess.thy ===== *)
theory PathOramAccess
  imports PathOramProof
begin

text \<open>
  The invariant of the Path ORAM and the proof that \<^verbatim>\<open>Access_ORAM\<close> refines a map from block ids
  to block contents.
\<close>

section \<open>The position map\<close>

definition pm_valid :: "16 word \<Rightarrow> bool" where
  "pm_valid e \<longleftrightarrow> uint e AND POSMAP_VALID_MASK \<noteq> 0"

definition pm_leaf :: "16 word \<Rightarrow> int" where
  "pm_leaf e = uint e AND POSMAP_LEAF_MASK"

definition pm_pack :: "int \<Rightarrow> 16 word" where
  "pm_pack leaf = word_of_int (leaf OR POSMAP_VALID_MASK)"

lemma masks: "POSMAP_LEAF_MASK = mask 15" "POSMAP_VALID_MASK = 2 ^ 15"
  by (simp_all add: POSMAP_LEAF_MASK_def POSMAP_VALID_MASK_def mask_eq_exp_minus_1)

lemma bit_masks: "bit POSMAP_LEAF_MASK k \<longleftrightarrow> k < 15" "bit POSMAP_VALID_MASK k \<longleftrightarrow> k = 15"
  unfolding masks bit_mask_iff bit_exp_iff by auto

lemma pm_repack: "word_of_int ((uint e AND POSMAP_LEAF_MASK) OR (uint e AND POSMAP_VALID_MASK)) = (e :: 16 word)"
  by (rule bit_eqI) (auto simp: bit_word_of_int_iff bit_or_iff bit_and_iff bit_masks bit_uint_iff
      simp del: of_int_or_eq of_int_and_eq)

lemma pm_valid_mask: "pm_valid e \<Longrightarrow> uint e AND POSMAP_VALID_MASK = POSMAP_VALID_MASK"
proof -
  assume "pm_valid e"
  then obtain k where "bit (uint e AND POSMAP_VALID_MASK) k" unfolding pm_valid_def by (auto simp: bit_eq_iff)
  then have "bit (uint e) 15" by (auto simp: bit_and_iff bit_masks)
  then show ?thesis by (intro bit_eqI) (auto simp: bit_and_iff bit_masks)
qed

lemma pm_pack_simps:
  assumes "0 \<le> l" "l < 2 ^ 15"
  shows "pm_valid (pm_pack l)" "pm_leaf (pm_pack l) = l"
proof -
  have l: "\<not> bit l k" if "15 \<le> k" for k
  proof -
    have "l = take_bit 15 l" using assms by (simp add: take_bit_int_eq_self)
    then show ?thesis using that by (metis bit_take_bit_iff not_le)
  qed
  have bits: "bit (uint (pm_pack l)) k \<longleftrightarrow> k < 16 \<and> (bit l k \<or> k = 15)" for k
    unfolding pm_pack_def
    by (auto simp: bit_uint_iff bit_word_of_int_iff bit_or_iff bit_masks simp del: of_int_or_eq)
  have "bit (uint (pm_pack l) AND POSMAP_VALID_MASK) 15" by (simp add: bit_and_iff bits bit_masks)
  then show "pm_valid (pm_pack l)" unfolding pm_valid_def by auto
  show "pm_leaf (pm_pack l) = l" unfolding pm_leaf_def
  proof (rule bit_eqI)
    fix k
    have "k < 15" if "bit l k" using l that not_le by blast
    then show "bit (uint (pm_pack l) AND POSMAP_LEAF_MASK) k = bit l k"
      by (auto simp: bit_and_iff bits bit_masks)
  qed
qed

lemma Retrieve_loop:
  assumes i: "i < length P"
  shows "for_loop 0 (length P) (Retrieve_entry (int i) nl) (P, al, 0) =
    Some (P[i := pm_pack nl], if pm_valid (P ! i) then pm_leaf (P ! i) else al, of_bool (\<not> pm_valid (P ! i)))"
proof -
  let ?P = "\<lambda>k. if i < k then P[i := pm_pack nl] else P"
  let ?a = "\<lambda>k. if i < k \<and> pm_valid (P ! i) then pm_leaf (P ! i) else al"
  let ?n = "\<lambda>k. of_bool (i < k \<and> \<not> pm_valid (P ! i)) :: int"
  have "for_loop 0 (length P) (Retrieve_entry (int i) nl) (P, al, 0) = Some (?P (length P), ?a (length P), ?n (length P))"
  proof (rule for_loop_eq [where g = "\<lambda>k. (?P k, ?a k, ?n k)"])
    fix k assume k: "k < length P"
    have Pk: "?P k ! k = P ! k" "k < length (?P k)" using k by auto
    show "Retrieve_entry (int i) nl k (?P k, ?a k, ?n k) = Some (?P (Suc k), ?a (Suc k), ?n (Suc k))"
    proof (cases "k = i")
      case False
      have same: "(?P k)[k := P ! k] = ?P k" using list_update_id [of "?P k" k] unfolding Pk .
      have "i < Suc k \<longleftrightarrow> i < k" using False by auto
      moreover have "Retrieve_entry (int i) nl k (?P k, ?a k, ?n k) = Some ((?P k)[k := P ! k], ?a k, ?n k)"
        using Pk False by (simp add: Retrieve_entry_def Let_def pm_repack split del: if_split)
      ultimately show ?thesis unfolding same by simp
    next
      case True
      show ?thesis
      proof (cases "pm_valid (P ! i)")
        case v: True
        then show ?thesis using Pk True i pm_valid_mask [OF v]
          by (simp add: Retrieve_entry_def Let_def pm_pack_def pm_leaf_def) (simp add: pm_valid_def)
      next
        case v: False
        then have "uint (P ! i) AND POSMAP_VALID_MASK = 0" by (simp add: pm_valid_def)
        then show ?thesis using Pk True i v
          by (simp add: Retrieve_entry_def Let_def pm_pack_def)
      qed
    qed
  qed auto
  then show ?thesis using i by simp
qed


section \<open>Maps from ids to contents\<close>

definition cmap :: "sblock list \<Rightarrow> int \<Rightarrow> int list option" where
  "cmap C = map_of (map (\<lambda>b. (b_id b, b_dat b)) C)"

lemma cmap_iff:
  assumes "distinct (map b_id C)"
  shows "cmap C k = Some x \<longleftrightarrow> (\<exists>b \<in> set C. b_id b = k \<and> b_dat b = x)"
proof -
  have "distinct (map fst (map (\<lambda>b. (b_id b, b_dat b)) C))" using assms by (simp add: comp_def)
  then show ?thesis unfolding cmap_def by (auto simp: map_of_eq_Some_iff)
qed

lemma cmap_dom: "dom (cmap C) = b_id ` set C"
  by (simp add: cmap_def dom_map_of_conv_image_fst image_image)

lemma distinct_ids_mset: "mset C' = mset C \<Longrightarrow> distinct (map b_id C) \<Longrightarrow> distinct (map b_id C')"
  by (metis mset_eq_imp_distinct_iff mset_map)

lemma cmap_mset: "mset C' = mset C \<Longrightarrow> distinct (map b_id C) \<Longrightarrow> cmap C' = cmap C"
proof (rule ext, rule option.expand)
  fix k assume *: "mset C' = mset C" "distinct (map b_id C)"
  then have "set C' = set C" using mset_eq_setD by blast
  then have eq: "cmap C' k = Some x \<longleftrightarrow> cmap C k = Some x" for x
    using cmap_iff [OF *(2)] cmap_iff [OF distinct_ids_mset [OF *]] by simp
  show "(cmap C' k = None) = (cmap C k = None)" using eq by (metis not_Some_eq)
  show "\<lbrakk>cmap C' k \<noteq> None; cmap C k \<noteq> None\<rbrakk> \<Longrightarrow> the (cmap C' k) = the (cmap C k)" using eq by force
qed

lemma remove_by_id:
  "distinct (map b_id C) \<Longrightarrow> x \<in> set C \<Longrightarrow> mset C - {#x#} = mset (filter (\<lambda>b. b_id b \<noteq> b_id x) C)"
proof (induction C)
  case (Cons c C)
  show ?case
  proof (cases "c = x")
    case True
    then have "\<forall>b \<in> set C. b_id b \<noteq> b_id x" using Cons.prems(1) by (metis distinct.simps(2) image_eqI list.set_map list.simps(9))
    then have "filter (\<lambda>b. b_id b \<noteq> b_id x) C = C" by (simp add: filter_id_conv)
    then show ?thesis using True by simp
  next
    case False
    then have x: "x \<in> set C" using Cons.prems by simp
    then have "b_id c \<noteq> b_id x" using Cons.prems by auto
    moreover have "mset (c # C) - {#x#} = add_mset c (mset C - {#x#})" using False x by simp
    ultimately show ?thesis using Cons.IH x Cons.prems by simp
  qed
qed simp

text \<open>Replacing the block of one id.\<close>

definition replaced :: "sblock list \<Rightarrow> sblock \<Rightarrow> sblock list \<Rightarrow> bool" where
  "replaced C b C' \<longleftrightarrow> mset C' = add_mset b (mset (filter (\<lambda>c. b_id c \<noteq> b_id b) C))"

lemma replaced_set: "replaced C b C' \<Longrightarrow> set C' = insert b {c \<in> set C. b_id c \<noteq> b_id b}"
  unfolding replaced_def by (metis mset_eq_setD mset.simps(2) list.simps(15) set_filter)

lemma replaced_distinct: "replaced C b C' \<Longrightarrow> distinct (map b_id C) \<Longrightarrow> distinct (map b_id C')"
proof -
  assume *: "replaced C b C'" "distinct (map b_id C)"
  have "distinct (map b_id (b # filter (\<lambda>c. b_id c \<noteq> b_id b) C))"
    using *(2) by (auto simp: distinct_map_filter)
  moreover have "mset C' = mset (b # filter (\<lambda>c. b_id c \<noteq> b_id b) C)" using *(1) by (simp add: replaced_def)
  ultimately show ?thesis using distinct_ids_mset by blast
qed

lemma replaced_cmap:
  assumes "replaced C b C'" "distinct (map b_id C)"
  shows "cmap C' = (cmap C)(b_id b \<mapsto> b_dat b)"
proof -
  have "cmap C' = cmap (b # filter (\<lambda>c. b_id c \<noteq> b_id b) C)"
    using assms by (intro cmap_mset) (auto simp: replaced_def distinct_map_filter)
  also have "\<dots> = (cmap C)(b_id b \<mapsto> b_dat b)"
  proof
    fix k
    have "map_of (map (\<lambda>b. (b_id b, b_dat b)) (filter (\<lambda>c. b_id c \<noteq> b_id b) C)) k
        = map_of (map (\<lambda>b. (b_id b, b_dat b)) C) k" if "k \<noteq> b_id b"
      using that by (induction C) auto
    then show "cmap (b # filter (\<lambda>c. b_id c \<noteq> b_id b) C) k = ((cmap C)(b_id b \<mapsto> b_dat b)) k"
      by (simp add: cmap_def)
  qed
  finally show ?thesis .
qed

lemma replaced_length:
  assumes "replaced C b C'" "distinct (map b_id C)"
  shows "length C' = card (insert (b_id b) (dom (cmap C)))"
proof -
  have "length C' = card (dom (cmap C'))"
    using replaced_distinct [OF assms] by (metis cmap_dom distinct_card length_map list.set_map)
  then show ?thesis by (simp add: replaced_cmap [OF assms])
qed

section \<open>The invariant\<close>

definition mem_inv :: "nat \<Rightarrow> nat \<Rightarrow> 16 word list \<Rightarrow> sblock list \<times> entry list \<Rightarrow> bool" where
  "mem_inv d Z P = (\<lambda>(T, S).
     (\<forall>b \<in> set T. valid01 b) \<and> (\<forall>e \<in> set S. valid01 (snd e)) \<and>
     (\<forall>p < length T. b_valid (T ! p) \<noteq> 0 \<longrightarrow> (\<exists>i < d. p div Z = bucket d (nat (b_leaf (T ! p))) i)) \<and>
     (\<forall>b \<in> set (content (T, S)). 0 \<le> b_id b \<and> b_id b < int (length P) \<and> leaf_ok d b \<and>
        pm_valid (P ! nat (b_id b)) \<and> b_leaf b = pm_leaf (P ! nat (b_id b))) \<and>
     distinct (map b_id (content (T, S))) \<and>
     (\<forall>i < length P. pm_valid (P ! i) \<longrightarrow> (\<exists>b \<in> set (content (T, S)). b_id b = int i)) \<and>
     (\<forall>k < d * Z. b_valid (snd (S ! k)) = 0))"

lemma mem_invD:
  assumes "mem_inv d Z P (T, S)"
  shows "\<And>b. b \<in> set T \<Longrightarrow> valid01 b" "\<And>e. e \<in> set S \<Longrightarrow> valid01 (snd e)"
    "\<And>p. p < length T \<Longrightarrow> b_valid (T ! p) \<noteq> 0 \<Longrightarrow> \<exists>i < d. p div Z = bucket d (nat (b_leaf (T ! p))) i"
    "\<And>b. b \<in> set (content (T, S)) \<Longrightarrow> 0 \<le> b_id b \<and> b_id b < int (length P) \<and> leaf_ok d b \<and>
        pm_valid (P ! nat (b_id b)) \<and> b_leaf b = pm_leaf (P ! nat (b_id b))"
    "distinct (map b_id (content (T, S)))"
    "\<And>i. i < length P \<Longrightarrow> pm_valid (P ! i) \<Longrightarrow> \<exists>b \<in> set (content (T, S)). b_id b = int i"
    "\<And>k. k < d * Z \<Longrightarrow> b_valid (snd (S ! k)) = 0"
  using assms unfolding mem_inv_def prod.case by blast+

lemma set_content: "set (content (T, S)) = {b \<in> set T \<union> snd ` set S. b_valid b \<noteq> 0}"
  by (auto simp: content_def)

lemma distinct_filter_nth:
  "distinct (map f (filter P xs)) \<Longrightarrow> i < length xs \<Longrightarrow> j < length xs \<Longrightarrow> P (xs ! i) \<Longrightarrow> P (xs ! j) \<Longrightarrow>
     f (xs ! i) = f (xs ! j) \<Longrightarrow> i = j"
proof (induction xs arbitrary: i j)
  case (Cons x xs)
  have mem: "f (xs ! k) \<in> set (map f (filter P xs))" if "k < length xs" "P (xs ! k)" for k using that by auto
  have head: "f x \<notin> set (map f (filter P xs))" if "P x" using Cons.prems(1) that by simp
  have tl: "distinct (map f (filter P xs))" using Cons.prems(1) by (simp split: if_splits)
  show ?case
  proof (cases i)
    case 0
    then show ?thesis using Cons.prems mem [of "j - 1"] head by (cases j) auto
  next
    case (Suc i')
    then show ?thesis using Cons.prems mem [of i'] head Cons.IH [OF tl, of i' "j - 1"] by (cases j) auto
  qed
qed simp


section \<open>After the path has been fetched\<close>

definition fetched :: "nat \<Rightarrow> nat \<Rightarrow> nat \<Rightarrow> sblock list \<times> entry list \<Rightarrow> sblock list \<times> entry list \<Rightarrow> bool" where
  "fetched d Z a = (\<lambda>(T, S) (T', S').
     length T' = length T \<and> length S' = length S \<and>
     (\<forall>k < d * Z. T' ! slot d Z a k = (T ! slot d Z a k)\<lparr>b_valid := 0\<rparr>) \<and>
     (\<forall>p < length T. (\<forall>k < d * Z. p \<noteq> slot d Z a k) \<longrightarrow> T' ! p = T ! p) \<and>
     (\<forall>k < d * Z. S' ! k = (fst (S ! k), T ! slot d Z a k)) \<and>
     (\<forall>k < length S. d * Z \<le> k \<longrightarrow> S' ! k = S ! k) \<and>
     mset (content (T', S')) = mset (content (T, S)))"

lemma fetch_path_fetched:
  assumes "length T = 2 ^ d * Z" "d * Z \<le> length S" "a < 2 ^ (d - 1)" "mem_inv d Z P (T, S)"
  shows "fetched d Z a (T, S) (fetch_path d Z a (d * Z) (T, S))"
proof -
  have "b_valid (snd (S ! k)) = 0" if "k < d * Z" for k using assms(4) that by (simp add: mem_inv_def)
  from fetch_path_spec [OF assms(1-3) this order.refl] show ?thesis by (auto simp: fetched_def)
qed

lemma fetched_unique:
  assumes inv: "mem_inv d Z P (T, S)" and F: "fetched d Z a (T, S) (T', S')"
    and "i < length S'" "j < length S'" "id_matches bid (snd (S' ! i))" "id_matches bid (snd (S' ! j))"
  shows "i = j"
proof -
  have "distinct (map b_id (content (T', S')))"
    using inv F distinct_ids_mset by (simp add: mem_inv_def fetched_def) blast
  then have "distinct (map b_id (filter (\<lambda>b. b_valid b \<noteq> 0) (map snd S')))" by (simp add: content_def)
  from distinct_filter_nth [OF this, of i j] assms(3-6) show ?thesis by (simp add: id_matches_def)
qed

lemma fetched_match:
  assumes inv: "mem_inv d Z P (T, S)" and F: "fetched d Z a (T, S) (T', S')"
    and Z: "0 < Z" and S: "d * Z \<le> length S"
    and i: "i < length P" "pm_valid (P ! i)" "pm_leaf (P ! i) = int a"
  shows "\<exists>m < length S'. id_matches (int i) (snd (S' ! m)) \<and>
    cmap (content (T, S)) (int i) = Some (b_dat (snd (S' ! m)))"
proof -
  obtain b where b: "b \<in> set (content (T, S))" "b_id b = int i"
    using mem_invD(6) [OF inv i(1,2)] by blast
  have leaf: "b_leaf b = int a" using mem_invD(4) [OF inv b(1)] b(2) i(3) by simp
  have "\<exists>m < length S'. snd (S' ! m) = b"
  proof (cases "b \<in> set T")
    case True
    then obtain p where p: "p < length T" "T ! p = b" by (auto simp: in_set_conv_nth)
    have "b_valid b \<noteq> 0" using b(1) by (simp add: set_content)
    then obtain l where "l < d" "p div Z = bucket d a l"
      using mem_invD(3) [OF inv p(1)] p(2) leaf by auto
    then obtain k where k: "k < d * Z" "p = slot d Z a k" using slot_ex [OF Z] by blast
    then have "k < length S'" "snd (S' ! k) = b" using F p S by (auto simp: fetched_def)
    then show ?thesis by blast
  next
    case False
    then obtain k where k: "k < length S" "snd (S ! k) = b" "b_valid b \<noteq> 0"
      using b(1) by (auto simp: set_content in_set_conv_nth)
    then have "d * Z \<le> k" using mem_invD(7) [OF inv, of k] by (cases "k < d * Z") auto
    then have "k < length S'" "snd (S' ! k) = b" using F k by (auto simp: fetched_def)
    then show ?thesis by blast
  qed
  then obtain m where m: "m < length S'" "snd (S' ! m) = b" by blast
  moreover have "cmap (content (T, S)) (int i) = Some (b_dat b)"
    using mem_invD(5) [OF inv] b by (subst cmap_iff) auto
  ultimately show ?thesis using b by (auto simp: id_matches_def set_content)
qed

lemma absent_id:
  assumes inv: "mem_inv d Z P (T, S)" and "i < length P" "\<not> pm_valid (P ! i)"
  shows "int i \<notin> b_id ` set (content (T, S))"
proof
  assume "int i \<in> b_id ` set (content (T, S))"
  then obtain b where "b \<in> set (content (T, S))" "b_id b = int i" by auto
  then show False using mem_invD(4) [OF inv, of b] assms(3) by simp
qed

lemma fetched_absent:
  assumes inv: "mem_inv d Z P (T, S)" and F: "fetched d Z a (T, S) (T', S')"
    and i: "i < length P" "\<not> pm_valid (P ! i)" and j: "j < length S'"
  shows "\<not> id_matches (int i) (snd (S' ! j))"
proof
  assume "id_matches (int i) (snd (S' ! j))"
  then have "snd (S' ! j) \<in> set (content (T', S'))" "b_id (snd (S' ! j)) = int i"
    using j by (auto simp: set_content id_matches_def)
  moreover have "set (content (T', S')) = set (content (T, S))" using F mset_eq_setD by (auto simp: fetched_def)
  ultimately show False using absent_id [OF inv i] by force
qed

lemma fetched_replace:
  assumes inv: "mem_inv d Z P (T, S)" and F: "fetched d Z a (T, S) (T', S')"
    and m: "m < length S'" and nb: "b_valid nb \<noteq> 0"
    and which: "id_matches (b_id nb) (snd (S' ! m)) \<or>
      b_valid (snd (S' ! m)) = 0 \<and> b_id nb \<notin> b_id ` set (content (T, S))"
  shows "replaced (content (T, S)) nb (content (T', S'[m := (k, nb)]))"
proof -
  let ?P = "\<lambda>b. b_valid b \<noteq> 0" let ?C = "content (T, S)" let ?old = "snd (S' ! m)"
  have C: "mset (content (T', S')) = mset ?C" and dist: "distinct (map b_id ?C)"
    using mem_invD(5) [OF inv] F by (auto simp: fetched_def)
  have upd: "mset (content (T', S'[m := (k, nb)])) + mset (filter ?P [?old]) = add_mset nb (mset ?C)"
  proof -
    have "mset (content (T', S'[m := (k, nb)])) + mset (filter ?P [?old]) = add_mset nb (mset (content (T', S')))"
      using mset_filter_update [of m "map snd S'" ?P nb] m nb
      by (simp add: content_def map_update union_assoc)
    then show ?thesis using C by simp
  qed
  from which show ?thesis
  proof
    assume o: "id_matches (b_id nb) ?old"
    then have "?old \<in> set (content (T', S'))" using m by (auto simp: set_content id_matches_def)
    then have mem: "?old \<in> set ?C" using mset_eq_setD [OF C] by simp
    have "mset (content (T', S'[m := (k, nb)])) = add_mset nb (mset ?C) - {#?old#}"
      using upd o by (simp add: id_matches_def) (metis add_mset_remove_trivial)
    also have "\<dots> = add_mset nb (mset ?C - {#?old#})" using mem by (metis add_mset_remove_trivial_eq
          insert_DiffM add_mset_diff_bothsides diff_union_swap2 set_mset_mset)
    also have "\<dots> = add_mset nb (mset (filter (\<lambda>b. b_id b \<noteq> b_id ?old) ?C))" using remove_by_id [OF dist mem] by simp
    finally show ?thesis using o by (simp add: replaced_def id_matches_def)
  next
    assume o: "b_valid ?old = 0 \<and> b_id nb \<notin> b_id ` set ?C"
    then have "\<forall>c \<in> set ?C. b_id c \<noteq> b_id nb" by (metis image_eqI)
    then have "filter (\<lambda>c. b_id c \<noteq> b_id nb) ?C = ?C" by (simp add: filter_id_conv)
    then show ?thesis using upd o by (simp add: replaced_def)
  qed
qed

text \<open>There is room for a new block as long as the ids fit.\<close>

lemma content_length: "distinct (map b_id C) \<Longrightarrow> length C = card (dom (cmap C))"
  by (metis cmap_dom distinct_card length_map list.set_map)

lemma free_entry:
  assumes "length (filter (\<lambda>e. b_valid (snd e) \<noteq> 0) S) < length S"
  obtains f where "f < length S" "b_valid (snd (S ! f)) = 0" "\<And>j. j < f \<Longrightarrow> b_valid (snd (S ! j)) \<noteq> 0"
proof -
  let ?inv = "\<lambda>f. f < length S \<and> b_valid (snd (S ! f)) = 0"
  have "\<exists>f. ?inv f"
  proof (rule ccontr)
    assume "\<nexists>f. ?inv f"
    then have "\<forall>e \<in> set S. b_valid (snd e) \<noteq> 0" by (metis in_set_conv_nth)
    then have "filter (\<lambda>e. b_valid (snd e) \<noteq> 0) S = S" by (simp add: filter_id_conv)
    then show False using assms by simp
  qed
  then have "?inv (LEAST f. ?inv f)" by (metis (mono_tags, lifting) LeastI)
  moreover have "b_valid (snd (S ! j)) \<noteq> 0" if "j < (LEAST f. ?inv f)" for j
    using not_less_Least [OF that] that calculation by auto
  ultimately show thesis using that by blast
qed


section \<open>Storing\<close>

lemma reset_loop: "length xs = n \<Longrightarrow> for_loop 0 n (\<lambda>i xs. wr xs i v) xs = Some (replicate n v)"
proof -
  assume n: "length xs = n"
  have "for_loop 0 n (\<lambda>i xs. wr xs i v) xs = Some (replicate n v @ drop n xs)"
  proof (rule for_loop_eq [where g = "\<lambda>i. replicate i v @ drop i xs"])
    fix i assume i: "i < n"
    have "(replicate i v @ drop i xs)[i := v] = replicate (Suc i) v @ drop (Suc i) xs"
      using i n by (simp add: list_update_append Cons_nth_drop_Suc [symmetric] replicate_append_same)
    then show "wr (replicate i v @ drop i xs) i v = Some (replicate (Suc i) v @ drop (Suc i) xs)"
      using i n by (simp add: wr_def)
  qed simp_all
  then show ?thesis using n by simp
qed

lemma dat_of_map_snd: "map snd S' = map snd S \<Longrightarrow> map dat_of S' = map dat_of S"
  by (metis (no_types, lifting) comp_apply dat_of_def list.map_comp map_eq_conv)

lemma Store_Blocks_eq:
  assumes dims: "0 < bucket_size s" "1 \<le> tree_depth s" "tree_depth s \<le> 32" "a < 2 ^ (tree_depth s - 1)"
      "tree_depth s * bucket_size s \<le> nat max_int"
    and bufs: "length (wb_path s) = tree_depth s * bucket_size s" "length (occupied s) = tree_depth s"
    and mem: "ok_mem (block_size s) (2 ^ tree_depth s * bucket_size s) (stash_size s) (T, S)"
      "tree_depth s * bucket_size s \<le> stash_size s"
    and srt: "store_sorter (store_sort_func s) (stash_size s) (block_size s)"
  shows "\<exists>wb occ S'. Store_Blocks (int a) (with_mem s (T, S)) =
      Some (with_mem (s\<lparr>wb_path := wb, occupied := occ\<rparr>)
        (store_path (tree_depth s) (bucket_size s) a (tree_depth s * bucket_size s) (T, S'))) \<and>
    length wb = tree_depth s * bucket_size s \<and> length occ = tree_depth s \<and>
    mset (map snd S') = mset (map snd S) \<and> keyed (tree_depth s) (bucket_size s) a S' \<and> sorted_wrt entry_le S' \<and>
    ok_mem (block_size s) (2 ^ tree_depth s * bucket_size s) (stash_size s) (T, S')"
proof -
  let ?d = "tree_depth s" and ?Z = "bucket_size s" and ?B = "block_size s"
  have lS: "length S = stash_size s" and okT: "ok_tree ?B T" "length T = 2 ^ ?d * ?Z" and okS: "ok_stash ?B S"
    using mem(1) by (simp_all add: ok_mem_def)
  obtain wb occ S1 where 1: "for_loop 0 (length S) (Assign_key ?Z ?d (int a))
      (replicate (?d * ?Z) (-1), replicate ?d 0, concat (map info_of S)) = Some (wb, occ, concat (map info_of S1))"
      "map snd S1 = map snd S" "assigned ?d ?Z a (length S) S1 wb occ"
    using Assign_loop [OF dims(1-5), of S] by blast
  have l1: "length S1 = length S" using 1(2) by (metis length_map)
  obtain S2 where 2: "for_loop 0 (?d * ?Z) (Extra_key (length S1) wb) (concat (map info_of S1)) =
      Some (concat (map info_of S2))" "map snd S2 = map snd S1" "keyed ?d ?Z a S2"
    using Extra_loop [OF _ dims(1,5), of a S1 wb occ] 1(3) l1 by auto
  have l2: "length S2 = stash_size s" using 2(2) l1 lS by (metis length_map)
  have snd2: "map snd S2 = map snd S" using 1(2) 2(2) by simp
  have ok2: "ok_stash ?B S2"
    using okS snd2 unfolding ok_stash_def by (metis (mono_tags, lifting) imageE image_eqI list.set_map)
  obtain S3 where 3: "store_sort_func s (concat (map info_of S2)) (concat (map dat_of S2)) (stash_size s) 0 1 1 1 4 ?B =
      Some (concat (map info_of S3), concat (map dat_of S3))" "mset S3 = mset S2" "sorted_wrt entry_le S3"
    using store_sorter.sort_entries [OF srt ok2 l2] by blast
  have ok3: "ok_mem ?B (2 ^ ?d * ?Z) (stash_size s) (T, S3)"
    using okT ok2 l2 3(2) mset_eq_setD [OF 3(2)] mset_eq_length [OF 3(2)] by (simp add: ok_mem_def ok_stash_def)
  let ?s = "s\<lparr>wb_path := wb, occupied := occ\<rparr>"
  have st: "Store_path (int a) (with_mem ?s (T, S3)) = Some (with_mem ?s (store_path ?d ?Z a (?d * ?Z) (T, S3)))"
    using Store_path_eq [of ?s a "stash_size s" "(T, S3)"] dims ok3 mem(2) by simp
  have ws: "(with_mem s (T, S))\<lparr>wb_path := wb, occupied := occ, stash_info := concat (map info_of S3),
      stash_data := concat (map dat_of S3)\<rparr> = with_mem ?s (T, S3)"
    by (simp add: with_mem_def mem_of_def)
  have si: "stash_info (with_mem s (T, S)) = concat (map info_of S)"
    "stash_data (with_mem s (T, S)) = concat (map dat_of S2)"
    using dat_of_map_snd [OF snd2] by (simp_all add: with_mem_def mem_of_def)
  have "Store_Blocks (int a) (with_mem s (T, S)) = Some (with_mem ?s (store_path ?d ?Z a (?d * ?Z) (T, S3)))"
    unfolding Store_Blocks_def Let_def with_mem_simps si
    using reset_loop [OF bufs(1), of "-1"] reset_loop [OF bufs(2), of 0] 1(1) 2(1) 3(1) lS l1 st
    by (simp add: ws)
  moreover have "mset (map snd S3) = mset (map snd S)" using 3(2) snd2 by (metis mset_map)
  moreover have "keyed ?d ?Z a S3" by (rule keyed_mset [OF 2(3) 3(2)])
  moreover have "length wb = ?d * ?Z" "length occ = ?d" using 1(3) by (simp_all add: assigned_def)
  ultimately show ?thesis using 3(3) ok3 by blast
qed


lemma content_snd: "mset (map snd S') = mset (map snd S) \<Longrightarrow> mset (content (T, S')) = mset (content (T, S))"
  by (simp add: content_def del: mset_map)

lemma fetched_valid01:
  assumes inv: "mem_inv d Z P (T, S)" and F: "fetched d Z a (T, S) (T', S')"
    and T: "length T = 2 ^ d * Z" and a: "a < 2 ^ (d - 1)"
  shows "\<And>e. e \<in> set S' \<Longrightarrow> valid01 (snd e)"
proof -
  fix e assume "e \<in> set S'"
  then obtain k where k: "k < length S" "e = S' ! k" using F by (auto simp: in_set_conv_nth fetched_def)
  show "valid01 (snd e)"
  proof (cases "k < d * Z")
    case True
    then have "snd e = T ! slot d Z a k" "slot d Z a k < length T"
      using F k slot_bounds [OF a True] T by (simp_all add: fetched_def)
    then show ?thesis using mem_invD(1) [OF inv] by simp
  next
    case False
    then have "e = S ! k" using F k by (simp add: fetched_def)
    then show ?thesis using mem_invD(2) [OF inv] k(1) by simp
  qed
qed

lemma store_inv:
  assumes inv: "mem_inv d Z P (T, S)" and F: "fetched d Z a (T, S) (T1, S1)"
    and dims: "length T = 2 ^ d * Z" "d * Z \<le> length S" "0 < Z" "a < 2 ^ (d - 1)" "d * Z \<le> nat max_int" "d \<le> 15"
    and nb: "nb = \<lparr>b_valid = 1, b_id = int i, b_leaf = int nl, b_dat = dat\<rparr>" "i < length P" "nl < 2 ^ (d - 1)"
    and m: "m < length S1" and rep: "replaced (content (T, S)) nb (content (T1, S1[m := (k, nb)]))"
    and S3: "mset (map snd S3) = mset (map snd (S1[m := (k, nb)]))" "keyed d Z a S3" "sorted_wrt entry_le S3"
    and cap: "length (content (T1, S1[m := (k, nb)])) + d * Z \<le> length S"
    and st: "store_path d Z a (d * Z) (T1, S3) = (T4, S4)"
  shows "mem_inv d Z (P[i := pm_pack (int nl)]) (T4, S4) \<and> replaced (content (T, S)) nb (content (T4, S4))"
proof -
  let ?S2 = "S1[m := (k, nb)]" let ?P = "P[i := pm_pack (int nl)]"
  have len: "length T1 = length T" "length S1 = length S" using F by (simp_all add: fetched_def)
  have l3: "length S3 = length S" using S3(1) len by (metis length_list_update length_map mset_eq_length)
  have v3: "valid01 (snd e)" if "e \<in> set S3" for e
  proof -
    have "snd e \<in> set (map snd ?S2)" using that mset_eq_setD [OF S3(1)] by (metis image_eqI list.set_map)
    then have "snd e = nb \<or> snd e \<in> snd ` set S1" using set_update_subset_insert [of S1 m "(k, nb)"] by auto
    then show ?thesis
    proof
      assume "snd e \<in> snd ` set S1"
      then show ?thesis using fetched_valid01 [OF inv F dims(1,4)] by (metis imageE)
    qed (simp add: nb(1) valid01_def)
  qed
  have free: "b_valid (T1 ! slot d Z a j) = 0" if "j < d * Z" for j using F that by (simp add: fetched_def)
  obtain T' S' where S': "store_path d Z a (d * Z) (T1, S3) = (T', S')" "length T' = length T1" "length S' = length S3"
      "\<forall>k < d * Z. T' ! slot d Z a k = snd (S3 ! k)"
      "\<forall>p < length T1. (\<forall>k < d * Z. p \<noteq> slot d Z a k) \<longrightarrow> T' ! p = T1 ! p"
      "\<forall>k < d * Z. S' ! k = (fst (S3 ! k), (snd (S3 ! k))\<lparr>b_valid := 0\<rparr>)"
      "\<forall>k < length S3. d * Z \<le> k \<longrightarrow> S' ! k = S3 ! k" "mset (content (T', S')) = mset (content (T1, S3))"
    using store_path_spec [of T1 d Z S3 a, OF _ _ dims(4) free order.refl] dims(1,2) len l3 by auto
  then have T4: "T' = T4" "S' = S4" using st by simp_all
  note spec = S'(2-8) [unfolded T4]
  have cm: "mset (content (T4, S4)) = mset (content (T1, ?S2))" using spec(7) content_snd [OF S3(1)] by simp
  have rep4: "replaced (content (T, S)) nb (content (T4, S4))" using rep cm by (simp add: replaced_def)
  have blk: "b = nb \<or> b \<in> set (content (T, S)) \<and> b_id b \<noteq> int i" if "b \<in> set (content (T4, S4))" for b
    using replaced_set [OF rep4] that nb(1) by auto
  have good: "0 \<le> b_id b \<and> b_id b < int (length ?P) \<and> leaf_ok d b \<and>
        pm_valid (?P ! nat (b_id b)) \<and> b_leaf b = pm_leaf (?P ! nat (b_id b))" if "b \<in> set (content (T4, S4))" for b
    using blk [OF that]
  proof
    assume "b = nb"
    moreover have "(2::nat) ^ (d - 1) \<le> 2 ^ 15" using dims(6) by (intro power_increasing) auto
    then have "nl < 2 ^ 15" using nb(3) by (rule order.strict_trans2 [rotated])
    then have "int nl < 2 ^ 15" by simp
    ultimately show ?thesis using nb pm_pack_simps [of "int nl"] by (simp add: leaf_ok_def)
  next
    assume b: "b \<in> set (content (T, S)) \<and> b_id b \<noteq> int i"
    then have "nat (b_id b) \<noteq> i" using mem_invD(4) [OF inv, of b] by auto
    then show ?thesis using mem_invD(4) [OF inv, of b] b by simp
  qed
  have slotp: "p = slot d Z a j \<Longrightarrow> j < d * Z \<Longrightarrow> T4 ! p = snd (S3 ! j)" for p j using spec(3) by simp
  have nonslot: "T4 ! p = T ! p" if "p < length T" "\<forall>k < d * Z. p \<noteq> slot d Z a k" for p
    using spec(4) F that len by (simp add: fetched_def)
  have cap3: "length (filter (\<lambda>e. b_valid (snd e) \<noteq> 0) S3) + d * Z \<le> length S3"
  proof -
    have "length (filter (\<lambda>e. b_valid (snd e) \<noteq> 0) S3) = length (filter (\<lambda>b. b_valid b \<noteq> 0) (map snd S3))"
      by (simp add: filter_map comp_def)
    also have "\<dots> \<le> length (content (T1, S3))" by (simp add: content_def)
    also have "\<dots> = length (content (T1, ?S2))" using mset_eq_length [OF content_snd [OF S3(1)]] .
    finally show ?thesis using cap l3 by simp
  qed
  have loc: "\<exists>l < d. p div Z = bucket d (nat (b_leaf (T4 ! p))) l" if p: "p < length T4" "b_valid (T4 ! p) \<noteq> 0" for p
  proof (cases "\<exists>j < d * Z. p = slot d Z a j")
    case True
    then obtain j where j: "j < d * Z" "p = slot d Z a j" by blast
    have b: "T4 ! p = snd (S3 ! j)" using slotp [OF j(2,1)] .
    have "fits d a (snd (S3 ! j)) (j div Z)"
      using sorted_positions [OF S3(2,3) dims(5,3) _ cap3 j(1)] v3 p(2) b by simp
    moreover have "T4 ! p \<in> set (content (T4, S4))" unfolding set_content using p by simp
    then have "leaf_ok d (snd (S3 ! j))" using good b by metis
    ultimately have "p div Z = bucket d (nat (b_leaf (T4 ! p))) (j div Z)"
      using j(2) b slot_div [OF dims(3)] by (simp add: fits_def)
    then show ?thesis using j(1) less_mult_imp_div_less by blast
  next
    case False
    then have "T4 ! p = T ! p" using nonslot p spec(1) len by simp
    then show ?thesis using mem_invD(3) [OF inv, of p] p spec(1) len by simp
  qed
  have v4: "valid01 (T4 ! p)" if "p < length T4" for p
  proof (cases "\<exists>j < d * Z. p = slot d Z a j")
    case True
    then obtain j where "j < d * Z" "p = slot d Z a j" by blast
    then show ?thesis using slotp v3 dims(2) l3 by simp
  next
    case False
    then show ?thesis using nonslot mem_invD(1) [OF inv] that spec(1) len by simp
  qed
  have vS: "valid01 (snd (S4 ! j))" if "j < length S4" for j
    using that spec(2,5,6) v3 by (cases "j < d * Z") (auto simp: valid01_def)
  have pos: "\<exists>b \<in> set (content (T4, S4)). b_id b = int j" if j: "j < length ?P" "pm_valid (?P ! j)" for j
  proof (cases "j = i")
    case True
    then show ?thesis using replaced_set [OF rep4] nb(1) by auto
  next
    case False
    then obtain b where "b \<in> set (content (T, S))" "b_id b = int j" using mem_invD(6) [OF inv, of j] j by auto
    then show ?thesis using replaced_set [OF rep4] nb(1) False by auto
  qed
  have "\<forall>b \<in> set T4. valid01 b" using v4 by (metis in_set_conv_nth)
  moreover have "\<forall>e \<in> set S4. valid01 (snd e)" using vS by (metis in_set_conv_nth)
  moreover have "\<forall>k < d * Z. b_valid (snd (S4 ! k)) = 0" using spec(5) by simp
  ultimately have "mem_inv d Z ?P (T4, S4)"
    unfolding mem_inv_def prod.case
    using loc good replaced_distinct [OF rep4 mem_invD(5) [OF inv]] pos by blast
  then show ?thesis using rep4 ..
qed


section \<open>The state as blocks\<close>

definition decode_tree :: "oram \<Rightarrow> sblock list" where
  "decode_tree s = map (\<lambda>w. \<lparr>b_valid = w ! 0, b_id = w ! 1, b_leaf = w ! 2, b_dat = drop 3 w\<rparr>)
     (blocks (3 + block_size s) (2 ^ tree_depth s * bucket_size s) (tree_oram s))"

definition decode_stash :: "oram \<Rightarrow> entry list" where
  "decode_stash s = map (\<lambda>(w, x). (w ! 0, \<lparr>b_valid = w ! 1, b_id = w ! 2, b_leaf = w ! 3, b_dat = x\<rparr>))
     (zip (blocks 4 (stash_size s) (stash_info s)) (blocks (block_size s) (stash_size s) (stash_data s)))"

definition sizes_ok :: "oram \<Rightarrow> bool" where
  "sizes_ok s \<longleftrightarrow>
     length (tree_oram s) = 2 ^ tree_depth s * bucket_size s * (3 + block_size s) \<and>
     length (stash_info s) = stash_size s * 4 \<and> length (stash_data s) = stash_size s * block_size s"

lemma sblock_eta: "\<lparr>b_valid = b_valid b, b_id = b_id b, b_leaf = b_leaf b, b_dat = b_dat b\<rparr> = b"
  by (cases b) simp

lemma decode_with_mem:
  assumes "ok_mem (block_size s) (2 ^ tree_depth s * bucket_size s) (stash_size s) (T, S)"
  shows "decode_tree (with_mem s (T, S)) = T" "decode_stash (with_mem s (T, S)) = S" "sizes_ok (with_mem s (T, S))"
proof -
  have ok: "ok_tree (block_size s) T" "ok_stash (block_size s) S"
    "length T = 2 ^ tree_depth s * bucket_size s" "length S = stash_size s" using assms by (simp_all add: ok_mem_def)
  have bt: "blocks (3 + block_size s) (2 ^ tree_depth s * bucket_size s) (concat (map blk_words T)) = map blk_words T"
    using blocks_concat [OF uniform_tree [OF ok(1)]] ok(3) by simp
  have bi: "blocks 4 (stash_size s) (concat (map info_of S)) = map info_of S"
    using blocks_concat [OF uniform_info [of S]] ok(4) by simp
  have bd: "blocks (block_size s) (stash_size s) (concat (map dat_of S)) = map dat_of S"
    using blocks_concat [OF uniform_dat [OF ok(2)]] ok(4) by simp
  have m: "tree_oram (with_mem s (T, S)) = concat (map blk_words T)"
    "stash_info (with_mem s (T, S)) = concat (map info_of S)" "stash_data (with_mem s (T, S)) = concat (map dat_of S)"
    by (simp_all add: with_mem_def mem_of_def)
  show "decode_tree (with_mem s (T, S)) = T"
    unfolding decode_tree_def m with_mem_simps bt by (simp add: map_idI blk_words_def numeral_2_eq_2)
  show "decode_stash (with_mem s (T, S)) = S"
    unfolding decode_stash_def m with_mem_simps bi bd
    by (rule nth_equalityI) (simp_all add: info_of_def dat_of_def sblock_eta)
  show "sizes_ok (with_mem s (T, S))"
    unfolding sizes_ok_def m with_mem_simps
    using length_concat_uniform [OF uniform_tree [OF ok(1)]] length_concat_uniform [OF uniform_info [of S]]
      length_concat_uniform [OF uniform_dat [OF ok(2)]] ok(3,4) by simp
qed

lemma with_mem_decode:
  assumes "sizes_ok s"
  shows "with_mem s (decode_tree s, decode_stash s) = s"
    and "ok_mem (block_size s) (2 ^ tree_depth s * bucket_size s) (stash_size s) (decode_tree s, decode_stash s)"
proof -
  let ?B = "block_size s" and ?n = "2 ^ tree_depth s * bucket_size s" and ?m = "stash_size s"
  let ?W = "blocks (3 + ?B) ?n (tree_oram s)" and ?I = "blocks 4 ?m (stash_info s)" and ?D = "blocks ?B ?m (stash_data s)"
  have W: "uniform (3 + ?B) ?W" "concat ?W = tree_oram s" and I: "uniform 4 ?I" "concat ?I = stash_info s"
    and D: "uniform ?B ?D" "concat ?D = stash_data s" using assms by (simp_all add: sizes_ok_def)
  have w: "blk_words \<lparr>b_valid = w ! 0, b_id = w ! 1, b_leaf = w ! 2, b_dat = drop 3 w\<rparr> = w" if lw: "length w = 3 + ?B" for w
  proof -
    obtain x w1 where 1: "w = x # w1" "length w1 = 2 + ?B" using lw by (cases w) auto
    then obtain y w2 where 2: "w1 = y # w2" "length w2 = 1 + ?B" by (cases w1) auto
    then obtain z r where "w2 = z # r" by (cases w2) auto
    then have "w = x # y # z # r" using 1 2 by simp
    then show ?thesis by (simp add: blk_words_def numeral_2_eq_2)
  qed
  have i: "[w ! 0, w ! 1, w ! 2, w ! 3] = w" if "length w = 4" for w :: "int list"
    using that by (auto simp: list_eq_iff_nth_eq less_Suc_eq numeral_eq_Suc)
  have mt: "map blk_words (decode_tree s) = ?W"
    unfolding decode_tree_def using W(1) w by (auto simp: uniform_def intro!: map_idI)
  have mi: "map info_of (decode_stash s) = ?I"
  proof (rule nth_equalityI)
    fix j assume j: "j < length (map info_of (decode_stash s))"
    then have "length (?I ! j) = 4" using I(1) by (simp add: decode_stash_def)
    then show "map info_of (decode_stash s) ! j = ?I ! j"
      using j i by (simp add: decode_stash_def info_of_def)
  qed (simp add: decode_stash_def)
  have md: "map dat_of (decode_stash s) = ?D"
    by (rule nth_equalityI) (simp_all add: decode_stash_def dat_of_def)
  show "with_mem s (decode_tree s, decode_stash s) = s"
    by (simp add: with_mem_def mem_of_def mt mi md W(2) I(2) D(2))
  have "ok_tree ?B (decode_tree s)" using W(1) by (auto simp: ok_tree_def decode_tree_def uniform_def)
  moreover have "ok_stash ?B (decode_stash s)"
    using D(1) by (auto simp: ok_stash_def decode_stash_def uniform_def dest: set_zip_rightD)
  ultimately show "ok_mem ?B ?n ?m (decode_tree s, decode_stash s)"
    by (simp add: ok_mem_def) (simp add: decode_tree_def decode_stash_def)
qed

text \<open>The invariant of the ORAM state and the map it represents.\<close>

definition oram_inv :: "oram \<Rightarrow> bool" where
  "oram_inv s \<longleftrightarrow>
     1 \<le> tree_depth s \<and> tree_depth s \<le> 15 \<and> 0 < bucket_size s \<and>
     tree_depth s * bucket_size s \<le> nat max_int \<and> tree_depth s * bucket_size s \<le> stash_size s \<and>
     num_leaves s = 2 ^ (tree_depth s - 1) \<and> length (pos_map_entries s) = pos_map_size s \<and>
     length (wb_path s) = tree_depth s * bucket_size s \<and> length (occupied s) = tree_depth s \<and>
     store_sorter (store_sort_func s) (stash_size s) (block_size s) \<and> sizes_ok s \<and>
     mem_inv (tree_depth s) (bucket_size s) (pos_map_entries s) (decode_tree s, decode_stash s)"

definition oram_map :: "oram \<Rightarrow> int \<Rightarrow> int list option" where
  "oram_map s = cmap (content (decode_tree s, decode_stash s))"

text \<open>The parameters that no access changes.\<close>

definition same_params :: "oram \<Rightarrow> oram \<Rightarrow> bool" where
  "same_params s s' \<longleftrightarrow> block_size s' = block_size s \<and> bucket_size s' = bucket_size s \<and>
     tree_depth s' = tree_depth s \<and> stash_size s' = stash_size s \<and> pos_map_size s' = pos_map_size s"


section \<open>One access\<close>

lemma valid01_nonzero: "valid01 b \<Longrightarrow> b_valid b \<noteq> 0 \<Longrightarrow> b_valid b = 1"
  by (auto simp: valid01_def)

text \<open>The second loop of \<^verbatim>\<open>Fetch_Blocks\<close> on a fetched memory.\<close>

lemma Access_loop_fetched:
  fixes nl :: int
  assumes inv: "mem_inv d Z P (T, S)" and F: "fetched d Z a (T, S) (T1, S1)"
    and dims: "length T = 2 ^ d * Z" "d * Z \<le> length S" "0 < Z" "a < 2 ^ (d - 1)"
    and ok: "ok_stash B S1" "length dp = B" and op: "op = READ \<or> op = WRITE"
    and i: "i < length P" "pm_valid (P ! i) \<longrightarrow> pm_leaf (P ! i) = int a" "op = READ \<longrightarrow> pm_valid (P ! i)"
    and cap: "card (insert (int i) (dom (cmap (content (T, S))))) + d * Z \<le> length S"
  defines "v \<equiv> (if op = READ then the (cmap (content (T, S)) (int i)) else dp)"
  defines "nb \<equiv> \<lparr>b_valid = 1, b_id = int i, b_leaf = nl, b_dat = v\<rparr>"
  shows "\<exists>m < length S1. \<exists>dw. for_loop 0 (length S1) (Access_entry B op (int i) nl (of_bool (\<not> pm_valid (P ! i))))
      (stash_mem S1 dp 0) = Some (stash_mem (S1[m := (fst (S1 ! m), nb)]) v dw) \<and> length v = B \<and>
    replaced (content (T, S)) nb (content (T1, S1[m := (fst (S1 ! m), nb)]))"
proof (cases "pm_valid (P ! i)")
  case True
  obtain m where m: "m < length S1" "id_matches (int i) (snd (S1 ! m))"
    "cmap (content (T, S)) (int i) = Some (b_dat (snd (S1 ! m)))"
    using fetched_match [OF inv F dims(3,2) i(1) True] i(2) True by auto
  have uniq: "id_matches (int i) (snd (S1 ! j)) \<longleftrightarrow> j = m" if "j < length S1" for j
    using fetched_unique [OF inv F that m(1)] m(2) by blast
  let ?b = "snd (S1 ! m)"
  have "b_valid ?b = 1" "b_id ?b = int i"
    using m(1,2) valid01_nonzero fetched_valid01 [OF inv F dims(1,4), of "S1 ! m"] by (auto simp: id_matches_def)
  moreover have "(if op = READ then b_dat ?b else dp) = v" using m(3) by (simp add: v_def)
  ultimately have eq: "?b\<lparr>b_leaf := nl, b_dat := (if op = READ then b_dat ?b else dp)\<rparr> = nb"
    by (simp add: nb_def)
  have "for_loop 0 (length S1) (Access_entry B op (int i) nl 0) (stash_mem S1 dp 0) =
      Some (stash_mem (S1[m := (fst (S1 ! m), nb)]) v 0)"
    using Access_loop_existing [OF ok op m(1) uniq, of nl] m(3) unfolding eq by (simp add: v_def)
  moreover have "length v = B" using ok ok_stash_nth [OF ok(1) m(1)] m(3) by (simp add: v_def)
  moreover have "replaced (content (T, S)) nb (content (T1, S1[m := (fst (S1 ! m), nb)]))"
    by (rule fetched_replace [OF inv F m(1)]) (use m(2) in \<open>simp_all add: nb_def\<close>)
  ultimately show ?thesis using True m(1) by auto
next
  case False
  have wr: "op \<noteq> READ" using i(3) False by simp
  have absent: "int i \<notin> b_id ` set (content (T, S))" by (rule absent_id [OF inv i(1) False])
  have "length (filter (\<lambda>e. b_valid (snd e) \<noteq> 0) S1) = length (filter (\<lambda>b. b_valid b \<noteq> 0) (map snd S1))"
    by (simp add: filter_map comp_def)
  also have "\<dots> \<le> length (content (T1, S1))" by (simp add: content_def)
  also have "\<dots> = length (content (T, S))" using F mset_eq_length by (auto simp: fetched_def)
  also have "\<dots> = card (dom (cmap (content (T, S))))" by (rule content_length [OF mem_invD(5) [OF inv]])
  also have "\<dots> < card (insert (int i) (dom (cmap (content (T, S)))))"
    using absent by (simp add: cmap_dom)
  also have "\<dots> \<le> length S1" using cap F by (simp add: fetched_def)
  finally obtain f where f: "f < length S1" "b_valid (snd (S1 ! f)) = 0"
      "\<And>j. j < f \<Longrightarrow> b_valid (snd (S1 ! j)) \<noteq> 0" using free_entry by blast
  have v: "v = dp" using wr by (simp add: v_def)
  have "for_loop 0 (length S1) (Access_entry B op (int i) nl 1) (stash_mem S1 dp 0) =
      Some (stash_mem (S1[f := (fst (S1 ! f), nb)]) v 1)"
    using Access_loop_new [OF ok op _ f, of "int i" nl] fetched_absent [OF inv F i(1) False]
    by (simp add: nb_def v)
  moreover have "replaced (content (T, S)) nb (content (T1, S1[f := (fst (S1 ! f), nb)]))"
    by (rule fetched_replace [OF inv F f(1)]) (use f(2) absent in \<open>simp_all add: nb_def\<close>)
  ultimately show ?thesis using False f(1) v ok by auto
qed

lemma with_mem_pos: "with_mem (s\<lparr>pos_map_entries := P\<rparr>) TS = (with_mem s TS)\<lparr>pos_map_entries := P\<rparr>"
  by (simp add: with_mem_def split: prod.split)

lemma Access_ORAM_step:
  assumes inv: "oram_inv s" and i: "i < pos_map_size s" and dp: "length dp = block_size s"
    and op: "op = READ \<or> op = WRITE" and rd: "op = READ \<longrightarrow> oram_map s (int i) \<noteq> None"
    and cap: "card (insert (int i) (dom (oram_map s))) + tree_depth s * bucket_size s \<le> stash_size s"
  defines "v \<equiv> (if op = READ then the (oram_map s (int i)) else dp)"
  shows "\<exists>s'. Access_ORAM r1 r2 op (int i) dp s = Some (s', v) \<and> oram_inv s' \<and>
    oram_map s' = (oram_map s)(int i \<mapsto> v) \<and> same_params s s'"
proof -
  let ?d = "tree_depth s" and ?Z = "bucket_size s" and ?B = "block_size s" and ?P = "pos_map_entries s"
  define T where "T = decode_tree s" define S where "S = decode_stash s"
  have p: "1 \<le> ?d" "?d \<le> 15" "0 < ?Z" "?d * ?Z \<le> nat max_int" "?d * ?Z \<le> stash_size s"
      "num_leaves s = 2 ^ (?d - 1)" "length ?P = pos_map_size s"
      "length (wb_path s) = ?d * ?Z" "length (occupied s) = ?d"
      "store_sorter (store_sort_func s) (stash_size s) ?B" "sizes_ok s"
    and minv: "mem_inv ?d ?Z ?P (T, S)"
    using inv unfolding oram_inv_def T_def S_def by blast+
  have sw: "with_mem s (T, S) = s" and okm: "ok_mem ?B (2 ^ ?d * ?Z) (stash_size s) (T, S)"
    using with_mem_decode [OF p(11)] by (simp_all add: T_def S_def)
  have lens: "length T = 2 ^ ?d * ?Z" "length S = stash_size s" using okm by (simp_all add: ok_mem_def)
  have om: "oram_map s = cmap (content (T, S))" by (simp add: oram_map_def T_def S_def)
  have iP: "i < length ?P" using i p(7) by simp
  define nl where "nl = r2 mod num_leaves s"
  define a where "a = (if pm_valid (?P ! i) then nat (pm_leaf (?P ! i)) else r1 mod num_leaves s)"
  have nl: "nl < 2 ^ (?d - 1)" by (simp add: nl_def p(6))
  have leaf: "0 \<le> pm_leaf (?P ! i) \<and> nat (pm_leaf (?P ! i)) < 2 ^ (?d - 1)" if pv: "pm_valid (?P ! i)"
  proof -
    obtain b where "b \<in> set (content (T, S))" "b_id b = int i" using mem_invD(6) [OF minv iP pv] by blast
    then show ?thesis using mem_invD(4) [OF minv, of b] by (simp add: leaf_ok_def)
  qed
  have a: "a < 2 ^ (?d - 1)" using leaf by (simp add: a_def p(6))
  have al: "(if pm_valid (?P ! i) then pm_leaf (?P ! i) else int (r1 mod num_leaves s)) = int a"
    using leaf by (simp add: a_def)
  have rdv: "op = READ \<longrightarrow> pm_valid (?P ! i)"
    using rd absent_id [OF minv iP] by (auto simp: om cmap_dom [symmetric])
  define P' where "P' = ?P[i := pm_pack (int nl)]"
  define s1 where "s1 = s\<lparr>pos_map_entries := P'\<rparr>"
  have ret: "Retrieve_LeafLabel op (int i) (int (r1 mod num_leaves s)) (int nl) s =
      Some (s1, int a, of_bool (\<not> pm_valid (?P ! i)))"
    using Retrieve_loop [OF iP, of "int nl" "int (r1 mod num_leaves s)"] rdv
    unfolding Retrieve_LeafLabel_def p(7) al by (simp add: s1_def P'_def)
  have s1w: "with_mem s1 (T, S) = s1"
    unfolding s1_def with_mem_pos sw ..
  obtain T1 S1 where TS1: "fetch_path ?d ?Z a (?d * ?Z) (T, S) = (T1, S1)" by fastforce
  have F: "fetched ?d ?Z a (T, S) (T1, S1)"
    using fetch_path_fetched [OF lens(1) _ a minv] p(5) lens(2) TS1 by simp
  have ok1: "ok_mem ?B (2 ^ ?d * ?Z) (stash_size s) (T1, S1)"
    using ok_mem_fetch_path [OF okm a p(5) order.refl] TS1 by simp
  have fp: "Fetch_path (int a) s1 = Some (with_mem s1 (T1, S1))"
    using Fetch_path_eq [of s1 a "stash_size s" "(T, S)"] p a okm TS1 by (simp add: s1w) (simp add: s1_def)
  define nb where "nb = \<lparr>b_valid = 1, b_id = int i, b_leaf = int nl, b_dat = v\<rparr>"
  have v: "v = (if op = READ then the (cmap (content (T, S)) (int i)) else dp)" by (simp add: v_def om)
  have okS1: "ok_stash ?B S1" "length S1 = stash_size s" using ok1 by (simp_all add: ok_mem_def)
  have dS: "?d * ?Z \<le> length S" using p(5) lens(2) by simp
  have ai: "pm_valid (?P ! i) \<longrightarrow> pm_leaf (?P ! i) = int a" using leaf by (simp add: a_def)
  have capS: "card (insert (int i) (dom (cmap (content (T, S))))) + ?d * ?Z \<le> length S"
    using cap by (simp add: om lens(2))
  obtain m dw where m: "m < length S1" and
    loop: "for_loop 0 (length S1) (Access_entry ?B op (int i) (int nl) (of_bool (\<not> pm_valid (?P ! i))))
      (stash_mem S1 dp 0) = Some (stash_mem (S1[m := (fst (S1 ! m), nb)]) v dw)" "length v = ?B" and
    rep: "replaced (content (T, S)) nb (content (T1, S1[m := (fst (S1 ! m), nb)]))"
    using Access_loop_fetched [OF minv F lens(1) dS p(3) a okS1(1) dp op iP ai rdv capS, of "int nl"]
    unfolding v [symmetric] nb_def [symmetric] by blast
  let ?S2 = "S1[m := (fst (S1 ! m), nb)]"
  have w1: "stash_info (with_mem s1 (T1, S1)) = concat (map info_of S1)"
      "stash_data (with_mem s1 (T1, S1)) = concat (map dat_of S1)"
      "(with_mem s1 (T1, S1))\<lparr>stash_info := concat (map info_of ?S2), stash_data := concat (map dat_of ?S2)\<rparr>
        = with_mem s1 (T1, ?S2)"
    by (simp_all add: with_mem_def mem_of_def)
  have sz: "stash_size s1 = stash_size s" "block_size s1 = ?B" by (simp_all add: s1_def)
  have fb: "Fetch_Blocks op (int i) dp (int a) (int nl) (of_bool (\<not> pm_valid (?P ! i))) s1 =
      Some (with_mem s1 (T1, ?S2), v)"
    unfolding Fetch_Blocks_def fp bind.simps with_mem_simps sz okS1(2) [symmetric] w1(1,2) loop(1) prod.case w1(3) ..
  have ok2: "ok_mem ?B (2 ^ ?d * ?Z) (stash_size s) (T1, ?S2)"
    using ok1 loop(2) by (auto simp: ok_mem_def nb_def intro!: ok_stash_update)
  have "0 < bucket_size s1" "1 \<le> tree_depth s1" "tree_depth s1 \<le> 32" "a < 2 ^ (tree_depth s1 - 1)"
    "tree_depth s1 * bucket_size s1 \<le> nat max_int" "length (wb_path s1) = tree_depth s1 * bucket_size s1"
    "length (occupied s1) = tree_depth s1"
    "ok_mem (block_size s1) (2 ^ tree_depth s1 * bucket_size s1) (stash_size s1) (T1, ?S2)"
    "tree_depth s1 * bucket_size s1 \<le> stash_size s1"
    "store_sorter (store_sort_func s1) (stash_size s1) (block_size s1)"
    using p a ok2 by (simp_all add: s1_def)
  from Store_Blocks_eq [OF this] obtain wb occ S3 where
    st: "Store_Blocks (int a) (with_mem s1 (T1, ?S2)) =
      Some (with_mem (s1\<lparr>wb_path := wb, occupied := occ\<rparr>) (store_path ?d ?Z a (?d * ?Z) (T1, S3)))"
      "length wb = ?d * ?Z" "length occ = ?d" "mset (map snd S3) = mset (map snd ?S2)" "keyed ?d ?Z a S3"
      "sorted_wrt entry_le S3" "ok_mem ?B (2 ^ ?d * ?Z) (stash_size s) (T1, S3)"
    by (auto simp: s1_def)
  obtain T4 S4 where TS4: "store_path ?d ?Z a (?d * ?Z) (T1, S3) = (T4, S4)" by fastforce
  have ok4: "ok_mem ?B (2 ^ ?d * ?Z) (stash_size s) (T4, S4)"
    using ok_mem_store_path [OF st(7) a p(5) order.refl] TS4 by simp
  have capC: "length (content (T1, ?S2)) + ?d * ?Z \<le> length S"
    using replaced_length [OF rep mem_invD(5) [OF minv]] capS by (simp add: nb_def)
  have fin: "mem_inv ?d ?Z P' (T4, S4)" "replaced (content (T, S)) nb (content (T4, S4))"
    using store_inv [OF minv F lens(1) dS p(3) a p(4,2) nb_def iP nl m rep st(4-6) capC TS4]
    by (simp_all add: P'_def)
  define s' where "s' = with_mem (s1\<lparr>wb_path := wb, occupied := occ\<rparr>) (T4, S4)"
  have acc: "Access_ORAM r1 r2 op (int i) dp s = Some (s', v)"
    unfolding Access_ORAM_def GenRandLeaf_def Let_def nl_def [symmetric] ret
    using op i fb st(1) TS4 by (simp add: s'_def del: of_bool_not_iff)
  have dec: "decode_tree s' = T4" "decode_stash s' = S4" "sizes_ok s'"
    using decode_with_mem [of "s1\<lparr>wb_path := wb, occupied := occ\<rparr>" T4 S4] ok4 by (simp_all add: s'_def s1_def)
  have "oram_inv s'"
    unfolding oram_inv_def dec(1,2) using p st(2,3) fin(1) dec(3) by (simp add: s'_def s1_def P'_def)
  moreover have "oram_map s' = (oram_map s)(int i \<mapsto> v)"
    using replaced_cmap [OF fin(2) mem_invD(5) [OF minv]] by (simp add: oram_map_def [of s'] dec om nb_def)
  moreover have "same_params s s'" by (simp add: same_params_def s'_def s1_def)
  ultimately show ?thesis using acc by blast
qed

end
