(* ===== verification/PathOramClient.thy ===== *)
theory PathOramClient
  imports PathOramAccess
begin

text \<open>
  What the Path ORAM offers its clients. The locale \<open>block_memory\<close> is the contract of an access
  function: a write sets one id, a read returns the last value written to its id, as long as the
  number of different ids stays within the capacity. Sequences of accesses and the phases of
  \<^verbatim>\<open>main.c\<close> are verified once against the contract; the interpretation on \<^verbatim>\<open>Access_ORAM\<close>
  discharges it.
\<close>

type_synonym 's access_func = "nat \<Rightarrow> nat \<Rightarrow> int \<Rightarrow> int \<Rightarrow> int list \<Rightarrow> 's \<Rightarrow> ('s \<times> int list) option"

record acc =
  a_r1 :: nat
  a_r2 :: nat
  a_op :: int
  a_id :: nat
  a_data :: "int list"

fun run_accs :: "'s access_func \<Rightarrow> acc list \<Rightarrow> 's \<Rightarrow> ('s \<times> int list list) option" where
  "run_accs access [] s = Some (s, [])"
| "run_accs access (x # xs) s = do {
     (s, d) \<leftarrow> access (a_r1 x) (a_r2 x) (a_op x) (int (a_id x)) (a_data x) s;
     (s, ds) \<leftarrow> run_accs access xs s;
     Some (s, d # ds) }"

text \<open>The specification: the same accesses on a plain map.\<close>

fun spec_accs :: "acc list \<Rightarrow> (int \<Rightarrow> int list option) \<Rightarrow> ((int \<Rightarrow> int list option) \<times> int list list) option" where
  "spec_accs [] m = Some (m, [])"
| "spec_accs (x # xs) m =
     (if a_op x = WRITE then do {
        (m, ds) \<leftarrow> spec_accs xs (m(int (a_id x) \<mapsto> a_data x));
        Some (m, a_data x # ds) }
      else if a_op x = READ then do {
        v \<leftarrow> m (int (a_id x));
        (m, ds) \<leftarrow> spec_accs xs m;
        Some (m, v # ds) }
      else None)"

definition accs_ok :: "nat \<Rightarrow> nat \<Rightarrow> acc list \<Rightarrow> bool" where
  "accs_ok n B xs \<longleftrightarrow> (\<forall>x \<in> set xs. a_id x < n \<and> length (a_data x) = B)"

locale block_memory =
  fixes inv :: "'s \<Rightarrow> bool" and lookup :: "'s \<Rightarrow> int \<Rightarrow> int list option" and access :: "'s access_func"
    and bsz :: "'s \<Rightarrow> nat" and ids :: "'s \<Rightarrow> nat" and room :: "'s \<Rightarrow> nat"
  assumes write_law: "inv s \<Longrightarrow> i < ids s \<Longrightarrow> length dp = bsz s \<Longrightarrow>
      card (insert (int i) (dom (lookup s))) \<le> room s \<Longrightarrow>
      \<exists>s'. access r1 r2 WRITE (int i) dp s = Some (s', dp) \<and> inv s' \<and> lookup s' = (lookup s)(int i \<mapsto> dp) \<and>
        bsz s' = bsz s \<and> ids s' = ids s \<and> room s' = room s"
    and read_law: "inv s \<Longrightarrow> i < ids s \<Longrightarrow> length dp = bsz s \<Longrightarrow> lookup s (int i) = Some v \<Longrightarrow>
      card (dom (lookup s)) \<le> room s \<Longrightarrow>
      \<exists>s'. access r1 r2 READ (int i) dp s = Some (s', v) \<and> inv s' \<and> lookup s' = lookup s \<and>
        bsz s' = bsz s \<and> ids s' = ids s \<and> room s' = room s"
    and finite_lookup: "inv s \<Longrightarrow> finite (dom (lookup s))"
    and lookup_length: "inv s \<Longrightarrow> lookup s k = Some v \<Longrightarrow> length v = bsz s"
begin

lemma accs_refine:
  "inv s \<Longrightarrow> accs_ok (ids s) (bsz s) xs \<Longrightarrow>
   card (dom (lookup s) \<union> int ` a_id ` set xs) \<le> room s \<Longrightarrow>
   spec_accs xs (lookup s) = Some (m, ds) \<Longrightarrow>
   \<exists>s'. run_accs access xs s = Some (s', ds) \<and> inv s' \<and> lookup s' = m"
proof (induction xs arbitrary: s ds)
  case (Cons x xs)
  let ?i = "int (a_id x)"
  have x: "a_id x < ids s" "length (a_data x) = bsz s" and xs: "accs_ok (ids s) (bsz s) xs"
    using Cons.prems(2) by (auto simp: accs_ok_def)
  have fin: "finite (dom (lookup s) \<union> int ` a_id ` set (x # xs))" using finite_lookup [OF Cons.prems(1)] by simp
  have c1: "card (insert ?i (dom (lookup s))) \<le> room s"
    by (rule order.trans [OF card_mono [OF fin] Cons.prems(3)]) auto
  have c0: "card (dom (lookup s)) \<le> room s"
    by (rule order.trans [OF card_mono [OF fin] Cons.prems(3)]) auto
  consider "a_op x = WRITE" | "a_op x \<noteq> WRITE" "a_op x = READ" using Cons.prems(4) by (auto split: if_splits)
  then show ?case
  proof cases
    case 1
    then obtain m1 ds1 where sp: "spec_accs xs ((lookup s)(?i \<mapsto> a_data x)) = Some (m, ds1)" "ds = a_data x # ds1"
      using Cons.prems(4) by (auto simp: bind_eq_Some_conv)
    obtain s' where s': "access (a_r1 x) (a_r2 x) WRITE ?i (a_data x) s = Some (s', a_data x)" "inv s'"
      "lookup s' = (lookup s)(?i \<mapsto> a_data x)" "bsz s' = bsz s" "ids s' = ids s" "room s' = room s"
      using write_law [OF Cons.prems(1) x c1] by blast
    have "dom (lookup s') \<union> int ` a_id ` set xs = dom (lookup s) \<union> int ` a_id ` set (x # xs)" using s'(3) by auto
    then have "card (dom (lookup s') \<union> int ` a_id ` set xs) \<le> room s'" using Cons.prems(3) s'(6) by simp
    from Cons.IH [OF s'(2) _ this, of ds1]
    obtain s'' where "run_accs access xs s' = Some (s'', ds1)" "inv s''" "lookup s'' = m"
      using xs sp(1) s'(3-5) by metis
    then show ?thesis using 1 s'(1) sp(2) by simp
  next
    case 2
    then obtain v ds1 where sp: "lookup s ?i = Some v" "spec_accs xs (lookup s) = Some (m, ds1)" "ds = v # ds1"
      using Cons.prems(4) by (auto simp: bind_eq_Some_conv)
    obtain s' where s': "access (a_r1 x) (a_r2 x) READ ?i (a_data x) s = Some (s', v)" "inv s'"
      "lookup s' = lookup s" "bsz s' = bsz s" "ids s' = ids s" "room s' = room s"
      using read_law [OF Cons.prems(1) x sp(1) c0] by blast
    have "card (dom (lookup s') \<union> int ` a_id ` set xs) \<le> room s'"
      unfolding s'(3,6) by (rule order.trans [OF card_mono [OF fin] Cons.prems(3)]) auto
    then obtain s'' where "run_accs access xs s' = Some (s'', ds1)" "inv s''" "lookup s'' = m"
      using Cons.IH [OF s'(2)] xs sp(2) s'(3-6) by auto
    then show ?thesis using 2 s'(1) sp(3) by simp
  qed
qed simp

text \<open>A loop that writes the consecutive blocks of an array, and one that reads them back.\<close>

lemma write_all:
  assumes s: "inv s" "bsz s = B" "n \<le> ids s" and len: "n * B + off \<le> length wd"
    and cap: "card (dom (lookup s) \<union> int ` {..<n}) \<le> room s"
  shows "\<exists>s'. for_loop 0 n (\<lambda>i (wd, s). do {
       (s, d) \<leftarrow> access (f i) (g i) WRITE (int i) (take B (drop (i * B + off) wd)) s;
       Some (splice_at (i * B + off) d wd, s) }) (wd, s) = Some (wd, s') \<and>
    inv s' \<and> bsz s' = B \<and> ids s' = ids s \<and> room s' = room s \<and>
    lookup s' = (\<lambda>k. if 0 \<le> k \<and> k < int n then Some (take B (drop (nat k * B + off) wd)) else lookup s k)"
proof -
  let ?m = "\<lambda>n k. if 0 \<le> k \<and> k < int n then Some (take B (drop (nat k * B + off) wd)) else lookup s k"
  let ?I = "\<lambda>i st. fst st = wd \<and> inv (snd st) \<and> bsz (snd st) = B \<and> ids (snd st) = ids s \<and> room (snd st) = room s \<and>
      lookup (snd st) = ?m i"
  have "\<exists>st. for_loop 0 n (\<lambda>i (wd, s). do {
       (s, d) \<leftarrow> access (f i) (g i) WRITE (int i) (take B (drop (i * B + off) wd)) s;
       Some (splice_at (i * B + off) d wd, s) }) (wd, s) = Some st \<and> ?I n st"
  proof (rule for_loop_rule [where I = ?I])
    show "?I 0 (wd, s)" using s by (auto simp: fun_eq_iff)
    fix i st assume i: "i < n" and I: "?I i st"
    obtain t where st: "st = (wd, t)" using I by (cases st) auto
    have t: "inv t" "bsz t = B" "ids t = ids s" "room t = room s" "lookup t = ?m i" using I st by auto
    let ?d = "take B (drop (i * B + off) wd)"
    have "i * B + B \<le> n * B" using i mult_right_mono [of "Suc i" n B] by simp
    then have ld: "length ?d = B" and bnd: "i * B + off + B \<le> length wd" using len by auto
    have "insert (int i) (dom (lookup t)) \<subseteq> dom (lookup s) \<union> int ` {..<n}"
    proof
      fix k assume "k \<in> insert (int i) (dom (lookup t))"
      then have "k = int i \<or> (0 \<le> k \<and> k < int i) \<or> k \<in> dom (lookup s)" using t(5) by (auto split: if_splits)
      moreover have "k \<in> int ` {..<n}" if "0 \<le> k" "k < int n" using that by (intro image_eqI [of _ _ "nat k"]) auto
      ultimately show "k \<in> dom (lookup s) \<union> int ` {..<n}" using i by auto
    qed
    then have "card (insert (int i) (dom (lookup t))) \<le> room t"
      unfolding t(4) by (rule order.trans [OF card_mono cap, rotated]) (simp add: finite_lookup [OF s(1)])
    then obtain t' where t': "access (f i) (g i) WRITE (int i) ?d t = Some (t', ?d)" "inv t'"
        "lookup t' = (lookup t)(int i \<mapsto> ?d)" "bsz t' = B" "ids t' = ids s" "room t' = room s"
      using write_law [OF t(1), of i ?d "f i" "g i"] i s(3) ld t(2-4) by auto
    have "lookup t' = ?m (Suc i)" unfolding t'(3) t(5) by (auto simp: fun_eq_iff)
    moreover have "splice_at (i * B + off) ?d wd = wd"
      using bnd ld by (simp add: splice_at_def) (metis append_take_drop_id drop_drop add.commute)
    ultimately show "\<exists>st'. (case st of (wd, s) \<Rightarrow> do {
       (s, d) \<leftarrow> access (f i) (g i) WRITE (int i) (take B (drop (i * B + off) wd)) s;
       Some (splice_at (i * B + off) d wd, s) }) = Some st' \<and> ?I (Suc i) st'"
      using t' st by auto
  qed simp
  then show ?thesis by auto
qed

lemma read_all:
  assumes s: "inv s" "bsz s = B" "n \<le> ids s" "length rd0 = B" and cap: "card (dom (lookup s)) \<le> room s"
    and v: "\<And>i. i < n \<Longrightarrow> lookup s (int i) = Some (h i)"
  shows "\<exists>rd1 s'. for_loop 0 n (\<lambda>i (rdd, s, out). do {
       (s, rdd) \<leftarrow> access (f i) (g i) READ (int i) rdd s;
       Some (rdd, s, out @ [rdd]) }) (rd0, s, out) = Some (rd1, s', out @ map h [0..<n]) \<and>
    inv s' \<and> bsz s' = B \<and> ids s' = ids s \<and> room s' = room s \<and> lookup s' = lookup s \<and> length rd1 = B"
proof -
  let ?I = "\<lambda>i (rdd :: int list, t, o'). inv t \<and> bsz t = B \<and> ids t = ids s \<and> room t = room s \<and> lookup t = lookup s \<and>
      length rdd = B \<and> o' = out @ map h [0..<i]"
  have "\<exists>st. for_loop 0 n (\<lambda>i (rdd, s, out). do {
       (s, rdd) \<leftarrow> access (f i) (g i) READ (int i) rdd s;
       Some (rdd, s, out @ [rdd]) }) (rd0, s, out) = Some st \<and> ?I n st"
  proof (rule for_loop_rule [where I = ?I])
    show "?I 0 (rd0, s, out)" using s by simp
    fix i st assume i: "i < n" and I: "?I i st"
    obtain rdd t o' where st: "st = (rdd, t, o')" by (cases st) auto
    have t: "inv t" "bsz t = B" "ids t = ids s" "room t = room s" "lookup t = lookup s" "length rdd = B"
      "o' = out @ map h [0..<i]" using I st by auto
    obtain t' where t': "access (f i) (g i) READ (int i) rdd t = Some (t', h i)" "inv t'" "lookup t' = lookup s"
        "bsz t' = B" "ids t' = ids s" "room t' = room s"
      using read_law [OF t(1), of i rdd "h i" "f i" "g i"] i s(3) t v [OF i] cap by auto
    have "length (h i) = B" using lookup_length [OF s(1) v [OF i]] s(2) by simp
    then show "\<exists>st'. (case st of (rdd, s, out) \<Rightarrow> do {
       (s, rdd) \<leftarrow> access (f i) (g i) READ (int i) rdd s;
       Some (rdd, s, out @ [rdd]) }) = Some st' \<and> ?I (Suc i) st'"
      using t' t(7) st by auto
  qed simp
  then show ?thesis by auto
qed

end

section \<open>The Path ORAM meets the contract\<close>

lemma oram_dom: "oram_inv s \<Longrightarrow> finite (dom (oram_map s))"
  by (simp add: oram_map_def cmap_dom)

lemma oram_map_length:
  assumes "oram_inv s" "oram_map s k = Some v"
  shows "length v = block_size s"
proof -
  let ?T = "decode_tree s" and ?S = "decode_stash s"
  have m: "mem_inv (tree_depth s) (bucket_size s) (pos_map_entries s) (?T, ?S)" and sz: "sizes_ok s"
    using assms(1) unfolding oram_inv_def by blast+
  obtain b where b: "b \<in> set (content (?T, ?S))" "b_dat b = v"
    using assms(2) cmap_iff [OF mem_invD(5) [OF m]] by (auto simp: oram_map_def)
  have "b \<in> set ?T \<or> b \<in> snd ` set ?S" using b(1) by (simp add: set_content)
  then show ?thesis
    using with_mem_decode(2) [OF sz] b(2) by (auto simp: ok_mem_def ok_tree_def ok_stash_def)
qed

definition oram_room :: "oram \<Rightarrow> nat" where
  "oram_room s = stash_size s - tree_depth s * bucket_size s"

interpretation path_oram: block_memory oram_inv oram_map Access_ORAM block_size pos_map_size oram_room
proof (unfold_locales, goal_cases)
  case (1 s i dp r1 r2)
  have "tree_depth s * bucket_size s \<le> stash_size s" using 1(1) unfolding oram_inv_def by blast
  then have "card (insert (int i) (dom (oram_map s))) + tree_depth s * bucket_size s \<le> stash_size s"
    using 1(4) by (simp add: oram_room_def)
  from Access_ORAM_step [OF 1(1-3) _ _ this, of WRITE r1 r2] show ?case
    by (auto simp: oram_room_def same_params_def READ_def WRITE_def)
next
  case (2 s i dp v r1 r2)
  have "tree_depth s * bucket_size s \<le> stash_size s" using 2(1) unfolding oram_inv_def by blast
  moreover have "insert (int i) (dom (oram_map s)) = dom (oram_map s)" using 2(4) by auto
  ultimately have "card (insert (int i) (dom (oram_map s))) + tree_depth s * bucket_size s \<le> stash_size s"
    using 2(5) by (simp add: oram_room_def)
  moreover have "(oram_map s)(int i \<mapsto> v) = oram_map s" using 2(4) by (simp add: fun_upd_idem)
  ultimately show ?case
    using Access_ORAM_step [OF 2(1-3), of READ r1 r2] 2(4)
    by (auto simp: oram_room_def same_params_def)
next
  case (3 s)
  then show ?case by (rule oram_dom)
next
  case (4 s k v)
  then show ?case by (rule oram_map_length)
qed

section \<open>Initialisation\<close>

lemma block_head:
  assumes "length xs = N * n" "p < N" "f < n"
  shows "blocks n N xs ! p ! f = xs ! (p * n + f)"
  using concat_nth_block [of n "blocks n N xs" p f] assms by simp

lemma decode_tree_valid:
  assumes "sizes_ok s" "p < 2 ^ tree_depth s * bucket_size s"
  shows "b_valid (decode_tree s ! p) = tree_oram s ! (p * (3 + block_size s))"
  using block_head [of "tree_oram s" "2 ^ tree_depth s * bucket_size s" "3 + block_size s" p 0] assms
  by (simp add: decode_tree_def sizes_ok_def)

lemma decode_stash_valid:
  assumes "sizes_ok s" "k < stash_size s"
  shows "b_valid (snd (decode_stash s ! k)) = stash_info s ! (k * 4 + 1)"
  using block_head [of "stash_info s" "stash_size s" 4 k 1] assms
  by (simp add: decode_stash_def sizes_ok_def)

lemma length_decode [simp]:
  "length (decode_tree s) = 2 ^ tree_depth s * bucket_size s" "length (decode_stash s) = stash_size s"
  by (simp_all add: decode_tree_def decode_stash_def)

lemma empty_memory:
  assumes "sizes_ok s" and t: "\<And>p. p < 2 ^ tree_depth s * bucket_size s \<Longrightarrow> tree_oram s ! (p * (3 + block_size s)) = 0"
    and i: "\<And>k. k < stash_size s \<Longrightarrow> stash_info s ! (k * 4 + 1) = 0"
    and P: "\<And>j. j < length (pos_map_entries s) \<Longrightarrow> \<not> pm_valid (pos_map_entries s ! j)"
    and Z: "tree_depth s * bucket_size s \<le> stash_size s"
  shows "mem_inv (tree_depth s) (bucket_size s) (pos_map_entries s) (decode_tree s, decode_stash s)"
    "oram_map s = Map.empty"
proof -
  have T: "b_valid b = 0" if "b \<in> set (decode_tree s)" for b
    using that t decode_tree_valid [OF assms(1)] by (auto simp: in_set_conv_nth)
  have S: "b_valid (snd e) = 0" if "e \<in> set (decode_stash s)" for e
  proof -
    obtain k where "k < stash_size s" "e = decode_stash s ! k" using \<open>e \<in> set (decode_stash s)\<close> by (auto simp: in_set_conv_nth)
    then show ?thesis using i decode_stash_valid [OF assms(1)] by simp
  qed
  have C: "content (decode_tree s, decode_stash s) = []"
    using T S by (auto simp: content_def filter_empty_conv)
  show "oram_map s = Map.empty" by (simp add: oram_map_def C cmap_def)
  have "\<forall>b \<in> set (decode_tree s). valid01 b" "\<forall>e \<in> set (decode_stash s). valid01 (snd e)"
    "\<forall>p < length (decode_tree s). b_valid (decode_tree s ! p) = 0"
    "\<forall>k < tree_depth s * bucket_size s. b_valid (snd (decode_stash s ! k)) = 0"
    using T S Z by (simp_all add: valid01_def)
  then show "mem_inv (tree_depth s) (bucket_size s) (pos_map_entries s) (decode_tree s, decode_stash s)"
    using P unfolding mem_inv_def prod.case C by simp
qed

lemma Init_ORAM_Tree_run:
  assumes "2 \<le> 2 ^ oram_depth * Z"
  shows "Init_ORAM_Tree junk Z oram_depth B s = Some (s\<lparr>tree_depth := oram_depth,
    tree_oram := (fresh junk ((head_words + B) * Z * 2 ^ oram_depth))[head_words + B := 0]\<rparr>)"
proof -
  let ?n = "(3 + B) * Z * 2 ^ oram_depth" let ?t = "fresh junk ?n"
  have "3 + B < (3 + B) * 2" by simp
  also have "\<dots> \<le> (3 + B) * (2 ^ oram_depth * Z)" using assms by (intro mult_left_mono) auto
  also have "\<dots> = ?n" by (simp only: ac_simps)
  finally have lt: "3 + B < ?n" .
  have "for_loop 0 (2 ^ oram_depth * Z) (\<lambda>i t. wr t (3 + B) 0) ?t = Some (?t[3 + B := 0])"
  proof -
    have "for_loop 0 (2 ^ oram_depth * Z) (\<lambda>i t. wr t (3 + B) 0) ?t =
        Some ((\<lambda>i. if i = 0 then ?t else ?t[3 + B := 0]) (2 ^ oram_depth * Z))"
      by (rule for_loop_eq) (use lt in auto)
    moreover have "Z \<noteq> 0" using assms by (cases Z) auto
    ultimately show ?thesis by simp
  qed
  then show ?thesis by (simp add: Init_ORAM_Tree_def)
qed

definition depth_of :: "32 word \<Rightarrow> nat" where
  "depth_of N = unat (log_2 N)"

lemma depth_of_bounds:
  assumes "2 \<le> unat N" "unat N \<le> 2 ^ 15"
  shows "1 \<le> depth_of N" "depth_of N \<le> 15"
proof -
  have b: "1 \<le> unat N" "unat N \<le> 2 ^ 31" using assms by simp_all
  note l = log_2_spec [OF b]
  show "depth_of N \<le> 15" using l(2) assms(2) by (simp add: depth_of_def)
  show "1 \<le> depth_of N" using l(1) assms(1) by (cases "depth_of N") (auto simp: depth_of_def)
qed

lemma Init_ORAM_run:
  assumes Z: "0 < Z" and N: "2 \<le> unat N" "unat N \<le> 2 ^ 15" and C: "Z * 15 + C < 2 ^ 28"
    and junk: "\<And>p. junk (p * (3 + B)) = 0"
  shows "\<exists>s'. Init_ORAM junk Z N B C scheme s = Some s' \<and> oram_inv s' \<and> oram_map s' = Map.empty \<and>
    block_size s' = B \<and> pos_map_size s' = unat N \<and> C < oram_room s'"
proof -
  let ?d = "depth_of N"
  have d: "1 \<le> ?d" "?d \<le> 15" using depth_of_bounds [OF N] by simp_all
  have Zd: "Z * ?d \<le> Z * 15" using d(2) by (intro mult_left_mono) auto
  have "1 \<le> Z * ?d + C" "Z * ?d + C < 2 ^ 30" using Z d(1) Zd C by (cases Z; cases ?d; simp)+
  from roundToPowerOf2_spec [OF this] obtain k where
    k: "roundToPowerOf2 (int (Z * ?d + C)) = Some (2 ^ k)" "Z * ?d + C < 2 ^ k" by blast
  have two: "2 \<le> 2 ^ ?d * Z"
  proof -
    have "(2::nat) ^ 1 \<le> 2 ^ ?d" using d(1) by (intro power_increasing) auto
    then have "2 * 1 \<le> 2 ^ ?d * Z" using Z by (intro mult_mono) auto
    then show ?thesis by simp
  qed
  let ?n = "(3 + B) * Z * 2 ^ ?d"
  define s' where "s' = s\<lparr>block_size := B, bucket_size := Z, num_buckets := 2 ^ ?d - 1, num_leaves := 2 ^ (?d - 1),
      pos_map_size := unat N, pos_map_entries := replicate (unat N) 0, stash_size := 2 ^ k,
      stash_info := replicate (2 ^ k * 4) 0, stash_data := fresh junk (B * 2 ^ k), tree_depth := ?d,
      tree_oram := (fresh junk ?n)[3 + B := 0], wb_path := fresh junk (?d * Z), occupied := fresh junk ?d,
      store_sort_func := (case scheme of MERGE_SORT \<Rightarrow> MergeSort_TwoArray_TwoKey junk
        | BITONIC_SORT \<Rightarrow> BitonicSort_TwoArray_TwoKey)\<rparr>"
  have run: "Init_ORAM junk Z N B C scheme s = Some s'"
    unfolding Init_ORAM_def Let_def depth_of_def [symmetric]
    using d k(1) Init_ORAM_Tree_run [OF two, of junk B]
    by (simp add: Init_ORAM_Controller_def Init_PosMap_def Init_Stash_def Let_def s'_def nat_power_eq)
  have sz: "sizes_ok s'" by (simp add: sizes_ok_def s'_def mult.commute mult.left_commute)
  have tr: "tree_oram s' ! (p * (3 + block_size s')) = 0" if "p < 2 ^ tree_depth s' * bucket_size s'" for p
  proof -
    have "p * (3 + B) + 0 < (2 ^ ?d * Z) * (3 + B)" using that by (intro block_index_bound) (auto simp: s'_def)
    moreover have "(2 ^ ?d * Z) * (3 + B) = ?n" by (simp only: ac_simps)
    ultimately have lt: "p * (3 + B) < ?n" by linarith
    then have "(fresh junk ?n)[3 + B := 0] ! (p * (3 + B)) = 0"
      using junk [of p] by (cases "p * (3 + B) = 3 + B") (simp_all add: fresh_def)
    then show ?thesis by (simp add: s'_def)
  qed
  have st: "stash_info s' ! (j * 4 + 1) = 0" if "j < stash_size s'" for j
    using block_index_bound [of j "stash_size s'" 1 4] that by (simp add: s'_def)
  have cap: "tree_depth s' * bucket_size s' \<le> stash_size s'" using k(2) by (simp add: s'_def mult.commute)
  have pv: "\<not> pm_valid (pos_map_entries s' ! j)" if "j < length (pos_map_entries s')" for j
    using that by (simp add: s'_def pm_valid_def)
  note em = empty_memory [OF sz tr st pv cap]
  have "store_sorter (store_sort_func s') (stash_size s') (block_size s')"
    using merge_store.store_sorter_axioms bitonic_store.store_sorter_axioms
    by (cases scheme) (simp_all add: s'_def)
  moreover have "?d * Z \<le> nat max_int"
  proof -
    have "Z * 15 + C < 268435456" using C by simp
    then have "?d * Z \<le> 268435455" using Zd unfolding mult.commute [of ?d Z] by linarith
    then show ?thesis by (simp add: max_int_def)
  qed
  ultimately have "oram_inv s'"
    unfolding oram_inv_def using em(1) sz cap d Z by (simp add: s'_def)
  moreover have "C < oram_room s'" using k(2) by (simp add: oram_room_def s'_def mult.commute)
  ultimately show ?thesis using run em(2) by (auto simp: s'_def)
qed

section \<open>main.c\<close>

lemma fill_loop: "for_loop 0 n (\<lambda>i d. wr d i (int i)) (fresh junk n) = Some (map int [0..<n])"
proof -
  have "for_loop 0 n (\<lambda>i d. wr d i (int i)) (fresh junk n) = Some (map int [0..<n] @ drop n (fresh junk n))"
  proof (rule for_loop_eq [where g = "\<lambda>i. map int [0..<i] @ drop i (fresh junk n)"])
    fix i assume i: "i < n"
    have "(map int [0..<i] @ drop i (fresh junk n))[i := int i] = map int [0..<Suc i] @ drop (Suc i) (fresh junk n)"
      using i by (simp add: list_update_append Cons_nth_drop_Suc [symmetric])
    then show "wr (map int [0..<i] @ drop i (fresh junk n)) i (int i) = Some (map int [0..<Suc i] @ drop (Suc i) (fresh junk n))"
      using i by (simp add: wr_def)
  qed simp_all
  then show ?thesis by simp
qed

lemma slice_upt: "off + B \<le> n \<Longrightarrow> take B (drop off (map int [0..<n])) = map int [off..<off + B]"
  by (simp add: drop_map take_map take_upt)

lemma main_oram_run:
  assumes N: "10 \<le> unat N" "unat N \<le> 2 ^ 15" and junk: "\<And>p. junk (p * (3 + B)) = 0"
    and n: "n \<in> {0, 1}"
  shows "\<exists>s'. main_oram junk rnd N B n s =
    Some (s', map (\<lambda>i. map int [i * B..<i * B + B]) [0..<10] @
              map (\<lambda>i. map int [i * B + 10 * B..<i * B + 10 * B + B]) [0..<10])"
proof -
  obtain scheme where sch: "scheme_arg n = Some scheme" using n by (auto simp: scheme_arg_def)
  obtain s1 where s1: "Init_ORAM junk 4 N B 200 scheme s = Some s1" "oram_inv s1" "oram_map s1 = Map.empty"
      "block_size s1 = B" "pos_map_size s1 = unat N" "200 < oram_room s1"
    using Init_ORAM_run [of 4 N 200 junk B scheme s] N junk by auto
  let ?wd = "map int [0..<2 * 10 * B]"
  have fin10: "card (int ` {..<10}) = 10" by (simp add: card_image)
  have i10: "k \<in> int ` {..<10}" if "0 \<le> k" "k < 10" for k using that by (intro image_eqI [of _ _ "nat k"]) auto
  define m1 where "m1 = (\<lambda>k. if 0 \<le> k \<and> k < int 10 then Some (take B (drop (nat k * B + 0) ?wd)) else oram_map s1 k)"
  obtain s2 where s2: "write_phase rnd 0 10 B 0 (?wd, s1) = Some (?wd, s2)" "oram_inv s2" "block_size s2 = B"
      "pos_map_size s2 = unat N" "oram_room s2 = oram_room s1" "oram_map s2 = m1"
    using path_oram.write_all [of s1 B 10 0 ?wd] s1 N fin10 unfolding write_phase_def m1_def by fastforce
  have v1: "oram_map s2 (int i) = Some (map int [i * B..<i * B + B])" if "i < 10" for i
  proof -
    have "Suc i * B \<le> 10 * B" using that by (intro mult_right_mono) auto
    then show ?thesis using that s2(6) slice_upt [of "i * B" B "2 * 10 * B"] by (simp add: m1_def)
  qed
  have d2: "dom (oram_map s2) = int ` {..<10}"
    using s2(6) s1(3) i10 by (auto simp: m1_def dom_def split: if_splits)
  obtain rd1 s3 where s3: "read_phase rnd 10 10 (fresh junk B, s2, []) =
        Some (rd1, s3, map (\<lambda>i. map int [i * B..<i * B + B]) [0..<10])" "oram_inv s3" "block_size s3 = B"
      "pos_map_size s3 = unat N" "oram_room s3 = oram_room s1" "oram_map s3 = oram_map s2" "length rd1 = B"
    using path_oram.read_all [of s2 B 10 "fresh junk B" "\<lambda>i. map int [i * B..<i * B + B]"
        "\<lambda>i. rnd (2 * (10 + i))" "\<lambda>i. rnd (2 * (10 + i) + 1)" "[]"] s2 N s1(6) d2 fin10 v1
    unfolding read_phase_def by auto
  define m2 where "m2 = (\<lambda>k. if 0 \<le> k \<and> k < int 10 then Some (take B (drop (nat k * B + 10 * B) ?wd)) else oram_map s3 k)"
  obtain s4 where s4: "write_phase rnd 20 10 B (10 * B) (?wd, s3) = Some (?wd, s4)" "oram_inv s4" "block_size s4 = B"
      "pos_map_size s4 = unat N" "oram_room s4 = oram_room s1" "oram_map s4 = m2"
    using path_oram.write_all [of s3 B 10 "10 * B" ?wd] s3 d2 N s1(6) fin10 unfolding write_phase_def m2_def by fastforce
  have v2: "oram_map s4 (int i) = Some (map int [i * B + 10 * B..<i * B + 10 * B + B])" if "i < 10" for i
  proof -
    have "Suc i * B \<le> 10 * B" using that by (intro mult_right_mono) auto
    then show ?thesis using that s4(6) slice_upt [of "i * B + 10 * B" B "2 * 10 * B"] by (simp add: m2_def)
  qed
  have d4: "dom (oram_map s4) = int ` {..<10}" using s4(6) s3(6) d2 i10 by (auto simp: m2_def dom_def split: if_splits)
  obtain rd2 s5 where s5: "read_phase rnd 30 10 (rd1, s4, map (\<lambda>i. map int [i * B..<i * B + B]) [0..<10]) =
        Some (rd2, s5, map (\<lambda>i. map int [i * B..<i * B + B]) [0..<10] @
          map (\<lambda>i. map int [i * B + 10 * B..<i * B + 10 * B + B]) [0..<10])"
    using path_oram.read_all [of s4 B 10 rd1 "\<lambda>i. map int [i * B + 10 * B..<i * B + 10 * B + B]"
        "\<lambda>i. rnd (2 * (30 + i))" "\<lambda>i. rnd (2 * (30 + i) + 1)"
        "map (\<lambda>i. map int [i * B..<i * B + B]) [0..<10]"] s4 N s1(6) d4 fin10 v2 s3(7)
    unfolding read_phase_def by auto
  have "main_oram junk rnd N B n s = Some (s5, map (\<lambda>i. map int [i * B..<i * B + B]) [0..<10] @
              map (\<lambda>i. map int [i * B + 10 * B..<i * B + 10 * B + B]) [0..<10])"
    unfolding main_oram_def Let_def using N(1) sch s1(1) fill_loop [of "2 * 10 * B" junk] s2(1) s3(1) s4(1) s5
    by (simp del: upt_rec_numeral)
  then show ?thesis by blast
qed

section \<open>Properties\<close>

text \<open>
  C1: the Path ORAM refines a map. After \<^verbatim>\<open>Init_ORAM\<close>, any sequence of accesses whose ids are in
  range and which reads only ids that were written returns, for every read, the block last
  written to that id, whatever \<^verbatim>\<open>rand()\<close> returns, for both sort schemes, as long as no more than
  \<open>C\<close> different ids are used. (Memory from \<^verbatim>\<open>malloc\<close> must hold zero in the valid words of the
  tree, because \<^verbatim>\<open>Init_ORAM_Tree\<close> does not clear them.)
\<close>

theorem path_oram_refines_map:
  assumes "0 < Z" "2 \<le> unat N" "unat N \<le> 2 ^ 15" "Z * 15 + C < 2 ^ 28" "\<forall>p. junk (p * (3 + B)) = 0"
    and "accs_ok (unat N) B xs" "card (int ` a_id ` set xs) \<le> C" "spec_accs xs Map.empty = Some (m, ds)"
  shows "\<exists>s s'. Init_ORAM junk Z N B C scheme s0 = Some s \<and> run_accs Access_ORAM xs s = Some (s', ds) \<and>
    oram_inv s' \<and> oram_map s' = m"
proof -
  obtain s where s: "Init_ORAM junk Z N B C scheme s0 = Some s" "oram_inv s" "oram_map s = Map.empty"
      "block_size s = B" "pos_map_size s = unat N" "C < oram_room s"
    using Init_ORAM_run [OF assms(1-4), of junk B scheme s0] assms(5) by blast
  then show ?thesis using path_oram.accs_refine [of s xs m ds] assms(6-8) by auto
qed

theorem path_oram_refines_map_witness:
  "\<forall>s0. \<exists>s s'. Init_ORAM (\<lambda>_. 0) 2 8 1 4 BITONIC_SORT s0 = Some s \<and>
     run_accs Access_ORAM
       [\<lparr>a_r1 = 5, a_r2 = 9, a_op = 2, a_id = 3, a_data = [7]\<rparr>,
        \<lparr>a_r1 = 1, a_r2 = 2, a_op = 1, a_id = 3, a_data = [0]\<rparr>] s = Some (s', [[7], [7]]) \<and>
     oram_inv s' \<and> oram_map s' = [3 \<mapsto> [7]]"
  by (intro allI path_oram_refines_map) (simp_all add: accs_ok_def READ_def WRITE_def)

text \<open>
  one write. In a state that satisfies the invariant, \<^verbatim>\<open>Access_ORAM\<close> with \<^verbatim>\<open>WRITE\<close> returns,
  leaves the caller's buffer as it was, sets the block of its id, changes no other block and
  re-establishes the invariant, for both the overwriting of a block and the creation of a new
  one.
\<close>

theorem Access_ORAM_write:
  assumes "oram_inv s" "i < pos_map_size s" "length dp = block_size s"
    and "card (insert (int i) (dom (oram_map s))) \<le> oram_room s"
  shows "\<exists>s'. Access_ORAM r1 r2 WRITE (int i) dp s = Some (s', dp) \<and> oram_inv s' \<and>
    oram_map s' = (oram_map s)(int i \<mapsto> dp)"
  using path_oram.write_law [OF assms, of r1 r2] by blast

theorem Access_ORAM_write_witness:
  "\<forall>s0. \<exists>s s'. Init_ORAM (\<lambda>_. 0) 2 8 1 4 MERGE_SORT s0 = Some s \<and>
     Access_ORAM 3 4 WRITE (int 5) [42] s = Some (s', [42]) \<and> oram_inv s' \<and>
     oram_map s' = (oram_map s)(int 5 \<mapsto> [42])"
proof
  fix s0
  obtain s where s: "Init_ORAM (\<lambda>_. 0) 2 8 1 4 MERGE_SORT s0 = Some s" "oram_inv s" "oram_map s = Map.empty"
      "block_size s = 1" "pos_map_size s = 8" "4 < oram_room s"
    using Init_ORAM_run [of 2 8 4 "\<lambda>_. 0" 1 MERGE_SORT s0] by auto
  then have "\<exists>s'. Access_ORAM 3 4 WRITE (int 5) [42] s = Some (s', [42]) \<and> oram_inv s' \<and>
      oram_map s' = (oram_map s)(int 5 \<mapsto> [42])"
    by (intro Access_ORAM_write) simp_all
  then show "\<exists>s s'. Init_ORAM (\<lambda>_. 0) 2 8 1 4 MERGE_SORT s0 = Some s \<and>
     Access_ORAM 3 4 WRITE (int 5) [42] s = Some (s', [42]) \<and> oram_inv s' \<and>
     oram_map s' = (oram_map s)(int 5 \<mapsto> [42])" using s(1) by blast
qed

text \<open>
  one read. \<^verbatim>\<open>Access_ORAM\<close> with \<^verbatim>\<open>READ\<close> fills the caller's buffer with the block of its id and
  changes no block.
\<close>

theorem Access_ORAM_read:
  assumes "oram_inv s" "i < pos_map_size s" "length dp = block_size s" "oram_map s (int i) = Some v"
    and "card (dom (oram_map s)) \<le> oram_room s"
  shows "\<exists>s'. Access_ORAM r1 r2 READ (int i) dp s = Some (s', v) \<and> oram_inv s' \<and> oram_map s' = oram_map s"
  using path_oram.read_law [OF assms, of r1 r2] by blast

theorem Access_ORAM_read_witness:
  "\<forall>s0. \<exists>s s1 s'. Init_ORAM (\<lambda>_. 0) 2 8 1 4 MERGE_SORT s0 = Some s \<and>
     Access_ORAM 3 4 WRITE (int 5) [42] s = Some (s1, [42]) \<and>
     Access_ORAM 1 2 READ (int 5) [0] s1 = Some (s', [42]) \<and> oram_map s' = oram_map s1"
proof
  fix s0
  obtain s where s: "Init_ORAM (\<lambda>_. 0) 2 8 1 4 MERGE_SORT s0 = Some s" "oram_inv s" "oram_map s = Map.empty"
      "block_size s = 1" "pos_map_size s = 8" "4 < oram_room s"
    using Init_ORAM_run [of 2 8 4 "\<lambda>_. 0" 1 MERGE_SORT s0] by auto
  obtain s1 where s1: "Access_ORAM 3 4 WRITE (int 5) [42] s = Some (s1, [42])" "oram_inv s1"
      "oram_map s1 = [5 \<mapsto> [42]]" "block_size s1 = 1" "pos_map_size s1 = 8" "oram_room s1 = oram_room s"
    using path_oram.write_law [of s 5 "[42]" 3 4] s by auto
  have "\<exists>s'. Access_ORAM 1 2 READ (int 5) [0] s1 = Some (s', [42]) \<and> oram_inv s' \<and> oram_map s' = oram_map s1"
    by (rule Access_ORAM_read) (use s(6) s1 in simp_all)
  then show "\<exists>s s1 s'. Init_ORAM (\<lambda>_. 0) 2 8 1 4 MERGE_SORT s0 = Some s \<and>
     Access_ORAM 3 4 WRITE (int 5) [42] s = Some (s1, [42]) \<and>
     Access_ORAM 1 2 READ (int 5) [0] s1 = Some (s', [42]) \<and> oram_map s' = oram_map s1" using s(1) s1(1) by blast
qed



text \<open>
  the error cases of \<^verbatim>\<open>Access_ORAM\<close>. It aborts on an operation other than \<^verbatim>\<open>READ\<close> and
  \<^verbatim>\<open>WRITE\<close>, on an id out of range, and on a read of an id that was never written.
\<close>

theorem Access_ORAM_rejects:
  assumes "oram_inv s" "op \<notin> {READ, WRITE} \<or> bid < 0 \<or> int (pos_map_size s) \<le> bid \<or> (op = READ \<and> oram_map s bid = None)"
  shows "Access_ORAM r1 r2 op bid dp s = None"
proof (cases "op \<in> {READ, WRITE} \<and> 0 \<le> bid \<and> bid < int (pos_map_size s)")
  case False
  then show ?thesis unfolding Access_ORAM_def by (auto simp: c_assert_def)
next
  case True
  then obtain i where i: "bid = int i" "i < pos_map_size s" by (metis nonneg_int_cases of_nat_less_iff)
  let ?P = "pos_map_entries s"
  have minv: "mem_inv (tree_depth s) (bucket_size s) ?P (decode_tree s, decode_stash s)"
    and lP: "length ?P = pos_map_size s" using assms(1) unfolding oram_inv_def by blast+
  have op: "op = READ" and none: "oram_map s (int i) = None" using assms(2) True i by auto
  have "int i \<notin> b_id ` set (content (decode_tree s, decode_stash s))"
    using none by (simp add: oram_map_def cmap_dom [symmetric] domIff)
  then have "\<not> pm_valid (?P ! i)" using mem_invD(6) [OF minv, of i] i(2) lP by (metis image_eqI)
  then have "Retrieve_LeafLabel op bid al nl s = None" for al nl
    using Retrieve_loop [of i ?P nl al] i lP op by (simp add: Retrieve_LeafLabel_def Let_def c_assert_def)
  then show ?thesis unfolding Access_ORAM_def Let_def by (simp add: c_assert_def)
qed

theorem Access_ORAM_rejects_witness:
  "\<forall>s0. \<exists>s. Init_ORAM (\<lambda>_. 0) 2 8 1 4 MERGE_SORT s0 = Some s \<and> Access_ORAM 0 0 READ 3 [0] s = None"
proof
  fix s0
  obtain s where s: "Init_ORAM (\<lambda>_. 0) 2 8 1 4 MERGE_SORT s0 = Some s" "oram_inv s" "oram_map s = Map.empty"
    using Init_ORAM_run [of 2 8 4 "\<lambda>_. 0" 1 MERGE_SORT s0] by auto
  then have "Access_ORAM 0 0 READ 3 [0] s = None" by (intro Access_ORAM_rejects) simp_all
  then show "\<exists>s. Init_ORAM (\<lambda>_. 0) 2 8 1 4 MERGE_SORT s0 = Some s \<and> Access_ORAM 0 0 READ 3 [0] s = None"
    using s(1) by blast
qed

definition tree_id :: "oram \<Rightarrow> nat \<Rightarrow> nat" where
  "tree_id s p = nat (tree_oram s ! (p * (3 + block_size s) + 1))"

text \<open>
  the path invariant. In every state that satisfies the invariant (so after every access), a
  valid block of the tree lies in a bucket on the path to the leaf that the position map records
  for the block's id.
\<close>

theorem blocks_on_recorded_path:
  assumes "oram_inv s"
  shows "{p. p < 2 ^ tree_depth s * bucket_size s \<and> tree_oram s ! (p * (3 + block_size s)) \<noteq> 0} \<subseteq>
    {p. p div bucket_size s \<in> bucket (tree_depth s) (nat (pm_leaf (pos_map_entries s ! tree_id s p))) ` {..<tree_depth s}}"
proof
  fix p assume "p \<in> {p. p < 2 ^ tree_depth s * bucket_size s \<and> tree_oram s ! (p * (3 + block_size s)) \<noteq> 0}"
  then have p: "p < 2 ^ tree_depth s * bucket_size s" "tree_oram s ! (p * (3 + block_size s)) \<noteq> 0" by simp_all
  let ?T = "decode_tree s"
  have minv: "mem_inv (tree_depth s) (bucket_size s) (pos_map_entries s) (?T, decode_stash s)" and sz: "sizes_ok s"
    using assms unfolding oram_inv_def by blast+
  have v: "b_valid (?T ! p) \<noteq> 0" using decode_tree_valid [OF sz p(1)] p(2) by simp
  have tid: "b_id (?T ! p) = tree_oram s ! (p * (3 + block_size s) + 1)"
    using block_head [of "tree_oram s" "2 ^ tree_depth s * bucket_size s" "3 + block_size s" p 1] sz p(1)
    by (simp add: decode_tree_def sizes_ok_def)
  have "?T ! p \<in> set (content (?T, decode_stash s))" unfolding set_content using p(1) v by simp
  then have "b_leaf (?T ! p) = pm_leaf (pos_map_entries s ! tree_id s p)"
    using mem_invD(4) [OF minv] tid by (auto simp: tree_id_def)
  moreover obtain l where "l < tree_depth s" "p div bucket_size s = bucket (tree_depth s) (nat (b_leaf (?T ! p))) l"
    using mem_invD(3) [OF minv, of p] p(1) v by auto
  ultimately show "p \<in> {p. p div bucket_size s \<in>
      bucket (tree_depth s) (nat (pm_leaf (pos_map_entries s ! tree_id s p))) ` {..<tree_depth s}}" by auto
qed

theorem blocks_on_recorded_path_witness:
  "\<forall>s0. \<exists>s. Init_ORAM (\<lambda>_. 0) 2 8 1 4 MERGE_SORT s0 = Some s \<and>
    {p. p < 2 ^ tree_depth s * bucket_size s \<and> tree_oram s ! (p * (3 + block_size s)) \<noteq> 0} \<subseteq>
    {p. p div bucket_size s \<in> bucket (tree_depth s) (nat (pm_leaf (pos_map_entries s ! tree_id s p))) ` {..<tree_depth s}}"
proof
  fix s0
  obtain s where s: "Init_ORAM (\<lambda>_. 0) 2 8 1 4 MERGE_SORT s0 = Some s" "oram_inv s"
    using Init_ORAM_run [of 2 8 4 "\<lambda>_. 0" 1 MERGE_SORT s0] by auto
  from s(1) blocks_on_recorded_path [OF s(2)]
  show "\<exists>s. Init_ORAM (\<lambda>_. 0) 2 8 1 4 MERGE_SORT s0 = Some s \<and>
    {p. p < 2 ^ tree_depth s * bucket_size s \<and> tree_oram s ! (p * (3 + block_size s)) \<noteq> 0} \<subseteq>
    {p. p div bucket_size s \<in> bucket (tree_depth s) (nat (pm_leaf (pos_map_entries s ! tree_id s p))) ` {..<tree_depth s}}"
    by blast
qed

text \<open>
  \<^verbatim>\<open>Retrieve_LeafLabel\<close> aborts exactly when an unmapped id is read; otherwise it records the
  new leaf for the accessed id, marks the id as mapped, leaves every other entry of the position
  map as it was, and reports the old leaf (or the caller's random leaf) and whether the id is
  new.
\<close>

theorem Retrieve_LeafLabel_remaps:
  assumes "length (pos_map_entries s) = pos_map_size s" "i < pos_map_size s"
  shows "Retrieve_LeafLabel op (int i) al nl s =
    (let e = pos_map_entries s ! i
     in if op = READ \<and> \<not> pm_valid e then None
        else Some (s\<lparr>pos_map_entries := (pos_map_entries s)[i := pm_pack nl]\<rparr>,
          if pm_valid e then pm_leaf e else al, of_bool (\<not> pm_valid e)))"
  using Retrieve_loop [of i "pos_map_entries s" nl al] assms
  by (auto simp: Retrieve_LeafLabel_def Let_def c_assert_def)

theorem Retrieve_LeafLabel_remaps_witness:
  "\<forall>s0. Retrieve_LeafLabel WRITE (int 1) 6 5 (s0\<lparr>pos_map_size := 2, pos_map_entries := [0, 0]\<rparr>) =
    Some (s0\<lparr>pos_map_size := 2, pos_map_entries := [0, pm_pack 5]\<rparr>, 6, 1)"
  using Retrieve_LeafLabel_remaps [of "s0\<lparr>pos_map_size := 2, pos_map_entries := [0, 0]\<rparr>" 1 WRITE 6 5 for s0]
  by (simp add: READ_def WRITE_def pm_valid_def)

text \<open>
  \<^verbatim>\<open>Init_ORAM_Tree\<close> clears the valid flag of one block only: the valid word of every block
  other than block 1 keeps whatever \<^verbatim>\<open>malloc\<close> returned, although the loop runs once for every
  block of the tree.
\<close>

theorem Init_ORAM_Tree_leaves_garbage:
  assumes "2 \<le> 2 ^ d * Z" "p < 2 ^ d * Z" "p \<noteq> 1"
  shows "\<exists>s'. Init_ORAM_Tree junk Z d B s = Some s' \<and> tree_oram s' ! (p * (3 + B)) = junk (p * (3 + B))"
proof -
  let ?n = "(3 + B) * Z * 2 ^ d"
  have "p * (3 + B) + 0 < (2 ^ d * Z) * (3 + B)" using assms(2) by (intro block_index_bound) auto
  moreover have "(2 ^ d * Z) * (3 + B) = ?n" by (simp only: ac_simps)
  ultimately have lt: "p * (3 + B) < ?n" by linarith
  have "p * (3 + B) \<noteq> 3 + B" using assms(3) by simp
  then have "(fresh junk ?n)[3 + B := 0] ! (p * (3 + B)) = junk (p * (3 + B))" using lt by (simp add: fresh_def)
  then show ?thesis using Init_ORAM_Tree_run [OF assms(1), of junk B s] by simp
qed

theorem Init_ORAM_Tree_leaves_garbage_witness:
  "\<forall>s. \<exists>s'. Init_ORAM_Tree (\<lambda>_. 1) 4 3 2 s = Some s' \<and> tree_oram s' ! (7 * (3 + 2)) = 1"
  using Init_ORAM_Tree_leaves_garbage [of 3 4 7 "\<lambda>_. 1" 2] by simp

lemma Stash_Full_loop_eq:
  assumes "sizes_ok s"
  shows "i \<le> stash_size s \<Longrightarrow> Stash_Full_loop s i =
    Some (of_bool (list_all (\<lambda>e. b_valid (snd e) \<noteq> 0) (drop i (decode_stash s))))"
proof (induction "stash_size s - i" arbitrary: i)
  case 0
  then show ?case by (subst Stash_Full_loop.simps) simp
next
  case (Suc n)
  then have i: "i < stash_size s" by simp
  have "i * 4 + 1 < stash_size s * 4" using i by simp
  then have r: "rd (stash_info s) (i * 4 + 1) = Some (b_valid (snd (decode_stash s ! i)))"
    using assms decode_stash_valid [OF assms i] by (simp add: sizes_ok_def)
  have d: "drop i (decode_stash s) = decode_stash s ! i # drop (Suc i) (decode_stash s)"
    using i by (simp add: Cons_nth_drop_Suc)
  have "Stash_Full_loop s (Suc i) = Some (of_bool (list_all (\<lambda>e. b_valid (snd e) \<noteq> 0) (drop (Suc i) (decode_stash s))))"
    using Suc i by simp
  then show ?case using i r d by (subst Stash_Full_loop.simps) simp
qed

text \<open>
  \<^verbatim>\<open>Stash_Full\<close> returns 1 exactly when every entry of the stash is valid.
\<close>

theorem Stash_Full_iff:
  assumes "sizes_ok s"
  shows "Stash_Full s = Some (of_bool (list_all (\<lambda>e. b_valid (snd e) \<noteq> 0) (decode_stash s)))"
  using Stash_Full_loop_eq [OF assms, of 0] by (simp add: Stash_Full_def)

theorem Stash_Full_iff_witness:
  "\<forall>s0. \<exists>s. Init_ORAM (\<lambda>_. 0) 2 8 1 4 MERGE_SORT s0 = Some s \<and>
    Stash_Full s = Some (of_bool (list_all (\<lambda>e. b_valid (snd e) \<noteq> 0) (decode_stash s)))"
proof
  fix s0
  obtain s where s: "Init_ORAM (\<lambda>_. 0) 2 8 1 4 MERGE_SORT s0 = Some s" "oram_inv s"
    using Init_ORAM_run [of 2 8 4 "\<lambda>_. 0" 1 MERGE_SORT s0] by auto
  have "sizes_ok s" using s(2) unfolding oram_inv_def by blast
  with s(1) show "\<exists>s. Init_ORAM (\<lambda>_. 0) 2 8 1 4 MERGE_SORT s0 = Some s \<and>
    Stash_Full s = Some (of_bool (list_all (\<lambda>e. b_valid (snd e) \<noteq> 0) (decode_stash s)))"
    using Stash_Full_iff by blast
qed

end
