(* ===== verification/Interfaces.thy ===== *)
theory Interfaces
  imports CPrelude "HOL-Library.Product_Lexorder"
begin

text \<open>
  The interfaces of the container library \<^verbatim>\<open>lib/util\<close>, as locales. Each fixes the operations a
  client calls, with an invariant and an abstraction function, assumes what the provider
  promises, and proves once what a client may conclude about sequences of calls. The theories of
  the providers interpret them on the models of the C functions.

  A pointer is a natural number and \<open>NULL\<close> is 0; the containers store pointers and never
  follow them.
\<close>

type_synonym ptr = nat

abbreviation (input) NULL :: ptr where "NULL \<equiv> 0"

section \<open>Sequences of calls\<close>

text \<open>A call per element, and \<open>n\<close> calls that each return a value.\<close>

fun do_all :: "('a \<Rightarrow> 's \<Rightarrow> 's option) \<Rightarrow> 'a list \<Rightarrow> 's \<Rightarrow> 's option" where
  "do_all f [] s = Some s"
| "do_all f (x # xs) s = do { s \<leftarrow> f x s; do_all f xs s }"

fun take_out :: "('s \<Rightarrow> ('s \<times> 'a) option) \<Rightarrow> nat \<Rightarrow> 's \<Rightarrow> ('s \<times> 'a list) option" where
  "take_out f 0 s = Some (s, [])"
| "take_out f (Suc n) s = do { (s, x) \<leftarrow> f s; (s, xs) \<leftarrow> take_out f n s; Some (s, x # xs) }"

section \<open>Abstract data types\<close>

text \<open>
  A sequence of calls of different operations, each with a result, on the implementation and on
  the specification. The specification may restrict the calls it allows (\<open>ok\<close>).
\<close>

fun run_calls :: "('o \<Rightarrow> 's \<Rightarrow> ('s \<times> 'r) option) \<Rightarrow> 'o list \<Rightarrow> 's \<Rightarrow> ('s \<times> 'r list) option" where
  "run_calls call [] s = Some (s, [])"
| "run_calls call (c # cs) s = do { (s, r) \<leftarrow> call c s; (s, rs) \<leftarrow> run_calls call cs s; Some (s, r # rs) }"

fun run_spec :: "('o \<Rightarrow> 'a \<Rightarrow> 'a \<times> 'r) \<Rightarrow> 'o list \<Rightarrow> 'a \<Rightarrow> 'a \<times> 'r list" where
  "run_spec spec [] a = (a, [])"
| "run_spec spec (c # cs) a = (let (a, r) = spec c a; (a, rs) = run_spec spec cs a in (a, r # rs))"

fun all_ok :: "('o \<Rightarrow> 'a \<Rightarrow> bool) \<Rightarrow> ('o \<Rightarrow> 'a \<Rightarrow> 'a \<times> 'r) \<Rightarrow> 'o list \<Rightarrow> 'a \<Rightarrow> bool" where
  "all_ok ok spec [] a = True"
| "all_ok ok spec (c # cs) a = (ok c a \<and> all_ok ok spec cs (fst (spec c a)))"

lemma all_ok_True [simp]: "all_ok (\<lambda>_ _. True) spec cs a"
  by (induction cs arbitrary: a) auto

locale adt =
  fixes inv :: "'s \<Rightarrow> bool" and abs :: "'s \<Rightarrow> 'a" and call :: "'o \<Rightarrow> 's \<Rightarrow> ('s \<times> 'r) option"
    and ok :: "'o \<Rightarrow> 'a \<Rightarrow> bool" and spec :: "'o \<Rightarrow> 'a \<Rightarrow> 'a \<times> 'r"
  assumes call_law: "inv s \<Longrightarrow> ok c (abs s) \<Longrightarrow>
    \<exists>s'. call c s = Some (s', snd (spec c (abs s))) \<and> inv s' \<and> abs s' = fst (spec c (abs s))"
begin

lemma calls_refine:
  "inv s \<Longrightarrow> all_ok ok spec cs (abs s) \<Longrightarrow>
   \<exists>s'. run_calls call cs s = Some (s', snd (run_spec spec cs (abs s))) \<and> inv s' \<and> abs s' = fst (run_spec spec cs (abs s))"
proof (induction cs arbitrary: s)
  case (Cons c cs)
  obtain s1 where s1: "call c s = Some (s1, snd (spec c (abs s)))" "inv s1" "abs s1 = fst (spec c (abs s))"
    using call_law [of s c] Cons.prems by auto
  then show ?case using Cons.IH [of s1] Cons.prems by (auto simp: Let_def split: prod.splits)
qed simp

end

section \<open>Queues\<close>

locale fifo =
  fixes inv :: "'s \<Rightarrow> bool" and seq :: "'s \<Rightarrow> 'a list"
    and enq :: "'a \<Rightarrow> 's \<Rightarrow> 's option" and deq :: "'s \<Rightarrow> ('s \<times> 'a) option"
  assumes enq_law: "inv s \<Longrightarrow> \<exists>s'. enq x s = Some s' \<and> inv s' \<and> seq s' = seq s @ [x]"
    and deq_law: "inv s \<Longrightarrow> seq s = x # xs \<Longrightarrow> \<exists>s'. deq s = Some (s', x) \<and> inv s' \<and> seq s' = xs"
begin

lemma enq_all: "inv s \<Longrightarrow> \<exists>s'. do_all enq xs s = Some s' \<and> inv s' \<and> seq s' = seq s @ xs"
proof (induction xs arbitrary: s)
  case (Cons x xs)
  obtain s1 where "enq x s = Some s1" "inv s1" "seq s1 = seq s @ [x]" using enq_law [OF Cons.prems] by blast
  with Cons.IH [of s1] show ?case by auto
qed simp

lemma deq_all: "inv s \<Longrightarrow> seq s = xs @ ys \<Longrightarrow>
    \<exists>s'. take_out deq (length xs) s = Some (s', xs) \<and> inv s' \<and> seq s' = ys"
proof (induction xs arbitrary: s)
  case (Cons x xs)
  obtain s1 where "deq s = Some (s1, x)" "inv s1" "seq s1 = xs @ ys"
    using deq_law [of s x "xs @ ys"] Cons.prems by auto
  with Cons.IH [of s1] show ?case by auto
qed simp

lemma first_in_first_out:
  assumes "inv s" "seq s = []"
  shows "\<exists>s' s''. do_all enq xs s = Some s' \<and> take_out deq (length xs) s' = Some (s'', xs) \<and> inv s'' \<and> seq s'' = []"
  using enq_all [OF assms(1), of xs] deq_all [of _ xs "[]"] assms(2) by fastforce

end

section \<open>Stacks\<close>

locale lifo =
  fixes inv :: "'s \<Rightarrow> bool" and seq :: "'s \<Rightarrow> 'a list"
    and push :: "'a \<Rightarrow> 's \<Rightarrow> 's option" and pop :: "'s \<Rightarrow> ('s \<times> 'a) option"
  assumes push_law: "inv s \<Longrightarrow> \<exists>s'. push x s = Some s' \<and> inv s' \<and> seq s' = seq s @ [x]"
    and pop_law: "inv s \<Longrightarrow> seq s = xs @ [x] \<Longrightarrow> \<exists>s'. pop s = Some (s', x) \<and> inv s' \<and> seq s' = xs"
begin

lemma push_all: "inv s \<Longrightarrow> \<exists>s'. do_all push xs s = Some s' \<and> inv s' \<and> seq s' = seq s @ xs"
proof (induction xs arbitrary: s)
  case (Cons x xs)
  obtain s1 where "push x s = Some s1" "inv s1" "seq s1 = seq s @ [x]" using push_law [OF Cons.prems] by blast
  with Cons.IH [of s1] show ?case by auto
qed simp

lemma pop_all: "inv s \<Longrightarrow> seq s = ys @ rev xs \<Longrightarrow>
    \<exists>s'. take_out pop (length xs) s = Some (s', xs) \<and> inv s' \<and> seq s' = ys"
proof (induction xs arbitrary: s)
  case (Cons x xs)
  obtain s1 where "pop s = Some (s1, x)" "inv s1" "seq s1 = ys @ rev xs"
    using pop_law [of s "ys @ rev xs" x] Cons.prems by auto
  with Cons.IH [of s1] show ?case by auto
qed simp

lemma last_in_first_out:
  assumes "inv s"
  shows "\<exists>s' s''. do_all push xs s = Some s' \<and> take_out pop (length xs) s' = Some (s'', rev xs) \<and>
    inv s'' \<and> seq s'' = seq s"
  using push_all [OF assms, of xs] pop_all [of _ "seq s" "rev xs"] by fastforce

end

section \<open>Replacement orders\<close>

text \<open>
  A state that keeps its elements in the order they were touched, the last one first, and gives up
  the one at the end.
\<close>

locale recency =
  fixes inv :: "'s \<Rightarrow> bool" and order :: "'s \<Rightarrow> 'a list"
    and touch :: "'a \<Rightarrow> 's \<Rightarrow> 's option" and victim :: "'s \<Rightarrow> ('s \<times> 'a) option"
  assumes order_law: "inv s \<Longrightarrow> distinct (order s)"
    and touch_law: "inv s \<Longrightarrow> a \<in> set (order s) \<Longrightarrow>
      \<exists>s'. touch a s = Some s' \<and> inv s' \<and> order s' = a # remove1 a (order s)"
    and victim_law: "inv s \<Longrightarrow> order s \<noteq> [] \<Longrightarrow> \<exists>s'. victim s = Some (s', last (order s)) \<and> inv s'"
begin

lemma touch_all: "inv s \<Longrightarrow> set xs \<subseteq> set (order s) \<Longrightarrow>
    \<exists>s'. do_all touch xs s = Some s' \<and> inv s' \<and> order s' = rev (remdups xs) @ filter (\<lambda>x. x \<notin> set xs) (order s)"
proof (induction xs arbitrary: s)
  case (Cons a xs)
  obtain s1 where s1: "touch a s = Some s1" "inv s1" "order s1 = a # remove1 a (order s)"
    using touch_law [OF Cons.prems(1)] Cons.prems(2) by auto
  have r: "remove1 a (order s) = filter (\<lambda>x. x \<noteq> a) (order s)"
    using order_law [OF Cons.prems(1)] by (simp add: distinct_remove1_removeAll removeAll_filter_not_eq) metis
  then have "set xs \<subseteq> set (order s1)" using Cons.prems(2) s1(3) by auto
  then obtain s2 where "do_all touch xs s1 = Some s2" "inv s2"
      "order s2 = rev (remdups xs) @ filter (\<lambda>x. x \<notin> set xs) (order s1)"
    using Cons.IH [OF s1(2)] by blast
  then show ?case using s1 by (auto simp: r intro!: filter_cong)
qed simp

lemma hd_remdups:
  "xs \<noteq> [] \<Longrightarrow> \<exists>ys zs. xs = ys @ hd (remdups xs) # zs \<and> hd (remdups xs) \<notin> set zs \<and> set xs \<subseteq> insert (hd (remdups xs)) (set zs)"
proof (induction xs)
  case (Cons x xs)
  show ?case
  proof (cases "x \<in> set xs")
    case True
    then obtain ys zs where "xs = ys @ hd (remdups xs) # zs" "hd (remdups xs) \<notin> set zs" "set xs \<subseteq> insert (hd (remdups xs)) (set zs)"
      using Cons.IH by fastforce
    then show ?thesis using True by (intro exI [of _ "x # ys"] exI [of _ zs]) auto
  next
    case False
    then show ?thesis by (intro exI [of _ "[]"] exI [of _ xs]) auto
  qed
qed simp

lemma victim_is_least_recent:
  assumes "inv s" "set xs = set (order s)" "xs \<noteq> []"
  shows "\<exists>s1 s2 w ys zs. do_all touch xs s = Some s1 \<and> victim s1 = Some (s2, w) \<and> inv s2 \<and>
    xs = ys @ w # zs \<and> w \<notin> set zs \<and> set (order s) - {w} \<subseteq> set zs"
proof -
  obtain s1 where s1: "do_all touch xs s = Some s1" "inv s1" "order s1 = rev (remdups xs)"
    using touch_all [OF assms(1), of xs] assms(2) by (auto simp: filter_empty_conv)
  have w: "order s1 \<noteq> []" "last (order s1) = hd (remdups xs)"
    using s1(3) assms(3) by (simp_all add: last_rev)
  obtain s2 where "victim s1 = Some (s2, hd (remdups xs))" "inv s2" using victim_law [OF s1(2) w(1)] w(2) by auto
  then show ?thesis using s1(1) hd_remdups [OF assms(3)] assms(2) by blast
qed

end

section \<open>Priority queues\<close>

text \<open>
  The queue holds a multiset of entries (value, stamp, datum). An insertion stamps its entry with
  the clock and advances the clock; an extraction gives back an entry of smallest value, and among
  those of equal value the oldest one if \<open>oldest\<close> holds and the youngest one otherwise.
\<close>

definition rank :: "bool \<Rightarrow> int \<times> int \<times> 'd \<Rightarrow> int \<times> int" where
  "rank oldest = (\<lambda>(v, t, d). (v, if oldest then t else - t))"

fun stamped :: "int \<Rightarrow> (int \<times> 'd) list \<Rightarrow> (int \<times> int \<times> 'd) list" where
  "stamped c [] = []"
| "stamped c ((v, d) # xs) = (v, c, d) # stamped (c + 1) xs"

definition unstamp :: "int \<times> int \<times> 'd \<Rightarrow> int \<times> 'd" where
  "unstamp = (\<lambda>(v, t, d). (v, d))"

lemma unstamp_stamped: "map unstamp (stamped c xs) = xs"
  by (induction c xs rule: stamped.induct) (auto simp: unstamp_def)

lemma stamped_range: "(v, t, d) \<in> set (stamped c xs) \<Longrightarrow> c \<le> t"
  by (induction c xs rule: stamped.induct) auto

lemma fst_unstamp [simp]: "fst (unstamp x) = fst x"
  by (simp add: unstamp_def split: prod.splits)

lemma sorted_wrt_unique:
  assumes "asymp R"
  shows "sorted_wrt R xs \<Longrightarrow> sorted_wrt R ys \<Longrightarrow> mset xs = mset ys \<Longrightarrow> xs = ys"
proof (induction xs arbitrary: ys)
  case (Cons x xs)
  then obtain y ys' where ys: "ys = y # ys'" by (cases ys) auto
  have "x = y"
  proof (rule ccontr)
    assume "x \<noteq> y"
    moreover have "y \<in> set (x # xs)" "x \<in> set ys" using Cons.prems(3) ys by (metis list.set_intros(1) mset_eq_setD)+
    ultimately have "R x y" "R y x" using Cons.prems(1,2) ys by auto
    then show False using assms by (meson asympD)
  qed
  then show ?case using Cons ys by simp
qed simp

lemma insort_sorts_rank:
  "sorted_wrt (\<lambda>a b. rank f a < rank f b) ys \<Longrightarrow> (\<And>y. y \<in> set ys \<Longrightarrow> snd (rank f x) < snd (rank f y)) \<Longrightarrow>
   sorted_wrt (\<lambda>a b. rank f a < rank f b) (insort_key fst x ys)"
proof (induction ys)
  case (Cons y ys)
  show ?case
  proof (cases "fst x \<le> fst y")
    case True
    have "rank f x < rank f z" if z: "z \<in> set (y # ys)" for z
    proof -
      have "rank f y \<le> rank f z" using z Cons.prems(1) by auto
      then have "fst y \<le> fst z" by (auto simp: rank_def less_eq_prod_def split: prod.splits)
      then show ?thesis using True Cons.prems(2) [OF z] by (auto simp: rank_def less_prod_def split: prod.splits)
    qed
    then show ?thesis using True Cons.prems(1) by auto
  next
    case False
    then have "rank f y < rank f x" by (auto simp: rank_def less_prod_def split: prod.splits)
    then show ?thesis using False Cons by (auto simp: set_insort_key)
  qed
qed simp

lemma sort_key_sorts_rank:
  "sorted_wrt (\<lambda>a b. snd (rank f a) < snd (rank f b)) xs \<Longrightarrow> sorted_wrt (\<lambda>a b. rank f a < rank f b) (sort_key fst xs)"
  by (induction xs) (auto intro!: insort_sorts_rank)

lemma snd_rank: "snd (rank f x) = (if f then fst (snd x) else - fst (snd x))"
  by (simp add: rank_def split: prod.splits)

lemma stamped_increasing: "sorted_wrt (\<lambda>a b. snd (rank True a) < snd (rank True b)) (stamped c xs)"
  by (induction c xs rule: stamped.induct) (auto simp: rank_def dest: stamped_range)

lemma stamped_stable:
  "sorted_wrt (\<lambda>a b. rank f a < rank f b) (sort_key fst (if f then stamped c xs else rev (stamped c xs)))"
proof (rule sort_key_sorts_rank)
  show "sorted_wrt (\<lambda>a b. snd (rank f a) < snd (rank f b)) (if f then stamped c xs else rev (stamped c xs))"
    using stamped_increasing [of c xs] by (simp add: sorted_wrt_rev snd_rank)
qed

lemma map_sort_key_unstamp: "map unstamp (sort_key fst xs) = sort_key fst (map unstamp xs)"
proof (induction xs)
  case (Cons x xs)
  have "map unstamp (insort_key fst x ys) = insort_key fst (unstamp x) (map unstamp ys)" for ys
    by (induction ys) auto
  then show ?case using Cons by simp
qed simp

locale min_queue =
  fixes inv :: "'s \<Rightarrow> bool" and bag :: "'s \<Rightarrow> (int \<times> int \<times> 'd) multiset" and clock :: "'s \<Rightarrow> int"
    and oldest :: bool
    and ins :: "int \<times> 'd \<Rightarrow> 's \<Rightarrow> 's option" and ext :: "'s \<Rightarrow> ('s \<times> int \<times> 'd) option"
  assumes ins_law: "inv s \<Longrightarrow> \<exists>s'. ins (v, d) s = Some s' \<and> inv s' \<and> bag s' = add_mset (v, clock s, d) (bag s) \<and>
      clock s' = clock s + 1"
    and ext_law: "inv s \<Longrightarrow> bag s \<noteq> {#} \<Longrightarrow>
      \<exists>s' x. ext s = Some (s', unstamp x) \<and> inv s' \<and> bag s = add_mset x (bag s') \<and>
        (\<forall>y \<in># bag s'. rank oldest x < rank oldest y)"
begin

lemma ins_all: "inv s \<Longrightarrow> \<exists>s'. do_all ins xs s = Some s' \<and> inv s' \<and> bag s' = bag s + mset (stamped (clock s) xs)"
proof (induction xs arbitrary: s)
  case (Cons x xs)
  obtain v d where x: "x = (v, d)" by (cases x)
  obtain s1 where "ins x s = Some s1" "inv s1" "bag s1 = add_mset (v, clock s, d) (bag s)" "clock s1 = clock s + 1"
    using ins_law [OF Cons.prems] x by blast
  with Cons.IH [of s1] x show ?case by auto
qed simp

lemma ext_all: "inv s \<Longrightarrow> \<exists>s' xs. take_out ext (size (bag s)) s = Some (s', map unstamp xs) \<and> inv s' \<and> bag s' = {#} \<and>
    mset xs = bag s \<and> sorted_wrt (\<lambda>a b. rank oldest a < rank oldest b) xs"
proof (induction "size (bag s)" arbitrary: s)
  case (Suc n)
  then have ne: "bag s \<noteq> {#}" by (metis size_empty nat.distinct(1))
  obtain s1 x where s1: "ext s = Some (s1, unstamp x)" "inv s1" "bag s = add_mset x (bag s1)"
      and least: "\<forall>y \<in># bag s1. rank oldest x < rank oldest y"
    using ext_law [OF Suc.prems ne] by blast
  obtain s2 xs where s2: "take_out ext (size (bag s1)) s1 = Some (s2, map unstamp xs)" "inv s2" "bag s2 = {#}"
      "mset xs = bag s1" "sorted_wrt (\<lambda>a b. rank oldest a < rank oldest b) xs"
    using Suc.hyps(1) [of s1] Suc.hyps(2) s1 by auto
  have "sorted_wrt (\<lambda>a b. rank oldest a < rank oldest b) (x # xs)"
    using least s2(5) set_mset_mset [of xs] unfolding s2(4) by simp
  then show ?case using s1 s2 by (intro exI [of _ s2] exI [of _ "x # xs"]) simp
qed simp

text \<open>Inserting a list and extracting everything sorts the list stably.\<close>

lemma queue_sorts:
  assumes "inv s" "bag s = {#}"
  shows "\<exists>s' s''. do_all ins xs s = Some s' \<and>
    take_out ext (length xs) s' = Some (s'', sort_key fst (if oldest then xs else rev xs)) \<and> inv s'' \<and> bag s'' = {#}"
proof -
  let ?zs = "stamped (clock s) xs"
  obtain s' where s': "do_all ins xs s = Some s'" "inv s'" "bag s' = mset ?zs"
    using ins_all [OF assms(1), of xs] assms(2) by auto
  obtain s'' ys where ys: "take_out ext (size (bag s')) s' = Some (s'', map unstamp ys)" "inv s''" "bag s'' = {#}"
      "mset ys = mset ?zs" "sorted_wrt (\<lambda>a b. rank oldest a < rank oldest b) ys"
    using ext_all [OF s'(2)] s'(3) by auto
  have "asymp (\<lambda>a b :: int \<times> int \<times> 'd. rank oldest a < rank oldest b)" by (rule asympI) (meson less_asym)
  then have "ys = sort_key fst (if oldest then ?zs else rev ?zs)"
    using sorted_wrt_unique [OF _ ys(5) stamped_stable] ys(4) by auto
  then have "map unstamp ys = sort_key fst (if oldest then xs else rev xs)"
    using unstamp_stamped [of "clock s" xs] by (auto simp: map_sort_key_unstamp rev_map [symmetric])
  moreover have "size (bag s') = length xs" using s'(3) unstamp_stamped [of "clock s" xs] by (metis length_map size_mset)
  ultimately show ?thesis using s'(1) ys(1-3) by auto
qed

end

end
