(* ===== verification/QuickSort.thy ===== *)
theory QuickSort
  imports CPrelude
begin

text \<open>
  The quicksort that \<^verbatim>\<open>lib/util/list.c\<close> and \<^verbatim>\<open>lib/util/linked-list.c\<close> both contain: the same
  code on two representations of an array, with two choices of the pivot. The functions are
  translated once, over the access \<open>get\<close> and the exchange \<open>swp\<close> of the array and the pivot index
  \<open>piv\<close>; each file instantiates them. The scans have no bound in the code: with a comparison
  function that is not an order they may run on for ever or leave the array, so they are partial
  functions.

  The locale \<open>swap_array\<close> states what the two accesses promise and proves, once, that the sort
  returns a sorted permutation.
\<close>

section \<open>The code\<close>

partial_function (option) scan_up ::
    "(int \<Rightarrow> 's \<Rightarrow> 'x option) \<Rightarrow> ('x \<Rightarrow> 'x \<Rightarrow> int) \<Rightarrow> 's \<Rightarrow> 'x \<Rightarrow> int \<Rightarrow> int option" where
  "scan_up get cmp l p i = do {
     x \<leftarrow> get i l;
     if cmp x p < 0 then scan_up get cmp l p (i + 1) else Some i }"

partial_function (option) scan_down ::
    "(int \<Rightarrow> 's \<Rightarrow> 'x option) \<Rightarrow> ('x \<Rightarrow> 'x \<Rightarrow> int) \<Rightarrow> 's \<Rightarrow> 'x \<Rightarrow> int \<Rightarrow> int option" where
  "scan_down get cmp l p j = do {
     x \<leftarrow> get j l;
     if cmp x p > 0 then scan_down get cmp l p (j - 1) else Some j }"

partial_function (option) partition_loop ::
    "(int \<Rightarrow> 's \<Rightarrow> 'x option) \<Rightarrow> (int \<Rightarrow> int \<Rightarrow> 's \<Rightarrow> 's option) \<Rightarrow> ('x \<Rightarrow> 'x \<Rightarrow> int) \<Rightarrow> 'x \<Rightarrow> int \<Rightarrow> int \<Rightarrow> 's \<Rightarrow>
     ('s \<times> int \<times> int) option" where
  "partition_loop get swp cmp p i j l = do {
     i \<leftarrow> scan_up get cmp l p i;
     j \<leftarrow> scan_down get cmp l p j;
     (l, i, j) \<leftarrow> if i \<le> j then do { l \<leftarrow> swp i j l; Some (l, i + 1, j - 1) } else Some (l, i, j);
     if i \<le> j then partition_loop get swp cmp p i j l else Some (l, i, j) }"

partial_function (option) qsort ::
    "(int \<Rightarrow> 's \<Rightarrow> 'x option) \<Rightarrow> (int \<Rightarrow> int \<Rightarrow> 's \<Rightarrow> 's option) \<Rightarrow> (int \<Rightarrow> int \<Rightarrow> int) \<Rightarrow> ('x \<Rightarrow> 'x \<Rightarrow> int) \<Rightarrow>
     int \<Rightarrow> int \<Rightarrow> 's \<Rightarrow> 's option" where
  "qsort get swp piv cmp lo hi l = do {
     p \<leftarrow> get (piv lo hi) l;
     (l, i, j) \<leftarrow> partition_loop get swp cmp p lo hi l;
     l \<leftarrow> if lo < j then qsort get swp piv cmp lo j l else Some l;
     if i < hi then qsort get swp piv cmp i hi l else Some l }"

section \<open>Orders and permutations of a segment\<close>

text \<open>
  What a comparison function has to be: the sign of the result orders the elements, the two
  argument orders agree, and the order is transitive.
\<close>

definition cmp_order :: "('x \<Rightarrow> 'x \<Rightarrow> int) \<Rightarrow> bool" where
  "cmp_order cmp \<longleftrightarrow> (\<forall>a b. cmp a b < 0 \<longleftrightarrow> cmp b a > 0) \<and>
     (\<forall>a b c. cmp a b \<le> 0 \<longrightarrow> cmp b c \<le> 0 \<longrightarrow> cmp a c \<le> 0)"

lemma cmp_orderD:
  assumes "cmp_order cmp"
  shows "cmp a b > 0 \<longleftrightarrow> cmp b a < 0" "cmp a a = 0" "cmp a b \<le> 0 \<longleftrightarrow> 0 \<le> cmp b a"
    "cmp a b \<le> 0 \<Longrightarrow> cmp b c \<le> 0 \<Longrightarrow> cmp a c \<le> 0"
proof -
  have s: "\<And>a b. cmp a b < 0 \<longleftrightarrow> cmp b a > 0" using assms by (simp add: cmp_order_def)
  show "cmp a b > 0 \<longleftrightarrow> cmp b a < 0" by (simp add: s)
  show "cmp a a = 0" using s [of a a] by linarith
  show "cmp a b \<le> 0 \<longleftrightarrow> 0 \<le> cmp b a" using s [of b a] by linarith
  show "cmp a b \<le> 0 \<Longrightarrow> cmp b c \<le> 0 \<Longrightarrow> cmp a c \<le> 0" using assms by (auto simp: cmp_order_def)
qed

text \<open>\<open>ys\<close> arises from \<open>xs\<close> by permuting the places from \<open>lo\<close> to before \<open>b\<close>.\<close>

definition perm_on :: "nat \<Rightarrow> nat \<Rightarrow> 'x list \<Rightarrow> 'x list \<Rightarrow> bool" where
  "perm_on lo b xs ys \<longleftrightarrow> length ys = length xs \<and> mset ys = mset xs \<and>
     (\<forall>q. q \<notin> {lo..<b} \<longrightarrow> ys ! q = xs ! q) \<and> (\<forall>q \<in> {lo..<b}. \<exists>r \<in> {lo..<b}. ys ! q = xs ! r)"

lemma perm_on_refl [simp]: "perm_on lo b xs xs"
  by (auto simp: perm_on_def)

lemma perm_on_trans: "perm_on lo b xs ys \<Longrightarrow> perm_on lo b ys zs \<Longrightarrow> perm_on lo b xs zs"
  unfolding perm_on_def by (metis (no_types, opaque_lifting))

lemma perm_on_widen: "perm_on lo b xs ys \<Longrightarrow> lo' \<le> lo \<Longrightarrow> b \<le> b' \<Longrightarrow> perm_on lo' b' xs ys"
  unfolding perm_on_def by (auto; metis atLeastLessThan_iff le_trans order_less_le_trans)

lemma perm_on_swap:
  assumes "i \<in> {lo..<b}" "j \<in> {lo..<b}" "b \<le> length xs"
  shows "perm_on lo b xs (xs[i := xs ! j, j := xs ! i])"
proof -
  have "mset (xs[i := xs ! j, j := xs ! i]) = mset xs" using assms by (intro mset_swap) auto
  moreover have "xs[i := xs ! j, j := xs ! i] ! q = (if q = j then xs ! i else if q = i then xs ! j else xs ! q)" for q
    using assms by (auto simp: nth_list_update)
  ultimately show ?thesis using assms by (auto simp: perm_on_def)
qed

lemma perm_on_all:
  assumes "perm_on lo b xs ys" "\<forall>q. lo \<le> q \<and> q < b \<longrightarrow> P (xs ! q)"
  shows "\<forall>q. lo \<le> q \<and> q < b \<longrightarrow> P (ys ! q)"
  using assms unfolding perm_on_def by (metis atLeastLessThan_iff)

text \<open>
  The partition around the pivot \<open>p\<close>, from a state in which everything below \<open>i\<close> is at most the
  pivot and everything above \<open>j\<close> at least the pivot. Either both scans still have their own end
  of the segment as sentinel, or one round has already moved both of them.
\<close>

definition split_at :: "('x \<Rightarrow> 'x \<Rightarrow> int) \<Rightarrow> 'x \<Rightarrow> nat \<Rightarrow> nat \<Rightarrow> nat \<Rightarrow> int \<Rightarrow> 'x list \<Rightarrow> bool" where
  "split_at cmp p lo b i j xs \<longleftrightarrow> (\<forall>q. lo \<le> q \<and> q < i \<longrightarrow> cmp (xs ! q) p \<le> 0) \<and>
     (\<forall>q. j < int q \<and> q < b \<longrightarrow> 0 \<le> cmp (xs ! q) p)"

lemma split_at_swap:
  assumes "split_at cmp p lo b i j xs" "i \<le> k1" "k1 \<le> k2" "k2 < b" "int k2 \<le> j" "b \<le> length xs"
    and up: "0 \<le> cmp (xs ! k1) p" "\<forall>q. i \<le> q \<and> q < k1 \<longrightarrow> cmp (xs ! q) p < 0"
    and down: "cmp (xs ! k2) p \<le> 0" "\<forall>q. k2 < q \<and> int q \<le> j \<longrightarrow> 0 < cmp (xs ! q) p"
  shows "split_at cmp p lo b (Suc k1) (int k2 - 1) (xs[k1 := xs ! k2, k2 := xs ! k1])"
  unfolding split_at_def
proof (intro conjI allI impI)
  let ?ys = "xs[k1 := xs ! k2, k2 := xs ! k1]"
  have ys: "?ys ! q = (if q = k2 then xs ! k1 else if q = k1 then xs ! k2 else xs ! q)" for q
    using assms by (auto simp: nth_list_update)
  fix q
  {
    assume "lo \<le> q \<and> q < Suc k1"
    then consider "q = k1" | "q < i" "lo \<le> q" | "i \<le> q" "q < k1" by linarith
    then show "cmp (?ys ! q) p \<le> 0"
      using assms(1) assms(2,3) up down(1) by cases (auto simp: ys split_at_def less_imp_le)
  next
    assume "int k2 - 1 < int q \<and> q < b"
    then consider "q = k2" | "j < int q" "q < b" | "k2 < q" "int q \<le> j" by linarith
    then show "0 \<le> cmp (?ys ! q) p"
      using assms(1) assms(3,5) up(1) down by cases (auto simp: ys split_at_def less_imp_le)
  }
qed

lemma split_at_crossed:
  assumes "split_at cmp p lo b i j xs" and up: "\<forall>q. i \<le> q \<and> q < k1 \<longrightarrow> cmp (xs ! q) p < 0"
    and down: "\<forall>q. k2 < q \<and> int q \<le> j \<longrightarrow> 0 < cmp (xs ! q) p"
  shows "split_at cmp p lo b k1 (int k2) xs"
  unfolding split_at_def
proof (intro conjI allI impI)
  fix q
  assume "lo \<le> q \<and> q < k1"
  then show "cmp (xs ! q) p \<le> 0" using assms(1) up by (cases "q < i") (auto simp: split_at_def less_imp_le)
next
  fix q
  assume "int k2 < int q \<and> q < b"
  then show "0 \<le> cmp (xs ! q) p" using assms(1) down by (cases "j < int q") (auto simp: split_at_def less_imp_le)
qed

definition sorted_on :: "('x \<Rightarrow> 'x \<Rightarrow> int) \<Rightarrow> nat \<Rightarrow> nat \<Rightarrow> 'x list \<Rightarrow> bool" where
  "sorted_on cmp lo b xs \<longleftrightarrow> (\<forall>q r. lo \<le> q \<and> q \<le> r \<and> r < b \<longrightarrow> cmp (xs ! q) (xs ! r) \<le> 0)"

lemma sorted_on_trivial: "cmp_order cmp \<Longrightarrow> b \<le> Suc lo \<Longrightarrow> sorted_on cmp lo b xs"
  using cmp_orderD(2) [of cmp] by (auto simp: sorted_on_def) (metis Suc_leI le_antisym le_trans order_refl not_less_eq_eq)

lemma sorted_on_cong: "sorted_on cmp lo b xs \<Longrightarrow> (\<And>q. lo \<le> q \<Longrightarrow> q < b \<Longrightarrow> ys ! q = xs ! q) \<Longrightarrow> sorted_on cmp lo b ys"
  by (auto simp: sorted_on_def)

lemma split_at_perm:
  assumes "split_at cmp p lo b i j xs" "j < int i" "perm_on lo' b' xs ys"
    and "(lo' = lo \<and> int b' = j + 1) \<or> (lo' = i \<and> b' = b)"
  shows "split_at cmp p lo b i j ys"
proof -
  have out: "ys ! q = xs ! q" if "q \<notin> {lo'..<b'}" for q using assms(3) that unfolding perm_on_def by blast
  have into: "\<exists>r \<in> {lo'..<b'}. ys ! q = xs ! r" if "q \<in> {lo'..<b'}" for q
    using assms(3) that unfolding perm_on_def by blast
  have low: "cmp (ys ! q) p \<le> 0" if "lo \<le> q" "q < i" for q
  proof (cases "q \<in> {lo'..<b'}")
    case True
    then obtain r where "r \<in> {lo'..<b'}" "ys ! q = xs ! r" using into by blast
    moreover from True that assms(4) have "lo' = lo" "int b' = j + 1" by auto
    ultimately show ?thesis using assms(1,2) unfolding split_at_def by auto
  qed (use that out assms(1) in \<open>auto simp: split_at_def\<close>)
  have high: "0 \<le> cmp (ys ! q) p" if "j < int q" "q < b" for q
  proof (cases "q \<in> {lo'..<b'}")
    case True
    then obtain r where "r \<in> {lo'..<b'}" "ys ! q = xs ! r" using into by blast
    moreover from True that assms(4) have "lo' = i" "b' = b" by auto
    ultimately show ?thesis using assms(1,2) unfolding split_at_def by auto
  qed (use that out assms(1) in \<open>auto simp: split_at_def\<close>)
  show ?thesis using low high by (auto simp: split_at_def)
qed

lemma sorted_on_split:
  assumes ord: "cmp_order cmp" and "split_at cmp p lo b i j xs" "j < int i" "int b1 = j + 1"
    and "sorted_on cmp lo b1 xs" "sorted_on cmp i b xs"
  shows "sorted_on cmp lo b xs"
  unfolding sorted_on_def
proof (intro allI impI)
  fix q r assume qr: "lo \<le> q \<and> q \<le> r \<and> r < b"
  then consider "r < b1" | "i \<le> q" | "q < i" "j < int r" using assms(4) by linarith
  then show "cmp (xs ! q) (xs ! r) \<le> 0"
  proof cases
    case 3
    then have "cmp (xs ! q) p \<le> 0" "cmp p (xs ! r) \<le> 0"
      using assms(2) qr cmp_orderD(3) [OF ord] by (auto simp: split_at_def)
    then show ?thesis using cmp_orderD(4) [OF ord] by blast
  qed (use assms(5,6) qr in \<open>auto simp: sorted_on_def\<close>)
qed

section \<open>The contract of the array\<close>

locale swap_array =
  fixes inv :: "'s \<Rightarrow> bool" and arr :: "'s \<Rightarrow> 'x list"
    and get :: "int \<Rightarrow> 's \<Rightarrow> 'x option" and swp :: "int \<Rightarrow> int \<Rightarrow> 's \<Rightarrow> 's option"
    and piv :: "int \<Rightarrow> int \<Rightarrow> int"
  assumes get_law: "inv l \<Longrightarrow> k < length (arr l) \<Longrightarrow> get (int k) l = Some (arr l ! k)"
    and swp_law: "inv l \<Longrightarrow> i < length (arr l) \<Longrightarrow> j < length (arr l) \<Longrightarrow>
      \<exists>l'. swp (int i) (int j) l = Some l' \<and> inv l' \<and> arr l' = (arr l)[i := arr l ! j, j := arr l ! i]"
    and piv_law: "lo \<le> hi \<Longrightarrow> lo \<le> piv lo hi \<and> piv lo hi \<le> hi"
begin

lemma scan_up_run:
  assumes "inv l" "i \<le> m" "m < length (arr l)" "0 \<le> cmp (arr l ! m) p"
  shows "\<exists>k. scan_up get cmp l p (int i) = Some (int k) \<and> i \<le> k \<and> k \<le> m \<and> 0 \<le> cmp (arr l ! k) p \<and>
    (\<forall>q. i \<le> q \<and> q < k \<longrightarrow> cmp (arr l ! q) p < 0)"
  using assms(2)
proof (induction "m - i" arbitrary: i)
  case 0
  then have "i = m" by simp
  then show ?case using assms by (subst scan_up.simps) (simp add: get_law)
next
  case (Suc n)
  have im: "Suc i \<le> m" and nm: "n = m - Suc i" using Suc.hyps(2) by simp_all
  show ?case
  proof (cases "cmp (arr l ! i) p < 0")
    case True
    obtain k where k: "scan_up get cmp l p (int (Suc i)) = Some (int k)" "Suc i \<le> k" "k \<le> m"
        "0 \<le> cmp (arr l ! k) p" "\<forall>q. Suc i \<le> q \<and> q < k \<longrightarrow> cmp (arr l ! q) p < 0"
      using Suc.hyps(1) [OF nm im] by blast
    have "scan_up get cmp l p (int i) = Some (int k)"
      using assms im True k(1) by (subst scan_up.simps) (simp add: get_law add.commute [of _ 1])
    moreover have "\<forall>q. i \<le> q \<and> q < k \<longrightarrow> cmp (arr l ! q) p < 0"
      using k(5) True by (metis Suc_leI le_neq_implies_less)
    ultimately show ?thesis using k by (intro exI [of _ k]) auto
  next
    case False
    then have "scan_up get cmp l p (int i) = Some (int i)"
      using assms im by (subst scan_up.simps) (simp add: get_law)
    then show ?thesis using False im by (intro exI [of _ i]) auto
  qed
qed

lemma scan_down_run:
  assumes "inv l" "m \<le> j" "j < length (arr l)" "cmp (arr l ! m) p \<le> 0"
  shows "\<exists>k. scan_down get cmp l p (int j) = Some (int k) \<and> m \<le> k \<and> k \<le> j \<and> cmp (arr l ! k) p \<le> 0 \<and>
    (\<forall>q. k < q \<and> q \<le> j \<longrightarrow> 0 < cmp (arr l ! q) p)"
  using assms(2,3)
proof (induction "j - m" arbitrary: j)
  case 0
  then have "j = m" by simp
  then show ?case using assms by (subst scan_down.simps) (simp add: get_law)
next
  case (Suc n)
  then obtain j' where j': "j = Suc j'" "m \<le> j'" "n = j' - m" by (cases j) auto
  show ?case
  proof (cases "0 < cmp (arr l ! j) p")
    case True
    obtain k where k: "scan_down get cmp l p (int j') = Some (int k)" "m \<le> k" "k \<le> j'"
        "cmp (arr l ! k) p \<le> 0" "\<forall>q. k < q \<and> q \<le> j' \<longrightarrow> 0 < cmp (arr l ! q) p"
      using Suc.hyps(1) [OF j'(3) j'(2)] Suc.prems j'(1) by auto
    have "get (int j) l = Some (arr l ! j)" using assms(1) Suc.prems by (simp only: get_law)
    then have "scan_down get cmp l p (int j) = Some (int k)"
      using True k(1) j'(1) by (subst scan_down.simps) simp
    moreover have "\<forall>q. k < q \<and> q \<le> j \<longrightarrow> 0 < cmp (arr l ! q) p"
      using k(5) True j'(1) by (metis le_Suc_eq)
    ultimately show ?thesis using k j' by (intro exI [of _ k]) auto
  next
    case False
    then have "scan_down get cmp l p (int j) = Some (int j)"
      using assms Suc.prems by (subst scan_down.simps) (simp add: get_law)
    then show ?thesis using False Suc.prems by (intro exI [of _ j]) auto
  qed
qed

lemma partition_run:
  assumes ord: "cmp_order cmp"
  shows "inv l \<Longrightarrow> lo \<le> i \<Longrightarrow> i \<le> j \<Longrightarrow> j < b \<Longrightarrow> b \<le> length (arr l) \<Longrightarrow> split_at cmp p lo b i (int j) (arr l) \<Longrightarrow>
    \<exists>m. i \<le> m \<and> m < b \<and> 0 \<le> cmp (arr l ! m) p \<Longrightarrow> \<exists>m. lo \<le> m \<and> m \<le> j \<and> cmp (arr l ! m) p \<le> 0 \<Longrightarrow>
    (lo < i \<and> Suc j < b) \<or> (i = lo \<and> Suc j = b \<and> (\<exists>m. i \<le> m \<and> m \<le> j \<and> arr l ! m = p)) \<Longrightarrow>
    \<exists>l' i' j' ys. partition_loop get swp cmp p (int i) (int j) l = Some (l', int i', j') \<and> inv l' \<and> arr l' = ys \<and>
      perm_on lo b (arr l) ys \<and> split_at cmp p lo b i' j' ys \<and>
      j' < int i' \<and> lo < i' \<and> i' \<le> b \<and> j' < int b - 1 \<and> int lo - 1 \<le> j'"
proof (induction "j - i" arbitrary: i j l rule: less_induct)
  case less
  note inv = less.prems(1) and sp = less.prems(6)
  let ?xs = "arr l"
  obtain m1 where m1: "i \<le> m1" "m1 < b" "0 \<le> cmp (?xs ! m1) p" using less.prems(7) by blast
  obtain m2 where m2: "lo \<le> m2" "m2 \<le> j" "cmp (?xs ! m2) p \<le> 0" using less.prems(8) by blast
  obtain k1 where k1: "scan_up get cmp l p (int i) = Some (int k1)" "i \<le> k1" "k1 \<le> m1" "0 \<le> cmp (?xs ! k1) p"
      "\<forall>q. i \<le> q \<and> q < k1 \<longrightarrow> cmp (?xs ! q) p < 0"
    using scan_up_run [OF inv m1(1), of cmp p] m1(2,3) less.prems(5) by auto
  obtain k2 where k2: "scan_down get cmp l p (int j) = Some (int k2)" "m2 \<le> k2" "k2 \<le> j" "cmp (?xs ! k2) p \<le> 0"
      "\<forall>q. k2 < q \<and> q \<le> j \<longrightarrow> 0 < cmp (?xs ! q) p"
    using scan_down_run [OF inv m2(2), of cmp p] m2(3) less.prems(4,5) by auto
  have k2': "\<forall>q. k2 < q \<and> int q \<le> int j \<longrightarrow> 0 < cmp (?xs ! q) p" using k2(5) by simp
  show ?case
  proof (cases "k1 \<le> k2")
    case True
    let ?ys = "?xs[k1 := ?xs ! k2, k2 := ?xs ! k1]"
    have lt: "k1 < length (arr l)" "k2 < length (arr l)" "k2 < b" using True k2(3) less.prems(4,5) by linarith+
    obtain l1 where l1: "swp (int k1) (int k2) l = Some l1" "inv l1" "arr l1 = ?ys"
      using swp_law [OF inv lt(1,2)] by blast
    have abs1: "inv l1" "arr l1 = ?ys" "length (arr l1) = length (arr l)" using l1(2,3) by auto
    have sp1: "split_at cmp p lo b (Suc k1) (int k2 - 1) ?ys"
      by (rule split_at_swap [OF sp k1(2) True lt(3) _ _ k1(4,5) k2(4) k2']) (use k2(3) less.prems(5) in simp_all)
    have pm: "perm_on lo b ?xs ?ys" using k1(2) k2(2) m2(1) lt True less.prems(2,5) by (intro perm_on_swap) auto
    have ys: "?ys ! k1 = ?xs ! k2" "?ys ! k2 = ?xs ! k1" using lt by (auto simp: nth_list_update)
    show ?thesis
    proof (cases "Suc k1 < k2")
      case more: True
      then obtain k where k: "k2 = Suc k" by (cases k2) auto
      have eq: "partition_loop get swp cmp p (int i) (int j) l = partition_loop get swp cmp p (int (Suc k1)) (int k) l1"
        using k1(1) k2(1) True l1(1) more k by (subst partition_loop.simps) (simp add: add.commute)
      have "\<exists>l' i' j' ys. partition_loop get swp cmp p (int (Suc k1)) (int k) l1 = Some (l', int i', j') \<and> inv l' \<and> arr l' = ys \<and>
          perm_on lo b (arr l1) ys \<and> split_at cmp p lo b i' j' ys \<and>
          j' < int i' \<and> lo < i' \<and> i' \<le> b \<and> j' < int b - 1 \<and> int lo - 1 \<le> j'"
      proof (rule less.hyps)
        show "\<exists>m. Suc k1 \<le> m \<and> m < b \<and> 0 \<le> cmp (arr l1 ! m) p"
          using ys(2) k1(4) more lt(3) abs1(2) by (intro exI [of _ k2]) simp
        show "\<exists>m. lo \<le> m \<and> m \<le> k \<and> cmp (arr l1 ! m) p \<le> 0"
          using ys(1) k2(4) more abs1(2) k less.prems(2) k1(2) by (intro exI [of _ k1]) auto
      qed (use k1 k2 more k sp1 abs1 less.prems(2-5) in auto)
      then obtain l' i' j' zs where r: "partition_loop get swp cmp p (int (Suc k1)) (int k) l1 = Some (l', int i', j')"
          "inv l'" "arr l' = zs" "perm_on lo b ?ys zs" "split_at cmp p lo b i' j' zs"
          "j' < int i'" "lo < i'" "i' \<le> b" "j' < int b - 1" "int lo - 1 \<le> j'" unfolding abs1(2) by blast
      show ?thesis using eq r(1-3,5-) perm_on_trans [OF pm r(4)]
        by (intro exI [of _ l'] exI [of _ i'] exI [of _ j'] exI [of _ zs]) simp
    next
      case False
      have "partition_loop get swp cmp p (int i) (int j) l = Some (l1, int (Suc k1), int k2 - 1)"
        using k1(1) k2(1) True l1(1) False by (subst partition_loop.simps) (simp add: add.commute)
      then show ?thesis using l1(2,3) pm sp1 False k1(2) less.prems(2) True lt(3) k2(2) m2(1)
        by (intro exI [of _ l1] exI [of _ "Suc k1"] exI [of _ "int k2 - 1"] exI [of _ ?ys]) auto
    qed
  next
    case False
    have "\<not> (\<exists>m. i \<le> m \<and> m \<le> j \<and> ?xs ! m = p)"
    proof
      assume "\<exists>m. i \<le> m \<and> m \<le> j \<and> ?xs ! m = p"
      then obtain m where m: "i \<le> m" "m \<le> j" "cmp (?xs ! m) p = 0" using cmp_orderD(2) [OF ord] by blast
      then have "\<not> m < k1" "\<not> k2 < m" using k1(5) k2(5) by fastforce+
      then show False using False by linarith
    qed
    then have mv: "lo < i" "Suc j < b" using less.prems(9) by auto
    have "partition_loop get swp cmp p (int i) (int j) l = Some (l, int k1, int k2)"
      using k1(1) k2(1) False by (subst partition_loop.simps) simp
    then show ?thesis
      using inv split_at_crossed [OF sp k1(5) k2'] mv False k1(2,3) m1(2) k2(2,3) m2(1)
      by (intro exI [of _ l] exI [of _ k1] exI [of _ "int k2"] exI [of _ ?xs]) auto
  qed
qed

lemma qsort_run:
  assumes ord: "cmp_order cmp"
  shows "inv l \<Longrightarrow> lo < b \<Longrightarrow> b \<le> length (arr l) \<Longrightarrow>
    \<exists>l' ys. qsort get swp piv cmp (int lo) (int b - 1) l = Some l' \<and> inv l' \<and> arr l' = ys \<and> perm_on lo b (arr l) ys \<and>
      sorted_on cmp lo b ys"
proof (induction "b - lo" arbitrary: lo b l rule: less_induct)
  case less
  note inv = less.prems(1)
  let ?hi = "b - 1" and ?xs = "arr l"
  define m where "m = nat (piv (int lo) (int ?hi))"
  let ?p = "?xs ! m"
  have hi: "int b - 1 = int ?hi" "?hi < length (arr l)" using less.prems by auto
  have m: "piv (int lo) (int ?hi) = int m" "lo \<le> m" "m \<le> ?hi"
    using piv_law [of "int lo" "int ?hi"] less.prems(2) by (auto simp: m_def)
  have ends: "lo \<le> ?hi" "?hi < b" "(lo < lo \<and> Suc ?hi < b) \<or>
      (lo = lo \<and> Suc ?hi = b \<and> (\<exists>k. lo \<le> k \<and> k \<le> ?hi \<and> ?xs ! k = ?p))"
    using less.prems(2) m by auto
  have start: "split_at cmp ?p lo b lo (int ?hi) ?xs" by (auto simp: split_at_def)
  have sent: "\<exists>k. lo \<le> k \<and> k < b \<and> 0 \<le> cmp (?xs ! k) ?p" "\<exists>k. lo \<le> k \<and> k \<le> ?hi \<and> cmp (?xs ! k) ?p \<le> 0"
    using less.prems(2) m cmp_orderD(2) [OF ord, of ?p] by (auto intro!: exI [of _ m])
  obtain l1 i j ys where part: "partition_loop get swp cmp ?p (int lo) (int ?hi) l = Some (l1, int i, j)" "inv l1" "arr l1 = ys"
      "perm_on lo b ?xs ys" "split_at cmp ?p lo b i j ys" and
      ij: "j < int i" "lo < i" "i \<le> b" "j < int b - 1" "int lo - 1 \<le> j"
    using partition_run [OF ord inv order_refl ends(1,2) less.prems(3) start sent ends(3)] by blast
  define b1 where "b1 = nat (j + 1)"
  have b1: "int b1 = j + 1" "lo \<le> b1" using ij by (auto simp: b1_def)
  have l1: "inv l1" "arr l1 = ys" "length (arr l1) = length (arr l)" using part(2-4) by (auto simp: perm_on_def)
  have "\<exists>l' zs. (if int lo < j then qsort get swp piv cmp (int lo) j l1 else Some l1) = Some l' \<and> inv l' \<and> arr l' = zs \<and>
      perm_on lo b1 ys zs \<and> sorted_on cmp lo b1 zs"
  proof (cases "int lo < j")
    case True
    have "\<exists>l' zs. qsort get swp piv cmp (int lo) (int b1 - 1) l1 = Some l' \<and> inv l' \<and> arr l' = zs \<and>
        perm_on lo b1 (arr l1) zs \<and> sorted_on cmp lo b1 zs"
      using ij b1 True l1 less.prems by (intro less.hyps) auto
    then show ?thesis using True b1(1) l1(2) by simp
  next
    case False
    then show ?thesis using l1(1,2) False b1(1) sorted_on_trivial [OF ord, of b1 lo ys] by auto
  qed
  then obtain l2 zs where q2: "(if int lo < j then qsort get swp piv cmp (int lo) j l1 else Some l1) = Some l2"
      "inv l2" "arr l2 = zs" "perm_on lo b1 ys zs" "sorted_on cmp lo b1 zs" by blast
  have l2: "inv l2" "arr l2 = zs" "length (arr l2) = length (arr l)" using q2(2-4) l1(2,3) by (auto simp: perm_on_def)
  have "\<exists>l' ws. (if int i < int ?hi then qsort get swp piv cmp (int i) (int ?hi) l2 else Some l2) = Some l' \<and> inv l' \<and> arr l' = ws \<and>
      perm_on i b zs ws \<and> sorted_on cmp i b ws"
  proof (cases "i < ?hi")
    case True
    have "\<exists>l' ws. qsort get swp piv cmp (int i) (int b - 1) l2 = Some l' \<and> inv l' \<and> arr l' = ws \<and>
        perm_on i b (arr l2) ws \<and> sorted_on cmp i b ws"
      using ij True l2 less.prems by (intro less.hyps) auto
    moreover have "int i < int ?hi" using True by simp
    ultimately show ?thesis unfolding hi(1) l2(2) by (simp only: if_True)
  next
    case False
    then show ?thesis using l2(1,2) False sorted_on_trivial [OF ord, of b i zs] by auto
  qed
  then obtain l3 ws where q3: "(if int i < int ?hi then qsort get swp piv cmp (int i) (int ?hi) l2 else Some l2) = Some l3"
      "inv l3" "arr l3 = ws" "perm_on i b zs ws" "sorted_on cmp i b ws" by blast
  have run: "qsort get swp piv cmp (int lo) (int b - 1) l = Some l3"
    unfolding hi(1) using part(1) q2(1) q3(1) m(1) get_law [OF inv, of m] m(3) hi(2)
    by (subst qsort.simps) simp
  have sp: "split_at cmp ?p lo b i j ws"
    using split_at_perm [OF split_at_perm [OF part(5) ij(1) q2(4)] ij(1) q3(4)] b1(1) by simp
  have "sorted_on cmp lo b1 ws"
    using q3(4) ij(1) b1(1) by (intro sorted_on_cong [OF q2(5)]) (auto simp: perm_on_def)
  then have "sorted_on cmp lo b ws" using sorted_on_split [OF ord sp ij(1) b1(1)] q3(5) by blast
  moreover have "perm_on lo b ?xs ws"
  proof -
    have "perm_on lo b ys zs" by (rule perm_on_widen [OF q2(4)]) (use b1(1) ij in linarith)+
    moreover have "perm_on lo b zs ws" by (rule perm_on_widen [OF q3(4)]) (use ij in linarith)+
    ultimately show ?thesis using part(4) perm_on_trans by blast
  qed
  ultimately show ?case using run q3(2,3) by blast
qed

lemma qsort_sorts:
  assumes "cmp_order cmp" "inv l" "arr l \<noteq> []"
  shows "\<exists>l'. qsort get swp piv cmp 0 (int (length (arr l)) - 1) l = Some l' \<and> inv l' \<and> mset (arr l') = mset (arr l) \<and>
    sorted_wrt (\<lambda>a b. cmp a b \<le> 0) (arr l')"
proof -
  obtain l' where r: "qsort get swp piv cmp 0 (int (length (arr l)) - 1) l = Some l'" "inv l'"
      "perm_on 0 (length (arr l)) (arr l) (arr l')" "sorted_on cmp 0 (length (arr l)) (arr l')"
    using qsort_run [OF assms(1,2), of 0 "length (arr l)"] assms(3) by auto
  then show ?thesis by (auto simp: perm_on_def sorted_on_def sorted_wrt_iff_nth_less)
qed

end

end
