(* ===== verification/UtilList.thy ===== *)
theory UtilList
  imports Interfaces QuickSort
begin

text \<open>
  The vector-based list of \<^verbatim>\<open>lib/util/list.c\<close>: a circular buffer \<open>elem\<close> of \<open>size\<close>
  pointers in which the elements stand from \<open>head\<close> on, wrapping around. The fields of
  \<^verbatim>\<open>struct list_t\<close> are the fields of the record with the prefix \<open>l_\<close>. Every operation returns
  the new list, with the error code it sets, and the value the C function returns. The counts are
  natural numbers: the code keeps them nonnegative, and they stay below \<open>2 ^ 31\<close> as long as the
  vector holds at most \<open>2 ^ 30\<close> elements. \<^verbatim>\<open>list_free\<close> only releases memory.

  \<open>list_inv\<close> is the representation invariant and \<open>list_abs\<close> reads off the sequence of elements;
  each operation is proved equal to its counterpart on sequences.
\<close>

section \<open>State\<close>

datatype list_err_t = LIST_ERR_OK | LIST_ERR_BOUNDS | LIST_ERR_NOT_FOUND | LIST_ERR_EMPTY

record list_t =
  l_count :: nat
  l_error :: list_err_t
  l_size :: nat
  l_head :: nat
  l_tail :: nat
  l_elem :: "ptr list"

text \<open>
  The index macros of the file. The remainder of a negative number is zero or negative in C, and
  a negative index leaves the array.
\<close>

definition c_index :: "int \<Rightarrow> nat \<Rightarrow> nat option" where
  "c_index x n = (if n = 0 \<or> (x < 0 \<and> x mod int n \<noteq> 0) then None else Some (nat (x mod int n)))"

definition INLIST :: "nat \<Rightarrow> int \<Rightarrow> nat option" where
  "INLIST n x = c_index (x + int n) n"

definition ELEM :: "list_t \<Rightarrow> int \<Rightarrow> nat option" where
  "ELEM l x = c_index (x + int (l_head l)) (l_size l)"

section \<open>Operations\<close>

definition list_grow :: "list_t \<Rightarrow> list_t option" where
  "list_grow l = do {
     let nsize = l_size l * 2;
     (nelem, i) \<leftarrow> for_loop 0 (l_count l) (\<lambda>index (nelem, i). do {
        x \<leftarrow> rd (l_elem l) i;
        nelem \<leftarrow> wr nelem index x;
        Some (nelem, (i + 1) mod l_size l) }) (replicate nsize NULL, l_head l);
     Some (l\<lparr>l_elem := nelem, l_size := nsize, l_head := 0, l_tail := l_count l\<rparr>) }"

definition list_create_with_size :: "int \<Rightarrow> list_t" where
  "list_create_with_size sz = (let n = if sz < 4 then 4 else nat sz in
     \<lparr>l_count = 0, l_error = LIST_ERR_OK, l_size = n, l_head = 0, l_tail = 0, l_elem = replicate n NULL\<rparr>)"

definition list_create :: list_t where
  "list_create = list_create_with_size 8"

definition list_count :: "list_t \<Rightarrow> nat" where
  "list_count l = l_count l"

definition list_add :: "ptr \<Rightarrow> list_t \<Rightarrow> list_t option" where
  "list_add x l = do {
     l \<leftarrow> if l_count l = l_size l then list_grow l else Some l;
     e \<leftarrow> wr (l_elem l) (l_tail l) x;
     Some (l\<lparr>l_elem := e, l_tail := (l_tail l + 1) mod l_size l, l_count := l_count l + 1,
             l_error := LIST_ERR_OK\<rparr>) }"

definition list_get :: "int \<Rightarrow> list_t \<Rightarrow> (list_t \<times> ptr) option" where
  "list_get index l =
     (if index < 0 \<or> index \<ge> int (l_count l) then Some (l\<lparr>l_error := LIST_ERR_BOUNDS\<rparr>, NULL)
      else do {
        let i = (nat index + l_head l) mod l_size l;
        x \<leftarrow> rd (l_elem l) i;
        Some (l\<lparr>l_error := LIST_ERR_OK\<rparr>, x) })"

definition list_set :: "int \<Rightarrow> ptr \<Rightarrow> list_t \<Rightarrow> list_t option" where
  "list_set index x l =
     (if index < 0 \<or> index \<ge> int (l_count l) then Some (l\<lparr>l_error := LIST_ERR_BOUNDS\<rparr>)
      else do {
        let i = (nat index + l_head l) mod l_size l;
        e \<leftarrow> wr (l_elem l) i x;
        Some (l\<lparr>l_elem := e, l_error := LIST_ERR_OK\<rparr>) })"

text \<open>The two shifting loops of \<^verbatim>\<open>list_insert\<close>.\<close>

definition insert_shift_right :: "nat \<Rightarrow> list_t \<Rightarrow> ptr list option" where
  "insert_shift_right shiftcount l = do {
     (e, pos) \<leftarrow> for_loop 0 shiftcount (\<lambda>i (e, pos). do {
        prev \<leftarrow> INLIST (l_size l) (int pos - 1);
        x \<leftarrow> rd e prev;
        e \<leftarrow> wr e pos x;
        Some (e, prev) }) (l_elem l, l_tail l);
     Some e }"

definition insert_shift_left :: "nat \<Rightarrow> list_t \<Rightarrow> ptr list option" where
  "insert_shift_left index l = do {
     (e, pos) \<leftarrow> for_loop 0 index (\<lambda>i (e, pos). do {
        prev \<leftarrow> INLIST (l_size l) (int pos - 1);
        x \<leftarrow> rd e pos;
        e \<leftarrow> wr e prev x;
        Some (e, (pos + 1) mod l_size l) }) (l_elem l, l_head l);
     Some e }"

definition list_insert :: "int \<Rightarrow> ptr \<Rightarrow> list_t \<Rightarrow> list_t option" where
  "list_insert index x l =
     (if index < 0 \<or> index > int (l_count l) then Some (l\<lparr>l_error := LIST_ERR_BOUNDS\<rparr>)
      else do {
        l \<leftarrow> if l_count l = l_size l then list_grow l else Some l;
        l \<leftarrow> if nat index > l_count l div 2 then do {
               e \<leftarrow> insert_shift_right (l_count l - nat index) l;
               Some (l\<lparr>l_elem := e, l_tail := (l_tail l + 1) mod l_size l\<rparr>) }
             else do {
               e \<leftarrow> insert_shift_left (nat index) l;
               h \<leftarrow> INLIST (l_size l) (int (l_head l) - 1);
               Some (l\<lparr>l_elem := e, l_head := h\<rparr>) };
        e \<leftarrow> wr (l_elem l) ((l_head l + nat index) mod l_size l) x;
        Some (l\<lparr>l_elem := e, l_count := l_count l + 1, l_error := LIST_ERR_OK\<rparr>) })"

text \<open>The search loop, from round \<open>i\<close> at position \<open>pos\<close>.\<close>

function index_of_loop :: "list_t \<Rightarrow> ptr \<Rightarrow> nat \<Rightarrow> nat \<Rightarrow> int option" where
  "index_of_loop l x i pos =
     (if i < l_count l then do {
        y \<leftarrow> rd (l_elem l) pos;
        if y = x then Some (int i) else index_of_loop l x (Suc i) ((pos + 1) mod l_size l) }
      else Some (-1))"
  by pat_completeness auto
termination by (relation "measure (\<lambda>(l, x, i, pos). l_count l - i)") auto

declare index_of_loop.simps [simp del]

definition list_index_of :: "ptr \<Rightarrow> list_t \<Rightarrow> (list_t \<times> int) option" where
  "list_index_of x l = do {
     r \<leftarrow> index_of_loop l x 0 (l_head l);
     Some (l\<lparr>l_error := if r = -1 then LIST_ERR_NOT_FOUND else LIST_ERR_OK\<rparr>, r) }"

definition remove_shift_left :: "nat \<Rightarrow> nat \<Rightarrow> list_t \<Rightarrow> (ptr list \<times> nat) option" where
  "remove_shift_left shiftcount start l =
     for_loop 0 shiftcount (\<lambda>i (e, pos). do {
        x \<leftarrow> rd e ((pos + 1) mod l_size l);
        e \<leftarrow> wr e pos x;
        Some (e, (pos + 1) mod l_size l) }) (l_elem l, start)"

definition remove_shift_right :: "nat \<Rightarrow> nat \<Rightarrow> list_t \<Rightarrow> (ptr list \<times> nat) option" where
  "remove_shift_right index start l =
     for_loop 0 index (\<lambda>i (e, pos). do {
        prev \<leftarrow> INLIST (l_size l) (int pos - 1);
        x \<leftarrow> rd e prev;
        e \<leftarrow> wr e pos x;
        Some (e, prev) }) (l_elem l, start)"

definition list_remove_at :: "int \<Rightarrow> list_t \<Rightarrow> (list_t \<times> ptr) option" where
  "list_remove_at index l =
     (if index < 0 \<or> index \<ge> int (l_count l) then Some (l\<lparr>l_error := LIST_ERR_BOUNDS\<rparr>, NULL)
      else do {
        let start = (l_head l + nat index) mod l_size l;
        x \<leftarrow> rd (l_elem l) start;
        l \<leftarrow> if nat index > l_count l div 2 then do {
               (e, pos) \<leftarrow> remove_shift_left (l_count l - nat index - 1) start l;
               e \<leftarrow> wr e pos NULL;
               t \<leftarrow> INLIST (l_size l) (int (l_tail l) - 1);
               Some (l\<lparr>l_elem := e, l_tail := t\<rparr>) }
             else do {
               (e, pos) \<leftarrow> remove_shift_right (nat index) start l;
               e \<leftarrow> wr e (l_head l) NULL;
               Some (l\<lparr>l_elem := e, l_head := (l_head l + 1) mod l_size l\<rparr>) };
        Some (l\<lparr>l_count := l_count l - 1, l_error := LIST_ERR_OK\<rparr>, x) })"

definition list_remove :: "ptr \<Rightarrow> list_t \<Rightarrow> (list_t \<times> ptr) option" where
  "list_remove x l = do {
     (l, index) \<leftarrow> list_index_of x l;
     if l_error l \<noteq> LIST_ERR_OK then Some (l, NULL) else list_remove_at index l }"

definition list_clear :: "list_t \<Rightarrow> list_t" where
  "list_clear l = l\<lparr>l_count := 0, l_head := 0, l_tail := 0, l_error := LIST_ERR_OK\<rparr>"

definition list_push :: "ptr \<Rightarrow> list_t \<Rightarrow> list_t option" where
  "list_push x l = list_add x l"

definition list_pop :: "list_t \<Rightarrow> (list_t \<times> ptr) option" where
  "list_pop l = (if l_count l = 0 then Some (l\<lparr>l_error := LIST_ERR_EMPTY\<rparr>, NULL)
                 else list_remove_at (int (l_count l) - 1) l)"

definition list_top :: "list_t \<Rightarrow> (list_t \<times> ptr) option" where
  "list_top l = (if l_count l = 0 then Some (l\<lparr>l_error := LIST_ERR_EMPTY\<rparr>, NULL)
                 else list_get (int (l_count l) - 1) l)"

definition list_bottom :: "list_t \<Rightarrow> (list_t \<times> ptr) option" where
  "list_bottom l = (if l_count l = 0 then Some (l\<lparr>l_error := LIST_ERR_EMPTY\<rparr>, NULL) else list_get 0 l)"

definition list_enqueue :: "ptr \<Rightarrow> list_t \<Rightarrow> list_t option" where
  "list_enqueue x l = list_add x l"

definition list_dequeue :: "list_t \<Rightarrow> (list_t \<times> ptr) option" where
  "list_dequeue l = (if l_count l = 0 then Some (l\<lparr>l_error := LIST_ERR_EMPTY\<rparr>, NULL)
                     else list_remove_at 0 l)"

definition list_head :: "list_t \<Rightarrow> (list_t \<times> ptr) option" where
  "list_head l = (if l_count l = 0 then Some (l\<lparr>l_error := LIST_ERR_EMPTY\<rparr>, NULL) else list_get 0 l)"

definition list_tail :: "list_t \<Rightarrow> (list_t \<times> ptr) option" where
  "list_tail l = (if l_count l = 0 then Some (l\<lparr>l_error := LIST_ERR_EMPTY\<rparr>, NULL)
                  else list_get (int (l_count l) - 1) l)"

section \<open>Sorting\<close>

text \<open>
  The static function \<^verbatim>\<open>sort\<close> of the file is the quicksort of the theory \<^verbatim>\<open>QuickSort\<close> on the
  elements of the ring, with the last element of the segment as pivot.
\<close>

definition list_elem_at :: "int \<Rightarrow> list_t \<Rightarrow> ptr option" where
  "list_elem_at i l = do { a \<leftarrow> ELEM l i; rd (l_elem l) a }"

definition sort_swap :: "int \<Rightarrow> int \<Rightarrow> list_t \<Rightarrow> list_t option" where
  "sort_swap i j l = do {
     a \<leftarrow> ELEM l i;
     b \<leftarrow> ELEM l j;
     tmp \<leftarrow> rd (l_elem l) a;
     y \<leftarrow> rd (l_elem l) b;
     e \<leftarrow> wr (l_elem l) a y;
     e \<leftarrow> wr e b tmp;
     Some (l\<lparr>l_elem := e\<rparr>) }"

definition quick_sort :: "(ptr \<Rightarrow> ptr \<Rightarrow> int) \<Rightarrow> int \<Rightarrow> int \<Rightarrow> list_t \<Rightarrow> list_t option" where
  "quick_sort cmp lo hi l = qsort list_elem_at sort_swap (\<lambda>lo hi. hi) cmp lo hi l"

definition list_sort :: "(ptr \<Rightarrow> ptr \<Rightarrow> int) \<Rightarrow> list_t \<Rightarrow> list_t option" where
  "list_sort cmp l = (if l_count l \<noteq> 0 then quick_sort cmp 0 (int (l_count l) - 1) l else Some l)"

section \<open>Sequences of calls\<close>

text \<open>
  The operations of the header but the sort, as data, with what a call returns: the value of the
  function (0 for \<^verbatim>\<open>void\<close>). \<open>list_spec\<close> says what each call means for the sequence of elements and
  the error code.
\<close>

datatype list_op = Count | Add ptr | Get int | Set int ptr | Insert int ptr | IndexOf ptr | RemoveAt int
  | Remove ptr | Clear | Push ptr | Pop | Top | Bottom | Enqueue ptr | Dequeue | Head | Tail

fun list_call :: "list_op \<Rightarrow> list_t \<Rightarrow> (list_t \<times> int) option" where
  "list_call Count l = Some (l, int (list_count l))"
| "list_call (Add x) l = map_option (\<lambda>l. (l, 0)) (list_add x l)"
| "list_call (Get i) l = map_option (\<lambda>(l, x). (l, int x)) (list_get i l)"
| "list_call (Set i x) l = map_option (\<lambda>l. (l, 0)) (list_set i x l)"
| "list_call (Insert i x) l = map_option (\<lambda>l. (l, 0)) (list_insert i x l)"
| "list_call (IndexOf x) l = list_index_of x l"
| "list_call (RemoveAt i) l = map_option (\<lambda>(l, x). (l, int x)) (list_remove_at i l)"
| "list_call (Remove x) l = map_option (\<lambda>(l, x). (l, int x)) (list_remove x l)"
| "list_call Clear l = Some (list_clear l, 0)"
| "list_call (Push x) l = map_option (\<lambda>l. (l, 0)) (list_push x l)"
| "list_call Pop l = map_option (\<lambda>(l, x). (l, int x)) (list_pop l)"
| "list_call Top l = map_option (\<lambda>(l, x). (l, int x)) (list_top l)"
| "list_call Bottom l = map_option (\<lambda>(l, x). (l, int x)) (list_bottom l)"
| "list_call (Enqueue x) l = map_option (\<lambda>l. (l, 0)) (list_enqueue x l)"
| "list_call Dequeue l = map_option (\<lambda>(l, x). (l, int x)) (list_dequeue l)"
| "list_call Head l = map_option (\<lambda>(l, x). (l, int x)) (list_head l)"
| "list_call Tail l = map_option (\<lambda>(l, x). (l, int x)) (list_tail l)"

text \<open>The index of the first occurrence, or -1.\<close>

fun first_index :: "'a \<Rightarrow> 'a list \<Rightarrow> int" where
  "first_index x [] = -1"
| "first_index x (y # ys) = (if y = x then 0 else let r = first_index x ys in if r = -1 then -1 else r + 1)"

fun list_spec :: "list_op \<Rightarrow> ptr list \<times> list_err_t \<Rightarrow> (ptr list \<times> list_err_t) \<times> int" where
  "list_spec Count (xs, e) = ((xs, e), int (length xs))"
| "list_spec (Add x) (xs, e) = ((xs @ [x], LIST_ERR_OK), 0)"
| "list_spec (Get i) (xs, e) =
     (if 0 \<le> i \<and> i < int (length xs) then ((xs, LIST_ERR_OK), int (xs ! nat i)) else ((xs, LIST_ERR_BOUNDS), 0))"
| "list_spec (Set i x) (xs, e) =
     (if 0 \<le> i \<and> i < int (length xs) then ((xs[nat i := x], LIST_ERR_OK), 0) else ((xs, LIST_ERR_BOUNDS), 0))"
| "list_spec (Insert i x) (xs, e) =
     (if 0 \<le> i \<and> i \<le> int (length xs) then ((take (nat i) xs @ x # drop (nat i) xs, LIST_ERR_OK), 0)
      else ((xs, LIST_ERR_BOUNDS), 0))"
| "list_spec (IndexOf x) (xs, e) =
     ((xs, if x \<in> set xs then LIST_ERR_OK else LIST_ERR_NOT_FOUND), first_index x xs)"
| "list_spec (RemoveAt i) (xs, e) =
     (if 0 \<le> i \<and> i < int (length xs) then ((take (nat i) xs @ drop (Suc (nat i)) xs, LIST_ERR_OK), int (xs ! nat i))
      else ((xs, LIST_ERR_BOUNDS), 0))"
| "list_spec (Remove x) (xs, e) =
     (if x \<in> set xs then ((remove1 x xs, LIST_ERR_OK), int x) else ((xs, LIST_ERR_NOT_FOUND), 0))"
| "list_spec Clear (xs, e) = (([], LIST_ERR_OK), 0)"
| "list_spec (Push x) (xs, e) = ((xs @ [x], LIST_ERR_OK), 0)"
| "list_spec Pop (xs, e) =
     (if xs = [] then ((xs, LIST_ERR_EMPTY), 0) else ((butlast xs, LIST_ERR_OK), int (last xs)))"
| "list_spec Top (xs, e) = (if xs = [] then ((xs, LIST_ERR_EMPTY), 0) else ((xs, LIST_ERR_OK), int (last xs)))"
| "list_spec Bottom (xs, e) = (if xs = [] then ((xs, LIST_ERR_EMPTY), 0) else ((xs, LIST_ERR_OK), int (hd xs)))"
| "list_spec (Enqueue x) (xs, e) = ((xs @ [x], LIST_ERR_OK), 0)"
| "list_spec Dequeue (xs, e) =
     (if xs = [] then ((xs, LIST_ERR_EMPTY), 0) else ((tl xs, LIST_ERR_OK), int (hd xs)))"
| "list_spec Head (xs, e) = (if xs = [] then ((xs, LIST_ERR_EMPTY), 0) else ((xs, LIST_ERR_OK), int (hd xs)))"
| "list_spec Tail (xs, e) = (if xs = [] then ((xs, LIST_ERR_EMPTY), 0) else ((xs, LIST_ERR_OK), int (last xs)))"

section \<open>Invariant and abstraction\<close>

definition list_inv :: "list_t \<Rightarrow> bool" where
  "list_inv l \<longleftrightarrow> 0 < l_size l \<and> length (l_elem l) = l_size l \<and> l_count l \<le> l_size l \<and>
     l_head l < l_size l \<and> l_tail l = (l_head l + l_count l) mod l_size l"

text \<open>The element \<open>k\<close> places after position \<open>h\<close> of the ring.\<close>

definition ring :: "nat \<Rightarrow> 'a list \<Rightarrow> nat \<Rightarrow> 'a" where
  "ring h e k = e ! ((h + k) mod length e)"

definition list_abs :: "list_t \<Rightarrow> ptr list" where
  "list_abs l = map (ring (l_head l) (l_elem l)) [0..<l_count l]"

lemma length_list_abs [simp]: "length (list_abs l) = l_count l"
  by (simp add: list_abs_def)

lemma list_abs_nth [simp]: "i < l_count l \<Longrightarrow> list_abs l ! i = ring (l_head l) (l_elem l) i"
  by (simp add: list_abs_def)

lemma ring_inj_le: "i \<le> j \<Longrightarrow> j < n \<Longrightarrow> (h + i) mod n = (h + j) mod n \<Longrightarrow> i = (j :: nat)"
  using mod_eq_dvd_iff_nat [of "h + i" "h + j" n] by (auto dest: dvd_imp_le)

lemma ring_inj: "i < n \<Longrightarrow> j < n \<Longrightarrow> (h + i) mod n = (h + j) mod n \<longleftrightarrow> i = (j :: nat)"
  using ring_inj_le by (metis nat_le_linear)

lemma ring_update:
  assumes "i < length e" "j < length e"
  shows "ring h (e[(h + i) mod length e := v]) j = (if j = i then v else ring h e j)"
  using assms ring_inj [of i "length e" j h] by (cases "length e = 0") (auto simp: ring_def nth_list_update)

lemma mod_succ: "Suc ((h + i) mod n) mod n = Suc (h + i) mod (n :: nat)"
  by (simp add: mod_Suc_eq)

lemma INLIST_pred:
  assumes "0 < n"
  shows "INLIST n (int (p mod n) - 1) = Some ((p + n - 1) mod n)"
proof -
  have "int (p mod n) - 1 + int n \<ge> 0" using assms by simp
  moreover have "(int (p mod n) - 1 + int n) mod int n = int ((p + n - 1) mod n)"
  proof -
    have "(int (p mod n) - 1 + int n) mod int n = (int p + int n - 1) mod int n"
      using mod_add_left_eq [of "int p" "int n" "int n - 1"] by (simp add: of_nat_mod algebra_simps)
    also have "\<dots> = int ((p + n - 1) mod n)" using assms by (simp add: of_nat_mod of_nat_diff)
    finally show ?thesis .
  qed
  ultimately show ?thesis using assms by (simp add: INLIST_def c_index_def)
qed

lemma mod_pred: "0 < n \<Longrightarrow> (h + Suc i + n - 1) mod n = (h + i) mod (n :: nat)"
  by simp

lemma list_invD:
  assumes "list_inv l"
  shows "0 < l_size l" "length (l_elem l) = l_size l" "l_count l \<le> l_size l" "l_head l < l_size l"
    "l_tail l = (l_head l + l_count l) mod l_size l"
  using assms by (simp_all add: list_inv_def)

section \<open>Growing, adding, reading and writing\<close>

lemma list_grow_run:
  assumes "list_inv l"
  shows "\<exists>e. list_grow l = Some (l\<lparr>l_elem := e, l_size := l_size l * 2, l_head := 0, l_tail := l_count l\<rparr>) \<and>
    length e = l_size l * 2 \<and> (\<forall>k < l_count l. e ! k = ring (l_head l) (l_elem l) k)"
proof -
  note inv = list_invD [OF assms]
  let ?f = "\<lambda>index (nelem, i). do { x \<leftarrow> rd (l_elem l) i; nelem \<leftarrow> wr nelem index x;
        Some (nelem, (i + 1) mod l_size l) }"
  have "\<exists>s. for_loop 0 (l_count l) ?f (replicate (l_size l * 2) NULL, l_head l) = Some s \<and>
      length (fst s) = l_size l * 2 \<and> snd s = (l_head l + l_count l) mod l_size l \<and>
      (\<forall>k < l_count l. fst s ! k = ring (l_head l) (l_elem l) k)"
    by (rule for_loop_rule) (use inv in \<open>auto simp: mod_succ ring_def nth_list_update less_Suc_eq split: prod.splits\<close>)
  then show ?thesis by (auto simp: list_grow_def Let_def)
qed

lemma grow_if_full:
  assumes "list_inv l"
  obtains l' where "(if l_count l = l_size l then list_grow l else Some l) = Some l'" "list_inv l'"
    "list_abs l' = list_abs l" "l_count l' = l_count l" "l_count l' < l_size l'"
proof (cases "l_count l = l_size l")
  case True
  obtain e where e: "list_grow l = Some (l\<lparr>l_elem := e, l_size := l_size l * 2, l_head := 0, l_tail := l_count l\<rparr>)"
      "length e = l_size l * 2" "\<forall>k < l_count l. e ! k = ring (l_head l) (l_elem l) k"
    using list_grow_run [OF assms] by blast
  let ?l = "l\<lparr>l_elem := e, l_size := l_size l * 2, l_head := 0, l_tail := l_count l\<rparr>"
  have "list_inv ?l" using e(2) list_invD [OF assms] True by (simp add: list_inv_def)
  moreover have "list_abs ?l = list_abs l" using e True by (auto simp: list_abs_def ring_def)
  moreover have "0 < l_size l" using list_invD [OF assms] by blast
  ultimately show ?thesis using that [of ?l] e(1) True by simp
next
  case False
  then show ?thesis using that [of l] list_invD [OF assms] assms by simp
qed

lemma list_add_abs:
  assumes "list_inv l"
  shows "\<exists>l'. list_add x l = Some l' \<and> list_inv l' \<and> list_abs l' = list_abs l @ [x] \<and> l_error l' = LIST_ERR_OK"
proof -
  obtain l1 where l1: "(if l_count l = l_size l then list_grow l else Some l) = Some l1" "list_inv l1"
      "list_abs l1 = list_abs l" "l_count l1 = l_count l" "l_count l1 < l_size l1"
    using grow_if_full [OF assms] .
  note inv = list_invD [OF l1(2)]
  let ?e = "(l_elem l1)[(l_head l1 + l_count l1) mod l_size l1 := x]"
  let ?l = "l1\<lparr>l_elem := ?e, l_tail := (l_tail l1 + 1) mod l_size l1, l_count := l_count l1 + 1, l_error := LIST_ERR_OK\<rparr>"
  have "list_add x l = Some ?l" unfolding list_add_def l1(1) using inv by simp
  moreover have "list_inv ?l" using inv l1(5) by (simp add: list_inv_def mod_succ)
  moreover have "list_abs ?l = list_abs l1 @ [x]"
    using inv l1(5) ring_update [of "l_count l1" "l_elem l1"] by (auto simp: list_abs_def)
  ultimately show ?thesis using l1(3) by simp
qed

lemma list_get_abs:
  assumes "list_inv l"
  shows "list_get index l = Some
    (if 0 \<le> index \<and> index < int (length (list_abs l)) then (l\<lparr>l_error := LIST_ERR_OK\<rparr>, list_abs l ! nat index)
     else (l\<lparr>l_error := LIST_ERR_BOUNDS\<rparr>, NULL))"
  using list_invD [OF assms] by (auto simp: list_get_def Let_def ring_def add.commute nat_less_iff)

lemma list_set_abs:
  assumes "list_inv l"
  shows "\<exists>l'. list_set index x l = Some l' \<and> list_inv l' \<and>
    (if 0 \<le> index \<and> index < int (length (list_abs l))
     then list_abs l' = (list_abs l)[nat index := x] \<and> l_error l' = LIST_ERR_OK
     else list_abs l' = list_abs l \<and> l_error l' = LIST_ERR_BOUNDS)"
proof (cases "0 \<le> index \<and> index < int (l_count l)")
  case True
  note inv = list_invD [OF assms]
  obtain i where i: "index = int i" "i < l_count l" using True by (metis nonneg_int_cases of_nat_less_iff)
  let ?l = "l\<lparr>l_elem := (l_elem l)[(l_head l + i) mod l_size l := x], l_error := LIST_ERR_OK\<rparr>"
  have "list_set index x l = Some ?l" using i inv by (simp add: list_set_def Let_def add.commute)
  moreover have "list_inv ?l" using inv by (simp add: list_inv_def)
  moreover have "list_abs ?l = (list_abs l)[i := x]"
    by (rule nth_equalityI) (use i inv ring_update [of i "l_elem l"] in \<open>auto simp: nth_list_update\<close>)
  ultimately show ?thesis using i by simp
next
  case False
  then show ?thesis using assms by (auto simp: list_set_def list_inv_def list_abs_def)
qed

lemma list_create_abs: "list_inv (list_create_with_size n)" "list_abs (list_create_with_size n) = []"
  "l_error (list_create_with_size n) = LIST_ERR_OK"
  by (simp_all add: list_create_with_size_def list_inv_def list_abs_def Let_def)

lemma list_clear_abs: "list_inv l \<Longrightarrow> list_inv (list_clear l)" "list_abs (list_clear l) = []"
  by (simp_all add: list_clear_def list_inv_def list_abs_def)

section \<open>Shifting, inserting and removing\<close>

lemma ring_mod [simp]: "ring (h mod length e) e k = ring h e k"
  by (simp add: ring_def mod_add_left_eq)

lemma ring_rd: "length e = n \<Longrightarrow> 0 < n \<Longrightarrow> rd e ((h + k) mod n) = Some (ring h e k)"
  by (auto simp: ring_def)

text \<open>
  The loop that moves \<open>m\<close> elements one place up, below place \<open>T\<close>, and the two that move \<open>m\<close>
  elements one place down, from place \<open>a\<close> on.
\<close>

lemma shift_up_loop:
  assumes n: "length e0 = n" "T < n" "m \<le> T"
  shows "\<exists>e. for_loop 0 m (\<lambda>i (e, pos). do { prev \<leftarrow> INLIST n (int pos - 1); x \<leftarrow> rd e prev; e \<leftarrow> wr e pos x;
      Some (e, prev) }) (e0, (h + T) mod n) = Some (e, (h + (T - m)) mod n) \<and> length e = n \<and>
    (\<forall>k < n. ring h e k = (if T - m < k \<and> k \<le> T then ring h e0 (k - 1) else ring h e0 k))"
proof -
  let ?I = "\<lambda>i (e, pos). pos = (h + (T - i)) mod n \<and> length e = n \<and>
    (\<forall>k < n. ring h e k = (if T - i < k \<and> k \<le> T then ring h e0 (k - 1) else ring h e0 k))"
  let ?f = "\<lambda>i (e, pos). do { prev \<leftarrow> INLIST n (int pos - 1); x \<leftarrow> rd e prev; e \<leftarrow> wr e pos x; Some (e, prev) }"
  have "\<exists>s'. for_loop 0 m ?f (e0, (h + T) mod n) = Some s' \<and> ?I m s'"
  proof (rule for_loop_rule [where I = ?I])
    fix i s assume i: "0 \<le> i" "i < m" and "?I i s"
    then obtain e where s: "s = (e, (h + (T - i)) mod n)" and e: "length e = n"
        "\<And>k. k < n \<Longrightarrow> ring h e k = (if T - i < k \<and> k \<le> T then ring h e0 (k - 1) else ring h e0 k)" by auto
    have ti: "T - i = Suc (T - Suc i)" using i n by simp
    have p: "INLIST n (int ((h + (T - i)) mod n) - 1) = Some ((h + (T - Suc i)) mod n)"
      using INLIST_pred [of n "h + (T - i)"] n unfolding ti by simp
    let ?e = "e[(h + (T - i)) mod n := ring h e (T - Suc i)]"
    have f: "?f i s = Some (?e, (h + (T - Suc i)) mod n)"
      using p e(1) n ring_rd [of e n h "T - Suc i"] unfolding s by simp
    have "ring h ?e k = (if k = T - i then ring h e (T - Suc i) else ring h e k)" if "k < n" for k
      using ring_update [of "T - i" e k h] e(1) n that by simp
    moreover have "ring h e (T - Suc i) = ring h e0 (T - Suc i)" using e(2) [of "T - Suc i"] n by simp
    ultimately have "?I (Suc i) (?e, (h + (T - Suc i)) mod n)" using e i n ti by auto
    then show "\<exists>s'. ?f i s = Some s' \<and> ?I (Suc i) s'" using f by blast
  qed (use n in auto)
  then show ?thesis by auto
qed

lemma shift_down_loop:
  assumes n: "length e0 = n" "a + m < n"
  shows "\<exists>e. for_loop 0 m (\<lambda>i (e, pos). do { x \<leftarrow> rd e ((pos + 1) mod n); e \<leftarrow> wr e pos x; Some (e, (pos + 1) mod n) })
      (e0, (h + a) mod n) = Some (e, (h + (a + m)) mod n) \<and> length e = n \<and>
    (\<forall>k < n. ring h e k = (if a \<le> k \<and> k < a + m then ring h e0 (Suc k) else ring h e0 k))"
proof -
  let ?I = "\<lambda>i (e, pos). pos = (h + (a + i)) mod n \<and> length e = n \<and>
    (\<forall>k < n. ring h e k = (if a \<le> k \<and> k < a + i then ring h e0 (Suc k) else ring h e0 k))"
  let ?f = "\<lambda>i (e, pos). do { x \<leftarrow> rd e ((pos + 1) mod n); e \<leftarrow> wr e pos x; Some (e, (pos + 1) mod n) }"
  have "\<exists>s'. for_loop 0 m ?f (e0, (h + a) mod n) = Some s' \<and> ?I m s'"
  proof (rule for_loop_rule [where I = ?I])
    fix i s assume i: "0 \<le> i" "i < m" and "?I i s"
    then obtain e where s: "s = (e, (h + (a + i)) mod n)" and e: "length e = n"
        "\<And>k. k < n \<Longrightarrow> ring h e k = (if a \<le> k \<and> k < a + i then ring h e0 (Suc k) else ring h e0 k)" by auto
    let ?e = "e[(h + (a + i)) mod n := ring h e (Suc (a + i))]"
    have f: "?f i s = Some (?e, (h + (a + Suc i)) mod n)"
      using e(1) n ring_rd [of e n h "Suc (a + i)"] mod_succ [of h "a + i" n] unfolding s by simp
    have "ring h ?e k = (if k = a + i then ring h e (Suc (a + i)) else ring h e k)" if "k < n" for k
      using ring_update [of "a + i" e k h] e(1) n i that by simp
    moreover have "ring h e (Suc (a + i)) = ring h e0 (Suc (a + i))" using e(2) [of "Suc (a + i)"] n i by simp
    ultimately have "?I (Suc i) (?e, (h + (a + Suc i)) mod n)" using e i n by (auto simp: less_Suc_eq)
    then show "\<exists>s'. ?f i s = Some s' \<and> ?I (Suc i) s'" using f by blast
  qed (use n in auto)
  then show ?thesis by auto
qed

lemma shift_back_loop:
  fixes e0 :: "ptr list"
  assumes n: "length e0 = n" "m < n"
  shows "\<exists>e pos. for_loop 0 m (\<lambda>i (e, pos). do { prev \<leftarrow> INLIST n (int pos - 1); x \<leftarrow> rd e pos; e \<leftarrow> wr e prev x;
      Some (e, (pos + 1) mod n) }) (e0, h mod n) = Some (e, pos) \<and> length e = n \<and>
    (\<forall>k < n. ring (h + n - 1) e k = (if k < m then ring h e0 k else ring (h + n - 1) e0 k))"
proof -
  let ?H = "h + n - 1"
  let ?I = "\<lambda>i (e, pos). pos = (h + i) mod n \<and> length e = n \<and>
    (\<forall>k < n. ring ?H e k = (if k < i then ring h e0 k else ring ?H e0 k))"
  let ?f = "\<lambda>i (e, pos). do { prev \<leftarrow> INLIST n (int pos - 1); x \<leftarrow> rd e pos; e \<leftarrow> wr e prev x; Some (e, (pos + 1) mod n) }"
  have HS: "ring ?H e (Suc k) = ring h e k" if "length e = n" for e :: "ptr list" and k
  proof -
    have "?H + Suc k = (h + k) + n" using n by simp
    then have "(?H + Suc k) mod n = (h + k) mod n" by (simp only: mod_add_self2)
    then show ?thesis using that by (simp only: ring_def)
  qed
  have "\<exists>s'. for_loop 0 m ?f (e0, h mod n) = Some s' \<and> ?I m s'"
  proof (rule for_loop_rule [where I = ?I])
    fix i s assume i: "0 \<le> i" "i < m" and "?I i s"
    then obtain e where s: "s = (e, (h + i) mod n)" and e: "length e = n"
        "\<And>k. k < n \<Longrightarrow> ring ?H e k = (if k < i then ring h e0 k else ring ?H e0 k)" by auto
    have "h + i + n - 1 = ?H + i" using n by simp
    then have p: "INLIST n (int ((h + i) mod n) - 1) = Some ((?H + i) mod n)"
      using INLIST_pred [of n "h + i"] n by simp
    let ?e = "e[(?H + i) mod n := ring h e i]"
    have f: "?f i s = Some (?e, (h + Suc i) mod n)"
      using p e(1) n ring_rd [of e n h i] mod_succ [of h i n] unfolding s by simp
    have "ring ?H ?e k = (if k = i then ring h e i else ring ?H e k)" if "k < n" for k
      using ring_update [of i e k ?H] e(1) n i that by simp
    moreover have "ring h e i = ring h e0 i" using HS [of e i] HS [of e0 i] e n i by simp
    ultimately have "?I (Suc i) (?e, (h + Suc i) mod n)" using e i n by (auto simp: less_Suc_eq)
    then show "\<exists>s'. ?f i s = Some s' \<and> ?I (Suc i) s'" using f by blast
  qed (use n in auto)
  then show ?thesis by auto
qed

text \<open>Replacing the representation of a list whose ring is known place by place.\<close>

lemma list_abs_eqI:
  assumes "l_count l' = length xs" "\<And>k. k < length xs \<Longrightarrow> ring (l_head l') (l_elem l') k = xs ! k"
  shows "list_abs l' = xs"
  by (rule nth_equalityI) (use assms in auto)

lemma insert_right_run:
  assumes inv: "list_inv l" and c: "l_count l < l_size l" "i \<le> l_count l"
  shows "\<exists>e. insert_shift_right (l_count l - i) l = Some e \<and> length e = l_size l \<and>
    (\<forall>k < l_size l. ring (l_head l) e k =
      (if i < k \<and> k \<le> l_count l then ring (l_head l) (l_elem l) (k - 1) else ring (l_head l) (l_elem l) k))"
  using shift_up_loop [of "l_elem l" "l_size l" "l_count l" "l_count l - i" "l_head l"] list_invD [OF inv] c
  by (auto simp: insert_shift_right_def)

lemma insert_left_run:
  assumes inv: "list_inv l" and c: "l_count l < l_size l" "i \<le> l_count l"
  shows "\<exists>e. insert_shift_left i l = Some e \<and> length e = l_size l \<and>
    (\<forall>k < l_size l. ring (l_head l + l_size l - 1) e k =
      (if k < i then ring (l_head l) (l_elem l) k else ring (l_head l + l_size l - 1) (l_elem l) k))"
  using shift_back_loop [of "l_elem l" "l_size l" i "l_head l"] list_invD [OF inv] c
  by (fastforce simp: insert_shift_left_def)

lemma list_insert_abs:
  assumes "list_inv l"
  shows "\<exists>l'. list_insert index x l = Some l' \<and> list_inv l' \<and>
    (if 0 \<le> index \<and> index \<le> int (length (list_abs l))
     then list_abs l' = take (nat index) (list_abs l) @ x # drop (nat index) (list_abs l) \<and> l_error l' = LIST_ERR_OK
     else list_abs l' = list_abs l \<and> l_error l' = LIST_ERR_BOUNDS)"
proof (cases "0 \<le> index \<and> index \<le> int (l_count l)")
  case True
  obtain l1 where l1: "(if l_count l = l_size l then list_grow l else Some l) = Some l1" "list_inv l1"
      "list_abs l1 = list_abs l" "l_count l1 = l_count l" "l_count l1 < l_size l1"
    using grow_if_full [OF assms] .
  note inv = list_invD [OF l1(2)]
  obtain i where i: "index = int i" "i \<le> l_count l1" using True l1(4) by (metis nonneg_int_cases of_nat_le_iff)
  let ?n = "l_size l1" and ?h = "l_head l1" and ?c = "l_count l1" and ?xs = "list_abs l1"
  let ?ys = "take i ?xs @ x # drop i ?xs"
  have ys: "?ys ! k = (if k < i then ring ?h (l_elem l1) k else if k = i then x else ring ?h (l_elem l1) (k - 1))"
    if "k < Suc ?c" for k using that i by (auto simp: nth_append nth_Cons')
  have "\<exists>l'. list_insert index x l = Some l' \<and> list_inv l' \<and> list_abs l' = ?ys \<and> l_error l' = LIST_ERR_OK"
  proof (cases "i > ?c div 2")
    case right: True
    obtain e where e: "insert_shift_right (?c - i) l1 = Some e" "length e = ?n"
      "\<And>k. k < ?n \<Longrightarrow> ring ?h e k = (if i < k \<and> k \<le> ?c then ring ?h (l_elem l1) (k - 1) else ring ?h (l_elem l1) k)"
      using insert_right_run [OF l1(2) l1(5) i(2)] by blast
    let ?l = "l1\<lparr>l_elem := e[(?h + i) mod ?n := x], l_tail := (l_tail l1 + 1) mod ?n, l_count := ?c + 1,
      l_error := LIST_ERR_OK\<rparr>"
    have "list_insert index x l = Some ?l"
      using True l1(1,4) right e(1,2) inv i by (simp add: list_insert_def)
    moreover have "list_inv ?l" using inv e(2) l1(5) by (simp add: list_inv_def mod_succ)
    moreover have "list_abs ?l = ?ys"
      by (rule list_abs_eqI) (use i e inv l1(5) ys ring_update [of i e _ ?h] in auto)
    ultimately show ?thesis by (intro exI [of _ ?l]) simp
  next
    case left: False
    let ?H = "?h + ?n - 1"
    obtain e where e: "insert_shift_left i l1 = Some e" "length e = ?n"
      "\<And>k. k < ?n \<Longrightarrow> ring ?H e k = (if k < i then ring ?h (l_elem l1) k else ring ?H (l_elem l1) k)"
      using insert_left_run [OF l1(2) l1(5) i(2)] by blast
    have HS: "ring ?H (l_elem l1) k = ring ?h (l_elem l1) (k - 1)" if "0 < k" for k
    proof -
      have "?H + k = (?h + (k - 1)) + ?n" using inv that by simp
      then show ?thesis using inv unfolding ring_def by (metis mod_add_self2)
    qed
    have H: "INLIST ?n (int ?h - 1) = Some (?H mod ?n)" using INLIST_pred [of ?n ?h] inv by simp
    let ?l = "l1\<lparr>l_elem := e[(?H mod ?n + i) mod ?n := x], l_head := ?H mod ?n, l_count := ?c + 1,
      l_error := LIST_ERR_OK\<rparr>"
    have "list_insert index x l = Some ?l"
      using True l1(1,4) left e(1,2) inv i H by (simp add: list_insert_def)
    moreover have "list_inv ?l"
    proof -
      have "?H + Suc ?c = (?h + ?c) + ?n" using inv by simp
      then have "(?H mod ?n + Suc ?c) mod ?n = (?h + ?c) mod ?n" by (metis mod_add_self2 mod_add_left_eq)
      then show ?thesis using inv e(2) l1(5) by (simp add: list_inv_def)
    qed
    moreover have "list_abs ?l = ?ys"
      by (rule list_abs_eqI) (use i e inv l1(5) ys HS ring_update [of i e _ "?H mod ?n"] ring_mod [of ?H e] in auto)
    ultimately show ?thesis by (intro exI [of _ ?l]) simp
  qed
  then show ?thesis using True i l1(3,4) by simp
next
  case False
  then show ?thesis using assms by (auto simp: list_insert_def list_inv_def list_abs_def)
qed

lemma list_remove_at_abs:
  assumes "list_inv l" and "i < length (list_abs l)"
  shows "\<exists>l'. list_remove_at (int i) l = Some (l', list_abs l ! i) \<and> list_inv l' \<and>
    list_abs l' = take i (list_abs l) @ drop (Suc i) (list_abs l) \<and> l_error l' = LIST_ERR_OK"
proof -
  note inv = list_invD [OF assms(1)]
  let ?n = "l_size l" and ?h = "l_head l" and ?c = "l_count l" and ?xs = "list_abs l"
  let ?ys = "take i ?xs @ drop (Suc i) ?xs"
  have i: "i < ?c" using assms(2) by simp
  have ys: "?ys ! k = (if k < i then ring ?h (l_elem l) k else ring ?h (l_elem l) (Suc k))" if "k < ?c - 1" for k
    using that i by (auto simp: nth_append)
  have x: "rd (l_elem l) ((?h + i) mod ?n) = Some (?xs ! i)" using ring_rd [of "l_elem l" ?n ?h i] inv i by simp
  show ?thesis
  proof (cases "i > ?c div 2")
    case right: True
    have sh: "i + (?c - i - 1) < ?n" "i + (?c - i - 1) = ?c - 1" using inv i by simp_all
    obtain e where e: "remove_shift_left (?c - i - 1) ((?h + i) mod ?n) l = Some (e, (?h + (?c - 1)) mod ?n)" "length e = ?n"
      "\<And>k. k < ?n \<Longrightarrow> ring ?h e k = (if i \<le> k \<and> k < ?c - 1 then ring ?h (l_elem l) (Suc k) else ring ?h (l_elem l) k)"
      using shift_down_loop [OF inv(2) sh(1), of ?h] unfolding sh(2) remove_shift_left_def by blast
    have "Suc (?h + (?c - 1)) = ?h + ?c" using i by simp
    then have t: "INLIST ?n (int (l_tail l) - 1) = Some ((?h + (?c - 1)) mod ?n)"
      using INLIST_pred [of ?n "?h + ?c"] mod_pred [of ?n ?h "?c - 1"] inv i by simp
    let ?l = "l\<lparr>l_elem := e[(?h + (?c - 1)) mod ?n := NULL], l_tail := (?h + (?c - 1)) mod ?n, l_count := ?c - 1,
      l_error := LIST_ERR_OK\<rparr>"
    have "list_remove_at (int i) l = Some (?l, ?xs ! i)"
      using right e(1,2) inv i x t by (simp add: list_remove_at_def)
    moreover have "list_inv ?l" using inv e(2) by (simp add: list_inv_def)
    moreover have "list_abs ?l = ?ys"
      by (rule list_abs_eqI) (use i e inv ys ring_update [of "?c - 1" e _ ?h] in auto)
    ultimately show ?thesis by (intro exI [of _ ?l]) simp
  next
    case left: False
    obtain e where e: "remove_shift_right i ((?h + i) mod ?n) l = Some (e, ?h mod ?n)" "length e = ?n"
      "\<And>k. k < ?n \<Longrightarrow> ring ?h e k = (if 0 < k \<and> k \<le> i then ring ?h (l_elem l) (k - 1) else ring ?h (l_elem l) k)"
      using shift_up_loop [OF inv(2), of i i ?h] inv i by (auto simp: remove_shift_right_def)
    let ?l = "l\<lparr>l_elem := e[?h := NULL], l_head := (?h + 1) mod ?n, l_count := ?c - 1, l_error := LIST_ERR_OK\<rparr>"
    have "list_remove_at (int i) l = Some (?l, ?xs ! i)"
      using left e(1,2) inv i x by (simp add: list_remove_at_def)
    moreover have "list_inv ?l"
      using inv e(2) i mod_add_left_eq [of "?h + 1" ?n "?c - 1"] by (simp add: list_inv_def)
    moreover have "list_abs ?l = ?ys"
    proof (rule list_abs_eqI)
      fix k assume "k < length ?ys"
      then have k: "Suc k < ?n" "k < ?c - 1" using inv i by auto
      have "ring ((?h + 1) mod ?n) (e[?h := NULL]) k = ring ?h (e[(?h + 0) mod length e := NULL]) (Suc k)"
        using inv e(2) ring_mod [of "?h + 1" "e[?h := NULL]" k] by (simp add: ring_def)
      also have "\<dots> = ring ?h e (Suc k)" using ring_update [of 0 e "Suc k" ?h NULL] k e(2) by simp
      also have "\<dots> = ?ys ! k" using e(3) [OF k(1)] ys [OF k(2)] by auto
      finally show "ring (l_head ?l) (l_elem ?l) k = ?ys ! k" by simp
    qed (use i in simp)
    ultimately show ?thesis by (intro exI [of _ ?l]) simp
  qed
qed

lemma list_remove_at_bounds:
  "index < 0 \<or> index \<ge> int (l_count l) \<Longrightarrow> list_remove_at index l = Some (l\<lparr>l_error := LIST_ERR_BOUNDS\<rparr>, NULL)"
  by (simp add: list_remove_at_def)

section \<open>Searching\<close>

lemma first_index_range: "first_index x xs = -1 \<or> (0 \<le> first_index x xs \<and> first_index x xs < int (length xs))"
  by (induction xs) (auto simp: Let_def)

lemma first_index_iff: "first_index x xs = -1 \<longleftrightarrow> x \<notin> set xs"
proof (induction xs)
  case (Cons y ys)
  then show ?case using first_index_range [of x ys] by (auto simp: Let_def)
qed simp

lemma first_index_remove1:
  "x \<in> set xs \<Longrightarrow> (let i = nat (first_index x xs) in
     i < length xs \<and> xs ! i = x \<and> take i xs @ drop (Suc i) xs = remove1 x xs)"
proof (induction xs)
  case (Cons y ys)
  show ?case
  proof (cases "y = x")
    case False
    then have x: "x \<in> set ys" using Cons.prems by simp
    then have "0 \<le> first_index x ys" using first_index_range [of x ys] first_index_iff [of x ys] by auto
    then have "nat (first_index x (y # ys)) = Suc (nat (first_index x ys))"
      using False by (simp add: Let_def nat_add_distrib)
    then show ?thesis using Cons.IH [OF x] False by (simp add: Let_def)
  qed simp
qed simp

lemma index_of_loop_eq:
  assumes "list_inv l"
  shows "i \<le> l_count l \<Longrightarrow> index_of_loop l x i ((l_head l + i) mod l_size l) =
    Some (let r = first_index x (drop i (list_abs l)) in if r = -1 then -1 else r + int i)"
proof (induction "l_count l - i" arbitrary: i)
  case 0
  then show ?case by (subst index_of_loop.simps) simp
next
  case (Suc n)
  note inv = list_invD [OF assms]
  have i: "i < l_count l" using Suc by simp
  have d: "drop i (list_abs l) = ring (l_head l) (l_elem l) i # drop (Suc i) (list_abs l)"
    using i by (metis Cons_nth_drop_Suc length_list_abs list_abs_nth)
  have IH: "index_of_loop l x (Suc i) ((l_head l + Suc i) mod l_size l) =
      Some (let r = first_index x (drop (Suc i) (list_abs l)) in if r = -1 then -1 else r + int (Suc i))"
    using Suc.hyps(1) [of "Suc i"] Suc.hyps(2) i by simp
  moreover have "l_elem l ! ((l_head l + i) mod l_size l) = ring (l_head l) (l_elem l) i" using inv by (simp add: ring_def)
  ultimately show ?case using i inv d first_index_range [of x "drop (Suc i) (list_abs l)"]
    by (subst index_of_loop.simps) (auto simp: mod_succ Let_def)
qed

lemma list_index_of_abs:
  assumes "list_inv l"
  shows "list_index_of x l = Some (l\<lparr>l_error := if x \<in> set (list_abs l) then LIST_ERR_OK else LIST_ERR_NOT_FOUND\<rparr>,
    first_index x (list_abs l))"
proof -
  have "index_of_loop l x 0 (l_head l) = Some (first_index x (list_abs l))"
    using index_of_loop_eq [OF assms, of 0 x] list_invD(4) [OF assms] by (simp add: Let_def)
  then show ?thesis by (auto simp: list_index_of_def first_index_iff)
qed

lemma list_remove_abs:
  assumes "list_inv l"
  shows "\<exists>l'. list_remove x l = Some (l', if x \<in> set (list_abs l) then x else NULL) \<and> list_inv l' \<and>
    list_abs l' = remove1 x (list_abs l) \<and>
    l_error l' = (if x \<in> set (list_abs l) then LIST_ERR_OK else LIST_ERR_NOT_FOUND)"
proof (cases "x \<in> set (list_abs l)")
  case True
  let ?l = "l\<lparr>l_error := LIST_ERR_OK\<rparr>" and ?i = "nat (first_index x (list_abs l))"
  have l: "list_inv ?l" "list_abs ?l = list_abs l" using assms by (simp_all add: list_inv_def list_abs_def)
  have i: "?i < length (list_abs l)" "list_abs l ! ?i = x" "take ?i (list_abs l) @ drop (Suc ?i) (list_abs l) = remove1 x (list_abs l)"
    "first_index x (list_abs l) = int ?i"
    using first_index_remove1 [OF True] first_index_range [of x "list_abs l"] first_index_iff [of x "list_abs l"] True
    by (auto simp: Let_def)
  then have "list_remove x l = list_remove_at (int ?i) ?l"
    using list_index_of_abs [OF assms, of x] True by (simp add: list_remove_def)
  then show ?thesis using list_remove_at_abs [OF l(1), of ?i] i l(2) True by auto
next
  case False
  then show ?thesis using list_index_of_abs [OF assms, of x] assms
    by (auto simp: list_remove_def list_inv_def list_abs_def remove1_idem)
qed

section \<open>The calls\<close>

lemma inv_error [simp]: "list_inv (l\<lparr>l_error := e\<rparr>) = list_inv l" "list_abs (l\<lparr>l_error := e\<rparr>) = list_abs l"
  by (simp_all add: list_inv_def list_abs_def)

lemma abs_Nil_iff [simp]: "list_abs l = [] \<longleftrightarrow> l_count l = 0"
  by (metis length_0_conv length_list_abs)

definition list_state :: "list_t \<Rightarrow> ptr list \<times> list_err_t" where
  "list_state l = (list_abs l, l_error l)"

lemma list_state_error [simp]: "list_state (l\<lparr>l_error := e\<rparr>) = (list_abs l, e)"
  by (simp add: list_state_def)

text \<open>What a call has to do, and the two operations that several functions share.\<close>

definition call_ok :: "list_op \<Rightarrow> list_t \<Rightarrow> bool" where
  "call_ok c l \<longleftrightarrow> (\<exists>l'. list_call c l = Some (l', snd (list_spec c (list_state l))) \<and> list_inv l' \<and>
     list_state l' = fst (list_spec c (list_state l)))"

lemma remove_at_call:
  assumes "list_inv l"
  shows "\<exists>l'. list_remove_at i l = Some (l', nat (snd (list_spec (RemoveAt i) (list_state l)))) \<and> list_inv l' \<and>
    list_state l' = fst (list_spec (RemoveAt i) (list_state l))"
proof (cases "0 \<le> i \<and> i < int (l_count l)")
  case True
  then obtain k where "i = int k" "k < length (list_abs l)" by (metis nonneg_int_cases of_nat_less_iff length_list_abs)
  then show ?thesis using list_remove_at_abs [OF assms, of k] by (auto simp: list_state_def)
next
  case False
  then show ?thesis using assms by (auto simp: list_remove_at_bounds list_state_def)
qed

lemma last_first_nth: "xs \<noteq> [] \<Longrightarrow> xs ! (length xs - 1) = last xs" "xs \<noteq> [] \<Longrightarrow> xs ! 0 = hd xs"
  by (simp_all add: last_conv_nth hd_conv_nth)

lemma get_calls:
  assumes "list_inv l"
  shows "call_ok (Get i) l" "call_ok Top l" "call_ok Bottom l" "call_ok Head l" "call_ok Tail l"
  using assms last_first_nth [of "list_abs l"]
  by (auto simp: call_ok_def list_get_abs list_top_def list_bottom_def list_head_def list_tail_def list_state_def
      nat_diff_distrib)

lemma add_calls:
  assumes "list_inv l"
  shows "call_ok (Add x) l" "call_ok (Push x) l" "call_ok (Enqueue x) l"
  using list_add_abs [OF assms, of x]
  by (auto simp: call_ok_def list_push_def list_enqueue_def list_state_def)

lemma update_calls:
  assumes "list_inv l"
  shows "call_ok (Set i x) l" "call_ok (Insert i x) l" "call_ok (IndexOf x) l" "call_ok (Remove x) l" "call_ok Clear l"
    "call_ok Count l"
proof -
  show "call_ok (Set i x) l" using list_set_abs [OF assms, of i x] by (auto simp: call_ok_def list_state_def)
  show "call_ok (Insert i x) l" using list_insert_abs [OF assms, of i x] by (auto simp: call_ok_def list_state_def)
  show "call_ok (IndexOf x) l" using list_index_of_abs [OF assms, of x] assms by (auto simp: call_ok_def list_state_def)
  show "call_ok (Remove x) l" using list_remove_abs [OF assms, of x]
    by (auto simp: call_ok_def list_state_def remove1_idem)
  show "call_ok Clear l" using list_clear_abs [of l] assms by (auto simp: call_ok_def list_state_def list_clear_def)
  show "call_ok Count l" using assms by (auto simp: call_ok_def list_state_def list_count_def)
qed

lemma remove_calls:
  assumes "list_inv l"
  shows "call_ok (RemoveAt i) l" "call_ok Pop l" "call_ok Dequeue l"
proof -
  show "call_ok (RemoveAt i) l" using remove_at_call [OF assms, of i] by (auto simp: call_ok_def list_state_def)
  show "call_ok Dequeue l" using remove_at_call [OF assms, of 0] assms
    by (auto simp: call_ok_def list_dequeue_def list_state_def hd_conv_nth drop_Suc)
  have "nat (int (l_count l) - 1) = l_count l - 1" by simp
  then show "call_ok Pop l" using remove_at_call [OF assms, of "int (l_count l) - 1"] assms
    by (auto simp: call_ok_def list_pop_def list_state_def last_conv_nth butlast_conv_take)
qed

interpretation list_adt: adt list_inv list_state list_call "\<lambda>_ _. True" list_spec
proof
  fix l c assume inv: "list_inv l"
  show "\<exists>l'. list_call c l = Some (l', snd (list_spec c (list_state l))) \<and> list_inv l' \<and>
      list_state l' = fst (list_spec c (list_state l))"
    unfolding call_ok_def [symmetric]
    by (cases c) (simp_all only: get_calls [OF inv] add_calls [OF inv] update_calls [OF inv] remove_calls [OF inv])
qed

section \<open>The list as a queue and as a stack\<close>

lemma list_dequeue_abs:
  assumes "list_inv l" "list_abs l = x # xs"
  shows "\<exists>l'. list_dequeue l = Some (l', x) \<and> list_inv l' \<and> list_abs l' = xs"
proof -
  have "0 < l_count l" using assms(2) length_list_abs [of l] by simp
  then show ?thesis using list_remove_at_abs [OF assms(1), of 0] assms(2) by (auto simp: list_dequeue_def)
qed

lemma list_pop_abs:
  assumes "list_inv l" "list_abs l = xs @ [x]"
  shows "\<exists>l'. list_pop l = Some (l', x) \<and> list_inv l' \<and> list_abs l' = xs"
proof -
  have "l_count l = Suc (length xs)" using assms(2) length_list_abs [of l] by simp
  then show ?thesis using list_remove_at_abs [OF assms(1), of "length xs"] assms(2) by (auto simp: list_pop_def)
qed

interpretation list_fifo: fifo list_inv list_abs list_enqueue list_dequeue
  by unfold_locales (use list_add_abs list_dequeue_abs in \<open>fastforce simp: list_enqueue_def\<close>)+

interpretation list_lifo: lifo list_inv list_abs list_push list_pop
  by unfold_locales (use list_add_abs list_pop_abs in \<open>fastforce simp: list_push_def\<close>)+

section \<open>The quicksort\<close>

declare list_abs_nth [simp del]

lemma ELEM_nat: "list_inv l \<Longrightarrow> ELEM l (int k) = Some ((l_head l + k) mod l_size l)"
  by (simp add: ELEM_def c_index_def list_inv_def nat_mod_distrib nat_add_distrib add.commute)

lemma ELEM_rd: "list_inv l \<Longrightarrow> k < l_count l \<Longrightarrow> rd (l_elem l) ((l_head l + k) mod l_size l) = Some (list_abs l ! k)"
  using ring_rd [of "l_elem l" "l_size l" "l_head l" k] list_invD [of l] by (simp add: list_abs_nth)

lemma sort_swap_run:
  assumes "list_inv l" "i < l_count l" "j < l_count l"
  shows "\<exists>l'. sort_swap (int i) (int j) l = Some l' \<and>
    list_inv l' \<and> list_abs l' = (list_abs l)[i := list_abs l ! j, j := list_abs l ! i]"
proof -
  note inv = list_invD [OF assms(1)]
  let ?n = "l_size l" and ?h = "l_head l"
  let ?e = "(l_elem l)[(?h + i) mod ?n := list_abs l ! j, (?h + j) mod ?n := list_abs l ! i]"
  have lt: "i < ?n" "j < ?n" using assms inv by simp_all
  have "sort_swap (int i) (int j) l = Some (l\<lparr>l_elem := ?e\<rparr>)"
    using assms inv ELEM_rd [OF assms(1)] by (simp add: sort_swap_def ELEM_nat del: rd_ok)
  moreover have "list_inv (l\<lparr>l_elem := ?e\<rparr>)" using inv by (simp add: list_inv_def)
  moreover have "list_abs (l\<lparr>l_elem := ?e\<rparr>) = (list_abs l)[i := list_abs l ! j, j := list_abs l ! i]"
  proof (rule list_abs_eqI)
    fix k assume "k < length ((list_abs l)[i := list_abs l ! j, j := list_abs l ! i])"
    then have "k < l_count l" "k < ?n" using inv by auto
    then show "ring (l_head (l\<lparr>l_elem := ?e\<rparr>)) (l_elem (l\<lparr>l_elem := ?e\<rparr>)) k =
        (list_abs l)[i := list_abs l ! j, j := list_abs l ! i] ! k"
      using ring_update [of j "(l_elem l)[(?h + i) mod ?n := list_abs l ! j]" k ?h]
        ring_update [of i "l_elem l" k ?h] lt inv assms
      by (simp add: nth_list_update list_abs_nth)
  qed simp
  ultimately show ?thesis by blast
qed

interpretation list_array: swap_array list_inv list_abs list_elem_at sort_swap "\<lambda>lo hi. hi"
  by unfold_locales (simp_all add: list_elem_at_def ELEM_nat ELEM_rd sort_swap_run)

lemma list_sort_run:
  assumes "cmp_order cmp" "list_inv l"
  shows "\<exists>l'. list_sort cmp l = Some l' \<and> list_inv l' \<and> mset (list_abs l') = mset (list_abs l) \<and>
    sorted_wrt (\<lambda>a b. cmp a b \<le> 0) (list_abs l')"
proof (cases "l_count l = 0")
  case True
  then have "sorted_wrt (\<lambda>a b. cmp a b \<le> 0) (list_abs l)" by (simp add: list_abs_def)
  then show ?thesis using True assms by (simp add: list_sort_def)
next
  case False
  then show ?thesis using list_array.qsort_sorts [OF assms] by (simp add: list_sort_def quick_sort_def)
qed

section \<open>Properties\<close>

lemma list_state_create [simp]: "list_state (list_create_with_size n) = ([], LIST_ERR_OK)"
  using list_create_abs [of n] by (simp add: list_state_def)

text \<open>
  C8: the list is a sequence. From a new list of any initial size, every sequence of calls of the
  operations of \<^verbatim>\<open>list.h\<close> (the sort apart) returns without leaving the vector, the results are
  those of the same calls on a sequence, the error codes included, and the elements the list holds
  at the end are those of the sequence.
\<close>

theorem list_refines_sequence:
  "\<exists>l. run_calls list_call cs (list_create_with_size n) = Some (l, snd (run_spec list_spec cs ([], LIST_ERR_OK))) \<and>
     list_inv l \<and> (list_abs l, l_error l) = fst (run_spec list_spec cs ([], LIST_ERR_OK))"
  using list_adt.calls_refine [of "list_create_with_size n" cs] list_create_abs(1) [of n]
  by (simp add: list_state_def [symmetric])

text \<open>
  \<^verbatim>\<open>list_sort\<close> returns and leaves a sorted permutation of the elements, wherever the elements
  stand in the ring, for every comparison function that is a total order up to ties.
\<close>

theorem list_sort_sorts:
  assumes "cmp_order cmp" "list_inv l"
  shows "\<exists>l'. list_sort cmp l = Some l' \<and> list_inv l' \<and> mset (list_abs l') = mset (list_abs l) \<and>
    sorted_wrt (\<lambda>a b. cmp a b \<le> 0) (list_abs l')"
  by (rule list_sort_run [OF assms])

theorem list_sort_sorts_witness:
  "let l = \<lparr>l_count = 3, l_error = LIST_ERR_OK, l_size = 4, l_head = 3, l_tail = 2, l_elem = [5, 9, 0, 7]\<rparr>;
       cmp = (\<lambda>a b. int a - int b)
   in \<exists>l'. list_sort cmp l = Some l' \<and> mset (list_abs l') = {#5, 7, 9#} \<and> sorted_wrt (\<lambda>a b. cmp a b \<le> 0) (list_abs l')"
proof -
  let ?l = "\<lparr>l_count = 3, l_error = LIST_ERR_OK, l_size = 4, l_head = 3, l_tail = 2, l_elem = [5, 9, 0, 7]\<rparr>"
  have "cmp_order (\<lambda>a b. int a - int b)" by (auto simp: cmp_order_def)
  moreover have "list_inv ?l" by (simp add: list_inv_def)
  moreover have "list_abs ?l = [7, 5, 9]" by code_simp
  ultimately show ?thesis using list_sort_sorts [of "\<lambda>a b. int a - int b" ?l] by (auto simp: add_mset_commute)
qed

text \<open>
  the queue and the stack of \<^verbatim>\<open>list.h\<close>. Elements enqueued into an empty list come out in the
  same order, and elements pushed on any list come out in the reverse order and leave the list as
  it was before.
\<close>

theorem list_queue_and_stack:
  assumes "list_inv l"
  shows "(\<exists>l1 l2. do_all list_enqueue xs (list_clear l) = Some l1 \<and> take_out list_dequeue (length xs) l1 = Some (l2, xs) \<and>
           list_abs l2 = []) \<and>
         (\<exists>l1 l2. do_all list_push xs l = Some l1 \<and> take_out list_pop (length xs) l1 = Some (l2, rev xs) \<and>
           list_abs l2 = list_abs l)"
  using list_fifo.first_in_first_out [OF list_clear_abs(1) [OF assms] list_clear_abs(2), of xs]
    list_lifo.last_in_first_out [OF assms, of xs] by blast

theorem list_queue_and_stack_witness:
  "\<exists>l1 l2. do_all list_push [4, 8, 15, 16, 23, 42] list_create = Some l1 \<and>
     take_out list_pop (length [4, 8, 15, 16, 23, 42 :: ptr]) l1 = Some (l2, [42, 23, 16, 15, 8, 4]) \<and> list_abs l2 = []"
  using list_queue_and_stack [of list_create "[4, 8, 15, 16, 23, 42]"] list_create_abs [of 8]
  unfolding list_create_def by (simp del: do_all.simps take_out.simps list.size abs_Nil_iff)

end
