(* ===== verification/UtilHeap.thy ===== *)
theory UtilHeap
  imports Interfaces
begin

text \<open>
  The binary heap of \<^verbatim>\<open>lib/util/heap.c\<close>, a priority queue of values with data pointers that
  breaks ties by the time of insertion. The fields of \<^verbatim>\<open>struct heap_t\<close> are the fields of the
  record with the prefix \<open>h_\<close>; \<open>junk\<close> is the memory that \<^verbatim>\<open>xrealloc\<close> adds. An out parameter
  \<^verbatim>\<open>data\<close> is a second result; a call with a null \<^verbatim>\<open>data\<close> ignores it. Values and times are
  \<^verbatim>\<open>long long\<close> and integers here: values are only compared, and the clock counts insertions.
  \<^verbatim>\<open>heap_free\<close> only releases memory.
\<close>

section \<open>State\<close>

record heap_elem_t =
  e_time :: int
  e_value :: int
  e_data :: ptr

datatype heap_time_policy_enum = heap_time_policy_fifo | heap_time_policy_lifo

record heap_t =
  h_count :: nat
  h_size :: nat
  h_current :: nat
  h_error :: int
  h_time :: int
  h_policy :: heap_time_policy_enum
  h_elem :: "heap_elem_t list"

definition HEAP_EEMPTY :: int where "HEAP_EEMPTY = 1"

definition HEAP_EELEM :: int where "HEAP_EELEM = 2"

definition PARENT :: "nat \<Rightarrow> nat" where "PARENT x = (x - 1) div 2"

definition LEFT :: "nat \<Rightarrow> nat" where "LEFT x = x * 2 + 1"

definition RIGHT :: "nat \<Rightarrow> nat" where "RIGHT x = x * 2 + 2"

section \<open>Operations\<close>

definition heap_less_than :: "heap_t \<Rightarrow> nat \<Rightarrow> nat \<Rightarrow> bool option" where
  "heap_less_than h x y = do {
     ex \<leftarrow> rd (h_elem h) x;
     ey \<leftarrow> rd (h_elem h) y;
     Some (if e_value ex \<noteq> e_value ey then e_value ex < e_value ey
           else if h_policy h = heap_time_policy_fifo then e_time ex < e_time ey
           else e_time ex > e_time ey) }"

definition heap_grow :: "(nat \<Rightarrow> heap_elem_t) \<Rightarrow> heap_t \<Rightarrow> heap_t" where
  "heap_grow junk h = (let nsize = h_size h * 2 in
     h\<lparr>h_elem := h_elem h @ fresh junk (nsize - length (h_elem h)), h_size := nsize\<rparr>)"

definition heap_swap :: "nat \<Rightarrow> nat \<Rightarrow> heap_t \<Rightarrow> heap_t option" where
  "heap_swap i k h = do {
     tmp \<leftarrow> rd (h_elem h) k;
     x \<leftarrow> rd (h_elem h) i;
     e \<leftarrow> wr (h_elem h) k x;
     e \<leftarrow> wr e i tmp;
     Some (h\<lparr>h_elem := e\<rparr>) }"

text \<open>The child that \<^verbatim>\<open>heapify\<close> exchanges with place \<open>i\<close>, or \<open>i\<close> itself.\<close>

definition heapify_pick :: "heap_t \<Rightarrow> nat \<Rightarrow> nat option" where
  "heapify_pick h i = do {
     c \<leftarrow> if LEFT i < h_count h then heap_less_than h (LEFT i) i else Some False;
     let k = (if c then LEFT i else i);
     c \<leftarrow> if RIGHT i < h_count h then heap_less_than h (RIGHT i) k else Some False;
     Some (if c then RIGHT i else k) }"

lemma heapify_pick_cases: "heapify_pick h i = Some k \<Longrightarrow> k = i \<or> (i < k \<and> k < h_count h)"
  by (auto simp: heapify_pick_def LEFT_def RIGHT_def Let_def bind_eq_Some_conv split: if_splits)

lemma heap_swap_count: "heap_swap i k h = Some h' \<Longrightarrow> h_count h' = h_count h"
  by (auto simp: heap_swap_def bind_eq_Some_conv)

function heapify :: "heap_t \<Rightarrow> nat \<Rightarrow> heap_t option" where
  "heapify h i = do {
     k \<leftarrow> heapify_pick h i;
     if k = i then Some h
     else do { h \<leftarrow> heap_swap i k h; heapify h k } }"
  by pat_completeness auto
termination
  by (relation "measure (\<lambda>(h, i). h_count h - i)") (auto dest!: heapify_pick_cases heap_swap_count)

declare heapify.simps [simp del]

definition heap_create :: "int \<Rightarrow> heap_t" where
  "heap_create sz = (let n = if sz < 10 then 10 else nat sz in
     \<lparr>h_count = 0, h_size = n, h_current = 0, h_error = 0, h_time = 0, h_policy = heap_time_policy_fifo,
      h_elem = replicate n \<lparr>e_time = 0, e_value = 0, e_data = NULL\<rparr>\<rparr>)"

definition heap_error :: "heap_t \<Rightarrow> int" where
  "heap_error h = h_error h"

definition heap_error_msg :: "heap_t \<Rightarrow> string" where
  "heap_error_msg h = (if h_error h = HEAP_EEMPTY then ''heap is empty''
     else if h_error h = HEAP_EELEM then ''element not found'' else '''')"

function insert_loop :: "heap_t \<Rightarrow> nat \<Rightarrow> heap_t option" where
  "insert_loop h i =
     (if i > 0 then do {
        c \<leftarrow> heap_less_than h i (PARENT i);
        if c then do { h \<leftarrow> heap_swap (PARENT i) i h; insert_loop h (PARENT i) } else Some h }
      else Some h)"
  by pat_completeness auto
termination by (relation "measure snd") (auto simp: PARENT_def)

declare insert_loop.simps [simp del]

definition heap_insert :: "(nat \<Rightarrow> heap_elem_t) \<Rightarrow> int \<Rightarrow> ptr \<Rightarrow> heap_t \<Rightarrow> heap_t option" where
  "heap_insert junk value data h = do {
     let h = (if h_count h = h_size h then heap_grow junk h else h);
     let i = h_count h;
     e \<leftarrow> wr (h_elem h) i \<lparr>e_time = h_time h, e_value = value, e_data = data\<rparr>;
     let h = h\<lparr>h_elem := e, h_time := h_time h + 1\<rparr>;
     h \<leftarrow> insert_loop h i;
     Some (h\<lparr>h_count := h_count h + 1, h_error := 0\<rparr>) }"

definition heap_peek :: "heap_t \<Rightarrow> (heap_t \<times> int \<times> ptr) option" where
  "heap_peek h =
     (if h_count h = 0 then Some (h\<lparr>h_error := HEAP_EEMPTY\<rparr>, 0, NULL)
      else do {
        e \<leftarrow> rd (h_elem h) 0;
        Some (h\<lparr>h_error := 0\<rparr>, e_value e, e_data e) })"

definition heap_extract :: "heap_t \<Rightarrow> (heap_t \<times> int \<times> ptr) option" where
  "heap_extract h = do {
     (h, value, data) \<leftarrow> heap_peek h;
     if h_error h \<noteq> 0 then Some (h, 0, data)
     else do {
       let h = h\<lparr>h_count := h_count h - 1\<rparr>;
       x \<leftarrow> rd (h_elem h) (h_count h);
       e \<leftarrow> wr (h_elem h) 0 x;
       h \<leftarrow> heapify (h\<lparr>h_elem := e\<rparr>) 0;
       Some (h, value, data) } }"

definition heap_time_policy :: "heap_time_policy_enum \<Rightarrow> heap_t \<Rightarrow> heap_t" where
  "heap_time_policy policy h = h\<lparr>h_policy := policy, h_error := 0\<rparr>"

definition heap_first :: "heap_t \<Rightarrow> (heap_t \<times> int \<times> ptr) option" where
  "heap_first h =
     (if h_count h = 0 then Some (h\<lparr>h_error := HEAP_EELEM\<rparr>, 0, NULL)
      else do {
        let h = h\<lparr>h_current := 0, h_error := 0\<rparr>;
        e \<leftarrow> rd (h_elem h) 0;
        Some (h, e_value e, e_data e) })"

definition heap_next :: "heap_t \<Rightarrow> (heap_t \<times> int \<times> ptr) option" where
  "heap_next h =
     (if int (h_current h) \<ge> int (h_count h) - 1 then Some (h\<lparr>h_error := HEAP_EELEM\<rparr>, 0, NULL)
      else do {
        let h = h\<lparr>h_current := h_current h + 1, h_error := 0\<rparr>;
        e \<leftarrow> rd (h_elem h) (h_current h);
        Some (h, e_value e, e_data e) })"

section \<open>The heap order\<close>

definition prio :: "heap_time_policy_enum \<Rightarrow> heap_elem_t \<Rightarrow> int \<times> int" where
  "prio p e = (e_value e, if p = heap_time_policy_fifo then e_time e else - e_time e)"

lemma heap_less_than_prio:
  "x < length (h_elem h) \<Longrightarrow> y < length (h_elem h) \<Longrightarrow>
   heap_less_than h x y = Some (prio (h_policy h) (h_elem h ! x) < prio (h_policy h) (h_elem h ! y))"
  by (auto simp: heap_less_than_def prio_def less_prod_def)

text \<open>
  \<open>hp f n a\<close>: no place below \<open>n\<close> has a smaller key than its parent. \<open>up f n i a\<close> is that state
  with an exception at place \<open>i\<close>, which may be too small for its parent; \<open>down f n i a\<close> with an
  exception at place \<open>i\<close>, which may be too large for its children.
\<close>

definition hp :: "('a \<Rightarrow> 'k :: linorder) \<Rightarrow> nat \<Rightarrow> 'a list \<Rightarrow> bool" where
  "hp f n a \<longleftrightarrow> (\<forall>k. 0 < k \<and> k < n \<longrightarrow> f (a ! PARENT k) \<le> f (a ! k))"

definition up :: "('a \<Rightarrow> 'k :: linorder) \<Rightarrow> nat \<Rightarrow> nat \<Rightarrow> 'a list \<Rightarrow> bool" where
  "up f n i a \<longleftrightarrow> (\<forall>k. 0 < k \<and> k < n \<and> k \<noteq> i \<longrightarrow> f (a ! PARENT k) \<le> f (a ! k)) \<and>
     (\<forall>k. 0 < k \<and> k < n \<and> PARENT k = i \<and> 0 < i \<longrightarrow> f (a ! PARENT i) \<le> f (a ! k))"

definition down :: "('a \<Rightarrow> 'k :: linorder) \<Rightarrow> nat \<Rightarrow> nat \<Rightarrow> 'a list \<Rightarrow> bool" where
  "down f n i a \<longleftrightarrow> (\<forall>k. 0 < k \<and> k < n \<and> PARENT k \<noteq> i \<longrightarrow> f (a ! PARENT k) \<le> f (a ! k)) \<and>
     (\<forall>k. 0 < k \<and> k < n \<and> PARENT k = i \<and> 0 < i \<longrightarrow> f (a ! PARENT i) \<le> f (a ! k))"

lemma PARENT_less [simp]: "0 < k \<Longrightarrow> PARENT k < k"
  by (auto simp: PARENT_def)

lemma PARENT_children: "0 < k \<Longrightarrow> PARENT k = i \<longleftrightarrow> k = LEFT i \<or> k = RIGHT i"
  by (auto simp: PARENT_def LEFT_def RIGHT_def)

abbreviation swapped :: "'a list \<Rightarrow> nat \<Rightarrow> nat \<Rightarrow> 'a list" where
  "swapped a i k \<equiv> a[k := a ! i, i := a ! k]"

lemma swapped_nth:
  "i < length a \<Longrightarrow> k < length a \<Longrightarrow> swapped a i k ! j = (if j = i then a ! k else if j = k then a ! i else a ! j)"
  by (auto simp: nth_list_update)

lemma up_swap:
  assumes "up f n i a" "0 < i" "i < n" "n \<le> length a" "f (a ! i) < f (a ! PARENT i)"
  shows "up f n (PARENT i) (swapped a (PARENT i) i)"
proof -
  let ?p = "PARENT i"
  have p: "?p < i" using assms(2) by simp
  have nth: "swapped a ?p i ! j = (if j = ?p then a ! i else if j = i then a ! ?p else a ! j)" for j
    using swapped_nth [of ?p a i j] p assms(3,4) by simp
  have old: "f (a ! PARENT k) \<le> f (a ! k)" if "0 < k" "k < n" "k \<noteq> i" for k using assms(1) that by (simp add: up_def)
  have old2: "f (a ! ?p) \<le> f (a ! k)" if "0 < k" "k < n" "PARENT k = i" for k
    using assms(1,2) that by (simp add: up_def)
  show ?thesis unfolding up_def
  proof (intro conjI allI impI)
    fix k assume k: "0 < k \<and> k < n \<and> k \<noteq> ?p"
    then show "f (swapped a ?p i ! PARENT k) \<le> f (swapped a ?p i ! k)"
      using old [of k] old2 [of k] assms(5) PARENT_less [of k] by (auto simp: nth intro: order_trans less_imp_le)
  next
    fix k assume k: "0 < k \<and> k < n \<and> PARENT k = ?p \<and> 0 < ?p"
    then have pp: "PARENT ?p < ?p" by simp
    have "f (a ! PARENT ?p) \<le> f (a ! ?p)" using old [of ?p] k p assms(3) by simp
    then show "f (swapped a ?p i ! PARENT ?p) \<le> f (swapped a ?p i ! k)"
      using old [of k] k pp p PARENT_less [of k] by (auto simp: nth intro: order_trans)
  qed
qed

lemma up_done: "up f n i a \<Longrightarrow> i = 0 \<or> f (a ! PARENT i) \<le> f (a ! i) \<Longrightarrow> hp f n a"
  by (auto simp: up_def hp_def)

lemma down_swap:
  assumes "down f n i a" "k < n" "n \<le> length a" "k = LEFT i \<or> k = RIGHT i" "f (a ! k) < f (a ! i)"
    and least: "\<And>j. j = LEFT i \<or> j = RIGHT i \<Longrightarrow> j < n \<Longrightarrow> f (a ! k) \<le> f (a ! j)"
  shows "down f n k (swapped a i k)"
proof -
  have ik: "i < k" "0 < k" "PARENT k = i" using assms(4) by (auto simp: LEFT_def RIGHT_def PARENT_def)
  have nth: "swapped a i k ! j = (if j = i then a ! k else if j = k then a ! i else a ! j)" for j
    using swapped_nth [of i a k j] ik assms(2,3) by simp
  have old: "f (a ! PARENT j) \<le> f (a ! j)" if "0 < j" "j < n" "PARENT j \<noteq> i" for j
    using assms(1) that by (simp add: down_def)
  have old2: "f (a ! PARENT i) \<le> f (a ! j)" if "0 < j" "j < n" "PARENT j = i" "0 < i" for j
    using assms(1) that by (simp add: down_def)
  show ?thesis unfolding down_def
  proof (intro conjI allI impI)
    fix j assume j: "0 < j \<and> j < n \<and> PARENT j \<noteq> k"
    show "f (swapped a i k ! PARENT j) \<le> f (swapped a i k ! j)"
    proof (cases "PARENT j = i")
      case True
      then have "j = LEFT i \<or> j = RIGHT i" using PARENT_children j by blast
      then show ?thesis using least [of j] j True assms(5) ik PARENT_less [of j] by (auto simp: nth less_imp_le)
    next
      case False
      then show ?thesis using old [of j] old2 [of k] j ik assms(2) by (auto simp: nth)
    qed
  next
    fix j assume j: "0 < j \<and> j < n \<and> PARENT j = k \<and> 0 < k"
    then show "f (swapped a i k ! PARENT k) \<le> f (swapped a i k ! j)"
      using old [of j] ik PARENT_less [of j] by (auto simp: nth)
  qed
qed

lemma down_done:
  assumes "down f n i a" "\<And>j. j = LEFT i \<or> j = RIGHT i \<Longrightarrow> j < n \<Longrightarrow> f (a ! i) \<le> f (a ! j)"
  shows "hp f n a"
  using assms PARENT_children unfolding down_def hp_def by blast

lemma hp_root: "hp f n a \<Longrightarrow> k < n \<Longrightarrow> f (a ! 0) \<le> f (a ! k)"
proof (induction k rule: less_induct)
  case (less k)
  show ?case
  proof (cases "k = 0")
    case False
    then have "f (a ! PARENT k) \<le> f (a ! k)" using less.prems by (simp add: hp_def)
    moreover have "f (a ! 0) \<le> f (a ! PARENT k)" using less False by simp
    ultimately show ?thesis by (rule order_trans [rotated])
  qed simp
qed

section \<open>The loops\<close>

lemma heap_swap_run:
  assumes "i < length (h_elem h)" "k < length (h_elem h)"
  shows "heap_swap i k h = Some (h\<lparr>h_elem := swapped (h_elem h) i k\<rparr>)"
  using assms by (simp add: heap_swap_def)

lemma mset_take_swapped:
  assumes "i < n" "k < n" "n \<le> length a"
  shows "mset (take n (swapped a i k)) = mset (take n a)"
proof -
  have "take n (swapped a i k) = swapped (take n a) i k"
    using assms by (simp add: take_update_swap nth_take)
  then show ?thesis using assms mset_swap [of i "take n a" k] by simp
qed

lemma insert_loop_run:
  assumes "n \<le> length (h_elem h)" "i < n" "up (prio (h_policy h)) n i (h_elem h)"
  shows "\<exists>a. insert_loop h i = Some (h\<lparr>h_elem := a\<rparr>) \<and> length a = length (h_elem h) \<and>
    mset (take n a) = mset (take n (h_elem h)) \<and> hp (prio (h_policy h)) n a"
  using assms
proof (induction h i rule: insert_loop.induct)
  case (1 h i)
  let ?f = "prio (h_policy h)" and ?a = "h_elem h" and ?p = "PARENT i"
  show ?case
  proof (cases "0 < i \<and> ?f (?a ! i) < ?f (?a ! ?p)")
    case True
    let ?h = "h\<lparr>h_elem := swapped ?a ?p i\<rparr>"
    have lt: "?p < i" "i < length ?a" "?p < length ?a" using True 1(3,2) PARENT_less [of i] by linarith+
    have less: "heap_less_than h i ?p = Some True" using heap_less_than_prio [of i h ?p] lt True by simp
    have swp: "heap_swap ?p i h = Some ?h" using heap_swap_run [of ?p h i] lt by simp
    have u: "up ?f n ?p (swapped ?a ?p i)" using up_swap [OF 1(4)] True 1(2,3) by blast
    obtain b where b: "insert_loop ?h ?p = Some (?h\<lparr>h_elem := b\<rparr>)" "length b = length ?a"
        "mset (take n b) = mset (take n (swapped ?a ?p i))" "hp ?f n b"
      using 1(1) [OF _ less _ swp] True u 1(2,3) lt by auto
    have "insert_loop h i = Some (h\<lparr>h_elem := b\<rparr>)"
      using True less swp b(1) by (subst insert_loop.simps) simp
    then show ?thesis using b mset_take_swapped [of ?p n i ?a] lt 1(2,3) by auto
  next
    case False
    have "0 < i \<Longrightarrow> ?p < length ?a" using 1(2,3) PARENT_less [of i] by linarith
    then have "insert_loop h i = Some h"
      using False heap_less_than_prio [of i h ?p] 1(2,3) by (subst insert_loop.simps) auto
    moreover have "hp ?f n ?a" using up_done [OF 1(4)] False by fastforce
    ultimately show ?thesis by (intro exI [of _ ?a]) simp
  qed
qed

lemma heapify_pick_run:
  assumes "h_count h \<le> length (h_elem h)" "i < length (h_elem h)"
  shows "\<exists>k. heapify_pick h i = Some k \<and> (k = i \<or> ((k = LEFT i \<or> k = RIGHT i) \<and> k < h_count h \<and>
      prio (h_policy h) (h_elem h ! k) < prio (h_policy h) (h_elem h ! i))) \<and>
    (\<forall>j. (j = LEFT i \<or> j = RIGHT i) \<and> j < h_count h \<longrightarrow> prio (h_policy h) (h_elem h ! k) \<le> prio (h_policy h) (h_elem h ! j))"
proof -
  let ?f = "\<lambda>k. prio (h_policy h) (h_elem h ! k)" and ?n = "h_count h"
  define k1 where "k1 = (if LEFT i < ?n \<and> ?f (LEFT i) < ?f i then LEFT i else i)"
  define k2 where "k2 = (if RIGHT i < ?n \<and> ?f (RIGHT i) < ?f k1 then RIGHT i else k1)"
  have 1: "(if LEFT i < ?n then heap_less_than h (LEFT i) i else Some False) = Some (LEFT i < ?n \<and> ?f (LEFT i) < ?f i)"
    using assms by (auto simp: heap_less_than_prio)
  have "k1 < length (h_elem h)" using assms by (auto simp: k1_def)
  then have 2: "(if RIGHT i < ?n then heap_less_than h (RIGHT i) k1 else Some False) =
      Some (RIGHT i < ?n \<and> ?f (RIGHT i) < ?f k1)"
    using assms by (auto simp: heap_less_than_prio)
  have "heapify_pick h i = Some k2"
    unfolding heapify_pick_def 1 using 2 by (simp add: k1_def [symmetric] k2_def)
  moreover have "k2 = i \<or> ((k2 = LEFT i \<or> k2 = RIGHT i) \<and> k2 < ?n \<and> ?f k2 < ?f i)"
    by (auto simp: k2_def k1_def)
  moreover have "\<forall>j. (j = LEFT i \<or> j = RIGHT i) \<and> j < ?n \<longrightarrow> ?f k2 \<le> ?f j"
    by (auto simp: k2_def k1_def)
  ultimately show ?thesis by blast
qed

lemma heapify_run:
  assumes "h_count h \<le> length (h_elem h)" "i < length (h_elem h)" "i < h_count h \<or> h_count h = 0"
    "down (prio (h_policy h)) (h_count h) i (h_elem h)"
  shows "\<exists>a. heapify h i = Some (h\<lparr>h_elem := a\<rparr>) \<and> length a = length (h_elem h) \<and>
    mset (take (h_count h) a) = mset (take (h_count h) (h_elem h)) \<and> hp (prio (h_policy h)) (h_count h) a"
  using assms
proof (induction h i rule: heapify.induct)
  case (1 h i)
  let ?f = "prio (h_policy h)" and ?a = "h_elem h" and ?n = "h_count h"
  obtain k where k: "heapify_pick h i = Some k"
      "k = i \<or> ((k = LEFT i \<or> k = RIGHT i) \<and> k < ?n \<and> ?f (?a ! k) < ?f (?a ! i))"
      "\<And>j. (j = LEFT i \<or> j = RIGHT i) \<Longrightarrow> j < ?n \<Longrightarrow> ?f (?a ! k) \<le> ?f (?a ! j)"
    using heapify_pick_run [OF 1(2,3)] by blast
  show ?case
  proof (cases "k = i")
    case True
    have "heapify h i = Some h" using k(1) True by (subst heapify.simps) simp
    moreover have "hp ?f ?n ?a" using down_done [OF 1(5)] k(3) True by blast
    ultimately show ?thesis by (intro exI [of _ ?a]) simp
  next
    case False
    let ?h = "h\<lparr>h_elem := swapped ?a i k\<rparr>"
    have kc: "k = LEFT i \<or> k = RIGHT i" "k < ?n" "?f (?a ! k) < ?f (?a ! i)" using k(2) False by auto
    have swp: "heap_swap i k h = Some ?h" using heap_swap_run [of i h k] kc(2) 1(2,3) by simp
    have d: "down ?f ?n k (swapped ?a i k)" using down_swap [OF 1(5) kc(2) 1(2) kc(1,3) k(3)] .
    obtain b where b: "heapify ?h k = Some (?h\<lparr>h_elem := b\<rparr>)" "length b = length ?a"
        "mset (take ?n b) = mset (take ?n (swapped ?a i k))" "hp ?f ?n b"
      using 1(1) [OF k(1) False swp] d kc 1(2) by auto
    have "heapify h i = Some (h\<lparr>h_elem := b\<rparr>)" using k(1) False swp b(1) by (subst heapify.simps) simp
    then show ?thesis using b mset_take_swapped [of i ?n k ?a] kc 1(2,4) by auto
  qed
qed

section \<open>The priority queue\<close>

definition heap_inv :: "heap_time_policy_enum \<Rightarrow> heap_t \<Rightarrow> bool" where
  "heap_inv p h \<longleftrightarrow> 0 < h_size h \<and> length (h_elem h) = h_size h \<and> h_count h \<le> h_size h \<and> h_policy h = p \<and>
     hp (prio p) (h_count h) (h_elem h) \<and> distinct (map e_time (take (h_count h) (h_elem h))) \<and>
     (\<forall>e \<in> set (take (h_count h) (h_elem h)). e_time e < h_time h)"

definition entry :: "heap_elem_t \<Rightarrow> int \<times> int \<times> ptr" where
  "entry e = (e_value e, e_time e, e_data e)"

definition heap_bag :: "heap_t \<Rightarrow> (int \<times> int \<times> ptr) multiset" where
  "heap_bag h = image_mset entry (mset (take (h_count h) (h_elem h)))"

lemma rank_entry: "rank (p = heap_time_policy_fifo) (entry e) = prio p e"
  by (simp add: rank_def entry_def prio_def)

lemma heap_inv_cong:
  assumes "mset (take n b) = mset (take n a)"
  shows "distinct (map e_time (take n b)) = distinct (map e_time (take n a))" "set (take n b) = set (take n a)"
  using assms by (metis mset_map mset_eq_imp_distinct_iff, metis mset_eq_setD)

lemma heap_insert_run:
  assumes "heap_inv p h"
  shows "\<exists>h'. heap_insert junk v d h = Some h' \<and> heap_inv p h' \<and>
    heap_bag h' = add_mset (v, h_time h, d) (heap_bag h) \<and> h_time h' = h_time h + 1 \<and> h_error h' = 0"
proof -
  let ?n = "h_count h" and ?e = "\<lparr>e_time = h_time h, e_value = v, e_data = d\<rparr>"
  note inv = assms [unfolded heap_inv_def]
  define g where "g = (if ?n = h_size h then heap_grow junk h else h)"
  have g: "length (h_elem g) = h_size g" "?n < h_size g" "take ?n (h_elem g) = take ?n (h_elem h)"
      "h_count g = ?n" "h_time g = h_time h" "h_policy g = p"
    using inv by (auto simp: g_def heap_grow_def Let_def)
  let ?a = "(h_elem g)[?n := ?e]"
  let ?g = "g\<lparr>h_elem := ?a, h_time := h_time h + 1\<rparr>"
  have tk: "take (Suc ?n) ?a = take ?n (h_elem h) @ [?e]" using g by (simp add: take_Suc_conv_app_nth)
  have nth: "?a ! k = h_elem h ! k" if "k < ?n" for k
    using that g(3) nth_take [of k ?n "h_elem g"] nth_take [of k ?n "h_elem h"] by simp
  have "up (prio p) (Suc ?n) ?n ?a" unfolding up_def
  proof (intro conjI allI impI)
    fix k assume k: "0 < k \<and> k < Suc ?n \<and> k \<noteq> ?n"
    then have "k < ?n" "PARENT k < ?n" using PARENT_less [of k] by linarith+
    then show "prio p (?a ! PARENT k) \<le> prio p (?a ! k)" using inv k nth by (simp add: hp_def)
  next
    fix k assume "0 < k \<and> k < Suc ?n \<and> PARENT k = ?n \<and> 0 < ?n"
    then show "prio p (?a ! PARENT ?n) \<le> prio p (?a ! k)" using PARENT_less [of k] by simp
  qed
  then obtain b where b: "insert_loop ?g ?n = Some (?g\<lparr>h_elem := b\<rparr>)" "length b = h_size g"
      "mset (take (Suc ?n) b) = mset (take (Suc ?n) ?a)" "hp (prio p) (Suc ?n) b"
    using insert_loop_run [of "Suc ?n" ?g ?n] g by auto
  let ?h = "?g\<lparr>h_elem := b, h_count := Suc ?n, h_error := 0\<rparr>"
  have "heap_insert junk v d h = Some ?h"
    unfolding heap_insert_def g_def [symmetric] Let_def using g b(1) by simp
  moreover have "heap_inv p ?h"
    using inv g b heap_inv_cong [OF b(3)] unfolding tk by (auto simp: heap_inv_def)
  moreover have "heap_bag ?h = add_mset (v, h_time h, d) (heap_bag h)"
    using b(3) unfolding tk by (simp add: heap_bag_def entry_def)
  ultimately show ?thesis by (intro exI [of _ ?h]) simp
qed

lemma prio_inj: "e_time x \<noteq> e_time y \<Longrightarrow> prio p x \<noteq> prio p y"
  by (auto simp: prio_def)

text \<open>
  The last element moves to the root. With \<open>m\<close> elements left, the array \<open>a[0 := a ! m]\<close> is a heap
  but for its root, and holds the elements of \<open>a\<close> but for the old root.
\<close>

lemma down_root: "hp f (Suc m) a \<Longrightarrow> m < length a \<Longrightarrow> down f m 0 (a[0 := a ! m])"
  by (auto simp: hp_def down_def nth_list_update PARENT_def)

lemma mset_move_last:
  assumes "m < length a"
  shows "mset (take (Suc m) a) = add_mset (a ! 0) (mset (take m (a[0 := a ! m])))"
proof (cases a)
  case (Cons x xs)
  show ?thesis
  proof (cases m)
    case (Suc k)
    then have "take (Suc k) xs = take k xs @ [xs ! k]" using assms Cons by (simp add: take_Suc_conv_app_nth)
    then show ?thesis using Cons Suc by simp
  qed (use Cons in simp)
qed (use assms in simp)

lemma heap_extract_run:
  assumes "heap_inv p h" "h_count h = Suc m"
  shows "\<exists>h' x. heap_extract h = Some (h', unstamp (entry x)) \<and> heap_inv p h' \<and>
    heap_bag h = add_mset (entry x) (heap_bag h') \<and> (\<forall>y \<in> set (take m (h_elem h')). prio p x < prio p y) \<and>
    mset (take (Suc m) (h_elem h)) = add_mset x (mset (take m (h_elem h'))) \<and> h_count h' = m"
proof -
  note inv = assms(1) [unfolded heap_inv_def assms(2)]
  let ?a = "h_elem h"
  let ?x = "?a ! 0" and ?b = "?a[0 := ?a ! m]"
  have m: "m < length ?a" using inv by simp
  let ?g = "h\<lparr>h_error := 0, h_count := m, h_elem := ?b\<rparr>"
  obtain c where c: "heapify ?g 0 = Some (?g\<lparr>h_elem := c\<rparr>)" "length c = length ?a"
      "mset (take m c) = mset (take m ?b)" "hp (prio p) m c"
    using heapify_run [of ?g 0] down_root [of "prio p" m ?a] inv m by auto
  let ?h = "?g\<lparr>h_elem := c\<rparr>"
  have all: "mset (take (Suc m) ?a) = add_mset ?x (mset (take m c))" using mset_move_last [OF m] c(3) by simp
  have sub: "set (take (Suc m) ?a) = insert ?x (set (take m c))"
    using all by (metis set_mset_mset set_mset_add_mset_insert)
  have "mset (map e_time (take (Suc m) ?a)) = mset (e_time ?x # map e_time (take m c))" using all by simp
  then have dist: "e_time ?x \<notin> set (map e_time (take m c))" "distinct (map e_time (take m c))"
    using inv mset_eq_imp_distinct_iff by (metis distinct.simps(2))+
  have least: "prio p ?x < prio p y" if "y \<in> set (take m c)" for y
  proof -
    have "y \<in> set (take (Suc m) ?a)" using that sub by blast
    then obtain k where "k < Suc m" "y = ?a ! k" by (auto simp: in_set_conv_nth)
    then have "prio p ?x \<le> prio p y" using hp_root [of "prio p" "Suc m" ?a k] inv by blast
    moreover have "prio p ?x \<noteq> prio p y" using dist(1) that by (intro prio_inj) auto
    ultimately show ?thesis by simp
  qed
  have "heap_extract h = Some (?h, unstamp (entry ?x))"
    using assms(2) inv m c(1) by (simp add: heap_extract_def heap_peek_def unstamp_def entry_def)
  moreover have "heap_inv p ?h" using inv c dist sub by (auto simp: heap_inv_def)
  moreover have "heap_bag h = add_mset (entry ?x) (heap_bag ?h)" using all assms(2) by (simp add: heap_bag_def)
  ultimately show ?thesis using least all by (intro exI [of _ ?h] exI [of _ ?x]) simp
qed

interpretation heap_queue: min_queue "heap_inv p" heap_bag h_time "p = heap_time_policy_fifo"
  "\<lambda>(v, d). heap_insert junk v d" heap_extract for p junk
proof
  fix h v d assume "heap_inv p h"
  then show "\<exists>s'. (case (v, d) of (v, d) \<Rightarrow> heap_insert junk v d) h = Some s' \<and> heap_inv p s' \<and>
      heap_bag s' = add_mset (v, h_time h, d) (heap_bag h) \<and> h_time s' = h_time h + 1"
    using heap_insert_run [of p h junk v d] by auto
next
  fix h assume inv: "heap_inv p h" and "heap_bag h \<noteq> {#}"
  then obtain m where m: "h_count h = Suc m" by (cases "h_count h") (auto simp: heap_bag_def)
  obtain h' x where r: "heap_extract h = Some (h', unstamp (entry x))" "heap_inv p h'"
      "heap_bag h = add_mset (entry x) (heap_bag h')" "\<forall>y \<in> set (take m (h_elem h')). prio p x < prio p y"
      "h_count h' = m"
    using heap_extract_run [OF inv m] by blast
  then have "\<forall>y \<in># heap_bag h'. rank (p = heap_time_policy_fifo) (entry x) < rank (p = heap_time_policy_fifo) y"
    by (auto simp: heap_bag_def rank_entry)
  then show "\<exists>s' x. heap_extract h = Some (s', unstamp x) \<and> heap_inv p s' \<and> heap_bag h = add_mset x (heap_bag s') \<and>
      (\<forall>y \<in># heap_bag s'. rank (p = heap_time_policy_fifo) x < rank (p = heap_time_policy_fifo) y)"
    using r(1-3) by blast
qed

lemma heap_create_inv: "heap_inv p (heap_time_policy p (heap_create sz))" "heap_bag (heap_time_policy p (heap_create sz)) = {#}"
  by (auto simp: heap_create_def heap_time_policy_def heap_inv_def heap_bag_def hp_def Let_def)

section \<open>Properties\<close>

text \<open>
  C9: the heap sorts, stably. Inserting any list of values with data into a new heap and
  extracting as many times gives the list sorted by value; among equal values the order is that of
  insertion under the policy \<^verbatim>\<open>heap_time_policy_fifo\<close>, and the reverse of it under
  \<^verbatim>\<open>heap_time_policy_lifo\<close>. Neither the initial size nor the memory the heap grows into matters.
\<close>

theorem heap_sorts_stably:
  "\<exists>h' h''. do_all (\<lambda>(v, d). heap_insert junk v d) xs (heap_time_policy p (heap_create sz)) = Some h' \<and>
     take_out heap_extract (length xs) h' =
       Some (h'', sort_key fst (if p = heap_time_policy_fifo then xs else rev xs)) \<and> h_count h'' = 0"
proof -
  obtain h' h'' where r: "do_all (\<lambda>(v, d). heap_insert junk v d) xs (heap_time_policy p (heap_create sz)) = Some h'"
      "take_out heap_extract (length xs) h' = Some (h'', sort_key fst (if p = heap_time_policy_fifo then xs else rev xs))"
      "heap_inv p h''" "heap_bag h'' = {#}"
    using heap_queue.queue_sorts [OF heap_create_inv, of junk xs p sz] by blast
  have "h_count h'' = 0" using r(3,4) by (auto simp: heap_bag_def heap_inv_def)
  then show ?thesis using r(1,2) by blast
qed

text \<open>
  \<^verbatim>\<open>heap_extract\<close> in one step. In a heap that is not empty it returns the value and the
  datum of one element, removes exactly that element, and every element left comes after it in the
  order of values and insertion times; the heap invariant is kept.
\<close>

theorem heap_extract_least:
  assumes "heap_inv p h" "0 < h_count h"
  shows "\<exists>h' x. heap_extract h = Some (h', e_value x, e_data x) \<and> heap_inv p h' \<and> h_count h' = h_count h - 1 \<and>
    mset (take (h_count h) (h_elem h)) = add_mset x (mset (take (h_count h') (h_elem h'))) \<and>
    (\<forall>y \<in> set (take (h_count h') (h_elem h')). prio p x < prio p y)"
proof -
  obtain m where m: "h_count h = Suc m" using assms(2) by (cases "h_count h") auto
  then show ?thesis using heap_extract_run [OF assms(1) m] by (auto simp: unstamp_def entry_def)
qed

theorem heap_extract_least_witness:
  "\<exists>h h' (x :: heap_elem_t). heap_insert (\<lambda>_. \<lparr>e_time = 9, e_value = 9, e_data = 9\<rparr>) 7 70 (heap_time_policy heap_time_policy_lifo (heap_create 0)) = Some h \<and>
     heap_extract h = Some (h', e_value x, e_data x) \<and> h_count h' = h_count h - 1"
proof -
  let ?h = "heap_time_policy heap_time_policy_lifo (heap_create 0)"
  let ?junk = "\<lambda>_. \<lparr>e_time = 9, e_value = 9, e_data = 9\<rparr>"
  obtain h where h: "heap_insert ?junk 7 70 ?h = Some h" "heap_inv heap_time_policy_lifo h" "heap_bag h \<noteq> {#}"
    using heap_insert_run [OF heap_create_inv(1), of ?junk 7 70 heap_time_policy_lifo 0] by auto
  then have "0 < h_count h" by (auto simp: heap_bag_def)
  then obtain h' and x :: heap_elem_t where "heap_extract h = Some (h', e_value x, e_data x)" "h_count h' = h_count h - 1"
    using heap_extract_least [OF h(2)] by blast
  with h(1) show ?thesis by (intro exI [of _ h] exI [of _ h'] exI [of _ x] conjI)
qed

end
