(* ===== verification/UtilHashTable.thy ===== *)
theory UtilHashTable
  imports Interfaces
begin

text \<open>
  The hash table of \<^verbatim>\<open>lib/util/hash-table.c\<close>: a vector of collision lists, from strings to
  non-null pointers, with or without regard to case. The fields of \<^verbatim>\<open>struct hash_table_t\<close> are
  the fields of the record with the prefix \<open>t_\<close>. A collision list, which only the table reaches, is
  the list of its elements, and a pointer to an element of it is the position of the element:
  \<^verbatim>\<open>find_elem\<close> is a position in the list number \<^verbatim>\<open>find_index\<close>. A string is the list of its
  characters before the final NUL. \<^verbatim>\<open>strcmp\<close>, \<^verbatim>\<open>strcasecmp\<close> and \<^verbatim>\<open>tolower\<close> are those of the C
  locale; only whether the comparison gives 0 matters. \<^verbatim>\<open>hash_table_free\<close> only releases memory.
\<close>

unbundle bit_operations_syntax

section \<open>Strings\<close>

definition char_tolower :: "char \<Rightarrow> char" where
  "char_tolower c = (let n = of_char c :: nat in if 65 \<le> n \<and> n \<le> 90 then char_of (n + 32) else c)"

fun strcmp :: "string \<Rightarrow> string \<Rightarrow> int" where
  "strcmp [] [] = 0"
| "strcmp [] (d # ds) = - int (of_char d) - 1"
| "strcmp (c # cs) [] = int (of_char c) + 1"
| "strcmp (c # cs) (d # ds) = (if c = d then strcmp cs ds else int (of_char c) - int (of_char d))"

definition strcasecmp :: "string \<Rightarrow> string \<Rightarrow> int" where
  "strcasecmp s t = strcmp (map char_tolower s) (map char_tolower t)"

section \<open>State\<close>

record hash_table_elem_t =
  k_key :: string
  k_data :: ptr

record hash_table_t =
  t_count :: nat
  t_size :: nat
  t_case_sensitive :: bool
  t_find_op :: bool
  t_find_index :: nat
  t_find_elem :: "nat option"
  t_vector :: "hash_table_elem_t list list"
  t_compare :: "string \<Rightarrow> string \<Rightarrow> int"

definition HASH_TABLE_MIN_INITIAL_SIZE :: nat where "HASH_TABLE_MIN_INITIAL_SIZE = 5"

section \<open>Operations\<close>

definition hash_table_elem_create :: "string \<Rightarrow> ptr \<Rightarrow> hash_table_elem_t" where
  "hash_table_elem_create key data = \<lparr>k_key = key, k_data = data\<rparr>"

fun hash_loop :: "bool \<Rightarrow> string \<Rightarrow> 32 word \<Rightarrow> 32 word" where
  "hash_loop case_sensitive [] hash = hash"
| "hash_loop case_sensitive (c # key) hash =
     (let c = (if \<not> case_sensitive then char_tolower c else c)
      in hash_loop case_sensitive key ((hash XOR word_of_nat (of_char c)) * 16777619))"

definition hash_table_get_index :: "hash_table_t \<Rightarrow> string \<Rightarrow> nat" where
  "hash_table_get_index t key = unat (hash_loop (t_case_sensitive t) key 5381) mod t_size t"

text \<open>The inner loop of \<^verbatim>\<open>hash_table_grow\<close> empties one old collision list.\<close>

fun grow_chain :: "hash_table_t \<Rightarrow> hash_table_elem_t list \<Rightarrow> hash_table_elem_t list list \<Rightarrow>
    hash_table_elem_t list list option" where
  "grow_chain t [] v = Some v"
| "grow_chain t (elem # rest) v = do {
     let index = hash_table_get_index t (k_key elem);
     chain \<leftarrow> rd v index;
     v \<leftarrow> wr v index (elem # chain);
     grow_chain t rest v }"

definition hash_table_grow :: "hash_table_t \<Rightarrow> hash_table_t option" where
  "hash_table_grow t = do {
     let old_size = t_size t;
     let old_vector = t_vector t;
     let t = t\<lparr>t_size := old_size * 2\<rparr>;
     v \<leftarrow> for_loop 0 old_size (\<lambda>i v. do { chain \<leftarrow> rd old_vector i; grow_chain t chain v })
            (replicate (old_size * 2) []);
     Some (t\<lparr>t_vector := v\<rparr>) }"

text \<open>The position of the first element of a collision list whose key compares equal.\<close>

fun chain_find :: "(string \<Rightarrow> string \<Rightarrow> int) \<Rightarrow> string \<Rightarrow> hash_table_elem_t list \<Rightarrow> nat option" where
  "chain_find cmp key [] = None"
| "chain_find cmp key (elem # rest) =
     (if cmp key (k_key elem) = 0 then Some 0 else map_option Suc (chain_find cmp key rest))"

definition hash_table_find :: "hash_table_t \<Rightarrow> string \<Rightarrow> (nat \<times> nat option) option" where
  "hash_table_find t key = do {
     let index = hash_table_get_index t key;
     chain \<leftarrow> rd (t_vector t) index;
     Some (index, chain_find (t_compare t) key chain) }"

definition hash_table_create :: "int \<Rightarrow> bool \<Rightarrow> hash_table_t" where
  "hash_table_create sz case_sensitive =
     (let n = (if sz < int HASH_TABLE_MIN_INITIAL_SIZE then HASH_TABLE_MIN_INITIAL_SIZE else nat sz) in
      \<lparr>t_count = 0, t_size = n, t_case_sensitive = case_sensitive, t_find_op = False, t_find_index = 0,
       t_find_elem = None, t_vector = replicate n [],
       t_compare = (if case_sensitive then strcmp else strcasecmp)\<rparr>)"

definition hash_table_clear :: "hash_table_t \<Rightarrow> hash_table_t option" where
  "hash_table_clear t = do {
     let t = t\<lparr>t_find_op := False\<rparr>;
     v \<leftarrow> for_loop 0 (t_size t) (\<lambda>i v. wr v i []) (t_vector t);
     Some (t\<lparr>t_vector := v, t_count := 0\<rparr>) }"

definition hash_table_insert :: "string \<Rightarrow> ptr \<Rightarrow> hash_table_t \<Rightarrow> (hash_table_t \<times> int) option" where
  "hash_table_insert key data t = do {
     let t = t\<lparr>t_find_op := False\<rparr>;
     if data = NULL then Some (t, 0)
     else do {
       t \<leftarrow> if t_count t \<ge> t_size t div 2 then hash_table_grow t else Some t;
       (index, elem) \<leftarrow> hash_table_find t key;
       if elem \<noteq> None then Some (t, 0)
       else do {
         chain \<leftarrow> rd (t_vector t) index;
         v \<leftarrow> wr (t_vector t) index (hash_table_elem_create key data # chain);
         let t = t\<lparr>t_vector := v, t_count := t_count t + 1\<rparr>;
         c_assert (t_count t < t_size t);
         Some (t, 1) } } }"

definition hash_table_set :: "string \<Rightarrow> ptr \<Rightarrow> hash_table_t \<Rightarrow> (hash_table_t \<times> int) option" where
  "hash_table_set key data t =
     (if data = NULL then Some (t, 0)
      else do {
        (index, elem) \<leftarrow> hash_table_find t key;
        case elem of
          None \<Rightarrow> Some (t, 0)
        | Some p \<Rightarrow> do {
            chain \<leftarrow> rd (t_vector t) index;
            e \<leftarrow> rd chain p;
            chain \<leftarrow> wr chain p (e\<lparr>k_data := data\<rparr>);
            v \<leftarrow> wr (t_vector t) index chain;
            Some (t\<lparr>t_vector := v\<rparr>, 1) } })"

definition hash_table_count :: "hash_table_t \<Rightarrow> nat" where
  "hash_table_count t = t_count t"

definition hash_table_get :: "string \<Rightarrow> hash_table_t \<Rightarrow> ptr option" where
  "hash_table_get key t = do {
     (index, elem) \<leftarrow> hash_table_find t key;
     case elem of
       None \<Rightarrow> Some NULL
     | Some p \<Rightarrow> do { chain \<leftarrow> rd (t_vector t) index; e \<leftarrow> rd chain p; Some (k_data e) } }"

text \<open>
  The search and the unlinking of \<^verbatim>\<open>hash_table_remove\<close>: \<^verbatim>\<open>elem_prev\<close> is the part of the list
  that the loop has passed. The comparison has its arguments the other way round here.
\<close>

fun chain_remove :: "(string \<Rightarrow> string \<Rightarrow> int) \<Rightarrow> string \<Rightarrow> hash_table_elem_t list \<Rightarrow>
    (hash_table_elem_t \<times> hash_table_elem_t list) option" where
  "chain_remove cmp key [] = None"
| "chain_remove cmp key (elem # rest) =
     (if cmp (k_key elem) key = 0 then Some (elem, rest)
      else map_option (\<lambda>(e, rest). (e, elem # rest)) (chain_remove cmp key rest))"

definition hash_table_remove :: "string \<Rightarrow> hash_table_t \<Rightarrow> (hash_table_t \<times> ptr) option" where
  "hash_table_remove key t = do {
     let t = t\<lparr>t_find_op := False\<rparr>;
     let index = hash_table_get_index t key;
     chain \<leftarrow> rd (t_vector t) index;
     case chain_remove (t_compare t) key chain of
       None \<Rightarrow> Some (t, NULL)
     | Some (e, rest) \<Rightarrow> do {
         v \<leftarrow> wr (t_vector t) index rest;
         c_assert (t_count t > 0);
         Some (t\<lparr>t_vector := v, t_count := t_count t - 1\<rparr>, k_data e) } }"

section \<open>Enumeration\<close>

text \<open>The loop over the vector from \<open>index\<close> on, to the first element of a nonempty list.\<close>

function first_from :: "hash_table_t \<Rightarrow> nat \<Rightarrow> (nat \<times> hash_table_elem_t) option option" where
  "first_from t index =
     (if index < t_size t then do {
        chain \<leftarrow> rd (t_vector t) index;
        case chain of [] \<Rightarrow> first_from t (Suc index) | e # _ \<Rightarrow> Some (Some (index, e)) }
      else Some None)"
  by pat_completeness auto
termination by (relation "measure (\<lambda>(t, i). t_size t - i)") auto

declare first_from.simps [simp del]

text \<open>The result is the table, the key (\<open>None\<close> for \<^verbatim>\<open>NULL\<close>) and the data.\<close>

definition hash_table_find_first :: "hash_table_t \<Rightarrow> (hash_table_t \<times> string option \<times> ptr) option" where
  "hash_table_find_first t = do {
     let t = t\<lparr>t_find_op := True, t_find_index := 0, t_find_elem := None\<rparr>;
     if t_count t = 0 then Some (t, None, NULL)
     else do {
       r \<leftarrow> first_from t 0;
       case r of
         None \<Rightarrow> None
       | Some (index, e) \<Rightarrow> Some (t\<lparr>t_find_index := index, t_find_elem := Some 0\<rparr>, Some (k_key e), k_data e) } }"

definition hash_table_find_next :: "hash_table_t \<Rightarrow> ptr \<Rightarrow> (hash_table_t \<times> string option \<times> ptr) option" where
  "hash_table_find_next t data =
     (if \<not> t_find_op t then None
      else case t_find_elem t of
        None \<Rightarrow> Some (t, None, data)
      | Some p \<Rightarrow> do {
          chain \<leftarrow> rd (t_vector t) (t_find_index t);
          if Suc p < length chain
          then Some (t\<lparr>t_find_elem := Some (Suc p)\<rparr>, Some (k_key (chain ! Suc p)), k_data (chain ! Suc p))
          else do {
            r \<leftarrow> first_from t (t_find_index t + 1);
            case r of
              None \<Rightarrow> Some (t\<lparr>t_find_index := 0, t_find_elem := None\<rparr>, None, NULL)
            | Some (index, e) \<Rightarrow> Some (t\<lparr>t_find_index := index, t_find_elem := Some 0\<rparr>, Some (k_key e), k_data e) } })"

text \<open>
  The macro \<^verbatim>\<open>HASH_TABLE_FOR_EACH\<close> with a body that collects the pairs it is given; \<open>n\<close> bounds
  the number of rounds.
\<close>

fun for_each_loop :: "nat \<Rightarrow> hash_table_t \<Rightarrow> string option \<Rightarrow> ptr \<Rightarrow> (string \<times> ptr) list option" where
  "for_each_loop 0 t key data = None"
| "for_each_loop (Suc n) t key data =
     (case key of
        None \<Rightarrow> Some []
      | Some k \<Rightarrow> do {
          (t, key', data') \<leftarrow> hash_table_find_next t data;
          rest \<leftarrow> for_each_loop n t key' data';
          Some ((k, data) # rest) })"

definition HASH_TABLE_FOR_EACH :: "nat \<Rightarrow> hash_table_t \<Rightarrow> (string \<times> ptr) list option" where
  "HASH_TABLE_FOR_EACH n t = do { (t, key, data) \<leftarrow> hash_table_find_first t; for_each_loop n t key data }"

section \<open>Invariant and abstraction\<close>

text \<open>
  Two strings are the same key when they agree after \<open>norm\<close>. The table stands for the map from
  normalised keys to data; \<open>entries\<close> lists it in the order of the enumeration.
\<close>

definition norm :: "bool \<Rightarrow> string \<Rightarrow> string" where
  "norm cs k = (if cs then k else map char_tolower k)"

definition elems :: "hash_table_t \<Rightarrow> hash_table_elem_t list" where
  "elems t = concat (t_vector t)"

definition nkey :: "bool \<Rightarrow> hash_table_elem_t \<Rightarrow> string" where
  "nkey cs e = norm cs (k_key e)"

definition table_map :: "hash_table_t \<Rightarrow> string \<rightharpoonup> ptr" where
  "table_map t = map_of (map (\<lambda>e. (nkey (t_case_sensitive t) e, k_data e)) (elems t))"

definition bucket_ok :: "(string \<Rightarrow> nat) \<Rightarrow> hash_table_elem_t list list \<Rightarrow> bool" where
  "bucket_ok idx v \<longleftrightarrow> (\<forall>i < length v. \<forall>e \<in> set (v ! i). idx (k_key e) = i)"

definition table_inv :: "hash_table_t \<Rightarrow> bool" where
  "table_inv t \<longleftrightarrow> HASH_TABLE_MIN_INITIAL_SIZE \<le> t_size t \<and> length (t_vector t) = t_size t \<and>
     t_count t = length (elems t) \<and> 2 * t_count t \<le> t_size t + 1 \<and>
     bucket_ok (hash_table_get_index t) (t_vector t) \<and>
     distinct (map (nkey (t_case_sensitive t)) (elems t)) \<and> (\<forall>e \<in> set (elems t). k_data e \<noteq> NULL) \<and>
     t_compare t = (if t_case_sensitive t then strcmp else strcasecmp)"

lemma strcmp_0 [simp]: "strcmp s t = 0 \<longleftrightarrow> s = t"
  by (induction s t rule: strcmp.induct) (auto simp: of_char_eq_iff)

lemma compare_0:
  assumes "table_inv t"
  shows "t_compare t k k' = 0 \<longleftrightarrow> norm (t_case_sensitive t) k = norm (t_case_sensitive t) k'"
  using assms by (auto simp: table_inv_def norm_def strcasecmp_def)

lemma hash_loop_norm: "hash_loop cs k h = hash_loop True (norm cs k) h"
  by (induction cs k h rule: hash_loop.induct) (auto simp: norm_def)

lemma index_norm: "norm (t_case_sensitive t) k = norm (t_case_sensitive t) k' \<Longrightarrow>
    hash_table_get_index t k = hash_table_get_index t k'"
  using hash_loop_norm [of "t_case_sensitive t" k] hash_loop_norm [of "t_case_sensitive t" k']
  by (simp add: hash_table_get_index_def)

lemma index_less: "0 < t_size t \<Longrightarrow> hash_table_get_index t k < t_size t"
  by (simp add: hash_table_get_index_def)

lemma chain_find_None: "chain_find cmp key es = None \<longleftrightarrow> (\<forall>e \<in> set es. cmp key (k_key e) \<noteq> 0)"
  by (induction es) auto

lemma chain_find_Some: "chain_find cmp key es = Some p \<Longrightarrow> p < length es \<and> cmp key (k_key (es ! p)) = 0"
  by (induction es arbitrary: p) (auto split: if_splits)

lemma concat_split: "i < length v \<Longrightarrow> concat v = concat (take i v) @ v ! i @ concat (drop (Suc i) v)"
  by (metis concat.simps(2) concat_append id_take_nth_drop)

lemma concat_update:
  "i < length v \<Longrightarrow> concat (v[i := c]) = concat (take i v) @ c @ concat (drop (Suc i) v)"
  by (simp add: upd_conv_take_nth_drop)

lemma mset_concat_update:
  "i < length v \<Longrightarrow> mset (concat (v[i := c])) + mset (v ! i) = mset (concat v) + mset c"
  using concat_split [of i v] concat_update [of i v c] by (simp add: ac_simps)

lemma concat_replace:
  assumes "i < length v" "mset (v ! i) = X + M" "mset c = Y + M"
  shows "mset (concat (v[i := c])) + X = mset (concat v) + Y"
proof -
  have "(mset (concat (v[i := c])) + X) + M = (mset (concat v) + Y) + M"
    using mset_concat_update [OF assms(1), of c] assms(2,3) by (simp add: ac_simps)
  then show ?thesis by (rule add_right_imp_eq)
qed

text \<open>Rearranging the elements does not change the map.\<close>

lemma map_of_perm:
  assumes "mset xs = mset ys" "distinct (map fst xs)"
  shows "map_of xs = map_of ys"
  using assms by (metis distinct_map map_of_inject_set mset_eq_setD mset_eq_imp_distinct_iff mset_map)

lemma distinct_perm: "mset xs = mset ys \<Longrightarrow> distinct (map f xs) \<longleftrightarrow> distinct (map f ys)"
  by (metis mset_map mset_eq_imp_distinct_iff)

lemma table_map_Some:
  assumes "table_inv t" "e \<in> set (elems t)" "norm (t_case_sensitive t) k = nkey (t_case_sensitive t) e"
  shows "table_map t (norm (t_case_sensitive t) k) = Some (k_data e)"
  unfolding table_map_def assms(3)
  using assms(1,2) by (intro map_of_is_SomeI) (auto simp: table_inv_def comp_def)

lemma table_map_None:
  "table_map t (norm (t_case_sensitive t) k) = None \<longleftrightarrow>
   (\<forall>e \<in> set (elems t). norm (t_case_sensitive t) k \<noteq> nkey (t_case_sensitive t) e)"
  by (auto simp: table_map_def map_of_eq_None_iff image_image)

lemma table_invD:
  assumes "table_inv t"
  shows "0 < t_size t" "length (t_vector t) = t_size t" "t_count t = length (elems t)"
    "bucket_ok (hash_table_get_index t) (t_vector t)" "distinct (map (nkey (t_case_sensitive t)) (elems t))"
    "\<forall>e \<in> set (elems t). k_data e \<noteq> NULL"
  using assms by (auto simp: table_inv_def HASH_TABLE_MIN_INITIAL_SIZE_def)

text \<open>
  The search: the element with the key, if there is one, is in the collision list the key hashes
  to.
\<close>

lemma hash_table_find_run:
  assumes "table_inv t"
  obtains (absent) "hash_table_find t k = Some (hash_table_get_index t k, None)"
      "table_map t (norm (t_case_sensitive t) k) = None"
  | (present) p where "hash_table_find t k = Some (hash_table_get_index t k, Some p)"
      "p < length (t_vector t ! hash_table_get_index t k)"
      "norm (t_case_sensitive t) k = nkey (t_case_sensitive t) (t_vector t ! hash_table_get_index t k ! p)"
      "table_map t (norm (t_case_sensitive t) k) = Some (k_data (t_vector t ! hash_table_get_index t k ! p))"
proof -
  note inv = table_invD [OF assms]
  let ?i = "hash_table_get_index t k" and ?cs = "t_case_sensitive t"
  let ?c = "t_vector t ! ?i"
  have i: "?i < length (t_vector t)" using index_less inv by simp
  have f: "hash_table_find t k = Some (?i, chain_find (t_compare t) k ?c)" using i by (simp add: hash_table_find_def Let_def)
  have sub: "set ?c \<subseteq> set (elems t)" using nth_mem [OF i] by (auto simp: elems_def)
  show ?thesis
  proof (cases "chain_find (t_compare t) k ?c")
    case None
    have "table_map t (norm ?cs k) = None" unfolding table_map_None
    proof (intro ballI notI)
      fix e assume e: "e \<in> set (elems t)" "norm ?cs k = nkey ?cs e"
      then obtain c where "c \<in> set (t_vector t)" "e \<in> set c" by (auto simp: elems_def)
      then obtain j where j: "j < length (t_vector t)" "e \<in> set (t_vector t ! j)" by (metis in_set_conv_nth)
      then have "hash_table_get_index t (k_key e) = j" using inv(4) by (auto simp: bucket_ok_def)
      moreover have "hash_table_get_index t (k_key e) = ?i" using index_norm [of t k "k_key e"] e(2) by (simp add: nkey_def)
      ultimately have "e \<in> set ?c" using j by simp
      then show False using None e(2) compare_0 [OF assms] by (auto simp: chain_find_None nkey_def)
    qed
    then show ?thesis using absent f None by simp
  next
    case (Some p)
    then have p: "p < length ?c" "t_compare t k (k_key (?c ! p)) = 0" using chain_find_Some by blast+
    then have n: "norm ?cs k = nkey ?cs (?c ! p)" using compare_0 [OF assms] by (simp add: nkey_def)
    have "?c ! p \<in> set (elems t)" using p(1) sub by (meson nth_mem subsetD)
    then have "table_map t (norm ?cs k) = Some (k_data (?c ! p))" using table_map_Some [OF assms _ n] by blast
    then show ?thesis using present f Some p(1) n by simp
  qed
qed

section \<open>Growing\<close>

lemma bucket_ok_update:
  assumes "bucket_ok idx v" "i < length v" "\<forall>e \<in> set c. idx (k_key e) = i"
  shows "bucket_ok idx (v[i := c])"
  using assms by (auto simp: bucket_ok_def nth_list_update)

lemma grow_chain_run:
  assumes "length v = t_size t" "0 < t_size t" "bucket_ok (hash_table_get_index t) v"
  shows "\<exists>v'. grow_chain t es v = Some v' \<and> length v' = t_size t \<and> bucket_ok (hash_table_get_index t) v' \<and>
    mset (concat v') = mset (concat v) + mset es"
  using assms
proof (induction es arbitrary: v)
  case (Cons e es)
  let ?i = "hash_table_get_index t (k_key e)"
  let ?v = "v[?i := e # v ! ?i]"
  have i: "?i < length v" using Cons.prems index_less by simp
  have "bucket_ok (hash_table_get_index t) ?v"
    using Cons.prems(3) i by (intro bucket_ok_update) (auto simp: bucket_ok_def)
  then obtain v' where "grow_chain t es ?v = Some v'" "length v' = t_size t" "bucket_ok (hash_table_get_index t) v'"
      "mset (concat v') = mset (concat ?v) + mset es"
    using Cons.IH [of ?v] Cons.prems by auto
  moreover have "mset (concat ?v) = add_mset e (mset (concat v))"
    using mset_concat_update [OF i, of "e # v ! ?i"] by simp
  ultimately show ?case using i by (simp add: Let_def)
qed simp

lemma hash_table_grow_run:
  assumes "table_inv t"
  shows "\<exists>v. hash_table_grow t = Some (t\<lparr>t_size := t_size t * 2, t_vector := v\<rparr>) \<and>
    table_inv (t\<lparr>t_size := t_size t * 2, t_vector := v\<rparr>) \<and>
    table_map (t\<lparr>t_size := t_size t * 2, t_vector := v\<rparr>) = table_map t"
proof -
  note inv = table_invD [OF assms]
  let ?t = "t\<lparr>t_size := t_size t * 2\<rparr>"
  let ?I = "\<lambda>i v. length v = t_size t * 2 \<and> bucket_ok (hash_table_get_index ?t) v \<and>
    mset (concat v) = mset (concat (take i (t_vector t)))"
  let ?f = "\<lambda>i v. do { chain \<leftarrow> rd (t_vector t) i; grow_chain ?t chain v }"
  have "\<exists>v. for_loop 0 (t_size t) ?f (replicate (t_size t * 2) []) = Some v \<and> ?I (t_size t) v"
  proof (rule for_loop_rule [where I = ?I])
    fix i v assume i: "i < t_size t" and I: "?I i v"
    then obtain v' where "grow_chain ?t (t_vector t ! i) v = Some v'" "length v' = t_size t * 2"
        "bucket_ok (hash_table_get_index ?t) v'" "mset (concat v') = mset (concat v) + mset (t_vector t ! i)"
      using grow_chain_run [of v ?t "t_vector t ! i"] inv by auto
    then show "\<exists>v'. ?f i v = Some v' \<and> ?I (Suc i) v'" using i I inv by (simp add: take_Suc_conv_app_nth)
  qed (auto simp: bucket_ok_def)
  then obtain v where v: "for_loop 0 (t_size t) ?f (replicate (t_size t * 2) []) = Some v" "?I (t_size t) v" by blast
  let ?t' = "t\<lparr>t_size := t_size t * 2, t_vector := v\<rparr>"
  have idx: "hash_table_get_index ?t' = hash_table_get_index ?t" by (simp add: hash_table_get_index_def fun_eq_iff)
  have ms: "mset (elems ?t') = mset (elems t)" using v(2) inv by (simp add: elems_def)
  have dist: "distinct (map (nkey (t_case_sensitive t)) (elems ?t'))" using inv(5) distinct_perm [OF ms] by blast
  have "hash_table_grow t = Some ?t'" using v(1) by (simp add: hash_table_grow_def Let_def)
  moreover have "table_inv ?t'"
    using assms v(2) ms idx mset_eq_setD [OF ms] mset_eq_length [OF ms] dist
    by (simp add: table_inv_def)
  moreover have "table_map ?t' = table_map t"
    unfolding table_map_def using ms dist by (intro map_of_perm) (auto simp: comp_def)
  ultimately show ?thesis by blast
qed

section \<open>The operations on maps\<close>

lemma table_inv_find_op [simp]:
  "table_inv (t\<lparr>t_find_op := b\<rparr>) = table_inv t" "table_map (t\<lparr>t_find_op := b\<rparr>) = table_map t"
  by (simp_all add: table_inv_def table_map_def elems_def hash_table_get_index_def bucket_ok_def)

text \<open>Replacing one collision list.\<close>

lemma table_map_update:
  assumes "table_inv t" "i < t_size t" "distinct (map (nkey (t_case_sensitive t)) (concat ((t_vector t)[i := c])))"
    and "mset (concat ((t_vector t)[i := c])) = add_mset e (mset rest)"
  shows "table_map (t\<lparr>t_vector := (t_vector t)[i := c], t_count := n\<rparr>) =
    (map_of (map (\<lambda>e. (nkey (t_case_sensitive t) e, k_data e)) rest))(nkey (t_case_sensitive t) e \<mapsto> k_data e)"
proof -
  let ?f = "\<lambda>e. (nkey (t_case_sensitive t) e, k_data e)"
  have "map_of (map ?f (concat ((t_vector t)[i := c]))) = map_of (map ?f (e # rest))"
    using assms(3,4) by (intro map_of_perm) (auto simp: comp_def)
  then show ?thesis by (simp add: table_map_def elems_def)
qed

lemma hash_table_insert_run:
  assumes "table_inv t"
  shows "\<exists>t'. hash_table_insert k d t = Some (t', of_bool (d \<noteq> NULL \<and> table_map t (norm (t_case_sensitive t) k) = None)) \<and>
    table_inv t' \<and> t_case_sensitive t' = t_case_sensitive t \<and>
    table_map t' = (if d \<noteq> NULL \<and> table_map t (norm (t_case_sensitive t) k) = None
                    then (table_map t)(norm (t_case_sensitive t) k \<mapsto> d) else table_map t)"
proof (cases "d = NULL")
  case True
  then show ?thesis using assms by (simp add: hash_table_insert_def Let_def)
next
  case False
  let ?tf = "t\<lparr>t_find_op := False\<rparr>" and ?cs = "t_case_sensitive t"
  have inv0: "table_inv ?tf" using assms by simp
  obtain t1 where t1: "(if t_count t \<ge> t_size t div 2 then hash_table_grow ?tf else Some ?tf) = Some t1" "table_inv t1"
      "table_map t1 = table_map t" "t_case_sensitive t1 = ?cs" "t_count t1 = t_count t" "t_count t < t_size t1 div 2"
  proof (cases "t_count t \<ge> t_size t div 2")
    case True
    obtain v where v: "hash_table_grow ?tf = Some (?tf\<lparr>t_size := t_size t * 2, t_vector := v\<rparr>)"
        "table_inv (?tf\<lparr>t_size := t_size t * 2, t_vector := v\<rparr>)"
        "table_map (?tf\<lparr>t_size := t_size t * 2, t_vector := v\<rparr>) = table_map t"
      using hash_table_grow_run [OF inv0] by auto
    have "2 * t_count t \<le> t_size t + 1" "5 \<le> t_size t"
      using assms by (auto simp: table_inv_def HASH_TABLE_MIN_INITIAL_SIZE_def)
    then have "t_count t < t_size t" by linarith
    then show ?thesis using that [of "?tf\<lparr>t_size := t_size t * 2, t_vector := v\<rparr>"] v True by simp
  next
    case False
    then show ?thesis using that [of ?tf] inv0 by simp
  qed
  note inv = table_invD [OF t1(2)]
  let ?i = "hash_table_get_index t1 k"
  let ?e = "hash_table_elem_create k d"
  show ?thesis
    using t1(2)
  proof (cases rule: hash_table_find_run [of t1 k])
    case absent
    let ?c = "?e # t_vector t1 ! ?i"
    let ?v = "(t_vector t1)[?i := ?c]"
    let ?t = "t1\<lparr>t_vector := ?v, t_count := t_count t1 + 1\<rparr>"
    have i: "?i < length (t_vector t1)" "?i < t_size t1" using inv index_less by simp_all
    have ms: "mset (concat ?v) = add_mset ?e (mset (elems t1))"
      using mset_concat_update [OF i(1), of ?c] by (simp add: elems_def)
    have ek: "nkey ?cs ?e = norm ?cs k" "k_data ?e = d" "k_key ?e = k"
      by (simp_all add: nkey_def hash_table_elem_create_def)
    have st: "set (concat ?v) = insert ?e (set (elems t1))" using ms by (metis set_mset_mset set_mset_add_mset_insert)
    have "nkey ?cs ?e \<notin> nkey ?cs ` set (elems t1)"
      using absent(2) table_map_None [of t1 k] unfolding ek t1(4) by auto
    then have dist: "distinct (map (nkey ?cs) (concat ?v))"
      using inv(5) distinct_perm [of "concat ?v" "?e # elems t1" "nkey ?cs"] ms t1(4) by simp
    have idx: "hash_table_get_index ?t = hash_table_get_index t1" by (simp add: hash_table_get_index_def fun_eq_iff)
    have lt: "Suc (t_count t) < t_size t1" using t1(6) inv(1) by linarith
    have "bucket_ok (hash_table_get_index t1) ?v"
      using inv(4) i ek(3) by (intro bucket_ok_update) (auto simp: bucket_ok_def)
    then have "table_inv ?t" using t1(2,4,5,6) ms st dist idx ek(2) False mset_eq_length [OF ms [folded mset.simps(2)]] i
      by (auto simp: table_inv_def elems_def)
    moreover have "hash_table_insert k d t = Some (?t, 1)"
      using False t1(1,5) lt absent(1) i by (simp add: hash_table_insert_def Let_def)
    moreover have "table_map ?t = (table_map t)(norm ?cs k \<mapsto> d)"
      using table_map_update [OF t1(2) i(2), of ?c ?e "elems t1"] dist ms ek t1(3,4) by (simp add: table_map_def)
    ultimately show ?thesis using False absent(2) t1(3,4) by simp
  next
    case (present p)
    have "hash_table_insert k d t = Some (t1, 0)"
      using False t1(1) present(1) by (simp add: hash_table_insert_def Let_def)
    then show ?thesis using False present(4) t1 by simp
  qed
qed

text \<open>The table as the map of one element added to the map of the others.\<close>

lemma table_map_pick:
  assumes "table_inv t" "mset (elems t) = add_mset e (mset rest)"
  shows "table_map t = (map_of (map (\<lambda>e. (nkey (t_case_sensitive t) e, k_data e)) rest))
      (nkey (t_case_sensitive t) e \<mapsto> k_data e)"
    "nkey (t_case_sensitive t) e \<notin> nkey (t_case_sensitive t) ` set rest"
proof -
  note inv = table_invD [OF assms(1)]
  let ?f = "\<lambda>e. (nkey (t_case_sensitive t) e, k_data e)"
  have ms: "mset (elems t) = mset (e # rest)" using assms(2) by simp
  have "map_of (map ?f (elems t)) = map_of (map ?f (e # rest))"
    using inv(5) ms by (intro map_of_perm) (auto simp: comp_def)
  then show "table_map t = (map_of (map ?f rest))(nkey (t_case_sensitive t) e \<mapsto> k_data e)"
    by (simp add: table_map_def)
  have "distinct (map (nkey (t_case_sensitive t)) (e # rest))" using inv(5) distinct_perm [OF ms] by blast
  then show "nkey (t_case_sensitive t) e \<notin> nkey (t_case_sensitive t) ` set rest" by simp
qed

lemma hash_table_get_run:
  assumes "table_inv t"
  shows "hash_table_get k t = Some (case table_map t (norm (t_case_sensitive t) k) of None \<Rightarrow> NULL | Some d \<Rightarrow> d)"
  using assms
proof (cases rule: hash_table_find_run [of t k])
  case (present p)
  then show ?thesis using index_less [of t k] table_invD [OF assms] by (simp add: hash_table_get_def)
qed (simp add: hash_table_get_def)

lemma table_inv_cong:
  assumes "table_inv t" "length v = t_size t" "bucket_ok (hash_table_get_index t) v" "n = length (concat v)"
    "2 * n \<le> t_size t + 1" "distinct (map (nkey (t_case_sensitive t)) (concat v))" "\<forall>e \<in> set (concat v). k_data e \<noteq> NULL"
  shows "table_inv (t\<lparr>t_vector := v, t_count := n\<rparr>)"
proof -
  have "hash_table_get_index (t\<lparr>t_vector := v, t_count := n\<rparr>) = hash_table_get_index t"
    by (simp add: hash_table_get_index_def fun_eq_iff)
  then show ?thesis using assms by (simp add: table_inv_def elems_def)
qed

lemma hash_table_set_run:
  assumes "table_inv t"
  shows "\<exists>t'. hash_table_set k d t = Some (t', of_bool (d \<noteq> NULL \<and> table_map t (norm (t_case_sensitive t) k) \<noteq> None)) \<and>
    table_inv t' \<and> t_case_sensitive t' = t_case_sensitive t \<and>
    table_map t' = (if d \<noteq> NULL \<and> table_map t (norm (t_case_sensitive t) k) \<noteq> None
                    then (table_map t)(norm (t_case_sensitive t) k \<mapsto> d) else table_map t)"
proof (cases "d = NULL")
  case True
  then show ?thesis using assms by (simp add: hash_table_set_def)
next
  case False
  note inv = table_invD [OF assms]
  let ?i = "hash_table_get_index t k" and ?cs = "t_case_sensitive t"
  have i: "?i < length (t_vector t)" "?i < t_size t" using inv index_less by simp_all
  show ?thesis
    using assms
  proof (cases rule: hash_table_find_run [of t k])
    case absent
    then show ?thesis using False assms by (simp add: hash_table_set_def)
  next
    case (present p)
    let ?c = "t_vector t ! ?i"
    let ?e = "?c ! p"
    let ?e' = "?e\<lparr>k_data := d\<rparr>"
    let ?c' = "?c[p := ?e']"
    let ?v = "(t_vector t)[?i := ?c']"
    have mem: "?e \<in> set (elems t)" using nth_mem [OF present(2)] nth_mem [OF i(1)] unfolding elems_def by auto
    then have "\<exists>rest. mset (elems t) = add_mset ?e (mset rest) \<and> set rest \<subseteq> set (elems t)"
      by (intro exI [of _ "remove1 ?e (elems t)"]) (simp add: set_remove1_subset)
    then obtain rest where ms: "mset (elems t) = add_mset ?e (mset rest)" and rest: "set rest \<subseteq> set (elems t)" by blast
    have "mset ?c = {#?e#} + (mset ?c - {#?e#})" using present(2) by simp
    moreover have "mset ?c' = {#?e'#} + (mset ?c - {#?e#})" using present(2) by (simp add: mset_update)
    ultimately have "mset (concat ?v) + {#?e#} = mset (elems t) + {#?e'#}"
      using concat_replace [OF i(1)] unfolding elems_def by blast
    also have "\<dots> = (add_mset ?e' (mset rest)) + {#?e#}" unfolding ms by simp
    finally have ms': "mset (concat ?v) = add_mset ?e' (mset rest)" by (rule add_right_imp_eq)
    have k: "nkey ?cs ?e' = norm ?cs k" "nkey ?cs ?e = norm ?cs k" using present(3) by (simp_all add: nkey_def)
    have pick: "table_map t = (map_of (map (\<lambda>e. (nkey ?cs e, k_data e)) rest))(norm ?cs k \<mapsto> k_data ?e)"
      "norm ?cs k \<notin> nkey ?cs ` set rest"
      using table_map_pick [OF assms ms] k by simp_all
    have "distinct (map (nkey ?cs) (?e # rest))" using inv(5) distinct_perm [of "elems t" "?e # rest" "nkey ?cs"] ms by simp
    then have dist: "distinct (map (nkey ?cs) (concat ?v))"
      using distinct_perm [of "concat ?v" "?e' # rest" "nkey ?cs"] ms' k by simp
    have st: "set (concat ?v) = insert ?e' (set rest)" using ms' by (metis set_mset_mset set_mset_add_mset_insert)
    have "\<forall>e \<in> set ?c'. hash_table_get_index t (k_key e) = ?i"
      using inv(4) i(1) present(2) set_update_subset_insert [of ?c p ?e'] nth_mem [OF present(2)]
      by (fastforce simp: bucket_ok_def)
    then have bk: "bucket_ok (hash_table_get_index t) ?v" using inv(4) i(1) by (intro bucket_ok_update) auto
    let ?t = "t\<lparr>t_vector := ?v, t_count := t_count t\<rparr>"
    have "table_inv ?t"
      using inv bk dist assms ms ms' st False rest mset_eq_length [of "elems t" "?e # rest"]
        mset_eq_length [of "concat ?v" "?e' # rest"]
      by (intro table_inv_cong) (auto simp: table_inv_def)
    moreover have "hash_table_set k d t = Some (?t, 1)"
      using False present(1,2) i by (simp add: hash_table_set_def)
    moreover have "table_map ?t = (table_map t)(norm ?cs k \<mapsto> d)"
      using table_map_update [OF assms i(2) dist ms', of "t_count t"] pick(1) k(1) by simp
    ultimately show ?thesis using False present(4) by simp
  qed
qed

lemma chain_remove_None:
  assumes "\<And>s. cmp s key = 0 \<longleftrightarrow> cmp key s = 0"
  shows "chain_remove cmp key es = None \<longleftrightarrow> chain_find cmp key es = None"
proof (induction es)
  case (Cons e es)
  then show ?case using assms [of "k_key e"] by (cases "cmp (k_key e) key = 0") simp_all
qed simp

lemma chain_remove_Some:
  "chain_remove cmp key es = Some (e, rest) \<Longrightarrow>
   mset es = add_mset e (mset rest) \<and> set rest \<subseteq> set es \<and> cmp (k_key e) key = 0"
  by (induction es arbitrary: rest) (auto split: if_splits)

lemma hash_table_remove_run:
  assumes "table_inv t"
  shows "\<exists>t'. hash_table_remove k t = Some (t', case table_map t (norm (t_case_sensitive t) k) of None \<Rightarrow> NULL | Some d \<Rightarrow> d) \<and>
    table_inv t' \<and> t_case_sensitive t' = t_case_sensitive t \<and>
    table_map t' = (table_map t)(norm (t_case_sensitive t) k := None)"
proof -
  let ?tf = "t\<lparr>t_find_op := False\<rparr>"
  have inv0: "table_inv ?tf" using assms by simp
  note inv = table_invD [OF assms] and inv0' = table_invD [OF inv0]
  let ?i = "hash_table_get_index ?tf k" and ?cs = "t_case_sensitive t"
  let ?c = "t_vector t ! ?i"
  have i: "?i < length (t_vector t)" "?i < t_size t" using inv0' index_less [of ?tf k] by simp_all
  have sym: "t_compare t s k = 0 \<longleftrightarrow> t_compare t k s = 0" for s using compare_0 [OF assms] by metis
  show ?thesis
    using inv0
  proof (cases rule: hash_table_find_run [of ?tf k])
    case absent
    have "chain_find (t_compare t) k ?c = None" using absent(1) i by (simp add: hash_table_find_def Let_def)
    then have "chain_remove (t_compare t) k ?c = None" using chain_remove_None [of "t_compare t" k, OF sym] by blast
    then have "hash_table_remove k t = Some (?tf, NULL)" using i by (simp add: hash_table_remove_def Let_def)
    then show ?thesis using absent(2) inv0 by (auto simp: fun_upd_idem)
  next
    case (present p)
    have "chain_find (t_compare t) k ?c = Some p" using present(1) i by (simp add: hash_table_find_def Let_def)
    then obtain e rest where r: "chain_remove (t_compare t) k ?c = Some (e, rest)"
      using chain_remove_None [of "t_compare t" k, OF sym, of ?c] by (cases "chain_remove (t_compare t) k ?c") auto
    then have c: "mset ?c = add_mset e (mset rest)" "set rest \<subseteq> set ?c" "norm ?cs k = nkey ?cs e"
      using chain_remove_Some [OF r] compare_0 [OF assms] by (auto simp: nkey_def)
    let ?v = "(t_vector t)[?i := rest]"
    let ?t = "?tf\<lparr>t_vector := ?v, t_count := t_count t - 1\<rparr>"
    have "mset (concat ?v) + {#e#} = mset (concat (t_vector t)) + {#}"
      by (rule concat_replace [OF i(1)]) (use c(1) in simp_all)
    then have ms: "mset (elems ?tf) = add_mset e (mset (concat ?v))" by (simp add: elems_def)
    have pick: "table_map t = (map_of (map (\<lambda>e. (nkey ?cs e, k_data e)) (concat ?v)))(norm ?cs k \<mapsto> k_data e)"
      "norm ?cs k \<notin> nkey ?cs ` set (concat ?v)"
      using table_map_pick [OF inv0 ms] c(3) by simp_all
    have "distinct (map (nkey ?cs) (e # concat ?v))"
      using inv0'(5) distinct_perm [of "elems ?tf" "e # concat ?v" "nkey ?cs"] ms by simp
    then have dist: "distinct (map (nkey ?cs) (concat ?v))" by simp
    have len: "t_count t = Suc (length (concat ?v))" using mset_eq_length [of "elems ?tf" "e # concat ?v"] ms inv0'(3) by simp
    have sub: "set (concat ?v) \<subseteq> set (elems ?tf)" using ms by (metis set_mset_mset set_mset_add_mset_insert subset_insertI)
    have bk: "bucket_ok (hash_table_get_index ?tf) ?v"
      using inv0'(4) i(1) c(2) by (intro bucket_ok_update) (auto simp: bucket_ok_def)
    have "table_inv ?t" using inv0 inv0' bk dist len sub
      by (intro table_inv_cong [OF inv0]) (auto simp: table_inv_def)
    moreover have "hash_table_remove k t = Some (?t, k_data e)"
      using r i len by (simp add: hash_table_remove_def Let_def)
    moreover have "table_map ?t = (table_map t)(norm ?cs k := None)"
    proof -
      have "map_of (map (\<lambda>e. (nkey ?cs e, k_data e)) (concat ?v)) (norm ?cs k) = None"
        using pick(2) by (auto simp: map_of_eq_None_iff)
      then show ?thesis unfolding pick(1) by (simp add: table_map_def elems_def fun_upd_idem)
    qed
    ultimately show ?thesis using pick(1) by simp
  qed
qed

lemma hash_table_clear_run:
  assumes "table_inv t"
  shows "\<exists>t'. hash_table_clear t = Some t' \<and> table_inv t' \<and> t_case_sensitive t' = t_case_sensitive t \<and> table_map t' = Map.empty"
proof -
  note inv = table_invD [OF assms]
  have "for_loop 0 (t_size t) (\<lambda>i v. wr v i []) (t_vector t) = Some (replicate (t_size t) [] @ drop (t_size t) (t_vector t))"
  proof (rule for_loop_eq [where g = "\<lambda>i. replicate i [] @ drop i (t_vector t)"])
    fix i assume i: "i < t_size t"
    have "drop i (t_vector t) = t_vector t ! i # drop (Suc i) (t_vector t)" using i inv by (simp add: Cons_nth_drop_Suc)
    then show "wr (replicate i [] @ drop i (t_vector t)) i [] = Some (replicate (Suc i) [] @ drop (Suc i) (t_vector t))"
      by (simp add: wr_def list_update_append replicate_append_same)
  qed simp_all
  then have r: "hash_table_clear t = Some (t\<lparr>t_find_op := False, t_vector := replicate (t_size t) [], t_count := 0\<rparr>)"
    using inv by (simp add: hash_table_clear_def Let_def)
  have "table_inv ((t\<lparr>t_find_op := False\<rparr>)\<lparr>t_vector := replicate (t_size t) [], t_count := 0\<rparr>)"
    using assms by (intro table_inv_cong) (auto simp: bucket_ok_def)
  then show ?thesis using r by (auto simp: table_map_def elems_def)
qed

lemma hash_table_create_inv:
  "table_inv (hash_table_create sz cs)" "table_map (hash_table_create sz cs) = Map.empty"
  "t_case_sensitive (hash_table_create sz cs) = cs"
  by (auto simp: hash_table_create_def table_inv_def table_map_def elems_def bucket_ok_def Let_def HASH_TABLE_MIN_INITIAL_SIZE_def)

section \<open>Sequences of calls\<close>

datatype table_op = HInsert string ptr | HSet string ptr | HGet string | HRemove string | HCount | HClear

fun table_call :: "table_op \<Rightarrow> hash_table_t \<Rightarrow> (hash_table_t \<times> int) option" where
  "table_call (HInsert k d) t = hash_table_insert k d t"
| "table_call (HSet k d) t = hash_table_set k d t"
| "table_call (HGet k) t = map_option (\<lambda>d. (t, int d)) (hash_table_get k t)"
| "table_call (HRemove k) t = map_option (\<lambda>(t, d). (t, int d)) (hash_table_remove k t)"
| "table_call HCount t = Some (t, int (hash_table_count t))"
| "table_call HClear t = map_option (\<lambda>t. (t, 0)) (hash_table_clear t)"

text \<open>What the calls mean for a map; \<open>cs\<close> says whether case matters.\<close>

fun table_spec :: "bool \<Rightarrow> table_op \<Rightarrow> (string \<rightharpoonup> ptr) \<Rightarrow> (string \<rightharpoonup> ptr) \<times> int" where
  "table_spec cs (HInsert k d) m =
     (if d = NULL \<or> m (norm cs k) \<noteq> None then (m, 0) else (m(norm cs k \<mapsto> d), 1))"
| "table_spec cs (HSet k d) m =
     (if d = NULL \<or> m (norm cs k) = None then (m, 0) else (m(norm cs k \<mapsto> d), 1))"
| "table_spec cs (HGet k) m = (m, case m (norm cs k) of None \<Rightarrow> 0 | Some d \<Rightarrow> int d)"
| "table_spec cs (HRemove k) m = (m(norm cs k := None), case m (norm cs k) of None \<Rightarrow> 0 | Some d \<Rightarrow> int d)"
| "table_spec cs HCount m = (m, int (card (dom m)))"
| "table_spec cs HClear m = (Map.empty, 0)"

lemma table_count_dom:
  assumes "table_inv t"
  shows "card (dom (table_map t)) = t_count t"
proof -
  note inv = table_invD [OF assms]
  have "dom (table_map t) = set (map (nkey (t_case_sensitive t)) (elems t))"
    by (auto simp: table_map_def dom_map_of_conv_image_fst image_image)
  then show ?thesis using distinct_card [OF inv(5)] inv(3) by simp
qed

interpretation table_adt: adt "\<lambda>t. table_inv t \<and> t_case_sensitive t = cs" table_map table_call "\<lambda>_ _. True" "table_spec cs" for cs
proof
  fix t c assume t: "table_inv t \<and> t_case_sensitive t = cs"
  then have t': "table_inv t" "t_case_sensitive t = cs" by auto
  show "\<exists>s'. table_call c t = Some (s', snd (table_spec cs c (table_map t))) \<and> (table_inv s' \<and> t_case_sensitive s' = cs) \<and>
      table_map s' = fst (table_spec cs c (table_map t))"
  proof (cases c)
    case (HInsert k d)
    then show ?thesis using hash_table_insert_run [OF t'(1), of k d] t'(2) by auto
  next
    case (HSet k d)
    then show ?thesis using hash_table_set_run [OF t'(1), of k d] t'(2) by auto
  next
    case (HGet k)
    then show ?thesis using hash_table_get_run [OF t'(1), of k] t' by (auto split: option.splits)
  next
    case (HRemove k)
    then show ?thesis using hash_table_remove_run [OF t'(1), of k] t'(2) by (auto split: option.splits)
  next
    case HCount
    then show ?thesis using table_count_dom [OF t'(1)] t' by (simp add: hash_table_count_def)
  next
    case HClear
    then show ?thesis using hash_table_clear_run [OF t'(1)] t'(2) by auto
  qed
qed

section \<open>The enumeration\<close>

lemma first_from_run:
  assumes "length (t_vector t) = t_size t"
  shows "i \<le> t_size t \<Longrightarrow>
    (concat (drop i (t_vector t)) = [] \<and> first_from t i = Some None) \<or>
    (\<exists>j e es. i \<le> j \<and> j < t_size t \<and> t_vector t ! j = e # es \<and> first_from t i = Some (Some (j, e)) \<and>
      concat (drop i (t_vector t)) = e # es @ concat (drop (Suc j) (t_vector t)))"
proof (induction "t_size t - i" arbitrary: i)
  case 0
  then show ?case using assms by (subst first_from.simps) simp
next
  case (Suc n)
  then have i: "i < t_size t" by simp
  have d: "drop i (t_vector t) = t_vector t ! i # drop (Suc i) (t_vector t)" using i assms by (simp add: Cons_nth_drop_Suc)
  show ?case
  proof (cases "t_vector t ! i")
    case Nil
    have "first_from t i = first_from t (Suc i)" using i assms Nil by (subst first_from.simps) simp
    moreover have "concat (drop i (t_vector t)) = concat (drop (Suc i) (t_vector t))" using d Nil by simp
    moreover have "n = t_size t - Suc i" "Suc i \<le> t_size t" using Suc.hyps(2) i by simp_all
    ultimately show ?thesis using Suc.hyps(1) [of "Suc i"] Suc_leD by metis
  next
    case (Cons e es)
    have "first_from t i = Some (Some (i, e))" using i assms Cons by (subst first_from.simps) simp
    then show ?thesis using d i Cons by auto
  qed
qed

text \<open>The table while the enumeration stands at element \<open>p\<close> of list \<open>i\<close>, and what is still to come.\<close>

abbreviation at_elem :: "hash_table_t \<Rightarrow> nat \<Rightarrow> nat \<Rightarrow> hash_table_t" where
  "at_elem t i p \<equiv> t\<lparr>t_find_op := True, t_find_index := i, t_find_elem := Some p\<rparr>"

definition to_come :: "hash_table_t \<Rightarrow> nat \<Rightarrow> nat \<Rightarrow> hash_table_elem_t list" where
  "to_come t i p = drop (Suc p) (t_vector t ! i) @ concat (drop (Suc i) (t_vector t))"

lemma first_from_at [simp]: "first_from (t\<lparr>t_find_op := b, t_find_index := i, t_find_elem := p\<rparr>) j = first_from t j"
proof (induction "t_size t - j" arbitrary: j)
  case (Suc n)
  then have "first_from (t\<lparr>t_find_op := b, t_find_index := i, t_find_elem := p\<rparr>) (Suc j) = first_from t (Suc j)" by simp
  then show ?case by (subst (1 2) first_from.simps) simp
qed (subst (1 2) first_from.simps, simp)

lemma find_next_run:
  assumes "length (t_vector t) = t_size t" "i < t_size t" "p < length (t_vector t ! i)"
  shows "(to_come t i p = [] \<and> (\<exists>t'. hash_table_find_next (at_elem t i p) d = Some (t', None, NULL))) \<or>
    (\<exists>e es i' p'. to_come t i p = e # es \<and> hash_table_find_next (at_elem t i p) d = Some (at_elem t i' p', Some (k_key e), k_data e) \<and>
      i' < t_size t \<and> p' < length (t_vector t ! i') \<and> to_come t i' p' = es)"
proof (cases "Suc p < length (t_vector t ! i)")
  case True
  then have "drop (Suc p) (t_vector t ! i) = t_vector t ! i ! Suc p # drop (Suc (Suc p)) (t_vector t ! i)"
    by (simp add: Cons_nth_drop_Suc)
  then have "to_come t i p = t_vector t ! i ! Suc p # to_come t i (Suc p)" by (simp add: to_come_def)
  moreover have "hash_table_find_next (at_elem t i p) d =
      Some (at_elem t i (Suc p), Some (k_key (t_vector t ! i ! Suc p)), k_data (t_vector t ! i ! Suc p))"
    using True assms by (simp add: hash_table_find_next_def)
  ultimately show ?thesis using True assms(2) by blast
next
  case False
  then have tc: "to_come t i p = concat (drop (Suc i) (t_vector t))" by (simp add: to_come_def)
  have s: "Suc i \<le> t_size t" using assms(2) by simp
  from first_from_run [OF assms(1) s] show ?thesis
  proof (elim disjE conjE exE)
    assume "concat (drop (Suc i) (t_vector t)) = []" "first_from t (Suc i) = Some None"
    then show ?thesis using False tc assms by (simp add: hash_table_find_next_def)
  next
    fix j e es
    assume j: "Suc i \<le> j" "j < t_size t" "t_vector t ! j = e # es" "first_from t (Suc i) = Some (Some (j, e))"
      "concat (drop (Suc i) (t_vector t)) = e # es @ concat (drop (Suc j) (t_vector t))"
    then have "hash_table_find_next (at_elem t i p) d = Some (at_elem t j 0, Some (k_key e), k_data e)"
      using False assms by (simp add: hash_table_find_next_def)
    moreover have "to_come t j 0 = es @ concat (drop (Suc j) (t_vector t))" using j(3) by (simp add: to_come_def)
    moreover have "to_come t i p = e # to_come t j 0" using tc j(5) calculation(2) by simp
    moreover have "0 < length (t_vector t ! j)" using j(3) by simp
    ultimately show ?thesis using j(2) by blast
  qed
qed

lemma for_each_loop_run:
  assumes "length (t_vector t) = t_size t"
  shows "i < t_size t \<Longrightarrow> p < length (t_vector t ! i) \<Longrightarrow> length (to_come t i p) + 1 < n \<Longrightarrow>
    for_each_loop n (at_elem t i p) (Some k) d = Some ((k, d) # map (\<lambda>e. (k_key e, k_data e)) (to_come t i p))"
proof (induction n arbitrary: i p k d)
  case (Suc n)
  from find_next_run [OF assms Suc.prems(1,2), of d] show ?case
  proof (elim disjE conjE exE)
    fix t' assume tc: "to_come t i p = []" and r: "hash_table_find_next (at_elem t i p) d = Some (t', None, NULL)"
    obtain m where "n = Suc m" using Suc.prems(3) by (cases n) auto
    then show ?thesis using tc r by simp
  next
    fix e es i' p'
    assume tc: "to_come t i p = e # es" and r: "hash_table_find_next (at_elem t i p) d = Some (at_elem t i' p', Some (k_key e), k_data e)"
      and v: "i' < t_size t" "p' < length (t_vector t ! i')" "to_come t i' p' = es"
    have "for_each_loop n (at_elem t i' p') (Some (k_key e)) (k_data e) =
        Some ((k_key e, k_data e) # map (\<lambda>e. (k_key e, k_data e)) es)"
      using Suc.IH [OF v(1,2), of "k_key e" "k_data e"] v(3) Suc.prems(3) tc by simp
    then show ?thesis using tc r by simp
  qed
qed simp

lemma for_each_run:
  assumes "table_inv t" "t_count t < n"
  shows "HASH_TABLE_FOR_EACH n t = Some (map (\<lambda>e. (k_key e, k_data e)) (elems t))"
proof -
  note inv = table_invD [OF assms(1)]
  obtain m where m: "n = Suc m" using assms(2) by (cases n) auto
  show ?thesis
  proof (cases "t_count t = 0")
    case True
    then show ?thesis using inv(3) m by (simp add: HASH_TABLE_FOR_EACH_def hash_table_find_first_def Let_def)
  next
    case False
    then have "concat (drop 0 (t_vector t)) \<noteq> []" using inv(3) by (simp add: elems_def)
    then obtain j e es where j: "j < t_size t" "t_vector t ! j = e # es" "first_from t 0 = Some (Some (j, e))"
        "concat (t_vector t) = e # es @ concat (drop (Suc j) (t_vector t))"
      using first_from_run [OF inv(2), of 0] by auto
    then have tc: "to_come t j 0 = es @ concat (drop (Suc j) (t_vector t))" "elems t = e # to_come t j 0"
      by (simp_all add: to_come_def elems_def)
    have "hash_table_find_first t = Some (at_elem t j 0, Some (k_key e), k_data e)"
      using False j(3) by (simp add: hash_table_find_first_def Let_def)
    then show ?thesis using for_each_loop_run [OF inv(2) j(1), of 0 n "k_key e" "k_data e"] j(2) tc(2) inv(3) assms(2)
      by (simp add: HASH_TABLE_FOR_EACH_def)
  qed
qed

section \<open>Properties\<close>

text \<open>
  C10: the hash table is a map. From a new table of any size, with or without regard to case, every
  sequence of inserts, sets, lookups, removals, counts and clears returns, passes the assertions of
  the code, and gives the results of the same calls on a map from keys to data; a key is compared
  after folding its case when the table ignores case. Growing the table is invisible.
\<close>

theorem hash_table_refines_map:
  "\<exists>t. run_calls table_call cs (hash_table_create sz sensitive) = Some (t, snd (run_spec (table_spec sensitive) cs Map.empty)) \<and>
     table_inv t \<and> table_map t = fst (run_spec (table_spec sensitive) cs Map.empty)"
  using table_adt.calls_refine [of "hash_table_create sz sensitive" sensitive cs] hash_table_create_inv [of sz sensitive]
  by auto

text \<open>
  the enumeration \<^verbatim>\<open>HASH_TABLE_FOR_EACH\<close> ends and visits every element exactly once: the
  pairs it hands to its body have distinct keys and make up the map of the table.
\<close>

theorem for_each_visits_all:
  assumes "table_inv t" "t_count t < n"
  shows "\<exists>es. HASH_TABLE_FOR_EACH n t = Some es \<and> length es = hash_table_count t \<and>
    distinct (map (\<lambda>(k, d). norm (t_case_sensitive t) k) es) \<and>
    table_map t = map_of (map (\<lambda>(k, d). (norm (t_case_sensitive t) k, d)) es)"
proof (intro exI conjI)
  note inv = table_invD [OF assms(1)]
  show "HASH_TABLE_FOR_EACH n t = Some (map (\<lambda>e. (k_key e, k_data e)) (elems t))" by (rule for_each_run [OF assms])
  show "length (map (\<lambda>e. (k_key e, k_data e)) (elems t)) = hash_table_count t"
    using inv(3) by (simp add: hash_table_count_def)
  show "distinct (map (\<lambda>(k, d). norm (t_case_sensitive t) k) (map (\<lambda>e. (k_key e, k_data e)) (elems t)))"
    using inv(5) by (simp add: comp_def nkey_def [abs_def])
  show "table_map t = map_of (map (\<lambda>(k, d). (norm (t_case_sensitive t) k, d)) (map (\<lambda>e. (k_key e, k_data e)) (elems t)))"
    by (simp add: table_map_def comp_def nkey_def)
qed

theorem for_each_visits_all_witness:
  "\<exists>t es. hash_table_insert ''Key'' 7 (hash_table_create 0 False) = Some (t, 1) \<and> HASH_TABLE_FOR_EACH 9 t = Some es \<and>
     length es = hash_table_count t"
proof -
  obtain t where t: "hash_table_insert ''Key'' 7 (hash_table_create 0 False) = Some (t, 1)" "table_inv t"
      "table_map t = [norm False ''Key'' \<mapsto> 7]"
    using hash_table_insert_run [OF hash_table_create_inv(1), of "''Key''" 7 0 False] hash_table_create_inv(2,3) by auto
  then have "t_count t < 9" using table_count_dom [OF t(2)] by simp
  from for_each_visits_all [OF t(2) this] t(1) show ?thesis by blast
qed

end
