(* ===== verification/UtilLinkedList.thy ===== *)
theory UtilLinkedList
  imports Interfaces QuickSort
begin

text \<open>
  The doubly linked list with a cursor of \<^verbatim>\<open>lib/util/linked-list.c\<close>, and its iterators. The
  elements are nodes in a store \<open>ll_nodes\<close> from addresses to nodes; following a null, freed or
  foreign pointer is \<^term>\<open>None\<close>. \<^verbatim>\<open>xcalloc\<close> hands out the addresses from \<open>ll_brk\<close> on, so a new
  node never has the address of an old one; addresses are only compared, and no result depends on
  their order. The fields of \<^verbatim>\<open>struct linked_list_t\<close> are the fields of the record with the
  prefix \<open>ll_\<close>. The version number counts the changes of the list.
\<close>

section \<open>State\<close>

datatype linked_list_error_t = LL_OK | LL_BOUNDS | LL_EMPTY | LL_NOT_FOUND

record linked_list_elem_t =
  n_prev :: ptr
  n_next :: ptr
  n_data :: ptr

record linked_list_t =
  ll_count :: nat
  ll_error :: linked_list_error_t
  ll_head :: ptr
  ll_tail :: ptr
  ll_current :: ptr
  ll_index :: nat
  ll_version :: nat
  ll_nodes :: "ptr \<rightharpoonup> linked_list_elem_t"
  ll_brk :: ptr

text \<open>Storing into a field of a node.\<close>

definition set_next :: "ptr \<Rightarrow> ptr \<Rightarrow> linked_list_t \<Rightarrow> linked_list_t option" where
  "set_next p v l = do { n \<leftarrow> ll_nodes l p; Some (l\<lparr>ll_nodes := (ll_nodes l)(p \<mapsto> n\<lparr>n_next := v\<rparr>)\<rparr>) }"

definition set_prev :: "ptr \<Rightarrow> ptr \<Rightarrow> linked_list_t \<Rightarrow> linked_list_t option" where
  "set_prev p v l = do { n \<leftarrow> ll_nodes l p; Some (l\<lparr>ll_nodes := (ll_nodes l)(p \<mapsto> n\<lparr>n_prev := v\<rparr>)\<rparr>) }"

section \<open>The cursor\<close>

definition linked_list_create :: linked_list_t where
  "linked_list_create = \<lparr>ll_count = 0, ll_error = LL_OK, ll_head = NULL, ll_tail = NULL, ll_current = NULL, ll_index = 0,
     ll_version = 0, ll_nodes = Map.empty, ll_brk = 1\<rparr>"

definition linked_list_current :: "linked_list_t \<Rightarrow> linked_list_t \<times> nat" where
  "linked_list_current l = (l\<lparr>ll_error := LL_OK\<rparr>, ll_index l)"

definition linked_list_get :: "linked_list_t \<Rightarrow> (linked_list_t \<times> ptr) option" where
  "linked_list_get l =
     (if ll_index l = ll_count l then Some (l\<lparr>ll_error := LL_BOUNDS\<rparr>, NULL)
      else do { n \<leftarrow> ll_nodes l (ll_current l); Some (l\<lparr>ll_error := LL_OK\<rparr>, n_data n) })"

definition linked_list_next :: "linked_list_t \<Rightarrow> linked_list_t option" where
  "linked_list_next l =
     (if ll_index l = ll_count l then Some (l\<lparr>ll_error := LL_BOUNDS\<rparr>)
      else do {
        n \<leftarrow> ll_nodes l (ll_current l);
        Some (l\<lparr>ll_error := LL_OK, ll_index := ll_index l + 1, ll_current := n_next n\<rparr>) })"

text \<open>The step back that four functions share: \<^verbatim>\<open>current ? current->prev : tail\<close>.\<close>

definition step_back :: "linked_list_t \<Rightarrow> ptr option" where
  "step_back l = (if ll_current l \<noteq> NULL then map_option n_prev (ll_nodes l (ll_current l)) else Some (ll_tail l))"

definition linked_list_prev :: "linked_list_t \<Rightarrow> linked_list_t option" where
  "linked_list_prev l =
     (if ll_index l = 0 then Some (l\<lparr>ll_error := LL_BOUNDS\<rparr>)
      else do { p \<leftarrow> step_back l; Some (l\<lparr>ll_error := LL_OK, ll_index := ll_index l - 1, ll_current := p\<rparr>) })"

definition linked_list_next_circular :: "linked_list_t \<Rightarrow> linked_list_t option" where
  "linked_list_next_circular l =
     (if ll_count l = 0 then Some (l\<lparr>ll_error := LL_EMPTY\<rparr>)
      else if ll_index l \<ge> ll_count l - 1
      then Some (l\<lparr>ll_index := 0, ll_current := ll_head l, ll_error := LL_OK\<rparr>)
      else do {
        n \<leftarrow> ll_nodes l (ll_current l);
        Some (l\<lparr>ll_index := ll_index l + 1, ll_current := n_next n, ll_error := LL_OK\<rparr>) })"

definition linked_list_prev_circular :: "linked_list_t \<Rightarrow> linked_list_t option" where
  "linked_list_prev_circular l =
     (if ll_count l = 0 then Some (l\<lparr>ll_error := LL_EMPTY\<rparr>)
      else if ll_index l = 0
      then Some (l\<lparr>ll_index := ll_count l - 1, ll_current := ll_tail l, ll_error := LL_OK\<rparr>)
      else do { p \<leftarrow> step_back l; Some (l\<lparr>ll_index := ll_index l - 1, ll_current := p, ll_error := LL_OK\<rparr>) })"

definition linked_list_head :: "linked_list_t \<Rightarrow> linked_list_t" where
  "linked_list_head l = (if ll_count l = 0 then l\<lparr>ll_error := LL_EMPTY\<rparr>
     else l\<lparr>ll_error := LL_OK, ll_index := 0, ll_current := ll_head l\<rparr>)"

definition linked_list_tail :: "linked_list_t \<Rightarrow> linked_list_t" where
  "linked_list_tail l = (if ll_count l = 0 then l\<lparr>ll_error := LL_EMPTY\<rparr>
     else l\<lparr>ll_index := ll_count l - 1, ll_current := ll_tail l, ll_error := LL_OK\<rparr>)"

definition linked_list_out :: "linked_list_t \<Rightarrow> linked_list_t" where
  "linked_list_out l = l\<lparr>ll_error := LL_OK, ll_index := ll_count l, ll_current := NULL\<rparr>"

function goto_up :: "nat \<Rightarrow> linked_list_t \<Rightarrow> linked_list_t option" where
  "goto_up index l =
     (if ll_index l < index then do {
        n \<leftarrow> ll_nodes l (ll_current l);
        goto_up index (l\<lparr>ll_index := ll_index l + 1, ll_current := n_next n\<rparr>) }
      else Some l)"
  by pat_completeness auto
termination by (relation "measure (\<lambda>(index, l). index - ll_index l)") auto

function goto_down :: "nat \<Rightarrow> linked_list_t \<Rightarrow> linked_list_t option" where
  "goto_down index l =
     (if ll_index l > index then do {
        p \<leftarrow> step_back l;
        goto_down index (l\<lparr>ll_index := ll_index l - 1, ll_current := p\<rparr>) }
      else Some l)"
  by pat_completeness auto
termination by (relation "measure (\<lambda>(index, l). ll_index l)") auto

declare goto_up.simps [simp del] goto_down.simps [simp del]

definition linked_list_goto :: "int \<Rightarrow> linked_list_t \<Rightarrow> (linked_list_t \<times> ptr) option" where
  "linked_list_goto index l =
     (if index < 0 \<or> index > int (ll_count l) then Some (l\<lparr>ll_error := LL_BOUNDS\<rparr>, NULL)
      else do {
        l \<leftarrow> goto_up (nat index) (l\<lparr>ll_error := LL_OK\<rparr>);
        l \<leftarrow> goto_down (nat index) l;
        if ll_current l \<noteq> NULL then do { n \<leftarrow> ll_nodes l (ll_current l); Some (l, n_data n) } else Some (l, NULL) })"

partial_function (option) find_loop :: "ptr \<Rightarrow> linked_list_t \<Rightarrow> linked_list_t option" where
  "find_loop data l =
     (if ll_current l = NULL then Some l
      else do {
        n \<leftarrow> ll_nodes l (ll_current l);
        if n_data n = data then Some l
        else find_loop data (l\<lparr>ll_index := ll_index l + 1, ll_current := n_next n\<rparr>) })"

definition linked_list_find :: "ptr \<Rightarrow> linked_list_t \<Rightarrow> (linked_list_t \<times> ptr) option" where
  "linked_list_find data l = do {
     l \<leftarrow> find_loop data (l\<lparr>ll_error := LL_OK, ll_index := 0, ll_current := ll_head l\<rparr>);
     if ll_current l = NULL then Some (l\<lparr>ll_error := LL_NOT_FOUND\<rparr>, NULL) else Some (l, data) }"

definition linked_list_count :: "linked_list_t \<Rightarrow> linked_list_t \<times> nat" where
  "linked_list_count l = (l\<lparr>ll_error := LL_OK\<rparr>, ll_count l)"

definition linked_list_is_end :: "linked_list_t \<Rightarrow> linked_list_t \<times> bool" where
  "linked_list_is_end l = (l\<lparr>ll_error := LL_OK\<rparr>, ll_index l = ll_count l)"

section \<open>Changing the list\<close>

definition linked_list_insert :: "ptr \<Rightarrow> linked_list_t \<Rightarrow> linked_list_t option" where
  "linked_list_insert data l = do {
     let elem = ll_brk l;
     let l = l\<lparr>ll_brk := elem + 1, ll_nodes := (ll_nodes l)(elem \<mapsto> \<lparr>n_prev = NULL, n_next = NULL, n_data = data\<rparr>)\<rparr>;
     l \<leftarrow>
       if ll_count l = 0 then Some (l\<lparr>ll_current := elem, ll_head := elem, ll_tail := elem\<rparr>)
       else if ll_current l = ll_head l then do {
         l \<leftarrow> set_next elem (ll_head l) l;
         l \<leftarrow> set_prev (ll_head l) elem l;
         Some (l\<lparr>ll_head := elem\<rparr>) }
       else if ll_current l = NULL then do {
         l \<leftarrow> set_prev elem (ll_tail l) l;
         l \<leftarrow> set_next (ll_tail l) elem l;
         Some (l\<lparr>ll_tail := elem\<rparr>) }
       else do {
         c \<leftarrow> ll_nodes l (ll_current l);
         l \<leftarrow> set_prev elem (n_prev c) l;
         l \<leftarrow> set_next elem (ll_current l) l;
         l \<leftarrow> set_prev (ll_current l) elem l;
         e \<leftarrow> ll_nodes l elem;
         set_next (n_prev e) elem l };
     Some (l\<lparr>ll_error := LL_OK, ll_count := ll_count l + 1, ll_current := elem, ll_version := ll_version l + 1\<rparr>) }"

definition linked_list_add :: "ptr \<Rightarrow> linked_list_t \<Rightarrow> linked_list_t option" where
  "linked_list_add data l = do {
     l \<leftarrow> linked_list_insert data (linked_list_out l);
     Some (linked_list_out l) }"

definition linked_list_remove :: "linked_list_t \<Rightarrow> (linked_list_t \<times> ptr) option" where
  "linked_list_remove l =
     (if ll_index l = ll_count l then Some (l\<lparr>ll_error := LL_BOUNDS\<rparr>, NULL)
      else do {
        let elem = ll_current l;
        e \<leftarrow> ll_nodes l elem;
        let data = n_data e;
        l \<leftarrow>
          if ll_count l = 1 then Some (l\<lparr>ll_tail := NULL, ll_head := NULL\<rparr>)
          else if elem = ll_head l then do {
            l \<leftarrow> set_prev (n_next e) NULL l;
            Some (l\<lparr>ll_head := n_next e\<rparr>) }
          else if elem = ll_tail l then do {
            l \<leftarrow> set_next (n_prev e) NULL l;
            Some (l\<lparr>ll_tail := n_prev e\<rparr>) }
          else do {
            l \<leftarrow> set_next (n_prev e) (n_next e) l;
            set_prev (n_next e) (n_prev e) l };
        c_assert (ll_count l > 0);
        e \<leftarrow> ll_nodes l elem;
        Some (l\<lparr>ll_error := LL_OK, ll_count := ll_count l - 1, ll_current := n_next e, ll_version := ll_version l + 1,
                ll_nodes := (ll_nodes l)(elem := None)\<rparr>, data) })"

partial_function (option) clear_loop :: "ptr \<Rightarrow> (ptr \<rightharpoonup> linked_list_elem_t) \<Rightarrow> (ptr \<rightharpoonup> linked_list_elem_t) option" where
  "clear_loop elem nodes =
     (if elem = NULL then Some nodes
      else do {
        n \<leftarrow> nodes elem;
        clear_loop (n_next n) (nodes(elem := None)) })"

definition linked_list_clear :: "linked_list_t \<Rightarrow> linked_list_t option" where
  "linked_list_clear l = do {
     nodes \<leftarrow> clear_loop (ll_head l) (ll_nodes l);
     Some (l\<lparr>ll_nodes := nodes, ll_error := LL_OK, ll_index := 0, ll_count := 0, ll_tail := NULL, ll_head := NULL,
             ll_current := NULL, ll_version := ll_version l + 1\<rparr>) }"

section \<open>Sorting\<close>

text \<open>
  The static function \<^verbatim>\<open>sort\<close> is the quicksort of the theory \<^verbatim>\<open>QuickSort\<close> on an array of
  pointers to elements, with the middle element of the segment as pivot. It compares the data of
  the elements it exchanges.
\<close>

definition array_get :: "(ptr \<rightharpoonup> linked_list_elem_t) \<Rightarrow> int \<Rightarrow> ptr list \<Rightarrow> (ptr \<times> ptr) option" where
  "array_get nodes i a = do {
     c_assert (0 \<le> i);
     p \<leftarrow> rd a (nat i);
     n \<leftarrow> nodes p;
     Some (p, n_data n) }"

definition array_swap :: "int \<Rightarrow> int \<Rightarrow> ptr list \<Rightarrow> ptr list option" where
  "array_swap i j a = do {
     c_assert (0 \<le> i \<and> 0 \<le> j);
     tmp \<leftarrow> rd a (nat i);
     x \<leftarrow> rd a (nat j);
     a \<leftarrow> wr a (nat i) x;
     wr a (nat j) tmp }"

definition elem_sort :: "(ptr \<rightharpoonup> linked_list_elem_t) \<Rightarrow> (ptr \<Rightarrow> ptr \<Rightarrow> int) \<Rightarrow> int \<Rightarrow> int \<Rightarrow> ptr list \<Rightarrow> ptr list option" where
  "elem_sort nodes cmp lo hi a =
     qsort (array_get nodes) array_swap (\<lambda>lo hi. (lo + hi) div 2) (\<lambda>x y. cmp (snd x) (snd y)) lo hi a"

definition linked_list_sort :: "(ptr \<Rightarrow> ptr \<Rightarrow> int) \<Rightarrow> linked_list_t \<Rightarrow> linked_list_t option" where
  "linked_list_sort cmp l = do {
     let l = l\<lparr>ll_error := LL_OK\<rparr>;
     if ll_count l = 0 then Some l
     else do {
       (a, current) \<leftarrow> for_loop 0 (ll_count l) (\<lambda>i (a, current). do {
          a \<leftarrow> wr a i current;
          n \<leftarrow> ll_nodes l current;
          Some (a, n_next n) }) (replicate (ll_count l) NULL, ll_head l);
       a \<leftarrow> elem_sort (ll_nodes l) cmp 0 (int (ll_count l) - 1) a;
       h \<leftarrow> rd a 0;
       t \<leftarrow> rd a (ll_count l - 1);
       l \<leftarrow> for_loop 0 (ll_count l) (\<lambda>i l. do {
          p \<leftarrow> rd a i;
          v \<leftarrow> if i > 0 then rd a (i - 1) else Some NULL;
          l \<leftarrow> set_prev p v l;
          v \<leftarrow> if i < ll_count l - 1 then rd a (i + 1) else Some NULL;
          set_next p v l }) (l\<lparr>ll_head := h, ll_tail := t\<rparr>);
       Some (l\<lparr>ll_index := 0, ll_current := ll_head l, ll_version := ll_version l + 1\<rparr>) } }"

partial_function (option) sorted_loop ::
    "(ptr \<Rightarrow> ptr \<Rightarrow> int) \<Rightarrow> linked_list_t \<Rightarrow> ptr \<Rightarrow> ptr \<Rightarrow> bool option" where
  "sorted_loop cmp l prev elem =
     (if elem = NULL then Some True
      else do {
        p \<leftarrow> ll_nodes l prev;
        e \<leftarrow> ll_nodes l elem;
        if cmp (n_data p) (n_data e) > 0 then Some False else sorted_loop cmp l elem (n_next e) })"

definition linked_list_sorted :: "(ptr \<Rightarrow> ptr \<Rightarrow> int) \<Rightarrow> linked_list_t \<Rightarrow> (linked_list_t \<times> bool) option" where
  "linked_list_sorted cmp l = do {
     let l = l\<lparr>ll_error := LL_OK\<rparr>;
     if ll_head l = NULL then Some (l, True)
     else do {
       h \<leftarrow> ll_nodes l (ll_head l);
       b \<leftarrow> sorted_loop cmp l (ll_head l) (n_next h);
       Some (l, b) } }"

section \<open>Iterators\<close>

record linked_list_iter_t =
  it_version :: nat
  it_elem :: ptr

definition linked_list_iter_check_version :: "linked_list_t \<Rightarrow> linked_list_iter_t \<Rightarrow> unit option" where
  "linked_list_iter_check_version l it = c_assert (it_version it = ll_version l)"

definition linked_list_iter_create :: "linked_list_t \<Rightarrow> linked_list_iter_t" where
  "linked_list_iter_create l = \<lparr>it_version = ll_version l, it_elem = ll_head l\<rparr>"

definition linked_list_iter_head :: "linked_list_t \<Rightarrow> linked_list_iter_t \<Rightarrow> linked_list_iter_t option" where
  "linked_list_iter_head l it = do {
     _ \<leftarrow> linked_list_iter_check_version l it;
     Some (it\<lparr>it_elem := ll_head l\<rparr>) }"

definition linked_list_iter_next :: "linked_list_t \<Rightarrow> linked_list_iter_t \<Rightarrow> linked_list_iter_t option" where
  "linked_list_iter_next l it = do {
     _ \<leftarrow> linked_list_iter_check_version l it;
     if it_elem it \<noteq> NULL then do { n \<leftarrow> ll_nodes l (it_elem it); Some (it\<lparr>it_elem := n_next n\<rparr>) } else Some it }"

definition linked_list_iter_is_end :: "linked_list_t \<Rightarrow> linked_list_iter_t \<Rightarrow> bool option" where
  "linked_list_iter_is_end l it = do {
     _ \<leftarrow> linked_list_iter_check_version l it;
     Some (it_elem it = NULL) }"

definition linked_list_iter_get :: "linked_list_t \<Rightarrow> linked_list_iter_t \<Rightarrow> ptr option" where
  "linked_list_iter_get l it = do {
     _ \<leftarrow> linked_list_iter_check_version l it;
     if it_elem it \<noteq> NULL then map_option n_data (ll_nodes l (it_elem it)) else Some NULL }"

partial_function (option) iter_find_loop :: "linked_list_t \<Rightarrow> ptr \<Rightarrow> linked_list_iter_t \<Rightarrow> (linked_list_iter_t \<times> bool) option" where
  "iter_find_loop l data it =
     (if it_elem it = NULL then Some (it, False)
      else do {
        n \<leftarrow> ll_nodes l (it_elem it);
        if n_data n = data then Some (it, True) else iter_find_loop l data (it\<lparr>it_elem := n_next n\<rparr>) })"

definition linked_list_iter_find :: "linked_list_t \<Rightarrow> ptr \<Rightarrow> linked_list_iter_t \<Rightarrow> (linked_list_iter_t \<times> bool) option" where
  "linked_list_iter_find l data it = do {
     _ \<leftarrow> linked_list_iter_check_version l it;
     iter_find_loop l data (it\<lparr>it_elem := ll_head l\<rparr>) }"

text \<open>
  The macro \<^verbatim>\<open>LINKED_LIST_ITER_FOR_EACH\<close> with a body that collects the data; \<open>n\<close> bounds the
  number of rounds.
\<close>

fun iter_loop :: "nat \<Rightarrow> linked_list_t \<Rightarrow> linked_list_iter_t \<Rightarrow> ptr list option" where
  "iter_loop 0 l it = None"
| "iter_loop (Suc n) l it = do {
     e \<leftarrow> linked_list_iter_is_end l it;
     if e then Some []
     else do {
       x \<leftarrow> linked_list_iter_get l it;
       it \<leftarrow> linked_list_iter_next l it;
       xs \<leftarrow> iter_loop n l it;
       Some (x # xs) } }"

definition LINKED_LIST_ITER_FOR_EACH :: "nat \<Rightarrow> linked_list_t \<Rightarrow> linked_list_iter_t \<Rightarrow> ptr list option" where
  "LINKED_LIST_ITER_FOR_EACH n l it = do { it \<leftarrow> linked_list_iter_head l it; iter_loop n l it }"

section \<open>Invariant and abstraction\<close>

text \<open>
  \<open>ll_rep l ps xs\<close>: the nodes of the list are at the addresses \<open>ps\<close> and carry the data \<open>xs\<close>; node
  \<open>i\<close> points back to place \<open>i\<close> of \<open>NULL # ps\<close> and on to place \<open>i + 1\<close> of \<open>ps @ [NULL]\<close>; the cursor
  stands at place \<open>index\<close> of \<open>ps @ [NULL]\<close>; nothing else is allocated.
\<close>

definition node_at :: "ptr list \<Rightarrow> ptr list \<Rightarrow> nat \<Rightarrow> linked_list_elem_t" where
  "node_at ps xs i = \<lparr>n_prev = (NULL # ps) ! i, n_next = (ps @ [NULL]) ! Suc i, n_data = xs ! i\<rparr>"

definition chain :: "(ptr \<rightharpoonup> linked_list_elem_t) \<Rightarrow> ptr list \<Rightarrow> ptr list \<Rightarrow> bool" where
  "chain nodes ps xs \<longleftrightarrow> distinct ps \<and> NULL \<notin> set ps \<and> length xs = length ps \<and> dom nodes = set ps \<and>
     (\<forall>i < length ps. nodes (ps ! i) = Some (node_at ps xs i))"

definition ll_rep :: "linked_list_t \<Rightarrow> ptr list \<Rightarrow> ptr list \<Rightarrow> bool" where
  "ll_rep l ps xs \<longleftrightarrow> chain (ll_nodes l) ps xs \<and> 0 < ll_brk l \<and> (\<forall>p \<in> set ps. p < ll_brk l) \<and>
     ll_count l = length ps \<and> ll_head l = (ps @ [NULL]) ! 0 \<and> ll_tail l = (NULL # ps) ! length ps \<and>
     ll_index l \<le> length ps \<and> ll_current l = (ps @ [NULL]) ! ll_index l"

text \<open>Reading the addresses off the store.\<close>

fun walk :: "(ptr \<rightharpoonup> linked_list_elem_t) \<Rightarrow> nat \<Rightarrow> ptr \<Rightarrow> ptr list" where
  "walk nodes 0 p = []"
| "walk nodes (Suc n) p = (case nodes p of None \<Rightarrow> [] | Some e \<Rightarrow> p # walk nodes n (n_next e))"

definition ll_ptrs :: "linked_list_t \<Rightarrow> ptr list" where
  "ll_ptrs l = walk (ll_nodes l) (ll_count l) (ll_head l)"

definition ll_abs :: "linked_list_t \<Rightarrow> ptr list" where
  "ll_abs l = map (\<lambda>p. case ll_nodes l p of None \<Rightarrow> NULL | Some e \<Rightarrow> n_data e) (ll_ptrs l)"

definition ll_inv :: "linked_list_t \<Rightarrow> bool" where
  "ll_inv l \<longleftrightarrow> ll_rep l (ll_ptrs l) (ll_abs l)"

lemma chain_walk:
  assumes "chain nodes ps xs"
  shows "i \<le> length ps \<Longrightarrow> walk nodes (length ps - i) ((ps @ [NULL]) ! i) = drop i ps"
proof (induction "length ps - i" arbitrary: i)
  case (Suc n)
  then have i: "i < length ps" "length ps - i = Suc (length ps - Suc i)" by simp_all
  have "nodes (ps ! i) = Some (node_at ps xs i)" using assms i by (simp add: chain_def)
  moreover have "walk nodes (length ps - Suc i) ((ps @ [NULL]) ! Suc i) = drop (Suc i) ps" using Suc i by simp
  ultimately show ?case using i by (simp add: nth_append node_at_def Cons_nth_drop_Suc)
qed simp

lemma ll_rep_unique:
  assumes "ll_rep l ps xs"
  shows "ll_ptrs l = ps" "ll_abs l = xs"
proof -
  show 1: "ll_ptrs l = ps" using chain_walk [of "ll_nodes l" ps xs 0] assms by (simp add: ll_ptrs_def ll_rep_def)
  show "ll_abs l = xs"
    using assms by (intro nth_equalityI) (auto simp: ll_abs_def 1 ll_rep_def chain_def node_at_def)
qed

lemma ll_inv_rep: "ll_rep l ps xs \<Longrightarrow> ll_inv l"
  using ll_rep_unique [of l ps xs] by (simp add: ll_inv_def)

lemma ll_repD:
  assumes "ll_rep l ps xs"
  shows "chain (ll_nodes l) ps xs" "distinct ps" "NULL \<notin> set ps" "length xs = length ps" "ll_count l = length ps"
    "\<And>i. i < length ps \<Longrightarrow> ll_nodes l (ps ! i) = Some (node_at ps xs i)" "ll_head l = (ps @ [NULL]) ! 0"
    "ll_tail l = (NULL # ps) ! length ps" "ll_index l \<le> length ps" "ll_current l = (ps @ [NULL]) ! ll_index l"
  using assms by (simp_all add: ll_rep_def chain_def)

lemma ll_rep_moved:
  assumes "ll_rep l ps xs" "i \<le> length ps"
  shows "ll_rep (l\<lparr>ll_index := i, ll_current := (ps @ [NULL]) ! i, ll_error := e\<rparr>) ps xs"
  using assms by (simp add: ll_rep_def)

lemma nth_not_NULL: "NULL \<notin> set ps \<Longrightarrow> i < length ps \<Longrightarrow> 0 < ps ! i"
  by (metis gr0I nth_mem)

lemma current_NULL:
  "ll_rep l ps xs \<Longrightarrow> ll_current l = NULL \<longleftrightarrow> ll_index l = length ps"
  using nth_not_NULL [of ps "ll_index l"] by (auto simp: ll_rep_def chain_def nth_append)

text \<open>Reading the current node, and the two moves.\<close>

lemma current_node:
  assumes "ll_rep l ps xs" "ll_index l < length ps"
  shows "ll_nodes l (ll_current l) = Some (node_at ps xs (ll_index l))"
  using assms ll_repD(6,10) [OF assms(1)] by (simp add: nth_append)

lemma step_back_run:
  assumes "ll_rep l ps xs" "0 < ll_index l"
  shows "step_back l = Some ((ps @ [NULL]) ! (ll_index l - 1))"
proof (cases "ll_index l = length ps")
  case True
  then have "ll_current l = NULL" using current_NULL [OF assms(1)] by simp
  then show ?thesis using True assms ll_repD(8) [OF assms(1)] by (simp add: step_back_def nth_append nth_Cons')
next
  case False
  then have i: "ll_index l < length ps" using ll_repD(9) [OF assms(1)] by simp
  then have "ll_current l \<noteq> NULL" using current_NULL [OF assms(1)] by simp
  moreover have "ll_index l - 1 < length ps" using i by simp
  ultimately show ?thesis using current_node [OF assms(1) i] assms(2) by (simp add: step_back_def node_at_def nth_append)
qed

section \<open>Calls\<close>

datatype ll_op = LCurrent | LGet | LNext | LPrev | LNextCircular | LPrevCircular | LHead | LTail | LOut | LGoto int
  | LFind ptr | LCount | LIsEnd | LInsert ptr | LAdd ptr | LRemove | LClear

fun ll_call :: "ll_op \<Rightarrow> linked_list_t \<Rightarrow> (linked_list_t \<times> nat) option" where
  "ll_call LCurrent l = Some (linked_list_current l)"
| "ll_call LGet l = linked_list_get l"
| "ll_call LNext l = map_option (\<lambda>l. (l, 0)) (linked_list_next l)"
| "ll_call LPrev l = map_option (\<lambda>l. (l, 0)) (linked_list_prev l)"
| "ll_call LNextCircular l = map_option (\<lambda>l. (l, 0)) (linked_list_next_circular l)"
| "ll_call LPrevCircular l = map_option (\<lambda>l. (l, 0)) (linked_list_prev_circular l)"
| "ll_call LHead l = Some (linked_list_head l, 0)"
| "ll_call LTail l = Some (linked_list_tail l, 0)"
| "ll_call LOut l = Some (linked_list_out l, 0)"
| "ll_call (LGoto i) l = linked_list_goto i l"
| "ll_call (LFind d) l = linked_list_find d l"
| "ll_call LCount l = Some (linked_list_count l)"
| "ll_call LIsEnd l = Some (map_prod id of_bool (linked_list_is_end l))"
| "ll_call (LInsert d) l = map_option (\<lambda>l. (l, 0)) (linked_list_insert d l)"
| "ll_call (LAdd d) l = map_option (\<lambda>l. (l, 0)) (linked_list_add d l)"
| "ll_call LRemove l = linked_list_remove l"
| "ll_call LClear l = map_option (\<lambda>l. (l, 0)) (linked_list_clear l)"

text \<open>The meaning of the calls for a sequence, a cursor and the error code.\<close>

definition first_place :: "'a \<Rightarrow> 'a list \<Rightarrow> nat" where
  "first_place x xs = length (takeWhile (\<lambda>y. y \<noteq> x) xs)"

fun ll_spec :: "ll_op \<Rightarrow> ptr list \<times> nat \<times> linked_list_error_t \<Rightarrow> (ptr list \<times> nat \<times> linked_list_error_t) \<times> nat" where
  "ll_spec LCurrent (xs, i, e) = ((xs, i, LL_OK), i)"
| "ll_spec LGet (xs, i, e) = (if i = length xs then ((xs, i, LL_BOUNDS), 0) else ((xs, i, LL_OK), xs ! i))"
| "ll_spec LNext (xs, i, e) = (if i = length xs then ((xs, i, LL_BOUNDS), 0) else ((xs, i + 1, LL_OK), 0))"
| "ll_spec LPrev (xs, i, e) = (if i = 0 then ((xs, i, LL_BOUNDS), 0) else ((xs, i - 1, LL_OK), 0))"
| "ll_spec LNextCircular (xs, i, e) =
     (if xs = [] then ((xs, i, LL_EMPTY), 0) else ((xs, if i \<ge> length xs - 1 then 0 else i + 1, LL_OK), 0))"
| "ll_spec LPrevCircular (xs, i, e) =
     (if xs = [] then ((xs, i, LL_EMPTY), 0) else ((xs, if i = 0 then length xs - 1 else i - 1, LL_OK), 0))"
| "ll_spec LHead (xs, i, e) = (if xs = [] then ((xs, i, LL_EMPTY), 0) else ((xs, 0, LL_OK), 0))"
| "ll_spec LTail (xs, i, e) = (if xs = [] then ((xs, i, LL_EMPTY), 0) else ((xs, length xs - 1, LL_OK), 0))"
| "ll_spec LOut (xs, i, e) = ((xs, length xs, LL_OK), 0)"
| "ll_spec (LGoto k) (xs, i, e) =
     (if k < 0 \<or> k > int (length xs) then ((xs, i, LL_BOUNDS), 0)
      else ((xs, nat k, LL_OK), if nat k < length xs then xs ! nat k else 0))"
| "ll_spec (LFind d) (xs, i, e) =
     (if d \<in> set xs then ((xs, first_place d xs, LL_OK), d) else ((xs, length xs, LL_NOT_FOUND), 0))"
| "ll_spec LCount (xs, i, e) = ((xs, i, LL_OK), length xs)"
| "ll_spec LIsEnd (xs, i, e) = ((xs, i, LL_OK), of_bool (i = length xs))"
| "ll_spec (LInsert d) (xs, i, e) = ((take i xs @ d # drop i xs, i, LL_OK), 0)"
| "ll_spec (LAdd d) (xs, i, e) = ((xs @ [d], length xs + 1, LL_OK), 0)"
| "ll_spec LRemove (xs, i, e) =
     (if i = length xs then ((xs, i, LL_BOUNDS), 0) else ((take i xs @ drop (Suc i) xs, i, LL_OK), xs ! i))"
| "ll_spec LClear (xs, i, e) = (([], 0, LL_OK), 0)"

definition ll_state :: "linked_list_t \<Rightarrow> ptr list \<times> nat \<times> linked_list_error_t" where
  "ll_state l = (ll_abs l, ll_index l, ll_error l)"

definition ll_ok :: "ll_op \<Rightarrow> linked_list_t \<Rightarrow> bool" where
  "ll_ok c l \<longleftrightarrow> (\<exists>l'. ll_call c l = Some (l', snd (ll_spec c (ll_state l))) \<and> ll_inv l' \<and>
     ll_state l' = fst (ll_spec c (ll_state l)))"

text \<open>The form in which each call is proved.\<close>

lemma ll_okI:
  assumes "ll_rep l ps xs" "ll_call c l = Some (l', r)" "ll_rep l' ps' xs'"
    "ll_spec c (xs, ll_index l, ll_error l) = ((xs', ll_index l', ll_error l'), r)"
  shows "ll_ok c l"
  using assms ll_rep_unique [OF assms(1)] ll_rep_unique [OF assms(3)] ll_inv_rep [OF assms(3)]
  by (auto simp: ll_ok_def ll_state_def)

lemma ll_rep_error [simp]: "ll_rep (l\<lparr>ll_error := e\<rparr>) ps xs = ll_rep l ps xs"
  by (simp add: ll_rep_def)

lemma cursor_calls:
  assumes "ll_rep l ps xs"
  shows "ll_ok LCurrent l" "ll_ok LCount l" "ll_ok LIsEnd l" "ll_ok LHead l" "ll_ok LTail l" "ll_ok LOut l"
proof -
  note rep = ll_repD [OF assms]
  have xs: "xs = [] \<longleftrightarrow> ps = []" using rep(4) by auto
  show "ll_ok LCurrent l" "ll_ok LCount l" "ll_ok LIsEnd l"
    by (rule ll_okI [OF assms, of _ "l\<lparr>ll_error := LL_OK\<rparr>" _ ps xs],
        use rep assms in \<open>simp_all add: linked_list_current_def linked_list_count_def linked_list_is_end_def\<close>)+
  show "ll_ok LOut l"
    by (rule ll_okI [OF assms, of _ "linked_list_out l" _ ps xs])
      (use rep assms in \<open>simp_all add: linked_list_out_def ll_rep_def\<close>)
  show "ll_ok LHead l"
    by (rule ll_okI [OF assms, of _ "linked_list_head l" _ ps xs])
      (use rep assms xs in \<open>auto simp: linked_list_head_def ll_rep_def\<close>)
  show "ll_ok LTail l"
    by (rule ll_okI [OF assms, of _ "linked_list_tail l" _ ps xs])
      (use rep assms xs in \<open>auto simp: linked_list_tail_def ll_rep_def nth_append nth_Cons'\<close>)
qed

lemma move_calls:
  assumes "ll_rep l ps xs"
  shows "ll_ok LGet l" "ll_ok LNext l" "ll_ok LPrev l" "ll_ok LNextCircular l" "ll_ok LPrevCircular l"
proof -
  note rep = ll_repD [OF assms]
  have xs: "xs = [] \<longleftrightarrow> ps = []" using rep(4) by auto
  let ?i = "ll_index l"
  have at_end: "?i = length ps \<or> ?i < length ps" using rep(9) by linarith
  have nx: "n_next (node_at ps xs ?i) = (ps @ [NULL]) ! Suc ?i" "n_data (node_at ps xs ?i) = xs ! ?i"
    by (simp_all add: node_at_def)
  have bk: "0 < ?i \<Longrightarrow> step_back l = Some ((ps @ [NULL]) ! (?i - 1))" using step_back_run [OF assms] .
  have nd: "?i < length ps \<Longrightarrow> ll_nodes l (ll_current l) = Some (node_at ps xs ?i)" using current_node [OF assms] .
  let ?to = "\<lambda>j. l\<lparr>ll_error := LL_OK, ll_index := j, ll_current := (ps @ [NULL]) ! j\<rparr>"
  have to: "j \<le> length ps \<Longrightarrow> ll_rep (?to j) ps xs" for j using assms by (simp add: ll_rep_def)
  have tl: "ps \<noteq> [] \<Longrightarrow> ll_tail l = (ps @ [NULL]) ! (length ps - 1)" using rep(8) by (simp add: nth_append nth_Cons')
  show "ll_ok LGet l"
    by (rule ll_okI [OF assms, of _ "l\<lparr>ll_error := if ?i = length ps then LL_BOUNDS else LL_OK\<rparr>"
          "if ?i = length ps then 0 else xs ! ?i" ps xs])
      (use rep(4,5) assms at_end nd nx in \<open>auto simp: linked_list_get_def\<close>)
  show "ll_ok LNext l"
    by (rule ll_okI [OF assms, of _ "if ?i = length ps then l\<lparr>ll_error := LL_BOUNDS\<rparr> else ?to (Suc ?i)" 0 ps xs])
      (use rep(4,5) assms at_end nd nx to in \<open>auto simp: linked_list_next_def\<close>)
  show "ll_ok LPrev l"
    by (rule ll_okI [OF assms, of _ "if ?i = 0 then l\<lparr>ll_error := LL_BOUNDS\<rparr> else ?to (?i - 1)" 0 ps xs])
      (use rep(4,5,9) assms bk to in \<open>auto simp: linked_list_prev_def\<close>)
  show "ll_ok LNextCircular l"
    by (rule ll_okI [OF assms, of _ "if ps = [] then l\<lparr>ll_error := LL_EMPTY\<rparr> else ?to (if ?i \<ge> length ps - 1 then 0 else Suc ?i)" 0 ps xs])
      (use rep(4,5,7) assms nd nx to xs in \<open>auto simp: linked_list_next_circular_def\<close>)
  show "ll_ok LPrevCircular l"
    by (rule ll_okI [OF assms, of _ "if ps = [] then l\<lparr>ll_error := LL_EMPTY\<rparr> else ?to (if ?i = 0 then length ps - 1 else ?i - 1)" 0 ps xs])
      (use rep(4,5,9) tl assms bk to xs in \<open>auto simp: linked_list_prev_circular_def\<close>)
qed

lemma goto_up_run:
  "ll_rep l ps xs \<Longrightarrow> k \<le> length ps \<Longrightarrow>
   goto_up k l = Some (l\<lparr>ll_index := max k (ll_index l), ll_current := (ps @ [NULL]) ! max k (ll_index l)\<rparr>)"
proof (induction k l rule: goto_up.induct)
  case (1 k l)
  note rep = ll_repD [OF 1(2)]
  show ?case
  proof (cases "ll_index l < k")
    case True
    then have nd: "ll_nodes l (ll_current l) = Some (node_at ps xs (ll_index l))" using current_node [OF 1(2)] 1(3) by simp
    let ?l = "l\<lparr>ll_index := ll_index l + 1, ll_current := (ps @ [NULL]) ! Suc (ll_index l)\<rparr>"
    have "ll_rep ?l ps xs" using 1(2,3) True by (simp add: ll_rep_def)
    moreover have "n_next (node_at ps xs (ll_index l)) = (ps @ [NULL]) ! Suc (ll_index l)" by (simp add: node_at_def)
    ultimately have "goto_up k ?l = Some (?l\<lparr>ll_index := max k (ll_index ?l), ll_current := (ps @ [NULL]) ! max k (ll_index ?l)\<rparr>)"
      using 1(1) [OF True nd] 1(3) by simp
    moreover have "max k (Suc (ll_index l)) = k" "max k (ll_index l) = k" using True by simp_all
    ultimately show ?thesis using True nd by (subst goto_up.simps) (simp add: node_at_def)
  next
    case False
    then have "max k (ll_index l) = ll_index l" by simp
    then show ?thesis using False rep(10) by (subst goto_up.simps) simp
  qed
qed

lemma goto_down_run:
  "ll_rep l ps xs \<Longrightarrow>
   goto_down k l = Some (l\<lparr>ll_index := min k (ll_index l), ll_current := (ps @ [NULL]) ! min k (ll_index l)\<rparr>)"
proof (induction k l rule: goto_down.induct)
  case (1 k l)
  note rep = ll_repD [OF 1(2)]
  show ?case
  proof (cases "k < ll_index l")
    case True
    then have bk: "step_back l = Some ((ps @ [NULL]) ! (ll_index l - 1))" using step_back_run [OF 1(2)] by simp
    let ?l = "l\<lparr>ll_index := ll_index l - 1, ll_current := (ps @ [NULL]) ! (ll_index l - 1)\<rparr>"
    have "ll_rep ?l ps xs" using 1(2) rep(9) unfolding ll_rep_def by simp
    then have "goto_down k ?l = Some (?l\<lparr>ll_index := min k (ll_index ?l), ll_current := (ps @ [NULL]) ! min k (ll_index ?l)\<rparr>)"
      using 1(1) [OF True bk] by simp
    moreover have "min k (ll_index l - 1) = k" "min k (ll_index l) = k" using True by simp_all
    ultimately show ?thesis using True bk by (subst goto_down.simps) simp
  next
    case False
    then have "min k (ll_index l) = ll_index l" by simp
    then show ?thesis using False rep(10) by (subst goto_down.simps) simp
  qed
qed

lemma goto_call:
  assumes "ll_rep l ps xs"
  shows "ll_ok (LGoto k) l"
proof (cases "0 \<le> k \<and> k \<le> int (length ps)")
  case True
  note rep = ll_repD [OF assms]
  let ?k = "nat k"
  let ?l = "l\<lparr>ll_error := LL_OK, ll_index := ?k, ll_current := (ps @ [NULL]) ! ?k\<rparr>"
  have k: "?k \<le> length ps" using True by (simp add: nat_le_iff)
  have r0: "ll_rep (l\<lparr>ll_error := LL_OK\<rparr>) ps xs" using assms by simp
  let ?m = "max ?k (ll_index l)"
  let ?u = "l\<lparr>ll_error := LL_OK, ll_index := ?m, ll_current := (ps @ [NULL]) ! ?m\<rparr>"
  have up: "goto_up ?k (l\<lparr>ll_error := LL_OK\<rparr>) = Some ?u" using goto_up_run [OF r0 k] by simp
  have "ll_rep ?u ps xs" using assms k rep(9) by (simp add: ll_rep_def)
  then have down: "goto_down ?k ?u = Some ?l" using goto_down_run [of ?u ps xs ?k] by simp
  have rl: "ll_rep ?l ps xs" using assms k by (simp add: ll_rep_def)
  have cur: "(if ll_current ?l \<noteq> NULL then do { n \<leftarrow> ll_nodes ?l (ll_current ?l); Some (?l, n_data n) } else Some (?l, NULL)) =
      Some (?l, if ?k < length ps then xs ! ?k else 0)"
    using current_node [OF rl] current_NULL [OF rl] k by (auto simp: node_at_def)
  have "linked_list_goto k l = Some (?l, if ?k < length ps then xs ! ?k else 0)"
    using True rep(5) up down cur by (simp add: linked_list_goto_def)
  then show ?thesis using True rl rep(4) by (intro ll_okI [OF assms, of _ ?l _ ps xs]) auto
next
  case False
  then show ?thesis using assms ll_repD(4,5) [OF assms]
    by (intro ll_okI [OF assms, of _ "l\<lparr>ll_error := LL_BOUNDS\<rparr>" _ ps xs]) (auto simp: linked_list_goto_def)
qed

lemma find_loop_run:
  assumes "ll_rep l ps xs"
  shows "i \<le> length ps \<Longrightarrow> j = i + first_place d (drop i xs) \<Longrightarrow>
    find_loop d (l\<lparr>ll_index := i, ll_current := (ps @ [NULL]) ! i\<rparr>) =
    Some (l\<lparr>ll_index := j, ll_current := (ps @ [NULL]) ! j\<rparr>)"
proof (induction "length ps - i" arbitrary: i)
  case 0
  then have "i = length ps" "j = i" using ll_repD(4) [OF assms] by (simp_all add: first_place_def)
  then show ?case by (subst find_loop.simps) simp
next
  case (Suc n)
  note rep = ll_repD [OF assms]
  have i: "i < length ps" using Suc.hyps(2) by simp
  have d: "drop i xs = xs ! i # drop (Suc i) xs" using i rep(4) by (simp add: Cons_nth_drop_Suc)
  have cur: "(ps @ [NULL]) ! i \<noteq> NULL" "ll_nodes l ((ps @ [NULL]) ! i) = Some (node_at ps xs i)"
    using i nth_not_NULL [OF rep(3) i] rep(6) by (simp_all add: nth_append)
  show ?case
  proof (cases "xs ! i = d")
    case True
    then have "j = i" using Suc.prems(2) d by (simp add: first_place_def)
    then show ?thesis using True cur by (subst find_loop.simps) (simp add: node_at_def)
  next
    case False
    then have "j = Suc i + first_place d (drop (Suc i) xs)" using Suc.prems(2) d by (simp add: first_place_def)
    then have "find_loop d (l\<lparr>ll_index := Suc i, ll_current := (ps @ [NULL]) ! Suc i\<rparr>) =
        Some (l\<lparr>ll_index := j, ll_current := (ps @ [NULL]) ! j\<rparr>)" using Suc i by simp
    then show ?thesis using False cur by (subst find_loop.simps) (simp add: node_at_def)
  qed
qed

lemma first_place_bound: "first_place d xs \<le> length xs" "first_place d xs = length xs \<longleftrightarrow> d \<notin> set xs"
proof -
  show "first_place d xs \<le> length xs" by (simp add: first_place_def length_takeWhile_le)
  show "first_place d xs = length xs \<longleftrightarrow> d \<notin> set xs"
    by (induction xs) (auto simp: first_place_def)
qed

lemma find_call:
  assumes "ll_rep l ps xs"
  shows "ll_ok (LFind d) l"
proof -
  note rep = ll_repD [OF assms]
  let ?j = "first_place d xs"
  let ?l = "l\<lparr>ll_error := LL_OK, ll_index := ?j, ll_current := (ps @ [NULL]) ! ?j\<rparr>"
  have r0: "ll_rep (l\<lparr>ll_error := LL_OK\<rparr>) ps xs" using assms by simp
  have j: "?j \<le> length ps" using first_place_bound(1) [of d xs] rep(4) by simp
  have rl: "ll_rep ?l ps xs" and rl': "ll_rep (l\<lparr>ll_index := ?j, ll_current := (ps @ [NULL]) ! ?j\<rparr>) ps xs"
    using assms j by (simp_all add: ll_rep_def)
  have "find_loop d (l\<lparr>ll_error := LL_OK, ll_index := 0, ll_current := ll_head l\<rparr>) = Some ?l"
    using find_loop_run [OF r0, of 0 ?j d] rep(7) by simp
  then have "linked_list_find d l =
      Some (if d \<in> set xs then (?l, d) else (?l\<lparr>ll_error := LL_NOT_FOUND\<rparr>, NULL))"
    using current_NULL [OF rl] first_place_bound(2) [of d xs] rep(4) by (auto simp: linked_list_find_def)
  then show ?thesis using rl rl' first_place_bound(2) [of d xs]
    by (intro ll_okI [OF assms, of _ "if d \<in> set xs then ?l else ?l\<lparr>ll_error := LL_NOT_FOUND\<rparr>"
          "if d \<in> set xs then d else NULL" ps xs]) (auto split: if_splits)
qed

section \<open>Inserting and removing\<close>

text \<open>
  The store after a node \<open>a\<close> has been linked in at place \<open>i\<close>, and after the node at place \<open>i\<close> has
  been linked out, whatever branch of the code did it.
\<close>

definition linked_in :: "(ptr \<rightharpoonup> linked_list_elem_t) \<Rightarrow> ptr list \<Rightarrow> ptr list \<Rightarrow> nat \<Rightarrow> ptr \<Rightarrow> ptr \<Rightarrow> ptr \<rightharpoonup> linked_list_elem_t" where
  "linked_in nodes ps xs i a d = (\<lambda>p.
     if p = a then Some \<lparr>n_prev = (NULL # ps) ! i, n_next = (ps @ [NULL]) ! i, n_data = d\<rparr>
     else if i < length ps \<and> p = ps ! i then Some ((node_at ps xs i)\<lparr>n_prev := a\<rparr>)
     else if 0 < i \<and> p = ps ! (i - 1) then Some ((node_at ps xs (i - 1))\<lparr>n_next := a\<rparr>)
     else nodes p)"

definition linked_out :: "(ptr \<rightharpoonup> linked_list_elem_t) \<Rightarrow> ptr list \<Rightarrow> ptr list \<Rightarrow> nat \<Rightarrow> ptr \<rightharpoonup> linked_list_elem_t" where
  "linked_out nodes ps xs i = (\<lambda>p.
     if p = ps ! i then None
     else if Suc i < length ps \<and> p = ps ! Suc i then Some ((node_at ps xs (Suc i))\<lparr>n_prev := (NULL # ps) ! i\<rparr>)
     else if 0 < i \<and> p = ps ! (i - 1) then Some ((node_at ps xs (i - 1))\<lparr>n_next := (ps @ [NULL]) ! Suc i\<rparr>)
     else nodes p)"

lemma chain_insert:
  assumes "chain nodes ps xs" "i \<le> length ps" "a \<notin> set ps" "a \<noteq> NULL"
  shows "chain (linked_in nodes ps xs i a d) (take i ps @ a # drop i ps) (take i xs @ d # drop i xs)"
proof -
  let ?ps = "take i ps @ a # drop i ps" and ?xs = "take i xs @ d # drop i xs"
  note ch = assms(1) [unfolded chain_def]
  have len: "length ?ps = Suc (length ps)" "length ?xs = length ?ps" using ch assms(2) by simp_all
  have ps: "?ps ! k = (if k < i then ps ! k else if k = i then a else ps ! (k - 1))"
    and xs: "?xs ! k = (if k < i then xs ! k else if k = i then d else xs ! (k - 1))" if "k < Suc (length ps)" for k
    using that assms(2) ch by (auto simp: nth_append nth_Cons')
  have dist: "distinct ?ps" using ch assms(3) set_take_disj_set_drop_if_distinct [of ps i i]
    by (auto dest: in_set_takeD in_set_dropD)
  have st: "set ?ps = insert a (set ps)" using set_append [of "take i ps" "drop i ps"] by auto
  have ne: "ps ! k \<noteq> a" if "k < length ps" for k using that assms(3) nth_mem by metis
  have eq: "ps ! j = ps ! k \<longleftrightarrow> j = k" if "j < length ps" "k < length ps" for j k
    using that ch nth_eq_iff_index_eq by blast
  have dm: "dom (linked_in nodes ps xs i a d) = set ?ps"
  proof -
    have old: "nodes (ps ! k) \<noteq> None" if "k < length ps" for k using ch that by simp
    have "i - 1 < length ps \<or> i = 0" using assms(2) by linarith
    then have "linked_in nodes ps xs i a d p = None \<longleftrightarrow> p \<noteq> a \<and> nodes p = None" for p
      using old [of i] old [of "i - 1"] by (auto simp: linked_in_def)
    then have "p \<in> dom (linked_in nodes ps xs i a d) \<longleftrightarrow> p = a \<or> p \<in> dom nodes" for p by (auto simp: domIff)
    then show ?thesis using ch unfolding st by blast
  qed
  have nd: "linked_in nodes ps xs i a d (?ps ! k) = Some (node_at ?ps ?xs k)" if k: "k < length ?ps" for k
  proof -
    have k': "k < Suc (length ps)" using k len by simp
    have old: "nodes (ps ! m) = Some (node_at ps xs m)" if "m < length ps" for m using ch that by blast
    have pv: "(NULL # ?ps) ! k = (if k \<le> i then (NULL # ps) ! k else if k = Suc i then a else ps ! (k - 1 - 1))"
      using k' assms(2) ps [of "k - 1"] by (auto simp: nth_Cons')
    have nx: "(?ps @ [NULL]) ! Suc k = (if Suc k < i then ps ! Suc k else if Suc k = i then a else (ps @ [NULL]) ! k)"
      using k' assms(2) ps [of "Suc k"] by (auto simp: nth_append)
    consider "k < i" | "k = i" | "i < k" by linarith
    then show ?thesis
    proof cases
      case 1
      have ik: "i < length ps \<Longrightarrow> ps ! k \<noteq> ps ! i" using eq [of k i] 1 assms(2) by simp
      have ik': "ps ! k = ps ! (i - 1) \<longleftrightarrow> Suc k = i" using eq [of k "i - 1"] 1 assms(2) by auto
      have "linked_in nodes ps xs i a d (ps ! k) =
          Some (if Suc k = i then (node_at ps xs k)\<lparr>n_next := a\<rparr> else node_at ps xs k)"
      proof -
        have k: "k < length ps" using 1 assms(2) by simp
        have no: "\<not> (i < length ps \<and> ps ! k = ps ! i)" "Suc k = i \<Longrightarrow> i - 1 = k" using ik by auto
        show ?thesis unfolding linked_in_def using 1 no ik' ne [OF k] old [OF k] by (cases "Suc k = i") auto
      qed
      moreover have "node_at ?ps ?xs k = (if Suc k = i then (node_at ps xs k)\<lparr>n_next := a\<rparr> else node_at ps xs k)"
        unfolding node_at_def pv nx xs [OF k'] using 1 assms(2) by (simp add: nth_append)
      ultimately show ?thesis using 1 ps [OF k'] by simp
    next
      case 2
      then show ?thesis using ps [OF k'] xs [OF k'] pv nx by (simp add: linked_in_def node_at_def)
    next
      case 3
      then have m: "k - 1 < length ps" "i \<le> k - 1" "k = Suc (k - 1)" using k' by simp_all
      have ik: "ps ! (k - 1) = ps ! i \<longleftrightarrow> k = Suc i" "0 < i \<Longrightarrow> ps ! (k - 1) \<noteq> ps ! (i - 1)"
        using eq [of "k - 1" i] eq [of "k - 1" "i - 1"] m by auto
      have "linked_in nodes ps xs i a d (ps ! (k - 1)) =
          Some (if k = Suc i then (node_at ps xs (k - 1))\<lparr>n_prev := a\<rparr> else node_at ps xs (k - 1))"
        unfolding linked_in_def using ik ne [OF m(1)] old [OF m(1)] m(1,2) by (cases "k = Suc i") auto
      moreover have "node_at ?ps ?xs k = (if k = Suc i then (node_at ps xs (k - 1))\<lparr>n_prev := a\<rparr> else node_at ps xs (k - 1))"
        unfolding node_at_def pv nx xs [OF k'] using 3 m by (auto simp: nth_Cons')
      ultimately show ?thesis using 3 ps [OF k'] by simp
    qed
  qed
  show ?thesis using dist st assms(4) ch len dm nd by (auto simp: chain_def)
qed

lemma chain_remove:
  assumes "chain nodes ps xs" "i < length ps"
  shows "chain (linked_out nodes ps xs i) (take i ps @ drop (Suc i) ps) (take i xs @ drop (Suc i) xs)"
proof -
  let ?ps = "take i ps @ drop (Suc i) ps" and ?xs = "take i xs @ drop (Suc i) xs"
  note ch = assms(1) [unfolded chain_def]
  have split: "ps = take i ps @ ps ! i # drop (Suc i) ps" using assms(2) by (simp add: id_take_nth_drop)
  have "distinct (take i ps @ ps ! i # drop (Suc i) ps)" using ch split by metis
  then have dist: "distinct ?ps" "ps ! i \<notin> set ?ps" by auto
  have st: "set ps = insert (ps ! i) (set ?ps)" using split by (metis Un_insert_right list.simps(15) set_append)
  have len: "length ?ps = length ps - 1" "length ?xs = length ?ps" using ch assms(2) by simp_all
  have ps: "?ps ! k = (if k < i then ps ! k else ps ! Suc k)" and xs: "?xs ! k = (if k < i then xs ! k else xs ! Suc k)"
    if "k < length ps - 1" for k
    using that assms(2) ch by (auto simp: nth_append)
  have eq: "ps ! j = ps ! k \<longleftrightarrow> j = k" if "j < length ps" "k < length ps" for j k
    using that ch nth_eq_iff_index_eq by blast
  have old: "nodes (ps ! k) = Some (node_at ps xs k)" if "k < length ps" for k using ch that by blast
  have dm: "dom (linked_out nodes ps xs i) = set ?ps"
  proof -
    have "linked_out nodes ps xs i p = None \<longleftrightarrow> p = ps ! i \<or> nodes p = None" for p
    proof -
      have "Suc i < length ps \<Longrightarrow> nodes (ps ! Suc i) \<noteq> None" "nodes (ps ! (i - 1)) \<noteq> None"
        using old [of "Suc i"] old [of "i - 1"] assms(2) by simp_all
      then show ?thesis unfolding linked_out_def by (simp split: if_split)
    qed
    then have "p \<in> dom (linked_out nodes ps xs i) \<longleftrightarrow> p \<noteq> ps ! i \<and> p \<in> dom nodes" for p by (auto simp: domIff)
    then have "dom (linked_out nodes ps xs i) = dom nodes - {ps ! i}" by blast
    also have "\<dots> = set ps - {ps ! i}" using ch by simp
    also have "\<dots> = set ?ps" unfolding st using dist(2) by simp
    finally show ?thesis .
  qed
  have nd: "linked_out nodes ps xs i (?ps ! k) = Some (node_at ?ps ?xs k)" if k: "k < length ?ps" for k
  proof -
    have k': "k < length ps - 1" using k len by simp
    have pv: "(NULL # ?ps) ! k = (if k \<le> i then (NULL # ps) ! k else ps ! k)"
    proof (cases k)
      case (Suc m)
      then show ?thesis using k' ps [of m] by auto
    qed simp
    have nx: "(?ps @ [NULL]) ! Suc k = (if Suc k < i then ps ! Suc k else (ps @ [NULL]) ! Suc (Suc k))"
      using k' assms(2) ps [of "Suc k"] len(1) by (auto simp: nth_append)
    show ?thesis
    proof (cases "k < i")
      case True
      have ne: "ps ! k \<noteq> ps ! i" "Suc i < length ps \<Longrightarrow> ps ! k \<noteq> ps ! Suc i"
        using eq [of k i] eq [of k "Suc i"] True assms(2) by auto
      have ik: "ps ! k = ps ! (i - 1) \<longleftrightarrow> Suc k = i" using eq [of k "i - 1"] True assms(2) by auto
      have "linked_out nodes ps xs i (ps ! k) =
          Some (if Suc k = i then (node_at ps xs k)\<lparr>n_next := (ps @ [NULL]) ! Suc i\<rparr> else node_at ps xs k)"
      proof -
        have k: "k < length ps" using True assms(2) by simp
        have no: "\<not> (Suc i < length ps \<and> ps ! k = ps ! Suc i)" "Suc k = i \<Longrightarrow> i - 1 = k" using ne by auto
        show ?thesis unfolding linked_out_def using True ne(1) no ik old [OF k] by (cases "Suc k = i") auto
      qed
      moreover have "node_at ?ps ?xs k =
          (if Suc k = i then (node_at ps xs k)\<lparr>n_next := (ps @ [NULL]) ! Suc i\<rparr> else node_at ps xs k)"
        unfolding node_at_def pv nx xs [OF k'] using True assms(2) by (auto simp: nth_append)
      ultimately show ?thesis using True ps [OF k'] by simp
    next
      case False
      have m: "Suc k < length ps" using k' by simp
      have ne: "ps ! Suc k \<noteq> ps ! i" "0 < i \<Longrightarrow> ps ! Suc k \<noteq> ps ! (i - 1)"
        using eq [of "Suc k" i] eq [of "Suc k" "i - 1"] False m assms(2) by auto
      have ik: "Suc i < length ps \<Longrightarrow> ps ! Suc k = ps ! Suc i \<longleftrightarrow> k = i" using eq [of "Suc k" "Suc i"] m by auto
      have "linked_out nodes ps xs i (ps ! Suc k) =
          Some (if k = i then (node_at ps xs (Suc k))\<lparr>n_prev := (NULL # ps) ! i\<rparr> else node_at ps xs (Suc k))"
        unfolding linked_out_def using False ne ik old [OF m] m by (cases "k = i") auto
      moreover have "node_at ?ps ?xs k =
          (if k = i then (node_at ps xs (Suc k))\<lparr>n_prev := (NULL # ps) ! i\<rparr> else node_at ps xs (Suc k))"
        unfolding node_at_def pv nx xs [OF k'] using False by auto
      ultimately show ?thesis using False ps [OF k'] by simp
    qed
  qed
  show ?thesis using dist st ch len dm nd by (auto simp: chain_def)
qed

lemma insert_ends:
  assumes "i \<le> length ps"
  shows "((take i ps @ a # drop i ps) @ [NULL]) ! 0 = (if i = 0 then a else (ps @ [NULL]) ! 0)"
    "(NULL # take i ps @ a # drop i ps) ! Suc (length ps) = (if i = length ps then a else (NULL # ps) ! length ps)"
    "((take i ps @ a # drop i ps) @ [NULL]) ! i = a"
  using assms by (auto simp: nth_append nth_Cons')

lemma linked_list_insert_run:
  assumes "ll_rep l ps xs"
  shows "\<exists>l'. linked_list_insert d l = Some l' \<and> ll_error l' = LL_OK \<and> ll_index l' = ll_index l \<and>
    ll_version l' = ll_version l + 1 \<and>
    ll_rep l' (take (ll_index l) ps @ ll_brk l # drop (ll_index l) ps) (take (ll_index l) xs @ d # drop (ll_index l) xs)"
proof -
  note rep = ll_repD [OF assms]
  let ?i = "ll_index l" and ?a = "ll_brk l" and ?n = "length ps"
  have a: "?a \<notin> set ps" "?a \<noteq> NULL" "0 < ?a" using assms by (auto simp: ll_rep_def)
  let ?N = "linked_in (ll_nodes l) ps xs ?i ?a d"
  let ?l = "l\<lparr>ll_brk := ?a + 1, ll_nodes := ?N, ll_error := LL_OK, ll_count := ll_count l + 1, ll_current := ?a,
    ll_version := ll_version l + 1, ll_head := if ?i = 0 then ?a else ll_head l, ll_tail := if ?i = ?n then ?a else ll_tail l\<rparr>"
  have "\<forall>p \<in> set (take ?i ps @ ?a # drop ?i ps). p < ?a + 1"
    using assms by (auto simp: ll_rep_def less_Suc_eq dest: in_set_takeD in_set_dropD)
  then have "ll_rep ?l (take ?i ps @ ?a # drop ?i ps) (take ?i xs @ d # drop ?i xs)"
    using chain_insert [OF rep(1) rep(9) a(1,2), of d] insert_ends [OF rep(9), of ?a] rep(5,7-9)
    unfolding ll_rep_def by simp
  moreover have "linked_list_insert d l = Some ?l"
  proof -
    have ne: "ps ! k \<noteq> ?a" "?a \<noteq> ps ! k" if "k < ?n" for k using that a(1) nth_mem by metis+
    have eq: "ps ! j = ps ! k \<longleftrightarrow> j = k" if "j < ?n" "k < ?n" for j k using that rep(2) nth_eq_iff_index_eq by blast
    have pos: "ps ! k \<noteq> NULL" if "k < ?n" for k using nth_not_NULL [OF rep(3) that] by simp
    consider (empty) "?n = 0" | (head) "0 < ?n" "?i = 0" | (tail) "0 < ?n" "?i = ?n" | (middle) "0 < ?i" "?i < ?n"
      using rep(9) by linarith
    then show ?thesis
    proof cases
      case empty
      then have "?N = (ll_nodes l)(?a \<mapsto> \<lparr>n_prev = NULL, n_next = NULL, n_data = d\<rparr>)"
        using rep(9) by (auto simp: linked_in_def fun_eq_iff)
      then show ?thesis using empty rep(5,9) by (simp add: linked_list_insert_def Let_def)
    next
      case head
      then have "?N = (ll_nodes l)(?a \<mapsto> \<lparr>n_prev = NULL, n_next = ps ! 0, n_data = d\<rparr>, ps ! 0 \<mapsto> (node_at ps xs 0)\<lparr>n_prev := ?a\<rparr>)"
        using ne by (auto simp: linked_in_def fun_eq_iff nth_append)
      then show ?thesis using head rep(5-10) ne [of 0] a(3)
        by (simp add: linked_list_insert_def Let_def set_next_def set_prev_def nth_append fun_upd_twist)
    next
      case tail
      then have n1: "?n - 1 < ?n" by simp
      have "?N = (ll_nodes l)(?a \<mapsto> \<lparr>n_prev = ps ! (?n - 1), n_next = NULL, n_data = d\<rparr>,
          ps ! (?n - 1) \<mapsto> (node_at ps xs (?n - 1))\<lparr>n_next := ?a\<rparr>)"
        using tail ne [OF n1] by (auto simp: linked_in_def fun_eq_iff nth_append nth_Cons')
      then show ?thesis using tail rep(5-10) ne [OF n1] pos [of 0] a(3) n1
        by (simp add: linked_list_insert_def Let_def set_next_def set_prev_def nth_append nth_Cons')
    next
      case middle
      then have lt: "?i - 1 < ?n" "?i < ?n" "0 < ?n" by linarith+
      have d1: "ps ! (?i - 1) \<noteq> ps ! ?i" "ps ! ?i \<noteq> ps ! 0" using eq [of "?i - 1" ?i] eq [of ?i 0] lt middle by auto
      have "?N = (ll_nodes l)(?a \<mapsto> \<lparr>n_prev = ps ! (?i - 1), n_next = ps ! ?i, n_data = d\<rparr>,
          ps ! ?i \<mapsto> (node_at ps xs ?i)\<lparr>n_prev := ?a\<rparr>, ps ! (?i - 1) \<mapsto> (node_at ps xs (?i - 1))\<lparr>n_next := ?a\<rparr>)"
        using middle ne [OF lt(1)] ne [OF lt(2)] d1 by (auto simp: linked_in_def fun_eq_iff nth_append nth_Cons')
      moreover have "n_prev (node_at ps xs ?i) = ps ! (?i - 1)" using middle by (simp add: node_at_def nth_Cons')
      ultimately show ?thesis using middle rep(5-10) ne [OF lt(1)] ne [OF lt(2)] d1 pos [OF lt(2)] lt a(3)
        by (simp add: linked_list_insert_def Let_def set_next_def set_prev_def nth_append)
    qed
  qed
  ultimately show ?thesis by (intro exI [of _ ?l]) simp
qed

lemma remove_ends:
  assumes "i < length ps"
  shows "((take i ps @ drop (Suc i) ps) @ [NULL]) ! 0 = (if i = 0 then (ps @ [NULL]) ! 1 else (ps @ [NULL]) ! 0)"
    "(NULL # take i ps @ drop (Suc i) ps) ! (length ps - 1) = (if Suc i = length ps then (NULL # ps) ! i else (NULL # ps) ! length ps)"
    "((take i ps @ drop (Suc i) ps) @ [NULL]) ! i = (ps @ [NULL]) ! Suc i"
proof -
  obtain n where n: "length ps = Suc n" using assms by (cases "length ps") auto
  show "((take i ps @ drop (Suc i) ps) @ [NULL]) ! 0 = (if i = 0 then (ps @ [NULL]) ! 1 else (ps @ [NULL]) ! 0)"
    "((take i ps @ drop (Suc i) ps) @ [NULL]) ! i = (ps @ [NULL]) ! Suc i"
    using assms n by (auto simp: nth_append min_def)
  show "(NULL # take i ps @ drop (Suc i) ps) ! (length ps - 1) =
      (if Suc i = length ps then (NULL # ps) ! i else (NULL # ps) ! length ps)"
    using assms n by (cases n) (auto simp: nth_append nth_Cons' min_def)
qed

lemma linked_list_remove_run:
  assumes "ll_rep l ps xs" "ll_index l < length ps"
  shows "\<exists>l'. linked_list_remove l = Some (l', xs ! ll_index l) \<and> ll_error l' = LL_OK \<and> ll_index l' = ll_index l \<and>
    ll_version l' = ll_version l + 1 \<and>
    ll_rep l' (take (ll_index l) ps @ drop (Suc (ll_index l)) ps) (take (ll_index l) xs @ drop (Suc (ll_index l)) xs)"
proof -
  note rep = ll_repD [OF assms(1)] and i = assms(2)
  let ?i = "ll_index l" and ?n = "length ps"
  let ?p = "ps ! ?i"
  let ?N = "linked_out (ll_nodes l) ps xs ?i"
  let ?l = "l\<lparr>ll_nodes := ?N, ll_error := LL_OK, ll_count := ll_count l - 1, ll_current := (ps @ [NULL]) ! Suc ?i,
    ll_version := ll_version l + 1, ll_head := if ?i = 0 then (ps @ [NULL]) ! 1 else ll_head l,
    ll_tail := if Suc ?i = ?n then (NULL # ps) ! ?i else ll_tail l\<rparr>"
  have "\<forall>p \<in> set (take ?i ps @ drop (Suc ?i) ps). p < ll_brk l"
    using assms by (auto simp: ll_rep_def dest: in_set_takeD in_set_dropD)
  then have "ll_rep ?l (take ?i ps @ drop (Suc ?i) ps) (take ?i xs @ drop (Suc ?i) xs)"
    using chain_remove [OF rep(1) i] remove_ends [OF i] rep(5,7,8) i assms(1) Suc_leI [OF i]
    unfolding ll_rep_def by (simp add: le_diff_conv2)
  moreover have "linked_list_remove l = Some (?l, xs ! ?i)"
  proof -
    have eq: "ps ! j = ps ! k \<longleftrightarrow> j = k" if "j < ?n" "k < ?n" for j k using that rep(2) nth_eq_iff_index_eq by blast
    have cur: "ll_current l = ?p" using rep(10) i by (simp add: nth_append)
    have nd: "ll_nodes l ?p = Some (node_at ps xs ?i)" using rep(6) i by blast
    have n0: "0 < ?n" "?i \<noteq> ?n" using i by linarith+
    consider (one) "?n = 1" | (head) "1 < ?n" "?i = 0" | (tail) "1 < ?n" "0 < ?i" "Suc ?i = ?n"
      | (middle) "1 < ?n" "0 < ?i" "Suc ?i < ?n"
      using i by linarith
    then show ?thesis
    proof cases
      case one
      then have "?N = (ll_nodes l)(?p := None)" using i by (auto simp: linked_out_def fun_eq_iff)
      then show ?thesis using one i rep(5,7) cur nd n0 by (simp add: linked_list_remove_def Let_def node_at_def nth_append)
    next
      case head
      have ne: "ps ! Suc 0 \<noteq> ps ! 0" using eq [of "Suc 0" 0] head n0(1) by simp
      have s: "ll_nodes l (ps ! Suc 0) = Some (node_at ps xs (Suc 0))" using rep(6) [of "Suc 0"] head by simp
      have "?N = (ll_nodes l)(ps ! Suc 0 \<mapsto> (node_at ps xs (Suc 0))\<lparr>n_prev := NULL\<rparr>, ps ! 0 := None)"
        using head ne by (auto simp: linked_out_def fun_eq_iff)
      moreover have "n_next (node_at ps xs 0) = ps ! Suc 0" using head by (simp add: node_at_def nth_append)
      moreover have "n_data (node_at ps xs 0) = xs ! 0" by (simp add: node_at_def)
      ultimately show ?thesis using head rep(5,7) cur nd s ne n0
        by (simp add: linked_list_remove_def Let_def set_prev_def nth_append)
    next
      case tail
      then have lt: "?i - 1 < ?n" "?n - 1 = ?i" by linarith+
      have ne: "ps ! (?i - 1) \<noteq> ?p" "?p \<noteq> ps ! 0" using eq [OF lt(1) i] eq [OF i n0(1)] tail by auto
      have s: "ll_nodes l (ps ! (?i - 1)) = Some (node_at ps xs (?i - 1))" using rep(6) lt by blast
      have "?N = (ll_nodes l)(ps ! (?i - 1) \<mapsto> (node_at ps xs (?i - 1))\<lparr>n_next := NULL\<rparr>, ?p := None)"
        using tail ne by (auto simp: linked_out_def fun_eq_iff nth_append)
      moreover have "n_prev (node_at ps xs ?i) = ps ! (?i - 1)" "n_next (node_at ps xs ?i) = NULL"
        "n_data (node_at ps xs ?i) = xs ! ?i"
        using tail by (simp_all add: node_at_def nth_append nth_Cons')
      moreover have "ll_head l = ps ! 0" "ll_tail l = ?p" "(ps @ [NULL]) ! Suc ?i = NULL" "(NULL # ps) ! ?i = ps ! (?i - 1)"
        using rep(7,8) tail n0 lt by (simp_all add: nth_append nth_Cons')
      ultimately show ?thesis using tail rep(5) cur nd s ne n0
        by (simp add: linked_list_remove_def Let_def set_next_def)
    next
      case middle
      then have lt: "?i - 1 < ?n" "?n - 1 < ?n" by linarith+
      have ne: "ps ! (?i - 1) \<noteq> ?p" "?p \<noteq> ps ! 0" "ps ! Suc ?i \<noteq> ?p" "ps ! Suc ?i \<noteq> ps ! (?i - 1)" "?p \<noteq> ps ! (?n - 1)"
        using eq [OF lt(1) i] eq [OF i n0(1)] eq [OF middle(3) i] eq [OF middle(3) lt(1)] eq [OF i lt(2)] middle by auto
      have s: "ll_nodes l (ps ! (?i - 1)) = Some (node_at ps xs (?i - 1))" "ll_nodes l (ps ! Suc ?i) = Some (node_at ps xs (Suc ?i))"
        using rep(6) lt middle by blast+
      have "?N = (ll_nodes l)(ps ! (?i - 1) \<mapsto> (node_at ps xs (?i - 1))\<lparr>n_next := ps ! Suc ?i\<rparr>,
          ps ! Suc ?i \<mapsto> (node_at ps xs (Suc ?i))\<lparr>n_prev := ps ! (?i - 1)\<rparr>, ?p := None)"
        using middle ne by (auto simp: linked_out_def fun_eq_iff nth_append nth_Cons')
      moreover have "n_prev (node_at ps xs ?i) = ps ! (?i - 1)" "n_next (node_at ps xs ?i) = ps ! Suc ?i"
        "n_data (node_at ps xs ?i) = xs ! ?i"
        using middle by (simp_all add: node_at_def nth_append nth_Cons')
      moreover have "ll_head l = ps ! 0" "ll_tail l = ps ! (?n - 1)" "(ps @ [NULL]) ! Suc ?i = ps ! Suc ?i"
        using rep(7,8) middle n0 by (simp_all add: nth_append nth_Cons')
      ultimately show ?thesis using middle rep(5) cur nd s ne n0
        by (simp add: linked_list_remove_def Let_def set_next_def set_prev_def)
    qed
  qed
  ultimately show ?thesis by (intro exI [of _ ?l]) simp
qed

lemma clear_loop_run:
  "dom nodes = set (drop i ps) \<Longrightarrow> distinct ps \<Longrightarrow> NULL \<notin> set ps \<Longrightarrow> i \<le> length ps \<Longrightarrow>
   (\<And>k. i \<le> k \<Longrightarrow> k < length ps \<Longrightarrow> nodes (ps ! k) = Some (node_at ps xs k)) \<Longrightarrow>
   clear_loop ((ps @ [NULL]) ! i) nodes = Some Map.empty"
proof (induction "length ps - i" arbitrary: i nodes)
  case 0
  then show ?case by (subst clear_loop.simps) (simp add: nth_append)
next
  case (Suc n)
  then have i: "i < length ps" by simp
  have d: "drop i ps = ps ! i # drop (Suc i) ps" using i by (simp add: Cons_nth_drop_Suc)
  have "distinct (drop i ps)" using Suc.prems(2) by simp
  then have nin: "ps ! i \<notin> set (drop (Suc i) ps)" unfolding d by simp
  have "clear_loop ((ps @ [NULL]) ! Suc i) (nodes(ps ! i := None)) = Some Map.empty"
  proof (rule Suc.hyps(1))
    show "dom (nodes(ps ! i := None)) = set (drop (Suc i) ps)" using Suc.prems(1) nin unfolding d by auto
    show "(nodes(ps ! i := None)) (ps ! k) = Some (node_at ps xs k)" if "Suc i \<le> k" "k < length ps" for k
      using that Suc.prems(2,5) i nth_eq_iff_index_eq [of ps k i] by auto
  qed (use Suc i in auto)
  moreover have "ps ! i \<noteq> NULL" using nth_not_NULL [OF Suc.prems(3) i] by simp
  ultimately show ?case using i Suc.prems(5) [of i] by (subst clear_loop.simps) (simp add: nth_append node_at_def)
qed

lemma change_calls:
  assumes "ll_rep l ps xs"
  shows "ll_ok (LInsert d) l" "ll_ok (LAdd d) l" "ll_ok LRemove l" "ll_ok LClear l"
proof -
  note rep = ll_repD [OF assms]
  obtain l1 where l1: "linked_list_insert d l = Some l1" "ll_error l1 = LL_OK" "ll_index l1 = ll_index l"
      "ll_rep l1 (take (ll_index l) ps @ ll_brk l # drop (ll_index l) ps) (take (ll_index l) xs @ d # drop (ll_index l) xs)"
    using linked_list_insert_run [OF assms, of d] by blast
  show "ll_ok (LInsert d) l" using l1 by (intro ll_okI [OF assms _ l1(4)]) simp_all
  have out: "ll_rep (linked_list_out l) ps xs" "ll_index (linked_list_out l) = length ps"
    using assms rep(5) by (simp_all add: linked_list_out_def ll_rep_def)
  obtain l2 where l2: "linked_list_insert d (linked_list_out l) = Some l2" "ll_rep l2 (ps @ [ll_brk (linked_list_out l)]) (xs @ [d])"
    using linked_list_insert_run [OF out(1), of d] out(2) rep(4) by auto
  have "ll_rep (linked_list_out l2) (ps @ [ll_brk (linked_list_out l)]) (xs @ [d])"
    using l2(2) by (simp add: linked_list_out_def ll_rep_def nth_append)
  then show "ll_ok (LAdd d) l" using l2 rep(4)
    by (intro ll_okI [OF assms, of _ "linked_list_out l2" 0])
      (simp_all add: linked_list_add_def, simp add: linked_list_out_def ll_rep_def)
  show "ll_ok LRemove l"
  proof (cases "ll_index l = length ps")
    case True
    then show ?thesis using rep(4,5) assms
      by (intro ll_okI [OF assms, of _ "l\<lparr>ll_error := LL_BOUNDS\<rparr>" 0 ps xs]) (simp_all add: linked_list_remove_def)
  next
    case False
    then have i: "ll_index l < length ps" using rep(9) by simp
    obtain l3 where l3: "linked_list_remove l = Some (l3, xs ! ll_index l)" "ll_error l3 = LL_OK" "ll_index l3 = ll_index l"
        "ll_rep l3 (take (ll_index l) ps @ drop (Suc (ll_index l)) ps) (take (ll_index l) xs @ drop (Suc (ll_index l)) xs)"
      using linked_list_remove_run [OF assms i] by blast
    show ?thesis using l3 False rep(4) by (intro ll_okI [OF assms _ l3(4)]) simp_all
  qed
  have "clear_loop (ll_head l) (ll_nodes l) = Some Map.empty"
    using clear_loop_run [of "ll_nodes l" 0 ps xs] rep unfolding chain_def by simp
  then obtain l4 where l4: "linked_list_clear l = Some l4" "ll_error l4 = LL_OK" "ll_index l4 = 0" "ll_rep l4 [] []"
    using assms by (auto simp: linked_list_clear_def ll_rep_def chain_def)
  show "ll_ok LClear l" using l4 by (intro ll_okI [OF assms _ l4(4)]) simp_all
qed

interpretation ll_adt: adt ll_inv ll_state ll_call "\<lambda>_ _. True" ll_spec
proof
  fix l c assume "ll_inv l"
  then have r: "ll_rep l (ll_ptrs l) (ll_abs l)" by (simp add: ll_inv_def)
  show "\<exists>l'. ll_call c l = Some (l', snd (ll_spec c (ll_state l))) \<and> ll_inv l' \<and> ll_state l' = fst (ll_spec c (ll_state l))"
    unfolding ll_ok_def [symmetric]
    by (cases c) (simp_all only: cursor_calls [OF r] move_calls [OF r] goto_call [OF r] find_call [OF r] change_calls [OF r])
qed

lemma create_rep: "ll_rep linked_list_create [] []"
  by (simp add: linked_list_create_def ll_rep_def chain_def)

section \<open>Sorting the list\<close>

definition data_of :: "(ptr \<rightharpoonup> linked_list_elem_t) \<Rightarrow> ptr \<Rightarrow> ptr" where
  "data_of nodes p = (case nodes p of None \<Rightarrow> NULL | Some e \<Rightarrow> n_data e)"

interpretation elem_array: swap_array "\<lambda>a. set a \<subseteq> dom nodes" "map (\<lambda>p. (p, data_of nodes p))" "array_get nodes" array_swap
  "\<lambda>lo hi. (lo + hi) div 2" for nodes
proof
  fix a k assume a: "set a \<subseteq> dom nodes" "k < length (map (\<lambda>p. (p, data_of nodes p)) a)"
  then have "a ! k \<in> set a" by simp
  then have "a ! k \<in> dom nodes" using a(1) by blast
  then obtain n where "nodes (a ! k) = Some n" by blast
  then show "array_get nodes (int k) a = Some (map (\<lambda>p. (p, data_of nodes p)) a ! k)"
    using a by (simp add: array_get_def data_of_def)
next
  fix a i j assume a: "set a \<subseteq> dom nodes" "i < length (map (\<lambda>p. (p, data_of nodes p)) a)" "j < length (map (\<lambda>p. (p, data_of nodes p)) a)"
  have "set (a[i := a ! j, j := a ! i]) = set a" using a by (intro mset_eq_setD mset_swap) auto
  then show "\<exists>a'. array_swap (int i) (int j) a = Some a' \<and> set a' \<subseteq> dom nodes \<and>
      map (\<lambda>p. (p, data_of nodes p)) a' = (map (\<lambda>p. (p, data_of nodes p)) a)
        [i := map (\<lambda>p. (p, data_of nodes p)) a ! j, j := map (\<lambda>p. (p, data_of nodes p)) a ! i]"
    using a by (simp add: array_swap_def map_update)
qed auto

lemma elem_sort_run:
  assumes "cmp_order cmp" "set ps \<subseteq> dom nodes" "ps \<noteq> []"
  shows "\<exists>a. elem_sort nodes cmp 0 (int (length ps) - 1) ps = Some a \<and> mset a = mset ps \<and>
    sorted_wrt (\<lambda>x y. cmp x y \<le> 0) (map (data_of nodes) a)"
proof -
  have ord: "cmp_order (\<lambda>x y :: ptr \<times> ptr. cmp (snd x) (snd y))"
    using assms(1) unfolding cmp_order_def by blast
  let ?f = "\<lambda>p. (p, data_of nodes p)"
  obtain a where a: "elem_sort nodes cmp 0 (int (length ps) - 1) ps = Some a" "mset (map ?f a) = mset (map ?f ps)"
      "sorted_wrt (\<lambda>x y. cmp (snd x) (snd y) \<le> 0) (map ?f a)"
    using elem_array.qsort_sorts [OF ord assms(2)] assms(3) by (auto simp: elem_sort_def)
  have fst: "map fst (map ?f b) = b" for b by (simp add: comp_def)
  have "mset (map fst (map ?f a)) = mset (map fst (map ?f ps))" using arg_cong [OF a(2), of "image_mset fst"] by (simp only: mset_map)
  then have "mset a = mset ps" unfolding fst .
  moreover have "sorted_wrt (\<lambda>x y. cmp x y \<le> 0) (map (data_of nodes) a)"
    using a(3) by (simp only: sorted_wrt_map snd_conv)
  ultimately show ?thesis using a(1) by blast
qed

lemma collect_loop:
  assumes "ll_rep l ps xs"
  shows "for_loop 0 (length ps) (\<lambda>i (a, current). do { a \<leftarrow> wr a i current; n \<leftarrow> ll_nodes l current; Some (a, n_next n) })
    (replicate (length ps) NULL, ll_head l) = Some (ps, NULL)"
proof -
  note rep = ll_repD [OF assms]
  let ?g = "\<lambda>i. (take i ps @ replicate (length ps - i) NULL, (ps @ [NULL]) ! i)"
  have "for_loop 0 (length ps) (\<lambda>i (a, current). do { a \<leftarrow> wr a i current; n \<leftarrow> ll_nodes l current; Some (a, n_next n) })
    (replicate (length ps) NULL, ll_head l) = Some (?g (length ps))"
  proof (rule for_loop_eq [where g = ?g])
    fix i assume i: "i < length ps"
    have "length ps - i = Suc (length ps - Suc i)" using i by simp
    then have "(take i ps @ replicate (length ps - i) NULL)[i := ps ! i] = take (Suc i) ps @ replicate (length ps - Suc i) NULL"
      using i by (simp add: list_update_append take_Suc_conv_app_nth)
    then show "(case ?g i of (a, current) \<Rightarrow> do { a \<leftarrow> wr a i current; n \<leftarrow> ll_nodes l current; Some (a, n_next n) }) = Some (?g (Suc i))"
      using i rep(6) [OF i] by (simp add: nth_append node_at_def)
  qed (use rep(7) in simp_all)
  then show ?thesis by simp
qed

lemma relink_loop:
  assumes "distinct a" "length xs = length a" "dom (ll_nodes l) = set a" "ll_count l = length a" "NULL \<notin> set a"
    and data: "\<And>k. k < length a \<Longrightarrow> data_of (ll_nodes l) (a ! k) = xs ! k"
  shows "\<exists>nodes. for_loop 0 (length a) (\<lambda>i l. do {
          p \<leftarrow> rd a i;
          v \<leftarrow> if i > 0 then rd a (i - 1) else Some NULL;
          l \<leftarrow> set_prev p v l;
          v \<leftarrow> if i < ll_count l - 1 then rd a (i + 1) else Some NULL;
          set_next p v l }) l = Some (l\<lparr>ll_nodes := nodes\<rparr>) \<and> chain nodes a xs"
proof -
  let ?f = "\<lambda>i l. do {
          p \<leftarrow> rd a i;
          v \<leftarrow> if i > 0 then rd a (i - 1) else Some NULL;
          l \<leftarrow> set_prev p v l;
          v \<leftarrow> if i < ll_count l - 1 then rd a (i + 1) else Some NULL;
          set_next p v l }"
  let ?I = "\<lambda>i s. \<exists>nodes. s = l\<lparr>ll_nodes := nodes\<rparr> \<and> dom nodes = set a \<and>
      (\<forall>k < i. nodes (a ! k) = Some (node_at a xs k)) \<and> (\<forall>k. i \<le> k \<and> k < length a \<longrightarrow> data_of nodes (a ! k) = xs ! k)"
  have "\<exists>s. for_loop 0 (length a) ?f l = Some s \<and> ?I (length a) s"
  proof (rule for_loop_rule [where I = ?I])
    show "?I 0 l" using assms by (intro exI [of _ "ll_nodes l"]) simp
  next
    fix i s assume i: "i < length a" and "?I i s"
    then obtain nodes where s: "s = l\<lparr>ll_nodes := nodes\<rparr>" and dm: "dom nodes = set a"
      and past: "\<forall>k < i. nodes (a ! k) = Some (node_at a xs k)"
      and rest: "\<forall>k. i \<le> k \<and> k < length a \<longrightarrow> data_of nodes (a ! k) = xs ! k" by blast
    have "a ! i \<in> dom nodes" using dm i by simp
    then obtain n where n: "nodes (a ! i) = Some n" by blast
    then have nd: "n_data n = xs ! i" using rest i by (auto simp: data_of_def)
    let ?n = "n\<lparr>n_prev := (NULL # a) ! i, n_next := (a @ [NULL]) ! Suc i\<rparr>"
    have eq: "?n = node_at a xs i" using nd by (simp add: node_at_def)
    have v: "(if i > 0 then rd a (i - 1) else Some NULL) = Some ((NULL # a) ! i)"
      "(if i < length a - 1 then rd a (i + 1) else Some NULL) = Some ((a @ [NULL]) ! Suc i)"
      using i by (auto simp: nth_append nth_Cons')
    have f: "?f i s = Some (l\<lparr>ll_nodes := nodes(a ! i \<mapsto> ?n)\<rparr>)"
      using i n v assms(4) unfolding s by (simp add: set_prev_def set_next_def)
    have ne: "a ! k \<noteq> a ! i" if "k < length a" "k \<noteq> i" for k using that assms(1) i nth_eq_iff_index_eq by blast
    have "?I (Suc i) (l\<lparr>ll_nodes := nodes(a ! i \<mapsto> ?n)\<rparr>)"
      using dm past rest ne i eq by (intro exI [of _ "nodes(a ! i \<mapsto> ?n)"]) (auto simp: less_Suc_eq data_of_def)
    then show "\<exists>s'. ?f i s = Some s' \<and> ?I (Suc i) s'" using f by blast
  qed simp
  then show ?thesis using assms by (auto simp: chain_def)
qed

lemma linked_list_sort_run:
  assumes "cmp_order cmp" "ll_rep l ps xs"
  shows "\<exists>l' a ys. linked_list_sort cmp l = Some l' \<and> ll_rep l' a ys \<and> mset ys = mset xs \<and>
    sorted_wrt (\<lambda>x y. cmp x y \<le> 0) ys \<and> (ps \<noteq> [] \<longrightarrow> ll_index l' = 0)"
proof (cases "ps = []")
  case True
  then have "xs = []" "linked_list_sort cmp l = Some (l\<lparr>ll_error := LL_OK\<rparr>)"
    using ll_repD(4,5) [OF assms(2)] by (simp_all add: linked_list_sort_def Let_def)
  then show ?thesis using assms(2) True by (intro exI [of _ "l\<lparr>ll_error := LL_OK\<rparr>"] exI [of _ "[]"]) simp
next
  case False
  let ?l = "l\<lparr>ll_error := LL_OK\<rparr>" and ?d = "data_of (ll_nodes l)"
  have r: "ll_rep ?l ps xs" using assms(2) by simp
  note rep = ll_repD [OF assms(2)]
  have dm: "dom (ll_nodes l) = set ps" using rep(1) by (simp add: chain_def)
  have xs: "xs = map ?d ps" using rep(4,6) by (intro nth_equalityI) (auto simp: data_of_def node_at_def)
  obtain a where a: "elem_sort (ll_nodes l) cmp 0 (int (length ps) - 1) ps = Some a" "mset a = mset ps"
      "sorted_wrt (\<lambda>x y. cmp x y \<le> 0) (map ?d a)"
    using elem_sort_run [OF assms(1), of ps "ll_nodes l"] dm False by auto
  have as: "length a = length ps" "set a = set ps" "distinct a"
    using a(2) rep(2) by (auto dest: mset_eq_length mset_eq_setD mset_eq_imp_distinct_iff)
  let ?h = "?l\<lparr>ll_head := a ! 0, ll_tail := a ! (length ps - 1)\<rparr>"
  obtain nodes where nodes: "for_loop 0 (length a) (\<lambda>i l. do {
          p \<leftarrow> rd a i;
          v \<leftarrow> if i > 0 then rd a (i - 1) else Some NULL;
          l \<leftarrow> set_prev p v l;
          v \<leftarrow> if i < ll_count l - 1 then rd a (i + 1) else Some NULL;
          set_next p v l }) ?h = Some (?h\<lparr>ll_nodes := nodes\<rparr>)" "chain nodes a (map ?d a)"
    using relink_loop [of a "map ?d a" ?h] as rep(3,5) dm by auto
  let ?r = "?h\<lparr>ll_nodes := nodes, ll_index := 0, ll_current := a ! 0, ll_version := ll_version l + 1\<rparr>"
  have "linked_list_sort cmp l = Some ?r"
    using False rep(5) collect_loop [OF r] a(1) nodes(1) as(1) by (simp add: linked_list_sort_def Let_def)
  moreover have "ll_rep ?r a (map ?d a)"
    using assms(2) nodes(2) as False by (auto simp: ll_rep_def nth_append nth_Cons')
  moreover have "mset (map ?d a) = mset xs" unfolding xs using a(2) by simp
  ultimately show ?thesis using a(3) by (intro exI [of _ ?r] exI [of _ a] exI [of _ "map ?d a"]) simp
qed

section \<open>Iterating and checking the order\<close>

lemma iter_loop_run:
  assumes "ll_rep l ps xs"
  shows "i \<le> length ps \<Longrightarrow> length ps - i < n \<Longrightarrow>
    iter_loop n l \<lparr>it_version = ll_version l, it_elem = (ps @ [NULL]) ! i\<rparr> = Some (drop i xs)"
proof (induction n arbitrary: i)
  case (Suc n)
  note rep = ll_repD [OF assms]
  let ?it = "\<lambda>i. \<lparr>it_version = ll_version l, it_elem = (ps @ [NULL]) ! i\<rparr>"
  have check: "linked_list_iter_check_version l (?it i) = Some ()"
    by (simp add: linked_list_iter_check_version_def)
  show ?case
  proof (cases "i = length ps")
    case True
    then show ?thesis using check rep(4) by (simp add: linked_list_iter_is_end_def)
  next
    case False
    then have i: "i < length ps" using Suc.prems(1) by simp
    have IH: "iter_loop n l (?it (Suc i)) = Some (drop (Suc i) xs)" using Suc.IH [of "Suc i"] Suc.prems(2) i by simp
    have d: "drop i xs = xs ! i # drop (Suc i) xs" using i rep(4) by (simp add: Cons_nth_drop_Suc)
    have e: "(ps @ [NULL]) ! i = ps ! i" "0 < ps ! i" using i nth_not_NULL [OF rep(3) i] by (simp_all add: nth_append)
    have "linked_list_iter_is_end l (?it i) = Some False" "linked_list_iter_get l (?it i) = Some (xs ! i)"
      "linked_list_iter_next l (?it i) = Some (?it (Suc i))"
      using check e rep(6) [OF i]
      by (simp_all add: linked_list_iter_is_end_def linked_list_iter_get_def linked_list_iter_next_def node_at_def)
    then show ?thesis using IH d by simp
  qed
qed simp

lemma sorted_loop_run:
  assumes "ll_rep l ps xs"
  shows "Suc i \<le> length ps \<Longrightarrow> sorted_loop cmp l (ps ! i) ((ps @ [NULL]) ! Suc i) =
    Some (\<forall>k. i \<le> k \<and> Suc k < length xs \<longrightarrow> cmp (xs ! k) (xs ! Suc k) \<le> 0)"
proof (induction "length ps - i" arbitrary: i)
  case (Suc n)
  note rep = ll_repD [OF assms]
  show ?case
  proof (cases "Suc i = length ps")
    case True
    then show ?thesis using rep(4) by (subst sorted_loop.simps) (auto simp: nth_append)
  next
    case False
    then have i: "i < length ps" "Suc i < length ps" using Suc.prems by simp_all
    have "sorted_loop cmp l (ps ! Suc i) ((ps @ [NULL]) ! Suc (Suc i)) =
        Some (\<forall>k. Suc i \<le> k \<and> Suc k < length xs \<longrightarrow> cmp (xs ! k) (xs ! Suc k) \<le> 0)"
      using Suc.hyps(1) [of "Suc i"] Suc.hyps(2) i by simp
    moreover have "(\<forall>k. i \<le> k \<and> Suc k < length xs \<longrightarrow> cmp (xs ! k) (xs ! Suc k) \<le> 0) \<longleftrightarrow>
        cmp (xs ! i) (xs ! Suc i) \<le> 0 \<and> (\<forall>k. Suc i \<le> k \<and> Suc k < length xs \<longrightarrow> cmp (xs ! k) (xs ! Suc k) \<le> 0)"
      (is "(\<forall>k. ?P k) \<longleftrightarrow> ?c i \<and> (\<forall>k. ?Q k)")
    proof (intro iffI conjI allI)
      fix k assume all: "\<forall>k. ?P k"
      show "?c i" using all i rep(4) by auto
      show "?Q k" using all by auto
    next
      fix k assume "?c i \<and> (\<forall>k. ?Q k)"
      then show "?P k" by (cases "k = i") auto
    qed
    moreover have "(ps @ [NULL]) ! Suc i = ps ! Suc i" "0 < ps ! Suc i"
      using i nth_not_NULL [OF rep(3) i(2)] by (simp_all add: nth_append)
    ultimately show ?thesis using rep(6) [OF i(1)] rep(6) [OF i(2)]
      by (subst sorted_loop.simps) (auto simp: node_at_def)
  qed
qed simp

lemma linked_list_sorted_run:
  assumes "cmp_order cmp" "ll_rep l ps xs"
  shows "linked_list_sorted cmp l = Some (l\<lparr>ll_error := LL_OK\<rparr>, sorted_wrt (\<lambda>x y. cmp x y \<le> 0) xs)"
proof -
  note rep = ll_repD [OF assms(2)]
  have "transp (\<lambda>x y. cmp x y \<le> 0)" using cmp_orderD(4) [OF assms(1)] by (rule transpI)
  then have sw: "sorted_wrt (\<lambda>x y. cmp x y \<le> 0) xs \<longleftrightarrow> (\<forall>k. Suc k < length xs \<longrightarrow> cmp (xs ! k) (xs ! Suc k) \<le> 0)"
    by (rule sorted_wrt_iff_nth_Suc_transp)
  show ?thesis
  proof (cases "ps = []")
    case True
    then show ?thesis using rep(4,7) by (simp add: linked_list_sorted_def)
  next
    case False
    have r: "ll_rep (l\<lparr>ll_error := LL_OK\<rparr>) ps xs" using assms(2) by simp
    have h: "ll_head l = ps ! 0" "0 < ps ! 0" "ll_nodes l (ps ! 0) = Some (node_at ps xs 0)"
      using False rep(6) [of 0] rep(7) nth_not_NULL [OF rep(3), of 0] by (simp_all add: nth_append)
    have "n_next (node_at ps xs 0) = (ps @ [NULL]) ! Suc 0" by (simp add: node_at_def)
    then show ?thesis using h sorted_loop_run [OF r, of 0 cmp] False sw
      by (simp add: linked_list_sorted_def Suc_le_eq)
  qed
qed

section \<open>Properties\<close>

text \<open>
  C11: the linked list is a sequence with a cursor. From a new list, every sequence of calls of the
  operations of \<^verbatim>\<open>linked-list.h\<close> (sorting and iterators apart) returns without following a null or
  freed pointer, and gives the results, the error codes and the cursor positions of the same calls
  on a sequence.
\<close>

theorem linked_list_refines_sequence:
  "\<exists>l. run_calls ll_call cs linked_list_create = Some (l, snd (run_spec ll_spec cs ([], 0, LL_OK))) \<and>
     ll_inv l \<and> (ll_abs l, ll_index l, ll_error l) = fst (run_spec ll_spec cs ([], 0, LL_OK))"
proof -
  have "ll_state linked_list_create = ([], 0, LL_OK)"
    using ll_rep_unique [OF create_rep] by (simp add: ll_state_def linked_list_create_def)
  then show ?thesis using ll_adt.calls_refine [of linked_list_create cs] ll_inv_rep [OF create_rep]
    by (simp add: ll_state_def [symmetric])
qed

text \<open>
  \<^verbatim>\<open>linked_list_sort\<close> returns a well-formed list that holds a sorted permutation of the
  elements, and \<^verbatim>\<open>linked_list_sorted\<close> then answers yes.
\<close>

theorem linked_list_sort_sorts:
  assumes "cmp_order cmp" "ll_inv l"
  shows "\<exists>l'. linked_list_sort cmp l = Some l' \<and> ll_inv l' \<and> mset (ll_abs l') = mset (ll_abs l) \<and>
    sorted_wrt (\<lambda>x y. cmp x y \<le> 0) (ll_abs l') \<and> map_option snd (linked_list_sorted cmp l') = Some True"
proof -
  have r: "ll_rep l (ll_ptrs l) (ll_abs l)" using assms(2) by (simp add: ll_inv_def)
  obtain l' a ys where s: "linked_list_sort cmp l = Some l'" "ll_rep l' a ys" "mset ys = mset (ll_abs l)"
      "sorted_wrt (\<lambda>x y. cmp x y \<le> 0) ys"
    using linked_list_sort_run [OF assms(1) r] by blast
  then show ?thesis using ll_rep_unique [OF s(2)] ll_inv_rep [OF s(2)] linked_list_sorted_run [OF assms(1) s(2)] by auto
qed

theorem linked_list_sort_sorts_witness:
  "\<exists>l l'. do_all linked_list_add [3, 1, 2] linked_list_create = Some l \<and>
     linked_list_sort (\<lambda>x y. int x - int y) l = Some l' \<and> mset (ll_abs l') = {#1, 2, 3#} \<and>
     sorted_wrt (\<lambda>x y. int x - int y \<le> 0) (ll_abs l')"
proof -
  obtain l rs where "run_calls ll_call [LAdd 3, LAdd 1, LAdd 2] linked_list_create = Some (l, rs)" "ll_inv l" "ll_abs l = [3, 1, 2]"
    using ll_adt.calls_refine [OF ll_inv_rep [OF create_rep], of "[LAdd 3, LAdd 1, LAdd 2]"]
      ll_rep_unique [OF create_rep] by (auto simp: ll_state_def)
  moreover from this have "do_all linked_list_add [3, 1, 2] linked_list_create = Some l"
    by (auto simp: bind_eq_Some_conv map_option_case split: option.splits)
  moreover have "cmp_order (\<lambda>x y :: ptr. int x - int y)" by (auto simp: cmp_order_def)
  ultimately show ?thesis using linked_list_sort_sorts [of "\<lambda>x y. int x - int y" l] by (auto simp: add_mset_commute)
qed

text \<open>
  iterators. On a list that has not changed since the iterator was made,
  \<^verbatim>\<open>LINKED_LIST_ITER_FOR_EACH\<close> visits the elements in order and ends; once an element has been
  inserted or removed, every function of the iterator panics.
\<close>

theorem iterators_are_guarded:
  assumes "ll_inv l" "ll_count l < n"
  shows "LINKED_LIST_ITER_FOR_EACH n l (linked_list_iter_create l) = Some (ll_abs l) \<and>
    (\<exists>l'. linked_list_insert d l = Some l' \<and>
       LINKED_LIST_ITER_FOR_EACH n l' (linked_list_iter_create l) = None \<and> linked_list_iter_get l' (linked_list_iter_create l) = None \<and>
       linked_list_iter_next l' (linked_list_iter_create l) = None \<and> linked_list_iter_is_end l' (linked_list_iter_create l) = None \<and>
       linked_list_iter_find l' e (linked_list_iter_create l) = None)"
proof -
  have r: "ll_rep l (ll_ptrs l) (ll_abs l)" using assms(1) by (simp add: ll_inv_def)
  note rep = ll_repD [OF r]
  have "LINKED_LIST_ITER_FOR_EACH n l (linked_list_iter_create l) = Some (ll_abs l)"
    using iter_loop_run [OF r, of 0 n] assms(2) rep(5,7)
    by (simp add: LINKED_LIST_ITER_FOR_EACH_def linked_list_iter_create_def linked_list_iter_head_def
        linked_list_iter_check_version_def)
  moreover obtain l' where "linked_list_insert d l = Some l'" "ll_version l' = ll_version l + 1"
    using linked_list_insert_run [OF r, of d] by blast
  ultimately show ?thesis
    by (simp add: LINKED_LIST_ITER_FOR_EACH_def linked_list_iter_create_def linked_list_iter_head_def
        linked_list_iter_check_version_def linked_list_iter_get_def linked_list_iter_next_def linked_list_iter_is_end_def
        linked_list_iter_find_def)
qed

theorem iterators_are_guarded_witness:
  "LINKED_LIST_ITER_FOR_EACH 1 linked_list_create (linked_list_iter_create linked_list_create) = Some [] \<and>
   (\<exists>l'. linked_list_insert 5 linked_list_create = Some l' \<and>
      linked_list_iter_get l' (linked_list_iter_create linked_list_create) = None)"
  using iterators_are_guarded [OF ll_inv_rep [OF create_rep], of 1 5 0] ll_rep_unique [OF create_rep]
  by (auto simp: linked_list_create_def)

end
