(* ===== verification/Bytes.thy ===== *)
theory Bytes
  imports CPrelude
begin

text \<open>
  Blocks of bytes: \<^verbatim>\<open>memcpy\<close> out of and into an array, checked against its bounds, and the
  lemmas the components that move bytes share. The two halves of a \<^verbatim>\<open>memcpy\<close> between distinct
  arrays are \<open>get_bytes\<close> on the source and \<open>put_bytes\<close> on the destination.
\<close>

type_synonym byte = "8 word"

definition get_bytes :: "'a list \<Rightarrow> nat \<Rightarrow> nat \<Rightarrow> 'a list option" where
  "get_bytes a off n = (if off + n \<le> length a then Some (take n (drop off a)) else None)"

definition put_bytes :: "'a list \<Rightarrow> nat \<Rightarrow> 'a list \<Rightarrow> 'a list option" where
  "put_bytes a off bs =
     (if off + length bs \<le> length a then Some (take off a @ bs @ drop (off + length bs) a) else None)"

lemma get_bytes_ok [simp]: "off + n \<le> length a \<Longrightarrow> get_bytes a off n = Some (take n (drop off a))"
  by (simp add: get_bytes_def)

lemma put_bytes_ok [simp]:
  "off + length bs \<le> length a \<Longrightarrow> put_bytes a off bs = Some (take off a @ bs @ drop (off + length bs) a)"
  by (simp add: put_bytes_def)

lemma length_put [simp]:
  "off + length bs \<le> length a \<Longrightarrow> length (take off a @ bs @ drop (off + length bs) a) = length a"
  by simp

lemma nth_put:
  assumes "off + length bs \<le> length a" "i < length a"
  shows "(take off a @ bs @ drop (off + length bs) a) ! i =
    (if off \<le> i \<and> i < off + length bs then bs ! (i - off) else a ! i)"
  using assms by (auto simp: nth_append min_def)

lemma get_bytes_put:
  assumes "off + length bs \<le> length a"
  shows "take (length bs) (drop off (take off a @ bs @ drop (off + length bs) a)) = bs"
  using assms by simp

end
