(* ===== verification/UtilBuffer.thy ===== *)
theory UtilBuffer
  imports Bytes Interfaces
begin

text \<open>
  The circular byte buffer of \<^verbatim>\<open>lib/util/buffer.c\<close>. The state is the C structure; sizes and
  positions are natural numbers (the C type is \<^verbatim>\<open>int\<close>; a buffer of more than \<^verbatim>\<open>INT_MAX\<close> bytes
  is outside the model). The caller's memory is the list of bytes behind the pointer it passes:
  a write reads from it and a read returns it updated.

  The abstraction is the sequence of bytes waiting in the buffer; the theory interprets the
  interface \<open>adt\<close> for it.
\<close>

section \<open>The code\<close>

record buffer_t =
  b_data :: "byte list"
  b_count :: nat
  b_size :: nat
  b_head :: nat
  b_tail :: nat

definition grow :: "nat \<Rightarrow> buffer_t \<Rightarrow> (buffer_t \<times> bool) option" where
  "grow sz b = (if sz < b_size b then Some (b, False) else do {
     let data = replicate sz 0;
     right \<leftarrow> get_bytes (b_data b) (b_head b) (b_size b - b_head b);
     data \<leftarrow> put_bytes data 0 right;
     left \<leftarrow> get_bytes (b_data b) 0 (b_head b);
     data \<leftarrow> put_bytes data (b_size b - b_head b) left;
     Some (b\<lparr>b_data := data, b_size := sz, b_head := 0, b_tail := b_count b\<rparr>, True) })"

definition buffer_create :: "nat \<Rightarrow> buffer_t" where
  "buffer_create sz = \<lparr>b_data = replicate sz 0, b_count = 0, b_size = sz, b_head = 0, b_tail = 0\<rparr>"

definition buffer_read :: "byte list \<Rightarrow> nat \<Rightarrow> buffer_t \<Rightarrow> (buffer_t \<times> byte list \<times> nat) option" where
  "buffer_read dest sz b = do {
     let sz = min sz (b_count b);
     let right = min (b_size b - b_head b) sz;
     let left = sz - right;
     bs \<leftarrow> get_bytes (b_data b) (b_head b) right;
     dest \<leftarrow> put_bytes dest 0 bs;
     bs \<leftarrow> get_bytes (b_data b) 0 left;
     dest \<leftarrow> put_bytes dest right bs;
     c_assert (b_size b \<noteq> 0);
     Some (b\<lparr>b_head := (b_head b + sz) mod b_size b, b_count := b_count b - sz\<rparr>, dest, sz) }"

text \<open>The division \<^verbatim>\<open>% buffer->size\<close> stops the program when the size is zero.\<close>

partial_function (option) write_grow_loop :: "nat \<Rightarrow> buffer_t \<Rightarrow> (buffer_t \<times> bool) option" where
  "write_grow_loop sz b =
     (if b_count b + sz > b_size b then do {
        (b, ok) \<leftarrow> grow (max (b_count b + sz) (b_size b * 2)) b;
        if ok then write_grow_loop sz b else Some (b, False) }
      else Some (b, True))"

definition buffer_write :: "byte list \<Rightarrow> nat \<Rightarrow> buffer_t \<Rightarrow> (buffer_t \<times> nat) option" where
  "buffer_write src sz b = do {
     (b, ok) \<leftarrow> write_grow_loop sz b;
     if \<not> ok then Some (b, 0) else do {
       let right = min (b_size b - b_tail b) sz;
       let left = sz - right;
       bs \<leftarrow> get_bytes src 0 right;
       data \<leftarrow> put_bytes (b_data b) (b_tail b) bs;
       bs \<leftarrow> get_bytes src right left;
       data \<leftarrow> put_bytes data 0 bs;
       c_assert (b_size b \<noteq> 0);
       Some (b\<lparr>b_data := data, b_tail := (b_tail b + sz) mod b_size b, b_count := b_count b + sz\<rparr>, sz) } }"

definition buffer_count :: "buffer_t \<Rightarrow> nat" where
  "buffer_count b = b_count b"

section \<open>Invariant and abstraction\<close>

definition buffer_inv :: "buffer_t \<Rightarrow> bool" where
  "buffer_inv b \<longleftrightarrow> 0 < b_size b \<and> length (b_data b) = b_size b \<and> b_count b \<le> b_size b \<and> b_head b < b_size b \<and>
     b_tail b = (b_head b + b_count b) mod b_size b"

definition buffer_abs :: "buffer_t \<Rightarrow> byte list" where
  "buffer_abs b = take (b_count b) (rotate (b_head b) (b_data b))"

text \<open>The calls a client makes, and what they do to the sequence of waiting bytes.\<close>

datatype buffer_op = BWrite "byte list" | BRead nat | BCount

fun buffer_call :: "buffer_op \<Rightarrow> buffer_t \<Rightarrow> (buffer_t \<times> byte list \<times> nat) option" where
  "buffer_call (BWrite bs) b = do { (b, n) \<leftarrow> buffer_write bs (length bs) b; Some (b, [], n) }"
| "buffer_call (BRead n) b = do {
     (b, dest, k) \<leftarrow> buffer_read (replicate n 0) n b; Some (b, take k dest, k) }"
| "buffer_call BCount b = Some (b, [], buffer_count b)"

fun buffer_spec :: "buffer_op \<Rightarrow> byte list \<Rightarrow> byte list \<times> byte list \<times> nat" where
  "buffer_spec (BWrite bs) xs = (xs @ bs, [], length bs)"
| "buffer_spec (BRead n) xs = (drop n xs, take n xs, min n (length xs))"
| "buffer_spec BCount xs = (xs, [], length xs)"

section \<open>Correctness of the operations\<close>

lemma length_buffer_abs [simp]: "buffer_inv b \<Longrightarrow> length (buffer_abs b) = b_count b"
  by (simp add: buffer_inv_def buffer_abs_def)

lemma create_inv: "0 < sz \<Longrightarrow> buffer_inv (buffer_create sz)" "buffer_abs (buffer_create sz) = []"
  by (simp_all add: buffer_inv_def buffer_abs_def buffer_create_def)

lemma rotate_less: "k < length xs \<Longrightarrow> rotate k xs = drop k xs @ take k xs"
  by (simp add: rotate_drop_take)

lemma grow_run:
  assumes "buffer_inv b" "b_size b \<le> sz"
  shows "\<exists>b'. grow sz b = Some (b', True) \<and> buffer_inv (b'\<lparr>b_tail := b_count b mod sz\<rparr>) \<and> b_size b' = sz \<and>
    b_tail b' = b_count b \<and> b_count b' = b_count b \<and> buffer_abs b' = buffer_abs b"
proof -
  note inv = assms(1) [unfolded buffer_inv_def]
  have h: "drop (b_head b) (b_data b) @ take (b_head b) (b_data b) = rotate (b_head b) (b_data b)"
    using inv by (simp add: rotate_less)
  let ?d = "rotate (b_head b) (b_data b) @ replicate (sz - b_size b) 0"
  have "grow sz b = Some (b\<lparr>b_data := ?d, b_size := sz, b_head := 0, b_tail := b_count b\<rparr>, True)"
    using inv assms(2) by (simp add: grow_def Let_def h [symmetric])
  then show ?thesis using inv assms(2) by (simp add: buffer_inv_def buffer_abs_def)
qed

lemma write_grow_loop_run:
  assumes "buffer_inv b" "0 < sz"
  shows "\<exists>b'. write_grow_loop sz b = Some (b', True) \<and> buffer_inv b' \<and> b_count b' + sz \<le> b_size b' \<and>
    b_count b' = b_count b \<and> buffer_abs b' = buffer_abs b"
proof (cases "b_count b + sz > b_size b")
  case True
  let ?n = "max (b_count b + sz) (b_size b * 2)"
  obtain b1 where b1: "grow ?n b = Some (b1, True)" "buffer_inv (b1\<lparr>b_tail := b_count b mod ?n\<rparr>)" "b_size b1 = ?n"
      "b_tail b1 = b_count b" "b_count b1 = b_count b" "buffer_abs b1 = buffer_abs b"
    using grow_run [OF assms(1), of ?n] by fastforce
  have "b_count b < ?n" using assms(2) by simp
  then have "b1\<lparr>b_tail := b_count b mod ?n\<rparr> = b1" using b1(4) by simp
  then have "buffer_inv b1" using b1(2) by simp
  moreover have "write_grow_loop sz b1 = Some (b1, True)"
    using b1(3,5) by (subst write_grow_loop.simps) simp
  ultimately show ?thesis using True b1 by (subst write_grow_loop.simps) auto
next
  case False
  then show ?thesis using assms by (subst write_grow_loop.simps) auto
qed

text \<open>Writing at the tail of the ring, in one or two pieces.\<close>

definition ring_write :: "byte list \<Rightarrow> nat \<Rightarrow> byte list \<Rightarrow> byte list" where
  "ring_write data t bs = (let right = min (length data - t) (length bs); d = take t data @ take right bs @ drop (t + right) data
     in drop right bs @ drop (length bs - right) d)"

lemma ring_write_rotate:
  assumes "t < length data" "length bs \<le> length data"
  shows "length (ring_write data t bs) = length data"
    "rotate t (ring_write data t bs) = bs @ drop (length bs) (rotate t data)"
proof -
  have 1: "length (ring_write data t bs) = length data \<and> rotate t (ring_write data t bs) = bs @ drop (length bs) (rotate t data)"
  proof (cases "length bs \<le> length data - t")
    case True
    then have "ring_write data t bs = take t data @ bs @ drop (t + length bs) data"
      by (simp add: ring_write_def Let_def)
    then show ?thesis using True assms by (simp add: rotate_less add.commute)
  next
    case False
    then have w: "ring_write data t bs =
        drop (length data - t) bs @ drop (length bs - (length data - t)) (take t data) @ take (length data - t) bs"
      using assms by (simp add: ring_write_def Let_def)
    let ?u = "drop (length data - t) bs @ drop (length bs - (length data - t)) (take t data)"
    have u: "length ?u = t" using False assms by auto
    have w': "ring_write data t bs = ?u @ take (length data - t) bs" using w by simp
    have rot: "rotate t (?u @ take (length data - t) bs) = take (length data - t) bs @ ?u"
      using rotate_append [of ?u "take (length data - t) bs"] unfolding u .
    have "drop (length bs) (rotate t data) = drop (length bs - (length data - t)) (take t data)"
      using False assms by (simp add: rotate_less)
    then have e: "bs @ drop (length bs) (rotate t data) = take (length data - t) bs @ ?u"
      by (metis append_assoc append_take_drop_id)
    have "length (?u @ take (length data - t) bs) = length data"
      unfolding length_append u using False assms by simp
    then show ?thesis unfolding w' rot e by blast
  qed
  then show "length (ring_write data t bs) = length data"
    "rotate t (ring_write data t bs) = bs @ drop (length bs) (rotate t data)" by blast+
qed

lemma ring_write_puts:
  assumes "t < length data" "length bs \<le> length data"
  shows "\<exists>d. put_bytes data t (take (min (length data - t) (length bs)) bs) = Some d \<and>
    put_bytes d 0 (drop (min (length data - t) (length bs)) bs) = Some (ring_write data t bs)"
proof -
  let ?r = "min (length data - t) (length bs)"
  have r: "t + ?r \<le> length data" "length (take ?r bs) = ?r" using assms by auto
  let ?d = "take t data @ take ?r bs @ drop (t + ?r) data"
  have 1: "put_bytes data t (take ?r bs) = Some ?d" using r by (simp only: put_bytes_ok)
  have "length ?d = length data" using r by simp
  then have "put_bytes ?d 0 (drop ?r bs) = Some (ring_write data t bs)"
    using assms unfolding ring_write_def Let_def by (subst put_bytes_ok) simp_all
  then show ?thesis using 1 by blast
qed

lemma mod_shift: "((h + c) mod n + k) mod n = (h + (c + k)) mod (n :: nat)"
  by (simp add: mod_add_left_eq add.assoc)

lemma ring_append:
  assumes "h < length data" "c + length bs \<le> length data" "bs \<noteq> []"
  shows "take (c + length bs) (rotate h (ring_write data ((h + c) mod length data) bs)) = take c (rotate h data) @ bs"
proof -
  let ?t = "(h + c) mod length data" and ?w = "ring_write data ((h + c) mod length data) bs"
  have t: "?t < length data" using assms(1) by (intro mod_less_divisor) linarith
  have len: "length ?w = length data" using ring_write_rotate(1) [OF t] assms(2) by simp
  have c: "c < length data" using assms(2,3) by (cases bs) auto
  have rot: "rotate ?t xs = rotate c (rotate h xs)" if "length xs = length data" for xs :: "byte list"
    using that rotate_conv_mod [of "h + c" xs] by (simp add: rotate_rotate add.commute)
  have "rotate c (rotate h ?w) = bs @ drop (length bs) (rotate c (rotate h data))"
    using ring_write_rotate(2) [OF t, of bs] assms(2) by (simp add: rot len flip: rot)
  then have "drop c (rotate h ?w) @ take c (rotate h ?w) =
      (bs @ drop (length bs) (drop c (rotate h data))) @ take c (rotate h data)"
    using c len assms(2) by (simp add: rotate_less)
  then have "drop c (rotate h ?w) = bs @ drop (length bs) (drop c (rotate h data)) \<and> take c (rotate h ?w) = take c (rotate h data)"
    using c len assms(2) by (subst (asm) append_eq_append_conv) simp_all
  then show ?thesis by (simp add: take_add)
qed

lemma buffer_write_run:
  assumes "buffer_inv b"
  shows "\<exists>b'. buffer_write bs (length bs) b = Some (b', length bs) \<and> buffer_inv b' \<and> buffer_abs b' = buffer_abs b @ bs"
proof (cases "bs = []")
  case True
  have "write_grow_loop 0 b = Some (b, True)" using assms by (subst write_grow_loop.simps) (simp add: buffer_inv_def)
  then show ?thesis using assms True by (simp add: buffer_write_def Let_def buffer_inv_def buffer_abs_def)
next
  case False
  obtain b1 where b1: "write_grow_loop (length bs) b = Some (b1, True)" "buffer_inv b1"
      "b_count b1 + length bs \<le> b_size b1" "b_count b1 = b_count b" "buffer_abs b1 = buffer_abs b"
    using write_grow_loop_run [OF assms, of "length bs"] False by auto
  note inv = b1(2) [unfolded buffer_inv_def]
  let ?d = "ring_write (b_data b1) (b_tail b1) bs"
  have t: "b_tail b1 < b_size b1" using inv by simp
  obtain d where d: "put_bytes (b_data b1) (b_tail b1) (take (min (b_size b1 - b_tail b1) (length bs)) bs) = Some d"
      "put_bytes d 0 (drop (min (b_size b1 - b_tail b1) (length bs)) bs) = Some ?d"
    using ring_write_puts [of "b_tail b1" "b_data b1" bs] inv b1(3) t by auto
  have "0 < b_size b1" using inv by simp
  then have "buffer_write bs (length bs) b = Some (b1\<lparr>b_data := ?d, b_tail := (b_tail b1 + length bs) mod b_size b1,
      b_count := b_count b1 + length bs\<rparr>, length bs)" (is "_ = Some (?b, _)")
    using b1(1) d by (simp add: buffer_write_def Let_def)
  moreover have "buffer_inv ?b"
    using inv b1(3) t ring_write_rotate(1) [of "b_tail b1" "b_data b1" bs] by (simp add: buffer_inv_def mod_shift)
  moreover have "buffer_abs ?b = buffer_abs b1 @ bs"
    using inv b1(3) False ring_append [of "b_head b1" "b_data b1" "b_count b1" bs] by (simp add: buffer_abs_def)
  ultimately show ?thesis using b1(5) by auto
qed

lemma ring_read:
  assumes "h < length d" "k \<le> length d"
  shows "take (min (length d - h) k) (drop h d) @ take (k - min (length d - h) k) d = take k (rotate h d)"
proof (cases "k \<le> length d - h")
  case False
  then have "k - (length d - h) \<le> h" "length d - h \<le> k" using assms by linarith+
  then show ?thesis using assms(1) by (simp add: rotate_less)
qed (use assms in \<open>simp add: rotate_less\<close>)

lemma put_pair:
  assumes "length xs + length ys \<le> n"
  shows "put_bytes (replicate n z) 0 xs = Some (xs @ replicate (n - length xs) z)"
    "put_bytes (xs @ replicate (n - length xs) z) (length xs) ys = Some (xs @ ys @ replicate (n - (length xs + length ys)) z)"
  using assms by (simp_all add: put_bytes_def)

lemma buffer_read_run:
  assumes "buffer_inv b"
  shows "\<exists>b' dest. buffer_read (replicate n 0) n b = Some (b', dest, min n (b_count b)) \<and> buffer_inv b' \<and>
    buffer_abs b' = drop n (buffer_abs b) \<and> take (min n (b_count b)) dest = take n (buffer_abs b)"
proof -
  note inv = assms [unfolded buffer_inv_def]
  let ?k = "min n (b_count b)" and ?h = "b_head b" and ?d = "b_data b"
  let ?r = "min (b_size b - ?h) ?k"
  let ?b = "b\<lparr>b_head := (?h + ?k) mod b_size b, b_count := b_count b - ?k\<rparr>"
  let ?o = "take ?r (drop ?h ?d) @ take (?k - ?r) ?d"
  have lo: "length ?o = ?k" using inv by auto
  let ?A = "take ?r (drop ?h ?d)" and ?B = "take (?k - ?r) ?d"
  have l: "length ?A = ?r" "length ?B = ?k - ?r" "?h + ?r \<le> length ?d" "0 + (?k - ?r) \<le> length ?d" "?r + (?k - ?r) = ?k" "?k \<le> n"
    using inv by auto
  have get: "get_bytes ?d ?h ?r = Some ?A" "get_bytes ?d 0 (?k - ?r) = Some ?B"
    using l(3,4) by (simp_all only: get_bytes_ok drop_0)
  have put: "put_bytes (replicate n 0) 0 ?A = Some (?A @ replicate (n - ?r) 0)"
    "put_bytes (?A @ replicate (n - ?r) 0) ?r ?B = Some (?o @ replicate (n - ?k) 0)"
    using put_pair [of ?A ?B n 0] unfolding l(1,2,5) append_assoc using l(6) by blast+
  have "buffer_read (replicate n 0) n b = Some (?b, ?o @ replicate (n - ?k) 0, ?k)"
    using inv by (simp add: buffer_read_def Let_def get put del: append_assoc)
  moreover have "buffer_inv ?b"
    using inv mod_shift [of ?h ?k "b_size b" "b_count b - ?k"] le_trans [OF diff_le_self, of "b_count b" "b_size b" ?k]
    by (simp add: buffer_inv_def)
  moreover have "buffer_abs ?b = drop n (buffer_abs b)"
  proof -
    have "rotate ((?h + ?k) mod b_size b) ?d = rotate ?k (rotate ?h ?d)"
      using inv rotate_conv_mod [of "?h + ?k" ?d] by (simp add: rotate_rotate add.commute)
    then have "buffer_abs ?b = take (b_count b - ?k) (rotate ?k (rotate ?h ?d))" by (simp add: buffer_abs_def)
    also have "\<dots> = take (b_count b - ?k) (drop ?k (rotate ?h ?d))"
    proof (cases "?k < b_size b")
      case True
      then have "rotate ?k (rotate ?h ?d) = drop ?k (rotate ?h ?d) @ take ?k (rotate ?h ?d)"
        using rotate_less [of ?k "rotate ?h ?d"] inv by simp
      moreover have "b_count b - ?k \<le> length (drop ?k (rotate ?h ?d))" using inv diff_le_mono by simp
      ultimately show ?thesis by (simp only: take_append) simp
    next
      case False
      then have "b_count b - ?k = 0" using inv by linarith
      then show ?thesis by simp
    qed
    also have "\<dots> = drop n (buffer_abs b)" by (simp add: buffer_abs_def drop_take min_def)
    finally show ?thesis .
  qed
  moreover have "take ?k (?o @ replicate (n - ?k) 0) = take n (buffer_abs b)"
  proof -
    have "?k \<le> length ?d" using inv by linarith
    then have "?o = take ?k (rotate ?h ?d)" using ring_read [of ?h ?d ?k] inv by simp
    then show ?thesis using lo by (simp add: buffer_abs_def min.commute)
  qed
  ultimately show ?thesis by blast
qed

interpretation buffer_adt: adt buffer_inv buffer_abs buffer_call "\<lambda>_ _. True" buffer_spec
proof
  fix b c assume inv: "buffer_inv b"
  show "\<exists>b'. buffer_call c b = Some (b', snd (buffer_spec c (buffer_abs b))) \<and> buffer_inv b' \<and>
      buffer_abs b' = fst (buffer_spec c (buffer_abs b))"
  proof (cases c)
    case (BWrite bs)
    then show ?thesis using buffer_write_run [OF inv, of bs] by auto
  next
    case (BRead n)
    then show ?thesis using buffer_read_run [OF inv, of n] inv by auto
  next
    case BCount
    then show ?thesis using inv by (simp add: buffer_count_def)
  qed
qed

section \<open>Properties\<close>

text \<open>
  the buffer is a stream of bytes. From a new buffer of any positive size, every sequence of
  reads, writes and counts returns without leaving the array, whatever wraps around or grows; what
  is read is what was written, in order, and each call reports the number of bytes it moved. A
  buffer created with size zero stops the program at its first read, in the division by its size.
\<close>

theorem buffer_refines_stream:
  "(\<exists>b. run_calls buffer_call cs (buffer_create (Suc n)) = Some (b, snd (run_spec buffer_spec cs [])) \<and>
      buffer_inv b \<and> buffer_abs b = fst (run_spec buffer_spec cs [])) \<and>
   buffer_call (BRead k) (buffer_create 0) = None"
proof
  show "\<exists>b. run_calls buffer_call cs (buffer_create (Suc n)) = Some (b, snd (run_spec buffer_spec cs [])) \<and>
      buffer_inv b \<and> buffer_abs b = fst (run_spec buffer_spec cs [])"
    using buffer_adt.calls_refine [of "buffer_create (Suc n)" cs] create_inv [of "Suc n"] by simp
  show "buffer_call (BRead k) (buffer_create 0) = None"
    by (simp add: buffer_read_def buffer_create_def Let_def)
qed

end
