(* ===== verification/UtilBitMap.thy ===== *)
theory UtilBitMap
  imports CPrelude
begin

unbundle bit_operations_syntax

text \<open>
  The bit maps of \<^verbatim>\<open>lib/util/bit-map.c\<close>: an array of 32-bit words, read and written in fields of
  at most 32 bits at any bit position. Positions and sizes are the values of the C type
  \<^verbatim>\<open>unsigned int\<close>, as natural numbers; the sums the code computes wrap (\<open>u32\<close>). The constant 1
  that is shifted has 32 bits. \<^verbatim>\<open>abort\<close> is the result \<^term>\<open>None\<close>.

  The abstraction of a bit map is its bits: \<open>bm_bit m i\<close>.
\<close>

section \<open>The code\<close>

definition u32 :: "nat \<Rightarrow> nat" where
  "u32 n = n mod 2 ^ 32"

record bit_map_t =
  bm_size :: nat
  bm_word_count :: nat
  bm_data :: "32 word list"

definition bit_map_create :: "nat \<Rightarrow> bit_map_t" where
  "bit_map_create sz = (let word_count = u32 (sz + 31) div 32
     in \<lparr>bm_size = sz, bm_word_count = word_count, bm_data = replicate word_count 0\<rparr>)"

definition bit_map_set :: "nat \<Rightarrow> nat \<Rightarrow> 32 word \<Rightarrow> bit_map_t \<Rightarrow> bit_map_t option" where
  "bit_map_set wh sz val m = (if sz > 32 then None else
     let where_word1 = wh div 32; where_offset1 = wh mod 32; size_align1 = min sz (32 - where_offset1)
     in if where_word1 \<ge> bm_word_count m then Some m
     else if sz = 32 \<and> where_offset1 = 0 then do {
       data \<leftarrow> wr (bm_data m) where_word1 val;
       Some (m\<lparr>bm_data := data\<rparr>) }
     else do {
       let word1_mask = push_bit where_offset1 (push_bit size_align1 1 - 1);
       let word1_value = push_bit where_offset1 val AND word1_mask;
       w \<leftarrow> rd (bm_data m) where_word1;
       data \<leftarrow> wr (bm_data m) where_word1 ((w AND NOT word1_mask) OR word1_value);
       if size_align1 = sz then Some (m\<lparr>bm_data := data\<rparr>) else do {
         let where_word2 = where_word1 + 1;
         let size_align2 = sz - size_align1;
         if where_word2 \<ge> bm_word_count m then Some (m\<lparr>bm_data := data\<rparr>) else do {
           let word2_mask = push_bit size_align2 1 - 1;
           let word2_value = drop_bit size_align1 val AND word2_mask;
           w \<leftarrow> rd data where_word2;
           data \<leftarrow> wr data where_word2 ((w AND NOT word2_mask) OR word2_value);
           Some (m\<lparr>bm_data := data\<rparr>) } } })"

definition bit_map_get :: "nat \<Rightarrow> nat \<Rightarrow> bit_map_t \<Rightarrow> 32 word option" where
  "bit_map_get wh sz m = (if sz > 32 then None else
     let where_word1 = wh div 32; where_offset1 = wh mod 32; size_align1 = min sz (32 - where_offset1)
     in do {
       word1 \<leftarrow> if where_word1 < bm_word_count m then rd (bm_data m) where_word1 else Some 0;
       if sz = 32 \<and> where_offset1 = 0 then Some word1 else do {
         let word1_mask = push_bit where_offset1 (push_bit size_align1 1 - 1);
         let result = drop_bit where_offset1 (word1 AND word1_mask);
         if size_align1 = sz then Some result else do {
           let size_align2 = sz - size_align1;
           let word2_mask = push_bit size_align2 1 - 1;
           Some (result OR push_bit size_align1 (word1 AND word2_mask)) } } })"

definition bit_map_count_ones :: "nat \<Rightarrow> nat \<Rightarrow> bit_map_t \<Rightarrow> 32 word option" where
  "bit_map_count_ones wh sz m =
     for_loop 0 sz (\<lambda>i count. do { b \<leftarrow> bit_map_get (u32 (wh + i)) 1 m; Some (count + b) }) 0"

function bit_map_copy :: "nat \<Rightarrow> bit_map_t \<Rightarrow> nat \<Rightarrow> nat \<Rightarrow> bit_map_t \<Rightarrow> bit_map_t option" where
  "bit_map_copy dst_where src src_where sz dst =
     (if sz = 0 then Some dst else
      let current_size = min sz 32
      in do {
        word \<leftarrow> bit_map_get src_where current_size src;
        dst \<leftarrow> bit_map_set dst_where current_size word dst;
        bit_map_copy (u32 (dst_where + current_size)) src (u32 (src_where + current_size)) (sz - current_size) dst })"
  by pat_completeness auto
termination
  by (relation "measure (\<lambda>(dw, src, sw, sz, dst). sz)") auto

declare bit_map_copy.simps [simp del]

section \<open>The bits of a map\<close>

definition bm_inv :: "bit_map_t \<Rightarrow> bool" where
  "bm_inv m \<longleftrightarrow> length (bm_data m) = bm_word_count m"

definition bm_bits :: "bit_map_t \<Rightarrow> nat" where
  "bm_bits m = 32 * bm_word_count m"

definition bm_bit :: "bit_map_t \<Rightarrow> nat \<Rightarrow> bool" where
  "bm_bit m i \<longleftrightarrow> i < bm_bits m \<and> bit (bm_data m ! (i div 32)) (i mod 32)"

lemma u32_id [simp]: "n < 2 ^ 32 \<Longrightarrow> u32 n = n"
  by (simp add: u32_def)

lemma create_bits: "bm_inv (bit_map_create sz)" "\<not> bm_bit (bit_map_create sz) i"
  by (auto simp: bm_inv_def bm_bit_def bm_bits_def bit_map_create_def Let_def less_mult_imp_div_less mult.commute)

lemma create_size: "sz + 31 < 2 ^ 32 \<Longrightarrow> sz \<le> bm_bits (bit_map_create sz)"
  by (simp add: bm_bits_def bit_map_create_def Let_def)

lemma word_pos: "(r :: nat) < 32 \<Longrightarrow> (32 * p + r) div 32 = p" "r < 32 \<Longrightarrow> (32 * p + r) mod 32 = r"
  by simp_all

lemma mask_word: "push_bit n 1 - 1 = (mask n :: 32 word)"
  by (simp add: mask_eq_exp_minus_1 push_bit_of_1)

text \<open>Replacing a field of \<open>s\<close> bits at offset \<open>k\<close> of one word.\<close>

lemma bit_field1:
  fixes w v :: "32 word"
  assumes "j < 32" "k + s \<le> 32"
  shows "bit ((w AND NOT (push_bit k (push_bit s 1 - 1))) OR (push_bit k v AND push_bit k (push_bit s 1 - 1))) j \<longleftrightarrow>
    (if k \<le> j \<and> j < k + s then bit v (j - k) else bit w j)"
  using assms unfolding mask_word by (auto simp: bit_simps)

lemma bit_field2:
  fixes w v :: "32 word"
  assumes "j < 32" "a + s \<le> 32"
  shows "bit ((w AND NOT (push_bit s 1 - 1)) OR (drop_bit a v AND (push_bit s 1 - 1))) j \<longleftrightarrow>
    (if j < s then bit v (a + j) else bit w j)"
  using assms unfolding mask_word by (auto simp: bit_simps)

text \<open>Two words of the array replaced, seen at bit \<open>i\<close>.\<close>

lemma bm_bit_update:
  assumes "bm_inv m" "p < bm_word_count m"
  shows "bm_bit (m\<lparr>bm_data := (bm_data m)[p := w]\<rparr>) i = (if i div 32 = p then bit w (i mod 32) else bm_bit m i)"
proof -
  have "i < bm_bits m \<longleftrightarrow> i div 32 < bm_word_count m" unfolding bm_bits_def by linarith
  then show ?thesis using assms by (auto simp: bm_bit_def bm_inv_def bm_bits_def nth_list_update)
qed

lemma bit_map_set_bits:
  assumes "bm_inv m" "sz \<le> 32"
  shows "\<exists>m'. bit_map_set wh sz v m = Some m' \<and> bm_inv m' \<and> bm_word_count m' = bm_word_count m \<and>
    (\<forall>i. bm_bit m' i = (if wh \<le> i \<and> i < wh + sz \<and> i < bm_bits m then bit v (i - wh) else bm_bit m i))"
proof -
  let ?p = "wh div 32" and ?k = "wh mod 32"
  let ?s1 = "min sz (32 - ?k)"
  have len: "length (bm_data m) = bm_word_count m" using assms(1) by (simp add: bm_inv_def)
  have k: "?k < 32" "wh = 32 * ?p + ?k" by simp_all
  have dm: "i = 32 * (i div 32) + i mod 32" "i mod 32 < 32" for i :: nat by simp_all
  consider (beyond) "bm_word_count m \<le> ?p" | (aligned) "?p < bm_word_count m" "sz = 32" "?k = 0"
    | (one) "?p < bm_word_count m" "\<not> (sz = 32 \<and> ?k = 0)" "?k + sz \<le> 32"
    | (last) "?p < bm_word_count m" "32 < ?k + sz" "bm_word_count m \<le> Suc ?p"
    | (two) "Suc ?p < bm_word_count m" "32 < ?k + sz"
    by linarith
  then show ?thesis
  proof cases
    case beyond
    have "\<not> i < bm_bits m" if "wh \<le> i" for i
      using that beyond unfolding bm_bits_def by linarith
    then have "bm_bit m i = (if wh \<le> i \<and> i < wh + sz \<and> i < bm_bits m then bit v (i - wh) else bm_bit m i)" for i
      by auto
    moreover have "bit_map_set wh sz v m = Some m" using beyond assms by (simp add: bit_map_set_def Let_def)
    ultimately show ?thesis using assms by blast
  next
    case aligned
    let ?m = "m\<lparr>bm_data := (bm_data m)[?p := v]\<rparr>"
    have "bit_map_set wh sz v m = Some ?m" using aligned len by (simp add: bit_map_set_def Let_def)
    moreover have "bm_bit ?m i = (if wh \<le> i \<and> i < wh + sz \<and> i < bm_bits m then bit v (i - wh) else bm_bit m i)" for i
    proof -
      have "i div 32 = ?p \<longleftrightarrow> wh \<le> i \<and> i < wh + sz" "i div 32 = ?p \<Longrightarrow> i - wh = i mod 32" "i div 32 = ?p \<Longrightarrow> i < bm_bits m"
        using aligned dm [of i] k unfolding bm_bits_def by linarith+
      then show ?thesis using bm_bit_update [OF assms(1) aligned(1)] by auto
    qed
    ultimately show ?thesis using len by (simp add: bm_inv_def)
  next
    case one
    let ?w = "(bm_data m ! ?p AND NOT (push_bit ?k (push_bit sz 1 - 1))) OR (push_bit ?k v AND push_bit ?k (push_bit sz 1 - 1))"
    let ?m = "m\<lparr>bm_data := (bm_data m)[?p := ?w]\<rparr>"
    have s1: "?s1 = sz" using one by linarith
    have "bit_map_set wh sz v m = Some ?m"
      using one assms(2) len unfolding bit_map_set_def Let_def s1 by auto
    moreover have "bm_bit ?m i = (if wh \<le> i \<and> i < wh + sz \<and> i < bm_bits m then bit v (i - wh) else bm_bit m i)" for i
    proof (cases "i div 32 = ?p")
      case True
      have ib: "i < bm_bits m" using True one(1) dm [of i] unfolding bm_bits_def by linarith
      have "bm_bit ?m i = bit ?w (i mod 32)" using True bm_bit_update [OF assms(1) one(1)] by simp
      also have "\<dots> = (if ?k \<le> i mod 32 \<and> i mod 32 < ?k + sz then bit v (i mod 32 - ?k) else bit (bm_data m ! ?p) (i mod 32))"
        by (rule bit_field1 [OF dm(2) one(3)])
      also note v = calculation
      have e2: "i mod 32 - ?k = i - wh" "?k \<le> i mod 32 \<longleftrightarrow> wh \<le> i" "i mod 32 < ?k + sz \<longleftrightarrow> i < wh + sz"
        using True dm(1) [of i] k(2) by linarith+
      show ?thesis using v [unfolded e2] True ib by (simp add: bm_bit_def)
    next
      case False
      then have "\<not> (wh \<le> i \<and> i < wh + sz)" using one(3) dm [of i] k by linarith
      then show ?thesis using False bm_bit_update [OF assms(1) one(1)] by auto
    qed
    ultimately show ?thesis using len by (simp add: bm_inv_def)
  next
    case last
    let ?w = "(bm_data m ! ?p AND NOT (push_bit ?k (push_bit (32 - ?k) 1 - 1))) OR (push_bit ?k v AND push_bit ?k (push_bit (32 - ?k) 1 - 1))"
    let ?m = "m\<lparr>bm_data := (bm_data m)[?p := ?w]\<rparr>"
    have s1: "?s1 = 32 - ?k" "32 - ?k \<noteq> sz" "?k \<noteq> 0" using last assms(2) by linarith+
    have "bit_map_set wh sz v m = Some ?m"
      using last assms(2) len s1(2,3) unfolding bit_map_set_def Let_def s1(1) by auto
    moreover have "bm_bit ?m i = (if wh \<le> i \<and> i < wh + sz \<and> i < bm_bits m then bit v (i - wh) else bm_bit m i)" for i
    proof (cases "i div 32 = ?p")
      case True
      have ib: "i < bm_bits m" using True last(1) dm [of i] unfolding bm_bits_def by linarith
      have e: "?k + (32 - ?k) \<le> 32" using k by linarith
      have "bm_bit ?m i = bit ?w (i mod 32)" using True bm_bit_update [OF assms(1) last(1)] by simp
      also have "\<dots> = (if ?k \<le> i mod 32 \<and> i mod 32 < ?k + (32 - ?k) then bit v (i mod 32 - ?k) else bit (bm_data m ! ?p) (i mod 32))"
        by (rule bit_field1 [OF dm(2) e])
      also note v = calculation
      have e2: "i mod 32 - ?k = i - wh" "?k \<le> i mod 32 \<longleftrightarrow> wh \<le> i" "i mod 32 < ?k + (32 - ?k) \<longleftrightarrow> i < wh + sz"
        using True dm [of i] k last(2) by linarith+
      show ?thesis using v [unfolded e2] True ib by (simp add: bm_bit_def)
    next
      case False
      then have "\<not> (wh \<le> i \<and> i < bm_bits m)" using last(3) dm [of i] k unfolding bm_bits_def by linarith
      then show ?thesis using False bm_bit_update [OF assms(1) last(1)] by auto
    qed
    ultimately show ?thesis using len by (simp add: bm_inv_def)
  next
    case two
    let ?s2 = "sz - (32 - ?k)"
    let ?w = "(bm_data m ! ?p AND NOT (push_bit ?k (push_bit (32 - ?k) 1 - 1))) OR (push_bit ?k v AND push_bit ?k (push_bit (32 - ?k) 1 - 1))"
    let ?w2 = "(bm_data m ! Suc ?p AND NOT (push_bit ?s2 1 - 1)) OR (drop_bit (32 - ?k) v AND (push_bit ?s2 1 - 1))"
    let ?m1 = "m\<lparr>bm_data := (bm_data m)[?p := ?w]\<rparr>"
    let ?m = "m\<lparr>bm_data := (bm_data m)[?p := ?w, Suc ?p := ?w2]\<rparr>"
    have s1: "?s1 = 32 - ?k" "32 - ?k \<noteq> sz" "?k \<noteq> 0" "32 - ?k + ?s2 \<le> 32" "?p < bm_word_count m"
      using two assms(2) by linarith+
    have "bit_map_set wh sz v m = Some ?m"
      using two assms(2) len s1(2,3,5) unfolding bit_map_set_def Let_def s1(1) by auto
    moreover have "bm_bit ?m i = (if wh \<le> i \<and> i < wh + sz \<and> i < bm_bits m then bit v (i - wh) else bm_bit m i)" for i
    proof -
      have i1: "bm_inv ?m1" "bm_word_count ?m1 = bm_word_count m" using len by (simp_all add: bm_inv_def)
      have upd: "bm_bit ?m i = (if i div 32 = Suc ?p then bit ?w2 (i mod 32) else bm_bit ?m1 i)"
        using bm_bit_update [OF i1(1), of "Suc ?p" ?w2 i] two(1) by simp
      consider "i div 32 = ?p" | "i div 32 = Suc ?p" | "i div 32 \<noteq> ?p" "i div 32 \<noteq> Suc ?p" by blast
      then show ?thesis
      proof cases
        case 1
        have ib: "i < bm_bits m" using 1 s1(5) dm [of i] unfolding bm_bits_def by linarith
        have e: "?k + (32 - ?k) \<le> 32" using k by linarith
        have "bm_bit ?m i = bit ?w (i mod 32)" using upd 1 bm_bit_update [OF assms(1) s1(5)] by simp
        also have "\<dots> = (if ?k \<le> i mod 32 \<and> i mod 32 < ?k + (32 - ?k) then bit v (i mod 32 - ?k) else bit (bm_data m ! ?p) (i mod 32))"
          by (rule bit_field1 [OF dm(2) e])
        also note v = calculation
      have e2: "i mod 32 - ?k = i - wh" "?k \<le> i mod 32 \<longleftrightarrow> wh \<le> i" "i mod 32 < ?k + (32 - ?k) \<longleftrightarrow> i < wh + sz"
          using 1 dm [of i] k two(2) by linarith+
        show ?thesis using v [unfolded e2] 1 ib by (simp add: bm_bit_def)
      next
        case 2
        have ib: "i < bm_bits m" using 2 two(1) dm [of i] unfolding bm_bits_def by linarith
        have "bm_bit ?m i = bit ?w2 (i mod 32)" using upd 2 by simp
        also have "\<dots> = (if i mod 32 < ?s2 then bit v (32 - ?k + i mod 32) else bit (bm_data m ! Suc ?p) (i mod 32))"
          by (rule bit_field2 [OF dm(2) s1(4)])
        also note v = calculation
      have e2: "32 - ?k + i mod 32 = i - wh" "i mod 32 < ?s2 \<longleftrightarrow> wh \<le> i \<and> i < wh + sz"
          using 2 dm [of i] k two(2) by linarith+
        show ?thesis using v [unfolded e2] 2 ib by (simp add: bm_bit_def)
      next
        case 3
        then have "\<not> (wh \<le> i \<and> i < wh + sz)" using s1(4) dm [of i] k assms(2) by linarith
        then show ?thesis using 3 upd bm_bit_update [OF assms(1) s1(5)] by auto
      qed
    qed
    ultimately show ?thesis using len by (simp add: bm_inv_def)
  qed
qed

text \<open>A field that does not cross the end of its word is read exactly.\<close>

lemma bit_map_get_bits:
  assumes "bm_inv m" "wh mod 32 + sz \<le> 32"
  shows "\<exists>w. bit_map_get wh sz m = Some w \<and> (\<forall>j. bit w j \<longleftrightarrow> j < sz \<and> bm_bit m (wh + j))"
proof -
  let ?p = "wh div 32" and ?k = "wh mod 32"
  have s1: "min sz (32 - ?k) = sz" "sz \<le> 32" using assms(2) by linarith+
  have len: "length (bm_data m) = bm_word_count m" using assms(1) by (simp add: bm_inv_def)
  let ?w = "if ?p < bm_word_count m then bm_data m ! ?p else 0"
  let ?r = "if sz = 32 \<and> ?k = 0 then ?w else drop_bit ?k (?w AND push_bit ?k (push_bit sz 1 - 1))"
  have "bit_map_get wh sz m = Some ?r"
    using len s1(2) unfolding bit_map_get_def Let_def s1(1) by auto
  moreover have "bit ?r j \<longleftrightarrow> j < sz \<and> bm_bit m (wh + j)" for j
  proof (cases "j < sz")
    case True
    have "wh + j = 32 * ?p + (?k + j)" by simp
    moreover have "?k + j < 32" using True assms(2) by linarith
    ultimately have e: "wh + j = 32 * ?p + (?k + j)" "?k + j < 32" by blast+
    have q: "(wh + j) div 32 = ?p" "(wh + j) mod 32 = ?k + j" "wh + j < bm_bits m \<longleftrightarrow> ?p < bm_word_count m"
    proof -
      show "(wh + j) div 32 = ?p" unfolding e(1) by (rule word_pos(1) [OF e(2)])
      show "(wh + j) mod 32 = ?k + j" unfolding e(1) by (rule word_pos(2) [OF e(2)])
      show "wh + j < bm_bits m \<longleftrightarrow> ?p < bm_word_count m" unfolding e(1) bm_bits_def using e(2) by linarith
    qed
    have "bit ?r j \<longleftrightarrow> bit ?w (?k + j)"
      using True assms(2) unfolding mask_word by (auto simp: bit_simps)
    then show ?thesis using True q by (auto simp: bm_bit_def)
  next
    case False
    then have "\<not> bit ?r j" unfolding mask_word using bit_imp_le_length [of ?w j] by (auto simp: bit_simps)
    then show ?thesis using False by simp
  qed
  ultimately show ?thesis by blast
qed


text \<open>A field that crosses into the next word: the code reads its upper part from the first word.\<close>

lemma bit_map_get_crossing:
  assumes "bm_inv m" "sz \<le> 32" "32 < wh mod 32 + sz" "wh div 32 < bm_word_count m"
  shows "\<exists>w. bit_map_get wh sz m = Some w \<and> (\<forall>j < sz. bit w j \<longleftrightarrow>
    (if j < 32 - wh mod 32 then bm_bit m (wh + j) else bm_bit m (32 * (wh div 32) + (j - (32 - wh mod 32)))))"
proof -
  let ?p = "wh div 32" and ?k = "wh mod 32"
  have s1: "min sz (32 - ?k) = 32 - ?k" "32 - ?k \<noteq> sz" "?k \<noteq> 0" "?k < 32" using assms(2,3) by linarith+
  have len: "length (bm_data m) = bm_word_count m" using assms(1) by (simp add: bm_inv_def)
  let ?w = "bm_data m ! ?p"
  let ?r = "drop_bit ?k (?w AND push_bit ?k (push_bit (32 - ?k) 1 - 1)) OR
    push_bit (32 - ?k) (?w AND (push_bit (sz - (32 - ?k)) 1 - 1))"
  have "bit_map_get wh sz m = Some ?r"
    using len s1 assms(2,4) unfolding bit_map_get_def Let_def s1(1) by auto
  moreover have "bit ?r j \<longleftrightarrow>
      (if j < 32 - ?k then bm_bit m (wh + j) else bm_bit m (32 * ?p + (j - (32 - ?k))))" if j: "j < sz" for j
  proof -
    have d: "bm_bit m (32 * ?p + x) = bit ?w x" if "x < 32" for x
      using that assms(4) by (simp add: bm_bit_def bm_bits_def)
    have wh: "wh + j = 32 * ?p + (?k + j)" by simp
    have "bit ?r j \<longleftrightarrow> (if j < 32 - ?k then bit ?w (?k + j) else bit ?w (j - (32 - ?k)))"
      using j s1(4) assms(2,3) unfolding mask_word by (auto simp: bit_simps)
    also have "\<dots> \<longleftrightarrow> (if j < 32 - ?k then bm_bit m (32 * ?p + (?k + j)) else bm_bit m (32 * ?p + (j - (32 - ?k))))"
      using d [of "?k + j"] d [of "j - (32 - ?k)"] j assms(2) by (cases "j < 32 - ?k") simp_all
    finally show ?thesis unfolding wh .
  qed
  ultimately show ?thesis by blast
qed

section \<open>Counting and copying\<close>

lemma bit_map_count_ones_run:
  assumes "bm_inv m" "wh + sz \<le> 2 ^ 32"
  shows "bit_map_count_ones wh sz m = Some (of_nat (card {i. wh \<le> i \<and> i < wh + sz \<and> bm_bit m i}))"
proof -
  let ?S = "\<lambda>n. {i. wh \<le> i \<and> i < wh + n \<and> bm_bit m i}"
  let ?g = "\<lambda>n. of_nat (card (?S n)) :: 32 word"
  have "bit_map_count_ones wh sz m = Some (?g sz)"
    unfolding bit_map_count_ones_def
  proof (rule for_loop_eq [where g = ?g])
    fix i assume i: "i < sz"
    obtain w where w: "bit_map_get (wh + i) 1 m = Some w" "\<And>j. bit w j \<longleftrightarrow> j < 1 \<and> bm_bit m (wh + i + j)"
      using bit_map_get_bits [OF assms(1), of "wh + i" 1] by (auto simp: Suc_le_eq)
    have "w = of_bool (bm_bit m (wh + i))" by (rule bit_word_eqI) (auto simp: w(2) bit_simps)
    moreover have "?S (Suc i) = (if bm_bit m (wh + i) then insert (wh + i) (?S i) else ?S i)"
      by (auto simp: less_Suc_eq)
    moreover have "finite (?S i)" by simp
    ultimately show "(do { b \<leftarrow> bit_map_get (u32 (wh + i)) 1 m; Some (?g i + b) }) = Some (?g (Suc i))"
      using i assms(2) w(1) by simp
  next
    have c: "card {i. wh \<le> i \<and> i < wh + 0 \<and> bm_bit m i} = 0" by (simp add: Collect_conv_if2 not_less)
    show "0 = ?g 0" unfolding c by simp
  qed simp
  then show ?thesis .
qed

lemma bit_map_copy_run:
  assumes "bm_inv src" "bm_inv dst" "sw mod 32 = 0" "sw + sz \<le> 2 ^ 32" "dw + sz \<le> 2 ^ 32"
  shows "\<exists>d. bit_map_copy dw src sw sz dst = Some d \<and> bm_inv d \<and> bm_word_count d = bm_word_count dst \<and>
    (\<forall>i. bm_bit d i = (if dw \<le> i \<and> i < dw + sz \<and> i < bm_bits dst then bm_bit src (sw + (i - dw)) else bm_bit dst i))"
  using assms
proof (induction sz arbitrary: sw dw dst rule: less_induct)
  case (less sz)
  show ?case
  proof (cases "sz = 0")
    case True
    then show ?thesis using less.prems by (subst bit_map_copy.simps) auto
  next
    case False
    let ?c = "min sz 32"
    have c: "sw mod 32 + ?c \<le> 32" "?c \<le> 32" "0 < ?c" "?c \<le> sz" using less.prems(3) False by linarith+
    obtain w where w: "bit_map_get sw ?c src = Some w" "\<And>j. bit w j \<longleftrightarrow> j < ?c \<and> bm_bit src (sw + j)"
      using bit_map_get_bits [OF less.prems(1) c(1)] by blast
    obtain d where d: "bit_map_set dw ?c w dst = Some d" "bm_inv d" "bm_word_count d = bm_word_count dst"
        "\<And>i. bm_bit d i = (if dw \<le> i \<and> i < dw + ?c \<and> i < bm_bits dst then bit w (i - dw) else bm_bit dst i)"
      using bit_map_set_bits [OF less.prems(2) c(2)] by blast
    have bits: "bm_bits d = bm_bits dst" using d(3) by (simp add: bm_bits_def)
    have step: "bit_map_copy dw src sw sz dst = bit_map_copy (u32 (dw + ?c)) src (u32 (sw + ?c)) (sz - ?c) d"
      using False w(1) d(1) by (subst bit_map_copy.simps) (simp add: Let_def)
    show ?thesis
    proof (cases "sz \<le> 32")
      case True
      then have "sz - ?c = 0" "?c = sz" by simp_all
      then have "bit_map_copy dw src sw sz dst = Some d" using step by (simp add: bit_map_copy.simps)
      then show ?thesis using d w(2) \<open>?c = sz\<close> by auto
    next
      case big: False
      then have cc: "?c = 32" by simp
      have u: "u32 (dw + 32) = dw + 32" "u32 (sw + 32) = sw + 32" using big less.prems(4,5) by simp_all
      obtain d' where d': "bit_map_copy (dw + 32) src (sw + 32) (sz - 32) d = Some d'" "bm_inv d'" "bm_word_count d' = bm_word_count d"
          "\<And>i. bm_bit d' i = (if dw + 32 \<le> i \<and> i < dw + 32 + (sz - 32) \<and> i < bm_bits d
             then bm_bit src (sw + 32 + (i - (dw + 32))) else bm_bit d i)"
        using less.IH [of "sz - 32" d "sw + 32" "dw + 32"] less.prems d(2) big by (auto simp: mod_add_right_eq)
      have "bm_bit d' i = (if dw \<le> i \<and> i < dw + sz \<and> i < bm_bits dst then bm_bit src (sw + (i - dw)) else bm_bit dst i)" for i
      proof (cases "dw + 32 \<le> i \<and> i < dw + sz \<and> i < bm_bits dst")
        case True
        then have "sw + 32 + (i - (dw + 32)) = sw + (i - dw)" by linarith
        then show ?thesis using True d'(4) [of i] big bits by simp
      next
        case False
        then have "bm_bit d' i = bm_bit d i" using d'(4) [of i] big bits by auto
        then show ?thesis using False d(4) [of i] w(2) [of "i - dw"] big unfolding cc by auto
      qed
      moreover have "bit_map_copy dw src sw sz dst = Some d'" using step d'(1) unfolding cc u by simp
      ultimately show ?thesis using d'(2,3) d(3) by auto
    qed
  qed
qed

section \<open>Properties\<close>

text \<open>
  writing a field of a bit map and reading it back. \<^verbatim>\<open>bit_map_set\<close> returns for every position
  and changes exactly the bits of the field that the map has, across the end of a word too. Reading
  back a field that does not cross the end of its word gives the bits that were written.
\<close>

theorem bit_map_set_get:
  assumes "bm_inv m" "sz \<le> 32"
  shows "\<exists>m'. bit_map_set wh sz v m = Some m' \<and> bm_inv m' \<and> bm_word_count m' = bm_word_count m \<and>
    (\<forall>i. bm_bit m' i = (if wh \<le> i \<and> i < wh + sz \<and> i < bm_bits m then bit v (i - wh) else bm_bit m i)) \<and>
    (wh mod 32 + sz \<le> 32 \<and> wh + sz \<le> bm_bits m \<longrightarrow> bit_map_get wh sz m' = Some (take_bit sz v))"
proof -
  obtain m' where m': "bit_map_set wh sz v m = Some m'" "bm_inv m'" "bm_word_count m' = bm_word_count m"
      "\<And>i. bm_bit m' i = (if wh \<le> i \<and> i < wh + sz \<and> i < bm_bits m then bit v (i - wh) else bm_bit m i)"
    using bit_map_set_bits [OF assms] by blast
  have "bit_map_get wh sz m' = Some (take_bit sz v)" if c: "wh mod 32 + sz \<le> 32" "wh + sz \<le> bm_bits m"
  proof -
    obtain w where w: "bit_map_get wh sz m' = Some w" "\<And>j. bit w j \<longleftrightarrow> j < sz \<and> bm_bit m' (wh + j)"
      using bit_map_get_bits [OF m'(2) c(1)] by blast
    have "w = take_bit sz v" by (rule bit_word_eqI) (use c(2) in \<open>auto simp: w(2) m'(4) bit_simps\<close>)
    then show ?thesis using w(1) by simp
  qed
  then show ?thesis using m' by blast
qed

theorem bit_map_set_get_witness:
  "\<exists>m'. bit_map_set 44 12 0xABC (bit_map_create 64) = Some m' \<and> bit_map_get 44 12 m' = Some (take_bit 12 0xABC)"
proof -
  have "bm_bits (bit_map_create 64) = 64"
    by (simp add: bm_bits_def bit_map_create_def Let_def u32_def)
  then have "44 mod 32 + 12 \<le> (32 :: nat) \<and> 44 + 12 \<le> bm_bits (bit_map_create 64)" by simp
  then show ?thesis
    using bit_map_set_get [OF create_bits(1) [of 64], of 12 44 "0xABC"] by (simp only:) fastforce
qed

text \<open>
  reading a field that crosses the end of its word. The bits of the field that lie in the next
  word are taken from the low bits of the first word instead, so the field that \<^verbatim>\<open>bit_map_set\<close>
  has just written is not what \<^verbatim>\<open>bit_map_get\<close> returns.
\<close>

theorem bit_map_get_misreads:
  "\<exists>m. bit_map_set 28 8 0xA5 (bit_map_create 64) = Some m \<and> bm_bit m 35 \<and> bit_map_get 28 8 m = Some 0x05"
proof -
  let ?m = "\<lparr>bm_size = 64, bm_word_count = 2, bm_data = [0x50000000, 0xA]\<rparr>"
  have "replicate 2 (0 :: 32 word) = [0, 0]" by (simp add: numeral_2_eq_2)
  then have "bit_map_set 28 8 0xA5 (bit_map_create 64) = Some ?m" "bm_bit ?m 35" "bit_map_get 28 8 ?m = Some 0x05"
    by (simp_all add: bit_map_set_def bit_map_create_def bit_map_get_def bm_bit_def bm_bits_def Let_def u32_def)
  then show ?thesis by blast
qed

text \<open>
  \<^verbatim>\<open>bit_map_copy\<close> from a position at the start of a word copies every bit of the range that
  the destination has, at any destination position and for any size, and changes no other bit.
\<close>

theorem bit_map_copy_copies:
  assumes "bm_inv src" "bm_inv dst" "sw mod 32 = 0" "sw + sz \<le> 2 ^ 32" "dw + sz \<le> 2 ^ 32"
  shows "\<exists>d. bit_map_copy dw src sw sz dst = Some d \<and> bm_inv d \<and>
    (\<forall>i. bm_bit d i = (if dw \<le> i \<and> i < dw + sz \<and> i < bm_bits dst then bm_bit src (sw + (i - dw)) else bm_bit dst i))"
  using bit_map_copy_run [OF assms] by blast

theorem bit_map_copy_copies_witness:
  "\<exists>d. bit_map_copy 5 (bit_map_create 96) 32 40 (bit_map_create 64) = Some d \<and> bm_inv d"
  using bit_map_copy_copies [OF create_bits(1) create_bits(1), of 32 40 5 96 64] by auto

end
