(* ===== verification/SimMemory.thy ===== *)
theory SimMemory
  imports Bytes Interfaces
begin

unbundle bit_operations_syntax

text \<open>
  The guest memory of the simulator, \<^verbatim>\<open>memory/Memory.cc\<close>: a 32-bit address space kept as a map
  from page tags to pages of 4096 bytes. Addresses, sizes, tags and permissions are 32-bit words.
  A page whose data are not allocated reads as zeros.

  A member function that may throw has the type \<open>'a result\<close>: \<^term>\<open>None\<close> is a run stopped by an
  assertion, by \<^verbatim>\<open>abort\<close> or by a loop that never ends; otherwise the memory it leaves comes with the
  value it returns (\<^const>\<open>Inr\<close>) or the exception it throws (\<^const>\<open>Inl\<close>), since an access that
  throws may have changed the pages before the one that made it throw. Where the code goes over an
  \<^verbatim>\<open>unordered_map\<close>, the order of the tags is an argument of the definition.
\<close>

section \<open>Pages\<close>

definition PageSize :: "32 word" where
  "PageSize = push_bit 12 1"

definition page_tag :: "32 word \<Rightarrow> 32 word" where
  "page_tag address = address AND NOT (PageSize - 1)"

definition page_offset :: "32 word \<Rightarrow> 32 word" where
  "page_offset address = address AND (PageSize - 1)"

definition AccessRead :: "32 word" where "AccessRead = push_bit 0 1"
definition AccessWrite :: "32 word" where "AccessWrite = push_bit 1 1"
definition AccessExec :: "32 word" where "AccessExec = push_bit 2 1"
definition AccessInit :: "32 word" where "AccessInit = push_bit 3 1"
definition AccessModified :: "32 word" where "AccessModified = push_bit 4 1"

record page_t =
  pg_tag :: "32 word"
  pg_perm :: "32 word"
  pg_data :: "byte list option"

record memory_t =
  m_pages :: "32 word \<rightharpoonup> page_t"
  m_safe :: bool
  m_heap_break :: "32 word"
  m_last_address :: "32 word"

datatype mem_error = SegFault "32 word" | PermDenied "32 word" | PageExists | StringTooLong "32 word" | CannotOpen

type_synonym 'a result = "(memory_t \<times> (mem_error + 'a)) option"

definition andthen :: "'a result \<Rightarrow> ('a \<Rightarrow> memory_t \<Rightarrow> 'b result) \<Rightarrow> 'b result" where
  "andthen r f = (case r of None \<Rightarrow> None | Some (m, Inl e) \<Rightarrow> Some (m, Inl e) | Some (m, Inr x) \<Rightarrow> f x m)"

definition addPerm :: "32 word \<Rightarrow> page_t \<Rightarrow> page_t" where
  "addPerm perm p = p\<lparr>pg_perm := pg_perm p OR perm\<rparr>"

definition AllocateData :: "page_t \<Rightarrow> page_t" where
  "AllocateData p = (if pg_data p = None then p\<lparr>pg_data := Some (replicate (unat PageSize) 0)\<rparr> else p)"

definition set_page :: "32 word \<Rightarrow> page_t \<Rightarrow> memory_t \<Rightarrow> memory_t" where
  "set_page tag p m = m\<lparr>m_pages := (m_pages m)(tag \<mapsto> p)\<rparr>"

definition memory_create :: memory_t where
  "memory_create = \<lparr>m_pages = Map.empty, m_safe = True, m_heap_break = 0, m_last_address = 0\<rparr>"

definition setSafe :: "bool \<Rightarrow> memory_t \<Rightarrow> memory_t" where
  "setSafe s m = m\<lparr>m_safe := s\<rparr>"

definition Clear :: "memory_t \<Rightarrow> memory_t" where
  "Clear m = m\<lparr>m_pages := Map.empty\<rparr>"

definition growHeapBreak :: "32 word \<Rightarrow> memory_t \<Rightarrow> memory_t" where
  "growHeapBreak hb m = (if m_heap_break m < hb then m\<lparr>m_heap_break := hb\<rparr> else m)"

definition getPage :: "32 word \<Rightarrow> memory_t \<Rightarrow> page_t option" where
  "getPage address m = m_pages m (page_tag address)"

fun min_page_loop :: "memory_t \<Rightarrow> 32 word \<Rightarrow> 32 word list \<Rightarrow> 32 word \<Rightarrow> page_t option \<Rightarrow> page_t option" where
  "min_page_loop m tag [] min_tag min_page = min_page"
| "min_page_loop m tag (t # order) min_tag min_page = (case m_pages m t of
      None \<Rightarrow> min_page_loop m tag order min_tag min_page
    | Some page \<Rightarrow> if pg_tag page > tag \<and> pg_tag page < min_tag
        then min_page_loop m tag order (pg_tag page) (Some page)
        else min_page_loop m tag order min_tag min_page)"

definition getNextPage :: "32 word list \<Rightarrow> 32 word \<Rightarrow> memory_t \<Rightarrow> page_t option" where
  "getNextPage order address m = (let tag = page_tag (address + PageSize)
     in if tag = 0 then None
     else case m_pages m tag of Some page \<Rightarrow> Some page | None \<Rightarrow> min_page_loop m tag order 0xffffffff None)"

definition newPage :: "32 word \<Rightarrow> 32 word \<Rightarrow> memory_t \<Rightarrow> unit result" where
  "newPage address perm m = (let tag = page_tag address
     in if m_pages m tag \<noteq> None then Some (m, Inl PageExists)
     else Some (set_page tag \<lparr>pg_tag = tag, pg_perm = perm, pg_data = None\<rparr> m, Inr ()))"

section \<open>Accesses\<close>

text \<open>
  \<open>getBuffer\<close> returns the tag and the offset that its pointer stands for. \<open>page_access\<close> is the part
  of \<^verbatim>\<open>AccessAtPageBoundary\<close> after the page is found or made.
\<close>

definition getBuffer :: "32 word \<Rightarrow> 32 word \<Rightarrow> 32 word \<Rightarrow> memory_t \<Rightarrow> (32 word \<times> 32 word) option result" where
  "getBuffer address sz access m = (let offset = page_offset address
     in if offset + sz > PageSize then Some (m, Inr None)
     else case getPage address m of
       None \<Rightarrow> Some (m, Inr None)
     | Some page \<Rightarrow>
         if pg_perm page AND access \<noteq> access \<and> m_safe m then Some (m, Inl (PermDenied address))
         else Some (set_page (page_tag address) (AllocateData page) m, Inr (Some (page_tag address, offset))))"

definition page_access :: "32 word \<Rightarrow> 32 word \<Rightarrow> byte list \<Rightarrow> 32 word \<Rightarrow> memory_t \<Rightarrow> byte list result" where
  "page_access address sz buffer access m = do {
     let offset = unat (page_offset address);
     page \<leftarrow> getPage address m;
     let page = (if access = AccessWrite then addPerm AccessModified page else page);
     let m = set_page (page_tag address) page m;
     if m_safe m \<and> pg_perm page AND access \<noteq> access then Some (m, Inl (PermDenied address))
     else if access = AccessRead \<or> access = AccessExec then do {
       bs \<leftarrow> case pg_data page of Some data \<Rightarrow> get_bytes data offset (unat sz) | None \<Rightarrow> Some (replicate (unat sz) 0);
       buffer \<leftarrow> put_bytes buffer 0 bs;
       Some (m, Inr buffer) }
     else if access = AccessWrite \<or> access = AccessInit then do {
       let page = AllocateData page;
       data \<leftarrow> pg_data page;
       bs \<leftarrow> get_bytes buffer 0 (unat sz);
       data \<leftarrow> put_bytes data offset bs;
       Some (set_page (page_tag address) (page\<lparr>pg_data := Some data\<rparr>) m, Inr buffer) }
     else None }"

definition AccessAtPageBoundary :: "32 word \<Rightarrow> 32 word \<Rightarrow> byte list \<Rightarrow> 32 word \<Rightarrow> memory_t \<Rightarrow> byte list result" where
  "AccessAtPageBoundary address sz buffer access m = do {
     c_assert (page_offset address + sz \<le> PageSize);
     case getPage address m of
       Some page \<Rightarrow> page_access address sz buffer access m
     | None \<Rightarrow>
         if m_safe m then Some (m, Inl (SegFault address))
         else if access = AccessRead \<or> access = AccessExec then do {
           buffer \<leftarrow> put_bytes buffer 0 (replicate (unat sz) 0);
           Some (m, Inr buffer) }
         else if access = AccessWrite \<or> access = AccessInit then
           andthen (newPage address (AccessRead OR AccessWrite OR AccessExec OR AccessInit) m)
             (\<lambda>_. page_access address sz buffer access)
         else None }"

lemma PageSize_simps [simp]: "PageSize = 4096" "unat PageSize = 4096"
  by (simp_all add: PageSize_def)

lemma unat_page_offset: "unat (page_offset a) = unat a mod 4096"
proof -
  have "(4095 :: 32 word) = mask 12" by (simp add: mask_eq_exp_minus_1)
  then have "page_offset a = take_bit 12 a" by (simp add: page_offset_def take_bit_eq_mask)
  then show ?thesis by (simp add: take_bit_eq_mod unat_mod)
qed

function access_loop :: "32 word \<Rightarrow> 32 word \<Rightarrow> byte list \<Rightarrow> 32 word \<Rightarrow> memory_t \<Rightarrow> byte list result" where
  "access_loop address sz buf access m =
     (if sz = 0 then Some (m, Inr buf) else
      let offset = page_offset address; chunksize = min sz (PageSize - offset)
      in andthen (AccessAtPageBoundary address chunksize buf access m) (\<lambda>buf m.
         andthen (access_loop (address + chunksize) (sz - chunksize) (drop (unat chunksize) buf) access m) (\<lambda>rest m.
         Some (m, Inr (take (unat chunksize) buf @ rest)))))"
  by pat_completeness auto

lemma chunk:
  fixes a sz :: "32 word"
  assumes "sz \<noteq> 0"
  shows "unat (min sz (PageSize - page_offset a)) = min (unat sz) (4096 - unat a mod 4096)" "min sz (PageSize - page_offset a) \<noteq> 0"
    "unat (sz - min sz (PageSize - page_offset a)) = unat sz - min (unat sz) (4096 - unat a mod 4096)"
proof -
  have "unat a mod 4096 < 4096" by simp
  then have le: "page_offset a \<le> PageSize" "unat (page_offset a) < 4096"
    by (simp_all add: word_le_nat_alt unat_page_offset)
  have d: "unat (PageSize - page_offset a) = 4096 - unat a mod 4096"
    using le by (simp add: unat_sub unat_page_offset del: PageSize_simps(1))
  then show m: "unat (min sz (PageSize - page_offset a)) = min (unat sz) (4096 - unat a mod 4096)"
    by (simp add: min_def word_le_nat_alt)
  have "unat sz \<noteq> 0" using assms by (simp add: unat_eq_zero)
  then have "unat (min sz (PageSize - page_offset a)) \<noteq> 0" using m \<open>unat a mod 4096 < 4096\<close> by (simp add: min_def)
  then show "min sz (PageSize - page_offset a) \<noteq> 0" by (metis unat_0)
  show "unat (sz - min sz (PageSize - page_offset a)) = unat sz - min (unat sz) (4096 - unat a mod 4096)"
    by (subst unat_sub) (simp_all add: m del: PageSize_simps(1))
qed

termination access_loop
proof (relation "measure (\<lambda>(address, sz, buf, access, m). unat sz)", simp)
  fix address sz :: "32 word" and access :: "32 word" and offset chunksize and m m1 :: memory_t and buf buf1 :: "byte list"
  assume "sz \<noteq> 0" "offset = page_offset address" "chunksize = min sz (PageSize - offset)"
  moreover have "unat sz \<noteq> 0" "0 < unat sz" using \<open>sz \<noteq> 0\<close> by (simp_all add: unat_eq_zero unat_gt_0)
  ultimately have "unat sz \<noteq> 0" "0 < min (unat sz) (4096 - unat address mod 4096)"
    "unat (sz - chunksize) = unat sz - min (unat sz) (4096 - unat address mod 4096)"
    using chunk by (auto simp: unat_eq_zero mod_less_divisor)
  then show "((address + chunksize, sz - chunksize, drop (unat chunksize) buf1, access, m1), address, sz, buf, access, m)
      \<in> measure (\<lambda>(address, sz, buf, access, m). unat sz)"
    by simp
qed

declare access_loop.simps [simp del]

definition Access :: "32 word \<Rightarrow> 32 word \<Rightarrow> byte list \<Rightarrow> 32 word \<Rightarrow> memory_t \<Rightarrow> byte list result" where
  "Access address sz buf access m = access_loop address sz buf access (m\<lparr>m_last_address := address\<rparr>)"

definition Read :: "32 word \<Rightarrow> 32 word \<Rightarrow> byte list \<Rightarrow> memory_t \<Rightarrow> byte list result" where
  "Read address sz buf = Access address sz buf AccessRead"

definition Write :: "32 word \<Rightarrow> 32 word \<Rightarrow> byte list \<Rightarrow> memory_t \<Rightarrow> byte list result" where
  "Write address sz buf = Access address sz buf AccessWrite"

definition Init :: "32 word \<Rightarrow> 32 word \<Rightarrow> byte list \<Rightarrow> memory_t \<Rightarrow> byte list result" where
  "Init address sz buf = Access address sz buf AccessInit"

definition WriteString :: "32 word \<Rightarrow> byte list \<Rightarrow> memory_t \<Rightarrow> byte list result" where
  "WriteString address s = Write address (of_nat (length s) + 1) (s @ [0])"

fun read_string_loop :: "32 word \<Rightarrow> nat \<Rightarrow> nat \<Rightarrow> byte list \<Rightarrow> memory_t \<Rightarrow> byte list result" where
  "read_string_loop address i 0 s m = Some (m, Inl (StringTooLong address))"
| "read_string_loop address i (Suc n) s m =
     andthen (Read (address + of_nat i) 1 [0] m) (\<lambda>c m.
       if c ! 0 = 0 then Some (m, Inr s) else read_string_loop address (Suc i) n (s @ [c ! 0]) m)"

definition ReadString :: "32 word \<Rightarrow> nat \<Rightarrow> memory_t \<Rightarrow> byte list result" where
  "ReadString address max_length = read_string_loop address 0 max_length []"

function Zero :: "32 word \<Rightarrow> 32 word \<Rightarrow> memory_t \<Rightarrow> unit result" where
  "Zero address sz m = (if sz = 0 then Some (m, Inr ())
     else andthen (Write address 1 [0] m) (\<lambda>_. Zero (address + 1) (sz - 1)))"
  by pat_completeness auto
termination
  by (relation "measure (\<lambda>(address, sz, m). unat sz)") (auto simp: unat_minus_one unat_gt_0)

declare Zero.simps [simp del]

section \<open>Mapping, protecting and copying pages\<close>

text \<open>The loop \<^verbatim>\<open>for (tag = tag1; tag <= tag2; tag += PageSize)\<close> and its three bodies.\<close>

partial_function (option) tag_loop :: "(32 word \<Rightarrow> memory_t \<Rightarrow> memory_t) \<Rightarrow> 32 word \<Rightarrow> 32 word \<Rightarrow> memory_t \<Rightarrow> memory_t option" where
  "tag_loop body tag tag2 m = (if tag \<le> tag2 then tag_loop body (tag + PageSize) tag2 (body tag m) else Some m)"

definition map_page :: "32 word \<Rightarrow> 32 word \<Rightarrow> memory_t \<Rightarrow> memory_t" where
  "map_page perm tag m = (case getPage tag m of
      None \<Rightarrow> set_page (page_tag tag) (addPerm perm \<lparr>pg_tag = page_tag tag, pg_perm = perm, pg_data = None\<rparr>) m
    | Some page \<Rightarrow> set_page (page_tag tag) (addPerm perm page) m)"

definition Map :: "32 word \<Rightarrow> 32 word \<Rightarrow> 32 word \<Rightarrow> memory_t \<Rightarrow> memory_t option" where
  "Map address sz perm = tag_loop (map_page perm) (page_tag address) (page_tag (address + sz - 1))"

definition unmap_page :: "32 word \<Rightarrow> memory_t \<Rightarrow> memory_t" where
  "unmap_page tag m = m\<lparr>m_pages := (m_pages m)(tag := None)\<rparr>"

definition Unmap :: "32 word \<Rightarrow> 32 word \<Rightarrow> memory_t \<Rightarrow> memory_t option" where
  "Unmap address sz m = do {
     c_assert (page_offset address = 0);
     c_assert (page_offset sz = 0);
     tag_loop unmap_page (page_tag address) (page_tag (address + sz - 1)) m }"

definition protect_page :: "32 word \<Rightarrow> 32 word \<Rightarrow> memory_t \<Rightarrow> memory_t" where
  "protect_page perm tag m = (case getPage tag m of
      None \<Rightarrow> m
    | Some page \<Rightarrow> set_page (page_tag tag) (page\<lparr>pg_perm := perm\<rparr>) m)"

definition Protect :: "32 word \<Rightarrow> 32 word \<Rightarrow> 32 word \<Rightarrow> memory_t \<Rightarrow> memory_t option" where
  "Protect address sz perm m = do {
     c_assert (page_offset address = 0);
     c_assert (page_offset sz = 0);
     tag_loop (protect_page perm) (page_tag address) (page_tag (address + sz - 1)) m }"

partial_function (option) map_space_loop :: "memory_t \<Rightarrow> 32 word \<Rightarrow> 32 word \<Rightarrow> 32 word \<Rightarrow> 32 word option" where
  "map_space_loop m sz tag_start tag_end =
     (if tag_end = 0 then Some (- 1)
      else if getPage tag_end m \<noteq> None then map_space_loop m sz (tag_end + PageSize) (tag_end + PageSize)
      else if tag_end - tag_start + PageSize = sz then Some tag_start
      else do {
        c_assert (tag_end - tag_start + PageSize < sz);
        map_space_loop m sz tag_start (tag_end + PageSize) })"

definition MapSpace :: "32 word \<Rightarrow> 32 word \<Rightarrow> memory_t \<Rightarrow> 32 word option" where
  "MapSpace address sz m = do {
     c_assert (page_offset address = 0);
     c_assert (page_offset sz = 0);
     map_space_loop m sz address address }"

partial_function (option) map_space_down_loop :: "memory_t \<Rightarrow> 32 word \<Rightarrow> 32 word \<Rightarrow> 32 word \<Rightarrow> 32 word option" where
  "map_space_down_loop m sz tag_start tag_end =
     (if tag_start = 0 then Some (- 1)
      else if getPage tag_start m \<noteq> None then map_space_down_loop m sz (tag_start - PageSize) (tag_start - PageSize)
      else if tag_end - tag_start + PageSize = sz then Some tag_start
      else do {
        c_assert (tag_end - tag_start + PageSize < sz);
        map_space_down_loop m sz (tag_start - PageSize) tag_end })"

definition MapSpaceDown :: "32 word \<Rightarrow> 32 word \<Rightarrow> memory_t \<Rightarrow> 32 word option" where
  "MapSpaceDown address sz m = do {
     c_assert (page_offset address = 0);
     c_assert (page_offset sz = 0);
     map_space_down_loop m sz address address }"

partial_function (option) copy_loop :: "32 word \<Rightarrow> 32 word \<Rightarrow> 32 word \<Rightarrow> memory_t \<Rightarrow> memory_t option" where
  "copy_loop dest src sz m = (if sz = 0 then Some m else do {
     page_dest \<leftarrow> getPage dest m;
     page_src \<leftarrow> getPage src m;
     let page_dest = (case pg_data page_src of
         Some data \<Rightarrow> page_dest\<lparr>pg_data := Some data\<rparr>
       | None \<Rightarrow> if pg_data page_dest \<noteq> None then page_dest\<lparr>pg_data := Some (replicate (unat PageSize) 0)\<rparr> else page_dest);
     copy_loop (dest + PageSize) (src + PageSize) (sz - PageSize) (set_page (page_tag dest) page_dest m) })"

definition Copy :: "32 word \<Rightarrow> 32 word \<Rightarrow> 32 word \<Rightarrow> memory_t \<Rightarrow> memory_t option" where
  "Copy dest src sz m = do {
     c_assert (page_offset dest = 0);
     c_assert (page_offset src = 0);
     c_assert (page_offset sz = 0);
     c_assert (\<not> (src < dest \<and> src + sz > dest \<or> dest < src \<and> dest + sz > src));
     copy_loop dest src sz m }"

section \<open>Saving, loading and cloning\<close>

text \<open>
  A file is its list of bytes, and \<^term>\<open>None\<close> one that cannot be opened. \<open>order\<close> is the order in
  which the pages of the source are visited.
\<close>

function save_loop :: "32 word \<Rightarrow> 32 word \<Rightarrow> byte list \<Rightarrow> memory_t \<Rightarrow> byte list result" where
  "save_loop start stop f m = (if start < stop
     then let sz = min PageSize (stop - start)
       in andthen (Read start sz (replicate (unat sz) 0) m) (\<lambda>buf. save_loop (start + sz) stop (f @ buf))
     else Some (m, Inr f))"
  by pat_completeness auto
termination
proof (relation "measure (\<lambda>(start, stop, f, m). unat (stop - start))", simp)
  fix start stop sz :: "32 word" and f buf :: "byte list" and m m' :: memory_t
  assume "start < stop" "sz = min PageSize (stop - start)"
  moreover from this have "unat (stop - start) = unat stop - unat start" by (intro unat_sub less_imp_le)
  moreover from calculation have "0 < unat (stop - start)" by (simp add: word_less_nat_alt)
  ultimately have "sz \<le> stop - start" "0 < unat sz" by (auto simp: min_def)
  then have "unat (stop - start - sz) < unat (stop - start)" by (simp add: unat_sub word_le_nat_alt)
  then show "((start + sz, stop, f @ buf, m'), start, stop, f, m) \<in> measure (\<lambda>(start, stop, f, m). unat (stop - start))"
    by (simp add: diff_diff_eq)
qed

declare save_loop.simps [simp del]

definition Save :: "bool \<Rightarrow> 32 word \<Rightarrow> 32 word \<Rightarrow> memory_t \<Rightarrow> byte list result" where
  "Save can_open start stop m = (if \<not> can_open then Some (m, Inl CannotOpen)
     else andthen (save_loop start stop [] (setSafe False m)) (\<lambda>f m'. Some (setSafe (m_safe m) m', Inr f)))"

function load_loop :: "32 word \<Rightarrow> byte list \<Rightarrow> memory_t \<Rightarrow> unit result" where
  "load_loop start f m = (let buf = take 4096 f; sz = of_nat (length buf)
     in andthen (Write start sz buf m) (\<lambda>_ m.
       if length f < 4096 then Some (m, Inr ()) else load_loop (start + sz) (drop 4096 f) m))"
  by pat_completeness auto
termination
  by (relation "measure (\<lambda>(start, f, m). length f)") auto

declare load_loop.simps [simp del]

definition Load :: "byte list option \<Rightarrow> 32 word \<Rightarrow> memory_t \<Rightarrow> unit result" where
  "Load file start m = (case file of
      None \<Rightarrow> Some (m, Inl CannotOpen)
    | Some f \<Rightarrow> andthen (load_loop start f (setSafe False m)) (\<lambda>_ m'. Some (setSafe (m_safe m) m', Inr ())))"

fun clone_loop :: "memory_t \<Rightarrow> 32 word list \<Rightarrow> memory_t \<Rightarrow> unit result" where
  "clone_loop src [] m = Some (m, Inr ())"
| "clone_loop src (t # order) m = (case m_pages src t of
      None \<Rightarrow> clone_loop src order m
    | Some page \<Rightarrow> andthen (newPage (pg_tag page) (pg_perm page) m) (\<lambda>_ m.
        case pg_data page of
          None \<Rightarrow> clone_loop src order m
        | Some data \<Rightarrow> andthen (Access (pg_tag page) PageSize data AccessInit m) (\<lambda>_. clone_loop src order)))"

definition Clone :: "32 word list \<Rightarrow> memory_t \<Rightarrow> memory_t \<Rightarrow> unit result" where
  "Clone order src m = andthen (clone_loop src order (setSafe False (Clear m))) (\<lambda>_ m.
     Some (m\<lparr>m_safe := m_safe src, m_heap_break := m_heap_break src\<rparr>, Inr ()))"

definition memory_copy :: "32 word list \<Rightarrow> memory_t \<Rightarrow> unit result" where
  "memory_copy order src = andthen (clone_loop src order (setSafe False memory_create)) (\<lambda>_ m.
     Some (m\<lparr>m_safe := m_safe src, m_heap_break := m_heap_break src\<rparr>, Inr ()))"

end
