(* ===== verification/SimMemoryProof.thy ===== *)
theory SimMemoryProof
  imports SimMemory
begin

unbundle bit_operations_syntax

text \<open>
  Correctness of the guest memory. The abstraction of a memory is the byte at each of the
  \<open>2\<^sup>3\<^sup>2\<close> addresses, zero where no page is, and in safe mode the permissions of each
  address apart from the flag \<^verbatim>\<open>AccessModified\<close>, which only records writes. The interface
  \<open>adt\<close> is interpreted for it.
\<close>

section \<open>Addresses\<close>

lemma page_tag_eq: "page_tag a = push_bit 12 (drop_bit 12 a)"
proof (rule bit_word_eqI)
  have m: "PageSize - 1 = mask 12" by (simp add: mask_eq_exp_minus_1)
  show "bit (page_tag a) n \<longleftrightarrow> bit (push_bit 12 (drop_bit 12 a)) n" if "n < LENGTH(32)" for n
    using that unfolding page_tag_def m by (auto simp: bit_simps not_less)
qed

lemma unat32: "unat (a :: 32 word) < 4294967296"
  using unsigned_less [of a] by simp

lemma unat_page_tag: "unat (page_tag a) = unat a div 4096 * 4096"
proof -
  have "unat a div 4096 * 4096 \<le> unat a" by simp
  then have "unat a div 4096 * 4096 < 4294967296" using unat32 [of a] by linarith
  then show ?thesis
    unfolding page_tag_eq unsigned_push_bit_eq unsigned_drop_bit_eq
    by (simp add: push_bit_eq_mult drop_bit_eq_div take_bit_eq_mod)
qed

lemma page_tag_eq_iff: "page_tag a = page_tag b \<longleftrightarrow> unat a div 4096 = unat b div 4096"
  unfolding word_unat_eq_iff unat_page_tag by simp

lemma page_offset_tag [simp]: "page_offset (page_tag a) = 0"
  by (simp add: word_unat_eq_iff unat_page_offset unat_page_tag)

lemma page_offset_zero: "page_offset a = 0 \<longleftrightarrow> unat a mod 4096 = 0"
  by (simp add: word_unat_eq_iff unat_page_offset)

lemma page_tag_id: "page_offset a = 0 \<Longrightarrow> page_tag a = a"
  using div_mult_mod_eq [of "unat a" 4096] by (simp add: page_offset_zero word_unat_eq_iff [of "page_tag a"] unat_page_tag)

lemma page_tag_tag [simp]: "page_tag (page_tag a) = page_tag a"
  by (simp add: page_tag_id)

text \<open>The addresses of a chunk that stays in one page.\<close>

lemma unat_offset_add:
  fixes a :: "32 word"
  assumes "unat a mod 4096 + n \<le> 4096" "i < n"
  shows "unat (a + of_nat i) = unat a + i"
proof -
  have "unat a div 4096 * 4096 + unat a mod 4096 = unat a" by simp
  moreover have "unat a div 4096 < 1048576" using unat32 [of a] by linarith
  ultimately have "unat a + i < 4294967296" using assms by linarith
  then show ?thesis by (simp add: unat_word_ariths unat_of_nat take_bit_eq_mod)
qed

lemma chunk_address:
  fixes a :: "32 word"
  assumes "unat a mod 4096 + n \<le> 4096" "i < n"
  shows "page_tag (a + of_nat i) = page_tag a" "unat (page_offset (a + of_nat i)) = unat (page_offset a) + i"
proof -
  have e: "unat a + i = 4096 * (unat a div 4096) + (unat a mod 4096 + i)" "unat a mod 4096 + i < 4096"
    using assms by simp_all
  have d: "(4096 * q + r) div 4096 = q" "(4096 * q + r) mod 4096 = r" if "r < 4096" for q r :: nat
    using that by simp_all
  show "page_tag (a + of_nat i) = page_tag a" "unat (page_offset (a + of_nat i)) = unat (page_offset a) + i"
    unfolding page_tag_eq_iff unat_page_offset unat_offset_add [OF assms] e(1) d [OF e(2)] by (rule refl)+
qed

lemma in_chunk:
  fixes a x :: "32 word"
  assumes "unat a mod 4096 + n \<le> 4096"
  shows "page_tag x = page_tag a \<and> unat (page_offset a) \<le> unat (page_offset x) \<and> unat (page_offset x) < unat (page_offset a) + n
    \<longleftrightarrow> unat (x - a) < n" (is "?l \<longleftrightarrow> ?r")
    and "unat (x - a) < n \<Longrightarrow> unat (page_offset x) - unat (page_offset a) = unat (x - a)"
proof -
  have inside: "unat (page_offset x) = unat (page_offset a) + unat (x - a) \<and> page_tag x = page_tag a"
    if "unat (x - a) < n"
    using chunk_address [OF assms that] by simp
  then show "unat (x - a) < n \<Longrightarrow> unat (page_offset x) - unat (page_offset a) = unat (x - a)" by simp
  show "?l \<longleftrightarrow> ?r"
  proof
    assume l: ?l
    then have "unat x div 4096 = unat a div 4096" "unat a mod 4096 \<le> unat x mod 4096" "unat x mod 4096 < unat a mod 4096 + n"
      unfolding page_tag_eq_iff unat_page_offset by blast+
    then have "unat a \<le> unat x" "unat x - unat a < n"
      using div_mult_mod_eq [of "unat x" 4096] div_mult_mod_eq [of "unat a" 4096] by linarith+
    then show ?r by (simp add: unat_sub word_le_nat_alt)
  next
    assume ?r
    then show ?l using inside by simp
  qed
qed

section \<open>Bytes and permissions\<close>

definition byte_of :: "page_t option \<Rightarrow> 32 word \<Rightarrow> byte" where
  "byte_of po x = (case po of None \<Rightarrow> 0 | Some p \<Rightarrow> (case pg_data p of None \<Rightarrow> 0 | Some d \<Rightarrow> d ! unat (page_offset x)))"

definition byte_at :: "memory_t \<Rightarrow> 32 word \<Rightarrow> byte" where
  "byte_at m x = byte_of (getPage x m) x"

definition perm_at :: "memory_t \<Rightarrow> 32 word \<Rightarrow> 32 word option" where
  "perm_at m x = map_option (\<lambda>p. pg_perm p AND NOT AccessModified) (getPage x m)"

definition page_ok :: "32 word \<Rightarrow> page_t \<Rightarrow> bool" where
  "page_ok t p \<longleftrightarrow> pg_tag p = t \<and> page_offset t = 0 \<and> (\<forall>d. pg_data p = Some d \<longrightarrow> length d = 4096)"

definition memory_inv :: "memory_t \<Rightarrow> bool" where
  "memory_inv m \<longleftrightarrow> (\<forall>t p. m_pages m t = Some p \<longrightarrow> page_ok t p)"

definition permits :: "32 word option \<Rightarrow> 32 word \<Rightarrow> bool" where
  "permits po access \<longleftrightarrow> (\<exists>p. po = Some p \<and> p AND access = access)"

definition allowed :: "memory_t \<Rightarrow> 32 word \<Rightarrow> 32 word \<Rightarrow> bool" where
  "allowed m access x \<longleftrightarrow> m_safe m \<longrightarrow> permits (perm_at m x) access"

lemma access_bits:
  "AccessRead = 1" "AccessWrite = 2" "AccessExec = 4" "AccessInit = 8" "AccessModified = 16"
  by (simp_all add: AccessRead_def AccessWrite_def AccessExec_def AccessInit_def AccessModified_def)

definition data_access :: "32 word \<Rightarrow> bool" where
  "data_access access \<longleftrightarrow> access = AccessWrite \<or> access = AccessInit"

definition fetch_access :: "32 word \<Rightarrow> bool" where
  "fetch_access access \<longleftrightarrow> access = AccessRead \<or> access = AccessExec"

lemma and_modified:
  assumes "data_access access \<or> fetch_access access"
  shows "(p AND NOT AccessModified) AND access = p AND access" "(p OR AccessModified) AND access = p AND access"
proof -
  have "NOT AccessModified AND access = access" "AccessModified AND access = 0"
    using assms by (auto simp: data_access_def fetch_access_def access_bits)
  then show "(p AND NOT AccessModified) AND access = p AND access" "(p OR AccessModified) AND access = p AND access"
    by (simp_all add: and.assoc bit.conj_disj_distrib2)
qed

lemma mask_or_modified: "(p OR AccessModified) AND NOT AccessModified = p AND NOT AccessModified"
  by (simp add: bit.conj_disj_distrib2)

lemma getPage_set [simp]: "getPage x (set_page t p m) = (if page_tag x = t then Some p else getPage x m)"
  by (simp add: getPage_def set_page_def)

lemma set_page_safe [simp]: "m_safe (set_page t p m) = m_safe m"
  by (simp add: set_page_def)

lemma set_page_same: "m_pages m t = Some p \<Longrightarrow> set_page t p m = m"
  by (simp add: set_page_def fun_upd_idem)

lemma memory_inv_set: "memory_inv m \<Longrightarrow> page_ok t p \<Longrightarrow> memory_inv (set_page t p m)"
  by (simp add: memory_inv_def set_page_def)

lemma memory_inv_get: "memory_inv m \<Longrightarrow> getPage x m = Some p \<Longrightarrow> page_ok (page_tag x) p"
  by (simp add: memory_inv_def getPage_def)

section \<open>Accesses inside one page\<close>

text \<open>
  What a write leaves: the bytes of the chunk are those of the buffer, every other byte and, in
  safe mode, every permission is as before.
\<close>

definition wrote :: "32 word \<Rightarrow> byte list \<Rightarrow> memory_t \<Rightarrow> memory_t \<Rightarrow> bool" where
  "wrote a bs m m' \<longleftrightarrow> memory_inv m' \<and> m_safe m' = m_safe m \<and> m_heap_break m' = m_heap_break m \<and>
     (\<forall>x. byte_at m' x = (if unat (x - a) < length bs then bs ! unat (x - a) else byte_at m x)) \<and>
     (m_safe m \<longrightarrow> perm_at m' = perm_at m)"

lemma page_access_write:
  assumes "memory_inv m" "unat a mod 4096 + unat sz \<le> 4096" "unat sz \<le> length buf" "data_access access"
    and page: "getPage a m = Some p" and ok: "m_safe m \<longrightarrow> pg_perm p AND access = access"
  shows "\<exists>m'. page_access a sz buf access m = Some (m', Inr buf) \<and> wrote a (take (unat sz) buf) m m'"
proof -
  let ?n = "unat sz" and ?o = "unat (page_offset a)" and ?t = "page_tag a"
  let ?p = "if access = AccessWrite then addPerm AccessModified p else p"
  let ?old = "case pg_data p of None \<Rightarrow> replicate 4096 0 | Some d \<Rightarrow> d"
  let ?bs = "take ?n buf"
  let ?d = "take ?o ?old @ ?bs @ drop (?o + ?n) ?old"
  let ?q = "AllocateData ?p\<lparr>pg_data := Some ?d\<rparr>"
  let ?m = "set_page ?t ?q (set_page ?t ?p m)"
  have pok: "page_ok ?t p" using memory_inv_get [OF assms(1) page] .
  have len: "length ?old = 4096" "length ?bs = ?n" "?o + ?n \<le> 4096"
    using pok assms(2,3) by (auto simp: page_ok_def unat_page_offset split: option.splits)
  have alloc: "pg_data (AllocateData ?p) = Some ?old"
    by (simp add: AllocateData_def addPerm_def split: option.splits)
  have perm: "m_safe m \<longrightarrow> pg_perm ?p AND access = access"
    using ok and_modified(2) [of access "pg_perm p"] assms(4) by (auto simp: addPerm_def)
  have nr: "access \<noteq> AccessRead" "access \<noteq> AccessExec" "access = AccessWrite \<or> access = AccessInit"
    using assms(4) by (auto simp: data_access_def access_bits)
  have get: "get_bytes buf 0 ?n = Some ?bs" and put: "put_bytes ?old ?o ?bs = Some ?d"
    using len assms(3) by (simp_all add: put_bytes_def)
  have run: "page_access a sz buf access m = Some (?m, Inr buf)"
    using page perm nr alloc get put by (simp add: page_access_def Let_def)
  have fields: "pg_tag ?q = pg_tag p" "pg_data ?q = Some ?d" "pg_perm ?q AND NOT AccessModified = pg_perm p AND NOT AccessModified"
    by (simp_all add: AllocateData_def addPerm_def mask_or_modified)
  have "page_ok ?t ?p" using pok by (simp add: page_ok_def addPerm_def)
  moreover have "page_ok ?t ?q" using pok fields(1,2) len by (simp add: page_ok_def)
  ultimately have inv: "memory_inv ?m" using assms(1) by (intro memory_inv_set)
  have byte: "byte_at ?m x = (if unat (x - a) < length ?bs then ?bs ! unat (x - a) else byte_at m x)" for x
  proof (cases "page_tag x = ?t")
    case True
    then have gx: "getPage x m = Some p" using page by (simp add: getPage_def)
    have old: "byte_at m x = ?old ! unat (page_offset x)"
      using gx unat_page_offset [of x] by (simp add: byte_at_def byte_of_def split: option.splits)
    have ox: "unat (page_offset x) < length ?old" using len(1) by (simp add: unat_page_offset)
    have "byte_at ?m x = ?d ! unat (page_offset x)" using True fields(2) by (simp add: byte_at_def byte_of_def)
    also have "\<dots> = (if ?o \<le> unat (page_offset x) \<and> unat (page_offset x) < ?o + ?n then ?bs ! (unat (page_offset x) - ?o)
        else ?old ! unat (page_offset x))"
      using nth_put [of ?o ?bs ?old "unat (page_offset x)"] ox len by simp
    finally show ?thesis
      using in_chunk [OF assms(2), of x] True old len(2) by simp
  next
    case False
    then have "\<not> unat (x - a) < ?n" using in_chunk(1) [OF assms(2), of x] by simp
    then show ?thesis using False len(2) by (simp add: byte_at_def)
  qed
  have "perm_at ?m x = perm_at m x" for x
  proof (cases "page_tag x = ?t")
    case True
    then have "getPage x m = Some p" using page by (simp add: getPage_def)
    then show ?thesis using True fields(3) by (simp add: perm_at_def)
  qed (simp add: perm_at_def)
  then have "wrote a ?bs m ?m"
    using inv byte by (simp add: wrote_def fun_eq_iff) (simp add: set_page_def)
  then show ?thesis using run by blast
qed

definition bytes_from :: "memory_t \<Rightarrow> 32 word \<Rightarrow> nat \<Rightarrow> byte list" where
  "bytes_from m a n = map (\<lambda>i. byte_at m (a + of_nat i)) [0..<n]"

lemma length_bytes_from [simp]: "length (bytes_from m a n) = n"
  by (simp add: bytes_from_def)

lemma bytes_from_page:
  assumes "memory_inv m" "unat a mod 4096 + n \<le> 4096" "getPage a m = Some p"
  shows "bytes_from m a n = (case pg_data p of Some d \<Rightarrow> take n (drop (unat (page_offset a)) d) | None \<Rightarrow> replicate n 0)"
proof -
  have len: "length d = 4096" if "pg_data p = Some d" for d
    using memory_inv_get [OF assms(1,3)] that by (simp add: page_ok_def)
  have byte: "byte_at m (a + of_nat i) = (case pg_data p of None \<Rightarrow> 0 | Some d \<Rightarrow> d ! (unat (page_offset a) + i))" if "i < n" for i
    using chunk_address [OF assms(2) that] assms(3)
    by (cases "pg_data p") (simp_all add: byte_at_def byte_of_def getPage_def)
  have "unat (page_offset a) + n \<le> 4096" using assms(2) by (simp add: unat_page_offset)
  then show ?thesis
    using byte by (intro nth_equalityI) (auto simp: bytes_from_def len split: option.splits)
qed

lemma allowed_page:
  "getPage a m = Some p \<Longrightarrow> data_access access \<or> fetch_access access \<Longrightarrow>
   allowed m access a \<longleftrightarrow> (m_safe m \<longrightarrow> pg_perm p AND access = access)"
  by (simp add: allowed_def permits_def perm_at_def and_modified)

text \<open>The exception of an access that is not allowed at its first byte.\<close>

definition fault_of :: "memory_t \<Rightarrow> 32 word \<Rightarrow> mem_error" where
  "fault_of m x = (if perm_at m x = None then SegFault x else PermDenied x)"

lemma chunk_assert:
  assumes "unat a mod 4096 + unat sz \<le> 4096"
  shows "page_offset a + sz \<le> PageSize"
proof -
  have "unat (page_offset a + sz) = unat (page_offset a) + unat sz"
    using assms by (intro unat_add_lem [THEN iffD1]) (simp add: unat_page_offset)
  then show ?thesis using assms by (simp add: word_le_nat_alt unat_page_offset)
qed

lemma boundary_write:
  assumes "memory_inv m" "unat a mod 4096 + unat sz \<le> 4096" "unat sz \<le> length buf" "data_access access" "allowed m access a"
  shows "\<exists>m'. AccessAtPageBoundary a sz buf access m = Some (m', Inr buf) \<and> wrote a (take (unat sz) buf) m m'"
proof (cases "getPage a m")
  case (Some p)
  then show ?thesis
    using page_access_write [OF assms(1-4) Some] allowed_page [OF Some] assms(4,5) chunk_assert [OF assms(2)]
    by (simp add: AccessAtPageBoundary_def del: PageSize_simps(1))
next
  case None
  then have unsafe: "\<not> m_safe m" using assms(5) by (auto simp: allowed_def permits_def perm_at_def)
  let ?p = "\<lparr>pg_tag = page_tag a, pg_perm = AccessRead OR AccessWrite OR AccessExec OR AccessInit, pg_data = None\<rparr>"
  let ?m = "set_page (page_tag a) ?p m"
  have "page_ok (page_tag a) ?p" by (simp add: page_ok_def)
  then have inv: "memory_inv ?m" by (rule memory_inv_set [OF assms(1)])
  have page: "getPage a ?m = Some ?p" by simp
  have "m_safe ?m \<longrightarrow> pg_perm ?p AND access = access" using unsafe by simp
  then obtain m' where m': "page_access a sz buf access ?m = Some (m', Inr buf)" "wrote a (take (unat sz) buf) ?m m'"
    using page_access_write [OF inv assms(2-4) page] by blast
  have "byte_at ?m x = byte_at m x" for x using None by (simp add: byte_at_def byte_of_def) (simp add: getPage_def)
  then have "wrote a (take (unat sz) buf) m m'" using m'(2) unsafe by (simp add: wrote_def) (simp add: set_page_def)
  moreover have "newPage a (AccessRead OR AccessWrite OR AccessExec OR AccessInit) m = Some (?m, Inr ())"
    using None by (simp add: newPage_def getPage_def Let_def)
  moreover have "access \<noteq> AccessRead" "access \<noteq> AccessExec" "access = AccessWrite \<or> access = AccessInit"
    using assms(4) by (auto simp: data_access_def access_bits)
  ultimately show ?thesis
    using None unsafe m'(1) chunk_assert [OF assms(2)]
    by (simp add: AccessAtPageBoundary_def andthen_def del: PageSize_simps(1))
qed

lemma boundary_read:
  assumes "memory_inv m" "unat a mod 4096 + unat sz \<le> 4096" "unat sz \<le> length buf" "fetch_access access" "allowed m access a"
  shows "AccessAtPageBoundary a sz buf access m = Some (m, Inr (bytes_from m a (unat sz) @ drop (unat sz) buf))"
proof (cases "getPage a m")
  case (Some p)
  have acc: "access \<noteq> AccessWrite" "access = AccessRead \<or> access = AccessExec"
    using assms(4) by (auto simp: fetch_access_def access_bits)
  have "m_safe m \<longrightarrow> pg_perm p AND access = access" using allowed_page [OF Some] assms(4,5) by blast
  moreover have "unat (page_offset a) + unat sz \<le> 4096" using assms(2) by (simp add: unat_page_offset)
  moreover have "set_page (page_tag a) p m = m" using Some by (intro set_page_same) (simp add: getPage_def)
  ultimately have "page_access a sz buf access m = Some (m, Inr (bytes_from m a (unat sz) @ drop (unat sz) buf))"
    using Some acc bytes_from_page [OF assms(1,2) Some] memory_inv_get [OF assms(1) Some] assms(3)
    by (auto simp: page_access_def page_ok_def put_bytes_def split: option.splits)
  then show ?thesis using Some chunk_assert [OF assms(2)] by (simp add: AccessAtPageBoundary_def del: PageSize_simps(1))
next
  case None
  then have unsafe: "\<not> m_safe m" using assms(5) by (auto simp: allowed_def permits_def perm_at_def)
  have "byte_at m (a + of_nat i) = 0" if "i < unat sz" for i
    using chunk_address(1) [OF assms(2) that] None by (simp add: byte_at_def byte_of_def getPage_def)
  then have "bytes_from m a (unat sz) = replicate (unat sz) 0" by (intro nth_equalityI) (simp_all add: bytes_from_def)
  then show ?thesis
    using None unsafe chunk_assert [OF assms(2)] assms(3,4)
    by (auto simp: AccessAtPageBoundary_def put_bytes_def fetch_access_def simp del: PageSize_simps(1))
qed

lemma boundary_fault:
  assumes "memory_inv m" "unat a mod 4096 + unat sz \<le> 4096" "data_access access \<or> fetch_access access" "\<not> allowed m access a"
  shows "\<exists>m'. AccessAtPageBoundary a sz buf access m = Some (m', Inl (fault_of m a)) \<and> wrote a [] m m' \<and>
    (fetch_access access \<longrightarrow> m' = m)"
proof -
  have safe: "m_safe m" using assms(4) by (simp add: allowed_def)
  have refl: "wrote a [] m m" using assms(1) by (simp add: wrote_def)
  show ?thesis
  proof (cases "getPage a m")
    case None
    then show ?thesis using safe refl chunk_assert [OF assms(2)]
      by (simp add: AccessAtPageBoundary_def fault_of_def perm_at_def del: PageSize_simps(1))
  next
    case (Some p)
    let ?p = "if access = AccessWrite then addPerm AccessModified p else p"
    have no: "pg_perm ?p AND access \<noteq> access"
      using allowed_page [OF Some] assms(3,4) and_modified(2) [OF assms(3), of "pg_perm p"] by (auto simp: addPerm_def)
    let ?m = "set_page (page_tag a) ?p m"
    have run: "AccessAtPageBoundary a sz buf access m = Some (?m, Inl (fault_of m a))"
      using Some no safe chunk_assert [OF assms(2)]
      by (simp add: AccessAtPageBoundary_def page_access_def fault_of_def perm_at_def Let_def del: PageSize_simps(1))
    have pok: "page_ok (page_tag a) ?p" using memory_inv_get [OF assms(1) Some] by (simp add: page_ok_def addPerm_def)
    have gx: "getPage x m = Some p" if "page_tag x = page_tag a" for x using Some that by (simp add: getPage_def)
    have "byte_at ?m x = byte_at m x" for x by (simp add: byte_at_def byte_of_def gx addPerm_def)
    moreover have "perm_at ?m x = perm_at m x" for x by (simp add: perm_at_def gx addPerm_def mask_or_modified)
    ultimately have "wrote a [] m ?m" using memory_inv_set [OF assms(1) pok] by (simp add: wrote_def fun_eq_iff) (simp add: set_page_def)
    moreover have "?m = m" if "fetch_access access"
    proof -
      have "access \<noteq> AccessWrite" using that by (auto simp: fetch_access_def access_bits)
      then show ?thesis using Some by (simp add: set_page_same getPage_def)
    qed
    ultimately show ?thesis using run by blast
  qed
qed

section \<open>Accesses of any size\<close>

lemma shift_chunk:
  fixes y :: "32 word"
  assumes "c \<le> n" "n \<le> 2 ^ 32" "c < 2 ^ 32"
  shows "unat (y - of_nat c) < n - c \<longleftrightarrow> c \<le> unat y \<and> unat y < n"
    and "c \<le> unat y \<Longrightarrow> unat (y - of_nat c) = unat y - c"
proof -
  have c: "unat (of_nat c :: 32 word) = c" using assms(3) by (simp add: unat_of_nat take_bit_eq_mod)
  have s: "unat (y - of_nat c) = (if c \<le> unat y then unat y - c else unat y + 2 ^ 32 - c)"
    using unat_sub_if_size [of y "of_nat c"] unfolding c by (simp add: word_size)
  show "unat (y - of_nat c) < n - c \<longleftrightarrow> c \<le> unat y \<and> unat y < n" using assms unfolding s by auto
  show "c \<le> unat y \<Longrightarrow> unat (y - of_nat c) = unat y - c" unfolding s by simp
qed

lemma wrote_append:
  assumes "wrote a (take c bs) m m1" "wrote (a + of_nat c) bs' m1 m2" "c \<le> length bs" "length bs \<le> 2 ^ 32" "c < 2 ^ 32"
    and bs': "bs' = take k (drop c bs)"
  shows "wrote a (take (c + k) bs) m m2"
proof -
  let ?n = "c + length bs'"
  have len: "length (take (c + k) bs) = ?n" "?n \<le> 2 ^ 32" "length (take c bs) = c" using assms by auto
  have "byte_at m2 x = (if unat (x - a) < ?n then take (c + k) bs ! unat (x - a) else byte_at m x)" for x
  proof -
    have e: "x - (a + of_nat c) = (x - a) - of_nat c" by (simp add: algebra_simps)
    have "byte_at m2 x = (if unat ((x - a) - of_nat c) < ?n - c then bs' ! unat ((x - a) - of_nat c) else byte_at m1 x)"
      using assms(2) by (simp add: wrote_def e)
    moreover have "byte_at m1 x = (if unat (x - a) < c then take c bs ! unat (x - a) else byte_at m x)"
      using assms(1) unfolding wrote_def len(3) by blast
    moreover note shift_chunk [of c ?n "x - a"]
    ultimately show ?thesis using assms(3,5) len bs' by auto
  qed
  then show ?thesis using assms(1,2) len(1) by (simp add: wrote_def)
qed

lemma bytes_from_append: "c \<le> n \<Longrightarrow> bytes_from m a n = bytes_from m a c @ bytes_from m (a + of_nat c) (n - c)"
  by (rule nth_equalityI) (auto simp: bytes_from_def nth_append add.assoc simp flip: of_nat_add)

text \<open>
  The outcome of an access: the whole range is accessed if every byte of it is allowed; otherwise
  the bytes before the first one that is not are, and the exception names that byte.
\<close>

definition first_fault :: "memory_t \<Rightarrow> 32 word \<Rightarrow> 32 word \<Rightarrow> nat \<Rightarrow> nat \<Rightarrow> bool" where
  "first_fault m access a n k \<longleftrightarrow> k < n \<and> \<not> allowed m access (a + of_nat k) \<and> (\<forall>i < k. allowed m access (a + of_nat i))"

lemma allowed_wrote: "wrote a bs m m' \<Longrightarrow> allowed m' access x = allowed m access x" "wrote a bs m m' \<Longrightarrow> m_safe m \<Longrightarrow> fault_of m' x = fault_of m x"
  by (auto simp: wrote_def allowed_def fault_of_def)

lemma allowed_chunk:
  "unat a mod 4096 + n \<le> 4096 \<Longrightarrow> i < n \<Longrightarrow> allowed m access (a + of_nat i) = allowed m access a"
  using chunk_address(1) [of a n i] by (simp add: allowed_def perm_at_def getPage_def)

lemma access_write:
  assumes "memory_inv m" "length buf = unat sz" "data_access access"
  shows "((\<forall>i < unat sz. allowed m access (a + of_nat i)) \<longrightarrow>
      (\<exists>m'. access_loop a sz buf access m = Some (m', Inr buf) \<and> wrote a buf m m')) \<and>
    (\<forall>k. first_fault m access a (unat sz) k \<longrightarrow>
      (\<exists>m'. access_loop a sz buf access m = Some (m', Inl (fault_of m (a + of_nat k))) \<and> wrote a (take k buf) m m'))"
  using assms
proof (induction "unat sz" arbitrary: a sz buf m rule: less_induct)
  case less
  show ?case
  proof (cases "sz = 0")
    case True
    then show ?thesis using less.prems by (auto simp: access_loop.simps first_fault_def wrote_def)
  next
    case False
    let ?n = "unat sz"
    obtain c w where cw: "c = min ?n (4096 - unat a mod 4096)" "w = min sz (PageSize - page_offset a)" by blast
    have ch: "unat w = c" "w \<noteq> 0" "unat (sz - w) = ?n - c" using chunk [OF False, of a] unfolding cw by blast+
    have "unat a mod 4096 < 4096" "0 < ?n" using False by (simp_all add: unat_gt_0)
    then have "unat a mod 4096 + c \<le> 4096" "0 < c" "c \<le> ?n" "c \<le> 4096" unfolding cw(1) by linarith+
    then have c: "unat a mod 4096 + c \<le> 4096" "0 < c" "c \<le> ?n" "c < 2 ^ 32" by simp_all
    have fits: "unat a mod 4096 + unat w \<le> 4096" "unat w \<le> length buf" using ch(1) c less.prems(2) by simp_all
    have w: "w = of_nat c" unfolding ch(1) [symmetric] by simp
    have step: "access_loop a sz buf access m = andthen (AccessAtPageBoundary a w buf access m) (\<lambda>buf m.
         andthen (access_loop (a + of_nat c) (sz - w) (drop c buf) access m) (\<lambda>rest m. Some (m, Inr (take c buf @ rest))))"
      using False unfolding access_loop.simps [of a sz] Let_def cw(2) [symmetric] ch(1) w [symmetric] by (simp only: if_False)
    have sz: "unat (sz - w) < ?n" using ch(3) c(2,3) by linarith
    show ?thesis
    proof (cases "allowed m access a")
      case True
      obtain m1 where m1: "AccessAtPageBoundary a w buf access m = Some (m1, Inr buf)" "wrote a (take c buf) m m1"
        using boundary_write [OF less.prems(1) fits less.prems(3) True] ch(1) by auto
      have inv1: "memory_inv m1" using m1(2) by (simp add: wrote_def)
      have len1: "length (drop c buf) = unat (sz - w)" using ch(3) less.prems(2) by simp
      have IH: "((\<forall>i < ?n - c. allowed m1 access (a + of_nat c + of_nat i)) \<longrightarrow>
          (\<exists>m'. access_loop (a + of_nat c) (sz - w) (drop c buf) access m1 = Some (m', Inr (drop c buf)) \<and>
             wrote (a + of_nat c) (drop c buf) m1 m')) \<and>
        (\<forall>k. first_fault m1 access (a + of_nat c) (?n - c) k \<longrightarrow>
          (\<exists>m'. access_loop (a + of_nat c) (sz - w) (drop c buf) access m1 = Some (m', Inl (fault_of m1 (a + of_nat c + of_nat k))) \<and>
             wrote (a + of_nat c) (take k (drop c buf)) m1 m'))"
        using less.hyps [OF sz inv1 len1 less.prems(3), of "a + of_nat c"] unfolding ch(3) .
      have shift: "a + of_nat c + of_nat i = a + of_nat (c + i)" for i by (simp add: add.assoc)
      have c_len: "c \<le> length buf" "length buf \<le> 2 ^ 32" using c(3) less.prems(2) unat32 [of sz] by simp_all
      show ?thesis
      proof (intro conjI impI allI)
        assume all: "\<forall>i < ?n. allowed m access (a + of_nat i)"
        have "\<forall>i < ?n - c. allowed m1 access (a + of_nat c + of_nat i)"
          unfolding shift allowed_wrote(1) [OF m1(2)] using all by (auto simp del: of_nat_add)
        then obtain m2 where m2: "access_loop (a + of_nat c) (sz - w) (drop c buf) access m1 = Some (m2, Inr (drop c buf))"
            "wrote (a + of_nat c) (drop c buf) m1 m2"
          using IH by blast
        have "wrote a (take (c + length buf) buf) m m2"
          by (rule wrote_append [OF m1(2) m2(2) c_len c(4)]) simp
        then show "\<exists>m'. access_loop a sz buf access m = Some (m', Inr buf) \<and> wrote a buf m m'"
          using m1(1) m2(1) unfolding step by (simp add: andthen_def)
      next
        fix k assume k: "first_fault m access a ?n k"
        have "\<not> k < c" using k True allowed_chunk [OF c(1)] unfolding first_fault_def by blast
        then have kc: "c + (k - c) = k" by simp
        have "first_fault m1 access (a + of_nat c) (?n - c) (k - c)"
          using k kc unfolding first_fault_def shift allowed_wrote(1) [OF m1(2)] by (auto simp del: of_nat_add)
        then obtain m2 where m2: "access_loop (a + of_nat c) (sz - w) (drop c buf) access m1 =
              Some (m2, Inl (fault_of m1 (a + of_nat c + of_nat (k - c))))"
            "wrote (a + of_nat c) (take (k - c) (drop c buf)) m1 m2"
          using IH by blast
        have "wrote a (take (c + (k - c)) buf) m m2"
          by (rule wrote_append [OF m1(2) m2(2) c_len c(4)]) simp
        moreover have "m_safe m" using k by (auto simp: first_fault_def allowed_def)
        ultimately show "\<exists>m'. access_loop a sz buf access m = Some (m', Inl (fault_of m (a + of_nat k))) \<and> wrote a (take k buf) m m'"
          using m1(1) m2(1) allowed_wrote(2) [OF m1(2)] unfolding step shift kc by (simp add: andthen_def)
      qed
    next
      case False
      obtain m1 where m1: "AccessAtPageBoundary a w buf access m = Some (m1, Inl (fault_of m a))" "wrote a [] m m1"
        using boundary_fault [OF less.prems(1) fits(1) _ False] less.prems(3) by blast
      have 0: "a + of_nat 0 = a" by simp
      have "k = 0" if "first_fault m access a ?n k" for k
        using that False unfolding first_fault_def by (metis 0 gr_zeroI)
      moreover have "\<not> (\<forall>i < ?n. allowed m access (a + of_nat i))" using False c(2,3) 0 by (metis less_le_trans)
      moreover have "access_loop a sz buf access m = Some (m1, Inl (fault_of m a))" using m1(1) unfolding step by (simp add: andthen_def)
      ultimately show ?thesis using m1(2) by fastforce
    qed
  qed
qed

lemma access_read:
  assumes "memory_inv m" "length buf = unat sz" "fetch_access access"
  shows "((\<forall>i < unat sz. allowed m access (a + of_nat i)) \<longrightarrow>
      access_loop a sz buf access m = Some (m, Inr (bytes_from m a (unat sz)))) \<and>
    (\<forall>k. first_fault m access a (unat sz) k \<longrightarrow> access_loop a sz buf access m = Some (m, Inl (fault_of m (a + of_nat k))))"
  using assms
proof (induction "unat sz" arbitrary: a sz buf rule: less_induct)
  case less
  show ?case
  proof (cases "sz = 0")
    case True
    then show ?thesis using less.prems by (auto simp: access_loop.simps first_fault_def bytes_from_def)
  next
    case False
    let ?n = "unat sz"
    obtain c w where cw: "c = min ?n (4096 - unat a mod 4096)" "w = min sz (PageSize - page_offset a)" by blast
    have ch: "unat w = c" "w \<noteq> 0" "unat (sz - w) = ?n - c" using chunk [OF False, of a] unfolding cw by blast+
    have "unat a mod 4096 < 4096" "0 < ?n" using False by (simp_all add: unat_gt_0)
    then have c: "unat a mod 4096 + c \<le> 4096" "0 < c" "c \<le> ?n" unfolding cw(1) by linarith+
    have fits: "unat a mod 4096 + unat w \<le> 4096" "unat w \<le> length buf" using ch(1) c less.prems(2) by simp_all
    have w: "w = of_nat c" unfolding ch(1) [symmetric] by simp
    have step: "access_loop a sz buf access m = andthen (AccessAtPageBoundary a w buf access m) (\<lambda>buf m.
         andthen (access_loop (a + of_nat c) (sz - w) (drop c buf) access m) (\<lambda>rest m. Some (m, Inr (take c buf @ rest))))"
      using False unfolding access_loop.simps [of a sz] Let_def cw(2) [symmetric] ch(1) w [symmetric] by (simp only: if_False)
    have sz: "unat (sz - w) < ?n" using ch(3) c(2,3) by linarith
    show ?thesis
    proof (cases "allowed m access a")
      case True
      let ?buf = "bytes_from m a c @ drop c buf"
      have m1: "AccessAtPageBoundary a w buf access m = Some (m, Inr ?buf)"
        using boundary_read [OF less.prems(1) fits less.prems(3) True] unfolding ch(1) .
      have len1: "length (drop c ?buf) = unat (sz - w)" using ch(3) less.prems(2) by simp
      have IH: "((\<forall>i < ?n - c. allowed m access (a + of_nat c + of_nat i)) \<longrightarrow>
          access_loop (a + of_nat c) (sz - w) (drop c ?buf) access m = Some (m, Inr (bytes_from m (a + of_nat c) (?n - c)))) \<and>
        (\<forall>k. first_fault m access (a + of_nat c) (?n - c) k \<longrightarrow>
          access_loop (a + of_nat c) (sz - w) (drop c ?buf) access m = Some (m, Inl (fault_of m (a + of_nat c + of_nat k))))"
        using less.hyps [OF sz less.prems(1) len1 less.prems(3), of "a + of_nat c"] unfolding ch(3) .
      have shift: "a + of_nat c + of_nat i = a + of_nat (c + i)" for i by (simp add: add.assoc)
      show ?thesis
      proof (intro conjI impI allI)
        assume all: "\<forall>i < ?n. allowed m access (a + of_nat i)"
        have "\<forall>i < ?n - c. allowed m access (a + of_nat c + of_nat i)"
          unfolding shift using all by (auto simp del: of_nat_add)
        then have "access_loop (a + of_nat c) (sz - w) (drop c ?buf) access m = Some (m, Inr (bytes_from m (a + of_nat c) (?n - c)))"
          using IH by blast
        then show "access_loop a sz buf access m = Some (m, Inr (bytes_from m a ?n))"
          using m1 bytes_from_append [OF c(3)] unfolding step by (simp add: andthen_def)
      next
        fix k assume k: "first_fault m access a ?n k"
        have "\<not> k < c" using k True allowed_chunk [OF c(1)] unfolding first_fault_def by blast
        then have kc: "c + (k - c) = k" by simp
        have "first_fault m access (a + of_nat c) (?n - c) (k - c)"
          using k kc unfolding first_fault_def shift by (auto simp del: of_nat_add)
        then have "access_loop (a + of_nat c) (sz - w) (drop c ?buf) access m = Some (m, Inl (fault_of m (a + of_nat c + of_nat (k - c))))"
          using IH by blast
        then show "access_loop a sz buf access m = Some (m, Inl (fault_of m (a + of_nat k)))"
          using m1 unfolding step shift kc by (simp add: andthen_def)
      qed
    next
      case False
      have m1: "AccessAtPageBoundary a w buf access m = Some (m, Inl (fault_of m a))"
        using boundary_fault [OF less.prems(1) fits(1) _ False, of buf] less.prems(3) by blast
      have 0: "a + of_nat 0 = a" by simp
      have "k = 0" if "first_fault m access a ?n k" for k
        using that False unfolding first_fault_def by (metis 0 gr_zeroI)
      moreover have "\<not> (\<forall>i < ?n. allowed m access (a + of_nat i))" using False c(2,3) 0 by (metis less_le_trans)
      moreover have "access_loop a sz buf access m = Some (m, Inl (fault_of m a))" using m1 unfolding step by (simp add: andthen_def)
      ultimately show ?thesis by fastforce
    qed
  qed
qed

text \<open>The member functions built on \<open>access_loop\<close>.\<close>

lemma last_address [simp]:
  "byte_at (m\<lparr>m_last_address := v\<rparr>) = byte_at m" "perm_at (m\<lparr>m_last_address := v\<rparr>) = perm_at m"
  "memory_inv (m\<lparr>m_last_address := v\<rparr>) = memory_inv m" "allowed (m\<lparr>m_last_address := v\<rparr>) = allowed m"
  "fault_of (m\<lparr>m_last_address := v\<rparr>) = fault_of m" "bytes_from (m\<lparr>m_last_address := v\<rparr>) = bytes_from m"
  "wrote a bs (m\<lparr>m_last_address := v\<rparr>) = wrote a bs m"
  "first_fault (m\<lparr>m_last_address := v\<rparr>) = first_fault m"
  by (simp_all add: fun_eq_iff byte_at_def perm_at_def getPage_def memory_inv_def allowed_def fault_of_def bytes_from_def wrote_def first_fault_def)

lemma Write_run:
  assumes "memory_inv m" "length buf = unat sz" "\<forall>i < unat sz. allowed m AccessWrite (a + of_nat i)"
  shows "\<exists>m'. Write a sz buf m = Some (m', Inr buf) \<and> wrote a buf m m'"
  using access_write [of "m\<lparr>m_last_address := a\<rparr>" buf sz AccessWrite a] assms
  by (simp add: Write_def Access_def data_access_def)

lemma Init_run:
  assumes "memory_inv m" "length buf = unat sz" "\<forall>i < unat sz. allowed m AccessInit (a + of_nat i)"
  shows "\<exists>m'. Init a sz buf m = Some (m', Inr buf) \<and> wrote a buf m m'"
  using access_write [of "m\<lparr>m_last_address := a\<rparr>" buf sz AccessInit a] assms
  by (simp add: Init_def Access_def data_access_def)

lemma Read_run:
  assumes "memory_inv m" "length buf = unat sz" "\<forall>i < unat sz. allowed m AccessRead (a + of_nat i)"
  shows "Read a sz buf m = Some (m\<lparr>m_last_address := a\<rparr>, Inr (bytes_from m a (unat sz)))"
  using access_read [of "m\<lparr>m_last_address := a\<rparr>" buf sz AccessRead a] assms
  by (simp add: Read_def Access_def fetch_access_def)

lemma Zero_run:
  assumes "memory_inv m" "\<forall>i < unat sz. allowed m AccessWrite (a + of_nat i)"
  shows "\<exists>m'. Zero a sz m = Some (m', Inr ()) \<and> wrote a (replicate (unat sz) 0) m m'"
  using assms
proof (induction "unat sz" arbitrary: a sz m)
  case 0
  then have "sz = 0" by (simp add: unat_eq_zero)
  then show ?case using 0 by (simp add: Zero.simps wrote_def)
next
  case (Suc n)
  have sz: "sz \<noteq> 0" using Suc.hyps(2) by auto
  then have sz: "sz \<noteq> 0" "unat (sz - 1) = n" using Suc.hyps(2) unat_minus_one [of sz] by simp_all
  have "allowed m AccessWrite (a + of_nat 0)" using Suc.prems(2) Suc.hyps(2) by (metis zero_less_Suc)
  then obtain m1 where m1: "Write a 1 [0] m = Some (m1, Inr [0])" "wrote a [0] m m1"
    using Write_run [OF Suc.prems(1), of "[0]" 1 a] by auto
  have "allowed m1 AccessWrite (a + 1 + of_nat i)" if "i < unat (sz - 1)" for i
  proof -
    have "allowed m AccessWrite (a + of_nat (Suc i))" using Suc.prems(2) Suc.hyps(2) sz(2) that by (metis Suc_less_eq)
    then show ?thesis using allowed_wrote(1) [OF m1(2)] by (simp add: add.assoc)
  qed
  then obtain m2 where m2: "Zero (a + 1) (sz - 1) m1 = Some (m2, Inr ())" "wrote (a + 1) (replicate n 0) m1 m2"
    using Suc.hyps(1) [of "sz - 1" m1 "a + 1"] sz(2) m1(2) by (auto simp: wrote_def)
  let ?bs = "replicate (Suc n) 0 :: byte list"
  have "wrote a (take (1 + n) ?bs) m m2"
  proof (rule wrote_append [of a 1 ?bs m m1 "replicate n 0" m2 n])
    show "wrote (a + of_nat 1) (replicate n 0) m1 m2" using m2(2) by simp
    show "length ?bs \<le> 2 ^ 32" using unat32 [of sz] Suc.hyps(2) by simp
  qed (use m1(2) in simp_all)
  then show ?case using m1(1) m2(1) sz(1) Suc.hyps(2) by (simp add: Zero.simps [of a sz] andthen_def)
qed

section \<open>Mapping and protecting\<close>

text \<open>The page tags the loop over a range visits, and what its bodies do to one page.\<close>

definition in_pages :: "32 word \<Rightarrow> 32 word \<Rightarrow> 32 word \<Rightarrow> bool" where
  "in_pages tag1 tag2 t \<longleftrightarrow> page_offset t = 0 \<and> tag1 \<le> t \<and> t \<le> tag2"

lemma aligned:
  assumes "page_offset t = 0"
  obtains q where "unat t = 4096 * q" "q < 1048576"
proof -
  have "unat t mod 4096 = 0" using assms by (simp add: page_offset_zero)
  then obtain q where "unat t = 4096 * q" by blast
  moreover from this have "q < 1048576" using unat32 [of t] by linarith
  ultimately show thesis using that by blast
qed

lemma next_tag:
  assumes "page_offset t = 0" "t \<noteq> 0xfffff000"
  shows "page_offset (t + PageSize) = 0" "unat (t + PageSize) = unat t + 4096"
proof -
  obtain q where q: "unat t = 4096 * q" "q < 1048576" by (rule aligned [OF assms(1)])
  have "unat t \<noteq> 4294963200" using assms(2) by (auto simp: word_unat_eq_iff)
  then have "unat t + 4096 < 4294967296" using q by linarith
  then show u: "unat (t + PageSize) = unat t + 4096" by (subst unat_add_lem [THEN iffD1]) simp_all
  show "page_offset (t + PageSize) = 0" unfolding page_offset_zero u q(1) by simp
qed

lemma tag_loop_run:
  assumes body: "\<And>t m. page_offset t = 0 \<Longrightarrow> body t m = m\<lparr>m_pages := (m_pages m)(t := f t (m_pages m t))\<rparr>"
    and "page_offset tag1 = 0" "page_offset tag2 = 0" "tag2 \<noteq> 0xfffff000"
  shows "tag_loop body tag1 tag2 m =
    Some (m\<lparr>m_pages := \<lambda>t. if in_pages tag1 tag2 t then f t (m_pages m t) else m_pages m t\<rparr>)"
  using assms(2)
proof (induction "unat tag2 + 4096 - unat tag1" arbitrary: tag1 m rule: less_induct)
  case less
  show ?case
  proof (cases "tag1 \<le> tag2")
    case False
    then have "\<not> in_pages tag1 tag2 t" for t by (auto simp: in_pages_def)
    then show ?thesis using False by (subst tag_loop.simps) simp
  next
    case True
    have ne: "tag1 \<noteq> 0xfffff000"
    proof
      assume "tag1 = 0xfffff000"
      then have "unat tag2 \<noteq> 4294963200" "4294963200 \<le> unat tag2"
        using True assms(4) by (auto simp: word_le_nat_alt word_unat_eq_iff)
      moreover obtain q where "unat tag2 = 4096 * q" "q < 1048576" by (rule aligned [OF assms(3)])
      ultimately show False by linarith
    qed
    note nx = next_tag [OF less.prems ne]
    let ?m = "m\<lparr>m_pages := (m_pages m)(tag1 := f tag1 (m_pages m tag1))\<rparr>"
    have "unat tag2 + 4096 - unat (tag1 + PageSize) < unat tag2 + 4096 - unat tag1"
      using True nx(2) by (simp add: word_le_nat_alt)
    then have IH: "tag_loop body (tag1 + PageSize) tag2 ?m =
        Some (?m\<lparr>m_pages := \<lambda>t. if in_pages (tag1 + PageSize) tag2 t then f t (m_pages ?m t) else m_pages ?m t\<rparr>)"
      using less.hyps [OF _ nx(1)] by blast
    have split: "in_pages tag1 tag2 t \<longleftrightarrow> t = tag1 \<or> in_pages (tag1 + PageSize) tag2 t" for t
    proof -
      have "t = tag1" if t: "page_offset t = 0" "tag1 \<le> t" "\<not> tag1 + PageSize \<le> t"
      proof -
        obtain q where "unat t = 4096 * q" by (rule aligned [OF t(1)])
        moreover obtain r where "unat tag1 = 4096 * r" by (rule aligned [OF less.prems])
        moreover have "unat tag1 \<le> unat t" "unat t < unat tag1 + 4096" using t nx(2) by (simp_all add: word_le_nat_alt)
        ultimately have "unat t = 4096 * q" "unat tag1 = 4096 * r" "q < r + 1" "r \<le> q" by linarith+
        then have "unat t = unat tag1" by simp
        then show ?thesis by (simp add: word_unat_eq_iff)
      qed
      moreover have "tag1 \<le> tag1 + PageSize" using nx(2) by (simp add: word_le_nat_alt)
      ultimately show ?thesis using True less.prems unfolding in_pages_def by (metis order_refl order_trans)
    qed
    have "\<not> in_pages (tag1 + PageSize) tag2 tag1" using nx(2) by (simp add: in_pages_def word_le_nat_alt)
    then have "(\<lambda>t. if in_pages (tag1 + PageSize) tag2 t then f t (m_pages ?m t) else m_pages ?m t) =
        (\<lambda>t. if in_pages tag1 tag2 t then f t (m_pages m t) else m_pages m t)"
      unfolding split by (auto simp: fun_eq_iff)
    moreover have "tag_loop body tag1 tag2 m = tag_loop body (tag1 + PageSize) tag2 ?m"
      using True body [OF less.prems] by (subst tag_loop.simps) simp
    ultimately show ?thesis using IH by simp
  qed
qed

end
