(* ===== verification/SimMemoryClient.thy ===== *)
theory SimMemoryClient
  imports SimMemoryProof
begin

unbundle bit_operations_syntax

text \<open>
  What a client of the guest memory may rely on: sequences of operations behave as on an array of
  bytes with permissions (the interface \<open>adt\<close>), a faulting access names its first forbidden byte,
  \<^verbatim>\<open>MapSpace\<close> finds the lowest free region, and mapping a range that ends in the last page of the
  address space never returns.
\<close>

section \<open>Sequences of operations\<close>

datatype mem_op = MRead "32 word" "32 word" | MWrite "32 word" "byte list" | MInit "32 word" "byte list"
  | MZero "32 word" "32 word" | MMap "32 word" "32 word" "32 word" | MUnmap "32 word" "32 word"
  | MProtect "32 word" "32 word" "32 word" | MClear

definition returns :: "'a result \<Rightarrow> (memory_t \<times> 'a) option" where
  "returns r = (case r of Some (m, Inr x) \<Rightarrow> Some (m, x) | _ \<Rightarrow> None)"

fun mem_call :: "mem_op \<Rightarrow> memory_t \<Rightarrow> (memory_t \<times> byte list) option" where
  "mem_call (MRead a n) m = returns (Read a n (replicate (unat n) 0) m)"
| "mem_call (MWrite a bs) m = returns (Write a (of_nat (length bs)) bs m)"
| "mem_call (MInit a bs) m = returns (Init a (of_nat (length bs)) bs m)"
| "mem_call (MZero a n) m = do { (m, _) \<leftarrow> returns (Zero a n m); Some (m, []) }"
| "mem_call (MMap a n perm) m = do { m \<leftarrow> Map a n perm m; Some (m, []) }"
| "mem_call (MUnmap a n) m = do { m \<leftarrow> Unmap a n m; Some (m, []) }"
| "mem_call (MProtect a n perm) m = do { m \<leftarrow> Protect a n perm m; Some (m, []) }"
| "mem_call MClear m = Some (Clear m, [])"

type_synonym mem_abs_t = "(32 word \<Rightarrow> byte) \<times> (32 word \<Rightarrow> 32 word option) option"

definition mem_abs :: "memory_t \<Rightarrow> mem_abs_t" where
  "mem_abs m = (byte_at m, if m_safe m then Some (perm_at m) else None)"

definition allows :: "(32 word \<Rightarrow> 32 word option) option \<Rightarrow> 32 word \<Rightarrow> 32 word \<Rightarrow> bool" where
  "allows po access x = (case po of None \<Rightarrow> True | Some perm \<Rightarrow> permits (perm x) access)"

definition write_bytes :: "32 word \<Rightarrow> byte list \<Rightarrow> (32 word \<Rightarrow> byte) \<Rightarrow> 32 word \<Rightarrow> byte" where
  "write_bytes a bs b x = (if unat (x - a) < length bs then bs ! unat (x - a) else b x)"

definition in_range :: "32 word \<Rightarrow> 32 word \<Rightarrow> 32 word \<Rightarrow> bool" where
  "in_range a n x \<longleftrightarrow> page_tag a \<le> page_tag x \<and> page_tag x \<le> page_tag (a + n - 1)"

definition last_page :: "32 word" where
  "last_page = 0xfffff000"

fun mem_spec :: "mem_op \<Rightarrow> mem_abs_t \<Rightarrow> mem_abs_t \<times> byte list" where
  "mem_spec (MRead a n) (b, po) = ((b, po), map (\<lambda>i. b (a + of_nat i)) [0..<unat n])"
| "mem_spec (MWrite a bs) (b, po) = ((write_bytes a bs b, po), bs)"
| "mem_spec (MInit a bs) (b, po) = ((write_bytes a bs b, po), bs)"
| "mem_spec (MZero a n) (b, po) = ((write_bytes a (replicate (unat n) 0) b, po), [])"
| "mem_spec (MMap a n perm) (b, po) = ((b, map_option (\<lambda>p x. if in_range a n x
      then Some ((case p x of None \<Rightarrow> perm | Some q \<Rightarrow> q OR perm) AND NOT AccessModified) else p x) po), [])"
| "mem_spec (MUnmap a n) (b, po) =
     ((\<lambda>x. if in_range a n x then 0 else b x, map_option (\<lambda>p x. if in_range a n x then None else p x) po), [])"
| "mem_spec (MProtect a n perm) (b, po) = ((b, map_option (\<lambda>p x. if in_range a n x
      then map_option (\<lambda>_. perm AND NOT AccessModified) (p x) else p x) po), [])"
| "mem_spec MClear (b, po) = ((\<lambda>_. 0, map_option (\<lambda>_ _. None) po), [])"

fun mem_ok :: "mem_op \<Rightarrow> mem_abs_t \<Rightarrow> bool" where
  "mem_ok (MRead a n) (b, po) = (\<forall>i < unat n. allows po AccessRead (a + of_nat i))"
| "mem_ok (MWrite a bs) (b, po) = (length bs < 2 ^ 32 \<and> (\<forall>i < length bs. allows po AccessWrite (a + of_nat i)))"
| "mem_ok (MInit a bs) (b, po) = (length bs < 2 ^ 32 \<and> (\<forall>i < length bs. allows po AccessInit (a + of_nat i)))"
| "mem_ok (MZero a n) (b, po) = (\<forall>i < unat n. allows po AccessWrite (a + of_nat i))"
| "mem_ok (MMap a n perm) _ = (page_tag (a + n - 1) \<noteq> last_page)"
| "mem_ok (MUnmap a n) _ = (page_offset a = 0 \<and> page_offset n = 0 \<and> page_tag (a + n - 1) \<noteq> last_page)"
| "mem_ok (MProtect a n perm) _ = (page_offset a = 0 \<and> page_offset n = 0 \<and> page_tag (a + n - 1) \<noteq> last_page)"
| "mem_ok MClear _ = True"

lemma allows_allowed: "allows (snd (mem_abs m)) access x = allowed m access x"
  by (simp add: allows_def allowed_def mem_abs_def)

lemma wrote_abs: "wrote a bs m m' \<Longrightarrow> memory_inv m' \<and> mem_abs m' = (write_bytes a bs (fst (mem_abs m)), snd (mem_abs m))"
  by (auto simp: wrote_def mem_abs_def write_bytes_def)

lemma in_pages_range: "in_pages (page_tag a) (page_tag (a + n - 1)) (page_tag x) = in_range a n x"
  by (simp add: in_pages_def in_range_def)

text \<open>The pages after a loop over a range, seen from an address.\<close>

lemma loop_pages:
  assumes "\<And>t m. page_offset t = 0 \<Longrightarrow> body t m = m\<lparr>m_pages := (m_pages m)(t := f t (m_pages m t))\<rparr>"
    and "page_tag (a + n - 1) \<noteq> last_page"
  shows "\<exists>m'. tag_loop body (page_tag a) (page_tag (a + n - 1)) m = Some m' \<and> m_safe m' = m_safe m \<and>
    (\<forall>x. getPage x m' = (if in_range a n x then f (page_tag x) (getPage x m) else getPage x m)) \<and>
    (\<forall>t. m_pages m' t = (if in_pages (page_tag a) (page_tag (a + n - 1)) t then f t (m_pages m t) else m_pages m t))"
  using tag_loop_run [OF assms(1), of "page_tag a" "page_tag (a + n - 1)" m] assms(2)
  by (simp add: getPage_def in_pages_range last_page_def)

lemma map_page_body: "page_offset t = 0 \<Longrightarrow> map_page perm t m = m\<lparr>m_pages := (m_pages m)(t := Some (addPerm perm
    (case m_pages m t of None \<Rightarrow> \<lparr>pg_tag = t, pg_perm = perm, pg_data = None\<rparr> | Some p \<Rightarrow> p)))\<rparr>"
  by (simp add: map_page_def getPage_def set_page_def page_tag_id split: option.splits)

lemma unmap_page_body: "unmap_page t m = m\<lparr>m_pages := (m_pages m)(t := None)\<rparr>"
  by (simp add: unmap_page_def)

lemma protect_page_body: "page_offset t = 0 \<Longrightarrow> protect_page perm t m =
    m\<lparr>m_pages := (m_pages m)(t := map_option (\<lambda>p. p\<lparr>pg_perm := perm\<rparr>) (m_pages m t))\<rparr>"
  by (auto simp: protect_page_def getPage_def set_page_def page_tag_id fun_upd_idem split: option.splits)

lemma Map_run:
  assumes "memory_inv m" "page_tag (a + n - 1) \<noteq> last_page"
  shows "\<exists>m'. Map a n perm m = Some m' \<and> memory_inv m' \<and> mem_abs m' = fst (mem_spec (MMap a n perm) (mem_abs m))"
proof -
  let ?f = "\<lambda>t po. Some (addPerm perm (case po of None \<Rightarrow> \<lparr>pg_tag = t, pg_perm = perm, pg_data = None\<rparr> | Some p \<Rightarrow> p))"
  obtain m' where m': "Map a n perm m = Some m'" "m_safe m' = m_safe m"
      "\<And>x. getPage x m' = (if in_range a n x then ?f (page_tag x) (getPage x m) else getPage x m)"
      "\<And>t. m_pages m' t = (if in_pages (page_tag a) (page_tag (a + n - 1)) t then ?f t (m_pages m t) else m_pages m t)"
    using loop_pages [of "map_page perm" ?f a n m, OF map_page_body assms(2)] by (auto simp: Map_def)
  have "memory_inv m'" using assms(1) by (auto simp: memory_inv_def m'(4) page_ok_def addPerm_def in_pages_def split: option.splits if_splits)
  moreover have "byte_at m' x = byte_at m x" for x
    by (simp add: byte_at_def byte_of_def m'(3) addPerm_def split: option.splits)
  moreover have "perm_at m' x = (if in_range a n x
      then Some ((case perm_at m x of None \<Rightarrow> perm | Some q \<Rightarrow> q OR perm) AND NOT AccessModified) else perm_at m x)" for x
    by (simp add: perm_at_def m'(3) addPerm_def bit.conj_disj_distrib2 split: option.splits)
  ultimately show ?thesis using m'(1,2) by (auto simp: mem_abs_def fun_eq_iff)
qed

lemma Unmap_run:
  assumes "memory_inv m" "page_offset a = 0" "page_offset n = 0" "page_tag (a + n - 1) \<noteq> last_page"
  shows "\<exists>m'. Unmap a n m = Some m' \<and> memory_inv m' \<and> mem_abs m' = fst (mem_spec (MUnmap a n) (mem_abs m))"
proof -
  obtain m' where m': "Unmap a n m = Some m'" "m_safe m' = m_safe m"
      "\<And>x. getPage x m' = (if in_range a n x then None else getPage x m)"
      "\<And>t. m_pages m' t = (if in_pages (page_tag a) (page_tag (a + n - 1)) t then None else m_pages m t)"
    using loop_pages [of unmap_page "\<lambda>_ _. None" a n m, OF unmap_page_body assms(4)] assms(2,3) by (auto simp: Unmap_def)
  have "memory_inv m'" using assms(1) by (auto simp: memory_inv_def m'(4) split: if_splits)
  moreover have "byte_at m' x = (if in_range a n x then 0 else byte_at m x)" "perm_at m' x = (if in_range a n x then None else perm_at m x)" for x
    by (simp_all add: byte_at_def byte_of_def perm_at_def m'(3))
  ultimately show ?thesis using m'(1,2) by (auto simp: mem_abs_def fun_eq_iff)
qed

lemma Protect_run:
  assumes "memory_inv m" "page_offset a = 0" "page_offset n = 0" "page_tag (a + n - 1) \<noteq> last_page"
  shows "\<exists>m'. Protect a n perm m = Some m' \<and> memory_inv m' \<and> mem_abs m' = fst (mem_spec (MProtect a n perm) (mem_abs m))"
proof -
  let ?f = "\<lambda>_. map_option (\<lambda>p. p\<lparr>pg_perm := perm\<rparr>)"
  obtain m' where m': "Protect a n perm m = Some m'" "m_safe m' = m_safe m"
      "\<And>x. getPage x m' = (if in_range a n x then ?f (page_tag x) (getPage x m) else getPage x m)"
      "\<And>t. m_pages m' t = (if in_pages (page_tag a) (page_tag (a + n - 1)) t then ?f t (m_pages m t) else m_pages m t)"
    using loop_pages [of "protect_page perm" ?f a n m, OF protect_page_body assms(4)] assms(2,3) by (auto simp: Protect_def)
  have "memory_inv m'" using assms(1) by (auto simp: memory_inv_def m'(4) page_ok_def split: if_splits)
  moreover have "byte_at m' x = byte_at m x" for x
    by (simp add: byte_at_def byte_of_def m'(3) split: option.splits)
  moreover have "perm_at m' x = (if in_range a n x then map_option (\<lambda>_. perm AND NOT AccessModified) (perm_at m x) else perm_at m x)" for x
    by (simp add: perm_at_def m'(3) option.map_comp comp_def)
  ultimately show ?thesis using m'(1,2) by (auto simp: mem_abs_def fun_eq_iff)
qed

interpretation memory_adt: adt memory_inv mem_abs mem_call mem_ok mem_spec
proof
  fix m c assume inv: "memory_inv m" and ok: "mem_ok c (mem_abs m)"
  obtain b po where abs: "mem_abs m = (b, po)" by fastforce
  have al: "allows po access x = allowed m access x" for access x using allows_allowed [of m access x] abs by simp
  have b: "b = byte_at m" using abs by (simp add: mem_abs_def)
  show "\<exists>m'. mem_call c m = Some (m', snd (mem_spec c (mem_abs m))) \<and> memory_inv m' \<and> mem_abs m' = fst (mem_spec c (mem_abs m))"
  proof (cases c)
    case (MRead a n)
    then have "Read a n (replicate (unat n) 0) m = Some (m\<lparr>m_last_address := a\<rparr>, Inr (bytes_from m a (unat n)))"
      using ok abs al by (intro Read_run [OF inv]) simp_all
    moreover have "mem_abs (m\<lparr>m_last_address := a\<rparr>) = mem_abs m" by (simp add: mem_abs_def)
    ultimately show ?thesis using inv abs MRead b by (simp add: returns_def bytes_from_def)
  next
    case (MWrite a bs)
    then have "\<exists>m'. Write a (of_nat (length bs)) bs m = Some (m', Inr bs) \<and> wrote a bs m m'"
      using ok abs al by (intro Write_run [OF inv]) (simp_all add: unat_of_nat take_bit_eq_mod)
    then show ?thesis using abs MWrite wrote_abs [of a bs m] by (auto simp: returns_def)
  next
    case (MInit a bs)
    then have "\<exists>m'. Init a (of_nat (length bs)) bs m = Some (m', Inr bs) \<and> wrote a bs m m'"
      using ok abs al by (intro Init_run [OF inv]) (simp_all add: unat_of_nat take_bit_eq_mod)
    then show ?thesis using abs MInit wrote_abs [of a bs m] by (auto simp: returns_def)
  next
    case (MZero a n)
    then have "\<exists>m'. Zero a n m = Some (m', Inr ()) \<and> wrote a (replicate (unat n) 0) m m'"
      using ok abs al by (intro Zero_run [OF inv]) simp
    then show ?thesis using abs MZero wrote_abs [of a "replicate (unat n) 0" m] by (auto simp: returns_def)
  next
    case (MMap a n perm)
    then show ?thesis using Map_run [OF inv, of a n perm] ok abs by auto
  next
    case (MUnmap a n)
    then show ?thesis using Unmap_run [OF inv, of a n] ok abs by auto
  next
    case (MProtect a n perm)
    then show ?thesis using Protect_run [OF inv, of a n perm] ok abs by auto
  next
    case MClear
    then show ?thesis using abs
      by (auto simp: Clear_def memory_inv_def mem_abs_def byte_at_def byte_of_def perm_at_def getPage_def fun_eq_iff)
  qed
qed

section \<open>Searching for free space\<close>

definition region_free :: "memory_t \<Rightarrow> nat \<Rightarrow> nat \<Rightarrow> bool" where
  "region_free m p n \<longleftrightarrow> p + n \<le> 2 ^ 32 \<and> (\<forall>x. p \<le> unat x \<and> unat x < p + n \<longrightarrow> getPage x m = None)"

definition lowest_free :: "memory_t \<Rightarrow> nat \<Rightarrow> nat \<Rightarrow> 32 word \<Rightarrow> bool" where
  "lowest_free m s n r \<longleftrightarrow>
     r = - 1 \<and> (\<forall>p \<ge> s. 4096 dvd p \<longrightarrow> \<not> region_free m p n) \<or>
     (\<exists>p \<ge> s. r = of_nat p \<and> 4096 dvd p \<and> region_free m p n \<and> (\<forall>q. s \<le> q \<and> q < p \<and> 4096 dvd q \<longrightarrow> \<not> region_free m q n))"

lemma lowest_free_skip:
  assumes "lowest_free m e n r" "s \<le> e" "\<And>p. s \<le> p \<Longrightarrow> p < e \<Longrightarrow> 4096 dvd p \<Longrightarrow> \<not> region_free m p n"
  shows "lowest_free m s n r"
  using assms(1) unfolding lowest_free_def
proof (elim disjE exE conjE)
  assume "r = - 1" "\<forall>p \<ge> e. 4096 dvd p \<longrightarrow> \<not> region_free m p n"
  then show "r = - 1 \<and> (\<forall>p \<ge> s. 4096 dvd p \<longrightarrow> \<not> region_free m p n) \<or>
     (\<exists>p \<ge> s. r = of_nat p \<and> 4096 dvd p \<and> region_free m p n \<and> (\<forall>q. s \<le> q \<and> q < p \<and> 4096 dvd q \<longrightarrow> \<not> region_free m q n))"
    using assms(3) by (metis not_le)
next
  fix p assume p: "e \<le> p" "r = of_nat p" "4096 dvd p" "region_free m p n" "\<forall>q. e \<le> q \<and> q < p \<and> 4096 dvd q \<longrightarrow> \<not> region_free m q n"
  have "\<forall>q. s \<le> q \<and> q < p \<and> 4096 dvd q \<longrightarrow> \<not> region_free m q n" using p(5) assms(3) by (metis not_le)
  then show "r = - 1 \<and> (\<forall>p \<ge> s. 4096 dvd p \<longrightarrow> \<not> region_free m p n) \<or>
     (\<exists>p \<ge> s. r = of_nat p \<and> 4096 dvd p \<and> region_free m p n \<and> (\<forall>q. s \<le> q \<and> q < p \<and> 4096 dvd q \<longrightarrow> \<not> region_free m q n))"
    using p(1-4) assms(2) le_trans by blast
qed

lemma map_space_loop_run:
  assumes sz: "4096 dvd unat sz"
  shows "s \<le> e \<Longrightarrow> e \<le> 2 ^ 32 \<Longrightarrow> 0 < e \<Longrightarrow> 4096 dvd s \<Longrightarrow> 4096 dvd e \<Longrightarrow> e < s + unat sz \<Longrightarrow>
    (\<And>x. s \<le> unat x \<Longrightarrow> unat x < e \<Longrightarrow> getPage x m = None) \<Longrightarrow>
    \<exists>r. map_space_loop m sz (of_nat s) (of_nat e) = Some r \<and> lowest_free m s (unat sz) r"
proof (induction "2 ^ 32 - e" arbitrary: s e rule: less_induct)
  case less
  let ?n = "unat sz"
  show ?case
  proof (cases "e = 2 ^ 32")
    case True
    have "\<not> region_free m p ?n" if "s \<le> p" for p using less.prems(6) that True by (simp add: region_free_def)
    then show ?thesis using True by (subst map_space_loop.simps) (simp add: lowest_free_def)
  next
    case False
    then have lt: "e < 2 ^ 32" "s < 2 ^ 32" using less.prems(1,2) by simp_all
    obtain i j k where ijk: "e = 4096 * i" "s = 4096 * j" "?n = 4096 * k" using less.prems(4,5) sz by (elim dvdE)
    have "i < j + k" using ijk less.prems(6) by linarith
    then have nx: "e + 4096 \<le> 2 ^ 32" "e + 4096 \<le> s + ?n" using ijk lt by simp_all
    have dec: "2 ^ 32 - (e + 4096) < 2 ^ 32 - e" using lt(1) by linarith
    have n0: "0 < ?n" using less.prems(1,6) by linarith
    have u: "unat (of_nat e :: 32 word) = e" "unat (of_nat s :: 32 word) = s"
      using lt by (simp_all add: unat_of_nat take_bit_eq_mod)
    have ne: "of_nat e \<noteq> (0 :: 32 word)" using u(1) less.prems(3) by auto
    have suc: "of_nat e + PageSize = of_nat (e + 4096)" by simp
    have d: "4096 dvd e + 4096" using less.prems(5) by simp
    have page: "getPage x m = getPage (of_nat e) m" if "e \<le> unat x" "unat x < e + 4096" for x
    proof -
      have "unat x div 4096 = i" "e div 4096 = i" using that ijk(1) by simp_all
      then have "page_tag x = page_tag (of_nat e)" unfolding page_tag_eq_iff u(1) by simp
      then show ?thesis by (simp add: getPage_def)
    qed
    show ?thesis
    proof (cases "getPage (of_nat e) m = None")
      case mapped: False
      have "\<not> region_free m p ?n" if "s \<le> p" "p < e + 4096" "4096 dvd p" for p
      proof -
        obtain l where "p = 4096 * l" using \<open>4096 dvd p\<close> by (elim dvdE)
        then have "p \<le> e" using that(2) ijk(1) by simp
        moreover have "e < p + ?n" using that(1) less.prems(6) by simp
        ultimately show ?thesis using mapped u(1) unfolding region_free_def by metis
      qed
      moreover obtain r where r: "map_space_loop m sz (of_nat (e + 4096)) (of_nat (e + 4096)) = Some r"
          "lowest_free m (e + 4096) ?n r"
        using less.hyps [OF dec, of "e + 4096"] nx(1) n0 d by (auto simp del: of_nat_add)
      ultimately have "lowest_free m s ?n r" using less.prems(1) by (intro lowest_free_skip [OF r(2)]) auto
      moreover have "map_space_loop m sz (of_nat s) (of_nat e) = Some r"
        using r(1) mapped ne unfolding suc [symmetric] by (subst map_space_loop.simps) simp
      ultimately show ?thesis by blast
    next
      case True
      have free: "getPage x m = None" if "s \<le> unat x" "unat x < e + 4096" for x
        using less.prems(7) [of x] page [of x] True that by (cases "unat x < e") auto
      have diff: "of_nat e - of_nat s + PageSize = (of_nat (e - s + 4096) :: 32 word)"
        using less.prems(1) by (simp add: of_nat_diff)
      have "unat (of_nat (e - s + 4096) :: 32 word) = (e - s + 4096) mod 2 ^ 32" by (simp add: unat_of_nat take_bit_eq_mod del: of_nat_add)
      moreover have "e - s + 4096 < 2 ^ 32" using nx(2) unat32 [of sz] by simp
      ultimately have ud: "unat (of_nat (e - s + 4096) :: 32 word) = e - s + 4096" by simp
      show ?thesis
      proof (cases "e - s + 4096 = ?n")
        case True
        then have "of_nat (e - s + 4096) = sz" using ud by (metis word_unat_eq_iff)
        then have "map_space_loop m sz (of_nat s) (of_nat e) = Some (of_nat s)"
          using \<open>getPage (of_nat e) m = None\<close> ne diff by (subst map_space_loop.simps) simp
        moreover have sn: "s + ?n = e + 4096" using True less.prems(1) by linarith
        have "region_free m s ?n" using free nx(1) unfolding region_free_def sn by blast
        ultimately show ?thesis using less.prems(4) unfolding lowest_free_def by auto
      next
        case more: False
        then have "of_nat (e - s + 4096) \<noteq> sz" "of_nat (e - s + 4096) < sz" "e + 4096 < s + ?n"
          using ud nx(2) less.prems(1) by (auto simp: word_less_nat_alt)
        then have "map_space_loop m sz (of_nat s) (of_nat e) = map_space_loop m sz (of_nat s) (of_nat (e + 4096))"
          using True ne diff suc by (subst map_space_loop.simps) simp
        moreover have "\<exists>r. map_space_loop m sz (of_nat s) (of_nat (e + 4096)) = Some r \<and> lowest_free m s ?n r"
          by (rule less.hyps) (use lt nx d less.prems(1,4) \<open>e + 4096 < s + ?n\<close> free in simp_all)
        ultimately show ?thesis by simp
      qed
    qed
  qed
qed

section \<open>Mapping the last page\<close>

lemma tag_loop_diverges:
  assumes "tag_loop body tag tag2 m = Some m'"
  shows "page_offset tag = 0 \<longrightarrow> tag2 \<noteq> last_page"
proof (rule tag_loop.raw_induct [where P = "\<lambda>body tag tag2 m y. page_offset tag = 0 \<longrightarrow> tag2 \<noteq> last_page", OF _ assms])
  fix loop :: "(32 word \<Rightarrow> memory_t \<Rightarrow> memory_t) \<Rightarrow> 32 word \<Rightarrow> 32 word \<Rightarrow> memory_t \<Rightarrow> memory_t option" and body tag tag2 m y
  assume IH: "\<And>body tag tag2 m y. loop body tag tag2 m = Some y \<Longrightarrow> page_offset tag = 0 \<longrightarrow> tag2 \<noteq> last_page"
    and step: "(if tag \<le> tag2 then loop body (tag + PageSize) tag2 (body tag m) else Some m) = Some y"
  show "page_offset tag = 0 \<longrightarrow> tag2 \<noteq> last_page"
  proof (intro impI notI)
    assume a: "page_offset tag = 0" "tag2 = last_page"
    obtain q where q: "unat tag = 4096 * q" "q < 1048576" by (rule aligned [OF a(1)])
    then have "unat tag \<le> 4294963200" by linarith
    then have "tag \<le> tag2" using a(2) by (simp add: last_page_def word_le_nat_alt)
    then have run: "loop body (tag + PageSize) tag2 (body tag m) = Some y" using step by simp
    have "page_offset (tag + PageSize) = 0"
    proof (cases "tag = 0xfffff000")
      case True
      then show ?thesis by (simp add: page_offset_def)
    next
      case False
      then show ?thesis by (rule next_tag(1) [OF a(1)])
    qed
    then show False using IH [OF run] a(2) by blast
  qed
qed

section \<open>Properties\<close>

text \<open>
  C12: the guest memory is an array of bytes with permissions. From an empty memory, in safe or in
  unsafe mode, every sequence of reads, writes, initialisations, clearings, mappings, unmappings
  and changes of protection that the permissions allow returns, across page boundaries and across
  the end of the address space; a read returns the bytes last written, and zeros where nothing was.
\<close>

theorem memory_refines_bytes:
  assumes "all_ok mem_ok mem_spec cs (mem_abs (setSafe s memory_create))"
  shows "\<exists>m. run_calls mem_call cs (setSafe s memory_create) =
      Some (m, snd (run_spec mem_spec cs ((\<lambda>_. 0), if s then Some (\<lambda>_. None) else None))) \<and>
    memory_inv m \<and> mem_abs m = fst (run_spec mem_spec cs ((\<lambda>_. 0), if s then Some (\<lambda>_. None) else None))"
proof -
  have "memory_inv (setSafe s memory_create)" by (simp add: memory_inv_def setSafe_def memory_create_def)
  moreover have "mem_abs (setSafe s memory_create) = ((\<lambda>_. 0), if s then Some (\<lambda>_. None) else None)"
    by (auto simp: mem_abs_def byte_at_def byte_of_def perm_at_def getPage_def setSafe_def memory_create_def fun_eq_iff)
  ultimately show ?thesis using memory_adt.calls_refine [OF _ assms] by simp
qed

theorem memory_refines_bytes_witness:
  "\<exists>m. run_calls mem_call [MWrite 0xfffffffe [1, 2, 3, 4], MRead 0xffffffff 3, MUnmap 0 0x1000, MRead 0xffffffff 3]
     (setSafe False memory_create) = Some (m, [[1, 2, 3, 4], [2, 3, 4], [], [2, 0, 0]])"
proof -
  let ?cs = "[MWrite 0xfffffffe [1, 2, 3, 4], MRead 0xffffffff 3, MUnmap 0 0x1000, MRead 0xffffffff 3]"
  have ok: "all_ok mem_ok mem_spec ?cs (mem_abs (setSafe False memory_create))"
    by (simp add: mem_abs_def setSafe_def allows_def last_page_def page_tag_def page_offset_def)
  have "snd (run_spec mem_spec ?cs ((\<lambda>_. 0), None)) = [[1, 2, 3, 4], [2, 3, 4], [], [2, 0, 0]]"
    by (simp add: write_bytes_def in_range_def page_tag_def upt_rec)
  then show ?thesis using memory_refines_bytes [OF ok] by auto
qed

text \<open>
  C13: a faulting access. When byte \<open>k\<close> is the first byte of a write that safe mode forbids, exactly
  the bytes before it are written and the exception carries its address: a segmentation fault where
  no page is, a denied permission otherwise. A faulting read changes nothing.
\<close>

theorem access_faults_at_first_forbidden:
  assumes "memory_inv m" "length buf = unat sz"
  shows "(first_fault m AccessWrite a (unat sz) k \<longrightarrow>
      (\<exists>m'. Write a sz buf m = Some (m', Inl (fault_of m (a + of_nat k))) \<and> wrote a (take k buf) m m')) \<and>
    (first_fault m AccessRead a (unat sz) k \<longrightarrow>
      Read a sz buf m = Some (m\<lparr>m_last_address := a\<rparr>, Inl (fault_of m (a + of_nat k))))"
  using access_write [of "m\<lparr>m_last_address := a\<rparr>" buf sz AccessWrite a] access_read [of "m\<lparr>m_last_address := a\<rparr>" buf sz AccessRead a] assms
  by (simp add: Write_def Read_def Access_def data_access_def fetch_access_def)

theorem access_faults_at_first_forbidden_witness:
  "Read 0x2000 4 [9, 9, 9, 9] memory_create = Some (memory_create\<lparr>m_last_address := 0x2000\<rparr>, Inl (SegFault 0x2000))"
proof -
  have none: "perm_at memory_create x = None" for x by (simp add: perm_at_def getPage_def memory_create_def)
  then have "first_fault memory_create AccessRead 0x2000 (unat (4 :: 32 word)) 0"
    by (simp add: first_fault_def allowed_def permits_def) (simp add: memory_create_def)
  moreover have "memory_inv memory_create" by (simp add: memory_inv_def memory_create_def)
  ultimately show ?thesis
    using access_faults_at_first_forbidden [of memory_create "[9, 9, 9, 9]" 4 "0x2000" 0] none by (simp add: fault_of_def)
qed

text \<open>
  \<^verbatim>\<open>MapSpace\<close> terminates and returns the lowest page-aligned region of the size asked for that
  holds no page and starts at the given address or above, or \<open>-1\<close> when there is none.
\<close>

theorem MapSpace_lowest_free:
  assumes "page_offset a = 0" "a \<noteq> 0" "page_offset sz = 0" "sz \<noteq> 0"
  shows "\<exists>r. MapSpace a sz m = Some r \<and> lowest_free m (unat a) (unat sz) r"
proof -
  have d: "4096 dvd unat a" "4096 dvd unat sz" using assms by (simp_all add: page_offset_zero mod_eq_0_iff_dvd)
  have "0 < unat a" "0 < unat sz" "unat a \<le> 2 ^ 32" using assms unat32 [of a] by (simp_all add: unat_gt_0)
  then show ?thesis
    using map_space_loop_run [OF d(2), of "unat a" "unat a" m] d(1) assms(1,3) by (simp add: MapSpace_def)
qed

theorem MapSpace_lowest_free_witness:
  "\<exists>r. MapSpace 0x40000000 0x3000 memory_create = Some r \<and> lowest_free memory_create 0x40000000 0x3000 r"
  using MapSpace_lowest_free [of "0x40000000" "0x3000" memory_create] by (simp add: page_offset_def)


end
