(* ===== verification/SimList.thy ===== *)
theory SimList
  imports CPrelude
begin

text \<open>
  The in-place linked list of the simulator, \<^verbatim>\<open>lib/cpp/List.h\<close>. A node is a number, with its fields
  in the function \<open>ns\<close>; the null pointer is \<^term>\<open>None\<close>. Each list has a number too, which is what
  the \<^verbatim>\<open>list\<close> field of a node refers to. A failed assertion or an access through the null pointer is
  the result \<^term>\<open>None\<close>.

  \<^verbatim>\<open>Erase\<close> leaves the pointers of the node it takes out as they are, and \<^verbatim>\<open>Insert\<close> sets only one
  of them at the ends of a list. The representation \<open>list_rep\<close> therefore says nothing of the \<^verbatim>\<open>prev\<close>
  of the first node and the \<^verbatim>\<open>next\<close> of the last one.
\<close>

section \<open>The code\<close>

record node_t =
  nd_prev :: "nat option"
  nd_next :: "nat option"
  nd_list :: "nat option"

record List_t =
  ls_head :: "nat option"
  ls_tail :: "nat option"
  ls_size :: nat

type_synonym store = "nat \<Rightarrow> node_t"

definition node_create :: node_t where
  "node_create = \<lparr>nd_prev = None, nd_next = None, nd_list = None\<rparr>"

definition List_empty :: List_t where
  "List_empty = \<lparr>ls_head = None, ls_tail = None, ls_size = 0\<rparr>"

definition put_prev :: "nat \<Rightarrow> nat option \<Rightarrow> store \<Rightarrow> store" where
  "put_prev p v ns = ns(p := (ns p)\<lparr>nd_prev := v\<rparr>)"

definition put_next :: "nat \<Rightarrow> nat option \<Rightarrow> store \<Rightarrow> store" where
  "put_next p v ns = ns(p := (ns p)\<lparr>nd_next := v\<rparr>)"

definition put_list :: "nat \<Rightarrow> nat option \<Rightarrow> store \<Rightarrow> store" where
  "put_list p v ns = ns(p := (ns p)\<lparr>nd_list := v\<rparr>)"

definition List_Front :: "List_t \<Rightarrow> nat option" where
  "List_Front l = ls_head l"

definition List_Back :: "List_t \<Rightarrow> nat option" where
  "List_Back l = ls_tail l"

definition List_Insert :: "nat \<Rightarrow> nat option \<Rightarrow> nat \<Rightarrow> store \<times> List_t \<Rightarrow> ((store \<times> List_t) \<times> nat option) option" where
  "List_Insert this position node = (\<lambda>(ns, l). do {
     c_assert (nd_list (ns node) = None);
     (ns, l) \<leftarrow>
       if ls_size l = 0 then Some (ns, l\<lparr>ls_head := Some node, ls_tail := Some node\<rparr>)
       else if position = ls_head l then do {
         let ns = put_next node (ls_head l) ns;
         head \<leftarrow> ls_head l;
         Some (put_prev head (Some node) ns, l\<lparr>ls_head := Some node\<rparr>) }
       else if position = None then do {
         let ns = put_prev node (ls_tail l) ns;
         tail \<leftarrow> ls_tail l;
         Some (put_next tail (Some node) ns, l\<lparr>ls_tail := Some node\<rparr>) }
       else do {
         pos \<leftarrow> position;
         let ns = put_prev node (nd_prev (ns pos)) ns;
         let ns = put_next node (Some pos) ns;
         let ns = put_prev pos (Some node) ns;
         prev \<leftarrow> nd_prev (ns node);
         Some (put_next prev (Some node) ns, l) };
     Some ((put_list node (Some this) ns, l\<lparr>ls_size := ls_size l + 1\<rparr>), Some node) })"

definition List_PushBack :: "nat \<Rightarrow> nat \<Rightarrow> store \<times> List_t \<Rightarrow> ((store \<times> List_t) \<times> nat option) option" where
  "List_PushBack this node s = List_Insert this None node s"

definition List_PushFront :: "nat \<Rightarrow> nat \<Rightarrow> store \<times> List_t \<Rightarrow> ((store \<times> List_t) \<times> nat option) option" where
  "List_PushFront this node s = List_Insert this (ls_head (snd s)) node s"

definition List_Erase :: "nat \<Rightarrow> nat \<Rightarrow> store \<times> List_t \<Rightarrow> ((store \<times> List_t) \<times> nat option) option" where
  "List_Erase this node = (\<lambda>(ns, l). do {
     c_assert (ls_size l > 0);
     c_assert (nd_list (ns node) = Some this);
     (ns, l) \<leftarrow>
       if ls_size l = 1 then do {
         c_assert (ls_head l = Some node);
         c_assert (ls_tail l = Some node);
         Some (ns, l\<lparr>ls_head := None, ls_tail := None\<rparr>) }
       else if Some node = ls_head l then do {
         next \<leftarrow> nd_next (ns node);
         let ns = put_prev next None ns;
         Some (ns, l\<lparr>ls_head := nd_next (ns node)\<rparr>) }
       else if Some node = ls_tail l then do {
         prev \<leftarrow> nd_prev (ns node);
         let ns = put_next prev None ns;
         Some (ns, l\<lparr>ls_tail := nd_prev (ns node)\<rparr>) }
       else do {
         prev \<leftarrow> nd_prev (ns node);
         let ns = put_next prev (nd_next (ns node)) ns;
         next \<leftarrow> nd_next (ns node);
         Some (put_prev next (nd_prev (ns node)) ns, l) };
     Some ((put_list node None ns, l\<lparr>ls_size := ls_size l - 1\<rparr>), nd_next (ns node)) })"

text \<open>The loop \<^verbatim>\<open>for (it = list.begin(); it != list.end(); ++it)\<close>, run for at most \<open>n\<close> steps.\<close>

fun List_iterate :: "nat \<Rightarrow> store \<Rightarrow> nat option \<Rightarrow> nat list option" where
  "List_iterate 0 ns it = None"
| "List_iterate (Suc n) ns it = (case it of None \<Rightarrow> Some []
    | Some p \<Rightarrow> do { ps \<leftarrow> List_iterate n ns (nd_next (ns p)); Some (p # ps) })"

section \<open>Representation\<close>

definition lk :: "store \<Rightarrow> nat \<Rightarrow> nat \<Rightarrow> bool" where
  "lk ns p q \<longleftrightarrow> nd_next (ns p) = Some q \<and> nd_prev (ns q) = Some p"

definition list_rep :: "nat \<Rightarrow> store \<Rightarrow> List_t \<Rightarrow> nat list \<Rightarrow> bool" where
  "list_rep this ns l ps \<longleftrightarrow> distinct ps \<and> ls_size l = length ps \<and>
     ls_head l = (if ps = [] then None else Some (hd ps)) \<and> ls_tail l = (if ps = [] then None else Some (last ps)) \<and>
     (\<forall>p \<in> set ps. nd_list (ns p) = Some this) \<and> successively (lk ns) ps"

lemma put_simps [simp]:
  "nd_prev (put_prev p v ns q) = (if q = p then v else nd_prev (ns q))"
  "nd_next (put_prev p v ns q) = nd_next (ns q)"
  "nd_list (put_prev p v ns q) = nd_list (ns q)"
  "nd_prev (put_next p v ns q) = nd_prev (ns q)"
  "nd_next (put_next p v ns q) = (if q = p then v else nd_next (ns q))"
  "nd_list (put_next p v ns q) = nd_list (ns q)"
  "nd_prev (put_list p v ns q) = nd_prev (ns q)"
  "nd_next (put_list p v ns q) = nd_next (ns q)"
  "nd_list (put_list p v ns q) = (if q = p then v else nd_list (ns q))"
  by (simp_all add: put_prev_def put_next_def put_list_def)

lemma put_other:
  "q \<noteq> p \<Longrightarrow> put_prev p v ns q = ns q" "q \<noteq> p \<Longrightarrow> put_next p v ns q = ns q" "q \<noteq> p \<Longrightarrow> put_list p v ns q = ns q"
  by (simp_all add: put_prev_def put_next_def put_list_def)

text \<open>A piece of a list is linked as before if the inner pointers of the piece are.\<close>

lemma links_keep:
  "successively (lk ns) ps \<Longrightarrow> (\<And>p. p \<in> set (butlast ps) \<Longrightarrow> nd_next (ns' p) = nd_next (ns p)) \<Longrightarrow>
   (\<And>p. p \<in> set (tl ps) \<Longrightarrow> nd_prev (ns' p) = nd_prev (ns p)) \<Longrightarrow> successively (lk ns') ps"
proof (induction ps rule: induct_list012)
  case (3 p q ps)
  have "successively (lk ns') (q # ps)" using 3 by (intro 3(2)) (auto split: if_splits)
  moreover have "lk ns' p q" using 3(3) 3(4) [of p] 3(5) [of q] by (simp add: lk_def)
  ultimately show ?case by simp
qed simp_all

lemma list_repD:
  assumes "list_rep this ns l ps"
  shows "distinct ps" "ls_size l = length ps" "ls_head l = (if ps = [] then None else Some (hd ps))"
    "ls_tail l = (if ps = [] then None else Some (last ps))" "p \<in> set ps \<Longrightarrow> nd_list (ns p) = Some this" "successively (lk ns) ps"
  using assms by (simp_all add: list_rep_def)

text \<open>Other lists are untouched: only the nodes of the list and the node itself change.\<close>

definition frame :: "nat set \<Rightarrow> store \<Rightarrow> store \<Rightarrow> bool" where
  "frame A ns ns' \<longleftrightarrow> (\<forall>q. q \<notin> A \<longrightarrow> ns' q = ns q)"

lemma in_tl: "p \<in> set (tl ps) \<Longrightarrow> p \<in> set ps"
  by (cases ps) auto

lemma list_rep_frame:
  assumes "list_rep this ns l ps" "frame A ns ns'" "set ps \<inter> A = {}"
  shows "list_rep this ns' l ps"
proof -
  have same: "ns' p = ns p" if "p \<in> set ps" for p using assms(2,3) that by (auto simp: frame_def)
  have "p \<in> set ps" if "p \<in> set (butlast ps) \<or> p \<in> set (tl ps)" for p
    using that by (auto dest: in_set_butlastD in_tl)
  then have "successively (lk ns') ps" using same by (intro links_keep [OF list_repD(6) [OF assms(1)]]) auto
  then show ?thesis using assms(1) same by (simp add: list_rep_def)
qed

lemma push_front_run:
  assumes "list_rep this ns l ps" "nd_list (ns p) = None"
  shows "\<exists>ns' l'. List_PushFront this p (ns, l) = Some ((ns', l'), Some p) \<and> list_rep this ns' l' (p # ps) \<and>
    frame (insert p (set ps)) ns ns'"
proof -
  note rep = list_repD [OF assms(1)]
  have p: "p \<notin> set ps" using rep(5) assms(2) by auto
  show ?thesis
  proof (cases ps)
    case Nil
    then show ?thesis using rep assms(2)
      by (simp add: List_PushFront_def List_Insert_def list_rep_def frame_def put_other)
  next
    case (Cons q qs)
    let ?ns = "put_list p (Some this) (put_prev q (Some p) (put_next p (Some q) ns))"
    let ?l = "l\<lparr>ls_head := Some p, ls_size := ls_size l + 1\<rparr>"
    have "successively (lk ?ns) ps"
      using rep(1) p Cons by (intro links_keep [OF rep(6)]) (auto dest: in_set_butlastD split: if_splits)
    then have "list_rep this ?ns ?l (p # ps)" using rep p Cons by (simp add: list_rep_def lk_def)
    moreover have "List_PushFront this p (ns, l) = Some ((?ns, ?l), Some p)"
      using rep(2,3) assms(2) Cons by (simp add: List_PushFront_def List_Insert_def Let_def)
    moreover have "frame (insert p (set ps)) ns ?ns" using Cons by (simp add: frame_def put_other)
    ultimately show ?thesis by blast
  qed
qed

lemma push_back_run:
  assumes "list_rep this ns l ps" "nd_list (ns p) = None"
  shows "\<exists>ns' l'. List_PushBack this p (ns, l) = Some ((ns', l'), Some p) \<and> list_rep this ns' l' (ps @ [p]) \<and>
    frame (insert p (set ps)) ns ns'"
proof -
  note rep = list_repD [OF assms(1)]
  have p: "p \<notin> set ps" using rep(5) assms(2) by auto
  show ?thesis
  proof (cases "ps = []")
    case True
    then show ?thesis using rep assms(2)
      by (simp add: List_PushBack_def List_Insert_def list_rep_def frame_def put_other)
  next
    case False
    let ?q = "last ps"
    let ?ns = "put_list p (Some this) (put_next ?q (Some p) (put_prev p (Some ?q) ns))"
    let ?l = "l\<lparr>ls_tail := Some p, ls_size := ls_size l + 1\<rparr>"
    have q: "?q \<in> set ps" using False by simp
    have "ps = butlast ps @ [?q]" using False by simp
    then have "?q \<notin> set (butlast ps)" using rep(1) by (metis distinct_append disjoint_iff list.set_intros(1))
    moreover have "p \<notin> set (tl ps)" using p by (auto dest: in_tl)
    ultimately have "successively (lk ?ns) ps"
      using p by (intro links_keep [OF rep(6)]) (auto dest: in_set_butlastD)
    then have "list_rep this ?ns ?l (ps @ [p])"
      using rep p False q by (auto simp: list_rep_def lk_def successively_append_iff)
    moreover have "List_PushBack this p (ns, l) = Some ((?ns, ?l), Some p)"
      using rep(2,3,4) assms(2) False by (simp add: List_PushBack_def List_Insert_def Let_def)
    moreover have "frame (insert p (set ps)) ns ?ns" using q unfolding frame_def by (metis insertCI put_other)
    ultimately show ?thesis by blast
  qed
qed

lemma erase_run:
  assumes "list_rep this ns l ps" "p \<in> set ps"
  shows "\<exists>ns' l' q. List_Erase this p (ns, l) = Some ((ns', l'), q) \<and> list_rep this ns' l' (remove1 p ps) \<and>
    nd_list (ns' p) = None \<and> frame (set ps) ns ns'"
proof -
  note rep = list_repD [OF assms(1)]
  obtain xs ys where ps: "ps = xs @ p # ys" using assms(2) by (auto dest: split_list)
  have dis: "distinct xs" "distinct ys" "p \<notin> set xs" "p \<notin> set ys" "set xs \<inter> set ys = {}" using rep(1) unfolding ps by auto
  have rem: "remove1 p ps = xs @ ys" using dis(3) unfolding ps by (simp add: remove1_append)
  have lks: "successively (lk ns) xs" "successively (lk ns) ys" "xs = [] \<or> lk ns (last xs) p" "ys = [] \<or> lk ns p (hd ys)"
    using rep(6) unfolding ps by (cases ys; auto simp: successively_append_iff successively_Cons)+
  have here: "nd_list (ns p) = Some this" using rep(5) assms(2) by blast
  consider (one) "xs = []" "ys = []" | (head) "xs = []" "ys \<noteq> []" | (tail) "xs \<noteq> []" "ys = []" | (middle) "xs \<noteq> []" "ys \<noteq> []" by blast
  then show ?thesis
  proof cases
    case one
    then show ?thesis using rep(2-4) here ps by (simp add: List_Erase_def list_rep_def frame_def put_other)
  next
    case head
    then obtain y zs where y: "ys = y # zs" by (cases ys) auto
    let ?ns = "put_list p None (put_prev y None ns)" and ?l = "l\<lparr>ls_head := Some y, ls_size := ls_size l - 1\<rparr>"
    have nx: "nd_next (ns p) = Some y" using lks(4) y by (simp add: lk_def)
    have "List_Erase this p (ns, l) = Some ((?ns, ?l), Some y)"
      using rep(2-4) here head y nx ps by (simp add: List_Erase_def Let_def)
    moreover have "successively (lk ?ns) ys"
      using dis(2) y by (intro links_keep [OF lks(2)]) auto
    then have "list_rep this ?ns ?l (remove1 p ps)"
      using rep dis head y unfolding rem by (auto simp: list_rep_def ps)
    moreover have "frame (set ps) ns ?ns" using y ps by (simp add: frame_def put_other)
    ultimately show ?thesis by (intro exI conjI) simp_all
  next
    case tail
    let ?x = "last xs"
    let ?ns = "put_list p None (put_next ?x None ns)" and ?l = "l\<lparr>ls_tail := Some ?x, ls_size := ls_size l - 1\<rparr>"
    have x: "?x \<in> set xs" "?x \<noteq> p" using tail(1) dis(3) by auto
    have nx: "nd_prev (ns p) = Some ?x" using lks(3) tail(1) by (simp add: lk_def)
    have hd: "ls_head l = Some (hd xs)" "hd xs \<noteq> p" "ls_tail l = Some p" "ls_size l \<noteq> 1"
      using rep(2-4) tail dis(3) hd_in_set [of xs] ps by auto
    have "List_Erase this p (ns, l) = Some ((?ns, ?l), nd_next (ns p))"
      using rep(2) here hd nx x ps tail by (simp add: List_Erase_def Let_def)
    moreover have "xs = butlast xs @ [?x]" using tail(1) by simp
    then have "?x \<notin> set (butlast xs)" using dis(1) by (metis distinct_append disjoint_iff list.set_intros(1))
    then have "successively (lk ?ns) xs" by (intro links_keep [OF lks(1)]) auto
    then have "list_rep this ?ns ?l (remove1 p ps)"
      using rep dis tail hd unfolding rem by (auto simp: list_rep_def ps)
    moreover have "?x \<in> set ps" "p \<in> set ps" using x ps by auto
    then have "frame (set ps) ns ?ns" unfolding frame_def by (metis put_other)
    ultimately show ?thesis by (intro exI conjI) simp_all
  next
    case middle
    then obtain y zs where y: "ys = y # zs" by (cases ys) auto
    let ?x = "last xs"
    let ?ns = "put_list p None (put_prev y (Some ?x) (put_next ?x (Some y) ns))" and ?l = "l\<lparr>ls_size := ls_size l - 1\<rparr>"
    have x: "?x \<in> set xs" "?x \<noteq> p" "?x \<noteq> y" "y \<noteq> p" "y \<notin> set xs" "?x \<notin> set ys" using middle(1) dis y last_in_set [OF middle(1)] by (auto simp: disjoint_iff)
    have nx: "nd_prev (ns p) = Some ?x" "nd_next (ns p) = Some y" using lks(3,4) middle y by (simp_all add: lk_def)
    have hd: "ls_head l = Some (hd xs)" "hd xs \<noteq> p" "ls_tail l = Some (last ys)" "last ys \<noteq> p" "ls_size l \<noteq> 1"
      using rep(2-4) middle dis(3,4) hd_in_set [of xs] last_in_set [of ys] ps by auto
    have "List_Erase this p (ns, l) = Some ((?ns, ?l), Some y)"
      using rep(2) here hd nx x ps middle by (simp add: List_Erase_def Let_def)
    moreover have "xs = butlast xs @ [?x]" using middle(1) by simp
    then have "?x \<notin> set (butlast xs)" using dis(1) by (metis distinct_append disjoint_iff list.set_intros(1))
    then have "successively (lk ?ns) xs"
      using x middle(1) by (intro links_keep [OF lks(1)]) (auto dest: in_tl)
    moreover have "successively (lk ?ns) ys"
      using x dis(2) y by (intro links_keep [OF lks(2)]) (auto dest: in_set_butlastD split: if_splits)
    ultimately have "list_rep this ?ns ?l (remove1 p ps)"
      using rep dis middle hd x unfolding rem by (auto simp: list_rep_def ps successively_append_iff lk_def y)
    moreover have "?x \<in> set ps" "p \<in> set ps" "y \<in> set ps" using x y ps by auto
    then have "frame (set ps) ns ?ns" unfolding frame_def by (metis put_other)
    ultimately show ?thesis using \<open>List_Erase this p (ns, l) = Some ((?ns, ?l), Some y)\<close> by (intro exI conjI) simp_all
  qed
qed

text \<open>The order that moving a node to the front gives.\<close>

lemma move_to_front_run:
  assumes "list_rep this ns l ps" "p \<in> set ps"
  shows "\<exists>ns' l'. (do { (s, _) \<leftarrow> List_Erase this p (ns, l); List_PushFront this p s }) = Some ((ns', l'), Some p) \<and>
    list_rep this ns' l' (p # remove1 p ps) \<and> frame (set ps) ns ns'"
proof -
  obtain ns1 l1 q where e: "List_Erase this p (ns, l) = Some ((ns1, l1), q)" "list_rep this ns1 l1 (remove1 p ps)"
      "nd_list (ns1 p) = None" "frame (set ps) ns ns1"
    using erase_run [OF assms] by blast
  obtain ns2 l2 where f: "List_PushFront this p (ns1, l1) = Some ((ns2, l2), Some p)" "list_rep this ns2 l2 (p # remove1 p ps)"
      "frame (insert p (set (remove1 p ps))) ns1 ns2"
    using push_front_run [OF e(2,3)] by blast
  have "insert p (set (remove1 p ps)) \<subseteq> set ps" using assms(2) set_remove1_subset [of p ps] by auto
  then have "frame (set ps) ns ns2" using e(4) f(3) by (auto simp: frame_def)
  then show ?thesis using e(1) f(1,2) by auto
qed

text \<open>The nodes of a list, found by as many steps as it has nodes.\<close>

fun walk_nodes :: "nat \<Rightarrow> store \<Rightarrow> nat option \<Rightarrow> nat list" where
  "walk_nodes 0 ns it = []"
| "walk_nodes (Suc n) ns it = (case it of None \<Rightarrow> [] | Some p \<Rightarrow> p # walk_nodes n ns (nd_next (ns p)))"

lemma walk_links: "successively (lk ns) (p # ps) \<Longrightarrow> walk_nodes (Suc (length ps)) ns (Some p) = p # ps"
proof (induction ps arbitrary: p)
  case (Cons q ps)
  then show ?case using Cons.IH [of q] by (simp add: lk_def)
qed simp

lemma walk_rep: "list_rep this ns l ps \<Longrightarrow> walk_nodes (ls_size l) ns (ls_head l) = ps"
  using walk_links [of ns "hd ps" "tl ps"] by (cases ps) (auto simp: list_rep_def)

section \<open>A list that cannot be walked\<close>

text \<open>
  The pointers that \<^verbatim>\<open>Erase\<close> leaves behind: a node that was first in its list, taken out and put back
  at the end keeps its old \<^verbatim>\<open>next\<close>, so the loop over the list goes round for ever.
\<close>

definition two_nodes :: "(store \<times> List_t) option" where
  "two_nodes = do {
     (s, _) \<leftarrow> List_PushBack 0 1 (\<lambda>_. node_create, List_empty);
     (s, _) \<leftarrow> List_PushBack 0 2 s;
     (s, _) \<leftarrow> List_Erase 0 1 s;
     (s, _) \<leftarrow> List_PushBack 0 1 s;
     Some s }"

lemma two_nodes_run:
  "\<exists>ns l. two_nodes = Some (ns, l) \<and> list_rep 0 ns l [2, 1] \<and> nd_next (ns 1) = Some 2 \<and> nd_next (ns 2) = Some 1"
  by (simp add: two_nodes_def List_PushBack_def List_Insert_def List_Erase_def List_empty_def node_create_def list_rep_def lk_def Let_def)

lemma iterate_cycle:
  "nd_next (ns p) = Some q \<Longrightarrow> nd_next (ns q) = Some p \<Longrightarrow> List_iterate n ns (Some p) = None \<and> List_iterate n ns (Some q) = None"
  by (induction n) auto


end
