(* ===== verification/SimCache.thy ===== *)
theory SimCache
  imports SimList Interfaces
begin

unbundle bit_operations_syntax

text \<open>
  The set-associative cache of the simulator, \<^verbatim>\<open>memory/Cache.cc\<close>: tags and states of the blocks, and
  for each set the list of its blocks in replacement order, which is an in-place list of
  \<open>SimList\<close>. Block \<open>w\<close> of set \<open>s\<close> is element \<open>s * num_ways + w\<close> of the array, and that index is its
  node; set \<open>s\<close> owns list \<open>s\<close>. Addresses and tags are 32-bit words; set and way numbers, which the
  code checks with assertions, are natural numbers. The tracing output is not modelled.
\<close>

section \<open>The code\<close>

datatype ReplacementPolicy = ReplacementInvalid | ReplacementLRU | ReplacementFIFO | ReplacementRandom

datatype WritePolicy = WriteInvalid | WriteBack | WriteThrough

datatype BlockState = BlockInvalid | BlockNonCoherent | BlockModified | BlockOwned | BlockExclusive | BlockShared

record block_t =
  bl_tag :: "32 word"
  bl_transient_tag :: "32 word"
  bl_way_id :: nat
  bl_state :: BlockState

record cache_t =
  ca_num_sets :: nat
  ca_num_ways :: nat
  ca_block_size :: "32 word"
  ca_block_mask :: "32 word"
  ca_log_block_size :: nat
  ca_replacement :: ReplacementPolicy
  ca_write :: WritePolicy
  ca_sets :: "List_t list"
  ca_blocks :: "block_t list"
  ca_nodes :: store

function log_base_loop :: "32 word \<Rightarrow> nat \<Rightarrow> nat" where
  "log_base_loop value result =
     (if value \<noteq> 0 \<and> value AND 1 = 0 then log_base_loop (drop_bit 1 value) (result + 1) else result)"
  by pat_completeness auto
termination
  by (relation "measure (\<lambda>(value, result). unat value)")
    (auto simp: drop_bit_eq_div unat_div unat_gt_0 intro!: div_less_dividend)

declare log_base_loop.simps [simp del]

definition LogBase2 :: "32 word \<Rightarrow> nat option" where
  "LogBase2 value = do {
     c_assert (value AND (value - 1) = 0);
     c_assert (value \<noteq> 0);
     Some (log_base_loop value 0) }"

definition getSet :: "nat \<Rightarrow> cache_t \<Rightarrow> List_t option" where
  "getSet set_id c = do { c_assert (set_id < ca_num_sets c); rd (ca_sets c) set_id }"

definition getBlock :: "nat \<Rightarrow> nat \<Rightarrow> cache_t \<Rightarrow> nat option" where
  "getBlock set_id way_id c = do {
     c_assert (set_id < ca_num_sets c);
     c_assert (way_id < ca_num_ways c);
     Some (set_id * ca_num_ways c + way_id) }"

definition put_set :: "nat \<Rightarrow> store \<times> List_t \<Rightarrow> cache_t \<Rightarrow> cache_t" where
  "put_set set_id s c = c\<lparr>ca_nodes := fst s, ca_sets := (ca_sets c)[set_id := snd s]\<rparr>"

definition init_way :: "nat \<Rightarrow> nat \<Rightarrow> cache_t \<Rightarrow> cache_t option" where
  "init_way set_id way_id c = do {
     lru \<leftarrow> getSet set_id c;
     b \<leftarrow> getBlock set_id way_id c;
     block \<leftarrow> rd (ca_blocks c) b;
     blocks \<leftarrow> wr (ca_blocks c) b (block\<lparr>bl_way_id := way_id\<rparr>);
     (s, _) \<leftarrow> List_PushBack set_id b (ca_nodes c, lru);
     Some (put_set set_id s (c\<lparr>ca_blocks := blocks\<rparr>)) }"

definition cache_create :: "nat \<Rightarrow> nat \<Rightarrow> 32 word \<Rightarrow> ReplacementPolicy \<Rightarrow> WritePolicy \<Rightarrow> cache_t option" where
  "cache_create num_sets num_ways block_size replacement_policy write_policy = do {
     c_assert ((of_nat num_sets :: 32 word) AND (of_nat num_sets - 1) = 0);
     c_assert ((of_nat num_ways :: 32 word) AND (of_nat num_ways - 1) = 0);
     c_assert (block_size AND (block_size - 1) = 0);
     log_block_size \<leftarrow> LogBase2 block_size;
     let c = \<lparr>ca_num_sets = num_sets, ca_num_ways = num_ways, ca_block_size = block_size, ca_block_mask = block_size - 1,
       ca_log_block_size = log_block_size, ca_replacement = replacement_policy, ca_write = write_policy,
       ca_sets = replicate num_sets List_empty,
       ca_blocks = replicate (num_sets * num_ways) \<lparr>bl_tag = 0, bl_transient_tag = 0, bl_way_id = 0, bl_state = BlockInvalid\<rparr>,
       ca_nodes = (\<lambda>_. node_create)\<rparr>;
     for_loop 0 num_sets (\<lambda>set_id. for_loop 0 num_ways (init_way set_id)) c }"

definition decode_set :: "32 word \<Rightarrow> cache_t \<Rightarrow> nat option" where
  "decode_set address c = do {
     c_assert (ca_num_sets c \<noteq> 0);
     Some (unat (drop_bit (ca_log_block_size c) address) mod ca_num_sets c) }"

definition DecodeAddress :: "32 word \<Rightarrow> cache_t \<Rightarrow> (nat \<times> 32 word \<times> 32 word) option" where
  "DecodeAddress address c = do {
     set_id \<leftarrow> decode_set address c;
     Some (set_id, address AND NOT (ca_block_mask c), address AND ca_block_mask c) }"

function find_block_loop :: "cache_t \<Rightarrow> nat \<Rightarrow> 32 word \<Rightarrow> nat \<Rightarrow> (bool \<times> nat \<times> nat \<times> BlockState) option" where
  "find_block_loop c set_id tag way_id =
     (if way_id < ca_num_ways c then do {
        b \<leftarrow> getBlock set_id way_id c;
        block \<leftarrow> rd (ca_blocks c) b;
        if bl_tag block = tag \<and> bl_state block \<noteq> BlockInvalid then Some (True, set_id, way_id, bl_state block)
        else find_block_loop c set_id tag (way_id + 1) }
      else Some (False, 0, 0, BlockInvalid))"
  by pat_completeness auto
termination
  by (relation "measure (\<lambda>(c, set_id, tag, way_id). ca_num_ways c - way_id)") auto

declare find_block_loop.simps [simp del]

definition FindBlock :: "32 word \<Rightarrow> cache_t \<Rightarrow> (bool \<times> nat \<times> nat \<times> BlockState) option" where
  "FindBlock address c = do {
     set_id \<leftarrow> decode_set address c;
     find_block_loop c set_id (address AND NOT (ca_block_mask c)) 0 }"

definition move_to_head :: "nat \<Rightarrow> nat \<Rightarrow> List_t \<Rightarrow> cache_t \<Rightarrow> cache_t option" where
  "move_to_head set_id b lru c = do {
     (s, _) \<leftarrow> List_Erase set_id b (ca_nodes c, lru);
     (s, _) \<leftarrow> List_PushFront set_id b s;
     Some (put_set set_id s c) }"

definition setBlock :: "nat \<Rightarrow> nat \<Rightarrow> 32 word \<Rightarrow> BlockState \<Rightarrow> cache_t \<Rightarrow> cache_t option" where
  "setBlock set_id way_id tag state c = do {
     lru \<leftarrow> getSet set_id c;
     b \<leftarrow> getBlock set_id way_id c;
     block \<leftarrow> rd (ca_blocks c) b;
     c \<leftarrow> if ca_replacement c = ReplacementFIFO \<and> bl_tag block \<noteq> tag then move_to_head set_id b lru c else Some c;
     blocks \<leftarrow> wr (ca_blocks c) b (block\<lparr>bl_tag := tag, bl_state := state\<rparr>);
     Some (c\<lparr>ca_blocks := blocks\<rparr>) }"

definition getBlockInfo :: "nat \<Rightarrow> nat \<Rightarrow> cache_t \<Rightarrow> (32 word \<times> BlockState) option" where
  "getBlockInfo set_id way_id c = do {
     b \<leftarrow> getBlock set_id way_id c;
     block \<leftarrow> rd (ca_blocks c) b;
     Some (bl_tag block, bl_state block) }"

definition AccessBlock :: "nat \<Rightarrow> nat \<Rightarrow> cache_t \<Rightarrow> cache_t option" where
  "AccessBlock set_id way_id c = do {
     lru \<leftarrow> getSet set_id c;
     b \<leftarrow> getBlock set_id way_id c;
     block \<leftarrow> rd (ca_blocks c) b;
     if ca_replacement c = ReplacementLRU \<or> (ca_replacement c = ReplacementFIFO \<and> bl_state block = BlockInvalid)
     then move_to_head set_id b lru c else Some c }"

text \<open>\<open>r\<close> is the number that \<^verbatim>\<open>random()\<close> returns.\<close>

definition ReplaceBlock :: "nat \<Rightarrow> nat \<Rightarrow> cache_t \<Rightarrow> (cache_t \<times> nat) option" where
  "ReplaceBlock r set_id c = do {
     lru \<leftarrow> getSet set_id c;
     if ca_replacement c = ReplacementLRU \<or> ca_replacement c = ReplacementFIFO then do {
       b \<leftarrow> List_Back lru;
       c \<leftarrow> move_to_head set_id b lru c;
       block \<leftarrow> rd (ca_blocks c) b;
       Some (c, bl_way_id block) }
     else do {
       c_assert (ca_replacement c = ReplacementRandom);
       c_assert (ca_num_ways c \<noteq> 0);
       Some (c, r mod ca_num_ways c) } }"

definition setTransientTag :: "nat \<Rightarrow> nat \<Rightarrow> 32 word \<Rightarrow> cache_t \<Rightarrow> cache_t option" where
  "setTransientTag set_id way_id tag c = do {
     b \<leftarrow> getBlock set_id way_id c;
     block \<leftarrow> rd (ca_blocks c) b;
     blocks \<leftarrow> wr (ca_blocks c) b (block\<lparr>bl_transient_tag := tag\<rparr>);
     Some (c\<lparr>ca_blocks := blocks\<rparr>) }"

definition setStateTag :: "nat \<Rightarrow> nat \<Rightarrow> BlockState \<Rightarrow> 32 word \<Rightarrow> cache_t \<Rightarrow> cache_t option" where
  "setStateTag set_id way_id state tag c = do {
     b \<leftarrow> getBlock set_id way_id c;
     block \<leftarrow> rd (ca_blocks c) b;
     blocks \<leftarrow> wr (ca_blocks c) b (block\<lparr>bl_state := state, bl_tag := tag\<rparr>);
     Some (c\<lparr>ca_blocks := blocks\<rparr>) }"

section \<open>Invariant\<close>

text \<open>
  \<open>ord s\<close> are the ways of set \<open>s\<close> in its list, from the one moved to the head last to the next
  victim. In \<open>cache_part\<close> a list may lack some of the blocks of its set, which are then in no list;
  in \<open>cache_rep\<close> it holds all of them.
\<close>

definition set_nodes :: "nat \<Rightarrow> nat \<Rightarrow> nat list \<Rightarrow> nat list" where
  "set_nodes n s ws = map (\<lambda>w. s * n + w) ws"

definition cache_part :: "cache_t \<Rightarrow> (nat \<Rightarrow> nat list) \<Rightarrow> bool" where
  "cache_part c ord \<longleftrightarrow> length (ca_sets c) = ca_num_sets c \<and> length (ca_blocks c) = ca_num_sets c * ca_num_ways c \<and>
     (\<forall>s < ca_num_sets c. list_rep s (ca_nodes c) (ca_sets c ! s) (set_nodes (ca_num_ways c) s (ord s)) \<and>
        set (ord s) \<subseteq> {..<ca_num_ways c} \<and>
        (\<forall>w < ca_num_ways c. if w \<in> set (ord s) then bl_way_id (ca_blocks c ! (s * ca_num_ways c + w)) = w
           else nd_list (ca_nodes c (s * ca_num_ways c + w)) = None))"

definition cache_rep :: "cache_t \<Rightarrow> (nat \<Rightarrow> nat list) \<Rightarrow> bool" where
  "cache_rep c ord \<longleftrightarrow> cache_part c ord \<and> (\<forall>s < ca_num_sets c. set (ord s) = {..<ca_num_ways c})"

definition way_order :: "nat \<Rightarrow> cache_t \<Rightarrow> nat list" where
  "way_order s c = map (\<lambda>b. b - s * ca_num_ways c)
     (walk_nodes (ls_size (ca_sets c ! s)) (ca_nodes c) (ls_head (ca_sets c ! s)))"

definition cache_inv :: "cache_t \<Rightarrow> bool" where
  "cache_inv c \<longleftrightarrow> cache_rep c (\<lambda>s. way_order s c)"

lemma set_nodes_simps [simp]:
  "set_nodes n s [] = []" "set_nodes n s (w # ws) = (s * n + w) # set_nodes n s ws" "set_nodes n s ws = [] \<longleftrightarrow> ws = []"
  "set_nodes n s (ws @ vs) = set_nodes n s ws @ set_nodes n s vs"
  "s * n + w \<in> set (set_nodes n s ws) \<longleftrightarrow> w \<in> set ws" "distinct (set_nodes n s ws) = distinct ws"
  by (auto simp: set_nodes_def distinct_map inj_on_def)

lemma set_nodes_remove1: "set_nodes n s (remove1 w ws) = remove1 (s * n + w) (set_nodes n s ws)"
  by (induction ws) auto

lemma set_nodes_last: "ws \<noteq> [] \<Longrightarrow> last (set_nodes n s ws) = s * n + last ws"
  by (simp add: set_nodes_def last_map)

lemma block_inj:
  assumes "s * n + w = s' * n + w'" "w < n" "w' < (n :: nat)"
  shows "s = s' \<and> w = w'"
proof -
  have "(s * n + w) div n = s" "(s' * n + w') div n = s'" using assms(2,3) by simp_all
  then have "s = s'" using assms(1) by simp
  then show ?thesis using assms(1) by simp
qed

lemma in_set_nodes: "b \<in> set (set_nodes n s ws) \<longleftrightarrow> (\<exists>w \<in> set ws. b = s * n + w)"
  by (auto simp: set_nodes_def)

lemma set_nodes_disjoint:
  assumes "s \<noteq> s'" "set ws \<subseteq> {..<n}" "set vs \<subseteq> {..<n}"
  shows "set (set_nodes n s ws) \<inter> set (set_nodes n s' vs) = {}"
  using assms block_inj [of s n _ s'] by (fastforce simp: in_set_nodes)

lemma cache_partD:
  assumes "cache_part c ord"
  shows "length (ca_sets c) = ca_num_sets c" "length (ca_blocks c) = ca_num_sets c * ca_num_ways c"
    "s < ca_num_sets c \<Longrightarrow> list_rep s (ca_nodes c) (ca_sets c ! s) (set_nodes (ca_num_ways c) s (ord s))"
    "s < ca_num_sets c \<Longrightarrow> set (ord s) \<subseteq> {..<ca_num_ways c}"
    "s < ca_num_sets c \<Longrightarrow> w < ca_num_ways c \<Longrightarrow> w \<in> set (ord s) \<Longrightarrow> bl_way_id (ca_blocks c ! (s * ca_num_ways c + w)) = w"
    "s < ca_num_sets c \<Longrightarrow> w < ca_num_ways c \<Longrightarrow> w \<notin> set (ord s) \<Longrightarrow> nd_list (ca_nodes c (s * ca_num_ways c + w)) = None"
  using assms unfolding cache_part_def by metis+

lemma way_order_part:
  assumes "cache_part c ord" "s < ca_num_sets c"
  shows "way_order s c = ord s"
  using walk_rep [OF cache_partD(3) [OF assms]] by (simp add: way_order_def set_nodes_def comp_def)

lemma cache_inv_iff: "cache_inv c \<longleftrightarrow> (\<exists>ord. cache_rep c ord)"
proof
  assume "\<exists>ord. cache_rep c ord"
  then obtain ord where ord: "cache_rep c ord" by blast
  then have "way_order s c = ord s" if "s < ca_num_sets c" for s using way_order_part that by (simp add: cache_rep_def)
  then show "cache_inv c" using ord by (simp add: cache_inv_def cache_rep_def cache_part_def)
qed (auto simp: cache_inv_def)

lemma block_bound: "s < N \<Longrightarrow> w < n \<Longrightarrow> s * n + w < N * (n :: nat)"
  by simp

text \<open>Changing the list of one set, and the blocks without their ways.\<close>

lemma cache_part_set:
  assumes part: "cache_part c ord" and s: "s < ca_num_sets c"
    and rep: "list_rep s ns l (set_nodes (ca_num_ways c) s ws)" and ws: "set ws \<subseteq> {..<ca_num_ways c}" "set (ord s) \<subseteq> set ws"
    and frame: "frame (set (set_nodes (ca_num_ways c) s ws)) (ca_nodes c) ns"
    and way: "\<And>w. w \<in> set ws \<Longrightarrow> bl_way_id (ca_blocks c ! (s * ca_num_ways c + w)) = w"
  shows "cache_part (put_set s (ns, l) c) (ord(s := ws))"
proof -
  let ?n = "ca_num_ways c"
  note pd = cache_partD [OF part]
  have other: "list_rep s' ns (ca_sets c ! s') (set_nodes ?n s' (ord s'))" if "s' < ca_num_sets c" "s' \<noteq> s" for s'
    using list_rep_frame [OF pd(3) [OF that(1)] frame] set_nodes_disjoint [OF that(2) pd(4) [OF that(1)] ws(1)] by blast
  have none: "nd_list (ns (s' * ?n + w)) = None" if "s' < ca_num_sets c" "w < ?n" "w \<notin> set ((ord(s := ws)) s')" for s' w
  proof -
    have "s' * ?n + w \<notin> set (set_nodes ?n s ws)"
      using block_inj [of s' ?n w s] that ws(1) by (auto simp: in_set_nodes split: if_splits)
    then have "ns (s' * ?n + w) = ca_nodes c (s' * ?n + w)" using frame by (simp add: frame_def)
    moreover have "w \<notin> set (ord s')" using that(3) ws(2) by (auto split: if_splits)
    ultimately show ?thesis using pd(6) [OF that(1,2)] by simp
  qed
  show ?thesis unfolding cache_part_def
  proof (intro conjI allI impI)
    fix s' assume "s' < ca_num_sets (put_set s (ns, l) c)"
    then have s': "s' < ca_num_sets c" by (simp add: put_set_def)
    show "list_rep s' (ca_nodes (put_set s (ns, l) c)) (ca_sets (put_set s (ns, l) c) ! s')
        (set_nodes (ca_num_ways (put_set s (ns, l) c)) s' ((ord(s := ws)) s'))"
      using other [OF s'] rep s pd(1) by (cases "s' = s") (simp_all add: put_set_def)
    show "set ((ord(s := ws)) s') \<subseteq> {..<ca_num_ways (put_set s (ns, l) c)}"
      using pd(4) [OF s'] ws(1) by (simp add: put_set_def)
    fix w assume "w < ca_num_ways (put_set s (ns, l) c)"
    then have w: "w < ?n" by (simp add: put_set_def)
    show "if w \<in> set ((ord(s := ws)) s') then bl_way_id (ca_blocks (put_set s (ns, l) c) ! (s' * ca_num_ways (put_set s (ns, l) c) + w)) = w
        else nd_list (ca_nodes (put_set s (ns, l) c) (s' * ca_num_ways (put_set s (ns, l) c) + w)) = None"
      using none [OF s' w] way pd(5) [OF s' w] by (auto simp: put_set_def)
  qed (use pd(1,2) in \<open>simp_all add: put_set_def\<close>)
qed

lemma cache_part_blocks:
  assumes "cache_part c ord" "length bs = length (ca_blocks c)"
    "\<And>s w. s < ca_num_sets c \<Longrightarrow> w < ca_num_ways c \<Longrightarrow> w \<in> set (ord s) \<Longrightarrow> bl_way_id (bs ! (s * ca_num_ways c + w)) = w"
  shows "cache_part (c\<lparr>ca_blocks := bs\<rparr>) ord"
  using cache_partD [OF assms(1)] assms(2,3) unfolding cache_part_def by simp

lemma cache_rep_blocks:
  assumes "cache_rep c ord" "b < length (ca_blocks c)" "bl_way_id bl = bl_way_id (ca_blocks c ! b)"
  shows "cache_rep (c\<lparr>ca_blocks := (ca_blocks c)[b := bl]\<rparr>) ord"
proof -
  have part: "cache_part c ord" using assms(1) by (simp add: cache_rep_def)
  have "bl_way_id ((ca_blocks c)[b := bl] ! (s * ca_num_ways c + w)) = w"
    if "s < ca_num_sets c" "w < ca_num_ways c" "w \<in> set (ord s)" for s w
    using cache_partD(5) [OF part that] assms(2,3) by (auto simp: nth_list_update)
  then have "cache_part (c\<lparr>ca_blocks := (ca_blocks c)[b := bl]\<rparr>) ord" using part by (intro cache_part_blocks) simp_all
  then show ?thesis using assms(1) by (simp add: cache_rep_def)
qed

section \<open>The operations keep the invariant\<close>

lemma getSet_ok: "cache_part c ord \<Longrightarrow> s < ca_num_sets c \<Longrightarrow> getSet s c = Some (ca_sets c ! s)"
  using cache_partD(1) by (simp add: getSet_def)

lemma getBlock_ok: "s < ca_num_sets c \<Longrightarrow> w < ca_num_ways c \<Longrightarrow> getBlock s w c = Some (s * ca_num_ways c + w)"
  by (simp add: getBlock_def)

lemma block_ok:
  "cache_part c ord \<Longrightarrow> s < ca_num_sets c \<Longrightarrow> w < ca_num_ways c \<Longrightarrow> s * ca_num_ways c + w < length (ca_blocks c)"
  using cache_partD(2) block_bound by metis

lemma move_to_head_run:
  assumes "cache_rep c ord" "s < ca_num_sets c" "w < ca_num_ways c"
  shows "\<exists>ns l. move_to_head s (s * ca_num_ways c + w) (ca_sets c ! s) c = Some (put_set s (ns, l) c) \<and>
    cache_rep (put_set s (ns, l) c) (ord(s := w # remove1 w (ord s)))"
proof -
  let ?n = "ca_num_ways c" and ?b = "s * ca_num_ways c + w"
  have part: "cache_part c ord" and full: "\<And>s. s < ca_num_sets c \<Longrightarrow> set (ord s) = {..<?n}" using assms(1) by (simp_all add: cache_rep_def)
  note pd = cache_partD [OF part]
  have dis: "distinct (ord s)" using list_repD(1) [OF pd(3) [OF assms(2)]] by simp
  have w: "w \<in> set (ord s)" using full [OF assms(2)] assms(3) by simp
  obtain ns l where run: "(do { (t, _) \<leftarrow> List_Erase s ?b (ca_nodes c, ca_sets c ! s); List_PushFront s ?b t }) = Some ((ns, l), Some ?b)"
      "list_rep s ns l (?b # remove1 ?b (set_nodes ?n s (ord s)))" "frame (set (set_nodes ?n s (ord s))) (ca_nodes c) ns"
    using move_to_front_run [OF pd(3) [OF assms(2)], of ?b] w by auto
  let ?ws = "w # remove1 w (ord s)"
  have set_ws: "set ?ws = set (ord s)" using dis w by auto
  have "set (set_nodes ?n s ?ws) = set (set_nodes ?n s (ord s))" unfolding set_nodes_def set_map set_ws by (rule refl)
  then have "cache_part (put_set s (ns, l) c) (ord(s := ?ws))"
    using run(2,3) full [OF assms(2)] set_ws pd(5) [OF assms(2)]
    by (intro cache_part_set [OF part assms(2)]) (simp_all add: set_nodes_remove1)
  then have "cache_rep (put_set s (ns, l) c) (ord(s := ?ws))"
    using full set_ws assms(2) by (auto simp: cache_rep_def put_set_def)
  moreover have "move_to_head s ?b (ca_sets c ! s) c = Some (put_set s (ns, l) c)"
    using run(1) by (auto simp: move_to_head_def split: bind_splits)
  ultimately show ?thesis by blast
qed

lemma put_set_fields [simp]:
  "ca_num_sets (put_set s x c) = ca_num_sets c" "ca_num_ways (put_set s x c) = ca_num_ways c" "ca_blocks (put_set s x c) = ca_blocks c"
  "ca_replacement (put_set s x c) = ca_replacement c" "ca_block_mask (put_set s x c) = ca_block_mask c"
  "ca_log_block_size (put_set s x c) = ca_log_block_size c"
  by (simp_all add: put_set_def)

text \<open>The geometry and the policies never change.\<close>

definition same_cache :: "cache_t \<Rightarrow> cache_t \<Rightarrow> bool" where
  "same_cache c c' \<longleftrightarrow> ca_num_sets c' = ca_num_sets c \<and> ca_num_ways c' = ca_num_ways c \<and> ca_replacement c' = ca_replacement c \<and>
     ca_block_mask c' = ca_block_mask c \<and> ca_log_block_size c' = ca_log_block_size c"

lemma AccessBlock_run:
  assumes "cache_rep c ord" "s < ca_num_sets c" "w < ca_num_ways c"
  shows "\<exists>c'. AccessBlock s w c = Some c' \<and> same_cache c c' \<and> ca_blocks c' = ca_blocks c \<and>
    cache_rep c' (if ca_replacement c = ReplacementLRU \<or>
        ca_replacement c = ReplacementFIFO \<and> bl_state (ca_blocks c ! (s * ca_num_ways c + w)) = BlockInvalid
      then ord(s := w # remove1 w (ord s)) else ord)"
proof -
  have part: "cache_part c ord" using assms(1) by (simp add: cache_rep_def)
  obtain ns l where "move_to_head s (s * ca_num_ways c + w) (ca_sets c ! s) c = Some (put_set s (ns, l) c)"
      "cache_rep (put_set s (ns, l) c) (ord(s := w # remove1 w (ord s)))"
    using move_to_head_run [OF assms] by blast
  then show ?thesis
    using getSet_ok [OF part assms(2)] getBlock_ok [OF assms(2,3)] block_ok [OF part assms(2,3)] assms(1)
    by (auto simp: AccessBlock_def same_cache_def)
qed

lemma setBlock_run:
  assumes "cache_rep c ord" "s < ca_num_sets c" "w < ca_num_ways c"
  shows "\<exists>c'. setBlock s w tag st c = Some c' \<and> same_cache c c' \<and>
    ca_blocks c' = (ca_blocks c)[s * ca_num_ways c + w := (ca_blocks c ! (s * ca_num_ways c + w))\<lparr>bl_tag := tag, bl_state := st\<rparr>] \<and>
    cache_rep c' (if ca_replacement c = ReplacementFIFO \<and> bl_tag (ca_blocks c ! (s * ca_num_ways c + w)) \<noteq> tag
      then ord(s := w # remove1 w (ord s)) else ord)"
proof -
  let ?b = "s * ca_num_ways c + w"
  have part: "cache_part c ord" using assms(1) by (simp add: cache_rep_def)
  note ok = getSet_ok [OF part assms(2)] getBlock_ok [OF assms(2,3)] block_ok [OF part assms(2,3)]
  obtain ns l where mv: "move_to_head s ?b (ca_sets c ! s) c = Some (put_set s (ns, l) c)"
      "cache_rep (put_set s (ns, l) c) (ord(s := w # remove1 w (ord s)))"
    using move_to_head_run [OF assms] by blast
  show ?thesis
  proof (cases "ca_replacement c = ReplacementFIFO \<and> bl_tag (ca_blocks c ! ?b) \<noteq> tag")
    case True
    then show ?thesis
      using mv ok cache_rep_blocks [OF mv(2), of ?b "(ca_blocks c ! ?b)\<lparr>bl_tag := tag, bl_state := st\<rparr>"]
      by (auto simp: setBlock_def same_cache_def)
  next
    case False
    then show ?thesis
      using ok cache_rep_blocks [OF assms(1), of ?b "(ca_blocks c ! ?b)\<lparr>bl_tag := tag, bl_state := st\<rparr>"]
      by (auto simp: setBlock_def same_cache_def)
  qed
qed

lemma ReplaceBlock_run:
  assumes "cache_rep c ord" "s < ca_num_sets c" "0 < ca_num_ways c" "ca_replacement c = ReplacementLRU \<or> ca_replacement c = ReplacementFIFO"
  shows "\<exists>c'. ReplaceBlock r s c = Some (c', last (ord s)) \<and> same_cache c c' \<and> ca_blocks c' = ca_blocks c \<and>
    cache_rep c' (ord(s := last (ord s) # remove1 (last (ord s)) (ord s)))"
proof -
  have part: "cache_part c ord" and full: "set (ord s) = {..<ca_num_ways c}" using assms(1,2) by (simp_all add: cache_rep_def)
  have "0 \<in> set (ord s)" unfolding full using assms(3) by blast
  then have ne: "ord s \<noteq> []" by force
  let ?w = "last (ord s)"
  have w: "?w < ca_num_ways c" "?w \<in> set (ord s)" using last_in_set [OF ne] unfolding full by blast+
  have tail: "List_Back (ca_sets c ! s) = Some (s * ca_num_ways c + ?w)"
    using list_repD(4) [OF cache_partD(3) [OF part assms(2)]] ne by (simp add: List_Back_def set_nodes_last)
  obtain ns l where "move_to_head s (s * ca_num_ways c + ?w) (ca_sets c ! s) c = Some (put_set s (ns, l) c)"
      "cache_rep (put_set s (ns, l) c) (ord(s := ?w # remove1 ?w (ord s)))"
    using move_to_head_run [OF assms(1,2) w(1)] by blast
  then show ?thesis
    using getSet_ok [OF part assms(2)] block_ok [OF part assms(2) w(1)] tail assms(4) cache_partD(5) [OF part assms(2) w]
    by (simp add: ReplaceBlock_def same_cache_def)
qed

section \<open>The constructor\<close>

definition same_init :: "cache_t \<Rightarrow> cache_t \<Rightarrow> bool" where
  "same_init c c' \<longleftrightarrow> same_cache c c' \<and> map bl_state (ca_blocks c') = map bl_state (ca_blocks c)"

lemmas same_defs = same_init_def same_cache_def

lemma init_way_run:
  assumes "cache_part c ord" "s < ca_num_sets c" "w < ca_num_ways c" "w \<notin> set (ord s)"
  shows "\<exists>c'. init_way s w c = Some c' \<and> same_init c c' \<and> cache_part c' (ord(s := ord s @ [w]))"
proof -
  let ?n = "ca_num_ways c" and ?b = "s * ca_num_ways c + w"
  note pd = cache_partD [OF assms(1)]
  let ?bs = "(ca_blocks c)[?b := (ca_blocks c ! ?b)\<lparr>bl_way_id := w\<rparr>]"
  let ?c = "c\<lparr>ca_blocks := ?bs\<rparr>"
  have b: "?b < length (ca_blocks c)" using block_ok [OF assms(1-3)] .
  have way: "bl_way_id (?bs ! (s' * ?n + w')) = w'"
    if "s' < ca_num_sets c" "w' < ?n" "w' \<in> set (ord s') \<or> s' * ?n + w' = ?b" for s' w'
  proof (cases "s' * ?n + w' = ?b")
    case True
    then have "w' = w" using block_inj [OF True that(2) assms(3)] by blast
    then show ?thesis unfolding True nth_list_update_eq [OF b] by simp
  next
    case False
    then show ?thesis using that pd(5) [OF that(1,2)] by simp
  qed
  have part: "cache_part ?c ord" using way by (intro cache_part_blocks [OF assms(1)]) simp_all
  obtain ns l where push: "List_PushBack s ?b (ca_nodes c, ca_sets c ! s) = Some ((ns, l), Some ?b)"
      "list_rep s ns l (set_nodes ?n s (ord s) @ [?b])" "frame (insert ?b (set (set_nodes ?n s (ord s)))) (ca_nodes c) ns"
    using push_back_run [OF pd(3) [OF assms(2)] pd(6) [OF assms(2-4)]] by blast
  have "cache_part (put_set s (ns, l) ?c) (ord(s := ord s @ [w]))"
  proof (rule cache_part_set [OF part])
    show "set (ord s @ [w]) \<subseteq> {..<ca_num_ways ?c}" using pd(4) [OF assms(2)] assms(3) by simp
    show "bl_way_id (ca_blocks ?c ! (s * ca_num_ways ?c + v)) = v" if "v \<in> set (ord s @ [w])" for v
      using way [OF assms(2), of v] that pd(4) [OF assms(2)] assms(3) by auto
  qed (use push assms(2) in auto)
  moreover have "init_way s w c = Some (put_set s (ns, l) ?c)"
    using getSet_ok [OF assms(1,2)] getBlock_ok [OF assms(2,3)] b push(1) by (simp add: init_way_def)
  moreover have "map bl_state ?bs = map bl_state (ca_blocks c)"
    using b by (simp add: map_update) (metis length_map list_update_id nth_map)
  ultimately show ?thesis by (auto simp: same_defs)
qed

lemma same_init_trans: "same_init c c1 \<Longrightarrow> same_init c1 c2 \<Longrightarrow> same_init c c2"
  by (simp add: same_defs)

lemma init_set_run:
  assumes "cache_part c ord" "s < ca_num_sets c" "ord s = []"
  shows "\<exists>c'. for_loop 0 (ca_num_ways c) (init_way s) c = Some c' \<and> same_init c c' \<and> cache_part c' (ord(s := [0..<ca_num_ways c]))"
proof (rule for_loop_rule [where I = "\<lambda>w c'. same_init c c' \<and> cache_part c' (ord(s := [0..<w]))"])
  show "same_init c c \<and> cache_part c (ord(s := [0..<0]))"
    using assms(1,3) fun_upd_idem [of ord s "[]"] by (simp add: same_defs)
next
  fix w c1 assume w: "w < ca_num_ways c" and c1: "same_init c c1 \<and> cache_part c1 (ord(s := [0..<w]))"
  then obtain c2 where "init_way s w c1 = Some c2" "same_init c1 c2" "cache_part c2 ((ord(s := [0..<w]))(s := [0..<w] @ [w]))"
    using init_way_run [of c1 "ord(s := [0..<w])" s w] assms(2) by (auto simp: same_defs)
  then show "\<exists>c2. init_way s w c1 = Some c2 \<and> same_init c c2 \<and> cache_part c2 (ord(s := [0..<Suc w]))"
    using c1 same_init_trans by auto
qed simp

definition cache_blank :: "nat \<Rightarrow> nat \<Rightarrow> 32 word \<Rightarrow> ReplacementPolicy \<Rightarrow> WritePolicy \<Rightarrow> nat \<Rightarrow> cache_t" where
  "cache_blank N n bs rp wp lg = \<lparr>ca_num_sets = N, ca_num_ways = n, ca_block_size = bs, ca_block_mask = bs - 1,
       ca_log_block_size = lg, ca_replacement = rp, ca_write = wp, ca_sets = replicate N List_empty,
       ca_blocks = replicate (N * n) \<lparr>bl_tag = 0, bl_transient_tag = 0, bl_way_id = 0, bl_state = BlockInvalid\<rparr>,
       ca_nodes = (\<lambda>_. node_create)\<rparr>"

lemma create_loop_run:
  "\<exists>c. for_loop 0 N (\<lambda>set_id. for_loop 0 n (init_way set_id)) (cache_blank N n bs rp wp lg) = Some c \<and>
    same_init (cache_blank N n bs rp wp lg) c \<and> cache_part c (\<lambda>s. if s < N then [0..<n] else [])"
proof -
  let ?c = "cache_blank N n bs rp wp lg"
  let ?I = "\<lambda>i c'. same_init ?c c' \<and> cache_part c' (\<lambda>s. if s < i then [0..<n] else [])"
  show ?thesis
  proof (rule for_loop_rule [where I = ?I])
    show "?I 0 ?c" by (simp add: cache_blank_def same_defs cache_part_def list_rep_def List_empty_def node_create_def)
  next
    fix i c1 assume i: "i < N" and c1: "?I i c1"
    have n: "ca_num_ways c1 = n" "ca_num_sets c1 = N" using c1 by (simp_all add: same_defs cache_blank_def)
    obtain c2 where "for_loop 0 n (init_way i) c1 = Some c2" "same_init c1 c2"
        "cache_part c2 ((\<lambda>s. if s < i then [0..<n] else [])(i := [0..<n]))"
      using init_set_run [of c1 "\<lambda>s. if s < i then [0..<n] else []" i] c1 i unfolding n by auto
    moreover have "(\<lambda>s. if s < i then [0..<n] else [])(i := [0..<n]) = (\<lambda>s. if s < Suc i then [0..<n] else [])"
      by (auto simp: fun_eq_iff)
    ultimately show "\<exists>c2. for_loop 0 n (init_way i) c1 = Some c2 \<and> ?I (Suc i) c2" using c1 same_init_trans by auto
  qed simp
qed

lemma cache_create_run:
  assumes "cache_create N n bs rp wp = Some c"
  shows "cache_inv c" "ca_num_sets c = N" "ca_num_ways c = n" "ca_replacement c = rp" "ca_block_mask c = bs - 1"
    "s < N \<Longrightarrow> way_order s c = [0..<n]" "ca_log_block_size c = log_base_loop bs 0"
    "b < N * n \<Longrightarrow> bl_state (ca_blocks c ! b) = BlockInvalid"
proof -
  obtain lg where lg: "lg = log_base_loop bs 0" and "for_loop 0 N (\<lambda>set_id. for_loop 0 n (init_way set_id)) (cache_blank N n bs rp wp lg) = Some c"
    using assms by (auto simp: cache_create_def LogBase2_def cache_blank_def Let_def c_assert_def split: if_splits bind_splits)
  then have I: "same_init (cache_blank N n bs rp wp lg) c" "cache_part c (\<lambda>s. if s < N then [0..<n] else [])"
    using create_loop_run [of N n bs rp wp lg] by simp_all
  then have f: "ca_num_sets c = N" "ca_num_ways c = n" "ca_replacement c = rp" "ca_block_mask c = bs - 1"
    and lgf: "ca_log_block_size c = lg"
    by (simp_all add: same_defs cache_blank_def)
  then show "ca_num_sets c = N" "ca_num_ways c = n" "ca_replacement c = rp" "ca_block_mask c = bs - 1" by blast+
  from f show "cache_inv c" using I unfolding cache_inv_iff cache_rep_def by (intro exI [of _ "\<lambda>s. if s < N then [0..<n] else []"]) auto
  show "ca_log_block_size c = log_base_loop bs 0" using lgf lg by simp
  show "s < N \<Longrightarrow> way_order s c = [0..<n]" using way_order_part [of c "\<lambda>s. if s < N then [0..<n] else []" s] I f by simp
  have "map bl_state (ca_blocks c) = replicate (N * n) BlockInvalid" using I(1) by (simp add: same_defs cache_blank_def)
  then show "b < N * n \<Longrightarrow> bl_state (ca_blocks c ! b) = BlockInvalid" by (metis length_map length_replicate nth_map nth_replicate)
qed

lemma cache_create_ok:
  assumes "(of_nat N :: 32 word) AND (of_nat N - 1) = 0" "(of_nat n :: 32 word) AND (of_nat n - 1) = 0" "bs AND (bs - 1) = 0" "bs \<noteq> 0"
  shows "\<exists>c. cache_create N n bs rp wp = Some c"
  using create_loop_run [of N n bs rp wp "log_base_loop bs 0"] assms
  by (auto simp: cache_create_def LogBase2_def cache_blank_def Let_def)

section \<open>Replacement\<close>

definition lru_inv :: "nat \<Rightarrow> cache_t \<Rightarrow> bool" where
  "lru_inv s c \<longleftrightarrow> cache_inv c \<and> ca_replacement c = ReplacementLRU \<and> s < ca_num_sets c"

lemma inv_order:
  assumes "cache_inv c" "s < ca_num_sets c"
  shows "distinct (way_order s c)" "set (way_order s c) = {..<ca_num_ways c}"
  using assms list_repD(1) [OF cache_partD(3) [of c "\<lambda>s. way_order s c" s]] by (auto simp: cache_inv_def cache_rep_def)

lemma rep_order: "cache_rep c ord \<Longrightarrow> s < ca_num_sets c \<Longrightarrow> way_order s c = ord s"
  using way_order_part by (simp add: cache_rep_def)

interpretation lru: recency "lru_inv s" "way_order s" "AccessBlock s" "ReplaceBlock r s" for s r
proof
  fix c assume "lru_inv s c"
  then show "distinct (way_order s c)" using inv_order(1) by (simp add: lru_inv_def)
next
  fix c w assume c: "lru_inv s c" and w: "w \<in> set (way_order s c)"
  then have rep: "cache_rep c (\<lambda>s. way_order s c)" and s: "s < ca_num_sets c" "w < ca_num_ways c" and rp: "ca_replacement c = ReplacementLRU"
    using inv_order(2) [of c s] by (auto simp: lru_inv_def cache_inv_def)
  obtain c' where c': "AccessBlock s w c = Some c'" "same_cache c c'"
      "cache_rep c' ((\<lambda>s. way_order s c)(s := w # remove1 w (way_order s c)))"
    using AccessBlock_run [OF rep s] rp by auto
  have "lru_inv s c'" using c c'(2,3) cache_inv_iff by (auto simp: lru_inv_def same_cache_def)
  moreover have "way_order s c' = w # remove1 w (way_order s c)"
    using rep_order [OF c'(3), of s] c'(2) s(1) by (simp add: same_cache_def)
  ultimately show "\<exists>c'. AccessBlock s w c = Some c' \<and> lru_inv s c' \<and> way_order s c' = w # remove1 w (way_order s c)"
    using c'(1) by blast
next
  fix c assume c: "lru_inv s c" and ne: "way_order s c \<noteq> []"
  then have rep: "cache_rep c (\<lambda>s. way_order s c)" and s: "s < ca_num_sets c" and rp: "ca_replacement c = ReplacementLRU"
    by (simp_all add: lru_inv_def cache_inv_def)
  have "hd (way_order s c) < ca_num_ways c" using inv_order(2) [of c s] c ne hd_in_set [of "way_order s c"] by (auto simp: lru_inv_def)
  then have n: "0 < ca_num_ways c" by simp
  obtain c' where c': "ReplaceBlock r s c = Some (c', last (way_order s c))" "same_cache c c'"
      "cache_rep c' ((\<lambda>s. way_order s c)(s := last (way_order s c) # remove1 (last (way_order s c)) (way_order s c)))"
    using ReplaceBlock_run [OF rep s n, of r] rp by auto
  have "lru_inv s c'" using c c'(2,3) cache_inv_iff by (auto simp: lru_inv_def same_cache_def)
  then show "\<exists>c'. ReplaceBlock r s c = Some (c', last (way_order s c)) \<and> lru_inv s c'" using c'(1) by blast
qed

section \<open>Looking blocks up\<close>

definition hit :: "cache_t \<Rightarrow> nat \<Rightarrow> 32 word \<Rightarrow> nat \<Rightarrow> bool" where
  "hit c s tag w \<longleftrightarrow> bl_tag (ca_blocks c ! (s * ca_num_ways c + w)) = tag \<and> bl_state (ca_blocks c ! (s * ca_num_ways c + w)) \<noteq> BlockInvalid"

definition found :: "cache_t \<Rightarrow> nat \<Rightarrow> nat option \<Rightarrow> bool \<times> nat \<times> nat \<times> BlockState" where
  "found c s wo = (case wo of None \<Rightarrow> (False, 0, 0, BlockInvalid)
     | Some w \<Rightarrow> (True, s, w, bl_state (ca_blocks c ! (s * ca_num_ways c + w))))"

lemma find_block_loop_run:
  assumes "cache_part c ord" "s < ca_num_sets c"
  shows "find_block_loop c s tag i = Some (found c s (find (hit c s tag) [i..<ca_num_ways c]))"
proof (induction "ca_num_ways c - i" arbitrary: i)
  case 0
  then show ?case by (subst find_block_loop.simps) (simp add: found_def)
next
  case (Suc k)
  then have i: "i < ca_num_ways c" by simp
  then have u: "[i..<ca_num_ways c] = i # [Suc i..<ca_num_ways c]" by (simp add: upt_conv_Cons)
  have "find_block_loop c s tag (Suc i) = Some (found c s (find (hit c s tag) [Suc i..<ca_num_ways c]))"
    using Suc by simp
  then show ?case unfolding u using i getBlock_ok [OF assms(2) i] block_ok [OF assms(1,2) i]
    by (subst find_block_loop.simps) (simp add: found_def hit_def)
qed

lemma find_others:
  assumes "find P xs = wo" "wo \<noteq> Some w" "\<And>v. v \<in> set xs \<Longrightarrow> v \<noteq> w \<Longrightarrow> Q v = P v" "\<not> Q w"
  shows "find Q xs = wo"
  using assms
proof (induction xs)
  case (Cons x xs)
  then show ?case by (cases "x = w") (auto split: if_splits)
qed simp

section \<open>Properties\<close>

text \<open>
  C15: least-recently-used replacement. In a set whose ways have all been accessed, \<^verbatim>\<open>ReplaceBlock\<close>
  gives the way whose last access is the oldest: every other way was accessed after it. The blocks
  of each set stay exactly the nodes of its list.
\<close>

theorem ReplaceBlock_evicts_least_recent:
  assumes "cache_inv c" "ca_replacement c = ReplacementLRU" "s < ca_num_sets c" "ws \<noteq> []" "set ws = {..<ca_num_ways c}"
  shows "\<exists>c1 c2 w xs ys. do_all (AccessBlock s) ws c = Some c1 \<and> ReplaceBlock r s c1 = Some (c2, w) \<and> cache_inv c2 \<and>
    ws = xs @ w # ys \<and> w \<notin> set ys \<and> {..<ca_num_ways c} - {w} \<subseteq> set ys"
  using lru.victim_is_least_recent [of s c ws r] inv_order(2) [OF assms(1,3)] assms by (simp add: lru_inv_def) blast

theorem ReplaceBlock_evicts_least_recent_witness:
  "\<exists>c c1 c2. cache_create 4 2 64 ReplacementLRU WriteBack = Some c \<and> do_all (AccessBlock 3) [1, 0, 1] c = Some c1 \<and>
     ReplaceBlock 7 3 c1 = Some (c2, 0)"
proof -
  obtain c where c: "cache_create 4 2 64 ReplacementLRU WriteBack = Some c" using cache_create_ok [of 4 2 64] by auto
  note run = cache_create_run [OF c]
  have ways: "set [1, 0, 1] = {..<ca_num_ways c}" using run(3) by auto
  have s: "3 < ca_num_sets c" "[1, 0, 1 :: nat] \<noteq> []" using run(2) by simp_all
  from ReplaceBlock_evicts_least_recent [OF run(1,4) s ways, of 7]
  obtain c1 c2 w xs ys where e: "do_all (AccessBlock 3) [1, 0, 1] c = Some c1" "ReplaceBlock 7 3 c1 = Some (c2, w)"
      "[1, 0, 1] = xs @ w # ys" "w \<notin> set ys" "{..<ca_num_ways c} - {w} \<subseteq> set ys"
    by (elim exE conjE)
  have "0 \<in> {..<ca_num_ways c}" "1 \<in> {..<ca_num_ways c}" using run(3) by simp_all
  then have "w = 0 \<or> 0 \<in> set ys" "w = 1 \<or> 1 \<in> set ys" using e(5) by blast+
  then have "w = 0" using e(3,4) by (auto simp: Cons_eq_append_conv)
  then show ?thesis using c e(1,2) by blast
qed

text \<open>
  bringing a block into the cache. After an address misses, storing its tag in a valid state in
  any way of its set makes it hit in exactly that way; every other line is found as before, unless
  it was the one replaced.
\<close>

theorem setBlock_makes_hit:
  assumes "cache_inv c" "FindBlock a c = Some (False, 0, 0, BlockInvalid)" "decode_set a c = Some s"
    and "w < ca_num_ways c" "st \<noteq> BlockInvalid"
  shows "\<exists>c'. setBlock s w (a AND NOT (ca_block_mask c)) st c = Some c' \<and> cache_inv c' \<and>
    FindBlock a c' = Some (True, s, w, st) \<and>
    (\<forall>b. b AND NOT (ca_block_mask c) \<noteq> a AND NOT (ca_block_mask c) \<and> (\<forall>st. FindBlock b c \<noteq> Some (True, s, w, st)) \<longrightarrow>
      FindBlock b c' = FindBlock b c)"
proof -
  let ?tag = "a AND NOT (ca_block_mask c)" and ?n = "ca_num_ways c"
  have rep: "cache_rep c (\<lambda>s. way_order s c)" and part: "cache_part c (\<lambda>s. way_order s c)"
    using assms(1) by (simp_all add: cache_inv_def cache_rep_def)
  have dec: "s' < ca_num_sets c" if "decode_set b c = Some s'" for b s'
    using that by (auto simp: decode_set_def c_assert_def split: if_splits)
  have s: "s < ca_num_sets c" using dec [OF assms(3)] .
  obtain c' ord where c': "setBlock s w ?tag st c = Some c'" "same_cache c c'"
      "ca_blocks c' = (ca_blocks c)[s * ?n + w := (ca_blocks c ! (s * ?n + w))\<lparr>bl_tag := ?tag, bl_state := st\<rparr>]" "cache_rep c' ord"
    using setBlock_run [OF rep s assms(4)] by blast
  have part': "cache_part c' ord" using c'(4) by (simp add: cache_rep_def)
  have same: "ca_num_ways c' = ?n" "ca_num_sets c' = ca_num_sets c" "ca_block_mask c' = ca_block_mask c" "\<And>b. decode_set b c' = decode_set b c"
    using c'(2) by (simp_all add: same_cache_def decode_set_def)
  have b: "s * ?n + w < length (ca_blocks c)" using block_ok [OF part s assms(4)] .
  have at: "ca_blocks c' ! (s' * ?n + v) = (if s' = s \<and> v = w then (ca_blocks c ! (s * ?n + w))\<lparr>bl_tag := ?tag, bl_state := st\<rparr>
      else ca_blocks c ! (s' * ?n + v))" if "v < ?n" for s' v
    using block_inj [of s' ?n v s w] that assms(4) b unfolding c'(3) by (auto simp: nth_list_update)
  have find: "FindBlock x c = Some (found c s' (find (hit c s' (x AND NOT (ca_block_mask c))) [0..<?n]))"
    "FindBlock x c' = Some (found c' s' (find (hit c' s' (x AND NOT (ca_block_mask c))) [0..<?n]))" if "decode_set x c = Some s'" for x s'
    using find_block_loop_run [OF part dec [OF that]] find_block_loop_run [OF part', of s'] dec [OF that] that same
    by (simp_all add: FindBlock_def)
  have miss: "\<not> hit c s ?tag v" if "v < ?n" for v
    using find(1) [OF assms(3)] assms(2) that by (auto simp: found_def find_None_iff split: option.splits)
  have "hit c' s ?tag v \<longleftrightarrow> v = w" if "v < ?n" for v
    using at [OF that, of s] miss [OF that] assms(5) same(1) by (auto simp: hit_def)
  then have "find (hit c' s ?tag) [0..<?n] = Some w"
    using assms(4) by (auto simp: find_Some_iff intro!: exI [of _ w])
  then have "FindBlock a c' = Some (True, s, w, st)"
    using find(2) [OF assms(3)] at [OF assms(4), of s] same(1) by (simp add: found_def)
  moreover have "FindBlock x c' = FindBlock x c"
    if x: "x AND NOT (ca_block_mask c) \<noteq> ?tag" "\<forall>st. FindBlock x c \<noteq> Some (True, s, w, st)" for x
  proof (cases "decode_set x c")
    case None
    then show ?thesis using same by (simp add: FindBlock_def)
  next
    case (Some s')
    let ?t = "x AND NOT (ca_block_mask c)"
    let ?wo = "find (hit c s' ?t) [0..<?n]"
    have "find (hit c' s' ?t) [0..<?n] = ?wo"
    proof (cases "s' = s")
      case True
      show ?thesis
      proof (rule find_others [where w = w])
        show "?wo \<noteq> Some w" using x(2) find(1) [OF Some] True by (auto simp: found_def)
        show "hit c' s' ?t v = hit c s' ?t v" if "v \<in> set [0..<?n]" "v \<noteq> w" for v
          using at [of v s'] that same(1) by (simp add: hit_def)
        show "\<not> hit c' s' ?t w" using at [OF assms(4), of s'] True x(1) same(1) by (simp add: hit_def)
      qed simp
    next
      case False
      then show ?thesis using at same(1) by (intro find_cong) (auto simp: hit_def)
    qed
    moreover have "found c' s' ?wo = found c s' ?wo"
    proof (cases ?wo)
      case (Some v)
      then have "v < ?n" by (auto simp: find_Some_iff)
      moreover have "\<not> (s' = s \<and> v = w)" using x(2) find(1) [OF \<open>decode_set x c = Some s'\<close>] Some by (auto simp: found_def)
      ultimately have "ca_blocks c' ! (s' * ?n + v) = ca_blocks c ! (s' * ?n + v)" using at [of v s'] by auto
      then show ?thesis using Some same(1) by (simp add: found_def)
    qed (simp add: found_def)
    ultimately show ?thesis using find [OF Some] by simp
  qed
  ultimately show ?thesis using c'(1,4) cache_inv_iff by blast
qed

theorem setBlock_makes_hit_witness:
  "\<exists>c c'. cache_create 4 2 64 ReplacementFIFO WriteBack = Some c \<and> setBlock 1 1 0x1040 BlockShared c = Some c' \<and>
     FindBlock 0x107f c' = Some (True, 1, 1, BlockShared)"
proof -
  obtain c where c: "cache_create 4 2 64 ReplacementFIFO WriteBack = Some c" using cache_create_ok [of 4 2 64] by auto
  note run = cache_create_run [OF c]
  have "log_base_loop 64 0 = 6" by (simp add: log_base_loop.simps)
  then have d: "decode_set 0x107f c = Some 1" using run(2,7) by (simp add: decode_set_def)
  have part: "cache_part c (\<lambda>s. way_order s c)" using run(1) by (simp add: cache_inv_def cache_rep_def)
  have "\<not> hit c 1 t v" if "v < 2" for t v using run(2,3,8) that by (simp add: hit_def)
  then have none: "find (hit c 1 t) [0..<ca_num_ways c] = None" for t using run(3) by (simp add: find_None_iff)
  have "1 < ca_num_sets c" using run(2) by simp
  then have "find_block_loop c 1 t 0 = Some (False, 0, 0, BlockInvalid)" for t
    using find_block_loop_run [OF part] unfolding none [symmetric] by (simp only: none found_def option.case)
  then have "FindBlock 0x107f c = Some (False, 0, 0, BlockInvalid)" using d by (simp add: FindBlock_def)
  then obtain c' where "setBlock 1 1 (0x107f AND NOT (ca_block_mask c)) BlockShared c = Some c'"
      "FindBlock 0x107f c' = Some (True, 1, 1, BlockShared)"
    using setBlock_makes_hit [OF run(1) _ d, of 1 BlockShared] run(3) by auto
  then show ?thesis using c run(5) by auto
qed

end
