(* ===== verification/SimBitmap.thy ===== *)
theory SimBitmap
  imports Interfaces
begin

unbundle bit_operations_syntax

text \<open>
  The bit sets of the simulator, \<^verbatim>\<open>lib/cpp/Bitmap.cc\<close>: a number of bits in 64-bit blocks, the bits
  of the last block above the size kept at zero. Sizes and positions are the values of the C++ type
  \<^verbatim>\<open>size_t\<close> as natural numbers, and where the code lets one wrap the model wraps it (\<open>pred64\<close>). A
  failed assertion is the result \<^term>\<open>None\<close>.

  The abstraction is the list of the bits; the interface \<open>adt\<close> is interpreted for it.
\<close>

section \<open>The code\<close>

record bitmap =
  bp_size :: nat
  bp_blocks :: nat
  bp_mask :: "64 word"
  bp_data :: "64 word list"

definition pred64 :: "nat \<Rightarrow> nat" where
  "pred64 n = (n + 2 ^ 64 - 1) mod 2 ^ 64"

definition bitmap_create :: "nat \<Rightarrow> bitmap" where
  "bitmap_create sz = (let size_in_blocks = (sz + 64 - 1) div 64; num_bits_in_last_word = pred64 sz mod 64 + 1
     in \<lparr>bp_size = sz, bp_blocks = size_in_blocks,
         bp_mask = (if num_bits_in_last_word = 64 then - 1 else push_bit num_bits_in_last_word 1 - 1),
         bp_data = replicate size_in_blocks 0\<rparr>)"

definition getBlockBit :: "nat \<Rightarrow> bitmap \<Rightarrow> (nat \<times> nat) option" where
  "getBlockBit at b = do { c_assert (at < bp_size b); Some (at div 64, at mod 64) }"

text \<open>The loops \<^verbatim>\<open>for (i = 0; i < size_in_blocks; i++) data[i] = ...\<close>.\<close>

definition block_loop :: "nat \<Rightarrow> (nat \<Rightarrow> 64 word \<Rightarrow> 64 word option) \<Rightarrow> 64 word list \<Rightarrow> 64 word list option" where
  "block_loop n g = for_loop 0 n (\<lambda>i data. do { x \<leftarrow> rd data i; v \<leftarrow> g i x; wr data i v })"

definition mask_last :: "bitmap \<Rightarrow> 64 word list \<Rightarrow> bitmap option" where
  "mask_last b data = do {
     x \<leftarrow> rd data (bp_blocks b - 1);
     data \<leftarrow> wr data (bp_blocks b - 1) (x AND bp_mask b);
     Some (b\<lparr>bp_data := data\<rparr>) }"

definition bitmap_copy :: "bitmap \<Rightarrow> bitmap option" where
  "bitmap_copy b = do {
     data \<leftarrow> block_loop (bp_blocks b) (\<lambda>i _. rd (bp_data b) i) (replicate (bp_blocks b) 0);
     Some \<lparr>bp_size = bp_size b, bp_blocks = bp_blocks b, bp_mask = bp_mask b, bp_data = data\<rparr> }"

definition bitmap_assign :: "bitmap \<Rightarrow> bitmap \<Rightarrow> bitmap option" where
  "bitmap_assign b2 b = do {
     let b = (if bp_size b \<noteq> bp_size b2
       then b\<lparr>bp_size := bp_size b2, bp_blocks := bp_blocks b2, bp_data := replicate (bp_blocks b2) 0\<rparr> else b);
     data \<leftarrow> block_loop (bp_blocks b) (\<lambda>i _. rd (bp_data b2) i) (bp_data b);
     Some (b\<lparr>bp_data := data\<rparr>) }"

definition bitmap_Set :: "nat \<Rightarrow> bool \<Rightarrow> bitmap \<Rightarrow> bitmap option" where
  "bitmap_Set at val b = do {
     (block, bit) \<leftarrow> getBlockBit at b;
     x \<leftarrow> rd (bp_data b) block;
     data \<leftarrow> wr (bp_data b) block (if val then x OR push_bit bit 1 else x AND NOT (push_bit bit 1));
     Some (b\<lparr>bp_data := data\<rparr>) }"

definition bitmap_SetAll :: "bitmap \<Rightarrow> bitmap option" where
  "bitmap_SetAll b = do { data \<leftarrow> block_loop (bp_blocks b) (\<lambda>_ _. Some (NOT 0)) (bp_data b); mask_last b data }"

definition bitmap_Reset :: "bitmap \<Rightarrow> bitmap option" where
  "bitmap_Reset b = do { data \<leftarrow> block_loop (bp_blocks b) (\<lambda>_ _. Some 0) (bp_data b); Some (b\<lparr>bp_data := data\<rparr>) }"

definition bitmap_FlipAll :: "bitmap \<Rightarrow> bitmap option" where
  "bitmap_FlipAll b = do { data \<leftarrow> block_loop (bp_blocks b) (\<lambda>_ x. Some (NOT x)) (bp_data b); mask_last b data }"

definition bitmap_Test :: "nat \<Rightarrow> bitmap \<Rightarrow> bool option" where
  "bitmap_Test at b = do {
     (block, bit) \<leftarrow> getBlockBit at b;
     x \<leftarrow> rd (bp_data b) block;
     Some (x AND push_bit bit 1 \<noteq> 0) }"

definition bitmap_Flip :: "nat \<Rightarrow> bitmap \<Rightarrow> bitmap option" where
  "bitmap_Flip at b = do { v \<leftarrow> bitmap_Test at b; bitmap_Set at (\<not> v) b }"

text \<open>A loop that returns \<^term>\<open>True\<close> at the first index for which the test holds.\<close>

function any_loop :: "nat \<Rightarrow> nat \<Rightarrow> (nat \<Rightarrow> bool option) \<Rightarrow> bool option" where
  "any_loop i n f = (if i < n then do { v \<leftarrow> f i; if v then Some True else any_loop (i + 1) n f } else Some False)"
  by pat_completeness auto
termination
  by (relation "measure (\<lambda>(i, n, f). n - i)") auto

declare any_loop.simps [simp del]

definition bitmap_Any :: "bitmap \<Rightarrow> bool option" where
  "bitmap_Any b = do {
     v \<leftarrow> any_loop 0 (bp_size b div 64) (\<lambda>i. do { x \<leftarrow> rd (bp_data b) i; Some (x \<noteq> 0) });
     if v then Some True
     else any_loop (bp_size b div 64 * 64) (bp_size b) (\<lambda>i. bitmap_Test i b) }"

definition bitmap_CountOnes :: "bitmap \<Rightarrow> nat option" where
  "bitmap_CountOnes b = for_loop 0 (bp_size b) (\<lambda>i count. do {
     v \<leftarrow> bitmap_Test i b; Some (if v then count + 1 else count) }) 0"

definition bitmap_CountZeros :: "bitmap \<Rightarrow> nat option" where
  "bitmap_CountZeros b = for_loop 0 (bp_size b) (\<lambda>i count. do {
     v \<leftarrow> bitmap_Test i b; Some (if \<not> v then count + 1 else count) }) 0"

definition bitmap_equal :: "bitmap \<Rightarrow> bitmap \<Rightarrow> bool option" where
  "bitmap_equal b2 b = do {
     c_assert (bp_size b = bp_size b2);
     v \<leftarrow> any_loop 0 (bp_blocks b) (\<lambda>i. do { x \<leftarrow> rd (bp_data b) i; y \<leftarrow> rd (bp_data b2) i; Some (x \<noteq> y) });
     Some (\<not> v) }"

definition bitmap_zip :: "(64 word \<Rightarrow> 64 word \<Rightarrow> 64 word) \<Rightarrow> bitmap \<Rightarrow> bitmap \<Rightarrow> bitmap option" where
  "bitmap_zip f b2 b = do {
     c_assert (bp_size b = bp_size b2);
     data \<leftarrow> block_loop (bp_blocks b) (\<lambda>i x. do { y \<leftarrow> rd (bp_data b2) i; Some (f x y) }) (bp_data b);
     Some (b\<lparr>bp_data := data\<rparr>) }"

definition bitmap_and :: "bitmap \<Rightarrow> bitmap \<Rightarrow> bitmap option" where
  "bitmap_and = bitmap_zip (\<lambda>x y. x AND y)"

definition bitmap_or :: "bitmap \<Rightarrow> bitmap \<Rightarrow> bitmap option" where
  "bitmap_or = bitmap_zip (\<lambda>x y. x OR y)"

definition bitmap_xor :: "bitmap \<Rightarrow> bitmap \<Rightarrow> bitmap option" where
  "bitmap_xor = bitmap_zip (\<lambda>x y. x XOR y)"

definition bitmap_minus :: "bitmap \<Rightarrow> bitmap \<Rightarrow> bitmap option" where
  "bitmap_minus = bitmap_zip (\<lambda>x y. x AND NOT y)"

partial_function (option) shl_move_loop :: "nat \<Rightarrow> nat \<Rightarrow> bitmap \<Rightarrow> bitmap option" where
  "shl_move_loop n i b = (if n \<le> i then do {
     v \<leftarrow> bitmap_Test (i - n) b; b \<leftarrow> bitmap_Set i v b; shl_move_loop n (pred64 i) b } else Some b)"

text \<open>The condition \<^verbatim>\<open>i >= 0\<close> of the second loop holds for every \<^verbatim>\<open>size_t\<close>.\<close>

partial_function (option) shl_clear_loop :: "nat \<Rightarrow> bitmap \<Rightarrow> bitmap option" where
  "shl_clear_loop i b = (if 0 \<le> i then do { b \<leftarrow> bitmap_Set i False b; shl_clear_loop (pred64 i) b } else Some b)"

definition bitmap_shl :: "nat \<Rightarrow> bitmap \<Rightarrow> bitmap option" where
  "bitmap_shl n b = (if n \<ge> bp_size b then bitmap_Reset b else do {
     b \<leftarrow> shl_move_loop n (bp_size b - 1) b;
     shl_clear_loop (pred64 n) b })"

definition bitmap_shr :: "nat \<Rightarrow> bitmap \<Rightarrow> bitmap option" where
  "bitmap_shr n b = (if n \<ge> bp_size b then bitmap_Reset b else do {
     b \<leftarrow> for_loop 0 (bp_size b - n) (\<lambda>i b. do { v \<leftarrow> bitmap_Test (i + n) b; bitmap_Set i v b }) b;
     for_loop (bp_size b - n) (bp_size b) (\<lambda>i b. bitmap_Set i False b) b })"

section \<open>Invariant and abstraction\<close>

definition bp_bit :: "bitmap \<Rightarrow> nat \<Rightarrow> bool" where
  "bp_bit b i = bit (bp_data b ! (i div 64)) (i mod 64)"

definition bp_inv :: "bitmap \<Rightarrow> bool" where
  "bp_inv b \<longleftrightarrow> 0 < bp_size b \<and> bp_size b < 2 ^ 64 \<and> bp_blocks b = (bp_size b + 63) div 64 \<and> length (bp_data b) = bp_blocks b \<and>
     bp_mask b = mask ((bp_size b - 1) mod 64 + 1) \<and> (\<forall>i. bp_size b \<le> i \<and> i < 64 * bp_blocks b \<longrightarrow> \<not> bp_bit b i)"

definition bp_abs :: "bitmap \<Rightarrow> bool list" where
  "bp_abs b = map (bp_bit b) [0..<bp_size b]"

lemma length_bp_abs [simp]: "length (bp_abs b) = bp_size b"
  by (simp add: bp_abs_def)

lemma bp_abs_nth [simp]: "i < bp_size b \<Longrightarrow> bp_abs b ! i = bp_bit b i"
  by (simp add: bp_abs_def)

lemma bp_block: "bp_inv b \<Longrightarrow> i < bp_size b \<Longrightarrow> i div 64 < length (bp_data b)"
  unfolding bp_inv_def by linarith

lemma mask64: "push_bit n 1 - 1 = (mask n :: 64 word)"
  by (simp add: mask_eq_exp_minus_1 push_bit_of_1)

lemma pred64_pos: "0 < n \<Longrightarrow> n < 2 ^ 64 \<Longrightarrow> pred64 n = n - 1"
proof -
  assume n: "0 < n" "n < 2 ^ 64"
  then have "n + 2 ^ 64 - 1 = (n - 1) + 2 ^ 64" by simp
  then show ?thesis using n unfolding pred64_def by (simp only: mod_add_self2) (simp add: mod_less)
qed

lemma pred64_0: "pred64 0 = 2 ^ 64 - 1"
  by (simp add: pred64_def)

lemma create_bitmap: "0 < sz \<Longrightarrow> sz < 2 ^ 64 \<Longrightarrow> bp_inv (bitmap_create sz) \<and> bp_abs (bitmap_create sz) = replicate sz False"
proof -
  assume sz: "0 < sz" "sz < 2 ^ 64"
  have p: "pred64 sz = sz - 1" using sz by (rule pred64_pos)
  have m: "bp_mask (bitmap_create sz) = mask ((sz - 1) mod 64 + 1)"
    unfolding bitmap_create_def Let_def mask64 p by (auto simp: mask_eq_decr_exp intro!: bit_word_eqI simp: bit_simps)
  have bits: "\<not> bp_bit (bitmap_create sz) i" if "i < 64 * ((sz + 63) div 64)" for i
  proof -
    have "i div 64 < (63 + sz) div 64" using that by (simp add: less_mult_imp_div_less mult.commute add.commute)
    then show ?thesis by (simp add: bp_bit_def bitmap_create_def Let_def)
  qed
  have "bp_inv (bitmap_create sz)" using sz m bits by (simp add: bp_inv_def) (simp add: bitmap_create_def Let_def add.commute)
  moreover have "i < 64 * ((sz + 63) div 64)" if "i < sz" for i using that by linarith
  then have "bp_abs (bitmap_create sz) = replicate sz False"
    using bits by (intro nth_equalityI) (simp_all add: bitmap_create_def Let_def)
  ultimately show ?thesis by blast
qed

text \<open>Changing the blocks so that the bits above the size stay clear.\<close>

lemma bp_inv_data:
  assumes "bp_inv b" "length data = length (bp_data b)"
    "\<And>i. bp_size b \<le> i \<Longrightarrow> i < 64 * bp_blocks b \<Longrightarrow> \<not> bit (data ! (i div 64)) (i mod 64)"
  shows "bp_inv (b\<lparr>bp_data := data\<rparr>)"
  using assms by (simp add: bp_inv_def bp_bit_def)

lemma bitmap_Test_run: "bp_inv b \<Longrightarrow> i < bp_size b \<Longrightarrow> bitmap_Test i b = Some (bp_abs b ! i)"
proof -
  assume b: "bp_inv b" "i < bp_size b"
  have "x AND push_bit n 1 \<noteq> 0 \<longleftrightarrow> bit x n" if "n < 64" for x :: "64 word" and n
  proof -
    have "x AND push_bit n 1 = (if bit x n then push_bit n 1 else 0)"
      by (rule bit_word_eqI) (auto simp: bit_simps push_bit_of_1)
    moreover have "push_bit n (1 :: 64 word) \<noteq> 0"
      using that by (auto simp: bit_eq_iff bit_simps push_bit_of_1)
    ultimately show ?thesis by simp
  qed
  then show ?thesis using b bp_block [OF b] by (simp add: bitmap_Test_def getBlockBit_def bp_bit_def)
qed

lemma bitmap_Set_run:
  assumes "bp_inv b" "i < bp_size b"
  shows "\<exists>b'. bitmap_Set i v b = Some b' \<and> bp_inv b' \<and> bp_size b' = bp_size b \<and> bp_abs b' = (bp_abs b)[i := v]"
proof -
  let ?x = "bp_data b ! (i div 64)"
  let ?y = "if v then ?x OR push_bit (i mod 64) 1 else ?x AND NOT (push_bit (i mod 64) 1)"
  let ?d = "(bp_data b)[i div 64 := ?y]"
  have blk: "i div 64 < length (bp_data b)" using bp_block [OF assms] .
  have bits: "bit (?d ! (j div 64)) (j mod 64) = (if j = i then v else bp_bit b j)" for j
  proof (cases "j div 64 = i div 64")
    case True
    have "j = i \<longleftrightarrow> j mod 64 = i mod 64" using True by (metis div_mult_mod_eq)
    moreover have "bit ?y (j mod 64) = (if j mod 64 = i mod 64 then v else bit ?x (j mod 64))"
      by (auto simp: bit_simps push_bit_of_1)
    ultimately show ?thesis using True blk by (simp add: bp_bit_def)
  next
    case False
    then show ?thesis by (auto simp: bp_bit_def)
  qed
  have "bitmap_Set i v b = Some (b\<lparr>bp_data := ?d\<rparr>)" using assms(2) blk by (simp add: bitmap_Set_def getBlockBit_def)
  moreover have "bp_inv (b\<lparr>bp_data := ?d\<rparr>)"
    using assms by (intro bp_inv_data [OF assms(1)]) (auto simp: bits bp_inv_def)
  moreover have "bp_abs (b\<lparr>bp_data := ?d\<rparr>) = (bp_abs b)[i := v]"
    using bits by (intro nth_equalityI) (auto simp: nth_list_update bp_bit_def)
  ultimately show ?thesis by auto
qed

lemma bitmap_Set_bad: "\<not> i < bp_size b \<Longrightarrow> bitmap_Set i v b = None"
  by (simp add: bitmap_Set_def getBlockBit_def)

lemma block_loop_run:
  assumes "n = length data" "\<And>i. i < n \<Longrightarrow> g i (data ! i) = Some (h i)"
  shows "block_loop n g data = Some (map h [0..<n])"
proof -
  let ?s = "\<lambda>i. map h [0..<i] @ drop i data"
  have "block_loop n g data = Some (?s n)"
    unfolding block_loop_def
  proof (rule for_loop_eq [where g = ?s])
    fix i assume i: "i < n"
    then have "?s i ! i = data ! i" "i < length (?s i)" using assms(1) by (simp_all add: nth_append)
    moreover have "(?s i)[i := h i] = ?s (Suc i)"
      using i assms(1) by (simp add: list_update_append Cons_nth_drop_Suc [symmetric])
    ultimately show "(do { x \<leftarrow> rd (?s i) i; v \<leftarrow> g i x; wr (?s i) i v }) = Some (?s (Suc i))"
      using assms(2) [OF i] by simp
  qed simp_all
  then show ?thesis using assms(1) by simp
qed

lemma block_of: "bp_inv b \<Longrightarrow> i < 64 * bp_blocks b \<Longrightarrow> i div 64 < bp_blocks b"
  by linarith

lemma mask_last_run:
  assumes "bp_inv b" "length data = bp_blocks b"
  shows "\<exists>b'. mask_last b data = Some b' \<and> bp_inv b' \<and> bp_size b' = bp_size b \<and>
    (\<forall>i < bp_size b. bp_bit b' i = bit (data ! (i div 64)) (i mod 64))"
proof -
  note inv = assms(1) [unfolded bp_inv_def]
  let ?l = "bp_blocks b - 1"
  let ?d = "data[?l := data ! ?l AND bp_mask b]"
  have blk: "0 < bp_blocks b" using inv by linarith
  then have run: "mask_last b data = Some (b\<lparr>bp_data := ?d\<rparr>)" using assms(2) by (simp add: mask_last_def)
  have last: "bit (?d ! (i div 64)) (i mod 64) \<longleftrightarrow> bit (data ! (i div 64)) (i mod 64) \<and> i < bp_size b"
    if "i < 64 * bp_blocks b" for i
  proof (cases "i div 64 = ?l")
    case True
    have "i mod 64 < (bp_size b - 1) mod 64 + 1 \<longleftrightarrow> i < bp_size b"
    proof -
      have "(bp_size b - 1) div 64 = ?l" using inv by linarith
      then have "bp_size b = ?l * 64 + (bp_size b - 1) mod 64 + 1" "i = ?l * 64 + i mod 64"
        using inv True div_mult_mod_eq [of "bp_size b - 1" 64] div_mult_mod_eq [of i 64] by linarith+
      then show ?thesis by linarith
    qed
    then show ?thesis using True blk assms(2) inv by (auto simp: bit_simps)
  next
    case False
    then have "i < bp_size b" using that inv by linarith
    then show ?thesis using False by simp
  qed
  have "bp_inv (b\<lparr>bp_data := ?d\<rparr>)"
    using last assms(2) inv by (intro bp_inv_data [OF assms(1)]) auto
  moreover have "i < 64 * bp_blocks b" if "i < bp_size b" for i using that inv by linarith
  ultimately show ?thesis using run last by (auto simp: bp_bit_def)
qed

lemma bp_inv_blocks: "bp_inv b \<Longrightarrow> length (bp_data b) = bp_blocks b"
  by (simp add: bp_inv_def)

text \<open>The operations on whole blocks act on every bit.\<close>

lemma bitmap_SetAll_run:
  assumes "bp_inv b"
  shows "\<exists>b'. bitmap_SetAll b = Some b' \<and> bp_inv b' \<and> bp_abs b' = replicate (bp_size b) True"
proof -
  let ?d = "map (\<lambda>_. NOT 0) [0..<bp_blocks b] :: 64 word list"
  have "block_loop (bp_blocks b) (\<lambda>_ _. Some (NOT 0)) (bp_data b) = Some ?d"
    by (rule block_loop_run) (simp_all add: bp_inv_blocks [OF assms])
  moreover obtain b' where b': "mask_last b ?d = Some b'" "bp_inv b'" "bp_size b' = bp_size b"
      "\<forall>i < bp_size b. bp_bit b' i = bit (?d ! (i div 64)) (i mod 64)"
    using mask_last_run [OF assms, of ?d] by auto
  moreover have "bp_abs b' = replicate (bp_size b) True"
    using b'(3,4) bp_block [OF assms] bp_inv_blocks [OF assms] by (intro nth_equalityI) simp_all
  ultimately show ?thesis by (simp add: bitmap_SetAll_def)
qed

lemma bitmap_FlipAll_run:
  assumes "bp_inv b"
  shows "\<exists>b'. bitmap_FlipAll b = Some b' \<and> bp_inv b' \<and> bp_abs b' = map Not (bp_abs b)"
proof -
  let ?d = "map (\<lambda>i. NOT (bp_data b ! i)) [0..<bp_blocks b]"
  have "block_loop (bp_blocks b) (\<lambda>_ x. Some (NOT x)) (bp_data b) = Some ?d"
    by (rule block_loop_run) (simp_all add: bp_inv_blocks [OF assms])
  moreover obtain b' where b': "mask_last b ?d = Some b'" "bp_inv b'" "bp_size b' = bp_size b"
      "\<forall>i < bp_size b. bp_bit b' i = bit (?d ! (i div 64)) (i mod 64)"
    using mask_last_run [OF assms, of ?d] by auto
  moreover have "bp_abs b' = map Not (bp_abs b)"
    using b'(3,4) bp_block [OF assms] bp_inv_blocks [OF assms]
    by (intro nth_equalityI) (simp_all add: bp_bit_def bit_not_iff)
  ultimately show ?thesis by (simp add: bitmap_FlipAll_def)
qed

lemma bitmap_Reset_run:
  assumes "bp_inv b"
  shows "\<exists>b'. bitmap_Reset b = Some b' \<and> bp_inv b' \<and> bp_size b' = bp_size b \<and> bp_abs b' = replicate (bp_size b) False"
proof -
  let ?d = "map (\<lambda>_. 0) [0..<bp_blocks b] :: 64 word list"
  have "block_loop (bp_blocks b) (\<lambda>_ _. Some 0) (bp_data b) = Some ?d"
    by (rule block_loop_run) (simp_all add: bp_inv_blocks [OF assms])
  moreover have "bp_inv (b\<lparr>bp_data := ?d\<rparr>)"
    using assms by (intro bp_inv_data [OF assms]) (simp_all add: bp_inv_blocks block_of del: map_replicate_const)
  moreover have "bp_abs (b\<lparr>bp_data := ?d\<rparr>) = replicate (bp_size b) False"
    using bp_block [OF assms] bp_inv_blocks [OF assms]
    by (intro nth_equalityI) (simp_all add: bp_bit_def del: map_replicate_const)
  ultimately show ?thesis by (simp add: bitmap_Reset_def del: map_replicate_const)
qed

lemma bitmap_zip_run:
  assumes "bp_inv b" "bp_inv b2" "bp_size b2 = bp_size b"
    and "\<And>x y n. n < 64 \<Longrightarrow> bit (f x y) n = F (bit x n) (bit y n)" "\<not> F False False"
  shows "\<exists>b'. bitmap_zip f b2 b = Some b' \<and> bp_inv b' \<and> bp_abs b' = map2 F (bp_abs b) (bp_abs b2)"
proof -
  let ?d = "map (\<lambda>i. f (bp_data b ! i) (bp_data b2 ! i)) [0..<bp_blocks b]"
  have blocks: "bp_blocks b2 = bp_blocks b" using assms(1,2,3) by (simp add: bp_inv_def)
  have "block_loop (bp_blocks b) (\<lambda>i x. do { y \<leftarrow> rd (bp_data b2) i; Some (f x y) }) (bp_data b) = Some ?d"
    by (rule block_loop_run) (simp_all add: bp_inv_blocks [OF assms(1)] bp_inv_blocks [OF assms(2)] blocks)
  moreover have bits: "bit (?d ! (i div 64)) (i mod 64) = F (bp_bit b i) (bp_bit b2 i)" if "i div 64 < bp_blocks b" for i
    using that assms(4) by (simp add: bp_bit_def)
  then have "bp_inv (b\<lparr>bp_data := ?d\<rparr>)"
    using assms(1,2,3,5) blocks
    by (intro bp_inv_data [OF assms(1)]) (simp_all add: bp_inv_blocks block_of, simp add: bp_inv_def)
  moreover have "bp_abs (b\<lparr>bp_data := ?d\<rparr>) = map2 F (bp_abs b) (bp_abs b2)"
    using bits bp_block [OF assms(1)] bp_inv_blocks [OF assms(1)] assms(3)
    by (intro nth_equalityI) (simp_all add: bp_bit_def)
  ultimately show ?thesis using assms(3) by (simp add: bitmap_zip_def)
qed

lemma count_loop:
  assumes "n = length xs" "\<And>i. i < n \<Longrightarrow> f i = Some (P (xs ! i))"
  shows "for_loop 0 n (\<lambda>i count. do { v \<leftarrow> f i; Some (if v then count + 1 else count) }) 0 = Some (length (filter P xs))"
proof -
  have "for_loop 0 n (\<lambda>i count. do { v \<leftarrow> f i; Some (if v then count + 1 else count) }) 0 = Some (length (filter P (take n xs)))"
    by (rule for_loop_eq [where g = "\<lambda>i. length (filter P (take i xs))"])
      (use assms in \<open>auto simp: take_Suc_conv_app_nth\<close>)
  then show ?thesis using assms(1) by simp
qed

lemma bitmap_CountOnes_run: "bp_inv b \<Longrightarrow> bitmap_CountOnes b = Some (length (filter id (bp_abs b)))"
  unfolding bitmap_CountOnes_def by (rule count_loop) (simp_all add: bitmap_Test_run)

lemma bitmap_CountZeros_run: "bp_inv b \<Longrightarrow> bitmap_CountZeros b = Some (length (filter Not (bp_abs b)))"
  using count_loop [where xs = "bp_abs b" and n = "bp_size b" and P = Not and f = "\<lambda>i. do { v \<leftarrow> bitmap_Test i b; Some (\<not> v) }"]
  by (simp add: bitmap_CountZeros_def bitmap_Test_run)

lemma any_loop_run:
  "(\<And>i. lo \<le> i \<Longrightarrow> i < n \<Longrightarrow> f i = Some (P i)) \<Longrightarrow> any_loop lo n f = Some (\<exists>i. lo \<le> i \<and> i < n \<and> P i)"
proof (induction "n - lo" arbitrary: lo)
  case 0
  then show ?case by (subst any_loop.simps) auto
next
  case (Suc d)
  then have "any_loop (lo + 1) n f = Some (\<exists>i. lo + 1 \<le> i \<and> i < n \<and> P i)" "lo < n" "f lo = Some (P lo)" by simp_all
  moreover have "(\<exists>i. lo \<le> i \<and> i < n \<and> P i) \<longleftrightarrow> P lo \<or> (\<exists>i. lo + 1 \<le> i \<and> i < n \<and> P i)" if "lo < n"
    using that by (auto simp: Suc_le_eq) (metis le_neq_implies_less less_imp_le)+
  ultimately show ?case by (subst any_loop.simps) simp
qed

lemma block_zero: "(x :: 64 word) \<noteq> 0 \<longleftrightarrow> (\<exists>n < 64. bit x n)"
  by (auto simp: bit_eq_iff)

lemma bitmap_Any_run: 
  assumes "bp_inv b"
  shows "bitmap_Any b = Some (\<exists>i < bp_size b. bp_bit b i)"
proof -
  let ?n = "bp_size b div 64"
  have full: "any_loop 0 ?n (\<lambda>i. do { x \<leftarrow> rd (bp_data b) i; Some (x \<noteq> 0) })
      = Some (\<exists>i. 0 \<le> i \<and> i < ?n \<and> (\<exists>j < 64. bit (bp_data b ! i) j))"
    using assms unfolding block_zero [symmetric] by (intro any_loop_run) (simp add: bp_inv_def)
  have rest: "any_loop (?n * 64) (bp_size b) (\<lambda>i. bitmap_Test i b) = Some (\<exists>i. ?n * 64 \<le> i \<and> i < bp_size b \<and> bp_bit b i)"
    by (rule any_loop_run) (simp add: bitmap_Test_run [OF assms])
  have "(\<exists>i < ?n. \<exists>j < 64. bit (bp_data b ! i) j) \<longleftrightarrow> (\<exists>k < ?n * 64. bp_bit b k)"
  proof
    assume "\<exists>i < ?n. \<exists>j < 64. bit (bp_data b ! i) j"
    then obtain i j where "i < ?n" "j < 64" "bit (bp_data b ! i) j" by blast
    then have "bp_bit b (i * 64 + j)" "i * 64 + j < ?n * 64" by (simp_all add: bp_bit_def)
    then show "\<exists>k < ?n * 64. bp_bit b k" by blast
  next
    assume "\<exists>k < ?n * 64. bp_bit b k"
    then obtain k where "k < ?n * 64" "bp_bit b k" by blast
    then have "k div 64 < ?n" "k mod 64 < 64" "bit (bp_data b ! (k div 64)) (k mod 64)"
      by (simp_all add: bp_bit_def less_mult_imp_div_less)
    then show "\<exists>i < ?n. \<exists>j < 64. bit (bp_data b ! i) j" by blast
  qed
  moreover have "?n * 64 \<le> bp_size b" by simp
  ultimately have "(\<exists>i < bp_size b. bp_bit b i) \<longleftrightarrow>
      (\<exists>i < ?n. \<exists>j < 64. bit (bp_data b ! i) j) \<or> (\<exists>i. ?n * 64 \<le> i \<and> i < bp_size b \<and> bp_bit b i)"
    by (meson not_le order_less_le_trans)
  then show ?thesis unfolding bitmap_Any_def by (simp only: full rest) auto
qed

lemma bp_data_eq:
  assumes "bp_inv b" "bp_inv b2" "bp_size b2 = bp_size b"
  shows "bp_data b = bp_data b2 \<longleftrightarrow> bp_abs b = bp_abs b2"
proof
  assume "bp_data b = bp_data b2"
  then show "bp_abs b = bp_abs b2" using assms(3) by (simp add: bp_abs_def bp_bit_def)
next
  assume *: "bp_abs b = bp_abs b2"
  have blocks: "bp_blocks b2 = bp_blocks b" using assms by (simp add: bp_inv_def)
  have bits: "bp_bit b i = bp_bit b2 i" if "i < 64 * bp_blocks b" for i
  proof (cases "i < bp_size b")
    case True
    then show ?thesis using * bp_abs_nth [of i b] bp_abs_nth [of i b2] assms(3) by simp
  next
    case False
    then show ?thesis using assms that blocks by (simp add: bp_inv_def)
  qed
  show "bp_data b = bp_data b2"
  proof (rule nth_equalityI)
    fix i assume i: "i < length (bp_data b)"
    show "bp_data b ! i = bp_data b2 ! i"
    proof (rule bit_word_eqI)
      fix n assume n: "n < LENGTH(64)"
      then have "64 * i + n < 64 * bp_blocks b" using i bp_inv_blocks [OF assms(1)] by simp
      from bits [OF this] n show "bit (bp_data b ! i) n = bit (bp_data b2 ! i) n" by (simp add: bp_bit_def)
    qed
  qed (simp add: bp_inv_blocks [OF assms(1)] bp_inv_blocks [OF assms(2)] blocks)
qed

lemma bitmap_equal_run:
  assumes "bp_inv b" "bp_inv b2" "bp_size b2 = bp_size b"
  shows "bitmap_equal b2 b = Some (bp_abs b = bp_abs b2)"
proof -
  have len: "length (bp_data b) = bp_blocks b" "length (bp_data b2) = bp_blocks b"
    using assms by (simp_all add: bp_inv_def)
  have "any_loop 0 (bp_blocks b) (\<lambda>i. do { x \<leftarrow> rd (bp_data b) i; y \<leftarrow> rd (bp_data b2) i; Some (x \<noteq> y) })
      = Some (\<exists>i. 0 \<le> i \<and> i < bp_blocks b \<and> bp_data b ! i \<noteq> bp_data b2 ! i)"
    by (rule any_loop_run) (simp add: len)
  moreover have "(\<exists>i. 0 \<le> i \<and> i < bp_blocks b \<and> bp_data b ! i \<noteq> bp_data b2 ! i) \<longleftrightarrow> bp_abs b \<noteq> bp_abs b2"
    unfolding bp_data_eq [OF assms, symmetric] using len by (auto simp: list_eq_iff_nth_eq)
  ultimately show ?thesis using assms(3) by (simp add: bitmap_equal_def)
qed

lemma bitmap_shr_run:
  assumes "bp_inv b"
  shows "\<exists>b'. bitmap_shr n b = Some b' \<and> bp_inv b' \<and> bp_size b' = bp_size b \<and>
    bp_abs b' = drop n (bp_abs b) @ replicate (min n (bp_size b)) False"
proof (cases "n \<ge> bp_size b")
  case True
  then show ?thesis using bitmap_Reset_run [OF assms] by (auto simp: bitmap_shr_def min_absorb2)
next
  case False
  let ?s = "bp_size b" and ?xs = "bp_abs b"
  let ?I = "\<lambda>i b'. bp_inv b' \<and> bp_size b' = ?s \<and> bp_abs b' = take i (drop n ?xs) @ drop i ?xs"
  let ?J = "\<lambda>i b'. bp_inv b' \<and> bp_size b' = ?s \<and> bp_abs b' = drop n ?xs @ replicate (i - (?s - n)) False @ drop i ?xs"
  have "\<exists>b1. for_loop 0 (?s - n) (\<lambda>i b. do { v \<leftarrow> bitmap_Test (i + n) b; bitmap_Set i v b }) b = Some b1 \<and> ?I (?s - n) b1"
  proof (rule for_loop_rule)
    fix i b' assume i: "i < ?s - n" and I: "?I i b'"
    have "bp_abs b' ! (i + n) = ?xs ! (i + n)" using I i by (simp add: nth_append)
    then have v: "bitmap_Test (i + n) b' = Some (?xs ! (i + n))"
      using I i bitmap_Test_run [of b' "i + n"] by simp
    obtain b'' where b'': "bitmap_Set i (?xs ! (i + n)) b' = Some b''" "bp_inv b''" "bp_size b'' = bp_size b'"
        "bp_abs b'' = (bp_abs b')[i := ?xs ! (i + n)]"
      using bitmap_Set_run [of b' i] I i by fastforce
    have "(take i (drop n ?xs) @ drop i ?xs)[i := ?xs ! (i + n)] = take (Suc i) (drop n ?xs) @ drop (Suc i) ?xs"
      using i by (simp add: list_update_append take_Suc_conv_app_nth add.commute
          Cons_nth_drop_Suc [where xs = "bp_abs b" and i = i, symmetric])
    then show "\<exists>s'. (do { v \<leftarrow> bitmap_Test (i + n) b'; bitmap_Set i v b' }) = Some s' \<and> ?I (Suc i) s'"
      using v b'' I by simp
  qed (use assms in simp_all)
  then obtain b1 where b1: "for_loop 0 (?s - n) (\<lambda>i b. do { v \<leftarrow> bitmap_Test (i + n) b; bitmap_Set i v b }) b = Some b1"
      "?I (?s - n) b1" by blast
  have "\<exists>b2. for_loop (?s - n) ?s (\<lambda>i b. bitmap_Set i False b) b1 = Some b2 \<and> ?J ?s b2"
  proof (rule for_loop_rule [where I = ?J])
    fix i b' assume i: "?s - n \<le> i" "i < ?s" and J: "?J i b'"
    obtain b'' where b'': "bitmap_Set i False b' = Some b''" "bp_inv b''" "bp_size b'' = bp_size b'"
        "bp_abs b'' = (bp_abs b')[i := False]"
      using bitmap_Set_run [of b' i] J i by fastforce
    have "(drop n ?xs @ replicate (i - (?s - n)) False @ drop i ?xs)[i := False]
        = drop n ?xs @ replicate (Suc i - (?s - n)) False @ drop (Suc i) ?xs"
      using i by (simp add: list_update_append Suc_diff_le replicate_app_Cons_same
          Cons_nth_drop_Suc [where xs = "bp_abs b" and i = i, symmetric])
    then show "\<exists>s'. bitmap_Set i False b' = Some s' \<and> ?J (Suc i) s'" using b'' J by simp
  qed (use b1 False in simp_all)
  then show ?thesis using b1 False by (auto simp: bitmap_shr_def min_def)
qed

text \<open>\<^verbatim>\<open>operator<<=\<close> keeps the size, and its second loop never ends without a failed assertion.\<close>

lemma bitmap_Set_size: "bitmap_Set i v b = Some b' \<Longrightarrow> bp_size b' = bp_size b"
  by (auto simp: bitmap_Set_def split: prod.splits option.splits simp: bind_eq_Some_conv)

lemma shl_move_size: "shl_move_loop n i b = Some b' \<Longrightarrow> bp_size b' = bp_size b"

  by (erule shl_move_loop.raw_induct [where P = "\<lambda>n i b y. bp_size y = bp_size b", rotated])
     (auto simp: bind_eq_Some_conv split: if_splits dest: bitmap_Set_size)

lemma shl_clear_fails: "bp_size b < 2 ^ 64 \<Longrightarrow> i < 2 ^ 64 \<Longrightarrow> shl_clear_loop i b = None"
proof (induction i arbitrary: b)
  case 0
  show ?case
  proof (cases "bitmap_Set 0 False b")
    case (Some b1)
    then have "bitmap_Set (2 ^ 64 - 1) False b1 = None"
      using 0 bitmap_Set_size [OF Some] by (intro bitmap_Set_bad) simp
    then have "shl_clear_loop (pred64 0) b1 = None" by (subst shl_clear_loop.simps) (simp add: pred64_0)
    then show ?thesis using Some by (subst shl_clear_loop.simps) simp
  qed (subst shl_clear_loop.simps, simp)
next
  case (Suc i)
  then have p: "pred64 (Suc i) = i" by (simp add: pred64_pos)
  show ?case
  proof (cases "bitmap_Set (Suc i) False b")
    case (Some b1)
    then have "shl_clear_loop i b1 = None" using Suc bitmap_Set_size [OF Some] by simp
    then show ?thesis using Some p by (subst shl_clear_loop.simps) simp
  qed (subst shl_clear_loop.simps, simp)
qed

section \<open>The bit sets as an abstract data type\<close>

datatype bp_call = B_Set nat bool | B_SetAll | B_Reset | B_Flip nat | B_FlipAll | B_shr nat
  | B_Test nat | B_Any | B_CountOnes | B_CountZeros

datatype bp_result = R_done | R_bool bool | R_num nat

fun bitmap_call :: "bp_call \<Rightarrow> bitmap \<Rightarrow> (bitmap \<times> bp_result) option" where
  "bitmap_call (B_Set i v) b = do { b \<leftarrow> bitmap_Set i v b; Some (b, R_done) }"
| "bitmap_call B_SetAll b = do { b \<leftarrow> bitmap_SetAll b; Some (b, R_done) }"
| "bitmap_call B_Reset b = do { b \<leftarrow> bitmap_Reset b; Some (b, R_done) }"
| "bitmap_call (B_Flip i) b = do { b \<leftarrow> bitmap_Flip i b; Some (b, R_done) }"
| "bitmap_call B_FlipAll b = do { b \<leftarrow> bitmap_FlipAll b; Some (b, R_done) }"
| "bitmap_call (B_shr n) b = do { b \<leftarrow> bitmap_shr n b; Some (b, R_done) }"
| "bitmap_call (B_Test i) b = do { v \<leftarrow> bitmap_Test i b; Some (b, R_bool v) }"
| "bitmap_call B_Any b = do { v \<leftarrow> bitmap_Any b; Some (b, R_bool v) }"
| "bitmap_call B_CountOnes b = do { n \<leftarrow> bitmap_CountOnes b; Some (b, R_num n) }"
| "bitmap_call B_CountZeros b = do { n \<leftarrow> bitmap_CountZeros b; Some (b, R_num n) }"

fun bits_ok :: "bp_call \<Rightarrow> bool list \<Rightarrow> bool" where
  "bits_ok (B_Set i v) xs = (i < length xs)"
| "bits_ok (B_Flip i) xs = (i < length xs)"
| "bits_ok (B_Test i) xs = (i < length xs)"
| "bits_ok c xs = True"

fun bits_spec :: "bp_call \<Rightarrow> bool list \<Rightarrow> bool list \<times> bp_result" where
  "bits_spec (B_Set i v) xs = (xs[i := v], R_done)"
| "bits_spec B_SetAll xs = (replicate (length xs) True, R_done)"
| "bits_spec B_Reset xs = (replicate (length xs) False, R_done)"
| "bits_spec (B_Flip i) xs = (xs[i := \<not> xs ! i], R_done)"
| "bits_spec B_FlipAll xs = (map Not xs, R_done)"
| "bits_spec (B_shr n) xs = (drop n xs @ replicate (min n (length xs)) False, R_done)"
| "bits_spec (B_Test i) xs = (xs, R_bool (xs ! i))"
| "bits_spec B_Any xs = (xs, R_bool (True \<in> set xs))"
| "bits_spec B_CountOnes xs = (xs, R_num (length (filter id xs)))"
| "bits_spec B_CountZeros xs = (xs, R_num (length (filter Not xs)))"

interpretation bitmap_adt: adt bp_inv bp_abs bitmap_call bits_ok bits_spec
proof
  fix b c assume b: "bp_inv b" and ok: "bits_ok c (bp_abs b)"
  show "\<exists>b'. bitmap_call c b = Some (b', snd (bits_spec c (bp_abs b))) \<and> bp_inv b' \<and> bp_abs b' = fst (bits_spec c (bp_abs b))"
  proof (cases c)
    case (B_Set i v)
    then show ?thesis using bitmap_Set_run [OF b, of i v] ok by auto
  next
    case B_SetAll
    then show ?thesis using bitmap_SetAll_run [OF b] by auto
  next
    case B_Reset
    then show ?thesis using bitmap_Reset_run [OF b] by auto
  next
    case (B_Flip i)
    then show ?thesis using bitmap_Set_run [OF b, of i "\<not> bp_bit b i"] bitmap_Test_run [OF b, of i] ok
      by (auto simp: bitmap_Flip_def)
  next
    case B_FlipAll
    then show ?thesis using bitmap_FlipAll_run [OF b] by auto
  next
    case (B_shr n)
    then show ?thesis using bitmap_shr_run [OF b, of n] by auto
  next
    case B_Any
    have "(\<exists>i < bp_size b. bp_bit b i) \<longleftrightarrow> True \<in> set (bp_abs b)" by (auto simp: bp_abs_def image_iff)
    then show ?thesis using B_Any b by (simp add: bitmap_Any_run)
  qed (use b ok in \<open>simp_all add: bitmap_Test_run bitmap_CountOnes_run bitmap_CountZeros_run\<close>)
qed

section \<open>Properties\<close>



text \<open>
  \<^verbatim>\<open>operator<<=\<close> does not shift: for every distance below the size the loop that clears the low
  bits tests \<^verbatim>\<open>i >= 0\<close> on an unsigned counter, wraps, and the assertion of \<^verbatim>\<open>getBlockBit\<close> fails.
\<close>

theorem bitmap_shl_always_fails:
  assumes "n < bp_size b" "bp_size b < 2 ^ 64"
  shows "bitmap_shl n b = None"
proof (cases "shl_move_loop n (bp_size b - 1) b")
  case (Some b')
  have "pred64 n < 2 ^ 64" by (simp add: pred64_def)
  then have "shl_clear_loop (pred64 n) b' = None"
    using shl_clear_fails [of b' "pred64 n"] shl_move_size [OF Some] assms(2) by simp
  then show ?thesis using Some assms(1) by (simp add: bitmap_shl_def)
qed (use assms(1) in \<open>simp add: bitmap_shl_def\<close>)

lemma bitmap_shl_always_fails_witness: "bitmap_shl 1 (bitmap_create 8) = None"
  using bitmap_shl_always_fails [of 1 "bitmap_create 8"] by (simp add: bitmap_create_def Let_def)

end
