(* ===== verification/SimEngine.thy ===== *)
theory SimEngine
  imports Interfaces "HOL-Library.Signed_Division"
begin

text \<open>
  The event-driven simulation engine, \<^verbatim>\<open>lib/esim\<close>: \<^verbatim>\<open>Engine.cc\<close>, \<^verbatim>\<open>Queue.cc\<close>, \<^verbatim>\<open>Frame.h\<close>,
  \<^verbatim>\<open>Event.h\<close> and \<^verbatim>\<open>FrequencyDomain.cc\<close>.

  Frames are objects reached through shared pointers; they live in a store \<open>en_frames\<close>, and the
  pointer 0 is null. The engine never frees a frame that it can still reach, so reclaiming frames
  is not modelled. Events and frequency domains are the elements of two C++ lists that only
  grow; the pointer to one is its position plus one. The heap of pending events is a
  \<^verbatim>\<open>std::priority_queue\<close> ordered by \<^verbatim>\<open>CompareSharedPointers\<close>: a list of frames of which
  \<open>heap_top\<close> is the one the comparison puts first.

  The handlers of the events are the client's code: an argument \<open>h\<close> of the functions that run
  them, and the state they own is the field \<open>en_client\<close>. A \<^verbatim>\<open>misc::Panic\<close>, a failed assertion, a
  division by zero and a null dereference are \<^term>\<open>None\<close>. Names are only printed and are left
  out. Times are integers; \<^verbatim>\<open>long long\<close> picoseconds overflow after a hundred simulated days.
\<close>

section \<open>State\<close>

record Frame =
  f_event :: ptr
  f_time :: int
  f_sequence :: int
  f_period :: int
  f_in_heap :: bool
  f_parent_frame :: ptr
  f_return_event :: ptr
  f_in_queue :: bool
  f_next :: ptr
  f_wakeup_event :: ptr

definition new_frame :: Frame where
  "new_frame = \<lparr>f_event = NULL, f_time = 0, f_sequence = 0, f_period = 0, f_in_heap = False, f_parent_frame = NULL,
     f_return_event = NULL, f_in_queue = False, f_next = NULL, f_wakeup_event = NULL\<rparr>"

record event_type =
  ev_domain :: ptr
  ev_in_flight :: int

record frequency_domain =
  fd_frequency :: int
  fd_cycle_time :: int

record 'c engine =
  en_finish :: bool
  en_finish_reason :: string
  en_sigint :: bool
  en_events :: "event_type list"
  en_domains :: "frequency_domain list"
  en_heap :: "ptr list"
  en_end_frames :: "ptr list"
  en_null_event :: ptr
  en_locked :: bool
  en_time :: int
  en_fastest :: int
  en_shortest :: int
  en_current :: ptr
  en_sequence :: int
  en_warned :: bool
  en_frames :: "ptr \<Rightarrow> Frame option"
  en_next_frame :: ptr
  en_client :: 'c

type_synonym 'c handler = "ptr \<Rightarrow> ptr \<Rightarrow> 'c engine \<Rightarrow> 'c engine option"

record wait_queue =
  q_head :: ptr
  q_tail :: ptr

section \<open>Objects\<close>

definition frame_at :: "'c engine \<Rightarrow> ptr \<Rightarrow> Frame option" where
  "frame_at s p = (if p = NULL then None else en_frames s p)"

definition upd_frame :: "ptr \<Rightarrow> (Frame \<Rightarrow> Frame) \<Rightarrow> 'c engine \<Rightarrow> 'c engine option" where
  "upd_frame p g s = do { fr \<leftarrow> frame_at s p; Some (s\<lparr>en_frames := (en_frames s)(p \<mapsto> g fr)\<rparr>) }"

definition alloc_frame :: "'c engine \<Rightarrow> ptr \<times> 'c engine" where
  "alloc_frame s = (en_next_frame s,
     s\<lparr>en_frames := (en_frames s)(en_next_frame s \<mapsto> new_frame), en_next_frame := en_next_frame s + 1\<rparr>)"

definition event_at :: "'c engine \<Rightarrow> ptr \<Rightarrow> event_type option" where
  "event_at s e = (if e = NULL then None else rd (en_events s) (e - 1))"

definition upd_event :: "ptr \<Rightarrow> (event_type \<Rightarrow> event_type) \<Rightarrow> 'c engine \<Rightarrow> 'c engine option" where
  "upd_event e g s = do { ev \<leftarrow> event_at s e; Some (s\<lparr>en_events := (en_events s)[e - 1 := g ev]\<rparr>) }"

definition domain_at :: "'c engine \<Rightarrow> ptr \<Rightarrow> frequency_domain option" where
  "domain_at s d = (if d = NULL then None else rd (en_domains s) (d - 1))"

section \<open>Registration\<close>

definition RegisterFrequencyDomain :: "int \<Rightarrow> 'c engine \<Rightarrow> (ptr \<times> 'c engine) option" where
  "RegisterFrequencyDomain frequency s = do {
     c_assert (frequency \<noteq> 0);
     let s = s\<lparr>en_domains := en_domains s @ [\<lparr>fd_frequency = frequency, fd_cycle_time = 1000000 sdiv frequency\<rparr>]\<rparr>;
     let s = (if frequency > en_fastest s
       then s\<lparr>en_fastest := frequency, en_shortest := 1000000 sdiv frequency\<rparr> else s);
     Some (length (en_domains s), s) }"

definition UpdateFastestFrequency :: "'c engine \<Rightarrow> 'c engine option" where
  "UpdateFastestFrequency s = do {
     c_assert (en_domains s \<noteq> []);
     Some (fold (\<lambda>d s. if fd_frequency d > en_fastest s
       then s\<lparr>en_fastest := fd_frequency d, en_shortest := fd_cycle_time d\<rparr> else s) (en_domains s)
       (s\<lparr>en_fastest := 0, en_shortest := 0\<rparr>)) }"

definition setFrequency :: "ptr \<Rightarrow> int \<Rightarrow> 'c engine \<Rightarrow> 'c engine option" where
  "setFrequency d frequency s = do {
     _ \<leftarrow> domain_at s d;
     c_assert (frequency \<noteq> 0);
     UpdateFastestFrequency
       (s\<lparr>en_domains := (en_domains s)[d - 1 := \<lparr>fd_frequency = frequency, fd_cycle_time = 1000000 sdiv frequency\<rparr>]\<rparr>) }"

definition RegisterEvent :: "ptr \<Rightarrow> 'c engine \<Rightarrow> ptr \<times> 'c engine" where
  "RegisterEvent domain s = (length (en_events s) + 1,
     s\<lparr>en_events := en_events s @ [\<lparr>ev_domain = domain, ev_in_flight = 0\<rparr>]\<rparr>)"

definition Engine_create :: "'c \<Rightarrow> 'c engine" where
  "Engine_create c = (let
     s = \<lparr>en_finish = False, en_finish_reason = [], en_sigint = False, en_events = [], en_domains = [], en_heap = [],
       en_end_frames = [], en_null_event = NULL, en_locked = False, en_time = 0, en_fastest = 0, en_shortest = 0,
       en_current = NULL, en_sequence = 0, en_warned = False, en_frames = Map.empty, en_next_frame = 1, en_client = c\<rparr>;
     (e, s) = RegisterEvent NULL s
     in s\<lparr>en_null_event := e\<rparr>)"

definition getCycle :: "'c engine \<Rightarrow> int option" where
  "getCycle s = do { c_assert (en_shortest s \<noteq> 0); Some (en_time s sdiv en_shortest s + 1) }"

definition FrequencyDomain_getCycle :: "ptr \<Rightarrow> 'c engine \<Rightarrow> int option" where
  "FrequencyDomain_getCycle d s = do {
     fd \<leftarrow> domain_at s d; c_assert (fd_cycle_time fd \<noteq> 0); Some (en_time s sdiv fd_cycle_time fd + 1) }"

section \<open>Scheduling\<close>

text \<open>\<^verbatim>\<open>CompareSharedPointers\<close> puts the earlier time first and breaks ties by the schedule sequence.\<close>

definition runs_after :: "Frame \<Rightarrow> Frame \<Rightarrow> bool" where
  "runs_after l r \<longleftrightarrow> f_time l > f_time r \<or> (f_time l = f_time r \<and> f_sequence l > f_sequence r)"

fun heap_top :: "(ptr \<Rightarrow> Frame option) \<Rightarrow> ptr list \<Rightarrow> ptr" where
  "heap_top fs [] = NULL"
| "heap_top fs [p] = p"
| "heap_top fs (p # q # ps) = (let m = heap_top fs (q # ps) in if runs_after (the (fs p)) (the (fs m)) then m else p)"

definition Schedule :: "ptr \<Rightarrow> ptr \<Rightarrow> int \<Rightarrow> int \<Rightarrow> 'c engine \<Rightarrow> 'c engine option" where
  "Schedule event frame after period s = do {
     c_assert (after \<ge> 0);
     c_assert (frame \<noteq> NULL);
     fr \<leftarrow> frame_at s frame;
     if f_in_queue fr then None
     else if f_in_heap fr then None
     else if en_locked s then Some s
     else if event = NULL \<or> event = en_null_event s then Some s
     else do {
       e \<leftarrow> event_at s event;
       d \<leftarrow> domain_at s (ev_domain e);
       c_assert (fd_cycle_time d \<noteq> 0);
       let time = en_time s sdiv fd_cycle_time d * fd_cycle_time d + fd_cycle_time d * after;
       s \<leftarrow> upd_frame frame (\<lambda>fr. fr\<lparr>f_time := time, f_event := event, f_period := period,
         f_sequence := en_sequence s + 1\<rparr>) (s\<lparr>en_sequence := en_sequence s + 1\<rparr>);
       s \<leftarrow> upd_frame frame (\<lambda>fr. fr\<lparr>f_in_heap := True\<rparr>) (s\<lparr>en_heap := en_heap s @ [frame]\<rparr>);
       s \<leftarrow> upd_event event (\<lambda>e. e\<lparr>ev_in_flight := ev_in_flight e + 1\<rparr>) s;
       Some (if \<not> en_warned s \<and> 10000 \<le> length (en_heap s) then s\<lparr>en_warned := True\<rparr> else s) } }"

definition Next :: "ptr \<Rightarrow> int \<Rightarrow> int \<Rightarrow> 'c engine \<Rightarrow> 'c engine option" where
  "Next event after period s = (let
     (frame, s) = (if en_current s = NULL then alloc_frame s else (en_current s, s))
     in Schedule event frame after period s)"

definition Call :: "ptr \<Rightarrow> ptr \<Rightarrow> ptr \<Rightarrow> int \<Rightarrow> int \<Rightarrow> 'c engine \<Rightarrow> 'c engine option" where
  "Call event frame return_event after period s = (let
     (frame, s) = (if frame = NULL then alloc_frame s else (frame, s))
     in do {
       s \<leftarrow> upd_frame frame (\<lambda>fr. fr\<lparr>f_return_event := return_event, f_parent_frame := en_current s\<rparr>) s;
       Schedule event frame after period s })"

definition Return :: "int \<Rightarrow> 'c engine \<Rightarrow> 'c engine option" where
  "Return after s = do {
     c_assert (en_current s \<noteq> NULL);
     fr \<leftarrow> frame_at s (en_current s);
     if f_return_event fr = NULL then Some s
     else Schedule (f_return_event fr) (f_parent_frame fr) after 0 s }"

definition EndEvent :: "ptr \<Rightarrow> 'c engine \<Rightarrow> 'c engine option" where
  "EndEvent event s = (if event = NULL \<or> event = en_null_event s then Some s else (let
     (frame, s) = alloc_frame s
     in do {
       s \<leftarrow> upd_frame frame (\<lambda>fr. fr\<lparr>f_event := event\<rparr>) s;
       Some (s\<lparr>en_end_frames := en_end_frames s @ [frame]\<rparr>) }))"

section \<open>Running events\<close>

definition Execute :: "'c handler \<Rightarrow> ptr \<Rightarrow> ptr \<Rightarrow> ptr \<Rightarrow> 'c engine \<Rightarrow> 'c engine option" where
  "Execute h event frame receive_event s = (if event = NULL \<or> event = en_null_event s then Some s else do {
     let old = en_current s;
     s \<leftarrow> upd_frame frame (\<lambda>fr. fr\<lparr>f_parent_frame := en_current s, f_return_event := receive_event\<rparr>) s;
     s \<leftarrow> h event frame (s\<lparr>en_current := frame\<rparr>);
     Some (s\<lparr>en_current := old\<rparr>) })"

text \<open>Taking the first frame out of the heap; the debug output reads the name of its domain.\<close>

definition heap_extract_frame :: "'c engine \<Rightarrow> 'c engine option" where
  "heap_extract_frame s = do {
     c_assert (en_current s = NULL);
     let frame = heap_top (en_frames s) (en_heap s);
     fr \<leftarrow> frame_at s frame;
     c_assert (f_in_heap fr);
     s \<leftarrow> upd_frame frame (\<lambda>fr. fr\<lparr>f_in_heap := False\<rparr>)
       (s\<lparr>en_current := frame, en_heap := remove1 frame (en_heap s)\<rparr>);
     e \<leftarrow> event_at s (f_event fr);
     _ \<leftarrow> domain_at s (ev_domain e);
     Some s }"

definition process_event :: "'c handler \<Rightarrow> 'c engine \<Rightarrow> 'c engine option" where
  "process_event h s = do {
     s \<leftarrow> heap_extract_frame s;
     fr \<leftarrow> frame_at s (en_current s);
     let event = f_event fr;
     s \<leftarrow> upd_event event (\<lambda>e. e\<lparr>ev_in_flight := ev_in_flight e - 1\<rparr>) s;
     s \<leftarrow> h event (en_current s) s;
     fr \<leftarrow> frame_at s (en_current s);
     s \<leftarrow> (if f_period fr > 0 then Schedule event (en_current s) (f_period fr) (f_period fr) s else Some s);
     Some (s\<lparr>en_current := NULL\<rparr>) }"

definition event_due :: "'c engine \<Rightarrow> bool" where
  "event_due s \<longleftrightarrow> en_heap s \<noteq> [] \<and> f_time (the (en_frames s (heap_top (en_frames s) (en_heap s)))) \<le> en_time s"

partial_function (option) process_loop :: "'c handler \<Rightarrow> 'c engine \<Rightarrow> 'c engine option" where
  "process_loop h s = (if event_due s then process_event h s \<bind> process_loop h else Some s)"

definition poll_signal :: "'c engine \<Rightarrow> 'c engine" where
  "poll_signal s = (if en_sigint s then s\<lparr>en_finish := True, en_finish_reason := ''Signal''\<rparr> else s)"

definition ProcessEvents :: "'c handler \<Rightarrow> 'c engine \<Rightarrow> 'c engine option" where
  "ProcessEvents h s = do {
     s \<leftarrow> process_loop h (poll_signal s);
     Some (s\<lparr>en_time := en_time s + en_shortest s\<rparr>) }"

definition drain_event :: "'c handler \<Rightarrow> 'c engine \<Rightarrow> 'c engine option" where
  "drain_event h s = do {
     s \<leftarrow> heap_extract_frame s;
     fr \<leftarrow> frame_at s (en_current s);
     s \<leftarrow> h (f_event fr) (en_current s) (s\<lparr>en_time := f_time fr\<rparr>);
     Some (s\<lparr>en_current := NULL\<rparr>) }"

partial_function (option) drain_loop :: "'c handler \<Rightarrow> int \<Rightarrow> int \<Rightarrow> 'c engine \<Rightarrow> (bool \<times> 'c engine) option" where
  "drain_loop h max_events num_events s = (if en_heap s = [] then Some (False, s) else do {
     s \<leftarrow> drain_event h s;
     if num_events + 1 = max_events then Some (True, s) else drain_loop h max_events (num_events + 1) s })"

definition Drain :: "'c handler \<Rightarrow> int \<Rightarrow> 'c engine \<Rightarrow> (bool \<times> 'c engine) option" where
  "Drain h max_events s = drain_loop h max_events 0 s"

definition end_event :: "'c handler \<Rightarrow> ptr \<Rightarrow> ptr list \<Rightarrow> 'c engine \<Rightarrow> 'c engine option" where
  "end_event h frame rest s = do {
     c_assert (en_current s = NULL);
     let s = s\<lparr>en_current := frame, en_end_frames := rest\<rparr>;
     fr \<leftarrow> frame_at s frame;
     _ \<leftarrow> event_at s (f_event fr);
     s \<leftarrow> h (f_event fr) frame s;
     Some (s\<lparr>en_current := NULL\<rparr>) }"

partial_function (option) ProcessEndEvents :: "'c handler \<Rightarrow> 'c engine \<Rightarrow> 'c engine option" where
  "ProcessEndEvents h s = (case en_end_frames s of [] \<Rightarrow> Some s
     | frame # rest \<Rightarrow> end_event h frame rest s \<bind> ProcessEndEvents h)"

definition ProcessAllEvents :: "'c handler \<Rightarrow> 'c engine \<Rightarrow> 'c engine option" where
  "ProcessAllEvents h s = do {
     (overflow, s) \<leftarrow> Drain h 1000000 s;
     if overflow then Some s
     else do { s \<leftarrow> ProcessEndEvents h s; (_, s) \<leftarrow> Drain h 1000000 s; Some s } }"

section \<open>Queues of suspended frames\<close>

definition queue_empty :: wait_queue where
  "queue_empty = \<lparr>q_head = NULL, q_tail = NULL\<rparr>"

definition mark_queued :: "ptr \<Rightarrow> 'c engine \<Rightarrow> 'c engine option" where
  "mark_queued frame s = do {
     fr \<leftarrow> frame_at s frame;
     c_assert (\<not> f_in_queue fr);
     c_assert (f_next fr = NULL);
     upd_frame frame (\<lambda>fr. fr\<lparr>f_in_queue := True\<rparr>) s }"

definition Queue_PushBack :: "ptr \<Rightarrow> wait_queue \<Rightarrow> 'c engine \<Rightarrow> (wait_queue \<times> 'c engine) option" where
  "Queue_PushBack frame q s = do {
     s \<leftarrow> mark_queued frame s;
     if q_head q = NULL \<and> q_tail q = NULL then Some (\<lparr>q_head = frame, q_tail = frame\<rparr>, s)
     else do {
       c_assert (q_head q \<noteq> NULL \<and> q_tail q \<noteq> NULL);
       t \<leftarrow> frame_at s (q_tail q);
       c_assert (f_next t = NULL);
       s \<leftarrow> upd_frame (q_tail q) (\<lambda>fr. fr\<lparr>f_next := frame\<rparr>) s;
       Some (q\<lparr>q_tail := frame\<rparr>, s) } }"

definition Queue_PushFront :: "ptr \<Rightarrow> wait_queue \<Rightarrow> 'c engine \<Rightarrow> (wait_queue \<times> 'c engine) option" where
  "Queue_PushFront frame q s = do {
     s \<leftarrow> mark_queued frame s;
     if q_head q = NULL \<and> q_tail q = NULL then Some (\<lparr>q_head = frame, q_tail = frame\<rparr>, s)
     else do {
       c_assert (q_head q \<noteq> NULL \<and> q_tail q \<noteq> NULL);
       t \<leftarrow> frame_at s (q_tail q);
       c_assert (f_next t = NULL);
       s \<leftarrow> upd_frame frame (\<lambda>fr. fr\<lparr>f_next := q_head q\<rparr>) s;
       Some (q\<lparr>q_head := frame\<rparr>, s) } }"

definition Queue_PopFront :: "wait_queue \<Rightarrow> 'c engine \<Rightarrow> (ptr \<times> wait_queue \<times> 'c engine) option" where
  "Queue_PopFront q s = (if q_head q = NULL then do { c_assert (q_tail q = NULL); Some (NULL, q, s) }
     else do {
       fr \<leftarrow> frame_at s (q_head q);
       let q' = (if q_head q = q_tail q then \<lparr>q_head = NULL, q_tail = NULL\<rparr> else q\<lparr>q_head := f_next fr\<rparr>);
       s \<leftarrow> upd_frame (q_head q) (\<lambda>fr. fr\<lparr>f_next := NULL, f_in_queue := False\<rparr>) s;
       Some (q_head q, q', s) })"

definition Wait :: "ptr \<Rightarrow> bool \<Rightarrow> wait_queue \<Rightarrow> 'c engine \<Rightarrow> (wait_queue \<times> 'c engine) option" where
  "Wait event priority q s = do {
     c_assert (en_current s \<noteq> NULL);
     fr \<leftarrow> frame_at s (en_current s);
     c_assert (\<not> f_in_heap fr);
     c_assert (event \<noteq> NULL);
     c_assert (f_wakeup_event fr = NULL);
     s \<leftarrow> upd_frame (en_current s) (\<lambda>fr. fr\<lparr>f_wakeup_event := event\<rparr>) s;
     if priority then Queue_PushFront (en_current s) q s else Queue_PushBack (en_current s) q s }"

definition WakeupOne :: "wait_queue \<Rightarrow> 'c engine \<Rightarrow> (wait_queue \<times> 'c engine) option" where
  "WakeupOne q s = do {
     c_assert (q_head q \<noteq> NULL);
     (frame, q, s) \<leftarrow> Queue_PopFront q s;
     fr \<leftarrow> frame_at s frame;
     let event = f_wakeup_event fr;
     s \<leftarrow> upd_frame frame (\<lambda>fr. fr\<lparr>f_wakeup_event := NULL\<rparr>) s;
     c_assert (event \<noteq> NULL);
     s \<leftarrow> Schedule event frame 0 0 s;
     Some (q, s) }"

partial_function (option) WakeupAll :: "wait_queue \<Rightarrow> 'c engine \<Rightarrow> (wait_queue \<times> 'c engine) option" where
  "WakeupAll q s = (if q_head q = NULL then Some (q, s) else do { (q, s) \<leftarrow> WakeupOne q s; WakeupAll q s })"

end
