(* ===== verification/SimEngineProof.thy ===== *)
theory SimEngineProof
  imports SimEngine
begin

text \<open>
  The invariant of the simulation engine and its preservation by everything a handler may do: the
  step relation \<open>engine_step\<close>.
\<close>

section \<open>Invariant\<close>

definition heap_frame :: "'c engine \<Rightarrow> ptr \<Rightarrow> Frame \<Rightarrow> bool" where
  "heap_frame s p fr \<longleftrightarrow> en_frames s p = Some fr \<and> f_in_heap fr"

definition valid_event :: "'c engine \<Rightarrow> ptr \<Rightarrow> bool" where
  "valid_event s e \<longleftrightarrow> (\<exists>ev d. event_at s e = Some ev \<and> domain_at s (ev_domain ev) = Some d)"

definition in_flight :: "'c engine \<Rightarrow> ptr \<Rightarrow> int" where
  "in_flight s e = int (length (filter (\<lambda>p. f_event (the (en_frames s p)) = e) (en_heap s)))"

definition engine_inv :: "'c engine \<Rightarrow> bool" where
  "engine_inv s \<longleftrightarrow> distinct (en_heap s) \<and> (\<forall>p. p \<in> set (en_heap s) \<longleftrightarrow> (\<exists>fr. heap_frame s p fr)) \<and>
     (\<forall>p fr. en_frames s p = Some fr \<longrightarrow> 0 < p \<and> p < en_next_frame s) \<and> 0 < en_next_frame s \<and>
     (\<forall>p fr. heap_frame s p fr \<longrightarrow> \<not> f_in_queue fr \<and> f_sequence fr \<le> en_sequence s \<and> valid_event s (f_event fr)) \<and>
     inj_on (\<lambda>p. f_sequence (the (en_frames s p))) (set (en_heap s)) \<and>
     (\<forall>e ev. event_at s e = Some ev \<longrightarrow> ev_in_flight ev = in_flight s e) \<and>
     (\<forall>d \<in> set (en_domains s). 0 < fd_cycle_time d) \<and> 0 \<le> en_time s"

lemma frame_at_eq: "engine_inv s \<Longrightarrow> frame_at s p = en_frames s p"
  by (cases "en_frames s p") (auto simp: frame_at_def engine_inv_def)

lemma upd_frame_eq: "upd_frame p g s = Some s' \<longleftrightarrow>
    (\<exists>fr. frame_at s p = Some fr \<and> s' = s\<lparr>en_frames := (en_frames s)(p \<mapsto> g fr)\<rparr>)"
  by (auto simp: upd_frame_def bind_eq_Some_conv)

lemma upd_event_eq: "upd_event e g s = Some s' \<longleftrightarrow>
    (\<exists>ev. event_at s e = Some ev \<and> s' = s\<lparr>en_events := (en_events s)[e - 1 := g ev]\<rparr>)"
  by (auto simp: upd_event_def bind_eq_Some_conv)

lemma c_assert_eq [simp]: "c_assert b = Some u \<longleftrightarrow> b"
  by (simp add: c_assert_def)

lemma frame_at_Some: "frame_at s p = Some fr \<longleftrightarrow> p \<noteq> NULL \<and> en_frames s p = Some fr"
  by (auto simp: frame_at_def)

text \<open>Changing a frame without touching what the heap orders it by.\<close>

lemma upd_frame_inv:
  assumes inv: "engine_inv s" and upd: "upd_frame p g s = Some s'"
    and heap: "\<And>fr. en_frames s p = Some fr \<Longrightarrow> f_in_heap (g fr) = f_in_heap fr"
    and same: "\<And>fr. en_frames s p = Some fr \<Longrightarrow> f_in_heap fr \<Longrightarrow>
      f_event (g fr) = f_event fr \<and> f_sequence (g fr) = f_sequence fr \<and> (f_in_queue (g fr) \<longrightarrow> f_in_queue fr)"
  shows "engine_inv s'"
proof -
  obtain fr where fr: "en_frames s p = Some fr" and s': "s' = s\<lparr>en_frames := (en_frames s)(p \<mapsto> g fr)\<rparr>"
    using upd by (auto simp: upd_frame_eq frame_at_Some)
  have hf: "heap_frame s' q r \<longleftrightarrow> (if q = p then f_in_heap fr \<and> r = g fr else heap_frame s q r)" for q r
    using heap [OF fr] by (auto simp: heap_frame_def s')
  have ex: "(\<exists>r. heap_frame s' q r) \<longleftrightarrow> (\<exists>r. heap_frame s q r)" for q
    unfolding hf using fr by (cases "q = p") (auto simp: heap_frame_def)
  have key: "f_event (the (en_frames s' q)) = f_event (the (en_frames s q)) \<and>
      f_sequence (the (en_frames s' q)) = f_sequence (the (en_frames s q))" if "q \<in> set (en_heap s)" for q
  proof -
    have "\<exists>r. heap_frame s q r" using inv that by (simp add: engine_inv_def)
    then show ?thesis using same [OF fr] fr by (auto simp: s' heap_frame_def)
  qed
  have hp: "en_heap s' = en_heap s" "en_next_frame s' = en_next_frame s" "en_sequence s' = en_sequence s"
      "en_domains s' = en_domains s" "en_time s' = en_time s"
    by (simp_all add: s')
  have fl: "in_flight s' e = in_flight s e" for e
    unfolding in_flight_def hp by (simp add: key cong: filter_cong)
  have inj: "inj_on (\<lambda>p. f_sequence (the (en_frames s' p))) (set (en_heap s))
      \<longleftrightarrow> inj_on (\<lambda>p. f_sequence (the (en_frames s p))) (set (en_heap s))"
    by (rule inj_on_cong) (use key in simp)
  have ve: "valid_event s' e \<longleftrightarrow> valid_event s e" "event_at s' e = event_at s e" for e
    by (simp_all add: valid_event_def event_at_def domain_at_def s')
  have c3: "\<forall>q r. en_frames s' q = Some r \<longrightarrow> 0 < q \<and> q < en_next_frame s"
    using inv fr by (auto simp: s' engine_inv_def)
  have c5: "\<forall>q r. heap_frame s' q r \<longrightarrow> \<not> f_in_queue r \<and> f_sequence r \<le> en_sequence s \<and> valid_event s (f_event r)"
  proof (intro allI impI)
    fix q r assume r: "heap_frame s' q r"
    have old: "\<not> f_in_queue r \<and> f_sequence r \<le> en_sequence s \<and> valid_event s (f_event r)" if "heap_frame s q r" for q r
      using inv that unfolding engine_inv_def by blast
    show "\<not> f_in_queue r \<and> f_sequence r \<le> en_sequence s \<and> valid_event s (f_event r)"
    proof (cases "q = p")
      case True
      then have "heap_frame s p fr" "r = g fr" using r hf fr by (simp_all add: heap_frame_def)
      then show ?thesis using old [of p fr] same [OF fr] by (auto simp: heap_frame_def)
    qed (use r hf old in simp)
  qed
  show ?thesis using inv c3 c5 unfolding engine_inv_def hp inj fl ve ex by simp
qed

lemma alloc_frame_inv:
  assumes "engine_inv s" "alloc_frame s = (p, s')"
  shows "engine_inv s'" "en_frames s' p = Some new_frame" "p \<noteq> NULL"
proof -
  have p: "p = en_next_frame s"
    and s': "s' = s\<lparr>en_frames := (en_frames s)(p \<mapsto> new_frame), en_next_frame := p + 1\<rparr>"
    using assms(2) by (auto simp: alloc_frame_def)
  have new: "en_frames s p = None" using assms(1) p by (cases "en_frames s p") (auto simp: engine_inv_def)
  have hf: "heap_frame s' q r \<longleftrightarrow> heap_frame s q r" for q r
    using new by (auto simp: heap_frame_def s' new_frame_def)
  have same: "en_frames s' q = en_frames s q" if "q \<in> set (en_heap s)" for q
    using that assms(1) new by (auto simp: s' engine_inv_def heap_frame_def)
  have hp: "en_heap s' = en_heap s" "en_next_frame s' = en_next_frame s + 1" "en_sequence s' = en_sequence s"
      "en_domains s' = en_domains s" "en_time s' = en_time s"
    using p by (simp_all add: s')
  have fl: "in_flight s' e = in_flight s e" for e
    unfolding in_flight_def hp by (simp add: same cong: filter_cong)
  have inj: "inj_on (\<lambda>p. f_sequence (the (en_frames s' p))) (set (en_heap s))
      \<longleftrightarrow> inj_on (\<lambda>p. f_sequence (the (en_frames s p))) (set (en_heap s))"
    by (rule inj_on_cong) (use same in simp)
  have ve: "valid_event s' e \<longleftrightarrow> valid_event s e" "event_at s' e = event_at s e" for e
    by (simp_all add: valid_event_def event_at_def domain_at_def s')
  have c3: "\<forall>q r. en_frames s' q = Some r \<longrightarrow> 0 < q \<and> q < en_next_frame s + 1"
    using assms(1) p by (auto simp: s' engine_inv_def less_SucI)
  show "engine_inv s'" using assms(1) c3 unfolding engine_inv_def hp inj fl ve hf by simp
  show "en_frames s' p = Some new_frame" "p \<noteq> NULL" using p assms(1) by (simp_all add: s' engine_inv_def)
qed

section \<open>Scheduling\<close>

text \<open>What \<^verbatim>\<open>Schedule\<close> does when it schedules.\<close>

definition schedule_time :: "'c engine \<Rightarrow> frequency_domain \<Rightarrow> int \<Rightarrow> int" where
  "schedule_time s d after = en_time s sdiv fd_cycle_time d * fd_cycle_time d + fd_cycle_time d * after"

definition scheduled :: "ptr \<Rightarrow> ptr \<Rightarrow> int \<Rightarrow> int \<Rightarrow> 'c engine \<Rightarrow> 'c engine" where
  "scheduled event p time period s = s\<lparr>
     en_frames := (en_frames s)(p \<mapsto> (the (en_frames s p))\<lparr>f_time := time, f_event := event, f_period := period,
       f_sequence := en_sequence s + 1, f_in_heap := True\<rparr>),
     en_sequence := en_sequence s + 1, en_heap := en_heap s @ [p],
     en_events := (en_events s)[event - 1 := (en_events s ! (event - 1))\<lparr>ev_in_flight := ev_in_flight (en_events s ! (event - 1)) + 1\<rparr>],
     en_warned := (en_warned s \<or> 10000 \<le> length (en_heap s) + 1)\<rparr>"

lemma event_at_Some: "event_at s e = Some ev \<longleftrightarrow> e \<noteq> NULL \<and> e - 1 < length (en_events s) \<and> ev = en_events s ! (e - 1)"
  by (auto simp: event_at_def rd_def)

lemma domain_at_Some: "domain_at s d = Some fd \<longleftrightarrow> d \<noteq> NULL \<and> d - 1 < length (en_domains s) \<and> fd = en_domains s ! (d - 1)"
  by (auto simp: domain_at_def rd_def)

lemma Schedule_runs:
  assumes "0 \<le> after" "frame_at s p = Some fr" "\<not> f_in_queue fr" "\<not> f_in_heap fr" "\<not> en_locked s"
    and "event \<noteq> NULL" "event \<noteq> en_null_event s" "event_at s event = Some e" "domain_at s (ev_domain e) = Some d"
    and "fd_cycle_time d \<noteq> 0"
  shows "Schedule event p after period s = Some (scheduled event p (schedule_time s d after) period s)"
proof -
  have p: "p \<noteq> NULL" "en_frames s p = Some fr" using assms(2) by (simp_all add: frame_at_Some)
  have e: "event - 1 < length (en_events s)" "e = en_events s ! (event - 1)" using assms(8) by (simp_all add: event_at_Some)
  show ?thesis using p e assms(1,3-7,9,10)
    by (simp add: Schedule_def upd_frame_def upd_event_def frame_at_def event_at_def scheduled_def schedule_time_def Let_def)
qed

lemma Schedule_cases:
  assumes "Schedule event p after period s = Some s'"
  obtains (ignored) "s' = s" "en_locked s \<or> event = NULL \<or> event = en_null_event s"
  | (scheduled) fr e d where "0 \<le> after" "p \<noteq> NULL" "en_frames s p = Some fr" "\<not> f_in_queue fr" "\<not> f_in_heap fr"
      "event_at s event = Some e" "domain_at s (ev_domain e) = Some d" "fd_cycle_time d \<noteq> 0"
      "s' = scheduled event p (schedule_time s d after) period s"
proof (cases "en_locked s \<or> event = NULL \<or> event = en_null_event s")
  case True
  then show ?thesis using assms ignored
    by (auto simp: Schedule_def bind_eq_Some_conv split: if_splits)
next
  case False
  then obtain fr e d where *: "0 \<le> after" "frame_at s p = Some fr" "\<not> f_in_queue fr" "\<not> f_in_heap fr"
      "event_at s event = Some e" "domain_at s (ev_domain e) = Some d" "fd_cycle_time d \<noteq> 0"
    using assms by (auto simp: Schedule_def bind_eq_Some_conv split: if_splits)
  then have "s' = scheduled event p (schedule_time s d after) period s"
    using assms False Schedule_runs [of after s p fr event e d period] by simp
  then show ?thesis using * scheduled by (simp add: frame_at_Some)
qed

lemma scheduled_simps [simp]:
  "en_heap (scheduled event p time period s) = en_heap s @ [p]"
  "en_next_frame (scheduled event p time period s) = en_next_frame s"
  "en_sequence (scheduled event p time period s) = en_sequence s + 1"
  "en_domains (scheduled event p time period s) = en_domains s"
  "en_time (scheduled event p time period s) = en_time s"
  "en_current (scheduled event p time period s) = en_current s"
  "en_shortest (scheduled event p time period s) = en_shortest s"
  "en_locked (scheduled event p time period s) = en_locked s"
  "en_null_event (scheduled event p time period s) = en_null_event s"
  "en_client (scheduled event p time period s) = en_client s"
  "en_end_frames (scheduled event p time period s) = en_end_frames s"
  "en_frames (scheduled event p time period s) = (en_frames s)(p \<mapsto> (the (en_frames s p))\<lparr>f_time := time, f_event := event,
     f_period := period, f_sequence := en_sequence s + 1, f_in_heap := True\<rparr>)"
  by (simp_all add: scheduled_def)

lemma domain_in_flight [simp]: "ev_domain (xs[i := (xs ! i)\<lparr>ev_in_flight := v\<rparr>] ! j) = ev_domain (xs ! j)"
  by (cases "i < length xs"; cases "i = j") (simp_all add: list_update_beyond)

lemma scheduled_valid: "valid_event (scheduled event p time period s) e \<longleftrightarrow> valid_event s e"
  by (simp add: valid_event_def event_at_Some domain_at_Some scheduled_def)

lemma scheduled_inv:
  assumes inv: "engine_inv s" and fr: "en_frames s p = Some fr" "\<not> f_in_queue fr" "\<not> f_in_heap fr"
    and event: "valid_event s event"
  shows "engine_inv (scheduled event p time period s)"
proof -
  let ?s = "scheduled event p time period s"
  let ?fr = "fr\<lparr>f_time := time, f_event := event, f_period := period, f_sequence := en_sequence s + 1, f_in_heap := True\<rparr>"
  have new: "p \<notin> set (en_heap s)" using inv fr by (auto simp: engine_inv_def heap_frame_def)
  have frames: "en_frames ?s = (en_frames s)(p \<mapsto> ?fr)" using fr by simp
  have hf: "heap_frame ?s q r \<longleftrightarrow> (if q = p then r = ?fr else heap_frame s q r)" for q r
    using frames by (auto simp: heap_frame_def)
  have heap: "q \<in> set (en_heap ?s) \<longleftrightarrow> (\<exists>r. heap_frame ?s q r)" for q
    using inv by (cases "q = p") (simp_all add: hf engine_inv_def)
  have ok: "\<not> f_in_queue r \<and> f_sequence r \<le> en_sequence s + 1 \<and> valid_event ?s (f_event r)" if "heap_frame ?s q r" for q r
  proof (cases "q = p")
    case True
    then show ?thesis using that fr event by (simp add: hf scheduled_valid)
  next
    case False
    then have "\<not> f_in_queue r \<and> f_sequence r \<le> en_sequence s \<and> valid_event s (f_event r)"
      using inv that unfolding hf engine_inv_def by simp
    then show ?thesis by (simp add: scheduled_valid)
  qed
  have old: "f_sequence (the (en_frames s q)) \<le> en_sequence s" if "q \<in> set (en_heap s)" for q
    using inv that by (fastforce simp: engine_inv_def heap_frame_def)
  have same: "en_frames ?s q = en_frames s q" if "q \<in> set (en_heap s)" for q using that new by auto
  have "inj_on (\<lambda>p. f_sequence (the (en_frames ?s p))) (set (en_heap s))"
    using inv by (simp add: engine_inv_def inj_on_def same del: scheduled_simps(12))
  then have inj: "inj_on (\<lambda>p. f_sequence (the (en_frames ?s p))) (set (en_heap ?s))"
    using old new by (fastforce simp: inj_on_def)
  have fl: "in_flight ?s e = in_flight s e + (if e = event then 1 else 0)" for e
  proof -
    have "filter (\<lambda>q. f_event (the (en_frames ?s q)) = e) (en_heap s) = filter (\<lambda>q. f_event (the (en_frames s q)) = e) (en_heap s)"
      by (rule filter_cong) (simp_all only: same)
    moreover have "f_event (the (en_frames ?s p)) = event" by simp
    ultimately show ?thesis unfolding in_flight_def by (simp del: scheduled_simps(12))
  qed
  have ev: "ev_in_flight ev = in_flight ?s e" if e: "event_at ?s e = Some ev" for e ev
  proof -
    have "e \<noteq> NULL" "e - 1 < length (en_events s)" using e by (simp_all add: event_at_Some scheduled_def)
    moreover have "event \<noteq> NULL" "event - 1 < length (en_events s)" using event by (auto simp: valid_event_def event_at_Some)
    moreover have "e - 1 = event - 1 \<longleftrightarrow> e = event" using calculation by arith
    ultimately have "ev_in_flight ev = ev_in_flight (en_events s ! (e - 1)) + (if e = event then 1 else 0)"
        "event_at s e = Some (en_events s ! (e - 1))"
      using e by (auto simp: event_at_Some scheduled_def nth_list_update)
    then show ?thesis using inv fl unfolding engine_inv_def by simp
  qed
  have b: "0 < q \<and> q < en_next_frame s" if "en_frames ?s q = Some r" for q r
    using inv that fr frames by (cases "q = p") (auto simp: engine_inv_def)
  show ?thesis unfolding engine_inv_def
  proof (intro conjI allI impI ballI)
    show "distinct (en_heap ?s)" "0 < en_next_frame ?s" "0 \<le> en_time ?s" using inv new by (simp_all add: engine_inv_def)
    show "0 < fd_cycle_time d" if "d \<in> set (en_domains ?s)" for d using inv that by (simp add: engine_inv_def)
    show "f_sequence r \<le> en_sequence ?s" if "heap_frame ?s q r" for q r using ok [OF that] by simp
    show "0 < q" "q < en_next_frame ?s" if "en_frames ?s q = Some r" for q r using b [OF that] by simp_all
  qed (use heap ok inj ev in blast)+
qed

lemma Schedule_inv:
  assumes inv: "engine_inv s" and run: "Schedule event p after period s = Some s'"
  shows "engine_inv s'"
  using run
proof (cases rule: Schedule_cases)
  case (scheduled fr e d)
  then show ?thesis using scheduled_inv [OF inv, of p fr event] by (auto simp: valid_event_def)
qed (use inv in simp)

section \<open>What a handler may do\<close>

text \<open>
  The steps of a handler: the scheduling functions, suspending and waking frames in any queue, the end
  of the simulation and changes of the client's own state.
\<close>

inductive engine_step :: "'c engine \<Rightarrow> 'c engine \<Rightarrow> bool" where
  next_step: "Next event after period s = Some s' \<Longrightarrow> engine_step s s'"
| call_step: "Call event frame return_event after period s = Some s' \<Longrightarrow> engine_step s s'"
| return_step: "Return after s = Some s' \<Longrightarrow> engine_step s s'"
| end_step: "EndEvent event s = Some s' \<Longrightarrow> engine_step s s'"
| wait_step: "Wait event priority q s = Some (q', s') \<Longrightarrow> engine_step s s'"
| wake_step: "WakeupOne q s = Some (q', s') \<Longrightarrow> engine_step s s'"
| finish_step: "engine_step s (s\<lparr>en_finish := True, en_finish_reason := reason\<rparr>)"
| client_step: "engine_step s (s\<lparr>en_client := c\<rparr>)"

lemma inv_cong:
  assumes "engine_inv s" "en_heap s' = en_heap s" "en_frames s' = en_frames s" "en_next_frame s' = en_next_frame s"
    "en_sequence s' = en_sequence s" "en_events s' = en_events s" "en_domains s' = en_domains s" "0 \<le> en_time s'"
  shows "engine_inv s'"
proof -
  have "heap_frame s' = heap_frame s" "in_flight s' = in_flight s" "event_at s' = event_at s" "domain_at s' = domain_at s"
    using assms by (simp_all add: fun_eq_iff heap_frame_def in_flight_def event_at_def domain_at_def)
  moreover have "valid_event s' = valid_event s" using calculation by (simp add: fun_eq_iff valid_event_def)
  ultimately show ?thesis using assms unfolding engine_inv_def by simp
qed

lemma upd_frame_keeps:
  assumes "engine_inv s" "upd_frame p g s = Some s'"
    and "\<And>fr. f_in_heap (g fr) = f_in_heap fr \<and> f_event (g fr) = f_event fr \<and>
      f_sequence (g fr) = f_sequence fr \<and> f_in_queue (g fr) = f_in_queue fr"
  shows "engine_inv s'"
  by (rule upd_frame_inv [OF assms(1,2)]) (simp_all add: assms(3))

lemma Next_inv: "engine_inv s \<Longrightarrow> Next event after period s = Some s' \<Longrightarrow> engine_inv s'"
  unfolding Next_def Let_def by (auto split: prod.splits if_splits intro: Schedule_inv alloc_frame_inv)

lemma Call_inv: "engine_inv s \<Longrightarrow> Call event frame return_event after period s = Some s' \<Longrightarrow> engine_inv s'"
proof -
  assume inv: "engine_inv s" and run: "Call event frame return_event after period s = Some s'"
  obtain p s1 where a: "(if frame = NULL then alloc_frame s else (frame, s)) = (p, s1)" by force
  have s1: "engine_inv s1" using a inv alloc_frame_inv(1) [OF inv] by (auto split: if_splits)
  obtain s2 where s2: "upd_frame p (\<lambda>fr. fr\<lparr>f_return_event := return_event, f_parent_frame := en_current s1\<rparr>) s1 = Some s2"
      and s': "Schedule event p after period s2 = Some s'"
    using run by (auto simp: Call_def a bind_eq_Some_conv)
  have "engine_inv s2" by (rule upd_frame_keeps [OF s1 s2]) simp
  then show ?thesis by (rule Schedule_inv [OF _ s'])
qed

lemma Return_inv: "engine_inv s \<Longrightarrow> Return after s = Some s' \<Longrightarrow> engine_inv s'"
  unfolding Return_def by (auto simp: bind_eq_Some_conv split: if_splits intro: Schedule_inv)

lemma EndEvent_inv: "engine_inv s \<Longrightarrow> EndEvent event s = Some s' \<Longrightarrow> engine_inv s'"
proof -
  assume inv: "engine_inv s" and run: "EndEvent event s = Some s'"
  obtain p s1 where a: "alloc_frame s = (p, s1)" by force
  consider "s' = s" | s2 where "upd_frame p (\<lambda>fr. fr\<lparr>f_event := event\<rparr>) s1 = Some s2"
      "s' = s2\<lparr>en_end_frames := en_end_frames s2 @ [p]\<rparr>"
    using run by (auto simp: EndEvent_def a bind_eq_Some_conv split: if_splits)
  then show ?thesis
  proof cases
    case 2
    have "engine_inv s2"
      by (rule upd_frame_inv [OF _ 2(1)]) (use alloc_frame_inv [OF inv a] in \<open>simp_all add: new_frame_def\<close>)
    then show ?thesis unfolding 2(2) using inv_cong [of s2 "s2\<lparr>en_end_frames := en_end_frames s2 @ [p]\<rparr>"]
      by (simp add: engine_inv_def [of s2])
  qed (use inv in simp)
qed

lemma mark_queued_inv:
  assumes "engine_inv s" "mark_queued p s = Some s'" "\<And>fr. en_frames s p = Some fr \<Longrightarrow> \<not> f_in_heap fr"
  shows "engine_inv s'"
proof -
  have "upd_frame p (\<lambda>fr. fr\<lparr>f_in_queue := True\<rparr>) s = Some s'"
    using assms(2) by (auto simp: mark_queued_def bind_eq_Some_conv)
  then show ?thesis by (rule upd_frame_inv [OF assms(1)]) (use assms(3) in auto)
qed

lemma Queue_PushBack_inv:
  assumes "engine_inv s" "Queue_PushBack p q s = Some (q', s')" "\<And>fr. en_frames s p = Some fr \<Longrightarrow> \<not> f_in_heap fr"
  shows "engine_inv s'"
proof -
  obtain s1 where s1: "mark_queued p s = Some s1"
      "s' = s1 \<or> upd_frame (q_tail q) (\<lambda>fr. fr\<lparr>f_next := p\<rparr>) s1 = Some s'"
    using assms(2) by (auto simp: Queue_PushBack_def bind_eq_Some_conv split: if_splits)
  have "engine_inv s1" by (rule mark_queued_inv [OF assms(1) s1(1) assms(3)])
  then show ?thesis using s1(2) by (auto elim: upd_frame_keeps)
qed

lemma Queue_PushFront_inv:
  assumes "engine_inv s" "Queue_PushFront p q s = Some (q', s')" "\<And>fr. en_frames s p = Some fr \<Longrightarrow> \<not> f_in_heap fr"
  shows "engine_inv s'"
proof -
  obtain s1 where s1: "mark_queued p s = Some s1"
      "s' = s1 \<or> upd_frame p (\<lambda>fr. fr\<lparr>f_next := q_head q\<rparr>) s1 = Some s'"
    using assms(2) by (auto simp: Queue_PushFront_def bind_eq_Some_conv split: if_splits)
  have "engine_inv s1" by (rule mark_queued_inv [OF assms(1) s1(1) assms(3)])
  then show ?thesis using s1(2) by (auto elim: upd_frame_keeps)
qed

lemma Wait_inv:
  assumes inv: "engine_inv s" and run: "Wait event priority q s = Some (q', s')"
  shows "engine_inv s'"
proof -
  let ?p = "en_current s"
  obtain fr s1 where fr: "en_frames s ?p = Some fr" "\<not> f_in_heap fr"
      and s1: "upd_frame ?p (\<lambda>fr. fr\<lparr>f_wakeup_event := event\<rparr>) s = Some s1"
      and push: "Queue_PushFront ?p q s1 = Some (q', s') \<or> Queue_PushBack ?p q s1 = Some (q', s')"
    using run by (auto simp: Wait_def bind_eq_Some_conv frame_at_Some upd_frame_eq split: if_splits)
  have inv1: "engine_inv s1" by (rule upd_frame_keeps [OF inv s1]) simp
  have "\<not> f_in_heap r" if "en_frames s1 ?p = Some r" for r
    using that s1 fr by (auto simp: upd_frame_eq frame_at_Some)
  then show ?thesis using push Queue_PushFront_inv [OF inv1] Queue_PushBack_inv [OF inv1] by blast
qed

lemma Queue_PopFront_inv:
  assumes "engine_inv s" "Queue_PopFront q s = Some (p, q', s')"
  shows "engine_inv s'"
proof -
  have "s' = s \<or> upd_frame (q_head q) (\<lambda>fr. fr\<lparr>f_next := NULL, f_in_queue := False\<rparr>) s = Some s'"
    using assms(2) by (auto simp: Queue_PopFront_def Let_def bind_eq_Some_conv split: if_splits)
  moreover have "engine_inv s'" if "upd_frame (q_head q) (\<lambda>fr. fr\<lparr>f_next := NULL, f_in_queue := False\<rparr>) s = Some s'"
    by (rule upd_frame_inv [OF assms(1) that]) simp_all
  ultimately show ?thesis using assms(1) by blast
qed

lemma WakeupOne_inv:
  assumes "engine_inv s" "WakeupOne q s = Some (q', s')"
  shows "engine_inv s'"
proof -
  obtain p s1 s2 event where s: "Queue_PopFront q s = Some (p, q', s1)"
      "upd_frame p (\<lambda>fr. fr\<lparr>f_wakeup_event := NULL\<rparr>) s1 = Some s2" "Schedule event p 0 0 s2 = Some s'"
    using assms(2) by (auto simp: WakeupOne_def Let_def bind_eq_Some_conv)
  have "engine_inv s1" by (rule Queue_PopFront_inv [OF assms(1) s(1)])
  then have "engine_inv s2" using s(2) by (rule upd_frame_keeps) simp
  then show ?thesis using s(3) by (rule Schedule_inv)
qed

lemma inv_time: "engine_inv s \<Longrightarrow> 0 \<le> en_time s"
  by (simp add: engine_inv_def)

lemma engine_step_inv: "engine_step s s' \<Longrightarrow> engine_inv s \<Longrightarrow> engine_inv s'"
proof (induction rule: engine_step.induct)
  case (finish_step s reason)
  show ?case by (rule inv_cong [OF finish_step]) (simp_all add: inv_time [OF finish_step])
next
  case (client_step s c)
  show ?case by (rule inv_cong [OF client_step]) (simp_all add: inv_time [OF client_step])
qed (auto intro: Next_inv Call_inv Return_inv EndEvent_inv Wait_inv WakeupOne_inv)

lemma engine_steps_inv: "engine_step\<^sup>*\<^sup>* s s' \<Longrightarrow> engine_inv s \<Longrightarrow> engine_inv s'"
  by (induction rule: rtranclp_induct) (auto intro: engine_step_inv)

section \<open>What a handler leaves alone\<close>

definition same_clock :: "'c engine \<Rightarrow> 'c engine \<Rightarrow> bool" where
  "same_clock s s' \<longleftrightarrow> en_time s' = en_time s \<and> en_current s' = en_current s \<and> en_domains s' = en_domains s \<and>
     en_shortest s' = en_shortest s \<and> en_locked s' = en_locked s \<and> en_null_event s' = en_null_event s \<and>
     map ev_domain (en_events s') = map ev_domain (en_events s)"

lemma same_clock_refl [simp]: "same_clock s s"
  by (simp add: same_clock_def)

lemma same_clock_trans: "same_clock s s' \<Longrightarrow> same_clock s' s'' \<Longrightarrow> same_clock s s''"
  by (simp add: same_clock_def)

lemma upd_frame_clock: "upd_frame p g s = Some s' \<Longrightarrow> same_clock s s'"
  by (auto simp: upd_frame_eq same_clock_def)

lemma alloc_frame_clock: "alloc_frame s = (p, s') \<Longrightarrow> same_clock s s'"
  by (auto simp: alloc_frame_def same_clock_def)

lemma scheduled_clock: "same_clock s (scheduled event p time period s)"
  by (simp add: same_clock_def scheduled_def list_eq_iff_nth_eq)

lemma Schedule_clock: "Schedule event p after period s = Some s' \<Longrightarrow> same_clock s s'"
  by (erule Schedule_cases) (simp_all add: scheduled_clock)

lemma Queue_PopFront_clock: "Queue_PopFront q s = Some (p, q', s') \<Longrightarrow> same_clock s s'"
  by (auto simp: Queue_PopFront_def Let_def bind_eq_Some_conv split: if_splits dest: upd_frame_clock)

lemma mark_queued_clock: "mark_queued p s = Some s' \<Longrightarrow> same_clock s s'"
  by (auto simp: mark_queued_def bind_eq_Some_conv dest: upd_frame_clock)

lemma Queue_Push_clock:
  "Queue_PushBack p q s = Some (q', s') \<Longrightarrow> same_clock s s'"
  "Queue_PushFront p q s = Some (q', s') \<Longrightarrow> same_clock s s'"
  by (auto simp: Queue_PushBack_def Queue_PushFront_def bind_eq_Some_conv split: if_splits
      dest!: upd_frame_clock mark_queued_clock intro: same_clock_trans)

lemma engine_step_clock: "engine_step s s' \<Longrightarrow> same_clock s s'"
proof (induction rule: engine_step.induct)
  case (next_step event after period s s')
  then show ?case unfolding Next_def Let_def
    by (auto split: prod.splits if_splits dest!: Schedule_clock alloc_frame_clock intro: same_clock_trans)
next
  case (call_step event frame return_event after period s s')
  then show ?case unfolding Call_def Let_def
    by (auto simp: bind_eq_Some_conv split: prod.splits if_splits dest!: Schedule_clock alloc_frame_clock upd_frame_clock
        intro: same_clock_trans)
next
  case (return_step after s s')
  then show ?case unfolding Return_def
    by (auto simp: bind_eq_Some_conv split: if_splits dest: Schedule_clock)
next
  case (end_step event s s')
  then show ?case unfolding EndEvent_def Let_def
    by (auto simp: bind_eq_Some_conv split: prod.splits if_splits dest!: alloc_frame_clock upd_frame_clock)
      (auto simp: same_clock_def)
next
  case (wait_step event priority q s q' s')
  then show ?case unfolding Wait_def
    by (auto simp: bind_eq_Some_conv split: if_splits dest!: Queue_Push_clock upd_frame_clock intro: same_clock_trans)
next
  case (wake_step q s q' s')
  then show ?case unfolding WakeupOne_def Let_def
    by (auto simp: bind_eq_Some_conv split: if_splits prod.splits dest!: Queue_PopFront_clock Schedule_clock upd_frame_clock
        intro: same_clock_trans)
qed (simp_all add: same_clock_def)

lemma engine_steps_clock: "engine_step\<^sup>*\<^sup>* s s' \<Longrightarrow> same_clock s s'"
  by (induction rule: rtranclp_induct) (auto intro: same_clock_trans engine_step_clock)

end
