(* ===== verification/SimEngineRun.thy ===== *)
theory SimEngineRun
  imports SimEngineProof
begin

text \<open>
  What the loops of the engine run, and in which order.
\<close>

section \<open>The first frame of the heap\<close>

lemma runs_after_trans: "\<not> runs_after p q \<Longrightarrow> \<not> runs_after q r \<Longrightarrow> \<not> runs_after p r"
  by (auto simp: runs_after_def)

lemma heap_top_first:
  "ps \<noteq> [] \<Longrightarrow> heap_top fs ps \<in> set ps \<and> (\<forall>q \<in> set ps. \<not> runs_after (the (fs (heap_top fs ps))) (the (fs q)))"
proof (induction ps rule: heap_top.induct)
  case (2 fs p)
  then show ?case by (simp add: runs_after_def)
next
  case (3 fs p q ps)
  let ?m = "heap_top fs (q # ps)"
  have m: "?m \<in> set (q # ps)" "\<And>x. x \<in> set (q # ps) \<Longrightarrow> \<not> runs_after (the (fs ?m)) (the (fs x))" using 3 by auto
  show ?case
  proof (cases "runs_after (the (fs p)) (the (fs ?m))")
    case True
    then have "\<not> runs_after (the (fs ?m)) (the (fs p))" by (auto simp: runs_after_def)
    then show ?thesis using True m by (auto simp: Let_def)
  next
    case False
    have "\<not> runs_after (the (fs p)) (the (fs x))" if "x \<in> set (q # ps)" for x
      using runs_after_trans [OF False m(2) [OF that]] .
    moreover have "\<not> runs_after (the (fs p)) (the (fs p))" by (simp add: runs_after_def)
    ultimately show ?thesis using False by (simp add: Let_def)
  qed
qed simp

text \<open>The frames that are due.\<close>

definition due :: "'c engine \<Rightarrow> ptr set" where
  "due s = {p \<in> set (en_heap s). f_time (the (en_frames s p)) \<le> en_time s}"

lemma finite_due [simp]: "finite (due s)"
  by (simp add: due_def)

lemma event_due_iff: "event_due s \<longleftrightarrow> due s \<noteq> {}"
proof (cases "en_heap s = []")
  case False
  note top = heap_top_first [OF False, of "en_frames s"]
  show ?thesis
  proof
    assume "event_due s"
    then show "due s \<noteq> {}" using top by (auto simp: event_due_def due_def)
  next
    assume "due s \<noteq> {}"
    then obtain q where "q \<in> set (en_heap s)" "f_time (the (en_frames s q)) \<le> en_time s" by (auto simp: due_def)
    then show "event_due s" using top False by (force simp: event_due_def runs_after_def)
  qed
qed (simp add: event_due_def due_def)

section \<open>Taking a frame\<close>

definition taken :: "'c engine \<Rightarrow> 'c engine" where
  "taken s = (let p = heap_top (en_frames s) (en_heap s); fr = the (en_frames s p); i = f_event fr - 1
     in s\<lparr>en_current := p, en_heap := remove1 p (en_heap s), en_frames := (en_frames s)(p \<mapsto> fr\<lparr>f_in_heap := False\<rparr>),
       en_events := (en_events s)[i := (en_events s ! i)\<lparr>ev_in_flight := ev_in_flight (en_events s ! i) - 1\<rparr>]\<rparr>)"

lemma taken_facts:
  assumes inv: "engine_inv s" and ne: "en_heap s \<noteq> []"
  obtains p fr where "p = heap_top (en_frames s) (en_heap s)" "p \<in> set (en_heap s)" "p \<noteq> NULL" "en_frames s p = Some fr"
    "f_in_heap fr" "\<not> f_in_queue fr" "valid_event s (f_event fr)"
proof -
  let ?p = "heap_top (en_frames s) (en_heap s)"
  have p: "?p \<in> set (en_heap s)" using heap_top_first [OF ne] by blast
  then obtain fr where fr: "heap_frame s ?p fr" using inv by (auto simp: engine_inv_def)
  have "?p \<noteq> NULL" "\<not> f_in_queue fr \<and> valid_event s (f_event fr)"
    using inv fr unfolding engine_inv_def heap_frame_def by (fastforce, blast)
  then show ?thesis using that p fr by (simp add: heap_frame_def)
qed

lemma taken_simps [simp]:
  "en_time (taken s) = en_time s" "en_domains (taken s) = en_domains s" "en_shortest (taken s) = en_shortest s"
  "en_locked (taken s) = en_locked s" "en_null_event (taken s) = en_null_event s" "en_client (taken s) = en_client s"
  "en_sequence (taken s) = en_sequence s" "en_next_frame (taken s) = en_next_frame s"
  "en_current (taken s) = heap_top (en_frames s) (en_heap s)"
  "en_heap (taken s) = remove1 (heap_top (en_frames s) (en_heap s)) (en_heap s)"
  "map ev_domain (en_events (taken s)) = map ev_domain (en_events s)"
  by (simp_all add: taken_def Let_def list_eq_iff_nth_eq)

lemma valid_event_domains:
  assumes "map ev_domain (en_events s') = map ev_domain (en_events s)" "en_domains s' = en_domains s"
  shows "valid_event s' e = valid_event s e"
proof -
  have "length (en_events s') = length (en_events s)" using assms(1) by (metis length_map)
  moreover have "ev_domain (en_events s' ! i) = ev_domain (en_events s ! i)" if "i < length (en_events s)" for i
    using assms(1) that calculation by (metis nth_map)
  ultimately show ?thesis using assms(2) by (auto simp: valid_event_def event_at_Some domain_at_Some)
qed

lemma taken_inv:
  assumes inv: "engine_inv s" and ne: "en_heap s \<noteq> []"
  shows "engine_inv (taken s)"
proof -
  obtain p fr where p: "p = heap_top (en_frames s) (en_heap s)" "p \<in> set (en_heap s)" "p \<noteq> NULL" "en_frames s p = Some fr"
      "f_in_heap fr" "\<not> f_in_queue fr" "valid_event s (f_event fr)"
    using taken_facts [OF assms] .
  let ?s = "taken s"
  have frames: "en_frames ?s = (en_frames s)(p \<mapsto> fr\<lparr>f_in_heap := False\<rparr>)" using p by (simp add: taken_def Let_def)
  have heap: "en_heap ?s = remove1 p (en_heap s)" using p(1) by simp
  have dist: "distinct (en_heap s)" using inv by (simp add: engine_inv_def)
  have hs: "set (en_heap ?s) = set (en_heap s) - {p}" using heap dist by simp
  have hf: "heap_frame ?s q r \<longleftrightarrow> q \<noteq> p \<and> heap_frame s q r" for q r using frames by (auto simp: heap_frame_def)
  have same: "en_frames ?s q = en_frames s q" if "q \<in> set (en_heap ?s)" for q using that hs frames by simp
  have inj: "inj_on (\<lambda>p. f_sequence (the (en_frames ?s p))) (set (en_heap ?s))"
  proof -
    have "inj_on (\<lambda>p. f_sequence (the (en_frames s p))) (set (en_heap ?s))"
      using inv hs by (auto simp: engine_inv_def intro: inj_on_subset)
    then show ?thesis using same by (simp add: inj_on_def)
  qed
  have fl: "in_flight s e = in_flight ?s e + (if e = f_event fr then 1 else 0)" for e
  proof -
    have "filter (\<lambda>q. f_event (the (en_frames ?s q)) = e) (en_heap ?s) = filter (\<lambda>q. f_event (the (en_frames s q)) = e) (remove1 p (en_heap s))"
      unfolding heap by (rule filter_cong) (use same heap in simp_all)
    also have "\<dots> = remove1 p (filter (\<lambda>q. f_event (the (en_frames s q)) = e) (en_heap s))" by (rule filter_remove1)
    finally have fl': "in_flight ?s e = int (length (remove1 p (filter (\<lambda>q. f_event (the (en_frames s q)) = e) (en_heap s))))"
      by (simp only: in_flight_def)
    have mem: "p \<in> set (filter (\<lambda>q. f_event (the (en_frames s q)) = e) (en_heap s)) \<longleftrightarrow> e = f_event fr" using p by auto
    have len: "length xs = length (remove1 p xs) + (if p \<in> set xs then 1 else 0)" for xs :: "ptr list"
      by (induction xs) auto
    show ?thesis unfolding fl' unfolding in_flight_def
      using len [of "filter (\<lambda>q. f_event (the (en_frames s q)) = e) (en_heap s)"] unfolding mem by (cases "e = f_event fr") simp_all
  qed
  have ve: "valid_event ?s e \<longleftrightarrow> valid_event s e" for e by (rule valid_event_domains) simp_all
  have ev: "ev_in_flight ev = in_flight ?s e" if e: "event_at ?s e = Some ev" for e ev
  proof -
    have events: "en_events ?s = (en_events s)[f_event fr - 1 := (en_events s ! (f_event fr - 1))
        \<lparr>ev_in_flight := ev_in_flight (en_events s ! (f_event fr - 1)) - 1\<rparr>]"
      using p by (simp add: taken_def Let_def)
    have "e \<noteq> NULL" "e - 1 < length (en_events s)" using e by (simp_all add: event_at_Some events)
    moreover have "f_event fr \<noteq> NULL" "f_event fr - 1 < length (en_events s)" using p(7) by (auto simp: valid_event_def event_at_Some)
    moreover have "e - 1 = f_event fr - 1 \<longleftrightarrow> e = f_event fr" using calculation by arith
    ultimately have "ev_in_flight ev = ev_in_flight (en_events s ! (e - 1)) - (if e = f_event fr then 1 else 0)"
        "event_at s e = Some (en_events s ! (e - 1))"
      using e by (auto simp: event_at_Some events nth_list_update)
    moreover have "ev_in_flight (en_events s ! (e - 1)) = in_flight s e"
      using inv calculation(2) unfolding engine_inv_def by blast
    ultimately show ?thesis using fl [of e] by simp
  qed
  have ok: "\<not> f_in_queue r \<and> f_sequence r \<le> en_sequence s \<and> valid_event s (f_event r)" if "heap_frame s q r" for q r
    using inv that unfolding engine_inv_def by blast
  have b: "0 < q \<and> q < en_next_frame s" if "en_frames ?s q = Some r" for q r
    using inv that p frames by (cases "q = p") (auto simp: engine_inv_def)
  show ?thesis unfolding engine_inv_def
  proof (intro conjI allI impI ballI)
    show "distinct (en_heap ?s)" using heap dist by simp
    show "0 < en_next_frame ?s" "0 \<le> en_time ?s" using inv by (simp_all add: engine_inv_def)
    show "0 < fd_cycle_time d" if "d \<in> set (en_domains ?s)" for d using inv that by (simp add: engine_inv_def)
    show "q \<in> set (en_heap ?s) \<longleftrightarrow> (\<exists>r. heap_frame ?s q r)" for q using inv hs hf by (auto simp: engine_inv_def)
    show "\<not> f_in_queue r" "f_sequence r \<le> en_sequence ?s" "valid_event ?s (f_event r)" if "heap_frame ?s q r" for q r
      using that ok [of q r] hf ve by simp_all
    show "0 < q" "q < en_next_frame ?s" if "en_frames ?s q = Some r" for q r using b [OF that] by simp_all
    show "ev_in_flight x = in_flight ?s e" if "event_at ?s e = Some x" for e x using ev [OF that] .
  qed (rule inj)
qed

lemma process_event_eq:
  assumes inv: "engine_inv s" and ne: "en_heap s \<noteq> []" and cur: "en_current s = NULL"
    and fr: "en_frames s (heap_top (en_frames s) (en_heap s)) = Some fr"
  shows "process_event h s = do {
     s \<leftarrow> h (f_event fr) (heap_top (en_frames s) (en_heap s)) (taken s);
     r \<leftarrow> frame_at s (en_current s);
     s \<leftarrow> (if f_period r > 0 then Schedule (f_event fr) (en_current s) (f_period r) (f_period r) s else Some s);
     Some (s\<lparr>en_current := NULL\<rparr>) }"
proof -
  obtain p where p: "p = heap_top (en_frames s) (en_heap s)" "p \<noteq> NULL" "f_in_heap fr" "valid_event s (f_event fr)"
    using taken_facts [OF inv ne] fr by (metis option.sel)
  obtain e d where e: "event_at s (f_event fr) = Some e" "domain_at s (ev_domain e) = Some d"
    using p(4) by (auto simp: valid_event_def)
  let ?s = "s\<lparr>en_current := p, en_heap := remove1 p (en_heap s), en_frames := (en_frames s)(p \<mapsto> fr\<lparr>f_in_heap := False\<rparr>)\<rparr>"
  have e2: "event_at ?s (f_event fr) = Some e" "domain_at ?s (ev_domain e) = Some d"
    using e by (simp_all add: event_at_Some domain_at_Some)
  have "heap_extract_frame s = Some ?s"
    using cur fr p e2 by (simp add: heap_extract_frame_def upd_frame_def frame_at_def Let_def)
  moreover have "upd_event (f_event fr) (\<lambda>e. e\<lparr>ev_in_flight := ev_in_flight e - 1\<rparr>) ?s = Some (taken s)"
  proof -
    have "e = en_events s ! (f_event fr - 1)" using e(1) by (simp add: event_at_Some)
    then show ?thesis using fr e2(1) by (simp add: upd_event_def taken_def Let_def p(1) [symmetric])
  qed
  moreover have "frame_at ?s p = Some (fr\<lparr>f_in_heap := False\<rparr>)" using p(2) by (simp add: frame_at_def)
  ultimately show ?thesis using p(1) by (simp add: process_event_def Let_def cong: if_cong)
qed

section \<open>Handlers\<close>

text \<open>
  A handler is made of the steps of the engine. A prompt one also returns, does not schedule
  anything for the current time, and leaves a periodic frame to the engine.
\<close>

definition handler_ok :: "'c handler \<Rightarrow> bool" where
  "handler_ok h \<longleftrightarrow> (\<forall>event p s s'. h event p s = Some s' \<longrightarrow> engine_step\<^sup>*\<^sup>* s s')"

definition handler_prompt :: "'c handler \<Rightarrow> bool" where
  "handler_prompt h \<longleftrightarrow> (\<forall>event p s fr. engine_inv s \<and> en_current s = p \<and> en_frames s p = Some fr \<and> \<not> f_in_heap fr \<and> \<not> f_in_queue fr \<longrightarrow>
     (\<exists>s' fr'. h event p s = Some s' \<and> due s' \<subseteq> due s \<and> en_frames s' p = Some fr' \<and>
       (0 < f_period fr' \<longrightarrow> \<not> f_in_heap fr' \<and> \<not> f_in_queue fr')))"

definition client_handler :: "(ptr \<Rightarrow> ptr \<Rightarrow> 'c \<Rightarrow> 'c) \<Rightarrow> 'c handler" where
  "client_handler g event p s = Some (s\<lparr>en_client := g event p (en_client s)\<rparr>)"

lemma client_handler_ok: "handler_ok (client_handler g)"
  by (auto simp: handler_ok_def client_handler_def intro: engine_step.client_step)

lemma client_handler_prompt: "handler_prompt (client_handler g)"
  by (auto simp: handler_prompt_def client_handler_def due_def)

lemma idle_inv: "engine_inv s \<Longrightarrow> engine_inv (s\<lparr>en_current := p\<rparr>)"
  by (rule inv_cong) (simp_all add: engine_inv_def)

lemma idle_due [simp]: "due (s\<lparr>en_current := p\<rparr>) = due s"
  by (simp add: due_def)

text \<open>The times at which \<^verbatim>\<open>Schedule\<close> puts events.\<close>

lemma schedule_time_bounds:
  assumes "0 < fd_cycle_time d" "0 \<le> en_time s" "0 \<le> after"
  shows "en_time s + fd_cycle_time d * (after - 1) < schedule_time s d after"
    and "schedule_time s d after \<le> en_time s + fd_cycle_time d * after"
proof -
  let ?t = "en_time s" and ?c = "fd_cycle_time d"
  have "?t sdiv ?c = ?t div ?c" using assms by (simp add: signed_divide_int_def sgn_if)
  moreover have "?t - ?c < ?t div ?c * ?c" "?t div ?c * ?c \<le> ?t"
    using assms pos_mod_bound [of ?c ?t] pos_mod_sign [of ?c ?t] div_mult_mod_eq [of ?t ?c] by linarith+
  ultimately show "?t + ?c * (after - 1) < schedule_time s d after" "schedule_time s d after \<le> ?t + ?c * after"
    by (simp_all add: schedule_time_def algebra_simps)
qed

lemma scheduled_due:
  assumes "engine_inv s" "en_frames s p = Some fr" "\<not> f_in_heap fr" "en_time s < time"
  shows "due (scheduled event p time period s) = due s"
proof -
  have "p \<notin> set (en_heap s)" using assms(1-3) by (auto simp: engine_inv_def heap_frame_def)
  then show ?thesis using assms(4) by (auto simp: due_def)
qed

section \<open>Processing the events of a cycle\<close>

text \<open>One event that is due, for any handler and for a prompt one.\<close>

lemma process_event_keeps:
  assumes inv: "engine_inv s" and ne: "en_heap s \<noteq> []" and cur: "en_current s = NULL" and h: "handler_ok h"
    and run: "process_event h s = Some s'"
  shows "engine_inv s' \<and> en_current s' = NULL \<and> en_time s' = en_time s \<and> en_shortest s' = en_shortest s"
proof -
  let ?p = "heap_top (en_frames s) (en_heap s)"
  obtain fr where fr: "en_frames s ?p = Some fr" using taken_facts [OF inv ne] by metis
  obtain s1 s2 and r :: Frame where s1: "h (f_event fr) ?p (taken s) = Some s1"
      and s2: "(if f_period r > 0 then Schedule (f_event fr) (en_current s1) (f_period r) (f_period r) s1 else Some s1) = Some s2"
      and s': "s2\<lparr>en_current := NULL\<rparr> = s'"
    using run unfolding process_event_eq [OF inv ne cur fr] bind_eq_Some_conv
      option.inject by (elim exE conjE) blast
  have steps: "engine_step\<^sup>*\<^sup>* (taken s) s1" using h s1 unfolding handler_ok_def by blast
  have inv1: "engine_inv s1" and c1: "same_clock (taken s) s1"
    using engine_steps_inv [OF steps taken_inv [OF inv ne]] engine_steps_clock [OF steps] by simp_all
  have "engine_inv s2" "same_clock s1 s2"
    using s2 Schedule_inv [OF inv1] Schedule_clock inv1 by (auto split: if_splits)
  then show ?thesis using c1 idle_inv by (simp add: s' [symmetric] same_clock_def)
qed

lemma process_event_prompt:
  assumes inv: "engine_inv s" and ne: "en_heap s \<noteq> []" and cur: "en_current s = NULL" and h: "handler_ok h" "handler_prompt h"
  shows "\<exists>s1 s'. h (f_event (the (en_frames s (heap_top (en_frames s) (en_heap s))))) (heap_top (en_frames s) (en_heap s)) (taken s) = Some s1 \<and>
    process_event h s = Some s' \<and> due s' \<subseteq> due (taken s) \<and> due s' = due s1 \<and> en_client s' = en_client s1 \<and>
    (\<forall>q \<in> due s'. en_frames s' q = en_frames s1 q)"
proof -
  let ?p = "heap_top (en_frames s) (en_heap s)"
  obtain fr where fr: "?p \<noteq> NULL" "en_frames s ?p = Some fr" "f_in_heap fr" "\<not> f_in_queue fr" "valid_event s (f_event fr)"
    using taken_facts [OF inv ne] by metis
  have pre: "engine_inv (taken s) \<and> en_current (taken s) = ?p \<and> en_frames (taken s) ?p = Some (fr\<lparr>f_in_heap := False\<rparr>) \<and>
      \<not> f_in_heap (fr\<lparr>f_in_heap := False\<rparr>) \<and> \<not> f_in_queue (fr\<lparr>f_in_heap := False\<rparr>)"
    using fr taken_inv [OF inv ne] by (simp add: taken_def Let_def)
  obtain s1 r where s1: "h (f_event fr) ?p (taken s) = Some s1" "due s1 \<subseteq> due (taken s)" "en_frames s1 ?p = Some r"
      and r: "0 < f_period r \<Longrightarrow> \<not> f_in_heap r \<and> \<not> f_in_queue r"
    using h(2) [unfolded handler_prompt_def, rule_format, OF pre, where event = "f_event fr"] by blast
  have steps: "engine_step\<^sup>*\<^sup>* (taken s) s1" using h(1) s1(1) unfolding handler_ok_def by blast
  have inv1: "engine_inv s1" and c1: "same_clock (taken s) s1"
    using engine_steps_inv [OF steps taken_inv [OF inv ne]] engine_steps_clock [OF steps] by simp_all
  have cur1: "en_current s1 = ?p" using c1 by (simp add: same_clock_def)
  have fr1: "frame_at s1 ?p = Some r" using s1(3) fr(1) by (simp add: frame_at_def)
  have pe: "process_event h s = do {
      s2 \<leftarrow> (if f_period r > 0 then Schedule (f_event fr) ?p (f_period r) (f_period r) s1 else Some s1);
      Some (s2\<lparr>en_current := NULL\<rparr>) }"
    by (simp add: process_event_eq [OF inv ne cur fr(2)] s1(1) cur1 fr1)
  consider "Schedule (f_event fr) ?p (f_period r) (f_period r) s1 = Some s1 \<or> \<not> f_period r > 0"
    | s2 where "f_period r > 0" "Schedule (f_event fr) ?p (f_period r) (f_period r) s1 = Some s2" "due s2 = due s1"
      "en_client s2 = en_client s1" "\<forall>q \<in> due s1. en_frames s2 q = en_frames s1 q"
  proof (cases "f_period r > 0 \<and> \<not> en_locked s1 \<and> f_event fr \<noteq> en_null_event s1")
    case True
    then have r': "\<not> f_in_heap r" "\<not> f_in_queue r" using r by simp_all
    have "valid_event s1 (f_event fr)"
      using fr(5) valid_event_domains [of s1 s] c1 by (simp add: same_clock_def)
    then obtain e d where ed: "event_at s1 (f_event fr) = Some e" "domain_at s1 (ev_domain e) = Some d"
      by (auto simp: valid_event_def)
    have ct: "0 < fd_cycle_time d" using inv1 ed(2) by (auto simp: engine_inv_def domain_at_Some)
    let ?t = "schedule_time s1 d (f_period r)"
    have "Schedule (f_event fr) ?p (f_period r) (f_period r) s1 = Some (scheduled (f_event fr) ?p ?t (f_period r) s1)"
      using True r' ct ed fr1 by (intro Schedule_runs) (auto simp: event_at_Some)
    moreover have "en_time s1 < ?t"
    proof -
      have "0 \<le> fd_cycle_time d * (f_period r - 1)" using ct True by simp
      then show ?thesis using schedule_time_bounds(1) [OF ct inv_time [OF inv1], of "f_period r"] True by linarith
    qed
    then have "due (scheduled (f_event fr) ?p ?t (f_period r) s1) = due s1"
      by (rule scheduled_due [OF inv1 s1(3) r'(1)])
    moreover have "?p \<notin> due s1" using inv1 s1(3) r'(1) by (auto simp: due_def engine_inv_def heap_frame_def)
    ultimately show ?thesis using that(2) True by simp
  next
    case False
    have "Schedule (f_event fr) ?p (f_period r) (f_period r) s1 = Some s1" if "f_period r > 0"
      using False r [OF that] fr1 fr(1) that by (auto simp: Schedule_def)
    then show ?thesis using that(1) by blast
  qed
  then show ?thesis
  proof cases
    case 1
    then have "process_event h s = Some (s1\<lparr>en_current := NULL\<rparr>)" by (auto simp: pe)
    then show ?thesis using s1 fr(2) by simp
  next
    case (2 s2)
    then have "process_event h s = Some (s2\<lparr>en_current := NULL\<rparr>)" by (simp add: pe)
    then show ?thesis using s1 fr(2) 2 by simp
  qed
qed

lemma process_loop_keeps:
  "process_loop h s = Some s' \<Longrightarrow> handler_ok h \<and> engine_inv s \<and> en_current s = NULL \<longrightarrow>
    engine_inv s' \<and> en_current s' = NULL \<and> en_time s' = en_time s \<and> en_shortest s' = en_shortest s \<and> due s' = {}"
proof (erule process_loop.raw_induct [where P = "\<lambda>h s s'. handler_ok h \<and> engine_inv s \<and> en_current s = NULL \<longrightarrow>
    engine_inv s' \<and> en_current s' = NULL \<and> en_time s' = en_time s \<and> en_shortest s' = en_shortest s \<and> due s' = {}", rotated],
    intro impI)
  fix f and h :: "'a handler" and s s'
  assume IH: "\<And>h s s'. f h s = Some s' \<Longrightarrow> handler_ok h \<and> engine_inv s \<and> en_current s = NULL \<longrightarrow>
      engine_inv s' \<and> en_current s' = NULL \<and> en_time s' = en_time s \<and> en_shortest s' = en_shortest s \<and> due s' = {}"
    and run: "(if event_due s then process_event h s \<bind> f h else Some s) = Some s'"
    and ok: "handler_ok h \<and> engine_inv s \<and> en_current s = NULL"
  show "engine_inv s' \<and> en_current s' = NULL \<and> en_time s' = en_time s \<and> en_shortest s' = en_shortest s \<and> due s' = {}"
  proof (cases "event_due s")
    case True
    then have ne: "en_heap s \<noteq> []" by (simp add: event_due_def)
    obtain s1 where s1: "process_event h s = Some s1" "f h s1 = Some s'"
      using run True by (auto simp: bind_eq_Some_conv)
    show ?thesis using IH [OF s1(2)] process_event_keeps [OF _ ne _ _ s1(1)] ok by simp
  next
    case False
    then show ?thesis using run ok by (simp add: event_due_iff)
  qed
qed

lemma due_taken:
  assumes "engine_inv s" "due s \<noteq> {}"
  shows "due (taken s) = due s - {heap_top (en_frames s) (en_heap s)}"
    and "heap_top (en_frames s) (en_heap s) \<in> due s" and "en_heap s \<noteq> []"
proof -
  show ne: "en_heap s \<noteq> []" using assms(2) by (auto simp: due_def)
  have ev: "event_due s" using assms(2) event_due_iff by blast
  have "distinct (en_heap s)" using assms(1) by (simp add: engine_inv_def)
  then show "due (taken s) = due s - {heap_top (en_frames s) (en_heap s)}"
    by (auto simp: due_def taken_def Let_def)
  show "heap_top (en_frames s) (en_heap s) \<in> due s"
    using ev heap_top_first [OF ne] by (auto simp: due_def event_due_def)
qed

lemma process_loop_returns:
  assumes h: "handler_ok h" "handler_prompt h"
  shows "engine_inv s \<Longrightarrow> en_current s = NULL \<Longrightarrow> \<exists>s'. process_loop h s = Some s'"
proof (induction "card (due s)" arbitrary: s rule: less_induct)
  case less
  show ?case
  proof (cases "due s = {}")
    case True
    then show ?thesis by (subst process_loop.simps) (simp add: event_due_iff)
  next
    case False
    note ne = due_taken [OF less.prems(1) False]
    obtain s' where s': "process_event h s = Some s'" "due s' \<subseteq> due (taken s)"
      using process_event_prompt [OF less.prems(1) ne(3) less.prems(2) h] by blast
    then have "due s' \<subset> due s" using ne by auto
    then have "card (due s') < card (due s)" by (intro psubset_card_mono) simp_all
    then obtain t where "process_loop h s' = Some t"
      using less.hyps [of s'] process_event_keeps [OF less.prems(1) ne(3) less.prems(2) h(1) s'(1)] by auto
    then show ?thesis using s'(1) False by (subst process_loop.simps) (simp add: event_due_iff)
  qed
qed

lemma process_loop_order:
  "engine_inv s \<Longrightarrow> en_current s = NULL \<Longrightarrow> \<exists>s' ps. process_loop (client_handler g) s = Some s' \<and> distinct ps \<and> set ps = due s \<and>
    sorted_wrt (\<lambda>p q. \<not> runs_after (the (en_frames s p)) (the (en_frames s q))) ps \<and>
    en_client s' = fold (\<lambda>p. g (f_event (the (en_frames s p))) p) ps (en_client s)"
proof (induction "card (due s)" arbitrary: s rule: less_induct)
  case less
  show ?case
  proof (cases "due s = {}")
    case True
    then show ?thesis by (intro exI [of _ s] exI [of _ "[]"], subst process_loop.simps) (simp add: event_due_iff)
  next
    case False
    note ne = due_taken [OF less.prems(1) False]
    let ?p = "heap_top (en_frames s) (en_heap s)"
    obtain s1 s2 where s: "client_handler g (f_event (the (en_frames s ?p))) ?p (taken s) = Some s1"
        "process_event (client_handler g) s = Some s2" "due s2 = due s1" "en_client s2 = en_client s1"
        "\<forall>q \<in> due s2. en_frames s2 q = en_frames s1 q"
      using process_event_prompt [OF less.prems(1) ne(3) less.prems(2) client_handler_ok client_handler_prompt] by blast
    have s1: "s1 = taken s\<lparr>en_client := g (f_event (the (en_frames s ?p))) ?p (en_client s)\<rparr>"
      using s(1) by (simp add: client_handler_def)
    then have due2: "due s2 = due s - {?p}" using s(3) ne(1) by (simp add: due_def)
    have same: "en_frames s2 q = en_frames s q" if "q \<in> due s2" for q
      using s(5) that due2 by (simp add: s1) (simp add: taken_def Let_def)
    have "card (due s2) < card (due s)" using due2 ne(2) by (intro psubset_card_mono) auto
    then obtain s' ps where ps: "process_loop (client_handler g) s2 = Some s'" "distinct ps" "set ps = due s2"
        "sorted_wrt (\<lambda>p q. \<not> runs_after (the (en_frames s2 p)) (the (en_frames s2 q))) ps"
        "en_client s' = fold (\<lambda>p. g (f_event (the (en_frames s2 p))) p) ps (en_client s2)"
      using less.hyps [of s2] process_event_keeps [OF less.prems(1) ne(3) less.prems(2) client_handler_ok s(2)] by auto
    have "process_loop (client_handler g) s = Some s'"
      using s(2) ps(1) False by (subst process_loop.simps) (simp add: event_due_iff)
    moreover have "sorted_wrt (\<lambda>p q. \<not> runs_after (the (en_frames s p)) (the (en_frames s q))) ps"
      by (rule sorted_wrt_mono_rel [OF _ ps(4)]) (use ps(3) same in simp)
    moreover have "\<forall>q \<in> set ps. \<not> runs_after (the (en_frames s ?p)) (the (en_frames s q))"
      using heap_top_first [OF ne(3), of "en_frames s"] ps(3) due2 by (auto simp: due_def)
    moreover have "en_client s2 = g (f_event (the (en_frames s ?p))) ?p (en_client s)" using s(4) by (simp add: s1)
    moreover have "fold (\<lambda>p. g (f_event (the (en_frames s2 p))) p) ps c = fold (\<lambda>p. g (f_event (the (en_frames s p))) p) ps c" for c
      by (rule fold_cong) (use ps(3) same in simp_all)
    ultimately show ?thesis using ps(2,3,5) due2 ne(2)
      by (intro exI [of _ s'] exI [of _ "?p # ps"]) auto
  qed
qed

section \<open>Draining the heap\<close>

definition heap_ok :: "'c engine \<Rightarrow> bool" where
  "heap_ok s \<longleftrightarrow> distinct (en_heap s) \<and> (\<forall>p \<in> set (en_heap s). \<exists>fr. frame_at s p = Some fr \<and> f_in_heap fr \<and> valid_event s (f_event fr))"

lemma engine_inv_heap_ok: "engine_inv s \<Longrightarrow> heap_ok s"
  unfolding heap_ok_def engine_inv_def heap_frame_def frame_at_Some by blast

lemma drain_event_run:
  assumes ok: "heap_ok s" and ne: "en_heap s \<noteq> []" and cur: "en_current s = NULL"
  shows "\<exists>s'. drain_event (client_handler g) s = Some s' \<and> heap_ok s' \<and> en_current s' = NULL \<and> en_events s' = en_events s \<and>
    length (en_heap s) = Suc (length (en_heap s'))"
proof -
  let ?p = "heap_top (en_frames s) (en_heap s)"
  have p: "?p \<in> set (en_heap s)" using heap_top_first [OF ne] by blast
  obtain fr e d where fr: "?p \<noteq> NULL" "en_frames s ?p = Some fr" "f_in_heap fr"
      and e: "event_at s (f_event fr) = Some e" "domain_at s (ev_domain e) = Some d"
    using ok p by (auto simp: heap_ok_def frame_at_Some valid_event_def)
  let ?s = "s\<lparr>en_current := ?p, en_heap := remove1 ?p (en_heap s), en_frames := (en_frames s)(?p \<mapsto> fr\<lparr>f_in_heap := False\<rparr>)\<rparr>"
  have e2: "event_at ?s (f_event fr) = Some e" "domain_at ?s (ev_domain e) = Some d"
    using e by (simp_all add: event_at_Some domain_at_Some)
  have x: "heap_extract_frame s = Some ?s"
    using cur fr e2 by (simp add: heap_extract_frame_def upd_frame_def frame_at_def Let_def)
  have at: "frame_at ?s ?p = Some (fr\<lparr>f_in_heap := False\<rparr>)" using fr(1) by (simp add: frame_at_def)
  let ?t = "?s\<lparr>en_time := f_time fr, en_client := g (f_event fr) ?p (en_client s), en_current := NULL\<rparr>"
  have run: "drain_event (client_handler g) s = Some ?t"
    using x at by (simp add: drain_event_def client_handler_def)
  have dist: "distinct (en_heap s)" using ok by (simp add: heap_ok_def)
  have "\<exists>fr. frame_at ?t q = Some fr \<and> f_in_heap fr \<and> valid_event ?t (f_event fr)" if "q \<in> set (en_heap ?t)" for q
  proof -
    have "q \<noteq> ?p" "q \<in> set (en_heap s)" using that dist by simp_all
    then obtain r where "frame_at s q = Some r" "f_in_heap r" "valid_event s (f_event r)" using ok by (auto simp: heap_ok_def)
    moreover have "valid_event ?t = valid_event s"
      by (simp add: fun_eq_iff valid_event_def event_at_def domain_at_def)
    ultimately show ?thesis using \<open>q \<noteq> ?p\<close> by (auto simp: frame_at_Some)
  qed
  moreover have "length (en_heap s) = Suc (length (en_heap ?t))"
    using p by (simp add: length_remove1 Suc_pred [OF length_pos_if_in_set])
  ultimately show ?thesis using run dist by (intro exI [of _ ?t]) (simp add: heap_ok_def)
qed

lemma drain_loop_run:
  "heap_ok s \<Longrightarrow> en_current s = NULL \<Longrightarrow> n + int (length (en_heap s)) < m \<Longrightarrow>
   \<exists>s'. drain_loop (client_handler g) m n s = Some (False, s') \<and> en_heap s' = [] \<and> en_events s' = en_events s"
proof (induction "length (en_heap s)" arbitrary: s n)
  case 0
  then show ?case by (subst drain_loop.simps) simp
next
  case (Suc k)
  then have ne: "en_heap s \<noteq> []" by auto
  obtain s1 where s1: "drain_event (client_handler g) s = Some s1" "heap_ok s1" "en_current s1 = NULL"
      "en_events s1 = en_events s" "length (en_heap s) = Suc (length (en_heap s1))"
    using drain_event_run [OF Suc.prems(1) ne Suc.prems(2)] by blast
  have "n + 1 + int (length (en_heap s1)) < m" using Suc.prems(3) s1(5) by simp
  then obtain s' where "drain_loop (client_handler g) m (n + 1) s1 = Some (False, s')" "en_heap s' = []" "en_events s' = en_events s"
    using Suc.hyps(1) [of s1 "n + 1"] Suc.hyps(2) s1 by auto
  moreover have "n + 1 \<noteq> m" using Suc.prems(3) s1(5) by simp
  ultimately show ?case using ne s1(1) by (subst drain_loop.simps) simp
qed

section \<open>Queues\<close>

text \<open>The frames of a queue, linked from its head to its tail.\<close>

fun linked :: "(ptr \<Rightarrow> Frame option) \<Rightarrow> ptr list \<Rightarrow> bool" where
  "linked fs [] \<longleftrightarrow> True"
| "linked fs (p # ps) \<longleftrightarrow> p \<noteq> NULL \<and> (\<exists>fr. fs p = Some fr \<and> f_in_queue fr \<and> f_wakeup_event fr \<noteq> NULL \<and> \<not> f_in_heap fr \<and>
     f_next fr = (case ps of [] \<Rightarrow> NULL | q # _ \<Rightarrow> q)) \<and> linked fs ps"

definition is_queue :: "wait_queue \<Rightarrow> 'c engine \<Rightarrow> ptr list \<Rightarrow> bool" where
  "is_queue q s ps \<longleftrightarrow> distinct ps \<and> linked (en_frames s) ps \<and>
     q_head q = (case ps of [] \<Rightarrow> NULL | p # _ \<Rightarrow> p) \<and> q_tail q = (if ps = [] then NULL else last ps)"

lemma linked_upd [simp]: "p \<notin> set ps \<Longrightarrow> linked (fs(p := v)) ps \<longleftrightarrow> linked fs ps"
  by (induction ps) auto

lemma linked_mem: "linked fs ps \<Longrightarrow> p \<in> set ps \<Longrightarrow> p \<noteq> NULL \<and> (\<exists>fr. fs p = Some fr \<and> f_in_queue fr)"
  by (induction ps) auto

lemma linked_last: "linked fs ps \<Longrightarrow> ps \<noteq> [] \<Longrightarrow> \<exists>fr. fs (last ps) = Some fr \<and> f_next fr = NULL"
  by (induction ps) (auto split: list.splits)

lemma linked_snoc:
  assumes "linked fs ps" "distinct ps" "ps \<noteq> []" "p \<notin> set ps" "p \<noteq> NULL" "fs (last ps) = Some t"
    and "fs p = Some fr" "f_in_queue fr" "f_wakeup_event fr \<noteq> NULL" "\<not> f_in_heap fr" "f_next fr = NULL"
  shows "linked (fs(last ps \<mapsto> t\<lparr>f_next := p\<rparr>)) (ps @ [p])"
  using assms
proof (induction ps)
  case (Cons x xs)
  show ?case
  proof (cases "xs = []")
    case False
    then have "x \<noteq> last xs" using Cons.prems(2) by auto
    then show ?thesis using Cons False by (auto split: list.splits)
  qed (use Cons.prems in auto)
qed simp

text \<open>Suspending the current frame appends it, or puts it first with priority.\<close>

lemma Wait_run:
  assumes q: "is_queue q s ps" and p: "en_current s \<noteq> NULL" "en_frames s (en_current s) = Some fr"
    and fr: "\<not> f_in_heap fr" "\<not> f_in_queue fr" "f_next fr = NULL" "f_wakeup_event fr = NULL" and event: "event \<noteq> NULL"
  shows "\<exists>q' s'. Wait event priority q s = Some (q', s') \<and> en_heap s' = en_heap s \<and>
    is_queue q' s' (if priority then en_current s # ps else ps @ [en_current s]) \<and>
    (\<forall>r. r \<notin> set ps \<union> {en_current s} \<longrightarrow> en_frames s' r = en_frames s r) \<and>
    (\<forall>r \<in> set ps. f_wakeup_event (the (en_frames s' r)) = f_wakeup_event (the (en_frames s r))) \<and>
    f_wakeup_event (the (en_frames s' (en_current s))) = event"
proof -
  let ?p = "en_current s"
  let ?f = "fr\<lparr>f_wakeup_event := event, f_in_queue := True\<rparr>"
  let ?s = "s\<lparr>en_frames := (en_frames s)(?p \<mapsto> ?f)\<rparr>"
  have link: "linked (en_frames s) ps" "distinct ps" using q by (simp_all add: is_queue_def)
  have new: "?p \<notin> set ps" using linked_mem [OF link(1), of ?p] p fr by auto
  have link2: "linked (en_frames ?s) ps" using link(1) new by simp
  have mark: "mark_queued ?p (s\<lparr>en_frames := (en_frames s)(?p \<mapsto> fr\<lparr>f_wakeup_event := event\<rparr>)\<rparr>) = Some ?s"
    using p fr by (simp add: mark_queued_def upd_frame_def frame_at_def)
  have run: "Wait event priority q s = (if priority then Queue_PushFront ?p q (s\<lparr>en_frames := (en_frames s)(?p \<mapsto> fr\<lparr>f_wakeup_event := event\<rparr>)\<rparr>)
      else Queue_PushBack ?p q (s\<lparr>en_frames := (en_frames s)(?p \<mapsto> fr\<lparr>f_wakeup_event := event\<rparr>)\<rparr>))"
    using p fr event by (simp add: Wait_def upd_frame_def frame_at_def)
  show ?thesis
  proof (cases ps)
    case Nil
    then have "Wait event priority q s = Some (\<lparr>q_head = ?p, q_tail = ?p\<rparr>, ?s)"
      using q by (simp add: run mark Queue_PushFront_def Queue_PushBack_def is_queue_def)
    then show ?thesis using Nil p fr event by (simp add: is_queue_def)
  next
    case (Cons x xs)
    obtain t where t: "en_frames ?s (last ps) = Some t" "f_next t = NULL" using linked_last [OF link2] Cons by auto
    have ends: "q_head q = x" "q_tail q = last ps" "x \<noteq> NULL" "last ps \<noteq> NULL"
      using q Cons linked_mem [OF link(1), of "last ps"] linked_mem [OF link(1), of x] by (auto simp: is_queue_def)
    have tail: "frame_at ?s (last ps) = Some t" using t(1) ends(4) by (simp add: frame_at_def)
    show ?thesis
    proof (cases priority)
      case True
      let ?t = "?s\<lparr>en_frames := (en_frames ?s)(?p \<mapsto> ?f\<lparr>f_next := x\<rparr>)\<rparr>"
      have "Wait event priority q s = Some (q\<lparr>q_head := ?p\<rparr>, ?t)"
        unfolding run using True ends tail t(2) p(1)
        by (simp add: mark Queue_PushFront_def upd_frame_def) (simp add: frame_at_def)
      moreover have "linked (en_frames ?t) ps" using link2 new by simp
      then have "is_queue (q\<lparr>q_head := ?p\<rparr>) ?t (?p # ps)"
        using Cons p fr event new link(2) ends(2) by (simp add: is_queue_def)
      ultimately show ?thesis using True new by (intro exI [of _ "q\<lparr>q_head := ?p\<rparr>"] exI [of _ ?t]) auto
    next
      case False
      let ?t = "?s\<lparr>en_frames := (en_frames ?s)(last ps \<mapsto> t\<lparr>f_next := ?p\<rparr>)\<rparr>"
      have neq: "last ps \<noteq> ?p" using new Cons by (metis last_in_set list.distinct(1))
      have "Wait event priority q s = Some (q\<lparr>q_tail := ?p\<rparr>, ?t)"
        unfolding run using False ends tail t(2) by (simp add: mark Queue_PushBack_def upd_frame_def)
      moreover have "linked ((en_frames ?s)(last ps \<mapsto> t\<lparr>f_next := ?p\<rparr>)) (ps @ [?p])"
        by (rule linked_snoc [OF link2 link(2) _ new p(1) t(1), where fr = ?f]) (use Cons fr event in simp_all)
      then have "linked (en_frames ?t) (ps @ [?p])" by simp
      then have "is_queue (q\<lparr>q_tail := ?p\<rparr>) ?t (ps @ [?p])"
        using Cons new link(2) ends(1) by (simp add: is_queue_def)
      ultimately show ?thesis using False neq new t(1) Cons by (intro exI [of _ "q\<lparr>q_tail := ?p\<rparr>"] exI [of _ ?t]) auto
    qed
  qed
qed

text \<open>Waking the first frame schedules it for the current time.\<close>

lemma WakeupOne_run:
  assumes q: "is_queue q s (p # ps)" and lock: "\<not> en_locked s"
    and ev: "f_wakeup_event (the (en_frames s p)) \<noteq> en_null_event s" "event_at s (f_wakeup_event (the (en_frames s p))) = Some e"
      "domain_at s (ev_domain e) = Some d" "0 < fd_cycle_time d"
  shows "\<exists>q' s'. WakeupOne q s = Some (q', s') \<and> is_queue q' s' ps \<and> en_heap s' = en_heap s @ [p] \<and> same_clock s s' \<and>
    en_sequence s' = en_sequence s + 1 \<and> (\<forall>r. r \<noteq> p \<longrightarrow> en_frames s' r = en_frames s r) \<and>
    (\<exists>fr. en_frames s' p = Some fr \<and> f_event fr = f_wakeup_event (the (en_frames s p)) \<and> f_time fr = schedule_time s d 0 \<and>
      f_sequence fr = en_sequence s + 1)"
proof -
  obtain fr where fr: "p \<noteq> NULL" "en_frames s p = Some fr" "f_in_queue fr" "f_wakeup_event fr \<noteq> NULL" "\<not> f_in_heap fr"
      "f_next fr = (case ps of [] \<Rightarrow> NULL | q # _ \<Rightarrow> q)" and link: "linked (en_frames s) ps" "distinct ps" "p \<notin> set ps"
    using q by (auto simp: is_queue_def)
  have ends: "q_head q = p" "q_tail q = (if ps = [] then p else last ps)" using q by (simp_all add: is_queue_def)
  let ?g = "fr\<lparr>f_next := NULL, f_in_queue := False, f_wakeup_event := NULL\<rparr>"
  let ?s = "s\<lparr>en_frames := (en_frames s)(p \<mapsto> ?g)\<rparr>"
  let ?q = "if ps = [] then \<lparr>q_head = NULL, q_tail = NULL\<rparr> else q\<lparr>q_head := f_next fr\<rparr>"
  let ?t = "scheduled (f_wakeup_event fr) p (schedule_time ?s d 0) 0 ?s"
  have hd: "p = last ps \<longleftrightarrow> False" if "ps \<noteq> []" using link(3) that last_in_set by blast
  have pop: "Queue_PopFront q s = Some (p, ?q, s\<lparr>en_frames := (en_frames s)(p \<mapsto> fr\<lparr>f_next := NULL, f_in_queue := False\<rparr>)\<rparr>)"
    using fr ends hd by (auto simp: Queue_PopFront_def upd_frame_def frame_at_def Let_def)
  have e: "event_at ?s (f_wakeup_event fr) = Some e" "domain_at ?s (ev_domain e) = Some d"
    using ev fr by (simp_all add: event_at_Some domain_at_Some)
  have "Schedule (f_wakeup_event fr) p 0 0 ?s = Some ?t"
    using fr lock ev e by (intro Schedule_runs [of 0 ?s p ?g]) (simp_all add: frame_at_def)
  then have run: "WakeupOne q s = Some (?q, ?t)"
    using fr ends pop by (simp add: WakeupOne_def upd_frame_def frame_at_def Let_def)
  have same: "en_frames ?t r = en_frames s r" if "r \<noteq> p" for r using that by simp
  have "linked (en_frames ?t) ps" using link by simp
  then have "is_queue ?q ?t ps" using link(2) ends fr(6) by (simp add: is_queue_def)
  moreover have "same_clock s ?t"
    using scheduled_clock [of ?s "f_wakeup_event fr" p "schedule_time ?s d 0" 0] by (simp add: same_clock_def)
  moreover have "schedule_time ?s d 0 = schedule_time s d 0" by (simp add: schedule_time_def)
  ultimately show ?thesis using run same fr(2) by (intro exI [of _ ?q] exI [of _ ?t]) auto
qed

lemma WakeupAll_run:
  assumes "is_queue q s ps" "engine_inv s" "\<not> en_locked s"
    and "\<And>p. p \<in> set ps \<Longrightarrow> f_wakeup_event (the (en_frames s p)) \<noteq> en_null_event s \<and> valid_event s (f_wakeup_event (the (en_frames s p)))"
  shows "\<exists>s'. WakeupAll q s = Some (queue_empty, s') \<and> en_heap s' = en_heap s @ ps \<and> en_time s' = en_time s \<and>
    (\<forall>r. r \<notin> set ps \<longrightarrow> en_frames s' r = en_frames s r) \<and>
    (\<forall>i < length ps. \<exists>fr. en_frames s' (ps ! i) = Some fr \<and> f_event fr = f_wakeup_event (the (en_frames s (ps ! i))) \<and>
      f_time fr \<le> en_time s \<and> f_sequence fr = en_sequence s + 1 + int i)"
  using assms
proof (induction ps arbitrary: q s)
  case Nil
  then have "q = queue_empty" by (simp add: is_queue_def queue_empty_def)
  then show ?case by (subst WakeupAll.simps) (simp add: queue_empty_def)
next
  case (Cons p ps)
  let ?e = "f_wakeup_event (the (en_frames s p))"
  obtain e d where e: "event_at s ?e = Some e" "domain_at s (ev_domain e) = Some d" "?e \<noteq> en_null_event s"
    using Cons.prems(4) [of p] by (auto simp: valid_event_def)
  have ct: "0 < fd_cycle_time d" using Cons.prems(2) e(2) by (auto simp: engine_inv_def domain_at_Some)
  obtain q1 s1 fr where s1: "WakeupOne q s = Some (q1, s1)" "is_queue q1 s1 ps" "en_heap s1 = en_heap s @ [p]" "same_clock s s1"
      "en_sequence s1 = en_sequence s + 1" "\<forall>r. r \<noteq> p \<longrightarrow> en_frames s1 r = en_frames s r"
      and fr: "en_frames s1 p = Some fr" "f_event fr = ?e" "f_time fr = schedule_time s d 0" "f_sequence fr = en_sequence s + 1"
    using WakeupOne_run [OF Cons.prems(1,3) e(3,1,2) ct] by (elim exE conjE) (rule that)
  have new: "p \<notin> set ps" and head: "q_head q \<noteq> NULL" using Cons.prems(1) by (auto simp: is_queue_def)
  have inv1: "engine_inv s1" by (rule WakeupOne_inv [OF Cons.prems(2) s1(1)])
  have valid: "valid_event s1 x = valid_event s x" for x
    by (rule valid_event_domains) (use s1(4) in \<open>simp_all add: same_clock_def\<close>)
  have "f_wakeup_event (the (en_frames s1 r)) \<noteq> en_null_event s1 \<and> valid_event s1 (f_wakeup_event (the (en_frames s1 r)))" if "r \<in> set ps" for r
  proof -
    have "en_frames s1 r = en_frames s r" using s1(6) that new by auto
    then show ?thesis using Cons.prems(4) [of r] that valid s1(4) by (simp add: same_clock_def)
  qed
  then obtain s' where s': "WakeupAll q1 s1 = Some (queue_empty, s')" "en_heap s' = en_heap s1 @ ps" "en_time s' = en_time s1"
      "\<forall>r. r \<notin> set ps \<longrightarrow> en_frames s' r = en_frames s1 r"
      "\<forall>i < length ps. \<exists>fr. en_frames s' (ps ! i) = Some fr \<and> f_event fr = f_wakeup_event (the (en_frames s1 (ps ! i))) \<and>
        f_time fr \<le> en_time s1 \<and> f_sequence fr = en_sequence s1 + 1 + int i"
    using Cons.IH [OF s1(2) inv1] Cons.prems(3) s1(4) by (auto simp: same_clock_def)
  have run: "WakeupAll q s = Some (queue_empty, s')" using head s1(1) s'(1) by (subst WakeupAll.simps) simp
  have t: "en_time s1 = en_time s" using s1(4) by (simp add: same_clock_def)
  have time: "schedule_time s d 0 \<le> en_time s"
    using schedule_time_bounds(2) [OF ct inv_time [OF Cons.prems(2)], of 0] by simp
  have "\<exists>fr. en_frames s' ((p # ps) ! i) = Some fr \<and> f_event fr = f_wakeup_event (the (en_frames s ((p # ps) ! i))) \<and>
      f_time fr \<le> en_time s \<and> f_sequence fr = en_sequence s + 1 + int i" if i: "i < length (p # ps)" for i
  proof (cases i)
    case 0
    then show ?thesis using fr s'(4) new time by simp
  next
    case (Suc j)
    then have j: "j < length ps" using i by simp
    then have "ps ! j \<noteq> p" using new nth_mem by metis
    then have "en_frames s1 (ps ! j) = en_frames s (ps ! j)" using s1(6) by blast
    then obtain r where "en_frames s' (ps ! j) = Some r" "f_event r = f_wakeup_event (the (en_frames s (ps ! j)))"
        "f_time r \<le> en_time s" "f_sequence r = en_sequence s + 2 + int j"
      using s'(5) j s1(5) t by (auto simp: algebra_simps)
    then show ?thesis using Suc by simp
  qed
  then show ?case using run s'(2,3,4) s1(3,6) t by (intro exI [of _ s']) auto
qed

lemma poll_signal_simps [simp]:
  "en_current (poll_signal s) = en_current s" "en_time (poll_signal s) = en_time s" "en_shortest (poll_signal s) = en_shortest s"
  "en_heap (poll_signal s) = en_heap s" "en_frames (poll_signal s) = en_frames s" "en_client (poll_signal s) = en_client s"
  "due (poll_signal s) = due s"
  by (simp_all add: poll_signal_def due_def)

lemma poll_signal_inv: "engine_inv s \<Longrightarrow> engine_inv (poll_signal s)"
  using inv_cong [of s "poll_signal s"] inv_time [of s] by (simp add: poll_signal_def)

section \<open>Setting up an engine\<close>

lemma Engine_create_inv: "engine_inv (Engine_create c)"
  by (simp add: engine_inv_def Engine_create_def RegisterEvent_def heap_frame_def in_flight_def event_at_Some Let_def)

lemma RegisterFrequencyDomain_inv:
  assumes inv: "engine_inv s" and f: "0 < frequency" "frequency \<le> 1000000" and run: "RegisterFrequencyDomain frequency s = Some (d, s')"
  shows "engine_inv s'"
proof -
  let ?s = "s\<lparr>en_domains := en_domains s @ [\<lparr>fd_frequency = frequency, fd_cycle_time = 1000000 sdiv frequency\<rparr>]\<rparr>"
  have s': "s' = ?s \<or> s' = ?s\<lparr>en_fastest := frequency, en_shortest := 1000000 sdiv frequency\<rparr>"
    using run by (auto simp: RegisterFrequencyDomain_def Let_def bind_eq_Some_conv split: if_splits)
  have "1000000 sdiv frequency = 1000000 div frequency" using f by (simp add: signed_divide_int_def sgn_if)
  moreover have "0 < 1000000 div frequency" using f by (simp add: pos_imp_zdiv_pos_iff)
  moreover have "event_at ?s = event_at s" "heap_frame ?s = heap_frame s" "in_flight ?s = in_flight s"
    by (simp_all add: fun_eq_iff event_at_def heap_frame_def in_flight_def)
  moreover have "valid_event ?s e" if "valid_event s e" for e
    using that calculation(3) by (auto simp: valid_event_def domain_at_Some nth_append)
  ultimately have "engine_inv ?s" using inv unfolding engine_inv_def by simp
  then show ?thesis using s' inv_cong [of ?s s'] inv_time [OF inv] by auto
qed

lemma RegisterEvent_inv:
  assumes inv: "engine_inv s" and run: "RegisterEvent d s = (e, s')"
  shows "engine_inv s'"
proof -
  have s': "s' = s\<lparr>en_events := en_events s @ [\<lparr>ev_domain = d, ev_in_flight = 0\<rparr>]\<rparr>" using run by (simp add: RegisterEvent_def)
  have same: "heap_frame s' = heap_frame s" "in_flight s' = in_flight s" "domain_at s' = domain_at s"
    by (simp_all add: fun_eq_iff heap_frame_def in_flight_def domain_at_def s')
  have at: "event_at s' x = (if x = length (en_events s) + 1 then Some \<lparr>ev_domain = d, ev_in_flight = 0\<rparr> else event_at s x)" for x
    by (cases x) (auto simp: event_at_def rd_def s' nth_append)
  have new: "event_at s (length (en_events s) + 1) = None" by (simp add: event_at_def rd_def)
  then have mono: "valid_event s' x" if "valid_event s x" for x using that same(3) at by (auto simp: valid_event_def)
  have valid: "valid_event s (f_event (the (en_frames s p)))" if "p \<in> set (en_heap s)" for p
    using inv that unfolding engine_inv_def heap_frame_def by fastforce
  have "in_flight s (length (en_events s) + 1) = 0"
    using valid new unfolding in_flight_def by (force simp: filter_empty_conv valid_event_def)
  then show ?thesis using inv mono at unfolding engine_inv_def same by (simp add: s')
qed

text \<open>An engine with a domain of 1 GHz, an event and three frames scheduled for it.\<close>

definition small_engine :: "ptr list engine option" where
  "small_engine = do {
     (d, s) \<leftarrow> RegisterFrequencyDomain 1000 (Engine_create []);
     let (event, s) = RegisterEvent d s;
     s \<leftarrow> Next event 2 0 s;
     s \<leftarrow> Next event 0 5 s;
     Next event 0 0 s }"

lemma small_engine_run:
  "\<exists>s. small_engine = Some s \<and> engine_inv s \<and> en_current s = NULL \<and> en_heap s = [1, 2, 3] \<and> en_shortest s = 1000 \<and> en_time s = 0 \<and>
    \<not> en_locked s \<and> en_null_event s = 1 \<and> valid_event s 2 \<and> en_client s = [] \<and>
    map (\<lambda>p. f_time (the (en_frames s p))) [1, 2, 3] = [2000, 0, 0] \<and> map (\<lambda>p. f_sequence (the (en_frames s p))) [1, 2, 3] = [1, 2, 3] \<and>
    (\<forall>p \<in> {1, 2, 3}. \<exists>fr. en_frames s p = Some fr \<and> f_wakeup_event fr = NULL \<and> f_next fr = NULL \<and> f_event fr = 2)"
proof -
  obtain d s1 where s1: "RegisterFrequencyDomain 1000 (Engine_create ([] :: ptr list)) = Some (d, s1)"
    by (auto simp: RegisterFrequencyDomain_def Let_def)
  obtain e s2 where s2: "RegisterEvent d s1 = (e, s2)" by force
  have "engine_inv s1" by (rule RegisterFrequencyDomain_inv [OF Engine_create_inv _ _ s1]) simp_all
  then have inv: "engine_inv s2" using s2 by (rule RegisterEvent_inv)
  let ?F = "\<lambda>time n period. \<lparr>f_event = 2, f_time = time, f_sequence = n, f_period = period, f_in_heap = True, f_parent_frame = 0,
    f_return_event = 0, f_in_queue = False, f_next = 0, f_wakeup_event = 0\<rparr>"
  let ?S = "\<lambda>n heap frames next. \<lparr>en_finish = False, en_finish_reason = [], en_sigint = False,
      en_events = [\<lparr>ev_domain = 0, ev_in_flight = 0\<rparr>, \<lparr>ev_domain = 1, ev_in_flight = n\<rparr>],
      en_domains = [\<lparr>fd_frequency = 1000, fd_cycle_time = 1000\<rparr>], en_heap = heap, en_end_frames = [], en_null_event = 1,
      en_locked = False, en_time = 0, en_fastest = 1000, en_shortest = 1000, en_current = 0, en_sequence = n, en_warned = False,
      en_frames = frames, en_next_frame = next, en_client = ([] :: ptr list)\<rparr>"
  have e: "e = 2" and v: "s2 = ?S 0 [] Map.empty 1"
    using s1 s2 by (auto simp: RegisterFrequencyDomain_def RegisterEvent_def Engine_create_def Let_def signed_divide_int_def)
  note run = Next_def Schedule_def alloc_frame_def frame_at_def event_at_def domain_at_def upd_frame_def upd_event_def
    rd_def new_frame_def signed_divide_int_def
  have s3: "Next 2 2 0 (?S 0 [] Map.empty 1) = Some (?S 1 [1] [1 \<mapsto> ?F 2000 1 0] 2)" by (simp add: run)
  have s4: "Next 2 0 5 (?S 1 [1] [1 \<mapsto> ?F 2000 1 0] 2) = Some (?S 2 [1, 2] [1 \<mapsto> ?F 2000 1 0, 2 \<mapsto> ?F 0 2 5] 3)"
    by (simp add: run)
  have s5: "Next 2 0 0 (?S 2 [1, 2] [1 \<mapsto> ?F 2000 1 0, 2 \<mapsto> ?F 0 2 5] 3)
      = Some (?S 3 [1, 2, 3] [1 \<mapsto> ?F 2000 1 0, 2 \<mapsto> ?F 0 2 5, 3 \<mapsto> ?F 0 3 0] 4)" by (simp add: run)
  have "engine_inv (?S 3 [1, 2, 3] [1 \<mapsto> ?F 2000 1 0, 2 \<mapsto> ?F 0 2 5, 3 \<mapsto> ?F 0 3 0] 4)"
    using Next_inv [OF Next_inv [OF Next_inv [OF inv [unfolded v] s3] s4] s5] .
  moreover have "small_engine = Some (?S 3 [1, 2, 3] [1 \<mapsto> ?F 2000 1 0, 2 \<mapsto> ?F 0 2 5, 3 \<mapsto> ?F 0 3 0] 4)"
    using s1 s2 s3 s4 s5 e v by (simp add: small_engine_def)
  ultimately show ?thesis
    by (intro exI [of _ "?S 3 [1, 2, 3] [1 \<mapsto> ?F 2000 1 0, 2 \<mapsto> ?F 0 2 5, 3 \<mapsto> ?F 0 3 0] 4"])
      (simp add: valid_event_def event_at_def domain_at_def rd_def)
qed

text \<open>The same engine while the first event runs.\<close>

lemma small_engine_handler:
  "\<exists>(s :: ptr list engine) fr. engine_inv s \<and> en_current s = 2 \<and> en_heap s = [1, 3] \<and> \<not> en_locked s \<and> en_null_event s = 1 \<and> valid_event s 2 \<and>
    en_frames s 2 = Some fr \<and> \<not> f_in_heap fr \<and> \<not> f_in_queue fr \<and> f_next fr = NULL \<and> f_wakeup_event fr = NULL"
proof -
  obtain s :: "ptr list engine" where s: "engine_inv s" "en_heap s = [1, 2, 3]" "\<not> en_locked s" "en_null_event s = 1" "valid_event s 2"
      "map (\<lambda>p. f_time (the (en_frames s p))) [1, 2, 3] = [2000, 0, 0]"
      "map (\<lambda>p. f_sequence (the (en_frames s p))) [1, 2, 3] = [1, 2, 3]"
      "\<forall>p \<in> {1, 2, 3}. \<exists>fr. en_frames s p = Some fr \<and> f_wakeup_event fr = NULL \<and> f_next fr = NULL \<and> f_event fr = 2"
    using small_engine_run by (elim exE conjE) (rule that, assumption+)
  have top: "heap_top (en_frames s) (en_heap s) = 2" using s by (simp add: runs_after_def Let_def)
  obtain fr where fr: "en_frames s 2 = Some fr" "f_wakeup_event fr = NULL" "f_next fr = NULL" using s(8) by auto
  have q: "\<not> f_in_queue fr" using taken_facts [OF s(1)] s(2) top fr(1) by (metis list.distinct(1) option.inject)
  have "engine_inv (taken s)" using taken_inv [OF s(1)] s(2) by simp
  moreover have "en_current (taken s) = 2" "en_heap (taken s) = [1, 3]" using top s(2) by simp_all
  moreover have "en_frames (taken s) 2 = Some (fr\<lparr>f_in_heap := False\<rparr>)" using top fr by (simp add: taken_def Let_def)
  moreover have "valid_event (taken s) 2 = valid_event s 2" by (rule valid_event_domains) simp_all
  ultimately show ?thesis using s fr q by (intro exI [of _ "taken s"] exI [of _ "fr\<lparr>f_in_heap := False\<rparr>"]) simp
qed

lemma two_in_order:
  assumes "distinct ps" "set ps = {2, 3 :: nat}" "sorted_wrt R ps" "\<not> R 3 2"
  shows "ps = [2, 3]"
proof -
  have "length ps = 2" using distinct_card [OF assms(1)] assms(2) by simp
  then obtain a b where "ps = [a, b]" by (auto simp: numeral_2_eq_2 length_Suc_conv)
  then show ?thesis using assms by (auto simp: doubleton_eq_iff)
qed

section \<open>Properties\<close>

text \<open>
  C19: In any state of the engine that satisfies the invariant, \<^verbatim>\<open>ProcessEvents\<close> with handlers made of
  engine calls keeps the invariant (the heap holds exactly the frames marked as being in it, with
  distinct sequence numbers and valid events, none of them suspended in a queue; the number of in-flight
  events of every type is the number of its frames in the heap), advances the time by one cycle, and
  leaves no frame in the heap that was due.
\<close>

theorem ProcessEvents_invariant:
  assumes "engine_inv s" "en_current s = NULL" "handler_ok h" "0 \<le> en_shortest s" "ProcessEvents h s = Some s'"
  shows "engine_inv s' \<and> en_current s' = NULL \<and> en_time s' = en_time s + en_shortest s \<and>
    (\<forall>p \<in> set (en_heap s'). en_time s < f_time (the (en_frames s' p)))"
proof -
  obtain s1 where s1: "process_loop h (poll_signal s) = Some s1" "s' = s1\<lparr>en_time := en_time s1 + en_shortest s1\<rparr>"
    using assms(5) by (auto simp: ProcessEvents_def bind_eq_Some_conv)
  have k: "engine_inv s1" "en_current s1 = NULL" "en_time s1 = en_time s" "en_shortest s1 = en_shortest s" "due s1 = {}"
    using process_loop_keeps [OF s1(1)] poll_signal_inv [OF assms(1)] assms(2,3) by simp_all
  have "engine_inv s'" unfolding s1(2) by (rule inv_cong [OF k(1)]) (use k inv_time [OF k(1)] assms(4) in simp_all)
  then show ?thesis using k by (auto simp: s1(2) due_def not_le)
qed

lemma ProcessEvents_invariant_witness:
  "\<exists>s s'. small_engine = Some s \<and> ProcessEvents (client_handler (\<lambda>event p c. c @ [p])) s = Some s' \<and> engine_inv s' \<and> en_time s' = 1000"
proof -
  let ?h = "client_handler (\<lambda>event p c. c @ [p])"
  obtain s where s: "small_engine = Some s" "engine_inv s" "en_current s = NULL" "en_shortest s = 1000" "en_time s = 0"
    using small_engine_run by blast
  obtain s1 where "process_loop ?h (poll_signal s) = Some s1"
    using process_loop_returns [OF client_handler_ok client_handler_prompt poll_signal_inv [OF s(2)]] s(3) by auto
  then have run: "ProcessEvents ?h s = Some (s1\<lparr>en_time := en_time s1 + en_shortest s1\<rparr>)" by (simp add: ProcessEvents_def)
  show ?thesis using ProcessEvents_invariant [OF s(2,3) client_handler_ok _ run] s run by auto
qed

text \<open>
  C20: \<^verbatim>\<open>ProcessEvents\<close> returns when every handler returns, schedules nothing for a time that has
  already come, and neither reschedules nor suspends a periodic frame (which would make the engine's own
  rescheduling panic). Periodic events are rescheduled in the future, so they do not keep the loop running.
\<close>

theorem ProcessEvents_returns:
  assumes "engine_inv s" "en_current s = NULL" "handler_ok h" "handler_prompt h"
  shows "\<exists>s'. ProcessEvents h s = Some s'"
proof -
  obtain s1 where "process_loop h (poll_signal s) = Some s1"
    using process_loop_returns [OF assms(3,4) poll_signal_inv [OF assms(1)]] assms(2) by auto
  then show ?thesis by (simp add: ProcessEvents_def)
qed

lemma ProcessEvents_returns_witness:
  "\<exists>s s'. small_engine = Some s \<and> ProcessEvents (client_handler (\<lambda>event p c. c @ [p])) s = Some s'"
  using small_engine_run ProcessEvents_returns [OF _ _ client_handler_ok client_handler_prompt] by blast

text \<open>
  C18: \<^verbatim>\<open>ProcessEvents\<close> runs exactly the frames that are due, each once, in the order of their times
  and, for equal times, in the order in which they were scheduled; shown for handlers that change
  the client's state, by the order in which those changes are composed.
\<close>

theorem ProcessEvents_in_order:
  assumes "engine_inv s" "en_current s = NULL"
  shows "\<exists>s' ps. ProcessEvents (client_handler g) s = Some s' \<and> distinct ps \<and>
    set ps = {p \<in> set (en_heap s). f_time (the (en_frames s p)) \<le> en_time s} \<and>
    sorted_wrt (\<lambda>p q. f_time (the (en_frames s p)) < f_time (the (en_frames s q)) \<or>
      f_time (the (en_frames s p)) = f_time (the (en_frames s q)) \<and> f_sequence (the (en_frames s p)) \<le> f_sequence (the (en_frames s q))) ps \<and>
    en_client s' = fold (\<lambda>p. g (f_event (the (en_frames s p))) p) ps (en_client s)"
proof -
  obtain s' ps where "process_loop (client_handler g) (poll_signal s) = Some s'" "distinct ps" "set ps = due s"
      "sorted_wrt (\<lambda>p q. \<not> runs_after (the (en_frames s p)) (the (en_frames s q))) ps"
      "en_client s' = fold (\<lambda>p. g (f_event (the (en_frames s p))) p) ps (en_client s)"
    using process_loop_order [OF poll_signal_inv [OF assms(1)], of g] assms(2) by auto
  moreover have "sorted_wrt (\<lambda>p q. f_time (the (en_frames s p)) < f_time (the (en_frames s q)) \<or>
      f_time (the (en_frames s p)) = f_time (the (en_frames s q)) \<and> f_sequence (the (en_frames s p)) \<le> f_sequence (the (en_frames s q))) ps"
    by (rule sorted_wrt_mono_rel [OF _ calculation(4)]) (auto simp: runs_after_def)
  ultimately show ?thesis
    by (intro exI [of _ "s'\<lparr>en_time := en_time s' + en_shortest s'\<rparr>"] exI [of _ ps])
      (simp add: ProcessEvents_def due_def)
qed

lemma ProcessEvents_in_order_witness:
  "\<exists>s s'. small_engine = Some s \<and> ProcessEvents (client_handler (\<lambda>event p c. c @ [p])) s = Some s' \<and> en_client s' = [2, 3]"
proof -
  obtain s where s: "small_engine = Some s" "engine_inv s" "en_current s = NULL" "en_heap s = [1, 2, 3]" "en_time s = 0" "en_client s = []"
      "map (\<lambda>p. f_time (the (en_frames s p))) [1, 2, 3] = [2000, 0, 0]"
      "map (\<lambda>p. f_sequence (the (en_frames s p))) [1, 2, 3] = [1, 2, 3]"
    using small_engine_run by (elim exE conjE) (rule that, assumption+)
  obtain s' ps where run: "ProcessEvents (client_handler (\<lambda>event p c. c @ [p])) s = Some s'" and ps: "distinct ps"
      "set ps = {p \<in> set (en_heap s). f_time (the (en_frames s p)) \<le> en_time s}"
      "sorted_wrt (\<lambda>p q. f_time (the (en_frames s p)) < f_time (the (en_frames s q)) \<or>
        f_time (the (en_frames s p)) = f_time (the (en_frames s q)) \<and> f_sequence (the (en_frames s p)) \<le> f_sequence (the (en_frames s q))) ps"
      "en_client s' = fold (\<lambda>p c. c @ [p]) ps (en_client s)"
    using ProcessEvents_in_order [OF s(2,3), of "\<lambda>event p c. c @ [p]"] by blast
  have "set ps = {2, 3}" unfolding ps(2) s(4,5) using s(7) by auto
  then have "ps = [2, 3]" by (rule two_in_order [OF ps(1) _ ps(3)]) (use s(7,8) in simp)
  then show ?thesis using s run ps(4) by auto
qed

text \<open>
  \<^verbatim>\<open>WakeupAll\<close> empties a queue and schedules every frame suspended in it, in the order of the
  queue: each with its wakeup event, for a time that has come, and with consecutive schedule sequence
  numbers, so they run in that order.
\<close>

theorem WakeupAll_in_order:
  assumes "is_queue q s ps" "engine_inv s" "\<not> en_locked s"
    and "\<forall>p \<in> set ps. f_wakeup_event (the (en_frames s p)) \<noteq> en_null_event s \<and> valid_event s (f_wakeup_event (the (en_frames s p)))"
  shows "\<exists>s'. WakeupAll q s = Some (queue_empty, s') \<and> en_heap s' = en_heap s @ ps \<and>
    (\<forall>i < length ps. \<exists>fr. en_frames s' (ps ! i) = Some fr \<and> f_event fr = f_wakeup_event (the (en_frames s (ps ! i))) \<and>
      f_time fr \<le> en_time s \<and> f_sequence fr = en_sequence s + 1 + int i)"
  using WakeupAll_run [OF assms(1,2,3)] assms(4) by blast

lemma WakeupAll_in_order_witness:
  "\<exists>q (s :: ptr list engine) s'. is_queue q s [2] \<and> WakeupAll q s = Some (queue_empty, s') \<and> en_heap s' = [1, 3, 2]"
proof -
  obtain s :: "ptr list engine" and fr where s: "engine_inv s" "en_current s = 2" "en_heap s = [1, 3]" "\<not> en_locked s" "en_null_event s = 1"
      "valid_event s 2" "en_frames s 2 = Some fr" "\<not> f_in_heap fr" "\<not> f_in_queue fr" "f_next fr = NULL" "f_wakeup_event fr = NULL"
    using small_engine_handler by blast
  have "is_queue queue_empty s []" by (simp add: is_queue_def queue_empty_def)
  then obtain q1 s1 where w: "Wait 2 False queue_empty s = Some (q1, s1)" "en_heap s1 = [1, 3]" "is_queue q1 s1 [2]"
      "f_wakeup_event (the (en_frames s1 2)) = 2"
    using Wait_run [of queue_empty s "[]" fr 2 False] s by auto
  have inv1: "engine_inv s1" by (rule Wait_inv [OF s(1) w(1)])
  have clock: "same_clock s s1" using engine_step_clock [OF engine_step.wait_step [OF w(1)]] .
  have "valid_event s1 2 = valid_event s 2"
    by (rule valid_event_domains) (use clock in \<open>simp_all add: same_clock_def\<close>)
  then have "\<exists>s'. WakeupAll q1 s1 = Some (queue_empty, s') \<and> en_heap s' = en_heap s1 @ [2]"
    using WakeupAll_in_order [OF w(3) inv1] w(4) s(4,5,6) clock by (auto simp: same_clock_def)
  then show ?thesis using w by auto
qed

text \<open>
  \<^verbatim>\<open>Drain\<close> empties the heap but does not count the events it runs as finished: the counters of
  in-flight events stay as they were, so an event type that was in flight still reports it after
  its last event has run.
\<close>

theorem Drain_keeps_counters:
  assumes "engine_inv s" "en_current s = NULL" "int (length (en_heap s)) < max_events"
  shows "\<exists>s'. Drain (client_handler g) max_events s = Some (False, s') \<and> en_heap s' = [] \<and> en_events s' = en_events s"
  unfolding Drain_def using drain_loop_run [OF engine_inv_heap_ok [OF assms(1)] assms(2), of 0 max_events g] assms(3) by simp

lemma Drain_keeps_counters_witness:
  "\<exists>s s'. small_engine = Some s \<and> Drain (client_handler (\<lambda>event p c. c @ [p])) 1000000 s = Some (False, s') \<and>
    en_heap s' = [] \<and> en_events s' = en_events s"
proof -
  obtain s where "small_engine = Some s" "engine_inv s" "en_current s = NULL" "en_heap s = [1, 2, 3]" using small_engine_run by blast
  then show ?thesis using Drain_keeps_counters [of s 1000000 "\<lambda>event p c. c @ [p]"] by auto
qed

end
