(* ===== verification/SimDirectory.thy ===== *)
theory SimDirectory
  imports SimBitmap SimEngineRun
begin

text \<open>
  The directories of the memory hierarchy, \<^verbatim>\<open>memory/Directory.cc\<close>: per set, way and sub-block of a cache
  the node that owns it and the nodes that share it, the latter as a region of one large bit set, and per
  set and way a lock with the queue of the frames that wait for it.

  The identifiers are C++ \<^verbatim>\<open>int\<close>s that the code checks against the dimensions; products of the dimensions
  are assumed to fit an \<^verbatim>\<open>int\<close>. The output of \<^verbatim>\<open>System::trace\<close> and \<^verbatim>\<open>System::debug\<close>, and the loop of
  \<^verbatim>\<open>UnlockEntry\<close> that only prints the waiting frames, are left out.

  Two abstractions are proved: the directory is a map from sub-blocks to owners and sets of sharers, and a
  lock hands over to the waiting frames in the order in which they came.
\<close>

section \<open>The code\<close>

definition inRange :: "int \<Rightarrow> int \<Rightarrow> int \<Rightarrow> bool" where
  "inRange value lo hi \<longleftrightarrow> value \<ge> lo \<and> value \<le> hi"

definition NoOwner :: int where
  "NoOwner = - 1"

record dir_entry =
  de_owner :: int
  de_num_sharers :: int

record dir_lock =
  dl_access_id :: int
  dl_queue :: wait_queue

record directory =
  d_sets :: int
  d_ways :: int
  d_sub_blocks :: int
  d_nodes :: int
  d_sharers :: bitmap
  d_entries :: "dir_entry list"
  d_locks :: "dir_lock list"

definition directory_create :: "int \<Rightarrow> int \<Rightarrow> int \<Rightarrow> int \<Rightarrow> directory" where
  "directory_create num_sets num_ways num_sub_blocks num_nodes =
     \<lparr>d_sets = num_sets, d_ways = num_ways, d_sub_blocks = num_sub_blocks, d_nodes = num_nodes,
      d_sharers = bitmap_create (nat (num_sets * num_ways * num_sub_blocks * num_nodes)),
      d_entries = replicate (nat (num_sets * num_ways * num_sub_blocks)) \<lparr>de_owner = NoOwner, de_num_sharers = 0\<rparr>,
      d_locks = replicate (nat (num_sets * num_ways)) \<lparr>dl_access_id = 0, dl_queue = queue_empty\<rparr>\<rparr>"

text \<open>The pointer that \<^verbatim>\<open>getEntry\<close> returns is a position in the array of entries.\<close>

definition getEntry :: "int \<Rightarrow> int \<Rightarrow> int \<Rightarrow> directory \<Rightarrow> nat option" where
  "getEntry set_id way_id sub_block_id d = do {
     c_assert (inRange set_id 0 (d_sets d - 1));
     c_assert (inRange way_id 0 (d_ways d - 1));
     c_assert (inRange sub_block_id 0 (d_sub_blocks d - 1));
     Some (nat (set_id * d_ways d * d_sub_blocks d + way_id * d_sub_blocks d + sub_block_id)) }"

definition upd_entry :: "nat \<Rightarrow> (dir_entry \<Rightarrow> dir_entry) \<Rightarrow> directory \<Rightarrow> directory option" where
  "upd_entry i g d = do { e \<leftarrow> rd (d_entries d) i; es \<leftarrow> wr (d_entries d) i (g e); Some (d\<lparr>d_entries := es\<rparr>) }"

definition check_node :: "int \<Rightarrow> int \<Rightarrow> int \<Rightarrow> int \<Rightarrow> directory \<Rightarrow> unit option" where
  "check_node set_id way_id sub_block_id node_id d = do {
     c_assert (inRange set_id 0 (d_sets d - 1));
     c_assert (inRange way_id 0 (d_ways d - 1));
     c_assert (inRange sub_block_id 0 (d_sub_blocks d - 1));
     c_assert (inRange node_id 0 (d_nodes d - 1)) }"

definition sharer_bit :: "int \<Rightarrow> int \<Rightarrow> int \<Rightarrow> int \<Rightarrow> directory \<Rightarrow> nat" where
  "sharer_bit set_id way_id sub_block_id node_id d =
     nat (set_id * d_ways d * d_sub_blocks d * d_nodes d + way_id * d_sub_blocks d * d_nodes d + sub_block_id * d_nodes d + node_id)"

definition setOwner :: "int \<Rightarrow> int \<Rightarrow> int \<Rightarrow> int \<Rightarrow> directory \<Rightarrow> directory option" where
  "setOwner set_id way_id sub_block_id owner d = do {
     c_assert (owner = NoOwner \<or> inRange owner 0 (d_nodes d - 1));
     entry \<leftarrow> getEntry set_id way_id sub_block_id d;
     upd_entry entry (\<lambda>e. e\<lparr>de_owner := owner\<rparr>) d }"

definition setSharer :: "int \<Rightarrow> int \<Rightarrow> int \<Rightarrow> int \<Rightarrow> directory \<Rightarrow> directory option" where
  "setSharer set_id way_id sub_block_id node_id d = do {
     check_node set_id way_id sub_block_id node_id d;
     let bit_id = sharer_bit set_id way_id sub_block_id node_id d;
     already \<leftarrow> bitmap_Test bit_id (d_sharers d);
     if already then Some d else do {
       entry \<leftarrow> getEntry set_id way_id sub_block_id d;
       e \<leftarrow> rd (d_entries d) entry;
       c_assert (de_num_sharers e < d_nodes d);
       d \<leftarrow> upd_entry entry (\<lambda>e. e\<lparr>de_num_sharers := de_num_sharers e + 1\<rparr>) d;
       b \<leftarrow> bitmap_Set bit_id True (d_sharers d);
       Some (d\<lparr>d_sharers := b\<rparr>) } }"

definition clearSharer :: "int \<Rightarrow> int \<Rightarrow> int \<Rightarrow> int \<Rightarrow> directory \<Rightarrow> directory option" where
  "clearSharer set_id way_id sub_block_id node_id d = do {
     check_node set_id way_id sub_block_id node_id d;
     let bit_id = sharer_bit set_id way_id sub_block_id node_id d;
     present \<leftarrow> bitmap_Test bit_id (d_sharers d);
     if \<not> present then Some d else do {
       entry \<leftarrow> getEntry set_id way_id sub_block_id d;
       e \<leftarrow> rd (d_entries d) entry;
       c_assert (de_num_sharers e > 0);
       d \<leftarrow> upd_entry entry (\<lambda>e. e\<lparr>de_num_sharers := de_num_sharers e - 1\<rparr>) d;
       b \<leftarrow> bitmap_Set bit_id False (d_sharers d);
       Some (d\<lparr>d_sharers := b\<rparr>) } }"

definition clearAllSharers :: "int \<Rightarrow> int \<Rightarrow> int \<Rightarrow> directory \<Rightarrow> directory option" where
  "clearAllSharers set_id way_id sub_block_id d = do {
     entry \<leftarrow> getEntry set_id way_id sub_block_id d;
     e \<leftarrow> rd (d_entries d) entry;
     if de_num_sharers e = 0 then Some d else do {
       let bit_id = sharer_bit set_id way_id sub_block_id 0 d;
       d \<leftarrow> upd_entry entry (\<lambda>e. e\<lparr>de_num_sharers := 0\<rparr>) d;
       b \<leftarrow> for_loop 0 (nat (d_nodes d)) (\<lambda>i b. bitmap_Set (bit_id + i) False b) (d_sharers d);
       Some (d\<lparr>d_sharers := b\<rparr>) } }"

definition isSharer :: "int \<Rightarrow> int \<Rightarrow> int \<Rightarrow> int \<Rightarrow> directory \<Rightarrow> bool option" where
  "isSharer set_id way_id sub_block_id node_id d = do {
     check_node set_id way_id sub_block_id node_id d;
     bitmap_Test (sharer_bit set_id way_id sub_block_id node_id d) (d_sharers d) }"

definition isBlockSharedOrOwned :: "int \<Rightarrow> int \<Rightarrow> directory \<Rightarrow> bool option" where
  "isBlockSharedOrOwned set_id way_id d = any_loop 0 (nat (d_sub_blocks d)) (\<lambda>sub_block_id. do {
     entry \<leftarrow> getEntry set_id way_id (int sub_block_id) d;
     e \<leftarrow> rd (d_entries d) entry;
     Some (de_num_sharers e > 0 \<or> de_owner e \<noteq> NoOwner) })"

definition getLock :: "int \<Rightarrow> int \<Rightarrow> directory \<Rightarrow> nat option" where
  "getLock set_id way_id d = do {
     c_assert (inRange set_id 0 (d_sets d - 1));
     c_assert (inRange way_id 0 (d_ways d - 1));
     Some (nat (set_id * d_ways d + way_id)) }"

definition LockEntry :: "int \<Rightarrow> int \<Rightarrow> ptr \<Rightarrow> int \<Rightarrow> directory \<Rightarrow> 'c engine \<Rightarrow> (bool \<times> directory \<times> 'c engine) option" where
  "LockEntry set_id way_id event access_id d s = do {
     c_assert (access_id > 0);
     i \<leftarrow> getLock set_id way_id d;
     lock \<leftarrow> rd (d_locks d) i;
     if dl_access_id lock \<noteq> 0 then do {
       (q, s) \<leftarrow> Wait event False (dl_queue lock) s;
       locks \<leftarrow> wr (d_locks d) i (lock\<lparr>dl_queue := q\<rparr>);
       Some (False, d\<lparr>d_locks := locks\<rparr>, s) }
     else do {
       locks \<leftarrow> wr (d_locks d) i (lock\<lparr>dl_access_id := access_id\<rparr>);
       Some (True, d\<lparr>d_locks := locks\<rparr>, s) } }"

definition UnlockEntry :: "int \<Rightarrow> int \<Rightarrow> int \<Rightarrow> directory \<Rightarrow> 'c engine \<Rightarrow> (directory \<times> 'c engine) option" where
  "UnlockEntry set_id way_id access_id d s = do {
     i \<leftarrow> getLock set_id way_id d;
     lock \<leftarrow> rd (d_locks d) i;
     c_assert (dl_access_id lock > 0);
     c_assert (access_id = dl_access_id lock);
     (q, s) \<leftarrow> (if q_head (dl_queue lock) \<noteq> NULL then WakeupAll (dl_queue lock) s else Some (dl_queue lock, s));
     locks \<leftarrow> wr (d_locks d) i (lock\<lparr>dl_access_id := 0, dl_queue := q\<rparr>);
     Some (d\<lparr>d_locks := locks\<rparr>, s) }"

definition getEntryAccessId :: "int \<Rightarrow> int \<Rightarrow> directory \<Rightarrow> int option" where
  "getEntryAccessId set_id way_id d = do { i \<leftarrow> getLock set_id way_id d; lock \<leftarrow> rd (d_locks d) i; Some (dl_access_id lock) }"

definition isEntryLocked :: "int \<Rightarrow> int \<Rightarrow> directory \<Rightarrow> bool option" where
  "isEntryLocked set_id way_id d = do { a \<leftarrow> getEntryAccessId set_id way_id d; Some (a \<noteq> 0) }"

section \<open>Positions\<close>

text \<open>A position in an array of rows: it is below the end, and it determines the row and the column.\<close>

lemma row_bound:
  assumes "0 \<le> (a :: int)" "a < m" "0 \<le> b" "b < n"
  shows "0 \<le> a * n + b" "a * n + b < m * n"
proof -
  show "0 \<le> a * n + b" using assms by simp
  have "(a + 1) * n \<le> m * n" using assms by (intro mult_right_mono) auto
  then show "a * n + b < m * n" using assms by (simp add: algebra_simps)
qed

lemma row_inj:
  assumes "a * n + b = c * n + d" "0 \<le> (b :: int)" "b < n" "0 \<le> d" "d < n"
  shows "a = c \<and> b = d"
proof -
  have "a = (a * n + b) div n" using assms(2,3) by simp
  also have "\<dots> = (c * n + d) div n" by (simp only: assms(1))
  also have "\<dots> = c" using assms(4,5) by simp
  finally have "a = c" .
  then show ?thesis using assms(1) by simp
qed

type_synonym sub_block = "int \<times> int \<times> int"

fun valid_block :: "directory \<Rightarrow> sub_block \<Rightarrow> bool" where
  "valid_block d (x, y, z) \<longleftrightarrow> 0 \<le> x \<and> x < d_sets d \<and> 0 \<le> y \<and> y < d_ways d \<and> 0 \<le> z \<and> z < d_sub_blocks d"

fun entry_pos :: "directory \<Rightarrow> sub_block \<Rightarrow> int" where
  "entry_pos d (x, y, z) = (x * d_ways d + y) * d_sub_blocks d + z"

definition valid_node :: "directory \<Rightarrow> int \<Rightarrow> bool" where
  "valid_node d n \<longleftrightarrow> 0 \<le> n \<and> n < d_nodes d"

definition node_pos :: "directory \<Rightarrow> sub_block \<Rightarrow> int \<Rightarrow> int" where
  "node_pos d k n = entry_pos d k * d_nodes d + n"

definition num_entries :: "directory \<Rightarrow> int" where
  "num_entries d = d_sets d * d_ways d * d_sub_blocks d"

lemma entry_pos_bound: "valid_block d k \<Longrightarrow> 0 \<le> entry_pos d k \<and> entry_pos d k < num_entries d"
proof (cases k)
  case (fields x y z)
  assume v: "valid_block d k"
  have "0 \<le> x * d_ways d + y" "x * d_ways d + y < d_sets d * d_ways d"
    using v fields row_bound [of x "d_sets d" y "d_ways d"] by simp_all
  then show ?thesis using v fields row_bound [of "x * d_ways d + y" "d_sets d * d_ways d" z "d_sub_blocks d"]
    by (simp add: num_entries_def)
qed

lemma entry_pos_inj: "valid_block d k \<Longrightarrow> valid_block d k' \<Longrightarrow> entry_pos d k = entry_pos d k' \<Longrightarrow> k = k'"
proof (cases k, cases k')
  fix x y z x' y' z'
  assume v: "valid_block d k" "valid_block d k'" "entry_pos d k = entry_pos d k'" and k: "k = (x, y, z)" "k' = (x', y', z')"
  have "x * d_ways d + y = x' * d_ways d + y' \<and> z = z'" by (rule row_inj [of _ "d_sub_blocks d"]) (use v k in simp_all)
  moreover have "x = x' \<and> y = y'" by (rule row_inj [of _ "d_ways d"]) (use v k calculation in simp_all)
  ultimately show ?thesis using k by simp
qed

lemma node_pos_bound: "valid_block d k \<Longrightarrow> valid_node d n \<Longrightarrow> 0 \<le> node_pos d k n \<and> node_pos d k n < num_entries d * d_nodes d"
  using entry_pos_bound [of d k] row_bound [of "entry_pos d k" "num_entries d" n "d_nodes d"] by (simp add: node_pos_def valid_node_def)

lemma node_pos_inj: "valid_block d k \<Longrightarrow> valid_block d k' \<Longrightarrow> valid_node d n \<Longrightarrow> valid_node d n' \<Longrightarrow>
    node_pos d k n = node_pos d k' n' \<longleftrightarrow> k = k' \<and> n = n'"
  using row_inj [of "entry_pos d k" "d_nodes d" n "entry_pos d k'" n'] entry_pos_inj [of d k k']
  by (auto simp: node_pos_def valid_node_def)

lemma getEntry_run: "valid_block d (x, y, z) \<Longrightarrow> getEntry x y z d = Some (nat (entry_pos d (x, y, z)))"
  by (simp add: getEntry_def inRange_def algebra_simps)

lemma sharer_bit_pos: "sharer_bit x y z n d = nat (node_pos d (x, y, z) n)"
  by (simp add: sharer_bit_def node_pos_def algebra_simps)

lemma check_node_run: "valid_block d (x, y, z) \<Longrightarrow> valid_node d n \<Longrightarrow> check_node x y z n d = Some ()"
  by (simp add: check_node_def inRange_def valid_node_def)

section \<open>Invariant and abstraction\<close>

definition sharers_of :: "directory \<Rightarrow> sub_block \<Rightarrow> int set" where
  "sharers_of d k = (if valid_block d k then {n. valid_node d n \<and> bp_abs (d_sharers d) ! nat (node_pos d k n)} else {})"

definition entry_of :: "directory \<Rightarrow> sub_block \<Rightarrow> dir_entry" where
  "entry_of d k = d_entries d ! nat (entry_pos d k)"

definition owner_of :: "directory \<Rightarrow> sub_block \<Rightarrow> int" where
  "owner_of d k = (if valid_block d k then de_owner (entry_of d k) else NoOwner)"

definition dir_inv :: "directory \<Rightarrow> bool" where
  "dir_inv d \<longleftrightarrow> 0 < d_sets d \<and> 0 < d_ways d \<and> 0 < d_sub_blocks d \<and> 0 < d_nodes d \<and>
     bp_inv (d_sharers d) \<and> bp_size (d_sharers d) = nat (num_entries d * d_nodes d) \<and>
     length (d_entries d) = nat (num_entries d) \<and> length (d_locks d) = nat (d_sets d * d_ways d) \<and>
     (\<forall>k. valid_block d k \<longrightarrow> de_num_sharers (entry_of d k) = int (card (sharers_of d k)))"

lemma finite_sharers [simp]: "finite (sharers_of d k)"
  by (rule finite_subset [of _ "{0..<d_nodes d}"]) (auto simp: sharers_of_def valid_node_def)

lemma sharers_valid: "n \<in> sharers_of d k \<Longrightarrow> valid_block d k \<and> valid_node d n"
  by (simp add: sharers_of_def split: if_splits)

lemma entry_index: "dir_inv d \<Longrightarrow> valid_block d k \<Longrightarrow> nat (entry_pos d k) < length (d_entries d)"
  using entry_pos_bound [of d k] by (simp add: dir_inv_def)

lemma node_index: "dir_inv d \<Longrightarrow> valid_block d k \<Longrightarrow> valid_node d n \<Longrightarrow> nat (node_pos d k n) < bp_size (d_sharers d)"
  using node_pos_bound [of d k n] by (simp add: dir_inv_def)

text \<open>Changing the number of sharers and the bits of one sub-block.\<close>

lemma change_sharers:
  assumes inv: "dir_inv d" and k: "valid_block d k"
    and b: "bp_inv b" "bp_size b = bp_size (d_sharers d)"
    and bits: "\<And>k' n. valid_block d k' \<Longrightarrow> valid_node d n \<Longrightarrow>
      bp_abs b ! nat (node_pos d k' n) \<longleftrightarrow> (if k' = k then n \<in> S else n \<in> sharers_of d k')"
    and S: "\<And>n. n \<in> S \<Longrightarrow> valid_node d n" and d': "d' = d\<lparr>d_entries := (d_entries d)[nat (entry_pos d k) :=
      (entry_of d k)\<lparr>de_num_sharers := int (card S)\<rparr>], d_sharers := b\<rparr>"
  shows "dir_inv d' \<and> sharers_of d' = (sharers_of d)(k := S) \<and> owner_of d' = owner_of d"
proof -
  have same: "valid_block d' = valid_block d" "valid_node d' = valid_node d" "entry_pos d' = entry_pos d" "node_pos d' = node_pos d"
      "num_entries d' = num_entries d"
    by (auto simp: fun_eq_iff valid_node_def node_pos_def num_entries_def d')
  have sh: "sharers_of d' = (sharers_of d)(k := S)"
  proof (intro ext set_eqI)
    fix k' n
    have "n \<in> sharers_of d' k' \<longleftrightarrow> valid_block d k' \<and> valid_node d n \<and> bp_abs b ! nat (node_pos d k' n)"
      unfolding sharers_of_def same by (simp add: d')
    moreover have "n \<in> sharers_of d k' \<Longrightarrow> valid_block d k' \<and> valid_node d n" by (rule sharers_valid)
    ultimately show "n \<in> sharers_of d' k' \<longleftrightarrow> n \<in> ((sharers_of d)(k := S)) k'"
      using k bits [of k' n] S [of n] by (cases "k' = k") auto
  qed
  have entry: "entry_of d' k' = (if k' = k then (entry_of d k)\<lparr>de_num_sharers := int (card S)\<rparr> else entry_of d k')" if "valid_block d k'" for k'
  proof -
    have "nat (entry_pos d k') = nat (entry_pos d k) \<longleftrightarrow> k' = k"
      using entry_pos_bound [OF that] entry_pos_bound [OF k] entry_pos_inj [OF that k] by (auto simp: eq_nat_nat_iff)
    moreover have "d_entries d' = (d_entries d)[nat (entry_pos d k) := (entry_of d k)\<lparr>de_num_sharers := int (card S)\<rparr>]"
      by (simp add: d')
    ultimately show ?thesis using entry_index [OF inv k] by (auto simp: entry_of_def same nth_list_update)
  qed
  have "owner_of d' = owner_of d" by (auto simp: fun_eq_iff owner_of_def same entry)
  moreover have "d_sets d' = d_sets d" "d_ways d' = d_ways d" "d_sub_blocks d' = d_sub_blocks d" "d_nodes d' = d_nodes d"
      "d_sharers d' = b" "length (d_entries d') = length (d_entries d)" "d_locks d' = d_locks d" by (simp_all add: d')
  then have "dir_inv d'" using inv b entry unfolding dir_inv_def same sh by auto
  ultimately show ?thesis using sh by blast
qed

definition dims :: "directory \<Rightarrow> int \<times> int \<times> int \<times> int" where
  "dims d = (d_sets d, d_ways d, d_sub_blocks d, d_nodes d)"

definition dir_abs :: "directory \<Rightarrow> (sub_block \<Rightarrow> int set) \<times> (sub_block \<Rightarrow> int)" where
  "dir_abs d = (sharers_of d, owner_of d)"

lemma set_node:
  assumes inv: "dir_inv d" and k: "valid_block d k" and n: "valid_node d n"
  shows "\<exists>b. bitmap_Set (nat (node_pos d k n)) v (d_sharers d) = Some b \<and> bp_inv b \<and> bp_size b = bp_size (d_sharers d) \<and>
    (\<forall>k' m. valid_block d k' \<longrightarrow> valid_node d m \<longrightarrow> bp_abs b ! nat (node_pos d k' m) = (if k' = k \<and> m = n then v else m \<in> sharers_of d k'))"
proof -
  note i = node_index [OF inv k n]
  have "bp_inv (d_sharers d)" using inv by (simp add: dir_inv_def)
  then obtain b where b: "bitmap_Set (nat (node_pos d k n)) v (d_sharers d) = Some b" "bp_inv b" "bp_size b = bp_size (d_sharers d)"
      "bp_abs b = (bp_abs (d_sharers d))[nat (node_pos d k n) := v]"
    using bitmap_Set_run i by blast
  have "bp_abs b ! nat (node_pos d k' m) = (if k' = k \<and> m = n then v else m \<in> sharers_of d k')"
    if v: "valid_block d k'" "valid_node d m" for k' m
  proof -
    have "nat (node_pos d k' m) = nat (node_pos d k n) \<longleftrightarrow> k' = k \<and> m = n"
      using node_pos_bound [OF k n] node_pos_bound [OF v] node_pos_inj [OF v(1) k v(2) n] by (simp add: eq_nat_nat_iff)
    then show ?thesis using i v by (auto simp: b(4) nth_list_update sharers_of_def simp del: bp_abs_nth)
  qed
  then show ?thesis using b by blast
qed

lemma test_node: "dir_inv d \<Longrightarrow> valid_block d k \<Longrightarrow> valid_node d n \<Longrightarrow>
    bitmap_Test (nat (node_pos d k n)) (d_sharers d) = Some (n \<in> sharers_of d k)"
  using bitmap_Test_run [of "d_sharers d" "nat (node_pos d k n)"] node_index [of d k n]
  by (simp add: dir_inv_def sharers_of_def del: bp_abs_nth)

lemma count_sharers: "dir_inv d \<Longrightarrow> valid_block d k \<Longrightarrow> de_num_sharers (entry_of d k) = int (card (sharers_of d k))"
  unfolding dir_inv_def by blast

lemma setSharer_run:
  assumes inv: "dir_inv d" and k: "valid_block d (x, y, z)" and n: "valid_node d n"
  shows "\<exists>d'. setSharer x y z n d = Some d' \<and> dir_inv d' \<and> dims d' = dims d \<and>
    dir_abs d' = ((sharers_of d)((x, y, z) := insert n (sharers_of d (x, y, z))), owner_of d)"
proof (cases "n \<in> sharers_of d (x, y, z)")
  case True
  then have "setSharer x y z n d = Some d"
    by (simp add: setSharer_def check_node_run [OF k n] sharer_bit_pos test_node [OF inv k n])
  then show ?thesis using inv True by (simp add: dir_abs_def insert_absorb)
next
  case False
  let ?k = "(x, y, z)"
  obtain b where b: "bitmap_Set (nat (node_pos d ?k n)) True (d_sharers d) = Some b" "bp_inv b" "bp_size b = bp_size (d_sharers d)"
      "\<forall>k' m. valid_block d k' \<longrightarrow> valid_node d m \<longrightarrow> bp_abs b ! nat (node_pos d k' m) = (if k' = ?k \<and> m = n then True else m \<in> sharers_of d k')"
    using set_node [OF inv k n, of True] by blast
  have "insert n (sharers_of d ?k) \<subseteq> {0..<d_nodes d}" using n sharers_valid [of _ d ?k] by (auto simp: valid_node_def)
  then have "card (insert n (sharers_of d ?k)) \<le> card {0..<d_nodes d}" by (intro card_mono) simp_all
  then have room: "int (card (sharers_of d ?k)) < d_nodes d" using False inv by (simp add: dir_inv_def)
  let ?d = "d\<lparr>d_entries := (d_entries d)[nat (entry_pos d ?k) := (entry_of d ?k)\<lparr>de_num_sharers := int (card (insert n (sharers_of d ?k)))\<rparr>],
    d_sharers := b\<rparr>"
  have "setSharer x y z n d = Some ?d"
    using entry_index [OF inv k] b(1) room count_sharers [OF inv k] False
    by (simp add: setSharer_def check_node_run [OF k n] sharer_bit_pos test_node [OF inv k n] getEntry_run [OF k] upd_entry_def entry_of_def
        add.commute)
  moreover have "dir_inv ?d \<and> sharers_of ?d = (sharers_of d)(?k := insert n (sharers_of d ?k)) \<and> owner_of ?d = owner_of d"
  proof (rule change_sharers [OF inv k b(2,3) _ _ refl])
    fix k' m assume "valid_block d k'" "valid_node d m"
    then have "bp_abs b ! nat (node_pos d k' m) = (if k' = ?k \<and> m = n then True else m \<in> sharers_of d k')" using b(4) by blast
    then show "bp_abs b ! nat (node_pos d k' m) \<longleftrightarrow> (if k' = ?k then m \<in> insert n (sharers_of d ?k) else m \<in> sharers_of d k')" by auto
  qed (use n sharers_valid [of _ d ?k] in auto)
  ultimately show ?thesis by (simp add: dir_abs_def dims_def)
qed

lemma clearSharer_run:
  assumes inv: "dir_inv d" and k: "valid_block d (x, y, z)" and n: "valid_node d n"
  shows "\<exists>d'. clearSharer x y z n d = Some d' \<and> dir_inv d' \<and> dims d' = dims d \<and>
    dir_abs d' = ((sharers_of d)((x, y, z) := sharers_of d (x, y, z) - {n}), owner_of d)"
proof (cases "n \<in> sharers_of d (x, y, z)")
  case False
  then have "clearSharer x y z n d = Some d"
    by (simp add: clearSharer_def check_node_run [OF k n] sharer_bit_pos test_node [OF inv k n])
  then show ?thesis using inv False by (simp add: dir_abs_def)
next
  case True
  let ?k = "(x, y, z)"
  obtain b where b: "bitmap_Set (nat (node_pos d ?k n)) False (d_sharers d) = Some b" "bp_inv b" "bp_size b = bp_size (d_sharers d)"
      "\<forall>k' m. valid_block d k' \<longrightarrow> valid_node d m \<longrightarrow> bp_abs b ! nat (node_pos d k' m) = (if k' = ?k \<and> m = n then False else m \<in> sharers_of d k')"
    using set_node [OF inv k n, of False] by blast
  have pos: "0 < card (sharers_of d ?k)" using True card_gt_0_iff finite_sharers by blast
  then have card: "int (card (sharers_of d ?k - {n})) = int (card (sharers_of d ?k)) - 1" using True by (simp add: of_nat_diff)
  let ?d = "d\<lparr>d_entries := (d_entries d)[nat (entry_pos d ?k) := (entry_of d ?k)\<lparr>de_num_sharers := int (card (sharers_of d ?k - {n}))\<rparr>],
    d_sharers := b\<rparr>"
  have "clearSharer x y z n d = Some ?d"
    using entry_index [OF inv k] b(1) pos count_sharers [OF inv k] True
    unfolding card
    by (simp add: clearSharer_def check_node_run [OF k n] sharer_bit_pos test_node [OF inv k n] getEntry_run [OF k] upd_entry_def entry_of_def)
  moreover have "dir_inv ?d \<and> sharers_of ?d = (sharers_of d)(?k := sharers_of d ?k - {n}) \<and> owner_of ?d = owner_of d"
  proof (rule change_sharers [OF inv k b(2,3) _ _ refl])
    fix k' m assume "valid_block d k'" "valid_node d m"
    then have "bp_abs b ! nat (node_pos d k' m) = (if k' = ?k \<and> m = n then False else m \<in> sharers_of d k')" using b(4) by blast
    then show "bp_abs b ! nat (node_pos d k' m) \<longleftrightarrow> (if k' = ?k then m \<in> sharers_of d ?k - {n} else m \<in> sharers_of d k')" by auto
  qed (use sharers_valid [of _ d ?k] in auto)
  ultimately show ?thesis by (simp add: dir_abs_def dims_def)
qed

lemma clearAllSharers_run:
  assumes inv: "dir_inv d" and k: "valid_block d (x, y, z)"
  shows "\<exists>d'. clearAllSharers x y z d = Some d' \<and> dir_inv d' \<and> dims d' = dims d \<and>
    dir_abs d' = ((sharers_of d)((x, y, z) := {}), owner_of d)"
proof (cases "sharers_of d (x, y, z) = {}")
  case True
  then have "clearAllSharers x y z d = Some d"
    using entry_index [OF inv k] count_sharers [OF inv k] by (simp add: clearAllSharers_def getEntry_run [OF k] entry_of_def)
  then show ?thesis using inv by (simp add: dir_abs_def fun_upd_idem [of "sharers_of d" "(x, y, z)" "{}", OF True])
next
  case False
  let ?k = "(x, y, z)" and ?s = "d_sharers d"
  let ?I = "\<lambda>i b. bp_inv b \<and> bp_size b = bp_size ?s \<and> (\<forall>k' m. valid_block d k' \<longrightarrow> valid_node d m \<longrightarrow>
    bp_abs b ! nat (node_pos d k' m) = (if k' = ?k \<and> m < int i then False else m \<in> sharers_of d k'))"
  have "\<exists>b. for_loop 0 (nat (d_nodes d)) (\<lambda>i b. bitmap_Set (sharer_bit x y z 0 d + i) False b) ?s = Some b \<and> ?I (nat (d_nodes d)) b"
  proof (rule for_loop_rule [where I = ?I])
    show "?I 0 ?s" using inv by (auto simp: dir_inv_def sharers_of_def valid_node_def)
    fix i b assume i: "i < nat (d_nodes d)" and I: "?I i b"
    have n: "valid_node d (int i)" using i by (simp add: valid_node_def)
    have "0 \<le> node_pos d ?k 0" using node_pos_bound [OF k, of 0] inv by (simp add: valid_node_def dir_inv_def)
    then have at: "sharer_bit x y z 0 d + i = nat (node_pos d ?k (int i))"
      by (simp add: sharer_bit_pos) (simp add: node_pos_def nat_add_distrib)
    have ix: "nat (node_pos d ?k (int i)) < bp_size b" using node_index [OF inv k n] I by simp
    obtain b' where b': "bitmap_Set (nat (node_pos d ?k (int i))) False b = Some b'" "bp_inv b'" "bp_size b' = bp_size b"
        "bp_abs b' = (bp_abs b)[nat (node_pos d ?k (int i)) := False]"
      using bitmap_Set_run [OF _ ix] I by blast
    have "bp_abs b' ! nat (node_pos d k' m) = (if k' = ?k \<and> m < int (Suc i) then False else m \<in> sharers_of d k')"
      if v: "valid_block d k'" "valid_node d m" for k' m
    proof -
      have "nat (node_pos d k' m) = nat (node_pos d ?k (int i)) \<longleftrightarrow> k' = ?k \<and> m = int i"
        using node_pos_bound [OF k n] node_pos_bound [OF v] node_pos_inj [OF v(1) k v(2) n] by (simp add: eq_nat_nat_iff)
      moreover have "bp_abs b ! nat (node_pos d k' m) = (if k' = ?k \<and> m < int i then False else m \<in> sharers_of d k')" using I v by blast
      ultimately show ?thesis using ix by (auto simp: b'(4) nth_list_update simp del: bp_abs_nth)
    qed
    then show "\<exists>b'. bitmap_Set (sharer_bit x y z 0 d + i) False b = Some b' \<and> ?I (Suc i) b'"
      using b' I unfolding at by auto
  qed simp_all
  then obtain b where b: "for_loop 0 (nat (d_nodes d)) (\<lambda>i b. bitmap_Set (sharer_bit x y z 0 d + i) False b) ?s = Some b"
      "?I (nat (d_nodes d)) b" by blast
  have "0 < card (sharers_of d ?k)" using False by (simp add: card_gt_0_iff)
  then have ne: "de_num_sharers (entry_of d ?k) \<noteq> 0" using count_sharers [OF inv k] by linarith
  let ?d = "d\<lparr>d_entries := (d_entries d)[nat (entry_pos d ?k) := (entry_of d ?k)\<lparr>de_num_sharers := int (card ({} :: int set))\<rparr>], d_sharers := b\<rparr>"
  have "clearAllSharers x y z d = Some ?d"
    using entry_index [OF inv k] b(1) ne by (simp add: clearAllSharers_def getEntry_run [OF k] entry_of_def upd_entry_def)
  moreover have "dir_inv ?d \<and> sharers_of ?d = (sharers_of d)(?k := {}) \<and> owner_of ?d = owner_of d"
    by (rule change_sharers [OF inv k _ _ _ _ refl]) (use b(2) in \<open>auto simp: valid_node_def\<close>)
  ultimately show ?thesis by (simp add: dir_abs_def dims_def)
qed

lemma setOwner_run:
  assumes inv: "dir_inv d" and k: "valid_block d (x, y, z)" and n: "n = NoOwner \<or> valid_node d n"
  shows "\<exists>d'. setOwner x y z n d = Some d' \<and> dir_inv d' \<and> dims d' = dims d \<and> dir_abs d' = (sharers_of d, (owner_of d)((x, y, z) := n))"
proof -
  let ?k = "(x, y, z)"
  obtain d' where d': "d' = d\<lparr>d_entries := (d_entries d)[nat (entry_pos d ?k) := (entry_of d ?k)\<lparr>de_owner := n\<rparr>]\<rparr>" by blast
  have run: "setOwner x y z n d = Some d'"
    using n entry_index [OF inv k] by (auto simp: d' setOwner_def getEntry_run [OF k] upd_entry_def entry_of_def inRange_def valid_node_def)
  have same: "valid_block d' = valid_block d" "valid_node d' = valid_node d" "entry_pos d' = entry_pos d" "node_pos d' = node_pos d"
      "num_entries d' = num_entries d" "d_sharers d' = d_sharers d"
    by (auto simp: fun_eq_iff valid_node_def node_pos_def num_entries_def d')
  have sh: "sharers_of d' = sharers_of d" by (rule ext) (simp only: sharers_of_def same)
  have entry: "entry_of d' k' = (if k' = ?k then (entry_of d ?k)\<lparr>de_owner := n\<rparr> else entry_of d k')" if v: "valid_block d k'" for k'
  proof -
    have "nat (entry_pos d k') = nat (entry_pos d ?k) \<longleftrightarrow> k' = ?k"
      using entry_pos_bound [OF v] entry_pos_bound [OF k] entry_pos_inj [OF v k] by (auto simp: eq_nat_nat_iff)
    moreover have "d_entries d' = (d_entries d)[nat (entry_pos d ?k) := (entry_of d ?k)\<lparr>de_owner := n\<rparr>]" by (simp add: d')
    ultimately show ?thesis using entry_index [OF inv k] by (auto simp: entry_of_def same nth_list_update)
  qed
  have ow: "owner_of d' = (owner_of d)(?k := n)"
  proof
    fix k'
    show "owner_of d' k' = ((owner_of d)(?k := n)) k'"
      using k entry [of k'] by (cases "valid_block d k'"; cases "k' = ?k") (simp_all add: owner_of_def same del: valid_block.simps)
  qed
  have dm: "d_sets d' = d_sets d" "d_ways d' = d_ways d" "d_sub_blocks d' = d_sub_blocks d" "d_nodes d' = d_nodes d"
      "length (d_entries d') = length (d_entries d)" "d_locks d' = d_locks d" by (simp_all add: d')
  have "de_num_sharers (entry_of d' k') = int (card (sharers_of d k'))" if "valid_block d k'" for k'
    using entry [OF that] count_sharers [OF inv that] by auto
  then have "dir_inv d'" using inv unfolding dir_inv_def same sh dm by blast
  then show ?thesis using run sh ow by (simp add: dir_abs_def dims_def dm)
qed

lemma isBlockSharedOrOwned_run:
  assumes inv: "dir_inv d" and k: "0 \<le> x" "x < d_sets d" "0 \<le> y" "y < d_ways d"
  shows "isBlockSharedOrOwned x y d =
    Some (\<exists>z \<in> {0..<d_sub_blocks d}. sharers_of d (x, y, z) \<noteq> {} \<or> owner_of d (x, y, z) \<noteq> NoOwner)"
proof -
  let ?P = "\<lambda>z. sharers_of d (x, y, z) \<noteq> {} \<or> owner_of d (x, y, z) \<noteq> NoOwner"
  have "isBlockSharedOrOwned x y d = Some (\<exists>i. 0 \<le> i \<and> i < nat (d_sub_blocks d) \<and> ?P (int i))"
    unfolding isBlockSharedOrOwned_def
  proof (rule any_loop_run)
    fix i assume "i < nat (d_sub_blocks d)"
    then have v: "valid_block d (x, y, int i)" using k by simp
    have "0 < de_num_sharers (entry_of d (x, y, int i)) \<longleftrightarrow> sharers_of d (x, y, int i) \<noteq> {}"
      using count_sharers [OF inv v] by (simp add: card_gt_0_iff)
    then show "(do { entry \<leftarrow> getEntry x y (int i) d; e \<leftarrow> rd (d_entries d) entry; Some (0 < de_num_sharers e \<or> de_owner e \<noteq> NoOwner) })
        = Some (?P (int i))"
      using entry_index [OF inv v] v by (simp add: getEntry_run [OF v] entry_of_def owner_of_def del: valid_block.simps)
  qed
  moreover have "(\<exists>i. 0 \<le> i \<and> i < nat (d_sub_blocks d) \<and> ?P (int i)) \<longleftrightarrow> (\<exists>z \<in> {0..<d_sub_blocks d}. ?P z)"
  proof
    assume "\<exists>z \<in> {0..<d_sub_blocks d}. ?P z"
    then obtain z where "z \<in> {0..<d_sub_blocks d}" "?P z" by blast
    then show "\<exists>i. 0 \<le> i \<and> i < nat (d_sub_blocks d) \<and> ?P (int i)" by (intro exI [of _ "nat z"]) auto
  next
    assume "\<exists>i. 0 \<le> i \<and> i < nat (d_sub_blocks d) \<and> ?P (int i)"
    then obtain i where "i < nat (d_sub_blocks d)" "?P (int i)" by blast
    then show "\<exists>z \<in> {0..<d_sub_blocks d}. ?P z" by (intro bexI [of _ "int i"]) auto
  qed
  ultimately show ?thesis by simp
qed

lemma directory_create_run:
  assumes "0 < a" "0 < b" "0 < c" "0 < n" "a * b * c * n < 2 ^ 64"
  shows "dir_inv (directory_create a b c n) \<and> dims (directory_create a b c n) = (a, b, c, n) \<and>
    dir_abs (directory_create a b c n) = (\<lambda>_. {}, \<lambda>_. NoOwner)"
proof -
  let ?d = "directory_create a b c n"
  have d: "d_sets ?d = a" "d_ways ?d = b" "d_sub_blocks ?d = c" "d_nodes ?d = n" "num_entries ?d = a * b * c"
      "d_sharers ?d = bitmap_create (nat (a * b * c * n))"
      "d_entries ?d = replicate (nat (a * b * c)) \<lparr>de_owner = NoOwner, de_num_sharers = 0\<rparr>" "length (d_locks ?d) = nat (a * b)"
    by (simp_all add: directory_create_def num_entries_def)
  have "0 < a * b * c * n" using assms by simp
  then have bits: "bp_inv (d_sharers ?d)" "bp_abs (d_sharers ?d) = replicate (nat (a * b * c * n)) False"
    using create_bitmap [of "nat (a * b * c * n)"] assms(5) unfolding d by (auto simp: nat_less_iff)
  have size: "bp_size (d_sharers ?d) = nat (a * b * c * n)" using bits(2) length_bp_abs [of "d_sharers ?d"] by simp
  have "\<not> bp_abs (d_sharers ?d) ! nat (node_pos ?d k m)" if "valid_block ?d k" "valid_node ?d m" for k m
    using node_pos_bound [OF that] d(4,5) by (simp add: bits(2) nat_less_iff)
  then have sh: "sharers_of ?d k = {}" for k by (auto simp: sharers_of_def)
  have entry: "entry_of ?d k = \<lparr>de_owner = NoOwner, de_num_sharers = 0\<rparr>" if "valid_block ?d k" for k
    using entry_pos_bound [OF that] unfolding entry_of_def d by (simp add: nat_less_iff)
  have "owner_of ?d k = NoOwner" for k using entry [of k] by (simp add: owner_of_def)
  then have "dir_abs ?d = (\<lambda>_. {}, \<lambda>_. NoOwner)" using sh by (simp add: dir_abs_def fun_eq_iff)
  moreover have "dir_inv ?d" using assms bits(1) size entry sh unfolding dir_inv_def d by simp
  ultimately show ?thesis using d by (simp add: dims_def)
qed

section \<open>The directory as an abstract data type\<close>

datatype dir_call = D_setOwner sub_block int | D_setSharer sub_block int | D_clearSharer sub_block int | D_clearAll sub_block
  | D_isSharer sub_block int | D_isBlockSharedOrOwned int int | D_getNumSharers sub_block | D_getOwner sub_block

datatype dir_result = V_done | V_bool bool | V_int int

fun directory_call :: "dir_call \<Rightarrow> directory \<Rightarrow> (directory \<times> dir_result) option" where
  "directory_call (D_setOwner (x, y, z) n) d = do { d \<leftarrow> setOwner x y z n d; Some (d, V_done) }"
| "directory_call (D_setSharer (x, y, z) n) d = do { d \<leftarrow> setSharer x y z n d; Some (d, V_done) }"
| "directory_call (D_clearSharer (x, y, z) n) d = do { d \<leftarrow> clearSharer x y z n d; Some (d, V_done) }"
| "directory_call (D_clearAll (x, y, z)) d = do { d \<leftarrow> clearAllSharers x y z d; Some (d, V_done) }"
| "directory_call (D_isSharer (x, y, z) n) d = do { v \<leftarrow> isSharer x y z n d; Some (d, V_bool v) }"
| "directory_call (D_isBlockSharedOrOwned x y) d = do { v \<leftarrow> isBlockSharedOrOwned x y d; Some (d, V_bool v) }"
| "directory_call (D_getNumSharers (x, y, z)) d = do { i \<leftarrow> getEntry x y z d; e \<leftarrow> rd (d_entries d) i; Some (d, V_int (de_num_sharers e)) }"
| "directory_call (D_getOwner (x, y, z)) d = do { i \<leftarrow> getEntry x y z d; e \<leftarrow> rd (d_entries d) i; Some (d, V_int (de_owner e)) }"

fun in_dims :: "int \<times> int \<times> int \<times> int \<Rightarrow> sub_block \<Rightarrow> bool" where
  "in_dims (a, b, c, n) (x, y, z) \<longleftrightarrow> 0 \<le> x \<and> x < a \<and> 0 \<le> y \<and> y < b \<and> 0 \<le> z \<and> z < c"

fun node_ok :: "int \<times> int \<times> int \<times> int \<Rightarrow> int \<Rightarrow> bool" where
  "node_ok (a, b, c, n) i \<longleftrightarrow> 0 \<le> i \<and> i < n"

fun dir_ok :: "int \<times> int \<times> int \<times> int \<Rightarrow> dir_call \<Rightarrow> (sub_block \<Rightarrow> int set) \<times> (sub_block \<Rightarrow> int) \<Rightarrow> bool" where
  "dir_ok D (D_setOwner k n) _ \<longleftrightarrow> in_dims D k \<and> (n = NoOwner \<or> node_ok D n)"
| "dir_ok D (D_setSharer k n) _ \<longleftrightarrow> in_dims D k \<and> node_ok D n"
| "dir_ok D (D_clearSharer k n) _ \<longleftrightarrow> in_dims D k \<and> node_ok D n"
| "dir_ok D (D_clearAll k) _ \<longleftrightarrow> in_dims D k"
| "dir_ok D (D_isSharer k n) _ \<longleftrightarrow> in_dims D k \<and> node_ok D n"
| "dir_ok (a, b, c, n) (D_isBlockSharedOrOwned x y) _ \<longleftrightarrow> 0 \<le> x \<and> x < a \<and> 0 \<le> y \<and> y < b"
| "dir_ok D (D_getNumSharers k) _ \<longleftrightarrow> in_dims D k"
| "dir_ok D (D_getOwner k) _ \<longleftrightarrow> in_dims D k"

fun dir_spec :: "int \<times> int \<times> int \<times> int \<Rightarrow> dir_call \<Rightarrow> (sub_block \<Rightarrow> int set) \<times> (sub_block \<Rightarrow> int) \<Rightarrow>
    ((sub_block \<Rightarrow> int set) \<times> (sub_block \<Rightarrow> int)) \<times> dir_result" where
  "dir_spec D (D_setOwner k n) (sh, ow) = ((sh, ow(k := n)), V_done)"
| "dir_spec D (D_setSharer k n) (sh, ow) = ((sh(k := insert n (sh k)), ow), V_done)"
| "dir_spec D (D_clearSharer k n) (sh, ow) = ((sh(k := sh k - {n}), ow), V_done)"
| "dir_spec D (D_clearAll k) (sh, ow) = ((sh(k := {}), ow), V_done)"
| "dir_spec D (D_isSharer k n) (sh, ow) = ((sh, ow), V_bool (n \<in> sh k))"
| "dir_spec (a, b, c, n) (D_isBlockSharedOrOwned x y) (sh, ow) =
     ((sh, ow), V_bool (\<exists>z \<in> {0..<c}. sh (x, y, z) \<noteq> {} \<or> ow (x, y, z) \<noteq> NoOwner))"
| "dir_spec D (D_getNumSharers k) (sh, ow) = ((sh, ow), V_int (int (card (sh k))))"
| "dir_spec D (D_getOwner k) (sh, ow) = ((sh, ow), V_int (ow k))"

lemma in_dims_valid: "in_dims (dims d) k = valid_block d k" "node_ok (dims d) n = valid_node d n"
  by (cases k; simp add: dims_def valid_node_def)+

interpretation dir_adt: adt "\<lambda>d. dir_inv d \<and> dims d = D" dir_abs directory_call "dir_ok D" "dir_spec D" for D
proof
  fix d c assume "dir_inv d \<and> dims d = D" and ok: "dir_ok D c (dir_abs d)"
  then have inv: "dir_inv d" and D: "D = dims d" by simp_all
  note ok = ok [unfolded D]
  show "\<exists>d'. directory_call c d = Some (d', snd (dir_spec D c (dir_abs d))) \<and> (dir_inv d' \<and> dims d' = D) \<and>
    dir_abs d' = fst (dir_spec D c (dir_abs d))"
  proof (cases c)
    case (D_setOwner k n)
    then show ?thesis using ok setOwner_run [OF inv, of _ _ _ n]
      by (cases k) (fastforce simp: in_dims_valid dir_abs_def D simp del: valid_block.simps)
  next
    case (D_setSharer k n)
    then show ?thesis using ok setSharer_run [OF inv, of _ _ _ n]
      by (cases k) (fastforce simp: in_dims_valid dir_abs_def D simp del: valid_block.simps)
  next
    case (D_clearSharer k n)
    then show ?thesis using ok clearSharer_run [OF inv, of _ _ _ n]
      by (cases k) (fastforce simp: in_dims_valid dir_abs_def D simp del: valid_block.simps)
  next
    case (D_clearAll k)
    then show ?thesis using ok clearAllSharers_run [OF inv]
      by (cases k) (fastforce simp: in_dims_valid dir_abs_def D simp del: valid_block.simps)
  next
    case (D_isSharer k n)
    then show ?thesis using ok inv test_node [OF inv, of k n] check_node_run [of d _ _ _ n]
      by (cases k) (simp add: in_dims_valid dir_abs_def D isSharer_def sharer_bit_pos del: valid_block.simps)
  next
    case (D_isBlockSharedOrOwned x y)
    then show ?thesis using ok inv isBlockSharedOrOwned_run [OF inv, of x y] by (simp add: dims_def dir_abs_def D)
  next
    case (D_getNumSharers k)
    then show ?thesis using ok inv entry_index [OF inv, of k] count_sharers [OF inv, of k] getEntry_run [of d]
      by (cases k) (simp add: in_dims_valid dir_abs_def D entry_of_def del: valid_block.simps)
  next
    case (D_getOwner k)
    then show ?thesis using ok inv entry_index [OF inv, of k] getEntry_run [of d]
      by (cases k) (simp add: in_dims_valid dir_abs_def D entry_of_def owner_of_def del: valid_block.simps)
  qed
qed

section \<open>Locks\<close>

definition lock_of :: "directory \<Rightarrow> int \<Rightarrow> int \<Rightarrow> dir_lock" where
  "lock_of d x y = d_locks d ! nat (x * d_ways d + y)"

definition valid_lock :: "directory \<Rightarrow> int \<Rightarrow> int \<Rightarrow> bool" where
  "valid_lock d x y \<longleftrightarrow> 0 \<le> x \<and> x < d_sets d \<and> 0 \<le> y \<and> y < d_ways d \<and> length (d_locks d) = nat (d_sets d * d_ways d)"

lemma getLock_run: "valid_lock d x y \<Longrightarrow> getLock x y d = Some (nat (x * d_ways d + y))"
  by (simp add: getLock_def inRange_def valid_lock_def)

lemma lock_index: "valid_lock d x y \<Longrightarrow> nat (x * d_ways d + y) < length (d_locks d)"
  using row_bound [of x "d_sets d" y "d_ways d"] by (auto simp: valid_lock_def)

lemma access_id_run: "valid_lock d x y \<Longrightarrow> getEntryAccessId x y d = Some (dl_access_id (lock_of d x y))"
  using lock_index [of d x y] by (simp add: getEntryAccessId_def getLock_run lock_of_def)

lemma put_lock:
  assumes "valid_lock d x y" "d' = d\<lparr>d_locks := (d_locks d)[nat (x * d_ways d + y) := l]\<rparr>"
  shows "valid_lock d' x y" "lock_of d' x y = l"
  using assms lock_index [OF assms(1)] by (simp_all add: valid_lock_def lock_of_def)

text \<open>A free entry is locked at once; a held one suspends the current frame behind those that wait.\<close>

lemma LockEntry_free:
  assumes "valid_lock d x y" "0 < b" "dl_access_id (lock_of d x y) = 0"
  shows "\<exists>d'. LockEntry x y event b d s = Some (True, d', s) \<and> valid_lock d' x y \<and>
    lock_of d' x y = (lock_of d x y)\<lparr>dl_access_id := b\<rparr>"
  using assms lock_index [OF assms(1)] put_lock [OF assms(1) refl]
  by (simp add: LockEntry_def getLock_run lock_of_def)

lemma LockEntry_held:
  assumes "valid_lock d x y" "0 < b" "dl_access_id (lock_of d x y) \<noteq> 0" "Wait event False (dl_queue (lock_of d x y)) s = Some (q, s')"
  shows "\<exists>d'. LockEntry x y event b d s = Some (False, d', s') \<and> valid_lock d' x y \<and> lock_of d' x y = (lock_of d x y)\<lparr>dl_queue := q\<rparr>"
  using assms lock_index [OF assms(1)] put_lock [OF assms(1) refl]
  by (simp add: LockEntry_def getLock_run lock_of_def)

lemma UnlockEntry_run:
  assumes "valid_lock d x y" "0 < dl_access_id (lock_of d x y)" "WakeupAll (dl_queue (lock_of d x y)) s = Some (q, s')"
  shows "\<exists>d'. UnlockEntry x y (dl_access_id (lock_of d x y)) d s = Some (d', s') \<and> valid_lock d' x y \<and>
    lock_of d' x y = \<lparr>dl_access_id = 0, dl_queue = q\<rparr>"
proof -
  have "(if q_head (dl_queue (lock_of d x y)) \<noteq> NULL then WakeupAll (dl_queue (lock_of d x y)) s else Some (dl_queue (lock_of d x y), s))
      = Some (q, s')"
    using assms(3) by (subst (asm) WakeupAll.simps) (auto simp: WakeupAll.simps)
  then show ?thesis
    using assms lock_index [OF assms(1)] put_lock [OF assms(1) refl]
    by (simp add: UnlockEntry_def getLock_run lock_of_def cong: if_cong)
qed

section \<open>Properties\<close>



text \<open>
  C22: The lock of a directory entry hands over in order. While an access holds it, another access
  that asks for it is suspended behind the frames already waiting and the holder stays the same; only the
  holder can release it; and the release frees the entry and schedules all the waiting frames for the
  current time in the order in which they asked, each with the event it gave.
\<close>

theorem lock_hands_over_in_order:
  assumes lock: "valid_lock d x y" "getEntryAccessId x y d = Some a" "0 < a" "0 < b" "is_queue (dl_queue (lock_of d x y)) s ps"
    and engine: "engine_inv s" "\<not> en_locked s"
    and waiting: "\<forall>p \<in> set ps. f_wakeup_event (the (en_frames s p)) \<noteq> en_null_event s \<and> valid_event s (f_wakeup_event (the (en_frames s p)))"
    and caller: "en_current s \<noteq> NULL" "en_frames s (en_current s) = Some fr" "\<not> f_in_heap fr" "\<not> f_in_queue fr" "f_next fr = NULL"
      "f_wakeup_event fr = NULL" "valid_event s event" "event \<noteq> en_null_event s"
  shows "\<exists>d1 s1 d2 s2. LockEntry x y event b d s = Some (False, d1, s1) \<and> getEntryAccessId x y d1 = Some a \<and>
    (\<forall>c. c \<noteq> a \<longrightarrow> UnlockEntry x y c d1 s1 = None) \<and>
    UnlockEntry x y a d1 s1 = Some (d2, s2) \<and> getEntryAccessId x y d2 = Some 0 \<and> en_heap s2 = en_heap s @ ps @ [en_current s] \<and>
    sorted_wrt (\<lambda>p q. f_sequence (the (en_frames s2 p)) < f_sequence (the (en_frames s2 q))) (ps @ [en_current s]) \<and>
    (\<forall>p \<in> set (ps @ [en_current s]). f_time (the (en_frames s2 p)) \<le> en_time s) \<and>
    f_event (the (en_frames s2 (en_current s))) = event"
proof -
  let ?p = "en_current s" and ?q = "dl_queue (lock_of d x y)"
  have held: "dl_access_id (lock_of d x y) = a" using access_id_run [OF lock(1)] lock(2) by simp
  have event: "event \<noteq> NULL" using caller(7) by (auto simp: valid_event_def event_at_Some)
  obtain q s1 where w: "Wait event False ?q s = Some (q, s1)" "en_heap s1 = en_heap s" "is_queue q s1 (ps @ [?p])"
      "\<forall>r \<in> set ps. f_wakeup_event (the (en_frames s1 r)) = f_wakeup_event (the (en_frames s r))" "f_wakeup_event (the (en_frames s1 ?p)) = event"
    using Wait_run [OF lock(5) caller(1-6) event, of False] by auto
  obtain d1 where d1: "LockEntry x y event b d s = Some (False, d1, s1)" "valid_lock d1 x y" "lock_of d1 x y = (lock_of d x y)\<lparr>dl_queue := q\<rparr>"
    using LockEntry_held [OF lock(1,4) _ w(1)] held lock(3) by auto
  have h1: "dl_access_id (lock_of d1 x y) = a" "dl_queue (lock_of d1 x y) = q" using d1(3) held by simp_all
  have wrong: "UnlockEntry x y c d1 s1 = None" if "c \<noteq> a" for c
    using that h1(1) lock_index [OF d1(2)] by (simp add: UnlockEntry_def getLock_run [OF d1(2)] lock_of_def c_assert_def)
  have clock: "same_clock s s1" by (rule engine_step_clock [OF engine_step.wait_step [OF w(1)]])
  have inv1: "engine_inv s1" by (rule Wait_inv [OF engine(1) w(1)])
  have valid: "valid_event s1 = valid_event s"
    by (rule ext, rule valid_event_domains) (use clock in \<open>simp_all add: same_clock_def\<close>)
  have ready: "f_wakeup_event (the (en_frames s1 r)) \<noteq> en_null_event s1 \<and> valid_event s1 (f_wakeup_event (the (en_frames s1 r)))"
    if "r \<in> set (ps @ [?p])" for r
    using that w(4,5) waiting caller(7,8) clock unfolding valid by (auto simp: same_clock_def)
  obtain s2 where s2: "WakeupAll q s1 = Some (queue_empty, s2)" "en_heap s2 = en_heap s1 @ ps @ [?p]"
      "\<forall>i < length (ps @ [?p]). \<exists>fr. en_frames s2 ((ps @ [?p]) ! i) = Some fr \<and> f_event fr = f_wakeup_event (the (en_frames s1 ((ps @ [?p]) ! i))) \<and>
        f_time fr \<le> en_time s1 \<and> f_sequence fr = en_sequence s1 + 1 + int i"
    using WakeupAll_run [OF w(3) inv1 _ ready] engine(2) clock by (auto simp: same_clock_def)
  obtain d2 where d2: "UnlockEntry x y a d1 s1 = Some (d2, s2)" "valid_lock d2 x y" "dl_access_id (lock_of d2 x y) = 0"
    using UnlockEntry_run [OF d1(2), of s1 queue_empty s2] h1 lock(3) s2(1) by auto
  have seq: "f_sequence (the (en_frames s2 ((ps @ [?p]) ! i))) = en_sequence s1 + 1 + int i"
      "f_time (the (en_frames s2 ((ps @ [?p]) ! i))) \<le> en_time s1" if "i < length (ps @ [?p])" for i
    using s2(3) that by force+
  have "sorted_wrt (\<lambda>p q. f_sequence (the (en_frames s2 p)) < f_sequence (the (en_frames s2 q))) (ps @ [?p])"
    unfolding sorted_wrt_iff_nth_less using seq(1) by auto
  moreover have "f_time (the (en_frames s2 r)) \<le> en_time s" if r: "r \<in> set (ps @ [?p])" for r
  proof -
    obtain i where i: "i < length (ps @ [?p])" "(ps @ [?p]) ! i = r" using r unfolding in_set_conv_nth by blast
    have "en_time s1 = en_time s" using clock by (simp add: same_clock_def)
    then show ?thesis using seq(2) [OF i(1)] unfolding i(2) by simp
  qed
  moreover have "f_event (the (en_frames s2 ?p)) = event"
    using s2(3) [rule_format, of "length ps"] w(5) by auto
  moreover have "getEntryAccessId x y d1 = Some a" "getEntryAccessId x y d2 = Some 0" "en_heap s2 = en_heap s @ ps @ [?p]"
    using access_id_run [OF d1(2)] access_id_run [OF d2(2)] h1(1) d2(3) s2(2) w(2) by simp_all
  ultimately show ?thesis using d1(1) d2(1) wrong by blast
qed

lemma lock_hands_over_in_order_witness:
  "\<exists>d (s :: ptr list engine) d1 s1 d2 s2. LockEntry 0 0 2 8 d s = Some (False, d1, s1) \<and> UnlockEntry 0 0 8 d1 s1 = None \<and>
    UnlockEntry 0 0 7 d1 s1 = Some (d2, s2) \<and> en_heap s2 = [1, 3, 2] \<and> f_event (the (en_frames s2 2)) = 2"
proof -
  obtain s :: "ptr list engine" and fr where s: "engine_inv s" "en_current s = 2" "en_heap s = [1, 3]" "\<not> en_locked s" "en_null_event s = 1"
      "valid_event s 2" "en_frames s 2 = Some fr" "\<not> f_in_heap fr" "\<not> f_in_queue fr" "f_next fr = NULL" "f_wakeup_event fr = NULL"
    using small_engine_handler by blast
  let ?d = "directory_create 1 1 1 1"
  have v: "valid_lock ?d 0 0" "lock_of ?d 0 0 = \<lparr>dl_access_id = 0, dl_queue = queue_empty\<rparr>"
    by (simp_all add: valid_lock_def lock_of_def directory_create_def)
  obtain d where d: "LockEntry 0 0 2 7 ?d s = Some (True, d, s)" "valid_lock d 0 0" "lock_of d 0 0 = \<lparr>dl_access_id = 7, dl_queue = queue_empty\<rparr>"
    using LockEntry_free [OF v(1), of 7 2 s] v(2) by auto
  have q: "is_queue (dl_queue (lock_of d 0 0)) s []" using d(3) by (simp add: is_queue_def queue_empty_def)
  have a: "getEntryAccessId 0 0 d = Some 7" using access_id_run [OF d(2)] d(3) by simp
  obtain d1 s1 d2 s2 where "LockEntry 0 0 2 8 d s = Some (False, d1, s1)" "\<forall>c. c \<noteq> 7 \<longrightarrow> UnlockEntry 0 0 c d1 s1 = None"
      "UnlockEntry 0 0 7 d1 s1 = Some (d2, s2)" "en_heap s2 = en_heap s @ [] @ [en_current s]" "f_event (the (en_frames s2 (en_current s))) = 2"
    using lock_hands_over_in_order [OF d(2) a _ _ q s(1,4), of 8 fr 2] s by auto
  then show ?thesis using s(2,3) by (intro exI [of _ d] exI [of _ s] exI [of _ d1] exI [of _ s1] exI [of _ d2] exI [of _ s2]) simp
qed

end
