(* ===== verification/SimMmu.thy ===== *)
theory SimMmu
  imports Interfaces
begin

unbundle bit_operations_syntax

text \<open>
  The memory management unit, \<^verbatim>\<open>memory/Mmu.cc\<close>: virtual spaces whose pages are given consecutive physical
  pages when they are first translated, and the translation in both directions. Addresses are 32-bit words.

  A page and a space are objects in vectors that only grow; the pointer to one is its position. A space
  that is not one of this unit's is a position outside its vector, where the assertion of
  \<^verbatim>\<open>TranslateVirtualAddress\<close> on the owner fails. Names and debug output are left out.
\<close>

section \<open>The code\<close>

definition MmuPageSize :: "32 word" where
  "MmuPageSize = push_bit 12 1"

definition MmuPageMask :: "32 word" where
  "MmuPageMask = NOT (MmuPageSize - 1)"

record mmu_page =
  mp_space :: nat
  mp_virtual :: "32 word"
  mp_physical :: "32 word"

record mmu_space =
  ms_virtual_pages :: "32 word \<Rightarrow> nat option"

record mmu =
  mm_top :: "32 word"
  mm_spaces :: "mmu_space list"
  mm_pages :: "mmu_page list"
  mm_physical_pages :: "32 word \<Rightarrow> nat option"

definition Mmu_create :: mmu where
  "Mmu_create = \<lparr>mm_top = 0, mm_spaces = [], mm_pages = [], mm_physical_pages = Map.empty\<rparr>"

definition newSpace :: "mmu \<Rightarrow> nat \<times> mmu" where
  "newSpace m = (length (mm_spaces m), m\<lparr>mm_spaces := mm_spaces m @ [\<lparr>ms_virtual_pages = Map.empty\<rparr>]\<rparr>)"

definition Page_create :: "nat \<Rightarrow> 32 word \<Rightarrow> 32 word \<Rightarrow> mmu_page option" where
  "Page_create space virtual_address physical_address = do {
     c_assert (virtual_address AND NOT MmuPageMask = 0);
     c_assert (physical_address AND NOT MmuPageMask = 0);
     Some \<lparr>mp_space = space, mp_virtual = virtual_address, mp_physical = physical_address\<rparr> }"

definition Space_addPage :: "nat \<Rightarrow> mmu_page \<Rightarrow> mmu_space \<Rightarrow> mmu_space option" where
  "Space_addPage p page sp = do {
     c_assert (mp_virtual page AND NOT MmuPageMask = 0);
     c_assert (ms_virtual_pages sp (mp_virtual page) = None);
     Some (sp\<lparr>ms_virtual_pages := (ms_virtual_pages sp)(mp_virtual page \<mapsto> p)\<rparr>) }"

definition Space_getPage :: "32 word \<Rightarrow> mmu_space \<Rightarrow> nat option option" where
  "Space_getPage virtual_address sp = do {
     c_assert (virtual_address AND NOT MmuPageMask = 0);
     Some (ms_virtual_pages sp virtual_address) }"

definition mmu_new_page :: "nat \<Rightarrow> 32 word \<Rightarrow> mmu \<Rightarrow> (nat \<times> mmu) option" where
  "mmu_new_page space virtual_tag m = do {
     page \<leftarrow> Page_create space virtual_tag (mm_top m);
     let p = length (mm_pages m);
     let m = m\<lparr>mm_pages := mm_pages m @ [page], mm_physical_pages := (mm_physical_pages m)(mp_physical page \<mapsto> p)\<rparr>;
     sp \<leftarrow> rd (mm_spaces m) space;
     sp \<leftarrow> Space_addPage p page sp;
     spaces \<leftarrow> wr (mm_spaces m) space sp;
     Some (p, m\<lparr>mm_spaces := spaces, mm_top := mm_top m + MmuPageSize\<rparr>) }"

definition TranslateVirtualAddress :: "nat \<Rightarrow> 32 word \<Rightarrow> mmu \<Rightarrow> (mmu \<times> 32 word) option" where
  "TranslateVirtualAddress space virtual_address m = do {
     sp \<leftarrow> rd (mm_spaces m) space;
     let virtual_tag = virtual_address AND MmuPageMask;
     let page_offset = virtual_address AND NOT MmuPageMask;
     found \<leftarrow> Space_getPage virtual_tag sp;
     (p, m) \<leftarrow> (case found of Some p \<Rightarrow> Some (p, m) | None \<Rightarrow> mmu_new_page space virtual_tag m);
     page \<leftarrow> rd (mm_pages m) p;
     Some (m, mp_physical page + page_offset) }"

text \<open>The result \<^term>\<open>None\<close> inside is the return value false; the output arguments are then null and 0.\<close>

definition TranslatePhysicalAddress :: "32 word \<Rightarrow> mmu \<Rightarrow> (nat \<times> 32 word) option option" where
  "TranslatePhysicalAddress physical_address m = (let
     physical_tag = physical_address AND MmuPageMask; page_offset = physical_address AND NOT MmuPageMask
     in case mm_physical_pages m physical_tag of
       None \<Rightarrow> Some None
     | Some p \<Rightarrow> do { page \<leftarrow> rd (mm_pages m) p; Some (Some (mp_space page, mp_virtual page + page_offset)) })"

definition isValidPhysicalAddress :: "32 word \<Rightarrow> mmu \<Rightarrow> bool" where
  "isValidPhysicalAddress physical_address m \<longleftrightarrow> mm_physical_pages m (physical_address AND MmuPageMask) \<noteq> None"

section \<open>Tags, offsets and frames\<close>

definition frame_address :: "nat \<Rightarrow> 32 word" where
  "frame_address i = push_bit 12 (of_nat i)"

lemma mmu_mask: "MmuPageMask = NOT (mask 12)"
  by (simp add: MmuPageMask_def MmuPageSize_def mask_eq_exp_minus_1)

lemma offset_eq [simp]: "x AND NOT MmuPageMask = take_bit 12 x"
  by (simp add: mmu_mask take_bit_eq_mask)

lemma tag_eq [simp]: "x AND MmuPageMask = push_bit 12 (drop_bit 12 x)"
  by (rule bit_word_eqI) (auto simp: mmu_mask bit_simps)

lemma take_push [simp]: "take_bit 12 (push_bit 12 (x :: 32 word)) = 0"
  by (rule bit_word_eqI) (auto simp: bit_simps)

lemma push_plus_take:
  fixes x y :: "32 word"
  shows "push_bit 12 (drop_bit 12 (push_bit 12 y + take_bit 12 x)) = push_bit 12 y"
    "take_bit 12 (push_bit 12 y + take_bit 12 x) = take_bit 12 x"
proof -
  have "push_bit 12 y + take_bit 12 x = push_bit 12 y OR take_bit 12 x"
    by (rule disjunctive_add) (auto simp: bit_simps)
  then show "push_bit 12 (drop_bit 12 (push_bit 12 y + take_bit 12 x)) = push_bit 12 y"
    "take_bit 12 (push_bit 12 y + take_bit 12 x) = take_bit 12 x"
    by (auto intro!: bit_word_eqI simp: bit_simps)
qed

lemma unat_frame_address: "i < 2 ^ 20 \<Longrightarrow> unat (frame_address i) = i * 4096"
  by (simp add: frame_address_def push_bit_eq_mult unat_word_ariths unat_of_nat)

lemma frame_address_inj: "i < 2 ^ 20 \<Longrightarrow> j < 2 ^ 20 \<Longrightarrow> frame_address i = frame_address j \<longleftrightarrow> i = j"
  by (metis unat_frame_address nat_mult_eq_cancel_disj mult.commute zero_neq_numeral)

lemma frame_address_Suc: "frame_address i + MmuPageSize = frame_address (Suc i)"
  by (simp add: frame_address_def MmuPageSize_def push_bit_eq_mult algebra_simps)

lemma frame_address_wraps: "frame_address (2 ^ 20) = 0" "frame_address 0 = 0"
  by (simp_all add: frame_address_def push_bit_eq_mult)

lemma frame_offset [simp]:
  "push_bit 12 (drop_bit 12 (frame_address i + take_bit 12 x)) = frame_address i"
  "take_bit 12 (frame_address i + take_bit 12 x) = take_bit 12 x" "take_bit 12 (frame_address i) = 0"
  by (simp_all add: frame_address_def push_plus_take)

lemma tag_offset [simp]: "push_bit 12 (drop_bit 12 x) + take_bit 12 x = (x :: 32 word)"
  by (rule bits_ident)

section \<open>The invariant\<close>

text \<open>
  Page \<open>i\<close> has frame \<open>i\<close> and belongs to one of the unit's spaces; the map of a space holds exactly the
  pages of that space, and the map of physical pages holds every page under its frame.
\<close>

definition mmu_tags :: "mmu \<Rightarrow> (nat \<times> 32 word) list" where
  "mmu_tags m = map (\<lambda>p. (mp_space p, mp_virtual p)) (mm_pages m)"

definition mmu_inv :: "mmu \<Rightarrow> bool" where
  "mmu_inv m \<longleftrightarrow> distinct (mmu_tags m) \<and> length (mm_pages m) \<le> 2 ^ 20
     \<and> mm_top m = frame_address (length (mm_pages m))
     \<and> (\<forall>i < length (mm_pages m). mp_physical (mm_pages m ! i) = frame_address i)
     \<and> (\<forall>(s, t) \<in> set (mmu_tags m). s < length (mm_spaces m) \<and> take_bit 12 t = 0)
     \<and> (\<forall>s < length (mm_spaces m). \<forall>t p. ms_virtual_pages (mm_spaces m ! s) t = Some p
          \<longleftrightarrow> p < length (mm_pages m) \<and> mmu_tags m ! p = (s, t))
     \<and> (\<forall>a p. mm_physical_pages m a = Some p \<longleftrightarrow> p < length (mm_pages m) \<and> a = frame_address p)"

lemma length_mmu_tags [simp]: "length (mmu_tags m) = length (mm_pages m)"
  by (simp add: mmu_tags_def)

lemma mmu_tags_nth: "p < length (mm_pages m) \<Longrightarrow> mmu_tags m ! p = (mp_space (mm_pages m ! p), mp_virtual (mm_pages m ! p))"
  by (simp add: mmu_tags_def)

lemma Mmu_create_inv: "mmu_inv Mmu_create" "mmu_tags Mmu_create = []"
  by (simp_all add: mmu_inv_def mmu_tags_def Mmu_create_def frame_address_wraps)

lemma newSpace_inv:
  assumes "mmu_inv m"
  shows "mmu_inv (snd (newSpace m))" "mmu_tags (snd (newSpace m)) = mmu_tags m"
proof -
  show t: "mmu_tags (snd (newSpace m)) = mmu_tags m" by (simp add: newSpace_def mmu_tags_def)
  have no: "p < length (mm_pages m) \<Longrightarrow> mmu_tags m ! p \<noteq> (length (mm_spaces m), t)" for p t
    using assms nth_mem [of p "mmu_tags m"] by (force simp: mmu_inv_def)
  show "mmu_inv (snd (newSpace m))"
    using assms no unfolding mmu_inv_def t by (auto simp: newSpace_def nth_append less_Suc_eq)
qed

lemma inv_lookup: "mmu_inv m \<Longrightarrow> s < length (mm_spaces m) \<Longrightarrow>
    ms_virtual_pages (mm_spaces m ! s) t = Some p \<longleftrightarrow> p < length (mm_pages m) \<and> mmu_tags m ! p = (s, t)"
  by (auto simp: mmu_inv_def)

lemma inv_physical: "mmu_inv m \<Longrightarrow> mm_physical_pages m a = Some p \<longleftrightarrow> p < length (mm_pages m) \<and> a = frame_address p"
  by (simp add: mmu_inv_def)

text \<open>The lookup in the map of a space and what it finds; the page that is made when it finds none.\<close>

lemma lookup_cases:
  assumes "mmu_inv m" "s < length (mm_spaces m)"
  shows "(ms_virtual_pages (mm_spaces m ! s) t = None \<and> (s, t) \<notin> set (mmu_tags m)) \<or>
    (\<exists>p < length (mm_pages m). ms_virtual_pages (mm_spaces m ! s) t = Some p \<and> mmu_tags m ! p = (s, t))"
proof (cases "ms_virtual_pages (mm_spaces m ! s) t")
  case None
  then have "p < length (mm_pages m) \<Longrightarrow> mmu_tags m ! p \<noteq> (s, t)" for p
    using inv_lookup [OF assms, of t p] by auto
  then show ?thesis using None by (auto simp: in_set_conv_nth)
next
  case (Some p)
  then show ?thesis using inv_lookup [OF assms, of t p] by auto
qed

definition page_added :: "nat \<Rightarrow> 32 word \<Rightarrow> mmu \<Rightarrow> mmu" where
  "page_added s t m = (let n = length (mm_pages m) in
     m\<lparr>mm_pages := mm_pages m @ [\<lparr>mp_space = s, mp_virtual = t, mp_physical = frame_address n\<rparr>],
       mm_physical_pages := (mm_physical_pages m)(frame_address n \<mapsto> n),
       mm_spaces := (mm_spaces m)[s := (mm_spaces m ! s)\<lparr>ms_virtual_pages := (ms_virtual_pages (mm_spaces m ! s))(t \<mapsto> n)\<rparr>],
       mm_top := frame_address (Suc n)\<rparr>)"

lemma new_page_added:
  assumes "mmu_inv m" "s < length (mm_spaces m)" "(s, t) \<notin> set (mmu_tags m)" "take_bit 12 t = 0"
  shows "mmu_new_page s t m = Some (length (mm_pages m), page_added s t m)"
proof -
  have "ms_virtual_pages (mm_spaces m ! s) t = None" using lookup_cases [OF assms(1,2)] assms(3) by (metis nth_mem length_mmu_tags)
  moreover have "mm_top m = frame_address (length (mm_pages m))" using assms(1) by (simp add: mmu_inv_def)
  ultimately show ?thesis
    using assms by (simp add: mmu_new_page_def Page_create_def Space_addPage_def page_added_def rd_def wr_def frame_address_Suc Let_def)
qed

lemma new_page_inv:
  assumes inv: "mmu_inv m" and s: "s < length (mm_spaces m)" and new: "(s, t) \<notin> set (mmu_tags m)"
    and room: "length (mm_pages m) < 2 ^ 20" and t: "take_bit 12 t = 0"
  obtains m' where "mmu_new_page s t m = Some (length (mm_pages m), m')" "mmu_inv m'"
    "mmu_tags m' = mmu_tags m @ [(s, t)]" "length (mm_spaces m') = length (mm_spaces m)"
    "mp_physical (mm_pages m' ! length (mm_pages m)) = frame_address (length (mm_pages m))"
proof -
  let ?n = "length (mm_pages m)"
  define m' where "m' = page_added s t m"
  have r: "mmu_new_page s t m = Some (?n, m')" using new_page_added [OF inv s new t] by (simp add: m'_def)
  note m'_def = m'_def [unfolded page_added_def Let_def]
  have tags: "mmu_tags m' = mmu_tags m @ [(s, t)]" by (simp add: m'_def mmu_tags_def)
  have fr: "p < ?n \<Longrightarrow> frame_address p \<noteq> frame_address ?n" "p < ?n \<Longrightarrow> frame_address ?n \<noteq> frame_address p" for p
    using room frame_address_inj [of p ?n] frame_address_inj [of ?n p] by simp_all
  have nm: "p < ?n \<Longrightarrow> mmu_tags m ! p \<noteq> (s, t)" for p using new by (metis nth_mem length_mmu_tags)
  have "mmu_inv m'"
    using inv new room t s fr nm unfolding mmu_inv_def tags
    apply (intro conjI)
    subgoal by simp
    subgoal by (simp add: m'_def)
    subgoal by (simp add: m'_def)
    subgoal by (auto simp: m'_def nth_append less_Suc_eq)
    subgoal by (auto simp: m'_def)
    subgoal by (auto simp: m'_def nth_append less_Suc_eq nth_list_update)
    subgoal by (auto simp: m'_def less_Suc_eq)
    done
  then show ?thesis using r tags by (intro that [of m']) (simp_all add: m'_def)
qed

section \<open>The calls and their specification\<close>

text \<open>
  What the unit promises: the pairs of space and tag that were translated, in the order of their first
  translation. The physical address of a pair is its position, the frame number.
\<close>

datatype mmu_op = New_space | To_physical nat "32 word" | To_virtual "32 word" | Is_valid "32 word"

datatype mmu_result = R_space nat | R_physical "32 word" | R_virtual "(nat \<times> 32 word) option" | R_valid bool

fun mmu_call :: "mmu_op \<Rightarrow> mmu \<Rightarrow> (mmu \<times> mmu_result) option" where
  "mmu_call New_space m = (let (s, m) = newSpace m in Some (m, R_space s))"
| "mmu_call (To_physical s v) m = do { (m, a) \<leftarrow> TranslateVirtualAddress s v m; Some (m, R_physical a) }"
| "mmu_call (To_virtual a) m = do { r \<leftarrow> TranslatePhysicalAddress a m; Some (m, R_virtual r) }"
| "mmu_call (Is_valid a) m = Some (m, R_valid (isValidPhysicalAddress a m))"

type_synonym frames = "nat \<times> (nat \<times> 32 word) list"

fun position :: "'a \<Rightarrow> 'a list \<Rightarrow> nat" where
  "position x [] = 0"
| "position x (y # ys) = (if x = y then 0 else Suc (position x ys))"

definition page_base :: "32 word \<Rightarrow> 32 word" where
  "page_base v = word_of_nat (4096 * (unat v div 4096))"

definition frame_owner :: "32 word \<Rightarrow> (nat \<times> 32 word) list \<Rightarrow> (nat \<times> 32 word) option" where
  "frame_owner a ps = (let i = unat a div 4096 in
     if i < length ps then Some (fst (ps ! i), snd (ps ! i) + word_of_nat (unat a mod 4096)) else None)"

fun mmu_ok :: "mmu_op \<Rightarrow> frames \<Rightarrow> bool" where
  "mmu_ok (To_physical s v) (n, ps) \<longleftrightarrow> s < n \<and> ((s, page_base v) \<in> set ps \<or> length ps < 2 ^ 20)"
| "mmu_ok c f \<longleftrightarrow> True"

fun mmu_spec :: "mmu_op \<Rightarrow> frames \<Rightarrow> frames \<times> mmu_result" where
  "mmu_spec New_space (n, ps) = ((Suc n, ps), R_space n)"
| "mmu_spec (To_physical s v) (n, ps) = (let ps' = (if (s, page_base v) \<in> set ps then ps else ps @ [(s, page_base v)])
     in ((n, ps'), R_physical (word_of_nat (4096 * position (s, page_base v) ps' + unat v mod 4096))))"
| "mmu_spec (To_virtual a) (n, ps) = ((n, ps), R_virtual (frame_owner a ps))"
| "mmu_spec (Is_valid a) (n, ps) = ((n, ps), R_valid (unat a div 4096 < length ps))"

definition mmu_frames :: "mmu \<Rightarrow> frames" where
  "mmu_frames m = (length (mm_spaces m), mmu_tags m)"

section \<open>The unit meets its specification\<close>

lemma page_base_eq: "page_base v = push_bit 12 (drop_bit 12 v)"
  by (simp add: page_base_def push_bit_eq_mult drop_bit_eq_div word_arith_nat_div)

lemma offset_word: "word_of_nat (unat v mod 4096) = take_bit 12 (v :: 32 word)"
  by (simp add: take_bit_eq_mod word_arith_nat_mod)

lemma frame_word: "word_of_nat (4096 * i + unat v mod 4096) = frame_address i + take_bit 12 (v :: 32 word)"
  by (simp flip: offset_word) (simp add: frame_address_def push_bit_eq_mult)

lemma tag_is_frame: "push_bit 12 (drop_bit 12 a) = frame_address (unat (a :: 32 word) div 4096)"
  by (simp add: frame_address_def drop_bit_eq_div word_arith_nat_div)

lemma frame_number: "unat (a :: 32 word) div 4096 < 2 ^ 20"
  using unsigned_less [of a, where ?'a = nat] by simp

lemma position_less: "x \<in> set xs \<Longrightarrow> position x xs < length xs \<and> xs ! position x xs = x"
  by (induction xs) auto

lemma position_append: "position x (xs @ ys) = (if x \<in> set xs then position x xs else length xs + position x ys)"
  by (induction xs) auto

lemma position_nth: "distinct xs \<Longrightarrow> i < length xs \<Longrightarrow> position (xs ! i) xs = i"
  by (metis nth_eq_iff_index_eq nth_mem position_less)

lemma inv_frame: "mmu_inv m \<Longrightarrow> p < length (mm_pages m) \<Longrightarrow> mp_physical (mm_pages m ! p) = frame_address p"
  by (simp add: mmu_inv_def)

lemma inv_room: "mmu_inv m \<Longrightarrow> length (mm_pages m) \<le> 2 ^ 20" "mmu_inv m \<Longrightarrow> distinct (mmu_tags m)"
  by (simp_all add: mmu_inv_def)

lemma physical_lookup:
  assumes "mmu_inv m"
  shows "mm_physical_pages m (push_bit 12 (drop_bit 12 a)) =
    (if unat a div 4096 < length (mm_pages m) then Some (unat a div 4096) else None)"
proof -
  have "mm_physical_pages m (push_bit 12 (drop_bit 12 a)) = Some p \<longleftrightarrow> p < length (mm_pages m) \<and> p = unat a div 4096" for p
    using inv_physical [OF assms] inv_room(1) [OF assms] frame_number [of a] frame_address_inj [of "unat a div 4096" p]
    by (auto simp: tag_is_frame)
  then show ?thesis by (metis option.exhaust)
qed

lemma TranslatePhysicalAddress_owner:
  assumes "mmu_inv m"
  shows "TranslatePhysicalAddress a m = Some (frame_owner a (mmu_tags m))"
  by (simp add: TranslatePhysicalAddress_def physical_lookup [OF assms] frame_owner_def Let_def mmu_tags_nth offset_word rd_def)

lemma isValidPhysicalAddress_iff: "mmu_inv m \<Longrightarrow> isValidPhysicalAddress a m \<longleftrightarrow> unat a div 4096 < length (mmu_tags m)"
  by (simp add: isValidPhysicalAddress_def physical_lookup)

lemma TranslateVirtualAddress_frame:
  assumes inv: "mmu_inv m" and s: "s < length (mm_spaces m)"
    and room: "(s, page_base v) \<in> set (mmu_tags m) \<or> length (mm_pages m) < 2 ^ 20"
  obtains m' where "TranslateVirtualAddress s v m = Some (m', frame_address (position (s, page_base v) (mmu_tags m')) + take_bit 12 v)"
    "mmu_inv m'" "length (mm_spaces m') = length (mm_spaces m)"
    "mmu_tags m' = (if (s, page_base v) \<in> set (mmu_tags m) then mmu_tags m else mmu_tags m @ [(s, page_base v)])"
proof (cases "(s, page_base v) \<in> set (mmu_tags m)")
  case True
  then obtain p where p: "p < length (mm_pages m)" "ms_virtual_pages (mm_spaces m ! s) (page_base v) = Some p"
      "mmu_tags m ! p = (s, page_base v)"
    using lookup_cases [OF inv s, of "page_base v"] by auto
  moreover have "position (s, page_base v) (mmu_tags m) = p"
    using position_nth [OF inv_room(2) [OF inv], of p] p by simp
  ultimately show ?thesis
    using True inv s by (intro that [of m])
      (simp_all add: TranslateVirtualAddress_def Space_getPage_def inv_frame page_base_eq rd_def)
next
  case False
  then have "ms_virtual_pages (mm_spaces m ! s) (page_base v) = None"
    using lookup_cases [OF inv s, of "page_base v"] by (metis length_mmu_tags nth_mem)
  moreover have "take_bit 12 (page_base v) = 0" by (simp add: page_base_eq)
  with False obtain m' where m': "mmu_new_page s (page_base v) m = Some (length (mm_pages m), m')" "mmu_inv m'"
      "mmu_tags m' = mmu_tags m @ [(s, page_base v)]" "length (mm_spaces m') = length (mm_spaces m)"
      "mp_physical (mm_pages m' ! length (mm_pages m)) = frame_address (length (mm_pages m))"
    using new_page_inv [OF inv s] room by metis
  moreover have "length (mm_pages m') = Suc (length (mm_pages m))"
    using arg_cong [OF m'(3), of length] by simp
  ultimately show ?thesis
    using False s by (intro that [of m'])
      (simp_all add: TranslateVirtualAddress_def Space_getPage_def page_base_eq rd_def position_append)
qed

interpretation mmu: adt mmu_inv mmu_frames mmu_call mmu_ok mmu_spec
proof (unfold_locales, goal_cases)
  case (1 m c)
  then show ?case
  proof (cases c)
    case (To_physical s v)
    then have s: "s < length (mm_spaces m)" "(s, page_base v) \<in> set (mmu_tags m) \<or> length (mm_pages m) < 2 ^ 20"
      using 1 by (auto simp: mmu_frames_def)
    obtain m' where "TranslateVirtualAddress s v m = Some (m', frame_address (position (s, page_base v) (mmu_tags m')) + take_bit 12 v)"
      "mmu_inv m'" "length (mm_spaces m') = length (mm_spaces m)"
      "mmu_tags m' = (if (s, page_base v) \<in> set (mmu_tags m) then mmu_tags m else mmu_tags m @ [(s, page_base v)])"
      by (rule TranslateVirtualAddress_frame [OF 1(1) s])
    then show ?thesis by (simp add: To_physical mmu_frames_def frame_word [simplified] Let_def)
  next
    case New_space
    then show ?thesis using newSpace_inv [OF 1(1)] by (simp add: mmu_frames_def newSpace_def)
  qed (use 1 in \<open>simp_all add: mmu_frames_def TranslatePhysicalAddress_owner isValidPhysicalAddress_iff\<close>)
qed

section \<open>Runs of the unit\<close>

lemma mmu_run:
  assumes "all_ok mmu_ok mmu_spec cs (0, [])"
  obtains m where "run_calls mmu_call cs Mmu_create = Some (m, snd (run_spec mmu_spec cs (0, [])))"
    "mmu_inv m" "mmu_frames m = fst (run_spec mmu_spec cs (0, []))"
  using mmu.calls_refine [of Mmu_create cs] Mmu_create_inv assms by (auto simp: mmu_frames_def Mmu_create_def)

text \<open>The specification only ever adds spaces and frames.\<close>

lemma spec_grows:
  "fst (mmu_spec c f) = (n, ps) \<Longrightarrow> fst f \<le> n \<and> (\<exists>qs. ps = snd f @ qs)"
  by (cases f; cases c) (auto simp: Let_def split: if_splits)

lemma run_spec_grows:
  "fst (run_spec mmu_spec cs f) = (n, ps) \<Longrightarrow> fst f \<le> n \<and> (\<exists>qs. ps = snd f @ qs)"
proof (induction cs arbitrary: f)
  case (Cons c cs)
  obtain k qs where k: "fst (mmu_spec c f) = (k, qs)" by fastforce
  then have "fst (run_spec mmu_spec cs (k, qs)) = (n, ps)"
    using Cons.prems by (auto simp: Let_def split: prod.splits)
  then show ?case using Cons.IH [of "(k, qs)"] spec_grows [OF k] by fastforce
qed (simp add: prod_eq_iff)

text \<open>An address that was translated once keeps its frame.\<close>

definition translates :: "nat \<Rightarrow> 32 word \<Rightarrow> 32 word \<Rightarrow> mmu \<Rightarrow> bool" where
  "translates s v a m \<longleftrightarrow> TranslateVirtualAddress s v m = Some (m, a) \<and> TranslatePhysicalAddress a m = Some (Some (s, v))"

lemma translates_iff:
  assumes "mmu_inv m" "s < length (mm_spaces m)" "(s, page_base v) \<in> set (mmu_tags m)"
  shows "translates s v (frame_address (position (s, page_base v) (mmu_tags m)) + take_bit 12 v) m"
proof -
  obtain p where p: "p < length (mm_pages m)" "ms_virtual_pages (mm_spaces m ! s) (page_base v) = Some p"
      "mmu_tags m ! p = (s, page_base v)"
    using lookup_cases [OF assms(1,2), of "page_base v"] assms(3) by auto
  have pos: "position (s, page_base v) (mmu_tags m) = p"
    using position_nth [OF inv_room(2) [OF assms(1)], of p] p by simp
  let ?a = "frame_address p + take_bit 12 v"
  have tag: "push_bit 12 (drop_bit 12 ?a) = frame_address p" by simp
  have off: "take_bit 12 ?a = take_bit 12 v" by simp
  have "mm_physical_pages m (frame_address p) = Some p" using inv_physical [OF assms(1)] p(1) by simp
  then have "TranslatePhysicalAddress ?a m = Some (Some (s, v))"
    using p mmu_tags_nth [OF p(1)] unfolding TranslatePhysicalAddress_def tag_eq offset_eq tag off
    by (simp add: rd_def page_base_eq)
  moreover have "TranslateVirtualAddress s v m = Some (m, ?a)"
    using p assms by (simp add: TranslateVirtualAddress_def Space_getPage_def inv_frame page_base_eq rd_def)
  ultimately show ?thesis by (simp add: translates_def pos)
qed

lemma translates_stays:
  assumes "mmu_inv m" "s < length (mm_spaces m)" "(s, page_base v) \<in> set (mmu_tags m)" "translates s v a m"
    and ok: "all_ok mmu_ok mmu_spec ds (mmu_frames m)" and run: "run_calls mmu_call ds m = Some (m', rs)"
  shows "translates s v a m'"
proof -
  have m': "mmu_inv m'" "mmu_frames m' = fst (run_spec mmu_spec ds (mmu_frames m))"
    using mmu.calls_refine [OF assms(1) ok] run by auto
  have "fst (run_spec mmu_spec ds (mmu_frames m)) = (length (mm_spaces m'), mmu_tags m')"
    using m'(2) by (simp add: mmu_frames_def)
  from run_spec_grows [OF this] obtain qs where g: "length (mm_spaces m) \<le> length (mm_spaces m')" "mmu_tags m' = mmu_tags m @ qs"
    by (auto simp: mmu_frames_def)
  have "a = frame_address (position (s, page_base v) (mmu_tags m)) + take_bit 12 v"
    using assms(4) translates_iff [OF assms(1-3)] by (simp add: translates_def)
  then show ?thesis using translates_iff [OF m'(1), of s v] assms(2,3) g by (simp add: position_append)
qed

lemma ok_room: "mmu_ok (To_physical s v) (mmu_frames m) \<longleftrightarrow>
    s < length (mm_spaces m) \<and> ((s, page_base v) \<in> set (mmu_tags m) \<or> length (mm_pages m) < 2 ^ 20)"
  by (simp add: mmu_frames_def)

text \<open>The run that takes the first \<open>n\<close> frames for the first space: page \<open>i\<close> gets frame \<open>i\<close>.\<close>

definition fill_calls :: "nat \<Rightarrow> mmu_op list" where
  "fill_calls n = New_space # New_space # map (\<lambda>i. To_physical 0 (frame_address i)) [0..<n]"

lemma run_spec_append: "fst (run_spec spec (cs @ ds) a) = fst (run_spec spec ds (fst (run_spec spec cs a)))"
  by (induction cs arbitrary: a) (simp_all add: Let_def case_prod_beta)

lemma all_ok_append: "all_ok ok spec (cs @ ds) a \<longleftrightarrow> all_ok ok spec cs a \<and> all_ok ok spec ds (fst (run_spec spec cs a))"
  by (induction cs arbitrary: a) (simp_all add: Let_def case_prod_beta)

lemma page_base_frame [simp]: "page_base (frame_address i) = frame_address i"
  by (simp add: page_base_eq frame_address_def) (rule bit_word_eqI, auto simp: bit_simps)

lemma fill_calls_spec:
  "n \<le> 2 ^ 20 \<Longrightarrow> all_ok mmu_ok mmu_spec (fill_calls n) (0, [])
     \<and> fst (run_spec mmu_spec (fill_calls n) (0, [])) = (2, map (\<lambda>i. (0, frame_address i)) [0..<n])"
proof (induction n)
  case 0
  then show ?case by (simp add: fill_calls_def)
next
  case (Suc n)
  have split: "fill_calls (Suc n) = fill_calls n @ [To_physical 0 (frame_address n)]" by (simp add: fill_calls_def)
  have "(0, frame_address n) \<notin> set (map (\<lambda>i. (0 :: nat, frame_address i)) [0..<n])"
    using Suc.prems frame_address_inj by fastforce
  then show ?case using Suc by (simp add: split run_spec_append all_ok_append Let_def)
qed

section \<open>Properties\<close>

text \<open>
  a run of the unit refines its specification: from a new unit, calls that create spaces and translate
  addresses in both directions return what a list of (space, page) pairs, in the order of their first
  translation, gives when a pair's position is its frame number, as long as no call needs more than \<open>2 ^ 20\<close> frames.
\<close>

theorem mmu_refines_frames:
  assumes "all_ok mmu_ok mmu_spec cs (0, [])"
  shows "\<exists>m. run_calls mmu_call cs Mmu_create = Some (m, snd (run_spec mmu_spec cs (0, [])))"
  by (rule mmu_run [OF assms]) blast

theorem mmu_refines_frames_witness:
  "\<exists>m. run_calls mmu_call [New_space, New_space, To_physical 1 0x2345, To_physical 0 0x2345, To_physical 1 0x2008,
      To_virtual 0x1345, Is_valid 0x2000] Mmu_create
    = Some (m, [R_space 0, R_space 1, R_physical 0x345, R_physical 0x1345, R_physical 8, R_virtual (Some (0, 0x2345)), R_valid False])"
  using mmu_refines_frames [of "[New_space, New_space, To_physical 1 0x2345, To_physical 0 0x2345, To_physical 1 0x2008,
      To_virtual 0x1345, Is_valid 0x2000]"]
  by (simp add: page_base_def frame_owner_def)



text \<open>
  C24: when all \<open>2 ^ 20\<close> frames are in use, the next new page is given frame 0 a second time: its address and the
  address of the first page then have the same physical address, which translates back to the new page only.
\<close>

theorem mmu_reuses_first_frame:
  assumes "all_ok mmu_ok mmu_spec cs (0, [])" "run_calls mmu_call cs Mmu_create = Some (m, rs)"
    and "length (mm_pages m) = 2 ^ 20" "s < length (mm_spaces m)" "(s, page_base v) \<notin> set (mmu_tags m)"
    and "mmu_tags m ! 0 = (s0, t0)"
  shows "\<exists>m'. TranslateVirtualAddress s v m = Some (m', word_of_nat (unat v mod 4096))
    \<and> TranslateVirtualAddress s0 (t0 + word_of_nat (unat v mod 4096)) m' = Some (m', word_of_nat (unat v mod 4096))
    \<and> TranslatePhysicalAddress (word_of_nat (unat v mod 4096)) m' = Some (Some (s, v))"
proof -
  have inv: "mmu_inv m" using mmu_run [OF assms(1)] assms(2) by force
  define t where "t = page_base v"
  define m' where "m' = page_added s t m"
  have new: "(s, t) \<notin> set (mmu_tags m)" and al: "take_bit 12 t = 0" using assms(5) by (simp_all add: t_def page_base_eq)
  have none: "ms_virtual_pages (mm_spaces m ! s) t = None"
    using lookup_cases [OF inv assms(4), of t] new by (metis nth_mem length_mmu_tags)
  have first: "(s0, t0) \<in> set (mmu_tags m)" using assms(3,6) by (metis length_mmu_tags nth_mem zero_less_numeral zero_less_power)
  then have s0: "s0 < length (mm_spaces m)" and al0: "take_bit 12 t0 = 0" and ne: "(s0, t0) \<noteq> (s, t)"
    using inv new by (auto simp: mmu_inv_def)
  have old: "ms_virtual_pages (mm_spaces m' ! s0) t0 = Some 0"
    using inv_lookup [OF inv s0, of t0 0] assms(3,6) ne s0 
    by (cases "s0 = s") (auto simp: m'_def page_added_def Let_def)
  have pages: "mp_physical (mm_pages m' ! 0) = 0" "mm_pages m' ! (2 ^ 20) = \<lparr>mp_space = s, mp_virtual = t, mp_physical = 0\<rparr>"
    "length (mm_pages m') = Suc (2 ^ 20)" "mm_physical_pages m' 0 = Some (2 ^ 20)" "length (mm_spaces m') = length (mm_spaces m)"
    using inv_frame [OF inv, of 0] assms(3)
    by (simp_all add: m'_def page_added_def Let_def nth_append frame_address_wraps del: power_numeral)
  have "mm_pages m' \<noteq> []" by (simp add: m'_def page_added_def Let_def)
  have step: "mmu_new_page s t m = Some (2 ^ 20, m')"
    using new_page_added [OF inv assms(4) new al] assms(3) by (simp add: m'_def)
  have t0: "push_bit 12 (drop_bit 12 t0) = t0" using tag_offset [of t0] al0 by simp
  have split: "push_bit 12 (drop_bit 12 (t0 + take_bit 12 v)) = t0" "take_bit 12 (t0 + take_bit 12 v) = take_bit 12 v"
    using push_plus_take [of "drop_bit 12 t0" v] by (simp_all add: t0)
  have zero: "push_bit 12 (drop_bit 12 (take_bit 12 v)) = (0 :: 32 word)" by (rule bit_word_eqI) (auto simp: bit_simps)
  have "TranslateVirtualAddress s v m = Some (m', take_bit 12 v)"
    using none step pages assms(4) by (simp add: TranslateVirtualAddress_def Space_getPage_def rd_def t_def page_base_eq)
  moreover have "TranslateVirtualAddress s0 (t0 + take_bit 12 v) m' = Some (m', take_bit 12 v)"
    using old pages s0 \<open>mm_pages m' \<noteq> []\<close> by (simp add: TranslateVirtualAddress_def Space_getPage_def rd_def split al0)
  moreover have "TranslatePhysicalAddress (take_bit 12 v) m' = Some (Some (s, v))"
    using pages by (simp add: TranslatePhysicalAddress_def rd_def zero t_def page_base_eq)
  ultimately show ?thesis by (simp add: offset_word)
qed

theorem mmu_reuses_first_frame_witness:
  "\<exists>m m' rs. run_calls mmu_call (fill_calls (2 ^ 20)) Mmu_create = Some (m, rs)
     \<and> TranslateVirtualAddress 1 0x8 m = Some (m', 8) \<and> TranslateVirtualAddress 0 0x8 m' = Some (m', 8)
     \<and> TranslatePhysicalAddress 8 m' = Some (Some (1, 8))"
proof -
  note ok = fill_calls_spec [OF order.refl]
  obtain m rs where m: "run_calls mmu_call (fill_calls (2 ^ 20)) Mmu_create = Some (m, rs)"
      "mmu_frames m = fst (run_spec mmu_spec (fill_calls (2 ^ 20)) (0, []))"
    by (rule mmu_run [OF conjunct1 [OF ok]])
  then have f: "length (mm_spaces m) = 2" "mmu_tags m = map (\<lambda>i. (0, frame_address i)) [0..<2 ^ 20]"
    using ok by (simp_all add: mmu_frames_def del: upt_conv_Cons)
  have "length (mm_pages m) = 2 ^ 20" using arg_cong [OF f(2), of length] by simp
  moreover have "mmu_tags m ! 0 = (0, 0)" by (simp add: f(2) frame_address_wraps)
  moreover have "(1, page_base 8) \<notin> set (mmu_tags m)" by (auto simp: f(2))
  ultimately show ?thesis
    using mmu_reuses_first_frame [OF conjunct1 [OF ok] m(1), of 1 8 0 0] f(1) m(1) by auto
qed

end
