(* ===== verification/SimNetwork.thy ===== *)
theory SimNetwork
  imports Interfaces
begin

text \<open>
  The parts of an interconnection network, \<^verbatim>\<open>network/Network.cc\<close>: nodes, buffers, links and buses, and the
  functions that put them together.

  A node is its index, which the code also stores in it; buffers and connections are positions in the lists
  of all buffers and of all connections. Names, bandwidths, packets and statistics are left out.
\<close>

section \<open>The code\<close>

record net_buffer =
  bf_node :: nat
  bf_index :: nat
  bf_size :: int
  bf_connection :: nat

record net_node =
  nd_end_node :: bool
  nd_input_buffer_size :: int
  nd_output_buffer_size :: int
  nd_input_buffers :: "nat list"
  nd_output_buffers :: "nat list"

datatype connection_kind = Link nat nat nat | Bus nat

record connection =
  cn_kind :: connection_kind
  cn_source_buffers :: "nat list"
  cn_destination_buffers :: "nat list"

record network =
  nw_nodes :: "net_node list"
  nw_connections :: "connection list"
  nw_buffers :: "net_buffer list"
  nw_num_end_nodes :: nat

definition network_new :: network where
  "network_new = \<lparr>nw_nodes = [], nw_connections = [], nw_buffers = [], nw_num_end_nodes = 0\<rparr>"

datatype net_error = Two_end_nodes | Bad_buffer_size

definition addEndNode :: "int \<Rightarrow> int \<Rightarrow> network \<Rightarrow> nat \<times> network" where
  "addEndNode input_buffer_size output_buffer_size nw = (length (nw_nodes nw),
     nw\<lparr>nw_nodes := nw_nodes nw @ [\<lparr>nd_end_node = True, nd_input_buffer_size = input_buffer_size,
          nd_output_buffer_size = output_buffer_size, nd_input_buffers = [], nd_output_buffers = []\<rparr>],
        nw_num_end_nodes := nw_num_end_nodes nw + 1\<rparr>)"

definition addSwitch :: "int \<Rightarrow> int \<Rightarrow> network \<Rightarrow> nat \<times> network" where
  "addSwitch input_buffer_size output_buffer_size nw = (length (nw_nodes nw),
     nw\<lparr>nw_nodes := nw_nodes nw @ [\<lparr>nd_end_node = False, nd_input_buffer_size = input_buffer_size,
          nd_output_buffer_size = output_buffer_size, nd_input_buffers = [], nd_output_buffers = []\<rparr>]\<rparr>)"

definition addInputBuffer :: "int \<Rightarrow> nat \<Rightarrow> nat \<Rightarrow> network \<Rightarrow> (nat \<times> network) option" where
  "addInputBuffer sz connection node nw = do {
     nd \<leftarrow> rd (nw_nodes nw) node;
     let b = length (nw_buffers nw);
     nodes \<leftarrow> wr (nw_nodes nw) node (nd\<lparr>nd_input_buffers := nd_input_buffers nd @ [b]\<rparr>);
     Some (b, nw\<lparr>nw_nodes := nodes, nw_buffers := nw_buffers nw @
       [\<lparr>bf_node = node, bf_index = length (nd_input_buffers nd), bf_size = sz, bf_connection = connection\<rparr>]\<rparr>) }"

definition addOutputBuffer :: "int \<Rightarrow> nat \<Rightarrow> nat \<Rightarrow> network \<Rightarrow> (nat \<times> network) option" where
  "addOutputBuffer sz connection node nw = do {
     nd \<leftarrow> rd (nw_nodes nw) node;
     let b = length (nw_buffers nw);
     nodes \<leftarrow> wr (nw_nodes nw) node (nd\<lparr>nd_output_buffers := nd_output_buffers nd @ [b]\<rparr>);
     Some (b, nw\<lparr>nw_nodes := nodes, nw_buffers := nw_buffers nw @
       [\<lparr>bf_node = node, bf_index = length (nd_output_buffers nd), bf_size = sz, bf_connection = connection\<rparr>]\<rparr>) }"

definition addSourceBuffer :: "nat \<Rightarrow> nat \<Rightarrow> network \<Rightarrow> network option" where
  "addSourceBuffer buffer connection nw = do {
     cn \<leftarrow> rd (nw_connections nw) connection;
     cs \<leftarrow> wr (nw_connections nw) connection (cn\<lparr>cn_source_buffers := cn_source_buffers cn @ [buffer]\<rparr>);
     Some (nw\<lparr>nw_connections := cs\<rparr>) }"

definition addDestinationBuffer :: "nat \<Rightarrow> nat \<Rightarrow> network \<Rightarrow> network option" where
  "addDestinationBuffer buffer connection nw = do {
     cn \<leftarrow> rd (nw_connections nw) connection;
     cs \<leftarrow> wr (nw_connections nw) connection (cn\<lparr>cn_destination_buffers := cn_destination_buffers cn @ [buffer]\<rparr>);
     Some (nw\<lparr>nw_connections := cs\<rparr>) }"

definition sender_port :: "int \<Rightarrow> nat \<Rightarrow> nat \<Rightarrow> network \<Rightarrow> network option" where
  "sender_port sz connection node nw = do {
     (b, nw) \<leftarrow> addOutputBuffer sz connection node nw; addSourceBuffer b connection nw }"

definition receiver_port :: "int \<Rightarrow> nat \<Rightarrow> nat \<Rightarrow> network \<Rightarrow> network option" where
  "receiver_port sz connection node nw = do {
     (b, nw) \<leftarrow> addInputBuffer sz connection node nw; addDestinationBuffer b connection nw }"

text \<open>The constructor of a link adds a buffer at either end for every virtual channel.\<close>

fun link_channels :: "nat \<Rightarrow> int \<Rightarrow> int \<Rightarrow> nat \<Rightarrow> nat \<Rightarrow> nat \<Rightarrow> network \<Rightarrow> network option" where
  "link_channels 0 src_size dst_size connection source_node dest_node nw = Some nw"
| "link_channels (Suc n) src_size dst_size connection source_node dest_node nw = do {
     nw \<leftarrow> sender_port src_size connection source_node nw;
     nw \<leftarrow> receiver_port dst_size connection dest_node nw;
     link_channels n src_size dst_size connection source_node dest_node nw }"

definition addLink :: "nat \<Rightarrow> nat \<Rightarrow> int \<Rightarrow> int \<Rightarrow> nat \<Rightarrow> network \<Rightarrow> (net_error + nat \<times> network) option" where
  "addLink source_node dest_node source_buffer_size dest_buffer_size num_virtual_channels nw = do {
     s \<leftarrow> rd (nw_nodes nw) source_node;
     d \<leftarrow> rd (nw_nodes nw) dest_node;
     if nd_end_node s \<and> nd_end_node d then Some (Inl Two_end_nodes)
     else do {
       let c = length (nw_connections nw);
       let nw = nw\<lparr>nw_connections := nw_connections nw @
         [\<lparr>cn_kind = Link source_node dest_node num_virtual_channels, cn_source_buffers = [], cn_destination_buffers = []\<rparr>]\<rparr>;
       nw \<leftarrow> link_channels num_virtual_channels source_buffer_size dest_buffer_size c source_node dest_node nw;
       Some (Inr (c, nw)) } }"

definition addBidirectionalLink :: "nat \<Rightarrow> nat \<Rightarrow> int \<Rightarrow> int \<Rightarrow> nat \<Rightarrow> network \<Rightarrow> (net_error + network) option" where
  "addBidirectionalLink source_node dest_node source_buffer_size dest_buffer_size num_virtual_channels nw = do {
     r \<leftarrow> addLink source_node dest_node source_buffer_size dest_buffer_size num_virtual_channels nw;
     case r of Inl e \<Rightarrow> Some (Inl e) | Inr (_, nw) \<Rightarrow> do {
       r \<leftarrow> addLink dest_node source_node source_buffer_size dest_buffer_size num_virtual_channels nw;
       case r of Inl e \<Rightarrow> Some (Inl e) | Inr (_, nw) \<Rightarrow> Some (Inr nw) } }"

definition addBus :: "nat \<Rightarrow> network \<Rightarrow> nat \<times> network" where
  "addBus lanes nw = (length (nw_connections nw),
     nw\<lparr>nw_connections := nw_connections nw @ [\<lparr>cn_kind = Bus lanes, cn_source_buffers = [], cn_destination_buffers = []\<rparr>]\<rparr>)"

text \<open>
  The ports of a bus, as the configuration asks for them: a variable \<^verbatim>\<open>BufferSize\<close> that is absent is \<^term>\<open>None\<close>.
\<close>

datatype port_type = Sender | Receiver | Bidirectional

definition add_bus_port :: "port_type \<Rightarrow> int option \<Rightarrow> int \<Rightarrow> int \<Rightarrow> nat \<Rightarrow> nat \<Rightarrow> network \<Rightarrow> (net_error + network) option" where
  "add_bus_port type buffer_size default_input default_output bus node nw = (case type of
     Sender \<Rightarrow> (let sz = (case buffer_size of Some s \<Rightarrow> s | None \<Rightarrow> default_output)
       in if sz < 1 then Some (Inl Bad_buffer_size) else do { nw \<leftarrow> sender_port sz bus node nw; Some (Inr nw) })
   | Receiver \<Rightarrow> (let sz = (case buffer_size of Some s \<Rightarrow> s | None \<Rightarrow> default_input)
       in if sz < 1 then Some (Inl Bad_buffer_size) else do { nw \<leftarrow> receiver_port sz bus node nw; Some (Inr nw) })
   | Bidirectional \<Rightarrow> (let sz = (case buffer_size of Some s \<Rightarrow> s | None \<Rightarrow> 0)
       in if sz < 0 then Some (Inl Bad_buffer_size) else do {
         nw \<leftarrow> sender_port (if sz = 0 then default_output else sz) bus node nw;
         nw \<leftarrow> receiver_port (if sz = 0 then default_input else sz) bus node nw;
         Some (Inr nw) }))"

section \<open>Well-formed networks\<close>

definition buffer_node :: "network \<Rightarrow> nat \<Rightarrow> nat" where
  "buffer_node nw b = bf_node (nw_buffers nw ! b)"

definition outputs :: "network \<Rightarrow> nat \<Rightarrow> nat list" where
  "outputs nw i = nd_output_buffers (nw_nodes nw ! i)"

definition targets :: "network \<Rightarrow> nat \<Rightarrow> nat list" where
  "targets nw b = map (buffer_node nw) (cn_destination_buffers (nw_connections nw ! bf_connection (nw_buffers nw ! b)))"

definition wf_network :: "network \<Rightarrow> bool" where
  "wf_network nw \<longleftrightarrow>
     (\<forall>bf \<in> set (nw_buffers nw). bf_node bf < length (nw_nodes nw) \<and> bf_connection bf < length (nw_connections nw))
     \<and> (\<forall>i < length (nw_nodes nw). distinct (outputs nw i) \<and> (\<forall>b \<in> set (outputs nw i). b < length (nw_buffers nw) \<and> buffer_node nw b = i))
     \<and> (\<forall>cn \<in> set (nw_connections nw). \<forall>b \<in> set (cn_destination_buffers cn). b < length (nw_buffers nw))"

text \<open>A hop: a node has an output buffer whose connection delivers to another node.\<close>

definition hops :: "network \<Rightarrow> (nat \<times> nat) set" where
  "hops nw = {(i, j). i < length (nw_nodes nw) \<and> i \<noteq> j \<and> (\<exists>b \<in> set (outputs nw i). j \<in> set (targets nw b))}"

lemma network_new_wf: "wf_network network_new" "hops network_new = {}"
  by (simp_all add: wf_network_def network_new_def hops_def)

lemma wf_buffer: "wf_network nw \<Longrightarrow> b < length (nw_buffers nw) \<Longrightarrow>
    buffer_node nw b < length (nw_nodes nw) \<and> bf_connection (nw_buffers nw ! b) < length (nw_connections nw)"
  by (simp add: wf_network_def buffer_node_def)

lemma wf_output: "wf_network nw \<Longrightarrow> i < length (nw_nodes nw) \<Longrightarrow> b \<in> set (outputs nw i) \<Longrightarrow>
    b < length (nw_buffers nw) \<and> buffer_node nw b = i"
  by (simp add: wf_network_def)

lemma wf_destination: "wf_network nw \<Longrightarrow> c < length (nw_connections nw) \<Longrightarrow>
    b \<in> set (cn_destination_buffers (nw_connections nw ! c)) \<Longrightarrow> b < length (nw_buffers nw)"
  unfolding wf_network_def by (meson nth_mem)

lemma hops_inside:
  assumes "wf_network nw" "(i, j) \<in> hops nw"
  shows "i < length (nw_nodes nw)" "j < length (nw_nodes nw)" "i \<noteq> j"
proof -
  show i: "i < length (nw_nodes nw)" "i \<noteq> j" using assms(2) by (simp_all add: hops_def)
  obtain b where b: "b \<in> set (outputs nw i)" "j \<in> set (targets nw b)" using assms(2) by (auto simp: hops_def)
  have "bf_connection (nw_buffers nw ! b) < length (nw_connections nw)" using wf_buffer [OF assms(1)] wf_output [OF assms(1) i(1) b(1)] by blast
  then show "j < length (nw_nodes nw)"
    using b(2) wf_destination [OF assms(1)] wf_buffer [OF assms(1)] by (auto simp: targets_def)
qed

lemma add_node_wf:
  assumes "wf_network nw" "nw_buffers nw' = nw_buffers nw" "nw_connections nw' = nw_connections nw"
    "nw_nodes nw' = nw_nodes nw @ [nd]" "nd_output_buffers nd = []"
  shows "wf_network nw'" "hops nw' = hops nw"
proof -
  have o: "outputs nw' i = (if i < length (nw_nodes nw) then outputs nw i else [])" if "i \<le> length (nw_nodes nw)" for i
    using that assms(4,5) by (auto simp: outputs_def nth_append)
  have b: "buffer_node nw' = buffer_node nw" "targets nw' = targets nw" using assms(2,3) by (simp_all add: fun_eq_iff buffer_node_def targets_def [abs_def])
  show "wf_network nw'" using assms(1) o unfolding wf_network_def assms(2,3,4) b by (auto simp: less_Suc_eq)
  show "hops nw' = hops nw" using o unfolding hops_def b assms(4) by (auto simp: less_Suc_eq)
qed

lemma addNode_wf:
  assumes "wf_network nw"
  shows "wf_network (snd (addEndNode a b nw))" "hops (snd (addEndNode a b nw)) = hops nw"
    "wf_network (snd (addSwitch a b nw))" "hops (snd (addSwitch a b nw)) = hops nw"
proof -
  show "wf_network (snd (addEndNode a b nw))" by (rule add_node_wf(1) [OF assms]) (simp add: addEndNode_def)+
  show "hops (snd (addEndNode a b nw)) = hops nw" by (rule add_node_wf(2) [OF assms]) (simp add: addEndNode_def)+
  show "wf_network (snd (addSwitch a b nw))" by (rule add_node_wf(1) [OF assms]) (simp add: addSwitch_def)+
  show "hops (snd (addSwitch a b nw)) = hops nw" by (rule add_node_wf(2) [OF assms]) (simp add: addSwitch_def)+
qed

text \<open>The nodes that send into a connection and those that receive from it determine the hops.\<close>

definition senders :: "network \<Rightarrow> nat \<Rightarrow> nat set" where
  "senders nw c = {i. i < length (nw_nodes nw) \<and> (\<exists>b \<in> set (outputs nw i). bf_connection (nw_buffers nw ! b) = c)}"

definition receivers :: "network \<Rightarrow> nat \<Rightarrow> nat set" where
  "receivers nw c = buffer_node nw ` set (cn_destination_buffers (nw_connections nw ! c))"

lemma hops_alt: "hops nw = {(i, j). i \<noteq> j \<and> (\<exists>c. i \<in> senders nw c \<and> j \<in> receivers nw c)}"
  by (auto simp: hops_def senders_def receivers_def targets_def)

lemma senders_inside: "wf_network nw \<Longrightarrow> i \<in> senders nw c \<Longrightarrow> c < length (nw_connections nw)"
  by (fastforce simp: wf_network_def senders_def)

lemma sender_port_run:
  assumes wf: "wf_network nw" and n: "node < length (nw_nodes nw)" and c: "c < length (nw_connections nw)"
  obtains nw' where "sender_port sz c node nw = Some nw'" "wf_network nw'"
    "length (nw_nodes nw') = length (nw_nodes nw)" "length (nw_connections nw') = length (nw_connections nw)"
    "\<And>c'. senders nw' c' = (if c' = c then insert node (senders nw c) else senders nw c')"
    "\<And>c'. c' < length (nw_connections nw) \<Longrightarrow> receivers nw' c' = receivers nw c'"
proof -
  let ?nd = "nw_nodes nw ! node" and ?b = "length (nw_buffers nw)" and ?cn = "nw_connections nw ! c"
  define nw' where "nw' = nw\<lparr>nw_nodes := (nw_nodes nw)[node := ?nd\<lparr>nd_output_buffers := nd_output_buffers ?nd @ [?b]\<rparr>],
    nw_buffers := nw_buffers nw @ [\<lparr>bf_node = node, bf_index = length (nd_output_buffers ?nd), bf_size = sz, bf_connection = c\<rparr>],
    nw_connections := (nw_connections nw)[c := ?cn\<lparr>cn_source_buffers := cn_source_buffers ?cn @ [?b]\<rparr>]\<rparr>"
  have run: "sender_port sz c node nw = Some nw'"
    using n c by (simp add: sender_port_def addOutputBuffer_def addSourceBuffer_def nw'_def Let_def)
  have o: "outputs nw' i = (if i = node then outputs nw i @ [?b] else outputs nw i)" if "i < length (nw_nodes nw)" for i
    using that n by (simp add: outputs_def nw'_def)
  have old: "buffer_node nw' b = buffer_node nw b" "bf_connection (nw_buffers nw' ! b) = bf_connection (nw_buffers nw ! b)" if "b < ?b" for b
    using that by (simp_all add: buffer_node_def nw'_def nth_append)
  have new: "buffer_node nw' ?b = node" "bf_connection (nw_buffers nw' ! ?b) = c" by (simp_all add: buffer_node_def nw'_def)
  have lens: "length (nw_nodes nw') = length (nw_nodes nw)" "length (nw_connections nw') = length (nw_connections nw)"
    "length (nw_buffers nw') = Suc ?b" by (simp_all add: nw'_def)
  have dst: "cn_destination_buffers (nw_connections nw' ! c') = cn_destination_buffers (nw_connections nw ! c')" for c'
    using c by (cases "c' = c") (simp_all add: nw'_def)
  have outs: "b < ?b" "buffer_node nw b = i" if "i < length (nw_nodes nw)" "b \<in> set (outputs nw i)" for i b
    using wf_output [OF wf that] by simp_all
  have dests: "b < ?b" if "c' < length (nw_connections nw)" "b \<in> set (cn_destination_buffers (nw_connections nw ! c'))" for c' b
    by (rule wf_destination [OF wf that])
  have bufs: "\<forall>bf \<in> set (nw_buffers nw'). bf_node bf < length (nw_nodes nw) \<and> bf_connection bf < length (nw_connections nw)"
    using wf n c by (auto simp: wf_network_def nw'_def)
  have "wf_network nw'"
    unfolding wf_network_def lens
  proof (intro conjI)
    show "\<forall>i < length (nw_nodes nw). distinct (outputs nw' i) \<and> (\<forall>b \<in> set (outputs nw' i). b < Suc ?b \<and> buffer_node nw' b = i)"
    proof (intro allI impI)
      fix i assume i: "i < length (nw_nodes nw)"
      have "distinct (outputs nw i)" using wf i by (simp add: wf_network_def)
      then show "distinct (outputs nw' i) \<and> (\<forall>b \<in> set (outputs nw' i). b < Suc ?b \<and> buffer_node nw' b = i)"
        using outs [OF i] old new o [OF i] by (auto simp: less_Suc_eq)
    qed
    show "\<forall>cn \<in> set (nw_connections nw'). \<forall>b \<in> set (cn_destination_buffers cn). b < Suc ?b"
    proof (intro ballI)
      fix cn b assume cn: "cn \<in> set (nw_connections nw')" and b: "b \<in> set (cn_destination_buffers cn)"
      obtain c' where "c' < length (nw_connections nw)" "cn = nw_connections nw' ! c'"
        using cn lens(2) by (auto simp: in_set_conv_nth)
      then show "b < Suc ?b" using b dst dests [of c'] by (auto simp: less_Suc_eq split: if_splits)
    qed
  qed (rule bufs)
  moreover have "senders nw' c' = (if c' = c then insert node (senders nw c) else senders nw c')" for c'
  proof -
    have "(\<exists>b \<in> set (outputs nw' i). bf_connection (nw_buffers nw' ! b) = c') \<longleftrightarrow>
        i = node \<and> c' = c \<or> (\<exists>b \<in> set (outputs nw i). bf_connection (nw_buffers nw ! b) = c')" if "i < length (nw_nodes nw)" for i
      using o [OF that] old(2) new(2) outs(1) [OF that] by auto
    then show ?thesis unfolding senders_def lens using n by auto
  qed
  moreover have "receivers nw' c' = receivers nw c'" if "c' < length (nw_connections nw)" for c'
    unfolding receivers_def dst using old(1) dests [OF that] by auto
  ultimately show ?thesis using run lens by (intro that [of nw']) simp_all
qed

lemma receiver_port_run:
  assumes wf: "wf_network nw" and n: "node < length (nw_nodes nw)" and c: "c < length (nw_connections nw)"
  obtains nw' where "receiver_port sz c node nw = Some nw'" "wf_network nw'"
    "length (nw_nodes nw') = length (nw_nodes nw)" "length (nw_connections nw') = length (nw_connections nw)"
    "\<And>c'. senders nw' c' = senders nw c'"
    "\<And>c'. c' < length (nw_connections nw) \<Longrightarrow> receivers nw' c' = (if c' = c then insert node (receivers nw c) else receivers nw c')"
proof -
  let ?nd = "nw_nodes nw ! node" and ?b = "length (nw_buffers nw)" and ?cn = "nw_connections nw ! c"
  define nw' where "nw' = nw\<lparr>nw_nodes := (nw_nodes nw)[node := ?nd\<lparr>nd_input_buffers := nd_input_buffers ?nd @ [?b]\<rparr>],
    nw_buffers := nw_buffers nw @ [\<lparr>bf_node = node, bf_index = length (nd_input_buffers ?nd), bf_size = sz, bf_connection = c\<rparr>],
    nw_connections := (nw_connections nw)[c := ?cn\<lparr>cn_destination_buffers := cn_destination_buffers ?cn @ [?b]\<rparr>]\<rparr>"
  have run: "receiver_port sz c node nw = Some nw'"
    using n c by (simp add: receiver_port_def addInputBuffer_def addDestinationBuffer_def nw'_def Let_def)
  have o: "outputs nw' i = outputs nw i" for i
    using n by (cases "i = node") (simp_all add: outputs_def nw'_def)
  have old: "buffer_node nw' b = buffer_node nw b" "bf_connection (nw_buffers nw' ! b) = bf_connection (nw_buffers nw ! b)" if "b < ?b" for b
    using that by (simp_all add: buffer_node_def nw'_def nth_append)
  have new: "buffer_node nw' ?b = node" by (simp add: buffer_node_def nw'_def)
  have lens: "length (nw_nodes nw') = length (nw_nodes nw)" "length (nw_connections nw') = length (nw_connections nw)"
    "length (nw_buffers nw') = Suc ?b" by (simp_all add: nw'_def)
  have dst: "cn_destination_buffers (nw_connections nw' ! c') = (if c' = c then cn_destination_buffers (nw_connections nw ! c') @ [?b]
      else cn_destination_buffers (nw_connections nw ! c'))" for c'
    using c by (cases "c' = c") (simp_all add: nw'_def)
  have outs: "b < ?b" "buffer_node nw b = i" if "i < length (nw_nodes nw)" "b \<in> set (outputs nw i)" for i b
    using wf_output [OF wf that] by simp_all
  have dests: "b < ?b" if "c' < length (nw_connections nw)" "b \<in> set (cn_destination_buffers (nw_connections nw ! c'))" for c' b
    by (rule wf_destination [OF wf that])
  have bufs: "\<forall>bf \<in> set (nw_buffers nw'). bf_node bf < length (nw_nodes nw) \<and> bf_connection bf < length (nw_connections nw)"
    using wf n c by (auto simp: wf_network_def nw'_def)
  have "wf_network nw'"
    unfolding wf_network_def lens o
  proof (intro conjI)
    show "\<forall>i < length (nw_nodes nw). distinct (outputs nw i) \<and> (\<forall>b \<in> set (outputs nw i). b < Suc ?b \<and> buffer_node nw' b = i)"
      using wf outs old by (auto simp: wf_network_def less_Suc_eq)
    show "\<forall>cn \<in> set (nw_connections nw'). \<forall>b \<in> set (cn_destination_buffers cn). b < Suc ?b"
    proof (intro ballI)
      fix cn b assume cn: "cn \<in> set (nw_connections nw')" and b: "b \<in> set (cn_destination_buffers cn)"
      obtain c' where "c' < length (nw_connections nw)" "cn = nw_connections nw' ! c'"
        using cn lens(2) by (auto simp: in_set_conv_nth)
      then show "b < Suc ?b" using b dst dests [of c'] by (auto simp: less_Suc_eq split: if_splits)
    qed
  qed (rule bufs)
  moreover have "senders nw' c' = senders nw c'" for c'
    unfolding senders_def lens o using old outs by auto
  moreover have "receivers nw' c' = (if c' = c then insert node (receivers nw c) else receivers nw c')" if "c' < length (nw_connections nw)" for c'
    unfolding receivers_def dst using old(1) dests [OF that] new by auto
  ultimately show ?thesis using run lens by (intro that [of nw']) simp_all
qed

lemma new_connection_wf:
  assumes "wf_network nw" "nw' = nw\<lparr>nw_connections := nw_connections nw @ [\<lparr>cn_kind = k, cn_source_buffers = [], cn_destination_buffers = []\<rparr>]\<rparr>"
  shows "wf_network nw'" "length (nw_nodes nw') = length (nw_nodes nw)"
    "senders nw' c = senders nw c" "senders nw' (length (nw_connections nw)) = {}"
    "c < length (nw_connections nw) \<Longrightarrow> receivers nw' c = receivers nw c" "receivers nw' (length (nw_connections nw)) = {}"
proof -
  have b: "buffer_node nw' = buffer_node nw" "outputs nw' = outputs nw"
    using assms(2) by (simp_all add: fun_eq_iff buffer_node_def outputs_def)
  show "wf_network nw'" using assms(1) unfolding wf_network_def b by (auto simp: assms(2) less_Suc_eq)
  show "length (nw_nodes nw') = length (nw_nodes nw)" by (simp add: assms(2))
  show s: "senders nw' c = senders nw c" for c unfolding senders_def b by (simp add: assms(2))
  show "senders nw' (length (nw_connections nw)) = {}" unfolding s using senders_inside [OF assms(1)] by blast
  show "c < length (nw_connections nw) \<Longrightarrow> receivers nw' c = receivers nw c" unfolding receivers_def b by (simp add: assms(2) nth_append)
  show "receivers nw' (length (nw_connections nw)) = {}" unfolding receivers_def by (simp add: assms(2))
qed

lemma link_channels_run:
  assumes "wf_network nw" "s < length (nw_nodes nw)" "d < length (nw_nodes nw)" "c < length (nw_connections nw)"
  shows "\<exists>nw'. link_channels n a b c s d nw = Some nw' \<and> wf_network nw'
    \<and> length (nw_nodes nw') = length (nw_nodes nw) \<and> length (nw_connections nw') = length (nw_connections nw)
    \<and> (\<forall>c'. senders nw' c' = (if c' = c \<and> 0 < n then insert s (senders nw c) else senders nw c'))
    \<and> (\<forall>c' < length (nw_connections nw). receivers nw' c' = (if c' = c \<and> 0 < n then insert d (receivers nw c) else receivers nw c'))"
  using assms
proof (induction n arbitrary: nw)
  case (Suc n)
  obtain n1 where n1: "sender_port a c s nw = Some n1" "wf_network n1"
    "length (nw_nodes n1) = length (nw_nodes nw)" "length (nw_connections n1) = length (nw_connections nw)"
    "\<And>c'. senders n1 c' = (if c' = c then insert s (senders nw c) else senders nw c')"
    "\<And>c'. c' < length (nw_connections nw) \<Longrightarrow> receivers n1 c' = receivers nw c'"
    using sender_port_run [OF Suc.prems(1,2,4), of a] by metis
  obtain n2 where n2: "receiver_port b c d n1 = Some n2" "wf_network n2"
    "length (nw_nodes n2) = length (nw_nodes n1)" "length (nw_connections n2) = length (nw_connections n1)"
    "\<And>c'. senders n2 c' = senders n1 c'"
    "\<And>c'. c' < length (nw_connections n1) \<Longrightarrow> receivers n2 c' = (if c' = c then insert d (receivers n1 c) else receivers n1 c')"
    using receiver_port_run [OF n1(2), of d c b] Suc.prems n1(3,4) by metis
  obtain n3 where n3: "link_channels n a b c s d n2 = Some n3" "wf_network n3"
    "length (nw_nodes n3) = length (nw_nodes n2)" "length (nw_connections n3) = length (nw_connections n2)"
    "\<And>c'. senders n3 c' = (if c' = c \<and> 0 < n then insert s (senders n2 c) else senders n2 c')"
    "\<And>c'. c' < length (nw_connections n2) \<Longrightarrow> receivers n3 c' = (if c' = c \<and> 0 < n then insert d (receivers n2 c) else receivers n2 c')"
    using Suc.IH [of n2] n2 n1 Suc.prems by auto
  show ?case using n1 n2 n3 Suc.prems(4) by (auto simp: insert_absorb)
qed auto

text \<open>A link adds one hop, unless it has no channels or joins a node to itself; a link between two end nodes is an error.\<close>

lemma addLink_run:
  assumes "wf_network nw" "s < length (nw_nodes nw)" "d < length (nw_nodes nw)"
    "\<not> (nd_end_node (nw_nodes nw ! s) \<and> nd_end_node (nw_nodes nw ! d))"
  shows "\<exists>nw'. addLink s d a b n nw = Some (Inr (length (nw_connections nw), nw')) \<and> wf_network nw'
    \<and> length (nw_nodes nw') = length (nw_nodes nw) \<and> hops nw' = hops nw \<union> (if 0 < n \<and> s \<noteq> d then {(s, d)} else {})"
proof -
  let ?c = "length (nw_connections nw)"
  obtain n1 where n1: "n1 = nw\<lparr>nw_connections := nw_connections nw @ [\<lparr>cn_kind = Link s d n, cn_source_buffers = [], cn_destination_buffers = []\<rparr>]\<rparr>"
    by blast
  note new = new_connection_wf [OF assms(1) n1]
  have len: "?c < length (nw_connections n1)" by (simp add: n1)
  have ends: "s < length (nw_nodes n1)" "d < length (nw_nodes n1)" using assms(2,3) new(2) by simp_all
  obtain n2 where n2: "link_channels n a b ?c s d n1 = Some n2" "wf_network n2" "length (nw_nodes n2) = length (nw_nodes n1)"
    "length (nw_connections n2) = length (nw_connections n1)"
    "\<And>c'. senders n2 c' = (if c' = ?c \<and> 0 < n then insert s (senders n1 ?c) else senders n1 c')"
    "\<And>c'. c' < length (nw_connections n1) \<Longrightarrow> receivers n2 c' = (if c' = ?c \<and> 0 < n then insert d (receivers n1 ?c) else receivers n1 c')"
    using link_channels_run [OF new(1) ends len, of n a b] by (elim exE conjE) (rule that, assumption+, simp_all)
  have "addLink s d a b n nw = Some (Inr (?c, n2))"
    using assms(2-4) n2(1) by (auto simp: addLink_def n1 Let_def)
  moreover have "hops n2 = hops nw \<union> (if 0 < n \<and> s \<noteq> d then {(s, d)} else {})"
  proof -
    have snd: "senders n2 c = (if c = ?c then if 0 < n then {s} else {} else senders nw c)" for c
      using n2(5) new(3,4) by auto
    have rcv: "receivers n2 c = (if c = ?c then if 0 < n then {d} else {} else receivers nw c)" if "c \<le> ?c" for c
      using n2(6) [of c] new(5) [of c] new(6) that by (auto simp: n1)
    have "(\<exists>c. i \<in> senders n2 c \<and> j \<in> receivers n2 c) \<longleftrightarrow> 0 < n \<and> i = s \<and> j = d \<or> (\<exists>c. i \<in> senders nw c \<and> j \<in> receivers nw c)"
      (is "?l \<longleftrightarrow> ?r") for i j
    proof
      assume ?l
      then obtain c where c: "i \<in> senders n2 c" "j \<in> receivers n2 c" by blast
      then have "c \<le> ?c" using senders_inside [OF n2(2) c(1)] n2(4) by (simp add: n1)
      then show ?r using c snd rcv by (cases "c = ?c") (auto split: if_splits)
    next
      assume ?r
      then consider "0 < n" "i = s" "j = d" | c where "i \<in> senders nw c" "j \<in> receivers nw c" by blast
      then show ?l
      proof cases
        case 1
        then have "i \<in> senders n2 ?c" "j \<in> receivers n2 ?c" using snd rcv [of ?c] by simp_all
        then show ?thesis by blast
      next
        case (2 c)
        then have "c < ?c" using senders_inside [OF assms(1)] by blast
        then have "i \<in> senders n2 c" "j \<in> receivers n2 c" using 2 snd rcv by simp_all
        then show ?thesis by blast
      qed
    qed
    then show ?thesis by (auto simp: hops_alt)
  qed
  ultimately show ?thesis using n2(2,3) new(2) by auto
qed

lemma map_same_update: "f y = f (xs ! k) \<Longrightarrow> map f (xs[k := y]) = map f xs"
  by (cases "k < length xs") (simp_all add: map_update list_update_same_conv list_update_beyond)

lemma sender_port_nodes:
  assumes "sender_port z c k nw = Some nw'"
  shows "map nd_end_node (nw_nodes nw') = map nd_end_node (nw_nodes nw)"
proof -
  obtain b n1 where n1: "addOutputBuffer z c k nw = Some (b, n1)" "addSourceBuffer b c n1 = Some nw'"
    using assms by (auto simp: sender_port_def bind_eq_Some_conv)
  have "nw_nodes nw' = nw_nodes n1"
    using n1(2) by (cases "c < length (nw_connections n1)") (auto simp: addSourceBuffer_def rd_bad)
  moreover have "map nd_end_node (nw_nodes n1) = map nd_end_node (nw_nodes nw)"
    using n1(1) by (cases "k < length (nw_nodes nw)") (auto simp: addOutputBuffer_def rd_bad Let_def intro!: map_same_update)
  ultimately show ?thesis by simp
qed

lemma receiver_port_nodes:
  assumes "receiver_port z c k nw = Some nw'"
  shows "map nd_end_node (nw_nodes nw') = map nd_end_node (nw_nodes nw)"
proof -
  obtain b n1 where n1: "addInputBuffer z c k nw = Some (b, n1)" "addDestinationBuffer b c n1 = Some nw'"
    using assms by (auto simp: receiver_port_def bind_eq_Some_conv)
  have "nw_nodes nw' = nw_nodes n1"
    using n1(2) by (cases "c < length (nw_connections n1)") (auto simp: addDestinationBuffer_def rd_bad)
  moreover have "map nd_end_node (nw_nodes n1) = map nd_end_node (nw_nodes nw)"
    using n1(1) by (cases "k < length (nw_nodes nw)") (auto simp: addInputBuffer_def rd_bad Let_def intro!: map_same_update)
  ultimately show ?thesis by simp
qed

lemma link_channels_nodes: "link_channels n a b c s d nw = Some nw' \<Longrightarrow> map nd_end_node (nw_nodes nw') = map nd_end_node (nw_nodes nw)"
proof (induction n arbitrary: nw)
  case (Suc n)
  then obtain n1 n2 where "sender_port a c s nw = Some n1" "receiver_port b c d n1 = Some n2" "link_channels n a b c s d n2 = Some nw'"
    by (auto simp: bind_eq_Some_conv)
  then show ?case using Suc.IH sender_port_nodes receiver_port_nodes by metis
qed simp

lemma addLink_nodes: "addLink s d a b n nw = Some (Inr (c, nw')) \<Longrightarrow> map nd_end_node (nw_nodes nw') = map nd_end_node (nw_nodes nw)"
  by (auto simp: addLink_def bind_eq_Some_conv Let_def split: if_splits dest!: link_channels_nodes)

section \<open>Networks given by their nodes and links\<close>

text \<open>The network with a switch or end node per flag, and a link of one channel per pair.\<close>

fun add_links :: "(nat \<times> nat) list \<Rightarrow> network \<Rightarrow> network option" where
  "add_links [] nw = Some nw"
| "add_links ((s, d) # ls) nw = do {
     r \<leftarrow> addLink s d 8 8 1 nw;
     case r of Inl e \<Rightarrow> None | Inr (c, nw) \<Rightarrow> add_links ls nw }"

fun add_nodes :: "bool list \<Rightarrow> network \<Rightarrow> network" where
  "add_nodes [] nw = nw"
| "add_nodes (e # es) nw = add_nodes es (snd (if e then addEndNode 8 8 nw else addSwitch 8 8 nw))"

definition build_network :: "bool list \<Rightarrow> (nat \<times> nat) list \<Rightarrow> network option" where
  "build_network es ls = add_links ls (add_nodes es network_new)"

lemma add_nodes_run: "wf_network nw \<Longrightarrow> wf_network (add_nodes es nw) \<and> hops (add_nodes es nw) = hops nw
    \<and> map nd_end_node (nw_nodes (add_nodes es nw)) = map nd_end_node (nw_nodes nw) @ es"
proof (induction es arbitrary: nw)
  case (Cons e es)
  then show ?case using Cons.IH addNode_wf [OF Cons.prems, of 8 8]
    by (cases e) (simp_all, simp_all add: addEndNode_def addSwitch_def)
qed simp

lemma add_links_run:
  "wf_network nw \<Longrightarrow> \<forall>(s, d) \<in> set ls. s < length (nw_nodes nw) \<and> d < length (nw_nodes nw)
      \<and> \<not> (nd_end_node (nw_nodes nw ! s) \<and> nd_end_node (nw_nodes nw ! d)) \<Longrightarrow>
   \<exists>nw'. add_links ls nw = Some nw' \<and> wf_network nw' \<and> hops nw' = hops nw \<union> (set ls - Id)
    \<and> length (nw_nodes nw') = length (nw_nodes nw)"
proof (induction ls arbitrary: nw)
  case (Cons l ls)
  obtain s d where l: "l = (s, d)" by fastforce
  obtain n1 where n1: "addLink s d 8 8 1 nw = Some (Inr (length (nw_connections nw), n1))" "wf_network n1"
    "length (nw_nodes n1) = length (nw_nodes nw)" "hops n1 = hops nw \<union> (if 0 < (1 :: nat) \<and> s \<noteq> d then {(s, d)} else {})"
    using addLink_run [OF Cons.prems(1), of s d 8 8 1] Cons.prems(2) by (fastforce simp: l)
  have kinds: "nd_end_node (nw_nodes n1 ! i) = nd_end_node (nw_nodes nw ! i)" if "i < length (nw_nodes nw)" for i
    using addLink_nodes [OF n1(1)] that n1(3) by (metis nth_map)
  obtain n2 where "add_links ls n1 = Some n2" "wf_network n2" "hops n2 = hops n1 \<union> (set ls - Id)" "length (nw_nodes n2) = length (nw_nodes n1)"
    using Cons.IH [OF n1(2)] Cons.prems(2) kinds n1(3) by fastforce
  then show ?case using n1 by (auto simp: l)
qed simp

lemma build_network_run:
  assumes "\<forall>(s, d) \<in> set ls. s < length es \<and> d < length es \<and> \<not> (es ! s \<and> es ! d)"
  shows "\<exists>nw. build_network es ls = Some nw \<and> wf_network nw \<and> hops nw = set ls - Id \<and> length (nw_nodes nw) = length es"
proof -
  let ?nw = "add_nodes es network_new"
  have nw: "wf_network ?nw" "hops ?nw = {}" "map nd_end_node (nw_nodes ?nw) = es"
    using add_nodes_run [OF network_new_wf(1), of es] network_new_wf(2) by (simp_all add: network_new_def)
  have "length (nw_nodes ?nw) = length es" using nw(3) by (metis length_map)
  moreover have "nd_end_node (nw_nodes ?nw ! i) = es ! i" if "i < length (nw_nodes ?nw)" for i
    using nw(3) that by (metis nth_map)
  ultimately show ?thesis
    using add_links_run [OF nw(1), of ls] assms nw(2) by (fastforce simp: build_network_def)
qed

end
