(* ===== verification/SimGraph.thy ===== *)
theory SimGraph
  imports CPrelude "HOL-Library.Multiset"
begin

text \<open>
  Directed graphs, \<^verbatim>\<open>lib/cpp/Graph.cc\<close>: vertices and edges, cycle detection by depth-first search, and the
  removal of cycles by reversing edges.

  A vertex is its position in \<^verbatim>\<open>vertices\<close>, which only grows; an edge carries the address of its object, by
  which \<^verbatim>\<open>removeEdge\<close> finds it. Names are left out. Coordinates, keys and degrees are integers. The
  recursion of the search has a depth bound; \<^verbatim>\<open>hasCycle\<close> gives one more than the number of vertices, and
  the theorems show that this is never used up.
\<close>

section \<open>The code\<close>

record vertex =
  vx_x :: int
  vx_y :: int
  vx_key :: int
  vx_neighbors :: int
  vx_in :: "nat list"
  vx_out :: "nat list"

definition vertex_new :: vertex where
  "vertex_new = \<lparr>vx_x = 0, vx_y = -1, vx_key = 0, vx_neighbors = 0, vx_in = [], vx_out = []\<rparr>"

record edge =
  ed_address :: nat
  ed_source :: nat
  ed_destination :: nat
  ed_reversed :: bool

definition edge_new :: "nat \<Rightarrow> nat \<Rightarrow> nat \<Rightarrow> edge" where
  "edge_new address source_vertex destination_vertex =
     \<lparr>ed_address = address, ed_source = source_vertex, ed_destination = destination_vertex, ed_reversed = False\<rparr>"

record graph =
  gr_max_vertices_in_layers :: int
  gr_vertices :: "vertex list"
  gr_edges :: "edge list"

definition graph_new :: graph where
  "graph_new = \<lparr>gr_max_vertices_in_layers = 0, gr_vertices = [], gr_edges = []\<rparr>"

definition getVertex :: "nat \<Rightarrow> graph \<Rightarrow> vertex option" where
  "getVertex v g = rd (gr_vertices g) v"

definition getNumVertices :: "graph \<Rightarrow> nat" where
  "getNumVertices g = length (gr_vertices g)"

definition addVertex :: "vertex \<Rightarrow> graph \<Rightarrow> graph" where
  "addVertex vx g = g\<lparr>gr_vertices := gr_vertices g @ [vx]\<rparr>"

definition upd_vertex :: "nat \<Rightarrow> (vertex \<Rightarrow> vertex) \<Rightarrow> graph \<Rightarrow> graph option" where
  "upd_vertex v f g = do { vx \<leftarrow> rd (gr_vertices g) v; vs \<leftarrow> wr (gr_vertices g) v (f vx); Some (g\<lparr>gr_vertices := vs\<rparr>) }"

definition addEdge :: "edge \<Rightarrow> nat \<Rightarrow> nat \<Rightarrow> graph \<Rightarrow> graph option" where
  "addEdge ed source_vertex destination_vertex g = do {
     g \<leftarrow> Some (g\<lparr>gr_edges := gr_edges g @ [ed]\<rparr>);
     g \<leftarrow> upd_vertex source_vertex (\<lambda>v. v\<lparr>vx_out := vx_out v @ [destination_vertex]\<rparr>) g;
     upd_vertex destination_vertex (\<lambda>v. v\<lparr>vx_in := vx_in v @ [source_vertex]\<rparr>) g }"

text \<open>Erasing the first occurrence; erasing the end of a vector is undefined.\<close>

definition erase_first :: "'a \<Rightarrow> 'a list \<Rightarrow> 'a list option" where
  "erase_first x xs = (if x \<in> set xs then Some (remove1 x xs) else None)"

definition erase_out :: "nat \<Rightarrow> nat \<Rightarrow> graph \<Rightarrow> graph option" where
  "erase_out v w g = do { vx \<leftarrow> rd (gr_vertices g) v; ws \<leftarrow> erase_first w (vx_out vx); upd_vertex v (\<lambda>v. v\<lparr>vx_out := ws\<rparr>) g }"

definition erase_in :: "nat \<Rightarrow> nat \<Rightarrow> graph \<Rightarrow> graph option" where
  "erase_in v w g = do { vx \<leftarrow> rd (gr_vertices g) v; ws \<leftarrow> erase_first w (vx_in vx); upd_vertex v (\<lambda>v. v\<lparr>vx_in := ws\<rparr>) g }"

text \<open>
  Erasing an element of the vector of edges destroys its object. What the code then reads through the pointer
  is looked up among the edges that are left.
\<close>

definition edge_at :: "nat \<Rightarrow> graph \<Rightarrow> edge option" where
  "edge_at address g = find (\<lambda>e. ed_address e = address) (gr_edges g)"

definition removeEdge :: "nat \<Rightarrow> graph \<Rightarrow> (bool \<times> graph) option" where
  "removeEdge address g = (case edge_at address g of
     None \<Rightarrow> Some (False, g)
   | Some it \<Rightarrow> do {
       g \<leftarrow> Some (g\<lparr>gr_edges := remove1 it (gr_edges g)\<rparr>);
       e \<leftarrow> edge_at address g;
       g \<leftarrow> erase_out (ed_source e) (ed_destination e) g;
       g \<leftarrow> erase_in (ed_destination e) (ed_source e) g;
       Some (True, g) })"

definition findEdge :: "nat \<Rightarrow> nat \<Rightarrow> graph \<Rightarrow> edge option" where
  "findEdge source_vertex destination_vertex g =
     find (\<lambda>e. ed_source e = source_vertex \<and> ed_destination e = destination_vertex) (gr_edges g)"

subsection \<open>Cycle detection\<close>

type_synonym marks = "bool list \<times> bool list"

fun dfs_adjacent :: "(nat \<Rightarrow> marks \<Rightarrow> (bool \<times> marks) option) \<Rightarrow> graph \<Rightarrow> nat list \<Rightarrow> marks \<Rightarrow> (bool \<times> marks) option" where
  "dfs_adjacent dfs g [] m = Some (False, m)"
| "dfs_adjacent dfs g (a # as) (visited, stacked) = do {
     c_assert (a < getNumVertices g);
     seen \<leftarrow> rd visited a;
     (found, visited, stacked) \<leftarrow> (if seen then Some (False, visited, stacked) else dfs a (visited, stacked));
     if found then Some (True, visited, stacked)
     else do {
       on_stack \<leftarrow> rd stacked a;
       if on_stack then Some (True, visited, stacked) else dfs_adjacent dfs g as (visited, stacked) } }"

fun CycleDetectionDepthFirstTraverse :: "nat \<Rightarrow> graph \<Rightarrow> nat \<Rightarrow> marks \<Rightarrow> (bool \<times> marks) option" where
  "CycleDetectionDepthFirstTraverse 0 g v m = None"
| "CycleDetectionDepthFirstTraverse (Suc depth) g v (visited, stacked) = do {
     seen \<leftarrow> rd visited v;
     (found, visited, stacked) \<leftarrow> (if seen then Some (False, visited, stacked) else do {
         visited \<leftarrow> wr visited v True;
         stacked \<leftarrow> wr stacked v True;
         vx \<leftarrow> getVertex v g;
         dfs_adjacent (CycleDetectionDepthFirstTraverse depth g) g (vx_out vx) (visited, stacked) });
     if found then Some (True, visited, stacked)
     else do { stacked \<leftarrow> wr stacked v False; Some (False, visited, stacked) } }"

fun has_cycle_loop :: "graph \<Rightarrow> nat list \<Rightarrow> marks \<Rightarrow> bool option" where
  "has_cycle_loop g [] m = Some False"
| "has_cycle_loop g (v # vs) m = do {
     (found, m) \<leftarrow> CycleDetectionDepthFirstTraverse (Suc (getNumVertices g)) g v m;
     if found then Some True else has_cycle_loop g vs m }"

definition hasCycle :: "graph \<Rightarrow> bool option" where
  "hasCycle g = (let n = getNumVertices g in has_cycle_loop g [0..<n] (replicate n False, replicate n False))"

subsection \<open>Cycle removal\<close>

text \<open>
  The vertices are numbered: those without outgoing edges from the end, those without incoming edges from
  the start, the others after these. The list that the code sorts in between holds pointers and is not used
  afterwards. Then every edge from a higher to a lower number is reversed, and the numbers are reset.
\<close>

fun number_ends :: "int \<Rightarrow> int \<Rightarrow> vertex list \<Rightarrow> int \<times> int \<times> vertex list" where
  "number_ends start stop [] = (start, stop, [])"
| "number_ends start stop (v # vs) = (let
     (x, start, stop) = (if vx_out v = [] then (stop, start, stop - 1)
       else if vx_in v = [] then (start, start + 1, stop) else (vx_x v, start, stop));
     v = v\<lparr>vx_x := x, vx_key := int (length (vx_out v)) - int (length (vx_in v))\<rparr>;
     (start, stop, vs) = number_ends start stop vs
     in (start, stop, v # vs))"

fun number_rest :: "int \<Rightarrow> vertex list \<Rightarrow> vertex list" where
  "number_rest start [] = []"
| "number_rest start (v # vs) = (if vx_x v = 0 then v\<lparr>vx_x := start\<rparr> # number_rest (start + 1) vs else v # number_rest start vs)"

definition reverse_edge :: "nat \<Rightarrow> graph \<Rightarrow> graph option" where
  "reverse_edge i g = do {
     e \<leftarrow> rd (gr_edges g) i;
     s \<leftarrow> rd (gr_vertices g) (ed_source e);
     d \<leftarrow> rd (gr_vertices g) (ed_destination e);
     if vx_x d < vx_x s then do {
       g \<leftarrow> erase_out (ed_source e) (ed_destination e) g;
       g \<leftarrow> upd_vertex (ed_source e) (\<lambda>v. v\<lparr>vx_in := vx_in v @ [ed_destination e]\<rparr>) g;
       g \<leftarrow> erase_in (ed_destination e) (ed_source e) g;
       g \<leftarrow> upd_vertex (ed_destination e) (\<lambda>v. v\<lparr>vx_out := vx_out v @ [ed_source e]\<rparr>) g;
       es \<leftarrow> wr (gr_edges g) i (e\<lparr>ed_source := ed_destination e, ed_destination := ed_source e, ed_reversed := True\<rparr>);
       Some (g\<lparr>gr_edges := es\<rparr>) }
     else Some g }"

definition GreedyCycleRemoval :: "graph \<Rightarrow> graph option" where
  "GreedyCycleRemoval g = (let
     (start, stop, vs) = number_ends 1 (int (length (gr_vertices g)) + 1) (gr_vertices g);
     g = g\<lparr>gr_vertices := number_rest start vs\<rparr> in do {
       g \<leftarrow> for_loop 0 (length (gr_edges g)) reverse_edge g;
       Some (g\<lparr>gr_vertices := map (\<lambda>v. v\<lparr>vx_x := 0, vx_key := 0\<rparr>) (gr_vertices g)\<rparr>) })"

section \<open>The search decides whether there is a cycle\<close>

text \<open>The relation of a graph; the lists of outgoing vertices stay inside the graph.\<close>

definition arcs :: "graph \<Rightarrow> (nat \<times> nat) set" where
  "arcs g = {(u, w). u < length (gr_vertices g) \<and> w \<in> set (vx_out (gr_vertices g ! u))}"

definition arcs_inside :: "graph \<Rightarrow> bool" where
  "arcs_inside g \<longleftrightarrow> (\<forall>vx \<in> set (gr_vertices g). \<forall>w \<in> set (vx_out vx). w < length (gr_vertices g))"

text \<open>
  Marks of a search in progress: what is marked and no longer on the stack is finished, that is, closed
  under the arcs and free of cycles.
\<close>

definition finished :: "marks \<Rightarrow> nat set" where
  "finished m = {v. v < length (fst m) \<and> fst m ! v \<and> \<not> snd m ! v}"

definition unseen :: "marks \<Rightarrow> nat set" where
  "unseen m = {v. v < length (fst m) \<and> \<not> fst m ! v}"

definition marks_ok :: "graph \<Rightarrow> marks \<Rightarrow> bool" where
  "marks_ok g m \<longleftrightarrow> length (fst m) = length (gr_vertices g) \<and> length (snd m) = length (gr_vertices g)
     \<and> (\<forall>v < length (gr_vertices g). snd m ! v \<longrightarrow> fst m ! v)
     \<and> arcs g `` finished m \<subseteq> finished m \<and> (\<forall>v \<in> finished m. (v, v) \<notin> (arcs g)\<^sup>+)"

definition cyclic :: "graph \<Rightarrow> bool" where
  "cyclic g \<longleftrightarrow> (\<exists>v. (v, v) \<in> (arcs g)\<^sup>+)"

text \<open>What a search returns: a cycle was found, or more vertices are finished and the stack is as before.\<close>

definition search_result :: "graph \<Rightarrow> marks \<Rightarrow> nat set \<Rightarrow> (bool \<times> marks) option \<Rightarrow> bool" where
  "search_result g m vs r \<longleftrightarrow> (\<exists>found m'. r = Some (found, m') \<and> (if found then cyclic g
     else marks_ok g m' \<and> snd m' = snd m \<and> unseen m' \<subseteq> unseen m \<and> vs \<subseteq> finished m'))"

lemma finite_unseen [simp]: "finite (unseen m)"
  by (simp add: unseen_def)

lemma finished_mono:
  assumes "marks_ok g m" "marks_ok g m'" "snd m' = snd m" "unseen m' \<subseteq> unseen m"
  shows "finished m \<subseteq> finished m'"
  using assms by (auto simp: finished_def unseen_def marks_ok_def)

lemma marks_simps:
  assumes "marks_ok g (visited, stacked)" "a < length (gr_vertices g)"
  shows "rd visited a = Some (visited ! a)" "rd stacked a = Some (stacked ! a)"
    "wr visited a b = Some (visited[a := b])" "wr stacked a b = Some (stacked[a := b])"
  using assms by (simp_all add: marks_ok_def rd_def wr_def)

lemma search_result_step:
  assumes "search_result g m1 vs r" "marks_ok g m1" "snd m1 = snd m" "unseen m1 \<subseteq> unseen m" "a \<in> finished m1"
  shows "search_result g m (insert a vs) r"
proof -
  obtain found m' where r: "r = Some (found, m')"
    "if found then cyclic g else marks_ok g m' \<and> snd m' = snd m1 \<and> unseen m' \<subseteq> unseen m1 \<and> vs \<subseteq> finished m'"
    using assms(1) unfolding search_result_def by blast
  show ?thesis
  proof (cases found)
    case True
    then show ?thesis using r by (auto simp: search_result_def)
  next
    case False
    then have ok: "marks_ok g m'" "snd m' = snd m1" "unseen m' \<subseteq> unseen m1" "vs \<subseteq> finished m'" using r by auto
    have "a \<in> finished m'" using finished_mono [OF assms(2) ok(1-3)] assms(5) by blast
    then show ?thesis using ok assms(3,4) False r(1) by (auto simp: search_result_def)
  qed
qed

lemma dfs_adjacent_result:
  assumes dfs: "\<And>a m. marks_ok g m \<Longrightarrow> a \<in> unseen m \<Longrightarrow> unseen m \<subseteq> U \<Longrightarrow> snd m = S
      \<Longrightarrow> (v, a) \<in> arcs g \<Longrightarrow> search_result g m {a} (dfs a m)"
    and stack: "\<And>s. s < length S \<Longrightarrow> S ! s \<Longrightarrow> (s, v) \<in> (arcs g)\<^sup>*"
    and inside: "arcs_inside g"
  shows "marks_ok g m \<Longrightarrow> unseen m \<subseteq> U \<Longrightarrow> snd m = S \<Longrightarrow> set as \<subseteq> arcs g `` {v}
    \<Longrightarrow> search_result g m (set as) (dfs_adjacent dfs g as m)"
proof (induction as arbitrary: m)
  case Nil
  then show ?case by (auto simp: search_result_def)
next
  case (Cons a as)
  obtain visited stacked where m: "m = (visited, stacked)" by fastforce
  have arc: "(v, a) \<in> arcs g" and a: "a < length (gr_vertices g)"
    using Cons.prems(4) inside by (auto simp: arcs_def arcs_inside_def)
  note simps = marks_simps [OF Cons.prems(1) [unfolded m] a]
  have len: "a < length S" using a Cons.prems(1,3) by (simp add: marks_ok_def)
  show ?case
  proof (cases "visited ! a")
    case True
    show ?thesis
    proof (cases "stacked ! a")
      case on: True
      then have "(a, v) \<in> (arcs g)\<^sup>*" using stack len Cons.prems(3) m by auto
      then have "cyclic g" using arc by (auto simp: cyclic_def dest: rtrancl_into_trancl1)
      then show ?thesis using a simps True on by (auto simp: m search_result_def getNumVertices_def)
    next
      case False
      then have "a \<in> finished m" using True Cons.prems(1) a by (simp add: finished_def m marks_ok_def)
      moreover have "search_result g m (set as) (dfs_adjacent dfs g as m)" using Cons.IH Cons.prems by auto
      moreover have "dfs_adjacent dfs g (a # as) m = dfs_adjacent dfs g as m"
        using a simps True False by (simp add: m getNumVertices_def)
      ultimately show ?thesis using search_result_step [of g m "set as" _ m a] Cons.prems(1) by simp
    qed
  next
    case False
    then have "a \<in> unseen m" using Cons.prems(1) a by (simp add: unseen_def m marks_ok_def)
    from dfs [OF Cons.prems(1) this Cons.prems(2,3) arc] obtain found m1 where
      m1: "dfs a m = Some (found, m1)" "if found then cyclic g
        else marks_ok g m1 \<and> snd m1 = snd m \<and> unseen m1 \<subseteq> unseen m \<and> {a} \<subseteq> finished m1"
      by (auto simp: search_result_def)
    show ?thesis
    proof (cases found)
      case True
      then show ?thesis using m1 a simps False by (auto simp: m search_result_def getNumVertices_def split: prod.splits)
    next
      case nf: False
      then have ok: "marks_ok g m1" "snd m1 = snd m" "unseen m1 \<subseteq> unseen m" "a \<in> finished m1" using m1 by auto
      obtain vis1 stk1 where p: "m1 = (vis1, stk1)" by fastforce
      have "dfs_adjacent dfs g (a # as) m = dfs_adjacent dfs g as m1"
        using m1(1) a simps False nf ok(4) marks_simps(2) [OF ok(1) [unfolded p] a]
        by (simp add: m p getNumVertices_def finished_def)
      moreover have "search_result g m1 (set as) (dfs_adjacent dfs g as m1)" using Cons.IH [OF ok(1)] ok Cons.prems by auto
      ultimately show ?thesis using search_result_step [OF _ ok] by simp
    qed
  qed
qed

text \<open>The marks after a vertex is entered, and after it is left with all its successors finished.\<close>

lemma enter_ok:
  assumes "marks_ok g (visited, stacked)" "v \<in> unseen (visited, stacked)"
  shows "marks_ok g (visited[v := True], stacked[v := True])"
    "unseen (visited[v := True], stacked[v := True]) = unseen (visited, stacked) - {v}"
    "finished (visited[v := True], stacked[v := True]) = finished (visited, stacked)"
proof -
  have v: "v < length visited" "\<not> visited ! v" "\<not> stacked ! v" using assms by (auto simp: unseen_def marks_ok_def)
  show f: "finished (visited[v := True], stacked[v := True]) = finished (visited, stacked)"
    using v assms(1) by (auto simp: finished_def marks_ok_def nth_list_update)
  show "unseen (visited[v := True], stacked[v := True]) = unseen (visited, stacked) - {v}"
    using v by (auto simp: unseen_def nth_list_update)
  show "marks_ok g (visited[v := True], stacked[v := True])"
    using assms(1) v unfolding marks_ok_def f by (auto simp: nth_list_update)
qed

lemma leave_ok:
  assumes ok: "marks_ok g (visited, stacked)" and v: "v < length (gr_vertices g)" "visited ! v" "stacked ! v"
    and out: "arcs g `` {v} \<subseteq> finished (visited, stacked)"
  shows "marks_ok g (visited, stacked[v := False])" "finished (visited, stacked[v := False]) = insert v (finished (visited, stacked))"
    "unseen (visited, stacked[v := False]) = unseen (visited, stacked)"
proof -
  show f: "finished (visited, stacked[v := False]) = insert v (finished (visited, stacked))"
    using ok v by (auto simp: finished_def marks_ok_def nth_list_update)
  show "unseen (visited, stacked[v := False]) = unseen (visited, stacked)" by (simp add: unseen_def)
  have closed: "w \<in> finished (visited, stacked)" if "(u, w) \<in> (arcs g)\<^sup>*" "u \<in> finished (visited, stacked)" for u w
    using that by (induction rule: rtrancl_induct) (use ok in \<open>auto simp: marks_ok_def\<close>)
  have nv: "v \<notin> finished (visited, stacked)" using v by (simp add: finished_def)
  have "(v, v) \<notin> (arcs g)\<^sup>+"
  proof
    assume "(v, v) \<in> (arcs g)\<^sup>+"
    then obtain w where "(v, w) \<in> arcs g" "(w, v) \<in> (arcs g)\<^sup>*" by (blast dest: tranclD)
    then show False using closed out nv by blast
  qed
  moreover have "stacked[v := False] ! s \<longleftrightarrow> s \<noteq> v \<and> stacked ! s" for s
    using ok v(1) by (cases "s = v") (auto simp: marks_ok_def)
  ultimately show "marks_ok g (visited, stacked[v := False])"
    using ok out unfolding marks_ok_def f by auto
qed

lemma search_correct:
  assumes inside: "arcs_inside g"
  shows "marks_ok g m \<Longrightarrow> v \<in> unseen m \<Longrightarrow> card (unseen m) < depth
    \<Longrightarrow> (\<And>s. s < length (snd m) \<Longrightarrow> snd m ! s \<Longrightarrow> (s, v) \<in> (arcs g)\<^sup>*)
    \<Longrightarrow> search_result g m {v} (CycleDetectionDepthFirstTraverse depth g v m)"
proof (induction depth arbitrary: v m)
  case (Suc depth)
  obtain visited stacked where m: "m = (visited, stacked)" by fastforce
  have v: "v < length (gr_vertices g)" "\<not> visited ! v" "\<not> stacked ! v"
    using Suc.prems(1,2) by (auto simp: m unseen_def marks_ok_def)
  note simps = marks_simps [OF Suc.prems(1) [unfolded m] v(1)]
  let ?m = "(visited[v := True], stacked[v := True])"
  note enter = enter_ok [OF Suc.prems(1,2) [unfolded m]]
  have card: "card (unseen ?m) < depth" 
    using Suc.prems(2,3) card_Diff1_less [OF finite_unseen Suc.prems(2)] by (simp add: enter(2) m)
  have stack: "(s, v) \<in> (arcs g)\<^sup>*" if "s < length (snd ?m)" "snd ?m ! s" for s
    using Suc.prems(4) [of s] that by (cases "s = v") (auto simp: m)
  have dfs: "search_result g m' {a} (CycleDetectionDepthFirstTraverse depth g a m')"
    if "marks_ok g m'" "a \<in> unseen m'" "unseen m' \<subseteq> unseen ?m" "snd m' = snd ?m" "(v, a) \<in> arcs g" for a m'
  proof (rule Suc.IH [OF that(1,2)])
    show "card (unseen m') < depth" using card card_mono [OF finite_unseen that(3)] by simp
    show "(s, a) \<in> (arcs g)\<^sup>*" if "s < length (snd m')" "snd m' ! s" for s
      using stack [of s] that \<open>snd m' = snd ?m\<close> \<open>(v, a) \<in> arcs g\<close> by (auto intro: rtrancl_into_rtrancl)
  qed
  let ?out = "vx_out (gr_vertices g ! v)"
  have out: "set ?out = arcs g `` {v}" using v by (auto simp: arcs_def)
  have r: "search_result g ?m (set ?out) (dfs_adjacent (CycleDetectionDepthFirstTraverse depth g) g ?out ?m)"
    by (rule dfs_adjacent_result [OF dfs stack inside enter(1)]) (use out in auto)
  then obtain found vis1 stk1 where r1: "dfs_adjacent (CycleDetectionDepthFirstTraverse depth g) g ?out ?m = Some (found, vis1, stk1)"
      "found \<Longrightarrow> cyclic g" "\<not> found \<Longrightarrow> marks_ok g (vis1, stk1) \<and> stk1 = stacked[v := True] \<and> unseen (vis1, stk1) \<subseteq> unseen ?m
        \<and> set ?out \<subseteq> finished (vis1, stk1)"
    by (auto simp: search_result_def split: if_splits)
  show ?case
  proof (cases found)
    case True
    then show ?thesis using r1 simps v by (auto simp: m search_result_def getVertex_def rd_def)
  next
    case False
    then have ok: "marks_ok g (vis1, stk1)" "stk1 = stacked[v := True]" "unseen (vis1, stk1) \<subseteq> unseen ?m"
      "arcs g `` {v} \<subseteq> finished (vis1, stk1)" using r1(3) out by auto
    have sv: "stk1 ! v" "vis1 ! v" "stk1[v := False] = stacked"
      using ok(1,2) v by (auto simp: marks_ok_def list_update_same_conv)
    have "CycleDetectionDepthFirstTraverse (Suc depth) g v m = Some (False, vis1, stacked)"
      using r1(1) False simps v marks_simps(4) [OF ok(1) v(1)] sv(3) by (simp add: m getVertex_def rd_def)
    then show ?thesis
      using leave_ok [OF ok(1) v(1) sv(2,1) ok(4)] ok(3) sv(3) enter(2) by (auto simp: search_result_def m)
  qed
qed simp

lemma has_cycle_loop_correct:
  assumes inside: "arcs_inside g"
  shows "marks_ok g m \<Longrightarrow> snd m = replicate (getNumVertices g) False \<Longrightarrow> set vs \<subseteq> {..<getNumVertices g}
    \<Longrightarrow> {..<getNumVertices g} - set vs \<subseteq> finished m \<Longrightarrow> has_cycle_loop g vs m = Some (cyclic g)"
proof (induction vs arbitrary: m)
  case Nil
  have "(v, v) \<notin> (arcs g)\<^sup>+" for v
  proof
    assume c: "(v, v) \<in> (arcs g)\<^sup>+"
    then have "v < getNumVertices g" by (auto simp: arcs_def getNumVertices_def dest: tranclD)
    then show False using c Nil by (auto simp: marks_ok_def)
  qed
  then show ?case by (simp add: cyclic_def)
next
  case (Cons v vs)
  obtain visited stacked where m: "m = (visited, stacked)" by fastforce
  have v: "v < length (gr_vertices g)" using Cons.prems(3) by (simp add: getNumVertices_def)
  note simps = marks_simps [OF Cons.prems(1) [unfolded m] v]
  have off: "\<not> stacked ! v" using Cons.prems(2) v by (simp add: m getNumVertices_def)
  show ?case
  proof (cases "visited ! v")
    case True
    then have "v \<in> finished m" using off v Cons.prems(1) by (simp add: m finished_def marks_ok_def)
    moreover have "stacked[v := False] = stacked" using off by (metis list_update_id)
    then have "CycleDetectionDepthFirstTraverse (Suc (getNumVertices g)) g v m = Some (False, m)"
      using simps True by (simp add: m)
    ultimately show ?thesis using Cons.IH [of m] Cons.prems by auto
  next
    case False
    then have u: "v \<in> unseen m" using v Cons.prems(1) by (simp add: m unseen_def marks_ok_def)
    have "card (unseen m) \<le> card {..<length (gr_vertices g)}"
      by (rule card_mono) (use Cons.prems(1) in \<open>auto simp: unseen_def marks_ok_def\<close>)
    then have "card (unseen m) < Suc (getNumVertices g)" by (simp add: getNumVertices_def)
    moreover have "\<not> snd m ! s" if "s < length (snd m)" for s using Cons.prems(2) that by simp
    ultimately have "search_result g m {v} (CycleDetectionDepthFirstTraverse (Suc (getNumVertices g)) g v m)"
      by (intro search_correct [OF inside Cons.prems(1) u]) auto
    then obtain found m1 where m1: "CycleDetectionDepthFirstTraverse (Suc (getNumVertices g)) g v m = Some (found, m1)"
      "if found then cyclic g else marks_ok g m1 \<and> snd m1 = snd m \<and> unseen m1 \<subseteq> unseen m \<and> {v} \<subseteq> finished m1"
      by (auto simp: search_result_def)
    show ?thesis
    proof (cases found)
      case True
      then show ?thesis using m1 by simp
    next
      case nf: False
      then have ok: "marks_ok g m1" "snd m1 = snd m" "unseen m1 \<subseteq> unseen m" "v \<in> finished m1" using m1(2) by auto
      have "{..<getNumVertices g} - set vs \<subseteq> finished m1"
        using Cons.prems(4) ok(4) finished_mono [OF Cons.prems(1) ok(1-3)] by auto
      then show ?thesis using m1(1) nf Cons.IH [OF ok(1)] ok(2) Cons.prems(2,3) by simp
    qed
  qed
qed

lemma hasCycle_cyclic:
  assumes "arcs_inside g"
  shows "hasCycle g = Some (cyclic g)"
  unfolding hasCycle_def Let_def
  by (rule has_cycle_loop_correct [OF assms]) (auto simp: marks_ok_def finished_def getNumVertices_def)

section \<open>Edges and the lists of neighbours agree\<close>

definition links :: "edge multiset \<Rightarrow> nat \<Rightarrow> nat multiset" where
  "links M v = image_mset ed_destination {#e \<in># M. ed_source e = v#}"

definition back_links :: "edge multiset \<Rightarrow> nat \<Rightarrow> nat multiset" where
  "back_links M v = image_mset ed_source {#e \<in># M. ed_destination e = v#}"

definition wf_graph :: "graph \<Rightarrow> bool" where
  "wf_graph g \<longleftrightarrow> (\<forall>v < length (gr_vertices g). mset (vx_out (gr_vertices g ! v)) = links (mset (gr_edges g)) v
       \<and> mset (vx_in (gr_vertices g ! v)) = back_links (mset (gr_edges g)) v)
     \<and> (\<forall>e \<in> set (gr_edges g). ed_source e < length (gr_vertices g) \<and> ed_destination e < length (gr_vertices g))"

lemma links_simps [simp]:
  "links {#} v = {#}" "back_links {#} v = {#}"
  "links (add_mset e M) v = (if ed_source e = v then add_mset (ed_destination e) (links M v) else links M v)"
  "back_links (add_mset e M) v = (if ed_destination e = v then add_mset (ed_source e) (back_links M v) else back_links M v)"
  by (auto simp: links_def back_links_def)

lemma wf_graph_arcs:
  assumes "wf_graph g"
  shows "arcs g = (\<lambda>e. (ed_source e, ed_destination e)) ` set (gr_edges g)" "arcs_inside g"
proof -
  have out: "set (vx_out (gr_vertices g ! v)) = ed_destination ` {e \<in> set (gr_edges g). ed_source e = v}"
    if "v < length (gr_vertices g)" for v

  proof -
    have "set_mset (mset (vx_out (gr_vertices g ! v))) = set_mset (links (mset (gr_edges g)) v)"
      using assms that by (simp add: wf_graph_def)
    then show ?thesis by (simp add: links_def)
  qed
  have inside: "\<forall>e \<in> set (gr_edges g). ed_source e < length (gr_vertices g) \<and> ed_destination e < length (gr_vertices g)"
    using assms by (simp add: wf_graph_def)
  show "arcs g = (\<lambda>e. (ed_source e, ed_destination e)) ` set (gr_edges g)"
    using inside by (force simp: arcs_def out)
  show "arcs_inside g" using inside out by (fastforce simp: arcs_inside_def in_set_conv_nth [of _ "gr_vertices g"])
qed

lemma upd_vertex_run [simp]:
  "v < length (gr_vertices g) \<Longrightarrow> upd_vertex v f g = Some (g\<lparr>gr_vertices := (gr_vertices g)[v := f (gr_vertices g ! v)]\<rparr>)"
  by (simp add: upd_vertex_def)

lemma vx_update:
  assumes "s < length V"
  shows "vx_in (V[s := (V ! s)\<lparr>vx_out := o1\<rparr>] ! d) = vx_in (V ! d)" "vx_out (V[s := (V ! s)\<lparr>vx_in := i1\<rparr>] ! d) = vx_out (V ! d)"
    "vx_out (V[s := (V ! s)\<lparr>vx_out := o1\<rparr>] ! d) = (if d = s then o1 else vx_out (V ! d))"
    "vx_in (V[s := (V ! s)\<lparr>vx_in := i1\<rparr>] ! d) = (if d = s then i1 else vx_in (V ! d))"
    "vx_x (V[s := (V ! s)\<lparr>vx_out := o1\<rparr>] ! d) = vx_x (V ! d)" "vx_x (V[s := (V ! s)\<lparr>vx_in := i1\<rparr>] ! d) = vx_x (V ! d)"
  using assms by (auto simp: nth_list_update)

lemma graph_new_wf: "wf_graph graph_new"
  by (simp add: wf_graph_def graph_new_def)

lemma links_out_of_range: "\<forall>e \<in> set es. ed_source e < n \<and> ed_destination e < n \<Longrightarrow> links (mset es) n = {#} \<and> back_links (mset es) n = {#}"
  by (induction es) auto

lemma addVertex_wf: "wf_graph g \<Longrightarrow> wf_graph (addVertex vertex_new g)"
  using links_out_of_range [of "gr_edges g" "length (gr_vertices g)"]
  by (auto simp: wf_graph_def addVertex_def vertex_new_def nth_append less_Suc_eq)

lemma addEdge_wf:
  assumes "wf_graph g" "ed_source e < length (gr_vertices g)" "ed_destination e < length (gr_vertices g)"
  shows "\<exists>g'. addEdge e (ed_source e) (ed_destination e) g = Some g' \<and> wf_graph g' \<and> gr_edges g' = gr_edges g @ [e]
    \<and> length (gr_vertices g') = length (gr_vertices g)"
  using assms by (auto simp: addEdge_def wf_graph_def nth_list_update)

lemma erase_out_run: "v < length (gr_vertices g) \<Longrightarrow> w \<in> set (vx_out (gr_vertices g ! v)) \<Longrightarrow>
    erase_out v w g = Some (g\<lparr>gr_vertices := (gr_vertices g)[v := (gr_vertices g ! v)\<lparr>vx_out := remove1 w (vx_out (gr_vertices g ! v))\<rparr>]\<rparr>)"
  by (simp add: erase_out_def erase_first_def)

lemma erase_in_run: "v < length (gr_vertices g) \<Longrightarrow> w \<in> set (vx_in (gr_vertices g ! v)) \<Longrightarrow>
    erase_in v w g = Some (g\<lparr>gr_vertices := (gr_vertices g)[v := (gr_vertices g ! v)\<lparr>vx_in := remove1 w (vx_in (gr_vertices g ! v))\<rparr>]\<rparr>)"
  by (simp add: erase_in_def erase_first_def)

lemma removeEdge_freed:
  assumes "distinct (map ed_address (gr_edges g))" "a \<in> ed_address ` set (gr_edges g)"
  shows "removeEdge a g = None"
proof -
  obtain e where e: "edge_at a g = Some e"
    using assms(2) by (cases "edge_at a g") (auto simp: edge_at_def find_None_iff)
  then have "e \<in> set (gr_edges g)" "ed_address e = a" by (auto simp: edge_at_def find_Some_iff)
  then have "a \<notin> ed_address ` set (remove1 e (gr_edges g))"
    using assms(1) by (auto simp: distinct_map inj_on_def)
  then have "edge_at a (g\<lparr>gr_edges := remove1 e (gr_edges g)\<rparr>) = None" by (auto simp: edge_at_def find_None_iff)
  then show ?thesis using e by (simp add: removeEdge_def)
qed

section \<open>Cycle removal leaves no cycle\<close>

text \<open>The numbers of the vertices end up distinct.\<close>

definition xs_of :: "vertex list \<Rightarrow> int list" where
  "xs_of vs = map vx_x vs"

lemma number_ends_spec:
  assumes "number_ends start stop vs = (start', stop', vs')" "\<forall>v \<in> set vs. vx_x v = 0" "1 \<le> start" "start + int (length vs) \<le> stop"
  shows "distinct (filter (\<lambda>x. x \<noteq> 0) (xs_of vs')) \<and> start \<le> start' \<and> stop' \<le> stop
    \<and> (\<forall>x \<in> set (xs_of vs'). x = 0 \<or> start \<le> x \<and> x < start' \<or> stop' < x \<and> x \<le> stop)
    \<and> start' + int (length (filter (\<lambda>x. x = 0) (xs_of vs'))) = stop' + (start + int (length vs) - stop)
    \<and> map vx_out vs' = map vx_out vs \<and> map vx_in vs' = map vx_in vs"
  using assms
proof (induction vs arbitrary: start stop start' stop' vs')
  case (Cons v vs)
  consider "vx_out v = []" | "vx_out v \<noteq> []" "vx_in v = []" | "vx_out v \<noteq> []" "vx_in v \<noteq> []" by blast
  then show ?case
  proof cases
    case 1
    obtain a b ws where r: "number_ends start (stop - 1) vs = (a, b, ws)" by (metis prod_cases3)
    show ?thesis using Cons.IH [OF r] Cons.prems 1 r by (force simp: xs_of_def)
  next
    case 2
    obtain a b ws where r: "number_ends (start + 1) stop vs = (a, b, ws)" by (metis prod_cases3)
    show ?thesis using Cons.IH [OF r] Cons.prems 2 r by (auto simp: xs_of_def) fastforce
  next
    case 3
    obtain a b ws where r: "number_ends start stop vs = (a, b, ws)" by (metis prod_cases3)
    show ?thesis using Cons.IH [OF r] Cons.prems 3 r by (auto simp: xs_of_def)
  qed
qed (auto simp: xs_of_def)

lemma number_rest_spec:
  assumes "distinct (filter (\<lambda>x. x \<noteq> 0) (xs_of vs))" "1 \<le> start"
    "\<forall>x \<in> set (xs_of vs). x = 0 \<or> x < start \<or> start + int (length (filter (\<lambda>x. x = 0) (xs_of vs))) \<le> x"
  shows "distinct (xs_of (number_rest start vs)) \<and> map vx_out (number_rest start vs) = map vx_out vs
    \<and> map vx_in (number_rest start vs) = map vx_in vs
    \<and> (\<forall>x \<in> set (xs_of (number_rest start vs)). x \<noteq> 0 \<and> x \<in> set (xs_of vs)
        \<or> start \<le> x \<and> x < start + int (length (filter (\<lambda>x. x = 0) (xs_of vs))))"
  using assms
proof (induction vs arbitrary: start)
  case (Cons v vs)
  show ?case
  proof (cases "vx_x v = 0")
    case True
    have "distinct (filter (\<lambda>x. x \<noteq> 0) (xs_of vs))" "\<forall>x \<in> set (xs_of vs). x = 0 \<or> x < start + 1
        \<or> start + 1 + int (length (filter (\<lambda>x. x = 0) (xs_of vs))) \<le> x"
      using Cons.prems True by (force simp: xs_of_def)+
    then show ?thesis using Cons.IH [of "start + 1"] Cons.prems True by (force simp: xs_of_def)
  next
    case False
    then show ?thesis using Cons.IH [of start] Cons.prems by (force simp: xs_of_def)
  qed
qed (simp add: xs_of_def)

lemma same_lists_wf:
  assumes "wf_graph g" "map vx_out vs = map vx_out (gr_vertices g)" "map vx_in vs = map vx_in (gr_vertices g)"
  shows "wf_graph (g\<lparr>gr_vertices := vs\<rparr>)"
proof -
  have l: "length vs = length (gr_vertices g)" using assms(2) by (metis length_map)
  have "vx_out (vs ! v) = vx_out (gr_vertices g ! v)" "vx_in (vs ! v) = vx_in (gr_vertices g ! v)" if "v < length vs" for v
    using assms(2,3) that l by (metis nth_map)+
  then show ?thesis using assms(1) l by (simp add: wf_graph_def)
qed

text \<open>The ends of an edge, in either order.\<close>

definition ends :: "edge \<Rightarrow> nat set" where
  "ends e = {ed_source e, ed_destination e}"

lemma reverse_edge_run:
  assumes wf: "wf_graph g" and i: "i < length (gr_edges g)"
    and noloop: "ed_source (gr_edges g ! i) \<noteq> ed_destination (gr_edges g ! i)"
  obtains g' where "reverse_edge i g = Some g'" "wf_graph g'" "xs_of (gr_vertices g') = xs_of (gr_vertices g)"
    "length (gr_edges g') = length (gr_edges g)" "\<And>j. j \<noteq> i \<Longrightarrow> gr_edges g' ! j = gr_edges g ! j"
    "ends (gr_edges g' ! i) = ends (gr_edges g ! i)"
    "xs_of (gr_vertices g) ! ed_source (gr_edges g' ! i) \<le> xs_of (gr_vertices g) ! ed_destination (gr_edges g' ! i)"
proof (cases "vx_x (gr_vertices g ! ed_destination (gr_edges g ! i)) < vx_x (gr_vertices g ! ed_source (gr_edges g ! i))")
  case False
  have "gr_edges g ! i \<in> set (gr_edges g)" using i by simp
  then have r: "ed_source (gr_edges g ! i) < length (gr_vertices g)" "ed_destination (gr_edges g ! i) < length (gr_vertices g)"
    using wf by (auto simp: wf_graph_def)
  then show ?thesis using False wf i by (intro that [of g]) (simp_all add: reverse_edge_def xs_of_def)
next
  case True
  define e where "e = gr_edges g ! i"
  let ?s = "ed_source e" and ?d = "ed_destination e" and ?V = "gr_vertices g"
  let ?e' = "e\<lparr>ed_source := ?d, ed_destination := ?s, ed_reversed := True\<rparr>"
  have mem: "e \<in> set (gr_edges g)" using i by (simp add: e_def)
  then obtain M where M: "mset (gr_edges g) = add_mset e M" by (metis insert_DiffM set_mset_mset)
  have M': "mset ((gr_edges g)[i := ?e']) = add_mset ?e' M" using i M by (simp add: mset_update e_def [symmetric])
  have r: "?s < length ?V" "?d < length ?V" using wf mem by (auto simp: wf_graph_def)
  have ne: "?s \<noteq> ?d" using noloop by (simp add: e_def)
  have out: "mset (vx_out (?V ! v)) = (if ?s = v then add_mset ?d (links M v) else links M v)"
    and inn: "mset (vx_in (?V ! v)) = (if ?d = v then add_mset ?s (back_links M v) else back_links M v)" if "v < length ?V" for v
    using wf that M by (simp_all add: wf_graph_def)
  have mem_out: "?d \<in> set (vx_out (?V ! ?s))" using out [OF r(1)] by (metis set_mset_mset union_single_eq_member)
  have mem_in: "?s \<in> set (vx_in (?V ! ?d))" using inn [OF r(2)] by (metis set_mset_mset union_single_eq_member)
  define V' where "V' = ?V[?s := (?V ! ?s)\<lparr>vx_out := remove1 ?d (vx_out (?V ! ?s)), vx_in := vx_in (?V ! ?s) @ [?d]\<rparr>,
    ?d := (?V ! ?d)\<lparr>vx_in := remove1 ?s (vx_in (?V ! ?d)), vx_out := vx_out (?V ! ?d) @ [?s]\<rparr>]"
  define g' where "g' = g\<lparr>gr_vertices := V', gr_edges := (gr_edges g)[i := ?e']\<rparr>"
  have run: "reverse_edge i g = Some g'"
    using True i r ne mem_out mem_in
    by (simp add: reverse_edge_def e_def [symmetric] erase_out_run erase_in_run g'_def V'_def)
  have xs: "xs_of V' = xs_of ?V" using r ne by (intro nth_equalityI) (auto simp: xs_of_def V'_def nth_list_update)
  have "ed_source x < length ?V \<and> ed_destination x < length ?V" if "x \<in> set ((gr_edges g)[i := ?e'])" for x
    using set_update_subset_insert [of "gr_edges g" i ?e'] that wf r by (auto simp: wf_graph_def)
  then have wf': "wf_graph g'"
    using r ne by (auto simp: wf_graph_def g'_def M' V'_def nth_list_update out inn)
  show ?thesis
    by (rule that [of g'])
      (use run wf' xs i True r in \<open>auto simp: g'_def ends_def xs_of_def e_def\<close>)
qed

text \<open>All edges turned: the relation goes up in the numbers, so it has no cycle.\<close>

lemma reverse_edges:
  assumes wf: "wf_graph g" and noloop: "\<forall>e \<in> set (gr_edges g). ed_source e \<noteq> ed_destination e"
  shows "\<exists>g'. for_loop 0 (length (gr_edges g)) reverse_edge g = Some g' \<and> wf_graph g' \<and> xs_of (gr_vertices g') = xs_of (gr_vertices g)
    \<and> map ends (gr_edges g') = map ends (gr_edges g)
    \<and> (\<forall>e \<in> set (gr_edges g'). xs_of (gr_vertices g) ! ed_source e \<le> xs_of (gr_vertices g) ! ed_destination e)"
proof -
  let ?xs = "xs_of (gr_vertices g)"
  let ?I = "\<lambda>i h. wf_graph h \<and> xs_of (gr_vertices h) = ?xs \<and> map ends (gr_edges h) = map ends (gr_edges g)
    \<and> (\<forall>j < i. ?xs ! ed_source (gr_edges h ! j) \<le> ?xs ! ed_destination (gr_edges h ! j))"
  have "\<exists>g'. for_loop 0 (length (gr_edges g)) reverse_edge g = Some g' \<and> ?I (length (gr_edges g)) g'"
  proof (rule for_loop_rule [where I = ?I])
    fix i h assume i: "i < length (gr_edges g)" and I: "?I i h"
    then have l: "length (gr_edges h) = length (gr_edges g)" by (metis length_map)
    have "ends (gr_edges h ! i) = ends (gr_edges g ! i)" using I i l by (metis nth_map)
    moreover have "gr_edges g ! i \<in> set (gr_edges g)" using i by simp
    ultimately have nl: "ed_source (gr_edges h ! i) \<noteq> ed_destination (gr_edges h ! i)"
      using noloop by (auto simp: ends_def doubleton_eq_iff)
    obtain h' where h': "reverse_edge i h = Some h'" "wf_graph h'" "xs_of (gr_vertices h') = xs_of (gr_vertices h)"
      "length (gr_edges h') = length (gr_edges h)" "\<And>j. j \<noteq> i \<Longrightarrow> gr_edges h' ! j = gr_edges h ! j"
      "ends (gr_edges h' ! i) = ends (gr_edges h ! i)"
      "xs_of (gr_vertices h) ! ed_source (gr_edges h' ! i) \<le> xs_of (gr_vertices h) ! ed_destination (gr_edges h' ! i)"
      by (rule reverse_edge_run [of h i]) (use I i l nl in auto)
    have "map ends (gr_edges h') = map ends (gr_edges h)"
    proof (rule nth_equalityI)
      show "map ends (gr_edges h') ! j = map ends (gr_edges h) ! j" if "j < length (map ends (gr_edges h'))" for j
        using that h'(4,5,6) by (cases "j = i") simp_all
    qed (simp add: h'(4))
    then have "?I (Suc i) h'" using h' I by (auto simp: less_Suc_eq)
    then show "\<exists>h'. reverse_edge i h = Some h' \<and> ?I (Suc i) h'" using h'(1) by blast
  qed (use wf in auto)
  then show ?thesis by (metis in_set_conv_nth length_map)
qed

lemma ascending_acyclic:
  assumes "\<And>u w. (u, w) \<in> R \<Longrightarrow> f u < (f w :: int)"
  shows "(v, v) \<notin> R\<^sup>+"
proof -
  have "f u < f w" if "(u, w) \<in> R\<^sup>+" for u w using that by induction (use assms in force)+
  then show ?thesis by blast
qed

lemma cyclic_cong: "arcs g = arcs h \<Longrightarrow> cyclic g = cyclic h"
  by (simp add: cyclic_def)

lemma GreedyCycleRemoval_correct:
  assumes wf: "wf_graph g" and noloop: "\<forall>e \<in> set (gr_edges g). ed_source e \<noteq> ed_destination e"
    and zero: "\<forall>v \<in> set (gr_vertices g). vx_x v = 0"
  shows "\<exists>g'. GreedyCycleRemoval g = Some g' \<and> wf_graph g' \<and> \<not> cyclic g' \<and> map ends (gr_edges g') = map ends (gr_edges g)
    \<and> length (gr_vertices g') = length (gr_vertices g)"
proof -
  let ?n = "length (gr_vertices g)"
  obtain a b vs where ne: "number_ends 1 (int ?n + 1) (gr_vertices g) = (a, b, vs)" by (metis prod_cases3)
  note spec1 = number_ends_spec [OF ne zero]
  have d: "distinct (filter (\<lambda>x. x \<noteq> 0) (xs_of vs))" "1 \<le> a"
    "\<forall>x \<in> set (xs_of vs). x = 0 \<or> x < a \<or> a + int (length (filter (\<lambda>x. x = 0) (xs_of vs))) \<le> x"
    using spec1 by force+
  note spec2 = number_rest_spec [OF d]
  define h where "h = g\<lparr>gr_vertices := number_rest a vs\<rparr>"
  have wfh: "wf_graph h" unfolding h_def by (rule same_lists_wf [OF wf]) (use spec1 spec2 in auto)
  have lh: "length (gr_vertices h) = ?n"
  proof -
    have "map vx_out (number_rest a vs) = map vx_out (gr_vertices g)" using spec1 spec2 by simp
    then show ?thesis by (metis h_def graph.select_convs(2) graph.simps(5) length_map graph.update_convs(2) graph.surjective)
  qed
  obtain h' where h': "for_loop 0 (length (gr_edges h)) reverse_edge h = Some h'" "wf_graph h'"
    "xs_of (gr_vertices h') = xs_of (gr_vertices h)" "map ends (gr_edges h') = map ends (gr_edges h)"
    "\<forall>e \<in> set (gr_edges h'). xs_of (gr_vertices h) ! ed_source e \<le> xs_of (gr_vertices h) ! ed_destination e"
    using reverse_edges [OF wfh] noloop by (auto simp: h_def)
  define g' where "g' = h'\<lparr>gr_vertices := map (\<lambda>v. v\<lparr>vx_x := 0, vx_key := 0\<rparr>) (gr_vertices h')\<rparr>"
  have run: "GreedyCycleRemoval g = Some g'" using ne h'(1) by (simp add: GreedyCycleRemoval_def h_def g'_def)
  have wf': "wf_graph g'" unfolding g'_def by (rule same_lists_wf [OF h'(2)]) simp_all
  have l': "length (gr_vertices h') = ?n" using h'(3) lh by (metis length_map xs_of_def)
  have up: "xs_of (gr_vertices h) ! u < xs_of (gr_vertices h) ! w" if arc: "(u, w) \<in> arcs g'" for u w
  proof -
    obtain e where e: "e \<in> set (gr_edges h')" "u = ed_source e" "w = ed_destination e"
      using arc wf_graph_arcs(1) [OF wf'] by (auto simp: g'_def)
    have "map ends (gr_edges h') = map ends (gr_edges g)" using h'(4) by (simp add: h_def)
    then have "set (map ends (gr_edges h')) = set (map ends (gr_edges g))" by (rule arg_cong)
    then have "ends e \<in> ends ` set (gr_edges g)" using e(1) by auto
    then have "u \<noteq> w" using noloop e by (auto simp: ends_def doubleton_eq_iff)
    moreover have "u < length (xs_of (gr_vertices h))" "w < length (xs_of (gr_vertices h))"
      using h'(2) e l' lh by (auto simp: wf_graph_def xs_of_def)
    moreover have "distinct (xs_of (gr_vertices h))" using spec2 by (simp add: h_def)
    ultimately show ?thesis using h'(5) e by (metis nth_eq_iff_index_eq order_le_less)
  qed
  then have "\<not> cyclic g'" using ascending_acyclic [of "arcs g'" "\<lambda>u. xs_of (gr_vertices h) ! u"] by (auto simp: cyclic_def)
  then show ?thesis using run wf' h'(4) l' by (simp add: g'_def h_def)
qed

text \<open>A graph built with \<open>n\<close> vertices and a list of edges.\<close>

fun add_edges :: "(nat \<times> nat) list \<Rightarrow> graph \<Rightarrow> graph option" where
  "add_edges [] g = Some g"
| "add_edges ((u, w) # es) g = do { g \<leftarrow> addEdge (edge_new (length (gr_edges g)) u w) u w g; add_edges es g }"

definition build_graph :: "nat \<Rightarrow> (nat \<times> nat) list \<Rightarrow> graph option" where
  "build_graph n es = add_edges es ((addVertex vertex_new ^^ n) graph_new)"

definition edge_pairs :: "graph \<Rightarrow> (nat \<times> nat) list" where
  "edge_pairs g = map (\<lambda>e. (ed_source e, ed_destination e)) (gr_edges g)"

lemma add_vertices:
  "wf_graph ((addVertex vertex_new ^^ n) graph_new) \<and> length (gr_vertices ((addVertex vertex_new ^^ n) graph_new)) = n
   \<and> gr_edges ((addVertex vertex_new ^^ n) graph_new) = []"
proof (induction n)
  case (Suc n)
  then show ?case using addVertex_wf by (auto simp: addVertex_def)
qed (simp add: graph_new_wf, simp add: graph_new_def)

lemma add_edges_wf:
  "wf_graph g \<Longrightarrow> \<forall>(u, w) \<in> set es. u < length (gr_vertices g) \<and> w < length (gr_vertices g) \<Longrightarrow>
   \<exists>g'. add_edges es g = Some g' \<and> wf_graph g' \<and> edge_pairs g' = edge_pairs g @ es \<and> length (gr_vertices g') = length (gr_vertices g)"
proof (induction es arbitrary: g)
  case (Cons e es)
  obtain u w where e: "e = (u, w)" by fastforce
  obtain g1 where g1: "addEdge (edge_new (length (gr_edges g)) u w) u w g = Some g1" "wf_graph g1"
      "gr_edges g1 = gr_edges g @ [edge_new (length (gr_edges g)) u w]" "length (gr_vertices g1) = length (gr_vertices g)"
    using addEdge_wf [of g "edge_new (length (gr_edges g)) u w"] Cons.prems by (auto simp: edge_new_def e)
  then show ?case using Cons.IH [of g1] Cons.prems by (auto simp: e edge_pairs_def edge_new_def)
qed simp

lemma build_graph_wf:
  "\<forall>(u, w) \<in> set es. u < n \<and> w < n \<Longrightarrow>
   \<exists>g. build_graph n es = Some g \<and> wf_graph g \<and> edge_pairs g = es \<and> length (gr_vertices g) = n"
  using add_edges_wf [of "(addVertex vertex_new ^^ n) graph_new" es] add_vertices [of n]
  by (simp add: build_graph_def edge_pairs_def)

lemma upd_vertex_unnumbered:
  assumes "upd_vertex v f g = Some g'" "\<forall>v \<in> set (gr_vertices g). vx_x v = 0" "\<And>vx. vx_x (f vx) = vx_x vx"
  shows "\<forall>v \<in> set (gr_vertices g'). vx_x v = 0"
  using assms set_update_subset_insert [of "gr_vertices g" v "f (gr_vertices g ! v)"]
  by (auto simp: upd_vertex_def bind_eq_Some_conv rd_def wr_def split: if_splits)

lemma add_edges_unnumbered:
  "\<forall>v \<in> set (gr_vertices g). vx_x v = 0 \<Longrightarrow> add_edges es g = Some g' \<Longrightarrow> \<forall>v \<in> set (gr_vertices g'). vx_x v = 0"
proof (induction es arbitrary: g)
  case (Cons e es)
  obtain u w where e: "e = (u, w)" by fastforce
  obtain g1 where g1: "addEdge (edge_new (length (gr_edges g)) u w) u w g = Some g1" "add_edges es g1 = Some g'"
    using Cons.prems(2) by (auto simp: e bind_eq_Some_conv)
  from g1(1) obtain g2 where g2: "upd_vertex u (\<lambda>v. v\<lparr>vx_out := vx_out v @ [w]\<rparr>) (g\<lparr>gr_edges := gr_edges g @ [edge_new (length (gr_edges g)) u w]\<rparr>) = Some g2"
    "upd_vertex w (\<lambda>v. v\<lparr>vx_in := vx_in v @ [u]\<rparr>) g2 = Some g1"
    by (auto simp: addEdge_def bind_eq_Some_conv)
  have "\<forall>v \<in> set (gr_vertices g1). vx_x v = 0"
    by (rule upd_vertex_unnumbered [OF g2(2)], rule upd_vertex_unnumbered [OF g2(1)]) (use Cons.prems(1) in simp_all)
  then show ?case by (rule Cons.IH [OF _ g1(2)])
qed simp

lemma build_graph_unnumbered: "build_graph n es = Some g \<Longrightarrow> \<forall>v \<in> set (gr_vertices g). vx_x v = 0"
proof -
  have "\<forall>v \<in> set (gr_vertices ((addVertex vertex_new ^^ n) graph_new)). vx_x v = 0"
    by (induction n) (auto simp: addVertex_def graph_new_def vertex_new_def)
  then show "build_graph n es = Some g \<Longrightarrow> \<forall>v \<in> set (gr_vertices g). vx_x v = 0"
    unfolding build_graph_def by (rule add_edges_unnumbered)
qed

section \<open>Properties\<close>

text \<open>
  C25: building a graph keeps it well formed (the ends of each edge are vertices, and the lists of outgoing and
  incoming neighbours hold the ends of exactly the edges, with their multiplicity): adding a vertex, and adding an edge between
  vertices, neither of which fails. Removing an edge by an address that no edge has changes nothing; removing an edge of the
  graph reads it after it was destroyed.
\<close>

theorem graph_operations_keep_wf:
  assumes "wf_graph g" "distinct (map ed_address (gr_edges g))" "u < getNumVertices g" "w < getNumVertices g"
  shows "wf_graph (addVertex vertex_new g)
    \<and> (\<exists>g'. addEdge (edge_new a u w) u w g = Some g' \<and> wf_graph g' \<and> gr_edges g' = gr_edges g @ [edge_new a u w])
    \<and> removeEdge a g = (if a \<in> ed_address ` set (gr_edges g) then None else Some (False, g))"
proof (intro conjI)
  show "wf_graph (addVertex vertex_new g)" by (rule addVertex_wf [OF assms(1)])
  show "\<exists>g'. addEdge (edge_new a u w) u w g = Some g' \<and> wf_graph g' \<and> gr_edges g' = gr_edges g @ [edge_new a u w]"
    using addEdge_wf [of g "edge_new a u w"] assms by (auto simp: getNumVertices_def edge_new_def)
  show "removeEdge a g = (if a \<in> ed_address ` set (gr_edges g) then None else Some (False, g))"
  proof (cases "a \<in> ed_address ` set (gr_edges g)")
    case True
    then show ?thesis using removeEdge_freed [OF assms(2)] by simp
  next
    case False
    then have "edge_at a g = None" by (auto simp: edge_at_def find_None_iff)
    then show ?thesis using False by (simp add: removeEdge_def)
  qed
qed

theorem graph_operations_keep_wf_witness:
  "\<exists>g. build_graph 2 [(0, 1), (1, 1)] = Some g \<and> wf_graph (addVertex vertex_new g) \<and> removeEdge 7 g = Some (False, g) \<and> removeEdge 1 g = None"
proof -
  obtain g where g: "build_graph 2 [(0, 1), (1, 1)] = Some g" "wf_graph g" "edge_pairs g = [(0, 1), (1, 1)]" "length (gr_vertices g) = 2"
    using build_graph_wf [of "[(0, 1), (1, 1)]" 2] by auto
  have e: "gr_edges g = [edge_new 0 0 1, edge_new 1 1 1]"
    using g(1) by (simp add: build_graph_def eval_nat_numeral addEdge_def addVertex_def graph_new_def edge_new_def wr_def rd_def)
      (auto simp: upd_vertex_def)
  show ?thesis
    using graph_operations_keep_wf [OF g(2), of 0 1 7] graph_operations_keep_wf [OF g(2), of 0 1 1] g(1,4) e
    by (auto simp: getNumVertices_def edge_new_def)
qed

text \<open>
  C26: \<^verbatim>\<open>hasCycle\<close> decides whether a graph has a cycle: on every well-formed graph it
  returns (its depth-first search stays inside the arrays and ends), and the result is true exactly when some vertex can be
  reached from itself along the edges.
\<close>

theorem hasCycle_decides:
  assumes "wf_graph g"
  shows "hasCycle g = Some (\<exists>v. (v, v) \<in> ((\<lambda>e. (ed_source e, ed_destination e)) ` set (gr_edges g))\<^sup>+)"
  using hasCycle_cyclic wf_graph_arcs [OF assms] by (simp add: cyclic_def)

theorem hasCycle_decides_witness:
  "\<exists>g. build_graph 3 [(0, 1), (1, 2), (2, 0)] = Some g \<and> hasCycle g = Some True"
proof -
  obtain g where g: "build_graph 3 [(0, 1), (1, 2), (2, 0)] = Some g" "wf_graph g" "edge_pairs g = [(0, 1), (1, 2), (2, 0)]"
    using build_graph_wf [of "[(0, 1), (1, 2), (2, 0)]" 3] by auto
  let ?R = "(\<lambda>e. (ed_source e, ed_destination e)) ` set (gr_edges g)"
  have "?R = set [(0, 1), (1, 2), (2, 0)]" using g(3) by (metis edge_pairs_def list.set_map)
  then have "(0, 1) \<in> ?R" "(1, 2) \<in> ?R" "(2, 0) \<in> ?R" by auto
  then have "(0, 0) \<in> ?R\<^sup>+" by (meson r_into_trancl trancl_trans)
  then have "\<exists>v. (v, v) \<in> ?R\<^sup>+" ..
  then have "hasCycle g = Some True" using hasCycle_decides [OF g(2)] by simp
  then show ?thesis using g(1) by blast
qed

text \<open>
  C27: \<^verbatim>\<open>GreedyCycleRemoval\<close> leaves a graph without cycles: on a well-formed graph without self-loops whose vertices have
  no numbers yet it returns, \<^verbatim>\<open>hasCycle\<close> of the result is false, the result is well formed, and it
  has the same edges up to their directions.
\<close>

theorem GreedyCycleRemoval_acyclic:
  assumes "wf_graph g" "\<forall>e \<in> set (gr_edges g). ed_source e \<noteq> ed_destination e" "\<forall>v \<in> set (gr_vertices g). vx_x v = 0"
  shows "\<exists>g'. GreedyCycleRemoval g = Some g' \<and> hasCycle g' = Some False \<and> wf_graph g'
    \<and> map (\<lambda>e. {ed_source e, ed_destination e}) (gr_edges g') = map (\<lambda>e. {ed_source e, ed_destination e}) (gr_edges g)"
proof -
  obtain g' where g': "GreedyCycleRemoval g = Some g'" "wf_graph g'" "\<not> cyclic g'" "map ends (gr_edges g') = map ends (gr_edges g)"
    using GreedyCycleRemoval_correct [OF assms] by blast
  moreover have "hasCycle g' = Some False" using hasCycle_cyclic wf_graph_arcs(2) g'(2,3) by simp
  ultimately show ?thesis by (auto simp: ends_def [abs_def])
qed

theorem GreedyCycleRemoval_acyclic_witness:
  "\<exists>g g'. build_graph 3 [(0, 1), (1, 2), (2, 0)] = Some g \<and> GreedyCycleRemoval g = Some g' \<and> hasCycle g' = Some False"
proof -
  obtain g where g: "build_graph 3 [(0, 1), (1, 2), (2, 0)] = Some g" "wf_graph g" "edge_pairs g = [(0, 1), (1, 2), (2, 0)]"
    using build_graph_wf [of "[(0, 1), (1, 2), (2, 0)]" 3] by auto
  have "\<forall>p \<in> set (edge_pairs g). fst p \<noteq> snd p" by (simp add: g(3))
  then have "\<forall>e \<in> set (gr_edges g). ed_source e \<noteq> ed_destination e" by (simp add: edge_pairs_def)
  moreover have "\<forall>v \<in> set (gr_vertices g). vx_x v = 0" by (rule build_graph_unnumbered [OF g(1)])
  ultimately show ?thesis using GreedyCycleRemoval_acyclic [OF g(2)] g(1) by blast
qed

end
