(* ===== verification/SimRouting.thy ===== *)
theory SimRouting
  imports SimNetwork SimGraph
begin

text \<open>
  The routing table of a network, \<^verbatim>\<open>network/RoutingTable.cc\<close>: the definitions, and what the initial table holds.

  The table is the vector of entries of the code, row by row. A null next node or buffer is \<^term>\<open>None\<close>. A
  panic, a failed assertion and a loop without end are \<^term>\<open>None\<close> as everywhere; the errors that
  \<^verbatim>\<open>UpdateRoute\<close> reports to the user are values. Costs are integers: overflow needs paths of \<open>2 ^ 31\<close> hops.
\<close>

section \<open>The code\<close>

record route =
  re_cost :: int
  re_next_node :: "nat option"
  re_buffer :: "nat option"

record routing_table =
  rt_dimension :: nat
  rt_entries :: "route list"

definition route_lookup :: "nat \<Rightarrow> nat \<Rightarrow> routing_table \<Rightarrow> route option" where
  "route_lookup i j rt = do {
     c_assert (0 < rt_dimension rt \<and> i < rt_dimension rt \<and> j < rt_dimension rt);
     rd (rt_entries rt) (i * rt_dimension rt + j) }"

definition upd_route :: "nat \<Rightarrow> nat \<Rightarrow> (route \<Rightarrow> route) \<Rightarrow> routing_table \<Rightarrow> routing_table option" where
  "upd_route i j f rt = do {
     e \<leftarrow> route_lookup i j rt;
     es \<leftarrow> wr (rt_entries rt) (i * rt_dimension rt + j) (f e);
     Some (rt\<lparr>rt_entries := es\<rparr>) }"

definition initial_entries :: "nat \<Rightarrow> route list" where
  "initial_entries n = concat (map (\<lambda>i. map (\<lambda>j.
     \<lparr>re_cost = (if i = j then 0 else int n), re_next_node = None, re_buffer = None\<rparr>) [0..<n]) [0..<n])"

definition connect_destination :: "network \<Rightarrow> nat \<Rightarrow> nat \<Rightarrow> nat \<Rightarrow> routing_table \<Rightarrow> routing_table option" where
  "connect_destination nw node source_buffer dst_buffer rt = do {
     df \<leftarrow> rd (nw_buffers nw) dst_buffer;
     if node \<noteq> bf_node df then
       upd_route node (bf_node df) (\<lambda>e. \<lparr>re_cost = 1, re_next_node = Some (bf_node df), re_buffer = Some source_buffer\<rparr>) rt
     else Some rt }"

definition connect_buffer :: "network \<Rightarrow> nat \<Rightarrow> nat \<Rightarrow> routing_table \<Rightarrow> routing_table option" where
  "connect_buffer nw node source_buffer rt = do {
     bf \<leftarrow> rd (nw_buffers nw) source_buffer;
     cn \<leftarrow> rd (nw_connections nw) (bf_connection bf);
     do_all (connect_destination nw node source_buffer) (cn_destination_buffers cn) rt }"

definition connect_node :: "network \<Rightarrow> nat \<Rightarrow> routing_table \<Rightarrow> routing_table option" where
  "connect_node nw node rt = do {
     nd \<leftarrow> rd (nw_nodes nw) node;
     do_all (connect_buffer nw node) (nd_output_buffers nd) rt }"

definition routing_Initialize :: "network \<Rightarrow> routing_table \<Rightarrow> routing_table option" where
  "routing_Initialize nw rt = (if rt_entries rt \<noteq> [] then None
     else let n = length (nw_nodes nw) in for_loop 0 n (connect_node nw) \<lparr>rt_dimension = n, rt_entries = initial_entries n\<rparr>)"

definition RoutingTable_create :: "network \<Rightarrow> routing_table option" where
  "RoutingTable_create nw = routing_Initialize nw \<lparr>rt_dimension = length (nw_nodes nw), rt_entries = []\<rparr>"

subsection \<open>Shortest paths\<close>

definition relax :: "nat \<Rightarrow> nat \<Rightarrow> nat \<Rightarrow> routing_table \<Rightarrow> routing_table option" where
  "relax k i j rt = do {
     entry_i_k \<leftarrow> route_lookup i k rt;
     entry_k_j \<leftarrow> route_lookup k j rt;
     entry_i_j \<leftarrow> route_lookup i j rt;
     let temp_cost = re_cost entry_i_k + re_cost entry_k_j;
     if re_cost entry_i_j > temp_cost
     then upd_route i j (\<lambda>e. e\<lparr>re_cost := temp_cost, re_next_node := Some k\<rparr>) rt
     else Some rt }"

partial_function (option) follow_path :: "routing_table \<Rightarrow> nat \<Rightarrow> nat \<Rightarrow> nat option" where
  "follow_path rt node_i next_node = do {
     entry \<leftarrow> route_lookup node_i next_node rt;
     if re_cost entry \<le> 1 then Some next_node
     else case re_next_node entry of None \<Rightarrow> None | Some next_node \<Rightarrow> follow_path rt node_i next_node }"

declare follow_path.simps [code]

fun reaches_node :: "network \<Rightarrow> nat \<Rightarrow> nat list \<Rightarrow> bool option" where
  "reaches_node nw next_node [] = Some False"
| "reaches_node nw next_node (d # ds) = do {
     df \<leftarrow> rd (nw_buffers nw) d;
     if bf_node df = next_node then Some True else reaches_node nw next_node ds }"

fun choose_buffer :: "network \<Rightarrow> nat \<Rightarrow> nat \<Rightarrow> nat \<Rightarrow> nat list \<Rightarrow> routing_table \<Rightarrow> routing_table option" where
  "choose_buffer nw i j next_node [] rt = Some rt"
| "choose_buffer nw i j next_node (b # bs) rt = do {
     bf \<leftarrow> rd (nw_buffers nw) b;
     cn \<leftarrow> rd (nw_connections nw) (bf_connection bf);
     found \<leftarrow> reaches_node nw next_node (cn_destination_buffers cn);
     if found then upd_route i j (\<lambda>e. e\<lparr>re_next_node := Some next_node, re_buffer := Some b\<rparr>) rt
     else choose_buffer nw i j next_node bs rt }"

definition resolve :: "network \<Rightarrow> nat \<Rightarrow> nat \<Rightarrow> routing_table \<Rightarrow> routing_table option" where
  "resolve nw i j rt = do {
     entry_i_j \<leftarrow> route_lookup i j rt;
     case re_next_node entry_i_j of
       None \<Rightarrow> upd_route i j (\<lambda>e. e\<lparr>re_buffer := None\<rparr>) rt
     | Some next_node \<Rightarrow> do {
         next_node \<leftarrow> follow_path rt i next_node;
         nd \<leftarrow> rd (nw_nodes nw) i;
         choose_buffer nw i j next_node (nd_output_buffers nd) rt } }"

definition FloydWarshall :: "network \<Rightarrow> routing_table \<Rightarrow> routing_table option" where
  "FloydWarshall nw rt = (let n = rt_dimension rt in do {
     rt \<leftarrow> for_loop 0 n (\<lambda>k. for_loop 0 n (\<lambda>i. for_loop 0 n (\<lambda>j. relax k i j))) rt;
     for_loop 0 n (\<lambda>i. for_loop 0 n (\<lambda>j. resolve nw i j)) rt })"

subsection \<open>Routes given by the user\<close>

datatype route_error = Same_node | Wrong_channel | No_channel_support | Missing_connection

fun find_destination :: "network \<Rightarrow> nat \<Rightarrow> nat list \<Rightarrow> nat option option" where
  "find_destination nw next_node [] = Some None"
| "find_destination nw next_node (d # ds) = do {
     df \<leftarrow> rd (nw_buffers nw) d;
     if bf_node df = next_node then Some (Some d) else find_destination nw next_node ds }"

fun find_route_buffer :: "network \<Rightarrow> nat \<Rightarrow> nat \<Rightarrow> nat \<Rightarrow> nat list \<Rightarrow> (route_error + nat) option" where
  "find_route_buffer nw source next_node virtual_channel [] = Some (Inl Missing_connection)"
| "find_route_buffer nw source next_node virtual_channel (b # bs) = do {
     bf \<leftarrow> rd (nw_buffers nw) b;
     cn \<leftarrow> rd (nw_connections nw) (bf_connection bf);
     case cn_kind cn of
       Link link_source link_dest num_virtual_channels \<Rightarrow>
         if link_dest = next_node then
           if int virtual_channel > int num_virtual_channels - 1 then Some (Inl Wrong_channel)
           else do {
             entry_buffer \<leftarrow> rd (cn_source_buffers cn) virtual_channel;
             ef \<leftarrow> rd (nw_buffers nw) entry_buffer;
             c_assert (bf_node ef = source);
             Some (Inr entry_buffer) }
         else find_route_buffer nw source next_node virtual_channel bs
     | Bus lanes \<Rightarrow>
         if virtual_channel \<noteq> 0 then Some (Inl No_channel_support)
         else do {
           found \<leftarrow> find_destination nw next_node (cn_destination_buffers cn);
           case found of Some destination_buffer \<Rightarrow> Some (Inr destination_buffer)
           | None \<Rightarrow> find_route_buffer nw source next_node virtual_channel bs } }"

definition UpdateRoute :: "network \<Rightarrow> nat \<Rightarrow> nat \<Rightarrow> nat \<Rightarrow> nat \<Rightarrow> routing_table \<Rightarrow> (route_error + routing_table) option" where
  "UpdateRoute nw source destination next_node virtual_channel rt = (if source = destination then Some (Inl Same_node)
     else do {
       rt \<leftarrow> upd_route source destination (\<lambda>e. e\<lparr>re_next_node := Some next_node\<rparr>) rt;
       nd \<leftarrow> rd (nw_nodes nw) source;
       r \<leftarrow> find_route_buffer nw source next_node virtual_channel (nd_output_buffers nd);
       case r of Inl e \<Rightarrow> Some (Inl e)
       | Inr b \<Rightarrow> do { rt \<leftarrow> upd_route source destination (\<lambda>e. e\<lparr>re_buffer := Some b\<rparr>) rt; Some (Inr rt) } })"

partial_function (option) manual_path :: "nat \<Rightarrow> nat \<Rightarrow> nat \<Rightarrow> routing_table \<Rightarrow> routing_table option" where
  "manual_path source destination next_node rt = (if next_node = destination then Some rt
     else do {
       e \<leftarrow> route_lookup next_node destination rt;
       case re_next_node e of None \<Rightarrow> Some rt
       | Some path_entry \<Rightarrow> do {
           p \<leftarrow> route_lookup next_node path_entry rt;
           rt \<leftarrow> upd_route source destination (\<lambda>e. e\<lparr>re_cost := re_cost e + re_cost p\<rparr>) rt;
           manual_path source destination path_entry rt } })"

declare manual_path.simps [code]

definition manual_cost :: "nat \<Rightarrow> nat \<Rightarrow> routing_table \<Rightarrow> routing_table option" where
  "manual_cost source destination rt = do {
     e \<leftarrow> route_lookup source destination rt;
     case re_next_node e of None \<Rightarrow> Some rt
     | Some next_node \<Rightarrow> do {
         f \<leftarrow> route_lookup source next_node rt;
         rt \<leftarrow> upd_route source destination (\<lambda>e. e\<lparr>re_cost := re_cost f\<rparr>) rt;
         manual_path source destination next_node rt } }"

definition UpdateManualRoutingCost :: "routing_table \<Rightarrow> routing_table option" where
  "UpdateManualRoutingCost rt = (let n = rt_dimension rt in for_loop 0 n (\<lambda>i. for_loop 0 n (\<lambda>j. manual_cost i j)) rt)"

subsection \<open>Cycles in the table\<close>

type_synonym channel_graph = "graph \<times> (nat \<Rightarrow> nat option)"

fun buffer_used :: "nat \<Rightarrow> nat \<Rightarrow> nat list \<Rightarrow> routing_table \<Rightarrow> bool option" where
  "buffer_used node output_buffer [] rt = Some False"
| "buffer_used node output_buffer (d # ds) rt = do {
     e \<leftarrow> route_lookup node d rt;
     if re_buffer e = Some output_buffer then Some True else buffer_used node output_buffer ds rt }"

definition add_channel :: "routing_table \<Rightarrow> nat \<Rightarrow> nat \<Rightarrow> channel_graph \<Rightarrow> channel_graph option" where
  "add_channel rt node output_buffer g = do {
     used \<leftarrow> buffer_used node output_buffer [0..<rt_dimension rt] rt;
     if used then let graph = addVertex vertex_new (fst g); vertex = getNumVertices graph - 1
       in Some (graph, if snd g output_buffer = None then (snd g)(output_buffer \<mapsto> vertex) else snd g)
     else Some g }"

definition add_channels :: "network \<Rightarrow> routing_table \<Rightarrow> nat \<Rightarrow> channel_graph \<Rightarrow> channel_graph option" where
  "add_channels nw rt node g = do { nd \<leftarrow> rd (nw_nodes nw) node; do_all (add_channel rt node) (nd_output_buffers nd) g }"

definition add_dependency :: "routing_table \<Rightarrow> nat \<Rightarrow> nat \<Rightarrow> channel_graph \<Rightarrow> channel_graph option" where
  "add_dependency rt source destination g = (if source = destination then Some g
     else do {
       entry \<leftarrow> route_lookup source destination rt;
       case re_buffer entry of None \<Rightarrow> Some g
       | Some source_buffer \<Rightarrow> do {
           next_node \<leftarrow> re_next_node entry;
           next_entry \<leftarrow> route_lookup next_node destination rt;
           case re_buffer next_entry of None \<Rightarrow> Some g
           | Some destination_buffer \<Rightarrow> do {
               source_vertex \<leftarrow> snd g source_buffer;
               destination_vertex \<leftarrow> snd g destination_buffer;
               if findEdge source_vertex destination_vertex (fst g) = None then do {
                 graph \<leftarrow> addEdge (edge_new (length (gr_edges (fst g))) source_vertex destination_vertex)
                   source_vertex destination_vertex (fst g);
                 Some (graph, snd g) }
               else Some g } } })"

definition routing_hasCycle :: "network \<Rightarrow> routing_table \<Rightarrow> bool option" where
  "routing_hasCycle nw rt = (let n = rt_dimension rt in do {
     g \<leftarrow> for_loop 0 n (add_channels nw rt) (graph_new, Map.empty);
     g \<leftarrow> for_loop 0 n (\<lambda>s. for_loop 0 n (\<lambda>d. add_dependency rt s d)) g;
     hasCycle (fst g) })"

section \<open>The table as a matrix\<close>

definition entry :: "routing_table \<Rightarrow> nat \<Rightarrow> nat \<Rightarrow> route" where
  "entry rt i j = rt_entries rt ! (i * rt_dimension rt + j)"

definition square :: "nat \<Rightarrow> routing_table \<Rightarrow> bool" where
  "square n rt \<longleftrightarrow> rt_dimension rt = n \<and> length (rt_entries rt) = n * n"

lemma square_index:
  assumes "i < n" "j < n"
  shows "i * n + j < n * (n :: nat)"
proof -
  have "i * n + j < i * n + n" using assms by simp
  also have "\<dots> = Suc i * n" by simp
  also have "\<dots> \<le> n * n" using assms by (intro mult_le_mono1) simp
  finally show ?thesis .
qed

lemma square_index_eq: "j < n \<Longrightarrow> j' < n \<Longrightarrow> i * n + j = i' * n + j' \<longleftrightarrow> i = i' \<and> j = (j' :: nat)"
proof
  assume "j < n" "j' < n" "i * n + j = i' * n + j'"
  then have "(i * n + j) div n = (i' * n + j') div n" "(i * n + j) mod n = (i' * n + j') mod n" by simp_all
  then show "i = i' \<and> j = j'" using \<open>j < n\<close> \<open>j' < n\<close> by simp
qed simp

lemma route_lookup_run [simp]: "square n rt \<Longrightarrow> i < n \<Longrightarrow> j < n \<Longrightarrow> route_lookup i j rt = Some (entry rt i j)"
  using square_index [of i n j] by (simp add: route_lookup_def entry_def square_def)

lemma upd_route_run:
  assumes "square n rt" "i < n" "j < n"
  obtains rt' where "upd_route i j f rt = Some rt'" "square n rt'"
    "\<And>i' j'. i' < n \<Longrightarrow> j' < n \<Longrightarrow> entry rt' i' j' = (if i' = i \<and> j' = j then f (entry rt i j) else entry rt i' j')"
  using assms square_index [of i n j]
  by (intro that [of "rt\<lparr>rt_entries := (rt_entries rt)[i * n + j := f (entry rt i j)]\<rparr>"])
    (auto simp: upd_route_def square_def entry_def nth_list_update square_index_eq square_index)

lemma initial_square: "square n \<lparr>rt_dimension = n, rt_entries = initial_entries n\<rparr>"
  by (simp add: square_def initial_entries_def length_concat comp_def sum_list_triv)

lemma nth_concat_rows:
  "i < m \<Longrightarrow> j < n \<Longrightarrow> concat (map (\<lambda>i. map (f i) [0..<n]) [0..<m]) ! (i * n + j) = f i j"
proof (induction m)
  case (Suc m)
  have len: "length (concat (map (\<lambda>i. map (f i) [0..<n]) [0..<m])) = m * n" by (simp add: length_concat comp_def sum_list_triv)
  show ?case
  proof (cases "i = m")
    case True
    then show ?thesis using Suc.prems len by (simp add: nth_append)
  next
    case False
    then have "i < m" using Suc.prems by simp
    then have "i * n + j < m * n" using Suc.prems(2)
      by (metis add.commute add_less_le_mono mult_Suc mult_le_mono1 Suc_leI add_left_mono le_trans less_le_trans nat_add_left_cancel_less)
    then show ?thesis using Suc len \<open>i < m\<close> by (simp add: nth_append)
  qed
qed simp

lemma initial_entry: "i < n \<Longrightarrow> j < n \<Longrightarrow> entry \<lparr>rt_dimension = n, rt_entries = initial_entries n\<rparr> i j
    = \<lparr>re_cost = (if i = j then 0 else int n), re_next_node = None, re_buffer = None\<rparr>"
  unfolding entry_def initial_entries_def by (simp add: nth_concat_rows [where f = "\<lambda>i j. \<lparr>re_cost = (if i = j then 0 else int n), re_next_node = None, re_buffer = None\<rparr>"])

end
