(* ===== verification/SimRoutingProof.thy ===== *)
theory SimRoutingProof
  imports SimRouting
begin

text \<open>
  The routing table after \<^verbatim>\<open>Initialize\<close> and \<^verbatim>\<open>FloydWarshall\<close> (\<^verbatim>\<open>network/RoutingTable.cc\<close>): costs are the lengths of
  shortest paths, and every entry names a neighbour that is one hop closer, with an output buffer that leads to it.
\<close>

section \<open>Collecting loops\<close>

text \<open>A loop whose rounds each add to a set that the state is about.\<close>

lemma do_all_collect:
  assumes "\<And>x D s. x \<in> set xs \<Longrightarrow> P D s \<Longrightarrow> \<exists>s'. f x s = Some s' \<and> P (D \<union> g x) s'"
  shows "P D s \<Longrightarrow> \<exists>s'. do_all f xs s = Some s' \<and> P (D \<union> (\<Union>x \<in> set xs. g x)) s'"
  using assms
proof (induction xs arbitrary: D s)
  case (Cons x xs)
  obtain s1 where s1: "f x s = Some s1" "P (D \<union> g x) s1" using Cons.prems by (metis list.set_intros(1))
  have "\<exists>s'. do_all f xs s1 = Some s' \<and> P (D \<union> g x \<union> (\<Union>x \<in> set xs. g x)) s'"
    by (rule Cons.IH [OF s1(2)]) (use Cons.prems(2) in auto)
  then show ?case using s1(1) by (simp add: Un_assoc)
qed simp

lemma for_loop_collect:
  assumes "\<And>i D s. i < n \<Longrightarrow> P D s \<Longrightarrow> \<exists>s'. f i s = Some s' \<and> P (D \<union> g i) s'" and "P D s"
  shows "\<exists>s'. for_loop 0 n f s = Some s' \<and> P (D \<union> (\<Union>i < n. g i)) s'"
proof (rule for_loop_rule [where I = "\<lambda>i s. P (D \<union> (\<Union>i < i. g i)) s"])
  fix i s assume "i < n" "P (D \<union> (\<Union>i < i. g i)) s"
  then obtain s' where "f i s = Some s'" "P (D \<union> (\<Union>i < i. g i) \<union> g i) s'" using assms(1) by blast
  moreover have "D \<union> (\<Union>i < i. g i) \<union> g i = D \<union> (\<Union>i < Suc i. g i)" by (auto simp: lessThan_Suc)
  ultimately show "\<exists>s'. f i s = Some s' \<and> P (D \<union> (\<Union>i < Suc i. g i)) s'" by auto
qed (use assms(2) in simp_all)

section \<open>The initial table\<close>

definition linked :: "network \<Rightarrow> nat \<Rightarrow> nat \<Rightarrow> route \<Rightarrow> bool" where
  "linked nw i j e \<longleftrightarrow> re_cost e = 1 \<and> re_next_node e = Some j \<and> (\<exists>b. re_buffer e = Some b \<and> b \<in> set (outputs nw i) \<and> j \<in> set (targets nw b))"

definition linked_table :: "network \<Rightarrow> (nat \<times> nat) set \<Rightarrow> routing_table \<Rightarrow> bool" where
  "linked_table nw D rt \<longleftrightarrow> (let n = length (nw_nodes nw) in square n rt \<and> (\<forall>i < n. \<forall>j < n.
     if (i, j) \<in> D then linked nw i j (entry rt i j)
     else entry rt i j = \<lparr>re_cost = (if i = j then 0 else int n), re_next_node = None, re_buffer = None\<rparr>))"

lemma connect_destination_run:
  assumes wf: "wf_network nw" and i: "i < length (nw_nodes nw)" and b: "b \<in> set (outputs nw i)"
    and d: "d \<in> set (cn_destination_buffers (nw_connections nw ! bf_connection (nw_buffers nw ! b)))" and t: "linked_table nw D rt"
  shows "\<exists>rt'. connect_destination nw i b d rt = Some rt' \<and> linked_table nw (D \<union> ({(i, buffer_node nw d)} - Id)) rt'"
proof -
  let ?n = "length (nw_nodes nw)" and ?j = "buffer_node nw d"
  have bc: "bf_connection (nw_buffers nw ! b) < length (nw_connections nw)" using wf_buffer [OF wf] wf_output [OF wf i b] by blast
  have db: "d < length (nw_buffers nw)" by (rule wf_destination [OF wf bc d])
  have j: "?j < ?n" using wf_buffer [OF wf db] by blast
  have sq: "square ?n rt" using t by (simp add: linked_table_def Let_def)
  have jt: "?j \<in> set (targets nw b)" using d by (auto simp: targets_def)
  show ?thesis
  proof (cases "i = ?j")
    case True
    then show ?thesis using db t by (auto simp: connect_destination_def buffer_node_def)
  next
    case False
    let ?e = "\<lparr>re_cost = 1, re_next_node = Some ?j, re_buffer = Some b\<rparr>"
    obtain rt' where rt': "upd_route i ?j (\<lambda>e. ?e) rt = Some rt'" "square ?n rt'"
      "\<And>i' j'. i' < ?n \<Longrightarrow> j' < ?n \<Longrightarrow> entry rt' i' j' = (if i' = i \<and> j' = ?j then ?e else entry rt i' j')"
      using upd_route_run [OF sq i j, of "\<lambda>e. ?e"] by metis
    have "linked nw i ?j ?e" using b jt by (simp add: linked_def)
    then have "linked_table nw (D \<union> ({(i, ?j)} - Id)) rt'"
      using t rt'(2,3) False unfolding linked_table_def Let_def by auto
    then show ?thesis using rt'(1) False db by (simp add: connect_destination_def buffer_node_def)
  qed
qed

lemma connect_buffer_run:
  assumes wf: "wf_network nw" and i: "i < length (nw_nodes nw)" and b: "b \<in> set (outputs nw i)" and t: "linked_table nw D rt"
  shows "\<exists>rt'. connect_buffer nw i b rt = Some rt' \<and> linked_table nw (D \<union> ({i} \<times> set (targets nw b) - Id)) rt'"
proof -
  have bl: "b < length (nw_buffers nw)" "bf_connection (nw_buffers nw ! b) < length (nw_connections nw)"
    using wf_buffer [OF wf] wf_output [OF wf i b] by blast+
  let ?ds = "cn_destination_buffers (nw_connections nw ! bf_connection (nw_buffers nw ! b))"
  have "\<exists>rt'. do_all (connect_destination nw i b) ?ds rt = Some rt' \<and> linked_table nw (D \<union> (\<Union>d \<in> set ?ds. {(i, buffer_node nw d)} - Id)) rt'"
    by (rule do_all_collect [where P = "linked_table nw", OF _ t]) (rule connect_destination_run [OF wf i b])
  moreover have "(\<Union>d \<in> set ?ds. {(i, buffer_node nw d)} - Id) = {i} \<times> set (targets nw b) - Id" by (auto simp: targets_def)
  ultimately show ?thesis using bl by (simp add: connect_buffer_def)
qed

lemma connect_node_run:
  assumes wf: "wf_network nw" and i: "i < length (nw_nodes nw)" and t: "linked_table nw D rt"
  shows "\<exists>rt'. connect_node nw i rt = Some rt' \<and> linked_table nw (D \<union> {(i', j) \<in> hops nw. i' = i}) rt'"
proof -
  have "\<exists>rt'. do_all (connect_buffer nw i) (outputs nw i) rt = Some rt'
      \<and> linked_table nw (D \<union> (\<Union>b \<in> set (outputs nw i). {i} \<times> set (targets nw b) - Id)) rt'"
    by (rule do_all_collect [where P = "linked_table nw", OF _ t]) (rule connect_buffer_run [OF wf i])
  moreover have "(\<Union>b \<in> set (outputs nw i). {i} \<times> set (targets nw b) - Id) = {(i', j) \<in> hops nw. i' = i}"
    using i by (auto simp: hops_def)
  ultimately show ?thesis using i by (simp add: connect_node_def outputs_def)
qed

lemma RoutingTable_create_run:
  assumes wf: "wf_network nw"
  shows "\<exists>rt. RoutingTable_create nw = Some rt \<and> linked_table nw (hops nw) rt"
proof -
  let ?n = "length (nw_nodes nw)"
  let ?rt = "\<lparr>rt_dimension = ?n, rt_entries = initial_entries ?n\<rparr>"
  have "linked_table nw {} ?rt"
    using initial_entry by (auto simp: linked_table_def Let_def initial_square)
  then have "\<exists>rt. for_loop 0 ?n (connect_node nw) ?rt = Some rt \<and> linked_table nw ({} \<union> (\<Union>i < ?n. {(i', j) \<in> hops nw. i' = i})) rt"
    by (intro for_loop_collect [where P = "linked_table nw"] connect_node_run [OF wf])
  moreover have "(\<Union>i < ?n. {(i', j) \<in> hops nw. i' = i}) = hops nw" using hops_inside(1) [OF wf] by auto
  ultimately show ?thesis by (simp add: RoutingTable_create_def routing_Initialize_def Let_def)
qed

section \<open>Walks\<close>

text \<open>A walk of \<open>m\<close> hops whose inner nodes are below \<open>k\<close>.\<close>

inductive walk :: "(nat \<times> nat) set \<Rightarrow> nat \<Rightarrow> nat \<Rightarrow> nat \<Rightarrow> nat \<Rightarrow> bool" for R where
  walk_one: "(i, j) \<in> R \<Longrightarrow> walk R k i j 1"
| walk_step: "(i, x) \<in> R \<Longrightarrow> x < k \<Longrightarrow> walk R k x j m \<Longrightarrow> walk R k i j (Suc m)"

lemma walk_split:
  "walk R k' i j m \<Longrightarrow> k' = Suc k \<Longrightarrow>
     (\<exists>m' \<le> m. walk R k i j m') \<or> (\<exists>a b. walk R k i k a \<and> walk R k k j b \<and> a + b \<le> m)"
proof (induction rule: walk.induct)
  case (walk_one i j k')
  then show ?case using walk.walk_one by blast
next
  case (walk_step i x k' j m)
  from walk_step.IH [OF walk_step.prems] show ?case
  proof (elim disjE exE conjE)
    fix m' assume m': "m' \<le> m" "walk R k x j m'"
    show ?case
    proof (cases "x = k")
      case True
      then have "walk R k i k 1" "walk R k k j m'" "1 + m' \<le> Suc m" using walk_step.hyps(1) m' walk.walk_one by auto
      then show ?thesis by blast
    next
      case False
      then have "walk R k i j (Suc m')" using walk_step.hyps(1,2) walk_step.prems m' by (auto intro: walk.walk_step)
      then show ?thesis using m'(1) by auto
    qed
  next
    fix a b assume ab: "walk R k x k a" "walk R k k j b" "a + b \<le> m"
    have "\<exists>a' \<le> Suc a. walk R k i k a'"
    proof (cases "x = k")
      case True
      then show ?thesis using walk_step.hyps(1) walk.walk_one [of i k R k] by (metis Suc_eq_plus1_left le_add1)
    next
      case False
      then have "walk R k i k (Suc a)" using walk_step.hyps(1,2) walk_step.prems ab(1) by (auto intro: walk.walk_step)
      then show ?thesis by blast
    qed
    then obtain a' where a': "a' \<le> Suc a" "walk R k i k a'" by blast
    then have "a' + b \<le> Suc m" using ab(3) by simp
    then show ?case using a'(2) ab(2) by blast
  qed
qed

lemma walk_0: "walk R 0 i j m \<Longrightarrow> (i, j) \<in> R \<and> m = 1"
  by (erule walk.cases) auto

lemma relpow_walk:
  assumes "\<And>x y. (x, y) \<in> R \<Longrightarrow> x < n"
  shows "(i, j) \<in> R ^^ Suc m \<Longrightarrow> walk R n i j (Suc m)"
proof (induction m arbitrary: i)
  case (Suc m)
  then obtain x where x: "(i, x) \<in> R" "(x, j) \<in> R ^^ Suc m" by (meson relpow_Suc_D2)
  then have "x < n" using assms by (meson relpow_Suc_D2)
  then show ?case using x Suc.IH walk_step by blast
qed (auto intro: walk_one [of _ _ R n, simplified])

section \<open>Shortest distances\<close>

definition dist :: "(nat \<times> nat) set \<Rightarrow> nat \<Rightarrow> nat \<Rightarrow> nat" where
  "dist R i j = (LEAST m. (i, j) \<in> R ^^ m)"

lemma dist_relpow: "(i, j) \<in> R\<^sup>* \<Longrightarrow> (i, j) \<in> R ^^ dist R i j"
  unfolding dist_def by (rule LeastI_ex) (auto dest: rtrancl_imp_relpow)

lemma dist_le: "(i, j) \<in> R ^^ m \<Longrightarrow> dist R i j \<le> m"
  unfolding dist_def by (rule Least_le)

text \<open>The nodes of a shortest path are distinct, so it has fewer hops than there are nodes.\<close>

lemma dist_less:
  assumes inside: "\<And>x y. (x, y) \<in> R \<Longrightarrow> x < n \<and> y < n" and i: "i < n" and r: "(i, j) \<in> R\<^sup>*"
  shows "dist R i j < n"
proof -
  let ?d = "dist R i j"
  have "\<exists>x. x < n \<and> dist R i x = e" if "e \<le> ?d" for e
  proof -
    have "(i, j) \<in> R ^^ e O R ^^ (?d - e)" using dist_relpow [OF r] that by (simp flip: relpow_add)
    then obtain x where x: "(i, x) \<in> R ^^ e" "(x, j) \<in> R ^^ (?d - e)" by blast
    have "(i, x) \<in> R\<^sup>*" using x(1) by (rule relpow_imp_rtrancl)
    then have "x < n" using i inside by (cases rule: rtranclE) auto
    have "(i, j) \<in> R ^^ (dist R i x + (?d - e))"
      using dist_relpow [OF \<open>(i, x) \<in> R\<^sup>*\<close>] x(2) by (auto simp: relpow_add)
    then have "?d \<le> dist R i x + (?d - e)" by (rule dist_le)
    then have "dist R i x = e" using dist_le [OF x(1)] that by simp
    then show ?thesis using \<open>x < n\<close> by blast
  qed
  then have "{..?d} \<subseteq> dist R i ` {..<n}" by (auto simp: image_iff)
  then have "card {..?d} \<le> card {..<n}" by (meson card_image_le card_mono finite_imageI finite_lessThan le_trans)
  then show ?thesis by simp
qed

section \<open>The invariant of the table\<close>

text \<open>
  Every cost below the dimension is the length of a path, and the next node of an entry splits its cost into
  two parts. These facts hold from the initial table to the end.
\<close>

definition cost :: "routing_table \<Rightarrow> nat \<Rightarrow> nat \<Rightarrow> int" where
  "cost rt i j = re_cost (entry rt i j)"

definition next_ok :: "nat \<Rightarrow> routing_table \<Rightarrow> nat \<Rightarrow> nat \<Rightarrow> nat \<Rightarrow> bool" where
  "next_ok n rt i j x \<longleftrightarrow> x < n \<and> x \<noteq> i \<and> (x = j \<longrightarrow> cost rt i j = 1) \<and> cost rt i x + cost rt x j \<le> cost rt i j"

definition route_ok :: "(nat \<times> nat) set \<Rightarrow> nat \<Rightarrow> routing_table \<Rightarrow> nat \<Rightarrow> nat \<Rightarrow> bool" where
  "route_ok R n rt i j \<longleftrightarrow> 0 \<le> cost rt i j \<and> cost rt i j \<le> int n
     \<and> (i = j \<longrightarrow> cost rt i j = 0 \<and> re_next_node (entry rt i j) = None)
     \<and> (i \<noteq> j \<longrightarrow> 1 \<le> cost rt i j \<and> (re_next_node (entry rt i j) = None \<longleftrightarrow> cost rt i j = int n)
          \<and> (cost rt i j < int n \<longrightarrow> (i, j) \<in> R ^^ nat (cost rt i j)))
     \<and> (\<forall>x. re_next_node (entry rt i j) = Some x \<longrightarrow> next_ok n rt i j x)"

definition routes_ok :: "(nat \<times> nat) set \<Rightarrow> nat \<Rightarrow> routing_table \<Rightarrow> bool" where
  "routes_ok R n rt \<longleftrightarrow> square n rt \<and> (\<forall>i < n. \<forall>j < n. route_ok R n rt i j)"

definition complete :: "(nat \<times> nat) set \<Rightarrow> nat \<Rightarrow> nat \<Rightarrow> routing_table \<Rightarrow> bool" where
  "complete R n k rt \<longleftrightarrow> (\<forall>i < n. \<forall>j < n. \<forall>m. walk R k i j m \<longrightarrow> cost rt i j \<le> int m)"

lemma linked_table_ok:
  assumes "wf_network nw" "linked_table nw (hops nw) rt"
  shows "routes_ok (hops nw) (length (nw_nodes nw)) rt" "complete (hops nw) (length (nw_nodes nw)) 0 rt"
proof -
  let ?n = "length (nw_nodes nw)"
  have sq: "square ?n rt" using assms(2) by (simp add: linked_table_def Let_def)
  have e: "if (i, j) \<in> hops nw then linked nw i j (entry rt i j)
     else entry rt i j = \<lparr>re_cost = (if i = j then 0 else int ?n), re_next_node = None, re_buffer = None\<rparr>" if "i < ?n" "j < ?n" for i j
    using assms(2) that by (simp add: linked_table_def Let_def)
  have self: "(i, i) \<notin> hops nw" for i using hops_inside(3) [OF assms(1)] by blast
  have c: "cost rt i j = (if (i, j) \<in> hops nw then 1 else if i = j then 0 else int ?n)"
    "re_next_node (entry rt i j) = (if (i, j) \<in> hops nw then Some j else None)" if "i < ?n" "j < ?n" for i j
    using e [OF that] by (auto simp: cost_def linked_def split: if_splits)
  have "route_ok (hops nw) ?n rt i j" if ij: "i < ?n" "j < ?n" for i j
    using ij c [OF ij] c(1) [OF ij(2,2)] self by (auto simp: route_ok_def next_ok_def)
  then show "routes_ok (hops nw) ?n rt" using sq by (simp add: routes_ok_def)
  show "complete (hops nw) ?n 0 rt" using c by (auto simp: complete_def dest!: walk_0)
qed

lemma routes_okD:
  assumes "routes_ok R n rt" "i < n" "j < n"
  shows "square n rt" "route_ok R n rt i j"
  using assms by (simp_all add: routes_ok_def)

lemma relax_run:
  assumes ok: "routes_ok R n rt" and kij: "k < n" "i < n" "j < n"
  obtains rt' where "relax k i j rt = Some rt'" "routes_ok R n rt'"
    "\<And>i' j'. i' < n \<Longrightarrow> j' < n \<Longrightarrow> cost rt' i' j' \<le> cost rt i' j'" "cost rt' i j \<le> cost rt i k + cost rt k j"
proof (cases "cost rt i k + cost rt k j < cost rt i j")
  case False
  then show ?thesis using ok kij routes_okD(1) [OF ok kij(2,3)]
    by (intro that [of rt]) (simp_all add: relax_def cost_def)
next
  case True
  let ?c = "cost rt i k + cost rt k j"
  note sq = routes_okD(1) [OF ok kij(2,3)]
  note r_ik = routes_okD(2) [OF ok kij(2,1)] and r_kj = routes_okD(2) [OF ok kij(1,3)] and r_ij = routes_okD(2) [OF ok kij(2,3)]
  have ne: "k \<noteq> i" "k \<noteq> j" "i \<noteq> j"
    using True r_ik r_kj r_ij by (auto simp: route_ok_def)
  obtain rt' where rt': "upd_route i j (\<lambda>e. e\<lparr>re_cost := ?c, re_next_node := Some k\<rparr>) rt = Some rt'" "square n rt'"
    "\<And>i' j'. i' < n \<Longrightarrow> j' < n \<Longrightarrow> entry rt' i' j' = (if i' = i \<and> j' = j then (entry rt i j)\<lparr>re_cost := ?c, re_next_node := Some k\<rparr> else entry rt i' j')"
    using upd_route_run [OF sq kij(2,3), of "\<lambda>e. e\<lparr>re_cost := ?c, re_next_node := Some k\<rparr>"] by metis
  have cost': "cost rt' i' j' = (if i' = i \<and> j' = j then ?c else cost rt i' j')" if "i' < n" "j' < n" for i' j'
    using rt'(3) [OF that] by (simp add: cost_def)
  have next': "re_next_node (entry rt' i' j') = (if i' = i \<and> j' = j then Some k else re_next_node (entry rt i' j'))" if "i' < n" "j' < n" for i' j'
    using rt'(3) [OF that] by simp
  have le: "cost rt' i' j' \<le> cost rt i' j'" if "i' < n" "j' < n" for i' j' using cost' [OF that] True by simp
  have "route_ok R n rt' i' j'" if ij: "i' < n" "j' < n" for i' j'
  proof (cases "i' = i \<and> j' = j")
    case True
    have lt: "cost rt i k < int n" "cost rt k j < int n" "1 \<le> cost rt i k" "1 \<le> cost rt k j"
      using \<open>?c < cost rt i j\<close> ne r_ik r_kj r_ij by (auto simp: route_ok_def)
    then have "(i, k) \<in> R ^^ nat (cost rt i k)" "(k, j) \<in> R ^^ nat (cost rt k j)"
      using ne r_ik r_kj by (auto simp: route_ok_def)
    moreover have "nat ?c = nat (cost rt i k) + nat (cost rt k j)" using lt by (simp add: nat_add_distrib)
    ultimately have "(i, j) \<in> R ^^ nat ?c" by (auto simp: relpow_add)
    moreover have "next_ok n rt' i j k" using cost' kij ne by (simp add: next_ok_def)
    moreover have "?c < int n" using \<open>?c < cost rt i j\<close> r_ij by (simp add: route_ok_def)
    ultimately show ?thesis using True cost' [OF kij(2,3)] next' [OF kij(2,3)] lt ne by (simp add: route_ok_def)
  next
    case False
    have "next_ok n rt' i' j' x" if "re_next_node (entry rt i' j') = Some x" for x
    proof -
      have x: "next_ok n rt i' j' x" using routes_okD(2) [OF ok ij] that by (simp add: route_ok_def)
      then have "x < n" by (simp add: next_ok_def)
      then show ?thesis using x cost' [OF ij] le [OF ij(1) \<open>x < n\<close>] le [OF \<open>x < n\<close> ij(2)] False by (auto simp: next_ok_def)
    qed
    then show ?thesis using routes_okD(2) [OF ok ij] cost' [OF ij] next' [OF ij] False
      by (cases "i' = j'") (auto simp: route_ok_def)
  qed
  then have "routes_ok R n rt'" using rt'(2) by (simp add: routes_ok_def)
  then show ?thesis
    using True kij sq rt'(1) le cost' [OF kij(2,3)] by (intro that [of rt']) (simp_all add: relax_def cost_def Let_def)
qed

section \<open>The three loops\<close>

text \<open>The costs only fall; what a phase has done for the entries it has passed.\<close>

definition falls :: "nat \<Rightarrow> routing_table \<Rightarrow> routing_table \<Rightarrow> bool" where
  "falls n rt rt' \<longleftrightarrow> (\<forall>i < n. \<forall>j < n. cost rt' i j \<le> cost rt i j)"

lemma falls_trans: "falls n a b \<Longrightarrow> falls n b c \<Longrightarrow> falls n a c"
  unfolding falls_def by (meson order_trans)

lemma fallsD: "falls n rt rt' \<Longrightarrow> i < n \<Longrightarrow> j < n \<Longrightarrow> cost rt' i j \<le> cost rt i j"
  by (simp add: falls_def)

lemma relax_row:
  assumes ok: "routes_ok R n rt" and k: "k < n" and i: "i < n"
  shows "\<exists>rt'. for_loop 0 n (\<lambda>j. relax k i j) rt = Some rt' \<and> routes_ok R n rt' \<and> falls n rt rt'
    \<and> (\<forall>j < n. cost rt' i j \<le> cost rt i k + cost rt k j)"
proof -
  let ?I = "\<lambda>m s. routes_ok R n s \<and> falls n rt s \<and> (\<forall>j < m. j < n \<longrightarrow> cost s i j \<le> cost rt i k + cost rt k j)"
  have "\<exists>rt'. for_loop 0 n (\<lambda>j. relax k i j) rt = Some rt' \<and> ?I n rt'"
  proof (rule for_loop_rule [where I = ?I])
    fix j s assume j: "j < n" and I: "?I j s"
    obtain s' where s': "relax k i j s = Some s'" "routes_ok R n s'"
      "\<And>i' j'. i' < n \<Longrightarrow> j' < n \<Longrightarrow> cost s' i' j' \<le> cost s i' j'" "cost s' i j \<le> cost s i k + cost s k j"
      using relax_run [OF conjunct1 [OF I] k i j] by metis
    have f: "falls n s s'" using s'(3) by (simp add: falls_def)
    have "cost s' i j \<le> cost rt i k + cost rt k j"
      using s'(4) fallsD [of n rt s i k] fallsD [of n rt s k j] I i j k by auto
    moreover have "cost s' i j' \<le> cost rt i k + cost rt k j'" if "j' < j" for j'
      using s'(3) [OF i, of j'] I that j by fastforce
    moreover have "falls n rt s'" using I f falls_trans by blast
    ultimately have "?I (Suc j) s'" using s'(2) by (auto simp: less_Suc_eq)
    then show "\<exists>s'. relax k i j s = Some s' \<and> ?I (Suc j) s'" using s'(1) by blast
  qed (use ok in \<open>simp_all add: falls_def\<close>)
  then show ?thesis by auto
qed

lemma relax_phase:
  assumes ok: "routes_ok R n rt" and k: "k < n" and c: "complete R n k rt"
  shows "\<exists>rt'. for_loop 0 n (\<lambda>i. for_loop 0 n (\<lambda>j. relax k i j)) rt = Some rt' \<and> routes_ok R n rt' \<and> complete R n (Suc k) rt'"
proof -
  let ?I = "\<lambda>m s. routes_ok R n s \<and> falls n rt s \<and> (\<forall>i < m. \<forall>j < n. i < n \<longrightarrow> cost s i j \<le> cost rt i k + cost rt k j)"
  have "\<exists>rt'. for_loop 0 n (\<lambda>i. for_loop 0 n (\<lambda>j. relax k i j)) rt = Some rt' \<and> ?I n rt'"
  proof (rule for_loop_rule [where I = ?I])
    fix i s assume i: "i < n" and I: "?I i s"
    obtain s' where s': "for_loop 0 n (\<lambda>j. relax k i j) s = Some s'" "routes_ok R n s'" "falls n s s'"
      "\<forall>j < n. cost s' i j \<le> cost s i k + cost s k j"
      using relax_row [OF conjunct1 [OF I] k i] by blast
    have "cost s' i j \<le> cost rt i k + cost rt k j" if "j < n" for j
      using s'(4) that fallsD [of n rt s i k] fallsD [of n rt s k j] I i k by fastforce
    moreover have "cost s' i' j \<le> cost rt i' k + cost rt k j" if "i' < i" "j < n" for i' j
      using fallsD [OF s'(3), of i' j] I that i by fastforce
    moreover have "falls n rt s'" using I s'(3) falls_trans by blast
    ultimately have "?I (Suc i) s'" using s'(2) by (auto simp: less_Suc_eq)
    then show "\<exists>s'. for_loop 0 n (\<lambda>j. relax k i j) s = Some s' \<and> ?I (Suc i) s'" using s'(1) by blast
  qed (use ok in \<open>simp_all add: falls_def\<close>)
  then obtain rt' where rt': "for_loop 0 n (\<lambda>i. for_loop 0 n (\<lambda>j. relax k i j)) rt = Some rt'" "routes_ok R n rt'" "falls n rt rt'"
    "\<And>i j. i < n \<Longrightarrow> j < n \<Longrightarrow> cost rt' i j \<le> cost rt i k + cost rt k j" by auto
  have "cost rt' i j \<le> int m" if ij: "i < n" "j < n" and w: "walk R (Suc k) i j m" for i j m
    using walk_split [OF w refl]
  proof (elim disjE exE conjE)
    fix m' assume "m' \<le> m" "walk R k i j m'"
    then have "cost rt i j \<le> int m'" using c ij by (simp add: complete_def)
    then show ?thesis using fallsD [OF rt'(3) ij] \<open>m' \<le> m\<close> by simp
  next
    fix a b assume ab: "walk R k i k a" "walk R k k j b" "a + b \<le> m"
    then have "cost rt i k \<le> int a" "cost rt k j \<le> int b" using c ij k by (simp_all add: complete_def)
    then show ?thesis using rt'(4) [OF ij] ab(3) by linarith
  qed
  then have "complete R n (Suc k) rt'" by (simp add: complete_def)
  then show ?thesis using rt'(1,2) by blast
qed

lemma relax_all:
  assumes "routes_ok R n rt" "complete R n 0 rt"
  shows "\<exists>rt'. for_loop 0 n (\<lambda>k. for_loop 0 n (\<lambda>i. for_loop 0 n (\<lambda>j. relax k i j))) rt = Some rt'
    \<and> routes_ok R n rt' \<and> complete R n n rt'"
  using for_loop_rule [where I = "\<lambda>k s. routes_ok R n s \<and> complete R n k s" and lo = 0 and hi = n and s = rt
      and f = "\<lambda>k. for_loop 0 n (\<lambda>i. for_loop 0 n (\<lambda>j. relax k i j))"] assms relax_phase by blast

text \<open>A complete table holds the distances, and so satisfies the triangle inequality.\<close>

lemma complete_cost:
  assumes ok: "routes_ok R n rt" and c: "complete R n n rt" and inside: "\<And>x y. (x, y) \<in> R \<Longrightarrow> x < n \<and> y < n"
    and ij: "i < n" "j < n"
  shows "cost rt i j = (if (i, j) \<in> R\<^sup>* then int (dist R i j) else int n)"
proof (cases "i = j")
  case True
  have "dist R i i = 0" unfolding dist_def by (rule Least_equality) auto
  then show ?thesis using True routes_okD(2) [OF ok ij] by (simp add: route_ok_def)
next
  case False
  have up: "cost rt i j \<le> int m" if "(i, j) \<in> R ^^ m" for m
  proof (cases m)
    case 0
    then show ?thesis using that False by simp
  next
    case (Suc m')
    then have "walk R n i j m" using relpow_walk [of R n i j m'] inside that by blast
    then show ?thesis using c ij by (simp add: complete_def)
  qed
  show ?thesis
  proof (cases "(i, j) \<in> R\<^sup>*")
    case True
    then have "cost rt i j \<le> int (dist R i j)" using up dist_relpow by blast
    moreover have "cost rt i j < int n" using calculation dist_less [OF inside ij(1) True] by linarith
    then have "(i, j) \<in> R ^^ nat (cost rt i j)" "0 \<le> cost rt i j" using routes_okD(2) [OF ok ij] False by (simp_all add: route_ok_def)
    then have "int (dist R i j) \<le> cost rt i j" using dist_le by fastforce
    ultimately show ?thesis using True by simp
  next
    case unreachable: False
    then have "\<not> cost rt i j < int n" using routes_okD(2) [OF ok ij] False relpow_imp_rtrancl by (force simp: route_ok_def)
    then show ?thesis using unreachable routes_okD(2) [OF ok ij] by (simp add: route_ok_def)
  qed
qed

definition triangle :: "nat \<Rightarrow> routing_table \<Rightarrow> bool" where
  "triangle n rt \<longleftrightarrow> (\<forall>i < n. \<forall>x < n. \<forall>j < n. cost rt i j \<le> cost rt i x + cost rt x j)"

lemma complete_triangle:
  assumes ok: "routes_ok R n rt" and c: "complete R n n rt" and inside: "\<And>x y. (x, y) \<in> R \<Longrightarrow> x < n \<and> y < n"
  shows "triangle n rt"
  unfolding triangle_def
proof (intro allI impI)
  fix i x j assume n: "i < n" "x < n" "j < n"
  note eq = complete_cost [OF ok c inside]
  have pos: "0 \<le> cost rt i x" "0 \<le> cost rt x j" "cost rt i j \<le> int n"
    using routes_okD(2) [OF ok] n by (auto simp: route_ok_def)
  show "cost rt i j \<le> cost rt i x + cost rt x j"
  proof (cases "(i, x) \<in> R\<^sup>* \<and> (x, j) \<in> R\<^sup>*")
    case True
    then have "(i, j) \<in> R ^^ (dist R i x + dist R x j)" using dist_relpow by (auto simp: relpow_add)
    moreover have "(i, j) \<in> R\<^sup>*" using True by (meson rtrancl_trans)
    ultimately show ?thesis using True n eq dist_le by (simp add: of_nat_add [symmetric] del: of_nat_add)
  next
    case False
    then show ?thesis using eq n pos by auto
  qed
qed

section \<open>The next nodes and the output buffers\<close>

text \<open>Following the next nodes of a row ends at a neighbour; it lies on a shortest path.\<close>

lemma follow_path_run:
  assumes ok: "routes_ok R n rt" and tri: "triangle n rt" and i: "i < n" and j: "j < n"
  shows "next_ok n rt i j x \<Longrightarrow> cost rt i j < int n \<Longrightarrow>
    \<exists>y. follow_path rt i x = Some y \<and> next_ok n rt i j y \<and> cost rt i y = 1"
proof (induction "nat (cost rt i x)" arbitrary: x rule: less_induct)
  case less
  have x: "x < n" "x \<noteq> i" "cost rt i x + cost rt x j \<le> cost rt i j" using less.prems(1) by (simp_all add: next_ok_def)
  note sq = routes_okD(1) [OF ok i x(1)]
  note rx = routes_okD(2) [OF ok i x(1)]
  have pos: "1 \<le> cost rt i x" using rx x(2) by (simp add: route_ok_def)
  show ?case
  proof (cases "cost rt i x \<le> 1")
    case True
    then show ?thesis using less.prems(1) pos sq i x(1) by (subst follow_path.simps) (simp add: cost_def)
  next
    case False
    have "0 \<le> cost rt x j" using routes_okD(2) [OF ok x(1) j] by (simp add: route_ok_def)
    then have "cost rt i x < int n" using x(3) less.prems(2) by linarith
    then obtain y where y: "re_next_node (entry rt i x) = Some y" using rx x(2) by (fastforce simp: route_ok_def)
    then have yx: "next_ok n rt i x y" using rx by (simp add: route_ok_def)
    then have yn: "y < n" "y \<noteq> i" "y \<noteq> x" "cost rt i y + cost rt y x \<le> cost rt i x" using False by (auto simp: next_ok_def)
    have yx1: "1 \<le> cost rt y x" using routes_okD(2) [OF ok yn(1) x(1)] yn(3) by (simp add: route_ok_def)
    have iy1: "1 \<le> cost rt i y" using routes_okD(2) [OF ok i yn(1)] yn(2) by (simp add: route_ok_def)
    have "cost rt y j \<le> cost rt y x + cost rt x j" using tri yn(1) x(1) j by (simp add: triangle_def)
    then have le: "cost rt i y + cost rt y j \<le> cost rt i j" using yn(4) x(3) by linarith
    have "y \<noteq> j"
    proof
      assume "y = j"
      have "cost rt i x \<le> cost rt i j" using \<open>0 \<le> cost rt x j\<close> x(3) by linarith
      then show False using yn(4) yx1 \<open>y = j\<close> by simp
    qed
    then have "next_ok n rt i j y" using yn le by (simp add: next_ok_def)
    moreover have "nat (cost rt i y) < nat (cost rt i x)" using yn(4) yx1 iy1 by linarith
    ultimately obtain z where z: "follow_path rt i y = Some z" "next_ok n rt i j z" "cost rt i z = 1"
      using less.hyps less.prems(2) by blast
    then show ?thesis using False sq i x(1) y by (subst follow_path.simps) (simp add: cost_def)
  qed
qed

lemma reaches_node_run:
  "\<forall>d \<in> set ds. d < length (nw_buffers nw) \<Longrightarrow> reaches_node nw y ds = Some (y \<in> buffer_node nw ` set ds)"
  by (induction ds) (auto simp: buffer_node_def)

lemma choose_buffer_run:
  assumes wf: "wf_network nw" and i: "i < length (nw_nodes nw)"
  shows "set bs \<subseteq> set (outputs nw i) \<Longrightarrow> \<exists>b \<in> set bs. y \<in> set (targets nw b) \<Longrightarrow>
    \<exists>b \<in> set bs. y \<in> set (targets nw b) \<and> choose_buffer nw i j y bs rt = upd_route i j (\<lambda>e. e\<lparr>re_next_node := Some y, re_buffer := Some b\<rparr>) rt"
proof (induction bs)
  case (Cons b bs)
  have b: "b < length (nw_buffers nw)" "bf_connection (nw_buffers nw ! b) < length (nw_connections nw)"
    using wf_buffer [OF wf] wf_output [OF wf i] Cons.prems(1) by auto
  have "reaches_node nw y (cn_destination_buffers (nw_connections nw ! bf_connection (nw_buffers nw ! b))) = Some (y \<in> set (targets nw b))"
    using reaches_node_run wf_destination [OF wf b(2)] by (simp add: targets_def)
  then show ?case using Cons b by auto
qed simp

definition same_costs :: "nat \<Rightarrow> routing_table \<Rightarrow> routing_table \<Rightarrow> bool" where
  "same_costs n rt rt' \<longleftrightarrow> (\<forall>i < n. \<forall>j < n. cost rt' i j = cost rt i j)"

text \<open>The final entries: nothing for a node itself and for nodes out of reach, else a neighbour one hop closer.\<close>

definition final_route :: "network \<Rightarrow> routing_table \<Rightarrow> nat \<Rightarrow> nat \<Rightarrow> bool" where
  "final_route nw rt i j \<longleftrightarrow> (let e = entry rt i j in
     if i = j \<or> cost rt i j = int (length (nw_nodes nw)) then re_next_node e = None \<and> re_buffer e = None
     else \<exists>x b. re_next_node e = Some x \<and> re_buffer e = Some b \<and> x < length (nw_nodes nw) \<and> (i, x) \<in> hops nw
       \<and> b \<in> set (outputs nw i) \<and> x \<in> set (targets nw b) \<and> cost rt x j = cost rt i j - 1)"

lemma resolve_run:
  assumes wf: "wf_network nw" and n: "n = length (nw_nodes nw)" and ok: "routes_ok (hops nw) n rt" and tri: "triangle n rt"
    and i: "i < n" and j: "j < n"
  obtains rt' where "resolve nw i j rt = Some rt'" "routes_ok (hops nw) n rt'" "same_costs n rt rt'" "final_route nw rt' i j"
    "\<And>i' j'. i' < n \<Longrightarrow> j' < n \<Longrightarrow> (i', j') \<noteq> (i, j) \<Longrightarrow> entry rt' i' j' = entry rt i' j'"
proof -
  note sq = routes_okD(1) [OF ok i j] and r = routes_okD(2) [OF ok i j]
  have keep: "routes_ok (hops nw) n rt' \<and> same_costs n rt rt'"
    if sq': "square n rt'" and e: "\<And>i' j'. i' < n \<Longrightarrow> j' < n \<Longrightarrow> entry rt' i' j' = (if i' = i \<and> j' = j then f (entry rt i j) else entry rt i' j')"
      and f: "re_cost (f (entry rt i j)) = cost rt i j" "(re_next_node (f (entry rt i j)) = None) = (re_next_node (entry rt i j) = None)"
        "\<And>x. re_next_node (f (entry rt i j)) = Some x \<Longrightarrow> next_ok n rt i j x" for rt' f
  proof -
    have c: "cost rt' i' j' = cost rt i' j'" if "i' < n" "j' < n" for i' j' using e [OF that] f(1) by (simp add: cost_def)
    have no: "next_ok n rt' i' j' x" if "next_ok n rt i' j' x" "i' < n" "j' < n" for i' j' x using that c by (simp add: next_ok_def)
    have "route_ok (hops nw) n rt' i' j'" if ij: "i' < n" "j' < n" for i' j'
    proof (cases "i' = i \<and> j' = j")
      case True
      then show ?thesis using r e [OF i j] c [OF i j] f(2,3) no i j unfolding route_ok_def by auto
    next
      case False
      then have "entry rt' i' j' = entry rt i' j'" using e [OF ij] by auto
      then show ?thesis using routes_okD(2) [OF ok ij] c [OF ij] no ij unfolding route_ok_def by auto
    qed
    then show ?thesis using sq' c by (simp add: routes_ok_def same_costs_def)
  qed
  show ?thesis
  proof (cases "re_next_node (entry rt i j)")
    case None
    obtain rt' where rt': "upd_route i j (\<lambda>e. e\<lparr>re_buffer := None\<rparr>) rt = Some rt'" "square n rt'"
      "\<And>i' j'. i' < n \<Longrightarrow> j' < n \<Longrightarrow> entry rt' i' j' = (if i' = i \<and> j' = j then (entry rt i j)\<lparr>re_buffer := None\<rparr> else entry rt i' j')"
      using upd_route_run [OF sq i j, of "\<lambda>e. e\<lparr>re_buffer := None\<rparr>"] by metis
    have k: "routes_ok (hops nw) n rt' \<and> same_costs n rt rt'"
      by (rule keep [OF rt'(2), of "\<lambda>e. e\<lparr>re_buffer := None\<rparr>"]) (use rt'(3) None in \<open>simp_all add: cost_def\<close>)
    have "i = j \<or> cost rt i j = int n" using r None by (auto simp: route_ok_def)
    then have "final_route nw rt' i j" using rt'(3) [OF i j] None k i j n by (auto simp: final_route_def same_costs_def)
    moreover have "resolve nw i j rt = Some rt'" using rt'(1) None sq i j by (simp add: resolve_def)
    moreover have "entry rt' i' j' = entry rt i' j'" if "i' < n" "j' < n" "(i', j') \<noteq> (i, j)" for i' j'
      using rt'(3) [OF that(1,2)] that(3) by auto
    ultimately show ?thesis using k by (intro that [of rt']) simp_all
  next
    case (Some x)
    then have x: "next_ok n rt i j x" "i \<noteq> j" using r by (auto simp: route_ok_def)
    then have lt: "cost rt i j < int n" using r Some by (fastforce simp: route_ok_def)
    obtain y where y: "follow_path rt i x = Some y" "next_ok n rt i j y" "cost rt i y = 1"
      using follow_path_run [OF ok tri i j x(1) lt] by blast
    have yn: "y < n" "y \<noteq> i" using y(2) by (simp_all add: next_ok_def)
    have c: "cost rt y j = cost rt i j - 1"
      using y(2,3) tri i yn(1) j by (fastforce simp: next_ok_def triangle_def)
    have "1 < int n" using i yn by linarith
    then have "(i, y) \<in> hops nw ^^ 1" using routes_okD(2) [OF ok i yn(1)] yn(2) y(3) unfolding route_ok_def by auto
    then have hop: "(i, y) \<in> hops nw" by simp
    then have ex: "\<exists>b \<in> set (outputs nw i). y \<in> set (targets nw b)" by (simp add: hops_def)
    obtain b where b: "b \<in> set (outputs nw i)" "y \<in> set (targets nw b)" "choose_buffer nw i j y (outputs nw i) rt
        = upd_route i j (\<lambda>e. e\<lparr>re_next_node := Some y, re_buffer := Some b\<rparr>) rt"
      using choose_buffer_run [OF wf _ subset_refl ex] i n by blast
    obtain rt' where rt': "upd_route i j (\<lambda>e. e\<lparr>re_next_node := Some y, re_buffer := Some b\<rparr>) rt = Some rt'" "square n rt'"
      "\<And>i' j'. i' < n \<Longrightarrow> j' < n \<Longrightarrow> entry rt' i' j' = (if i' = i \<and> j' = j then (entry rt i j)\<lparr>re_next_node := Some y, re_buffer := Some b\<rparr> else entry rt i' j')"
      using upd_route_run [OF sq i j, of "\<lambda>e. e\<lparr>re_next_node := Some y, re_buffer := Some b\<rparr>"] by metis
    have k: "routes_ok (hops nw) n rt' \<and> same_costs n rt rt'"
      by (rule keep [OF rt'(2), of "\<lambda>e. e\<lparr>re_next_node := Some y, re_buffer := Some b\<rparr>"]) (use rt'(3) Some y(2) in \<open>simp_all add: cost_def\<close>)
    have "final_route nw rt' i j"
      using rt'(3) [OF i j] k i j yn n x(2) lt hop b(1,2) c by (auto simp: final_route_def same_costs_def)
    moreover have "resolve nw i j rt = Some rt'"
      using rt'(1) b(3) Some sq i j y(1) n by (simp add: resolve_def outputs_def)
    moreover have "entry rt' i' j' = entry rt i' j'" if "i' < n" "j' < n" "(i', j') \<noteq> (i, j)" for i' j'
      using rt'(3) [OF that(1,2)] that(3) by auto
    ultimately show ?thesis using k by (intro that [of rt']) simp_all
  qed
qed

lemma final_route_cong:
  assumes "entry rt' i j = entry rt i j" "same_costs (length (nw_nodes nw)) rt rt'" "i < length (nw_nodes nw)" "j < length (nw_nodes nw)"
    and "final_route nw rt i j"
  shows "final_route nw rt' i j"
  using assms by (auto simp: final_route_def same_costs_def Let_def)

lemma same_costs_trans: "same_costs n a b \<Longrightarrow> same_costs n b c \<Longrightarrow> same_costs n a c"
  by (simp add: same_costs_def)

lemma same_costs_triangle: "same_costs n rt rt' \<Longrightarrow> triangle n rt \<Longrightarrow> triangle n rt'"
  by (simp add: same_costs_def triangle_def)

text \<open>One round and all rounds of the second pass, over the set of entries that are final.\<close>

definition pass_state :: "network \<Rightarrow> routing_table \<Rightarrow> (nat \<times> nat) set \<Rightarrow> routing_table \<Rightarrow> bool" where
  "pass_state nw rt0 D rt \<longleftrightarrow> (let n = length (nw_nodes nw) in routes_ok (hops nw) n rt \<and> same_costs n rt0 rt
     \<and> (\<forall>(i, j) \<in> D. i < n \<longrightarrow> j < n \<longrightarrow> final_route nw rt i j))"

lemma resolve_all:
  assumes wf: "wf_network nw" and n: "n = length (nw_nodes nw)" and tri: "triangle n rt0" and ok: "routes_ok (hops nw) n rt0"
  shows "\<exists>rt. for_loop 0 n (\<lambda>i. for_loop 0 n (\<lambda>j. resolve nw i j)) rt0 = Some rt \<and> routes_ok (hops nw) n rt \<and> same_costs n rt0 rt
    \<and> (\<forall>i < n. \<forall>j < n. final_route nw rt i j)"
proof -
  have step: "\<exists>rt'. resolve nw i j rt = Some rt' \<and> pass_state nw rt0 (D \<union> {(i, j)}) rt'"
    if ij: "i < n" "j < n" and D: "pass_state nw rt0 D rt" for i j D rt
  proof -
    have rt: "routes_ok (hops nw) n rt" "same_costs n rt0 rt" using D n by (simp_all add: pass_state_def Let_def)
    obtain rt' where rt': "resolve nw i j rt = Some rt'" "routes_ok (hops nw) n rt'" "same_costs n rt rt'" "final_route nw rt' i j"
      "\<And>i' j'. i' < n \<Longrightarrow> j' < n \<Longrightarrow> (i', j') \<noteq> (i, j) \<Longrightarrow> entry rt' i' j' = entry rt i' j'"
      using resolve_run [OF wf n rt(1) same_costs_triangle [OF rt(2) tri] ij] by metis
    have "final_route nw rt' i' j'" if "(i', j') \<in> D" "i' < n" "j' < n" for i' j'
    proof (cases "(i', j') = (i, j)")
      case False
      have "final_route nw rt i' j'" using D that n by (auto simp: pass_state_def Let_def)
      then show ?thesis using final_route_cong rt'(3,5) that(2,3) False n by metis
    qed (use rt'(4) in simp)
    then show ?thesis using rt' same_costs_trans [OF rt(2) rt'(3)] n by (auto simp: pass_state_def Let_def)
  qed
  have row: "\<exists>rt'. for_loop 0 n (\<lambda>j. resolve nw i j) rt = Some rt' \<and> pass_state nw rt0 (D \<union> (\<Union>j < n. {(i, j)})) rt'"
    if "i < n" "pass_state nw rt0 D rt" for i D rt
    by (rule for_loop_collect [where P = "pass_state nw rt0" and g = "\<lambda>j. {(i, j)}"]) (use step that in auto)
  have "pass_state nw rt0 {} rt0" using ok n by (simp add: pass_state_def same_costs_def)
  then have "\<exists>rt'. for_loop 0 n (\<lambda>i. for_loop 0 n (\<lambda>j. resolve nw i j)) rt0 = Some rt'
      \<and> pass_state nw rt0 ({} \<union> (\<Union>i < n. \<Union>j < n. {(i, j)})) rt'"
    by (intro for_loop_collect [where P = "pass_state nw rt0"] row)
  then show ?thesis using n by (auto simp: pass_state_def Let_def)
qed

lemma FloydWarshall_run:
  assumes wf: "wf_network nw" and n: "n = length (nw_nodes nw)" and t: "linked_table nw (hops nw) rt"
  shows "\<exists>rt'. FloydWarshall nw rt = Some rt' \<and> square n rt' \<and> (\<forall>i < n. \<forall>j < n.
    cost rt' i j = (if (i, j) \<in> (hops nw)\<^sup>* then int (dist (hops nw) i j) else int n) \<and> final_route nw rt' i j)"
proof -
  let ?R = "hops nw"
  have inside: "\<And>x y. (x, y) \<in> ?R \<Longrightarrow> x < n \<and> y < n" using hops_inside(1,2) [OF wf] n by auto
  have ok: "routes_ok ?R n rt" "complete ?R n 0 rt" using linked_table_ok [OF wf t] n by simp_all
  obtain r1 where r1: "for_loop 0 n (\<lambda>k. for_loop 0 n (\<lambda>i. for_loop 0 n (\<lambda>j. relax k i j))) rt = Some r1"
    "routes_ok ?R n r1" "complete ?R n n r1"
    using relax_all [OF ok] by blast
  obtain r2 where r2: "for_loop 0 n (\<lambda>i. for_loop 0 n (\<lambda>j. resolve nw i j)) r1 = Some r2" "routes_ok ?R n r2" "same_costs n r1 r2"
    "\<forall>i < n. \<forall>j < n. final_route nw r2 i j"
    using resolve_all [OF wf n complete_triangle [OF r1(2,3) inside] r1(2)] by blast
  have "rt_dimension rt = n" using ok(1) by (simp add: routes_ok_def square_def)
  then have "FloydWarshall nw rt = Some r2" using r1(1) r2(1) by (simp add: FloydWarshall_def)
  moreover have "cost r2 i j = (if (i, j) \<in> ?R\<^sup>* then int (dist ?R i j) else int n)" if "i < n" "j < n" for i j
    using complete_cost [OF r1(2,3) inside that] r2(3) that by (simp add: same_costs_def)
  ultimately show ?thesis using r2(2,4) by (auto simp: routes_ok_def)
qed

end
