(* ===== verification/SimRoutingCycle.thy ===== *)
theory SimRoutingCycle
  imports SimRoutingProof
begin

text \<open>
  What the routing table promises: shortest paths, packets that arrive, and a check for cycles among the output
  buffers that decides whether there is one (\<^verbatim>\<open>network/RoutingTable.cc\<close>, \<^verbatim>\<open>lib/cpp/Graph.cc\<close>).
\<close>

section \<open>The graph of output buffers\<close>

text \<open>A buffer depends on the buffer that the next node of its route uses towards the same destination.\<close>

definition dependencies :: "routing_table \<Rightarrow> (nat \<times> nat) set" where
  "dependencies rt = {(b, b'). \<exists>s < rt_dimension rt. \<exists>d < rt_dimension rt. \<exists>x. s \<noteq> d \<and> re_buffer (entry rt s d) = Some b
     \<and> re_next_node (entry rt s d) = Some x \<and> re_buffer (entry rt x d) = Some b'}"

definition used :: "routing_table \<Rightarrow> nat set" where
  "used rt = {b. \<exists>s < rt_dimension rt. \<exists>d < rt_dimension rt. re_buffer (entry rt s d) = Some b}"

text \<open>A table whose routes leave through output buffers of their nodes.\<close>

definition table_wf :: "network \<Rightarrow> routing_table \<Rightarrow> bool" where
  "table_wf nw rt \<longleftrightarrow> (let n = length (nw_nodes nw) in square n rt \<and> (\<forall>s < n. \<forall>d < n. \<forall>b. re_buffer (entry rt s d) = Some b \<longrightarrow>
     b \<in> set (outputs nw s) \<and> (\<exists>x < n. re_next_node (entry rt s d) = Some x)))"

lemma table_wfD:
  assumes "table_wf nw rt" "s < length (nw_nodes nw)" "d < length (nw_nodes nw)" "re_buffer (entry rt s d) = Some b"
  shows "b \<in> set (outputs nw s)" "\<exists>x < length (nw_nodes nw). re_next_node (entry rt s d) = Some x"
  using assms unfolding table_wf_def Let_def by blast+

lemma buffer_used_run:
  "square n rt \<Longrightarrow> s < n \<Longrightarrow> \<forall>d \<in> set ds. d < n \<Longrightarrow>
    buffer_used s b ds rt = Some (\<exists>d \<in> set ds. re_buffer (entry rt s d) = Some b)"
  by (induction ds) auto

definition channels :: "nat set \<Rightarrow> channel_graph \<Rightarrow> bool" where
  "channels D g \<longleftrightarrow> wf_graph (fst g) \<and> gr_edges (fst g) = [] \<and> dom (snd g) = D \<and> inj_on (snd g) D
     \<and> (\<forall>b v. snd g b = Some v \<longrightarrow> v < length (gr_vertices (fst g)))"

lemma add_channel_run:
  assumes t: "table_wf nw rt" and s: "s < length (nw_nodes nw)" and D: "channels D g" and new: "b \<in> set (outputs nw s)"
  shows "\<exists>g'. add_channel rt s b g = Some g' \<and> channels (D \<union> (if b \<in> used rt \<and> (\<exists>d < rt_dimension rt. re_buffer (entry rt s d) = Some b) then {b} else {})) g'"
proof -
  let ?n = "length (nw_nodes nw)"
  have sq: "square ?n rt" using t by (simp add: table_wf_def Let_def)
  then have n: "rt_dimension rt = ?n" by (simp add: square_def)
  have u: "buffer_used s b [0..<?n] rt = Some (\<exists>d < ?n. re_buffer (entry rt s d) = Some b)"
    using buffer_used_run [OF sq s, of "[0..<?n]" b] by (auto simp: Bex_def)
  show ?thesis
  proof (cases "\<exists>d < ?n. re_buffer (entry rt s d) = Some b")
    case False
    then have "buffer_used s b [0..<?n] rt = Some False" unfolding u by simp
    then have "add_channel rt s b g = Some g" using n by (simp add: add_channel_def)
    then show ?thesis using False D n by auto
  next
    case True
    let ?v = "length (gr_vertices (fst g))"
    let ?f = "if snd g b = None then (snd g)(b \<mapsto> ?v) else snd g"
    have run: "add_channel rt s b g = Some (addVertex vertex_new (fst g), ?f)"
      using u True n by (simp add: add_channel_def Let_def getNumVertices_def addVertex_def)
    have "channels (insert b D) (addVertex vertex_new (fst g), ?f)"
    proof (cases "b \<in> D")
      case True
      then have "snd g b \<noteq> None" using D by (auto simp: channels_def)
      then show ?thesis using D True addVertex_wf by (fastforce simp: channels_def addVertex_def insert_absorb)
    next
      case nb: False
      then have "snd g b = None" using D by (auto simp: channels_def)
      moreover have "inj_on ((snd g)(b \<mapsto> ?v)) (insert b D)"
        using D nb by (fastforce simp: channels_def inj_on_def dom_def)
      ultimately show ?thesis using D addVertex_wf by (auto simp: channels_def addVertex_def less_Suc_eq)
    qed
    moreover have "b \<in> used rt" using True s n by (auto simp: used_def)
    ultimately show ?thesis using run True n by auto
  qed
qed

lemma channels_run:
  assumes t: "table_wf nw rt"
  shows "\<exists>g. for_loop 0 (rt_dimension rt) (add_channels nw rt) (graph_new, Map.empty) = Some g \<and> channels (used rt) g"
proof -
  let ?n = "length (nw_nodes nw)"
  have sq: "square ?n rt" using t by (simp add: table_wf_def Let_def)
  then have n: "rt_dimension rt = ?n" by (simp add: square_def)
  let ?g = "\<lambda>s b. if b \<in> used rt \<and> (\<exists>d < rt_dimension rt. re_buffer (entry rt s d) = Some b) then {b} else {}"
  have node: "\<exists>g'. add_channels nw rt s g = Some g' \<and> channels (D \<union> (\<Union>b \<in> set (outputs nw s). ?g s b)) g'"
    if "s < ?n" "channels D g" for s D g
  proof -
    have "\<exists>g'. do_all (add_channel rt s) (outputs nw s) g = Some g' \<and> channels (D \<union> (\<Union>b \<in> set (outputs nw s). ?g s b)) g'"
      by (rule do_all_collect [where P = channels and g = "?g s", OF _ that(2)]) (rule add_channel_run [OF t that(1)])
    then show ?thesis using that(1) by (simp add: add_channels_def outputs_def)
  qed
  have "channels {} (graph_new, Map.empty)" using graph_new_wf by (simp add: channels_def graph_new_def)
  then have "\<exists>g. for_loop 0 ?n (add_channels nw rt) (graph_new, Map.empty) = Some g
      \<and> channels ({} \<union> (\<Union>s < ?n. \<Union>b \<in> set (outputs nw s). ?g s b)) g"
    by (intro for_loop_collect [where P = channels] node)
  moreover have "(\<Union>s < ?n. \<Union>b \<in> set (outputs nw s). ?g s b) = used rt"
    using t n by (fastforce simp: used_def table_wf_def Let_def split: if_splits)
  ultimately show ?thesis using n by simp
qed

text \<open>The edges that the second pass adds are the dependencies, under the numbering of the buffers.\<close>

definition linked_channels :: "(nat \<Rightarrow> nat option) \<Rightarrow> (nat \<times> nat) set \<Rightarrow> channel_graph \<Rightarrow> bool" where
  "linked_channels f E g \<longleftrightarrow> wf_graph (fst g) \<and> snd g = f \<and> (\<forall>b v. f b = Some v \<longrightarrow> v < length (gr_vertices (fst g)))
     \<and> set (edge_pairs (fst g)) = (\<lambda>(b, b'). (the (f b), the (f b'))) ` E"

definition dependency :: "routing_table \<Rightarrow> nat \<Rightarrow> nat \<Rightarrow> (nat \<times> nat) set" where
  "dependency rt s d = {(b, b'). \<exists>x. s \<noteq> d \<and> re_buffer (entry rt s d) = Some b
     \<and> re_next_node (entry rt s d) = Some x \<and> re_buffer (entry rt x d) = Some b'}"

lemma add_dependency_run:
  assumes t: "table_wf nw rt" and s: "s < length (nw_nodes nw)" and d: "d < length (nw_nodes nw)"
    and f: "dom f = used rt" and E: "linked_channels f E g"
  shows "\<exists>g'. add_dependency rt s d g = Some g' \<and> linked_channels f (E \<union> dependency rt s d) g'"
proof -
  let ?n = "length (nw_nodes nw)"
  have sq: "square ?n rt" using t by (simp add: table_wf_def Let_def)
  then have n: "rt_dimension rt = ?n" by (simp add: square_def)
  show ?thesis
  proof (cases "s = d \<or> re_buffer (entry rt s d) = None")
    case True
    then have "dependency rt s d = {}" by (auto simp: dependency_def)
    moreover have "add_dependency rt s d g = Some g" using True sq s d by (auto simp: add_dependency_def)
    ultimately show ?thesis using E by auto
  next
    case False
    then obtain b where b: "re_buffer (entry rt s d) = Some b" "s \<noteq> d" by auto
    obtain x where x: "x < ?n" "re_next_node (entry rt s d) = Some x" using table_wfD(2) [OF t s d b(1)] by blast
    show ?thesis
    proof (cases "re_buffer (entry rt x d)")
      case None
      then have "dependency rt s d = {}" using x by (auto simp: dependency_def)
      moreover have "add_dependency rt s d g = Some g" using None sq s d b x by (simp add: add_dependency_def)
      ultimately show ?thesis using E by auto
    next
      case (Some b')
      have dep: "dependency rt s d = {(b, b')}" using b x Some by (auto simp: dependency_def)
      have "b \<in> used rt" "b' \<in> used rt" using b(1) Some s d x(1) n by (auto simp: used_def)
      then obtain v v' where v: "f b = Some v" "f b' = Some v'" using f by (metis domD)
      have lt: "v < length (gr_vertices (fst g))" "v' < length (gr_vertices (fst g))" and wf: "wf_graph (fst g)" and fg: "snd g = f"
        using E v by (auto simp: linked_channels_def)
      have found: "findEdge v v' (fst g) = None \<longleftrightarrow> (v, v') \<notin> set (edge_pairs (fst g))"
        by (auto simp: findEdge_def find_None_iff edge_pairs_def)
      show ?thesis
      proof (cases "(v, v') \<in> set (edge_pairs (fst g))")
        case True
        then have "add_dependency rt s d g = Some g"
          using found sq s d b x Some v fg by (auto simp: add_dependency_def)
        moreover have "linked_channels f (E \<union> {(b, b')}) g" using E True v by (auto simp: linked_channels_def)
        ultimately show ?thesis by (simp add: dep)
      next
        case False
        let ?e = "edge_new (length (gr_edges (fst g))) v v'"
        obtain h where h: "addEdge ?e v v' (fst g) = Some h" "wf_graph h" "gr_edges h = gr_edges (fst g) @ [?e]"
          "length (gr_vertices h) = length (gr_vertices (fst g))"
          using addEdge_wf [OF wf, of ?e] lt by (auto simp: edge_new_def)
        have "add_dependency rt s d g = Some (h, snd g)"
          using False found sq s d b x Some v fg h(1) by (simp add: add_dependency_def)
        moreover have "edge_pairs h = edge_pairs (fst g) @ [(v, v')]" by (simp add: edge_pairs_def h(3) edge_new_def)
        then have "linked_channels f (E \<union> {(b, b')}) (h, snd g)" using E v h(2,4) by (auto simp: linked_channels_def)
        ultimately show ?thesis by (simp add: dep)
      qed
    qed
  qed
qed

lemma trancl_image:
  assumes "inj_on f A" "R \<subseteq> A \<times> A"
  shows "(\<exists>v. (v, v) \<in> ((\<lambda>(b, b'). (f b, f b')) ` R)\<^sup>+) \<longleftrightarrow> (\<exists>b. (b, b) \<in> R\<^sup>+)"
proof
  let ?S = "(\<lambda>(b, b'). (f b, f b')) ` R"
  have "(u, w) \<in> ?S\<^sup>+ \<Longrightarrow> \<exists>b b'. u = f b \<and> w = f b' \<and> b \<in> A \<and> b' \<in> A \<and> (b, b') \<in> R\<^sup>+" for u w
  proof (induction rule: trancl_induct)
    case (base w)
    then obtain b b' where "(b, b') \<in> R" "u = f b" "w = f b'" by auto
    then show ?case using assms(2) by blast
  next
    case (step w z)
    from step.hyps(2) obtain c c' where c: "(c, c') \<in> R" "w = f c" "z = f c'" by auto
    from step.IH obtain b b' where b: "u = f b" "w = f b'" "b \<in> A" "b' \<in> A" "(b, b') \<in> R\<^sup>+" by blast
    have cA: "c \<in> A" "c' \<in> A" using c(1) assms(2) by auto
    then have "b' = c" using b(2,4) c(2) assms(1) by (simp add: inj_on_def)
    then show ?case using b c cA by (blast intro: trancl_into_trancl)
  qed
  then show "\<exists>v. (v, v) \<in> ?S\<^sup>+ \<Longrightarrow> \<exists>b. (b, b) \<in> R\<^sup>+" using assms(1) by (metis inj_onD)
  have "(b, b') \<in> R\<^sup>+ \<Longrightarrow> (f b, f b') \<in> ?S\<^sup>+" for b b'
    by (induction rule: trancl_induct) (auto intro: trancl_into_trancl)
  then show "\<exists>b. (b, b) \<in> R\<^sup>+ \<Longrightarrow> \<exists>v. (v, v) \<in> ?S\<^sup>+" by blast
qed

lemma routing_hasCycle_run:
  assumes t: "table_wf nw rt"
  shows "routing_hasCycle nw rt = Some (\<exists>b. (b, b) \<in> (dependencies rt)\<^sup>+)"
proof -
  let ?n = "length (nw_nodes nw)"
  have n: "rt_dimension rt = ?n" using t by (simp add: table_wf_def Let_def square_def)
  obtain g where g: "for_loop 0 ?n (add_channels nw rt) (graph_new, Map.empty) = Some g" "channels (used rt) g"
    using channels_run [OF t] n by auto
  have f: "dom (snd g) = used rt" "inj_on (snd g) (used rt)" using g(2) by (simp_all add: channels_def)
  have start: "linked_channels (snd g) {} g" using g(2) by (simp add: channels_def linked_channels_def edge_pairs_def)
  have row: "\<exists>g'. for_loop 0 ?n (\<lambda>d. add_dependency rt s d) h = Some g' \<and> linked_channels (snd g) (E \<union> (\<Union>d < ?n. dependency rt s d)) g'"
    if "s < ?n" "linked_channels (snd g) E h" for s E h
    by (rule for_loop_collect [where P = "linked_channels (snd g)" and g = "\<lambda>d. dependency rt s d"])
      (use add_dependency_run [OF t that(1) _ f(1)] that(2) in auto)
  have "\<exists>g'. for_loop 0 ?n (\<lambda>s. for_loop 0 ?n (\<lambda>d. add_dependency rt s d)) g = Some g'
      \<and> linked_channels (snd g) ({} \<union> (\<Union>s < ?n. \<Union>d < ?n. dependency rt s d)) g'"
    by (intro for_loop_collect [where P = "linked_channels (snd g)"] row start)
  then obtain h where h: "for_loop 0 ?n (\<lambda>s. for_loop 0 ?n (\<lambda>d. add_dependency rt s d)) g = Some h"
    "linked_channels (snd g) (\<Union>s < ?n. \<Union>d < ?n. dependency rt s d) h" by auto
  have all: "(\<Union>s < ?n. \<Union>d < ?n. dependency rt s d) = dependencies rt"
    by (auto simp: dependencies_def dependency_def n)
  have wf: "wf_graph (fst h)" and edges: "set (edge_pairs (fst h)) = (\<lambda>(b, b'). (the (snd g b), the (snd g b'))) ` dependencies rt"
    using h(2) unfolding all by (simp_all add: linked_channels_def)
  have "b \<in> used rt \<and> b' \<in> used rt" if dep: "(b, b') \<in> dependencies rt" for b b'
  proof -
    obtain s d x where s: "s < ?n" "d < ?n" "re_buffer (entry rt s d) = Some b" "re_next_node (entry rt s d) = Some x"
      "re_buffer (entry rt x d) = Some b'" using dep n by (auto simp: dependencies_def)
    then have "x < ?n" using table_wfD(2) [OF t s(1-3)] by auto
    then show ?thesis using s n by (auto simp: used_def)
  qed
  then have "dependencies rt \<subseteq> used rt \<times> used rt" by auto
  moreover have "inj_on (\<lambda>b. the (snd g b)) (used rt)"
  proof (rule inj_onI)
    fix b b' assume b: "b \<in> used rt" "b' \<in> used rt" "the (snd g b) = the (snd g b')"
    then have "snd g b \<noteq> None" "snd g b' \<noteq> None" using f(1) by auto
    then have "snd g b = snd g b'" using b(3) by (auto intro: option.expand)
    then show "b = b'" using f(2) b(1,2) by (simp add: inj_on_def)
  qed
  ultimately have "(\<exists>v. (v, v) \<in> (set (edge_pairs (fst h)))\<^sup>+) \<longleftrightarrow> (\<exists>b. (b, b) \<in> (dependencies rt)\<^sup>+)"
    unfolding edges by (rule trancl_image [rotated])
  moreover have "hasCycle (fst h) = Some (\<exists>v. (v, v) \<in> (set (edge_pairs (fst h)))\<^sup>+)"
    using hasCycle_cyclic wf_graph_arcs [OF wf] by (simp add: cyclic_def edge_pairs_def)
  ultimately show ?thesis using g(1) h(1) n by (simp add: routing_hasCycle_def)
qed

section \<open>Properties\<close>

lemma final_table:
  assumes wf: "wf_network nw"
  obtains rt rt' where "RoutingTable_create nw = Some rt" "FloydWarshall nw rt = Some rt'" "square (length (nw_nodes nw)) rt'"
    "\<And>i j. i < length (nw_nodes nw) \<Longrightarrow> j < length (nw_nodes nw) \<Longrightarrow>
      cost rt' i j = (if (i, j) \<in> (hops nw)\<^sup>* then int (dist (hops nw) i j) else int (length (nw_nodes nw))) \<and> final_route nw rt' i j"
  using RoutingTable_create_run [OF wf] FloydWarshall_run [OF wf refl] by metis

lemma dist_self [simp]: "dist R i i = 0"
  unfolding dist_def by (rule Least_equality) auto

text \<open>The entry of a node in reach, and its next node.\<close>

lemma final_entry:
  assumes wf: "wf_network nw" and n: "n = length (nw_nodes nw)" and i: "i < n" and j: "j < n" and ne: "i \<noteq> j" and r: "(i, j) \<in> (hops nw)\<^sup>*"
    and t: "\<And>i j. i < n \<Longrightarrow> j < n \<Longrightarrow> cost rt i j = (if (i, j) \<in> (hops nw)\<^sup>* then int (dist (hops nw) i j) else int n) \<and> final_route nw rt i j"
  shows "\<exists>x b. re_next_node (entry rt i j) = Some x \<and> re_buffer (entry rt i j) = Some b \<and> x < n \<and> (i, x) \<in> hops nw
    \<and> b \<in> set (outputs nw i) \<and> x \<in> set (targets nw b) \<and> (x, j) \<in> (hops nw)\<^sup>* \<and> dist (hops nw) i j = Suc (dist (hops nw) x j)"
proof -
  have inside: "\<And>x y. (x, y) \<in> hops nw \<Longrightarrow> x < n \<and> y < n" using hops_inside(1,2) [OF wf] n by auto
  have lt: "dist (hops nw) i j < n" by (rule dist_less [OF inside i r])
  have c: "cost rt i j = int (dist (hops nw) i j)" "final_route nw rt i j" using t [OF i j] r by simp_all
  obtain x b where x: "re_next_node (entry rt i j) = Some x" "re_buffer (entry rt i j) = Some b" "x < n" "(i, x) \<in> hops nw"
    "b \<in> set (outputs nw i)" "x \<in> set (targets nw b)" "cost rt x j = cost rt i j - 1"
    using c lt ne n by (auto simp: final_route_def Let_def)
  have "cost rt x j < int n" using x(7) c(1) lt by simp
  then have "(x, j) \<in> (hops nw)\<^sup>*" using t [OF x(3) j] by (auto split: if_splits)
  then have "int (dist (hops nw) i j) = int (dist (hops nw) x j) + 1" using x(7) c(1) t [OF x(3) j] by simp
  then have "dist (hops nw) i j = Suc (dist (hops nw) x j)" by linarith
  then show ?thesis using x \<open>(x, j) \<in> (hops nw)\<^sup>*\<close> by blast
qed

lemma three_nodes:
  obtains nw where "build_network [True, False, True] [(0, 1), (1, 2)] = Some nw" "wf_network nw" "hops nw = {(0, 1), (1, 2)}"
    "length (nw_nodes nw) = 3"
proof -
  have "\<forall>(s, d) \<in> set [(0, 1), (1, 2 :: nat)]. s < length [True, False, True] \<and> d < length [True, False, True]
      \<and> \<not> ([True, False, True] ! s \<and> [True, False, True] ! d)" by simp
  from build_network_run [OF this] obtain nw where nw: "build_network [True, False, True] [(0, 1), (1, 2)] = Some nw" "wf_network nw"
    "hops nw = set [(0, 1), (1, 2)] - Id" "length (nw_nodes nw) = length [True, False, True]" by blast
  moreover have "set [(0, 1), (1, 2 :: nat)] - Id = {(0, 1), (1, 2)}" by auto
  ultimately show ?thesis by (intro that [of nw]) simp_all
qed

text \<open>
  C28: the routing table holds shortest paths: for every well-formed network, creating the table and running
  \<^verbatim>\<open>FloydWarshall\<close> returns; the entry for two nodes then has as cost the least number of hops, and names a neighbour of the
  first that is one hop closer with an output buffer of the first that leads to it; for a node itself and for nodes out of reach the
  entry has no next node and no buffer, and the cost 0 or the number of nodes.
\<close>

theorem FloydWarshall_shortest_paths:
  assumes "wf_network nw"
  shows "\<exists>rt rt'. RoutingTable_create nw = Some rt \<and> FloydWarshall nw rt = Some rt' \<and>
    (\<forall>i < length (nw_nodes nw). \<forall>j < length (nw_nodes nw). \<exists>e. route_lookup i j rt' = Some e \<and>
      (if (i, j) \<in> (hops nw)\<^sup>* \<and> i \<noteq> j
       then re_cost e = int (dist (hops nw) i j) \<and> (\<exists>x b. re_next_node e = Some x \<and> re_buffer e = Some b \<and> (i, x) \<in> hops nw
         \<and> dist (hops nw) i j = Suc (dist (hops nw) x j) \<and> b \<in> set (outputs nw i) \<and> x \<in> set (targets nw b))
       else e = \<lparr>re_cost = (if i = j then 0 else int (length (nw_nodes nw))), re_next_node = None, re_buffer = None\<rparr>))"
proof -
  let ?n = "length (nw_nodes nw)"
  obtain rt rt' where rt: "RoutingTable_create nw = Some rt" "FloydWarshall nw rt = Some rt'" "square ?n rt'"
    "\<And>i j. i < ?n \<Longrightarrow> j < ?n \<Longrightarrow> cost rt' i j = (if (i, j) \<in> (hops nw)\<^sup>* then int (dist (hops nw) i j) else int ?n) \<and> final_route nw rt' i j"
    using final_table [OF assms] by metis
  have "\<exists>e. route_lookup i j rt' = Some e \<and>
      (if (i, j) \<in> (hops nw)\<^sup>* \<and> i \<noteq> j
       then re_cost e = int (dist (hops nw) i j) \<and> (\<exists>x b. re_next_node e = Some x \<and> re_buffer e = Some b \<and> (i, x) \<in> hops nw
         \<and> dist (hops nw) i j = Suc (dist (hops nw) x j) \<and> b \<in> set (outputs nw i) \<and> x \<in> set (targets nw b))
       else e = \<lparr>re_cost = (if i = j then 0 else int ?n), re_next_node = None, re_buffer = None\<rparr>)" if ij: "i < ?n" "j < ?n" for i j
  proof (cases "(i, j) \<in> (hops nw)\<^sup>* \<and> i \<noteq> j")
    case True
    then have r: "i \<noteq> j" "(i, j) \<in> (hops nw)\<^sup>*" by auto
    show ?thesis using final_entry [OF assms refl ij r rt(4)] rt(3,4) ij True by (fastforce simp: cost_def)
  next
    case False
    then have c: "cost rt' i j = (if i = j then 0 else int ?n)" using rt(4) [OF ij] by auto
    then have "re_next_node (entry rt' i j) = None \<and> re_buffer (entry rt' i j) = None"
      using rt(4) [OF ij] by (auto simp: final_route_def Let_def split: if_splits)
    then show ?thesis using c False rt(3) ij by (auto simp: cost_def intro!: route.equality)
  qed
  then show ?thesis using rt(1,2) by blast
qed

theorem FloydWarshall_shortest_paths_witness:
  "\<exists>nw rt rt' e. build_network [True, False, True] [(0, 1), (1, 2)] = Some nw \<and> RoutingTable_create nw = Some rt
     \<and> FloydWarshall nw rt = Some rt' \<and> route_lookup 2 0 rt' = Some e \<and> re_cost e = 3 \<and> re_next_node e = None"
proof -
  obtain nw where nw: "build_network [True, False, True] [(0, 1), (1, 2)] = Some nw" "wf_network nw" "hops nw = {(0, 1), (1, 2)}"
    "length (nw_nodes nw) = 3" by (rule three_nodes)
  have "(2, 0) \<notin> (hops nw)\<^sup>*" by (auto simp: nw(3) elim: converse_rtranclE)
  obtain rt rt' where r: "RoutingTable_create nw = Some rt" "FloydWarshall nw rt = Some rt'" and
    all: "\<forall>i < length (nw_nodes nw). \<forall>j < length (nw_nodes nw). \<exists>e. route_lookup i j rt' = Some e \<and>
      (if (i, j) \<in> (hops nw)\<^sup>* \<and> i \<noteq> j
       then re_cost e = int (dist (hops nw) i j) \<and> (\<exists>x b. re_next_node e = Some x \<and> re_buffer e = Some b \<and> (i, x) \<in> hops nw
         \<and> dist (hops nw) i j = Suc (dist (hops nw) x j) \<and> b \<in> set (outputs nw i) \<and> x \<in> set (targets nw b))
       else e = \<lparr>re_cost = (if i = j then 0 else int (length (nw_nodes nw))), re_next_node = None, re_buffer = None\<rparr>)"
    using FloydWarshall_shortest_paths [OF nw(2)] by (elim exE conjE) (rule that)
  have "\<exists>e. route_lookup 2 0 rt' = Some e \<and> e = \<lparr>re_cost = 3, re_next_node = None, re_buffer = None\<rparr>"
    using all [rule_format, of 2 0] \<open>(2, 0) \<notin> (hops nw)\<^sup>*\<close> nw(4) by simp
  then show ?thesis using r nw(1) by (intro exI [of _ nw] exI [of _ rt] exI [of _ rt']) auto
qed

text \<open>
  C29: packets arrive: in the table that \<^verbatim>\<open>FloydWarshall\<close> leaves, following the next node of the entry for the
  destination from node to node leads from every node to every destination in its reach, in exactly as many hops as the shortest path has.
\<close>

fun forward :: "routing_table \<Rightarrow> nat \<Rightarrow> nat \<Rightarrow> nat \<Rightarrow> nat option" where
  "forward rt destination 0 node = Some node"
| "forward rt destination (Suc m) node = do {
     e \<leftarrow> route_lookup node destination rt;
     next_node \<leftarrow> re_next_node e;
     forward rt destination m next_node }"

theorem routed_packets_arrive:
  assumes wf: "wf_network nw" and create: "RoutingTable_create nw = Some rt" and run: "FloydWarshall nw rt = Some rt'"
    and ij: "i < length (nw_nodes nw)" "j < length (nw_nodes nw)" and reach: "(i, j) \<in> (hops nw)\<^sup>*"
  shows "forward rt' j (dist (hops nw) i j) i = Some j"
proof -
  let ?n = "length (nw_nodes nw)"
  have sq: "square ?n rt'" and t: "\<And>i j. i < ?n \<Longrightarrow> j < ?n \<Longrightarrow>
      cost rt' i j = (if (i, j) \<in> (hops nw)\<^sup>* then int (dist (hops nw) i j) else int ?n) \<and> final_route nw rt' i j"
    using final_table [OF wf] create run by (metis option.inject)+
  have "i < ?n \<Longrightarrow> (i, j) \<in> (hops nw)\<^sup>* \<Longrightarrow> dist (hops nw) i j = m \<Longrightarrow> forward rt' j m i = Some j" for i m
  proof (induction m arbitrary: i)
    case 0
    then have "(i, j) \<in> hops nw ^^ 0" using dist_relpow [of i j "hops nw"] by simp
    then show ?case by simp
  next
    case (Suc m)
    then have "i \<noteq> j" by auto
    then obtain x b where "re_next_node (entry rt' i j) = Some x" "x < ?n" "(x, j) \<in> (hops nw)\<^sup>*"
      "dist (hops nw) i j = Suc (dist (hops nw) x j)"
      using final_entry [OF wf refl Suc.prems(1) ij(2) _ Suc.prems(2) t] by blast
    then show ?case using Suc.IH [of x] Suc.prems sq ij(2) by simp
  qed
  then show ?thesis using ij(1) reach by blast
qed

theorem routed_packets_arrive_witness:
  "\<exists>nw rt rt'. build_network [True, False, True] [(0, 1), (1, 2)] = Some nw \<and> RoutingTable_create nw = Some rt
     \<and> FloydWarshall nw rt = Some rt' \<and> forward rt' 2 (dist (hops nw) 0 2) 0 = Some 2"
proof -
  obtain nw where nw: "build_network [True, False, True] [(0, 1), (1, 2)] = Some nw" "wf_network nw" "hops nw = {(0, 1), (1, 2)}"
    "length (nw_nodes nw) = 3" by (rule three_nodes)
  have "(0, 2) \<in> (hops nw)\<^sup>*" by (simp add: nw(3)) (meson insertCI rtrancl.simps)
  moreover obtain rt rt' where r: "RoutingTable_create nw = Some rt" "FloydWarshall nw rt = Some rt'"
    using final_table [OF nw(2)] by metis
  ultimately have "forward rt' 2 (dist (hops nw) 0 2) 0 = Some 2"
    using routed_packets_arrive [OF nw(2) r, of 0 2] nw(4) by simp
  then show ?thesis using r nw(1) by blast
qed

text \<open>
  C30: the check for cycles is right: for the table that \<^verbatim>\<open>FloydWarshall\<close> leaves on a well-formed network, \<^verbatim>\<open>hasCycle\<close> returns
  (each buffer it meets has a vertex, and the search ends), and the result is true exactly when
  some output buffer depends on itself through the buffers that routes use one after the other.
\<close>

theorem routing_hasCycle_decides:
  assumes wf: "wf_network nw" and create: "RoutingTable_create nw = Some rt" and run: "FloydWarshall nw rt = Some rt'"
  shows "routing_hasCycle nw rt' = Some (\<exists>b. (b, b) \<in> (dependencies rt')\<^sup>+)"
proof -
  have sq: "square (length (nw_nodes nw)) rt'" and t: "\<And>i j. i < length (nw_nodes nw) \<Longrightarrow> j < length (nw_nodes nw) \<Longrightarrow> final_route nw rt' i j"
    using final_table [OF wf] create run by (metis option.inject)+
  have "table_wf nw rt'"
    unfolding table_wf_def Let_def
  proof (intro conjI allI impI sq)
    fix s d b assume sd: "s < length (nw_nodes nw)" "d < length (nw_nodes nw)" "re_buffer (entry rt' s d) = Some b"
    then show "b \<in> set (outputs nw s)" "\<exists>x < length (nw_nodes nw). re_next_node (entry rt' s d) = Some x"
      using t [OF sd(1,2)] by (auto simp: final_route_def Let_def split: if_splits)
  qed
  then show ?thesis by (rule routing_hasCycle_run)
qed

theorem routing_hasCycle_decides_witness:
  "\<exists>nw rt rt'. build_network [False, False, False] [(0, 1), (1, 2), (2, 0)] = Some nw \<and> RoutingTable_create nw = Some rt
     \<and> FloydWarshall nw rt = Some rt' \<and> routing_hasCycle nw rt' = Some (\<exists>b. (b, b) \<in> (dependencies rt')\<^sup>+)"
proof -
  obtain nw where nw: "build_network [False, False, False] [(0, 1), (1, 2), (2, 0)] = Some nw" "wf_network nw"
    using build_network_run [of "[(0 :: nat, 1), (1, 2), (2, 0)]" "[False, False, False]"] by auto
  obtain rt rt' where r: "RoutingTable_create nw = Some rt" "FloydWarshall nw rt = Some rt'"
    using final_table [OF nw(2)] by metis
  then show ?thesis using routing_hasCycle_decides [OF nw(2) r] nw(1) by blast
qed

text \<open>
  a route over a bus that the user gives is stored with a wrong buffer, and the check for cycles then stops: in a network
  of an end node and a switch on a bus, and a link from the switch to a second end node, the routes from the first end node to the
  second through the switch are accepted; but the entry of the first node holds the buffer in which the switch receives
  instead of one in which the node sends, so that \<^verbatim>\<open>hasCycle\<close> fails its assertion that every buffer of a route has a vertex.
\<close>

definition bus_network :: "network option" where
  "bus_network = do {
     let nw = add_nodes [True, False, True] network_new;
     let (bus, nw) = addBus 1 nw;
     r \<leftarrow> add_bus_port Bidirectional None 8 8 bus 0 nw;
     nw \<leftarrow> (case r of Inl e \<Rightarrow> None | Inr nw \<Rightarrow> Some nw);
     r \<leftarrow> add_bus_port Bidirectional None 8 8 bus 1 nw;
     nw \<leftarrow> (case r of Inl e \<Rightarrow> None | Inr nw \<Rightarrow> Some nw);
     add_links [(1, 2)] nw }"

definition manual_routes :: "network \<Rightarrow> routing_table option" where
  "manual_routes nw = do {
     rt \<leftarrow> RoutingTable_create nw;
     r \<leftarrow> UpdateRoute nw 0 2 1 0 rt;
     rt \<leftarrow> (case r of Inl e \<Rightarrow> None | Inr rt \<Rightarrow> Some rt);
     r \<leftarrow> UpdateRoute nw 1 2 2 0 rt;
     rt \<leftarrow> (case r of Inl e \<Rightarrow> None | Inr rt \<Rightarrow> Some rt);
     UpdateManualRoutingCost rt }"

theorem bus_route_breaks_cycle_check:
  "\<exists>nw rt e. bus_network = Some nw \<and> manual_routes nw = Some rt \<and> route_lookup 0 2 rt = Some e \<and> re_next_node e = Some 1
     \<and> re_buffer e = Some 3 \<and> 3 \<notin> set (outputs nw 0) \<and> buffer_node nw 3 = 1 \<and> routing_hasCycle nw rt = None"
proof -
  have "case bus_network of None \<Rightarrow> False | Some nw \<Rightarrow> (case manual_routes nw of None \<Rightarrow> False | Some rt \<Rightarrow>
      (case route_lookup 0 2 rt of None \<Rightarrow> False | Some e \<Rightarrow> re_next_node e = Some 1 \<and> re_buffer e = Some 3
        \<and> 3 \<notin> set (outputs nw 0) \<and> buffer_node nw 3 = 1 \<and> routing_hasCycle nw rt = None))"
    by code_simp
  then show ?thesis by (auto split: option.splits)
qed

end
