(* ===== verification/SimSpecMem.thy ===== *)
theory SimSpecMem
  imports SimMemoryClient
begin

unbundle bit_operations_syntax

text \<open>
  The memory of speculative execution, \<^verbatim>\<open>memory/SpecMem.cc\<close>: an overlay of pages of 16 bytes over a
  guest memory (\<open>SimMemory\<close>), in a hash table of 32 chains. Reads see the speculative writes, and the
  guest memory elsewhere; the guest memory is only read, in unsafe mode. Once the overlay has 100 pages,
  a write outside them is dropped. \<^verbatim>\<open>Clear\<close> discards the overlay.

  A chain of pages linked by \<^verbatim>\<open>next\<close> is a list, and a pointer to a page is the page found in its chain.
  A member function returns the two memories with the value, or with the exception that a read of
  the guest memory throws.
\<close>

section \<open>Pages\<close>

definition LogSpecPageSize :: nat where
  "LogSpecPageSize = 4"

definition SpecPageSize :: "32 word" where
  "SpecPageSize = push_bit LogSpecPageSize 1"

definition SpecPageMask :: "32 word" where
  "SpecPageMask = NOT (SpecPageSize - 1)"

definition PageTableSize :: nat where
  "PageTableSize = 32"

definition MaxPages :: int where
  "MaxPages = 100"

record spec_page =
  sp_address :: "32 word"
  sp_data :: "byte list"

record specmem_t =
  sm_num_pages :: int
  sm_pages :: "spec_page list list"

type_synonym spec_state = "specmem_t \<times> memory_t"

type_synonym 'a spec_result = "(spec_state \<times> (mem_error + 'a)) option"

definition spec_then :: "'a spec_result \<Rightarrow> ('a \<Rightarrow> spec_state \<Rightarrow> 'b spec_result) \<Rightarrow> 'b spec_result" where
  "spec_then r f = (case r of None \<Rightarrow> None | Some (s, Inl e) \<Rightarrow> Some (s, Inl e) | Some (s, Inr x) \<Rightarrow> f x s)"

definition specmem_create :: "specmem_t option" where
  "specmem_create = do {
     c_assert (PageSize mod SpecPageSize = 0);
     Some \<lparr>sm_num_pages = 0, sm_pages = replicate PageTableSize []\<rparr> }"

definition spec_index :: "32 word \<Rightarrow> nat" where
  "spec_index address = unat (drop_bit LogSpecPageSize address) mod PageTableSize"

definition spec_getPage :: "32 word \<Rightarrow> specmem_t \<Rightarrow> spec_page option" where
  "spec_getPage address sm = (let address = address AND SpecPageMask
     in find (\<lambda>page. sp_address page = address) (sm_pages sm ! spec_index address))"

text \<open>A read of the guest memory between the two calls of \<^verbatim>\<open>setSafe\<close>, which an exception skips.\<close>

definition unsafe_read :: "32 word \<Rightarrow> 32 word \<Rightarrow> byte list \<Rightarrow> spec_state \<Rightarrow> byte list spec_result" where
  "unsafe_read address sz buffer s = (let (sm, m) = s; safe = m_safe m
     in case Read address sz buffer (setSafe False m) of
       None \<Rightarrow> None
     | Some (m, Inl e) \<Rightarrow> Some ((sm, m), Inl e)
     | Some (m, Inr buffer) \<Rightarrow> Some ((sm, setSafe safe m), Inr buffer))"

definition spec_newPage :: "32 word \<Rightarrow> spec_state \<Rightarrow> spec_page spec_result" where
  "spec_newPage address s = (let address = address AND SpecPageMask; index = spec_index address
     in spec_then (unsafe_read address SpecPageSize (replicate (unat SpecPageSize) 0) s) (\<lambda>data (sm, m).
       let page = \<lparr>sp_address = address, sp_data = data\<rparr>
       in Some ((sm\<lparr>sm_pages := (sm_pages sm)[index := page # sm_pages sm ! index], sm_num_pages := sm_num_pages sm + 1\<rparr>, m),
         Inr page)))"

text \<open>The contents of a page, changed through its pointer.\<close>

fun set_data :: "32 word \<Rightarrow> byte list \<Rightarrow> spec_page list \<Rightarrow> spec_page list" where
  "set_data address data [] = []"
| "set_data address data (page # chain) = (if sp_address page = address
     then page\<lparr>sp_data := data\<rparr> # chain else page # set_data address data chain)"

definition spec_setData :: "spec_page \<Rightarrow> byte list \<Rightarrow> specmem_t \<Rightarrow> specmem_t" where
  "spec_setData page data sm = (let index = spec_index (sp_address page)
     in sm\<lparr>sm_pages := (sm_pages sm)[index := set_data (sp_address page) data (sm_pages sm ! index)]\<rparr>)"

section \<open>Accesses\<close>

text \<open>
  A size is a C \<^verbatim>\<open>int\<close>. \<open>spec_page_access\<close> is the part of \<^verbatim>\<open>AccessAligned\<close> after the page is found or made;
  the sum in its assertion is taken on unsigned words.
\<close>

definition spec_page_access ::
  "32 word \<Rightarrow> int \<Rightarrow> byte list \<Rightarrow> 32 word \<Rightarrow> spec_page \<Rightarrow> spec_state \<Rightarrow> byte list spec_result" where
  "spec_page_access address sz buffer access page s = (let offset = address AND NOT SpecPageMask in do {
     c_assert (offset + word_of_int sz \<le> SpecPageSize);
     c_assert (0 \<le> sz);
     if access = AccessRead then do {
       bs \<leftarrow> get_bytes (sp_data page) (unat offset) (nat sz);
       buffer \<leftarrow> put_bytes buffer 0 bs;
       Some (s, Inr buffer) }
     else if access = AccessWrite then do {
       bs \<leftarrow> get_bytes buffer 0 (nat sz);
       data \<leftarrow> put_bytes (sp_data page) (unat offset) bs;
       Some ((spec_setData page data (fst s), snd s), Inr buffer) }
     else None })"

definition AccessAligned :: "32 word \<Rightarrow> int \<Rightarrow> byte list \<Rightarrow> 32 word \<Rightarrow> spec_state \<Rightarrow> byte list spec_result" where
  "AccessAligned address sz buffer access s = (case spec_getPage address (fst s) of
       Some page \<Rightarrow> spec_page_access address sz buffer access page s
     | None \<Rightarrow>
         if access = AccessRead then unsafe_read address (word_of_int sz) buffer s
         else if access = AccessWrite then
           if sm_num_pages (fst s) \<ge> MaxPages then Some (s, Inr buffer)
           else spec_then (spec_newPage address s) (spec_page_access address sz buffer access)
         else None)"

function spec_Access :: "32 word \<Rightarrow> int \<Rightarrow> byte list \<Rightarrow> 32 word \<Rightarrow> spec_state \<Rightarrow> byte list spec_result" where
  "spec_Access address sz buf access s =
     (if sz = 0 then Some (s, Inr buf) else
      let offset = address AND (SpecPageSize - 1); chunksize = min sz (uint (SpecPageSize - offset))
      in spec_then (AccessAligned address chunksize buf access s) (\<lambda>buf s.
         spec_then (spec_Access (address + word_of_int chunksize) (sz - chunksize) (drop (nat chunksize) buf) access s) (\<lambda>rest s.
         Some (s, Inr (take (nat chunksize) buf @ rest)))))"
  by pat_completeness auto

lemma SpecPageSize_simps [simp]: "SpecPageSize = 16" "SpecPageMask = NOT 15"
  by (simp_all add: SpecPageSize_def SpecPageMask_def LogSpecPageSize_def)

lemma unat_spec_offset: "unat ((a :: 32 word) AND 15) = unat a mod 16"
proof -
  have "(15 :: 32 word) = mask 4" by (simp add: mask_eq_exp_minus_1)
  then have "a AND 15 = take_bit 4 a" by (simp add: take_bit_eq_mask)
  then show ?thesis by (simp add: take_bit_eq_mod unat_mod)
qed

lemma spec_chunk: "uint (16 - ((a :: 32 word) AND 15)) = 16 - int (unat a mod 16)"
proof -
  have "a AND 15 \<le> 16" by (simp add: word_le_nat_alt unat_spec_offset less_imp_le)
  then have u: "unat (16 - (a AND 15)) = 16 - unat a mod 16" by (simp add: unat_sub unat_spec_offset)
  have "uint (16 - (a AND 15)) = int (unat (16 - (a AND 15)))" by (rule uint_nat)
  also have "\<dots> = int (16 - unat a mod 16)" by (simp only: u)
  also have "\<dots> = 16 - int (unat a mod 16)" by (simp only: of_nat_diff [OF mod_le_divisor] of_nat_numeral zero_less_numeral)
  finally show ?thesis .
qed

termination spec_Access
proof (relation "measure (\<lambda>(address, sz, buf, access, s). nat \<bar>sz\<bar>)", simp)
  fix address :: "32 word" and sz chunksize :: int and offset and access :: "32 word" and buf buf1 :: "byte list" and s s1 :: spec_state
  assume a: "sz \<noteq> 0" "offset = address AND (SpecPageSize - 1)" "chunksize = min sz (uint (SpecPageSize - offset))"
  have "int (unat address mod 16) < 16" by simp
  moreover have "chunksize = min sz (16 - int (unat address mod 16))" using a(2,3) spec_chunk [of address] by simp
  ultimately have "nat \<bar>sz - chunksize\<bar> < nat \<bar>sz\<bar>" using a(1) by linarith
  then show "((address + word_of_int chunksize, sz - chunksize, drop (nat chunksize) buf1, access, s1), address, sz, buf, access, s)
      \<in> measure (\<lambda>(address, sz, buf, access, s). nat \<bar>sz\<bar>)"
    by simp
qed

declare spec_Access.simps [simp del]

definition spec_Read :: "32 word \<Rightarrow> int \<Rightarrow> byte list \<Rightarrow> spec_state \<Rightarrow> byte list spec_result" where
  "spec_Read address sz buffer = spec_Access address sz buffer AccessRead"

definition spec_Write :: "32 word \<Rightarrow> int \<Rightarrow> byte list \<Rightarrow> spec_state \<Rightarrow> byte list spec_result" where
  "spec_Write address sz buffer = spec_Access address sz buffer AccessWrite"

definition spec_Clear :: "specmem_t \<Rightarrow> specmem_t option" where
  "spec_Clear sm = do {
     pages \<leftarrow> for_loop 0 PageTableSize (\<lambda>i pages. wr pages i []) (sm_pages sm);
     Some (sm\<lparr>sm_pages := pages, sm_num_pages := 0\<rparr>) }"

end
