(* ===== verification/SimSpecMemProof.thy ===== *)
theory SimSpecMemProof
  imports SimSpecMem
begin

unbundle bit_operations_syntax

text \<open>
  Correctness of the speculative memory. Its abstraction is a partial function from addresses to
  bytes, the overlay, and the abstraction of the guest memory below it, which no call changes. The
  interface \<open>adt\<close> is interpreted for it.
\<close>

section \<open>Blocks of 16 bytes\<close>

definition block_of :: "32 word \<Rightarrow> 32 word" where
  "block_of x = x AND NOT 15"

lemma unat_block: "unat (block_of a) = unat a div 16 * 16"
proof -
  have m: "(15 :: 32 word) = mask 4" by (simp add: mask_eq_exp_minus_1)
  have e: "block_of a = push_bit 4 (drop_bit 4 a)"
    unfolding block_of_def m by (intro bit_word_eqI) (auto simp: bit_simps not_less)
  have "unat a div 16 * 16 \<le> unat a" by simp
  then have "unat a div 16 * 16 < 4294967296" using unat32 [of a] by linarith
  then show ?thesis
    unfolding e unsigned_push_bit_eq unsigned_drop_bit_eq
    by (simp add: push_bit_eq_mult drop_bit_eq_div take_bit_eq_mod)
qed

lemma block_eq_iff: "block_of a = block_of b \<longleftrightarrow> unat a div 16 = unat b div 16"
  unfolding word_unat_eq_iff unat_block by simp

lemma block_block [simp]: "block_of (block_of a) = block_of a"
  by (simp add: block_of_def)

lemma chunk_in_page:
  assumes "(i :: nat) mod 16 + n \<le> 16"
  shows "i mod 4096 + n \<le> 4096"
proof -
  have "i mod 4096 div 16 * 16 + i mod 4096 mod 16 = i mod 4096" by simp
  moreover have "i mod 4096 mod 16 = i mod 16" by (rule mod_mod_cancel) simp
  moreover have "i mod 4096 div 16 < 256" by (simp add: less_mult_imp_div_less)
  ultimately show ?thesis using assms by linarith
qed

lemma block_address:
  assumes "unat (a :: 32 word) mod 16 + n \<le> 16" "i < n"
  shows "block_of (a + of_nat i) = block_of a" "unat ((a + of_nat i) AND 15) = unat (a AND 15) + i"
proof -
  have e: "unat (a + of_nat i) = 16 * (unat a div 16) + (unat a mod 16 + i)" "unat a mod 16 + i < 16"
    using unat_offset_add [OF chunk_in_page [OF assms(1)] assms(2)] assms by simp_all
  have d: "(16 * q + r) div 16 = q" "(16 * q + r) mod 16 = r" if "r < 16" for q r :: nat
    using that by simp_all
  show "block_of (a + of_nat i) = block_of a" "unat ((a + of_nat i) AND 15) = unat (a AND 15) + i"
    unfolding block_eq_iff unat_spec_offset e(1) d [OF e(2)] by (rule refl)+
qed

lemma in_block:
  fixes a x :: "32 word"
  assumes "unat a mod 16 + n \<le> 16"
  shows "block_of x = block_of a \<and> unat (a AND 15) \<le> unat (x AND 15) \<and> unat (x AND 15) < unat (a AND 15) + n
    \<longleftrightarrow> unat (x - a) < n" (is "?l \<longleftrightarrow> ?r")
    and "unat (x - a) < n \<Longrightarrow> unat (x AND 15) - unat (a AND 15) = unat (x - a)"
proof -
  have inside: "unat (x AND 15) = unat (a AND 15) + unat (x - a) \<and> block_of x = block_of a" if "unat (x - a) < n"
    using block_address [OF assms that] by simp
  then show "unat (x - a) < n \<Longrightarrow> unat (x AND 15) - unat (a AND 15) = unat (x - a)" by simp
  show "?l \<longleftrightarrow> ?r"
  proof
    assume l: ?l
    then have "unat x div 16 = unat a div 16" "unat a mod 16 \<le> unat x mod 16" "unat x mod 16 < unat a mod 16 + n"
      unfolding block_eq_iff unat_spec_offset by blast+
    then have "unat a \<le> unat x" "unat x - unat a < n"
      using div_mult_mod_eq [of "unat x" 16] div_mult_mod_eq [of "unat a" 16] by linarith+
    then show ?r by (simp add: unat_sub word_le_nat_alt)
  next
    assume ?r
    then show ?l using inside by simp
  qed
qed

section \<open>The table of pages\<close>

definition tbl :: "specmem_t \<Rightarrow> 32 word \<Rightarrow> spec_page option" where
  "tbl sm t = find (\<lambda>page. sp_address page = t) (sm_pages sm ! spec_index t)"

definition spec_inv :: "spec_state \<Rightarrow> bool" where
  "spec_inv s \<longleftrightarrow> memory_inv (snd s) \<and> length (sm_pages (fst s)) = 32 \<and>
     (\<forall>t p. tbl (fst s) t = Some p \<longrightarrow> block_of t = t \<and> length (sp_data p) = 16) \<and>
     sm_num_pages (fst s) = int (card (dom (tbl (fst s))))"

definition overlay :: "specmem_t \<Rightarrow> 32 word \<Rightarrow> byte option" where
  "overlay sm x = map_option (\<lambda>p. sp_data p ! unat (x AND 15)) (tbl sm (block_of x))"

definition spec_abs :: "spec_state \<Rightarrow> (32 word \<Rightarrow> byte option) \<times> mem_abs_t" where
  "spec_abs s = (overlay (fst s), mem_abs (snd s))"

lemma getPage_tbl: "spec_getPage a sm = tbl sm (block_of a)"
proof -
  have "drop_bit 4 (a AND NOT 15) = drop_bit 4 a"
  proof -
    have m: "(15 :: 32 word) = mask 4" by (simp add: mask_eq_exp_minus_1)
    show ?thesis unfolding m by (intro bit_word_eqI) (auto simp: bit_simps dest: bit_imp_le_length)
  qed
  then show ?thesis by (simp add: spec_getPage_def tbl_def block_of_def spec_index_def LogSpecPageSize_def)
qed

lemma spec_index_less: "spec_index t < 32"
  by (simp add: spec_index_def PageTableSize_def)

lemma find_address: "find (\<lambda>page. sp_address page = t) ps = Some p \<Longrightarrow> sp_address p = t"
  by (simp add: find_Some_iff) auto

lemma find_set_data:
  "find (\<lambda>page. sp_address page = t') (set_data t d ps) =
    (if t' = t then map_option (\<lambda>p. p\<lparr>sp_data := d\<rparr>) (find (\<lambda>page. sp_address page = t') ps)
     else find (\<lambda>page. sp_address page = t') ps)"
  by (induction ps) auto

lemma tbl_setData:
  assumes "length (sm_pages sm) = 32" "tbl sm t = Some p"
  shows "tbl (spec_setData p d sm) = (tbl sm)(t \<mapsto> p\<lparr>sp_data := d\<rparr>)"
    "length (sm_pages (spec_setData p d sm)) = 32" "sm_num_pages (spec_setData p d sm) = sm_num_pages sm"
proof -
  have a: "sp_address p = t" using find_address assms(2) unfolding tbl_def by blast
  have "tbl (spec_setData p d sm) t' = ((tbl sm)(t \<mapsto> p\<lparr>sp_data := d\<rparr>)) t'" for t'
    using assms spec_index_less [of t] spec_index_less [of t']
    by (cases "spec_index t' = spec_index t") (auto simp: tbl_def spec_setData_def Let_def a find_set_data)
  then show "tbl (spec_setData p d sm) = (tbl sm)(t \<mapsto> p\<lparr>sp_data := d\<rparr>)" by blast
  show "length (sm_pages (spec_setData p d sm)) = 32" "sm_num_pages (spec_setData p d sm) = sm_num_pages sm"
    using assms(1) by (simp_all add: spec_setData_def Let_def)
qed

lemma unsafe_read_run:
  assumes "memory_inv m" "unat a mod 16 + unat sz \<le> 16" "unat sz \<le> length buf"
  shows "\<exists>m'. unsafe_read a sz buf (sm, m) = Some ((sm, m'), Inr (bytes_from m a (unat sz) @ drop (unat sz) buf)) \<and>
    memory_inv m' \<and> mem_abs m' = mem_abs m"
proof -
  let ?m = "(setSafe False m)\<lparr>m_last_address := a\<rparr>"
  have p: "unat a mod 4096 + unat sz \<le> 4096" using chunk_in_page assms(2) by blast
  have inv: "memory_inv ?m" using assms(1) by (simp add: memory_inv_def setSafe_def)
  have bytes: "bytes_from ?m a (unat sz) = bytes_from m a (unat sz)"
    by (simp add: bytes_from_def byte_at_def getPage_def setSafe_def)
  have "AccessAtPageBoundary a sz buf AccessRead ?m = Some (?m, Inr (bytes_from m a (unat sz) @ drop (unat sz) buf))"
    using boundary_read [OF inv p assms(3), of AccessRead] unfolding bytes
    by (simp add: fetch_access_def allowed_def setSafe_def)
  moreover have "sz \<noteq> 0 \<Longrightarrow> min sz (PageSize - page_offset a) = sz"
    using chunk(1) [of sz a] p by (simp add: word_unat_eq_iff)
  moreover have "access_loop x 0 bs AccessRead ?m = Some (?m, Inr bs)" for x bs
    by (subst access_loop.simps) simp
  ultimately have "access_loop a sz buf AccessRead ?m = Some (?m, Inr (bytes_from m a (unat sz) @ drop (unat sz) buf))"
    by (subst access_loop.simps) (cases "sz = 0", simp_all add: andthen_def Let_def bytes_from_def del: PageSize_simps(1))
  then have "Read a sz buf (setSafe False m) = Some (?m, Inr (bytes_from m a (unat sz) @ drop (unat sz) buf))"
    by (simp add: Read_def Access_def)
  moreover have "memory_inv (setSafe (m_safe m) ?m)" "mem_abs (setSafe (m_safe m) ?m) = mem_abs m"
    using assms(1) by (auto simp: memory_inv_def mem_abs_def setSafe_def byte_at_def perm_at_def getPage_def fun_eq_iff)
  ultimately show ?thesis by (simp add: unsafe_read_def Let_def)
qed

section \<open>Writes on the overlay\<close>

text \<open>
  The specification of a write takes one byte at a time: a byte outside the overlay brings in its
  block from the memory below, unless 100 blocks are there already; then it is dropped.
\<close>

definition ov_fill :: "(32 word \<Rightarrow> byte) \<Rightarrow> 32 word \<Rightarrow> (32 word \<Rightarrow> byte option) \<Rightarrow> 32 word \<Rightarrow> byte option" where
  "ov_fill b t ov x = (if block_of x = t then Some (b x) else ov x)"

definition ov_put :: "(32 word \<Rightarrow> byte) \<Rightarrow> 32 word \<Rightarrow> byte \<Rightarrow> (32 word \<Rightarrow> byte option) \<Rightarrow> 32 word \<Rightarrow> byte option" where
  "ov_put b x v ov = (if ov x \<noteq> None then ov(x \<mapsto> v)
     else if card (block_of ` dom ov) < 100 then (ov_fill b (block_of x) ov)(x \<mapsto> v) else ov)"

fun ov_write :: "(32 word \<Rightarrow> byte) \<Rightarrow> 32 word \<Rightarrow> byte list \<Rightarrow> (32 word \<Rightarrow> byte option) \<Rightarrow> 32 word \<Rightarrow> byte option" where
  "ov_write b a [] ov = ov"
| "ov_write b a (v # bs) ov = ov_write b (a + 1) bs (ov_put b a v ov)"

lemma ov_write_append: "ov_write b a (xs @ ys) ov = ov_write b (a + of_nat (length xs)) ys (ov_write b a xs ov)"
  by (induction xs arbitrary: a ov) (simp_all add: algebra_simps)

lemma ov_put_full:
  assumes "ov x = None" "100 \<le> card (block_of ` dom ov)"
  shows "ov_put b x v ov = ov"
proof -
  have "\<not> card (block_of ` dom ov) < 100" using assms(2) by (simp only: not_less)
  then show ?thesis unfolding ov_put_def by (simp only: assms(1) if_False simp_thms)
qed

lemma ov_write_full:
  assumes "\<forall>i < length xs. ov (a + of_nat i) = None" "100 \<le> card (block_of ` dom ov)"
  shows "ov_write b a xs ov = ov"
  using assms
proof (induction xs arbitrary: a)
  case (Cons v xs)
  have "ov a = None" using spec [OF Cons.prems(1), of 0] by simp
  then have "ov_put b a v ov = ov" using ov_put_full [OF _ Cons.prems(2)] by metis
  moreover have "\<forall>i < length xs. ov (a + 1 + of_nat i) = None"
  proof (intro allI impI)
    fix i assume "i < length xs"
    then have "ov (a + of_nat (Suc i)) = None" using spec [OF Cons.prems(1), of "Suc i"] by simp
    then show "ov (a + 1 + of_nat i) = None" by (simp add: add.assoc)
  qed
  ultimately show ?case using Cons.IH [of "a + 1"] Cons.prems(2) by simp
qed simp

lemma ov_write_present:
  assumes "\<forall>i < length xs. ov (a + of_nat i) \<noteq> None" "length xs \<le> 2 ^ 32"
  shows "ov_write b a xs ov = (\<lambda>x. if unat (x - a) < length xs then Some (xs ! unat (x - a)) else ov x)"
  using assms
proof (induction xs rule: rev_induct)
  case (snoc v xs)
  let ?n = "length xs" and ?w = "\<lambda>x. if unat (x - a) < length xs then Some (xs ! unat (x - a)) else ov x"
  have IH: "ov_write b a xs ov = ?w" using snoc by simp
  have n: "unat (of_nat ?n :: 32 word) = ?n" using snoc.prems(2) by (simp add: unat_of_nat take_bit_eq_mod)
  have at: "x = a + of_nat ?n \<longleftrightarrow> unat (x - a) = ?n" for x
  proof
    assume "unat (x - a) = ?n"
    then have "of_nat (unat (x - a)) = (of_nat ?n :: 32 word)" by (rule arg_cong)
    then show "x = a + of_nat ?n" by (simp add: algebra_simps)
  qed (simp add: n)
  have "ov (a + of_nat ?n) \<noteq> None" using snoc.prems(1) by simp
  then have "ov_put b (a + of_nat ?n) v ?w = ?w(a + of_nat ?n \<mapsto> v)" by (simp add: ov_put_def n)
  also have "\<dots> = (\<lambda>x. if unat (x - a) < length (xs @ [v]) then Some ((xs @ [v]) ! unat (x - a)) else ov x)"
    by (auto simp: fun_eq_iff at nth_append)
  finally show ?case by (simp add: ov_write_append IH)
qed simp

lemma ov_write_room:
  assumes "xs \<noteq> []" "ov a = None" "card (block_of ` dom ov) < 100"
  shows "ov_write b a xs ov = ov_write b a xs (ov_fill b (block_of a) ov)"
  using assms by (cases xs) (simp_all add: ov_put_def ov_fill_def)

section \<open>Accesses inside one page\<close>

definition seen :: "spec_state \<Rightarrow> 32 word \<Rightarrow> byte" where
  "seen s x = (case overlay (fst s) x of Some v \<Rightarrow> v | None \<Rightarrow> byte_at (snd s) x)"

lemma spec_invD:
  assumes "spec_inv s"
  shows "memory_inv (snd s)" "length (sm_pages (fst s)) = 32" "tbl (fst s) t = Some p \<Longrightarrow> block_of t = t \<and> length (sp_data p) = 16"
    "sm_num_pages (fst s) = int (card (dom (tbl (fst s))))"
  using assms unfolding spec_inv_def by blast+

lemma overlay_None: "overlay sm x = None \<longleftrightarrow> tbl sm (block_of x) = None"
  by (simp add: overlay_def)

lemma blocks_overlay:
  assumes "spec_inv s"
  shows "block_of ` dom (overlay (fst s)) = dom (tbl (fst s))"
proof -
  have "t \<in> block_of ` dom (overlay (fst s))" if t: "tbl (fst s) t = Some p" for t p
  proof -
    have "block_of t = t" using spec_invD(3) [OF assms t] by blast
    then have "t \<in> dom (overlay (fst s))" using t by (simp add: overlay_def dom_def)
    then show ?thesis using \<open>block_of t = t\<close> by (metis imageI)
  qed
  then show ?thesis by (auto simp: overlay_def)
qed

lemma offset_assert:
  assumes "unat (a :: 32 word) mod 16 + nat sz \<le> 16" "0 \<le> sz"
  shows "(a AND 15) + word_of_int sz \<le> 16" "unat (word_of_int sz :: 32 word) = nat sz"
proof -
  have sz: "unat (word_of_int sz :: 32 word) = nat sz"
  proof -
    have "word_of_int sz = (of_nat (nat sz) :: 32 word)" using assms(2) by simp
    moreover have "nat sz < 2 ^ 32" using assms(1) by simp
    ultimately show ?thesis by (simp add: unat_of_nat take_bit_eq_mod)
  qed
  then show "unat (word_of_int sz :: 32 word) = nat sz" .
  have "unat ((a AND 15) + word_of_int sz) = unat (a AND 15) + unat (word_of_int sz :: 32 word)"
    using assms by (intro unat_add_lem [THEN iffD1]) (simp add: unat_spec_offset sz)
  then show "(a AND 15) + word_of_int sz \<le> 16" using assms sz by (simp add: word_le_nat_alt unat_spec_offset)
qed

lemma page_read:
  assumes "spec_inv s" "unat a mod 16 + nat sz \<le> 16" "0 \<le> sz" "nat sz \<le> length buf" "tbl (fst s) (block_of a) = Some p"
  shows "spec_page_access a sz buf AccessRead p s = Some (s, Inr (map (\<lambda>i. seen s (a + of_nat i)) [0..<nat sz] @ drop (nat sz) buf))"
proof -
  have len: "length (sp_data p) = 16" using spec_invD(3) [OF assms(1,5)] by blast
  have byte: "seen s (a + of_nat i) = sp_data p ! (unat (a AND 15) + i)" if "i < nat sz" for i
    using block_address [OF assms(2) that] assms(5) by (simp add: seen_def overlay_def)
  have o: "unat (a AND 15) + nat sz \<le> 16" using assms(2) by (simp add: unat_spec_offset)
  have bs: "take (nat sz) (drop (unat (a AND 15)) (sp_data p)) = map (\<lambda>i. seen s (a + of_nat i)) [0..<nat sz]"
    using o len byte by (intro nth_equalityI) simp_all
  have get: "get_bytes (sp_data p) (unat (a AND 15)) (nat sz) = Some (map (\<lambda>i. seen s (a + of_nat i)) [0..<nat sz])"
    using o len bs by simp
  show ?thesis
    unfolding spec_page_access_def Let_def SpecPageSize_simps bit.double_compl get
    using offset_assert [OF assms(2,3)] assms(3,4) by simp
qed

lemma page_write:
  assumes "spec_inv s" "unat a mod 16 + nat sz \<le> 16" "0 \<le> sz" "nat sz \<le> length buf" "tbl (fst s) (block_of a) = Some p"
  shows "\<exists>s'. spec_page_access a sz buf AccessWrite p s = Some (s', Inr buf) \<and> spec_inv s' \<and>
    spec_abs s' = (ov_write (byte_at (snd s)) a (take (nat sz) buf) (overlay (fst s)), mem_abs (snd s))"
proof -
  let ?o = "unat (a AND 15)" and ?bs = "take (nat sz) buf"
  let ?d = "take ?o (sp_data p) @ ?bs @ drop (?o + length ?bs) (sp_data p)"
  let ?sm = "spec_setData p ?d (fst s)"
  have len: "length (sp_data p) = 16" using spec_invD(3) [OF assms(1,5)] by blast
  have o: "?o + length ?bs \<le> length (sp_data p)" using assms(2,4) len by (simp add: unat_spec_offset)
  note t = tbl_setData [OF spec_invD(2) [OF assms(1)] assms(5), of ?d]
  have get: "get_bytes buf 0 (nat sz) = Some ?bs" and put: "put_bytes (sp_data p) ?o ?bs = Some ?d"
    using o assms(4) by simp_all
  have run: "spec_page_access a sz buf AccessWrite p s = Some ((?sm, snd s), Inr buf)"
    unfolding spec_page_access_def Let_def SpecPageSize_simps bit.double_compl get
    using offset_assert [OF assms(2,3)] assms(3) put by (simp add: access_bits)
  have inv: "spec_inv (?sm, snd s)"
    using assms(1,5) t o len by (auto simp: spec_inv_def insert_absorb domI split: if_splits)
  have present: "\<forall>i < length ?bs. overlay (fst s) (a + of_nat i) \<noteq> None"
    using block_address(1) [OF assms(2)] assms(5) by (simp add: overlay_def)
  have "overlay ?sm x = (if unat (x - a) < length ?bs then Some (?bs ! unat (x - a)) else overlay (fst s) x)" for x
  proof (cases "block_of x = block_of a")
    case True
    have "tbl ?sm (block_of a) = Some (p\<lparr>sp_data := ?d\<rparr>)" unfolding t(1) by (rule fun_upd_same)
    then have "overlay ?sm x = Some (?d ! unat (x AND 15))" unfolding overlay_def True by simp
    then have new: "overlay ?sm x = Some (if ?o \<le> unat (x AND 15) \<and> unat (x AND 15) < ?o + length ?bs
        then ?bs ! (unat (x AND 15) - ?o) else sp_data p ! unat (x AND 15))"
      using nth_put [OF o, of "unat (x AND 15)"] len by (simp add: unat_spec_offset)
    have old: "overlay (fst s) x = Some (sp_data p ! unat (x AND 15))" using True assms(5) by (simp add: overlay_def)
    have lb: "length ?bs = nat sz" using assms(4) by simp
    show ?thesis unfolding new unfolding old lb using True in_block [OF assms(2), of x] by (cases "unat (x - a) < nat sz") auto
  next
    case False
    then have "\<not> unat (x - a) < length ?bs" using in_block(1) [OF assms(2), of x] assms(4) by simp
    moreover have "tbl ?sm (block_of x) = tbl (fst s) (block_of x)" unfolding t(1) using False by (rule fun_upd_other)
    ultimately show ?thesis unfolding overlay_def by auto
  qed
  moreover have "length ?bs \<le> 2 ^ 32" using assms(2) by simp
  ultimately have "overlay ?sm = ov_write (byte_at (snd s)) a ?bs (overlay (fst s))"
    using ov_write_present [OF present, of "byte_at (snd s)"] by (simp add: fun_eq_iff)
  then show ?thesis using run inv by (simp add: spec_abs_def)
qed

lemma newPage_run:
  assumes "spec_inv (sm, m)" "tbl sm (block_of a) = None"
  shows "\<exists>sm' m' p. spec_newPage a (sm, m) = Some ((sm', m'), Inr p) \<and> spec_inv (sm', m') \<and> tbl sm' (block_of a) = Some p \<and>
    overlay sm' = ov_fill (byte_at m) (block_of a) (overlay sm) \<and> mem_abs m' = mem_abs m"
proof -
  let ?t = "block_of a" and ?i = "spec_index (block_of a)"
  have inv: "memory_inv m" "length (sm_pages sm) = 32" using spec_invD(1,2) [OF assms(1)] by simp_all
  have "unat ?t mod 16 + unat (16 :: 32 word) \<le> 16" by (simp add: unat_block)
  then obtain m' where m': "unsafe_read ?t SpecPageSize (replicate (unat SpecPageSize) 0) (sm, m) =
      Some ((sm, m'), Inr (bytes_from m ?t 16))" "memory_inv m'" "mem_abs m' = mem_abs m"
    using unsafe_read_run [OF inv(1), of ?t 16 "replicate 16 0" sm] by auto
  let ?p = "\<lparr>sp_address = ?t, sp_data = bytes_from m ?t 16\<rparr>"
  let ?sm = "sm\<lparr>sm_pages := (sm_pages sm)[?i := ?p # sm_pages sm ! ?i], sm_num_pages := sm_num_pages sm + 1\<rparr>"
  have run: "spec_newPage a (sm, m) = Some ((?sm, m'), Inr ?p)"
    using m'(1) by (simp add: spec_newPage_def spec_then_def Let_def block_of_def)
  have "tbl ?sm t = ((tbl sm)(?t \<mapsto> ?p)) t" for t
    using inv(2) spec_index_less [of t] spec_index_less [of ?t] by (cases "spec_index t = ?i") (auto simp: tbl_def)
  then have t: "tbl ?sm = (tbl sm)(?t \<mapsto> ?p)" by blast
  have "card (dom (tbl ?sm)) = Suc (card (dom (tbl sm)))" unfolding t using assms(2) by (simp add: card_insert_disjoint domIff)
  then have i: "spec_inv (?sm, m')" using assms(1) m'(2) t by (auto simp: spec_inv_def)
  have "overlay ?sm x = ov_fill (byte_at m) ?t (overlay sm) x" for x
  proof (cases "block_of x = ?t")
    case True
    have "unat (?t AND 15) = 0" by (simp add: unat_spec_offset unat_block)
    then have "unat (x AND 15) = unat (x - ?t)" "unat (x - ?t) < 16"
      using in_block [of ?t 16 x] True by (auto simp: unat_spec_offset unat_block)
    then have "bytes_from m ?t 16 ! unat (x AND 15) = byte_at m x" by (simp add: bytes_from_def)
    then show ?thesis using True by (simp add: overlay_def t ov_fill_def)
  qed (simp add: overlay_def t ov_fill_def)
  then have "overlay ?sm = ov_fill (byte_at m) ?t (overlay sm)" by blast
  then show ?thesis using run i t m'(3) by fastforce
qed

lemma aligned_read:
  assumes "spec_inv s" "unat a mod 16 + nat sz \<le> 16" "0 \<le> sz" "nat sz \<le> length buf"
  shows "\<exists>s'. AccessAligned a sz buf AccessRead s = Some (s', Inr (map (\<lambda>i. seen s (a + of_nat i)) [0..<nat sz] @ drop (nat sz) buf)) \<and>
    spec_inv s' \<and> spec_abs s' = spec_abs s"
proof (cases "tbl (fst s) (block_of a)")
  case (Some p)
  then show ?thesis using page_read [OF assms Some] assms(1) by (simp add: AccessAligned_def getPage_tbl)
next
  case None
  obtain sm m where s: "s = (sm, m)" by fastforce
  have "seen s (a + of_nat i) = byte_at m (a + of_nat i)" if "i < nat sz" for i
    using block_address(1) [OF assms(2) that] None by (simp add: seen_def overlay_def s)
  then have bytes: "bytes_from m a (nat sz) = map (\<lambda>i. seen s (a + of_nat i)) [0..<nat sz]" by (simp add: bytes_from_def)
  obtain m' where "unsafe_read a (word_of_int sz) buf (sm, m) = Some ((sm, m'), Inr (bytes_from m a (nat sz) @ drop (nat sz) buf))"
      "memory_inv m'" "mem_abs m' = mem_abs m"
    using unsafe_read_run [of m a "word_of_int sz" buf sm] offset_assert(2) [OF assms(2,3)] assms spec_invD(1) [OF assms(1)] s by auto
  then show ?thesis
    using None assms(1) unfolding bytes by (auto simp: AccessAligned_def getPage_tbl s spec_inv_def spec_abs_def)
qed

lemma aligned_write:
  assumes "spec_inv s" "unat a mod 16 + nat sz \<le> 16" "0 < sz" "nat sz \<le> length buf"
  shows "\<exists>s'. AccessAligned a sz buf AccessWrite s = Some (s', Inr buf) \<and> spec_inv s' \<and>
    spec_abs s' = (ov_write (byte_at (snd s)) a (take (nat sz) buf) (overlay (fst s)), mem_abs (snd s))"
proof (cases "tbl (fst s) (block_of a)")
  case (Some p)
  then show ?thesis using page_write [OF assms(1,2) _ assms(4) Some] assms(3) by (simp add: AccessAligned_def getPage_tbl)
next
  case None
  let ?ov = "overlay (fst s)" and ?bs = "take (nat sz) buf"
  have card: "sm_num_pages (fst s) = int (card (block_of ` dom ?ov))"
    using spec_invD(4) [OF assms(1)] blocks_overlay [OF assms(1)] by simp
  show ?thesis
  proof (cases "sm_num_pages (fst s) \<ge> MaxPages")
    case True
    have "\<forall>i < length ?bs. ?ov (a + of_nat i) = None"
      using block_address(1) [OF assms(2)] None assms(4) by (simp add: overlay_def)
    moreover have "100 \<le> card (block_of ` dom ?ov)" using True card by (simp add: MaxPages_def)
    ultimately have "ov_write (byte_at (snd s)) a ?bs ?ov = ?ov" by (rule ov_write_full)
    then show ?thesis using None True assms(1) by (simp add: AccessAligned_def getPage_tbl access_bits spec_abs_def)
  next
    case False
    obtain sm m where s: "s = (sm, m)" by fastforce
    obtain sm' m' p where new: "spec_newPage a (sm, m) = Some ((sm', m'), Inr p)" "spec_inv (sm', m')" "tbl sm' (block_of a) = Some p"
        "overlay sm' = ov_fill (byte_at m) (block_of a) (overlay sm)" "mem_abs m' = mem_abs m"
      using newPage_run [of sm m a] assms(1) None s by auto
    obtain s' where s': "spec_page_access a sz buf AccessWrite p (sm', m') = Some (s', Inr buf)" "spec_inv s'"
        "spec_abs s' = (ov_write (byte_at m') a ?bs (overlay sm'), mem_abs m')"
      using page_write [OF new(2) assms(2) _ assms(4), of p] new(3) assms(3) by auto
    have "byte_at m' = byte_at m" using new(5) by (simp add: mem_abs_def)
    moreover have "ov_write (byte_at m) a ?bs (overlay sm) = ov_write (byte_at m) a ?bs (ov_fill (byte_at m) (block_of a) (overlay sm))"
    proof (rule ov_write_room)
      show "?bs \<noteq> []" using assms(3,4) by auto
      show "overlay sm a = None" using None s by (simp add: overlay_def)
      show "card (block_of ` dom (overlay sm)) < 100" using False card s by (simp add: MaxPages_def)
    qed
    ultimately have "spec_abs s' = (ov_write (byte_at m) a ?bs (overlay sm), mem_abs m)" using s'(3) new(4,5) by simp
    then show ?thesis
      using None False new(1) s' by (simp add: AccessAligned_def getPage_tbl access_bits spec_then_def s)
  qed
qed

section \<open>Whole accesses\<close>

lemma spec_abs_seen:
  assumes "spec_abs s' = spec_abs s"
  shows "seen s' = seen s"
proof -
  have a: "overlay (fst s') = overlay (fst s)" "byte_at (snd s') = byte_at (snd s)"
    using assms by (simp_all add: spec_abs_def mem_abs_def)
  show ?thesis unfolding seen_def [abs_def] a by (rule refl)
qed

text \<open>The size of the part of an access that lies in the page of its first byte.\<close>

lemma spec_chunk_size:
  assumes "0 < sz" and c: "c = min sz (uint (SpecPageSize - (a AND (SpecPageSize - 1))))"
  shows "0 < c" "c \<le> sz" "unat a mod 16 + nat c \<le> 16"
proof -
  have "c = min sz (16 - int (unat a mod 16))" using c spec_chunk [of a] by simp
  moreover have "unat a mod 16 < 16" by simp
  ultimately show "0 < c" "c \<le> sz" "unat a mod 16 + nat c \<le> 16" using assms(1) by (auto simp: min_def)
qed

lemma spec_Access_0: "spec_Access a 0 buf access s = Some (s, Inr buf)"
  by (subst spec_Access.simps) simp

lemma spec_Access_step:
  assumes "sz \<noteq> 0" "c = min sz (uint (SpecPageSize - (a AND (SpecPageSize - 1))))"
    and "AccessAligned a c buf access s = Some (s1, Inr buf1)"
    and "spec_Access (a + word_of_int c) (sz - c) (drop (nat c) buf1) access s1 = Some (s2, Inr rest)"
  shows "spec_Access a sz buf access s = Some (s2, Inr (take (nat c) buf1 @ rest))"
  using assms(1,3,4) unfolding assms(2) by (subst spec_Access.simps) (simp add: Let_def spec_then_def del: SpecPageSize_simps)

lemma spec_Access_read:
  assumes "spec_inv s" "0 \<le> sz" "length buf = nat sz"
  shows "\<exists>s'. spec_Access a sz buf AccessRead s = Some (s', Inr (map (\<lambda>i. seen s (a + of_nat i)) [0..<nat sz])) \<and>
    spec_inv s' \<and> spec_abs s' = spec_abs s"
  using assms
proof (induction "nat sz" arbitrary: a sz buf s rule: less_induct)
  case less
  show ?case
  proof (cases "sz = 0")
    case True
    then show ?thesis using less.prems by (simp add: spec_Access_0)
  next
    case False
    define c where "c = min sz (uint (SpecPageSize - (a AND (SpecPageSize - 1))))"
    have c: "0 < c" "c \<le> sz" "unat a mod 16 + nat c \<le> 16" using spec_chunk_size [OF _ c_def] less.prems(2) False by simp_all
    have len: "nat c \<le> length buf" using c less.prems(3) by simp
    let ?r = "\<lambda>n. map (\<lambda>i. seen s (a + of_nat i)) [0..<n]"
    obtain s1 where s1: "AccessAligned a c buf AccessRead s = Some (s1, Inr (?r (nat c) @ drop (nat c) buf))"
        "spec_inv s1" "spec_abs s1 = spec_abs s"
      using aligned_read [OF less.prems(1) c(3) less_imp_le [OF c(1)] len] by blast
    have dec: "nat (sz - c) < nat sz" using c by simp
    have rest: "0 \<le> sz - c" "length (drop (nat c) buf) = nat (sz - c)" using c less.prems(3) by (simp_all add: nat_diff_distrib)
    obtain s2 where s2: "spec_Access (a + word_of_int c) (sz - c) (drop (nat c) buf) AccessRead s1 =
        Some (s2, Inr (map (\<lambda>i. seen s1 (a + word_of_int c + of_nat i)) [0..<nat (sz - c)]))" "spec_inv s2" "spec_abs s2 = spec_abs s1"
      using less.hyps [OF dec s1(2), of "drop (nat c) buf" "a + word_of_int c"] rest by blast
    have "spec_Access a sz buf AccessRead s = Some (s2, Inr (take (nat c) (?r (nat c) @ drop (nat c) buf) @
        map (\<lambda>i. seen s1 (a + word_of_int c + of_nat i)) [0..<nat (sz - c)]))"
      using s2(1) by (intro spec_Access_step [OF False c_def s1(1)]) simp
    moreover have "map (\<lambda>i. seen s1 (a + word_of_int c + of_nat i)) [0..<nat (sz - c)] = map (\<lambda>i. seen s (a + of_nat i)) [nat c..<nat sz]"
    proof (rule nth_equalityI)
      show "length (map (\<lambda>i. seen s1 (a + word_of_int c + of_nat i)) [0..<nat (sz - c)]) =
          length (map (\<lambda>i. seen s (a + of_nat i)) [nat c..<nat sz])" using c by (simp add: nat_diff_distrib)
      show "map (\<lambda>i. seen s1 (a + word_of_int c + of_nat i)) [0..<nat (sz - c)] ! i = map (\<lambda>i. seen s (a + of_nat i)) [nat c..<nat sz] ! i"
        if "i < length (map (\<lambda>i. seen s1 (a + word_of_int c + of_nat i)) [0..<nat (sz - c)])" for i
      proof -
        have "i < nat (sz - c)" using that by simp
        then have "nat c + i < nat sz" using c by linarith
        then show ?thesis using \<open>i < nat (sz - c)\<close> spec_abs_seen [OF s1(3)] c(1) nth_upt [OF \<open>nat c + i < nat sz\<close>] by (simp add: add.assoc)
      qed
    qed
    moreover have "?r (nat sz) = ?r (nat c) @ map (\<lambda>i. seen s (a + of_nat i)) [nat c..<nat sz]"
      using upt_add_eq_append [of 0 "nat c" "nat sz - nat c"] c by simp
    ultimately have "spec_Access a sz buf AccessRead s = Some (s2, Inr (?r (nat sz)))" by simp
    then show ?thesis using s2(2,3) s1(3) by auto
  qed
qed

lemma spec_Access_write:
  assumes "spec_inv s" "0 \<le> sz" "length buf = nat sz"
  shows "\<exists>s'. spec_Access a sz buf AccessWrite s = Some (s', Inr buf) \<and> spec_inv s' \<and>
    spec_abs s' = (ov_write (byte_at (snd s)) a buf (overlay (fst s)), mem_abs (snd s))"
  using assms
proof (induction "nat sz" arbitrary: a sz buf s rule: less_induct)
  case less
  show ?case
  proof (cases "sz = 0")
    case True
    then show ?thesis using less.prems by (simp add: spec_Access_0 spec_abs_def)
  next
    case False
    define c where "c = min sz (uint (SpecPageSize - (a AND (SpecPageSize - 1))))"
    have c: "0 < c" "c \<le> sz" "unat a mod 16 + nat c \<le> 16" using spec_chunk_size [OF _ c_def] less.prems(2) False by simp_all
    have len: "nat c \<le> length buf" using c less.prems(3) by simp
    let ?xs = "take (nat c) buf" and ?ys = "drop (nat c) buf"
    obtain s1 where s1: "AccessAligned a c buf AccessWrite s = Some (s1, Inr buf)" "spec_inv s1"
        "spec_abs s1 = (ov_write (byte_at (snd s)) a ?xs (overlay (fst s)), mem_abs (snd s))"
      using aligned_write [OF less.prems(1) c(3,1) len] by blast
    have dec: "nat (sz - c) < nat sz" using c by simp
    have rest: "0 \<le> sz - c" "length (drop (nat c) buf) = nat (sz - c)" using c less.prems(3) by (simp_all add: nat_diff_distrib)
    obtain s2 where s2: "spec_Access (a + word_of_int c) (sz - c) ?ys AccessWrite s1 = Some (s2, Inr ?ys)" "spec_inv s2"
        "spec_abs s2 = (ov_write (byte_at (snd s1)) (a + word_of_int c) ?ys (overlay (fst s1)), mem_abs (snd s1))"
      using less.hyps [OF dec s1(2), of ?ys "a + word_of_int c"] rest by blast
    have "spec_Access a sz buf AccessWrite s = Some (s2, Inr (?xs @ ?ys))"
      by (rule spec_Access_step [OF False c_def s1(1) s2(1)])
    moreover have "byte_at (snd s1) = byte_at (snd s)" "overlay (fst s1) = ov_write (byte_at (snd s)) a ?xs (overlay (fst s))"
        "mem_abs (snd s1) = mem_abs (snd s)"
      using s1(3) by (simp_all add: spec_abs_def mem_abs_def)
    moreover have "ov_write (byte_at (snd s)) a (?xs @ ?ys) ov =
        ov_write (byte_at (snd s)) (a + word_of_int c) ?ys (ov_write (byte_at (snd s)) a ?xs ov)" for ov
    proof -
      have "length ?xs = nat c" "of_nat (nat c) = (word_of_int c :: 32 word)" using len c(1) by simp_all
      then show ?thesis by (simp only: ov_write_append)
    qed
    ultimately show ?thesis using s2(2,3) by (metis append_take_drop_id)
  qed
qed

section \<open>The interface\<close>

datatype spec_op = SRead "32 word" nat | SWrite "32 word" "byte list" | SClear

definition spec_returns :: "'a spec_result \<Rightarrow> (spec_state \<times> 'a) option" where
  "spec_returns r = (case r of Some (s, Inr x) \<Rightarrow> Some (s, x) | _ \<Rightarrow> None)"

fun spec_call :: "spec_op \<Rightarrow> spec_state \<Rightarrow> (spec_state \<times> byte list) option" where
  "spec_call (SRead a n) s = spec_returns (spec_Read a (int n) (replicate n 0) s)"
| "spec_call (SWrite a bs) s = spec_returns (spec_Write a (int (length bs)) bs s)"
| "spec_call SClear s = do { sm \<leftarrow> spec_Clear (fst s); Some ((sm, snd s), []) }"

type_synonym overlay_t = "(32 word \<Rightarrow> byte option) \<times> mem_abs_t"

fun overlay_spec :: "spec_op \<Rightarrow> overlay_t \<Rightarrow> overlay_t \<times> byte list" where
  "overlay_spec (SRead a n) (ov, b, p) = ((ov, b, p),
     map (\<lambda>i. case ov (a + of_nat i) of Some v \<Rightarrow> v | None \<Rightarrow> b (a + of_nat i)) [0..<n])"
| "overlay_spec (SWrite a bs) (ov, b, p) = ((ov_write b a bs ov, b, p), bs)"
| "overlay_spec SClear (ov, b, p) = ((Map.empty, b, p), [])"

lemma Clear_run:
  assumes "length (sm_pages sm) = 32"
  shows "spec_Clear sm = Some \<lparr>sm_num_pages = 0, sm_pages = replicate 32 []\<rparr>"
proof -
  have "for_loop 0 PageTableSize (\<lambda>i pages. wr pages i []) (sm_pages sm) =
      Some (replicate PageTableSize [] @ drop PageTableSize (sm_pages sm))"
  proof (rule for_loop_eq [where g = "\<lambda>i. replicate i [] @ drop i (sm_pages sm)"])
    fix i assume "i < PageTableSize"
    then have i: "i < length (sm_pages sm)" using assms by (simp add: PageTableSize_def)
    then have "(replicate i [] @ drop i (sm_pages sm))[i := []] = replicate (Suc i) [] @ drop (Suc i) (sm_pages sm)"
      by (simp add: list_update_append Cons_nth_drop_Suc [symmetric] replicate_append_same [symmetric])
    then show "wr (replicate i [] @ drop i (sm_pages sm)) i [] = Some (replicate (Suc i) [] @ drop (Suc i) (sm_pages sm))"
      using i by simp
  qed simp_all
  then show ?thesis using assms by (simp add: spec_Clear_def PageTableSize_def)
qed

lemma empty_table: "tbl \<lparr>sm_num_pages = 0, sm_pages = replicate 32 []\<rparr> t = None"
  by (simp add: tbl_def spec_index_less)

lemma empty_inv:
  assumes "memory_inv m"
  shows "spec_inv (\<lparr>sm_num_pages = 0, sm_pages = replicate 32 []\<rparr>, m)"
    "spec_abs (\<lparr>sm_num_pages = 0, sm_pages = replicate 32 []\<rparr>, m) = (Map.empty, mem_abs m)"
  using assms by (simp_all add: spec_inv_def spec_abs_def overlay_def empty_table fun_eq_iff dom_def)

interpretation specmem_adt: adt spec_inv spec_abs spec_call "\<lambda>_ _. True" overlay_spec
proof
  fix s c assume inv: "spec_inv s"
  obtain P where eta: "mem_abs (snd s) = (byte_at (snd s), P)" by (simp add: mem_abs_def)
  then have abs: "spec_abs s = (overlay (fst s), byte_at (snd s), P)" by (simp add: spec_abs_def)
  show "\<exists>s'. spec_call c s = Some (s', snd (overlay_spec c (spec_abs s))) \<and> spec_inv s' \<and> spec_abs s' = fst (overlay_spec c (spec_abs s))"
  proof (cases c)
    case (SRead a n)
    then show ?thesis
      using spec_Access_read [OF inv, of "int n" "replicate n 0" a] abs
      by (auto simp: spec_Read_def spec_returns_def seen_def simp del: split_paired_Ex)
  next
    case (SWrite a bs)
    then show ?thesis
      using spec_Access_write [OF inv, of "int (length bs)" bs a] abs eta
      by (auto simp: spec_Write_def spec_returns_def simp del: split_paired_Ex)
  next
    case SClear
    then show ?thesis
      using Clear_run [OF spec_invD(2) [OF inv]] empty_inv [OF spec_invD(1) [OF inv]] abs eta by simp
  qed
qed

lemma overlay_frame: "snd (fst (run_spec overlay_spec cs a)) = snd a"
proof (induction cs arbitrary: a)
  case (Cons c cs)
  obtain a1 r a2 rs where e: "overlay_spec c a = (a1, r)" "run_spec overlay_spec cs a1 = (a2, rs)" by fastforce
  have "snd (fst (overlay_spec c a)) = snd a" by (cases c; cases a) auto
  then show ?case using Cons.IH [of a1] e by simp
qed simp

section \<open>Properties\<close>

text \<open>
  C31: the speculative memory is an overlay on the guest memory. From an empty one, over a guest memory in any
  state, safe or not, every sequence of reads, writes and clearings returns: a read sees the bytes last
  written speculatively and the guest memory elsewhere, across pages and across the end of the address space;
  a write brings in the blocks of 16 bytes it touches, except that beyond 100 blocks the bytes of a new block
  are dropped; a clearing forgets every write. The bytes and the permissions of the guest memory never change.
\<close>

theorem specmem_refines_overlay:
  assumes "memory_inv m" "specmem_create = Some sm"
  shows "\<exists>s. run_calls spec_call cs (sm, m) = Some (s, snd (run_spec overlay_spec cs (Map.empty, mem_abs m))) \<and>
    mem_abs (snd s) = mem_abs m"
proof -
  have sm: "sm = \<lparr>sm_num_pages = 0, sm_pages = replicate 32 []\<rparr>"
    using assms(2) by (simp add: specmem_create_def PageTableSize_def)
  obtain s where s: "run_calls spec_call cs (sm, m) = Some (s, snd (run_spec overlay_spec cs (Map.empty, mem_abs m)))"
      "spec_abs s = fst (run_spec overlay_spec cs (Map.empty, mem_abs m))"
    using specmem_adt.calls_refine [of "(sm, m)" cs] empty_inv [OF assms(1)] sm by auto
  then have "snd (spec_abs s) = snd (fst (run_spec overlay_spec cs (Map.empty, mem_abs m)))" by (simp only:)
  then have "mem_abs (snd s) = snd (fst (run_spec overlay_spec cs (Map.empty, mem_abs m)))" unfolding spec_abs_def by simp
  then have "mem_abs (snd s) = mem_abs m" unfolding overlay_frame by simp
  then show ?thesis using s(1) by blast
qed

theorem specmem_refines_overlay_witness:
  "\<exists>s. run_calls spec_call [SWrite 0xfffffffe [7, 8], SRead 0xfffffffd 4, SClear, SRead 0 1]
     (\<lparr>sm_num_pages = 0, sm_pages = replicate 32 []\<rparr>, memory_create) = Some (s, [[7, 8], [0, 7, 8, 0], [], [0]])"
proof -
  let ?cs = "[SWrite 0xfffffffe [7, 8], SRead 0xfffffffd 4, SClear, SRead 0 1]"
  have b: "mem_abs memory_create = ((\<lambda>_. 0), snd (mem_abs memory_create))"
    by (auto simp: mem_abs_def byte_at_def byte_of_def getPage_def memory_create_def fun_eq_iff)
  have "specmem_create = Some \<lparr>sm_num_pages = 0, sm_pages = replicate 32 []\<rparr>" "memory_inv memory_create"
    by (simp_all add: specmem_create_def PageTableSize_def memory_inv_def memory_create_def)
  moreover have "snd (run_spec overlay_spec ?cs (Map.empty, (\<lambda>_. 0), p)) = [[7, 8], [0, 7, 8, 0], [], [0]]" for p
    by (simp add: ov_put_def ov_fill_def block_of_def upt_rec dom_def)
  ultimately show ?thesis using specmem_refines_overlay [of memory_create _ ?cs] b by metis
qed

end
