(* ===== verification/SimManager.thy ===== *)
theory SimManager
  imports SimMemoryClient
begin

text \<open>
  The allocator of guest memory, \<^verbatim>\<open>memory/Manager.cc\<close>. It keeps the chunks of the pages it has
  mapped in a \<^verbatim>\<open>std::map\<close> from addresses, and the free ones, the holes, in a \<^verbatim>\<open>std::multimap\<close> from
  sizes as well. A request larger than a page gets pages of its own, below the base address; a
  smaller one is put into the first hole that holds it, or into a new page.

  The \<^verbatim>\<open>Chunk\<close> objects are in a store: a pointer to a chunk is a number, and a number without an object is
  that of a freed chunk. A map is the list of its entries, in the order of its keys; a multimap keeps
  equal keys in the order of their insertion. \<^term>\<open>None\<close> is a run stopped by an assertion or by a call that
  does not return, or one that has no defined behaviour: a use of a freed chunk, of the end of a map, or a
  conversion of a floating-point number that does not fit. The one read of a freed chunk that
  \<^verbatim>\<open>MergeHoles\<close> makes is an argument instead, \<open>stale\<close>: what the address of the chunk reads as once it
  has been freed, with \<^term>\<open>None\<close> for no defined value.
\<close>

section \<open>State\<close>

definition MapBaseAddress :: "32 word" where
  "MapBaseAddress = 0xb7fb0000"

record chunk =
  ch_address :: "32 word"
  ch_size :: "32 word"
  ch_is_allocated :: bool

record manager =
  mg_heap :: "nat \<Rightarrow> chunk option"
  mg_next :: nat
  mg_chunks :: "(32 word \<times> nat) list"
  mg_holes :: "(32 word \<times> nat) list"

datatype mgr_error = OutOfMemory | NotAllocated | MergeAllocated

type_synonym mgr_state = "manager \<times> memory_t"

type_synonym 'a mgr_result = "(mgr_state \<times> (mgr_error + 'a)) option"

definition mgr_then :: "'a mgr_result \<Rightarrow> ('a \<Rightarrow> mgr_state \<Rightarrow> 'b mgr_result) \<Rightarrow> 'b mgr_result" where
  "mgr_then r f = (case r of None \<Rightarrow> None | Some (s, Inl e) \<Rightarrow> Some (s, Inl e) | Some (s, Inr x) \<Rightarrow> f x s)"

definition manager_create :: manager where
  "manager_create = \<lparr>mg_heap = Map.empty, mg_next = 0, mg_chunks = [], mg_holes = []\<rparr>"

definition getEndAddress :: "chunk \<Rightarrow> 32 word" where
  "getEndAddress c = ch_address c + ch_size c - 1"

section \<open>Maps ordered by their keys\<close>

definition lower_bound :: "32 word \<Rightarrow> (32 word \<times> nat) list \<Rightarrow> (32 word \<times> nat) list" where
  "lower_bound k xs = dropWhile (\<lambda>(k', _). k' < k) xs"

definition entries_before :: "32 word \<Rightarrow> (32 word \<times> nat) list \<Rightarrow> (32 word \<times> nat) list" where
  "entries_before k xs = takeWhile (\<lambda>(k', _). k' < k) xs"

definition map_insert :: "32 word \<Rightarrow> nat \<Rightarrow> (32 word \<times> nat) list \<Rightarrow> (32 word \<times> nat) list option" where
  "map_insert k i xs = (if map_of xs k \<noteq> None then None else Some (entries_before k xs @ (k, i) # lower_bound k xs))"

definition multimap_insert :: "32 word \<Rightarrow> nat \<Rightarrow> (32 word \<times> nat) list \<Rightarrow> (32 word \<times> nat) list" where
  "multimap_insert k i xs = takeWhile (\<lambda>(k', _). k' \<le> k) xs @ (k, i) # dropWhile (\<lambda>(k', _). k' \<le> k) xs"

definition erase_entry :: "nat \<Rightarrow> (32 word \<times> nat) list \<Rightarrow> (32 word \<times> nat) list" where
  "erase_entry i xs = filter (\<lambda>(_, j). j \<noteq> i) xs"

section \<open>Chunks\<close>

text \<open>
  When the map has the address already, the new chunk is freed with the pair that was not inserted, and
  the call that sets its iterator writes to it.
\<close>

definition CreateHole :: "32 word \<Rightarrow> 32 word \<Rightarrow> manager \<Rightarrow> (manager \<times> nat) option" where
  "CreateHole addr sz mg = (let hole = mg_next mg in do {
     chunks \<leftarrow> map_insert addr hole (mg_chunks mg);
     Some (\<lparr>mg_heap = (mg_heap mg)(hole \<mapsto> \<lparr>ch_address = addr, ch_size = sz, ch_is_allocated = False\<rparr>),
       mg_next = Suc hole, mg_chunks = chunks, mg_holes = multimap_insert sz hole (mg_holes mg)\<rparr>, hole) })"

definition RemoveHole :: "nat \<Rightarrow> manager \<Rightarrow> manager option" where
  "RemoveHole hole mg = do {
     c \<leftarrow> mg_heap mg hole;
     c_assert (\<not> ch_is_allocated c);
     Some (mg\<lparr>mg_holes := erase_entry hole (mg_holes mg), mg_chunks := erase_entry hole (mg_chunks mg),
       mg_heap := (mg_heap mg)(hole := None)\<rparr>) }"

definition CreatePointer :: "32 word \<Rightarrow> 32 word \<Rightarrow> manager \<Rightarrow> (manager \<times> nat) option" where
  "CreatePointer addr sz mg = (let pointer = mg_next mg in do {
     chunks \<leftarrow> map_insert addr pointer (mg_chunks mg);
     Some (mg\<lparr>mg_heap := (mg_heap mg)(pointer \<mapsto> \<lparr>ch_address = addr, ch_size = sz, ch_is_allocated = True\<rparr>),
       mg_next := Suc pointer, mg_chunks := chunks\<rparr>, pointer) })"

definition RemovePointer :: "nat \<Rightarrow> manager \<Rightarrow> manager option" where
  "RemovePointer pointer mg = do {
     _ \<leftarrow> mg_heap mg pointer;
     Some (mg\<lparr>mg_chunks := erase_entry pointer (mg_chunks mg), mg_heap := (mg_heap mg)(pointer := None)\<rparr>) }"

section \<open>Allocation\<close>

text \<open>
  The division is on doubles; it is exact enough for 32-bit operands, so that \<^verbatim>\<open>ceil\<close> gives the
  quotient rounded up. A division by 0 or a product of \<open>2 ^ 32\<close> has no defined conversion.
\<close>

definition round_up :: "32 word \<Rightarrow> 32 word \<Rightarrow> 32 word option" where
  "round_up n alignment = (if alignment = 0 then None
     else let r = (unat n + (unat alignment - 1)) div unat alignment * unat alignment
       in if r < 2 ^ 32 then Some (of_nat r) else None)"

definition getNextAlignedAddress :: "32 word \<Rightarrow> 32 word \<Rightarrow> 32 word option" where
  "getNextAlignedAddress address alignment = round_up address alignment"

definition canHoleContain :: "nat \<Rightarrow> 32 word \<Rightarrow> 32 word \<Rightarrow> manager \<Rightarrow> bool option" where
  "canHoleContain hole sz alignment mg = do {
     c \<leftarrow> mg_heap mg hole;
     aligned_address \<leftarrow> getNextAlignedAddress (ch_address c) alignment;
     let gap = aligned_address - ch_address c;
     Some (ch_size c \<ge> sz + gap) }"

fun find_hole :: "32 word \<Rightarrow> 32 word \<Rightarrow> manager \<Rightarrow> (32 word \<times> nat) list \<Rightarrow> nat option option" where
  "find_hole sz alignment mg [] = Some None"
| "find_hole sz alignment mg ((_, hole) # it) = do {
     b \<leftarrow> canHoleContain hole sz alignment mg;
     if b then Some (Some hole) else find_hole sz alignment mg it }"

definition AllocateLarge :: "32 word \<Rightarrow> mgr_state \<Rightarrow> 32 word mgr_result" where
  "AllocateLarge sz s = (let (mg, m) = s in do {
     page_aligned_size \<leftarrow> round_up sz PageSize;
     address \<leftarrow> MapSpaceDown MapBaseAddress page_aligned_size m;
     if address = - 1 then Some (s, Inl OutOfMemory)
     else do {
       m \<leftarrow> Map address sz 7 m;
       (mg, _) \<leftarrow> CreatePointer address page_aligned_size mg;
       Some ((mg, m), Inr address) } })"

definition AllocateIn :: "nat \<Rightarrow> 32 word \<Rightarrow> 32 word \<Rightarrow> manager \<Rightarrow> (manager \<times> 32 word) option" where
  "AllocateIn hole sz alignment mg = do {
     c \<leftarrow> mg_heap mg hole;
     let address = ch_address c;
     let hole_size = ch_size c;
     mg \<leftarrow> RemoveHole hole mg;
     aligned_address \<leftarrow> getNextAlignedAddress address alignment;
     let hole1_size = aligned_address - address;
     mg \<leftarrow> if hole1_size > 0 then map_option fst (CreateHole address hole1_size mg) else Some mg;
     let hole2_size = hole_size - sz - hole1_size;
     mg \<leftarrow> if hole2_size > 0 then map_option fst (CreateHole (address + hole1_size + sz) hole2_size mg) else Some mg;
     (mg, _) \<leftarrow> CreatePointer aligned_address sz mg;
     Some (mg, aligned_address) }"

definition RequestOnePage :: "32 word \<Rightarrow> mgr_state \<Rightarrow> nat mgr_result" where
  "RequestOnePage base_address s = (let (mg, m) = s in do {
     addr \<leftarrow> MapSpace base_address PageSize m;
     if addr = - 1 then Some (s, Inl OutOfMemory)
     else do {
       m \<leftarrow> Map addr PageSize 7 m;
       (mg, hole) \<leftarrow> CreateHole addr PageSize mg;
       Some ((mg, m), Inr hole) } })"

definition Allocate :: "32 word \<Rightarrow> 32 word \<Rightarrow> mgr_state \<Rightarrow> 32 word mgr_result" where
  "Allocate sz alignment s = do {
     c_assert (alignment \<le> PageSize);
     if sz > PageSize then AllocateLarge sz s
     else do {
       found \<leftarrow> find_hole sz alignment (fst s) (lower_bound sz (mg_holes (fst s)));
       case found of
         Some hole \<Rightarrow> do {
           (mg, address) \<leftarrow> AllocateIn hole sz alignment (fst s);
           Some ((mg, snd s), Inr address) }
       | None \<Rightarrow> mgr_then (RequestOnePage MapBaseAddress s) (\<lambda>hole (mg, m). do {
           c \<leftarrow> mg_heap mg hole;
           let addr = ch_address c;
           (mg, _) \<leftarrow> AllocateIn hole sz alignment mg;
           Some ((mg, m), Inr addr) }) } }"

section \<open>Release\<close>

definition isInSamePage :: "32 word \<Rightarrow> 32 word \<Rightarrow> bool" where
  "isInSamePage addr1 addr2 \<longleftrightarrow> addr1 div PageSize = addr2 div PageSize"

definition DeallocatePage :: "32 word \<Rightarrow> memory_t \<Rightarrow> memory_t option" where
  "DeallocatePage addr m = Unmap addr PageSize m"

definition FreeLarge :: "nat \<Rightarrow> mgr_state \<Rightarrow> mgr_state option" where
  "FreeLarge pointer s = (let (mg, m) = s in do {
     c \<leftarrow> mg_heap mg pointer;
     (m, _) \<leftarrow> for_loop 0 (unat (ch_size c div PageSize)) (\<lambda>i (m, address). do {
       m \<leftarrow> DeallocatePage address m;
       Some (m, address + PageSize) }) (m, ch_address c);
     mg \<leftarrow> RemovePointer pointer mg;
     Some (mg, m) })"

definition Merge2Holes :: "nat \<Rightarrow> nat \<Rightarrow> manager \<Rightarrow> manager option" where
  "Merge2Holes hole1 hole2 mg = do {
     c1 \<leftarrow> mg_heap mg hole1;
     c2 \<leftarrow> mg_heap mg hole2;
     c_assert (\<not> ch_is_allocated c1);
     c_assert (\<not> ch_is_allocated c2);
     c_assert (ch_address c1 + ch_size c1 = ch_address c2);
     mg \<leftarrow> RemoveHole hole2 mg;
     mg \<leftarrow> RemoveHole hole1 mg;
     map_option fst (CreateHole (ch_address c1) (ch_size c1 + ch_size c2) mg) }"

text \<open>The three parts of \<^verbatim>\<open>MergeHoles\<close>.\<close>

definition merge_forward :: "nat \<Rightarrow> 32 word \<Rightarrow> manager \<Rightarrow> manager option" where
  "merge_forward hole addr mg = (case lower_bound addr (mg_chunks mg) of
      [] \<Rightarrow> None
    | [_] \<Rightarrow> Some mg
    | _ # (_, i) # _ \<Rightarrow> do {
        c \<leftarrow> mg_heap mg i;
        if isInSamePage addr (ch_address c) \<and> \<not> ch_is_allocated c then Merge2Holes hole i mg else Some mg })"

definition merge_back :: "(chunk \<Rightarrow> 32 word option) \<Rightarrow> 32 word \<Rightarrow> manager \<Rightarrow> (manager \<times> 32 word) option" where
  "merge_back stale addr mg = (if entries_before addr (mg_chunks mg) = [] then Some (mg, addr)
     else case lower_bound addr (mg_chunks mg) of
       [] \<Rightarrow> None
     | (_, chunk1) # _ \<Rightarrow> let chunk2 = snd (last (entries_before addr (mg_chunks mg))) in do {
         c2 \<leftarrow> mg_heap mg chunk2;
         if isInSamePage addr (ch_address c2) \<and> \<not> ch_is_allocated c2 then do {
           mg \<leftarrow> Merge2Holes chunk2 chunk1 mg;
           merged_addr \<leftarrow> stale c2;
           Some (mg, merged_addr) }
         else Some (mg, addr) })"

definition release_page :: "32 word \<Rightarrow> mgr_state \<Rightarrow> mgr_state option" where
  "release_page merged_addr s = (let (mg, m) = s in
     case lower_bound merged_addr (mg_chunks mg) of
       [] \<Rightarrow> None
     | (_, i) # _ \<Rightarrow> do {
         c \<leftarrow> mg_heap mg i;
         if ch_size c = PageSize then do {
           m \<leftarrow> DeallocatePage merged_addr m;
           mg \<leftarrow> RemoveHole i mg;
           Some (mg, m) }
         else Some (mg, m) })"

definition MergeHoles :: "(chunk \<Rightarrow> 32 word option) \<Rightarrow> nat \<Rightarrow> mgr_state \<Rightarrow> unit mgr_result" where
  "MergeHoles stale hole s = (let (mg, m) = s in do {
     c \<leftarrow> mg_heap mg hole;
     if ch_is_allocated c then Some (s, Inl MergeAllocated)
     else do {
       let addr = ch_address c;
       mg \<leftarrow> merge_forward hole addr mg;
       (mg, merged_addr) \<leftarrow> merge_back stale addr mg;
       s \<leftarrow> release_page merged_addr (mg, m);
       Some (s, Inr ()) } })"

definition Free :: "(chunk \<Rightarrow> 32 word option) \<Rightarrow> 32 word \<Rightarrow> mgr_state \<Rightarrow> unit mgr_result" where
  "Free stale address s = (let (mg, m) = s in
     case map_of (mg_chunks mg) address of
       None \<Rightarrow> Some (s, Inl NotAllocated)
     | Some i \<Rightarrow> do {
         c \<leftarrow> mg_heap mg i;
         let sz = ch_size c;
         if sz > PageSize then do { s \<leftarrow> FreeLarge i s; Some (s, Inr ()) }
         else do {
           mg \<leftarrow> RemovePointer i mg;
           (mg, hole) \<leftarrow> CreateHole address sz mg;
           MergeHoles stale hole (mg, m) } })"

section \<open>Queries\<close>

definition isValidAddress :: "32 word \<Rightarrow> manager \<Rightarrow> bool option" where
  "isValidAddress address mg = (case lower_bound address (mg_chunks mg) of
      [] \<Rightarrow> None
    | (_, i) # _ \<Rightarrow> do {
        c \<leftarrow> mg_heap mg i;
        Some (ch_address c \<le> address \<and> getEndAddress c \<ge> address \<and> ch_is_allocated c) })"

fun allocated_size_loop :: "manager \<Rightarrow> (32 word \<times> nat) list \<Rightarrow> 32 word \<Rightarrow> 32 word option" where
  "allocated_size_loop mg [] size_allocated = Some size_allocated"
| "allocated_size_loop mg ((_, i) # it) size_allocated = do {
     c \<leftarrow> mg_heap mg i;
     allocated_size_loop mg it (if ch_is_allocated c then size_allocated + ch_size c else size_allocated) }"

definition getAllocatedSize :: "manager \<Rightarrow> 32 word option" where
  "getAllocatedSize mg = allocated_size_loop mg (mg_chunks mg) 0"

fun occupied_size_loop :: "manager \<Rightarrow> (32 word \<times> nat) list \<Rightarrow> 32 word \<Rightarrow> 32 word option" where
  "occupied_size_loop mg [] size_occupied = Some size_occupied"
| "occupied_size_loop mg ((_, i) # it) size_occupied = do {
     c \<leftarrow> mg_heap mg i;
     occupied_size_loop mg it (size_occupied + ch_size c) }"

definition getOccupiedSize :: "manager \<Rightarrow> 32 word option" where
  "getOccupiedSize mg = occupied_size_loop mg (mg_chunks mg) 0"

end
