(* ===== verification/SimManagerProof.thy ===== *)
theory SimManagerProof
  imports SimManager
begin

text \<open>
  The operations of the allocator on its data structures, seen as changes of one partial function
  from addresses to chunks, and the geometry of the chunks: they never overlap, they fill whole
  pages, and the pages are mapped.
\<close>

section \<open>Maps ordered by their keys\<close>

lemma sorted_keys_distinct:
  assumes "sorted_wrt (<) (map fst (xs :: (32 word \<times> nat) list))"
  shows "distinct (map fst xs)"
  using assms by (simp add: strict_sorted_iff)

lemma map_of_sorted:
  assumes "sorted_wrt (<) (map fst (xs :: (32 word \<times> nat) list))"
  shows "map_of xs k = Some i \<longleftrightarrow> (k, i) \<in> set xs"
  using sorted_keys_distinct [OF assms] by simp

lemma sorted_split:
  assumes "sorted_wrt (<) (map fst (xs :: (32 word \<times> nat) list))" "(a, i) \<in> set xs"
  shows "\<exists>ys zs. xs = ys @ (a, i) # zs \<and> entries_before a xs = ys \<and> lower_bound a xs = (a, i) # zs \<and>
    (\<forall>(k, _) \<in> set ys. k < a) \<and> (\<forall>(k, _) \<in> set zs. a < k)"
proof -
  obtain ys zs where xs: "xs = ys @ (a, i) # zs" using split_list [OF assms(2)] by blast
  have l: "\<forall>(k, _) \<in> set ys. k < a" "\<forall>(k, _) \<in> set zs. a < k"
    using assms(1) unfolding xs by (auto simp: sorted_wrt_append)
  have "takeWhile (\<lambda>(k', _). k' < a) xs = ys" "dropWhile (\<lambda>(k', _). k' < a) xs = (a, i) # zs"
    using l(1) unfolding xs by (auto simp: takeWhile_append2 dropWhile_append2)
  then show ?thesis using xs l unfolding entries_before_def lower_bound_def by blast
qed

lemma lower_bound_set: 
  assumes "sorted_wrt (<) (map fst (xs :: (32 word \<times> nat) list))"
  shows "(k, i) \<in> set (lower_bound a xs) \<longleftrightarrow> (k, i) \<in> set xs \<and> a \<le> k"
    "(k, i) \<in> set (entries_before a xs) \<longleftrightarrow> (k, i) \<in> set xs \<and> k < a"
proof -
  have s: "xs = entries_before a xs @ lower_bound a xs" by (simp add: entries_before_def lower_bound_def)
  have b: "k < a" if "(k, i) \<in> set (entries_before a xs)" for k i
    using set_takeWhileD [OF that [unfolded entries_before_def]] by simp
  have l: "a \<le> k" if "(k, i) \<in> set (lower_bound a xs)" for k i
  proof (cases "lower_bound a xs")
    case (Cons e es)
    then have "\<not> (case e of (k', _) \<Rightarrow> k' < a)" unfolding lower_bound_def dropWhile_eq_Cons_conv by blast
    then have e: "a \<le> fst e" by (cases e) auto
    have "sorted_wrt (<) (map fst (lower_bound a xs))" using assms s by (metis map_append sorted_wrt_append)
    then have "fst e \<le> k" using that Cons by (auto intro: less_imp_le)
    then show ?thesis using e by simp
  qed (use that in simp)
  show "(k, i) \<in> set (lower_bound a xs) \<longleftrightarrow> (k, i) \<in> set xs \<and> a \<le> k"
    "(k, i) \<in> set (entries_before a xs) \<longleftrightarrow> (k, i) \<in> set xs \<and> k < a"
    using s b l by (metis Un_iff set_append not_le)+
qed

lemma map_insert_run:
  assumes "sorted_wrt (<) (map fst xs)" "map_of xs k = None"
  shows "\<exists>ys. map_insert k i xs = Some ys \<and> sorted_wrt (<) (map fst ys) \<and> set ys = insert (k, i) (set xs) \<and>
    mset ys = add_mset (k, i) (mset xs)"
proof -
  let ?ys = "entries_before k xs @ (k, i) # lower_bound k xs"
  have s: "xs = entries_before k xs @ lower_bound k xs" by (simp add: entries_before_def lower_bound_def)
  have k: "k \<noteq> k'" if "(k', j) \<in> set xs" for k' j using assms(2) that by (auto simp: map_of_eq_None_iff image_iff)
  have "sorted_wrt (<) (map fst (entries_before k xs))" "sorted_wrt (<) (map fst (lower_bound k xs))"
    "\<forall>x \<in> set (entries_before k xs). \<forall>y \<in> set (lower_bound k xs). fst x < fst y"
    using assms(1) s by (metis map_append sorted_wrt_append) (metis assms(1) s map_append sorted_wrt_append, use lower_bound_set [OF assms(1)] in force)
  moreover have "\<forall>x \<in> set (entries_before k xs). fst x < k" "\<forall>y \<in> set (lower_bound k xs). k < fst y"
    using lower_bound_set [OF assms(1)] k by (force simp: order.order_iff_strict)+
  ultimately have "sorted_wrt (<) (map fst ?ys)" by (auto simp: sorted_wrt_append)
  moreover have "mset ?ys = add_mset (k, i) (mset xs)" using arg_cong [OF s, of mset] by simp
  moreover from this have "set ?ys = insert (k, i) (set xs)" by (metis set_mset_add_mset_insert set_mset_mset)
  ultimately show ?thesis using assms(2) by (simp add: map_insert_def)
qed

lemma multimap_insert_run:
  assumes "sorted (map fst xs)"
  shows "sorted (map fst (multimap_insert k i xs))" "mset (multimap_insert k i xs) = add_mset (k, i) (mset xs)"
proof -
  have "multimap_insert k i xs = multimap_insert k i (takeWhile (\<lambda>(k', _). k' \<le> k) xs @ dropWhile (\<lambda>(k', _). k' \<le> k) xs)" by simp
  have "mset (takeWhile (\<lambda>(k', _). k' \<le> k) xs) + mset (dropWhile (\<lambda>(k', _). k' \<le> k) xs) = mset xs"
    by (simp flip: mset_append)
  then show "mset (multimap_insert k i xs) = add_mset (k, i) (mset xs)" by (simp add: multimap_insert_def)
  show "sorted (map fst (multimap_insert k i xs))"
    using assms
  proof (induction xs)
    case (Cons x xs)
    then show ?case
    proof (cases "fst x \<le> k")
      case True
      then have "multimap_insert k i (x # xs) = x # multimap_insert k i xs" by (cases x) (simp add: multimap_insert_def)
      moreover have "set (multimap_insert k i xs) = insert (k, i) (set xs)"
      proof -
        have "set xs = set (takeWhile (\<lambda>(k', _). k' \<le> k) xs) \<union> set (dropWhile (\<lambda>(k', _). k' \<le> k) xs)"
          by (metis set_append takeWhile_dropWhile_id)
        then show ?thesis by (auto simp: multimap_insert_def)
      qed
      ultimately show ?thesis using Cons True by auto
    next
      case False
      then have "multimap_insert k i (x # xs) = (k, i) # x # xs" by (cases x) (simp add: multimap_insert_def)
      then show ?thesis using Cons.prems False by auto
    qed
  qed (simp add: multimap_insert_def)
qed

lemma erase_entry_run:
  "sorted_wrt r (map fst xs) \<Longrightarrow> sorted_wrt r (map fst (erase_entry i xs))"
  "distinct (map snd xs) \<Longrightarrow> distinct (map snd (erase_entry i xs))"
  "set (erase_entry i xs) = {e \<in> set xs. snd e \<noteq> i}"
  by (induction xs) (auto simp: erase_entry_def case_prod_beta)

section \<open>Consistency of the data structures\<close>

definition chunk_at :: "manager \<Rightarrow> 32 word \<Rightarrow> chunk option" where
  "chunk_at mg k = (case map_of (mg_chunks mg) k of None \<Rightarrow> None | Some i \<Rightarrow> mg_heap mg i)"

definition free_chunks :: "manager \<Rightarrow> (32 word \<times> nat) set" where
  "free_chunks mg = {(sz, i). \<exists>c. mg_heap mg i = Some c \<and> \<not> ch_is_allocated c \<and> ch_size c = sz}"

definition mgr_ok :: "manager \<Rightarrow> bool" where
  "mgr_ok mg \<longleftrightarrow> sorted_wrt (<) (map fst (mg_chunks mg)) \<and> distinct (map snd (mg_chunks mg)) \<and>
     (\<forall>(k, i) \<in> set (mg_chunks mg). \<exists>c. mg_heap mg i = Some c \<and> ch_address c = k) \<and>
     dom (mg_heap mg) = snd ` set (mg_chunks mg) \<and> (\<forall>i \<in> dom (mg_heap mg). i < mg_next mg) \<and>
     sorted (map fst (mg_holes mg)) \<and> distinct (map snd (mg_holes mg)) \<and> set (mg_holes mg) = free_chunks mg"

lemma mgr_okD:
  assumes "mgr_ok mg"
  shows "sorted_wrt (<) (map fst (mg_chunks mg))" "distinct (map snd (mg_chunks mg))"
    "(k, i) \<in> set (mg_chunks mg) \<Longrightarrow> \<exists>c. mg_heap mg i = Some c \<and> ch_address c = k"
    "dom (mg_heap mg) = snd ` set (mg_chunks mg)" "i \<in> dom (mg_heap mg) \<Longrightarrow> i < mg_next mg"
    "sorted (map fst (mg_holes mg))" "distinct (map snd (mg_holes mg))" "set (mg_holes mg) = free_chunks mg"
  using assms unfolding mgr_ok_def by blast+

lemma ok_map_of: "mgr_ok mg \<Longrightarrow> map_of (mg_chunks mg) k = Some i \<longleftrightarrow> (k, i) \<in> set (mg_chunks mg)"
  using map_of_sorted mgr_okD(1) by blast

lemma chunk_at_Some:
  assumes "mgr_ok mg"
  shows "chunk_at mg k = Some c \<longleftrightarrow> (\<exists>i. (k, i) \<in> set (mg_chunks mg) \<and> mg_heap mg i = Some c)"
proof -
  have "chunk_at mg k = Some c \<longleftrightarrow> (\<exists>i. map_of (mg_chunks mg) k = Some i \<and> mg_heap mg i = Some c)"
    by (auto simp: chunk_at_def split: option.splits)
  then show ?thesis unfolding ok_map_of [OF assms] .
qed

lemma chunk_at_None:
  assumes "mgr_ok mg"
  shows "chunk_at mg k = None \<longleftrightarrow> map_of (mg_chunks mg) k = None"
  using mgr_okD(3) [OF assms] ok_map_of [OF assms] by (fastforce simp: chunk_at_def split: option.splits)

lemma chunk_at_address: "mgr_ok mg \<Longrightarrow> chunk_at mg k = Some c \<Longrightarrow> ch_address c = k"
  using chunk_at_Some mgr_okD(3) by fastforce

lemma chunk_at_heap: "(k, i) \<in> set (mg_chunks mg) \<Longrightarrow> mgr_ok mg \<Longrightarrow> mg_heap mg i = chunk_at mg k"
  by (metis chunk_at_Some mgr_okD(3))

lemma same_id:
  assumes "mgr_ok mg" "(k, i) \<in> set (mg_chunks mg)" "(k', i) \<in> set (mg_chunks mg)"
  shows "k = k'"
  using mgr_okD(2) [OF assms(1)] assms(2,3) by (metis eq_key_imp_eq_value distinct_map inj_onD snd_conv prod.inject)

lemma create_ok:
  assumes "mgr_ok mg" "chunk_at mg a = None"
    and c: "ch_address c = a"
    and mg': "mg_heap mg' = (mg_heap mg)(mg_next mg \<mapsto> c)" "mg_next mg' = Suc (mg_next mg)"
      "map_insert a (mg_next mg) (mg_chunks mg) = Some (mg_chunks mg')"
      "mg_holes mg' = (if ch_is_allocated c then mg_holes mg else multimap_insert (ch_size c) (mg_next mg) (mg_holes mg))"
  shows "mgr_ok mg'" "chunk_at mg' = (chunk_at mg)(a \<mapsto> c)"
    "set (mg_chunks mg') = insert (a, mg_next mg) (set (mg_chunks mg))"
proof -
  let ?i = "mg_next mg"
  note ok = mgr_okD [OF assms(1)]
  have fresh: "?i \<notin> snd ` set (mg_chunks mg)" "mg_heap mg ?i = None" using ok(4,5) by blast+
  have ys: "sorted_wrt (<) (map fst (mg_chunks mg'))" "set (mg_chunks mg') = insert (a, ?i) (set (mg_chunks mg))"
      "mset (mg_chunks mg') = add_mset (a, ?i) (mset (mg_chunks mg))"
    using map_insert_run [OF ok(1), of a ?i] assms(2) chunk_at_None [OF assms(1)] mg'(3) by auto
  then show "set (mg_chunks mg') = insert (a, ?i) (set (mg_chunks mg))" by blast
  have "mset (map snd (mg_chunks mg')) = mset (?i # map snd (mg_chunks mg))" by (simp add: ys(3))
  then have d: "distinct (map snd (mg_chunks mg'))" using ok(2) fresh(1) by (metis distinct.simps(2) mset_eq_imp_distinct_iff set_map)
  have free: "free_chunks mg' = (if ch_is_allocated c then free_chunks mg else insert (ch_size c, ?i) (free_chunks mg))"
    using fresh(2) by (auto simp: free_chunks_def mg'(1))
  have holes: "sorted (map fst (mg_holes mg')) \<and> distinct (map snd (mg_holes mg')) \<and> set (mg_holes mg') = free_chunks mg'"
  proof (cases "ch_is_allocated c")
    case False
    note ins = multimap_insert_run [OF ok(6), of "ch_size c" ?i]
    have "?i \<notin> set (map snd (mg_holes mg))" using ok(8) fresh(2) by (auto simp: free_chunks_def)
    moreover have "mset (map snd (mg_holes mg')) = mset (?i # map snd (mg_holes mg))"
      using False mg'(4) by (simp add: ins(2))
    ultimately have "distinct (map snd (mg_holes mg'))" using ok(7) by (metis distinct.simps(2) mset_eq_imp_distinct_iff)
    moreover have "set (mg_holes mg') = insert (ch_size c, ?i) (set (mg_holes mg))"
      using ins(2) False mg'(4) by (metis set_mset_add_mset_insert set_mset_mset)
    ultimately show ?thesis using ins(1) False mg'(4) free ok(8) by simp
  qed (use ok(6-8) free mg'(4) in simp)
  have "\<exists>c. mg_heap mg' j = Some c \<and> ch_address c = k" if "(k, j) \<in> set (mg_chunks mg')" for k j
    using that ys(2) ok(3) c fresh(1) by (auto simp: mg'(1) image_iff)
  moreover have "dom (mg_heap mg') = snd ` set (mg_chunks mg')" unfolding ys(2) mg'(1) using ok(4) by simp
  moreover have "j < mg_next mg'" if "j \<in> dom (mg_heap mg')" for j
    using that ok(5) [of j] unfolding mg'(1,2) by (cases "j = ?i") auto
  ultimately show ok': "mgr_ok mg'" using ys(1) d holes unfolding mgr_ok_def by blast
  show "chunk_at mg' = (chunk_at mg)(a \<mapsto> c)"
  proof (rule ext)
    fix k
    show "chunk_at mg' k = ((chunk_at mg)(a \<mapsto> c)) k"
    proof (cases "k = a")
      case True
      have "(a, ?i) \<in> set (mg_chunks mg') \<and> mg_heap mg' ?i = Some c" unfolding ys(2) mg'(1) by simp
      then have "chunk_at mg' a = Some c" unfolding chunk_at_Some [OF ok'] by blast
      then show ?thesis using True by simp
    next
      case False
      have "(k, i) \<in> insert (a, ?i) (set (mg_chunks mg)) \<and> ((mg_heap mg)(?i \<mapsto> c)) i = Some d \<longleftrightarrow>
          (k, i) \<in> set (mg_chunks mg) \<and> mg_heap mg i = Some d" for i d
        using False fresh(1) by (cases "i = ?i") (auto simp: image_iff)
      then have "chunk_at mg' k = Some d \<longleftrightarrow> chunk_at mg k = Some d" for d
        unfolding chunk_at_Some [OF ok'] chunk_at_Some [OF assms(1)] ys(2) mg'(1) by blast
      then show ?thesis using False by (metis fun_upd_other not_Some_eq)
    qed
  qed
qed

lemma remove_ok:
  assumes "mgr_ok mg" "(a, i) \<in> set (mg_chunks mg)" "mg_heap mg i = Some c"
    and mg': "mg_heap mg' = (mg_heap mg)(i := None)" "mg_next mg' = mg_next mg" "mg_chunks mg' = erase_entry i (mg_chunks mg)"
      "mg_holes mg' = (if ch_is_allocated c then mg_holes mg else erase_entry i (mg_holes mg))"
  shows "mgr_ok mg'" "chunk_at mg' = (chunk_at mg)(a := None)" "set (mg_chunks mg') = set (mg_chunks mg) - {(a, i)}"
proof -
  note ok = mgr_okD [OF assms(1)]
  have set': "set (mg_chunks mg') = set (mg_chunks mg) - {(a, i)}"
    unfolding mg'(3) erase_entry_run(3)
  proof (rule set_eqI)
    fix e :: "32 word \<times> nat"
    obtain k j where e: "e = (k, j)" by fastforce
    show "e \<in> {e \<in> set (mg_chunks mg). snd e \<noteq> i} \<longleftrightarrow> e \<in> set (mg_chunks mg) - {(a, i)}"
      using same_id [OF assms(1,2), of k] by (cases "j = i") (auto simp: e)
  qed
  then show "set (mg_chunks mg') = set (mg_chunks mg) - {(a, i)}" .
  have other: "j \<noteq> i" if "(k, j) \<in> set (mg_chunks mg')" for k j using that unfolding mg'(3) erase_entry_run(3) by simp
  have s: "sorted_wrt (<) (map fst (mg_chunks mg'))" "distinct (map snd (mg_chunks mg'))"
    unfolding mg'(3) using erase_entry_run(1,2) ok(1,2) by blast+
  have free: "free_chunks mg' = {e \<in> free_chunks mg. snd e \<noteq> i}" by (auto simp: free_chunks_def mg'(1))
  have holes: "sorted (map fst (mg_holes mg')) \<and> distinct (map snd (mg_holes mg')) \<and> set (mg_holes mg') = free_chunks mg'"
  proof (cases "ch_is_allocated c")
    case True
    then have "free_chunks mg' = free_chunks mg" using assms(3) unfolding free by (auto simp: free_chunks_def)
    then show ?thesis using ok(6-8) mg'(4) True by simp
  next
    case False
    then have h: "mg_holes mg' = erase_entry i (mg_holes mg)" using mg'(4) by simp
    show ?thesis unfolding h free erase_entry_run(3) ok(8) using erase_entry_run(1,2) ok(6,7) by blast
  qed
  have "\<exists>c. mg_heap mg' j = Some c \<and> ch_address c = k" if "(k, j) \<in> set (mg_chunks mg')" for k j
    using that set' ok(3) other [OF that] by (auto simp: mg'(1))
  moreover have "dom (mg_heap mg') = snd ` set (mg_chunks mg')"
  proof -
    have "snd ` set (mg_chunks mg') = snd ` set (mg_chunks mg) - {i}" unfolding mg'(3) erase_entry_run(3) by auto
    then show ?thesis unfolding mg'(1) using ok(4) by simp
  qed
  moreover have "j < mg_next mg'" if "j \<in> dom (mg_heap mg')" for j
    using that ok(5) [of j] unfolding mg'(1,2) by (auto split: if_splits)
  ultimately show ok': "mgr_ok mg'" using s holes unfolding mgr_ok_def by blast
  show "chunk_at mg' = (chunk_at mg)(a := None)"
  proof (rule ext)
    fix k
    show "chunk_at mg' k = ((chunk_at mg)(a := None)) k"
    proof (cases "k = a")
      case True
      have "(a, j) \<notin> set (mg_chunks mg')" for j
        using other [of a j] set' ok_map_of [OF assms(1), of a] assms(2) by (metis DiffE option.inject singletonI)
      then have "chunk_at mg' a = None" unfolding chunk_at_None [OF ok'] using ok_map_of [OF ok', of a] by (metis not_Some_eq)
      then show ?thesis using True by simp
    next
      case False
      have "chunk_at mg' k = Some d \<longleftrightarrow> chunk_at mg k = Some d" for d
        unfolding chunk_at_Some [OF ok'] chunk_at_Some [OF assms(1)] set' mg'(1)
        using same_id [OF assms(1,2), of k] False by (metis DiffE DiffI Pair_inject fun_upd_other singletonD)
      then show ?thesis using False by (metis fun_upd_other not_Some_eq)
    qed
  qed
qed

text \<open>The four operations that change the set of chunks.\<close>

abbreviation (input) a_hole :: "32 word \<Rightarrow> 32 word \<Rightarrow> chunk" where
  "a_hole a n \<equiv> \<lparr>ch_address = a, ch_size = n, ch_is_allocated = False\<rparr>"

abbreviation (input) a_pointer :: "32 word \<Rightarrow> 32 word \<Rightarrow> chunk" where
  "a_pointer a n \<equiv> \<lparr>ch_address = a, ch_size = n, ch_is_allocated = True\<rparr>"

lemma insert_defined:
  assumes "mgr_ok mg" "chunk_at mg a = None"
  obtains ys where "map_insert a i (mg_chunks mg) = Some ys"
  using map_insert_run [OF mgr_okD(1) [OF assms(1)], of a i] assms(2) chunk_at_None [OF assms(1), of a] by (metis that)

lemma CreateHole_run:
  assumes "mgr_ok mg" "chunk_at mg a = None"
  obtains mg' where "CreateHole a n mg = Some (mg', mg_next mg)" "mgr_ok mg'" "chunk_at mg' = (chunk_at mg)(a \<mapsto> a_hole a n)"
    "set (mg_chunks mg') = insert (a, mg_next mg) (set (mg_chunks mg))"
proof -
  obtain ys where ys: "map_insert a (mg_next mg) (mg_chunks mg) = Some ys" by (rule insert_defined [OF assms])
  let ?mg = "\<lparr>mg_heap = (mg_heap mg)(mg_next mg \<mapsto> a_hole a n), mg_next = Suc (mg_next mg), mg_chunks = ys,
    mg_holes = multimap_insert n (mg_next mg) (mg_holes mg)\<rparr>"
  have "CreateHole a n mg = Some (?mg, mg_next mg)" using ys by (simp add: CreateHole_def Let_def)
  moreover note create_ok [OF assms, of "a_hole a n" ?mg]
  ultimately show ?thesis using ys by (intro that [of ?mg]) simp_all
qed

lemma CreatePointer_run:
  assumes "mgr_ok mg" "chunk_at mg a = None"
  obtains mg' where "CreatePointer a n mg = Some (mg', mg_next mg)" "mgr_ok mg'" "chunk_at mg' = (chunk_at mg)(a \<mapsto> a_pointer a n)"
proof -
  obtain ys where ys: "map_insert a (mg_next mg) (mg_chunks mg) = Some ys" by (rule insert_defined [OF assms])
  let ?mg = "mg\<lparr>mg_heap := (mg_heap mg)(mg_next mg \<mapsto> a_pointer a n), mg_next := Suc (mg_next mg), mg_chunks := ys\<rparr>"
  have "CreatePointer a n mg = Some (?mg, mg_next mg)" using ys by (simp add: CreatePointer_def Let_def)
  moreover note create_ok [OF assms, of "a_pointer a n" ?mg]
  ultimately show ?thesis using ys by (intro that [of ?mg]) simp_all
qed

lemma RemoveHole_run:
  assumes "mgr_ok mg" "(a, i) \<in> set (mg_chunks mg)" "chunk_at mg a = Some c" "\<not> ch_is_allocated c"
  obtains mg' where "RemoveHole i mg = Some mg'" "mgr_ok mg'" "chunk_at mg' = (chunk_at mg)(a := None)"
    "set (mg_chunks mg') = set (mg_chunks mg) - {(a, i)}"
proof -
  have h: "mg_heap mg i = Some c" using chunk_at_heap assms(1-3) by metis
  let ?mg = "mg\<lparr>mg_holes := erase_entry i (mg_holes mg), mg_chunks := erase_entry i (mg_chunks mg), mg_heap := (mg_heap mg)(i := None)\<rparr>"
  have "RemoveHole i mg = Some ?mg" using h assms(4) by (simp add: RemoveHole_def)
  moreover note remove_ok [OF assms(1,2) h, of ?mg]
  ultimately show ?thesis using assms(4) by (intro that [of ?mg]) simp_all
qed

lemma RemovePointer_run:
  assumes "mgr_ok mg" "(a, i) \<in> set (mg_chunks mg)" "chunk_at mg a = Some c" "ch_is_allocated c"
  obtains mg' where "RemovePointer i mg = Some mg'" "mgr_ok mg'" "chunk_at mg' = (chunk_at mg)(a := None)"
proof -
  have h: "mg_heap mg i = Some c" using chunk_at_heap assms(1-3) by metis
  let ?mg = "mg\<lparr>mg_chunks := erase_entry i (mg_chunks mg), mg_heap := (mg_heap mg)(i := None)\<rparr>"
  have "RemovePointer i mg = Some ?mg" using h by (simp add: RemovePointer_def)
  moreover note remove_ok [OF assms(1,2) h, of ?mg]
  ultimately show ?thesis using assms(4) by (intro that [of ?mg]) simp_all
qed

section \<open>Geometry\<close>

definition start :: "chunk \<Rightarrow> nat" where
  "start c = unat (ch_address c)"

definition stop :: "chunk \<Rightarrow> nat" where
  "stop c = start c + unat (ch_size c)"

definition covers :: "chunk \<Rightarrow> nat \<Rightarrow> bool" where
  "covers c x \<longleftrightarrow> start c \<le> x \<and> x < stop c"

text \<open>A small chunk lies inside one page; a larger one is allocated and consists of whole pages.\<close>

definition chunk_ok :: "32 word \<Rightarrow> chunk \<Rightarrow> bool" where
  "chunk_ok k c \<longleftrightarrow> ch_address c = k \<and> 0 < unat (ch_size c) \<and> stop c \<le> 2 ^ 32 - 4096 \<and>
     (if unat (ch_size c) \<le> 4096 then start c mod 4096 + unat (ch_size c) \<le> 4096
      else ch_is_allocated c \<and> 4096 dvd start c \<and> 4096 dvd unat (ch_size c))"

type_synonym chunks = "32 word \<Rightarrow> chunk option"

definition covered :: "chunks \<Rightarrow> nat \<Rightarrow> bool" where
  "covered V x \<longleftrightarrow> (\<exists>k c. V k = Some c \<and> covers c x)"

definition apart :: "chunks \<Rightarrow> bool" where
  "apart V \<longleftrightarrow> (\<forall>k c k' c' x. V k = Some c \<and> covers c x \<and> V k' = Some c' \<and> covers c' x \<longrightarrow> k = k')"

definition whole_pages :: "chunks \<Rightarrow> bool" where
  "whole_pages V \<longleftrightarrow> (\<forall>x y. covered V x \<and> y div 4096 = x div 4096 \<longrightarrow> covered V y)"

definition layout :: "chunks \<Rightarrow> memory_t \<Rightarrow> bool" where
  "layout V m \<longleftrightarrow> (\<forall>k c. V k = Some c \<longrightarrow> chunk_ok k c) \<and> apart V \<and> whole_pages V \<and>
     (\<forall>x. covered V (unat x) \<longrightarrow> getPage x m \<noteq> None)"

text \<open>Two holes that meet inside a page.\<close>

definition meet :: "chunks \<Rightarrow> 32 word \<Rightarrow> 32 word \<Rightarrow> bool" where
  "meet V k k' \<longleftrightarrow> (\<exists>c c'. V k = Some c \<and> V k' = Some c' \<and> \<not> ch_is_allocated c \<and> \<not> ch_is_allocated c' \<and>
     stop c = start c' \<and> start c div 4096 = start c' div 4096)"

definition whole_hole :: "chunks \<Rightarrow> 32 word \<Rightarrow> bool" where
  "whole_hole V k \<longleftrightarrow> (\<exists>c. V k = Some c \<and> \<not> ch_is_allocated c \<and> unat (ch_size c) = 4096)"

definition settled :: "chunks \<Rightarrow> bool" where
  "settled V \<longleftrightarrow> (\<forall>k k'. \<not> meet V k k') \<and> (\<forall>k. \<not> whole_hole V k)"

lemma layoutD:
  assumes "layout V m"
  shows "V k = Some c \<Longrightarrow> chunk_ok k c" "V k = Some c \<Longrightarrow> covers c x \<Longrightarrow> V k' = Some c' \<Longrightarrow> covers c' x \<Longrightarrow> k = k'"
    "covered V x \<Longrightarrow> y div 4096 = x div 4096 \<Longrightarrow> covered V y" "covered V (unat w) \<Longrightarrow> getPage w m \<noteq> None"
  using assms unfolding layout_def apart_def whole_pages_def by blast+

lemma start_at: "chunk_ok k c \<Longrightarrow> start c = unat k"
  by (simp add: chunk_ok_def start_def)

lemma start_stop: "chunk_ok k c \<Longrightarrow> start c < stop c"
  by (simp add: chunk_ok_def stop_def)

lemma covers_start: "chunk_ok k c \<Longrightarrow> covers c (start c)"
  by (simp add: covers_def start_stop)

lemma chunk_order:
  assumes "layout V m" "V k = Some c" "V k' = Some c'" "k < k'"
  shows "stop c \<le> start c'"
proof (rule ccontr)
  assume "\<not> stop c \<le> start c'"
  moreover have "start c < start c'"
    using start_at [OF layoutD(1) [OF assms(1,2)]] start_at [OF layoutD(1) [OF assms(1,3)]] assms(4) by (simp add: word_less_nat_alt)
  ultimately have "covers c (start c')" by (simp add: covers_def)
  then have "k = k'" using layoutD(2) [OF assms(1,2) _ assms(3)] covers_start layoutD(1) [OF assms(1,3)] by blast
  then show False using assms(4) by simp
qed

text \<open>The chunks at some addresses are replaced by others that fill the same space.\<close>

lemma layout_replace:
  assumes V: "layout V m"
    and V': "\<And>k d. V' k = Some d \<longleftrightarrow> Q k = Some d \<or> k \<notin> A \<and> V k = Some d"
    and Q: "\<And>k d. Q k = Some d \<Longrightarrow> chunk_ok k d" "apart Q"
      "\<And>x. covered Q x \<longleftrightarrow> (\<exists>k \<in> A. \<exists>d. V k = Some d \<and> covers d x)"
  shows "layout V' m" "covered V' x \<longleftrightarrow> covered V x"
proof -
  show cov: "covered V' x \<longleftrightarrow> covered V x" for x
    using Q(3) [of x] unfolding covered_def V' by blast
  have "k = k'" if h: "V' k = Some c" "covers c x" "V' k' = Some c'" "covers c' x" for k k' c c' x
  proof (cases "Q k = Some c")
    case q: True
    show ?thesis
    proof (cases "Q k' = Some c'")
      case True
      then show ?thesis using Q(2) q h(2,4) unfolding apart_def by blast
    next
      case False
      then have n: "k' \<notin> A" "V k' = Some c'" using h(3) V' by blast+
      obtain l d where "l \<in> A" "V l = Some d" "covers d x" using Q(3) [of x] q h(2) unfolding covered_def by blast
      then show ?thesis using layoutD(2) [OF V] n h(4) by blast
    qed
  next
    case False
    then have n: "k \<notin> A" "V k = Some c" using h(1) V' by blast+
    have "Q k' \<noteq> Some c'"
    proof
      assume "Q k' = Some c'"
      then obtain l d where "l \<in> A" "V l = Some d" "covers d x" using Q(3) [of x] h(4) unfolding covered_def by blast
      then show False using layoutD(2) [OF V] n h(2) by blast
    qed
    then have "V k' = Some c'" using h(3) V' by blast
    then show ?thesis using layoutD(2) [OF V] n h(2,4) by blast
  qed
  moreover have "chunk_ok k c" if "V' k = Some c" for k c using that Q(1) layoutD(1) [OF V] unfolding V' by blast
  ultimately show "layout V' m"
    using layoutD(3,4) [OF V] unfolding layout_def apart_def whole_pages_def cov by blast
qed

text \<open>A chunk of whole pages is taken away with its pages, or put where no page was.\<close>

lemma same_page_covers:
  assumes "4096 dvd start c" "4096 dvd unat (ch_size c)" "covers c x" "y div 4096 = x div 4096"
  shows "covers c y"
proof -
  obtain a n where c: "start c = 4096 * a" "unat (ch_size c) = 4096 * n" using assms(1,2) by (elim dvdE)
  have x: "4096 * a \<le> x" "x < 4096 * (a + n)" using assms(3) by (simp_all add: covers_def stop_def c distrib_left)
  then have "a \<le> x div 4096" "x div 4096 < a + n" by simp_all
  then have "a \<le> y div 4096" "y div 4096 < a + n" using assms(4) by simp_all
  then have "4096 * a \<le> y" "y < 4096 * (a + n)" by simp_all
  then show ?thesis by (simp add: covers_def stop_def c distrib_left)
qed

lemma layout_remove:
  assumes "layout V m" "V a = Some c" "4096 dvd start c" "4096 dvd unat (ch_size c)"
    and m': "\<And>x. getPage x m' = (if covers c (unat x) then None else getPage x m)"
  shows "layout (V(a := None)) m'"
proof -
  have cov: "covered (V(a := None)) x \<longleftrightarrow> covered V x \<and> \<not> covers c x" for x
    using layoutD(2) [OF assms(1,2), of x] assms(2) unfolding covered_def by (metis fun_upd_apply option.distinct(1) option.inject)
  have "covered (V(a := None)) y" if "covered (V(a := None)) x" "y div 4096 = x div 4096" for x y
    using that layoutD(3) [OF assms(1)] same_page_covers [OF assms(3,4), of y x] unfolding cov by metis
  moreover have "getPage w m' \<noteq> None" if "covered (V(a := None)) (unat w)" for w
    using that layoutD(4) [OF assms(1)] unfolding cov m' by simp
  moreover have "apart (V(a := None))" using assms(1) unfolding layout_def apart_def by (simp add: fun_upd_apply) metis
  ultimately show ?thesis using layoutD(1) [OF assms(1)] unfolding layout_def whole_pages_def by (auto simp: fun_upd_apply)
qed

lemma layout_add:
  assumes "layout V m" "chunk_ok a c" "4096 dvd start c" "4096 dvd unat (ch_size c)"
    and free: "\<And>x. covers c (unat x) \<Longrightarrow> getPage x m = None"
    and m': "\<And>x. getPage x m' = None \<longleftrightarrow> \<not> covers c (unat x) \<and> getPage x m = None"
  shows "layout (V(a \<mapsto> c)) m'" "V a = None"
proof -
  have small: "x < 2 ^ 32" if "covers d x" "chunk_ok k d" for k d x using that by (simp add: covers_def chunk_ok_def)
  have new: "\<not> covered V x" if "covers c x" for x
  proof
    assume v: "covered V x"
    have "unat (of_nat x :: 32 word) = x" using small [OF that assms(2)] by (simp add: unat_of_nat take_bit_eq_mod)
    then have "getPage (of_nat x) m \<noteq> None" "getPage (of_nat x) m = None"
      using layoutD(4) [OF assms(1)] free v that by metis+
    then show False by simp
  qed
  show none: "V a = None"
  proof (rule ccontr)
    assume "V a \<noteq> None"
    then obtain d where d: "V a = Some d" by blast
    then have "covers d (start c)" using layoutD(1) [OF assms(1) d] assms(2) start_at covers_start by metis
    then show False using new [OF covers_start [OF assms(2)]] d unfolding covered_def by blast
  qed
  have e: "(V(a \<mapsto> c)) k = Some d \<longleftrightarrow> V k = Some d \<or> k = a \<and> d = c" for k d using none by (cases "k = a") auto
  have cov: "covered (V(a \<mapsto> c)) x \<longleftrightarrow> covered V x \<or> covers c x" for x unfolding covered_def e by blast
  have "covered (V(a \<mapsto> c)) y" if "covered (V(a \<mapsto> c)) x" "y div 4096 = x div 4096" for x y
    using that layoutD(3) [OF assms(1)] same_page_covers [OF assms(3,4)] unfolding cov by metis
  moreover have "getPage w m' \<noteq> None" if "covered (V(a \<mapsto> c)) (unat w)" for w
    using that layoutD(4) [OF assms(1)] unfolding cov m' by blast
  moreover have "apart (V(a \<mapsto> c))"
    unfolding apart_def
  proof (intro allI impI)
    fix k d k' d' x
    assume x: "(V(a \<mapsto> c)) k = Some d \<and> covers d x \<and> (V(a \<mapsto> c)) k' = Some d' \<and> covers d' x"
    show "k = k'"
    proof (cases "covers c x")
      case True
      then have "\<not> covered V x" using new by blast
      then show ?thesis using x unfolding covered_def by (metis fun_upd_apply)
    next
      case False
      then show ?thesis using x layoutD(2) [OF assms(1)] by (metis fun_upd_apply option.inject)
    qed
  qed
  ultimately show "layout (V(a \<mapsto> c)) m'"
    using layoutD(1) [OF assms(1)] assms(2) unfolding layout_def whole_pages_def by (auto simp: fun_upd_apply)
qed

end
