(* ===== verification/SimManagerRun.thy ===== *)
theory SimManagerRun
  imports SimManagerProof
begin

text \<open>
  The steps of the allocator: what each of them does to the chunks and to the pages of the memory.
\<close>

section \<open>Pages\<close>

lemma page_range:
  assumes "unat a = 4096 * q" "4096 * r < unat n + 4096" "unat n \<le> 4096 * r" "0 < unat n" "q + r < 1048576"
  shows "in_range a n x \<longleftrightarrow> unat a \<le> unat x \<and> unat x < unat a + 4096 * r" "page_tag (a + n - 1) \<noteq> last_page"
proof -
  have "unat a + unat n < 2 ^ 32" using assms by simp
  then have "unat (a + n) = unat a + unat n" by (subst unat_add_lem [THEN iffD1]) simp_all
  moreover from this have "a + n \<noteq> 0" using assms(4) by auto
  ultimately have e: "unat (a + n - 1) = unat a + unat n - 1" by (simp add: unat_minus_one)
  have d: "(unat a + unat n - 1) div 4096 = q + r - 1"
  proof -
    obtain r' where r': "r = Suc r'" using assms(3,4) by (cases r) auto
    then have "unat a + unat n - 1 = 4096 * (q + r') + (unat n - 1 - 4096 * r')" "unat n - 1 - 4096 * r' < 4096"
      using assms(1-4) by simp_all
    moreover have "(4096 * u + v) div 4096 = u" if "v < 4096" for u v :: nat using that by simp
    ultimately have "(unat a + unat n - 1) div 4096 = q + r'" by presburger
    then show ?thesis using r' by simp
  qed
  have "1 \<le> r" using assms(3,4) by (cases r) auto
  then have "q \<le> unat x div 4096 \<and> unat x div 4096 \<le> q + r - 1 \<longleftrightarrow> 4096 * q \<le> unat x \<and> unat x < 4096 * q + 4096 * r"
    by linarith
  then show "in_range a n x \<longleftrightarrow> unat a \<le> unat x \<and> unat x < unat a + 4096 * r"
    unfolding in_range_def word_le_nat_alt unat_page_tag e d by (simp add: assms(1))
  have "unat (page_tag (a + n - 1)) < 4294963200" unfolding unat_page_tag e d using assms(5) \<open>1 \<le> r\<close> by simp
  then show "page_tag (a + n - 1) \<noteq> last_page" by (auto simp: last_page_def)
qed

lemma Map_pages:
  assumes "unat a = 4096 * q" "4096 * r < unat n + 4096" "unat n \<le> 4096 * r" "0 < unat n" "q + r < 1048576"
  obtains m' where "Map a n perm m = Some m'"
    "\<And>x. getPage x m' = None \<longleftrightarrow> \<not> (unat a \<le> unat x \<and> unat x < unat a + 4096 * r) \<and> getPage x m = None"
    "\<And>x. \<not> (unat a \<le> unat x \<and> unat x < unat a + 4096 * r) \<Longrightarrow> getPage x m' = getPage x m"
proof -
  note r = page_range [OF assms]
  obtain m' where "tag_loop (map_page perm) (page_tag a) (page_tag (a + n - 1)) m = Some m'"
      "\<And>x. getPage x m' = (if in_range a n x then Some (addPerm perm
        (case getPage x m of None \<Rightarrow> \<lparr>pg_tag = page_tag x, pg_perm = perm, pg_data = None\<rparr> | Some p \<Rightarrow> p)) else getPage x m)"
    using loop_pages [of "map_page perm" _ a n m, OF map_page_body r(2)] by blast
  then show ?thesis by (intro that [of m']) (auto simp: Map_def r(1))
qed

lemma Unmap_page:
  assumes "unat a = 4096 * q" "q + 1 < 1048576"
  obtains m' where "DeallocatePage a m = Some m'"
    "\<And>x. getPage x m' = (if unat a \<le> unat x \<and> unat x < unat a + 4096 then None else getPage x m)"
proof -
  have r: "in_range a PageSize x \<longleftrightarrow> unat a \<le> unat x \<and> unat x < unat a + 4096" "page_tag (a + PageSize - 1) \<noteq> last_page" for x
    using page_range(1) [of a q 1 PageSize x] page_range(2) [of a q 1 PageSize] assms by simp_all
  obtain m' where "tag_loop unmap_page (page_tag a) (page_tag (a + PageSize - 1)) m = Some m'"
      "\<And>x. getPage x m' = (if in_range a PageSize x then None else getPage x m)"
    using loop_pages [of unmap_page "\<lambda>_ _. None" a PageSize m, OF unmap_page_body r(2)] by blast
  moreover have "page_offset a = 0" "page_offset PageSize = 0" by (simp_all add: page_offset_zero assms(1))
  ultimately show ?thesis by (intro that [of m']) (simp_all only: DeallocatePage_def Unmap_def r c_assert_simps simp_thms bind.bind_lunit)
qed

section \<open>Searching downwards\<close>

definition highest_free :: "memory_t \<Rightarrow> nat \<Rightarrow> nat \<Rightarrow> 32 word \<Rightarrow> bool" where
  "highest_free m e n r \<longleftrightarrow>
     r = - 1 \<and> (\<forall>p. 0 < p \<and> 4096 dvd p \<and> p + n \<le> e + 4096 \<longrightarrow> \<not> region_free m p n) \<or>
     (\<exists>p. r = of_nat p \<and> 0 < p \<and> 4096 dvd p \<and> p + n \<le> e + 4096 \<and> region_free m p n \<and>
       (\<forall>q. p < q \<and> 4096 dvd q \<and> q + n \<le> e + 4096 \<longrightarrow> \<not> region_free m q n))"

lemma highest_free_skip:
  assumes "highest_free m e' n r" "e' \<le> e" "\<And>p. p + n \<le> e + 4096 \<Longrightarrow> e' + 4096 < p + n \<Longrightarrow> 4096 dvd p \<Longrightarrow> \<not> region_free m p n"
  shows "highest_free m e n r"
  using assms(1) unfolding highest_free_def
proof (elim disjE exE conjE)
  assume "r = - 1" "\<forall>p. 0 < p \<and> 4096 dvd p \<and> p + n \<le> e' + 4096 \<longrightarrow> \<not> region_free m p n"
  then have "r = - 1 \<and> (\<forall>p. 0 < p \<and> 4096 dvd p \<and> p + n \<le> e + 4096 \<longrightarrow> \<not> region_free m p n)"
    using assms(3) by (metis not_le)
  then show "r = - 1 \<and> (\<forall>p. 0 < p \<and> 4096 dvd p \<and> p + n \<le> e + 4096 \<longrightarrow> \<not> region_free m p n) \<or>
     (\<exists>p. r = of_nat p \<and> 0 < p \<and> 4096 dvd p \<and> p + n \<le> e + 4096 \<and> region_free m p n \<and>
       (\<forall>q. p < q \<and> 4096 dvd q \<and> q + n \<le> e + 4096 \<longrightarrow> \<not> region_free m q n))" ..
next
  fix p assume p: "r = of_nat p" "0 < p" "4096 dvd p" "p + n \<le> e' + 4096" "region_free m p n"
    "\<forall>q. p < q \<and> 4096 dvd q \<and> q + n \<le> e' + 4096 \<longrightarrow> \<not> region_free m q n"
  have "\<forall>q. p < q \<and> 4096 dvd q \<and> q + n \<le> e + 4096 \<longrightarrow> \<not> region_free m q n" using p(6) assms(3) by (metis not_le)
  moreover have "p + n \<le> e + 4096" using p(4) assms(2) by simp
  ultimately show "r = - 1 \<and> (\<forall>p. 0 < p \<and> 4096 dvd p \<and> p + n \<le> e + 4096 \<longrightarrow> \<not> region_free m p n) \<or>
     (\<exists>p. r = of_nat p \<and> 0 < p \<and> 4096 dvd p \<and> p + n \<le> e + 4096 \<and> region_free m p n \<and>
       (\<forall>q. p < q \<and> 4096 dvd q \<and> q + n \<le> e + 4096 \<longrightarrow> \<not> region_free m q n))" using p by blast
qed

lemma of_nat_page:
  assumes "s < 1048576"
  shows "unat (of_nat (4096 * s) :: 32 word) = 4096 * s"
proof -
  have "4096 * s < 2 ^ 32" using assms by simp
  then show ?thesis by (simp only: unat_of_nat take_bit_eq_mod mod_less len_num0 len_bit0 len_num1 mult_2) (simp add: unat_of_nat take_bit_eq_mod)
qed

lemma map_space_down_loop_run:
  assumes sz: "unat sz = 4096 * n" "0 < n"
  shows "s \<le> e \<Longrightarrow> e < 1048575 \<Longrightarrow> e < s + n \<Longrightarrow>
    (\<And>x. 4096 * s + 4096 \<le> unat x \<Longrightarrow> unat x < 4096 * e + 4096 \<Longrightarrow> getPage x m = None) \<Longrightarrow>
    \<exists>r. map_space_down_loop m sz (of_nat (4096 * s)) (of_nat (4096 * e)) = Some r \<and> highest_free m (4096 * e) (unat sz) r"
proof (induction s arbitrary: e)
  case 0
  have "\<not> region_free m p (unat sz)" if p: "0 < p" "4096 dvd p" "p + unat sz \<le> 4096 * e + 4096" for p
  proof -
    obtain k where "p = 4096 * k" using p(2) by (elim dvdE)
    then show ?thesis using p(1,3) 0(3) sz(1) by simp
  qed
  then show ?case by (subst map_space_down_loop.simps) (simp add: highest_free_def)
next
  case (Suc s)
  let ?s = "of_nat (4096 * Suc s) :: 32 word" and ?e = "of_nat (4096 * e) :: 32 word"
  have u: "unat ?s = 4096 * Suc s" "unat ?e = 4096 * e" "unat (of_nat (4096 * (e - Suc s) + 4096) :: 32 word) = 4096 * (e - Suc s + 1)"
    using of_nat_page [of "Suc s"] of_nat_page [of e] of_nat_page [of "e - Suc s + 1"] Suc.prems(1,2) by simp_all
  have ne: "?s \<noteq> 0" using u(1) by auto
  have pre: "?s - PageSize = of_nat (4096 * s)" by simp
  have diff: "?e - ?s + PageSize = of_nat (4096 * (e - Suc s) + 4096)"
    using Suc.prems(1) by (simp add: of_nat_diff algebra_simps)
  show ?case
  proof (cases "getPage ?s m = None")
    case mapped: False
    have "\<not> region_free m p (unat sz)" if p: "p + unat sz \<le> 4096 * e + 4096" "4096 * s + 4096 < p + unat sz" "4096 dvd p" for p
    proof -
      obtain k where "p = 4096 * k" using p(3) by (elim dvdE)
      then have in_p: "p \<le> unat ?s" "unat ?s < p + unat sz" using p(1,2) Suc.prems(1,3) sz(1) u(1) by simp_all
      show ?thesis
      proof
        assume "region_free m p (unat sz)"
        then have "p \<le> unat ?s \<and> unat ?s < p + unat sz \<longrightarrow> getPage ?s m = None" unfolding region_free_def by (elim conjE) (erule spec)
        then show False using mapped in_p by simp
      qed
    qed
    moreover obtain r where r: "map_space_down_loop m sz (of_nat (4096 * s)) (of_nat (4096 * s)) = Some r" "highest_free m (4096 * s) (unat sz) r"
      using Suc.IH [of s] Suc.prems(1,2) sz(2) by auto
    ultimately have "highest_free m (4096 * e) (unat sz) r" using Suc.prems(1) by (intro highest_free_skip [OF r(2)]) simp_all
    moreover have "map_space_down_loop m sz ?s ?e = Some r"
      using r(1) mapped ne unfolding pre [symmetric] by (subst map_space_down_loop.simps) simp
    ultimately show ?thesis by blast
  next
    case True
    have "getPage x m = getPage ?s m" if "4096 * Suc s \<le> unat x" "unat x < 4096 * Suc s + 4096" for x
    proof -
      have "unat x div 4096 = Suc s" using that by simp
      then have "page_tag x = page_tag ?s" unfolding page_tag_eq_iff u(1) by simp
      then show ?thesis by (simp add: getPage_def)
    qed
    then have free: "getPage x m = None" if "4096 * Suc s \<le> unat x" "unat x < 4096 * e + 4096" for x
      using True Suc.prems(4) [of x] that by (cases "unat x < 4096 * Suc s + 4096") auto
    show ?thesis
    proof (cases "e - Suc s + 1 = n")
      case eq: True
      have "sz = of_nat (4096 * (e - Suc s) + 4096)" using u(3) sz(1) eq by (metis word_unat_eq_iff)
      then have "map_space_down_loop m sz ?s ?e = Some ?s" using True ne diff by (subst map_space_down_loop.simps) simp
      moreover have "4096 * Suc s + unat sz = 4096 * e + 4096" using eq sz(1) Suc.prems(1) by simp
      then have "region_free m (4096 * Suc s) (unat sz)" "4096 * Suc s + unat sz \<le> 4096 * e + 4096"
        using free Suc.prems(2) unfolding region_free_def by simp_all
      then have "highest_free m (4096 * e) (unat sz) ?s"
        using \<open>4096 * Suc s + unat sz = 4096 * e + 4096\<close> unfolding highest_free_def by (intro disjI2 exI [of _ "4096 * Suc s"]) auto
      ultimately show ?thesis by blast
    next
      case False
      then have "of_nat (4096 * (e - Suc s) + 4096) \<noteq> sz" "of_nat (4096 * (e - Suc s) + 4096) < sz" "e < s + n"
        using u(3) sz(1) Suc.prems(1,3) by (auto simp: word_less_nat_alt)
      then have "map_space_down_loop m sz ?s ?e = map_space_down_loop m sz (of_nat (4096 * s)) ?e"
        using True ne diff pre by (subst map_space_down_loop.simps) simp
      moreover have "\<exists>r. map_space_down_loop m sz (of_nat (4096 * s)) ?e = Some r \<and> highest_free m (4096 * e) (unat sz) r"
        by (rule Suc.IH) (use Suc.prems(1,2) \<open>e < s + n\<close> free in \<open>simp_all del: of_nat_mult\<close>)
      ultimately show ?thesis by simp
    qed
  qed
qed

section \<open>Alignment\<close>

lemma round_up_run:
  assumes "unat al dvd 4096" "unat a \<le> 2 ^ 32 - 4096"
  obtains b where "round_up a al = Some b" "unat al dvd unat b" "unat a \<le> unat b" "unat b < unat a + unat al"
    "unat b \<le> 2 ^ 32 - 4096" "unat al dvd unat a \<Longrightarrow> b = a"
proof -
  let ?l = "unat al" and ?T = "2 ^ 32 - 4096 :: nat"
  let ?r = "(unat a + (?l - 1)) div ?l * ?l"
  have l: "0 < ?l" using assms(1) by (metis dvd_0_left_iff gr0I zero_neq_numeral)
  have "?l dvd ?T"
  proof -
    have "?T = 4096 * 1048575" by simp
    then show ?thesis using assms(1) dvd_mult2 by metis
  qed
  then obtain t where t: "?T = ?l * t" by (elim dvdE)
  obtain q r where qr: "unat a = ?l * q + r" "r < ?l" using div_mult_mod_eq [of "unat a" ?l] l by (metis mult.commute mod_less_divisor)
  have D: "(?l * u + v) div ?l = u" if "v < ?l" for u v using that by simp
  have rnd: "?r = (if r = 0 then ?l * q else ?l * Suc q)"
  proof (cases "r = 0")
    case True
    have "(?l * q + (?l - 1)) div ?l = q" using l by (intro D) simp
    then show ?thesis using True qr(1) by simp
  next
    case False
    have "unat a + (?l - 1) = ?l * Suc q + (r - 1)" "r - 1 < ?l" using qr False l by simp_all
    then have "(unat a + (?l - 1)) div ?l = Suc q" by (simp only: D)
    then show ?thesis using False by simp
  qed
  have le: "unat a \<le> ?r" "?r < unat a + ?l" "?l dvd ?r" "?l dvd unat a \<Longrightarrow> ?r = unat a"
    unfolding rnd using qr l by (auto simp: dvd_add_right_iff dest: nat_dvd_not_less)
  have "?r \<le> ?T"
  proof (cases "r = 0")
    case True
    then show ?thesis unfolding rnd using qr(1) assms(2) by simp
  next
    case False
    then have "?l * q < ?l * t" using qr(1) assms(2) t by simp
    then have "Suc q \<le> t" by simp
    then have "?l * Suc q \<le> ?T" unfolding t by (rule mult_le_mono2)
    then show ?thesis unfolding rnd using False by simp
  qed
  then have r32: "?r < 2 ^ 32" by simp
  then have u: "unat (of_nat ?r :: 32 word) = ?r" by (simp only: unat_of_nat take_bit_eq_mod) simp
  have "al \<noteq> 0" using l by auto
  then have "round_up a al = Some (of_nat ?r)" using r32 by (simp only: round_up_def Let_def if_False if_True)
  moreover have "unat al dvd unat a \<Longrightarrow> of_nat ?r = a" using le(4) u by (metis word_unat_eq_iff)
  ultimately show ?thesis using le(1-3) \<open>?r \<le> ?T\<close> u by (intro that [of "of_nat ?r"]) (simp_all only: u)
qed

section \<open>Allocation in a hole\<close>

definition allocs :: "chunks \<Rightarrow> 32 word \<Rightarrow> 32 word option" where
  "allocs V k = (case V k of Some c \<Rightarrow> if ch_is_allocated c then Some (ch_size c) else None | None \<Rightarrow> None)"

text \<open>The chunks that a pointer of size \<open>n\<close> at \<open>b\<close> leaves of a hole \<open>c\<close> at \<open>a\<close>.\<close>

definition pieces :: "32 word \<Rightarrow> chunk \<Rightarrow> 32 word \<Rightarrow> 32 word \<Rightarrow> chunks" where
  "pieces a c b n k = (if k = b then Some (a_pointer b n)
     else if k = a then Some (a_hole a (b - a))
     else if k = b + n \<and> unat b + unat n < stop c then Some (a_hole (b + n) (of_nat (stop c - (unat b + unat n))))
     else None)"

definition fits :: "chunk \<Rightarrow> 32 word \<Rightarrow> 32 word \<Rightarrow> bool" where
  "fits c b n \<longleftrightarrow> start c \<le> unat b \<and> unat b + unat n \<le> stop c"

lemma pieces_facts:
  assumes c: "chunk_ok a c" "\<not> ch_is_allocated c" and f: "fits c b n" "0 < unat n"
  shows "unat (b + n) = unat b + unat n" "unat (b - a) = unat b - unat a"
    "unat (of_nat (stop c - (unat b + unat n)) :: 32 word) = stop c - (unat b + unat n)"
    "unat a \<le> unat b" "unat b + unat n \<le> stop c" "stop c = unat a + unat (ch_size c)"
    "unat a mod 4096 + unat (ch_size c) \<le> 4096" "stop c \<le> 2 ^ 32 - 4096"
proof -
  have s: "unat a = start c" using start_at [OF c(1)] by simp
  show "unat a \<le> unat b" "unat b + unat n \<le> stop c" using f(1) s by (simp_all add: fits_def)
  show "stop c = unat a + unat (ch_size c)" using s by (simp add: stop_def)
  show t: "unat a mod 4096 + unat (ch_size c) \<le> 4096" "stop c \<le> 2 ^ 32 - 4096"
    using c s by (auto simp: chunk_ok_def split: if_splits)
  have "unat b + unat n < 2 ^ 32" using t(2) \<open>unat b + unat n \<le> stop c\<close> by simp
  then show "unat (b + n) = unat b + unat n" by (subst unat_add_lem [THEN iffD1]) simp_all
  show "unat (b - a) = unat b - unat a" using \<open>unat a \<le> unat b\<close> by (simp add: unat_sub word_le_nat_alt)
  have "stop c - (unat b + unat n) < 2 ^ 32" using t(2) by simp
  then show "unat (of_nat (stop c - (unat b + unat n)) :: 32 word) = stop c - (unat b + unat n)"
    by (simp only: unat_of_nat take_bit_eq_mod) simp
qed

lemma in_one_page:
  assumes "(a :: nat) mod 4096 + n \<le> 4096" "a \<le> b" "b + r \<le> a + n" "0 < r"
  shows "b mod 4096 + r \<le> 4096" "b div 4096 = a div 4096"
proof -
  have a: "a = 4096 * (a div 4096) + a mod 4096" by simp
  then have b: "b = 4096 * (a div 4096) + (a mod 4096 + (b - a))" "a mod 4096 + (b - a) < 4096" using assms by linarith+
  then have "b div 4096 = a div 4096" by (metis add.commute div_less div_mult_self2 add_cancel_right_left zero_neq_numeral)
  moreover have "b mod 4096 = a mod 4096 + (b - a)" using b by (metis mod_less mod_mult_self4 mult.commute)
  ultimately show "b mod 4096 + r \<le> 4096" "b div 4096 = a div 4096" using assms by linarith+
qed

lemma pieces_ok:
  assumes c: "chunk_ok a c" "\<not> ch_is_allocated c" and f: "fits c b n" "0 < unat n"
  shows "pieces a c b n k = Some d \<Longrightarrow> chunk_ok k d" "apart (pieces a c b n)"
    "covered (pieces a c b n) x \<longleftrightarrow> covers c x"
proof -
  note F = pieces_facts [OF assms]
  have s: "start c = unat a" using start_at [OF c(1)] .
  have ab: "a = b \<longleftrightarrow> unat a = unat b" by (simp add: word_unat_eq_iff)
  have cov: "pieces a c b n k = Some d \<Longrightarrow> chunk_ok k d \<and> (covers d x \<longleftrightarrow>
      (if k = b then unat b \<le> x \<and> x < unat b + unat n else if k = a then unat a \<le> x \<and> x < unat b
       else unat b + unat n \<le> x \<and> x < stop c))" for k d x
  proof -
    assume k: "pieces a c b n k = Some d"
    consider "k = b" "d = a_pointer b n" | "k = a" "a \<noteq> b" "d = a_hole a (b - a)"
      | "k = b + n" "k \<noteq> a" "k \<noteq> b" "unat b + unat n < stop c" "d = a_hole (b + n) (of_nat (stop c - (unat b + unat n)))"
      using k by (auto simp: pieces_def split: if_splits)
    then show ?thesis
    proof cases
      case 1
      have "unat b mod 4096 + unat n \<le> 4096" using in_one_page [OF F(7), of "unat b" "unat n"] F f(2) by simp
      then show ?thesis using 1 F f(2) by (simp add: chunk_ok_def covers_def start_def stop_def)
    next
      case 2
      have lt: "unat a < unat b" using 2(2) F(4) ab by simp
      have "unat a mod 4096 + (unat b - unat a) \<le> 4096" using in_one_page [OF F(7), of "unat a" "unat b - unat a"] F lt by simp
      then show ?thesis using 2 F f(2) lt by (simp add: chunk_ok_def covers_def start_def stop_def)
    next
      case 3
      have "(unat b + unat n) mod 4096 + (stop c - (unat b + unat n)) \<le> 4096"
        using in_one_page [OF F(7), of "unat b + unat n" "stop c - (unat b + unat n)"] F 3(4) by simp
      then show ?thesis using 3 F by (simp add: chunk_ok_def covers_def start_def stop_def [of "a_hole _ _"])
    qed
  qed
  then show "pieces a c b n k = Some d \<Longrightarrow> chunk_ok k d" by blast
  show "apart (pieces a c b n)"
    unfolding apart_def
  proof (intro allI impI)
    fix k d k' d' x
    assume h: "pieces a c b n k = Some d \<and> covers d x \<and> pieces a c b n k' = Some d' \<and> covers d' x"
    have "k \<in> {a, b, b + n}" "k' \<in> {a, b, b + n}" using h by (auto simp: pieces_def split: if_splits)
    moreover have "if k = b then unat b \<le> x \<and> x < unat b + unat n else if k = a then unat a \<le> x \<and> x < unat b
       else unat b + unat n \<le> x \<and> x < stop c" using cov [of k d x] h by blast
    moreover have "if k' = b then unat b \<le> x \<and> x < unat b + unat n else if k' = a then unat a \<le> x \<and> x < unat b
       else unat b + unat n \<le> x \<and> x < stop c" using cov [of k' d' x] h by blast
    ultimately show "k = k'" by (auto split: if_splits)
  qed
  show "covered (pieces a c b n) x \<longleftrightarrow> covers c x"
  proof
    assume "covered (pieces a c b n) x"
    then obtain k d where d: "pieces a c b n k = Some d" "covers d x" unfolding covered_def by blast
    then have "if k = b then unat b \<le> x \<and> x < unat b + unat n else if k = a then unat a \<le> x \<and> x < unat b
       else unat b + unat n \<le> x \<and> x < stop c" using cov by blast
    then show "covers c x" using F s by (auto simp: covers_def split: if_splits)
  next
    assume x: "covers c x"
    then have x: "unat a \<le> x" "x < stop c" by (simp_all add: covers_def s)
    consider "x < unat b" | "unat b \<le> x" "x < unat b + unat n" | "unat b + unat n \<le> x" by linarith
    then obtain k d where "pieces a c b n k = Some d" "if k = b then unat b \<le> x \<and> x < unat b + unat n
        else if k = a then unat a \<le> x \<and> x < unat b else unat b + unat n \<le> x \<and> x < stop c"
    proof cases
      case 1
      then have "a \<noteq> b" using x(1) by auto
      then show ?thesis using 1 x that [of a "a_hole a (b - a)"] by (simp add: pieces_def)
    next
      case 2
      then show ?thesis using that [of b "a_pointer b n"] by (simp add: pieces_def)
    next
      case 3
      have "b + n \<noteq> b" "b + n \<noteq> a" using F f(2) by (auto simp: word_unat_eq_iff)
      then show ?thesis using 3 x that [of "b + n" "a_hole (b + n) (of_nat (stop c - (unat b + unat n)))"] by (simp add: pieces_def)
    qed
    then show "covered (pieces a c b n) x" using cov unfolding covered_def by blast
  qed
qed

lemma disjoint_key:
  assumes "layout V m" "V a = Some c" "covers c (unat k)" "k \<noteq> a"
  shows "V k = None"
proof (rule ccontr)
  assume "V k \<noteq> None"
  then obtain d where "V k = Some d" by blast
  then have "covers d (unat k)" using covers_start start_at layoutD(1) [OF assms(1)] by metis
  then show False using layoutD(2) [OF assms(1,2,3) \<open>V k = Some d\<close>] assms(4) by simp
qed

lemma AllocateIn_run:
  assumes ok: "mgr_ok mg" "layout (chunk_at mg) m" "(a, i) \<in> set (mg_chunks mg)" "chunk_at mg a = Some c" "\<not> ch_is_allocated c"
    and b: "getNextAlignedAddress a al = Some b" and f: "fits c b n" "0 < unat n"
  obtains mg' where "AllocateIn i n al mg = Some (mg', b)" "mgr_ok mg'"
    "\<And>k d. chunk_at mg' k = Some d \<longleftrightarrow> pieces a c b n k = Some d \<or> k \<noteq> a \<and> chunk_at mg k = Some d"
proof -
  let ?V = "chunk_at mg"
  have c: "chunk_ok a c" using layoutD(1) [OF ok(2,4)] .
  note F = pieces_facts [OF c ok(5) f]
  have s: "start c = unat a" "ch_address c = a" using start_at [OF c] c by (simp_all add: chunk_ok_def)
  have h: "mg_heap mg i = Some c" using chunk_at_heap [OF ok(3,1)] ok(4) by simp
  obtain mg1 where mg1: "RemoveHole i mg = Some mg1" "mgr_ok mg1" "chunk_at mg1 = ?V(a := None)"
    by (rule RemoveHole_run [OF ok(1,3,4,5)])
  let ?h1 = "b - a" and ?h2 = "ch_size c - n - (b - a)"
  have h2: "unat ?h2 = stop c - (unat b + unat n)"
  proof -
    have "unat (ch_size c - n) = unat (ch_size c) - unat n" using F by (intro unat_sub) (simp add: word_le_nat_alt)
    moreover have "unat (ch_size c - n - (b - a)) = unat (ch_size c - n) - unat (b - a)"
      using F calculation by (intro unat_sub) (simp add: word_le_nat_alt)
    ultimately show ?thesis using F by simp
  qed
  then have h2w: "?h2 = of_nat (stop c - (unat b + unat n))" using F(3) by (metis word_unat_eq_iff)
  have none: "?V k = None" if "covers c (unat k)" "k \<noteq> a" for k by (rule disjoint_key [OF ok(2,4) that])
  define W1 where "W1 = (if a = b then ?V(a := None) else ?V(a \<mapsto> a_hole a (b - a)))"
  obtain mg2 where mg2: "(if 0 < ?h1 then map_option fst (CreateHole a ?h1 mg1) else Some mg1) = Some mg2" "mgr_ok mg2" "chunk_at mg2 = W1"
  proof (cases "a = b")
    case True
    then show ?thesis using that [of mg1] mg1 by (simp add: W1_def)
  next
    case False
    then have "0 < ?h1" by (simp add: word_gt_0)
    obtain mg2 where "CreateHole a ?h1 mg1 = Some (mg2, mg_next mg1)" "mgr_ok mg2" "chunk_at mg2 = (chunk_at mg1)(a \<mapsto> a_hole a ?h1)"
      using CreateHole_run [OF mg1(2), of a ?h1] mg1(3) by (metis fun_upd_same)
    then show ?thesis using that [of mg2] \<open>0 < ?h1\<close> False mg1(3) by (simp add: W1_def)
  qed
  define W2 where "W2 = (if stop c = unat b + unat n then W1 else W1(b + n \<mapsto> a_hole (b + n) ?h2))"
  have nb: "b + n \<noteq> b" "b + n \<noteq> a" using F f(2) by (auto simp: word_unat_eq_iff)
  have addr: "a + ?h1 + n = b + n" by simp
  obtain mg3 where mg3: "(if 0 < ?h2 then map_option fst (CreateHole (b + n) ?h2 mg2) else Some mg2) = Some mg3" "mgr_ok mg3" "chunk_at mg3 = W2"
  proof (cases "stop c = unat b + unat n")
    case True
    then have "?h2 = 0" using h2 by (simp add: unat_eq_zero)
    then show ?thesis using that [of mg2] mg2 True by (simp add: W2_def)
  next
    case False
    then have pos: "0 < ?h2" using h2 F(5) by (simp add: word_less_nat_alt)
    have "covers c (unat (b + n))" using False F s by (simp add: covers_def)
    then have "W1 (b + n) = None" using none nb by (simp add: W1_def)
    then obtain mg3 where "CreateHole (b + n) ?h2 mg2 = Some (mg3, mg_next mg2)" "mgr_ok mg3" "chunk_at mg3 = W1(b + n \<mapsto> a_hole (b + n) ?h2)"
      using CreateHole_run [OF mg2(2), of "b + n" ?h2] mg2(3) by metis
    then show ?thesis using that [of mg3] pos False by (simp add: W2_def)
  qed
  have "covers c (unat b)" using F f(2) s by (simp add: covers_def)
  then have "W2 b = None" using none [of b] nb by (simp add: W1_def W2_def)
  then obtain mg4 where mg4: "CreatePointer b n mg3 = Some (mg4, mg_next mg3)" "mgr_ok mg4" "chunk_at mg4 = W2(b \<mapsto> a_pointer b n)"
    using CreatePointer_run [OF mg3(2), of b n] mg3(3) by metis
  have "AllocateIn i n al mg = Some (mg4, b)"
    unfolding AllocateIn_def h Let_def bind.bind_lunit s(2) mg1(1) b mg2(1) addr mg3(1) mg4(1) by simp
  moreover have "chunk_at mg4 k = Some d \<longleftrightarrow> pieces a c b n k = Some d \<or> k \<noteq> a \<and> ?V k = Some d" for k d
  proof -
    have o: "?V k = None" if p: "pieces a c b n k \<noteq> None" "k \<noteq> a"
    proof -
      obtain d where d: "pieces a c b n k = Some d" using p(1) by blast
      then have "covers d (unat k)" using pieces_ok(1) [OF c ok(5) f] covers_start start_at by metis
      then have "covers c (unat k)" using pieces_ok(3) [OF c ok(5) f] d unfolding covered_def by blast
      then show ?thesis using none p(2) by blast
    qed
    consider "k = b" | "k = a" "k \<noteq> b" | "k = b + n" | "k \<noteq> b" "k \<noteq> a" "k \<noteq> b + n" by blast
    then show ?thesis
    proof cases
      case 3
      then show ?thesis using nb o F(5) by (auto simp: mg4(3) W2_def W1_def pieces_def h2w)
    qed (use nb o in \<open>auto simp: mg4(3) W2_def W1_def pieces_def\<close>)
  qed
  ultimately show ?thesis using mg4(2) that by blast
qed

text \<open>What the allocation leaves: a settled layout and one more allocation.\<close>

definition almost_settled :: "chunks \<Rightarrow> 32 word \<Rightarrow> bool" where
  "almost_settled V a \<longleftrightarrow> (\<forall>k k'. \<not> meet V k k') \<and> (\<forall>k. k \<noteq> a \<longrightarrow> \<not> whole_hole V k)"

lemma meet_start:
  assumes "layout V m" "meet V k k'"
  obtains c c' where "V k = Some c" "V k' = Some c'" "\<not> ch_is_allocated c" "\<not> ch_is_allocated c'" "stop c = unat k'"
    "unat k div 4096 = unat k' div 4096" "start c' = unat k'" "start c = unat k"
proof -
  obtain c c' where h: "V k = Some c" "V k' = Some c'" "\<not> ch_is_allocated c" "\<not> ch_is_allocated c'" "stop c = start c'"
    "start c div 4096 = start c' div 4096" using assms(2) unfolding meet_def by blast
  moreover have "start c = unat k" "start c' = unat k'" using layoutD(1) [OF assms(1)] h(1,2) start_at by blast+
  ultimately show thesis using that by metis
qed

lemma meetI:
  assumes "layout V m" "V k = Some c" "V k' = Some c'" "\<not> ch_is_allocated c" "\<not> ch_is_allocated c'" "stop c = unat k'"
    "unat k div 4096 = unat k' div 4096"
  shows "meet V k k'"
  using assms(2-7) start_at [OF layoutD(1) [OF assms(1,2)]] start_at [OF layoutD(1) [OF assms(1,3)]] unfolding meet_def by metis

lemma pieces_settled:
  assumes V: "layout V m" "V a = Some c" "\<not> ch_is_allocated c" "almost_settled V a"
    and f: "fits c b n" "0 < unat n"
    and V': "\<And>k d. V' k = Some d \<longleftrightarrow> pieces a c b n k = Some d \<or> k \<noteq> a \<and> V k = Some d"
  shows "layout V' m" "settled V'" "allocs V' = (allocs V)(b \<mapsto> n)" "covers c (unat b)" "covered V' x \<longleftrightarrow> covered V x"
proof -
  have c: "chunk_ok a c" using layoutD(1) [OF V(1,2)] .
  note F = pieces_facts [OF c V(3) f] and P = pieces_ok [OF c V(3) f]
  have s: "start c = unat a" using start_at [OF c] .
  have r: "V' k = Some d \<longleftrightarrow> pieces a c b n k = Some d \<or> k \<notin> {a} \<and> V k = Some d" for k d using V' by simp
  have q: "covered (pieces a c b n) x \<longleftrightarrow> (\<exists>k \<in> {a}. \<exists>d. V k = Some d \<and> covers d x)" for x using P(3) V(2) by simp
  note R = layout_replace [OF V(1) r P(1,2) q]
  show L: "layout V' m" by (rule R(1))
  show "covered V' x \<longleftrightarrow> covered V x" by (rule R(2))
  show cb: "covers c (unat b)" using F f(2) s by (simp add: covers_def)
  have b: "V' b = Some (a_pointer b n)" using V' [of b] by (simp add: pieces_def)
  have hole: "k = a \<and> stop d = unat b \<or> k = b + n \<and> stop d = stop c \<or> k \<noteq> a \<and> V k = Some d"
    if h: "V' k = Some d" "\<not> ch_is_allocated d" for k d
  proof (cases "pieces a c b n k = Some d")
    case True
    then have "k = a \<and> d = a_hole a (b - a) \<or> k = b + n \<and> unat b + unat n < stop c \<and> d = a_hole (b + n) (of_nat (stop c - (unat b + unat n)))"
      using h(2) by (auto simp: pieces_def split: if_splits)
    then show ?thesis using F by (elim disjE) (simp_all add: stop_def [of "a_hole _ _"] start_def)
  qed (use h V' in blast)
  have "\<not> meet V' k k'" for k k'
  proof
    assume "meet V' k k'"
    then obtain d d' where d: "V' k = Some d" "V' k' = Some d'" "\<not> ch_is_allocated d" "\<not> ch_is_allocated d'" "stop d = unat k'"
        "unat k div 4096 = unat k' div 4096" "start d' = unat k'" "start d = unat k" by (rule meet_start [OF L])
    have "k' \<noteq> b" using d(2,4) b by auto
    have "k' \<noteq> b + n"
    proof
      assume "k' = b + n"
      then have sd: "stop d = unat b + unat n" using d(5) F(1) by simp
      have "covers d (unat b + unat n - 1)" using start_stop [OF layoutD(1) [OF L d(1)]] unfolding covers_def sd by linarith
      moreover have "covers (a_pointer b n) (unat b + unat n - 1)" using f(2) by (simp add: covers_def start_def stop_def)
      ultimately have "k = b" using layoutD(2) [OF L d(1) _ b] by blast
      then show False using d(1,3) b by auto
    qed
    then consider "k' = a" "k' \<noteq> b" | "k' \<noteq> a" "V k' = Some d'" using hole [OF d(2,4)] \<open>k' \<noteq> b\<close> by blast
    then show False
    proof cases
      case 1
      have "k \<noteq> a" using d(5,8) start_stop [OF layoutD(1) [OF L d(1)]] 1 by auto
      moreover have "k \<noteq> b + n" using d(5,8) start_stop [OF layoutD(1) [OF L d(1)]] 1 F by auto
      ultimately have "V k = Some d" using hole [OF d(1,3)] by blast
      then have "meet V k a" using meetI [OF V(1) _ V(2) d(3) V(3)] d(5,6) 1 by simp
      then show False using V(4) unfolding almost_settled_def by blast
    next
      case 2
      have "stop d \<noteq> unat b" using d(5) \<open>k' \<noteq> b\<close> by (simp add: word_unat_eq_iff)
      then consider "k = b + n" "stop d = stop c" | "k \<noteq> a" "V k = Some d" using hole [OF d(1,3)] by blast
      then show False
      proof cases
        case 1
        have lt: "unat b + unat n < stop c" using start_stop [OF layoutD(1) [OF L d(1)]] d(8) 1 F(1) by simp
        have "(unat b + unat n) div 4096 = unat a div 4096"
          using in_one_page(2) [OF F(7), of "unat b + unat n" 1] F lt by simp
        then have "unat a div 4096 = unat k' div 4096" using d(6) 1(1) F(1) by simp
        then have "meet V a k'" using meetI [OF V(1,2) 2(2) V(3) d(4)] d(5) 1(2) by simp
        then show False using V(4) unfolding almost_settled_def by blast
      next
        case 2
        then have "meet V k k'" using meetI [OF V(1) 2(2) \<open>V k' = Some d'\<close> d(3,4)] d(5,6) by simp
        then show False using V(4) unfolding almost_settled_def by blast
      qed
    qed
  qed
  moreover have "\<not> whole_hole V' k" for k
  proof
    assume "whole_hole V' k"
    then obtain d where d: "V' k = Some d" "\<not> ch_is_allocated d" "unat (ch_size d) = 4096" unfolding whole_hole_def by blast
    have sd: "start d = unat k" "stop d = unat k + 4096" using start_at [OF layoutD(1) [OF L d(1)]] d(3) by (simp_all add: stop_def)
    consider "k = a" "stop d = unat b" | "k = b + n" "stop d = stop c" | "k \<noteq> a" "V k = Some d" using hole [OF d(1,2)] by blast
    then show False
    proof cases
      case 3
      then show False using V(4) d unfolding almost_settled_def whole_hole_def by blast
    qed (use sd F f(2) in simp_all)
  qed
  ultimately show "settled V'" unfolding settled_def by blast
  have "allocs V' k = ((allocs V)(b \<mapsto> n)) k" for k
  proof (cases "k = b")
    case True
    then show ?thesis using b by (simp add: allocs_def)
  next
    case False
    have al: "allocs V' k = Some z \<longleftrightarrow> allocs V k = Some z" for z
    proof -
      have "allocs V' k = Some z \<longleftrightarrow> (\<exists>d. V' k = Some d \<and> ch_is_allocated d \<and> ch_size d = z)"
        "allocs V k = Some z \<longleftrightarrow> (\<exists>d. V k = Some d \<and> ch_is_allocated d \<and> ch_size d = z)"
        by (auto simp: allocs_def split: option.splits)
      moreover have "V' k = Some d \<longleftrightarrow> V k = Some d" if "ch_is_allocated d" for d
        using V' [of k d] False that V(2,3) by (cases "k = a") (auto simp: pieces_def split: if_splits)
      ultimately show ?thesis by blast
    qed
    then show ?thesis using False by (metis fun_upd_other not_Some_eq)
  qed
  then show "allocs V' = (allocs V)(b \<mapsto> n)" by blast
qed

section \<open>Merging holes\<close>

text \<open>In a page that has a chunk, another one begins where a chunk ends, and ends where it begins.\<close>

lemma chunk_page:
  assumes "chunk_ok k c" "unat (ch_size c) \<le> 4096" "covers c x"
  shows "x div 4096 = start c div 4096"
proof -
  have "start c mod 4096 + unat (ch_size c) \<le> 4096" using assms(1,2) by (simp add: chunk_ok_def)
  moreover have "start c \<le> x" "x + 1 \<le> start c + unat (ch_size c)" using assms(3) by (simp_all add: covers_def stop_def)
  ultimately show ?thesis using in_one_page(2) [of "start c" "unat (ch_size c)" x 1] by simp
qed

lemma covers_page:
  assumes "layout V m" "V k = Some c" "covers c x" "V a = Some d" "unat (ch_size d) \<le> 4096" "x div 4096 = start d div 4096"
  shows "unat (ch_size c) \<le> 4096 \<and> start c div 4096 = start d div 4096"
proof (cases "unat (ch_size c) \<le> 4096")
  case True
  then show ?thesis using chunk_page [OF layoutD(1) [OF assms(1,2)] _ assms(3)] assms(6) by simp
next
  case False
  then have "4096 dvd start c" "4096 dvd unat (ch_size c)" using layoutD(1) [OF assms(1,2)] by (simp_all add: chunk_ok_def)
  then have "covers c (start d)" using same_page_covers assms(3,6) by metis
  then have "k = a" using layoutD(2) [OF assms(1,2) _ assms(4)] covers_start [OF layoutD(1) [OF assms(1,4)]] by blast
  then show ?thesis using assms(2,4,5) False by simp
qed

lemma next_chunk:
  assumes V: "layout V m" "V a = Some c" "unat (ch_size c) \<le> 4096" "stop c mod 4096 \<noteq> 0"
  obtains k c' where "V k = Some c'" "unat k = stop c" "stop c div 4096 = unat a div 4096" "unat (ch_size c') \<le> 4096"
proof -
  have c: "chunk_ok a c" using layoutD(1) [OF V(1,2)] .
  note s = start_at [OF c]
  have fit: "start c mod 4096 + unat (ch_size c) \<le> 4096" "0 < unat (ch_size c)" using c V(3) by (simp_all add: chunk_ok_def)
  have "start c mod 4096 + unat (ch_size c) \<noteq> 4096"
  proof
    assume full: "start c mod 4096 + unat (ch_size c) = 4096"
    have S: "stop c = 4096 * q + 4096" if "start c = 4096 * q + r" "r + unat (ch_size c) = 4096" for q r
      using that by (simp add: stop_def)
    have "stop c = 4096 * (start c div 4096) + 4096" by (rule S [OF mult_div_mod_eq [symmetric] full])
    then show False using V(4) by simp
  qed
  then have "stop c div 4096 = start c div 4096"
    using in_one_page(2) [of "start c" "unat (ch_size c) + 1" "stop c" 1] fit by (simp add: stop_def)
  moreover have "covered V (start c)" using V(2) covers_start [OF c] unfolding covered_def by blast
  ultimately have page: "stop c div 4096 = start c div 4096" "covered V (stop c)" using layoutD(3) [OF V(1)] by blast+
  then obtain k c' where k: "V k = Some c'" "covers c' (stop c)" unfolding covered_def by blast
  have c': "chunk_ok k c'" using layoutD(1) [OF V(1) k(1)] .
  have "start c' = stop c"
  proof (rule ccontr)
    assume "start c' \<noteq> stop c"
    then have "covers c' (stop c - 1)" "covers c (stop c - 1)" using k(2) start_stop [OF c] unfolding covers_def by linarith+
    then have "k = a" using layoutD(2) [OF V(1) k(1) _ V(2)] by blast
    then show False using k V(2) by (simp add: covers_def)
  qed
  moreover have "unat (ch_size c') \<le> 4096" using covers_page [OF V(1) k V(2,3) page(1)] by simp
  ultimately show ?thesis using that [OF k(1)] start_at [OF c'] page(1) s by simp
qed

lemma previous_chunk:
  assumes V: "layout V m" "V a = Some c" "unat (ch_size c) \<le> 4096" "unat a mod 4096 \<noteq> 0"
  obtains k c' where "V k = Some c'" "stop c' = unat a" "unat k div 4096 = unat a div 4096" "unat (ch_size c') \<le> 4096"
proof -
  have c: "chunk_ok a c" using layoutD(1) [OF V(1,2)] .
  note s = start_at [OF c]
  have pg: "(unat a - 1) div 4096 = start c div 4096"
  proof -
    have "unat a = 4096 * (unat a div 4096) + unat a mod 4096" "unat a mod 4096 < 4096" by simp_all
    then have "unat a - 1 = 4096 * (unat a div 4096) + (unat a mod 4096 - 1)" "unat a mod 4096 - 1 < 4096" using V(4) by linarith+
    moreover have "(4096 * u + v) div 4096 = u" if "v < 4096" for u v :: nat using that by simp
    ultimately show ?thesis using s by presburger
  qed
  have pos: "0 < unat a" using V(4) by (cases "unat a") simp_all
  have "covered V (start c)" using V(2) covers_start [OF c] unfolding covered_def by blast
  then have "covered V (unat a - 1)" using layoutD(3) [OF V(1) _ pg] by blast
  then obtain k c' where k: "V k = Some c'" "covers c' (unat a - 1)" unfolding covered_def by blast
  have c': "chunk_ok k c'" using layoutD(1) [OF V(1) k(1)] .
  have "k \<noteq> a"
  proof
    assume "k = a"
    then have "covers c (unat a - 1)" using k V(2) by simp
    then show False using pos s unfolding covers_def by linarith
  qed
  have "stop c' = unat a"
  proof (rule ccontr)
    assume "stop c' \<noteq> unat a"
    then have "covers c' (start c)" using k(2) s pos unfolding covers_def by linarith
    then show False using layoutD(2) [OF V(1) k(1) _ V(2) covers_start [OF c]] \<open>k \<noteq> a\<close> by blast
  qed
  moreover note cp = covers_page [OF V(1) k V(2,3) pg]
  ultimately show ?thesis using that [OF k(1)] start_at [OF c'] s by simp
qed

lemma meet_sizes:
  assumes "layout V m" "V k = Some c" "\<not> ch_is_allocated c"
  shows "unat (ch_size c) \<le> 4096" "start c mod 4096 + unat (ch_size c) \<le> 4096"
  using layoutD(1) [OF assms(1,2)] assms(3) by (auto simp: chunk_ok_def split: if_splits)

lemma Merge2Holes_run:
  assumes ok: "mgr_ok mg" "layout (chunk_at mg) m" "(a, i) \<in> set (mg_chunks mg)" "(b, j) \<in> set (mg_chunks mg)"
    and V: "meet (chunk_at mg) a b"
  obtains mg' n where "Merge2Holes i j mg = Some mg'" "mgr_ok mg'" "layout (chunk_at mg') m"
    "chunk_at mg' = ((chunk_at mg)(b := None))(a \<mapsto> a_hole a n)" "(a, mg_next mg) \<in> set (mg_chunks mg')"
    "\<And>k k'. meet (chunk_at mg') k k' \<Longrightarrow> meet (chunk_at mg) (if k = a then b else k) k'"
    "\<And>k. k \<noteq> a \<Longrightarrow> whole_hole (chunk_at mg') k \<Longrightarrow> whole_hole (chunk_at mg) k"
    "allocs (chunk_at mg') = allocs (chunk_at mg)" "\<And>x. covered (chunk_at mg') x \<longleftrightarrow> covered (chunk_at mg) x"
proof -
  let ?V = "chunk_at mg"
  obtain c1 c2 where c: "?V a = Some c1" "?V b = Some c2" "\<not> ch_is_allocated c1" "\<not> ch_is_allocated c2" "stop c1 = unat b"
      "unat a div 4096 = unat b div 4096" "start c2 = unat b" "start c1 = unat a" by (rule meet_start [OF ok(2) V])
  have ck: "chunk_ok a c1" "chunk_ok b c2" using layoutD(1) [OF ok(2)] c(1,2) by blast+
  have h: "mg_heap mg i = Some c1" "mg_heap mg j = Some c2" using chunk_at_heap [OF _ ok(1)] ok(3,4) c(1,2) by metis+
  have addr: "ch_address c1 = a" "ch_address c2 = b" using ck by (simp_all add: chunk_ok_def)
  note sz = meet_sizes [OF ok(2) c(1,3)] meet_sizes [OF ok(2) c(2,4)]
  let ?n = "ch_size c1 + ch_size c2"
  have st: "stop c1 = unat a + unat (ch_size c1)" "stop c2 = unat b + unat (ch_size c2)" using c(7,8) by (simp_all add: stop_def)
  have n: "unat ?n = unat (ch_size c1) + unat (ch_size c2)"
    using sz(1,3) by (subst unat_add_lem [THEN iffD1]) simp_all
  have fit: "unat a mod 4096 + unat ?n \<le> 4096"
  proof -
    have "unat b mod 4096 = unat a mod 4096 + unat (ch_size c1)"
    proof -
      have "unat a = 4096 * (unat a div 4096) + unat a mod 4096" "unat b = 4096 * (unat b div 4096) + unat b mod 4096" by simp_all
      then show ?thesis using st(1) c(5) unfolding c(6) by linarith
    qed
    then show ?thesis using sz(4) c(7) n by simp
  qed
  let ?h = "a_hole a ?n"
  have sh: "start ?h = unat a" "stop ?h = stop c2" using st c(5) n by (simp_all add: start_def stop_def)
  have hk: "chunk_ok a ?h" using fit sh n ck sz(1,3) by (simp add: chunk_ok_def)
  have ne: "a \<noteq> b" using start_stop [OF ck(1)] c(5,8) by auto
  have sum: "ch_address c1 + ch_size c1 = ch_address c2"
  proof -
    have "unat (a + ch_size c1) = unat b"
      using st(1) c(5) unat32 [of b] by (subst unat_add_lem [THEN iffD1]) simp_all
    then show ?thesis unfolding addr by (simp add: word_unat_eq_iff)
  qed
  obtain mg1 where mg1: "RemoveHole j mg = Some mg1" "mgr_ok mg1" "chunk_at mg1 = ?V(b := None)"
      "set (mg_chunks mg1) = set (mg_chunks mg) - {(b, j)}" by (rule RemoveHole_run [OF ok(1,4) c(2,4)])
  have "(a, i) \<in> set (mg_chunks mg1)" "chunk_at mg1 a = Some c1" using mg1(3,4) ok(3) ne c(1) by simp_all
  then obtain mg2 where mg2: "RemoveHole i mg1 = Some mg2" "mgr_ok mg2" "chunk_at mg2 = (chunk_at mg1)(a := None)"
    using RemoveHole_run [OF mg1(2) _ _ c(3)] by metis
  have nxt: "mg_next mg2 = mg_next mg" using mg1(1) mg2(1) by (auto simp: RemoveHole_def c_assert_def split: bind_splits if_splits)
  obtain mg3 where mg3: "CreateHole a ?n mg2 = Some (mg3, mg_next mg2)" "mgr_ok mg3" "chunk_at mg3 = (chunk_at mg2)(a \<mapsto> ?h)"
      "set (mg_chunks mg3) = insert (a, mg_next mg2) (set (mg_chunks mg2))"
    using CreateHole_run [OF mg2(2), of a ?n] mg2(3) by (metis fun_upd_same)
  have V3: "chunk_at mg3 = (?V(b := None))(a \<mapsto> ?h)" using mg3(3) mg2(3) mg1(3) by simp
  have run: "Merge2Holes i j mg = Some mg3"
    unfolding Merge2Holes_def h bind.bind_lunit using c(3,4) sum mg1(1) mg2(1) mg3(1) addr by simp
  have other: "chunk_at mg3 k = Some d \<longleftrightarrow> k = a \<and> d = ?h \<or> k \<noteq> a \<and> k \<noteq> b \<and> ?V k = Some d" for k d
    using ne by (auto simp: V3)
  have r: "chunk_at mg3 k = Some d \<longleftrightarrow> [a \<mapsto> ?h] k = Some d \<or> k \<notin> {a, b} \<and> ?V k = Some d" for k d
    unfolding other by auto
  have r1: "chunk_ok k d" if "[a \<mapsto> ?h] k = Some d" for k d using that hk by (simp split: if_splits)
  have r2: "apart [a \<mapsto> ?h]" unfolding apart_def by (simp split: if_splits)
  have "covers ?h x \<longleftrightarrow> covers c1 x \<or> covers c2 x" for x
    unfolding covers_def sh c(7,8) using c(5) start_stop [OF ck(1)] start_stop [OF ck(2)] c(7,8) by linarith
  then have r3: "covered [a \<mapsto> ?h] x \<longleftrightarrow> (\<exists>k \<in> {a, b}. \<exists>d. ?V k = Some d \<and> covers d x)" for x
    using c(1,2) by (auto simp: covered_def)
  note R = layout_replace [OF ok(2) r r1 r2 r3]
  have L: "layout (chunk_at mg3) m" by (rule R(1))
  have meets: "meet ?V (if k = a then b else k) k'" if M: "meet (chunk_at mg3) k k'" for k k'
  proof -
    obtain d d' where d: "chunk_at mg3 k = Some d" "chunk_at mg3 k' = Some d'" "\<not> ch_is_allocated d" "\<not> ch_is_allocated d'" "stop d = unat k'"
        "unat k div 4096 = unat k' div 4096" "start d' = unat k'" "start d = unat k" by (rule meet_start [OF L M])
    have k': "?V k' = Some (if k' = a then c1 else d')" using d(2) c(1) by (auto simp: V3 split: if_splits)
    have al: "\<not> ch_is_allocated (if k' = a then c1 else d')" using c(3) d(4) by simp
    show ?thesis
    proof (cases "k = a")
      case True
      then have "d = ?h" using d(1) by (simp add: V3)
      then have "stop c2 = unat k'" using d(5) sh by simp
      moreover have "unat b div 4096 = unat k' div 4096" using d(6) c(6) True by simp
      ultimately show ?thesis using meetI [OF ok(2) c(2) k' c(4) al] True by simp
    next
      case False
      then have "?V k = Some d" using d(1) by (auto simp: V3 split: if_splits)
      then show ?thesis using meetI [OF ok(2) _ k' d(3) al d(5,6)] False by simp
    qed
  qed
  have wholes: "whole_hole ?V k" if "k \<noteq> a" "whole_hole (chunk_at mg3) k" for k
    using that unfolding whole_hole_def by (auto simp: V3 split: if_splits)
  have "allocs (chunk_at mg3) = allocs ?V" using c(1-4) by (auto simp: allocs_def V3 fun_eq_iff)
  moreover have "(a, mg_next mg) \<in> set (mg_chunks mg3)" using mg3(4) nxt by simp
  ultimately show ?thesis using that [OF run mg3(2) L V3 _ meets wholes _ R(2)] by blast
qed

end
