(* ===== verification/SimManagerOps.thy ===== *)
theory SimManagerOps
  imports SimManagerRun
begin

text \<open>
  The calls of the allocator on a consistent state: the merges of holes and the release of a page
  that \<^verbatim>\<open>Free\<close> makes, and the two ways in which \<^verbatim>\<open>Allocate\<close> serves a request of at most a page.
\<close>

section \<open>Merging and releasing\<close>

lemma same_page: "isInSamePage a b \<longleftrightarrow> unat a div 4096 = unat b div 4096"
  by (simp add: isInSamePage_def word_unat_eq_iff unat_div)

text \<open>Two chunks of a page, in the order of their addresses, are separated by the end of the first.\<close>

lemma stop_in_page:
  assumes "layout V m" "V a = Some c" "\<not> ch_is_allocated c" "stop c \<le> unat k" "unat a div 4096 = unat k div 4096"
  shows "stop c mod 4096 \<noteq> 0"
proof
  assume "stop c mod 4096 = 0"
  then obtain s where s: "stop c = 4096 * s" by (elim dvdE [OF mod_0_imp_dvd])
  have "unat a < 4096 * s" using start_stop [OF layoutD(1) [OF assms(1,2)]] start_at [OF layoutD(1) [OF assms(1,2)]] s by simp
  then have "unat a div 4096 < s" by (simp add: less_mult_imp_div_less)
  moreover have "s \<le> unat k div 4096" using assms(4) s by simp
  ultimately show False using assms(5) by simp
qed

definition hole_at :: "chunks \<Rightarrow> 32 word \<Rightarrow> bool" where
  "hole_at V a \<longleftrightarrow> (\<exists>c. V a = Some c \<and> \<not> ch_is_allocated c)"

definition same_chunks :: "chunks \<Rightarrow> chunks \<Rightarrow> bool" where
  "same_chunks V V' \<longleftrightarrow> allocs V' = allocs V \<and> (\<forall>x. covered V' x \<longleftrightarrow> covered V x)"

lemma same_chunks_refl: "same_chunks V V"
  by (simp add: same_chunks_def)

lemma merge_forward_run:
  assumes ok: "mgr_ok mg" "layout (chunk_at mg) m" "(a, i) \<in> set (mg_chunks mg)" "hole_at (chunk_at mg) a"
    and only: "\<And>k k'. meet (chunk_at mg) k k' \<Longrightarrow> k = a \<or> k' = a" "\<And>k. whole_hole (chunk_at mg) k \<Longrightarrow> k = a"
  obtains mg' j where "merge_forward i a mg = Some mg'" "mgr_ok mg'" "layout (chunk_at mg') m" "(a, j) \<in> set (mg_chunks mg')"
    "hole_at (chunk_at mg') a" "\<And>k k'. meet (chunk_at mg') k k' \<Longrightarrow> k' = a" "\<And>k. whole_hole (chunk_at mg') k \<Longrightarrow> k = a"
    "same_chunks (chunk_at mg) (chunk_at mg')"
proof -
  let ?V = "chunk_at mg"
  obtain c where c: "?V a = Some c" "\<not> ch_is_allocated c" using ok(4) unfolding hole_at_def by blast
  have ck: "chunk_ok a c" using layoutD(1) [OF ok(2) c(1)] .
  obtain zs where zs: "lower_bound a (mg_chunks mg) = (a, i) # zs" "sorted_wrt (<) (map fst ((a, i) # zs))"
  proof -
    obtain ys zs where "mg_chunks mg = ys @ (a, i) # zs" "lower_bound a (mg_chunks mg) = (a, i) # zs"
      using sorted_split [OF mgr_okD(1) [OF ok(1)] ok(3)] by blast
    then show thesis using mgr_okD(1) [OF ok(1)] by (intro that [of zs]) (simp_all add: sorted_wrt_append)
  qed
  have after: "(k, j) \<in> set zs" if h: "(k, j) \<in> set (mg_chunks mg)" "a < k" for k j
    using lower_bound_set(1) [OF mgr_okD(1) [OF ok(1)], of k j a] h zs(1) by auto
  have key: "\<exists>j. (k, j) \<in> set zs" if h: "?V k = Some d" "a < k" for k d
    using chunk_at_Some [OF ok(1), of k d] h after by blast
  show thesis
  proof (cases "\<exists>b. meet ?V a b")
    case True
    then obtain b where b: "meet ?V a b" ..
    then obtain d where d: "?V b = Some d" "\<not> ch_is_allocated d" "stop c = unat b" "unat a div 4096 = unat b div 4096"
      using meet_start [OF ok(2) b] c(1) by (metis option.inject)
    have ab: "a < b" using d(3) start_stop [OF ck] start_at [OF ck] by (simp add: word_less_nat_alt)
    then obtain k j zs' where z: "zs = (k, j) # zs'" using key [OF d(1)] by (cases zs) auto
    have kj: "(k, j) \<in> set (mg_chunks mg)" "a < k" using lower_bound_set(1) [OF mgr_okD(1) [OF ok(1)], of k j a] zs z by auto
    obtain dk where dk: "?V k = Some dk" "mg_heap mg j = Some dk" using mgr_okD(3) [OF ok(1) kj(1)] chunk_at_heap [OF kj(1) ok(1)] by auto
    have "stop c \<le> unat k" using chunk_order [OF ok(2) c(1) dk(1) kj(2)] start_at [OF layoutD(1) [OF ok(2) dk(1)]] by simp
    moreover have "k \<le> b" using key [OF d(1) ab] zs(2) z by (auto intro: less_imp_le)
    ultimately have kb: "k = b" using d(3) by (simp add: word_le_nat_alt word_unat_eq_iff)
    obtain mg' n where mg': "Merge2Holes i j mg = Some mg'" "mgr_ok mg'" "layout (chunk_at mg') m"
        "chunk_at mg' = (?V(b := None))(a \<mapsto> a_hole a n)" "(a, mg_next mg) \<in> set (mg_chunks mg')"
        "\<And>k k'. meet (chunk_at mg') k k' \<Longrightarrow> meet ?V (if k = a then b else k) k'"
        "\<And>k. k \<noteq> a \<Longrightarrow> whole_hole (chunk_at mg') k \<Longrightarrow> whole_hole ?V k"
        "allocs (chunk_at mg') = allocs ?V" "\<And>x. covered (chunk_at mg') x \<longleftrightarrow> covered ?V x"
      using Merge2Holes_run [OF ok(1-3) _ b] kj(1) kb by metis
    have run: "merge_forward i a mg = Some mg'"
      using zs(1) z dk d mg'(1) kb chunk_at_address [OF ok(1) d(1)] by (simp add: merge_forward_def same_page)
    have "k' = a" if M: "meet (chunk_at mg') k k'" for k k'
    proof (cases "k = a")
      case True
      then have m: "meet ?V b k'" using mg'(6) [OF M] by simp
      then show ?thesis using only(1) [OF m] ab by auto
    next
      case False
      then show ?thesis using only(1) [of k k'] mg'(6) [OF M] by simp
    qed
    moreover have "k = a" if "whole_hole (chunk_at mg') k" for k using mg'(7) [OF _ that] only(2) by blast
    moreover have "hole_at (chunk_at mg') a" by (simp add: hole_at_def mg'(4))
    moreover have "same_chunks ?V (chunk_at mg')" using mg'(8,9) by (simp add: same_chunks_def)
    ultimately show ?thesis using that [OF run mg'(2,3,5)] by blast
  next
    case False
    have run: "merge_forward i a mg = Some mg"
    proof (cases zs)
      case (Cons e zs')
      obtain k j where e: "e = (k, j)" by fastforce
      have kj: "(k, j) \<in> set (mg_chunks mg)" "a < k"
        using lower_bound_set(1) [OF mgr_okD(1) [OF ok(1)], of k j a] zs Cons e by auto
      obtain dk where dk: "?V k = Some dk" "mg_heap mg j = Some dk" "ch_address dk = k"
        using mgr_okD(3) [OF ok(1) kj(1)] chunk_at_heap [OF kj(1) ok(1)] by auto
      have le: "stop c \<le> unat k" using chunk_order [OF ok(2) c(1) dk(1) kj(2)] start_at [OF layoutD(1) [OF ok(2) dk(1)]] by simp
      have "\<not> (isInSamePage a k \<and> \<not> ch_is_allocated dk)"
      proof
        assume p: "isInSamePage a k \<and> \<not> ch_is_allocated dk"
        then have pg: "unat a div 4096 = unat k div 4096" using same_page by blast
        have "stop c mod 4096 \<noteq> 0" by (rule stop_in_page [OF ok(2) c le pg])
        then obtain b d where b: "?V b = Some d" "unat b = stop c" by (rule next_chunk [OF ok(2) c(1) meet_sizes(1) [OF ok(2) c]])
        have ab: "a < b" using b(2) start_stop [OF ck] start_at [OF ck] by (simp add: word_less_nat_alt)
        have "k \<le> b" using key [OF b(1) ab] zs(2) Cons e by (auto intro: less_imp_le)
        then have "unat k = stop c" using le b(2) by (simp add: word_le_nat_alt)
        then have "meet ?V a k" using meetI [OF ok(2) c(1) dk(1) c(2)] p pg by simp
        then show False using False by blast
      qed
      then show ?thesis using zs(1) Cons e dk by (auto simp: merge_forward_def)
    qed (simp add: merge_forward_def zs(1))
    have "k' = a" if "meet ?V k k'" for k k' using only(1) [OF that] False that by blast
    then show ?thesis using that [OF run ok(1-4) _ _ same_chunks_refl] only(2) by blast
  qed
qed

lemma last_greatest:
  assumes "sorted_wrt (<) (map fst ys)" "ys \<noteq> []" "last ys = (k :: 32 word, j :: nat)" "(b, i) \<in> set ys"
  shows "b \<le> k"
proof -
  have e: "ys = butlast ys @ [(k, j)]" using assms(2,3) by (metis append_butlast_last_id)
  have "\<forall>x \<in> set (butlast ys). fst x < k" using assms(1) by (subst (asm) e) (simp add: sorted_wrt_append)
  moreover have "set ys = set (butlast ys) \<union> {(k, j)}" using arg_cong [OF e, of set] by simp
  ultimately show ?thesis using assms(4) by auto
qed

lemma merge_back_run:
  assumes ok: "mgr_ok mg" "layout (chunk_at mg) m" "(a, i) \<in> set (mg_chunks mg)" "hole_at (chunk_at mg) a"
    and only: "\<And>k k'. meet (chunk_at mg) k k' \<Longrightarrow> k' = a" "\<And>k. whole_hole (chunk_at mg) k \<Longrightarrow> k = a"
    and stale: "\<And>c. stale c = Some (ch_address c)"
  obtains mg' p where "merge_back stale a mg = Some (mg', p)" "mgr_ok mg'" "layout (chunk_at mg') m"
    "hole_at (chunk_at mg') p" "almost_settled (chunk_at mg') p" "same_chunks (chunk_at mg) (chunk_at mg')"
proof -
  let ?V = "chunk_at mg"
  obtain c where c: "?V a = Some c" "\<not> ch_is_allocated c" using ok(4) unfolding hole_at_def by blast
  have ck: "chunk_ok a c" using layoutD(1) [OF ok(2) c(1)] .
  obtain ys zs where yz: "mg_chunks mg = ys @ (a, i) # zs" "entries_before a (mg_chunks mg) = ys" "lower_bound a (mg_chunks mg) = (a, i) # zs"
    using sorted_split [OF mgr_okD(1) [OF ok(1)] ok(3)] by blast
  have ys: "sorted_wrt (<) (map fst ys)" using mgr_okD(1) [OF ok(1)] yz(1) by (simp add: sorted_wrt_append)
  have before: "(k, j) \<in> set ys \<longleftrightarrow> (k, j) \<in> set (mg_chunks mg) \<and> k < a" for k j
    using lower_bound_set(2) [OF mgr_okD(1) [OF ok(1)], of k j a] yz(2) by simp
  have key: "\<exists>j. (k, j) \<in> set ys" if h: "?V k = Some d" "k < a" for k d
    using chunk_at_Some [OF ok(1), of k d] h before by blast
  have less: "k < a" if M: "meet ?V k a" for k
  proof -
    obtain d where "?V k = Some d" "stop d = unat a" "start d = unat k" using meet_start [OF ok(2) M] by metis
    then show ?thesis using start_stop [OF layoutD(1) [OF ok(2)]] by (metis word_less_nat_alt)
  qed
  show thesis
  proof (cases "\<exists>p. meet ?V p a")
    case True
    then obtain p where p: "meet ?V p a" ..
    obtain d where d: "?V p = Some d" "\<not> ch_is_allocated d" "stop d = unat a" "unat p div 4096 = unat a div 4096"
      using meet_start [OF ok(2) p] by metis
    have pa: "p < a" by (rule less [OF p])
    have ne: "ys \<noteq> []" using key [OF d(1) pa] by auto
    obtain k j where kj: "last ys = (k, j)" by fastforce
    then have inys: "(k, j) \<in> set ys" using last_in_set [OF ne] by simp
    have kj': "(k, j) \<in> set (mg_chunks mg)" using inys before by blast
    obtain dk where h: "mg_heap mg j = Some dk" using mgr_okD(3) [OF ok(1) kj'] by blast
    then have dk: "?V k = Some dk" "mg_heap mg j = Some dk" using chunk_at_heap [OF kj' ok(1)] by simp_all
    have "p \<le> k"
      using key [OF d(1) pa] last_greatest [OF ys ne kj] by blast
    moreover have "\<not> p < k"
    proof
      assume "p < k"
      then have "unat a \<le> unat k" using chunk_order [OF ok(2) d(1) dk(1)] d(3) start_at [OF layoutD(1) [OF ok(2) dk(1)]] by simp
      then have "a \<le> k" by (simp add: word_le_nat_alt)
      then show False using inys before leD by blast
    qed
    ultimately have kp: "k = p" by simp
    then have dd: "dk = d" using dk(1) d(1) by simp
    have pj: "(p, j) \<in> set (mg_chunks mg)" using inys before kp by blast
    obtain mg' n where mg': "Merge2Holes j i mg = Some mg'" "mgr_ok mg'" "layout (chunk_at mg') m"
        "chunk_at mg' = (?V(a := None))(p \<mapsto> a_hole p n)" "(p, mg_next mg) \<in> set (mg_chunks mg')"
        "\<And>k k'. meet (chunk_at mg') k k' \<Longrightarrow> meet ?V (if k = p then a else k) k'"
        "\<And>k. k \<noteq> p \<Longrightarrow> whole_hole (chunk_at mg') k \<Longrightarrow> whole_hole ?V k"
        "allocs (chunk_at mg') = allocs ?V" "\<And>x. covered (chunk_at mg') x \<longleftrightarrow> covered ?V x"
      using Merge2Holes_run [OF ok(1,2) pj ok(3) p] by metis
    have ap: "ch_address d = p" by (rule chunk_at_address [OF ok(1) d(1)])
    have run: "merge_back stale a mg = Some (mg', p)"
      unfolding merge_back_def yz(2,3) using ne kj dk(2) dd ap d(2,4) mg'(1) stale by (simp add: same_page Let_def)
    have none: "chunk_at mg' a = None" using mg'(4) pa by simp
    have "\<not> meet (chunk_at mg') k k'" for k k'
    proof
      assume M: "meet (chunk_at mg') k k'"
      then have "k' = a" using mg'(6) only(1) by blast
      then show False using M none unfolding meet_def by simp
    qed
    moreover have "\<not> whole_hole (chunk_at mg') k" if "k \<noteq> p" for k
    proof
      assume W: "whole_hole (chunk_at mg') k"
      then have "k = a" using mg'(7) [OF that W] only(2) by blast
      then show False using W none unfolding whole_hole_def by simp
    qed
    ultimately have "almost_settled (chunk_at mg') p" by (simp add: almost_settled_def)
    moreover have "hole_at (chunk_at mg') p" by (simp add: hole_at_def mg'(4))
    moreover have "same_chunks ?V (chunk_at mg')" using mg'(8,9) by (simp add: same_chunks_def)
    ultimately show ?thesis using that [OF run mg'(2,3)] by blast
  next
    case False
    have run: "merge_back stale a mg = Some (mg, a)"
    proof (cases "ys = []")
      case ne: False
      obtain k j where kj: "last ys = (k, j)" by fastforce
      then have inys: "(k, j) \<in> set ys" using last_in_set [OF ne] by simp
      have ka: "k < a" "(k, j) \<in> set (mg_chunks mg)" using inys before by blast+
      obtain dk where dk: "?V k = Some dk" "mg_heap mg j = Some dk" "ch_address dk = k"
        using mgr_okD(3) [OF ok(1) ka(2)] chunk_at_heap [OF ka(2) ok(1)] by auto
      have "\<not> (isInSamePage a k \<and> \<not> ch_is_allocated dk)"
      proof
        assume p: "isInSamePage a k \<and> \<not> ch_is_allocated dk"
        then have pg: "unat k div 4096 = unat a div 4096" using same_page by simp
        have le: "stop dk \<le> unat a" using chunk_order [OF ok(2) dk(1) c(1) ka(1)] start_at [OF ck] by simp
        have "unat a mod 4096 \<noteq> 0"
        proof
          assume "unat a mod 4096 = 0"
          then obtain s where s: "unat a = 4096 * s" by (elim dvdE [OF mod_0_imp_dvd])
          moreover have "unat k < unat a" using ka(1) by (simp add: word_less_nat_alt)
          ultimately have "unat k div 4096 < s" by (simp add: less_mult_imp_div_less)
          then show False using pg s by simp
        qed
        then obtain b d where b: "?V b = Some d" "stop d = unat a" by (rule previous_chunk [OF ok(2) c(1) meet_sizes(1) [OF ok(2) c]])
        have ba: "b < a" using b(2) start_stop [OF layoutD(1) [OF ok(2) b(1)]] start_at [OF layoutD(1) [OF ok(2) b(1)]]
          by (simp add: word_less_nat_alt)
        have "b \<le> k"
          using key [OF b(1) ba] last_greatest [OF ys ne kj] by blast
        moreover have "\<not> b < k"
        proof
          assume "b < k"
          then have "unat a \<le> unat k" using chunk_order [OF ok(2) b(1) dk(1)] b(2) start_at [OF layoutD(1) [OF ok(2) dk(1)]] by simp
          then show False using ka(1) by (simp add: word_le_nat_alt [symmetric])
        qed
        ultimately have "b = k" by simp
        then have "meet ?V k a" using meetI [OF ok(2) dk(1) c(1) _ c(2)] p pg b dk(1) by simp
        then show False using False by blast
      qed
      then show ?thesis unfolding merge_back_def yz(2,3) using ne kj dk by (auto simp: Let_def)
    qed (simp add: merge_back_def yz(2))
    have "almost_settled ?V a" unfolding almost_settled_def using only False by blast
    then show ?thesis using that [OF run ok(1,2,4)] same_chunks_refl by blast
  qed
qed

text \<open>The pages of a settled layout are those that hold an allocation.\<close>

definition in_use :: "(32 word \<Rightarrow> 32 word option) \<Rightarrow> nat \<Rightarrow> bool" where
  "in_use A x \<longleftrightarrow> (\<exists>k n y. A k = Some n \<and> unat k \<le> y \<and> y < unat k + unat n \<and> y div 4096 = x div 4096)"

lemma allocs_Some: "allocs V k = Some n \<longleftrightarrow> (\<exists>c. V k = Some c \<and> ch_is_allocated c \<and> ch_size c = n)"
  by (auto simp: allocs_def split: option.splits)

lemma in_useI:
  assumes "layout V m" "V k = Some c" "ch_is_allocated c" "covers c y" "y div 4096 = x div 4096"
  shows "in_use (allocs V) x"
proof -
  have "allocs V k = Some (ch_size c)" using assms(2,3) by (simp add: allocs_Some)
  moreover have "unat k \<le> y" "y < unat k + unat (ch_size c)"
    using assms(4) start_at [OF layoutD(1) [OF assms(1,2)]] by (simp_all add: covers_def stop_def)
  ultimately show ?thesis using assms(5) unfolding in_use_def by blast
qed

lemma in_use_covered:
  assumes "layout V m" "in_use (allocs V) x"
  shows "covered V x"
proof -
  obtain k n y where h: "allocs V k = Some n" "unat k \<le> y" "y < unat k + unat n" "y div 4096 = x div 4096"
    using assms(2) unfolding in_use_def by blast
  obtain c where c: "V k = Some c" "ch_size c = n" using h(1) by (auto simp: allocs_Some)
  have "covers c y" using h(2,3) c start_at [OF layoutD(1) [OF assms(1) c(1)]] by (simp add: covers_def stop_def)
  then have "covered V y" using c(1) unfolding covered_def by blast
  then show ?thesis by (rule layoutD(3) [OF assms(1)]) (simp add: h(4))
qed

lemma covered_in_use:
  assumes V: "layout V m" "settled V" and x: "covered V x"
  shows "in_use (allocs V) x"
proof (rule ccontr)
  assume no: "\<not> in_use (allocs V) x"
  obtain k c where c: "V k = Some c" "covers c x" using x unfolding covered_def by blast
  have ck: "chunk_ok k c" using layoutD(1) [OF V(1) c(1)] .
  have free: "\<not> ch_is_allocated c" using no in_useI [OF V(1) c(1) _ c(2)] by blast
  note sz = meet_sizes [OF V(1) c(1) free]
  have page: "x div 4096 = unat k div 4096" using chunk_page [OF ck sz(1) c(2)] start_at [OF ck] by simp
  have first: "unat k mod 4096 = 0"
  proof (rule ccontr)
    assume "unat k mod 4096 \<noteq> 0"
    then obtain k' d where d: "V k' = Some d" "stop d = unat k" "unat k' div 4096 = unat k div 4096"
      by (rule previous_chunk [OF V(1) c(1) sz(1)])
    have dk: "chunk_ok k' d" using layoutD(1) [OF V(1) d(1)] .
    have "\<not> ch_is_allocated d"
      using no in_useI [OF V(1) d(1) _ covers_start [OF dk]] start_at [OF dk] d(3) page by auto
    then have "meet V k' k" using meetI [OF V(1) d(1) c(1) _ free d(2,3)] by blast
    then show False using V(2) unfolding settled_def by blast
  qed
  have last: "stop c mod 4096 = 0"
  proof (rule ccontr)
    assume "stop c mod 4096 \<noteq> 0"
    then obtain k' d where d: "V k' = Some d" "unat k' = stop c" "stop c div 4096 = unat k div 4096"
      by (rule next_chunk [OF V(1) c(1) sz(1)])
    have dk: "chunk_ok k' d" using layoutD(1) [OF V(1) d(1)] .
    have "\<not> ch_is_allocated d"
      using no in_useI [OF V(1) d(1) _ covers_start [OF dk]] start_at [OF dk] d(2,3) page by auto
    then have "meet V k k'" using meetI [OF V(1) c(1) d(1) free] d(2,3) by simp
    then show False using V(2) unfolding settled_def by blast
  qed
  obtain s t where st: "unat k = 4096 * s" "stop c = 4096 * t" using first last by (elim dvdE [OF mod_0_imp_dvd])
  have "stop c = unat k + unat (ch_size c)" "0 < unat (ch_size c)" using start_at [OF ck] ck by (simp_all add: stop_def chunk_ok_def)
  then have "4096 * t = 4096 * s + unat (ch_size c)" using st by simp
  moreover have "n = 4096" if n: "4096 * t = 4096 * s + n" "0 < n" "n \<le> 4096" for n :: nat
  proof -
    have "s < t" using n by linarith
    then have "s + 1 \<le> t" by simp
    then show ?thesis using n by linarith
  qed
  ultimately have "unat (ch_size c) = 4096" using sz(1) \<open>0 < unat (ch_size c)\<close> by blast
  then have "whole_hole V k" using c(1) free unfolding whole_hole_def by blast
  then show False using V(2) unfolding settled_def by blast
qed

lemma release_page_run:
  assumes ok: "mgr_ok mg" "layout (chunk_at mg) m" "hole_at (chunk_at mg) p" "almost_settled (chunk_at mg) p"
  obtains mg' m' where "release_page p (mg, m) = Some (mg', m')" "mgr_ok mg'" "layout (chunk_at mg') m'" "settled (chunk_at mg')"
    "allocs (chunk_at mg') = allocs (chunk_at mg)" "\<And>x. covered (chunk_at mg') x \<Longrightarrow> covered (chunk_at mg) x"
    "\<And>x. getPage x m' = (if covered (chunk_at mg) (unat x) \<and> \<not> covered (chunk_at mg') (unat x) then None else getPage x m)"
proof -
  let ?V = "chunk_at mg"
  obtain c where c: "?V p = Some c" "\<not> ch_is_allocated c" using ok(3) unfolding hole_at_def by blast
  have ck: "chunk_ok p c" using layoutD(1) [OF ok(2) c(1)] .
  obtain i where i: "(p, i) \<in> set (mg_chunks mg)" "mg_heap mg i = Some c" using chunk_at_Some [OF ok(1)] c(1) by blast
  obtain zs where zs: "lower_bound p (mg_chunks mg) = (p, i) # zs" using sorted_split [OF mgr_okD(1) [OF ok(1)] i(1)] by blast
  show thesis
  proof (cases "ch_size c = PageSize")
    case True
    then have sz: "unat (ch_size c) = 4096" by simp
    have p0: "unat p mod 4096 = 0" using meet_sizes(2) [OF ok(2) c] sz start_at [OF ck] by simp
    then obtain q where q: "unat p = 4096 * q" by (elim dvdE [OF mod_0_imp_dvd])
    have cov: "covers c x \<longleftrightarrow> unat p \<le> x \<and> x < unat p + 4096" for x using start_at [OF ck] sz by (simp add: covers_def stop_def)
    have "stop c \<le> 2 ^ 32 - 4096" using ck by (simp add: chunk_ok_def)
    then have "q + 1 < 1048576" using q sz start_at [OF ck] by (simp add: stop_def)
    then obtain m' where m': "DeallocatePage p m = Some m'" "\<And>x. getPage x m' = (if unat p \<le> unat x \<and> unat x < unat p + 4096 then None else getPage x m)"
      by (rule Unmap_page [OF q, of m]) (rule that; blast)
    obtain mg' where mg': "RemoveHole i mg = Some mg'" "mgr_ok mg'" "chunk_at mg' = ?V(p := None)"
      by (rule RemoveHole_run [OF ok(1) i(1) c])
    have run: "release_page p (mg, m) = Some (mg', m')" using zs i(2) True m'(1) mg'(1) by (simp add: release_page_def)
    have L: "layout (chunk_at mg') m'"
      unfolding mg'(3) using m'(2) cov p0 sz start_at [OF ck] by (intro layout_remove [OF ok(2) c(1)]) (simp_all add: dvd_eq_mod_eq_0)
    have "meet ?V k k'" if "meet (chunk_at mg') k k'" for k k' using that unfolding meet_def by (auto simp: mg'(3) split: if_splits)
    moreover have "whole_hole ?V k \<and> k \<noteq> p" if "whole_hole (chunk_at mg') k" for k using that unfolding whole_hole_def by (auto simp: mg'(3) split: if_splits)
    ultimately have "settled (chunk_at mg')" using ok(4) unfolding settled_def almost_settled_def by blast
    moreover have "allocs (chunk_at mg') = allocs ?V" using c by (auto simp: allocs_def mg'(3) fun_eq_iff)
    moreover have cv: "covered (chunk_at mg') x \<longleftrightarrow> covered ?V x \<and> \<not> covers c x" for x
      using layoutD(2) [OF ok(2) c(1), of x] c(1) unfolding covered_def mg'(3) by (metis fun_upd_apply option.distinct(1) option.inject)
    moreover have "covers c x \<Longrightarrow> covered ?V x" for x using c(1) unfolding covered_def by blast
    ultimately show ?thesis using that [OF run mg'(2) L] m'(2) cov by metis
  next
    case False
    then have run: "release_page p (mg, m) = Some (mg, m)" using zs i(2) by (simp add: release_page_def)
    have "\<not> whole_hole ?V p" using False c by (auto simp: whole_hole_def word_unat_eq_iff)
    then have "settled ?V" using ok(4) unfolding settled_def almost_settled_def by metis
    then show ?thesis using that [OF run ok(1,2)] by simp
  qed
qed

definition mgr_inv :: "mgr_state \<Rightarrow> bool" where
  "mgr_inv s \<longleftrightarrow> mgr_ok (fst s) \<and> layout (chunk_at (fst s)) (snd s) \<and> settled (chunk_at (fst s))"

definition allocated :: "mgr_state \<Rightarrow> 32 word \<Rightarrow> 32 word option" where
  "allocated s = allocs (chunk_at (fst s))"

lemma in_use_iff: "mgr_inv s \<Longrightarrow> in_use (allocated s) x \<longleftrightarrow> covered (chunk_at (fst s)) x"
  using covered_in_use in_use_covered unfolding mgr_inv_def allocated_def by blast

lemma Free_small:
  assumes s: "mgr_inv (mg, m)" and c: "chunk_at mg a = Some c" "ch_is_allocated c" "ch_size c \<le> PageSize"
    and stale: "\<And>c. stale c = Some (ch_address c)"
  shows "\<exists>s'. Free stale a (mg, m) = Some (s', Inr ()) \<and> mgr_inv s' \<and> allocs (chunk_at (fst s')) = (allocs (chunk_at mg))(a := None) \<and>
    (\<forall>x. covered (chunk_at (fst s')) x \<longrightarrow> covered (chunk_at mg) x) \<and>
    (\<forall>x. getPage x (snd s') = (if covered (chunk_at mg) (unat x) \<and> \<not> covered (chunk_at (fst s')) (unat x) then None else getPage x m))"
proof -
  let ?V = "chunk_at mg"
  have ok: "mgr_ok mg" "layout ?V m" "settled ?V" using s by (simp_all add: mgr_inv_def)
  have ck: "chunk_ok a c" using layoutD(1) [OF ok(2) c(1)] .
  have sz: "unat (ch_size c) \<le> 4096" using c(3) by (simp add: word_le_nat_alt)
  obtain i where i: "(a, i) \<in> set (mg_chunks mg)" "mg_heap mg i = Some c" using chunk_at_Some [OF ok(1)] c(1) by blast
  obtain mg1 where mg1: "RemovePointer i mg = Some mg1" "mgr_ok mg1" "chunk_at mg1 = ?V(a := None)"
    by (rule RemovePointer_run [OF ok(1) i(1) c(1,2)])
  let ?h = "a_hole a (ch_size c)"
  obtain mg2 where mg2: "CreateHole a (ch_size c) mg1 = Some (mg2, mg_next mg1)" "mgr_ok mg2" "chunk_at mg2 = (chunk_at mg1)(a \<mapsto> ?h)"
      "set (mg_chunks mg2) = insert (a, mg_next mg1) (set (mg_chunks mg1))"
    using CreateHole_run [OF mg1(2), of a "ch_size c"] mg1(3) by (metis fun_upd_same)
  have V2: "chunk_at mg2 = ?V(a \<mapsto> ?h)" using mg2(3) mg1(3) by simp
  have sh: "start ?h = start c" "stop ?h = stop c" using ck by (simp_all add: start_def stop_def chunk_ok_def)
  have r: "chunk_at mg2 k = Some d \<longleftrightarrow> [a \<mapsto> ?h] k = Some d \<or> k \<notin> {a} \<and> ?V k = Some d" for k d by (simp add: V2)
  have hk: "chunk_ok a ?h" using ck sz sh by (simp add: chunk_ok_def)
  have r1: "chunk_ok k d" if "[a \<mapsto> ?h] k = Some d" for k d using that hk by (simp split: if_splits)
  have r2: "apart [a \<mapsto> ?h]" unfolding apart_def by (simp split: if_splits)
  have r3: "covered [a \<mapsto> ?h] x \<longleftrightarrow> (\<exists>k \<in> {a}. \<exists>d. ?V k = Some d \<and> covers d x)" for x
    using c(1) by (simp add: covered_def covers_def sh)
  note R = layout_replace [OF ok(2) r r1 r2 r3]
  have L2: "layout (chunk_at mg2) m" by (rule R(1))
  have a2: "hole_at (chunk_at mg2) a" by (simp add: hole_at_def V2)
  have m2: "k = a \<or> k' = a" if "meet (chunk_at mg2) k k'" for k k'
  proof (rule ccontr)
    assume "\<not> (k = a \<or> k' = a)"
    then have "meet ?V k k'" using that unfolding meet_def V2 by simp
    then show False using ok(3) unfolding settled_def by blast
  qed
  have w2: "k = a" if "whole_hole (chunk_at mg2) k" for k
  proof (rule ccontr)
    assume "k \<noteq> a"
    then have "whole_hole ?V k" using that unfolding whole_hole_def V2 by simp
    then show False using ok(3) unfolding settled_def by blast
  qed
  have i2: "(a, mg_next mg1) \<in> set (mg_chunks mg2)" using mg2(4) by simp
  obtain mg3 j where mg3: "merge_forward (mg_next mg1) a mg2 = Some mg3" "mgr_ok mg3" "layout (chunk_at mg3) m" "(a, j) \<in> set (mg_chunks mg3)"
    "hole_at (chunk_at mg3) a" "\<And>k k'. meet (chunk_at mg3) k k' \<Longrightarrow> k' = a" "\<And>k. whole_hole (chunk_at mg3) k \<Longrightarrow> k = a"
    "same_chunks (chunk_at mg2) (chunk_at mg3)"
    using merge_forward_run [OF mg2(2) L2 i2 a2 m2 w2] by metis
  obtain mg4 p where mg4: "merge_back stale a mg3 = Some (mg4, p)" "mgr_ok mg4" "layout (chunk_at mg4) m"
    "hole_at (chunk_at mg4) p" "almost_settled (chunk_at mg4) p" "same_chunks (chunk_at mg3) (chunk_at mg4)"
    using mg3(6,7) merge_back_run [OF mg3(2-5) _ _ stale] by metis
  obtain mg5 m' where mg5: "release_page p (mg4, m) = Some (mg5, m')" "mgr_ok mg5" "layout (chunk_at mg5) m'" "settled (chunk_at mg5)"
    "allocs (chunk_at mg5) = allocs (chunk_at mg4)" "\<And>x. covered (chunk_at mg5) x \<Longrightarrow> covered (chunk_at mg4) x"
    "\<And>x. getPage x m' = (if covered (chunk_at mg4) (unat x) \<and> \<not> covered (chunk_at mg5) (unat x) then None else getPage x m)"
    using release_page_run [OF mg4(2-5)] by metis
  have cov: "covered (chunk_at mg4) x \<longleftrightarrow> covered ?V x" for x using mg4(6) mg3(8) R(2) by (simp add: same_chunks_def)
  have al: "allocs (chunk_at mg4) = (allocs ?V)(a := None)"
    using mg4(6) mg3(8) by (simp add: same_chunks_def) (auto simp: allocs_def V2 fun_eq_iff)
  have h2: "mg_heap mg2 (mg_next mg1) = Some ?h" using chunk_at_heap [OF i2 mg2(2)] V2 by simp
  have mof: "map_of (mg_chunks mg) a = Some i" using ok_map_of [OF ok(1)] i(1) by blast
  have nl: "\<not> PageSize < ch_size c" using c(3) by (rule leD)
  have "Free stale a (mg, m) = Some ((mg5, m'), Inr ())"
    using mof i(2) nl mg1(1) mg2(1) h2 mg3(1) mg4(1) mg5(1)
    by (simp add: Free_def MergeHoles_def Let_def del: PageSize_simps)
  then show ?thesis using mg5 cov al by (intro exI [of _ "(mg5, m')"]) (simp add: mgr_inv_def)
qed

lemma FreeLarge_run:
  assumes s: "mgr_inv (mg, m)" and c: "chunk_at mg a = Some c" "ch_is_allocated c" "\<not> ch_size c \<le> PageSize" and i: "(a, i) \<in> set (mg_chunks mg)"
  shows "\<exists>s'. FreeLarge i (mg, m) = Some s' \<and> mgr_inv s' \<and> allocs (chunk_at (fst s')) = (allocs (chunk_at mg))(a := None) \<and>
    (\<forall>x. covered (chunk_at (fst s')) x \<longrightarrow> covered (chunk_at mg) x) \<and>
    (\<forall>x. getPage x (snd s') = (if covered (chunk_at mg) (unat x) \<and> \<not> covered (chunk_at (fst s')) (unat x) then None else getPage x m))"
proof -
  let ?V = "chunk_at mg"
  have ok: "mgr_ok mg" "layout ?V m" "settled ?V" using s by (simp_all add: mgr_inv_def)
  have ck: "chunk_ok a c" using layoutD(1) [OF ok(2) c(1)] .
  have big: "\<not> unat (ch_size c) \<le> 4096" using c(3) by (simp add: word_le_nat_alt)
  then have d: "4096 dvd start c" "4096 dvd unat (ch_size c)" using ck by (simp_all add: chunk_ok_def)
  have "4096 dvd unat a" using d(1) start_at [OF ck] by simp
  then obtain q r where qr: "unat a = 4096 * q" "unat (ch_size c) = 4096 * r" using d(2) by (elim dvdE)
  have lim: "q + r \<le> 1048575" using ck qr start_at [OF ck] by (simp add: chunk_ok_def stop_def)
  have h: "mg_heap mg i = Some c" using chunk_at_heap [OF i ok(1)] c(1) by simp
  have addr: "ch_address c = a" using ck by (simp add: chunk_ok_def)
  let ?I = "\<lambda>j (m', address :: 32 word). address = of_nat (4096 * (q + j)) \<and>
    (\<forall>x. getPage x m' = (if unat a \<le> unat x \<and> unat x < unat a + 4096 * j then None else getPage x m))"
  let ?f = "\<lambda>i (m, address). do { m \<leftarrow> DeallocatePage address m; Some (m, address + PageSize) }"
  have "\<exists>p. for_loop 0 r ?f (m, a) = Some p \<and> ?I r p"
  proof (rule for_loop_rule [where I = ?I])
    have "a = of_nat (4096 * q)" using qr(1) by (metis of_nat_unat ucast_id)
    then show "?I 0 (m, a)" by (auto simp del: of_nat_mult)
  next
    fix j p assume j: "0 \<le> j" "j < r" and I: "?I j p"
    obtain m1 ad where p: "p = (m1, ad)" by fastforce
    have ad: "ad = of_nat (4096 * (q + j))" and pg: "\<And>x. getPage x m1 = (if unat a \<le> unat x \<and> unat x < unat a + 4096 * j then None else getPage x m)"
      using I p by auto
    have u: "unat ad = 4096 * (q + j)" unfolding ad using j(2) lim by (intro of_nat_page) simp
    obtain m2 where m2: "DeallocatePage ad m1 = Some m2" "\<And>x. getPage x m2 = (if unat ad \<le> unat x \<and> unat x < unat ad + 4096 then None else getPage x m1)"
      using Unmap_page [OF u, of m1] j(2) lim by auto
    have "getPage x m2 = (if unat a \<le> unat x \<and> unat x < unat a + 4096 * Suc j then None else getPage x m)" for x
      unfolding m2(2) pg u qr(1) by auto
    moreover have "ad + PageSize = of_nat (4096 * (q + Suc j))" by (simp add: ad algebra_simps)
    ultimately show "\<exists>p'. ?f j p = Some p' \<and> ?I (Suc j) p'" using m2(1) p by simp
  qed simp
  then obtain m' ad where m': "for_loop 0 r ?f (m, a) = Some (m', ad)"
      "\<And>x. getPage x m' = (if unat a \<le> unat x \<and> unat x < unat a + 4096 * r then None else getPage x m)" by auto
  obtain mg' where mg': "RemovePointer i mg = Some mg'" "mgr_ok mg'" "chunk_at mg' = ?V(a := None)"
    by (rule RemovePointer_run [OF ok(1) i c(1,2)])
  have num: "unat (ch_size c div PageSize) = r" using qr(2) by (simp add: unat_div)
  have cov: "covers c x \<longleftrightarrow> unat a \<le> x \<and> x < unat a + 4096 * r" for x using start_at [OF ck] qr(2) by (simp add: covers_def stop_def)
  have run: "FreeLarge i (mg, m) = Some (mg', m')"
    using h m'(1) mg'(1) by (simp add: FreeLarge_def num addr del: PageSize_simps)
  have L: "layout (chunk_at mg') m'" unfolding mg'(3) using m'(2) cov by (intro layout_remove [OF ok(2) c(1) d]) simp
  have "\<not> meet (chunk_at mg') k k'" for k k'
  proof
    assume "meet (chunk_at mg') k k'"
    then have "meet ?V k k'" unfolding meet_def mg'(3) by (auto split: if_splits)
    then show False using ok(3) unfolding settled_def by blast
  qed
  moreover have "\<not> whole_hole (chunk_at mg') k" for k
  proof
    assume "whole_hole (chunk_at mg') k"
    then have "whole_hole ?V k" unfolding whole_hole_def mg'(3) by (auto split: if_splits)
    then show False using ok(3) unfolding settled_def by blast
  qed
  ultimately have "settled (chunk_at mg')" by (simp add: settled_def)
  moreover have "allocs (chunk_at mg') = (allocs ?V)(a := None)" by (auto simp: allocs_def mg'(3) fun_eq_iff)
  moreover have cv: "covered (chunk_at mg') x \<longleftrightarrow> covered ?V x \<and> \<not> covers c x" for x
    using layoutD(2) [OF ok(2) c(1), of x] c(1) unfolding covered_def mg'(3) by (metis fun_upd_apply option.distinct(1) option.inject)
  moreover have "covers c x \<Longrightarrow> covered ?V x" for x using c(1) unfolding covered_def by blast
  ultimately show ?thesis using run mg'(2) L m'(2) cov by (intro exI [of _ "(mg', m')"]) (auto simp: mgr_inv_def)
qed

lemma Free_run:
  assumes s: "mgr_inv s" and a: "allocated s a = Some n" and stale: "\<And>c. stale c = Some (ch_address c)"
  shows "\<exists>s'. Free stale a s = Some (s', Inr ()) \<and> mgr_inv s' \<and> allocated s' = (allocated s)(a := None) \<and>
    (\<forall>x. getPage x (snd s') = (if in_use (allocated s) (unat x) \<and> \<not> in_use (allocated s') (unat x) then None else getPage x (snd s)))"
proof -
  obtain mg m where sm: "s = (mg, m)" by fastforce
  obtain c where c: "chunk_at mg a = Some c" "ch_is_allocated c" using a by (auto simp: allocated_def sm allocs_Some)
  have ok: "mgr_ok mg" using s by (simp add: sm mgr_inv_def)
  obtain i where i: "(a, i) \<in> set (mg_chunks mg)" "mg_heap mg i = Some c" using chunk_at_Some [OF ok] c(1) by blast
  have "\<exists>s'. Free stale a (mg, m) = Some (s', Inr ()) \<and> mgr_inv s' \<and> allocs (chunk_at (fst s')) = (allocs (chunk_at mg))(a := None) \<and>
    (\<forall>x. covered (chunk_at (fst s')) x \<longrightarrow> covered (chunk_at mg) x) \<and>
    (\<forall>x. getPage x (snd s') = (if covered (chunk_at mg) (unat x) \<and> \<not> covered (chunk_at (fst s')) (unat x) then None else getPage x m))"
  proof (cases "ch_size c \<le> PageSize")
    case True
    show ?thesis by (rule Free_small [OF s [unfolded sm] c True stale])
  next
    case False
    have "map_of (mg_chunks mg) a = Some i" using ok_map_of [OF ok] i(1) by blast
    then have "Free stale a (mg, m) = FreeLarge i (mg, m) \<bind> (\<lambda>s. Some (s, Inr ()))"
      using i(2) False by (simp add: Free_def Let_def not_le)
    then show ?thesis using FreeLarge_run [OF s [unfolded sm] c False i(1)] by (elim exE conjE) (intro exI conjI, simp_all)
  qed
  then obtain s' where s': "Free stale a (mg, m) = Some (s', Inr ())" "mgr_inv s'" "allocs (chunk_at (fst s')) = (allocs (chunk_at mg))(a := None)"
    "\<forall>x. getPage x (snd s') = (if covered (chunk_at mg) (unat x) \<and> \<not> covered (chunk_at (fst s')) (unat x) then None else getPage x m)" by blast
  moreover have "allocated s' = (allocated s)(a := None)" using s'(3) by (simp add: allocated_def sm)
  ultimately show ?thesis using in_use_iff [OF s] in_use_iff [OF s'(2)] sm by (intro exI [of _ s']) simp
qed

section \<open>Allocation\<close>

definition holds :: "chunks \<Rightarrow> 32 word \<Rightarrow> 32 word \<Rightarrow> 32 word \<Rightarrow> bool" where
  "holds V n al k \<longleftrightarrow> (\<exists>c b. V k = Some c \<and> \<not> ch_is_allocated c \<and> round_up k al = Some b \<and> fits c b n)"

lemma canHoleContain_run:
  assumes V: "layout (chunk_at mg) m" "chunk_at mg a = Some c" "\<not> ch_is_allocated c" "mg_heap mg i = Some c"
    and al: "unat al dvd 4096" "n \<le> PageSize"
  obtains b where "round_up a al = Some b" "unat al dvd unat b" "canHoleContain i n al mg = Some (fits c b n)"
proof -
  have ck: "chunk_ok a c" using layoutD(1) [OF V(1,2)] .
  have a: "unat a < stop c" "stop c \<le> 2 ^ 32 - 4096" "ch_address c = a" using ck start_stop [OF ck] start_at [OF ck] by (simp_all add: chunk_ok_def)
  obtain b where b: "round_up a al = Some b" "unat al dvd unat b" "unat a \<le> unat b" "unat b < unat a + unat al"
  proof -
    have "unat a \<le> 2 ^ 32 - 4096" using a(1,2) by linarith
    then show thesis by (rule round_up_run [OF al(1)]) (rule that)
  qed
  have gap: "unat (b - a) = unat b - unat a" using b(3) by (simp add: unat_sub word_le_nat_alt)
  have "unat al \<le> 4096" using al(1) by (simp add: dvd_imp_le)
  moreover have n: "unat n \<le> 4096" using al(2) by (simp add: word_le_nat_alt)
  ultimately have "unat (n + (b - a)) = unat n + (unat b - unat a)"
    using b(4) gap by (subst unat_add_lem [THEN iffD1]) simp_all
  then have "n + (b - a) \<le> ch_size c \<longleftrightarrow> fits c b n"
    using b(3) start_at [OF ck] by (auto simp: word_le_nat_alt fits_def stop_def)
  then show thesis using that [OF b(1,2)] V(4) b(1) a(3) by (simp add: canHoleContain_def getNextAlignedAddress_def)
qed

lemma find_hole_run:
  assumes V: "mgr_ok mg" "layout (chunk_at mg) m" and al: "unat al dvd 4096" "n \<le> PageSize"
    and sub: "set hs \<subseteq> set (mg_holes mg)"
  shows "(\<exists>i a c b. find_hole n al mg hs = Some (Some i) \<and> (a, i) \<in> set (mg_chunks mg) \<and> chunk_at mg a = Some c \<and>
      \<not> ch_is_allocated c \<and> round_up a al = Some b \<and> unat al dvd unat b \<and> fits c b n) \<or>
    find_hole n al mg hs = Some None \<and> (\<forall>(sz, i) \<in> set hs. \<forall>a. (a, i) \<in> set (mg_chunks mg) \<longrightarrow> \<not> holds (chunk_at mg) n al a)"
  using sub
proof (induction hs)
  case (Cons e hs)
  obtain sz i where e: "e = (sz, i)" by fastforce
  have "(sz, i) \<in> free_chunks mg" using Cons.prems e mgr_okD(8) [OF V(1)] by auto
  then obtain c where c: "mg_heap mg i = Some c" "\<not> ch_is_allocated c" unfolding free_chunks_def by blast
  have "i \<in> snd ` set (mg_chunks mg)" using c(1) mgr_okD(4) [OF V(1)] by blast
  then obtain a where a: "(a, i) \<in> set (mg_chunks mg)" by auto
  have ca: "chunk_at mg a = Some c" using chunk_at_heap [OF a V(1)] c(1) by simp
  obtain b where b: "round_up a al = Some b" "unat al dvd unat b" "canHoleContain i n al mg = Some (fits c b n)"
    by (rule canHoleContain_run [OF V(2) ca c(2,1) al])
  show ?case
  proof (cases "fits c b n")
    case True
    then have "find_hole n al mg (e # hs) = Some (Some i)" using b(3) e by simp
    then show ?thesis using a ca c(2) b(1,2) True by blast
  next
    case False
    then have f: "find_hole n al mg (e # hs) = find_hole n al mg hs" using b(3) e by simp
    have "\<not> holds (chunk_at mg) n al k" if "(k, i) \<in> set (mg_chunks mg)" for k
      using same_id [OF V(1) that a] ca b(1) False by (auto simp: holds_def)
    then show ?thesis using Cons.IH Cons.prems e unfolding f by auto
  qed
qed simp

definition page_below :: "memory_t \<Rightarrow> bool" where
  "page_below m \<longleftrightarrow> getPage 0xfffff000 m \<noteq> None \<or> (\<exists>x \<ge> MapBaseAddress. x < 0xfffff000 \<and> getPage x m = None)"

text \<open>
  The memory grows exactly by the pages in use, and these had no page before unless they were in use.
\<close>

definition grows :: "memory_t \<Rightarrow> memory_t \<Rightarrow> (32 word \<Rightarrow> 32 word option) \<Rightarrow> (32 word \<Rightarrow> 32 word option) \<Rightarrow> bool" where
  "grows m m' A A' \<longleftrightarrow> (\<forall>x. getPage x m' = None \<longleftrightarrow> getPage x m = None \<and> \<not> in_use A' (unat x)) \<and>
     (\<forall>x. getPage x m \<noteq> None \<longrightarrow> getPage x m' = getPage x m \<and> (in_use A' (unat x) \<longrightarrow> in_use A (unat x)))"

lemma page_words:
  assumes "unat r = 4096 * q" "getPage r m = None"
  shows "region_free m (4096 * q) 4096"
proof -
  have "getPage x m = None" if x: "4096 * q \<le> unat x" "unat x < 4096 * q + 4096" for x
  proof -
    have "unat x div 4096 = q" using x by simp
    then have "page_tag x = page_tag r" unfolding page_tag_eq_iff assms(1) by simp
    then show ?thesis using assms(2) by (simp add: getPage_def)
  qed
  moreover have "4096 * q + 4096 \<le> 2 ^ 32"
  proof -
    have "4096 * q < 4096 * 1048576" using assms(1) unat32 [of r] by simp
    then have "q + 1 \<le> 1048576" by simp
    then show ?thesis by simp
  qed
  ultimately show ?thesis by (simp add: region_free_def)
qed

lemma MapSpace_page:
  assumes "page_below m"
  shows "MapSpace MapBaseAddress PageSize m = Some (- 1) \<and> (\<forall>x \<ge> MapBaseAddress. getPage x m \<noteq> None) \<or>
    (\<exists>r q. MapSpace MapBaseAddress PageSize m = Some r \<and> r \<noteq> - 1 \<and> unat r = 4096 * q \<and> q + 1 < 1048576 \<and> region_free m (4096 * q) 4096)"
proof -
  let ?b = "unat MapBaseAddress"
  have b: "?b = 4096 * 753584" "page_offset MapBaseAddress = 0" by (simp_all add: MapBaseAddress_def page_offset_zero)
  obtain r where r: "MapSpace MapBaseAddress PageSize m = Some r" "lowest_free m ?b 4096 r"
    using map_space_loop_run [of PageSize ?b ?b m] b
    by (auto simp: MapSpace_def page_offset_zero) (simp_all add: MapBaseAddress_def)
  have free: "region_free m (4096 * (unat x div 4096)) 4096 \<and> ?b \<le> 4096 * (unat x div 4096)" if x: "MapBaseAddress \<le> x" "getPage x m = None" for x
  proof -
    have "753584 \<le> unat x div 4096" using x(1) b(1) by (simp add: word_le_nat_alt)
    moreover have "unat (page_tag x) = 4096 * (unat x div 4096)" by (simp add: unat_page_tag)
    moreover have "getPage (page_tag x) m = None" using x(2) by (simp add: getPage_def)
    ultimately show ?thesis using page_words b(1) by simp
  qed
  consider "r = - 1" "\<forall>p \<ge> ?b. 4096 dvd p \<longrightarrow> \<not> region_free m p 4096"
    | p where "?b \<le> p" "r = of_nat p" "4096 dvd p" "region_free m p 4096" "\<forall>q. ?b \<le> q \<and> q < p \<and> 4096 dvd q \<longrightarrow> \<not> region_free m q 4096"
    using r(2) unfolding lowest_free_def by blast
  then show ?thesis
  proof cases
    case 1
    have "getPage x m \<noteq> None" if "MapBaseAddress \<le> x" for x
      using 1(2) free [OF that] by (metis dvd_triv_left)
    then show ?thesis using r(1) 1(1) by simp
  next
    case 2
    obtain q where q: "p = 4096 * q" using 2(3) by (elim dvdE)
    have "p + 4096 \<le> 2 ^ 32" using 2(4) by (simp add: region_free_def)
    then have q1: "q < 1048576" using q by simp
    then have u: "unat r = 4096 * q" using of_nat_page q 2(2) by simp
    have "q \<noteq> 1048575"
    proof
      assume "q = 1048575"
      then have rl: "r = 0xfffff000" using u by (simp add: word_unat_eq_iff)
      have "p \<le> unat r \<and> unat r < p + 4096 \<longrightarrow> getPage r m = None" using 2(4) unfolding region_free_def by blast
      then have "getPage 0xfffff000 m = None" using u q rl by simp
      then obtain x where x: "MapBaseAddress \<le> x" "x < 0xfffff000" "getPage x m = None" using assms unfolding page_below_def by blast
      have "unat x < 4294963200" using x(2) by (simp add: word_less_nat_alt)
      then have "4096 * (unat x div 4096) < p" using q \<open>q = 1048575\<close> by simp
      then show False using free [OF x(1,3)] 2(5) by (metis dvd_triv_left)
    qed
    moreover have "r \<noteq> - 1"
    proof
      assume "r = - 1"
      then have "r = 0xffffffff" by simp
      then have "4096 * q = 4294967295" using u by simp
      then have "(4294967295 :: nat) mod 4096 = 0" by (metis mod_mult_self1_is_0)
      then show False by simp
    qed
    ultimately show ?thesis using r(1) u q1 2(4) q by (intro disjI2 exI [of _ r] exI [of _ q]) simp
  qed
qed

lemma Allocate_in_hole:
  assumes s: "mgr_inv (mg, m)" and al: "unat al dvd 4096" and n: "0 < unat n" "n \<le> PageSize"
    and f: "find_hole n al mg (lower_bound n (mg_holes mg)) = Some (Some i)" "(a, i) \<in> set (mg_chunks mg)" "chunk_at mg a = Some c"
      "\<not> ch_is_allocated c" "round_up a al = Some b" "fits c b n"
  shows "\<exists>mg'. Allocate n al (mg, m) = Some ((mg', m), Inr b) \<and> mgr_inv (mg', m) \<and>
    allocs (chunk_at mg') = (allocs (chunk_at mg))(b \<mapsto> n) \<and> allocs (chunk_at mg) b = None \<and>
    (\<forall>x. covered (chunk_at mg') x \<longleftrightarrow> covered (chunk_at mg) x)"
proof -
  have ok: "mgr_ok mg" "layout (chunk_at mg) m" "settled (chunk_at mg)" using s by (simp_all add: mgr_inv_def)
  have as: "almost_settled (chunk_at mg) a" using ok(3) by (simp add: settled_def almost_settled_def)
  obtain mg' where mg': "AllocateIn i n al mg = Some (mg', b)" "mgr_ok mg'"
      "\<And>k d. chunk_at mg' k = Some d \<longleftrightarrow> pieces a c b n k = Some d \<or> k \<noteq> a \<and> chunk_at mg k = Some d"
    using AllocateIn_run [OF ok(1,2) f(2,3,4) _ f(6) n(1)] f(5) by (metis getNextAlignedAddress_def)
  note P = pieces_settled [OF ok(2) f(3,4) as f(6) n(1) mg'(3)]
  have "allocs (chunk_at mg) b = None"
    using disjoint_key [OF ok(2) f(3) P(4)] f(3,4) by (cases "b = a") (simp_all add: allocs_def)
  moreover have "unat al \<le> 4096" using al by (simp add: dvd_imp_le)
  then have asr: "al \<le> PageSize" "\<not> PageSize < n" using n(2) by (simp_all add: word_le_nat_alt leD)
  have "Allocate n al (mg, m) = Some ((mg', m), Inr b)"
    using f(1) mg'(1) asr by (simp add: Allocate_def del: PageSize_simps)
  ultimately show ?thesis using mg'(2) P(1-3,5) by (simp add: mgr_inv_def)
qed

lemma Allocate_new_page:
  assumes s: "mgr_inv (mg, m)" and al: "unat al dvd 4096" and n: "0 < unat n" "n \<le> PageSize"
    and f: "find_hole n al mg (lower_bound n (mg_holes mg)) = Some None"
    and r: "MapSpace MapBaseAddress PageSize m = Some r" "r \<noteq> - 1" "unat r = 4096 * q" "q + 1 < 1048576" "region_free m (4096 * q) 4096"
  shows "\<exists>mg' m'. Allocate n al (mg, m) = Some ((mg', m'), Inr r) \<and> mgr_inv (mg', m') \<and>
    allocs (chunk_at mg') = (allocs (chunk_at mg))(r \<mapsto> n) \<and> allocs (chunk_at mg) r = None \<and>
    (\<forall>x. getPage x m' = None \<longleftrightarrow> \<not> (unat r \<le> unat x \<and> unat x < unat r + 4096) \<and> getPage x m = None) \<and>
    (\<forall>x. getPage x m \<noteq> None \<longrightarrow> getPage x m' = getPage x m)"
proof -
  let ?V = "chunk_at mg" and ?c = "a_hole r PageSize"
  have ok: "mgr_ok mg" "layout ?V m" "settled ?V" using s by (simp_all add: mgr_inv_def)
  have c: "start ?c = unat r" "stop ?c = unat r + 4096" by (simp_all add: start_def stop_def)
  have ck: "chunk_ok r ?c" using c r(3,4) by (simp add: chunk_ok_def)
  have cov: "covers ?c x \<longleftrightarrow> unat r \<le> x \<and> x < unat r + 4096" for x unfolding covers_def c by (rule refl)
  have free: "getPage x m = None" if "covers ?c (unat x)" for x using r(5) that unfolding region_free_def cov r(3) by blast
  obtain m' where m': "Map r PageSize 7 m = Some m'"
      "\<And>x. getPage x m' = None \<longleftrightarrow> \<not> (unat r \<le> unat x \<and> unat x < unat r + 4096 * 1) \<and> getPage x m = None"
      "\<And>x. \<not> (unat r \<le> unat x \<and> unat x < unat r + 4096 * 1) \<Longrightarrow> getPage x m' = getPage x m"
    by (rule Map_pages [of r q 1 PageSize 7 m]) (use r(3,4) in \<open>simp_all add: that\<close>)
  have d: "4096 dvd start ?c" "4096 dvd unat (ch_size ?c)" using c r(3) by simp_all
  have mm: "getPage x m' = None \<longleftrightarrow> \<not> covers ?c (unat x) \<and> getPage x m = None" for x using m'(2) cov by simp
  note V1 = layout_add [OF ok(2) ck d free mm]
  obtain mg1 where mg1: "CreateHole r PageSize mg = Some (mg1, mg_next mg)" "mgr_ok mg1" "chunk_at mg1 = ?V(r \<mapsto> ?c)"
      "set (mg_chunks mg1) = insert (r, mg_next mg) (set (mg_chunks mg))"
    by (rule CreateHole_run [OF ok(1) V1(2)])
  have L1: "layout (chunk_at mg1) m'" and V1r: "chunk_at mg1 r = Some ?c" using V1 mg1(3) by simp_all
  have old: "?V k = Some d" if "chunk_at mg1 k = Some d" "k \<noteq> r" for k d using that mg1(3) by simp
  have "\<not> meet (chunk_at mg1) k k'" for k k'
  proof
    assume M: "meet (chunk_at mg1) k k'"
    obtain e e' where e: "chunk_at mg1 k = Some e" "chunk_at mg1 k' = Some e'" "\<not> ch_is_allocated e" "\<not> ch_is_allocated e'" "stop e = unat k'"
      "unat k div 4096 = unat k' div 4096" "start e' = unat k'" "start e = unat k" by (rule meet_start [OF L1 M])
    have lt: "unat k < unat k'" using start_stop [OF layoutD(1) [OF L1 e(1)]] e(5,8) by simp
    show False
    proof (cases "k = r \<or> k' = r")
      case True
      then show False
      proof
        assume k: "k = r"
        then have "unat k' = 4096 * (q + 1)" using e(1,5) V1r c r(3) by simp
        then have "unat k' div 4096 = q + 1" by simp
        then show False using e(6) k r(3) by simp
      next
        assume k: "k' = r"
        then have "unat k div 4096 < q" using lt r(3) by (simp add: less_mult_imp_div_less)
        then show False using e(6) k r(3) by simp
      qed
    next
      case False
      then have "meet ?V k k'" using meetI [OF ok(2) old [OF e(1)] old [OF e(2)] e(3,4,5,6)] by blast
      then show False using ok(3) unfolding settled_def by blast
    qed
  qed
  moreover have "\<not> whole_hole (chunk_at mg1) k" if "k \<noteq> r" for k
    using ok(3) old [OF _ that] unfolding settled_def whole_hole_def by blast
  ultimately have as: "almost_settled (chunk_at mg1) r" by (simp add: almost_settled_def)
  have b: "getNextAlignedAddress r al = Some r"
  proof -
    have "unat r \<le> 2 ^ 32 - 4096" using r(3,4) by simp
    then obtain b where "round_up r al = Some b" "unat al dvd unat r \<Longrightarrow> b = r" by (rule round_up_run [OF al]) (rule that)
    moreover have "unat al dvd unat r" using al r(3) by (metis dvd_mult2)
    ultimately show ?thesis by (simp add: getNextAlignedAddress_def)
  qed
  have fit: "fits ?c r n" using c n(2) by (simp add: fits_def word_le_nat_alt)
  have i1: "(r, mg_next mg) \<in> set (mg_chunks mg1)" using mg1(4) by simp
  have h1: "mg_heap mg1 (mg_next mg) = Some ?c" using chunk_at_heap [OF i1 mg1(2)] V1r by simp
  have na: "\<not> ch_is_allocated ?c" by simp
  obtain mg2 where mg2: "AllocateIn (mg_next mg) n al mg1 = Some (mg2, r)" "mgr_ok mg2"
      "\<And>k d. chunk_at mg2 k = Some d \<longleftrightarrow> pieces r ?c r n k = Some d \<or> k \<noteq> r \<and> chunk_at mg1 k = Some d"
    using AllocateIn_run [OF mg1(2) L1 i1 V1r na b fit n(1)] by metis
  note P = pieces_settled [OF L1 V1r na as fit n(1) mg2(3)]
  have "allocs (chunk_at mg1) = allocs ?V" using V1(2) by (auto simp: allocs_def mg1(3) fun_eq_iff)
  then have al2: "allocs (chunk_at mg2) = (allocs ?V)(r \<mapsto> n)" using P(3) by simp
  have "unat al \<le> 4096" using al by (simp add: dvd_imp_le)
  then have asr: "al \<le> PageSize" "\<not> PageSize < n" using n(2) by (simp_all add: word_le_nat_alt leD)
  have "RequestOnePage MapBaseAddress (mg, m) = Some ((mg1, m'), Inr (mg_next mg))"
    using r(1,2) m'(1) mg1(1) by (simp add: RequestOnePage_def del: PageSize_simps)
  then have run: "Allocate n al (mg, m) = Some ((mg2, m'), Inr r)"
    using asr f h1 mg2(1) by (simp add: Allocate_def mgr_then_def del: PageSize_simps)
  have "getPage x m' = getPage x m" if "getPage x m \<noteq> None" for x
    using m'(3) [of x] free [of x] that cov by auto
  then show ?thesis using run mg2(2) P(1,2) al2 m'(2) V1(2) by (intro exI [of _ mg2] exI [of _ m']) (simp add: mgr_inv_def allocs_def [of ?V r])
qed

end
