(* ===== verification/SimManagerClient.thy ===== *)
theory SimManagerClient
  imports SimManagerOps
begin

text \<open>
  Correctness of the allocator: what \<^verbatim>\<open>Allocate\<close> and \<^verbatim>\<open>Free\<close> promise, and the sequences of such
  calls between which the guest uses its memory.
\<close>

section \<open>Requests larger than a page\<close>

lemma Allocate_large:
  assumes s: "mgr_inv (mg, m)" and al: "unat al dvd 4096" and n: "\<not> n \<le> PageSize" "round_up n PageSize = Some N"
  shows "Allocate n al (mg, m) = Some ((mg, m), Inl OutOfMemory) \<and>
      (\<forall>p. 0 < p \<and> 4096 dvd p \<and> p + unat N \<le> unat MapBaseAddress + 4096 \<longrightarrow> \<not> region_free m p (unat N)) \<or>
    (\<exists>mg' m' r. Allocate n al (mg, m) = Some ((mg', m'), Inr r) \<and> mgr_inv (mg', m') \<and> unat al dvd unat r \<and>
      allocs (chunk_at mg') = (allocs (chunk_at mg))(r \<mapsto> N) \<and> allocs (chunk_at mg) r = None \<and>
      (\<forall>x. getPage x m' = None \<longleftrightarrow> \<not> (unat r \<le> unat x \<and> unat x < unat r + unat N) \<and> getPage x m = None) \<and>
      (\<forall>x. getPage x m \<noteq> None \<longrightarrow> getPage x m' = getPage x m) \<and>
      4096 dvd unat r \<and> region_free m (unat r) (unat N))"
proof -
  let ?V = "chunk_at mg"
  have ok: "mgr_ok mg" "layout ?V m" "settled ?V" using s by (simp_all add: mgr_inv_def)
  have "unat al \<le> 4096" using al by (simp add: dvd_imp_le)
  then have asr: "al \<le> PageSize" "PageSize < n" using n by (simp_all add: word_le_nat_alt word_less_nat_alt not_le)
  have big: "4096 < unat n" using n(1) by (simp add: word_le_nat_alt)
  let ?R = "(unat n + 4095) div 4096 * 4096"
  have R: "?R < 2 ^ 32" "N = of_nat ?R" using n(2) by (simp_all add: round_up_def Let_def split: if_splits)
  have N: "unat N = ?R" unfolding R(2) using R(1) by (simp only: unat_of_nat take_bit_eq_mod) simp
  define k where "k = (unat n + 4095) div 4096"
  have k: "unat N = 4096 * k" "4096 * k < unat n + 4096" "unat n \<le> 4096 * k" "1 < k"
  proof -
    show "unat N = 4096 * k" by (simp add: N k_def)
    have "unat n + 4095 = 4096 * k + (unat n + 4095) mod 4096" "(unat n + 4095) mod 4096 < 4096" by (simp_all add: k_def)
    then show "4096 * k < unat n + 4096" "unat n \<le> 4096 * k" "1 < k" using big by linarith+
  qed
  let ?b = "unat MapBaseAddress"
  have b: "?b = 4096 * 753584" "MapBaseAddress = of_nat (4096 * 753584)" "page_offset MapBaseAddress = 0"
    by (simp_all add: MapBaseAddress_def page_offset_zero)
  have "page_offset N = 0" by (simp add: page_offset_zero k(1))
  then obtain r where r: "MapSpaceDown MapBaseAddress N m = Some r" "highest_free m ?b (unat N) r"
    using map_space_down_loop_run [OF k(1), of 753584 753584 m] k(4) b by (auto simp: MapSpaceDown_def)
  consider "r = - 1" "\<forall>p. 0 < p \<and> 4096 dvd p \<and> p + unat N \<le> ?b + 4096 \<longrightarrow> \<not> region_free m p (unat N)"
    | p where "r = of_nat p" "0 < p" "4096 dvd p" "p + unat N \<le> ?b + 4096" "region_free m p (unat N)"
    using r(2) unfolding highest_free_def by blast
  then show ?thesis
  proof cases
    case 1
    have "Allocate n al (mg, m) = Some ((mg, m), Inl OutOfMemory)"
      using asr n(2) r(1) 1(1) by (simp add: Allocate_def AllocateLarge_def del: PageSize_simps)
    then show ?thesis using 1(2) by blast
  next
    case 2
    obtain q where q: "p = 4096 * q" using 2(3) by (elim dvdE)
    have lim: "q + k \<le> 753585" using 2(4) q k(1) b(1) by simp
    then have u: "unat r = 4096 * q" using of_nat_page [of q] q 2(1) by simp
    let ?c = "a_pointer r N"
    have c: "start ?c = unat r" "stop ?c = unat r + unat N" by (simp_all add: start_def stop_def)
    have cov: "covers ?c x \<longleftrightarrow> unat r \<le> x \<and> x < unat r + unat N" for x unfolding covers_def c by (rule refl)
    have ck: "chunk_ok r ?c" using c u k(1,4) lim by (simp add: chunk_ok_def)
    have d: "4096 dvd start ?c" "4096 dvd unat (ch_size ?c)" using c u k(1) by simp_all
    have free: "getPage x m = None" if "covers ?c (unat x)" for x using 2(5) that unfolding region_free_def cov q u by blast
    obtain m' where m': "Map r n 7 m = Some m'"
        "\<And>x. getPage x m' = None \<longleftrightarrow> \<not> (unat r \<le> unat x \<and> unat x < unat r + 4096 * k) \<and> getPage x m = None"
        "\<And>x. \<not> (unat r \<le> unat x \<and> unat x < unat r + 4096 * k) \<Longrightarrow> getPage x m' = getPage x m"
      by (rule Map_pages [of r q k n 7 m]) (use u k lim big in \<open>simp_all add: that\<close>)
    have mm: "getPage x m' = None \<longleftrightarrow> \<not> covers ?c (unat x) \<and> getPage x m = None" for x using m'(2) cov k(1) by simp
    note V1 = layout_add [OF ok(2) ck d free mm]
    obtain mg' where mg': "CreatePointer r N mg = Some (mg', mg_next mg)" "mgr_ok mg'" "chunk_at mg' = ?V(r \<mapsto> ?c)"
      by (rule CreatePointer_run [OF ok(1) V1(2)])
    have "\<not> meet (chunk_at mg') j j'" for j j'
    proof
      assume "meet (chunk_at mg') j j'"
      then have "meet ?V j j'" unfolding meet_def mg'(3) by (auto split: if_splits)
      then show False using ok(3) unfolding settled_def by blast
    qed
    moreover have "\<not> whole_hole (chunk_at mg') j" for j
    proof
      assume "whole_hole (chunk_at mg') j"
      then have "whole_hole ?V j" unfolding whole_hole_def mg'(3) by (auto split: if_splits)
      then show False using ok(3) unfolding settled_def by blast
    qed
    ultimately have inv: "mgr_inv (mg', m')" using mg'(2,3) V1(1) by (simp add: mgr_inv_def settled_def)
    have al': "allocs (chunk_at mg') = (allocs ?V)(r \<mapsto> N)" by (auto simp: allocs_def mg'(3) fun_eq_iff)
    have "unat al dvd unat r" using al u by (metis dvd_mult2)
    moreover have "r \<noteq> - 1"
    proof
      assume "r = - 1"
      then have "r = 0xffffffff" by simp
      then show False using u lim k(4) by simp
    qed
    then have "Allocate n al (mg, m) = Some ((mg', m'), Inr r)"
      using asr n(2) r(1) m'(1) mg'(1) by (simp add: Allocate_def AllocateLarge_def del: PageSize_simps)
    moreover have "getPage x m' = getPage x m" if "getPage x m \<noteq> None" for x using m'(3) [of x] free [of x] that cov k(1) by auto
    moreover have "allocs ?V r = None" using V1(2) by (simp add: allocs_def)
    moreover have "4096 dvd unat r" "region_free m (unat r) (unat N)" using u 2(5) q by simp_all
    ultimately show ?thesis using inv al' m'(2) k(1) by (intro disjI2 exI [of _ mg'] exI [of _ m'] exI [of _ r]) simp
  qed
qed

section \<open>All requests\<close>

text \<open>The size that a request is granted, and why a request fails.\<close>

definition granted :: "32 word \<Rightarrow> 32 word" where
  "granted n = (if n \<le> PageSize then n else of_nat ((unat n + 4095) div 4096 * 4096))"

definition no_space :: "32 word \<Rightarrow> mgr_state \<Rightarrow> bool" where
  "no_space n s \<longleftrightarrow> (if n \<le> PageSize then \<forall>x \<ge> MapBaseAddress. getPage x (snd s) \<noteq> None
     else \<forall>p. 0 < p \<and> 4096 dvd p \<and> p + unat (granted n) \<le> unat MapBaseAddress + 4096 \<longrightarrow>
       \<not> region_free (snd s) p (unat (granted n)))"

lemma N_dvd:
  assumes "round_up n PageSize = Some N"
  shows "4096 dvd unat N"
proof -
  let ?r = "(unat n + 4095) div 4096 * 4096"
  have r: "?r < 2 ^ 32" "N = of_nat ?r" using assms by (simp_all add: round_up_def Let_def split: if_splits)
  have "unat N = ?r" unfolding r(2) using r(1) by (simp only: unat_of_nat take_bit_eq_mod) simp
  then show ?thesis by simp
qed

lemma no_hole_holds:
  assumes ok: "mgr_ok mg" "layout (chunk_at mg) m"
    and f: "\<forall>(sz, i) \<in> set (lower_bound n (mg_holes mg)). \<forall>a. (a, i) \<in> set (mg_chunks mg) \<longrightarrow> \<not> holds (chunk_at mg) n al a"
  shows "\<not> holds (chunk_at mg) n al k"
proof
  assume h: "holds (chunk_at mg) n al k"
  then obtain c b where c: "chunk_at mg k = Some c" "\<not> ch_is_allocated c" "fits c b n" unfolding holds_def by blast
  obtain i where i: "(k, i) \<in> set (mg_chunks mg)" "mg_heap mg i = Some c" using chunk_at_Some [OF ok(1)] c(1) by blast
  have "(ch_size c, i) \<in> set (mg_holes mg)" using i(2) c(2) mgr_okD(8) [OF ok(1)] by (auto simp: free_chunks_def)
  moreover have "n \<le> ch_size c" using c(3) by (simp add: fits_def stop_def word_le_nat_alt)
  moreover have "e \<in> set (takeWhile P xs) \<Longrightarrow> P e" for e P and xs :: "(32 word \<times> nat) list" by (rule set_takeWhileD [THEN conjunct2])
  moreover have "set xs = set (takeWhile P xs) \<union> set (dropWhile P xs)" for P and xs :: "(32 word \<times> nat) list"
    by (metis set_append takeWhile_dropWhile_id)
  ultimately have "(ch_size c, i) \<in> set (lower_bound n (mg_holes mg))"
    unfolding lower_bound_def by (metis (mono_tags, lifting) Un_iff case_prod_conv leD)
  then show False using f i(1) h by blast
qed

lemma Allocate_run:
  assumes s: "mgr_inv s" and al: "unat al dvd 4096" and n: "0 < n" "unat n \<le> 2 ^ 32 - 4096" and pb: "page_below (snd s)"
  shows "Allocate n al s = Some (s, Inl OutOfMemory) \<and> no_space n s \<or>
    (\<exists>s' b. Allocate n al s = Some (s', Inr b) \<and> mgr_inv s' \<and> unat al dvd unat b \<and> allocated s b = None \<and>
      allocated s' = (allocated s)(b \<mapsto> granted n) \<and> grows (snd s) (snd s') (allocated s) (allocated s') \<and>
      ((\<exists>k. holds (chunk_at (fst s)) n al k) \<and> n \<le> PageSize \<longrightarrow> snd s' = snd s))"
proof -
  obtain mg m where sm: "s = (mg, m)" by fastforce
  have ok: "mgr_ok mg" "layout (chunk_at mg) m" using s by (simp_all add: sm mgr_inv_def)
  have pos: "0 < unat n" using n(1) by (simp add: word_less_nat_alt)
  have used: "in_use (allocs (chunk_at mg')) x \<longleftrightarrow> covered (chunk_at mg') x" if "mgr_inv (mg', m')" for mg' m' x
    using in_use_iff [OF that] by (simp add: allocated_def)
  have stays: "grows m m (allocs (chunk_at mg)) (allocs (chunk_at mg'))"
    if i: "mgr_inv (mg', m)" "\<forall>x. covered (chunk_at mg') x \<longleftrightarrow> covered (chunk_at mg) x" for mg'
  proof -
    have "layout (chunk_at mg') m" using i(1) by (simp add: mgr_inv_def)
    then show ?thesis using layoutD(4) i(2) unfolding grows_def used [OF i(1)] used [OF s [unfolded sm]] by blast
  qed
  have new: "grows m m' (allocs (chunk_at mg)) (allocs (chunk_at mg'))"
    if i: "mgr_inv (mg', m')" and A: "allocs (chunk_at mg') = (allocs (chunk_at mg))(r \<mapsto> z)"
      and w: "\<And>x. getPage x m' = None \<longleftrightarrow> \<not> (unat r \<le> unat x \<and> unat x < unat r + 4096 * w) \<and> getPage x m = None"
      and keep: "\<And>x. getPage x m \<noteq> None \<Longrightarrow> getPage x m' = getPage x m"
      and u: "\<And>x. unat r \<le> x \<Longrightarrow> x < unat r + 4096 * w \<Longrightarrow> in_use (allocs (chunk_at mg')) x"
      and fr: "unat r = 4096 * q" "region_free m (unat r) (4096 * w)" "unat z \<le> 4096 * w" for mg' m' r z w q
  proof -
    have mapped: "getPage x m' \<noteq> None" if "in_use (allocs (chunk_at mg')) (unat x)" for x
      using i layoutD(4) [of "chunk_at mg'" m' x] that unfolding used [OF i] by (simp add: mgr_inv_def)
    have old: "in_use (allocs (chunk_at mg)) (unat x)" if x: "in_use (allocs (chunk_at mg')) (unat x)" "getPage x m \<noteq> None" for x
    proof -
      obtain k l y where k: "allocs (chunk_at mg') k = Some l" "unat k \<le> y" "y < unat k + unat l" "y div 4096 = unat x div 4096"
        using x(1) unfolding in_use_def by blast
      have "k \<noteq> r"
      proof
        assume "k = r"
        then have y: "4096 * q \<le> y" "y < 4096 * (q + w)" using k(1,2,3) A fr(1,3) by simp_all
        then have "q \<le> unat x div 4096" "unat x div 4096 < q + w" unfolding k(4) [symmetric] by simp_all
        then have "unat r \<le> unat x" "unat x < unat r + 4096 * w" using fr(1) by simp_all
        then have "getPage x m = None" using fr(2) unfolding region_free_def by blast
        then show False using x(2) by simp
      qed
      then have "allocs (chunk_at mg) k = Some l" using k(1) A by simp
      then show ?thesis using k(2-4) unfolding in_use_def by blast
    qed
    show ?thesis unfolding grows_def using w keep u mapped old by metis
  qed
  show ?thesis
  proof (cases "n \<le> PageSize")
    case small: True
    have g: "granted n = n" using small by (simp add: granted_def)
    have hs: "set (lower_bound n (mg_holes mg)) \<subseteq> set (mg_holes mg)" unfolding lower_bound_def by (auto dest: set_dropWhileD)
    show ?thesis
      using find_hole_run [OF ok al small hs]
    proof (elim disjE exE conjE)
      fix i a c b assume f: "find_hole n al mg (lower_bound n (mg_holes mg)) = Some (Some i)" "(a, i) \<in> set (mg_chunks mg)"
        "chunk_at mg a = Some c" "\<not> ch_is_allocated c" "round_up a al = Some b" "unat al dvd unat b" "fits c b n"
      obtain mg' where a: "Allocate n al (mg, m) = Some ((mg', m), Inr b)" "mgr_inv (mg', m)"
          "allocs (chunk_at mg') = (allocs (chunk_at mg))(b \<mapsto> n)" "allocs (chunk_at mg) b = None"
          "\<forall>x. covered (chunk_at mg') x \<longleftrightarrow> covered (chunk_at mg) x"
        using Allocate_in_hole [OF s [unfolded sm] al pos small f(1-5,7)] by blast
      have "grows m m (allocs (chunk_at mg)) ((allocs (chunk_at mg))(b \<mapsto> n))" using stays [OF a(2,5)] unfolding a(3) .
      then show ?thesis using a(1-4) f(6) g by (intro disjI2 exI [of _ "(mg', m)"] exI [of _ b]) (simp add: sm allocated_def)
    next
      assume f: "find_hole n al mg (lower_bound n (mg_holes mg)) = Some None"
        "\<forall>(sz, i) \<in> set (lower_bound n (mg_holes mg)). \<forall>a. (a, i) \<in> set (mg_chunks mg) \<longrightarrow> \<not> holds (chunk_at mg) n al a"
      have none: "\<not> holds (chunk_at mg) n al k" for k
        using no_hole_holds [OF ok f(2)] .
      show ?thesis
        using MapSpace_page [OF pb [unfolded sm snd_conv]]
      proof (elim disjE exE conjE)
        assume r: "MapSpace MapBaseAddress PageSize m = Some (- 1)" "\<forall>x \<ge> MapBaseAddress. getPage x m \<noteq> None"
        have "unat al \<le> 4096" using al by (simp add: dvd_imp_le)
        then have asr: "al \<le> PageSize" "\<not> PageSize < n" using small by (simp_all add: word_le_nat_alt leD)
        have "Allocate n al (mg, m) = Some ((mg, m), Inl OutOfMemory)"
          using asr f(1) r(1) by (simp add: Allocate_def RequestOnePage_def mgr_then_def del: PageSize_simps)
        then show ?thesis using r(2) small by (simp add: no_space_def sm del: PageSize_simps)
      next
        fix r q assume r: "MapSpace MapBaseAddress PageSize m = Some r" "r \<noteq> - 1" "unat r = 4096 * q" "q + 1 < 1048576"
          "region_free m (4096 * q) 4096"
        obtain mg' m' where a: "Allocate n al (mg, m) = Some ((mg', m'), Inr r)" "mgr_inv (mg', m')"
            "allocs (chunk_at mg') = (allocs (chunk_at mg))(r \<mapsto> n)" "allocs (chunk_at mg) r = None"
            "\<forall>x. getPage x m' = None \<longleftrightarrow> \<not> (unat r \<le> unat x \<and> unat x < unat r + 4096) \<and> getPage x m = None"
            "\<forall>x. getPage x m \<noteq> None \<longrightarrow> getPage x m' = getPage x m"
          using Allocate_new_page [OF s [unfolded sm] al pos small f(1) r] by blast
        have "in_use (allocs (chunk_at mg')) x" if x: "unat r \<le> x" "x < unat r + 4096" for x
        proof -
          have "x div 4096 = q" using x r(3) by simp
          then show ?thesis unfolding in_use_def a(3) using pos r(3) by (intro exI [of _ r] exI [of _ n] exI [of _ "unat r"]) simp
        qed
        moreover have "unat n \<le> 4096" using small by (simp add: word_le_nat_alt)
        ultimately have "grows m m' (allocs (chunk_at mg)) (allocs (chunk_at mg'))"
          using a(5,6) r(3,5) by (intro new [OF a(2,3), of 1 q]) simp_all
        moreover have "unat al dvd unat r" using al r(3) by (metis dvd_mult2)
        ultimately show ?thesis using a(1-4) g none by (intro disjI2 exI [of _ "(mg', m')"] exI [of _ r]) (simp add: sm allocated_def)
      qed
    qed
  next
    case large: False
    have "unat PageSize dvd 4096" by simp
    then obtain N where N: "round_up n PageSize = Some N" by (rule round_up_run [OF _ n(2)])
    then have g: "granted n = N" using large by (simp add: granted_def round_up_def Let_def split: if_splits)
    show ?thesis
      using Allocate_large [OF s [unfolded sm] al large N]
    proof (elim disjE exE conjE)
      fix mg' m' r assume a: "Allocate n al (mg, m) = Some ((mg', m'), Inr r)" "mgr_inv (mg', m')" "unat al dvd unat r"
        "allocs (chunk_at mg') = (allocs (chunk_at mg))(r \<mapsto> N)" "allocs (chunk_at mg) r = None"
        "\<forall>x. getPage x m' = None \<longleftrightarrow> \<not> (unat r \<le> unat x \<and> unat x < unat r + unat N) \<and> getPage x m = None"
        "\<forall>x. getPage x m \<noteq> None \<longrightarrow> getPage x m' = getPage x m" "4096 dvd unat r" "region_free m (unat r) (unat N)"
      have "in_use (allocs (chunk_at mg')) x" if x: "unat r \<le> x" "x < unat r + unat N" for x
        unfolding in_use_def a(4) using x by (intro exI [of _ r] exI [of _ N] exI [of _ x]) simp
      moreover have "4096 dvd unat N" by (rule N_dvd [OF N])
      then obtain w q where wq: "unat N = 4096 * w" "unat r = 4096 * q" using a(8) by (elim dvdE)
      ultimately have "grows m m' (allocs (chunk_at mg)) (allocs (chunk_at mg'))"
        using a(6,7,9) by (intro new [OF a(2,4), of w q]) simp_all
      then show ?thesis using a(1-5) g large by (intro disjI2 exI [of _ "(mg', m')"] exI [of _ r]) (simp add: sm allocated_def)
    qed (use g large in \<open>simp add: sm no_space_def\<close>)
  qed
qed

section \<open>Sequences of calls\<close>

text \<open>
  Between the calls the guest may do with its memory what it wants, as long as it keeps the pages of the
  chunks it was given. The address of a chunk reads as it was after the chunk is freed.
\<close>

definition keeps :: "chunk \<Rightarrow> 32 word option" where
  "keeps c = Some (ch_address c)"

inductive mgr_reach :: "mgr_state \<Rightarrow> bool" where
  mgr_start: "mgr_reach (manager_create, m)"
| mgr_guest: "mgr_reach (mg, m) \<Longrightarrow> \<forall>x. in_use (allocated (mg, m)) (unat x) \<longrightarrow> getPage x m' \<noteq> None \<Longrightarrow> mgr_reach (mg, m')"
| mgr_alloc: "mgr_reach s \<Longrightarrow> unat al dvd 4096 \<Longrightarrow> 0 < n \<Longrightarrow> unat n \<le> 2 ^ 32 - 4096 \<Longrightarrow> page_below (snd s) \<Longrightarrow>
    Allocate n al s = Some (s', r) \<Longrightarrow> mgr_reach s'"
| mgr_free: "mgr_reach s \<Longrightarrow> allocated s a \<noteq> None \<Longrightarrow> Free keeps a s = Some (s', r) \<Longrightarrow> mgr_reach s'"

lemma mgr_inv_create: "mgr_inv (manager_create, m)"
  by (simp add: mgr_inv_def mgr_ok_def manager_create_def layout_def settled_def chunk_at_def free_chunks_def apart_def
      whole_pages_def covered_def meet_def whole_hole_def)

lemma mgr_inv_guest:
  assumes "mgr_inv (mg, m)" "\<forall>x. in_use (allocated (mg, m)) (unat x) \<longrightarrow> getPage x m' \<noteq> None"
  shows "mgr_inv (mg, m')"
  using assms in_use_iff [OF assms(1)] by (simp add: mgr_inv_def layout_def)

lemma mgr_reach_inv: "mgr_reach s \<Longrightarrow> mgr_inv s"
proof (induction rule: mgr_reach.induct)
  case (mgr_start m)
  show ?case by (rule mgr_inv_create)
next
  case (mgr_guest mg m m')
  show ?case by (rule mgr_inv_guest [OF mgr_guest.IH mgr_guest.hyps(2)])
next
  case (mgr_alloc s al n s' r)
  then show ?case using Allocate_run [OF mgr_alloc.IH mgr_alloc.hyps(2-5)] by auto
next
  case (mgr_free s a s' r)
  obtain n where "allocated s a = Some n" using mgr_free.hyps(2) by blast
  then show ?case using Free_run [OF mgr_free.IH, of a n keeps] mgr_free.hyps(3) by (auto simp: keeps_def)
qed

lemma mgr_inv_chunks:
  assumes s: "mgr_inv s" and a: "allocated s a = Some n"
  shows "0 < n" "unat a + unat n \<le> 2 ^ 32 - 4096"
    "unat a \<le> unat x \<Longrightarrow> unat x < unat a + unat n \<Longrightarrow> getPage x (snd s) \<noteq> None"
    "allocated s b = Some k \<Longrightarrow> a \<noteq> b \<Longrightarrow> unat a + unat n \<le> unat b \<or> unat b + unat k \<le> unat a"
proof -
  let ?V = "chunk_at (fst s)"
  have L: "layout ?V (snd s)" using s by (simp add: mgr_inv_def)
  obtain c where c: "?V a = Some c" "ch_size c = n" using a by (auto simp: allocated_def allocs_Some)
  have ck: "chunk_ok a c" by (rule layoutD(1) [OF L c(1)])
  have ends: "start c = unat a" "stop c = unat a + unat n" using ck c(2) by (simp_all add: start_at stop_def)
  show "0 < n" "unat a + unat n \<le> 2 ^ 32 - 4096" using ck ends c(2) by (simp_all add: chunk_ok_def word_less_nat_alt)
  show "getPage x (snd s) \<noteq> None" if "unat a \<le> unat x" "unat x < unat a + unat n"
    by (rule layoutD(4) [OF L]) (use c(1) that ends in \<open>force simp: covered_def covers_def\<close>)
  show "unat a + unat n \<le> unat b \<or> unat b + unat k \<le> unat a" if b: "allocated s b = Some k" "a \<noteq> b"
  proof -
    obtain d where d: "?V b = Some d" "ch_size d = k" using b(1) by (auto simp: allocated_def allocs_Some)
    have dk: "chunk_ok b d" by (rule layoutD(1) [OF L d(1)])
    then have "start d = unat b" "stop d = unat b + unat k" using d(2) by (simp_all add: start_at stop_def)
    then show ?thesis using chunk_order [OF L c(1) d(1)] chunk_order [OF L d(1) c(1)] ends b(2) by (metis linorder_neqE)
  qed
qed

section \<open>Runs on a new manager\<close>

text \<open>A manager from the address, identifier, size and kind of its chunks, and the memory with the first page it maps.\<close>

definition shape :: "(32 word \<times> nat \<times> 32 word \<times> bool) list \<Rightarrow> (32 word \<times> nat) list \<Rightarrow> nat \<Rightarrow> manager" where
  "shape cs hs n = \<lparr>mg_heap = map_of (map (\<lambda>(a, i, z, p). (i, \<lparr>ch_address = a, ch_size = z, ch_is_allocated = p\<rparr>)) cs), mg_next = n,
     mg_chunks = map (\<lambda>(a, i, _). (a, i)) cs, mg_holes = hs\<rparr>"

definition first_page :: memory_t where
  "first_page = memory_create\<lparr>m_pages := [0xb7fb0000 \<mapsto> \<lparr>pg_tag = 0xb7fb0000, pg_perm = 7, pg_data = None\<rparr>]\<rparr>"

lemma first_MapSpace: "MapSpace MapBaseAddress PageSize memory_create = Some 0xb7fb0000"
  by (subst MapSpace_def, subst map_space_loop.simps) (simp add: getPage_def memory_create_def MapBaseAddress_def page_offset_def page_tag_def)

lemma first_Map: "Map 0xb7fb0000 PageSize 7 memory_create = Some first_page"
  by (subst Map_def, subst tag_loop.simps, subst tag_loop.simps)
     (simp add: page_tag_def map_page_def first_page_def memory_create_def getPage_def set_page_def addPerm_def)

lemma page_below_first: "page_below memory_create" "page_below first_page"
proof -
  have "\<exists>x. MapBaseAddress \<le> x \<and> x < 0xfffff000 \<and> getPage x memory_create = None"
    by (rule exI [of _ MapBaseAddress]) (simp add: MapBaseAddress_def getPage_def memory_create_def)
  moreover have "\<exists>x. MapBaseAddress \<le> x \<and> x < 0xfffff000 \<and> getPage x first_page = None"
    by (rule exI [of _ "0xb7fb1000"]) (simp add: MapBaseAddress_def getPage_def first_page_def memory_create_def page_tag_def)
  ultimately show "page_below memory_create" "page_below first_page" unfolding page_below_def by blast+
qed

lemmas run_simps = shape_def Allocate_def AllocateIn_def canHoleContain_def getNextAlignedAddress_def round_up_def Let_def
  lower_bound_def entries_before_def map_insert_def multimap_insert_def erase_entry_def RemoveHole_def CreateHole_def CreatePointer_def
  mgr_then_def RequestOnePage_def Free_def RemovePointer_def MergeHoles_def merge_forward_def merge_back_def release_page_def
  isInSamePage_def keeps_def Merge2Holes_def isValidAddress_def getEndAddress_def

abbreviation (input) one_chunk :: manager where
  "one_chunk \<equiv> shape [(0xb7fb0000, 2, 8, True), (0xb7fb0008, 1, 4088, False)] [(4088, 1)] 3"

abbreviation (input) two_chunks :: manager where
  "two_chunks \<equiv> shape [(0xb7fb0000, 2, 8, True), (0xb7fb0008, 4, 8, True), (0xb7fb0010, 3, 4080, False)] [(4080, 3)] 5"

abbreviation (input) first_freed :: manager where
  "first_freed \<equiv> shape [(0xb7fb0000, 5, 8, False), (0xb7fb0008, 4, 8, True), (0xb7fb0010, 3, 4080, False)] [(8, 5), (4080, 3)] 6"

abbreviation (input) freed_twice :: manager where
  "freed_twice \<equiv> shape [(0xb7fb0000, 6, 8, False), (0xb7fb0008, 4, 8, True), (0xb7fb0010, 3, 4080, False)]
     [(8, 5), (8, 6), (4080, 3)] 7"

lemma runs:
  "Allocate 8 8 (manager_create, memory_create) = Some ((one_chunk, first_page), Inr 0xb7fb0000)"
  "Allocate 8 8 (one_chunk, first_page) = Some ((two_chunks, first_page), Inr 0xb7fb0008)"
  "Free keeps 0xb7fb0000 (two_chunks, first_page) = Some ((first_freed, first_page), Inr ())"
  "Free keeps 0xb7fb0000 (first_freed, first_page) = Some ((freed_twice, first_page), Inr ())"
  by (simp_all add: run_simps manager_create_def first_MapSpace [simplified] first_Map [simplified] fun_eq_iff)

lemma first_reach: "mgr_reach (one_chunk, first_page)" "mgr_reach (two_chunks, first_page)"
proof -
  show 1: "mgr_reach (one_chunk, first_page)"
    by (rule mgr_alloc [OF mgr_start _ _ _ _ runs(1)]) (simp_all add: page_below_first)
  show "mgr_reach (two_chunks, first_page)" by (rule mgr_alloc [OF 1 _ _ _ _ runs(2)]) (simp_all add: page_below_first)
qed

lemma two_allocated:
  "allocated (one_chunk, first_page) = [0xb7fb0000 \<mapsto> 8]"
  "allocated (two_chunks, first_page) = [0xb7fb0000 \<mapsto> 8, 0xb7fb0008 \<mapsto> 8]"
  by (simp_all add: allocated_def allocs_def chunk_at_def shape_def fun_eq_iff)

section \<open>Properties\<close>








end
