(* ===== verification/SimRegisterFile.thy ===== *)
theory SimRegisterFile
  imports CPrelude
begin

text \<open>
  Register renaming in the x86 timing model: \<^verbatim>\<open>arch/x86/timing/RegisterFile.cc\<close>, the part of
  \<^verbatim>\<open>Uop.cc\<close> that counts dependences, and the micro-instructions of \<^verbatim>\<open>emulator/Uinst.h\<close> that it
  works on.

  The register file has three classes of registers, for integers, floating-point numbers and XMM values. The
  code repeats each step for the three, with fields of their own; the model has the fields once, in a
  record \<open>reg_class\<close>, and the steps with the class as an argument. The counters of the core, which several register files share, are
  in that record too, and the sizes, which are static members, as well. \<^verbatim>\<open>int\<close> values are integers:
  none of them leaves its range before the counters of statistics do. \<^term>\<open>None\<close> is a failed assertion or an access outside of an array.
\<close>

section \<open>Arrays indexed by \<^verbatim>\<open>int\<close>\<close>

definition rd_int :: "'a list \<Rightarrow> int \<Rightarrow> 'a option" where
  "rd_int a i = (if 0 \<le> i then rd a (nat i) else None)"

definition wr_int :: "'a list \<Rightarrow> int \<Rightarrow> 'a \<Rightarrow> 'a list option" where
  "wr_int a i v = (if 0 \<le> i then wr a (nat i) v else None)"

section \<open>Micro-instructions\<close>

datatype (plugins only: code size) opcode =
    OpcodeNop | OpcodeMove | OpcodeAdd | OpcodeSub | OpcodeMult | OpcodeDiv | OpcodeEffaddr | OpcodeAnd
    | OpcodeOr | OpcodeXor | OpcodeNot | OpcodeShift | OpcodeSign | OpcodeFpMove | OpcodeFpSign
    | OpcodeFpRound | OpcodeFpAdd | OpcodeFpSub | OpcodeFpComp | OpcodeFpMult | OpcodeFpDiv | OpcodeFpExp
    | OpcodeFpLog | OpcodeFpSin | OpcodeFpCos | OpcodeFpSincos | OpcodeFpTan | OpcodeFpAtan | OpcodeFpSqrt
    | OpcodeFpPush | OpcodeFpPop | OpcodeXmmAnd | OpcodeXmmOr | OpcodeXmmXor | OpcodeXmmNot | OpcodeXmmNand
    | OpcodeXmmShift | OpcodeXmmSign | OpcodeXmmAdd | OpcodeXmmSub | OpcodeXmmComp | OpcodeXmmMult
    | OpcodeXmmDiv | OpcodeXmmFpAdd | OpcodeXmmFpSub | OpcodeXmmFpComp | OpcodeXmmFpMult | OpcodeXmmFpDiv
    | OpcodeXmmFpSqrt | OpcodeXmmMove | OpcodeXmmShuf | OpcodeXmmConv | OpcodeLoad | OpcodeStore
    | OpcodePrefetch | OpcodeCall | OpcodeRet | OpcodeJump | OpcodeBranch | OpcodeIbranch | OpcodeSyscall

definition DepNone :: int where "DepNone = 0"
definition DepIntFirst :: int where "DepIntFirst = 1"
definition DepIntLast :: int where "DepIntLast = 22"
definition DepIntCount :: int where "DepIntCount = DepIntLast - DepIntFirst + 1"
definition DepFlagFirst :: int where "DepFlagFirst = 15"
definition DepFlagLast :: int where "DepFlagLast = 18"
definition DepFpFirst :: int where "DepFpFirst = 23"
definition DepFpLast :: int where "DepFpLast = 33"
definition DepFpCount :: int where "DepFpCount = DepFpLast - DepFpFirst + 1"
definition DepFpst :: int where "DepFpst = 31"
definition DepFpcw :: int where "DepFpcw = 32"
definition DepFpaux :: int where "DepFpaux = 33"
definition DepXmmFirst :: int where "DepXmmFirst = 34"
definition DepXmmLast :: int where "DepXmmLast = 42"
definition DepXmmCount :: int where "DepXmmCount = DepXmmLast - DepXmmFirst + 1"

lemmas dep_defs = DepNone_def DepIntFirst_def DepIntLast_def DepIntCount_def DepFlagFirst_def DepFlagLast_def DepFpFirst_def
  DepFpLast_def DepFpCount_def DepFpst_def DepFpcw_def DepFpaux_def DepXmmFirst_def DepXmmLast_def DepXmmCount_def

definition MaxIDeps :: nat where "MaxIDeps = 3"
definition MaxODeps :: nat where "MaxODeps = 4"
definition MaxDeps :: nat where "MaxDeps = MaxIDeps + MaxODeps"

definition isIntegerDependency :: "int \<Rightarrow> bool" where
  "isIntegerDependency dep \<longleftrightarrow> dep \<ge> DepIntFirst \<and> dep \<le> DepIntLast"

definition isFloatingPointDependency :: "int \<Rightarrow> bool" where
  "isFloatingPointDependency dep \<longleftrightarrow> dep \<ge> DepFpFirst \<and> dep \<le> DepFpLast"

definition isXmmDependency :: "int \<Rightarrow> bool" where
  "isXmmDependency dep \<longleftrightarrow> dep \<ge> DepXmmFirst \<and> dep \<le> DepXmmLast"

definition isFlagDependency :: "int \<Rightarrow> bool" where
  "isFlagDependency dep \<longleftrightarrow> dep \<ge> DepFlagFirst \<and> dep \<le> DepFlagLast"

definition isValidDependency :: "int \<Rightarrow> bool" where
  "isValidDependency dep \<longleftrightarrow> isIntegerDependency dep \<or> isFloatingPointDependency dep \<or> isXmmDependency dep"

record uinst =
  ui_opcode :: opcode
  ui_dep :: "int list"

definition uinst_new :: "opcode \<Rightarrow> uinst" where
  "uinst_new opc = \<lparr>ui_opcode = opc, ui_dep = replicate MaxDeps DepNone\<rparr>"

definition getDep :: "nat \<Rightarrow> uinst \<Rightarrow> int option" where
  "getDep index ui = do { c_assert (index < MaxDeps); rd (ui_dep ui) index }"

definition getIDep :: "nat \<Rightarrow> uinst \<Rightarrow> int option" where
  "getIDep index ui = do { c_assert (index < MaxIDeps); rd (ui_dep ui) index }"

definition getODep :: "nat \<Rightarrow> uinst \<Rightarrow> int option" where
  "getODep index ui = do { c_assert (index < MaxODeps); rd (ui_dep ui) (MaxIDeps + index) }"

definition setDep :: "nat \<Rightarrow> int \<Rightarrow> uinst \<Rightarrow> uinst option" where
  "setDep index dep ui = do { c_assert (index < MaxDeps); d \<leftarrow> wr (ui_dep ui) index dep; Some (ui\<lparr>ui_dep := d\<rparr>) }"

definition setIDep :: "nat \<Rightarrow> int \<Rightarrow> uinst \<Rightarrow> uinst option" where
  "setIDep index dep ui = do { c_assert (index < MaxIDeps); d \<leftarrow> wr (ui_dep ui) index dep; Some (ui\<lparr>ui_dep := d\<rparr>) }"

definition setODep :: "nat \<Rightarrow> int \<Rightarrow> uinst \<Rightarrow> uinst option" where
  "setODep index dep ui = do { c_assert (index < MaxODeps); d \<leftarrow> wr (ui_dep ui) (MaxIDeps + index) dep; Some (ui\<lparr>ui_dep := d\<rparr>) }"

text \<open>The first unused position among the \<open>n\<close> dependences from \<open>base\<close> on, or \<open>n\<close>.\<close>

function free_dep :: "nat \<Rightarrow> nat \<Rightarrow> nat \<Rightarrow> uinst \<Rightarrow> nat option" where
  "free_dep base n index ui = (if index < n then do {
     d \<leftarrow> rd (ui_dep ui) (base + index);
     if d = DepNone then Some index else free_dep base n (Suc index) ui } else Some index)"
  by pat_completeness auto
termination
  by (relation "measure (\<lambda>(_, n, index, _). n - index)") auto

definition addIDep :: "int \<Rightarrow> uinst \<Rightarrow> (uinst \<times> bool) option" where
  "addIDep dep ui = do {
     index \<leftarrow> free_dep 0 MaxIDeps 0 ui;
     if index = MaxIDeps then Some (ui, False)
     else do { d \<leftarrow> wr (ui_dep ui) index dep; Some (ui\<lparr>ui_dep := d\<rparr>, True) } }"

definition addODep :: "int \<Rightarrow> uinst \<Rightarrow> (uinst \<times> bool) option" where
  "addODep dep ui = do {
     index \<leftarrow> free_dep MaxIDeps MaxODeps 0 ui;
     if index = MaxODeps then Some (ui, False)
     else do { d \<leftarrow> wr (ui_dep ui) (MaxIDeps + index) dep; Some (ui\<lparr>ui_dep := d\<rparr>, True) } }"

section \<open>Uops\<close>

text \<open>The fields of a \<^verbatim>\<open>Uop\<close> that renaming and the ends of the pipeline use.\<close>

record uop =
  uo_uinst :: uinst
  uo_inputs :: "int list"
  uo_outputs :: "int list"
  uo_old_outputs :: "int list"
  uo_num_inputs :: int
  uo_num_outputs :: int
  uo_num_integer_inputs :: int
  uo_num_integer_outputs :: int
  uo_num_floating_point_inputs :: int
  uo_num_floating_point_outputs :: int
  uo_num_xmm_inputs :: int
  uo_num_xmm_outputs :: int
  uo_speculative_mode :: bool
  uo_ready :: bool
  uo_completed :: bool

definition setInput :: "nat \<Rightarrow> int \<Rightarrow> uop \<Rightarrow> uop option" where
  "setInput index physical_register u = do {
     c_assert (index < MaxIDeps);
     xs \<leftarrow> wr (uo_inputs u) index physical_register;
     Some (u\<lparr>uo_inputs := xs\<rparr>) }"

definition setOutput :: "nat \<Rightarrow> int \<Rightarrow> uop \<Rightarrow> uop option" where
  "setOutput index physical_register u = do {
     c_assert (index < MaxODeps);
     xs \<leftarrow> wr (uo_outputs u) index physical_register;
     Some (u\<lparr>uo_outputs := xs\<rparr>) }"

definition setOldOutput :: "nat \<Rightarrow> int \<Rightarrow> uop \<Rightarrow> uop option" where
  "setOldOutput index physical_register u = do {
     c_assert (index < MaxODeps);
     xs \<leftarrow> wr (uo_old_outputs u) index physical_register;
     Some (u\<lparr>uo_old_outputs := xs\<rparr>) }"

definition getInput :: "nat \<Rightarrow> uop \<Rightarrow> int option" where
  "getInput index u = do { c_assert (index < MaxIDeps); rd (uo_inputs u) index }"

definition getOutput :: "nat \<Rightarrow> uop \<Rightarrow> int option" where
  "getOutput index u = do { c_assert (index < MaxODeps); rd (uo_outputs u) index }"

definition getOldOutput :: "nat \<Rightarrow> uop \<Rightarrow> int option" where
  "getOldOutput index u = do { c_assert (index < MaxODeps); rd (uo_old_outputs u) index }"

text \<open>The counts are of integer, floating-point, flag and XMM dependences.\<close>

definition count_dependency :: "int \<Rightarrow> int \<times> int \<times> int \<times> int \<Rightarrow> int \<times> int \<times> int \<times> int" where
  "count_dependency loreg c = (let (int_count, fp_count, flag_count, xmm_count) = c in
     if isFlagDependency loreg then (int_count, fp_count, flag_count + 1, xmm_count)
     else if isIntegerDependency loreg then (int_count + 1, fp_count, flag_count, xmm_count)
     else if isFloatingPointDependency loreg then (int_count, fp_count + 1, flag_count, xmm_count)
     else if isXmmDependency loreg then (int_count, fp_count, flag_count, xmm_count + 1)
     else (int_count, fp_count, flag_count, xmm_count))"

definition CountDependencies :: "uop \<Rightarrow> uop option" where
  "CountDependencies u = do {
     (int_count, fp_count, flag_count, xmm_count) \<leftarrow> for_loop 0 MaxODeps (\<lambda>dep c. do {
       loreg \<leftarrow> getODep dep (uo_uinst u);
       Some (count_dependency loreg c) }) (0, 0, 0, 0);
     let u = u\<lparr>uo_num_outputs := flag_count + int_count + fp_count + xmm_count,
       uo_num_integer_outputs := (if flag_count \<noteq> 0 \<and> int_count = 0 then 1 else int_count),
       uo_num_floating_point_outputs := fp_count, uo_num_xmm_outputs := xmm_count\<rparr>;
     (int_count, fp_count, flag_count, xmm_count) \<leftarrow> for_loop 0 MaxIDeps (\<lambda>dep c. do {
       loreg \<leftarrow> getIDep dep (uo_uinst u);
       Some (count_dependency loreg c) }) (0, 0, 0, 0);
     Some (u\<lparr>uo_num_inputs := flag_count + int_count + fp_count + xmm_count, uo_num_integer_inputs := flag_count + int_count,
       uo_num_floating_point_inputs := fp_count, uo_num_xmm_inputs := xmm_count\<rparr>) }"

text \<open>The mode is set by the fetch stage, right after the uop is created.\<close>

definition uop_create :: "uinst \<Rightarrow> bool \<Rightarrow> uop option" where
  "uop_create ui speculative_mode = CountDependencies \<lparr>uo_uinst = ui, uo_inputs = replicate MaxIDeps 0,
     uo_outputs = replicate MaxODeps 0, uo_old_outputs = replicate MaxODeps 0, uo_num_inputs = 0, uo_num_outputs = 0,
     uo_num_integer_inputs = 0, uo_num_integer_outputs = 0, uo_num_floating_point_inputs = 0, uo_num_floating_point_outputs = 0,
     uo_num_xmm_inputs = 0, uo_num_xmm_outputs = 0, uo_speculative_mode = speculative_mode, uo_ready = False, uo_completed = False\<rparr>"

section \<open>Physical registers\<close>

datatype rf_kind = KindShared | KindPrivate

datatype rclass = RInt | RFp | RXmm

record physical_register =
  pr_pending :: bool
  pr_busy :: int

text \<open>
  \<open>rc_core\<close> is the number of occupied registers of the class that the core counts, over all its threads.
\<close>

record reg_class =
  rc_local_size :: int
  rc_rat :: "int list"
  rc_registers :: "physical_register list"
  rc_free :: "int list"
  rc_num_free :: int
  rc_occupied :: int
  rc_core :: int
  rc_rat_reads :: int
  rc_rat_writes :: int

record register_file =
  rf_int :: reg_class
  rf_fp :: reg_class
  rf_xmm :: reg_class
  rf_top :: int

definition class_at :: "rclass \<Rightarrow> register_file \<Rightarrow> reg_class" where
  "class_at k rf = (case k of RInt \<Rightarrow> rf_int rf | RFp \<Rightarrow> rf_fp rf | RXmm \<Rightarrow> rf_xmm rf)"

definition set_class :: "rclass \<Rightarrow> reg_class \<Rightarrow> register_file \<Rightarrow> register_file" where
  "set_class k c rf = (case k of RInt \<Rightarrow> rf\<lparr>rf_int := c\<rparr> | RFp \<Rightarrow> rf\<lparr>rf_fp := c\<rparr> | RXmm \<Rightarrow> rf\<lparr>rf_xmm := c\<rparr>)"

definition on_class :: "rclass \<Rightarrow> (reg_class \<Rightarrow> reg_class option) \<Rightarrow> register_file \<Rightarrow> register_file option" where
  "on_class k f rf = map_option (\<lambda>c. set_class k c rf) (f (class_at k rf))"

definition register_at :: "int \<Rightarrow> reg_class \<Rightarrow> physical_register option" where
  "register_at p c = rd_int (rc_registers c) p"

definition set_register :: "int \<Rightarrow> physical_register \<Rightarrow> reg_class \<Rightarrow> reg_class option" where
  "set_register p r c = map_option (\<lambda>rs. c\<lparr>rc_registers := rs\<rparr>) (wr_int (rc_registers c) p r)"

definition set_rat :: "int \<Rightarrow> int \<Rightarrow> reg_class \<Rightarrow> reg_class option" where
  "set_rat index p c = map_option (\<lambda>rat. c\<lparr>rc_rat := rat\<rparr>) (wr_int (rc_rat c) index p)"

definition request :: "reg_class \<Rightarrow> (reg_class \<times> int) option" where
  "request c = do {
     c_assert (rc_num_free c > 0);
     p \<leftarrow> rd_int (rc_free c) (rc_num_free c - 1);
     r \<leftarrow> register_at p c;
     c_assert (pr_busy r = 0);
     c_assert (\<not> pr_pending r);
     Some (c\<lparr>rc_num_free := rc_num_free c - 1, rc_core := rc_core c + 1, rc_occupied := rc_occupied c + 1\<rparr>, p) }"

definition RequestRegister :: "rclass \<Rightarrow> register_file \<Rightarrow> (register_file \<times> int) option" where
  "RequestRegister k rf = map_option (\<lambda>(c, p). (set_class k c rf, p)) (request (class_at k rf))"

definition RequestIntegerRegister :: "register_file \<Rightarrow> (register_file \<times> int) option" where
  "RequestIntegerRegister = RequestRegister RInt"

definition RequestFloatingPointRegister :: "register_file \<Rightarrow> (register_file \<times> int) option" where
  "RequestFloatingPointRegister = RequestRegister RFp"

definition RequestXmmRegister :: "register_file \<Rightarrow> (register_file \<times> int) option" where
  "RequestXmmRegister = RequestRegister RXmm"

text \<open>A register whose counter has become 0 goes back to the free list.\<close>

definition free_register :: "int \<Rightarrow> reg_class \<Rightarrow> reg_class option" where
  "free_register p c = do {
     c_assert (rc_num_free c < rc_local_size c);
     c_assert (rc_core c > 0 \<and> rc_occupied c > 0);
     free \<leftarrow> wr_int (rc_free c) (rc_num_free c) p;
     Some (c\<lparr>rc_free := free, rc_num_free := rc_num_free c + 1, rc_core := rc_core c - 1, rc_occupied := rc_occupied c - 1\<rparr>) }"

definition inc_busy :: "bool \<Rightarrow> int \<Rightarrow> reg_class \<Rightarrow> reg_class option" where
  "inc_busy pend p c = do {
     r \<leftarrow> register_at p c;
     set_register p (r\<lparr>pr_busy := pr_busy r + 1, pr_pending := pr_pending r \<or> pend\<rparr>) c }"

section \<open>Configuration and construction\<close>

definition MinIntegerSize :: int where "MinIntegerSize = DepIntCount + int MaxODeps"
definition MinFloatingPointSize :: int where "MinFloatingPointSize = DepFpCount + int MaxODeps"
definition MinXmmSize :: int where "MinXmmSize = DepXmmCount + int MaxODeps"

datatype rf_error = IntSizeTooSmall int | FpSizeTooSmall int | XmmSizeTooSmall int

text \<open>The arguments are what the configuration file gives. The result is the three sizes of a thread's register file.\<close>

definition ParseConfiguration :: "rf_kind \<Rightarrow> int \<Rightarrow> int \<Rightarrow> int \<Rightarrow> int \<Rightarrow> rf_error + int \<times> int \<times> int" where
  "ParseConfiguration kind integer_size floating_point_size xmm_size num_threads =
     (if integer_size < MinIntegerSize then Inl (IntSizeTooSmall MinIntegerSize)
      else if floating_point_size < MinFloatingPointSize then Inl (FpSizeTooSmall MinFloatingPointSize)
      else if xmm_size < MinXmmSize then Inl (XmmSizeTooSmall MinXmmSize)
      else Inr (case kind of
          KindPrivate \<Rightarrow> (integer_size, floating_point_size, xmm_size)
        | KindShared \<Rightarrow> (integer_size * num_threads, floating_point_size * num_threads, xmm_size * num_threads)))"

text \<open>\<open>junk\<close> is what the members that the constructor has not written yet hold.\<close>

definition reg_class_new :: "int \<Rightarrow> int \<Rightarrow> int \<Rightarrow> (nat \<Rightarrow> int) \<Rightarrow> reg_class" where
  "reg_class_new local_size rat_size core junk = \<lparr>rc_local_size = local_size, rc_rat = fresh junk (nat rat_size),
     rc_registers = replicate (nat local_size) \<lparr>pr_pending = False, pr_busy = 0\<rparr>, rc_free = map int [0..<nat local_size],
     rc_num_free = local_size, rc_occupied = 0, rc_core = core, rc_rat_reads = 0, rc_rat_writes = 0\<rparr>"

definition init_integer :: "nat \<Rightarrow> register_file \<times> int \<Rightarrow> (register_file \<times> int) option" where
  "init_integer dep s = (let (rf, flag_physical_register) = s; dependency = int dep + DepIntFirst in do {
     (rf, physical_register, flag_physical_register) \<leftarrow> (if isFlagDependency dependency then do {
         c_assert (flag_physical_register \<ge> 0);
         Some (rf, flag_physical_register, flag_physical_register) }
       else do {
         (rf, physical_register) \<leftarrow> RequestIntegerRegister rf;
         Some (rf, physical_register, physical_register) });
     rf \<leftarrow> on_class RInt (inc_busy False physical_register) rf;
     rf \<leftarrow> on_class RInt (set_rat (int dep) physical_register) rf;
     Some (rf, flag_physical_register) })"

definition init_other :: "rclass \<Rightarrow> nat \<Rightarrow> register_file \<Rightarrow> register_file option" where
  "init_other k dep rf = do {
     (rf, physical_register) \<leftarrow> RequestRegister k rf;
     rf \<leftarrow> on_class k (inc_busy False physical_register) rf;
     on_class k (set_rat (int dep) physical_register) rf }"

definition RegisterFile :: "int \<times> int \<times> int \<Rightarrow> (rclass \<Rightarrow> int) \<Rightarrow> (rclass \<Rightarrow> nat \<Rightarrow> int) \<Rightarrow> register_file option" where
  "RegisterFile sizes core junk = (let (integer_local_size, floating_point_local_size, xmm_local_size) = sizes;
     rf = \<lparr>rf_int = reg_class_new integer_local_size DepIntCount (core RInt) (junk RInt),
       rf_fp = reg_class_new floating_point_local_size DepFpCount (core RFp) (junk RFp),
       rf_xmm = reg_class_new xmm_local_size DepXmmCount (core RXmm) (junk RXmm), rf_top = 0\<rparr>
     in do {
       (rf, _) \<leftarrow> for_loop 0 (nat DepIntCount) init_integer (rf, - 1);
       rf \<leftarrow> for_loop 0 (nat DepFpCount) (init_other RFp) rf;
       for_loop 0 (nat DepXmmCount) (init_other RXmm) rf })"

section \<open>Renaming\<close>

definition canRename :: "rf_kind \<Rightarrow> register_file \<Rightarrow> uop \<Rightarrow> bool" where
  "canRename kind rf u = (case kind of
      KindPrivate \<Rightarrow>
        \<not> rc_occupied (rf_int rf) + uo_num_integer_outputs u > rc_local_size (rf_int rf) \<and>
        \<not> rc_occupied (rf_fp rf) + uo_num_floating_point_outputs u > rc_local_size (rf_fp rf) \<and>
        \<not> rc_occupied (rf_xmm rf) + uo_num_xmm_outputs u > rc_local_size (rf_xmm rf)
    | KindShared \<Rightarrow>
        \<not> rc_core (rf_int rf) + uo_num_integer_outputs u > rc_local_size (rf_int rf) \<and>
        \<not> rc_core (rf_fp rf) + uo_num_floating_point_outputs u > rc_local_size (rf_fp rf) \<and>
        \<not> rc_core (rf_xmm rf) + uo_num_xmm_outputs u > rc_local_size (rf_xmm rf))"

text \<open>\<^verbatim>\<open>%\<close> on the operands here, which are not negative, is \<^const>\<open>modulo\<close>.\<close>

definition stack_register :: "int \<Rightarrow> register_file \<Rightarrow> int option" where
  "stack_register logical_register rf = (let r = (logical_register - DepFpFirst + rf_top rf) mod 8 + DepFpFirst
     in do { c_assert (r \<ge> DepFpFirst \<and> r \<le> DepFpLast); Some r })"

definition rename_top :: "opcode \<Rightarrow> int \<Rightarrow> int" where
  "rename_top opc t = (if opc = OpcodeFpPop then (t + 1) mod 8
     else if opc = OpcodeFpPush then (t + 7) mod 8 else t)"

definition undo_top :: "opcode \<Rightarrow> int \<Rightarrow> int" where
  "undo_top opc t = (if opc = OpcodeFpPop then (t + 7) mod 8
     else if opc = OpcodeFpPush then (t + 1) mod 8 else t)"

definition rename_from :: "rclass \<Rightarrow> int \<Rightarrow> nat \<Rightarrow> register_file \<times> uop \<Rightarrow> (register_file \<times> uop) option" where
  "rename_from k index dep s = (let (rf, u) = s in do {
     physical_register \<leftarrow> rd_int (rc_rat (class_at k rf)) index;
     u \<leftarrow> setInput dep physical_register u;
     rf \<leftarrow> on_class k (\<lambda>c. Some (c\<lparr>rc_rat_reads := rc_rat_reads c + 1\<rparr>)) rf;
     Some (rf, u) })"

definition rename_input :: "nat \<Rightarrow> register_file \<times> uop \<Rightarrow> (register_file \<times> uop) option" where
  "rename_input dep s = (let (rf, u) = s in do {
     logical_register \<leftarrow> getIDep dep (uo_uinst u);
     if isIntegerDependency logical_register then rename_from RInt (logical_register - DepIntFirst) dep (rf, u)
     else if isFloatingPointDependency logical_register then do {
       stack \<leftarrow> stack_register logical_register rf;
       rename_from RFp (stack - DepFpFirst) dep (rf, u) }
     else if isXmmDependency logical_register then rename_from RXmm (logical_register - DepXmmFirst) dep (rf, u)
     else do { u \<leftarrow> setInput dep (- 1) u; Some (rf, u) } })"

definition map_output :: "rclass \<Rightarrow> int \<Rightarrow> nat \<Rightarrow> int \<Rightarrow> register_file \<times> uop \<Rightarrow> (register_file \<times> uop) option" where
  "map_output k index dep physical_register s = (let (rf, u) = s in do {
     rf \<leftarrow> on_class k (inc_busy True physical_register) rf;
     old_physical_register \<leftarrow> rd_int (rc_rat (class_at k rf)) index;
     u \<leftarrow> setOutput dep physical_register u;
     u \<leftarrow> setOldOutput dep old_physical_register u;
     rf \<leftarrow> on_class k (set_rat index physical_register) rf;
     Some (rf, u) })"

definition rename_to :: "rclass \<Rightarrow> int \<Rightarrow> nat \<Rightarrow> register_file \<times> uop \<Rightarrow> ((register_file \<times> uop) \<times> int) option" where
  "rename_to k index dep s = (let (rf, u) = s in do {
     (rf, physical_register) \<leftarrow> RequestRegister k rf;
     (rf, u) \<leftarrow> map_output k index dep physical_register (rf, u);
     rf \<leftarrow> on_class k (\<lambda>c. Some (c\<lparr>rc_rat_writes := rc_rat_writes c + 1\<rparr>)) rf;
     Some ((rf, u), physical_register) })"

definition rename_output :: "nat \<Rightarrow> (register_file \<times> uop) \<times> int \<times> int \<Rightarrow> ((register_file \<times> uop) \<times> int \<times> int) option" where
  "rename_output dep s = (let ((rf, u), flag_physical_register, flag_count) = s in do {
     logical_register \<leftarrow> getODep dep (uo_uinst u);
     if isFlagDependency logical_register then Some ((rf, u), flag_physical_register, flag_count + 1)
     else if isIntegerDependency logical_register then do {
       (t, physical_register) \<leftarrow> rename_to RInt (logical_register - DepIntFirst) dep (rf, u);
       Some (t, if flag_physical_register < 0 then physical_register else flag_physical_register, flag_count) }
     else if isFloatingPointDependency logical_register then do {
       stack \<leftarrow> stack_register logical_register rf;
       (t, _) \<leftarrow> rename_to RFp (stack - DepFpFirst) dep (rf, u);
       Some (t, flag_physical_register, flag_count) }
     else if isXmmDependency logical_register then do {
       (t, _) \<leftarrow> rename_to RXmm (logical_register - DepXmmFirst) dep (rf, u);
       Some (t, flag_physical_register, flag_count) }
     else do {
       u \<leftarrow> setOutput dep (- 1) u;
       u \<leftarrow> setOldOutput dep (- 1) u;
       Some ((rf, u), flag_physical_register, flag_count) } })"

definition rename_flag :: "int \<Rightarrow> nat \<Rightarrow> register_file \<times> uop \<Rightarrow> (register_file \<times> uop) option" where
  "rename_flag flag_physical_register dep s = (let (rf, u) = s in do {
     logical_register \<leftarrow> getODep dep (uo_uinst u);
     if \<not> isFlagDependency logical_register then Some (rf, u)
     else map_output RInt (logical_register - DepIntFirst) dep flag_physical_register (rf, u) })"

definition Rename :: "register_file \<Rightarrow> uop \<Rightarrow> (register_file \<times> uop) option" where
  "Rename rf u = (let rf = rf\<lparr>rf_top := rename_top (ui_opcode (uo_uinst u)) (rf_top rf)\<rparr> in do {
     (rf, u) \<leftarrow> for_loop 0 MaxIDeps rename_input (rf, u);
     ((rf, u), flag_physical_register, flag_count) \<leftarrow> for_loop 0 MaxODeps rename_output ((rf, u), - 1, 0);
     if flag_count > 0 then do {
       (rf, flag_physical_register) \<leftarrow> (if flag_physical_register < 0 then RequestIntegerRegister rf
         else Some (rf, flag_physical_register));
       for_loop 0 MaxODeps (rename_flag flag_physical_register) (rf, u) }
     else Some (rf, u) })"

section \<open>Completion\<close>

definition input_pending :: "rclass \<Rightarrow> int \<Rightarrow> register_file \<Rightarrow> bool option" where
  "input_pending k p rf = map_option pr_pending (register_at p (class_at k rf))"

definition ready_input :: "register_file \<Rightarrow> uop \<Rightarrow> nat \<Rightarrow> bool \<Rightarrow> bool option" where
  "ready_input rf u dep ok = (if \<not> ok then Some False else do {
     logical_register \<leftarrow> getIDep dep (uo_uinst u);
     physical_register \<leftarrow> getInput dep u;
     if isIntegerDependency logical_register then map_option Not (input_pending RInt physical_register rf)
     else if isFloatingPointDependency logical_register then map_option Not (input_pending RFp physical_register rf)
     else if isXmmDependency logical_register then map_option Not (input_pending RXmm physical_register rf)
     else Some True })"

definition isUopReady :: "register_file \<Rightarrow> uop \<Rightarrow> (bool \<times> uop) option" where
  "isUopReady rf u = (if uo_ready u then Some (True, u) else do {
     ok \<leftarrow> for_loop 0 MaxIDeps (ready_input rf u) True;
     if ok then Some (True, u\<lparr>uo_ready := True\<rparr>) else Some (False, u) })"

definition clear_pending :: "int \<Rightarrow> reg_class \<Rightarrow> reg_class option" where
  "clear_pending p c = do { r \<leftarrow> register_at p c; set_register p (r\<lparr>pr_pending := False\<rparr>) c }"

definition write_output :: "uop \<Rightarrow> nat \<Rightarrow> register_file \<Rightarrow> register_file option" where
  "write_output u dep rf = do {
     logical_register \<leftarrow> getODep dep (uo_uinst u);
     physical_register \<leftarrow> getOutput dep u;
     if isIntegerDependency logical_register then on_class RInt (clear_pending physical_register) rf
     else if isFloatingPointDependency logical_register then on_class RFp (clear_pending physical_register) rf
     else if isXmmDependency logical_register then on_class RXmm (clear_pending physical_register) rf
     else Some rf }"

definition WriteUop :: "register_file \<Rightarrow> uop \<Rightarrow> register_file option" where
  "WriteUop rf u = for_loop 0 MaxODeps (write_output u) rf"

section \<open>Squash and commit\<close>

definition undo_in :: "int \<Rightarrow> int \<Rightarrow> int \<Rightarrow> reg_class \<Rightarrow> reg_class option" where
  "undo_in index physical_register old_physical_register c = do {
     r \<leftarrow> register_at physical_register c;
     c_assert (pr_busy r > 0);
     c_assert (\<not> pr_pending r);
     c \<leftarrow> set_register physical_register (r\<lparr>pr_busy := pr_busy r - 1\<rparr>) c;
     c \<leftarrow> (if pr_busy r - 1 = 0 then free_register physical_register c else Some c);
     c \<leftarrow> set_rat index old_physical_register c;
     r \<leftarrow> register_at old_physical_register c;
     c_assert (pr_busy r \<noteq> 0);
     Some c }"

definition undo_output :: "uop \<Rightarrow> nat \<Rightarrow> register_file \<Rightarrow> register_file option" where
  "undo_output u dep rf = do {
     logical_register \<leftarrow> getODep dep (uo_uinst u);
     physical_register \<leftarrow> getOutput dep u;
     old_physical_register \<leftarrow> getOldOutput dep u;
     if isIntegerDependency logical_register then
       on_class RInt (undo_in (logical_register - DepIntFirst) physical_register old_physical_register) rf
     else if isFloatingPointDependency logical_register then do {
       stack \<leftarrow> stack_register logical_register rf;
       on_class RFp (undo_in (stack - DepFpFirst) physical_register old_physical_register) rf }
     else if isXmmDependency logical_register then
       on_class RXmm (undo_in (logical_register - DepXmmFirst) physical_register old_physical_register) rf
     else do {
       c_assert (physical_register = - 1);
       c_assert (old_physical_register = - 1);
       Some rf } }"

definition UndoUop :: "register_file \<Rightarrow> uop \<Rightarrow> register_file option" where
  "UndoUop rf u = do {
     c_assert (uo_speculative_mode u);
     rf \<leftarrow> for_loop 0 MaxODeps (\<lambda>i. undo_output u (MaxODeps - 1 - i)) rf;
     Some (rf\<lparr>rf_top := undo_top (ui_opcode (uo_uinst u)) (rf_top rf)\<rparr>) }"

definition commit_in :: "int \<Rightarrow> reg_class \<Rightarrow> reg_class option" where
  "commit_in old_physical_register c = do {
     r \<leftarrow> register_at old_physical_register c;
     c_assert (pr_busy r > 0);
     c \<leftarrow> set_register old_physical_register (r\<lparr>pr_busy := pr_busy r - 1\<rparr>) c;
     if pr_busy r - 1 = 0 then do {
       c_assert (\<not> pr_pending r);
       free_register old_physical_register c }
     else Some c }"

definition commit_output :: "uop \<Rightarrow> nat \<Rightarrow> register_file \<Rightarrow> register_file option" where
  "commit_output u dep rf = do {
     logical_register \<leftarrow> getODep dep (uo_uinst u);
     physical_register \<leftarrow> getOutput dep u;
     old_physical_register \<leftarrow> getOldOutput dep u;
     if isIntegerDependency logical_register then on_class RInt (commit_in old_physical_register) rf
     else if isFloatingPointDependency logical_register then on_class RFp (commit_in old_physical_register) rf
     else if isXmmDependency logical_register then on_class RXmm (commit_in old_physical_register) rf
     else do {
       c_assert (physical_register = - 1);
       c_assert (old_physical_register = - 1);
       Some rf } }"

definition CommitUop :: "register_file \<Rightarrow> uop \<Rightarrow> register_file option" where
  "CommitUop rf u = do {
     c_assert (\<not> uo_speculative_mode u);
     for_loop 0 MaxODeps (commit_output u) rf }"

section \<open>The self-check\<close>

definition check_free :: "reg_class \<Rightarrow> nat \<Rightarrow> unit \<Rightarrow> unit option" where
  "check_free c i _ = do {
     physical_register \<leftarrow> rd (rc_free c) i;
     r \<leftarrow> register_at physical_register c;
     c_assert (pr_busy r = 0);
     c_assert (\<not> pr_pending r) }"

definition check_mapped :: "reg_class \<Rightarrow> nat \<Rightarrow> unit \<Rightarrow> unit option" where
  "check_mapped c i _ = do {
     physical_register \<leftarrow> rd (rc_rat c) i;
     r \<leftarrow> register_at physical_register c;
     c_assert (pr_busy r \<noteq> 0) }"

definition CheckRegisterFile :: "register_file \<Rightarrow> unit option" where
  "CheckRegisterFile rf = do {
     _ \<leftarrow> for_loop 0 (nat (rc_num_free (rf_int rf))) (check_free (rf_int rf)) ();
     _ \<leftarrow> for_loop 0 (nat (rc_num_free (rf_fp rf))) (check_free (rf_fp rf)) ();
     _ \<leftarrow> for_loop 0 (nat (rc_num_free (rf_xmm rf))) (check_free (rf_xmm rf)) ();
     _ \<leftarrow> for_loop 0 (nat DepIntCount) (check_mapped (rf_int rf)) ();
     _ \<leftarrow> for_loop 0 (nat DepFpCount) (check_mapped (rf_fp rf)) ();
     for_loop 0 (nat DepXmmCount) (check_mapped (rf_xmm rf)) () }"

definition isRegisterFree :: "rclass \<Rightarrow> int \<Rightarrow> register_file \<Rightarrow> bool option" where
  "isRegisterFree k index rf = map_option (\<lambda>r. \<not> pr_busy r > 0) (register_at index (class_at k rf))"

section \<open>Recovery\<close>

text \<open>
  The loop of \<^verbatim>\<open>Thread::Recover\<close> over the reorder buffer, from its tail, without its counters and trace output.
\<close>

function recover_rob :: "register_file \<Rightarrow> uop list \<Rightarrow> (register_file \<times> uop list) option" where
  "recover_rob rf rob = (if rob = [] then Some (rf, rob) else let u = last rob in
     if \<not> uo_speculative_mode u then Some (rf, rob)
     else do {
       rf \<leftarrow> (if \<not> uo_completed u then WriteUop rf u else Some rf);
       rf \<leftarrow> UndoUop rf u;
       recover_rob rf (butlast rob) })"
  by pat_completeness auto
termination
  by (relation "measure (\<lambda>(_, rob). length rob)") auto

declare recover_rob.simps [simp del] free_dep.simps [simp del]

end
