(* ===== verification/SimRegisterFileProof.thy ===== *)
theory SimRegisterFileProof
  imports SimRegisterFile
begin

text \<open>
  The bookkeeping of one class of registers: the counters, the free list and the pending marks, and what every
  access to them does. On top of it, what a renamed uop means for the mapping of a class: each of its outputs
  replaces one entry of the mapping and remembers the entry replaced.
\<close>

section \<open>Counters and the free list\<close>

text \<open>
  \<open>B p\<close> is the value of the counter of the register \<open>p\<close>. The registers of \<open>X\<close> are taken off the free list, but not counted yet.
\<close>

definition in_range :: "reg_class \<Rightarrow> int \<Rightarrow> bool" where
  "in_range c p \<longleftrightarrow> 0 \<le> p \<and> p < rc_local_size c"

definition pending_at :: "reg_class \<Rightarrow> int \<Rightarrow> bool" where
  "pending_at c p \<longleftrightarrow> in_range c p \<and> pr_pending (rc_registers c ! nat p)"

definition free_list :: "reg_class \<Rightarrow> int list" where
  "free_list c = take (nat (rc_num_free c)) (rc_free c)"

definition books :: "reg_class \<Rightarrow> (int \<Rightarrow> nat) \<Rightarrow> int set \<Rightarrow> bool" where
  "books c B X \<longleftrightarrow> length (rc_registers c) = nat (rc_local_size c) \<and> length (rc_free c) = nat (rc_local_size c) \<and>
     0 \<le> rc_num_free c \<and> rc_num_free c \<le> rc_local_size c \<and> rc_occupied c = rc_local_size c - rc_num_free c \<and> rc_occupied c \<le> rc_core c \<and>
     (\<forall>p. in_range c p \<longrightarrow> pr_busy (rc_registers c ! nat p) = int (B p)) \<and> (\<forall>p. pending_at c p \<longrightarrow> 0 < B p) \<and>
     (\<forall>p. 0 < B p \<longrightarrow> in_range c p) \<and> X \<subseteq> {p. in_range c p \<and> B p = 0} \<and>
     distinct (free_list c) \<and> set (free_list c) = {p. in_range c p \<and> B p = 0} - X"

lemma booksD:
  assumes "books c B X"
  shows "length (rc_registers c) = nat (rc_local_size c)" "length (rc_free c) = nat (rc_local_size c)"
    "0 \<le> rc_num_free c" "rc_num_free c \<le> rc_local_size c" "rc_occupied c = rc_local_size c - rc_num_free c" "rc_occupied c \<le> rc_core c"
    "in_range c p \<Longrightarrow> pr_busy (rc_registers c ! nat p) = int (B p)" "pending_at c p \<Longrightarrow> 0 < B p" "0 < B p \<Longrightarrow> in_range c p"
    "p \<in> X \<Longrightarrow> in_range c p \<and> B p = 0"
    "distinct (free_list c)" "set (free_list c) = {p. in_range c p \<and> B p = 0} - X"
  using assms unfolding books_def by blast+

lemma register_at_run:
  assumes "books c B X" "in_range c p"
  shows "register_at p c = Some (rc_registers c ! nat p)"
  using assms(2) booksD(1) [OF assms(1)] by (simp add: register_at_def rd_int_def in_range_def)

lemma set_register_run:
  assumes "books c B X" "in_range c p"
  shows "set_register p r c = Some (c\<lparr>rc_registers := (rc_registers c)[nat p := r]\<rparr>)"
  using assms(2) booksD(1) [OF assms(1)] by (simp add: set_register_def wr_int_def in_range_def)

lemma nat_index: "in_range c p \<Longrightarrow> in_range c q \<Longrightarrow> nat p = nat q \<longleftrightarrow> p = q"
  by (auto simp: in_range_def)

lemma request_run:
  assumes b: "books c B X" and free: "0 < rc_num_free c"
  obtains p c' where "request c = Some (c', p)" "in_range c p" "B p = 0" "p \<notin> X" "books c' B (insert p X)"
    "rc_rat c' = rc_rat c" "rc_local_size c' = rc_local_size c" "rc_registers c' = rc_registers c"
    "rc_num_free c' = rc_num_free c - 1" "rc_free c' = rc_free c"
proof -
  let ?n = "nat (rc_num_free c)"
  define p where "p = rc_free c ! nat (rc_num_free c - 1)"
  let ?c = "c\<lparr>rc_num_free := rc_num_free c - 1, rc_core := rc_core c + 1, rc_occupied := rc_occupied c + 1\<rparr>"
  have len: "?n \<le> length (rc_free c)" "nat (rc_num_free c - 1) < length (rc_free c)" using booksD(2,3,4) [OF b] free by auto
  have n: "?n = Suc (nat (rc_num_free c - 1))" using free by simp
  have fl: "free_list c = free_list ?c @ [p]" using len(2) unfolding free_list_def n p_def by (simp add: take_Suc_conv_app_nth)
  have p: "in_range c p" "B p = 0" "p \<notin> X" "p \<notin> set (free_list ?c)" "distinct (free_list ?c)"
    using booksD(11,12) [OF b] unfolding fl by auto
  have r: "register_at p c = Some (rc_registers c ! nat p)" by (rule register_at_run [OF b p(1)])
  have "pr_busy (rc_registers c ! nat p) = 0" using booksD(7) [OF b p(1)] p(2) by simp
  moreover have "\<not> pr_pending (rc_registers c ! nat p)" using booksD(8) [OF b, of p] p(1,2) by (auto simp: pending_at_def)
  ultimately have run: "request c = Some (?c, p)" using free len(2) r by (simp add: request_def rd_int_def p_def)
  have "set (free_list ?c) = {p. in_range c p \<and> B p = 0} - insert p X" using booksD(12) [OF b] p(4) unfolding fl by auto
  moreover have "in_range ?c = in_range c" "pending_at ?c = pending_at c" by (simp_all add: in_range_def pending_at_def fun_eq_iff)
  ultimately have "books ?c B (insert p X)"
    using b p(1,2,5) free unfolding books_def by (simp del: set_take_subset)
  then show thesis by (intro that [OF run p(1,2,3)]) simp_all
qed

lemma inc_busy_run:
  assumes b: "books c B X" and p: "0 < B p \<or> p \<in> X"
  obtains c' where "inc_busy pend p c = Some c'" "books c' (B(p := B p + 1)) (X - {p})"
    "rc_rat c' = rc_rat c" "rc_local_size c' = rc_local_size c" "rc_num_free c' = rc_num_free c"
    "\<And>q. pending_at c' q \<longleftrightarrow> pending_at c q \<or> q = p \<and> pend" "rc_free c' = rc_free c"
proof -
  have rg: "in_range c p" using p booksD(9,10) [OF b] by blast
  let ?r = "rc_registers c ! nat p"
  let ?c = "c\<lparr>rc_registers := (rc_registers c)[nat p := ?r\<lparr>pr_busy := pr_busy ?r + 1, pr_pending := pr_pending ?r \<or> pend\<rparr>]\<rparr>"
  have run: "inc_busy pend p c = Some ?c" by (simp add: inc_busy_def register_at_run [OF b rg] set_register_run [OF b rg])
  have lt: "nat p < length (rc_registers c)" using rg booksD(1) [OF b] by (simp add: in_range_def)
  have ir: "in_range ?c = in_range c" by (simp add: in_range_def fun_eq_iff)
  have fl: "free_list ?c = free_list c" by (simp add: free_list_def)
  have busy: "pr_busy (rc_registers ?c ! nat q) = int ((B(p := B p + 1)) q)" if "in_range c q" for q
    using booksD(7) [OF b that] booksD(7) [OF b rg] lt nat_index [OF rg that] by (cases "q = p") simp_all
  have pend: "pending_at ?c q \<longleftrightarrow> pending_at c q \<or> q = p \<and> pend" for q
    using lt nat_index [OF rg] rg by (cases "in_range c q") (auto simp: pending_at_def ir nth_list_update)
  have "p \<notin> set (free_list c)" using p booksD(12) [OF b] by auto
  then have "set (free_list c) = {q. in_range c q \<and> (B(p := B p + 1)) q = 0} - (X - {p})" using booksD(12) [OF b] by auto
  moreover have "X - {p} \<subseteq> {q. in_range c q \<and> (B(p := B p + 1)) q = 0}" using booksD(10) [OF b] by auto
  moreover have "0 < (B(p := B p + 1)) q" if "pending_at ?c q" for q using that booksD(8) [OF b, of q] unfolding pend by auto
  moreover have "in_range c q" if "0 < (B(p := B p + 1)) q" for q using that booksD(9) [OF b, of q] rg by (auto split: if_splits)
  ultimately have "books ?c (B(p := B p + 1)) (X - {p})"
    using booksD [OF b] busy unfolding books_def ir fl by simp
  then show thesis by (intro that [OF run]) (simp_all add: pend)
qed

lemma clear_pending_run:
  assumes b: "books c B X" and rg: "in_range c p"
  obtains c' where "clear_pending p c = Some c'" "books c' B X"
    "rc_rat c' = rc_rat c" "rc_local_size c' = rc_local_size c" "\<And>q. pending_at c' q \<longleftrightarrow> pending_at c q \<and> q \<noteq> p"
    "free_list c' = free_list c"
proof -
  let ?r = "rc_registers c ! nat p"
  let ?c = "c\<lparr>rc_registers := (rc_registers c)[nat p := ?r\<lparr>pr_pending := False\<rparr>]\<rparr>"
  have run: "clear_pending p c = Some ?c" by (simp add: clear_pending_def register_at_run [OF b rg] set_register_run [OF b rg])
  have lt: "nat p < length (rc_registers c)" using rg booksD(1) [OF b] by (simp add: in_range_def)
  have ir: "in_range ?c = in_range c" by (simp add: in_range_def fun_eq_iff)
  have fl: "free_list ?c = free_list c" by (simp add: free_list_def)
  have busy: "pr_busy (rc_registers ?c ! nat q) = int (B q)" if "in_range c q" for q
    using booksD(7) [OF b that] booksD(7) [OF b rg] lt nat_index [OF rg that] by (cases "q = p") simp_all
  have pend: "pending_at ?c q \<longleftrightarrow> pending_at c q \<and> q \<noteq> p" for q
    using lt nat_index [OF rg] by (cases "in_range c q") (auto simp: pending_at_def ir nth_list_update)
  have "books ?c B X" using booksD [OF b] busy unfolding books_def ir fl pend by (simp add: subset_iff)
  then show thesis by (intro that [OF run]) (simp_all add: pend fl)
qed

lemma set_rat_run:
  assumes b: "books c B X" and i: "0 \<le> i" "nat i < length (rc_rat c)"
  obtains c' where "set_rat i p c = Some c'" "books c' B X" "rc_rat c' = (rc_rat c)[nat i := p]" "rc_local_size c' = rc_local_size c"
    "pending_at c' = pending_at c" "rc_num_free c' = rc_num_free c" "free_list c' = free_list c"
proof -
  let ?c = "c\<lparr>rc_rat := (rc_rat c)[nat i := p]\<rparr>"
  have run: "set_rat i p c = Some ?c" using i by (simp add: set_rat_def wr_int_def)
  have same: "in_range ?c = in_range c" "free_list ?c = free_list c" "pending_at ?c = pending_at c"
    by (simp_all add: in_range_def free_list_def pending_at_def fun_eq_iff)
  have "books ?c B X" using b unfolding books_def same by simp
  then show thesis by (intro that [OF run]) (simp_all add: same)
qed

text \<open>Decrementing a counter, the common part of a squash and a commit.\<close>

definition drop_busy :: "int \<Rightarrow> reg_class \<Rightarrow> reg_class option" where
  "drop_busy p c = do {
     r \<leftarrow> register_at p c;
     c \<leftarrow> set_register p (r\<lparr>pr_busy := pr_busy r - 1\<rparr>) c;
     if pr_busy r - 1 = 0 then free_register p c else Some c }"

lemma drop_busy_run:
  assumes b: "books c B {}" and p: "0 < B p" and np: "B p = 1 \<Longrightarrow> \<not> pending_at c p"
  obtains c' where "drop_busy p c = Some c'" "books c' (B(p := B p - 1)) {}"
    "rc_rat c' = rc_rat c" "rc_local_size c' = rc_local_size c" "pending_at c' = pending_at c"
proof -
  have rg: "in_range c p" using p booksD(9) [OF b] by blast
  let ?r = "rc_registers c ! nat p" and ?B = "B(p := B p - 1)"
  let ?c1 = "c\<lparr>rc_registers := (rc_registers c)[nat p := ?r\<lparr>pr_busy := pr_busy ?r - 1\<rparr>]\<rparr>"
  let ?c2 = "?c1\<lparr>rc_free := (rc_free c)[nat (rc_num_free c) := p], rc_num_free := rc_num_free c + 1, rc_core := rc_core c - 1,
    rc_occupied := rc_occupied c - 1\<rparr>"
  have lt: "nat p < length (rc_registers c)" using rg booksD(1) [OF b] by (simp add: in_range_def)
  have r: "pr_busy ?r = int (B p)" by (rule booksD(7) [OF b rg])
  have ir: "in_range ?c1 = in_range c" "in_range ?c2 = in_range c" by (simp_all add: in_range_def fun_eq_iff)
  have busy: "pr_busy (rc_registers ?c1 ! nat q) = int (?B q)" if "in_range c q" for q
    using booksD(7) [OF b that] r lt nat_index [OF rg that] p by (cases "q = p") (simp_all add: of_nat_diff)
  have pend: "pending_at ?c1 = pending_at c" "pending_at ?c2 = pending_at c"
    using lt nat_index [OF rg] by (auto simp: pending_at_def in_range_def fun_eq_iff nth_list_update)
  have step: "drop_busy p c = (if B p = 1 then free_register p ?c1 else Some ?c1)"
    using r p by (auto simp: drop_busy_def register_at_run [OF b rg] set_register_run [OF b rg])
  have B: "0 < ?B q" if "pending_at c q" for q using booksD(8) [OF b that] np that p by (cases "q = p") (auto intro: Suc_lessI)
  have B': "in_range c q" if "0 < ?B q" for q using booksD(9) [OF b, of q] that rg by (auto split: if_splits)
  show thesis
  proof (cases "B p = 1")
    case False
    have fl: "free_list ?c1 = free_list c" by (simp add: free_list_def)
    have "set (free_list c) = {q. in_range c q \<and> ?B q = 0}" using booksD(12) [OF b] False p by (auto split: if_splits)
    then have "books ?c1 ?B {}" using booksD [OF b] busy B B' unfolding books_def ir fl pend by simp
    then show thesis using step False by (intro that [of ?c1]) (simp_all add: pend)
  next
    case True
    have "rc_num_free c \<noteq> rc_local_size c"
    proof
      assume a: "rc_num_free c = rc_local_size c"
      then have "length (free_list c) = nat (rc_local_size c)" using booksD(2) [OF b] by (simp add: free_list_def)
      moreover have "set (free_list c) \<subseteq> {0..<rc_local_size c} - {p}"
        unfolding booksD(12) [OF b] using p by (auto simp: in_range_def)
      then have "card (set (free_list c)) \<le> card ({0..<rc_local_size c} - {p})" by (intro card_mono) simp_all
      moreover have "card ({0..<rc_local_size c} - {p}) < nat (rc_local_size c)" using rg by (simp add: in_range_def)
      ultimately show False using distinct_card [OF booksD(11) [OF b]] by simp
    qed
    then have room: "rc_num_free c < rc_local_size c" using booksD(4) [OF b] by simp
    then have len: "nat (rc_num_free c) < length (rc_free c)" using booksD(2,3) [OF b] by simp
    have "0 < rc_occupied c" "0 < rc_core c" using room booksD(5,6) [OF b] by simp_all
    then have run: "drop_busy p c = Some ?c2" using step True room len booksD(3) [OF b] by (simp add: free_register_def wr_int_def)
    have n: "nat (rc_num_free c + 1) = Suc (nat (rc_num_free c))" using booksD(3) [OF b] by simp
    have fl: "free_list ?c2 = free_list c @ [p]" using len by (simp add: free_list_def n take_Suc_conv_app_nth)
    have "p \<notin> set (free_list c)" using booksD(12) [OF b] p by simp
    then have "distinct (free_list ?c2)" unfolding fl using booksD(11) [OF b] by simp
    moreover have "set (free_list ?c2) = {q. in_range c q \<and> ?B q = 0}"
      unfolding fl using booksD(12) [OF b] True rg by (auto split: if_splits)
    moreover have "pr_busy (rc_registers ?c2 ! nat q) = int (?B q)" if "in_range c q" for q using busy [OF that] by simp
    ultimately have "books ?c2 ?B {}" using booksD [OF b] B B' room unfolding books_def ir pend by simp
    then show thesis by (intro that [OF run]) (simp_all add: pend)
  qed
qed

section \<open>Moves of the mapping\<close>

text \<open>
  A move \<open>(i, p, q)\<close> maps the logical register \<open>i\<close> to \<open>p\<close> instead of \<open>q\<close>. The moves of uops in flight lead, for every
  logical register, from the committed mapping \<open>R\<close> to the current one, and the counter of a register is the number of
  times it is mapped or remembered by a move.
\<close>

type_synonym move = "nat \<times> int \<times> int"

definition steps :: "nat \<Rightarrow> move list \<Rightarrow> (int \<times> int) list" where
  "steps i E = map snd (filter (\<lambda>e. fst e = i) E)"

fun follows :: "int \<Rightarrow> (int \<times> int) list \<Rightarrow> int \<Rightarrow> bool" where
  "follows r [] x \<longleftrightarrow> x = r"
| "follows r ((p, q) # es) x \<longleftrightarrow> q = r \<and> follows p es x"

definition olds :: "move list \<Rightarrow> int list" where
  "olds E = map (\<lambda>(_, _, q). q) E"

definition news :: "move list \<Rightarrow> int set" where
  "news E = (\<lambda>(_, p, _). p) ` set E"

definition uses :: "int list \<Rightarrow> move list \<Rightarrow> int \<Rightarrow> nat" where
  "uses rat E p = count_list rat p + count_list (olds E) p"

definition class_inv :: "reg_class \<Rightarrow> int list \<Rightarrow> move list \<Rightarrow> int set \<Rightarrow> bool" where
  "class_inv c R E X \<longleftrightarrow> books c (uses (rc_rat c) E) X \<and> length (rc_rat c) = length R \<and> (\<forall>e \<in> set E. fst e < length R) \<and>
     (\<forall>i < length R. follows (R ! i) (steps i E) (rc_rat c ! i))"

lemma class_invD:
  assumes "class_inv c R E X"
  shows "books c (uses (rc_rat c) E) X" "length (rc_rat c) = length R" "e \<in> set E \<Longrightarrow> fst e < length R"
    "i < length R \<Longrightarrow> follows (R ! i) (steps i E) (rc_rat c ! i)"
  using assms unfolding class_inv_def by blast+

lemma steps_simps [simp]:
  "steps i [] = []" "steps i (e # E) = (if fst e = i then snd e # steps i E else steps i E)" "steps i (E @ E') = steps i E @ steps i E'"
  by (simp_all add: steps_def)

lemma olds_simps [simp]: "olds [] = []" "olds ((i, p, q) # E) = q # olds E" "olds (E @ E') = olds E @ olds E'"
  by (simp_all add: olds_def)

lemma news_simps [simp]: "news [] = {}" "news ((i, p, q) # E) = insert p (news E)" "news (E @ E') = news E \<union> news E'"
  by (simp_all add: news_def image_Un)

lemma follows_append: "follows r (es @ es') x \<longleftrightarrow> (\<exists>y. follows r es y \<and> follows y es' x)"
  by (induction r es x rule: follows.induct) auto

lemma follows_unique: "follows r es x \<Longrightarrow> follows r es y \<Longrightarrow> x = y"
  by (induction r es x rule: follows.induct) auto

lemma follows_new: "follows r es x \<Longrightarrow> (p, q) \<in> set es \<Longrightarrow> p = x \<or> p \<in> snd ` set es"
proof (induction r es x rule: follows.induct)
  case (2 r p' q' es x)
  show ?case
  proof (cases "(p, q) = (p', q')")
    case True
    show ?thesis
    proof (cases es)
      case (Cons e es')
      then show ?thesis using 2 True by (cases e) force
    qed (use 2 True in auto)
  qed (use 2 in auto)
qed simp

lemma follows_start: "follows r es x \<Longrightarrow> r = x \<or> r \<in> snd ` set es"
  by (cases es) auto

lemma count_list_update:
  assumes "i < length xs"
  shows "count_list (xs[i := p]) q + (if q = xs ! i then 1 else 0) = count_list xs q + (if q = p then 1 else 0)"
proof -
  have "count_list (take i xs @ p # drop (Suc i) xs) q + (if q = xs ! i then 1 else 0) =
      count_list (take i xs @ xs ! i # drop (Suc i) xs) q + (if q = p then 1 else 0)"
    by simp
  then show ?thesis using assms by (simp add: upd_conv_take_nth_drop id_take_nth_drop [symmetric])
qed

text \<open>Every register of a move, of the mapping and of the committed mapping is in use.\<close>

lemma uses_pos: "0 < uses rat E p \<longleftrightarrow> p \<in> set rat \<or> p \<in> set (olds E)"
  by (auto simp: uses_def count_list_0_iff gr0_conv_Suc [symmetric] neq0_conv [symmetric] simp del: neq0_conv)

lemma steps_olds: "(p, q) \<in> set (steps i E) \<Longrightarrow> q \<in> set (olds E)"
  by (force simp: steps_def olds_def)

lemma used:
  assumes I: "class_inv c R E X"
  shows "p \<in> news E \<Longrightarrow> 0 < uses (rc_rat c) E p" "p \<in> set (olds E) \<Longrightarrow> 0 < uses (rc_rat c) E p"
    "p \<in> set (rc_rat c) \<Longrightarrow> 0 < uses (rc_rat c) E p" "p \<in> set R \<Longrightarrow> 0 < uses (rc_rat c) E p"
proof -
  show "p \<in> set (olds E) \<Longrightarrow> 0 < uses (rc_rat c) E p" "p \<in> set (rc_rat c) \<Longrightarrow> 0 < uses (rc_rat c) E p"
    by (simp_all add: uses_pos)
  have mem: "p = rc_rat c ! i \<or> p \<in> snd ` set (steps i E) \<Longrightarrow> i < length R \<Longrightarrow> 0 < uses (rc_rat c) E p" for i
    using class_invD(2) [OF I] steps_olds by (auto simp: uses_pos)
  show "0 < uses (rc_rat c) E p" if n: "p \<in> news E"
  proof -
    obtain i q where e: "(i, p, q) \<in> set E" using n by (auto simp: news_def)
    then have "(p, q) \<in> set (steps i E)" by (force simp: steps_def)
    then show ?thesis using follows_new [OF class_invD(4) [OF I]] mem class_invD(3) [OF I e] by (metis fst_conv)
  qed
  show "0 < uses (rc_rat c) E p" if "p \<in> set R"
    using that follows_start [OF class_invD(4) [OF I]] mem by (metis in_set_conv_nth)
qed

lemma class_request:
  assumes I: "class_inv c R E {}" and free: "0 < rc_num_free c"
  obtains p c' where "request c = Some (c', p)" "class_inv c' R E {p}" "uses (rc_rat c) E p = 0" "0 \<le> p"
    "rc_rat c' = rc_rat c" "rc_num_free c' = rc_num_free c - 1" "rc_local_size c' = rc_local_size c" "pending_at c' = pending_at c"
proof -
  obtain p c' where r: "request c = Some (c', p)" "in_range c p" "uses (rc_rat c) E p = 0" "books c' (uses (rc_rat c) E) {p}"
    "rc_rat c' = rc_rat c" "rc_local_size c' = rc_local_size c" "rc_registers c' = rc_registers c" "rc_num_free c' = rc_num_free c - 1"
    by (rule request_run [OF class_invD(1) [OF I] free]) (rule that; simp)
  then show thesis using I by (intro that [OF r(1)]) (simp_all add: class_inv_def in_range_def pending_at_def fun_eq_iff)
qed

lemma class_push:
  assumes I: "class_inv c R E X" and p: "0 < uses (rc_rat c) E p \<or> p \<in> X" and i: "i < length R"
  obtains c1 c' where "inc_busy pend p c = Some c1" "rc_rat c1 = rc_rat c" "set_rat (int i) p c1 = Some c'"
    "class_inv c' R (E @ [(i, p, rc_rat c ! i)]) (X - {p})" "rc_rat c' = (rc_rat c)[i := p]" "rc_local_size c' = rc_local_size c"
    "rc_num_free c' = rc_num_free c" "\<And>q. pending_at c' q \<longleftrightarrow> pending_at c q \<or> q = p \<and> pend"
proof -
  let ?q = "rc_rat c ! i"
  have len: "i < length (rc_rat c)" using i class_invD(2) [OF I] by simp
  obtain c1 where c1: "inc_busy pend p c = Some c1" "books c1 ((uses (rc_rat c) E)(p := uses (rc_rat c) E p + 1)) (X - {p})"
      "rc_rat c1 = rc_rat c" "rc_local_size c1 = rc_local_size c" "rc_num_free c1 = rc_num_free c"
      "\<And>q. pending_at c1 q \<longleftrightarrow> pending_at c q \<or> q = p \<and> pend"
    using inc_busy_run [OF class_invD(1) [OF I] p] by metis
  obtain c' where c': "set_rat (int i) p c1 = Some c'" "books c' ((uses (rc_rat c) E)(p := uses (rc_rat c) E p + 1)) (X - {p})"
      "rc_rat c' = (rc_rat c)[i := p]" "rc_local_size c' = rc_local_size c1" "pending_at c' = pending_at c1" "rc_num_free c' = rc_num_free c1"
    using set_rat_run [OF c1(2), of "int i" p] len c1(3) by (metis nat_int of_nat_0_le_iff)
  have "uses ((rc_rat c)[i := p]) (E @ [(i, p, ?q)]) r = ((uses (rc_rat c) E)(p := uses (rc_rat c) E p + 1)) r" for r
    using count_list_update [OF len, of p r] by (cases "r = p"; cases "r = ?q") (simp_all add: uses_def)
  then have "uses ((rc_rat c)[i := p]) (E @ [(i, p, ?q)]) = (uses (rc_rat c) E)(p := uses (rc_rat c) E p + 1)" by (rule ext)
  then have "class_inv c' R (E @ [(i, p, ?q)]) (X - {p})"
    using c'(2) class_invD(2,3,4) [OF I] i unfolding class_inv_def c'(3) by (auto simp: follows_append nth_list_update)
  then show thesis using c1 c' by (intro that [OF c1(1,3) c'(1)]) simp_all
qed

lemma class_pop:
  assumes I: "class_inv c R (E @ [(i, p, q)]) {}" and np: "\<not> pending_at c p"
  obtains c' where "undo_in (int i) p q c = Some c'" "class_inv c' R E {}" "rc_rat c' = (rc_rat c)[i := q]"
    "rc_local_size c' = rc_local_size c" "pending_at c' = pending_at c"
proof -
  let ?U = "uses (rc_rat c) (E @ [(i, p, q)])"
  note b = class_invD(1) [OF I]
  have i: "i < length R" "i < length (rc_rat c)"
    using class_invD(2) [OF I] class_invD(3) [OF I, of "(i, p, q)"] by simp_all
  have map: "rc_rat c ! i = p" "follows (R ! i) (steps i E) q" using class_invD(4) [OF I i(1)] by (auto simp: follows_append)
  have p: "0 < ?U p" using i(2) map(1) by (auto simp: uses_pos)
  obtain c1 where c1: "drop_busy p c = Some c1" "books c1 (?U(p := ?U p - 1)) {}" "rc_rat c1 = rc_rat c"
      "rc_local_size c1 = rc_local_size c" "pending_at c1 = pending_at c"
    by (rule drop_busy_run [OF b p np])
  have "(?U(p := ?U p - 1)) r = uses ((rc_rat c)[i := q]) E r" for r
    using count_list_update [OF i(2), of q r] map(1) p by (cases "r = p"; cases "r = q") (simp_all add: uses_def)
  then have U: "?U(p := ?U p - 1) = uses ((rc_rat c)[i := q]) E" by (rule ext)
  obtain c' where c': "set_rat (int i) q c1 = Some c'" "books c' (?U(p := ?U p - 1)) {}" "rc_rat c' = (rc_rat c)[i := q]"
      "rc_local_size c' = rc_local_size c1" "pending_at c' = pending_at c1"
    using set_rat_run [OF c1(2), of "int i" q] i(2) c1(3) by (metis nat_int of_nat_0_le_iff)
  have "follows (R ! j) (steps j E) (rc_rat c' ! j)" if "j < length R" for j
    using class_invD(4) [OF I that] i(2) map(2) by (cases "j = i") (simp_all add: c'(3) follows_append)
  then have I': "class_inv c' R E {}"
    using c'(2) class_invD(2,3) [OF I] unfolding class_inv_def U c'(3) by simp
  have "q \<in> set (rc_rat c')" using i(2) c'(3) by (simp add: set_update_memI)
  then have q: "0 < uses (rc_rat c') E q" by (rule used(3) [OF I'])
  have rq: "register_at q c' = Some (rc_registers c' ! nat q)" "pr_busy (rc_registers c' ! nat q) \<noteq> 0"
    using register_at_run [OF class_invD(1) [OF I']] booksD(7) [OF class_invD(1) [OF I']] booksD(9) [OF class_invD(1) [OF I'] q] q by auto
  have rg: "in_range c p" by (rule booksD(9) [OF b p])
  have rp: "register_at p c = Some (rc_registers c ! nat p)" "0 < pr_busy (rc_registers c ! nat p)" "\<not> pr_pending (rc_registers c ! nat p)"
    using register_at_run [OF b rg] booksD(7) [OF b rg] p np rg by (simp_all add: pending_at_def)
  have "undo_in (int i) p q c = Some c'"
    using c1(1) c'(1) rq rp unfolding undo_in_def drop_busy_def by (auto simp: Option.bind_eq_Some_conv split: if_splits)
  then show thesis using I' c' c1 by (intro that [of c']) simp_all
qed

lemma class_shift:
  assumes I: "class_inv c R ((i, p, q) # E) {}" and np: "\<not> pending_at c q"
  obtains c' where "commit_in q c = Some c'" "class_inv c' (R[i := p]) E {}" "q = R ! i" "rc_rat c' = rc_rat c"
    "rc_local_size c' = rc_local_size c" "pending_at c' = pending_at c"
proof -
  let ?U = "uses (rc_rat c) ((i, p, q) # E)"
  note b = class_invD(1) [OF I]
  have i: "i < length R" using class_invD(3) [OF I, of "(i, p, q)"] by simp
  have q: "0 < ?U q" "q = R ! i" using class_invD(4) [OF I i] by (auto simp: uses_pos)
  obtain c' where c': "drop_busy q c = Some c'" "books c' (?U(q := ?U q - 1)) {}" "rc_rat c' = rc_rat c"
      "rc_local_size c' = rc_local_size c" "pending_at c' = pending_at c"
    by (rule drop_busy_run [OF b q(1) np])
  have "?U(q := ?U q - 1) = uses (rc_rat c) E" by (auto simp: uses_def fun_eq_iff)
  moreover have "follows (R[i := p] ! j) (steps j E) (rc_rat c ! j)" if "j < length R" for j
    using class_invD(4) [OF I that] that by (cases "j = i") (auto split: if_splits)
  ultimately have I': "class_inv c' (R[i := p]) E {}"
    using c'(2,3) class_invD(2,3) [OF I] unfolding class_inv_def by auto
  have rg: "in_range c q" by (rule booksD(9) [OF b q(1)])
  have rp: "register_at q c = Some (rc_registers c ! nat q)" "0 < pr_busy (rc_registers c ! nat q)" "\<not> pr_pending (rc_registers c ! nat q)"
    using register_at_run [OF b rg] booksD(7) [OF b rg] q(1) np rg by (simp_all add: pending_at_def)
  have "commit_in q c = Some c'"
    using c'(1) rp unfolding commit_in_def drop_busy_def by (auto simp: Option.bind_eq_Some_conv split: if_splits)
  then show thesis using I' q(2) c' by (intro that [of c']) simp_all
qed

text \<open>The order of moves of different logical registers does not matter.\<close>

lemma class_inv_reorder:
  assumes "class_inv c R E X" "mset E = mset E'" "\<And>i. steps i E = steps i E'"
  shows "class_inv c R E' X"
proof -
  have "count_list (olds E) p = count_list (olds E') p" for p
  proof -
    have "mset (olds E) = mset (olds E')" unfolding olds_def mset_map assms(2) by (rule refl)
    then show ?thesis by (metis count_mset)
  qed
  then have "uses (rc_rat c) E = uses (rc_rat c) E'" by (simp add: uses_def fun_eq_iff)
  moreover have "set E = set E'" using assms(2) by (rule mset_eq_setD)
  ultimately show ?thesis using assms(1,3) unfolding class_inv_def by simp
qed

end
