(* ===== verification/SimRegisterFileRun.thy ===== *)
theory SimRegisterFileRun
  imports SimRegisterFileProof
begin

text \<open>
  The operations of the register file on a uop: renaming adds the moves of the uop to those of the uops in
  flight, squashing takes them off at the end and committing at the front.
\<close>

section \<open>Classes and logical registers\<close>

lemma class_at_simps [simp]:
  "class_at k (set_class k' c rf) = (if k = k' then c else class_at k rf)" "rf_top (set_class k c rf) = rf_top rf"
  "class_at k (rf\<lparr>rf_top := t\<rparr>) = class_at k rf"
  by (cases k; cases k'; simp add: class_at_def set_class_def)+

definition rat_size :: "rclass \<Rightarrow> nat" where
  "rat_size k = (case k of RInt \<Rightarrow> 22 | RFp \<Rightarrow> 11 | RXmm \<Rightarrow> 9)"

definition dep_class :: "int \<Rightarrow> rclass option" where
  "dep_class l = (if isIntegerDependency l then Some RInt else if isFloatingPointDependency l then Some RFp
     else if isXmmDependency l then Some RXmm else None)"

definition dep_number :: "rclass \<Rightarrow> int \<Rightarrow> int \<Rightarrow> nat" where
  "dep_number k t l = (case k of RInt \<Rightarrow> nat (l - DepIntFirst) | RFp \<Rightarrow> nat ((l - DepFpFirst + t) mod 8)
     | RXmm \<Rightarrow> nat (l - DepXmmFirst))"

definition dep_index :: "rclass \<Rightarrow> int \<Rightarrow> int \<Rightarrow> nat option" where
  "dep_index k t l = (if dep_class l = Some k then Some (dep_number k t l) else None)"

lemma dep_number_less: "dep_class l = Some k \<Longrightarrow> dep_number k t l < rat_size k"
  by (cases k) (auto simp: dep_class_def dep_number_def rat_size_def isIntegerDependency_def isFloatingPointDependency_def
      isXmmDependency_def dep_defs nat_less_iff split: if_splits intro: less_le_trans [OF pos_mod_bound])

lemma dep_index_less: "dep_index k t l = Some i \<Longrightarrow> i < rat_size k"
  using dep_number_less by (auto simp: dep_index_def split: if_splits)

lemma dep_branch:
  "(if isIntegerDependency l then a else if isFloatingPointDependency l then b else if isXmmDependency l then c else d) =
     (case dep_class l of None \<Rightarrow> d | Some RInt \<Rightarrow> a | Some RFp \<Rightarrow> b | Some RXmm \<Rightarrow> c)"
  by (simp add: dep_class_def)

lemma stack_register_run:
  assumes "dep_class l = Some RFp" "0 \<le> rf_top rf"
  shows "stack_register l rf = Some (int (dep_number RFp (rf_top rf) l) + DepFpFirst)"
proof -
  define m where "m = (l - DepFpFirst + rf_top rf) mod 8"
  have "m < 8" "0 \<le> m" by (simp_all add: m_def)
  then show ?thesis unfolding stack_register_def dep_number_def m_def [symmetric] by (simp add: dep_defs Let_def)
qed

lemma dep_numbers:
  "dep_class l = Some RInt \<Longrightarrow> l - DepIntFirst = int (dep_number RInt t l)"
  "dep_class l = Some RXmm \<Longrightarrow> l - DepXmmFirst = int (dep_number RXmm t l)"
  by (auto simp: dep_class_def dep_number_def isIntegerDependency_def isXmmDependency_def dep_defs split: if_splits)

lemma dep_dispatch:
  assumes "0 \<le> rf_top rf"
  shows "(if isIntegerDependency l then f RInt (l - DepIntFirst)
     else if isFloatingPointDependency l then stack_register l rf \<bind> (\<lambda>s. f RFp (s - DepFpFirst))
     else if isXmmDependency l then f RXmm (l - DepXmmFirst) else g) =
     (case dep_class l of None \<Rightarrow> g | Some k \<Rightarrow> f k (int (dep_number k (rf_top rf) l)))"
proof (cases "dep_class l")
  case (Some k)
  show ?thesis
    using Some dep_numbers [of l "rf_top rf"] stack_register_run [OF _ assms, of l] unfolding dep_branch by (cases k) simp_all
qed (simp add: dep_branch)

lemma flag_is_integer: "isFlagDependency l \<Longrightarrow> dep_class l = Some RInt"
  by (simp add: dep_class_def isFlagDependency_def isIntegerDependency_def dep_defs)

section \<open>Uops\<close>

definition uop_shape :: "uop \<Rightarrow> bool" where
  "uop_shape u \<longleftrightarrow> length (ui_dep (uo_uinst u)) = 7 \<and> length (uo_inputs u) = 3 \<and> length (uo_outputs u) = 4 \<and>
     length (uo_old_outputs u) = 4"

definition idep :: "uop \<Rightarrow> nat \<Rightarrow> int" where
  "idep u d = ui_dep (uo_uinst u) ! d"

definition odep :: "uop \<Rightarrow> nat \<Rightarrow> int" where
  "odep u d = ui_dep (uo_uinst u) ! (3 + d)"

lemma deps_update [simp]:
  "idep (u\<lparr>uo_inputs := xs\<rparr>) = idep u" "odep (u\<lparr>uo_inputs := xs\<rparr>) = odep u" "odep (u\<lparr>uo_outputs := xs\<rparr>) = odep u"
  "odep (u\<lparr>uo_old_outputs := xs\<rparr>) = odep u" "odep (u\<lparr>uo_completed := b\<rparr>) = odep u" "odep (u\<lparr>uo_ready := b\<rparr>) = odep u"
  "idep (u\<lparr>uo_outputs := xs\<rparr>) = idep u" "idep (u\<lparr>uo_old_outputs := xs\<rparr>) = idep u" "idep (u\<lparr>uo_completed := b\<rparr>) = idep u"
  "idep (u\<lparr>uo_ready := b\<rparr>) = idep u"
  by (simp_all add: idep_def odep_def fun_eq_iff)

lemma dep_access [simp]:
  assumes "uop_shape u"
  shows "d < 3 \<Longrightarrow> getIDep d (uo_uinst u) = Some (idep u d)" "d < 4 \<Longrightarrow> getODep d (uo_uinst u) = Some (odep u d)"
    "d < 3 \<Longrightarrow> getInput d u = Some (uo_inputs u ! d)" "d < 4 \<Longrightarrow> getOutput d u = Some (uo_outputs u ! d)"
    "d < 4 \<Longrightarrow> getOldOutput d u = Some (uo_old_outputs u ! d)"
    "d < 3 \<Longrightarrow> setInput d p u = Some (u\<lparr>uo_inputs := (uo_inputs u)[d := p]\<rparr>)"
    "d < 4 \<Longrightarrow> setOutput d p u = Some (u\<lparr>uo_outputs := (uo_outputs u)[d := p]\<rparr>)"
    "d < 4 \<Longrightarrow> setOldOutput d p u = Some (u\<lparr>uo_old_outputs := (uo_old_outputs u)[d := p]\<rparr>)"
  using assms by (simp_all add: uop_shape_def getIDep_def getODep_def getInput_def getOutput_def getOldOutput_def setInput_def
      setOutput_def setOldOutput_def idep_def odep_def MaxIDeps_def MaxODeps_def)

text \<open>The moves of a uop, for the dependences in \<open>D\<close>, with the top of the stack \<open>t\<close> that it was renamed with.\<close>

definition moves :: "rclass \<Rightarrow> int \<Rightarrow> uop \<Rightarrow> nat list \<Rightarrow> move list" where
  "moves k t u D = concat (map (\<lambda>d. case dep_index k t (odep u d) of None \<Rightarrow> []
     | Some i \<Rightarrow> [(i, uo_outputs u ! d, uo_old_outputs u ! d)]) D)"

definition all_moves :: "rclass \<Rightarrow> int \<Rightarrow> uop \<Rightarrow> move list" where
  "all_moves k t u = moves k t u [0..<4]"

lemma moves_simps [simp]:
  "moves k t u [] = []"
  "moves k t u (D @ D') = moves k t u D @ moves k t u D'"
  "moves k t u (d # D) = (case dep_index k t (odep u d) of None \<Rightarrow> [] | Some i \<Rightarrow> [(i, uo_outputs u ! d, uo_old_outputs u ! d)]) @ moves k t u D"
  by (simp_all add: moves_def)

lemma news_moves: "p \<in> news (moves k t u D) \<longleftrightarrow> (\<exists>d \<in> set D. dep_class (odep u d) = Some k \<and> p = uo_outputs u ! d)"
  by (induction D) (auto simp: dep_index_def)

definition file_inv :: "register_file \<Rightarrow> (rclass \<Rightarrow> int list) \<Rightarrow> (rclass \<Rightarrow> move list) \<Rightarrow> (rclass \<Rightarrow> int set) \<Rightarrow> bool" where
  "file_inv rf R E X \<longleftrightarrow> (\<forall>k. class_inv (class_at k rf) (R k) (E k) (X k) \<and> length (R k) = rat_size k) \<and>
     0 \<le> rf_top rf \<and> rf_top rf < 8"

definition pend :: "register_file \<Rightarrow> rclass \<Rightarrow> int \<Rightarrow> bool" where
  "pend rf k p \<longleftrightarrow> pending_at (class_at k rf) p"

abbreviation rat :: "register_file \<Rightarrow> rclass \<Rightarrow> int list" where
  "rat rf k \<equiv> rc_rat (class_at k rf)"

lemma file_invD:
  assumes "file_inv rf R E X"
  shows "class_inv (class_at k rf) (R k) (E k) (X k)" "length (R k) = rat_size k" "length (rat rf k) = rat_size k"
    "0 \<le> rf_top rf" "rf_top rf < 8"
  using assms class_invD(2) unfolding file_inv_def by metis+

section \<open>Squash and commit\<close>

lemma undo_output_run:
  assumes F: "file_inv rf R (\<lambda>k. E k @ moves k (rf_top rf) u [0..<Suc d]) (\<lambda>_. {})" and u: "uop_shape u" "d < 4"
    and np: "\<And>k p. p \<in> news (moves k (rf_top rf) u [0..<4]) \<Longrightarrow> \<not> pend rf k p"
    and inv: "dep_class (odep u d) = None \<Longrightarrow> uo_outputs u ! d = - 1 \<and> uo_old_outputs u ! d = - 1"
  obtains rf' where "undo_output u d rf = Some rf'" "file_inv rf' R (\<lambda>k. E k @ moves k (rf_top rf) u [0..<d]) (\<lambda>_. {})"
    "pend rf' = pend rf" "rf_top rf' = rf_top rf" "\<And>k. rc_local_size (class_at k rf') = rc_local_size (class_at k rf)"
proof -
  let ?t = "rf_top rf" and ?p = "uo_outputs u ! d" and ?q = "uo_old_outputs u ! d"
  have t: "0 \<le> ?t" using file_invD [OF F] by simp
  have step: "undo_output u d rf = (case dep_class (odep u d) of None \<Rightarrow> Some rf
      | Some k \<Rightarrow> on_class k (undo_in (int (dep_number k ?t (odep u d))) ?p ?q) rf)"
    using inv u unfolding undo_output_def
    by (simp add: dep_dispatch [OF t, where f = "\<lambda>k i. on_class k (undo_in i ?p ?q) rf"] split: option.splits)
  show thesis
  proof (cases "dep_class (odep u d)")
    case None
    then have "dep_index k ?t (odep u d) = None" for k by (simp add: dep_index_def)
    then show thesis using step None F by (intro that [of rf]) (simp_all add: file_inv_def)
  next
    case (Some k)
    let ?i = "dep_number k ?t (odep u d)"
    have idx: "dep_index k' ?t (odep u d) = (if k' = k then Some ?i else None)" for k' using Some by (simp add: dep_index_def)
    have I: "class_inv (class_at k rf) (R k) ((E k @ moves k ?t u [0..<d]) @ [(?i, ?p, ?q)]) {}"
      using file_invD(1) [OF F, of k] idx by simp
    have "?p \<in> news (moves k ?t u [0..<4])" using Some u(2) by (auto simp: news_moves simp del: upt_conv_Cons)
    then have "\<not> pending_at (class_at k rf) ?p" using np by (simp add: pend_def)
    then obtain c' where c': "undo_in (int ?i) ?p ?q (class_at k rf) = Some c'" "class_inv c' (R k) (E k @ moves k ?t u [0..<d]) {}"
        "rc_local_size c' = rc_local_size (class_at k rf)" "pending_at c' = pending_at (class_at k rf)"
      using class_pop [OF I] by metis
    have "class_inv (class_at k' (set_class k c' rf)) (R k') (E k' @ moves k' ?t u [0..<d]) {} \<and> length (R k') = rat_size k'" for k'
      using c'(2) file_invD(1,2) [OF F, of k'] idx [of k'] by (cases "k' = k") simp_all
    then have "file_inv (set_class k c' rf) R (\<lambda>k. E k @ moves k ?t u [0..<d]) (\<lambda>_. {})"
      using file_invD(4,5) [OF F] unfolding file_inv_def by simp
    moreover have "pend (set_class k c' rf) = pend rf" using c'(4) by (simp add: pend_def fun_eq_iff)
    ultimately show thesis using step Some c' by (intro that [of "set_class k c' rf"]) (simp_all add: on_class_def)
  qed
qed

lemma UndoUop_run:
  assumes F: "file_inv rf R (\<lambda>k. E k @ all_moves k (rf_top rf) u) (\<lambda>_. {})" and u: "uop_shape u" "uo_speculative_mode u"
    and np: "\<And>k p. p \<in> news (all_moves k (rf_top rf) u) \<Longrightarrow> \<not> pend rf k p"
    and inv: "\<And>d. d < 4 \<Longrightarrow> dep_class (odep u d) = None \<Longrightarrow> uo_outputs u ! d = - 1 \<and> uo_old_outputs u ! d = - 1"
  obtains rf' where "UndoUop rf u = Some rf'" "file_inv rf' R E (\<lambda>_. {})" "pend rf' = pend rf"
    "rf_top rf' = undo_top (ui_opcode (uo_uinst u)) (rf_top rf)" "\<And>k. rc_local_size (class_at k rf') = rc_local_size (class_at k rf)"
proof -
  let ?t = "rf_top rf"
  let ?I = "\<lambda>i rf'. file_inv rf' R (\<lambda>k. E k @ moves k ?t u [0..<4 - i]) (\<lambda>_. {}) \<and> pend rf' = pend rf \<and> rf_top rf' = ?t \<and>
    (\<forall>k. rc_local_size (class_at k rf') = rc_local_size (class_at k rf))"
  have "\<exists>rf'. for_loop 0 4 (\<lambda>i. undo_output u (MaxODeps - 1 - i)) rf = Some rf' \<and> ?I 4 rf'"
  proof (rule for_loop_rule [where I = ?I])
    show "?I 0 rf" using F by (simp add: all_moves_def)
    fix i rf1 assume i: "i < (4 :: nat)" and I: "?I i rf1"
    have d: "4 - i = Suc (MaxODeps - 1 - i)" "MaxODeps - 1 - i < 4" "4 - Suc i = MaxODeps - 1 - i" using i by (simp_all add: MaxODeps_def)
    have F1: "file_inv rf1 R (\<lambda>k. E k @ moves k (rf_top rf1) u [0..<Suc (MaxODeps - 1 - i)]) (\<lambda>_. {})" using I unfolding d(1) by simp
    have np1: "\<not> pend rf1 k p" if "p \<in> news (moves k (rf_top rf1) u [0..<4])" for k p
      using np [of p k] that I by (simp add: all_moves_def)
    obtain rf2 where "undo_output u (MaxODeps - 1 - i) rf1 = Some rf2"
        "file_inv rf2 R (\<lambda>k. E k @ moves k (rf_top rf1) u [0..<MaxODeps - 1 - i]) (\<lambda>_. {})"
        "pend rf2 = pend rf1" "rf_top rf2 = rf_top rf1" "\<And>k. rc_local_size (class_at k rf2) = rc_local_size (class_at k rf1)"
      by (rule undo_output_run [OF F1 u(1) d(2)]) (erule np1, erule inv [OF d(2)], rule that)
    then show "\<exists>rf2. undo_output u (MaxODeps - 1 - i) rf1 = Some rf2 \<and> ?I (Suc i) rf2" using I unfolding d(3) by simp
  qed simp
  then obtain rf1 where rf1: "for_loop 0 4 (\<lambda>i. undo_output u (MaxODeps - 1 - i)) rf = Some rf1" "?I 4 rf1" by blast
  let ?rf = "rf1\<lparr>rf_top := undo_top (ui_opcode (uo_uinst u)) (rf_top rf1)\<rparr>"
  have "0 \<le> undo_top (ui_opcode (uo_uinst u)) ?t \<and> undo_top (ui_opcode (uo_uinst u)) ?t < 8"
    using file_invD(4,5) [OF F] by (simp add: undo_top_def)
  then have "file_inv ?rf R E (\<lambda>_. {})" using rf1(2) by (simp add: file_inv_def)
  moreover have "pend ?rf = pend rf" using rf1(2) by (simp add: pend_def fun_eq_iff)
  moreover have "UndoUop rf u = Some ?rf" using rf1(1) u(2) unfolding UndoUop_def MaxODeps_def by simp
  ultimately show thesis using rf1(2) by (intro that [of ?rf]) simp_all
qed

lemma commit_output_run:
  assumes F: "file_inv rf R (\<lambda>k. moves k t u (d # D) @ E k) (\<lambda>_. {})" and u: "uop_shape u" "d < 4"
    and np: "\<And>k p. p \<in> set (R k) \<union> news (moves k t u [0..<4]) \<Longrightarrow> \<not> pend rf k p"
    and inv: "dep_class (odep u d) = None \<Longrightarrow> uo_outputs u ! d = - 1 \<and> uo_old_outputs u ! d = - 1"
  obtains rf' R' where "commit_output u d rf = Some rf'" "file_inv rf' R' (\<lambda>k. moves k t u D @ E k) (\<lambda>_. {})"
    "\<And>k. set (R' k) \<subseteq> set (R k) \<union> news (moves k t u [0..<4])" "pend rf' = pend rf" "rf_top rf' = rf_top rf"
    "\<And>k. rc_local_size (class_at k rf') = rc_local_size (class_at k rf)" "\<And>k. rat rf' k = rat rf k"
proof -
  let ?p = "uo_outputs u ! d" and ?q = "uo_old_outputs u ! d"
  have step: "commit_output u d rf = (case dep_class (odep u d) of None \<Rightarrow> Some rf | Some k \<Rightarrow> on_class k (commit_in ?q) rf)"
    using inv u unfolding commit_output_def by (simp add: dep_branch split: option.splits rclass.splits)
  show thesis
  proof (cases "dep_class (odep u d)")
    case None
    then have "dep_index k t (odep u d) = None" for k by (simp add: dep_index_def)
    then show thesis using step None F by (intro that [of rf R]) (simp_all add: file_inv_def)
  next
    case (Some k)
    let ?i = "dep_number k t (odep u d)"
    have idx: "dep_index k' t (odep u d) = (if k' = k then Some ?i else None)" for k' using Some by (simp add: dep_index_def)
    have I: "class_inv (class_at k rf) (R k) ((?i, ?p, ?q) # moves k t u D @ E k) {}"
      using file_invD(1) [OF F, of k] idx by simp
    have new: "?p \<in> news (moves k t u [0..<4])" using Some u(2) by (auto simp: news_moves simp del: upt_conv_Cons)
    have "?i < length (R k)" using class_invD(3) [OF I, of "(?i, ?p, ?q)"] by simp
    then have "?q \<in> set (R k)" using class_invD(4) [OF I, of ?i] by simp
    then have "\<not> pending_at (class_at k rf) ?q" using np by (simp add: pend_def)
    then obtain c' where c': "commit_in ?q (class_at k rf) = Some c'" "class_inv c' ((R k)[?i := ?p]) (moves k t u D @ E k) {}"
        "rc_rat c' = rat rf k" "rc_local_size c' = rc_local_size (class_at k rf)" "pending_at c' = pending_at (class_at k rf)"
      using class_shift [OF I] by metis
    let ?R = "R(k := (R k)[?i := ?p])"
    have "class_inv (class_at k' (set_class k c' rf)) (?R k') (moves k' t u D @ E k') {} \<and> length (?R k') = rat_size k'" for k'
      using c'(2) file_invD(1,2) [OF F, of k'] idx [of k'] by (cases "k' = k") simp_all
    then have "file_inv (set_class k c' rf) ?R (\<lambda>k. moves k t u D @ E k) (\<lambda>_. {})"
      using file_invD(4,5) [OF F] unfolding file_inv_def by simp
    moreover have "pend (set_class k c' rf) = pend rf" using c'(5) by (simp add: pend_def fun_eq_iff)
    moreover have "set (?R k') \<subseteq> set (R k') \<union> news (moves k' t u [0..<4])" for k'
      using set_update_subset_insert [of "R k" ?i ?p] new by auto
    ultimately show thesis using step Some c' by (intro that [of "set_class k c' rf" ?R]) (simp_all add: on_class_def)
  qed
qed

lemma CommitUop_run:
  assumes F: "file_inv rf R (\<lambda>k. all_moves k t u @ E k) (\<lambda>_. {})" and u: "uop_shape u" "\<not> uo_speculative_mode u"
    and np: "\<And>k p. p \<in> set (R k) \<union> news (all_moves k t u) \<Longrightarrow> \<not> pend rf k p"
    and inv: "\<And>d. d < 4 \<Longrightarrow> dep_class (odep u d) = None \<Longrightarrow> uo_outputs u ! d = - 1 \<and> uo_old_outputs u ! d = - 1"
  obtains rf' R' where "CommitUop rf u = Some rf'" "file_inv rf' R' E (\<lambda>_. {})" "\<And>k. set (R' k) \<subseteq> set (R k) \<union> news (all_moves k t u)"
    "pend rf' = pend rf" "rf_top rf' = rf_top rf" "\<And>k. rc_local_size (class_at k rf') = rc_local_size (class_at k rf)"
    "\<And>k. rat rf' k = rat rf k"
proof -
  let ?I = "\<lambda>d rf'. (\<exists>R'. file_inv rf' R' (\<lambda>k. moves k t u [d..<4] @ E k) (\<lambda>_. {}) \<and> (\<forall>k. set (R' k) \<subseteq> set (R k) \<union> news (all_moves k t u))) \<and>
    pend rf' = pend rf \<and> rf_top rf' = rf_top rf \<and> (\<forall>k. rc_local_size (class_at k rf') = rc_local_size (class_at k rf)) \<and> (\<forall>k. rat rf' k = rat rf k)"
  have "\<exists>rf'. for_loop 0 4 (commit_output u) rf = Some rf' \<and> ?I 4 rf'"
  proof (rule for_loop_rule [where I = ?I])
    show "?I 0 rf" using F by (auto simp: all_moves_def simp del: upt_conv_Cons)
    fix d rf1 assume d: "d < (4 :: nat)" and I: "?I d rf1"
    obtain R1 where R1: "file_inv rf1 R1 (\<lambda>k. moves k t u [d..<4] @ E k) (\<lambda>_. {})" "\<And>k. set (R1 k) \<subseteq> set (R k) \<union> news (all_moves k t u)"
      using I by blast
    have F1: "file_inv rf1 R1 (\<lambda>k. moves k t u (d # [Suc d..<4]) @ E k) (\<lambda>_. {})" using R1(1) d by (simp add: upt_conv_Cons)
    have np1: "\<not> pend rf1 k p" if "p \<in> set (R1 k) \<union> news (moves k t u [0..<4])" for k p
      using np [of p k] that I R1(2) [of k] by (auto simp: all_moves_def)
    obtain rf2 R2 where s: "commit_output u d rf1 = Some rf2" "file_inv rf2 R2 (\<lambda>k. moves k t u [Suc d..<4] @ E k) (\<lambda>_. {})"
        "\<And>k. set (R2 k) \<subseteq> set (R1 k) \<union> news (moves k t u [0..<4])" "pend rf2 = pend rf1" "rf_top rf2 = rf_top rf1"
        "\<And>k. rc_local_size (class_at k rf2) = rc_local_size (class_at k rf1)" "\<And>k. rat rf2 k = rat rf1 k"
      by (rule commit_output_run [OF F1 u(1) d]) (erule np1, erule inv [OF d], rule that)
    have "set (R2 k) \<subseteq> set (R k) \<union> news (all_moves k t u)" for k using s(3) [of k] R1(2) [of k] by (auto simp: all_moves_def)
    then show "\<exists>rf2. commit_output u d rf1 = Some rf2 \<and> ?I (Suc d) rf2" using s I by auto
  qed simp
  then show thesis using that u(2) unfolding CommitUop_def MaxODeps_def by auto
qed

section \<open>Completion\<close>

lemma WriteUop_run:
  assumes F: "file_inv rf R E (\<lambda>_. {})" and u: "uop_shape u" and rg: "\<And>k p. p \<in> news (all_moves k t u) \<Longrightarrow> in_range (class_at k rf) p"
  obtains rf' where "WriteUop rf u = Some rf'" "file_inv rf' R E (\<lambda>_. {})" "\<And>k p. pend rf' k p \<longleftrightarrow> pend rf k p \<and> p \<notin> news (all_moves k t u)"
    "rf_top rf' = rf_top rf" "\<And>k. rc_local_size (class_at k rf') = rc_local_size (class_at k rf)" "\<And>k. rat rf' k = rat rf k"
proof -
  let ?I = "\<lambda>d rf'. file_inv rf' R E (\<lambda>_. {}) \<and> (\<forall>k p. pend rf' k p \<longleftrightarrow> pend rf k p \<and> p \<notin> news (moves k t u [0..<d])) \<and>
    rf_top rf' = rf_top rf \<and> (\<forall>k. rc_local_size (class_at k rf') = rc_local_size (class_at k rf)) \<and> (\<forall>k. rat rf' k = rat rf k)"
  have "\<exists>rf'. for_loop 0 4 (write_output u) rf = Some rf' \<and> ?I 4 rf'"
  proof (rule for_loop_rule [where I = ?I])
    show "?I 0 rf" using F by simp
    fix d rf1 assume d: "d < (4 :: nat)" and I: "?I d rf1"
    let ?p = "uo_outputs u ! d"
    have step: "write_output u d rf1 = (case dep_class (odep u d) of None \<Rightarrow> Some rf1 | Some k \<Rightarrow> on_class k (clear_pending ?p) rf1)"
      using u d unfolding write_output_def by (simp add: dep_branch split: option.splits rclass.splits)
    have new: "p \<in> news (moves k t u [0..<Suc d]) \<longleftrightarrow> p \<in> news (moves k t u [0..<d]) \<or> dep_class (odep u d) = Some k \<and> p = ?p" for k p
      unfolding news_moves by (auto simp: less_Suc_eq)
    show "\<exists>rf2. write_output u d rf1 = Some rf2 \<and> ?I (Suc d) rf2"
    proof (cases "dep_class (odep u d)")
      case None
      then show ?thesis using I step unfolding new by simp
    next
      case (Some k)
      have F1: "file_inv rf1 R E (\<lambda>_. {})" using I by blast
      have "?p \<in> news (moves k t u [0..<4])" using Some d by (auto simp: news_moves simp del: upt_conv_Cons)
      then have "in_range (class_at k rf1) ?p" using rg [of ?p k] I unfolding all_moves_def in_range_def by simp
      then obtain c' where c': "clear_pending ?p (class_at k rf1) = Some c'" "books c' (uses (rat rf1 k) (E k)) {}" "rc_rat c' = rat rf1 k"
          "rc_local_size c' = rc_local_size (class_at k rf1)" "\<And>q. pending_at c' q \<longleftrightarrow> pending_at (class_at k rf1) q \<and> q \<noteq> ?p"
        using clear_pending_run [OF class_invD(1) [OF file_invD(1) [OF F1]]] by metis
      have "class_inv (class_at k' (set_class k c' rf1)) (R k') (E k') {} \<and> length (R k') = rat_size k'" for k'
        using c'(2,3) file_invD(1,2) [OF F1, of k'] by (cases "k' = k") (simp_all add: class_inv_def)
      then have "file_inv (set_class k c' rf1) R E (\<lambda>_. {})" using file_invD(4,5) [OF F1] unfolding file_inv_def by simp
      moreover have "pend (set_class k c' rf1) k' p \<longleftrightarrow> pend rf1 k' p \<and> \<not> (k = k' \<and> p = ?p)" for k' p
        using c'(5) by (auto simp: pend_def)
      ultimately show ?thesis using I step Some c' unfolding new by (auto simp: on_class_def)
    qed
  qed simp
  then show thesis using that unfolding WriteUop_def MaxODeps_def all_moves_def by auto
qed

section \<open>Renaming\<close>

text \<open>Counters of statistics are not part of the invariant.\<close>

definition stats_only :: "register_file \<Rightarrow> register_file \<Rightarrow> bool" where
  "stats_only rf rf' \<longleftrightarrow> rf_top rf' = rf_top rf \<and>
     (\<forall>k. (class_at k rf')\<lparr>rc_rat_reads := 0, rc_rat_writes := 0\<rparr> = (class_at k rf)\<lparr>rc_rat_reads := 0, rc_rat_writes := 0\<rparr>)"

lemma class_stats [simp]:
  "class_inv (c\<lparr>rc_rat_reads := x\<rparr>) R E X \<longleftrightarrow> class_inv c R E X" "class_inv (c\<lparr>rc_rat_writes := y\<rparr>) R E X \<longleftrightarrow> class_inv c R E X"
  "pending_at (c\<lparr>rc_rat_reads := x\<rparr>) p \<longleftrightarrow> pending_at c p" "pending_at (c\<lparr>rc_rat_writes := y\<rparr>) p \<longleftrightarrow> pending_at c p"
  by (simp_all add: class_inv_def books_def free_list_def in_range_def pending_at_def)

lemma stats_onlyD:
  assumes "stats_only rf rf'"
  shows "rf_top rf' = rf_top rf" "rat rf' k = rat rf k" "rc_num_free (class_at k rf') = rc_num_free (class_at k rf)"
    "rc_local_size (class_at k rf') = rc_local_size (class_at k rf)" "pend rf' = pend rf"
    "rc_occupied (class_at k rf') = rc_occupied (class_at k rf)" "file_inv rf' R E X = file_inv rf R E X"
proof -
  have s: "(class_at k rf')\<lparr>rc_rat_reads := 0, rc_rat_writes := 0\<rparr> = (class_at k rf)\<lparr>rc_rat_reads := 0, rc_rat_writes := 0\<rparr>" for k
    using assms unfolding stats_only_def by blast
  show top: "rf_top rf' = rf_top rf" using assms by (simp add: stats_only_def)
  show "rat rf' k = rat rf k" "rc_num_free (class_at k rf') = rc_num_free (class_at k rf)"
    "rc_local_size (class_at k rf') = rc_local_size (class_at k rf)" "rc_occupied (class_at k rf') = rc_occupied (class_at k rf)"
    using arg_cong [OF s, of rc_rat k] arg_cong [OF s, of rc_num_free k] arg_cong [OF s, of rc_local_size k]
      arg_cong [OF s, of rc_occupied k] by simp_all
  have "class_inv (class_at k rf') (R k) (E k) (X k) \<longleftrightarrow> class_inv (class_at k rf) (R k) (E k) (X k)" for k
    using arg_cong [OF s, of "\<lambda>c. class_inv c (R k) (E k) (X k)" k] by simp
  then show "file_inv rf' R E X = file_inv rf R E X" unfolding file_inv_def top by simp
  have "pend rf' k p \<longleftrightarrow> pend rf k p" for k p
    using arg_cong [OF s, of "\<lambda>c. pending_at c p" k] by (simp add: pend_def)
  then show "pend rf' = pend rf" by (simp add: fun_eq_iff)
qed

lemma stats_trans: "stats_only rf rf1 \<Longrightarrow> stats_only rf1 rf2 \<Longrightarrow> stats_only rf rf2"
  unfolding stats_only_def by simp

definition mapped_input :: "(rclass \<Rightarrow> int list) \<Rightarrow> int \<Rightarrow> uop \<Rightarrow> nat \<Rightarrow> int" where
  "mapped_input M t u d = (case dep_class (idep u d) of None \<Rightarrow> - 1 | Some k \<Rightarrow> M k ! dep_number k t (idep u d))"

lemma rename_input_run:
  assumes F: "file_inv rf R E X" and u: "uop_shape u" "d < 3"
  obtains rf' where "rename_input d (rf, u) = Some (rf', u\<lparr>uo_inputs := (uo_inputs u)[d := mapped_input (rat rf) (rf_top rf) u d]\<rparr>)"
    "stats_only rf rf'"
proof -
  have t: "0 \<le> rf_top rf" using file_invD [OF F] by simp
  have step: "rename_input d (rf, u) = (case dep_class (idep u d) of None \<Rightarrow> Some (rf, u\<lparr>uo_inputs := (uo_inputs u)[d := - 1]\<rparr>)
      | Some k \<Rightarrow> rename_from k (int (dep_number k (rf_top rf) (idep u d))) d (rf, u))"
    using u unfolding rename_input_def
    by (simp add: dep_dispatch [OF t, where f = "\<lambda>k i. rename_from k i d (rf, u)"] split: option.splits)
  show thesis
  proof (cases "dep_class (idep u d)")
    case None
    then show thesis using step by (intro that [of rf]) (simp_all add: mapped_input_def stats_only_def)
  next
    case (Some k)
    have "dep_number k (rf_top rf) (idep u d) < length (rat rf k)" using dep_number_less [OF Some] file_invD(3) [OF F] by simp
    then show thesis
      using step Some u
      by (intro that [of "set_class k ((class_at k rf)\<lparr>rc_rat_reads := rc_rat_reads (class_at k rf) + 1\<rparr>) rf"])
         (auto simp: rename_from_def rd_int_def on_class_def mapped_input_def stats_only_def)
  qed
qed

lemma rename_inputs_run:
  assumes F: "file_inv rf R E X" and u: "uop_shape u"
  obtains rf' xs where "for_loop 0 MaxIDeps rename_input (rf, u) = Some (rf', u\<lparr>uo_inputs := xs\<rparr>)" "stats_only rf rf'" "length xs = 3"
    "\<And>d. d < 3 \<Longrightarrow> xs ! d = mapped_input (rat rf) (rf_top rf) u d"
proof -
  let ?I = "\<lambda>d (rf', u'). stats_only rf rf' \<and> (\<exists>xs. u' = u\<lparr>uo_inputs := xs\<rparr> \<and> length xs = 3 \<and>
    (\<forall>e < d. xs ! e = mapped_input (rat rf) (rf_top rf) u e))"
  have "\<exists>s. for_loop 0 3 rename_input (rf, u) = Some s \<and> ?I 3 s"
  proof (rule for_loop_rule [where I = ?I])
    have "u = u\<lparr>uo_inputs := uo_inputs u\<rparr>" "length (uo_inputs u) = 3" using u by (simp_all add: uop_shape_def)
    then show "?I 0 (rf, u)" by (auto simp: stats_only_def intro!: exI [of _ "uo_inputs u"])
    fix d s assume d: "d < (3 :: nat)" and I: "?I d s"
    obtain rf1 xs where s: "s = (rf1, u\<lparr>uo_inputs := xs\<rparr>)" "stats_only rf rf1" "length xs = 3"
      "\<forall>e < d. xs ! e = mapped_input (rat rf) (rf_top rf) u e" using I by auto
    let ?u = "u\<lparr>uo_inputs := xs\<rparr>"
    have "uop_shape ?u" using u s(3) by (simp add: uop_shape_def)
    moreover have "file_inv rf1 R E X" using F stats_onlyD(7) [OF s(2)] by simp
    moreover have "mapped_input (rat rf1) (rf_top rf1) ?u d = mapped_input (rat rf) (rf_top rf) u d"
      using stats_onlyD(1,2) [OF s(2)] by (simp add: mapped_input_def split: option.splits)
    ultimately obtain rf2 where "rename_input d (rf1, ?u) = Some (rf2, ?u\<lparr>uo_inputs := xs[d := mapped_input (rat rf) (rf_top rf) u d]\<rparr>)"
        "stats_only rf1 rf2"
      using rename_input_run [of rf1 R E X ?u d] d by auto
    then show "\<exists>s'. rename_input d s = Some s' \<and> ?I (Suc d) s'"
      using s d stats_trans [OF s(2)] by (auto simp: nth_list_update less_Suc_eq intro!: exI [of _ "xs[d := _]"])
  qed simp
  then show thesis using that unfolding MaxIDeps_def by auto
qed

text \<open>
  The state while the outputs of \<open>u0\<close> are renamed: those in \<open>D\<close> are done, and the registers in \<open>X\<close> are requested.
  Every register given to an output was unused before.
\<close>

definition renaming :: "register_file \<Rightarrow> (rclass \<Rightarrow> int list) \<Rightarrow> (rclass \<Rightarrow> move list) \<Rightarrow> uop \<Rightarrow> nat list \<Rightarrow> (rclass \<Rightarrow> int set) \<Rightarrow>
    register_file \<Rightarrow> uop \<Rightarrow> bool" where
  "renaming rf0 R E u0 D X rf u \<longleftrightarrow> file_inv rf R (\<lambda>k. E k @ moves k (rf_top rf0) u D) X \<and> rf_top rf = rf_top rf0 \<and> uop_shape u \<and>
     (\<exists>os qs. u = u0\<lparr>uo_outputs := os, uo_old_outputs := qs\<rparr>) \<and>
     (\<forall>k. \<forall>p \<in> X k \<union> news (moves k (rf_top rf0) u D). uses (rat rf0 k) (E k) p = 0) \<and>
     (\<forall>k p. pend rf k p \<longleftrightarrow> pend rf0 k p \<or> p \<in> news (moves k (rf_top rf0) u D)) \<and>
     (\<forall>k. rc_local_size (class_at k rf) = rc_local_size (class_at k rf0))"

lemma renamingD:
  assumes "renaming rf0 R E u0 D X rf u"
  shows "file_inv rf R (\<lambda>k. E k @ moves k (rf_top rf0) u D) X" "rf_top rf = rf_top rf0" "uop_shape u"
    "\<exists>os qs. u = u0\<lparr>uo_outputs := os, uo_old_outputs := qs\<rparr>"
    "p \<in> X k \<union> news (moves k (rf_top rf0) u D) \<Longrightarrow> uses (rat rf0 k) (E k) p = 0"
    "pend rf k p \<longleftrightarrow> pend rf0 k p \<or> p \<in> news (moves k (rf_top rf0) u D)"
    "rc_local_size (class_at k rf) = rc_local_size (class_at k rf0)" "uo_uinst u = uo_uinst u0" "odep u = odep u0"
proof -
  show "\<exists>os qs. u = u0\<lparr>uo_outputs := os, uo_old_outputs := qs\<rparr>" using assms unfolding renaming_def by blast
  then show "uo_uinst u = uo_uinst u0" by auto
  then show "odep u = odep u0" by (simp add: odep_def fun_eq_iff)
qed (use assms in \<open>unfold renaming_def, blast+\<close>)

text \<open>A register that is not in use was not before.\<close>

lemma unused_before:
  assumes I: "class_inv c0 R E {}" "class_inv c R (E @ M) X" and p: "uses (rc_rat c) (E @ M) p = 0"
  shows "uses (rc_rat c0) E p = 0"
proof (rule ccontr)
  assume "uses (rc_rat c0) E p \<noteq> 0"
  then have "p \<in> set (rc_rat c0) \<or> p \<in> set (olds E)" by (metis uses_pos gr0I)
  moreover have no: "p \<notin> set (rc_rat c)" "p \<notin> set (olds E)" "p \<notin> set (olds M)"
    using p uses_pos [of "rc_rat c" "E @ M" p] by auto
  ultimately obtain i where i: "i < length R" "rc_rat c0 ! i = p" using class_invD(2) [OF I(1)] by (auto simp: in_set_conv_nth)
  obtain y where y: "follows (R ! i) (steps i E) y" "follows y (steps i M) (rc_rat c ! i)"
    using class_invD(4) [OF I(2) i(1)] by (auto simp: follows_append)
  have "y = p" using follows_unique [OF y(1) class_invD(4) [OF I(1) i(1)]] i(2) by simp
  then have "p = rc_rat c ! i \<or> p \<in> snd ` set (steps i M)" using follows_start [OF y(2)] by simp
  moreover have "rc_rat c ! i \<in> set (rc_rat c)" using i(1) class_invD(2) [OF I(2)] by simp
  moreover have "p \<notin> snd ` set (steps i M)" using no(3) steps_olds [of _ p i M] by auto
  ultimately show False using no(1) by metis
qed

lemma renaming_request:
  assumes r: "renaming rf0 R E u0 D (\<lambda>_. {}) rf u" and F: "file_inv rf0 R E (\<lambda>_. {})" and free: "0 < rc_num_free (class_at k rf)"
  obtains rf' p where "RequestRegister k rf = Some (rf', p)" "renaming rf0 R E u0 D ((\<lambda>_. {})(k := {p})) rf' u" "0 \<le> p"
    "\<And>k'. rc_num_free (class_at k' rf') = rc_num_free (class_at k' rf) - (if k' = k then 1 else 0)"
    "uses (rat rf k) (E k @ moves k (rf_top rf0) u D) p = 0"
proof -
  note F1 = renamingD(1) [OF r]
  obtain p c' where c': "request (class_at k rf) = Some (c', p)" "class_inv c' (R k) (E k @ moves k (rf_top rf0) u D) {p}"
      "uses (rat rf k) (E k @ moves k (rf_top rf0) u D) p = 0" "0 \<le> p" "rc_rat c' = rat rf k"
      "rc_num_free c' = rc_num_free (class_at k rf) - 1" "rc_local_size c' = rc_local_size (class_at k rf)" "pending_at c' = pending_at (class_at k rf)"
    using class_request [OF file_invD(1) [OF F1] free] by metis
  let ?rf = "set_class k c' rf"
  have "class_inv (class_at k' ?rf) (R k') (E k' @ moves k' (rf_top rf0) u D) (((\<lambda>_. {})(k := {p})) k') \<and> length (R k') = rat_size k'" for k'
    using c'(2) file_invD(1,2) [OF F1, of k'] by (cases "k' = k") simp_all
  then have "file_inv ?rf R (\<lambda>k. E k @ moves k (rf_top rf0) u D) ((\<lambda>_. {})(k := {p}))"
    using file_invD(4,5) [OF F1] unfolding file_inv_def by simp
  moreover have "uses (rat rf0 k) (E k) p = 0"
    using unused_before [OF file_invD(1) [OF F] file_invD(1) [OF F1]] c'(3) by simp
  moreover have "pend ?rf = pend rf" using c'(8) by (simp add: pend_def fun_eq_iff)
  ultimately have "renaming rf0 R E u0 D ((\<lambda>_. {})(k := {p})) ?rf u"
    using r c'(7) unfolding renaming_def by auto
  then show thesis using c' by (intro that [of ?rf p]) (simp_all add: RequestRegister_def)
qed

lemma moves_other:
  assumes "d \<notin> set D"
  shows "moves k t (u\<lparr>uo_outputs := (uo_outputs u)[d := p], uo_old_outputs := (uo_old_outputs u)[d := q]\<rparr>) D = moves k t u D"
  using assms by (induction D) (auto simp: odep_def split: option.splits)

lemma renaming_push:
  assumes r: "renaming rf0 R E u0 D X rf u" and d: "d < 4" "d \<notin> set D" and k: "dep_class (odep u0 d) = Some k"
    and p: "p \<in> news (moves k (rf_top rf0) u D) \<or> p \<in> X k"
  obtains rf' u' where "map_output k (int (dep_number k (rf_top rf0) (odep u0 d))) d p (rf, u) = Some (rf', u')"
    "renaming rf0 R E u0 (D @ [d]) (X(k := X k - {p})) rf' u'" "\<And>k. rc_num_free (class_at k rf') = rc_num_free (class_at k rf)"
    "uo_outputs u' = (uo_outputs u)[d := p]" "uo_old_outputs u' = (uo_old_outputs u)[d := rat rf k ! dep_number k (rf_top rf0) (odep u0 d)]"
proof -
  let ?t = "rf_top rf0"
  let ?i = "dep_number k ?t (odep u0 d)" and ?E = "\<lambda>k. E k @ moves k ?t u D"
  note F = renamingD(1) [OF r] and sh = renamingD(3) [OF r]
  have i: "?i < length (R k)" using dep_number_less [OF k] file_invD(2) [OF F] by simp
  have use: "0 < uses (rat rf k) (?E k) p \<or> p \<in> X k" using p used(1) [OF file_invD(1) [OF F]] by auto
  obtain c1 c' where c: "inc_busy True p (class_at k rf) = Some c1" "rc_rat c1 = rat rf k" "set_rat (int ?i) p c1 = Some c'"
      "class_inv c' (R k) (?E k @ [(?i, p, rat rf k ! ?i)]) (X k - {p})" "rc_rat c' = (rat rf k)[?i := p]"
      "rc_local_size c' = rc_local_size (class_at k rf)" "rc_num_free c' = rc_num_free (class_at k rf)"
      "\<And>q. pending_at c' q \<longleftrightarrow> pending_at (class_at k rf) q \<or> q = p \<and> True"
    by (rule class_push [OF file_invD(1) [OF F] use i]) (rule that)
  let ?q = "rat rf k ! ?i"
  let ?u = "u\<lparr>uo_outputs := (uo_outputs u)[d := p], uo_old_outputs := (uo_old_outputs u)[d := ?q]\<rparr>"
  let ?rf = "set_class k c' rf"
  have len: "?i < length (rat rf k)" using i file_invD(2,3) [OF F] by simp
  have sh': "uop_shape (u\<lparr>uo_outputs := (uo_outputs u)[d := p]\<rparr>)" using sh by (simp add: uop_shape_def)
  have setc: "set_class k c' (set_class k c1 rf) = ?rf" by (cases k) (simp_all add: set_class_def)
  have run: "map_output k (int ?i) d p (rf, u) = Some (?rf, ?u)"
    using c(1,2,3) len sh sh' d(1) setc by (simp add: map_output_def on_class_def rd_int_def)
  have od: "odep ?u = odep u0" "odep u = odep u0" using renamingD(9) [OF r] by (simp_all add: odep_def fun_eq_iff)
  have lens: "d < length (uo_outputs u)" "d < length (uo_old_outputs u)" using sh d(1) by (simp_all add: uop_shape_def)
  have mv: "moves k' ?t ?u (D @ [d]) = moves k' ?t u D @ (if k' = k then [(?i, p, ?q)] else [])" for k'
    unfolding moves_simps moves_other [OF d(2)] using k od lens by (simp add: dep_index_def)
  have "class_inv (class_at k' ?rf) (R k') (E k' @ moves k' ?t ?u (D @ [d])) ((X(k := X k - {p})) k') \<and> length (R k') = rat_size k'" for k'
    using c(4) file_invD(1,2) [OF F, of k'] unfolding mv by (cases "k' = k") simp_all
  then have "file_inv ?rf R (\<lambda>k. E k @ moves k ?t ?u (D @ [d])) (X(k := X k - {p}))"
    using file_invD(4,5) [OF F] unfolding file_inv_def by simp
  moreover have "uses (rat rf0 k') (E k') p' = 0" if "p' \<in> (X(k := X k - {p})) k' \<union> news (moves k' ?t ?u (D @ [d]))" for k' p'
    using renamingD(5) [OF r, of p' k'] that p renamingD(5) [OF r, of p k] unfolding mv by (auto split: if_splits)
  moreover have "pend ?rf k' p' \<longleftrightarrow> pend rf0 k' p' \<or> p' \<in> news (moves k' ?t ?u (D @ [d]))" for k' p'
    using c(8) [of p'] renamingD(6) [OF r, of k' p'] unfolding mv by (auto simp: pend_def)
  moreover have "\<exists>os qs. ?u = u0\<lparr>uo_outputs := os, uo_old_outputs := qs\<rparr>"
  proof -
    obtain os qs where "u = u0\<lparr>uo_outputs := os, uo_old_outputs := qs\<rparr>" using renamingD(4) [OF r] by blast
    then have "?u = u0\<lparr>uo_outputs := os[d := p], uo_old_outputs := qs[d := ?q]\<rparr>" by simp
    then show ?thesis by blast
  qed
  moreover have "uop_shape ?u" using sh by (simp add: uop_shape_def)
  ultimately have "renaming rf0 R E u0 (D @ [d]) (X(k := X k - {p})) ?rf ?u"
    using renamingD(2,7) [OF r] c(6) unfolding renaming_def by simp
  then show thesis using run c(7) by (intro that [of ?rf ?u]) simp_all
qed

definition plain_deps :: "uop \<Rightarrow> nat \<Rightarrow> nat list" where
  "plain_deps u n = filter (\<lambda>d. \<not> isFlagDependency (odep u d)) [0..<n]"

definition flag_deps :: "uop \<Rightarrow> nat \<Rightarrow> nat list" where
  "flag_deps u n = filter (\<lambda>d. isFlagDependency (odep u d)) [0..<n]"

lemma deps_Suc [simp]:
  "plain_deps u 0 = []" "flag_deps u 0 = []"
  "plain_deps u (Suc n) = plain_deps u n @ (if isFlagDependency (odep u n) then [] else [n])"
  "flag_deps u (Suc n) = flag_deps u n @ (if isFlagDependency (odep u n) then [n] else [])"
  by (simp_all add: plain_deps_def flag_deps_def)

lemma deps_less: "d \<in> set (plain_deps u n) \<Longrightarrow> d < n \<and> \<not> isFlagDependency (odep u d)"
  "d \<in> set (flag_deps u n) \<Longrightarrow> d < n \<and> isFlagDependency (odep u d)"
  by (simp_all add: plain_deps_def flag_deps_def)

definition class_count :: "rclass \<Rightarrow> uop \<Rightarrow> nat list \<Rightarrow> nat" where
  "class_count k u D = length (filter (\<lambda>d. dep_class (odep u d) = Some k) D)"

lemma class_count_simps [simp]:
  "class_count k u [] = 0" "class_count k u (D @ [d]) = class_count k u D + (if dep_class (odep u d) = Some k then 1 else 0)"
  by (simp_all add: class_count_def)

definition invalid_ok :: "uop \<Rightarrow> nat \<Rightarrow> bool" where
  "invalid_ok u n \<longleftrightarrow> (\<forall>d < n. dep_class (odep u d) = None \<longrightarrow> uo_outputs u ! d = - 1 \<and> uo_old_outputs u ! d = - 1)"

lemma renaming_invalid:
  assumes r: "renaming rf0 R E u0 D X rf u" and d: "d < 4" "d \<notin> set D" and k: "dep_class (odep u0 d) = None"
  shows "renaming rf0 R E u0 (D @ [d]) X rf (u\<lparr>uo_outputs := (uo_outputs u)[d := - 1], uo_old_outputs := (uo_old_outputs u)[d := - 1]\<rparr>)"
    (is "renaming _ _ _ _ _ _ _ ?u")
proof -
  have od: "odep u = odep u0" by (rule renamingD(9) [OF r])
  have mv: "moves k' t ?u (D @ [d]) = moves k' t u D" for k' t
    unfolding moves_simps moves_other [OF d(2)] using k od by (simp add: dep_index_def)
  have "\<exists>os qs. ?u = u0\<lparr>uo_outputs := os, uo_old_outputs := qs\<rparr>"
  proof -
    obtain os qs where "u = u0\<lparr>uo_outputs := os, uo_old_outputs := qs\<rparr>" using renamingD(4) [OF r] by blast
    then have "?u = u0\<lparr>uo_outputs := os[d := - 1], uo_old_outputs := qs[d := - 1]\<rparr>" by simp
    then show ?thesis by blast
  qed
  moreover have "uop_shape ?u" using renamingD(3) [OF r] by (simp add: uop_shape_def)
  ultimately show ?thesis using r unfolding renaming_def mv by blast
qed

lemma renaming_stats: "renaming rf0 R E u0 D X rf u \<Longrightarrow> stats_only rf rf' \<Longrightarrow> renaming rf0 R E u0 D X rf' u"
  unfolding renaming_def using stats_onlyD [of rf rf'] by simp

lemma rename_to_run:
  assumes r: "renaming rf0 R E u0 D (\<lambda>_. {}) rf u" and F: "file_inv rf0 R E (\<lambda>_. {})" and d: "d < 4" "d \<notin> set D"
    and k: "dep_class (odep u0 d) = Some k" and free: "0 < rc_num_free (class_at k rf)"
  obtains rf' u' p where "rename_to k (int (dep_number k (rf_top rf0) (odep u0 d))) d (rf, u) = Some ((rf', u'), p)"
    "renaming rf0 R E u0 (D @ [d]) (\<lambda>_. {}) rf' u'" "0 \<le> p" "uo_outputs u' = (uo_outputs u)[d := p]"
    "\<And>e. e \<noteq> d \<Longrightarrow> uo_old_outputs u' ! e = uo_old_outputs u ! e"
    "\<And>k'. rc_num_free (class_at k' rf') = rc_num_free (class_at k' rf) - (if k' = k then 1 else 0)"
proof -
  obtain rf1 p where 1: "RequestRegister k rf = Some (rf1, p)" "renaming rf0 R E u0 D ((\<lambda>_. {})(k := {p})) rf1 u" "0 \<le> p"
    "\<And>k'. rc_num_free (class_at k' rf1) = rc_num_free (class_at k' rf) - (if k' = k then 1 else 0)"
    using renaming_request [OF r F free] by metis
  have "p \<in> news (moves k (rf_top rf0) u D) \<or> p \<in> ((\<lambda>_. {})(k := {p})) k" by simp
  then obtain rf2 u2 where 2: "map_output k (int (dep_number k (rf_top rf0) (odep u0 d))) d p (rf1, u) = Some (rf2, u2)"
    "renaming rf0 R E u0 (D @ [d]) (((\<lambda>_. {})(k := {p}))(k := ((\<lambda>_. {})(k := {p})) k - {p})) rf2 u2"
    "\<And>k. rc_num_free (class_at k rf2) = rc_num_free (class_at k rf1)" "uo_outputs u2 = (uo_outputs u)[d := p]"
    "uo_old_outputs u2 = (uo_old_outputs u)[d := rat rf1 k ! dep_number k (rf_top rf0) (odep u0 d)]"
    using renaming_push [OF 1(2) d k] by metis
  have X: "((\<lambda>_. {})(k := {p}))(k := ((\<lambda>_. {})(k := {p})) k - {p}) = (\<lambda>_. {})" by auto
  let ?rf = "set_class k ((class_at k rf2)\<lparr>rc_rat_writes := rc_rat_writes (class_at k rf2) + 1\<rparr>) rf2"
  have s: "stats_only rf2 ?rf" by (simp add: stats_only_def)
  have "rename_to k (int (dep_number k (rf_top rf0) (odep u0 d))) d (rf, u) = Some ((?rf, u2), p)"
    using 1(1) 2(1) by (simp add: rename_to_def on_class_def)
  moreover have "renaming rf0 R E u0 (D @ [d]) (\<lambda>_. {}) ?rf u2" using renaming_stats [OF 2(2) s] unfolding X .
  ultimately show thesis using 1 2 by (intro that [of ?rf u2 p]) simp_all
qed

definition outputs_done :: "register_file \<Rightarrow> (rclass \<Rightarrow> int list) \<Rightarrow> (rclass \<Rightarrow> move list) \<Rightarrow> uop \<Rightarrow> nat \<Rightarrow>
    (register_file \<times> uop) \<times> int \<times> int \<Rightarrow> bool" where
  "outputs_done rf0 R E u0 n s \<longleftrightarrow> (let ((rf, u), fp, fc) = s in
     renaming rf0 R E u0 (plain_deps u0 n) (\<lambda>_. {}) rf u \<and> invalid_ok u n \<and> fc = int (length (flag_deps u0 n)) \<and>
     (\<forall>k. rc_num_free (class_at k rf) = rc_num_free (class_at k rf0) - int (class_count k u0 (plain_deps u0 n))) \<and>
     (if class_count RInt u0 (plain_deps u0 n) = 0 then fp = - 1
      else fp \<in> news (moves RInt (rf_top rf0) u (plain_deps u0 n)) \<and> 0 \<le> fp))"

lemma rename_output_run:
  assumes I: "outputs_done rf0 R E u0 d s" and F: "file_inv rf0 R E (\<lambda>_. {})" and d: "d < 4"
    and free: "\<And>k. int (class_count k u0 (plain_deps u0 (Suc d))) \<le> rc_num_free (class_at k rf0)"
  shows "\<exists>s'. rename_output d s = Some s' \<and> outputs_done rf0 R E u0 (Suc d) s'"
proof -
  obtain rf u fp fc where s: "s = ((rf, u), fp, fc)" by (metis prod.exhaust)
  let ?D = "plain_deps u0 d" and ?t = "rf_top rf0"
  have r: "renaming rf0 R E u0 ?D (\<lambda>_. {}) rf u" and ok: "invalid_ok u d" and fc: "fc = int (length (flag_deps u0 d))"
    and nf: "\<And>k. rc_num_free (class_at k rf) = rc_num_free (class_at k rf0) - int (class_count k u0 ?D)"
    and fp: "if class_count RInt u0 ?D = 0 then fp = - 1 else fp \<in> news (moves RInt ?t u ?D) \<and> 0 \<le> fp"
    using I unfolding outputs_done_def s Let_def by simp_all
  have od: "odep u = odep u0" and sh: "uop_shape u" and top: "rf_top rf = ?t" using renamingD [OF r] by simp_all
  have t: "0 \<le> rf_top rf" using file_invD(4) [OF F] top by simp
  have out: "d \<notin> set ?D" using deps_less by blast
  let ?l = "odep u0 d"
  show ?thesis
  proof (cases "isFlagDependency ?l")
    case True
    then have "rename_output d s = Some ((rf, u), fp, fc + 1)" using sh d od by (simp add: rename_output_def s)
    moreover have "invalid_ok u (Suc d)" using ok flag_is_integer [OF True] od by (auto simp: invalid_ok_def less_Suc_eq)
    ultimately show ?thesis using r fc nf fp True by (simp add: outputs_done_def)
  next
    case plain: False
    let ?f = "\<lambda>k i. rename_to k i d (rf, u) \<bind>
      (\<lambda>(t, p). Some (t, if k = RInt \<and> fp < 0 then p else fp, fc))"
    have step: "rename_output d s = (case dep_class ?l of None \<Rightarrow> Some ((rf, u\<lparr>uo_outputs := (uo_outputs u)[d := - 1],
         uo_old_outputs := (uo_old_outputs u)[d := - 1]\<rparr>), fp, fc) | Some k \<Rightarrow> ?f k (int (dep_number k ?t ?l)))"
    proof -
      have "uop_shape (u\<lparr>uo_outputs := (uo_outputs u)[d := - 1]\<rparr>)" using sh by (simp add: uop_shape_def)
      moreover have "rename_output d s = (case dep_class ?l of
          None \<Rightarrow> do { u \<leftarrow> setOutput d (- 1) u; u \<leftarrow> setOldOutput d (- 1) u; Some ((rf, u), fp, fc) }
        | Some RInt \<Rightarrow> rename_to RInt (?l - DepIntFirst) d (rf, u) \<bind> (\<lambda>(t, p). Some (t, if fp < 0 then p else fp, fc))
        | Some RFp \<Rightarrow> stack_register ?l rf \<bind> (\<lambda>st. rename_to RFp (st - DepFpFirst) d (rf, u) \<bind> (\<lambda>(t, _). Some (t, fp, fc)))
        | Some RXmm \<Rightarrow> rename_to RXmm (?l - DepXmmFirst) d (rf, u) \<bind> (\<lambda>(t, _). Some (t, fp, fc)))"
        using plain sh d od by (simp add: rename_output_def s dep_branch)
      ultimately show ?thesis
        using sh d dep_numbers [of ?l ?t] stack_register_run [OF _ t, of ?l] top by (simp split: option.splits rclass.splits)
    qed
    show ?thesis
    proof (cases "dep_class ?l")
      case None
      let ?u = "u\<lparr>uo_outputs := (uo_outputs u)[d := - 1], uo_old_outputs := (uo_old_outputs u)[d := - 1]\<rparr>"
      have "renaming rf0 R E u0 (?D @ [d]) (\<lambda>_. {}) rf ?u" by (rule renaming_invalid [OF r d out None])
      moreover have "invalid_ok ?u (Suc d)"
        using ok d sh by (auto simp: invalid_ok_def less_Suc_eq nth_list_update uop_shape_def)
      moreover have "moves RInt ?t ?u ?D = moves RInt ?t u ?D" by (rule moves_other [OF out])
      ultimately show ?thesis using step None fc nf fp plain by (simp add: outputs_done_def dep_index_def)
    next
      case (Some k)
      have "0 < rc_num_free (class_at k rf)" using free [of k] nf [of k] plain Some by simp
      then obtain rf' u' p where 1: "rename_to k (int (dep_number k ?t ?l)) d (rf, u) = Some ((rf', u'), p)"
          "renaming rf0 R E u0 (?D @ [d]) (\<lambda>_. {}) rf' u'" "0 \<le> p" "uo_outputs u' = (uo_outputs u)[d := p]"
          "\<And>e. e \<noteq> d \<Longrightarrow> uo_old_outputs u' ! e = uo_old_outputs u ! e"
          "\<And>k'. rc_num_free (class_at k' rf') = rc_num_free (class_at k' rf) - (if k' = k then 1 else 0)"
        using rename_to_run [OF r F d out Some] by metis
      have od': "odep u' = odep u0" by (rule renamingD(9) [OF 1(2)])
      have ok': "invalid_ok u' (Suc d)" using ok Some od od' 1(4,5) by (auto simp: invalid_ok_def less_Suc_eq nth_list_update)
      have "q \<in> news (moves RInt ?t u' (?D @ [d]))" if h: "q \<in> news (moves RInt ?t u ?D)" for q
      proof -
        obtain e where e: "e \<in> set ?D" "dep_class (odep u0 e) = Some RInt" "q = uo_outputs u ! e" using h od unfolding news_moves by auto
        then have "e \<noteq> d" using out by blast
        then show ?thesis unfolding news_moves using e od' 1(4) by (intro bexI [of _ e]) simp_all
      qed
      moreover have "k = RInt \<Longrightarrow> p \<in> news (moves RInt ?t u' (?D @ [d]))"
        unfolding news_moves using od' 1(4) Some d sh by (auto simp: uop_shape_def)
      ultimately have "if class_count RInt u0 (?D @ [d]) = 0 then (if k = RInt \<and> fp < 0 then p else fp) = - 1
          else (if k = RInt \<and> fp < 0 then p else fp) \<in> news (moves RInt ?t u' (?D @ [d])) \<and> 0 \<le> (if k = RInt \<and> fp < 0 then p else fp)"
        using fp Some 1(3) by (cases "k = RInt"; cases "class_count RInt u0 ?D = 0") (simp_all del: moves_simps)
      moreover have "rename_output d s = Some ((rf', u'), if k = RInt \<and> fp < 0 then p else fp, fc)" using step Some 1(1) by simp
      moreover have "plain_deps u0 (Suc d) = ?D @ [d]" "flag_deps u0 (Suc d) = flag_deps u0 d" using plain by simp_all
      ultimately show ?thesis using Some 1(2,6) fc nf ok' by (simp add: outputs_done_def del: moves_simps deps_Suc)
    qed
  qed
qed

lemma rename_flag_run:
  assumes r: "renaming rf0 R E u0 (D0 @ flag_deps u0 d) X rf u" and d: "d < 4" "set D0 \<inter> set (flag_deps u0 4) = {}"
    and p: "p \<in> news (moves RInt (rf_top rf0) u (D0 @ flag_deps u0 d)) \<or> p \<in> X RInt" and X: "\<And>k. k \<noteq> RInt \<Longrightarrow> X k = {}" "X RInt \<subseteq> {p}"
    and ok: "invalid_ok u 4"
  obtains rf' u' X' where "rename_flag p d (rf, u) = Some (rf', u')" "renaming rf0 R E u0 (D0 @ flag_deps u0 (Suc d)) X' rf' u'"
    "p \<in> news (moves RInt (rf_top rf0) u' (D0 @ flag_deps u0 (Suc d))) \<or> p \<in> X' RInt" "\<And>k. k \<noteq> RInt \<Longrightarrow> X' k = {}" "X' RInt \<subseteq> {p}"
    "invalid_ok u' 4" "X RInt = {} \<or> isFlagDependency (odep u0 d) \<Longrightarrow> X' RInt = {}"
proof (cases "isFlagDependency (odep u0 d)")
  case False
  then have "rename_flag p d (rf, u) = Some (rf, u)" using renamingD(3,9) [OF r] d by (simp add: rename_flag_def)
  then show thesis using False r p X ok by (intro that [of rf u X]) simp_all
next
  case True
  let ?t = "rf_top rf0" and ?D = "D0 @ flag_deps u0 d"
  note k = flag_is_integer [OF True]
  have out: "d \<notin> set ?D" using deps_less(2) [of d u0 d] d True by (auto simp: flag_deps_def)
  obtain rf' u' where 1: "map_output RInt (int (dep_number RInt ?t (odep u0 d))) d p (rf, u) = Some (rf', u')"
    "renaming rf0 R E u0 (?D @ [d]) (X(RInt := X RInt - {p})) rf' u'" "uo_outputs u' = (uo_outputs u)[d := p]"
    "uo_old_outputs u' = (uo_old_outputs u)[d := rat rf RInt ! dep_number RInt ?t (odep u0 d)]"
    using renaming_push [OF r d(1) out k p] by metis
  have od: "odep u = odep u0" "odep u' = odep u0" using renamingD(9) r 1(2) by blast+
  have "rename_flag p d (rf, u) = Some (rf', u')"
    using True 1(1) renamingD(3) [OF r] od d dep_numbers(1) [OF k, of ?t] by (simp add: rename_flag_def)
  moreover have "uo_outputs u' ! e = - 1 \<and> uo_old_outputs u' ! e = - 1" if "e < 4" "dep_class (odep u' e) = None" for e
  proof -
    have "e \<noteq> d" using that k od by auto
    then show ?thesis using ok that 1(3,4) od by (simp add: invalid_ok_def)
  qed
  then have "invalid_ok u' 4" by (simp add: invalid_ok_def)
  moreover have "p \<in> news (moves RInt ?t u' (?D @ [d]))"
    unfolding news_moves using k od 1(3) d renamingD(3) [OF r] by (auto simp: uop_shape_def)
  ultimately show thesis using True 1(2) X by (intro that [of rf' u' "X(RInt := X RInt - {p})"]) auto
qed

lemma flags_run:
  assumes r: "renaming rf0 R E u0 D0 X rf u" and D: "set D0 \<inter> set (flag_deps u0 4) = {}"
    and p: "p \<in> news (moves RInt (rf_top rf0) u D0) \<or> p \<in> X RInt" and X: "\<And>k. k \<noteq> RInt \<Longrightarrow> X k = {}" "X RInt \<subseteq> {p}"
    and ok: "invalid_ok u 4" and some: "flag_deps u0 4 \<noteq> []"
  obtains rf' u' where "for_loop 0 MaxODeps (rename_flag p) (rf, u) = Some (rf', u')"
    "renaming rf0 R E u0 (D0 @ flag_deps u0 4) (\<lambda>_. {}) rf' u'" "invalid_ok u' 4"
proof -
  let ?I = "\<lambda>d (rf, u). \<exists>X. renaming rf0 R E u0 (D0 @ flag_deps u0 d) X rf u \<and>
    (p \<in> news (moves RInt (rf_top rf0) u (D0 @ flag_deps u0 d)) \<or> p \<in> X RInt) \<and> (\<forall>k. k \<noteq> RInt \<longrightarrow> X k = {}) \<and> X RInt \<subseteq> {p} \<and>
    invalid_ok u 4 \<and> (flag_deps u0 d \<noteq> [] \<longrightarrow> X RInt = {})"
  have "\<exists>s. for_loop 0 4 (rename_flag p) (rf, u) = Some s \<and> ?I 4 s"
  proof (rule for_loop_rule [where I = ?I])
    show "?I 0 (rf, u)" using r p X ok by (auto simp: exI [of _ X])
    fix d s assume d: "d < (4 :: nat)" and I: "?I d s"
    obtain rf1 u1 X1 where s: "s = (rf1, u1)" "renaming rf0 R E u0 (D0 @ flag_deps u0 d) X1 rf1 u1"
      "p \<in> news (moves RInt (rf_top rf0) u1 (D0 @ flag_deps u0 d)) \<or> p \<in> X1 RInt" "\<And>k. k \<noteq> RInt \<Longrightarrow> X1 k = {}" "X1 RInt \<subseteq> {p}"
      "invalid_ok u1 4" "flag_deps u0 d \<noteq> [] \<longrightarrow> X1 RInt = {}" using I by auto
    obtain rf2 u2 X2 where 2: "rename_flag p d (rf1, u1) = Some (rf2, u2)" "renaming rf0 R E u0 (D0 @ flag_deps u0 (Suc d)) X2 rf2 u2"
      "p \<in> news (moves RInt (rf_top rf0) u2 (D0 @ flag_deps u0 (Suc d))) \<or> p \<in> X2 RInt" "\<And>k. k \<noteq> RInt \<Longrightarrow> X2 k = {}" "X2 RInt \<subseteq> {p}"
      "invalid_ok u2 4" "X1 RInt = {} \<or> isFlagDependency (odep u0 d) \<Longrightarrow> X2 RInt = {}"
      by (rule rename_flag_run [OF s(2) d D s(3)]) (erule s(4), rule s(5), rule s(6), rule that)
    have "flag_deps u0 (Suc d) \<noteq> [] \<longrightarrow> X2 RInt = {}" using 2(7) s(7) by (auto split: if_splits)
    then show "\<exists>s'. rename_flag p d s = Some s' \<and> ?I (Suc d) s'" using s(1) 2(1-6) by blast
  qed simp
  then obtain rf' u' X' where e: "for_loop 0 4 (rename_flag p) (rf, u) = Some (rf', u')" "renaming rf0 R E u0 (D0 @ flag_deps u0 4) X' rf' u'"
    "\<forall>k. k \<noteq> RInt \<longrightarrow> X' k = {}" "X' RInt = {}" "invalid_ok u' 4" using some by auto
  have "X' = (\<lambda>_. {})" using e(3,4) by (metis ext)
  then show thesis using e that unfolding MaxODeps_def by simp
qed

text \<open>The order in which the outputs were renamed does not matter afterwards.\<close>

lemma steps_moves: "steps i (moves k t u D) = map (\<lambda>d. (uo_outputs u ! d, uo_old_outputs u ! d)) (filter (\<lambda>d. dep_index k t (odep u d) = Some i) D)"
  by (induction D) (auto split: option.splits)

lemma flag_number:
  assumes "isFlagDependency l" "dep_index k t l = Some i" "dep_index k t l' = Some i"
  shows "isFlagDependency l'"
proof -
  have "k = RInt" using assms(2) flag_is_integer [OF assms(1)] by (simp add: dep_index_def split: if_splits)
  then have "l' = l" using assms(2,3) by (auto simp: dep_index_def dep_number_def dep_class_def isIntegerDependency_def dep_defs split: if_splits)
  then show ?thesis using assms(1) by simp
qed

lemma moves_reorder:
  "mset (E @ moves k t u (plain_deps u 4 @ flag_deps u 4)) = mset (E @ all_moves k t u)"
  "steps i (E @ moves k t u (plain_deps u 4 @ flag_deps u 4)) = steps i (E @ all_moves k t u)"
proof -
  have "mset (concat (map f (filter P xs @ filter (\<lambda>x. \<not> P x) xs))) = mset (concat (map f xs))" for f :: "nat \<Rightarrow> move list" and P xs
    by (induction xs) auto
  from this [of _ "\<lambda>d. \<not> isFlagDependency (odep u d)" "[0..<4]"]
  show "mset (E @ moves k t u (plain_deps u 4 @ flag_deps u 4)) = mset (E @ all_moves k t u)"
    unfolding moves_def all_moves_def plain_deps_def flag_deps_def by simp
  let ?P = "\<lambda>d. dep_index k t (odep u d) = Some i" and ?F = "\<lambda>d. isFlagDependency (odep u d)"
  have nil: "filter P (filter Q xs) = []" if "\<And>x. P x \<Longrightarrow> \<not> Q x" for P Q and xs :: "nat list" using that by (auto simp: filter_empty_conv)
  have all: "filter P (filter Q xs) = filter P xs" if "\<And>x. P x \<Longrightarrow> Q x" for P Q and xs :: "nat list" using that by (induction xs) auto
  have "filter ?P (plain_deps u 4 @ flag_deps u 4) = filter ?P [0..<4]"
  proof (cases "\<exists>d. ?P d \<and> isFlagDependency (odep u d)")
    case True
    then have h: "?P d \<Longrightarrow> ?F d" for d using flag_number by blast
    have "filter ?P (filter (\<lambda>d. \<not> ?F d) [0..<4]) = []" by (rule nil) (use h in blast)
    moreover have "filter ?P (filter ?F [0..<4]) = filter ?P [0..<4]" by (rule all) (rule h)
    ultimately show ?thesis unfolding plain_deps_def flag_deps_def filter_append by (simp only: append_Nil)
  next
    case False
    then have h: "?P d \<Longrightarrow> \<not> ?F d" for d by blast
    have "filter ?P (filter ?F [0..<4]) = []" by (rule nil) (rule h)
    moreover have "filter ?P (filter (\<lambda>d. \<not> ?F d) [0..<4]) = filter ?P [0..<4]" by (rule all) (rule h)
    ultimately show ?thesis unfolding plain_deps_def flag_deps_def filter_append by (simp only: append_Nil2)
  qed
  then show "steps i (E @ moves k t u (plain_deps u 4 @ flag_deps u 4)) = steps i (E @ all_moves k t u)"
    unfolding all_moves_def steps_simps(3) steps_moves by (simp only:)
qed

text \<open>The number of registers of a class that a uop needs.\<close>

definition need :: "rclass \<Rightarrow> uop \<Rightarrow> nat" where
  "need k u = (let n = class_count k u (plain_deps u 4) in if k = RInt \<and> n = 0 \<and> flag_deps u 4 \<noteq> [] then 1 else n)"

lemma class_count_mono: "n \<le> m \<Longrightarrow> class_count k u (plain_deps u n) \<le> class_count k u (plain_deps u m)"
  by (induction m rule: nat_induct_at_least) auto

lemma Rename_run:
  assumes F: "file_inv rf R E (\<lambda>_. {})" and u: "uop_shape u" and free: "\<And>k. int (need k u) \<le> rc_num_free (class_at k rf)"
    and t: "t = rename_top (ui_opcode (uo_uinst u)) (rf_top rf)"
  obtains rf' u' where "Rename rf u = Some (rf', u')" "file_inv rf' R (\<lambda>k. E k @ all_moves k t u') (\<lambda>_. {})" "rf_top rf' = t"
    "uop_shape u'" "invalid_ok u' 4" "\<exists>is os qs. u' = u\<lparr>uo_inputs := is, uo_outputs := os, uo_old_outputs := qs\<rparr>"
    "\<And>d. d < 3 \<Longrightarrow> uo_inputs u' ! d = mapped_input (rat rf) t u d"
    "\<And>k p. p \<in> news (all_moves k t u') \<Longrightarrow> uses (rat rf k) (E k) p = 0"
    "\<And>k p. pend rf' k p \<longleftrightarrow> pend rf k p \<or> p \<in> news (all_moves k t u')"
    "\<And>k. rc_local_size (class_at k rf') = rc_local_size (class_at k rf)"
proof -
  let ?rf = "rf\<lparr>rf_top := t\<rparr>"
  have "0 \<le> t \<and> t < 8" using file_invD(4,5) [OF F] by (simp add: t rename_top_def)
  then have F0: "file_inv ?rf R E (\<lambda>_. {})" using F by (simp add: file_inv_def)
  obtain rf1 xs where 1: "for_loop 0 MaxIDeps rename_input (?rf, u) = Some (rf1, u\<lparr>uo_inputs := xs\<rparr>)" "stats_only ?rf rf1" "length xs = 3"
      "\<And>d. d < 3 \<Longrightarrow> xs ! d = mapped_input (rat ?rf) (rf_top ?rf) u d"
    by (rule rename_inputs_run [OF F0 u]) (rule that)
  let ?u = "u\<lparr>uo_inputs := xs\<rparr>"
  note st = stats_onlyD [OF 1(2)]
  have F1: "file_inv rf1 R E (\<lambda>_. {})" using F0 st(7) by simp
  have top: "rf_top rf1 = t" and rats: "rat rf1 k = rat rf k" and nf: "rc_num_free (class_at k rf1) = rc_num_free (class_at k rf)"
    and pn: "pend rf1 = pend rf" and ls: "rc_local_size (class_at k rf1) = rc_local_size (class_at k rf)" for k
    using st by (simp_all add: fun_eq_iff pend_def)
  have deps: "plain_deps ?u = plain_deps u" "flag_deps ?u = flag_deps u" "class_count k ?u = class_count k u" for k
    by (simp_all add: plain_deps_def flag_deps_def class_count_def fun_eq_iff)
  have cnt: "int (class_count k ?u (plain_deps ?u n)) \<le> rc_num_free (class_at k rf1)" if "n \<le> 4" for k n
  proof -
    have "class_count k u (plain_deps u n) \<le> need k u" using class_count_mono [OF that, of k u] by (auto simp: need_def Let_def)
    then show ?thesis using free [of k] nf [of k] deps by (metis of_nat_mono order_trans)
  qed
  let ?s0 = "((rf1, ?u), - 1 :: int, 0 :: int)"
  have "outputs_done rf1 R E ?u 0 ?s0"
  proof -
    have "uop_shape ?u" using u 1(3) by (simp add: uop_shape_def)
    moreover have "\<exists>os qs. ?u = ?u\<lparr>uo_outputs := os, uo_old_outputs := qs\<rparr>"
      by (rule exI [of _ "uo_outputs u"], rule exI [of _ "uo_old_outputs u"]) simp
    ultimately show ?thesis using F1 by (simp add: outputs_done_def renaming_def invalid_ok_def)
  qed
  then have "\<exists>s. for_loop 0 4 rename_output ?s0 = Some s \<and> outputs_done rf1 R E ?u 4 s"
    by (intro for_loop_rule [where I = "outputs_done rf1 R E ?u"]) (use rename_output_run [OF _ F1] cnt in \<open>simp_all del: deps_Suc\<close>)
  then obtain rf2 u2 fp fc where 2: "for_loop 0 4 rename_output ?s0 = Some ((rf2, u2), fp, fc)" "outputs_done rf1 R E ?u 4 ((rf2, u2), fp, fc)"
    by (metis prod.exhaust)
  let ?D = "plain_deps ?u 4" and ?FD = "flag_deps ?u 4"
  have r2: "renaming rf1 R E ?u ?D (\<lambda>_. {}) rf2 u2" and ok2: "invalid_ok u2 4" and fc: "fc = int (length ?FD)"
    and nf2: "rc_num_free (class_at k rf2) = rc_num_free (class_at k rf1) - int (class_count k ?u ?D)"
    and fp: "if class_count RInt ?u ?D = 0 then fp = - 1 else fp \<in> news (moves RInt (rf_top rf1) u2 ?D) \<and> 0 \<le> fp" for k
    using 2(2) unfolding outputs_done_def by simp_all
  have disj: "set ?D \<inter> set ?FD = {}" using deps_less by blast
  have "\<exists>rf3 u3. Rename rf u = Some (rf3, u3) \<and> renaming rf1 R E ?u (?D @ ?FD) (\<lambda>_. {}) rf3 u3 \<and> invalid_ok u3 4"
  proof (cases "?FD = []")
    case True
    have "Rename rf u = Some (rf2, u2)" using 1(1) 2(1) fc True by (simp add: Rename_def t MaxODeps_def)
    then show ?thesis using r2 ok2 True by (intro exI [of _ rf2] exI [of _ u2]) simp
  next
    case some: False
    show ?thesis
    proof (cases "class_count RInt ?u ?D = 0")
      case True
      have "0 < rc_num_free (class_at RInt rf2)"
        using free [of RInt] nf2 [of RInt] nf [of RInt] True some deps by (simp add: need_def)
      then obtain rf3 p where 3: "RequestRegister RInt rf2 = Some (rf3, p)" "renaming rf1 R E ?u ?D ((\<lambda>_. {})(RInt := {p})) rf3 u2"
        using renaming_request [OF r2 F1] by metis
      obtain rf4 u4 where 4: "for_loop 0 MaxODeps (rename_flag p) (rf3, u2) = Some (rf4, u4)"
          "renaming rf1 R E ?u (?D @ ?FD) (\<lambda>_. {}) rf4 u4" "invalid_ok u4 4"
        by (rule flags_run [OF 3(2) disj _ _ _ ok2 some, of p]) (simp_all add: that)
      have "Rename rf u = Some (rf4, u4)"
        using 1(1) 2(1) fc some fp True 3(1) 4(1) by (simp add: Rename_def t MaxODeps_def RequestIntegerRegister_def)
      then show ?thesis using 4 by blast
    next
      case False
      then have p: "fp \<in> news (moves RInt (rf_top rf1) u2 ?D) \<or> fp \<in> (\<lambda>_. {}) RInt" "\<not> fp < 0" using fp by auto
      obtain rf4 u4 where 4: "for_loop 0 MaxODeps (rename_flag fp) (rf2, u2) = Some (rf4, u4)"
          "renaming rf1 R E ?u (?D @ ?FD) (\<lambda>_. {}) rf4 u4" "invalid_ok u4 4"
        by (rule flags_run [OF r2 disj p(1) _ _ ok2 some]) (simp_all add: that)
      have "Rename rf u = Some (rf4, u4)"
        using 1(1) 2(1) fc some p(2) 4(1) by (simp add: Rename_def t MaxODeps_def)
      then show ?thesis using 4 by blast
    qed
  qed
  then obtain rf3 u3 where 3: "Rename rf u = Some (rf3, u3)" "renaming rf1 R E ?u (?D @ ?FD) (\<lambda>_. {}) rf3 u3" "invalid_ok u3 4" by blast
  note R3 = renamingD [OF 3(2)]
  have D3: "?D = plain_deps u3 4" "?FD = flag_deps u3 4" using R3(9) by (simp_all add: plain_deps_def flag_deps_def)
  have nw: "news (moves k t u3 (?D @ ?FD)) = news (all_moves k t u3)" for k
    using mset_eq_setD [OF moves_reorder(1) [of "[]" k t u3]] unfolding D3 news_def by simp
  have "file_inv rf3 R (\<lambda>k. E k @ all_moves k t u3) (\<lambda>_. {})"
    using R3(1) class_inv_reorder [OF _ moves_reorder] unfolding file_inv_def D3 top by blast
  moreover have "\<exists>is os qs. u3 = u\<lparr>uo_inputs := is, uo_outputs := os, uo_old_outputs := qs\<rparr>"
  proof -
    obtain os qs where "u3 = ?u\<lparr>uo_outputs := os, uo_old_outputs := qs\<rparr>" using R3(4) by blast
    then have "u3 = u\<lparr>uo_inputs := xs, uo_outputs := os, uo_old_outputs := qs\<rparr>" by simp
    then show ?thesis by blast
  qed
  moreover have "uo_inputs u3 ! d = mapped_input (rat rf) t u d" if "d < 3" for d
  proof -
    obtain os qs where "u3 = ?u\<lparr>uo_outputs := os, uo_old_outputs := qs\<rparr>" using R3(4) by blast
    then show ?thesis using 1(4) [OF that] by (simp add: mapped_input_def)
  qed
  moreover have "uses (rat rf k) (E k) p = 0" if "p \<in> news (all_moves k t u3)" for k p
    using R3(5) [of p k] that nw [of k] rats [of k] unfolding top by auto
  moreover have "pend rf3 k p \<longleftrightarrow> pend rf k p \<or> p \<in> news (all_moves k t u3)" for k p
    using R3(6) [of k p] nw [of k] unfolding top pn by auto
  moreover have "rf_top rf3 = t" "rc_local_size (class_at k rf3) = rc_local_size (class_at k rf)" for k
    using R3(2) top R3(7) [of k] ls by simp_all
  ultimately show thesis using that [OF 3(1)] R3(3) 3(3) by blast
qed

end
