(* ===== verification/SimRegisterFileRob.thy ===== *)
theory SimRegisterFileRob
  imports SimRegisterFileRun
begin

text \<open>
  The register file together with the reorder buffer: the uops in flight, oldest first. The invariant relates the
  mapping to the moves of these uops, from the mapping of the committed ones on, and every step of the
  pipeline that renames, completes, commits or squashes a uop keeps it.
\<close>

section \<open>New uops and new register files\<close>

lemma count_run:
  assumes "\<And>d. d < n \<Longrightarrow> f d = Some (odep u d)"
  shows "for_loop 0 n (\<lambda>d c. do { l \<leftarrow> f d; Some (count_dependency l c) }) (0, 0, 0, 0) =
    Some (int (class_count RInt u (plain_deps u n)), int (class_count RFp u (plain_deps u n)), int (length (flag_deps u n)),
      int (class_count RXmm u (plain_deps u n)))"
proof (rule for_loop_eq [where g = "\<lambda>n. (int (class_count RInt u (plain_deps u n)), int (class_count RFp u (plain_deps u n)),
    int (length (flag_deps u n)), int (class_count RXmm u (plain_deps u n)))"])
  fix d assume "d < n"
  then show "do { l \<leftarrow> f d; Some (count_dependency l (int (class_count RInt u (plain_deps u d)), int (class_count RFp u (plain_deps u d)),
      int (length (flag_deps u d)), int (class_count RXmm u (plain_deps u d)))) } =
    Some (int (class_count RInt u (plain_deps u (Suc d))), int (class_count RFp u (plain_deps u (Suc d))),
      int (length (flag_deps u (Suc d))), int (class_count RXmm u (plain_deps u (Suc d))))"
    using assms flag_is_integer [of "odep u d"] by (auto simp: count_dependency_def dep_class_def isIntegerDependency_def
      isFloatingPointDependency_def isXmmDependency_def isFlagDependency_def dep_defs)
qed simp_all

definition counts_ok :: "uop \<Rightarrow> bool" where
  "counts_ok u \<longleftrightarrow> uo_num_integer_outputs u = int (need RInt u) \<and> uo_num_floating_point_outputs u = int (need RFp u) \<and>
     uo_num_xmm_outputs u = int (need RXmm u)"

lemma uop_create_run:
  assumes "length (ui_dep ui) = 7"
  obtains u where "uop_create ui spec = Some u" "uop_shape u" "uo_uinst u = ui" "uo_speculative_mode u = spec" "\<not> uo_ready u"
    "\<not> uo_completed u" "counts_ok u"
proof -
  let ?u = "\<lparr>uo_uinst = ui, uo_inputs = replicate MaxIDeps 0,
     uo_outputs = replicate MaxODeps 0, uo_old_outputs = replicate MaxODeps 0, uo_num_inputs = 0, uo_num_outputs = 0,
     uo_num_integer_inputs = 0, uo_num_integer_outputs = 0, uo_num_floating_point_inputs = 0, uo_num_floating_point_outputs = 0,
     uo_num_xmm_inputs = 0, uo_num_xmm_outputs = 0, uo_speculative_mode = spec, uo_ready = False, uo_completed = False\<rparr>"
  have sh: "uop_shape ?u" using assms by (simp add: uop_shape_def MaxIDeps_def MaxODeps_def)
  let ?o = "(int (class_count RInt ?u (plain_deps ?u 4)), int (class_count RFp ?u (plain_deps ?u 4)), int (length (flag_deps ?u 4)),
      int (class_count RXmm ?u (plain_deps ?u 4)))"
  have 1: "for_loop 0 MaxODeps (\<lambda>dep c. do { loreg \<leftarrow> getODep dep ui; Some (count_dependency loreg c) }) (0, 0, 0, 0) = Some ?o"
    using dep_access(2) [OF sh] unfolding MaxODeps_def by (intro count_run) simp
  have "\<exists>r. for_loop 0 MaxIDeps (\<lambda>dep c. do { loreg \<leftarrow> getIDep dep ui; Some (count_dependency loreg c) }) (0, 0, 0, 0) = Some r \<and> True"
    using dep_access(1) [OF sh] unfolding MaxIDeps_def by (intro for_loop_rule) (simp_all, metis surj_pair)
  then obtain a b c d where 2: "for_loop 0 MaxIDeps (\<lambda>dep c. do { loreg \<leftarrow> getIDep dep ui; Some (count_dependency loreg c) })
      (0, 0, 0, 0) = Some (a, b, c, d)" by auto
  let ?v = "?u\<lparr>uo_num_outputs := int (length (flag_deps ?u 4)) + int (class_count RInt ?u (plain_deps ?u 4)) +
      int (class_count RFp ?u (plain_deps ?u 4)) + int (class_count RXmm ?u (plain_deps ?u 4)),
     uo_num_integer_outputs := int (need RInt ?u), uo_num_floating_point_outputs := int (need RFp ?u), uo_num_xmm_outputs := int (need RXmm ?u),
     uo_num_inputs := c + a + b + d, uo_num_integer_inputs := c + a, uo_num_floating_point_inputs := b, uo_num_xmm_inputs := d\<rparr>"
  have n: "need RInt ?u = (if flag_deps ?u 4 \<noteq> [] \<and> class_count RInt ?u (plain_deps ?u 4) = 0 then 1 else class_count RInt ?u (plain_deps ?u 4))"
      "need RFp ?u = class_count RFp ?u (plain_deps ?u 4)" "need RXmm ?u = class_count RXmm ?u (plain_deps ?u 4)"
    unfolding need_def Let_def by auto
  have "uop_create ui spec = Some ?v"
    unfolding uop_create_def CountDependencies_def n using 1 2 by (simp add: Let_def)
  moreover have nv: "need k ?v = need k ?u" for k by (simp add: need_def class_count_def plain_deps_def flag_deps_def odep_def)
  have "counts_ok ?v" unfolding counts_ok_def nv by simp
  moreover have "uop_shape ?v" using sh by (simp add: uop_shape_def)
  ultimately show thesis by (intro that [of ?v]) simp_all
qed

lemma canRename_free:
  assumes c: "canRename kind rf u" "counts_ok u" and F: "file_inv rf R E (\<lambda>_. {})"
  shows "int (need k u) \<le> rc_num_free (class_at k rf)"
proof -
  have b: "rc_occupied (class_at k rf) = rc_local_size (class_at k rf) - rc_num_free (class_at k rf)"
      "rc_occupied (class_at k rf) \<le> rc_core (class_at k rf)"
    using booksD(5,6) [OF class_invD(1) [OF file_invD(1) [OF F]]] by blast+
  then show ?thesis using c by (cases k; cases kind) (simp_all add: canRename_def counts_ok_def class_at_def)
qed

text \<open>The constructor maps every logical register; the mapping starts without moves.\<close>

lemma reg_class_new_books:
  assumes "0 \<le> n" "0 \<le> core"
  shows "books (reg_class_new n m core junk) (\<lambda>_. 0) {}"
proof -
  have "distinct (map int [0..<nat n])" by (simp add: distinct_map)
  moreover have "int ` {0..<nat n} = {p. 0 \<le> p \<and> p < n}" using assms(1) by (auto simp: image_iff nat_less_iff intro!: bexI [of _ "nat _"])
  ultimately show ?thesis using assms by (auto simp: books_def reg_class_new_def in_range_def pending_at_def free_list_def nat_less_iff)
qed

text \<open>One entry of the mapping is set up: \<open>B\<close> counts the entries before \<open>n\<close>.\<close>

definition set_up :: "register_file \<Rightarrow> (rclass \<Rightarrow> nat) \<Rightarrow> bool" where
  "set_up rf m \<longleftrightarrow> (\<forall>k. books (class_at k rf) (count_list (take (m k) (rat rf k))) {} \<and> length (rat rf k) = rat_size k \<and> m k \<le> rat_size k \<and>
     (\<forall>p. \<not> pending_at (class_at k rf) p)) \<and> rf_top rf = 0"

lemma count_list_take_Suc:
  assumes "m < length xs"
  shows "count_list (take (Suc m) (xs[m := p])) = (count_list (take m xs))(p := count_list (take m xs) p + 1)"
  using assms by (auto simp: take_Suc_conv_app_nth fun_eq_iff)

lemma set_up_entry:
  assumes s: "set_up rf m" and mk: "m k < rat_size k" and c: "books c1 (count_list (take (m k) (rat rf k))) X"
      "rc_rat c1 = rat rf k" "pending_at c1 = pending_at (class_at k rf)" "rc_local_size c1 = rc_local_size (class_at k rf)"
    and p: "0 < count_list (take (m k) (rat rf k)) p \<or> p \<in> X" "X \<subseteq> {p}"
  obtains rf' where "on_class k (inc_busy False p) (set_class k c1 rf) \<bind> on_class k (set_rat (int (m k)) p) = Some rf'"
    "set_up rf' (m(k := m k + 1))" "rat rf' k ! m k = p" "\<And>j. j < m k \<Longrightarrow> rat rf' k ! j = rat rf k ! j"
    "\<And>k'. rc_local_size (class_at k' rf') = rc_local_size (class_at k' rf)" "rc_num_free (class_at k rf') = rc_num_free c1"
    "\<And>k'. k' \<noteq> k \<Longrightarrow> class_at k' rf' = class_at k' rf"
proof -
  let ?B = "count_list (take (m k) (rat rf k))"
  have len: "m k < length (rat rf k)" using s mk unfolding set_up_def by simp
  obtain c2 where 2: "inc_busy False p c1 = Some c2" "books c2 (?B(p := ?B p + 1)) (X - {p})" "rc_rat c2 = rc_rat c1"
      "rc_local_size c2 = rc_local_size c1" "rc_num_free c2 = rc_num_free c1"
      "\<And>q. pending_at c2 q \<longleftrightarrow> pending_at c1 q \<or> q = p \<and> False"
    using inc_busy_run [OF c(1) p(1)] by metis
  obtain c3 where 3: "set_rat (int (m k)) p c2 = Some c3" "books c3 (?B(p := ?B p + 1)) (X - {p})" "rc_rat c3 = (rc_rat c2)[m k := p]"
      "rc_local_size c3 = rc_local_size c2" "pending_at c3 = pending_at c2" "rc_num_free c3 = rc_num_free c2"
    using set_rat_run [OF 2(2), of "int (m k)" p] len 2(3) c(2) by (metis nat_int of_nat_0_le_iff)
  let ?rf = "set_class k c3 rf"
  have X: "X - {p} = {}" using p(2) by blast
  have r: "rat ?rf k = (rat rf k)[m k := p]" using 3(3) 2(3) c(2) by simp
  have run: "on_class k (inc_busy False p) (set_class k c1 rf) \<bind> on_class k (set_rat (int (m k)) p) = Some ?rf"
    using 2(1) 3(1) by (cases k) (simp_all add: on_class_def class_at_def set_class_def)
  have "books c3 (count_list (take (Suc (m k)) (rat ?rf k))) {}"
    using 3(2) unfolding r count_list_take_Suc [OF len] X .
  moreover have "\<not> pending_at c3 q" for q using 3(5) 2(6) c(3) s unfolding set_up_def by simp
  ultimately have "set_up ?rf (m(k := m k + 1))" using s mk r len unfolding set_up_def by (auto simp: 3(3) 2(3) c(2))
  then show thesis using len 2 3 c r by (intro that [OF run]) (simp_all add: r)
qed

lemma books_free:
  assumes b: "books c (count_list xs) {}"
  shows "rc_local_size c - int (length xs) \<le> rc_num_free c"
proof -
  have "{0..<rc_local_size c} - set xs \<subseteq> set (free_list c)"
    unfolding booksD(12) [OF b] by (auto simp: in_range_def count_list_0_iff)
  then have "card ({0..<rc_local_size c} - set xs) \<le> card (set (free_list c))" by (rule card_mono [OF finite_set])
  moreover have "card {0..<rc_local_size c} - card (set xs) \<le> card ({0..<rc_local_size c} - set xs)" by (rule diff_card_le_card_Diff) simp
  moreover have "card (set (free_list c)) \<le> nat (rc_num_free c)"
    using distinct_card [OF booksD(11) [OF b]] by (simp add: free_list_def)
  moreover have "card (set xs) \<le> length xs" by (rule card_length)
  moreover have "card {0..<rc_local_size c} = nat (rc_local_size c)" by simp
  ultimately have "nat (rc_local_size c) \<le> nat (rc_num_free c) + length xs" by linarith
  then show ?thesis using booksD(3) [OF b] by linarith
qed

lemma set_up_new:
  assumes s: "set_up rf m" and mk: "m k < rat_size k" and big: "int (rat_size k) \<le> rc_local_size (class_at k rf)"
  obtains rf1 rf' p where "RequestRegister k rf = Some (rf1, p)" "0 \<le> p"
    "on_class k (inc_busy False p) rf1 \<bind> on_class k (set_rat (int (m k)) p) = Some rf'"
    "set_up rf' (m(k := m k + 1))" "rat rf' k ! m k = p" "\<And>j. j < m k \<Longrightarrow> rat rf' k ! j = rat rf k ! j"
    "\<And>k'. rc_local_size (class_at k' rf') = rc_local_size (class_at k' rf)"
proof -
  let ?xs = "take (m k) (rat rf k)"
  have b: "books (class_at k rf) (count_list ?xs) {}" using s unfolding set_up_def by blast
  have "length ?xs < rat_size k" using mk by simp
  then have "0 < rc_num_free (class_at k rf)" using books_free [OF b] big by linarith
  then obtain p c1 where 1: "request (class_at k rf) = Some (c1, p)" "in_range (class_at k rf) p" "books c1 (count_list ?xs) (insert p {})"
      "rc_rat c1 = rat rf k" "rc_local_size c1 = rc_local_size (class_at k rf)" "rc_registers c1 = rc_registers (class_at k rf)"
    using request_run [OF b] by metis
  have pn: "pending_at c1 = pending_at (class_at k rf)" using 1(5,6) by (simp add: pending_at_def in_range_def fun_eq_iff)
  obtain rf' where 2: "on_class k (inc_busy False p) (set_class k c1 rf) \<bind> on_class k (set_rat (int (m k)) p) = Some rf'"
    "set_up rf' (m(k := m k + 1))" "rat rf' k ! m k = p" "\<And>j. j < m k \<Longrightarrow> rat rf' k ! j = rat rf k ! j"
    "\<And>k'. rc_local_size (class_at k' rf') = rc_local_size (class_at k' rf)"
    using set_up_entry [OF s mk 1(3,4) pn 1(5), of p] by (metis insertI1 order_refl)
  then show thesis using 1(1,2) by (intro that [of "set_class k c1 rf" p rf']) (simp_all add: RequestRegister_def in_range_def)
qed

lemma set_up_again:
  assumes s: "set_up rf m" and mk: "m k < rat_size k" and p: "p \<in> set (take (m k) (rat rf k))"
  obtains rf' where "on_class k (inc_busy False p) rf \<bind> on_class k (set_rat (int (m k)) p) = Some rf'"
    "set_up rf' (m(k := m k + 1))" "rat rf' k ! m k = p" "\<And>j. j < m k \<Longrightarrow> rat rf' k ! j = rat rf k ! j"
    "\<And>k'. rc_local_size (class_at k' rf') = rc_local_size (class_at k' rf)"
proof -
  have b: "books (class_at k rf) (count_list (take (m k) (rat rf k))) {}" using s unfolding set_up_def by blast
  have "set_class k (class_at k rf) rf = rf" by (cases k) (simp_all add: set_class_def class_at_def)
  moreover have "0 < count_list (take (m k) (rat rf k)) p" using p by (metis count_list_0_iff gr0I)
  ultimately show thesis using set_up_entry [OF s mk b refl refl refl, of p] that by (metis empty_subsetI)
qed

definition big_enough :: "register_file \<Rightarrow> bool" where
  "big_enough rf \<longleftrightarrow> (\<forall>k. int (rat_size k) + 4 \<le> rc_local_size (class_at k rf))"

lemma init_integer_run:
  assumes s: "set_up rf ((\<lambda>_. 0)(RInt := d))" "big_enough rf" and d: "d < 22"
    and fp: "d = 0 \<or> 0 \<le> fp \<and> fp \<in> set (take d (rat rf RInt))"
  obtains rf' fp' where "init_integer d (rf, fp) = Some (rf', fp')" "set_up rf' ((\<lambda>_. 0)(RInt := Suc d))" "big_enough rf'"
    "0 \<le> fp' \<and> fp' \<in> set (take (Suc d) (rat rf' RInt))" "\<And>k'. rc_local_size (class_at k' rf') = rc_local_size (class_at k' rf)"
proof -
  let ?m = "(\<lambda>_. 0)(RInt := d)"
  have m: "?m RInt < rat_size RInt" "?m(RInt := ?m RInt + 1) = (\<lambda>_. 0)(RInt := Suc d)" using d by (simp_all add: rat_size_def)
  show thesis
  proof (cases "isFlagDependency (int d + DepIntFirst)")
    case True
    then have fp': "0 \<le> fp" "fp \<in> set (take (?m RInt) (rat rf RInt))" using fp by (auto simp: isFlagDependency_def dep_defs)
    obtain rf' where 0: "on_class RInt (inc_busy False fp) rf \<bind> on_class RInt (set_rat (int (?m RInt)) fp) = Some rf'"
      "set_up rf' (?m(RInt := ?m RInt + 1))" "rat rf' RInt ! ?m RInt = fp" "\<And>k'. rc_local_size (class_at k' rf') = rc_local_size (class_at k' rf)"
      using set_up_again [OF s(1) m(1) fp'(2)] by metis
    note 1 = 0 [unfolded fun_upd_same]
    have "d < length (rat rf' RInt)" using 1(2) d unfolding set_up_def by (simp add: rat_size_def)
    then have "fp \<in> set (take (Suc d) (rat rf' RInt))" using 1(3) by (simp add: take_Suc_conv_app_nth)
    moreover have "init_integer d (rf, fp) = Some (rf', fp)"
      using True fp'(1) 1(1) by (auto simp: init_integer_def Option.bind_eq_Some_conv)
    ultimately show thesis using 1(2,4) s(2) fp'(1) unfolding m(2) by (intro that [of rf' fp]) (simp_all add: big_enough_def)
  next
    case False
    have "int (rat_size RInt) \<le> rc_local_size (class_at RInt rf)" using s(2) unfolding big_enough_def by (auto intro: order_trans [rotated])
    then obtain rf1 rf' p where 0: "RequestRegister RInt rf = Some (rf1, p)" "0 \<le> p"
      "on_class RInt (inc_busy False p) rf1 \<bind> on_class RInt (set_rat (int (?m RInt)) p) = Some rf'"
      "set_up rf' (?m(RInt := ?m RInt + 1))" "rat rf' RInt ! ?m RInt = p" "\<And>k'. rc_local_size (class_at k' rf') = rc_local_size (class_at k' rf)"
      using set_up_new [OF s(1) m(1)] by metis
    note 1 = 0 [unfolded fun_upd_same]
    have "d < length (rat rf' RInt)" using 1(4) d unfolding set_up_def by (simp add: rat_size_def)
    then have "p \<in> set (take (Suc d) (rat rf' RInt))" using 1(5) by (simp add: take_Suc_conv_app_nth)
    moreover have "init_integer d (rf, fp) = Some (rf', p)"
      using False 1(1,3) by (auto simp: init_integer_def RequestIntegerRegister_def Option.bind_eq_Some_conv)
    ultimately show thesis using 1(2,4,6) s(2) unfolding m(2) by (intro that [of rf' p]) (simp_all add: big_enough_def)
  qed
qed

lemma init_others_run:
  assumes s: "set_up rf m" "big_enough rf" and m0: "m k = 0"
  obtains rf' where "for_loop 0 (rat_size k) (init_other k) rf = Some rf'" "set_up rf' (m(k := rat_size k))" "big_enough rf'"
    "\<And>k'. rc_local_size (class_at k' rf') = rc_local_size (class_at k' rf)"
proof -
  let ?I = "\<lambda>d rf'. set_up rf' (m(k := d)) \<and> (\<forall>k'. rc_local_size (class_at k' rf') = rc_local_size (class_at k' rf))"
  have "\<exists>rf'. for_loop 0 (rat_size k) (init_other k) rf = Some rf' \<and> ?I (rat_size k) rf'"
  proof (rule for_loop_rule [where I = ?I])
    have "m(k := 0) = m" using m0 by auto
    then show "?I 0 rf" using s by simp
    fix d rf1 assume d: "d < rat_size k" and I: "?I d rf1"
    have "int (rat_size k) + 4 \<le> rc_local_size (class_at k rf)" using s(2) unfolding big_enough_def by blast
    then have big: "int (rat_size k) \<le> rc_local_size (class_at k rf1)" using I by simp
    have dk: "(m(k := d)) k < rat_size k" using d by simp
    obtain rf2 rf' p where 1: "RequestRegister k rf1 = Some (rf2, p)"
      "on_class k (inc_busy False p) rf2 \<bind> on_class k (set_rat (int ((m(k := d)) k)) p) = Some rf'"
      "set_up rf' ((m(k := d))(k := (m(k := d)) k + 1))" "\<And>k'. rc_local_size (class_at k' rf') = rc_local_size (class_at k' rf1)"
      using set_up_new [OF conjunct1 [OF I] dk big] by metis
    have "init_other k d rf1 = Some rf'" using 1(1,2) by (auto simp: init_other_def Option.bind_eq_Some_conv)
    then show "\<exists>rf'. init_other k d rf1 = Some rf' \<and> ?I (Suc d) rf'" using 1(3,4) I by simp
  qed simp
  then show thesis using that s(2) unfolding big_enough_def by auto
qed

lemma RegisterFile_run:
  assumes sizes: "ParseConfiguration kind a b c n = Inr sizes" "1 \<le> n" and core: "\<And>k. 0 \<le> core k"
  obtains rf where "RegisterFile sizes core junk = Some rf" "file_inv rf (rat rf) (\<lambda>_. []) (\<lambda>_. {})" "big_enough rf"
    "\<And>k p. \<not> pend rf k p" "rf_top rf = 0"
proof -
  obtain i f x where sz: "sizes = (i, f, x)" by (metis prod.exhaust)
  have min: "26 \<le> a" "15 \<le> b" "13 \<le> c"
    using sizes(1) by (auto simp: ParseConfiguration_def MinIntegerSize_def MinFloatingPointSize_def MinXmmSize_def dep_defs MaxODeps_def split: if_splits)
  have le: "y \<le> y * n" if "0 \<le> y" for y using mult_left_mono [OF sizes(2) that] by simp
  have "a \<le> a * n" "b \<le> b * n" "c \<le> c * n" using min le by simp_all
  then have "26 \<le> a * n" "15 \<le> b * n" "13 \<le> c * n" using min by linarith+
  then have big: "26 \<le> i" "15 \<le> f" "13 \<le> x"
    using sizes(1) min unfolding sz
    by (auto simp: ParseConfiguration_def split: if_splits rf_kind.splits)
  let ?rf = "\<lparr>rf_int = reg_class_new i DepIntCount (core RInt) (junk RInt), rf_fp = reg_class_new f DepFpCount (core RFp) (junk RFp),
       rf_xmm = reg_class_new x DepXmmCount (core RXmm) (junk RXmm), rf_top = 0\<rparr>"
  have new: "class_at k ?rf = reg_class_new (case k of RInt \<Rightarrow> i | RFp \<Rightarrow> f | RXmm \<Rightarrow> x) (int (rat_size k)) (core k) (junk k)" for k
    by (cases k) (simp_all add: class_at_def rat_size_def dep_defs)
  have len: "length (rat ?rf k) = rat_size k" "rc_local_size (class_at k ?rf) = (case k of RInt \<Rightarrow> i | RFp \<Rightarrow> f | RXmm \<Rightarrow> x)" for k
    unfolding new by (simp_all add: reg_class_new_def)
  have B: "big_enough ?rf" unfolding big_enough_def len(2) using big by (auto simp: rat_size_def split: rclass.splits)
  have "books (class_at k ?rf) (\<lambda>_. 0) {}" for k
    unfolding new using core big by (intro reg_class_new_books) (cases k; simp)+
  moreover have "\<not> pending_at (class_at k ?rf) p" for k p
    using booksD(8) [OF calculation, of k p] by auto
  moreover have "count_list [] = (\<lambda>_ :: int. 0)" by (simp add: fun_eq_iff)
  ultimately have s: "set_up ?rf ((\<lambda>_. 0)(RInt := 0))" using len unfolding set_up_def by (simp add: fun_upd_idem)
  let ?I = "\<lambda>d (rf', fp). set_up rf' ((\<lambda>_. 0)(RInt := d)) \<and> big_enough rf' \<and> (d = 0 \<or> 0 \<le> fp \<and> fp \<in> set (take d (rat rf' RInt)))"
  have "\<exists>s. for_loop 0 22 init_integer (?rf, - 1) = Some s \<and> ?I 22 s"
  proof (rule for_loop_rule [where I = ?I])
    show "?I 0 (?rf, - 1)" using s B by simp
    fix d s assume d: "d < (22 :: nat)" and I: "?I d s"
    obtain rf1 fp where s: "s = (rf1, fp)" "set_up rf1 ((\<lambda>_. 0)(RInt := d))" "big_enough rf1" "d = 0 \<or> 0 \<le> fp \<and> fp \<in> set (take d (rat rf1 RInt))"
      using I by auto
    obtain rf2 fp' where "init_integer d (rf1, fp) = Some (rf2, fp')" "set_up rf2 ((\<lambda>_. 0)(RInt := Suc d))" "big_enough rf2"
      "0 \<le> fp' \<and> fp' \<in> set (take (Suc d) (rat rf2 RInt))"
      using init_integer_run [OF s(2,3) d s(4)] by metis
    then show "\<exists>s'. init_integer d s = Some s' \<and> ?I (Suc d) s'" using s(1) by auto
  qed simp
  then obtain rf1 fp where 1: "for_loop 0 22 init_integer (?rf, - 1) = Some (rf1, fp)" "set_up rf1 ((\<lambda>_. 0)(RInt := 22))" "big_enough rf1"
    by auto
  obtain rf2 where 2: "for_loop 0 (rat_size RFp) (init_other RFp) rf1 = Some rf2" "set_up rf2 ((\<lambda>_. 0)(RInt := 22, RFp := rat_size RFp))" "big_enough rf2"
    using init_others_run [OF 1(2,3), of RFp] by auto
  obtain rf3 where 3: "for_loop 0 (rat_size RXmm) (init_other RXmm) rf2 = Some rf3"
      "set_up rf3 ((\<lambda>_. 0)(RInt := 22, RFp := rat_size RFp, RXmm := rat_size RXmm))" "big_enough rf3"
    using init_others_run [OF 2(2,3), of RXmm] by auto
  have m: "(\<lambda>_. 0)(RInt := 22, RFp := rat_size RFp, RXmm := rat_size RXmm) = rat_size"
  proof
    fix k show "((\<lambda>_. 0)(RInt := 22, RFp := rat_size RFp, RXmm := rat_size RXmm)) k = rat_size k" by (cases k) (simp_all add: rat_size_def)
  qed
  have run: "RegisterFile sizes core junk = Some rf3"
    using 1(1) 2(1) 3(1) by (simp add: RegisterFile_def sz rat_size_def dep_defs Let_def)
  have s3: "set_up rf3 rat_size" using 3(2) unfolding m .
  have set: "length (rat rf3 k) = rat_size k" "\<not> pending_at (class_at k rf3) p" "rf_top rf3 = 0" for k p
    using s3 unfolding set_up_def by blast+
  have bk: "books (class_at k rf3) (count_list (rat rf3 k)) {}" for k
    using s3 set(1) [of k] unfolding set_up_def by (metis take_all order_refl)
  have "uses xs [] = count_list xs" for xs by (simp add: uses_def fun_eq_iff)
  then have "class_inv (class_at k rf3) (rat rf3 k) [] {}" for k using bk by (simp add: class_inv_def)
  then have "file_inv rf3 (rat rf3) (\<lambda>_. []) (\<lambda>_. {})" using set(1,3) by (simp add: file_inv_def)
  then show thesis using that [OF run _ 3(3)] set(2,3) by (simp add: pend_def)
qed

section \<open>Uops in flight\<close>

definition outs :: "rclass \<Rightarrow> uop \<Rightarrow> int set" where
  "outs k u = {p. \<exists>d < 4. dep_class (odep u d) = Some k \<and> p = uo_outputs u ! d}"

definition op_top :: "uop \<Rightarrow> int \<Rightarrow> int" where
  "op_top u t = rename_top (ui_opcode (uo_uinst u)) t"

definition top_after :: "int \<Rightarrow> uop list \<Rightarrow> int" where
  "top_after t rob = foldl (\<lambda>t u. op_top u t) t rob"

fun in_flight :: "rclass \<Rightarrow> int \<Rightarrow> uop list \<Rightarrow> move list" where
  "in_flight k t [] = []"
| "in_flight k t (u # us) = all_moves k (op_top u t) u @ in_flight k (op_top u t) us"

fun last_new :: "int \<Rightarrow> (int \<times> int) list \<Rightarrow> int" where
  "last_new r [] = r"
| "last_new r ((p, q) # es) = last_new p es"

definition mapped :: "int list \<Rightarrow> move list \<Rightarrow> int list" where
  "mapped R E = map (\<lambda>i. last_new (R ! i) (steps i E)) [0..<length R]"

lemma news_all_moves [simp]: "news (all_moves k t u) = outs k u"
proof -
  have "p \<in> news (all_moves k t u) \<longleftrightarrow> p \<in> outs k u" for p
    unfolding all_moves_def news_moves outs_def by (auto simp del: upt_conv_Cons)
  then show ?thesis by blast
qed

lemma top_after_simps [simp]: "top_after t [] = t" "top_after t (u # us) = top_after (op_top u t) us"
  "top_after t (us @ vs) = top_after (top_after t us) vs"
  by (simp_all add: top_after_def)

lemma in_flight_append: "in_flight k t (us @ vs) = in_flight k t us @ in_flight k (top_after t us) vs"
  by (induction us arbitrary: t) simp_all

lemma news_in_flight: "news (in_flight k t us) = (\<Union>u \<in> set us. outs k u)"
  by (induction us arbitrary: t) simp_all

lemma op_top_range: "0 \<le> t \<and> t < 8 \<Longrightarrow> 0 \<le> op_top u t \<and> op_top u t < 8"
  by (simp add: op_top_def rename_top_def)

lemma undo_op_top: "0 \<le> t \<and> t < 8 \<Longrightarrow> undo_top (ui_opcode (uo_uinst u)) (op_top u t) = t"
  by (auto simp: op_top_def rename_top_def undo_top_def mod_simps)

lemma last_new_append: "last_new r (es @ es') = last_new (last_new r es) es'"
  by (induction r es rule: last_new.induct) simp_all

lemma follows_last: "follows r es x \<Longrightarrow> x = last_new r es"
  by (induction r es x rule: follows.induct) simp_all

lemma last_new_cases: "last_new r es = r \<or> last_new r es \<in> fst ` set es"
  by (induction r es rule: last_new.induct) auto

lemma follows_same_start: "follows r es x \<Longrightarrow> follows r' es x \<Longrightarrow> r = r'"
  by (cases es) auto

lemma mapped_simps [simp]: "mapped R [] = R" "length (mapped R E) = length R" "i < length R \<Longrightarrow> mapped R E ! i = last_new (R ! i) (steps i E)"
  by (simp_all add: mapped_def map_nth)

lemma mapped_append: "mapped R (E @ E') = mapped (mapped R E) E'"
  by (rule nth_equalityI) (simp_all add: last_new_append)

lemma mapped_set: "set (mapped R E) \<subseteq> set R \<union> news E"
proof
  fix p assume "p \<in> set (mapped R E)"
  then obtain i where i: "i < length R" "p = last_new (R ! i) (steps i E)" by (auto simp: in_set_conv_nth)
  then show "p \<in> set R \<union> news E" using last_new_cases [of "R ! i" "steps i E"] by (force simp: steps_def news_def)
qed

lemma mapped_now: "class_inv c R E X \<Longrightarrow> rc_rat c = mapped R E"
  by (rule nth_equalityI) (simp_all add: class_invD(2) follows_last [OF class_invD(4)])

lemma mapped_start:
  assumes "class_inv c R (M @ E) X" "class_inv c' R' E X'" "rc_rat c' = rc_rat c" "length R' = length R"
  shows "R' = mapped R M"
proof (rule nth_equalityI)
  fix i assume i: "i < length R'"
  then have iR: "i < length R" using assms(4) by simp
  obtain y where y: "follows (R ! i) (steps i M) y" "follows y (steps i E) (rc_rat c ! i)"
    using class_invD(4) [OF assms(1) iR] by (auto simp: follows_append)
  have "R' ! i = y" using follows_same_start [OF class_invD(4) [OF assms(2) i]] y(2) assms(3) by simp
  then show "R' ! i = mapped R M ! i" using follows_last [OF y(1)] iR by simp
qed (simp add: assms(4))

text \<open>The flags of a uop that change after it was renamed play no role for its moves.\<close>

definition erase :: "uop \<Rightarrow> uop" where
  "erase u = u\<lparr>uo_ready := False, uo_completed := False\<rparr>"

lemma erase_same:
  assumes "erase u = erase v"
  shows "outs k u = outs k v" "all_moves k t u = all_moves k t v" "op_top u t = op_top v t" "uo_inputs u = uo_inputs v" "idep u = idep v"
    "uop_shape u = uop_shape v" "invalid_ok u n = invalid_ok v n" "uo_uinst u = uo_uinst v" "uo_speculative_mode u = uo_speculative_mode v"
    "mapped_input M t u = mapped_input M t v" "uo_outputs u = uo_outputs v" "uo_old_outputs u = uo_old_outputs v"
proof -
  show s: "uo_inputs u = uo_inputs v" "uo_uinst u = uo_uinst v" "uo_speculative_mode u = uo_speculative_mode v"
    "uo_outputs u = uo_outputs v" "uo_old_outputs u = uo_old_outputs v"
    using arg_cong [OF assms, of uo_inputs] arg_cong [OF assms, of uo_uinst] arg_cong [OF assms, of uo_speculative_mode]
      arg_cong [OF assms, of uo_outputs] arg_cong [OF assms, of uo_old_outputs] by (simp_all add: erase_def)
  show d: "idep u = idep v" using s by (simp add: idep_def fun_eq_iff)
  have o: "odep u = odep v" using s by (simp add: odep_def fun_eq_iff)
  show "outs k u = outs k v" "all_moves k t u = all_moves k t v" "op_top u t = op_top v t" "uop_shape u = uop_shape v"
    "invalid_ok u n = invalid_ok v n" "mapped_input M t u = mapped_input M t v"
    unfolding outs_def all_moves_def moves_def op_top_def uop_shape_def invalid_ok_def mapped_input_def s d o by (rule refl)+
qed

lemma erase_in_flight:
  assumes "map erase us = map erase vs"
  shows "in_flight k t us = in_flight k t vs" "top_after t us = top_after t vs"
  using assms
proof (induction us arbitrary: t vs)
  case (Cons u us)
  case 1
  then obtain v vs' where v: "vs = v # vs'" "erase u = erase v" "map erase us = map erase vs'" by (cases vs) auto
  then show ?case using Cons(1) [OF v(3)] erase_same [OF v(2)] by simp
next
  case (Cons u us)
  case 2
  then obtain v vs' where v: "vs = v # vs'" "erase u = erase v" "map erase us = map erase vs'" by (cases vs) auto
  then show ?case using Cons(2) [OF v(3)] erase_same [OF v(2)] by simp
qed simp_all

section \<open>The invariant\<close>

definition entry_ok :: "(rclass \<Rightarrow> int list) \<Rightarrow> int \<Rightarrow> uop list \<Rightarrow> nat \<Rightarrow> bool" where
  "entry_ok R t rob j \<longleftrightarrow> (\<forall>k. outs k (rob ! j) \<inter> set (R k) = {} \<and> (\<forall>v \<in> set (take j rob). outs k (rob ! j) \<inter> outs k v = {})) \<and>
     (\<forall>d < 3. uo_inputs (rob ! j) ! d =
       mapped_input (\<lambda>k. mapped (R k) (in_flight k t (take j rob))) (top_after t (take (Suc j) rob)) (rob ! j) d)"

definition no_pending :: "register_file \<Rightarrow> uop \<Rightarrow> bool" where
  "no_pending rf u \<longleftrightarrow> (\<forall>d < 3. \<forall>k. dep_class (idep u d) = Some k \<longrightarrow> \<not> pend rf k (uo_inputs u ! d))"

definition uop_ok :: "uop \<Rightarrow> bool" where
  "uop_ok u \<longleftrightarrow> uop_shape u \<and> invalid_ok u 4 \<and> (ui_opcode (uo_uinst u) = OpcodeStore \<longrightarrow> (\<forall>k. outs k u = {}))"

definition rob_inv :: "int \<Rightarrow> (rclass \<Rightarrow> int list) \<Rightarrow> register_file \<Rightarrow> uop list \<Rightarrow> bool" where
  "rob_inv t R rf rob \<longleftrightarrow> file_inv rf R (\<lambda>k. in_flight k t rob) (\<lambda>_. {}) \<and> rf_top rf = top_after t rob \<and> (0 \<le> t \<and> t < 8) \<and>
     (\<forall>u \<in> set rob. uop_ok u) \<and> (\<forall>j < length rob. entry_ok R t rob j) \<and>
     (\<forall>k p. pend rf k p \<longrightarrow> (\<exists>u \<in> set rob. \<not> uo_completed u \<and> p \<in> outs k u)) \<and>
     (\<forall>u \<in> set rob. uo_ready u \<longrightarrow> no_pending rf u) \<and> big_enough rf"

lemma rob_invD:
  assumes "rob_inv t R rf rob"
  shows "file_inv rf R (\<lambda>k. in_flight k t rob) (\<lambda>_. {})" "rf_top rf = top_after t rob" "0 \<le> t \<and> t < 8"
    "u \<in> set rob \<Longrightarrow> uop_ok u" "j < length rob \<Longrightarrow> entry_ok R t rob j" "pend rf k p \<Longrightarrow> \<exists>u \<in> set rob. \<not> uo_completed u \<and> p \<in> outs k u"
    "u \<in> set rob \<Longrightarrow> uo_ready u \<Longrightarrow> no_pending rf u" "big_enough rf"
  using assms unfolding rob_inv_def by blast+

lemma entry_ok_erase:
  assumes "map erase rob = map erase rob'" "j < length rob"
  shows "entry_ok R t rob j = entry_ok R t rob' j"
proof -
  have e: "erase (rob ! j) = erase (rob' ! j)" using assms by (metis length_map nth_map)
  have tk: "map erase (take n rob) = map erase (take n rob')" for n using assms(1) by (metis take_map)
  have o: "(\<forall>v \<in> set (take j rob). outs k u \<inter> outs k v = {}) \<longleftrightarrow> (\<forall>v \<in> set (take j rob'). outs k u \<inter> outs k v = {})" for k u
  proof -
    have "(\<Union>v \<in> set (take j rob). outs k v) = (\<Union>v \<in> set (take j rob'). outs k v)"
      unfolding news_in_flight [of k t, symmetric] erase_in_flight(1) [OF tk] by (rule refl)
    moreover have "(\<forall>v \<in> S. A \<inter> outs k v = {}) \<longleftrightarrow> A \<inter> (\<Union>v \<in> S. outs k v) = {}" for A S by blast
    ultimately show ?thesis by simp
  qed
  show ?thesis
    unfolding entry_ok_def o using erase_same(1,4,10) [OF e] erase_in_flight [OF tk] by simp
qed

lemma rob_inv_start: "file_inv rf (rat rf) (\<lambda>_. []) (\<lambda>_. {}) \<Longrightarrow> rf_top rf = 0 \<Longrightarrow> (\<And>k p. \<not> pend rf k p) \<Longrightarrow> big_enough rf \<Longrightarrow>
    rob_inv 0 (rat rf) rf []"
  by (simp add: rob_inv_def)

text \<open>The registers that uops in flight read or write are in use, and those of different uops are different.\<close>

lemma inputs_used:
  assumes I: "rob_inv t R rf rob" and j: "j < length rob" "d < 3" "dep_class (idep (rob ! j) d) = Some k"
  shows "0 < uses (rat rf k) (in_flight k t rob) (uo_inputs (rob ! j) ! d)"
    "uo_inputs (rob ! j) ! d \<in> set (R k) \<union> (\<Union>v \<in> set (take j rob). outs k v)"
proof -
  let ?M = "mapped (R k) (in_flight k t (take j rob))" and ?n = "dep_number k (top_after t (take (Suc j) rob)) (idep (rob ! j) d)"
  note F = rob_invD(1) [OF I]
  have "?n < length ?M" using dep_number_less [OF j(3)] file_invD(2) [OF F] by simp
  then have "?M ! ?n \<in> set (R k) \<union> news (in_flight k t (take j rob))" using mapped_set nth_mem by blast
  moreover have "uo_inputs (rob ! j) ! d = ?M ! ?n"
    using rob_invD(5) [OF I j(1)] j(2,3) unfolding entry_ok_def mapped_input_def by simp
  ultimately show b: "uo_inputs (rob ! j) ! d \<in> set (R k) \<union> (\<Union>v \<in> set (take j rob). outs k v)" by (simp add: news_in_flight)
  have "(\<Union>v \<in> set (take j rob). outs k v) \<subseteq> news (in_flight k t rob)" unfolding news_in_flight by (auto dest: in_set_takeD)
  then show "0 < uses (rat rf k) (in_flight k t rob) (uo_inputs (rob ! j) ! d)"
    using b used(1,4) [OF file_invD(1) [OF F]] by blast
qed

lemma outs_disjoint:
  assumes I: "rob_inv t R rf rob" and j: "i < j" "j < length rob"
  shows "outs k (rob ! i) \<inter> outs k (rob ! j) = {}"
proof -
  have "rob ! i \<in> set (take j rob)" using j by (metis in_set_conv_nth length_take min.absorb2 nth_take order_less_imp_le)
  then show ?thesis using rob_invD(5) [OF I j(2)] unfolding entry_ok_def by blast
qed

end
