(* ===== verification/SimRegisterFileClient.thy ===== *)
theory SimRegisterFileClient
  imports SimRegisterFileRob
begin

text \<open>
  The pipeline as the client of the register file: its steps keep the invariant, and what follows for the uops in
  flight.
\<close>

section \<open>Steps\<close>

lemma rename_step:
  assumes I: "rob_inv t R rf rob" and u: "uop_shape u" "counts_ok u" "\<not> uo_ready u" "\<not> uo_completed u"
    and store: "ui_opcode (uo_uinst u) = OpcodeStore \<Longrightarrow> (\<forall>d < 4. dep_class (odep u d) = None)" and can: "canRename kind rf u"
  obtains rf' u' where "Rename rf u = Some (rf', u')" "rob_inv t R rf' (rob @ [u'])" "uo_uinst u' = uo_uinst u"
    "uo_speculative_mode u' = uo_speculative_mode u" "\<And>k p. pend rf' k p \<longleftrightarrow> pend rf k p \<or> p \<in> outs k u'" "\<not> uo_completed u'"
    "\<And>k p. p \<in> outs k u' \<Longrightarrow> \<not> pend rf k p" "\<And>k. rc_local_size (class_at k rf') = rc_local_size (class_at k rf)"
proof -
  note F = rob_invD(1) [OF I]
  have free: "int (need k u) \<le> rc_num_free (class_at k rf)" for k by (rule canRename_free [OF can u(2) F])
  let ?t = "op_top u (rf_top rf)"
  obtain rf' u' where r: "Rename rf u = Some (rf', u')" "file_inv rf' R (\<lambda>k. in_flight k t rob @ all_moves k ?t u') (\<lambda>_. {})" "rf_top rf' = ?t"
    "uop_shape u'" "invalid_ok u' 4" "\<exists>is os qs. u' = u\<lparr>uo_inputs := is, uo_outputs := os, uo_old_outputs := qs\<rparr>"
    "\<And>d. d < 3 \<Longrightarrow> uo_inputs u' ! d = mapped_input (rat rf) ?t u d"
    "\<And>k p. p \<in> news (all_moves k ?t u') \<Longrightarrow> uses (rat rf k) (in_flight k t rob) p = 0"
    "\<And>k p. pend rf' k p \<longleftrightarrow> pend rf k p \<or> p \<in> news (all_moves k ?t u')"
    "\<And>k. rc_local_size (class_at k rf') = rc_local_size (class_at k rf)"
    by (rule Rename_run [OF F u(1) free, of ?t]) (simp add: op_top_def, rule that)
  have same: "uo_uinst u' = uo_uinst u" "uo_speculative_mode u' = uo_speculative_mode u" "\<not> uo_ready u'" "\<not> uo_completed u'"
    using r(6) u(3,4) by auto
  have deps: "idep u' = idep u" "odep u' = odep u" using same(1) by (simp_all add: idep_def odep_def fun_eq_iff)
  have op: "op_top u' = op_top u" using same(1) by (simp add: op_top_def fun_eq_iff)
  have fresh: "p \<notin> set (R k)" "v \<in> set rob \<Longrightarrow> p \<notin> outs k v" "0 < uses (rat rf k) (in_flight k t rob) q \<Longrightarrow> q \<noteq> p"
    if p: "p \<in> outs k u'" for k p v q
    using r(8) [of p k] p used [OF file_invD(1) [OF F, of k], of p] news_in_flight [of k t rob] by auto
  have e: "entry_ok R t (rob @ [u']) (length rob)"
  proof -
    have rt: "rat rf k = mapped (R k) (in_flight k t rob)" for k by (rule mapped_now [OF file_invD(1) [OF F]])
    have "mapped_input (rat rf) ?t u = mapped_input (\<lambda>k. mapped (R k) (in_flight k t rob)) ?t u'"
      unfolding mapped_input_def rt deps by (rule refl)
    then show ?thesis using r(7) fresh rob_invD(2) [OF I] unfolding entry_ok_def by (auto simp: op)
  qed
  have "entry_ok R t (rob @ [u']) j" if "j < length (rob @ [u'])" for j
  proof (cases "j = length rob")
    case False
    then have "j < length rob" using that by simp
    then show ?thesis using rob_invD(5) [OF I, of j] unfolding entry_ok_def by (simp add: nth_append)
  qed (use e in simp)
  moreover have "file_inv rf' R (\<lambda>k. in_flight k t (rob @ [u'])) (\<lambda>_. {})"
    using r(2) rob_invD(2) [OF I] by (simp add: in_flight_append op)
  moreover have "uop_ok u'" using r(4,5) store same(1) deps unfolding uop_ok_def by (auto simp: outs_def)
  moreover have pn: "pend rf' k p \<longleftrightarrow> pend rf k p \<or> p \<in> outs k u'" for k p using r(9) by simp
  then have "\<exists>v \<in> set (rob @ [u']). \<not> uo_completed v \<and> p \<in> outs k v" if "pend rf' k p" for k p
    using that rob_invD(6) [OF I] same(4) by fastforce
  moreover have "no_pending rf' v" if "v \<in> set (rob @ [u'])" "uo_ready v" for v
  proof -
    have v: "v \<in> set rob" using that same(3) by auto
    then obtain j where j: "j < length rob" "v = rob ! j" by (auto simp: in_set_conv_nth)
    have n: "no_pending rf v" by (rule rob_invD(7) [OF I v that(2)])
    show ?thesis unfolding no_pending_def pn
      using n inputs_used(1) [OF I j(1)] fresh(3) j(2) unfolding no_pending_def by blast
  qed
  moreover have "big_enough rf'" using rob_invD(8) [OF I] r(10) by (simp add: big_enough_def)
  ultimately have I': "rob_inv t R rf' (rob @ [u'])"
    using rob_invD(2,3,4) [OF I] r(3) unfolding rob_inv_def by (auto simp: op)
  have "\<not> pend rf k p" if p: "p \<in> outs k u'" for k p using rob_invD(6) [OF I, of k p] fresh(2) [OF p] by blast
  then show thesis using that [OF r(1) I' same(1,2)] pn same(4) r(10) by blast
qed

lemma rob_update:
  assumes I: "rob_inv t R rf rob" and i: "i < length rob" "erase u' = erase (rob ! i)" "uo_completed (rob ! i) \<Longrightarrow> uo_completed u'"
    and rf': "file_inv rf' R (\<lambda>k. in_flight k t rob) (\<lambda>_. {})" "rf_top rf' = rf_top rf" "big_enough rf'"
      "\<And>k p. pend rf' k p \<longleftrightarrow> pend rf k p \<and> \<not> (w \<and> p \<in> outs k (rob ! i))"
    and c: "uo_completed u' \<Longrightarrow> uo_completed (rob ! i) \<or> w" and rd: "uo_ready u' \<Longrightarrow> no_pending rf' u'"
  shows "rob_inv t R rf' (rob[i := u'])"
proof -
  have m: "map erase (rob[i := u']) = map erase rob" using i by (simp add: map_update list_update_same_conv)
  note same = erase_same [OF i(2)]
  have "uop_ok u'" using rob_invD(4) [OF I nth_mem [OF i(1)]] unfolding uop_ok_def same .
  moreover have "entry_ok R t (rob[i := u']) j" if "j < length rob" for j
    using rob_invD(5) [OF I that] entry_ok_erase [OF m] that by simp
  moreover have "\<exists>v \<in> set (rob[i := u']). \<not> uo_completed v \<and> p \<in> outs k v" if p: "pend rf' k p" for k p
  proof -
    obtain v where v: "v \<in> set rob" "\<not> uo_completed v" "p \<in> outs k v" using rob_invD(6) [OF I, of k p] p rf'(4) by blast
    then obtain j where j: "j < length rob" "v = rob ! j" by (auto simp: in_set_conv_nth)
    show ?thesis
    proof (cases "j = i")
      case False
      then have "v \<in> set (rob[i := u'])" using j by (metis length_list_update nth_list_update_neq nth_mem)
      then show ?thesis using v by blast
    next
      case True
      then have "\<not> uo_completed u'" using c v j p rf'(4) by blast
      moreover have "p \<in> outs k u'" using v(3) j(2) True same(1) by simp
      moreover have "u' \<in> set (rob[i := u'])" using i(1) by (simp add: set_update_memI)
      ultimately show ?thesis by blast
    qed
  qed
  moreover have "no_pending rf' v" if v: "v \<in> set (rob[i := u'])" "uo_ready v" for v
  proof (cases "v = u'")
    case False
    then have "v \<in> set rob" using v(1) set_update_subset_insert by fast
    then have "no_pending rf v" using rob_invD(7) [OF I] v(2) by blast
    then show ?thesis using rf'(4) unfolding no_pending_def by blast
  qed (use rd v in simp)
  ultimately show ?thesis
    using rob_invD(2,3,4) [OF I] rf' set_update_subset_insert [of rob i u'] erase_in_flight [OF m] unfolding rob_inv_def by auto
qed

lemma outs_in_range:
  assumes I: "rob_inv t R rf rob" and u: "u \<in> set rob" "p \<in> outs k u"
  shows "in_range (class_at k rf) p"
proof -
  note F = file_invD(1) [OF rob_invD(1) [OF I], of k]
  have "p \<in> news (in_flight k t rob)" using u by (auto simp: news_in_flight)
  then show ?thesis using booksD(9) [OF class_invD(1) [OF F]] used(1) [OF F] by blast
qed

lemma write_step:
  assumes I: "rob_inv t R rf rob" and i: "i < length rob"
  obtains rf' where "WriteUop rf (rob ! i) = Some rf'" "rob_inv t R rf' (rob[i := (rob ! i)\<lparr>uo_completed := True\<rparr>])"
    "\<And>k p. pend rf' k p \<longleftrightarrow> pend rf k p \<and> p \<notin> outs k (rob ! i)" "\<And>k. rat rf' k = rat rf k"
    "\<And>k. rc_local_size (class_at k rf') = rc_local_size (class_at k rf)"
proof -
  have u: "uop_shape (rob ! i)" using rob_invD(4) [OF I nth_mem [OF i]] by (simp add: uop_ok_def)
  have rg: "in_range (class_at k rf) p" if "p \<in> news (all_moves k t (rob ! i))" for k p
    using outs_in_range [OF I nth_mem [OF i]] that by simp
  obtain rf' where r: "WriteUop rf (rob ! i) = Some rf'" "file_inv rf' R (\<lambda>k. in_flight k t rob) (\<lambda>_. {})"
    "\<And>k p. pend rf' k p \<longleftrightarrow> pend rf k p \<and> p \<notin> news (all_moves k t (rob ! i))"
    "rf_top rf' = rf_top rf" "\<And>k. rc_local_size (class_at k rf') = rc_local_size (class_at k rf)" "\<And>k. rat rf' k = rat rf k"
    by (rule WriteUop_run [OF rob_invD(1) [OF I] u rg]) (assumption, rule that)
  have "big_enough rf'" using rob_invD(8) [OF I] r(5) by (simp add: big_enough_def)
  moreover have "no_pending rf' ((rob ! i)\<lparr>uo_completed := True\<rparr>)" if "uo_ready (rob ! i)"
    using rob_invD(7) [OF I nth_mem [OF i] that] r(3) unfolding no_pending_def by simp
  ultimately have "rob_inv t R rf' (rob[i := (rob ! i)\<lparr>uo_completed := True\<rparr>])"
    using r by (intro rob_update [OF I i, where w = True]) (simp_all add: erase_def)
  then show thesis using r by (intro that [of rf']) simp_all
qed

lemma ready_run:
  assumes I: "rob_inv t R rf rob" and i: "i < length rob"
  obtains u' where "isUopReady rf (rob ! i) = Some (no_pending rf (rob ! i), u')" "rob_inv t R rf (rob[i := u'])"
proof -
  let ?u = "rob ! i"
  have u: "uop_shape ?u" using rob_invD(4) [OF I nth_mem [OF i]] by (simp add: uop_ok_def)
  note F = rob_invD(1) [OF I]
  show thesis
  proof (cases "uo_ready ?u")
    case True
    then have "no_pending rf ?u" by (rule rob_invD(7) [OF I nth_mem [OF i]])
    then show thesis using True I by (intro that [of ?u]) (simp_all add: isUopReady_def)
  next
    case False
    let ?G = "\<lambda>n. \<forall>d < n. \<forall>k. dep_class (idep ?u d) = Some k \<longrightarrow> \<not> pend rf k (uo_inputs ?u ! d)"
    have "for_loop 0 3 (ready_input rf ?u) True = Some (?G 3)"
    proof (rule for_loop_eq [where g = ?G])
      fix d assume d: "d < (3 :: nat)"
      have G: "?G (Suc d) \<longleftrightarrow> ?G d \<and> (\<forall>k. dep_class (idep ?u d) = Some k \<longrightarrow> \<not> pend rf k (uo_inputs ?u ! d))"
        by (auto simp: less_Suc_eq)
      have at: "input_pending k (uo_inputs ?u ! d) rf = Some (pend rf k (uo_inputs ?u ! d))" if k: "dep_class (idep ?u d) = Some k" for k
      proof -
        note b = class_invD(1) [OF file_invD(1) [OF F, of k]]
        have "in_range (class_at k rf) (uo_inputs ?u ! d)" by (rule booksD(9) [OF b inputs_used(1) [OF I i d k]])
        then show ?thesis using register_at_run [OF b] by (simp add: input_pending_def pend_def pending_at_def)
      qed
      have "ready_input rf ?u d ok = (if \<not> ok then Some False else case dep_class (idep ?u d) of None \<Rightarrow> Some True
          | Some k \<Rightarrow> map_option Not (input_pending k (uo_inputs ?u ! d) rf))" for ok
        using u d unfolding ready_input_def by (simp add: dep_branch split: option.splits rclass.splits)
      then show "ready_input rf ?u d (?G d) = Some (?G (Suc d))" unfolding G using at by (cases "dep_class (idep ?u d)") auto
    qed simp_all
    then have run: "isUopReady rf ?u = Some (no_pending rf ?u, if no_pending rf ?u then ?u\<lparr>uo_ready := True\<rparr> else ?u)"
      using False by (simp add: isUopReady_def MaxIDeps_def no_pending_def)
    have "rob_inv t R rf (rob[i := if no_pending rf ?u then ?u\<lparr>uo_ready := True\<rparr> else ?u])"
    proof (cases "no_pending rf ?u")
      case True
      then have "rob_inv t R rf (rob[i := ?u\<lparr>uo_ready := True\<rparr>])"
        by (intro rob_update [OF I i, where w = False]) (use F rob_invD(8) [OF I] in \<open>auto simp: erase_def no_pending_def\<close>)
      then show ?thesis using True by simp
    qed (simp add: I)
    then show thesis by (rule that [OF run])
  qed
qed

lemma commit_step:
  assumes I: "rob_inv t R rf (u # rob)" and u: "\<not> uo_speculative_mode u" "uo_completed u \<or> ui_opcode (uo_uinst u) = OpcodeStore"
  obtains rf' where "CommitUop rf u = Some rf'" "rob_inv (op_top u t) (\<lambda>k. mapped (R k) (all_moves k (op_top u t) u)) rf' rob"
    "\<And>k. rat rf' k = rat rf k" "pend rf' = pend rf" "\<And>k. rc_local_size (class_at k rf') = rc_local_size (class_at k rf)"
proof -
  let ?t = "op_top u t" and ?R = "\<lambda>k. mapped (R k) (all_moves k (op_top u t) u)"
  have F: "file_inv rf R (\<lambda>k. all_moves k ?t u @ in_flight k ?t rob) (\<lambda>_. {})" using rob_invD(1) [OF I] by simp
  have ok: "uop_shape u" "invalid_ok u 4" using rob_invD(4) [OF I, of u] by (simp_all add: uop_ok_def)
  have dis: "outs k (rob ! j) \<inter> outs k u = {}" if "j < length rob" for j k
    using outs_disjoint [OF I, of 0 "Suc j" k] that by auto
  have R0: "outs k v \<inter> set (R k) = {}" if "v \<in> set (u # rob)" for v k
    using rob_invD(5) [OF I] that unfolding entry_ok_def by (metis in_set_conv_nth)
  have np: "\<not> pend rf k p" if p: "p \<in> set (R k) \<union> news (all_moves k ?t u)" for k p
  proof
    assume "pend rf k p"
    then obtain v where v: "v \<in> set (u # rob)" "\<not> uo_completed v" "p \<in> outs k v" using rob_invD(6) [OF I] by blast
    show False
    proof (cases "p \<in> set (R k)")
      case True
      then show False using R0 [OF v(1)] v(3) by blast
    next
      case False
      then have pu: "p \<in> outs k u" using p by simp
      then have "uo_completed u" using u(2) rob_invD(4) [OF I, of u] by (auto simp: uop_ok_def)
      then have "v \<in> set rob" using v(1,2) by auto
      then obtain j where "j < length rob" "v = rob ! j" by (auto simp: in_set_conv_nth)
      then show False using dis v(3) pu by blast
    qed
  qed
  obtain rf' R' where r: "CommitUop rf u = Some rf'" "file_inv rf' R' (\<lambda>k. in_flight k ?t rob) (\<lambda>_. {})" "\<And>k. set (R' k) \<subseteq> set (R k) \<union> news (all_moves k ?t u)"
    "pend rf' = pend rf" "rf_top rf' = rf_top rf" "\<And>k. rc_local_size (class_at k rf') = rc_local_size (class_at k rf)" "\<And>k. rat rf' k = rat rf k"
    using CommitUop_run [OF F ok(1) u(1) np ok(2) [unfolded invalid_ok_def, rule_format]] by blast
  have R': "R' = ?R"
  proof
    fix k show "R' k = ?R k"
      using mapped_start [OF file_invD(1) [OF F] file_invD(1) [OF r(2)] r(7)] file_invD(2) [OF F] file_invD(2) [OF r(2)] by simp
  qed
  have "entry_ok ?R ?t rob j" if j: "j < length rob" for j
  proof -
    have e: "entry_ok R t (u # rob) (Suc j)" using rob_invD(5) [OF I] j by simp
    have "outs k (rob ! j) \<inter> set (?R k) = {}" for k
      using mapped_set [of "R k" "all_moves k ?t u"] dis [OF j] e unfolding entry_ok_def by fastforce
    then show ?thesis using e unfolding entry_ok_def by (simp add: mapped_append)
  qed
  moreover have "\<exists>v \<in> set rob. \<not> uo_completed v \<and> p \<in> outs k v" if p: "pend rf' k p" for k p
  proof -
    obtain v where v: "v \<in> set (u # rob)" "\<not> uo_completed v" "p \<in> outs k v" using rob_invD(6) [OF I, of k p] p r(4) by auto
    have "p \<notin> outs k u" using np [of p k] p r(4) by auto
    then have "v \<noteq> u" using v(3) by blast
    then show ?thesis using v by auto
  qed
  moreover have "big_enough rf'" using rob_invD(8) [OF I] r(6) by (simp add: big_enough_def)
  moreover have "no_pending rf' v" if "v \<in> set rob" "uo_ready v" for v
    using rob_invD(7) [OF I, of v] that r(4) unfolding no_pending_def by simp
  ultimately have "rob_inv ?t ?R rf' rob"
    using r(2,5) rob_invD(2,3,4) [OF I] op_top_range unfolding rob_inv_def R' by simp
  then show thesis using r by (intro that [of rf']) simp_all
qed

lemma squash_step:
  assumes I: "rob_inv t R rf (rob @ [u])" and u: "uo_speculative_mode u"
  obtains rf1 rf' where "(if \<not> uo_completed u then WriteUop rf u else Some rf) = Some rf1" "UndoUop rf1 u = Some rf'" "rob_inv t R rf' rob"
    "\<And>k p. pend rf' k p \<longleftrightarrow> pend rf k p \<and> p \<notin> outs k u" "\<And>k. rc_local_size (class_at k rf') = rc_local_size (class_at k rf)"
proof -
  have "\<exists>rf1 u1. (if \<not> uo_completed u then WriteUop rf u else Some rf) = Some rf1 \<and> rob_inv t R rf1 (rob @ [u1]) \<and> erase u1 = erase u \<and>
      uo_completed u1 \<and> (\<forall>k p. pend rf1 k p \<longleftrightarrow> pend rf k p \<and> p \<notin> outs k u) \<and>
      (\<forall>k. rc_local_size (class_at k rf1) = rc_local_size (class_at k rf))"
  proof (cases "uo_completed u")
    case True
    have "p \<notin> outs k u" if p: "pend rf k p" for k p
    proof
      assume pu: "p \<in> outs k u"
      obtain v where v: "v \<in> set (rob @ [u])" "\<not> uo_completed v" "p \<in> outs k v" using rob_invD(6) [OF I p] by blast
      then have "v \<in> set rob" using True by auto
      then obtain j where "j < length rob" "v = rob ! j" by (auto simp: in_set_conv_nth)
      then show False using outs_disjoint [OF I, of j "length rob" k] v(3) pu by (auto simp: nth_append)
    qed
    then show ?thesis using True I by (intro exI [of _ rf] exI [of _ u]) auto
  next
    case False
    have n: "(rob @ [u]) ! length rob = u" by simp
    obtain rf1 where "WriteUop rf u = Some rf1" "rob_inv t R rf1 ((rob @ [u])[length rob := u\<lparr>uo_completed := True\<rparr>])"
        "\<And>k p. pend rf1 k p \<longleftrightarrow> pend rf k p \<and> p \<notin> outs k u" "\<And>k. rc_local_size (class_at k rf1) = rc_local_size (class_at k rf)"
      using write_step [OF I, of "length rob"] unfolding n by (metis length_append_singleton lessI)
    then show ?thesis using False by (intro exI [of _ rf1] exI [of _ "u\<lparr>uo_completed := True\<rparr>"]) (simp add: erase_def)
  qed
  then obtain rf1 u1 where w: "(if \<not> uo_completed u then WriteUop rf u else Some rf) = Some rf1" "rob_inv t R rf1 (rob @ [u1])"
    "erase u1 = erase u" "uo_completed u1" "\<And>k p. pend rf1 k p \<longleftrightarrow> pend rf k p \<and> p \<notin> outs k u"
    "\<And>k. rc_local_size (class_at k rf1) = rc_local_size (class_at k rf)" by blast
  note same = erase_same [OF w(3)]
  have top: "rf_top rf1 = op_top u (top_after t rob)" using rob_invD(2) [OF w(2)] same(3) by simp
  have F: "file_inv rf1 R (\<lambda>k. in_flight k t rob @ all_moves k (rf_top rf1) u) (\<lambda>_. {})"
    using rob_invD(1) [OF w(2)] same(2,3) unfolding top by (simp add: in_flight_append)
  have ok: "uop_shape u" "invalid_ok u 4" using rob_invD(4) [OF I, of u] by (simp_all add: uop_ok_def)
  have range: "0 \<le> top_after t rob \<and> top_after t rob < 8"
  proof (induction rob rule: rev_induct)
    case (snoc v vs)
    then show ?case using op_top_range by simp
  qed (use rob_invD(3) [OF I] in simp)
  note undo = undo_op_top [OF range]
  have np: "\<not> pend rf1 k p" if "p \<in> news (all_moves k (rf_top rf1) u)" for k p using w(5) that by simp
  obtain rf' where r: "UndoUop rf1 u = Some rf'" "file_inv rf' R (\<lambda>k. in_flight k t rob) (\<lambda>_. {})" "pend rf' = pend rf1"
    "rf_top rf' = undo_top (ui_opcode (uo_uinst u)) (rf_top rf1)" "\<And>k. rc_local_size (class_at k rf') = rc_local_size (class_at k rf1)"
    by (rule UndoUop_run [OF F ok(1) u]) (erule np, use ok(2) in \<open>simp add: invalid_ok_def\<close>, rule that)
  have "entry_ok R t rob j" if "j < length rob" for j
    using rob_invD(5) [OF I, of j] that unfolding entry_ok_def by (simp add: nth_append)
  moreover have "\<exists>v \<in> set rob. \<not> uo_completed v \<and> p \<in> outs k v" if p: "pend rf' k p" for k p
    using rob_invD(6) [OF w(2), of k p] p r(3) w(4) by auto
  moreover have "no_pending rf' v" if "v \<in> set rob" "uo_ready v" for v
    using rob_invD(7) [OF w(2), of v] that r(3) unfolding no_pending_def by simp
  moreover have "big_enough rf'" using rob_invD(8) [OF w(2)] r(5) by (simp add: big_enough_def)
  ultimately have "rob_inv t R rf' rob"
    using r(2,4) rob_invD(3,4) [OF I] undo unfolding rob_inv_def top by simp
  then show thesis using that [OF w(1) r(1)] r(3,5) w(5,6) by simp
qed

text \<open>Recovery squashes the longest speculative end of the reorder buffer.\<close>

lemma recover_run:
  assumes "rob_inv t R rf rob"
  obtains rf' n where "recover_rob rf rob = Some (rf', take n rob)" "n \<le> length rob" "rob_inv t R rf' (take n rob)"
    "\<And>k p. pend rf' k p \<longleftrightarrow> pend rf k p \<and> (\<forall>v \<in> set (drop n rob). p \<notin> outs k v)"
    "\<And>k. rc_local_size (class_at k rf') = rc_local_size (class_at k rf)"
    "\<And>v. v \<in> set (drop n rob) \<Longrightarrow> uo_speculative_mode v" "0 < n \<Longrightarrow> \<not> uo_speculative_mode (rob ! (n - 1))"
  using assms
proof (induction rob arbitrary: rf thesis rule: rev_induct)
  case Nil
  then show ?case by (simp add: recover_rob.simps [of rf "[]"])
next
  case (snoc u rob)
  show ?case
  proof (cases "uo_speculative_mode u")
    case False
    then have "recover_rob rf (rob @ [u]) = Some (rf, take (length (rob @ [u])) (rob @ [u]))"
      by (simp add: recover_rob.simps [of rf "rob @ [u]"])
    then show ?thesis using snoc.prems False by (intro snoc.prems(1) [of rf "length (rob @ [u])"]) simp_all
  next
    case True
    obtain rf1 rf2 where s: "(if \<not> uo_completed u then WriteUop rf u else Some rf) = Some rf1" "UndoUop rf1 u = Some rf2" "rob_inv t R rf2 rob"
      "\<And>k p. pend rf2 k p \<longleftrightarrow> pend rf k p \<and> p \<notin> outs k u" "\<And>k. rc_local_size (class_at k rf2) = rc_local_size (class_at k rf)"
      using squash_step [OF snoc.prems(2) True] by metis
    obtain rf' n where n: "recover_rob rf2 rob = Some (rf', take n rob)" "n \<le> length rob" "rob_inv t R rf' (take n rob)"
      "\<And>k p. pend rf' k p \<longleftrightarrow> pend rf2 k p \<and> (\<forall>v \<in> set (drop n rob). p \<notin> outs k v)"
      "\<And>k. rc_local_size (class_at k rf') = rc_local_size (class_at k rf2)"
      "\<And>v. v \<in> set (drop n rob) \<Longrightarrow> uo_speculative_mode v" "0 < n \<Longrightarrow> \<not> uo_speculative_mode (rob ! (n - 1))"
      using snoc.IH [OF _ s(3)] by metis
    have "recover_rob rf (rob @ [u]) = Some (rf', take n (rob @ [u]))"
      using True s(1,2) n(1,2) by (simp add: recover_rob.simps [of rf "rob @ [u]"])
    then show ?thesis
      by (rule snoc.prems(1) [of rf' n]) (use n s(4,5) True in \<open>auto simp: nth_append\<close>)
  qed
qed

end
