(* ===== verification/SimRename.thy ===== *)
theory SimRename
  imports SimRegisterFileClient
begin

text \<open>
  The pipeline of a thread as the client of its register file: the calls that \<^verbatim>\<open>ThreadDispatch.cc\<close>,
  \<^verbatim>\<open>ThreadIssue.cc\<close>, \<^verbatim>\<open>Core::Writeback\<close>, \<^verbatim>\<open>ThreadCommit.cc\<close> and \<^verbatim>\<open>ThreadRecover.cc\<close> make of it, in any order that
  these stages can produce, and what holds in every state that they reach.
\<close>

section \<open>The steps of the pipeline\<close>

text \<open>
  \<^verbatim>\<open>Thread::canCommit\<close>, without its check for a stall: a store only has to be ready, every other uop has to be completed.
\<close>

definition canCommit :: "register_file \<Rightarrow> uop list \<Rightarrow> (bool \<times> uop list) option" where
  "canCommit rf rob = (case rob of [] \<Rightarrow> Some (False, [])
    | u # us \<Rightarrow> if ui_opcode (uo_uinst u) = OpcodeStore then map_option (\<lambda>(ok, u). (ok, u # us)) (isUopReady rf u)
        else Some (uo_completed u, u # us))"

text \<open>The counters of the core after steps of its other threads.\<close>

definition with_core :: "(rclass \<Rightarrow> int) \<Rightarrow> register_file \<Rightarrow> register_file" where
  "with_core core rf = rf\<lparr>rf_int := (rf_int rf)\<lparr>rc_core := core RInt\<rparr>, rf_fp := (rf_fp rf)\<lparr>rc_core := core RFp\<rparr>,
     rf_xmm := (rf_xmm rf)\<lparr>rc_core := core RXmm\<rparr>\<rparr>"

text \<open>
  Stores of the emulator have no output register, with one exception that is left out here: the store of \<^verbatim>\<open>cmpxchg8b\<close>,
  whose memory operand is also turned into a second store, with a register between the two.
\<close>

definition store_ok :: "uinst \<Rightarrow> bool" where
  "store_ok ui \<longleftrightarrow> (ui_opcode ui = OpcodeStore \<longrightarrow> (\<forall>dep \<in> set (drop MaxIDeps (ui_dep ui)). \<not> isValidDependency dep))"

text \<open>
  The state is the register file, the reorder buffer, oldest uop first, and the loads that have left the reorder
  buffer but not the memory system. A recovery empties the event queue of squashed uops, but an access to
  memory goes on, and \<^verbatim>\<open>Cpu::MemoryAccessHandler\<close> puts its uop into the event queue at its end, squashed or not; \<open>late\<close>
  says whether this can happen.
\<close>

inductive rf_reach :: "rf_kind \<Rightarrow> bool \<Rightarrow> register_file \<Rightarrow> uop list \<Rightarrow> uop list \<Rightarrow> bool" for kind late where
  start: "ParseConfiguration kind a b c n = Inr sizes \<Longrightarrow> 1 \<le> n \<Longrightarrow> (\<And>k. 0 \<le> core k) \<Longrightarrow> RegisterFile sizes core junk = Some rf \<Longrightarrow>
    rf_reach kind late rf [] []"
| other_threads: "rf_reach kind late rf rob gone \<Longrightarrow> (\<And>k. rc_occupied (class_at k rf) \<le> core k) \<Longrightarrow>
    rf_reach kind late (with_core core rf) rob gone"
| dispatch: "rf_reach kind late rf rob gone \<Longrightarrow> length (ui_dep ui) = MaxDeps \<Longrightarrow> store_ok ui \<Longrightarrow> uop_create ui spec = Some u \<Longrightarrow>
    canRename kind rf u \<Longrightarrow> Rename rf u = Some (rf', u') \<Longrightarrow> rf_reach kind late rf' (rob @ [u']) gone"
| issue: "rf_reach kind late rf rob gone \<Longrightarrow> i < length rob \<Longrightarrow> isUopReady rf (rob ! i) = Some (ok, u) \<Longrightarrow>
    rf_reach kind late rf (rob[i := u]) gone"
| writeback: "rf_reach kind late rf rob gone \<Longrightarrow> i < length rob \<Longrightarrow> uo_ready (rob ! i) \<Longrightarrow> \<not> uo_completed (rob ! i) \<Longrightarrow>
    WriteUop rf (rob ! i) = Some rf' \<Longrightarrow> rf_reach kind late rf' (rob[i := (rob ! i)\<lparr>uo_completed := True\<rparr>]) gone"
| writeback_late: "rf_reach kind late rf rob gone \<Longrightarrow> late \<Longrightarrow> v \<in> set gone \<Longrightarrow> WriteUop rf v = Some rf' \<Longrightarrow>
    rf_reach kind late rf' rob (remove1 v gone)"
| commit: "rf_reach kind late rf rob gone \<Longrightarrow> canCommit rf rob = Some (True, u # rob') \<Longrightarrow> \<not> uo_speculative_mode u \<Longrightarrow>
    CommitUop rf u = Some rf' \<Longrightarrow> rf_reach kind late rf' rob' gone"
| recover: "rf_reach kind late rf rob gone \<Longrightarrow> recover_rob rf rob = Some (rf', rob') \<Longrightarrow> rf_reach kind late rf' rob'
    (gone @ filter (\<lambda>v. ui_opcode (uo_uinst v) = OpcodeLoad \<and> uo_ready v \<and> \<not> uo_completed v) (drop (length rob') rob))"

section \<open>The invariant of the reachable states\<close>

definition gone_ok :: "register_file \<Rightarrow> uop list \<Rightarrow> bool" where
  "gone_ok rf gone \<longleftrightarrow> (\<forall>v \<in> set gone. uop_shape v \<and> (\<forall>k. \<forall>p \<in> outs k v. in_range (class_at k rf) p))"

definition outputs_pending :: "register_file \<Rightarrow> uop list \<Rightarrow> bool" where
  "outputs_pending rf rob \<longleftrightarrow> (\<forall>u \<in> set rob. \<not> uo_completed u \<longrightarrow> (\<forall>k. \<forall>p \<in> outs k u. pend rf k p))"

lemma in_range_size: "rc_local_size c' = rc_local_size c \<Longrightarrow> in_range c' = in_range c"
  by (simp add: in_range_def fun_eq_iff)

lemma gone_ok_size:
  assumes "gone_ok rf gone" "\<And>k. rc_local_size (class_at k rf') = rc_local_size (class_at k rf)"
  shows "gone_ok rf' gone"
  using assms(1) in_range_size [OF assms(2)] by (simp add: gone_ok_def)

lemma class_at_core [simp]: "class_at k (with_core core rf) = (class_at k rf)\<lparr>rc_core := core k\<rparr>" "rf_top (with_core core rf) = rf_top rf"
  by (cases k) (simp_all add: with_core_def class_at_def)

lemma books_core:
  assumes "books c B X" "rc_occupied c \<le> x"
  shows "books (c\<lparr>rc_core := x\<rparr>) B X"
proof -
  have same: "in_range (c\<lparr>rc_core := x\<rparr>) = in_range c" "free_list (c\<lparr>rc_core := x\<rparr>) = free_list c"
    "pending_at (c\<lparr>rc_core := x\<rparr>) = pending_at c"
    by (simp_all add: in_range_def free_list_def pending_at_def fun_eq_iff)
  show ?thesis using assms unfolding books_def same by simp
qed

lemma rob_inv_core:
  assumes "rob_inv t R rf rob" "\<And>k. rc_occupied (class_at k rf) \<le> core k"
  shows "rob_inv t R (with_core core rf) rob" "pend (with_core core rf) = pend rf"
proof -
  show p: "pend (with_core core rf) = pend rf" by (simp add: pend_def pending_at_def in_range_def fun_eq_iff)
  have "class_inv (class_at k (with_core core rf)) (R k) (in_flight k t rob) {}" for k
    using file_invD(1) [OF rob_invD(1) [OF assms(1)], of k] books_core [OF _ assms(2)] by (simp add: class_inv_def)
  then have "file_inv (with_core core rf) R (\<lambda>k. in_flight k t rob) (\<lambda>_. {})"
    using file_invD(2,4,5) [OF rob_invD(1) [OF assms(1)]] by (simp add: file_inv_def)
  then show "rob_inv t R (with_core core rf) rob"
    using assms(1) unfolding rob_inv_def no_pending_def p big_enough_def by simp
qed

lemma late_step:
  assumes I: "rob_inv t R rf rob" and v: "uop_shape v" "\<And>k p. p \<in> outs k v \<Longrightarrow> in_range (class_at k rf) p"
  obtains rf' where "WriteUop rf v = Some rf'" "rob_inv t R rf' rob" "\<And>k. rc_local_size (class_at k rf') = rc_local_size (class_at k rf)"
proof -
  have rg: "in_range (class_at k rf) p" if "p \<in> news (all_moves k t v)" for k p using v(2) that by simp
  obtain rf' where r: "WriteUop rf v = Some rf'" "file_inv rf' R (\<lambda>k. in_flight k t rob) (\<lambda>_. {})"
    "\<And>k p. pend rf' k p \<longleftrightarrow> pend rf k p \<and> p \<notin> news (all_moves k t v)" "rf_top rf' = rf_top rf"
    "\<And>k. rc_local_size (class_at k rf') = rc_local_size (class_at k rf)"
    by (rule WriteUop_run [OF rob_invD(1) [OF I] v(1) rg]) (assumption, rule that)
  have "rob_inv t R rf' rob"
    using I r unfolding rob_inv_def no_pending_def by (auto simp: big_enough_def)
  then show thesis using that r(1,5) by blast
qed

lemma rename_ok:
  assumes I: "rob_inv t R rf rob" and u: "length (ui_dep ui) = MaxDeps" "store_ok ui" "uop_create ui spec = Some u" "canRename kind rf u"
  obtains rf' u' where "Rename rf u = Some (rf', u')" "rob_inv t R rf' (rob @ [u'])" "uo_uinst u' = ui" "uo_speculative_mode u' = spec"
    "\<And>k p. pend rf' k p \<longleftrightarrow> pend rf k p \<or> p \<in> outs k u'" "\<not> uo_completed u'"
    "\<And>k p. p \<in> outs k u' \<Longrightarrow> \<not> pend rf k p" "\<And>k. rc_local_size (class_at k rf') = rc_local_size (class_at k rf)"
proof -
  have len: "length (ui_dep ui) = 7" using u(1) by (simp add: MaxDeps_def MaxIDeps_def MaxODeps_def)
  obtain v where v: "uop_create ui spec = Some v" "uop_shape v" "uo_uinst v = ui" "uo_speculative_mode v = spec" "\<not> uo_ready v"
    "\<not> uo_completed v" "counts_ok v" by (rule uop_create_run [OF len])
  have uv: "u = v" using u(3) v(1) by simp
  have st: "dep_class (odep u d) = None" if "ui_opcode (uo_uinst u) = OpcodeStore" "d < 4" for d
  proof -
    have "odep u d \<in> set (drop MaxIDeps (ui_dep ui))" using len that(2) v(3) uv by (auto simp: odep_def MaxIDeps_def in_set_conv_nth intro!: exI [of _ d])
    then show ?thesis using u(2) that(1) v(3) uv by (auto simp: store_ok_def isValidDependency_def dep_class_def)
  qed
  show thesis using rename_step [OF I, of u kind] v st u(4) that unfolding uv by metis
qed

lemma commit_ready:
  assumes I: "rob_inv t R rf rob" and c: "canCommit rf rob = Some (True, u # rob')"
  shows "rob_inv t R rf (u # rob')" "uo_completed u \<or> ui_opcode (uo_uinst u) = OpcodeStore"
    "erase u = erase (hd rob)" "uo_completed u = uo_completed (hd rob)" "rob' = tl rob" "rob \<noteq> []"
proof -
  obtain v us where rob: "rob = v # us" using c by (cases rob) (auto simp: canCommit_def)
  have "(rob_inv t R rf (u # rob') \<and> (uo_completed u \<or> ui_opcode (uo_uinst u) = OpcodeStore)) \<and> erase u = erase v \<and>
      uo_completed u = uo_completed v \<and> rob' = us"
  proof (cases "ui_opcode (uo_uinst v) = OpcodeStore")
    case True
    then have r: "isUopReady rf v = Some (True, u)" "rob' = us" using c rob by (auto simp: canCommit_def)
    moreover obtain u' where "isUopReady rf v = Some (no_pending rf v, u')" "rob_inv t R rf (u' # us)"
      using ready_run [OF I, of 0] rob by auto
    moreover have "u = v \<or> u = v\<lparr>uo_ready := True\<rparr>" using r(1) by (auto simp: isUopReady_def Option.bind_eq_Some_conv split: if_splits)
    ultimately show ?thesis using True by (auto simp: erase_def)
  next
    case False
    then show ?thesis using c rob I by (auto simp: canCommit_def)
  qed
  then show "rob_inv t R rf (u # rob')" "uo_completed u \<or> ui_opcode (uo_uinst u) = OpcodeStore"
    "erase u = erase (hd rob)" "uo_completed u = uo_completed (hd rob)" "rob' = tl rob" "rob \<noteq> []" by (auto simp: rob)
qed

text \<open>What a state promises: its loads out of the reorder buffer are sound, and outputs are pending until they are written.\<close>

definition state_ok :: "bool \<Rightarrow> register_file \<Rightarrow> uop list \<Rightarrow> uop list \<Rightarrow> bool" where
  "state_ok late rf rob gone \<longleftrightarrow> (\<exists>t R. rob_inv t R rf rob) \<and> gone_ok rf gone \<and> (late \<or> outputs_pending rf rob)"

lemma state_okI: "rob_inv t R rf rob \<Longrightarrow> gone_ok rf gone \<Longrightarrow> late \<or> outputs_pending rf rob \<Longrightarrow> state_ok late rf rob gone"
  unfolding state_ok_def by blast

lemma state_okE:
  assumes "state_ok late rf rob gone"
  obtains t R where "rob_inv t R rf rob" "gone_ok rf gone" "late \<or> outputs_pending rf rob"
  using assms unfolding state_ok_def by blast

lemma outputs_pending_step:
  assumes "outputs_pending rf rob" "\<And>u. u \<in> set rob' \<Longrightarrow> \<not> uo_completed u \<Longrightarrow> \<exists>v \<in> set rob. \<not> uo_completed v \<and>
      (\<forall>k. \<forall>p \<in> outs k u. p \<in> outs k v \<and> (pend rf k p \<longrightarrow> pend rf' k p))"
  shows "outputs_pending rf' rob'"
  using assms unfolding outputs_pending_def by metis

lemma reach_dispatch:
  assumes ok: "state_ok late rf rob gone"
    and u: "length (ui_dep ui) = MaxDeps" "store_ok ui" "uop_create ui spec = Some u" "canRename kind rf u" "Rename rf u = Some (rf', u')"
  shows "state_ok late rf' (rob @ [u']) gone"
proof -
  obtain t R where I: "rob_inv t R rf rob" "gone_ok rf gone" "late \<or> outputs_pending rf rob" by (rule state_okE [OF ok])
  obtain rf2 u2 where r: "Rename rf u = Some (rf2, u2)" "rob_inv t R rf2 (rob @ [u2])" "\<And>k p. pend rf2 k p \<longleftrightarrow> pend rf k p \<or> p \<in> outs k u2"
    "\<And>k. rc_local_size (class_at k rf2) = rc_local_size (class_at k rf)"
    using rename_ok [OF I(1) u(1-4)] by metis
  have e: "rf2 = rf'" "u2 = u'" using r(1) u(5) by simp_all
  have "late \<or> outputs_pending rf' (rob @ [u'])" using I(3) r(3) unfolding outputs_pending_def e by auto
  then show ?thesis using state_okI [OF r(2) gone_ok_size [OF I(2) r(4)]] unfolding e by blast
qed

lemma reach_issue:
  assumes ok: "state_ok late rf rob gone" and i: "i < length rob" "isUopReady rf (rob ! i) = Some (b, u)"
  shows "state_ok late rf (rob[i := u]) gone"
proof -
  obtain t R where I: "rob_inv t R rf rob" "gone_ok rf gone" "late \<or> outputs_pending rf rob" by (rule state_okE [OF ok])
  obtain u' where u': "isUopReady rf (rob ! i) = Some (no_pending rf (rob ! i), u')" "rob_inv t R rf (rob[i := u'])"
    by (rule ready_run [OF I(1) i(1)])
  have "u = rob ! i \<or> u = (rob ! i)\<lparr>uo_ready := True\<rparr>" using i(2) by (auto simp: isUopReady_def Option.bind_eq_Some_conv split: if_splits)
  then have same: "uo_completed u = uo_completed (rob ! i)" "outs k u = outs k (rob ! i)" for k
    using erase_same(1) [of u "rob ! i" k] by (auto simp: erase_def)
  have "outputs_pending rf (rob[i := u])" if op: "outputs_pending rf rob"
  proof (rule outputs_pending_step [OF op])
    fix v assume v: "v \<in> set (rob[i := u])" "\<not> uo_completed v"
    then show "\<exists>w \<in> set rob. \<not> uo_completed w \<and> (\<forall>k. \<forall>p \<in> outs k v. p \<in> outs k w \<and> (pend rf k p \<longrightarrow> pend rf k p))"
    proof (cases "v = u")
      case True
      then show ?thesis using same v(2) nth_mem [OF i(1)] by auto
    next
      case False
      then have "v \<in> set rob" using v(1) set_update_subset_insert by fast
      then show ?thesis using v(2) by blast
    qed
  qed
  then show ?thesis using state_okI [OF u'(2) I(2)] I(3) i(2) u'(1) by auto
qed

lemma reach_writeback:
  assumes ok: "state_ok late rf rob gone" and i: "i < length rob" "WriteUop rf (rob ! i) = Some rf'"
  shows "state_ok late rf' (rob[i := (rob ! i)\<lparr>uo_completed := True\<rparr>]) gone"
proof -
  obtain t R where I: "rob_inv t R rf rob" "gone_ok rf gone" "late \<or> outputs_pending rf rob" by (rule state_okE [OF ok])
  obtain rf2 where r: "WriteUop rf (rob ! i) = Some rf2" "rob_inv t R rf2 (rob[i := (rob ! i)\<lparr>uo_completed := True\<rparr>])"
    "\<And>k p. pend rf2 k p \<longleftrightarrow> pend rf k p \<and> p \<notin> outs k (rob ! i)" "\<And>k. rc_local_size (class_at k rf2) = rc_local_size (class_at k rf)"
    using write_step [OF I(1) i(1)] by metis
  have e: "rf2 = rf'" using r(1) i(2) by simp
  have "outputs_pending rf' (rob[i := (rob ! i)\<lparr>uo_completed := True\<rparr>])" if op: "outputs_pending rf rob"
  proof (rule outputs_pending_step [OF op])
    fix v assume v: "v \<in> set (rob[i := (rob ! i)\<lparr>uo_completed := True\<rparr>])" "\<not> uo_completed v"
    then obtain j where j: "j < length rob" "v = rob[i := (rob ! i)\<lparr>uo_completed := True\<rparr>] ! j" by (auto simp: in_set_conv_nth)
    have ne: "j \<noteq> i" using v(2) i(1) unfolding j(2) by auto
    then have v': "v = rob ! j" using j(2) by simp
    have "outs k (rob ! i) \<inter> outs k v = {}" for k
      using outs_disjoint [OF I(1), of i j k] outs_disjoint [OF I(1), of j i k] i(1) j(1) ne v' by (cases "i < j") auto
    then show "\<exists>w \<in> set rob. \<not> uo_completed w \<and> (\<forall>k. \<forall>p \<in> outs k v. p \<in> outs k w \<and> (pend rf k p \<longrightarrow> pend rf' k p))"
      using r(3) v(2) j(1) v' unfolding e by (intro bexI [of _ v]) auto
  qed
  then show ?thesis using state_okI [OF r(2) gone_ok_size [OF I(2) r(4)]] I(3) unfolding e by blast
qed

lemma reach_late:
  assumes ok: "state_ok late rf rob gone" and v: "late" "v \<in> set gone" "WriteUop rf v = Some rf'"
  shows "state_ok late rf' rob (remove1 v gone)"
proof -
  obtain t R where I: "rob_inv t R rf rob" "gone_ok rf gone" by (rule state_okE [OF ok])
  have g: "uop_shape v" "p \<in> outs k v \<Longrightarrow> in_range (class_at k rf) p" for k p using I(2) v(2) unfolding gone_ok_def by blast+
  obtain rf2 where r: "WriteUop rf v = Some rf2" "rob_inv t R rf2 rob" "\<And>k. rc_local_size (class_at k rf2) = rc_local_size (class_at k rf)"
    by (rule late_step [OF I(1) g]) (assumption, rule that)
  have "gone_ok rf' gone" using gone_ok_size [OF I(2) r(3)] r(1) v(3) by simp
  then have "gone_ok rf' (remove1 v gone)" unfolding gone_ok_def by (meson notin_set_remove1)
  then show ?thesis using state_okI [of t R rf' rob] r(1,2) v(1,3) by simp
qed

lemma reach_commit:
  assumes ok: "state_ok late rf rob gone" and c: "canCommit rf rob = Some (True, u # rob')" "\<not> uo_speculative_mode u" "CommitUop rf u = Some rf'"
  shows "state_ok late rf' rob' gone"
proof -
  obtain t R where I: "rob_inv t R rf rob" "gone_ok rf gone" "late \<or> outputs_pending rf rob" by (rule state_okE [OF ok])
  note h = commit_ready [OF I(1) c(1)]
  obtain rf2 t' R' where r: "CommitUop rf u = Some rf2" "rob_inv t' R' rf2 rob'" "pend rf2 = pend rf"
    "\<And>k. rc_local_size (class_at k rf2) = rc_local_size (class_at k rf)"
    using commit_step [OF h(1) c(2) h(2)] by metis
  have e: "rf2 = rf'" using r(1) c(3) by simp
  have "outputs_pending rf' rob'" if "outputs_pending rf rob"
    using that r(3) list.set_sel(2) [OF h(6)] unfolding outputs_pending_def e h(5) by auto
  then show ?thesis using state_okI [OF r(2) gone_ok_size [OF I(2) r(4)]] I(3) unfolding e by blast
qed

lemma reach_recover:
  assumes ok: "state_ok late rf rob gone" and c: "recover_rob rf rob = Some (rf', rob')"
  shows "state_ok late rf' rob' (gone @ filter P (drop (length rob') rob))"
proof -
  obtain t R where I: "rob_inv t R rf rob" "gone_ok rf gone" "late \<or> outputs_pending rf rob" by (rule state_okE [OF ok])
  obtain rf2 n where r: "recover_rob rf rob = Some (rf2, take n rob)" "n \<le> length rob" "rob_inv t R rf2 (take n rob)"
    "\<And>k p. pend rf2 k p \<longleftrightarrow> pend rf k p \<and> (\<forall>v \<in> set (drop n rob). p \<notin> outs k v)"
    "\<And>k. rc_local_size (class_at k rf2) = rc_local_size (class_at k rf)"
    using recover_run [OF I(1)] by metis
  have e: "rf2 = rf'" "rob' = take n rob" using r(1) c by simp_all
  have sub: "gone_ok rf gone'" if "set gone' \<subseteq> set gone \<union> set rob" for gone'
    using that I(2) outs_in_range [OF I(1)] rob_invD(4) [OF I(1)] unfolding gone_ok_def uop_ok_def by blast
  have g: "gone_ok rf (gone @ filter P (drop (length rob') rob))" by (rule sub) (auto dest: in_set_dropD)
  have "outputs_pending rf' rob'" if op: "outputs_pending rf rob"
  proof (rule outputs_pending_step [OF op])
    fix u assume u: "u \<in> set rob'" "\<not> uo_completed u"
    then obtain i where i: "i < n" "u = rob ! i" using r(2) unfolding e by (auto simp: in_set_conv_nth)
    have "outs k u \<inter> outs k v = {}" if vd: "v \<in> set (drop n rob)" for k v
    proof -
      obtain j where "j < length (drop n rob)" "v = drop n rob ! j" using vd unfolding in_set_conv_nth by blast
      then show ?thesis using outs_disjoint [OF I(1), of i "n + j" k] i r(2) by simp
    qed
    then show "\<exists>w \<in> set rob. \<not> uo_completed w \<and> (\<forall>k. \<forall>p \<in> outs k u. p \<in> outs k w \<and> (pend rf k p \<longrightarrow> pend rf' k p))"
      using r(2,4) u(2) i unfolding e by (intro bexI [of _ u]) (auto intro!: nth_mem)
  qed
  then show ?thesis using state_okI [OF r(3) gone_ok_size [OF g r(5)]] I(3) unfolding e by blast
qed

lemma reach_inv: "rf_reach kind late rf rob gone \<Longrightarrow> state_ok late rf rob gone"
proof (induction rule: rf_reach.induct)
  case (start a b c n sizes core junk rf)
  obtain rf2 where r: "RegisterFile sizes core junk = Some rf2" "file_inv rf2 (rat rf2) (\<lambda>_. []) (\<lambda>_. {})" "big_enough rf2"
    "\<And>k p. \<not> pend rf2 k p" "rf_top rf2 = 0"
    by (rule RegisterFile_run [OF start(1,2), where core = core and junk = junk]) (rule start(3), rule that)
  have "rf = rf2" using r(1) start(4) by simp
  moreover have "gone_ok rf2 []" "outputs_pending rf2 []" by (simp_all add: gone_ok_def outputs_pending_def)
  ultimately show ?case using state_okI [OF rob_inv_start [OF r(2,5,4,3)], of "[]" late] by blast
next
  case (other_threads rf rob gone core)
  obtain t R where I: "rob_inv t R rf rob" "gone_ok rf gone" "late \<or> outputs_pending rf rob" by (rule state_okE [OF other_threads(3)])
  note s = rob_inv_core [OF I(1) other_threads(2)]
  have "outputs_pending (with_core core rf) rob = outputs_pending rf rob" unfolding outputs_pending_def s(2) ..
  moreover have "gone_ok (with_core core rf) gone" by (rule gone_ok_size [OF I(2)]) simp
  ultimately show ?case using state_okI [OF s(1), of gone late] I(3) by simp
next
  case (dispatch rf rob gone ui spec u rf' u')
  show ?case by (rule reach_dispatch [OF dispatch(7,2-6)])
next
  case (issue rf rob gone i ok u)
  show ?case by (rule reach_issue [OF issue(4,2,3)])
next
  case (writeback rf rob gone i rf')
  show ?case by (rule reach_writeback [OF writeback(6,2,5)])
next
  case (writeback_late rf rob gone v rf')
  show ?case by (rule reach_late [OF writeback_late(5,2,3,4)])
next
  case (commit rf rob gone u rob' rf')
  show ?case by (rule reach_commit [OF commit(5,2,3,4)])
next
  case (recover rf rob gone rf' rob')
  show ?case by (rule reach_recover [OF recover(3,2)])
qed

end
