(* ===== verification/SimRenameLaws.thy ===== *)
theory SimRenameLaws
  imports SimRename
begin

text \<open>What holds in every state that a thread's pipeline reaches: the laws of register renaming.\<close>

section \<open>Dispatch, and a small run\<close>

text \<open>
  The part of \<^verbatim>\<open>Thread::Dispatch\<close> that concerns registers and the reorder buffer, for a uop just fetched; \<^term>\<open>None\<close> if it has to wait.
\<close>

definition dispatch_one :: "rf_kind \<Rightarrow> bool \<Rightarrow> uinst \<Rightarrow> register_file \<times> uop list \<Rightarrow> (register_file \<times> uop list) option" where
  "dispatch_one kind spec ui s = (let (rf, rob) = s in do {
     u \<leftarrow> uop_create ui spec;
     c_assert (canRename kind rf u);
     (rf, u) \<leftarrow> Rename rf u;
     Some (rf, rob @ [u]) })"

lemma reach_dispatch_one:
  assumes "rf_reach kind late rf rob gone" "length (ui_dep ui) = MaxDeps" "store_ok ui" "dispatch_one kind spec ui (rf, rob) = Some (rf', rob')"
  shows "rf_reach kind late rf' rob' gone"
  using assms(4) rf_reach.dispatch [OF assms(1-3)]
  by (auto simp: dispatch_one_def Option.bind_eq_Some_conv c_assert_def split: if_splits)

text \<open>Renaming of a sequence of uops on a wrong path.\<close>

fun dispatch_all :: "rf_kind \<Rightarrow> uinst list \<Rightarrow> register_file \<times> uop list \<Rightarrow> (register_file \<times> uop list) option" where
  "dispatch_all kind [] s = Some s"
| "dispatch_all kind (ui # uis) s = do { s \<leftarrow> dispatch_one kind True ui s; dispatch_all kind uis s }"

text \<open>A load, a multiplication and an addition on integer registers, on the smallest register file.\<close>

definition load_uinst :: uinst where
  "load_uinst = \<lparr>ui_opcode = OpcodeLoad, ui_dep = [21, 0, 0, 1, 0, 0, 0]\<rparr>"

definition mult_uinst :: uinst where
  "mult_uinst = \<lparr>ui_opcode = OpcodeMult, ui_dep = [2, 0, 0, 1, 0, 0, 0]\<rparr>"

definition add_uinst :: uinst where
  "add_uinst = \<lparr>ui_opcode = OpcodeAdd, ui_dep = [1, 0, 0, 2, 15, 0, 0]\<rparr>"

definition small_file :: "register_file option" where
  "small_file = RegisterFile (26, 15, 13) (\<lambda>_. 0) (\<lambda>_ _. 0)"

definition two_uops :: "register_file \<Rightarrow> (register_file \<times> uop list) option" where
  "two_uops rf = do { s \<leftarrow> dispatch_one KindPrivate False mult_uinst (rf, []); dispatch_one KindPrivate False add_uinst s }"

lemma small_uinsts:
  "length (ui_dep load_uinst) = MaxDeps" "length (ui_dep mult_uinst) = MaxDeps" "length (ui_dep add_uinst) = MaxDeps"
  "store_ok load_uinst" "store_ok mult_uinst" "store_ok add_uinst"
  by (simp_all add: load_uinst_def mult_uinst_def add_uinst_def MaxDeps_def MaxIDeps_def MaxODeps_def store_ok_def)

lemma small_file_reach:
  obtains rf where "small_file = Some rf" "rf_reach KindPrivate late rf [] []"
proof -
  have p: "ParseConfiguration KindPrivate 26 15 13 1 = Inr (26, 15, 13)" by code_simp
  obtain rf where rf: "RegisterFile (26, 15, 13) (\<lambda>_. 0) (\<lambda>_ _. 0) = Some rf"
    by (rule RegisterFile_run [OF p, where core = "\<lambda>_. 0" and junk = "\<lambda>_ _. 0"]) (simp, simp, rule that)
  have "rf_reach KindPrivate late rf [] []" by (rule rf_reach.start [OF p _ _ rf]) simp_all
  then show thesis using that rf unfolding small_file_def by blast
qed

lemma two_uops_reach:
  assumes "rf_reach KindPrivate late rf [] gone" "two_uops rf = Some (rf', rob)"
  shows "rf_reach KindPrivate late rf' rob gone"
proof -
  obtain s where s: "dispatch_one KindPrivate False mult_uinst (rf, []) = Some s" "dispatch_one KindPrivate False add_uinst s = Some (rf', rob)"
    using assms(2) by (auto simp: two_uops_def Option.bind_eq_Some_conv)
  obtain rf1 rob1 where e: "s = (rf1, rob1)" by (cases s)
  show ?thesis
    by (rule reach_dispatch_one [OF reach_dispatch_one [OF assms(1) small_uinsts(2,5) s(1) [unfolded e]] small_uinsts(3,6) s(2) [unfolded e]])
qed

lemma small_run:
  obtains rf rob where "small_file \<bind> two_uops = Some (rf, rob)" "rf_reach KindPrivate late rf rob []" "length rob = 2"
    "uo_inputs (rob ! 1) ! 0 = 7" "idep (rob ! 1) 0 = 1" "\<not> uo_speculative_mode (last rob)"
    "dispatch_all KindPrivate [load_uinst, add_uinst] (rf, rob) \<noteq> None"
proof -
  have r: "small_file \<bind> two_uops \<bind> (\<lambda>(rf, rob). Some (length rob, uo_inputs (rob ! 1) ! 0, idep (rob ! 1) 0, uo_speculative_mode (last rob),
      Option.is_none (dispatch_all KindPrivate [load_uinst, add_uinst] (rf, rob)))) = Some (2, 7, 1, False, False)"
    by code_simp
  obtain rf0 where rf0: "small_file = Some rf0" "rf_reach KindPrivate late rf0 [] []" by (rule small_file_reach)
  from r obtain rf rob where e: "small_file \<bind> two_uops = Some (rf, rob)" by (cases "small_file \<bind> two_uops") auto
  have f: "length rob = 2" "uo_inputs (rob ! 1) ! 0 = 7" "idep (rob ! 1) 0 = 1" "\<not> uo_speculative_mode (last rob)"
    "dispatch_all KindPrivate [load_uinst, add_uinst] (rf, rob) \<noteq> None"
    using r unfolding e by (simp_all add: Option.is_none_def del: dispatch_all.simps)
  have "two_uops rf0 = Some (rf, rob)" using e by (simp add: rf0(1))
  then show thesis by (rule that [OF e two_uops_reach [OF rf0(2)] f])
qed

section \<open>No assertion fails\<close>

lemma check_free_run:
  assumes b: "books c B {}"
  shows "for_loop 0 (nat (rc_num_free c)) (check_free c) () = Some ()"
proof -
  have "\<exists>s. for_loop 0 (nat (rc_num_free c)) (check_free c) () = Some s \<and> True"
  proof (rule for_loop_rule)
    fix i s assume i: "i < nat (rc_num_free c)"
    then have len: "i < length (rc_free c)" using booksD(2,4) [OF b] by simp
    let ?p = "rc_free c ! i"
    have "?p = free_list c ! i" "i < length (free_list c)" using i len by (simp_all add: free_list_def)
    then have "?p \<in> set (free_list c)" by simp
    then have p: "in_range c ?p" "B ?p = 0" using booksD(12) [OF b] by auto
    have "\<not> pr_pending (rc_registers c ! nat ?p)" using booksD(8) [OF b, of ?p] p by (auto simp: pending_at_def)
    then show "\<exists>s'. check_free c i s = Some s' \<and> True"
      using len booksD(7) [OF b p(1)] p(2) by (simp add: check_free_def register_at_run [OF b p(1)])
  qed simp_all
  then show ?thesis by simp
qed

lemma check_mapped_run:
  assumes I: "class_inv c R E {}"
  shows "for_loop 0 (length R) (check_mapped c) () = Some ()"
proof -
  note b = class_invD(1) [OF I]
  have "\<exists>s. for_loop 0 (length R) (check_mapped c) () = Some s \<and> True"
  proof (rule for_loop_rule)
    fix i s assume i: "i < length R"
    then have len: "i < length (rc_rat c)" using class_invD(2) [OF I] by simp
    let ?p = "rc_rat c ! i"
    have u: "0 < uses (rc_rat c) E ?p" by (rule used(3) [OF I]) (simp add: len)
    have p: "in_range c ?p" by (rule booksD(9) [OF b u])
    then show "\<exists>s'. check_mapped c i s = Some s' \<and> True"
      using len u booksD(7) [OF b p] by (simp add: check_mapped_def register_at_run [OF b p])
  qed simp_all
  then show ?thesis by simp
qed

lemma CheckRegisterFile_run:
  assumes F: "file_inv rf R E (\<lambda>_. {})"
  shows "CheckRegisterFile rf = Some ()"
proof -
  have f: "for_loop 0 (nat (rc_num_free (class_at k rf))) (check_free (class_at k rf)) () = Some ()" for k
    by (rule check_free_run [OF class_invD(1) [OF file_invD(1) [OF F]]])
  have m: "for_loop 0 (rat_size k) (check_mapped (class_at k rf)) () = Some ()" for k
    using check_mapped_run [OF file_invD(1) [OF F, of k]] file_invD(2) [OF F, of k] by simp
  show ?thesis
    using f [of RInt] f [of RFp] f [of RXmm] m [of RInt] m [of RFp] m [of RXmm]
    by (simp add: CheckRegisterFile_def class_at_def rat_size_def dep_defs)
qed

lemma create_some: "length (ui_dep ui) = MaxDeps \<Longrightarrow> \<exists>u. uop_create ui spec = Some u"
  using uop_create_run [of ui spec] by (auto simp: MaxDeps_def MaxIDeps_def MaxODeps_def)

lemma canCommit_some:
  assumes I: "rob_inv t R rf rob"
  shows "\<exists>ok rob'. canCommit rf rob = Some (ok, rob')"
proof (cases rob)
  case (Cons u us)
  then obtain u' where "isUopReady rf u = Some (no_pending rf u, u')" using ready_run [OF I, of 0] by fastforce
  then show ?thesis using Cons by (simp add: canCommit_def)
qed (auto simp: canCommit_def)

text \<open>
  C36: In every state that the pipeline of a thread reaches - any configuration, any order of renaming, issue, completion,
  commit and recovery, with other threads on the core - no assertion of the register file fails and no array is
  accessed out of its bounds: its self-check passes, \<^const>\<open>canRename\<close> is enough for \<^const>\<open>Rename\<close> to succeed, and so
  do the calls for readiness, completion, commit and recovery.
\<close>

theorem renaming_never_fails:
  assumes "rf_reach kind late rf rob gone"
  shows "CheckRegisterFile rf = Some () \<and>
    (\<forall>ui spec. length (ui_dep ui) = MaxDeps \<and> store_ok ui \<longrightarrow>
       (\<exists>u. uop_create ui spec = Some u \<and> (canRename kind rf u \<longrightarrow> Rename rf u \<noteq> None))) \<and>
    (\<forall>u \<in> set rob. isUopReady rf u \<noteq> None \<and> WriteUop rf u \<noteq> None) \<and> (\<forall>v \<in> set gone. WriteUop rf v \<noteq> None) \<and>
    (\<exists>ok rob'. canCommit rf rob = Some (ok, rob') \<and> (ok \<and> \<not> uo_speculative_mode (hd rob') \<longrightarrow> CommitUop rf (hd rob') \<noteq> None)) \<and>
    recover_rob rf rob \<noteq> None"
proof -
  obtain t R where I: "rob_inv t R rf rob" "gone_ok rf gone" by (rule state_okE [OF reach_inv [OF assms]])
  have "\<exists>u. uop_create ui spec = Some u \<and> (canRename kind rf u \<longrightarrow> Rename rf u \<noteq> None)"
    if ui: "length (ui_dep ui) = MaxDeps" "store_ok ui" for ui spec
    using create_some [OF ui(1), of spec] rename_ok [OF I(1) ui] by (metis option.distinct(1))
  moreover have "isUopReady rf u \<noteq> None \<and> WriteUop rf u \<noteq> None" if "u \<in> set rob" for u
    using that ready_run [OF I(1)] write_step [OF I(1)] by (metis in_set_conv_nth option.distinct(1))
  moreover have "WriteUop rf v \<noteq> None" if "v \<in> set gone" for v
    using that I(2) late_step [OF I(1)] unfolding gone_ok_def by (metis option.distinct(1))
  moreover obtain ok rob' where c: "canCommit rf rob = Some (ok, rob')" using canCommit_some [OF I(1)] by blast
  moreover have "CommitUop rf (hd rob') \<noteq> None" if ok: "ok" "\<not> uo_speculative_mode (hd rob')"
  proof -
    obtain u us where u: "rob' = u # us" using c ok(1) by (cases rob) (auto simp: canCommit_def split: if_splits)
    note h = commit_ready [OF I(1), of u us]
    show ?thesis using commit_step [OF h(1) _ h(2)] c ok u by fastforce
  qed
  moreover have "recover_rob rf rob \<noteq> None" using recover_run [OF I(1)] by (metis option.distinct(1))
  ultimately show ?thesis using CheckRegisterFile_run [OF rob_invD(1) [OF I(1)]] by blast
qed

theorem renaming_never_fails_witness:
  "\<exists>rf rob. small_file \<bind> two_uops = Some (rf, rob) \<and> CheckRegisterFile rf = Some () \<and> recover_rob rf rob \<noteq> None"
proof (rule small_run [where late = True])
  fix rf rob assume r: "small_file \<bind> two_uops = Some (rf, rob)" "rf_reach KindPrivate True rf rob []"
  show ?thesis using r(1) renaming_never_fails [OF r(2)] by blast
qed

section \<open>Where the inputs of a uop come from\<close>

text \<open>The top of the floating-point stack as of a uop in the reorder buffer.\<close>

definition top_of :: "register_file \<Rightarrow> uop list \<Rightarrow> nat \<Rightarrow> int" where
  "top_of rf rob j = foldr (\<lambda>u t. undo_top (ui_opcode (uo_uinst u)) t) (drop (Suc j) rob) (rf_top rf)"

text \<open>\<open>writes k rf rob i l e\<close>: the output \<open>e\<close> of the uop \<open>i\<close> is the logical register \<open>l\<close> of the class \<open>k\<close>.\<close>

definition writes :: "rclass \<Rightarrow> register_file \<Rightarrow> uop list \<Rightarrow> nat \<Rightarrow> nat \<Rightarrow> nat \<Rightarrow> bool" where
  "writes k rf rob i l e \<longleftrightarrow> e < MaxODeps \<and> dep_class (odep (rob ! i) e) = Some k \<and> dep_number k (top_of rf rob i) (odep (rob ! i) e) = l"

lemma undo_all:
  assumes "0 \<le> t \<and> t < 8"
  shows "foldr (\<lambda>u t. undo_top (ui_opcode (uo_uinst u)) t) us (top_after t us) = t"
  using assms
proof (induction us arbitrary: t)
  case (Cons u us)
  then show ?case using op_top_range [OF Cons.prems] undo_op_top [OF Cons.prems] by simp
qed simp

lemma top_after_range: "0 \<le> t \<and> t < 8 \<Longrightarrow> 0 \<le> top_after t us \<and> top_after t us < 8"
  by (induction us arbitrary: t) (simp_all add: op_top_range)

lemma top_of_run:
  assumes "rob_inv t R rf rob"
  shows "top_of rf rob j = top_after t (take (Suc j) rob)"
proof -
  have "rf_top rf = top_after (top_after t (take (Suc j) rob)) (drop (Suc j) rob)"
    using rob_invD(2) [OF assms] by (metis append_take_drop_id top_after_simps(3))
  then show ?thesis unfolding top_of_def using undo_all [OF top_after_range [OF rob_invD(3) [OF assms]]] by simp
qed

lemma last_of_moves:
  "(\<exists>e < n. dep_index k t (odep u e) = Some l \<and> last_new r (steps l (moves k t u [0..<n])) = uo_outputs u ! e \<and>
      (\<forall>e'. e < e' \<and> e' < n \<longrightarrow> dep_index k t (odep u e') \<noteq> Some l)) \<or>
    (\<forall>e < n. dep_index k t (odep u e) \<noteq> Some l) \<and> last_new r (steps l (moves k t u [0..<n])) = r"
proof (induction n)
  case (Suc n)
  have s: "steps l (moves k t u [0..<Suc n]) = steps l (moves k t u [0..<n]) @
      (if dep_index k t (odep u n) = Some l then [(uo_outputs u ! n, uo_old_outputs u ! n)] else [])"
    by (auto simp: steps_def split: option.splits)
  show ?case
  proof (cases "dep_index k t (odep u n) = Some l")
    case True
    then show ?thesis unfolding s by (intro disjI1 exI [of _ n]) (auto simp: last_new_append)
  next
    case False
    then show ?thesis using Suc unfolding s by (auto simp: less_Suc_eq)
  qed
qed (simp add: steps_def)

lemma last_writer:
  assumes I: "rob_inv t R rf rob" and j: "j \<le> length rob"
  shows "(\<exists>i < j. \<exists>e. writes k rf rob i l e \<and> last_new r (steps l (in_flight k t (take j rob))) = uo_outputs (rob ! i) ! e \<and>
      (\<forall>e' > e. \<not> writes k rf rob i l e') \<and> (\<forall>i'. i < i' \<and> i' < j \<longrightarrow> (\<forall>e'. \<not> writes k rf rob i' l e'))) \<or>
    (\<forall>i < j. \<forall>e. \<not> writes k rf rob i l e) \<and> last_new r (steps l (in_flight k t (take j rob))) = r"
  using j
proof (induction j)
  case (Suc j)
  let ?t = "top_after t (take (Suc j) rob)" and ?r = "last_new r (steps l (in_flight k t (take j rob)))"
  have tk: "take (Suc j) rob = take j rob @ [rob ! j]" using Suc.prems by (simp add: take_Suc_conv_app_nth)
  have w: "writes k rf rob j l e \<longleftrightarrow> e < 4 \<and> dep_index k ?t (odep (rob ! j) e) = Some l" for e
    unfolding writes_def top_of_run [OF I] by (auto simp: dep_index_def MaxODeps_def)
  have s: "last_new r (steps l (in_flight k t (take (Suc j) rob))) = last_new ?r (steps l (moves k ?t (rob ! j) [0..<4]))"
    unfolding tk in_flight_append by (simp add: steps_def last_new_append all_moves_def del: upt_conv_Cons)
  consider (new) e where "writes k rf rob j l e" "last_new ?r (steps l (moves k ?t (rob ! j) [0..<4])) = uo_outputs (rob ! j) ! e"
      "\<forall>e' > e. \<not> writes k rf rob j l e'"
    | (old) "\<forall>e. \<not> writes k rf rob j l e" "last_new ?r (steps l (moves k ?t (rob ! j) [0..<4])) = ?r"
    using last_of_moves [of 4 k ?t "rob ! j" l ?r] unfolding w by blast
  then show ?case
  proof cases
    case new
    then show ?thesis unfolding s by (intro disjI1 exI [of _ j]) auto
  next
    case old
    consider (a) i e where "i < j" "writes k rf rob i l e" "?r = uo_outputs (rob ! i) ! e" "\<forall>e' > e. \<not> writes k rf rob i l e'"
        "\<forall>i'. i < i' \<and> i' < j \<longrightarrow> (\<forall>e'. \<not> writes k rf rob i' l e')"
      | (b) "\<forall>i < j. \<forall>e. \<not> writes k rf rob i l e" "?r = r"
      using Suc.IH [OF Suc_leD [OF Suc.prems]] by (elim disjE exE conjE) (rule that; assumption)+
    then show ?thesis
    proof cases
      case a
      have v: "last_new ?r (steps l (moves k ?t (rob ! j) [0..<4])) = uo_outputs (rob ! i) ! e" by (rule trans [OF old(2) a(3)])
      have n: "\<forall>i'. i < i' \<and> i' < Suc j \<longrightarrow> (\<forall>e'. \<not> writes k rf rob i' l e')" using a(5) old(1) by (auto simp: less_Suc_eq)
      show ?thesis unfolding s v by (intro disjI1 exI [of _ i] exI [of _ e] conjI less_SucI a(1,2,4) n refl)
    next
      case b
      then show ?thesis using old unfolding s by (auto simp: less_Suc_eq)
    qed
  qed
qed (simp add: steps_def)

lemma later_outputs:
  assumes I: "rob_inv t R rf rob" and j: "j < length rob" "d < 3" "dep_class (idep (rob ! j) d) = Some k" and i: "j \<le> i" "i < length rob"
  shows "uo_inputs (rob ! j) ! d \<notin> outs k (rob ! i)"
proof
  assume o: "uo_inputs (rob ! j) ! d \<in> outs k (rob ! i)"
  have e: "outs k (rob ! i) \<inter> set (R k) = {}" using rob_invD(5) [OF I i(2)] unfolding entry_ok_def by blast
  obtain v where v: "v \<in> set (take j rob)" "uo_inputs (rob ! j) ! d \<in> outs k v" using inputs_used(2) [OF I j] o e by blast
  then obtain n where n: "n < j" "v = rob ! n" using j(1) by (auto simp: in_set_conv_nth)
  then show False using outs_disjoint [OF I, of n i k] i v(2) o by auto
qed

lemma input_value:
  assumes I: "rob_inv t R rf rob" and j: "j < length rob" "d < 3" "dep_class (idep (rob ! j) d) = Some k"
    and l: "l = dep_number k (top_of rf rob j) (idep (rob ! j) d)"
  shows "uo_inputs (rob ! j) ! d = last_new (R k ! l) (steps l (in_flight k t (take j rob)))" "l < length (R k)"
proof -
  show lt: "l < length (R k)" using dep_number_less [OF j(3)] file_invD(2) [OF rob_invD(1) [OF I]] unfolding l by simp
  then show "uo_inputs (rob ! j) ! d = last_new (R k ! l) (steps l (in_flight k t (take j rob)))"
    using rob_invD(5) [OF I j(1)] j(2,3) unfolding entry_ok_def mapped_input_def l top_of_run [OF I] by simp
qed

text \<open>
  C37: Renaming keeps the data flow of the program. An input of a uop in the reorder buffer is the register that the
  last uop before it to write the logical register received for that output, or, when no uop before it in the
  buffer writes it, a register that no uop in the buffer writes, the one that is mapped now if no later uop
  renamed it either. No uop from it on receives that register, and it is not free.
\<close>

theorem inputs_come_from_last_writer:
  assumes "rf_reach kind late rf rob gone" "j < length rob" "d < MaxIDeps" "dep_class (idep (rob ! j) d) = Some k"
    "l = dep_number k (top_of rf rob j) (idep (rob ! j) d)" "p = uo_inputs (rob ! j) ! d"
  shows "((\<exists>i < j. \<exists>e. writes k rf rob i l e \<and> p = uo_outputs (rob ! i) ! e \<and> (\<forall>e' > e. \<not> writes k rf rob i l e') \<and>
        (\<forall>i'. i < i' \<and> i' < j \<longrightarrow> (\<forall>e'. \<not> writes k rf rob i' l e'))) \<or>
      (\<forall>i < j. \<forall>e. \<not> writes k rf rob i l e) \<and> (\<forall>i < length rob. p \<notin> outs k (rob ! i)) \<and>
        ((\<forall>i < length rob. \<forall>e. \<not> writes k rf rob i l e) \<longrightarrow> p = rc_rat (class_at k rf) ! l)) \<and>
    (\<forall>i. j \<le> i \<and> i < length rob \<longrightarrow> p \<notin> outs k (rob ! i)) \<and> isRegisterFree k p rf = Some False"
proof -
  obtain t R where I: "rob_inv t R rf rob" by (rule state_okE [OF reach_inv [OF assms(1)]])
  have d: "d < 3" using assms(3) by (simp add: MaxIDeps_def)
  note in_j = assms(2) d assms(4) and F = file_invD(1) [OF rob_invD(1) [OF I], of k]
  note pv = input_value [OF I in_j assms(5), folded assms(6)]
  have old: "p \<notin> outs k (rob ! i)" if "p = R k ! l" "i < length rob" for i
    using rob_invD(5) [OF I that(2)] nth_mem [OF pv(2)] that(1) unfolding entry_ok_def by blast
  have now: "rc_rat (class_at k rf) ! l = R k ! l" if "\<forall>i < length rob. \<forall>e. \<not> writes k rf rob i l e"
    using last_writer [OF I order_refl, of k l "R k ! l"] that mapped_now [OF F] pv(2) by auto
  have "0 < uses (rat rf k) (in_flight k t rob) p" using inputs_used(1) [OF I in_j] assms(6) by simp
  then have "isRegisterFree k p rf = Some False"
    using booksD(7,9) [OF class_invD(1) [OF F], of p] register_at_run [OF class_invD(1) [OF F], of p] by (simp add: isRegisterFree_def)
  moreover have "\<forall>i. j \<le> i \<and> i < length rob \<longrightarrow> p \<notin> outs k (rob ! i)" using later_outputs [OF I in_j] assms(6) by blast
  ultimately show ?thesis
    using last_writer [OF I less_imp_le [OF assms(2)], of k l "R k ! l", folded pv(1)] old now by metis
qed

theorem inputs_come_from_last_writer_witness:
  "\<exists>rf rob. small_file \<bind> two_uops = Some (rf, rob) \<and> isRegisterFree RInt 7 rf = Some False \<and> 7 \<notin> outs RInt (rob ! 1)"
proof (rule small_run [where late = True])
  fix rf rob assume r: "small_file \<bind> two_uops = Some (rf, rob)" "rf_reach KindPrivate True rf rob []" "length rob = 2"
    "uo_inputs (rob ! 1) ! 0 = 7" "idep (rob ! 1) 0 = 1"
  have "dep_class (idep (rob ! 1) 0) = Some RInt" using r(5) by (simp add: dep_class_def isIntegerDependency_def dep_defs)
  from inputs_come_from_last_writer [OF r(2) _ _ this refl refl] show ?thesis using r(1,3,4) by (auto simp: MaxIDeps_def)
qed

section \<open>Readiness\<close>

text \<open>
  C38: Where no load completes after it was squashed, a uop is ready exactly when every uop that produces one of its
  inputs has completed: it neither starts too early nor waits for more than its operands.
\<close>

theorem ready_when_producers_completed:
  assumes "rf_reach kind False rf rob gone" "j < length rob"
  shows "\<exists>u. isUopReady rf (rob ! j) = Some (\<forall>d < MaxIDeps. \<forall>k. dep_class (idep (rob ! j) d) = Some k \<longrightarrow>
    (\<forall>i < j. uo_inputs (rob ! j) ! d \<in> outs k (rob ! i) \<longrightarrow> uo_completed (rob ! i)), u)"
proof -
  obtain t R where I: "rob_inv t R rf rob" and op: "outputs_pending rf rob" using state_okE [OF reach_inv [OF assms(1)]] by metis
  have "pend rf k (uo_inputs (rob ! j) ! d) \<longleftrightarrow> (\<exists>i < j. uo_inputs (rob ! j) ! d \<in> outs k (rob ! i) \<and> \<not> uo_completed (rob ! i))"
    if d: "d < 3" "dep_class (idep (rob ! j) d) = Some k" for d k
  proof
    assume "pend rf k (uo_inputs (rob ! j) ! d)"
    then obtain i where i: "i < length rob" "\<not> uo_completed (rob ! i)" "uo_inputs (rob ! j) ! d \<in> outs k (rob ! i)"
      using rob_invD(6) [OF I] by (metis in_set_conv_nth)
    then have "\<not> j \<le> i" using later_outputs [OF I assms(2) d] by blast
    then show "\<exists>i < j. uo_inputs (rob ! j) ! d \<in> outs k (rob ! i) \<and> \<not> uo_completed (rob ! i)" using i(2,3) by (metis not_le)
  next
    assume "\<exists>i < j. uo_inputs (rob ! j) ! d \<in> outs k (rob ! i) \<and> \<not> uo_completed (rob ! i)"
    then show "pend rf k (uo_inputs (rob ! j) ! d)" using op assms(2) unfolding outputs_pending_def by (meson less_trans nth_mem)
  qed
  then have eq: "no_pending rf (rob ! j) \<longleftrightarrow> (\<forall>d < MaxIDeps. \<forall>k. dep_class (idep (rob ! j) d) = Some k \<longrightarrow>
      (\<forall>i < j. uo_inputs (rob ! j) ! d \<in> outs k (rob ! i) \<longrightarrow> uo_completed (rob ! i)))"
    unfolding no_pending_def MaxIDeps_def by blast
  obtain u where "isUopReady rf (rob ! j) = Some (no_pending rf (rob ! j), u)" by (rule ready_run [OF I assms(2)])
  then show ?thesis unfolding eq by blast
qed

theorem ready_when_producers_completed_witness:
  "\<exists>rf rob u. small_file \<bind> two_uops = Some (rf, rob) \<and> isUopReady rf (rob ! 1) = Some (\<forall>d < MaxIDeps. \<forall>k.
    dep_class (idep (rob ! 1) d) = Some k \<longrightarrow> (\<forall>i < 1. uo_inputs (rob ! 1) ! d \<in> outs k (rob ! i) \<longrightarrow> uo_completed (rob ! i)), u)"
proof (rule small_run [where late = False])
  fix rf rob assume r: "small_file \<bind> two_uops = Some (rf, rob)" "rf_reach KindPrivate False rf rob []" "length rob = 2"
  then have "1 < length rob" by simp
  from ready_when_producers_completed [OF r(2) this] show ?thesis using r(1) by blast
qed

section \<open>Recovery\<close>

lemma dispatch_all_run:
  assumes "rob_inv t R rf rob" "\<forall>ui \<in> set uis. length (ui_dep ui) = MaxDeps \<and> store_ok ui" "dispatch_all kind uis (rf, rob) = Some (rf1, rob1)"
  obtains us where "rob1 = rob @ us" "rob_inv t R rf1 rob1" "\<And>u. u \<in> set us \<Longrightarrow> uo_speculative_mode u"
    "\<And>k p. pend rf1 k p \<longleftrightarrow> pend rf k p \<or> (\<exists>u \<in> set us. p \<in> outs k u)" "\<And>k p u. u \<in> set us \<Longrightarrow> p \<in> outs k u \<Longrightarrow> \<not> pend rf k p"
    "\<And>k. rc_local_size (class_at k rf1) = rc_local_size (class_at k rf)"
  using assms
proof (induction uis arbitrary: rf rob thesis)
  case Nil
  then show ?case by simp
next
  case (Cons ui uis)
  obtain u rf2 u2 where c: "uop_create ui True = Some u" "canRename kind rf u" "Rename rf u = Some (rf2, u2)"
    "dispatch_all kind uis (rf2, rob @ [u2]) = Some (rf1, rob1)"
    using Cons.prems(4) by (auto simp: dispatch_one_def Option.bind_eq_Some_conv c_assert_def split: if_splits)
  obtain r: "rob_inv t R rf2 (rob @ [u2])" "uo_speculative_mode u2" "\<And>k p. pend rf2 k p \<longleftrightarrow> pend rf k p \<or> p \<in> outs k u2"
    "\<And>k p. p \<in> outs k u2 \<Longrightarrow> \<not> pend rf k p" "\<And>k. rc_local_size (class_at k rf2) = rc_local_size (class_at k rf)"
    using rename_ok [OF Cons.prems(2) _ _ c(1,2)] Cons.prems(3) c(3) by (metis list.set_intros(1) option.inject prod.inject)
  obtain us where us: "rob1 = (rob @ [u2]) @ us" "rob_inv t R rf1 rob1" "\<And>u. u \<in> set us \<Longrightarrow> uo_speculative_mode u"
    "\<And>k p. pend rf1 k p \<longleftrightarrow> pend rf2 k p \<or> (\<exists>u \<in> set us. p \<in> outs k u)" "\<And>k p u. u \<in> set us \<Longrightarrow> p \<in> outs k u \<Longrightarrow> \<not> pend rf2 k p"
    "\<And>k. rc_local_size (class_at k rf1) = rc_local_size (class_at k rf2)"
    using Cons.IH [OF _ r(1) _ c(4)] Cons.prems(3) by (metis list.set_intros(2))
  show ?case
    by (rule Cons.prems(1) [of "u2 # us"]) (use us r in auto)
qed

lemma recover_end:
  assumes "\<And>v. v \<in> set (drop n (rob @ us)) \<Longrightarrow> uo_speculative_mode v" "0 < n \<Longrightarrow> \<not> uo_speculative_mode ((rob @ us) ! (n - 1))"
    and us: "\<And>v. v \<in> set us \<Longrightarrow> uo_speculative_mode v" and rob: "rob = [] \<or> \<not> uo_speculative_mode (last rob)" and n: "n \<le> length (rob @ us)"
  shows "n = length rob"
proof (rule ccontr)
  assume "n \<noteq> length rob"
  then consider "length rob < n" | "n < length rob" by linarith
  then show False
  proof cases
    case 1
    then have "(rob @ us) ! (n - 1) \<in> set us" using n by (auto simp: nth_append)
    then show False using us assms(2) 1 by auto
  next
    case 2
    then have "last rob \<in> set (drop n (rob @ us))" using last_in_set [of "drop n rob"] by (simp add: last_drop)
    moreover have "rob \<noteq> []" using 2 by auto
    ultimately show False using assms(1) rob by blast
  qed
qed

lemma same_uops_same_registers:
  assumes I: "rob_inv t R rf rob" "rob_inv t R rf' rob" and size: "rc_local_size (class_at k rf') = rc_local_size (class_at k rf)"
  shows "rc_rat (class_at k rf') = rc_rat (class_at k rf)" "set (free_list (class_at k rf')) = set (free_list (class_at k rf))"
    "rc_num_free (class_at k rf') = rc_num_free (class_at k rf)"
proof -
  note F = file_invD(1) [OF rob_invD(1) [OF I(1)], of k] file_invD(1) [OF rob_invD(1) [OF I(2)], of k]
  note b = class_invD(1) [OF F(1)] class_invD(1) [OF F(2)]
  show r: "rc_rat (class_at k rf') = rc_rat (class_at k rf)" unfolding mapped_now [OF F(1)] mapped_now [OF F(2)] ..
  show s: "set (free_list (class_at k rf')) = set (free_list (class_at k rf))"
    unfolding booksD(12) [OF b(1)] booksD(12) [OF b(2)] r in_range_size [OF size] ..
  have "length (free_list (class_at k rf')) = length (free_list (class_at k rf))"
    using distinct_card [OF booksD(11) [OF b(1)]] distinct_card [OF booksD(11) [OF b(2)]] s by simp
  then show "rc_num_free (class_at k rf') = rc_num_free (class_at k rf)"
    using booksD(2,3,4) [OF b(1)] booksD(2,3,4) [OF b(2)] by (simp add: free_list_def)
qed



section \<open>Progress\<close>

lemma need_le: "need k u \<le> 4"
proof -
  have "class_count k u (plain_deps u 4) \<le> length [0..<4]"
    unfolding class_count_def plain_deps_def by (meson length_filter_le order_trans)
  then show ?thesis by (simp add: need_def Let_def)
qed

text \<open>
  With private register files, a thread never starves for registers: once its reorder buffer is empty, it can
  rename any uop, whatever was renamed, squashed and committed before.
\<close>

theorem drained_thread_can_rename:
  assumes "rf_reach KindPrivate late rf [] gone" "length (ui_dep ui) = MaxDeps" "uop_create ui spec = Some u"
  shows "canRename KindPrivate rf u"
proof -
  obtain t R where I: "rob_inv t R rf []" by (rule state_okE [OF reach_inv [OF assms(1)]])
  have len: "length (ui_dep ui) = 7" using assms(2) by (simp add: MaxDeps_def MaxIDeps_def MaxODeps_def)
  have c: "counts_ok u" using uop_create_run [OF len, of spec] assms(3) by (metis option.inject)
  have "rc_occupied (class_at k rf) + int (need k u) \<le> rc_local_size (class_at k rf)" for k
  proof -
    note b = class_invD(1) [OF file_invD(1) [OF rob_invD(1) [OF I], of k]]
    have "uses (rat rf k) [] = count_list (rat rf k)" by (simp add: uses_def olds_def fun_eq_iff)
    then have "rc_local_size (class_at k rf) - int (rat_size k) \<le> rc_num_free (class_at k rf)"
      using books_free [of "class_at k rf" "rat rf k"] b file_invD(3) [OF rob_invD(1) [OF I], of k] by simp
    then have "rc_occupied (class_at k rf) \<le> int (rat_size k)" using booksD(5) [OF b] by simp
    moreover have "int (rat_size k) + 4 \<le> rc_local_size (class_at k rf)" using rob_invD(8) [OF I] unfolding big_enough_def by blast
    ultimately show ?thesis using need_le [of k u] by linarith
  qed
  from this [of RInt] this [of RFp] this [of RXmm] show ?thesis
    using c by (simp add: canRename_def counts_ok_def class_at_def)
qed

theorem drained_thread_can_rename_witness:
  "\<exists>rf u. small_file = Some rf \<and> uop_create mult_uinst False = Some u \<and> canRename KindPrivate rf u"
proof (rule small_file_reach [where late = True])
  fix rf assume r: "small_file = Some rf" "rf_reach KindPrivate True rf [] []"
  obtain u where "uop_create mult_uinst False = Some u" using create_some [OF small_uinsts(2)] by blast
  then show ?thesis using r(1) drained_thread_can_rename [OF r(2) small_uinsts(2)] by blast
qed

section \<open>A load that completes after it was squashed\<close>

definition late_load :: "bool \<Rightarrow> (register_file \<times> uop list \<times> uop) option" where
  "late_load written = do {
     rf \<leftarrow> small_file;
     (rf, rob) \<leftarrow> dispatch_one KindPrivate True load_uinst (rf, []);
     (ok, load) \<leftarrow> isUopReady rf (rob ! 0);
     (rf, rob) \<leftarrow> recover_rob rf (rob[0 := load]);
     (rf, rob) \<leftarrow> two_uops rf;
     rf \<leftarrow> (if written then WriteUop rf load else Some rf);
     Some (rf, rob, load) }"

lemma late_load_reach:
  assumes "late_load written = Some (rf, rob, load)" "ui_opcode (uo_uinst load) = OpcodeLoad" "uo_ready load" "\<not> uo_completed load"
    "uo_speculative_mode load"
  shows "\<exists>gone. rf_reach KindPrivate True rf rob gone"
proof -
  obtain rf0 rf1 rob1 ok rf2 rob2 rf3 where r: "small_file = Some rf0" "dispatch_one KindPrivate True load_uinst (rf0, []) = Some (rf1, rob1)"
    "isUopReady rf1 (rob1 ! 0) = Some (ok, load)" "recover_rob rf1 (rob1[0 := load]) = Some (rf2, rob2)" "two_uops rf2 = Some (rf3, rob)"
    "(if written then WriteUop rf3 load else Some rf3) = Some rf"
    using assms(1) by (auto simp: late_load_def Option.bind_eq_Some_conv)
  have "rf_reach KindPrivate True rf0 [] []" using small_file_reach r(1) by (metis option.inject)
  then have 1: "rf_reach KindPrivate True rf1 rob1 []" by (rule reach_dispatch_one [OF _ small_uinsts(1,4) r(2)])
  obtain u where u: "rob1 = [u]" using r(2) by (auto simp: dispatch_one_def Option.bind_eq_Some_conv split: prod.splits)
  have 2: "rf_reach KindPrivate True rf1 [load] []" using rf_reach.issue [OF 1, of 0 ok load] r(3) u by simp
  have "rob2 = []"
    using r(4) assms(5) u by (auto simp: recover_rob.simps [of rf1 "[load]"] recover_rob.simps [of _ "[]"] Option.bind_eq_Some_conv)
  then have 3: "rf_reach KindPrivate True rf2 [] [load]" using rf_reach.recover [OF 2, of rf2 rob2] r(4) u assms(2-4) by simp
  have 4: "rf_reach KindPrivate True rf3 rob [load]" by (rule two_uops_reach [OF 3 r(5)])
  show ?thesis
  proof (cases written)
    case True
    then show ?thesis using rf_reach.writeback_late [OF 4 _ _, of load rf] r(6) by auto
  qed (use 4 r(6) in auto)
qed


section \<open>The floating-point stack\<close>

text \<open>
  The position in the stack is taken modulo 8 for all floating-point registers, also for the status and control words and the
  auxiliary register, which are not part of the stack. They therefore share the entries of the mapping with the first three
  stack registers, and a write of the status word redirects the reads of the top of the stack.
\<close>

lemma status_word_is_stack_top: "stack_register DepFpst rf = stack_register DepFpFirst rf"
  by (simp add: stack_register_def dep_defs mod_add_self1)

lemma control_word_is_stack_register: "stack_register DepFpcw rf = stack_register (DepFpFirst + 1) rf"
  "stack_register DepFpaux rf = stack_register (DepFpFirst + 2) rf"
proof -
  have "(9 + rf_top rf) mod 8 = (1 + rf_top rf) mod 8" "(10 + rf_top rf) mod 8 = (2 + rf_top rf) mod 8"
    using mod_add_self1 [of 8 "1 + rf_top rf"] mod_add_self1 [of 8 "2 + rf_top rf"] by simp_all
  then show "stack_register DepFpcw rf = stack_register (DepFpFirst + 1) rf" "stack_register DepFpaux rf = stack_register (DepFpFirst + 2) rf"
    by (simp_all add: stack_register_def dep_defs)
qed

end
