(* ===== verification/Spec2Isabelle.thy ===== *)
theory Spec2Isabelle
  imports CPrelude Oblivious MergeSort BitonicSort PathOramClient UtilList UtilHeap UtilHashTable UtilLinkedList UtilBuffer UtilBitMap
    SimMemoryClient SimCache SimBitmap SimEngineRun SimDirectory SimMmu SimRoutingCycle SimSpecMemProof SimManagerClient SimRenameLaws
begin

text \<open>
  A verification development for the OISA repository: oblivious algorithms on top of the
  Multi2Sim simulator that runs them.

  \<^bold>\<open>The program.\<close> The benchmarks under \<^verbatim>\<open>src/multi2sim/bin/benchmarks/primitives\<close> are the
  repository's own algorithms: conditional moves, a linear-scan ORAM, bitonic and merge sorts and a
  Path ORAM whose stash and eviction are built from them. They run in the simulator under
  \<^verbatim>\<open>src/multi2sim/src\<close>, whose data structures this development models next: the C containers of
  \<^verbatim>\<open>lib/util\<close>, the C++ containers of \<^verbatim>\<open>lib/cpp\<close>, the discrete-event engine of \<^verbatim>\<open>lib/esim\<close>, and
  the memory of the guest, its caches, their directories and the address translation in \<^verbatim>\<open>memory\<close>, and the
  interconnection networks of \<^verbatim>\<open>network\<close> with their routing, and the register renaming of the x86
  pipeline in \<^verbatim>\<open>arch/x86/timing\<close>.

  \<^bold>\<open>Conventions.\<close> A run that may stop abnormally returns an option, and \<^term>\<open>None\<close> stands for
  a failed assertion, a panic, an access outside an array, a null dereference, a division by zero or a
  loop that does not end; that a function equals \<open>Some r\<close> says that it is memory safe, passes its
  assertions, terminates and returns \<open>r\<close>. Exceptions the program itself handles (the memory's) are
  values of a sum. Machine integers are words where their width shows; a size or index that the code
  keeps below its width is a natural number, and the theories say where that is so. A loop that is
  bounded is \<open>for_loop\<close> or a recursion with a measure; a loop that may run forever is a
  \<open>partial_function\<close>, and theorems state that it returns. The only fuel is the depth of the search in \<open>SimGraph\<close>.

  \<^bold>\<open>Theories.\<close>
  \<^item> \<open>CPrelude\<close>: array accesses, loops with their rules, flat arrays of blocks.
    \<open>Bytes\<close>: copying of byte ranges. \<open>Interfaces\<close>: the locales of queues, stacks, replacement orders,
    priority queues and abstract data types driven by sequences of calls. Each is interpreted in
    the theories of the components that provide it.
  \<^item> \<open>Oblivious\<close>: \<^verbatim>\<open>lib/asm.h\<close>, \<^verbatim>\<open>lib/misc.c\<close>, \<^verbatim>\<open>scan_oram/scan_oram.c\<close>.
  \<^item> \<open>MergeSort\<close>, \<open>BitonicSort\<close>: \<^verbatim>\<open>sort/merge_sort.c\<close> and \<^verbatim>\<open>sort/bitonic_sort.c\<close>, all five variants. Both
    return sorted permutations; the bitonic sort for lengths that are powers of two, by the zero-one
    principle; the bitonic sort is wrong for mixed directions of its two keys. This root theory proves that on
    integers the two agree.
  \<^item> \<open>PathOram\<close> holds the definitions of \<^verbatim>\<open>path_oram/path_oram.c\<close> on the flat arrays of the code.
    \<open>PathOramLevel\<close> proves the level arithmetic of \<^verbatim>\<open>PushBack\<close>, \<open>PathOramBlocks\<close> the abstraction of the
    tree and the stash to blocks, \<open>PathOramLoops\<close> the loops, \<open>PathOramProof\<close> and \<open>PathOramAccess\<close> the
    fetch and store phases and the invariant, \<open>PathOramClient\<close> the refinement of a map from ids to
    blocks and the client \<^verbatim>\<open>main.c\<close>.
  \<^item> \<open>UtilList\<close>, \<open>UtilHeap\<close>, \<open>UtilHashTable\<close>, \<open>UtilLinkedList\<close>, \<open>UtilBuffer\<close>, \<open>UtilBitMap\<close>: the files
    \<^verbatim>\<open>list.c\<close>, \<^verbatim>\<open>heap.c\<close>, \<^verbatim>\<open>hash-table.c\<close>, \<^verbatim>\<open>linked-list.c\<close>, \<^verbatim>\<open>buffer.c\<close>, \<^verbatim>\<open>bit-map.c\<close> of \<^verbatim>\<open>lib/util\<close>. Each
    refines its abstract type (sequence, stable priority queue, map, sequence with a cursor, byte stream,
    bits) for all sequences of calls. \<open>QuickSort\<close> proves the sorting routine that two of them share.
  \<^item> \<open>SimMemory\<close> models \<^verbatim>\<open>memory/Memory.cc\<close>: pages, permissions, accesses in safe and unsafe mode, mapping
    and the search for free space. \<open>SimMemoryProof\<close> reduces the accesses to single bytes, and
    \<open>SimMemoryClient\<close> proves that a memory is an array of bytes with permissions.
  \<^item> \<open>SimList\<close> and \<open>SimCache\<close>: \<^verbatim>\<open>lib/cpp/List.h\<close> with its nodes in a store, and \<^verbatim>\<open>memory/Cache.cc\<close> on top
    of it: lookup, fill and replacement. \<open>SimBitmap\<close>: \<^verbatim>\<open>lib/cpp/Bitmap.cc\<close>.
  \<^item> \<open>SimEngine\<close>: the event-driven engine of \<^verbatim>\<open>lib/esim\<close> (\<^verbatim>\<open>Engine.cc\<close>, \<^verbatim>\<open>Queue.cc\<close>) over a store of
    frames; the handlers of events are a parameter. \<open>SimEngineProof\<close> has its invariant and the steps a
    handler may take; \<open>SimEngineRun\<close> proves that the loop over a cycle keeps the invariant, returns, and
    runs the due frames in order, and that a queue wakes its frames in order. Overflow of the 64-bit time is
    not modelled.
  \<^item> \<open>SimDirectory\<close>: \<^verbatim>\<open>memory/Directory.cc\<close>, on top of \<open>SimBitmap\<close> and the queues of the engine: a map from
    sub-blocks to owner and sharers, and locks that hand over to the waiting accesses in order.
  \<^item> \<open>SimMmu\<close>: \<^verbatim>\<open>memory/Mmu.cc\<close>, translation between virtual and physical addresses; it refines a list of pages
    whose positions are the frames, up to the \<open>2 ^ 20\<close> frames of a 32-bit physical memory.
  \<^item> \<open>SimGraph\<close>: \<^verbatim>\<open>lib/cpp/Graph.cc\<close>; the depth-first search decides whether a graph has a cycle (its depth bound of one
    more than the number of vertices is never used up), and the cycle removal leaves none;
    removing an edge reads it after it was destroyed. \<open>SimNetwork\<close>: the nodes,
    buffers, links and buses of \<^verbatim>\<open>network\<close>, and the hops that they allow. \<open>SimRouting\<close> models
    \<^verbatim>\<open>network/RoutingTable.cc\<close>; \<open>SimRoutingProof\<close> proves that the table holds shortest paths, and
    \<open>SimRoutingCycle\<close> that packets arrive and that the check for cycles among the buffers is right for computed
    routes, but fails for routes over a bus that the user gives.
  \<^item> \<open>SimSpecMem\<close>: \<^verbatim>\<open>memory/SpecMem.cc\<close>, the writes of speculative execution kept in blocks in front of the guest
    memory; \<open>SimSpecMemProof\<close> proves that it is an overlay of at most 100 blocks that never reaches the guest memory.
  \<^item> \<open>SimManager\<close>: the allocator of guest memory, \<^verbatim>\<open>memory/Manager.cc\<close>, with its two maps of chunks and holes
    over a store of \<^verbatim>\<open>Chunk\<close> objects. \<open>SimManagerProof\<close> has the agreement of the maps with the store and
    the geometry of the chunks, \<open>SimManagerRun\<close> the parts of the calls, \<open>SimManagerOps\<close> and
    \<open>SimManagerClient\<close> the calls and the sequences of them: what is allocated is apart, aligned and mapped, a release
    undoes an allocation, and what goes wrong when the allocator is misused.
  \<^item> \<open>SimRegisterFile\<close>: register renaming in the x86 timing model, \<^verbatim>\<open>arch/x86/timing/RegisterFile.cc\<close>, with the dependences of
    micro-instructions (\<^verbatim>\<open>emulator/Uinst.h\<close>) and uops (\<^verbatim>\<open>Uop.cc\<close>). \<open>SimRegisterFileProof\<close> has the counters and the free list of one
    class of registers and the moves of its mapping, \<open>SimRegisterFileRun\<close> the calls, \<open>SimRegisterFileRob\<close> the
    invariant with the reorder buffer and the constructor, and \<open>SimRegisterFileClient\<close> the steps that keep it. \<open>SimRename\<close> is the
    step relation of a pipeline that uses the register file (dispatch, issue, writeback, commit, recovery), and \<open>SimRenameLaws\<close>
    what holds in its reachable states: no assertion fails, inputs come from the last writer, a uop is ready exactly when its producers have
    completed, and recovery restores the state in front of a wrong path; and what a load does that completes after it was squashed.

  \<^bold>\<open>Not modelled.\<close> The instruction sets, drivers and, apart from register renaming, pipelines under \<^verbatim>\<open>arch\<close>, the coherence protocol of
  \<^verbatim>\<open>memory/System*.cc\<close> and the module that runs it, the transfer of packets in \<^verbatim>\<open>network\<close>, and \<^verbatim>\<open>dram\<close>: large parts of the simulator
  that rest on the components above. Output, configuration files, terminals, tracing and the graphical
  front end only format text; of \<^verbatim>\<open>Graph.cc\<close> the layout of drawings is left out. Freeing of memory is left out of every component, except where a freed
  object could still be reached (\<open>UtilLinkedList\<close>, \<open>SimGraph\<close>, \<open>SimManager\<close>). Third-party code (gtest, vendor headers of the device
  runtimes, the cryptographic benchmarks) is not the program's own.
\<close>

section \<open>The two sorts agree\<close>

text \<open>Integers have only one sorted order, in either direction.\<close>

lemma sorted_int_unique:
  assumes "d \<in> directions" "mset xs = mset ys" "sorted_wrt (key_le d) xs" "sorted_wrt (key_le d) (ys :: int list)"
  shows "xs = ys"
proof (cases "d = ASCENDING")
  case True
  then have "key_le d = ((\<le>) :: int \<Rightarrow> _)" by (simp add: key_le_def fun_eq_iff ASCENDING_def DESCENDING_def)
  then show ?thesis using assms(2-4) by (metis properties_for_sort)
next
  case False
  then have "key_le d = (\<lambda>x y. y \<le> (x :: int))" using assms(1) by (simp add: key_le_def fun_eq_iff directions_def ASCENDING_def DESCENDING_def)
  then have "sorted (rev xs)" "sorted (rev ys)" "mset (rev xs) = mset (rev ys)"
    using assms(2-4) by (simp_all add: sorted_wrt_rev)
  then show ?thesis by (metis properties_for_sort rev_rev_ident)
qed

text \<open>
  on an array whose length is a power of two the bitonic sort and the merge sort are the same function:
  whatever the merge sort's buffers contain, both return, and they return the same array.
\<close>

theorem bitonic_sort_equals_merge_sort:
  assumes "length xs = 2 ^ n" "d \<in> directions"
  shows "\<exists>ys. BitonicSort_Int xs (length xs) d = Some ys \<and> MergeSort_Int junk xs (length xs) d = Some ys"
proof -
  obtain ys where ys: "BitonicSort_Int xs (length xs) d = Some ys" "mset ys = mset xs" "sorted_wrt (key_le d) ys"
    using BitonicSort_Int_run [OF assms] by blast
  obtain zs where zs: "MergeSort_Int junk xs (length xs) d = Some zs" "mset zs = mset xs" "sorted_wrt (key_le d) zs"
    using MergeSort_Int_run [OF assms(2)] by blast
  have "ys = zs" by (rule sorted_int_unique [OF assms(2)]) (use ys zs in simp_all)
  then show ?thesis using ys zs by blast
qed

theorem bitonic_sort_equals_merge_sort_witness:
  "\<exists>ys. BitonicSort_Int [3, -1, 7, 3] 4 DESCENDING = Some ys \<and> MergeSort_Int (\<lambda>_. 9) [3, -1, 7, 3] 4 DESCENDING = Some ys"
  using bitonic_sort_equals_merge_sort [of "[3, -1, 7, 3]" 2 DESCENDING "\<lambda>_. 9"]
  by (simp add: directions_def eval_nat_numeral)

end
